(* ===== verification/Prelude.thy ===== *)
theory Prelude
  imports Main "HOL-Library.Word" "HOL-Library.Char_ord" "HOL-Library.List_Lexorder"
begin

text \<open>
  Shared vocabulary of the development: the names of the machine integer types, the faults a
  C++ execution can run into, results that are a fault or a value, and the lemmas on results,
  lists and words that the component theories share.

  Undefined behaviour is a value of the model. A definition returns \<open>Inl f\<close> exactly where the
  code would dereference a null pointer, leave a memory block, run off the end of a function
  that has to return a value, and so on; \<open>Inr x\<close> is a normal return.
\<close>

unbundle bit_operations_syntax

type_synonym u8 = "8 word"
type_synonym u16 = "16 word"
type_synonym u32 = "32 word"
type_synonym u64 = "64 word"

datatype fault =
    NullDeref        \<comment> \<open>access through a null pointer\<close>
  | OutOfBounds      \<comment> \<open>access outside the memory block a pointer points into\<close>
  | FreedBlock       \<comment> \<open>the block was released while a pointer to it is kept\<close>
  | MissingReturn    \<comment> \<open>control runs off the end of a non-void function\<close>
  | SignedOverflow   \<comment> \<open>a signed integer passes its largest value\<close>
  | BadConversion    \<comment> \<open>a floating point value outside the range of the integer type\<close>

type_synonym 'a res = "fault + 'a"

primrec bindR :: "'a res \<Rightarrow> ('a \<Rightarrow> 'b res) \<Rightarrow> 'b res" where
  "bindR (Inl e) f = Inl e"
| "bindR (Inr x) f = f x"

named_theorems res_simps \<open>inversion of results that are built with bindR\<close>

lemma bindR_cong [fundef_cong]:
  "m = m' \<Longrightarrow> (\<And>x. m' = Inr x \<Longrightarrow> f x = f' x) \<Longrightarrow> bindR m f = bindR m' f'"
  by (cases m') auto

lemma bindR_eq_Inr [res_simps]: "bindR m f = Inr y \<longleftrightarrow> (\<exists>x. m = Inr x \<and> f x = Inr y)"
  by (cases m) auto

lemma bindR_eq_Inl [res_simps]:
  "bindR m f = Inl e \<longleftrightarrow> m = Inl e \<or> (\<exists>x. m = Inr x \<and> f x = Inl e)"
  by (cases m) auto

lemma bindR_assoc: "bindR (bindR m f) g = bindR m (\<lambda>x. bindR (f x) g)"
  by (cases m) auto

lemma bindR_Inr_right [simp]: "bindR m Inr = m"
  by (cases m) auto

lemma not_Inl_iff: "(\<forall>e. m \<noteq> Inl e) \<longleftrightarrow> (\<exists>x. m = Inr x)"
  by (cases m) auto

text \<open>A state-changing operation run over a list, from left to right, stopping at a fault.\<close>

primrec foldR :: "('a \<Rightarrow> 's \<Rightarrow> 's res) \<Rightarrow> 'a list \<Rightarrow> 's \<Rightarrow> 's res" where
  "foldR f [] s = Inr s"
| "foldR f (x # xs) s = bindR (f x s) (foldR f xs)"

lemma foldR_append: "foldR f (xs @ ys) s = bindR (foldR f xs s) (foldR f ys)"
proof (induction xs arbitrary: s)
  case Nil
  then show ?case by simp
next
  case (Cons x xs)
  then show ?case by (cases "f x s") simp_all
qed

lemma foldR_invariant:
  assumes step: "\<And>x s s'. x \<in> set xs \<Longrightarrow> P s \<Longrightarrow> f x s = Inr s' \<Longrightarrow> P s'"
    and start: "P s" and run: "foldR f xs s = Inr s'"
  shows "P s'"
  using assms
proof (induction xs arbitrary: s)
  case Nil
  then show ?case by simp
next
  case (Cons x xs)
  from Cons.prems(3) obtain t where t: "f x s = Inr t" "foldR f xs t = Inr s'"
    by (auto simp: res_simps)
  have "P t" using Cons.prems(1) [of x s t] Cons.prems(2) t(1) by simp
  moreover have "\<And>x s s'. x \<in> set xs \<Longrightarrow> P s \<Longrightarrow> f x s = Inr s' \<Longrightarrow> P s'"
    using Cons.prems(1) by (meson list.set_intros(2))
  ultimately show ?case using Cons.IH t(2) by blast
qed

subsection \<open>Lists\<close>

lemma take_drop_split: "n + k \<le> length xs \<Longrightarrow> take (n + k) xs = take n xs @ take k (drop n xs)"
  by (simp add: take_add)

lemma take_le_eq: "take n xs = take n ys \<Longrightarrow> k \<le> n \<Longrightarrow> take k xs = take k ys"
  by (metis min.absorb1 take_take)

lemma nth_take_eq: "take n xs = ys \<Longrightarrow> length ys = n \<Longrightarrow> i < n \<Longrightarrow> xs ! i = ys ! i"
  by (metis nth_take)

lemma drop_take_Suc: "k < length m \<Longrightarrow> drop k (take (Suc k) m) = [m ! k]"
  by (simp add: take_Suc_conv_app_nth)

lemma find_append:
  "find P (xs @ ys) = (case find P xs of None \<Rightarrow> find P ys | Some x \<Rightarrow> Some x)"
  by (induction xs) auto

lemma find_SomeD: "find P xs = Some x \<Longrightarrow> P x \<and> x \<in> set xs"
  by (auto simp: find_Some_iff)

subsection \<open>Words\<close>

lemma unat_of_nat_small: "n < 2 ^ LENGTH('a) \<Longrightarrow> unat (of_nat n :: 'a::len word) = n"
  by (simp add: unat_of_nat)

lemma unat_ucast_up:
  fixes w :: "'a::len word"
  assumes "LENGTH('a) \<le> LENGTH('b)"
  shows "unat (ucast w :: 'b::len word) = unat w"
proof -
  have "unat w < 2 ^ LENGTH('b)"
    using assms unsigned_less [of w, where 'a = nat]
    by (meson less_le_trans one_le_numeral power_increasing)
  then show ?thesis by (simp add: unsigned_ucast_eq take_bit_nat_eq_self)
qed

lemma ucast_of_nat_small:
  assumes "n < 2 ^ LENGTH('a)"
  shows "ucast (of_nat n :: 'a::len word) = (of_nat n :: 'b::len word)"
proof -
  have "ucast (of_nat n :: 'a word) = (of_nat (unat (of_nat n :: 'a word)) :: 'b word)"
    by (simp del: unsigned_of_nat)
  then show ?thesis using assms by (simp add: unat_of_nat_small)
qed

lemma unat_add_of_nat:
  fixes w :: "'a::len word"
  shows "unat w + n < 2 ^ LENGTH('a) \<Longrightarrow> unat (w + of_nat n) = unat w + n"
  by (simp add: unat_word_ariths unat_of_nat mod_add_right_eq)

lemma unat_diff_of_nat:
  fixes w :: "'a::len word"
  assumes "n \<le> unat w"
  shows "unat (w - of_nat n) = unat w - n"
proof -
  have "unat (of_nat n :: 'a word) = n"
    using assms unsigned_less [of w, where 'a = nat] by (intro unat_of_nat_small) linarith
  then show ?thesis using assms by (simp add: unat_sub word_le_nat_alt)
qed

lemma unat_neg_of_nat:
  assumes "0 < k" and "k \<le> 2 ^ LENGTH('a)"
  shows "unat (- of_nat k :: 'a::len word) = 2 ^ LENGTH('a) - k"
proof -
  have "(of_nat (2 ^ LENGTH('a) - k) :: 'a word) = of_nat (2 ^ LENGTH('a)) - of_nat k"
    using assms(2) by (rule of_nat_diff)
  then have "(of_nat (2 ^ LENGTH('a) - k) :: 'a word) = - of_nat k" by simp
  moreover have "unat (of_nat (2 ^ LENGTH('a) - k) :: 'a word) = 2 ^ LENGTH('a) - k"
    using assms(1) by (intro unat_of_nat_small) simp
  ultimately show ?thesis by simp
qed

lemma sint_nonneg:
  fixes w :: "'a::len word"
  assumes "0 \<le> sint w"
  shows "sint w = int (unat w)"
proof -
  have "(2 :: int) ^ (LENGTH('a) - Suc 0) \<le> 2 ^ LENGTH('a)"
    by (intro power_increasing) simp_all
  with sint_less [of w] have "sint w < 2 ^ LENGTH('a)" by (rule less_le_trans)
  then have "uint w = sint w"
    using assms by (simp add: uint_sint take_bit_int_eq_self)
  then show ?thesis by simp
qed

lemma sint_small:
  fixes w :: "'a::len word"
  assumes "unat w < 2 ^ (LENGTH('a) - 1)"
  shows "sint w = int (unat w)"
proof -
  have u: "uint w = int (unat w)" by simp
  have "uint w < 2 ^ (LENGTH('a) - 1)"
    using assms unfolding u by (metis of_nat_less_iff of_nat_numeral of_nat_power)
  then have "signed_take_bit (LENGTH('a) - Suc 0) (uint w) = uint w"
    by (intro signed_take_bit_int_eq_self) (auto intro: order_trans [of _ 0])
  then show ?thesis by (simp add: sint_uint)
qed

end
