(* ===== verification/CMemory.thy ===== *)
theory CMemory
  imports Prelude
begin

text \<open>
  The part of the C and C++ standard library the decoder works with: memory blocks of bytes,
  the allocator, the block and string functions of \<open>string.h\<close>, byte order conversion and
  decimal output of unsigned numbers. A byte is a \<^typ>\<open>char\<close> (eight bits). A pointer that may
  be null is an \<open>option\<close>; a pointer into a block is the block with an offset.
\<close>

section \<open>Blocks\<close>

type_synonym block = "char list"
type_synonym cptr = "(block \<times> nat) option"

text \<open>
  The allocator: which request sizes succeed, and what a fresh cell holds. Fresh memory is
  indeterminate in C, so everything proved here holds for every choice of \<open>al_junk\<close>.
\<close>

record allocator =
  al_ok :: "nat \<Rightarrow> bool"
  al_junk :: "nat \<Rightarrow> char"

definition c_malloc :: "allocator \<Rightarrow> nat \<Rightarrow> block option" where
  "c_malloc al n = (if al_ok al n then Some (map (al_junk al) [0..<n]) else None)"

text \<open>
  \<open>realloc\<close> keeps the common prefix. Resizing a block to nothing releases it while the caller
  still holds the pointer, which is the fault \<^const>\<open>FreedBlock\<close>.
\<close>

definition c_realloc :: "allocator \<Rightarrow> block option \<Rightarrow> nat \<Rightarrow> (block option) res" where
  "c_realloc al p n =
     (case p of
        None \<Rightarrow> Inr (c_malloc al n)
      | Some m \<Rightarrow>
          if n = 0 then Inl FreedBlock
          else if al_ok al n
            then Inr (Some (take n m @ map (al_junk al) [length m..<n]))
            else Inr None)"

definition c_load :: "block \<Rightarrow> nat \<Rightarrow> char res" where
  "c_load m i = (if i < length m then Inr (m ! i) else Inl OutOfBounds)"

definition c_store :: "block option \<Rightarrow> nat \<Rightarrow> char \<Rightarrow> (block option) res" where
  "c_store p i c =
     (case p of
        None \<Rightarrow> Inl NullDeref
      | Some m \<Rightarrow> if i < length m then Inr (Some (m[i := c])) else Inl OutOfBounds)"

definition c_read :: "block \<Rightarrow> nat \<Rightarrow> nat \<Rightarrow> (char list) res" where
  "c_read m i n = (if i + n \<le> length m then Inr (take n (drop i m)) else Inl OutOfBounds)"

definition c_write :: "block option \<Rightarrow> nat \<Rightarrow> char list \<Rightarrow> (block option) res" where
  "c_write p i cs =
     (if cs = [] then Inr p
      else case p of
        None \<Rightarrow> Inl NullDeref
      | Some m \<Rightarrow>
          if i + length cs \<le> length m
          then Inr (Some (take i m @ cs @ drop (i + length cs) m))
          else Inl OutOfBounds)"

definition c_memset :: "block option \<Rightarrow> nat \<Rightarrow> char \<Rightarrow> nat \<Rightarrow> (block option) res" where
  "c_memset p i c n =
     (if n = 0 then Inr p
      else case p of
        None \<Rightarrow> Inl NullDeref
      | Some m \<Rightarrow> if i + n \<le> length m then c_write p i (replicate n c) else Inl OutOfBounds)"

definition c_memcpy :: "block option \<Rightarrow> nat \<Rightarrow> block \<Rightarrow> nat \<Rightarrow> nat \<Rightarrow> (block option) res" where
  "c_memcpy dst i src j n = bindR (c_read src j n) (c_write dst i)"

subsection \<open>Facts about blocks\<close>

lemma c_malloc_length: "c_malloc al n = Some m \<Longrightarrow> length m = n"
  by (auto simp: c_malloc_def split: if_splits)

lemma c_realloc_block:
  "0 < n \<Longrightarrow> al_ok al n \<Longrightarrow>
   c_realloc al (Some m) n = Inr (Some (take n m @ map (al_junk al) [length m..<n]))"
  by (simp add: c_realloc_def)

lemma realloc_length [simp]: "length (take n m @ map f [length m..<n]) = n"
  by simp

lemma c_read_ok: "i + n \<le> length m \<Longrightarrow> c_read m i n = Inr (take n (drop i m))"
  by (simp add: c_read_def)

lemma c_write_ok:
  "i + length cs \<le> length m \<Longrightarrow>
   c_write (Some m) i cs = Inr (Some (take i m @ cs @ drop (i + length cs) m))"
  by (simp add: c_write_def)

lemma c_load_ok: "i < length m \<Longrightarrow> c_load m i = Inr (m ! i)"
  by (simp add: c_load_def)

lemma c_load_out: "length m \<le> i \<Longrightarrow> c_load m i = Inl OutOfBounds"
  by (simp add: c_load_def)

lemma c_memcpy_ok:
  assumes "j + n \<le> length src" and "i + n \<le> length m"
  shows "c_memcpy (Some m) i src j n
    = Inr (Some (take i m @ take n (drop j src) @ drop (i + n) m))"
  using assms by (simp add: c_memcpy_def c_read_ok c_write_ok)

lemma c_memcpy_out_src: "length src < j + n \<Longrightarrow> c_memcpy d i src j n = Inl OutOfBounds"
  by (simp add: c_memcpy_def c_read_def)

section \<open>Strings\<close>

text \<open>\<open>strncmp (p + i, tag, n) == 0\<close>, where \<open>tag\<close> is a literal with its closing NUL.\<close>

abbreviation NUL :: char where "NUL \<equiv> CHR 0x00"
abbreviation LF :: char where "LF \<equiv> CHR 0x0A"
abbreviation CR :: char where "CR \<equiv> CHR 0x0D"
abbreviation SP :: char where "SP \<equiv> CHR 0x20"
abbreviation COLON :: char where "COLON \<equiv> CHR 0x3A"

fun strncmp_eq :: "block \<Rightarrow> nat \<Rightarrow> char list \<Rightarrow> nat \<Rightarrow> bool res" where
  "strncmp_eq m i tag 0 = Inr True"
| "strncmp_eq m i tag (Suc n) =
     bindR (c_load m i) (\<lambda>a.
       let b = (case tag of [] \<Rightarrow> NUL | c # _ \<Rightarrow> c) in
       if a \<noteq> b then Inr False
       else if a = NUL then Inr True
       else strncmp_eq m (i + 1) (tl tag) n)"

lemma strncmp_eq_1 [simp]:
  "i < length m \<Longrightarrow> strncmp_eq m i [c] (Suc 0) = Inr (m ! i = c)"
  by (simp add: c_load_ok)

lemma strncmp_eq_2:
  "i < length m \<Longrightarrow> c \<noteq> NUL \<Longrightarrow> strncmp_eq m i [c, d] 2 =
     (if m ! i \<noteq> c then Inr False else bindR (c_load m (i + 1)) (\<lambda>b. Inr (b = d)))"
  by (cases "c_load m (Suc i)") (auto simp: numeral_2_eq_2 c_load_ok)

declare strncmp_eq.simps [simp del]

text \<open>
  Reading a C string (the argument of a \<open>%s\<close> conversion): up to the first NUL, which has to
  lie inside the block.
\<close>

definition c_string :: "block option \<Rightarrow> string res" where
  "c_string p =
     (case p of
        None \<Rightarrow> Inl NullDeref
      | Some m \<Rightarrow>
          if NUL \<in> set m then Inr (takeWhile (\<lambda>c. c \<noteq> NUL) m) else Inl OutOfBounds)"

text \<open>Unsigned numbers in decimal, as \<open>operator<<\<close> writes them.\<close>

fun show_dec :: "nat \<Rightarrow> string" where
  "show_dec n =
     (if n < 10 then [char_of (48 + n)] else show_dec (n div 10) @ [char_of (48 + n mod 10)])"

declare show_dec.simps [simp del]

section \<open>Byte order\<close>

text \<open>
  The host is little-endian: loading a 16 or 32 bit integer from memory takes the byte at the
  lowest address as the least significant one, and \<open>ntohs\<close>/\<open>ntohl\<close> reverse the bytes.
\<close>

definition load16 :: "block \<Rightarrow> nat \<Rightarrow> u16 res" where
  "load16 m i = bindR (c_read m i 2) (\<lambda>bs.
     Inr (of_char (bs ! 0) OR push_bit 8 (of_char (bs ! 1))))"

definition load32 :: "block \<Rightarrow> nat \<Rightarrow> u32 res" where
  "load32 m i = bindR (c_read m i 4) (\<lambda>bs.
     Inr (of_char (bs ! 0) OR push_bit 8 (of_char (bs ! 1))
          OR push_bit 16 (of_char (bs ! 2)) OR push_bit 24 (of_char (bs ! 3))))"

definition ntohs :: "u16 \<Rightarrow> u16" where
  "ntohs w = push_bit 8 w OR drop_bit 8 w"

definition ntohl :: "u32 \<Rightarrow> u32" where
  "ntohl w = push_bit 24 w OR push_bit 16 (take_bit 8 (drop_bit 8 w))
     OR push_bit 8 (take_bit 8 (drop_bit 16 w)) OR drop_bit 24 w"

lemma bit_of_char_high [simp]: "8 \<le> n \<Longrightarrow> \<not> bit (of_char c :: 'a::len word) n"
  by (cases c) (simp only: of_char_Char bit_horner_sum_bit_word_iff, simp)

lemma ntohs_ntohs [simp]: "ntohs (ntohs w) = w"
  unfolding ntohs_def
  by (rule bit_word_eqI)
     (auto simp: bit_or_iff bit_push_bit_iff bit_drop_bit_eq)

lemma ntohs_bytes:
  "ntohs (of_char a OR push_bit 8 (of_char b)) = push_bit 8 (of_char a) OR of_char b"
  unfolding ntohs_def
  by (rule bit_word_eqI)
     (auto simp: bit_or_iff bit_push_bit_iff bit_drop_bit_eq)

lemma ntohl_bytes:
  "ntohl (of_char a OR push_bit 8 (of_char b) OR push_bit 16 (of_char c) OR push_bit 24 (of_char d))
   = push_bit 24 (of_char a) OR push_bit 16 (of_char b) OR push_bit 8 (of_char c) OR of_char d"
proof (rule bit_word_eqI)
  fix n assume "n < LENGTH(32)"
  then consider "n < 8" | "8 \<le> n" "n < 16" | "16 \<le> n" "n < 24" | "24 \<le> n" "n < 32"
    by fastforce
  then show "bit (ntohl (of_char a OR push_bit 8 (of_char b) OR push_bit 16 (of_char c)
        OR push_bit 24 (of_char d))) n
    = bit (push_bit 24 (of_char a) OR push_bit 16 (of_char b) OR push_bit 8 (of_char c)
        OR (of_char d :: u32)) n"
    by cases (auto simp add: ntohl_def bit_or_iff bit_push_bit_iff bit_drop_bit_eq bit_take_bit_iff)
qed

subsection \<open>Reading through appended blocks\<close>

lemma c_read_append: "c_read (xs @ ys) (length xs + i) n = c_read ys i n"
  by (simp add: c_read_def)

lemma c_load_append: "c_load (xs @ ys) (length xs + i) = c_load ys i"
  by (simp add: c_load_def nth_append)

lemma load16_append: "load16 (xs @ ys) (length xs + i) = load16 ys i"
  by (simp add: load16_def c_read_append)

lemma load32_append: "load32 (xs @ ys) (length xs + i) = load32 ys i"
  by (simp add: load32_def c_read_append)

lemmas load_append = c_read_append c_load_append load16_append load32_append

subsection \<open>Big-endian fields\<close>

definition be16 :: "u16 \<Rightarrow> char list" where
  "be16 w = [char_of (unat (drop_bit 8 w)), char_of (unat w)]"

definition be32 :: "u32 \<Rightarrow> char list" where
  "be32 w = [char_of (unat (drop_bit 24 w)), char_of (unat (drop_bit 16 w)),
             char_of (unat (drop_bit 8 w)), char_of (unat w)]"

lemma length_be [simp]: "length (be16 w) = 2" "length (be32 v) = 4"
  by (simp_all add: be16_def be32_def)

lemma bit_of_char_of:
  "bit (of_char (char_of (unat w)) :: 'a::len word) k \<longleftrightarrow> k < LENGTH('a) \<and> k < 8 \<and> bit w k"
proof -
  have "(of_char (char_of (unat w)) :: 'a word) = of_nat (of_char (char_of (unat w)))"
    by (simp only: of_nat_of_char)
  also have "\<dots> = of_nat (take_bit 8 (unat w))"
    by (simp only: of_char_of take_bit_eq_mod) simp
  finally show ?thesis by (auto simp: bit_simps)
qed

lemma load16_Cons: "load16 (a # b # rest) 0 = Inr (of_char a OR push_bit 8 (of_char b))"
  by (simp add: load16_def c_read_def numeral_2_eq_2)

lemma load32_Cons:
  "load32 (a # b # c # d # rest) 0
   = Inr (of_char a OR push_bit 8 (of_char b) OR push_bit 16 (of_char c) OR push_bit 24 (of_char d))"
proof -
  have "c_read (a # b # c # d # rest) 0 4 = Inr [a, b, c, d]"
    by (simp add: c_read_def numeral_eq_Suc)
  then show ?thesis by (simp add: load32_def)
qed

lemma load16_be16: "bindR (load16 (be16 w @ rest) 0) (\<lambda>v. Inr (ntohs v)) = Inr w"
proof -
  have "push_bit 8 (of_char (char_of (unat (drop_bit 8 w)))) OR of_char (char_of (unat w)) = w"
    by (rule bit_word_eqI) (auto simp: bit_simps bit_of_char_of)
  then show ?thesis
    by (simp only: be16_def append_Cons append_Nil load16_Cons bindR.simps ntohs_bytes)
qed

lemma load32_be32: "bindR (load32 (be32 w @ rest) 0) (\<lambda>v. Inr (ntohl v)) = Inr w"
proof -
  let ?b = "\<lambda>n. of_char (char_of (unat (drop_bit n w))) :: u32"
  have "push_bit 24 (?b 24) OR push_bit 16 (?b 16) OR push_bit 8 (?b 8)
        OR of_char (char_of (unat w)) = w"
  proof (rule bit_word_eqI)
    fix n assume "n < LENGTH(32)"
    then consider "n < 8" | "8 \<le> n" "n < 16" | "16 \<le> n" "n < 24" | "24 \<le> n" "n < 32"
      by fastforce
    then show "bit (push_bit 24 (?b 24) OR push_bit 16 (?b 16) OR push_bit 8 (?b 8)
        OR of_char (char_of (unat w))) n = bit w n"
      by cases (auto simp: bit_simps bit_of_char_of)
  qed
  then show ?thesis
    by (simp only: be32_def append_Cons append_Nil load32_Cons bindR.simps ntohl_bytes)
qed

end
