(* ===== verification/Packet.thy ===== *)
theory Packet
  imports CMemory
begin

text \<open>
  The packet view \<open>CFormatPacket\<close> (FormatPacket.h, FormatPacket.cpp) and the match information
  \<open>CSharedBehaviorInfo\<close> (BehaviorInfo.h). The header structures of the system (\<open>iphdr\<close>,
  \<open>tcphdr\<close>) are offsets into the packet's memory; multi-byte fields are loaded as the host
  loads them and converted with \<open>ntohs\<close>/\<open>ntohl\<close> where the code does so.
\<close>

section \<open>Match information\<close>

definition UNK_MATCH :: u32 where "UNK_MATCH = 0"
definition C2S_MATCH :: u32 where "C2S_MATCH = 1"
definition S2C_MATCH :: u32 where "S2C_MATCH = 2"

record behavior_info =
  m_nIP :: u32
  m_nPort :: u32
  m_nBehaviorId :: u32
  m_nIdtMatchWay :: u32

definition CSharedBehaviorInfo_new :: behavior_info where
  "CSharedBehaviorInfo_new =
     \<lparr>m_nIP = 0, m_nPort = 0, m_nBehaviorId = 0, m_nIdtMatchWay = UNK_MATCH\<rparr>"

lemmas match_ways = UNK_MATCH_def C2S_MATCH_def S2C_MATCH_def

section \<open>The packet view\<close>

text \<open>
  The pointers are offsets into the memory that holds the frame, \<open>None\<close> for NULL. \<open>m_DataLen\<close>
  is an \<open>int16_t\<close>; \<open>m_time\<close> holds seconds and microseconds.
\<close>

record cformat_packet =
  m_pPkt :: block
  m_pEthhdr :: "nat option"
  m_pIphdr :: "nat option"
  m_pTcphdr :: "nat option"
  m_uPktLen :: u16
  m_pEthIndex :: nat
  m_pData :: "nat option"
  m_DataLen :: u16
  m_time :: "int \<times> int"

definition IPPROTO_TCP :: u8 where "IPPROTO_TCP = 6"

definition iphdr_ihl :: "block \<Rightarrow> nat \<Rightarrow> nat res" where
  "iphdr_ihl m ip = bindR (c_load m ip) (\<lambda>c. Inr (of_char c mod 16))"

definition tcphdr_doff :: "block \<Rightarrow> nat \<Rightarrow> nat res" where
  "tcphdr_doff m tcp = bindR (c_load m (tcp + 12)) (\<lambda>c. Inr (of_char c div 16))"

text \<open>
  \<open>Format\<close>: the header offsets, the length of the IP packet, and where the data starts: behind
  the TCP header with its options, or behind 8 bytes for another protocol. \<open>now\<close> is what
  \<open>gettimeofday\<close> stores. The data length is a 16 bit subtraction.
\<close>

definition CFormatPacket_Format :: "int \<times> int \<Rightarrow> block \<Rightarrow> cformat_packet res" where
  "CFormatPacket_Format now pkt =
     bindR (iphdr_ihl pkt 14) (\<lambda>ihl.
     bindR (load16 pkt (14 + 2)) (\<lambda>tot_len.
     bindR (c_load pkt (14 + 9)) (\<lambda>protocol.
     bindR (if of_char protocol = IPPROTO_TCP
            then bindR (tcphdr_doff pkt (14 + ihl * 4)) (\<lambda>doff. Inr (ihl * 4 + doff * 4))
            else Inr (ihl * 4 + 8)) (\<lambda>offset.
     Inr \<lparr>m_pPkt = pkt, m_pEthhdr = Some 0, m_pIphdr = Some 14,
          m_pTcphdr = Some (14 + ihl * 4), m_uPktLen = ntohs tot_len, m_pEthIndex = 12,
          m_pData = Some (14 + offset), m_DataLen = ntohs tot_len - of_nat offset,
          m_time = now\<rparr>))))"

definition GetDstMac :: "cformat_packet \<Rightarrow> u64" where
  "GetDstMac p = (case m_pEthhdr p of Some _ \<Rightarrow> 0 | None \<Rightarrow> 0)"

definition GetSrcMac :: "cformat_packet \<Rightarrow> u64" where
  "GetSrcMac p = (case m_pEthhdr p of Some _ \<Rightarrow> 0 | None \<Rightarrow> 0)"

definition GetDstIp :: "cformat_packet \<Rightarrow> u32 res" where
  "GetDstIp p = (case m_pIphdr p of Some ip \<Rightarrow> load32 (m_pPkt p) (ip + 16) | None \<Rightarrow> Inr 0)"

definition GetSrcIp :: "cformat_packet \<Rightarrow> u32 res" where
  "GetSrcIp p = (case m_pIphdr p of Some ip \<Rightarrow> load32 (m_pPkt p) (ip + 12) | None \<Rightarrow> Inr 0)"

definition GetIpProtocol :: "cformat_packet \<Rightarrow> u8 res" where
  "GetIpProtocol p =
     (case m_pIphdr p of
        Some ip \<Rightarrow> bindR (c_load (m_pPkt p) (ip + 9)) (\<lambda>c. Inr (of_char c))
      | None \<Rightarrow> Inr 0)"

definition GetIpPktLen :: "cformat_packet \<Rightarrow> u16" where
  "GetIpPktLen p = m_uPktLen p"

definition GetDstPort :: "cformat_packet \<Rightarrow> u16 res" where
  "GetDstPort p = (case m_pTcphdr p of Some t \<Rightarrow> load16 (m_pPkt p) (t + 2) | None \<Rightarrow> Inr 0)"

definition GetSrcPort :: "cformat_packet \<Rightarrow> u16 res" where
  "GetSrcPort p = (case m_pTcphdr p of Some t \<Rightarrow> load16 (m_pPkt p) t | None \<Rightarrow> Inr 0)"

text \<open>\<open>GetTcphdr()->field\<close> for the fields the handler reads.\<close>

definition tcp_field :: "cformat_packet \<Rightarrow> (block \<Rightarrow> nat \<Rightarrow> 'a res) \<Rightarrow> 'a res" where
  "tcp_field p rd = (case m_pTcphdr p of None \<Rightarrow> Inl NullDeref | Some t \<Rightarrow> rd (m_pPkt p) t)"

definition tcphdr_fin :: "block \<Rightarrow> nat \<Rightarrow> bool res" where
  "tcphdr_fin m t = bindR (c_load m (t + 13)) (\<lambda>c. Inr (bit (of_char c :: nat) 0))"

definition tcphdr_rst :: "block \<Rightarrow> nat \<Rightarrow> bool res" where
  "tcphdr_rst m t = bindR (c_load m (t + 13)) (\<lambda>c. Inr (bit (of_char c :: nat) 2))"

definition tcphdr_seq :: "block \<Rightarrow> nat \<Rightarrow> u32 res" where
  "tcphdr_seq m t = load32 m (t + 4)"

definition tcphdr_ack_seq :: "block \<Rightarrow> nat \<Rightarrow> u32 res" where
  "tcphdr_ack_seq m t = load32 m (t + 8)"

definition GetData :: "cformat_packet \<Rightarrow> cptr" where
  "GetData p = (case m_pData p of None \<Rightarrow> None | Some d \<Rightarrow> Some (m_pPkt p, d))"

definition GetDataLen :: "cformat_packet \<Rightarrow> u16" where
  "GetDataLen p = m_DataLen p"

definition GetPacketTime :: "cformat_packet \<Rightarrow> int \<times> int" where
  "GetPacketTime p = m_time p"

lemmas getter_defs = GetDstMac_def GetSrcMac_def GetDstIp_def GetSrcIp_def GetIpProtocol_def
  GetIpPktLen_def GetDstPort_def GetSrcPort_def tcp_field_def GetData_def GetDataLen_def
  GetPacketTime_def

lemmas tcp_defs = tcphdr_fin_def tcphdr_rst_def tcphdr_seq_def tcphdr_ack_seq_def

section \<open>Frames on the wire\<close>

text \<open>
  A TCP segment in an IPv4 packet in an Ethernet frame, as RFC 791 and RFC 793 lay it out; the
  specification that the packet view is checked against.
\<close>

record segment =
  sg_src_ip :: u32
  sg_dst_ip :: u32
  sg_src_port :: u16
  sg_dst_port :: u16
  sg_seq :: u32
  sg_ack :: u32
  sg_fin :: bool
  sg_rst :: bool
  sg_ip_opts :: "char list"
  sg_tcp_opts :: "char list"
  sg_data :: "char list"

definition seg_total :: "segment \<Rightarrow> nat" where
  "seg_total s = 40 + length (sg_ip_opts s) + length (sg_tcp_opts s) + length (sg_data s)"

definition seg_ok :: "segment \<Rightarrow> bool" where
  "seg_ok s \<longleftrightarrow> length (sg_ip_opts s) \<le> 40 \<and> length (sg_ip_opts s) mod 4 = 0
     \<and> length (sg_tcp_opts s) \<le> 40 \<and> length (sg_tcp_opts s) mod 4 = 0
     \<and> seg_total s < 2 ^ 15"

definition eth_bytes :: "char list" where
  "eth_bytes = replicate 12 NUL @ [CHR 0x08, NUL]"

definition ip_bytes :: "segment \<Rightarrow> char list" where
  "ip_bytes s = [char_of (64 + (5 + length (sg_ip_opts s) div 4)), NUL]
     @ be16 (of_nat (seg_total s)) @ replicate 5 NUL @ [CHR 0x06, NUL, NUL]
     @ be32 (sg_src_ip s) @ be32 (sg_dst_ip s) @ sg_ip_opts s"

definition tcp_bytes :: "segment \<Rightarrow> char list" where
  "tcp_bytes s = be16 (sg_src_port s) @ be16 (sg_dst_port s) @ be32 (sg_seq s) @ be32 (sg_ack s)
     @ [char_of (16 * (5 + length (sg_tcp_opts s) div 4)),
        char_of ((if sg_fin s then 1 else 0) + (if sg_rst s then 4 else 0 :: nat))]
     @ replicate 6 NUL @ sg_tcp_opts s"

definition encode_frame :: "segment \<Rightarrow> char list" where
  "encode_frame s = eth_bytes @ ip_bytes s @ tcp_bytes s @ sg_data s"

text \<open>What the getters of a view show, after the byte order conversions of the callers.\<close>

definition host16 :: "u16 res \<Rightarrow> u16 res" where
  "host16 r = bindR r (\<lambda>v. Inr (ntohs v))"

definition host32 :: "u32 res \<Rightarrow> u32 res" where
  "host32 r = bindR r (\<lambda>v. Inr (ntohl v))"

definition shows_segment :: "cformat_packet \<Rightarrow> segment \<Rightarrow> bool" where
  "shows_segment p s \<longleftrightarrow>
     host32 (GetSrcIp p) = Inr (sg_src_ip s) \<and> host32 (GetDstIp p) = Inr (sg_dst_ip s)
     \<and> host16 (GetSrcPort p) = Inr (sg_src_port s) \<and> host16 (GetDstPort p) = Inr (sg_dst_port s)
     \<and> GetIpProtocol p = Inr IPPROTO_TCP
     \<and> tcp_field p tcphdr_fin = Inr (sg_fin s) \<and> tcp_field p tcphdr_rst = Inr (sg_rst s)
     \<and> host32 (tcp_field p tcphdr_seq) = Inr (sg_seq s)
     \<and> host32 (tcp_field p tcphdr_ack_seq) = Inr (sg_ack s)
     \<and> unat (GetDataLen p) = length (sg_data s)
     \<and> (\<exists>off. GetData p = Some (m_pPkt p, off) \<and>
          c_read (m_pPkt p) off (length (sg_data s)) = Inr (sg_data s))"

lemma host_append:
  "host16 (load16 (xs @ ys) (length xs + i)) = host16 (load16 ys i)"
  "host32 (load32 (xs @ ys) (length xs + i)) = host32 (load32 ys i)"
  by (simp_all add: load_append)

lemma host_be: "host16 (load16 (be16 v @ r) 0) = Inr v" "host32 (load32 (be32 w @ r) 0) = Inr w"
  by (simp_all only: host16_def host32_def load16_be16 load32_be32)

text \<open>
  A field behind a prefix of known length: the two rules below reduce each getter to the
  big-endian rule.
\<close>

lemma host16_at: "length xs = n \<Longrightarrow> m = xs @ be16 v @ r \<Longrightarrow> host16 (load16 m n) = Inr v"
  using host_append(1) [of xs "be16 v @ r" 0] by (simp add: host_be)

lemma host32_at: "length xs = n \<Longrightarrow> m = xs @ be32 v @ r \<Longrightarrow> host32 (load32 m n) = Inr v"
  using host_append(2) [of xs "be32 v @ r" 0] by (simp add: host_be)

lemma load_at: "length xs = n \<Longrightarrow> m = xs @ c # r \<Longrightarrow> c_load m n = Inr c"
  by (auto simp: c_load_def)

lemma read_at: "length xs = n \<Longrightarrow> m = xs @ ys @ r \<Longrightarrow> length ys = k \<Longrightarrow> c_read m n k = Inr ys"
  by (auto simp: c_read_def)

lemma of_char_small: "n < 256 \<Longrightarrow> (of_char (char_of (n :: nat)) :: nat) = n"
  by simp

text \<open>The fixed part of the IP header, and the positions of its fields.\<close>

lemma ip_fields:
  assumes "m = eth_bytes @ ip_bytes s @ r"
  shows "c_load m 14 = Inr (char_of (64 + (5 + length (sg_ip_opts s) div 4)))"
    and "host16 (load16 m 16) = Inr (of_nat (seg_total s))"
    and "c_load m 23 = Inr (CHR 0x06)"
    and "host32 (load32 m 26) = Inr (sg_src_ip s)"
    and "host32 (load32 m 30) = Inr (sg_dst_ip s)"
proof -
  let ?c = "[char_of (64 + (5 + length (sg_ip_opts s) div 4)), NUL]"
  let ?t = "be16 (of_nat (seg_total s))"
  show "c_load m 14 = Inr (char_of (64 + (5 + length (sg_ip_opts s) div 4)))"
    by (rule load_at [where xs = eth_bytes]) (simp_all add: eth_bytes_def assms ip_bytes_def)
  show "host16 (load16 m 16) = Inr (of_nat (seg_total s))"
    by (rule host16_at [where xs = "eth_bytes @ ?c"])
       (simp_all add: eth_bytes_def assms ip_bytes_def)
  show "c_load m 23 = Inr (CHR 0x06)"
    by (rule load_at [where xs = "eth_bytes @ ?c @ ?t @ replicate 5 NUL"])
       (simp_all add: eth_bytes_def assms ip_bytes_def)
  let ?p = "eth_bytes @ ?c @ ?t @ replicate 5 NUL @ [CHR 0x06, NUL, NUL]"
  show "host32 (load32 m 26) = Inr (sg_src_ip s)"
    by (rule host32_at [where xs = ?p])
       (simp_all add: eth_bytes_def assms ip_bytes_def)
  show "host32 (load32 m 30) = Inr (sg_dst_ip s)"
    by (rule host32_at [where xs = "?p @ be32 (sg_src_ip s)"])
       (simp_all add: eth_bytes_def assms ip_bytes_def)
qed

text \<open>The fields of the TCP header, behind any prefix.\<close>

lemma tcp_fields:
  assumes "m = pre @ tcp_bytes s @ r" and "length pre = t"
  shows "host16 (load16 m t) = Inr (sg_src_port s)"
    and "host16 (load16 m (t + 2)) = Inr (sg_dst_port s)"
    and "host32 (tcphdr_seq m t) = Inr (sg_seq s)"
    and "host32 (tcphdr_ack_seq m t) = Inr (sg_ack s)"
    and "c_load m (t + 12) = Inr (char_of (16 * (5 + length (sg_tcp_opts s) div 4)))"
    and "tcphdr_fin m t = Inr (sg_fin s)" and "tcphdr_rst m t = Inr (sg_rst s)"
proof -
  let ?sp = "be16 (sg_src_port s)" and ?dp = "be16 (sg_dst_port s)"
  let ?sq = "be32 (sg_seq s)" and ?ak = "be32 (sg_ack s)"
  let ?off = "char_of (16 * (5 + length (sg_tcp_opts s) div 4))"
  show "host16 (load16 m t) = Inr (sg_src_port s)"
    by (rule host16_at [where xs = pre]) (simp_all add: assms tcp_bytes_def)
  show "host16 (load16 m (t + 2)) = Inr (sg_dst_port s)"
    by (rule host16_at [where xs = "pre @ ?sp"]) (simp_all add: assms tcp_bytes_def)
  show "host32 (tcphdr_seq m t) = Inr (sg_seq s)"
    unfolding tcphdr_seq_def
    by (rule host32_at [where xs = "pre @ ?sp @ ?dp"]) (simp_all add: assms tcp_bytes_def)
  show "host32 (tcphdr_ack_seq m t) = Inr (sg_ack s)"
    unfolding tcphdr_ack_seq_def
    by (rule host32_at [where xs = "pre @ ?sp @ ?dp @ ?sq"]) (simp_all add: assms tcp_bytes_def)
  show "c_load m (t + 12) = Inr ?off"
    by (rule load_at [where xs = "pre @ ?sp @ ?dp @ ?sq @ ?ak"])
       (simp_all add: assms tcp_bytes_def)
  have fl: "c_load m (t + 13)
    = Inr (char_of ((if sg_fin s then 1 else 0) + (if sg_rst s then 4 else 0 :: nat)))"
    by (rule load_at [where xs = "pre @ ?sp @ ?dp @ ?sq @ ?ak @ [?off]"])
       (simp_all add: assms tcp_bytes_def)
  show "tcphdr_fin m t = Inr (sg_fin s)" and "tcphdr_rst m t = Inr (sg_rst s)"
    by (simp_all add: tcphdr_fin_def tcphdr_rst_def fl bit_iff_odd)
qed

lemma length_header_bytes:
  "length eth_bytes = 14" "length (ip_bytes s) = 20 + length (sg_ip_opts s)"
  "length (tcp_bytes s) = 20 + length (sg_tcp_opts s)"
  by (simp_all add: eth_bytes_def ip_bytes_def tcp_bytes_def)

text \<open>
  Decoding what a sender encoded: on a frame followed by any other memory, \<open>Format\<close> succeeds and
  every getter shows the sender's field, options of both headers included.
\<close>

lemma Format_encode:
  assumes ok: "seg_ok s" and m: "m = encode_frame s @ rest"
  shows "\<exists>p. CFormatPacket_Format now m = Inr p \<and> shows_segment p s \<and> m_pPkt p = m
    \<and> GetPacketTime p = now"
proof -
  let ?io = "length (sg_ip_opts s)" and ?to = "length (sg_tcp_opts s)"
  let ?t = "34 + ?io" and ?d = "54 + ?io + ?to"
  have opts: "?io div 4 \<le> 10" "?to div 4 \<le> 10" "4 * (?io div 4) = ?io" "4 * (?to div 4) = ?to"
    using ok by (auto simp: seg_ok_def)
  have mi: "m = eth_bytes @ ip_bytes s @ (tcp_bytes s @ sg_data s @ rest)"
    and mt: "m = (eth_bytes @ ip_bytes s) @ tcp_bytes s @ (sg_data s @ rest)"
    by (simp_all add: m encode_frame_def)
  note ip = ip_fields [OF mi]
  have lt: "length (eth_bytes @ ip_bytes s) = ?t" by (simp add: length_header_bytes)
  note tcp = tcp_fields [OF mt lt]
  have "(64 + (5 + k)) mod 16 = 5 + k" if "k \<le> 10" for k :: nat
    using that mod_mult_self2 [of "5 + k" 16 4] by (simp add: add.commute)
  from this [OF opts(1)] have "(69 + ?io div 4) mod 16 = 5 + ?io div 4" by simp
  then have ihl: "iphdr_ihl m 14 = Inr (5 + ?io div 4)"
    using opts by (simp add: iphdr_ihl_def ip)
  have ts: "14 + (5 + ?io div 4) * 4 = ?t" using opts by simp
  have doff: "tcphdr_doff m ?t = Inr (5 + ?to div 4)"
    unfolding tcphdr_doff_def tcp(5) using opts by simp
  have ds: "14 + ((5 + ?io div 4) * 4 + (5 + ?to div 4) * 4) = ?d" using opts by simp
  obtain tl where tl: "load16 m 16 = Inr tl" "ntohs tl = of_nat (seg_total s)"
    using ip(2) by (auto simp: host16_def res_simps)
  have dl: "unat (of_nat (seg_total s) - of_nat (40 + ?io + ?to) :: u16) = length (sg_data s)"
  proof -
    have "(of_nat (seg_total s) :: u16) = of_nat (length (sg_data s)) + of_nat (40 + ?io + ?to)"
      by (simp add: seg_total_def)
    then have "(of_nat (seg_total s) - of_nat (40 + ?io + ?to) :: u16) = of_nat (length (sg_data s))"
      by (simp only: add_diff_cancel_right')
    then show ?thesis
      using ok by (simp only: seg_ok_def seg_total_def unat_of_nat_small)
         (subst unat_of_nat_small, simp_all)
  qed
  have data: "c_read m ?d (length (sg_data s)) = Inr (sg_data s)"
    by (rule read_at [where xs = "eth_bytes @ ip_bytes s @ tcp_bytes s" and r = rest])
       (simp_all add: m encode_frame_def length_header_bytes)
  let ?p = "\<lparr>m_pPkt = m, m_pEthhdr = Some 0, m_pIphdr = Some 14, m_pTcphdr = Some ?t,
    m_uPktLen = of_nat (seg_total s), m_pEthIndex = 12, m_pData = Some ?d,
    m_DataLen = of_nat (seg_total s) - of_nat (40 + ?io + ?to), m_time = now\<rparr>"
  have off: "(5 + ?io div 4) * 4 + (5 + ?to div 4) * 4 = 40 + ?io + ?to" using opts by simp
  have "CFormatPacket_Format now m = Inr ?p"
    unfolding CFormatPacket_Format_def ihl bindR.simps ts doff off
    using tl ip by (simp add: IPPROTO_TCP_def doff off)
  moreover have "shows_segment ?p s"
    using ip tcp data dl by (simp add: shows_segment_def getter_defs IPPROTO_TCP_def)
  ultimately show ?thesis by (auto simp: GetPacketTime_def)
qed

text \<open>
  \<open>Format\<close> looks at most 87 bytes into the packet, whatever the header lengths say: on a block
  of that size it cannot fail.
\<close>

lemma Format_total:
  assumes "87 \<le> length m"
  shows "\<exists>p. CFormatPacket_Format now m = Inr p"
proof -
  have ihl: "iphdr_ihl m 14 = Inr (of_char (m ! 14) mod 16)"
    using assms by (simp add: iphdr_ihl_def c_load_ok)
  have le: "(of_char (m ! 14) :: nat) mod 16 \<le> 15"
    by (rule Suc_leI [THEN Suc_le_mono [THEN iffD1]]) simp
  then have "14 + of_char (m ! 14) mod 16 * 4 + 12 < length m" using assms by simp
  then show ?thesis
    using assms
    by (simp add: CFormatPacket_Format_def ihl tcphdr_doff_def c_load_ok load16_def c_read_def)
qed

end
