(* ===== verification/Buffer.thy ===== *)
theory Buffer
  imports CMemory
begin

text \<open>
  The growing byte buffer \<open>CBuffer\<close> (Buffer.h, Buffer.cpp): its three fields, its operations, the
  invariant between the fields and the allocated block, and the contract a client relies on as
  the locale \<open>stream_buffer\<close>, interpreted on the operations.
\<close>

section \<open>State and operations\<close>

definition MAX_BUFFER_SIZE :: nat where "MAX_BUFFER_SIZE = 64 * 1024 * 1024"

definition BUFFER_SIZE :: u32 where "BUFFER_SIZE = 2048"

record cbuffer =
  buf_len :: u32
  buf_free :: u32
  buf_mem :: "block option"

text \<open>
  \<open>Reset\<close>: allocate when there is no block (and clear \<open>_free\<close> bytes of it), shrink a block that
  has grown past twice the default, then forget the contents. A failing shrink stores NULL.
\<close>

definition CBuffer_Reset :: "allocator \<Rightarrow> cbuffer \<Rightarrow> cbuffer res" where
  "CBuffer_Reset al b =
     bindR (case buf_mem b of
              None \<Rightarrow> c_memset (c_malloc al (unat BUFFER_SIZE)) 0 NUL (unat (buf_free b))
            | Some m \<Rightarrow> Inr (Some m)) (\<lambda>mem1.
     bindR (if BUFFER_SIZE * 2 < buf_len b \<and> mem1 \<noteq> None
            then c_realloc al mem1 (unat BUFFER_SIZE)
            else Inr mem1) (\<lambda>mem2.
     Inr \<lparr>buf_len = 0, buf_free = BUFFER_SIZE, buf_mem = mem2\<rparr>))"

definition CBuffer_new :: "allocator \<Rightarrow> cbuffer res" where
  "CBuffer_new al = CBuffer_Reset al \<lparr>buf_len = 0, buf_free = 0, buf_mem = None\<rparr>"

text \<open>
  \<open>Append\<close>: copy into the free space when the data is smaller than it, otherwise reallocate to
  \<open>len + size + 1\<close> bytes (computed in 64 bits), copy, and close with a NUL. \<open>len\<close> and \<open>_free\<close>
  are 32 bits wide.
\<close>

definition CBuffer_Append :: "allocator \<Rightarrow> cbuffer \<Rightarrow> cptr \<Rightarrow> u64 \<Rightarrow> (bool \<times> cbuffer) res" where
  "CBuffer_Append al b p sz =
     (case p of
        None \<Rightarrow> Inr (True, b)
      | Some (src, off) \<Rightarrow>
          if sz = 0 then Inr (True, b)
          else if sz < ucast (buf_free b) then
            bindR (c_memcpy (buf_mem b) (unat (buf_len b)) src off (unat sz)) (\<lambda>mem.
              Inr (True, b\<lparr>buf_mem := mem, buf_len := buf_len b + ucast sz,
                           buf_free := buf_free b - ucast sz\<rparr>))
          else
            bindR (c_realloc al (buf_mem b) (unat (ucast (buf_len b) + sz + 1))) (\<lambda>newbuf.
              if newbuf = None then Inr (False, b)
              else
                bindR (c_memcpy newbuf (unat (buf_len b)) src off (unat sz)) (\<lambda>mem.
                let len' = buf_len b + ucast sz in
                bindR (c_store mem (unat len') NUL) (\<lambda>mem'.
                  Inr (True, \<lparr>buf_len = len', buf_free = 1, buf_mem = mem'\<rparr>)))))"

definition CBuffer_GetBuf :: "cbuffer \<Rightarrow> block option \<times> u32" where
  "CBuffer_GetBuf b = (buf_mem b, buf_len b)"

definition CBuffer_GetBufLen :: "cbuffer \<Rightarrow> u32" where
  "CBuffer_GetBufLen b = buf_len b"

section \<open>Invariant and contents\<close>

text \<open>
  Between calls the block exists and has room for the bytes stored and the free space; together
  they make up at least the default size, and the free space is never empty.
\<close>

definition buf_ok :: "cbuffer \<Rightarrow> bool" where
  "buf_ok b \<longleftrightarrow>
     (case buf_mem b of
        None \<Rightarrow> False
      | Some m \<Rightarrow> unat (buf_len b) + unat (buf_free b) \<le> length m
                  \<and> 2048 \<le> unat (buf_len b) + unat (buf_free b) \<and> 0 < buf_free b)"

definition contents :: "cbuffer \<Rightarrow> char list" where
  "contents b = (case buf_mem b of None \<Rightarrow> [] | Some m \<Rightarrow> take (unat (buf_len b)) m)"

lemma unat_BUFFER_SIZE [simp]: "unat BUFFER_SIZE = 2048"
  by (simp add: BUFFER_SIZE_def)

lemma buf_ok_mem: "buf_ok b \<Longrightarrow> \<exists>m. buf_mem b = Some m"
  by (auto simp: buf_ok_def split: option.splits)

lemma buf_okD:
  assumes "buf_ok b" and "buf_mem b = Some m"
  shows "unat (buf_len b) + unat (buf_free b) \<le> length m" and "2048 \<le> length m"
    and "unat (buf_len b) < length m" and "0 < unat (buf_free b)"
    and "2048 \<le> unat (buf_len b) + unat (buf_free b)"
proof -
  from assms show 1: "unat (buf_len b) + unat (buf_free b) \<le> length m" "2048 \<le> length m"
      "2048 \<le> unat (buf_len b) + unat (buf_free b)"
    by (auto simp: buf_ok_def)
  from assms show 2: "0 < unat (buf_free b)"
    by (simp add: buf_ok_def word_greater_zero_iff unat_gt_0)
  from 1 2 show "unat (buf_len b) < length m" by linarith
qed

lemma length_contents: "buf_ok b \<Longrightarrow> length (contents b) = unat (buf_len b)"
  using buf_ok_mem [of b] buf_okD(3) [of b] by (fastforce simp: contents_def min_def)

lemma contents_empty_iff: "buf_ok b \<Longrightarrow> contents b = [] \<longleftrightarrow> CBuffer_GetBufLen b = 0"
  using length_contents [of b] by (auto simp: CBuffer_GetBufLen_def unat_eq_zero)

section \<open>Every operation keeps the invariant\<close>

lemma Reset_ok:
  assumes "buf_ok b" and "al_ok al 2048"
  shows "\<exists>b'. CBuffer_Reset al b = Inr b' \<and> buf_ok b' \<and> contents b' = []"
proof -
  obtain m where m: "buf_mem b = Some m" using buf_ok_mem [OF assms(1)] by blast
  show ?thesis
    using assms m buf_okD [OF assms(1) m]
    by (auto simp: CBuffer_Reset_def c_realloc_block buf_ok_def contents_def BUFFER_SIZE_def)
qed

lemma new_ok:
  assumes "al_ok al 2048"
  shows "\<exists>b. CBuffer_new al = Inr b \<and> buf_ok b \<and> contents b = [] \<and>
    buf_mem b = Some (map (al_junk al) [0..<2048])"
  using assms
  by (auto simp: CBuffer_new_def CBuffer_Reset_def c_malloc_def c_memset_def buf_ok_def
      contents_def BUFFER_SIZE_def)

lemma request_size:
  assumes "unat (l :: u32) + n < 2 ^ 32"
  shows "unat (ucast l + of_nat n + 1 :: u64) = unat l + n + 1"
proof -
  have "(ucast l + of_nat n + 1 :: u64) = of_nat (unat l + n + 1)"
    by (simp only: of_nat_add of_nat_unat of_nat_1)
  moreover have "unat (of_nat (unat l + n + 1) :: u64) = unat l + n + 1"
    using assms by (intro unat_of_nat_small) simp
  ultimately show ?thesis by (simp only:)
qed

text \<open>
  \<open>Append\<close> splits into its two branches. \<open>n\<close> is the size as a number, so that the lemmas speak
  of lengths only.
\<close>

lemma Append_fits:
  assumes ok: "buf_ok b" and m: "buf_mem b = Some m"
    and src: "off + n \<le> length src" and n: "0 < n" "n < unat (buf_free b)"
  shows "CBuffer_Append al b (Some (src, off)) (of_nat n)
    = Inr (True, b\<lparr>buf_mem := Some (take (unat (buf_len b)) m @ take n (drop off src)
                                    @ drop (unat (buf_len b) + n) m),
                   buf_len := buf_len b + of_nat n, buf_free := buf_free b - of_nat n\<rparr>)"
proof -
  have lt: "unat (buf_free b) < 2 ^ 32" using unsigned_less [of "buf_free b", where 'a = nat] by simp
  have sz: "unat (of_nat n :: u64) = n" using lt n by (intro unat_of_nat_small) simp
  have "(of_nat n :: u64) < ucast (buf_free b)"
    using n sz by (simp add: word_less_nat_alt unat_ucast_up)
  moreover have "(of_nat n :: u64) \<noteq> 0" using n sz by (metis less_numeral_extra(3) unat_0)
  moreover have "(ucast (of_nat n :: u64) :: u32) = of_nat n"
    using n lt by (intro ucast_of_nat_small) simp
  moreover have "unat (buf_len b) + n \<le> length m" using buf_okD [OF ok m] n by linarith
  ultimately show ?thesis
    using src sz m by (simp add: CBuffer_Append_def c_memcpy_ok)
qed

lemma Append_grows:
  assumes ok: "buf_ok b" and m: "buf_mem b = Some m"
    and src: "off + n \<le> length src" and n: "unat (buf_free b) \<le> n"
    and small: "unat (buf_len b) + n < 2 ^ 32" and al: "al_ok al (unat (buf_len b) + n + 1)"
  shows "CBuffer_Append al b (Some (src, off)) (of_nat n)
    = Inr (True, \<lparr>buf_len = buf_len b + of_nat n, buf_free = 1,
        buf_mem = Some (take (unat (buf_len b)) m @ take n (drop off src) @ [NUL])\<rparr>)"
proof -
  let ?l = "unat (buf_len b)"
  have n0: "0 < n" using buf_okD(4) [OF ok m] n by linarith
  have sz: "unat (of_nat n :: u64) = n" using small by (intro unat_of_nat_small) simp
  have "\<not> (of_nat n :: u64) < ucast (buf_free b)"
    using n sz by (simp add: word_less_nat_alt unat_ucast_up)
  moreover have "(of_nat n :: u64) \<noteq> 0" using n0 sz by (metis less_numeral_extra(3) unat_0)
  moreover have req: "unat (ucast (buf_len b) + of_nat n + 1 :: u64) = ?l + n + 1"
    using small by (rule request_size)
  moreover have len': "unat (buf_len b + of_nat n) = ?l + n"
    using small by (simp add: unat_add_of_nat)
  moreover have "(ucast (of_nat n :: u64) :: u32) = of_nat n"
    using small by (intro ucast_of_nat_small) simp
  moreover have "length (take ?l m) = ?l" using buf_okD(3) [OF ok m] by simp
  ultimately show ?thesis
    using src sz m al buf_okD(3) [OF ok m] n0
    by (simp add: CBuffer_Append_def c_realloc_block c_memcpy_ok c_store_def Let_def
        list_update_append drop_take_Suc)
qed

text \<open>
  The contract of a successful \<open>Append\<close>: the bytes arrive behind the ones already there and the
  invariant still holds. The request must not overflow the 32 bit length.
\<close>

lemma Append_ok:
  assumes ok: "buf_ok b" and src: "off + n \<le> length src"
    and small: "unat (buf_len b) + n < 2 ^ 32" and al: "\<And>k. al_ok al k"
  shows "\<exists>b'. CBuffer_Append al b (Some (src, off)) (of_nat n) = Inr (True, b') \<and> buf_ok b'
    \<and> contents b' = contents b @ take n (drop off src)"
proof -
  obtain m where m: "buf_mem b = Some m" using buf_ok_mem [OF ok] by blast
  note inv = buf_okD [OF ok m]
  have len': "unat (buf_len b + of_nat n) = unat (buf_len b) + n"
    using small by (simp add: unat_add_of_nat)
  consider "n = 0" | "0 < n" "n < unat (buf_free b)" | "unat (buf_free b) \<le> n"
    by linarith
  then show ?thesis
  proof cases
    case 1
    then show ?thesis using ok by (simp add: CBuffer_Append_def)
  next
    case 2
    have free': "unat (buf_free b - of_nat n) = unat (buf_free b) - n"
      using 2 by (simp add: unat_diff_of_nat)
    then have "buf_free b - of_nat n \<noteq> 0" using 2 by (metis not_less_iff_gr_or_eq unat_0 zero_less_diff)
    then have "0 < buf_free b - of_nat n" by (simp add: word_greater_zero_iff)
    then show ?thesis
      using 2 inv src len' free' m
      by (simp add: Append_fits [OF ok m src] buf_ok_def contents_def)
  next
    case 3
    then show ?thesis
      using inv src len' m small al
      by (simp add: Append_grows [OF ok m src] buf_ok_def contents_def)
  qed
qed

text \<open>A failing reallocation leaves the buffer as it was and reports it.\<close>

lemma Append_no_memory:
  assumes ok: "buf_ok b" and m: "buf_mem b = Some m" and n: "unat (buf_free b) \<le> n"
    and small: "unat (buf_len b) + n < 2 ^ 32" and al: "\<not> al_ok al (unat (buf_len b) + n + 1)"
  shows "CBuffer_Append al b (Some (src, off)) (of_nat n) = Inr (False, b)"
proof -
  have n0: "0 < n" using buf_okD(4) [OF ok m] n by linarith
  have sz: "unat (of_nat n :: u64) = n" using small by (intro unat_of_nat_small) simp
  have "\<not> (of_nat n :: u64) < ucast (buf_free b)"
    using n sz by (simp add: word_less_nat_alt unat_ucast_up)
  moreover have "(of_nat n :: u64) \<noteq> 0" using n0 sz by (metis less_numeral_extra(3) unat_0)
  moreover have "unat (ucast (buf_len b) + of_nat n + 1 :: u64) = unat (buf_len b) + n + 1"
    using small by (rule request_size)
  ultimately show ?thesis using m al by (simp add: CBuffer_Append_def c_realloc_def)
qed

text \<open>
  The length field is 32 bits wide and nothing limits it (\<^const>\<open>MAX_BUFFER_SIZE\<close> is used nowhere):
  an append past \<open>2^32\<close> bytes wraps it, whatever the buffer held.
\<close>

lemma Append_length:
  assumes "CBuffer_Append al b (Some (src, off)) sz = Inr (True, b')"
  shows "buf_len b' = buf_len b + ucast sz"
  using assms by (auto simp: CBuffer_Append_def res_simps Let_def split: if_splits)

text \<open>
  A size that came from a negative number is at least \<open>2^63\<close>; the 64 bit request wraps to a small
  one, the reallocation succeeds, and the copy leaves its blocks.
\<close>

lemma Append_negative:
  assumes ok: "buf_ok b" and k: "0 < k" "k \<le> unat (buf_len b) + 1"
    and src: "length src < 2 ^ 63" and al: "\<And>n. al_ok al n"
  shows "CBuffer_Append al b (Some (src, off)) (- of_nat k)
    = Inl (if k = unat (buf_len b) + 1 then FreedBlock else OutOfBounds)"
proof -
  obtain m where m: "buf_mem b = Some m" using buf_ok_mem [OF ok] by blast
  have len: "unat (buf_len b) < 2 ^ 32" using unsigned_less [of "buf_len b", where 'a = nat] by simp
  have k64: "unat (of_nat k :: u64) = k" using k len by (intro unat_of_nat_small) simp
  have knz: "(of_nat k :: u64) \<noteq> 0" using k k64 by (metis less_numeral_extra(3) unat_0)
  have sz: "unat (- of_nat k :: u64) = 2 ^ 64 - k"
    using k len unat_neg_of_nat [of k, where 'a = 64] by simp
  have free: "unat (buf_free b) < 2 ^ 32"
    using unsigned_less [of "buf_free b", where 'a = nat] by simp
  have ge: "\<not> (- of_nat k :: u64) < ucast (buf_free b)"
    using sz free k len by (simp add: word_less_nat_alt unat_ucast_up)
  have nz: "(- of_nat k :: u64) \<noteq> 0" using knz by simp
  have req: "unat (ucast (buf_len b) + - of_nat k + 1 :: u64) = unat (buf_len b) + 1 - k"
  proof -
    have "(of_nat (unat (buf_len b) + 1) :: u64) = ucast (buf_len b) + 1"
      by (simp only: of_nat_add of_nat_unat of_nat_1)
    then have "(ucast (buf_len b) + - of_nat k + 1 :: u64) = of_nat (unat (buf_len b) + 1 - k)"
      using k(2) by (simp only: of_nat_diff) simp
    moreover have "unat (of_nat (unat (buf_len b) + 1 - k) :: u64) = unat (buf_len b) + 1 - k"
      using len by (intro unat_of_nat_small) simp
    ultimately show ?thesis by (simp only:)
  qed
  have "length src < off + unat (- of_nat k :: u64)" using sz src k len by simp
  then show ?thesis
    using m ge nz req k al
    by (simp add: CBuffer_Append_def c_realloc_def c_memcpy_out_src del: add_uminus_conv_diff)
qed

section \<open>The contract as an interface\<close>

locale stream_buffer =
  fixes good :: "'b \<Rightarrow> bool"
    and bytes :: "'b \<Rightarrow> char list"
    and app :: "'b \<Rightarrow> char list \<Rightarrow> (bool \<times> 'b) res"
    and reset :: "'b \<Rightarrow> 'b res"
    and limit :: nat
  assumes app_law: "good b \<Longrightarrow> length (bytes b) + length cs < limit \<Longrightarrow>
      \<exists>b'. app b cs = Inr (True, b') \<and> good b' \<and> bytes b' = bytes b @ cs"
    and reset_law: "good b \<Longrightarrow> \<exists>b'. reset b = Inr b' \<and> good b' \<and> bytes b' = []"
begin

text \<open>Segments appended one after the other are reassembled in order.\<close>

lemma reassemble:
  assumes "good b" and "length (bytes b) + length (concat segs) < limit"
  shows "\<exists>b'. foldR (\<lambda>cs b. bindR (app b cs) (\<lambda>r. Inr (snd r))) segs b = Inr b'
    \<and> good b' \<and> bytes b' = bytes b @ concat segs"
  using assms
proof (induction segs arbitrary: b)
  case Nil
  then show ?case by simp
next
  case (Cons s segs)
  then obtain b1 where b1: "app b s = Inr (True, b1)" "good b1" "bytes b1 = bytes b @ s"
    using app_law [of b s] by fastforce
  with Cons.IH [of b1] Cons.prems show ?case by simp
qed

text \<open>After a reset the buffer starts from nothing.\<close>

lemma reset_reassemble:
  assumes "good b" and "length (concat segs) < limit"
  shows "\<exists>b0 b'. reset b = Inr b0 \<and>
    foldR (\<lambda>cs b. bindR (app b cs) (\<lambda>r. Inr (snd r))) segs b0 = Inr b'
    \<and> good b' \<and> bytes b' = concat segs"
  using reset_law [OF assms(1)] reassemble [of _ segs] assms(2) by fastforce

end

text \<open>An allocator that never runs out, and the append of a whole segment.\<close>

definition plenty :: "(nat \<Rightarrow> char) \<Rightarrow> allocator" where
  "plenty junk = \<lparr>al_ok = (\<lambda>_. True), al_junk = junk\<rparr>"

definition append_bytes :: "allocator \<Rightarrow> cbuffer \<Rightarrow> char list \<Rightarrow> (bool \<times> cbuffer) res" where
  "append_bytes al b cs = CBuffer_Append al b (Some (cs, 0)) (of_nat (length cs))"

lemma plenty_ok [simp]: "al_ok (plenty junk) n"
  by (simp add: plenty_def)

interpretation cbuf: stream_buffer buf_ok contents "append_bytes (plenty junk)"
  "CBuffer_Reset (plenty junk)" "2 ^ 32" for junk
proof
  show "\<exists>b'. append_bytes (plenty junk) b cs = Inr (True, b') \<and> buf_ok b'
      \<and> contents b' = contents b @ cs"
    if "buf_ok b" and "length (contents b) + length cs < 2 ^ 32" for b cs
    using that Append_ok [of b 0 "length cs" cs "plenty junk"]
    by (simp add: append_bytes_def length_contents)
  show "\<exists>b'. CBuffer_Reset (plenty junk) b = Inr b' \<and> buf_ok b' \<and> contents b' = []"
    if "buf_ok b" for b
    using that by (simp add: Reset_ok)
qed

end
