(* ===== verification/Session.thy ===== *)
theory Session
  imports Buffer Packet
begin

text \<open>
  The constants of Public.h, decoded results \<open>CResult\<close> (Public.h) with their header maps, and
  sessions \<open>CSession\<close> (SessionHash.h).
\<close>

section \<open>Results\<close>

definition METUNKNOWN :: u32 where "METUNKNOWN = 0"
definition GET :: u32 where "GET = 1"
definition POST :: u32 where "POST = 2"
definition OPTIONS :: u32 where "OPTIONS = 3"
definition HEAD :: u32 where "HEAD = 4"
definition PUT :: u32 where "PUT = 5"
definition DELETE :: u32 where "DELETE = 6"
definition TRACE :: u32 where "TRACE = 7"
definition CONNECT :: u32 where "CONNECT = 8"

definition VERUNKNOWN :: u32 where "VERUNKNOWN = 0"

definition TIMEOUT_CHECK_DUR :: int where "TIMEOUT_CHECK_DUR = 120"
definition TIMEOUT :: int where "TIMEOUT = 3600"

lemmas method_codes = METUNKNOWN_def GET_def POST_def OPTIONS_def HEAD_def PUT_def DELETE_def
  TRACE_def CONNECT_def

text \<open>
  \<open>HeaderMap\<close> is \<open>std::map<string, string>\<close>: the entries in the order of their keys, and the
  assignment \<open>m[k] = v\<close>.
\<close>

type_synonym header_map = "(string \<times> string) list"

fun hm_set :: "string \<Rightarrow> string \<Rightarrow> header_map \<Rightarrow> header_map" where
  "hm_set k v [] = [(k, v)]"
| "hm_set k v ((k', v') # m) =
     (if k < k' then (k, v) # (k', v') # m
      else if k = k' then (k, v) # m
      else (k', v') # hm_set k v m)"

definition hm_sorted :: "header_map \<Rightarrow> bool" where
  "hm_sorted m \<longleftrightarrow> sorted_wrt (<) (map fst m)"

lemma set_hm_set: "fst ` set (hm_set k v m) = insert k (fst ` set m)"
  by (induction k v m rule: hm_set.induct) auto

lemma hm_sorted_Cons: "hm_sorted (e # m) \<longleftrightarrow> (\<forall>k \<in> fst ` set m. fst e < k) \<and> hm_sorted m"
  by (simp add: hm_sorted_def)

lemma hm_set_sorted: "hm_sorted m \<Longrightarrow> hm_sorted (hm_set k v m)"
proof (induction k v m rule: hm_set.induct)
  case (1 k v)
  then show ?case by (simp add: hm_sorted_def)
next
  case (2 k v k' v' m)
  then consider "k < k'" | "k = k'" | "k' < k" by (metis linorder_neqE)
  then show ?case
  proof cases
    case 1
    with 2(2) show ?thesis by (auto simp: hm_sorted_Cons dest: less_trans)
  next
    case 2
    with \<open>hm_sorted ((k', v') # m)\<close> show ?thesis by (simp add: hm_sorted_Cons)
  next
    case 3
    then have "\<not> k < k'" "k \<noteq> k'" by auto
    with 2 3 show ?thesis by (simp add: hm_sorted_Cons set_hm_set)
  qed
qed

lemma map_of_hm_set: "map_of (hm_set k v m) = (map_of m)(k \<mapsto> v)"
  by (induction k v m rule: hm_set.induct) (auto simp: fun_eq_iff)

record cresult =
  RequestTimeStamp :: u64
  ResponseTimeStamp :: u64
  Method :: u32
  Version :: u32
  RetCode :: u32
  Url :: string
  RetNote :: string
  RequestHeader :: header_map
  ResponseHeader :: header_map
  RequestData :: string
  ResponseData :: string

definition CResult_Reset :: cresult where
  "CResult_Reset =
     \<lparr>RequestTimeStamp = 0, ResponseTimeStamp = 0, Method = METUNKNOWN, Version = VERUNKNOWN,
      RetCode = 0, Url = [], RetNote = [], RequestHeader = [], ResponseHeader = [],
      RequestData = [], ResponseData = []\<rparr>"

section \<open>Sessions\<close>

record csession =
  ServerIp :: u32
  ClientIp :: u32
  ServerPort :: u16
  ClientPort :: u16
  ServerMac :: u64
  ClientMac :: u64
  CreatedTime :: int
  RefreshTime :: int
  SeqNo :: u32
  AckSeqNo :: u32
  Protocol :: u32
  ReqBuf :: cbuffer
  RspBuf :: cbuffer
  Result :: cresult

definition CSession_Reset :: "allocator \<Rightarrow> csession \<Rightarrow> csession res" where
  "CSession_Reset al s =
     bindR (CBuffer_Reset al (ReqBuf s)) (\<lambda>req.
     bindR (CBuffer_Reset al (RspBuf s)) (\<lambda>rsp.
     Inr (s\<lparr>ReqBuf := req, RspBuf := rsp, Result := CResult_Reset\<rparr>)))"

text \<open>
  A new session: the members with a constructor are constructed, then \<open>Reset\<close>. The scalar
  members keep what the storage held, which is the parameter \<open>raw\<close>.
\<close>

definition CSession_new :: "allocator \<Rightarrow> csession \<Rightarrow> csession res" where
  "CSession_new al raw =
     bindR (CBuffer_new al) (\<lambda>req.
     bindR (CBuffer_new al) (\<lambda>rsp.
     CSession_Reset al (raw\<lparr>ReqBuf := req, RspBuf := rsp, Result := CResult_Reset\<rparr>)))"

definition session_ok :: "csession \<Rightarrow> bool" where
  "session_ok s \<longleftrightarrow> buf_ok (ReqBuf s) \<and> buf_ok (RspBuf s)"

text \<open>\<open>s'\<close> is \<open>s\<close> with both buffers empty and the result cleared.\<close>

definition cleared :: "csession \<Rightarrow> csession \<Rightarrow> bool" where
  "cleared s s' \<longleftrightarrow> session_ok s' \<and> contents (ReqBuf s') = [] \<and> contents (RspBuf s') = []
     \<and> s' = s\<lparr>ReqBuf := ReqBuf s', RspBuf := RspBuf s', Result := CResult_Reset\<rparr>"

lemma CSession_Reset_ok:
  assumes "session_ok s" and "al_ok al 2048"
  shows "\<exists>s'. CSession_Reset al s = Inr s' \<and> cleared s s'"
  using assms Reset_ok [of "ReqBuf s" al] Reset_ok [of "RspBuf s" al]
  by (auto simp: session_ok_def CSession_Reset_def cleared_def)

lemma CSession_new_ok:
  assumes "al_ok al 2048"
  shows "\<exists>s'. CSession_new al raw = Inr s' \<and> cleared raw s'"
proof -
  obtain b where b: "CBuffer_new al = Inr b" "buf_ok b"
    using new_ok [OF assms] by blast
  then obtain s' where "CSession_new al raw = Inr s'"
      "cleared (raw\<lparr>ReqBuf := b, RspBuf := b, Result := CResult_Reset\<rparr>) s'"
    using CSession_Reset_ok [of "raw\<lparr>ReqBuf := b, RspBuf := b, Result := CResult_Reset\<rparr>" al] assms
    by (auto simp: CSession_new_def session_ok_def)
  then show ?thesis by (auto simp: cleared_def)
qed

end
