(* ===== verification/SessionTable.thy ===== *)
theory SessionTable
  imports Session
begin

text \<open>
  The session table \<open>CSessionHashTable\<close> (SessionHash.h, SessionHash.cpp). Sessions are shared: the
  table holds addresses into a heap of sessions, as the \<open>shared_ptr\<close>s do. The contract of the
  table is the locale \<open>keyed_store\<close>, a finite map from flows to sessions.
\<close>

section \<open>The session table\<close>

text \<open>
  \<open>_cseshash\<close> is a vector of 65536 lists of session pointers; an index is the 16 bit value that
  \<open>HashVal\<close> returns, so that the vector after \<open>Init\<close> is a function on 16 bit words. Addresses
  below \<open>next_addr\<close> are allocated sessions.
\<close>

record ses_store =
  heap :: "nat \<Rightarrow> csession"
  next_addr :: nat
  cseshash :: "u16 \<Rightarrow> nat list"

type_synonym flow = "u32 \<times> u32 \<times> u16 \<times> u16"

definition HashVal :: "u32 \<Rightarrow> u32 \<Rightarrow> u16 \<Rightarrow> u16 \<Rightarrow> u16" where
  "HashVal srcIp dstIp srcPort dstPort =
     (let h = (srcIp XOR dstIp) XOR ucast (srcPort XOR dstPort);
          h = h XOR drop_bit 16 h;
          h = h XOR drop_bit 8 h;
          h = h AND 0x0000FFFF
      in ucast h)"

definition IsSameSes :: "u32 \<Rightarrow> u32 \<Rightarrow> u16 \<Rightarrow> u16 \<Rightarrow> csession \<Rightarrow> bool" where
  "IsSameSes srcIp dstIp srcPort dstPort s \<longleftrightarrow>
     (ServerIp s = srcIp \<and> ClientIp s = dstIp \<and> ServerPort s = srcPort \<and> ClientPort s = dstPort)
   \<or> (ServerIp s = dstIp \<and> ClientIp s = srcIp \<and> ServerPort s = dstPort \<and> ClientPort s = srcPort)"

definition CSessionHashTable_Init :: "ses_store \<Rightarrow> ses_store" where
  "CSessionHashTable_Init st = st\<lparr>cseshash := (\<lambda>_. [])\<rparr>"

text \<open>The scan of one bucket, shared by \<open>Find\<close> and \<open>Remove\<close>.\<close>

fun find_ses :: "(nat \<Rightarrow> csession) \<Rightarrow> u32 \<Rightarrow> u32 \<Rightarrow> u16 \<Rightarrow> u16 \<Rightarrow> nat list \<Rightarrow> nat option" where
  "find_ses h srcIp dstIp srcPort dstPort [] = None"
| "find_ses h srcIp dstIp srcPort dstPort (a # as) =
     (if IsSameSes srcIp dstIp srcPort dstPort (h a) then Some a
      else find_ses h srcIp dstIp srcPort dstPort as)"

fun erase_ses :: "(nat \<Rightarrow> csession) \<Rightarrow> u32 \<Rightarrow> u32 \<Rightarrow> u16 \<Rightarrow> u16 \<Rightarrow> nat list \<Rightarrow> nat list" where
  "erase_ses h srcIp dstIp srcPort dstPort [] = []"
| "erase_ses h srcIp dstIp srcPort dstPort (a # as) =
     (if IsSameSes srcIp dstIp srcPort dstPort (h a) then as
      else a # erase_ses h srcIp dstIp srcPort dstPort as)"

text \<open>\<open>Find\<close> stamps the session it returns with the time, which it keeps in 32 bits.\<close>

definition CSessionHashTable_Find ::
  "int \<Rightarrow> u32 \<Rightarrow> u32 \<Rightarrow> u16 \<Rightarrow> u16 \<Rightarrow> ses_store \<Rightarrow> nat option \<times> ses_store" where
  "CSessionHashTable_Find now srcIp dstIp srcPort dstPort st =
     (let tsNow = now mod 2 ^ 32;
          index = HashVal srcIp dstIp srcPort dstPort
      in case find_ses (heap st) srcIp dstIp srcPort dstPort (cseshash st index) of
           None \<Rightarrow> (None, st)
         | Some a \<Rightarrow>
             (Some a, st\<lparr>heap := (heap st)(a := (heap st a)\<lparr>RefreshTime := tsNow\<rparr>)\<rparr>))"

text \<open>A new session object enters the heap and the list of its bucket.\<close>

definition push_session :: "csession \<Rightarrow> ses_store \<Rightarrow> nat \<times> ses_store" where
  "push_session s st =
     (let a = next_addr st;
          index = HashVal (ServerIp s) (ClientIp s) (ServerPort s) (ClientPort s)
      in (a, st\<lparr>heap := (heap st)(a := s), next_addr := a + 1,
                cseshash := (cseshash st)(index := cseshash st index @ [a])\<rparr>))"

text \<open>
  \<open>Create\<close>: the endpoint that the match information names is the server, the other one the
  client; sequence numbers are not set.
\<close>

definition CSessionHashTable_Create ::
  "allocator \<Rightarrow> csession \<Rightarrow> int \<Rightarrow> cformat_packet \<Rightarrow> behavior_info \<Rightarrow> ses_store \<Rightarrow> (nat \<times> ses_store) res"
where
  "CSessionHashTable_Create al raw now pkt info st =
     bindR (CSession_new al raw) (\<lambda>s0.
     bindR (host32 (GetSrcIp pkt)) (\<lambda>srcIp.
     bindR (host16 (GetSrcPort pkt)) (\<lambda>srcPort.
     bindR (host32 (GetDstIp pkt)) (\<lambda>dstIp.
     bindR (host16 (GetDstPort pkt)) (\<lambda>dstPort.
     let s = (if m_nIP info = srcIp \<and> m_nPort info = ucast srcPort
              then s0\<lparr>ServerIp := srcIp, ClientIp := dstIp, ServerPort := srcPort,
                      ClientPort := dstPort, ServerMac := GetSrcMac pkt, ClientMac := GetDstMac pkt,
                      Protocol := m_nBehaviorId info, CreatedTime := now, RefreshTime := now\<rparr>
              else s0\<lparr>ServerIp := dstIp, ClientIp := srcIp, ServerPort := dstPort,
                      ClientPort := srcPort, ServerMac := GetDstMac pkt, ClientMac := GetSrcMac pkt,
                      Protocol := m_nBehaviorId info, CreatedTime := now, RefreshTime := now\<rparr>)
     in Inr (push_session s st))))))"

definition CSessionHashTable_Remove ::
  "u32 \<Rightarrow> u32 \<Rightarrow> u16 \<Rightarrow> u16 \<Rightarrow> ses_store \<Rightarrow> ses_store" where
  "CSessionHashTable_Remove srcIp dstIp srcPort dstPort st =
     (let index = HashVal srcIp dstIp srcPort dstPort
      in st\<lparr>cseshash := (cseshash st)
             (index := erase_ses (heap st) srcIp dstIp srcPort dstPort (cseshash st index))\<rparr>)"

section \<open>Flows\<close>

text \<open>Two quadruples name the same flow when they agree up to the direction.\<close>

fun same_flow :: "flow \<Rightarrow> flow \<Rightarrow> bool" where
  "same_flow (a, b, c, d) (a', b', c', d') \<longleftrightarrow>
     (a = a' \<and> b = b' \<and> c = c' \<and> d = d') \<or> (a = b' \<and> b = a' \<and> c = d' \<and> d = c')"

fun flow_hash :: "flow \<Rightarrow> u16" where
  "flow_hash (a, b, c, d) = HashVal a b c d"

definition flow_of :: "csession \<Rightarrow> flow" where
  "flow_of s = (ServerIp s, ClientIp s, ServerPort s, ClientPort s)"

lemma IsSameSes_flow: "IsSameSes a b c d s \<longleftrightarrow> same_flow (a, b, c, d) (flow_of s)"
  by (auto simp: IsSameSes_def flow_of_def)

lemma same_flow_refl [simp]: "same_flow f f"
  by (cases f) simp

lemma same_flow_sym: "same_flow f g \<Longrightarrow> same_flow g f"
  by (cases f; cases g) auto

lemma same_flow_trans: "same_flow f g \<Longrightarrow> same_flow g h \<Longrightarrow> same_flow f h"
  by (cases f; cases g; cases h) auto

lemma HashVal_swap: "HashVal b a d c = HashVal a b c d"
  by (simp add: HashVal_def xor.commute)

lemma same_flow_hash: "same_flow f g \<Longrightarrow> flow_hash f = flow_hash g"
  by (cases f; cases g) (auto simp: HashVal_swap)

text \<open>The bucket scan, on flows.\<close>

lemma find_ses_flow:
  "find_ses h a b c d as = find (\<lambda>x. same_flow (a, b, c, d) (flow_of (h x))) as"
  by (induction as) (auto simp: IsSameSes_flow)

lemma find_ses_SomeD: "find_ses h a b c d as = Some x \<Longrightarrow> IsSameSes a b c d (h x)"
  by (auto simp: find_ses_flow IsSameSes_flow dest!: find_SomeD)

lemma erase_ses_flow:
  "erase_ses h a b c d as
   = (case find_ses h a b c d as of None \<Rightarrow> as | Some x \<Rightarrow> remove1 x as)"
proof (induction as)
  case Nil
  then show ?case by simp
next
  case (Cons y ys)
  then show ?case
    by (cases "find_ses h a b c d ys") (auto dest: find_ses_SomeD)
qed

section \<open>Invariant\<close>

text \<open>
  Every address in a bucket is allocated, sits in the bucket of its flow's hash, occurs once, and
  no two of them belong to the same flow.
\<close>

definition table_ok :: "ses_store \<Rightarrow> bool" where
  "table_ok st \<longleftrightarrow>
     (\<forall>i. distinct (cseshash st i)) \<and>
     (\<forall>i. \<forall>a \<in> set (cseshash st i).
        a < next_addr st \<and> flow_hash (flow_of (heap st a)) = i) \<and>
     (\<forall>i. \<forall>a \<in> set (cseshash st i). \<forall>b \<in> set (cseshash st i).
        same_flow (flow_of (heap st a)) (flow_of (heap st b)) \<longrightarrow> a = b)"

definition look_flow :: "ses_store \<Rightarrow> flow \<Rightarrow> nat option" where
  "look_flow st f =
     find (\<lambda>x. same_flow f (flow_of (heap st x))) (cseshash st (flow_hash f))"

definition remove_flow :: "flow \<Rightarrow> ses_store \<Rightarrow> ses_store" where
  "remove_flow f st =
     (case f of (a, b, c, d) \<Rightarrow> CSessionHashTable_Remove a b c d st)"

definition update_session :: "nat \<Rightarrow> (csession \<Rightarrow> csession) \<Rightarrow> ses_store \<Rightarrow> ses_store" where
  "update_session a g st = st\<lparr>heap := (heap st)(a := g (heap st a))\<rparr>"

lemma Find_look:
  "CSessionHashTable_Find now a b c d st
   = (case look_flow st (a, b, c, d) of
        None \<Rightarrow> (None, st)
      | Some x \<Rightarrow> (Some x, update_session x (\<lambda>s. s\<lparr>RefreshTime := now mod 2 ^ 32\<rparr>) st))"
  by (simp add: CSessionHashTable_Find_def look_flow_def find_ses_flow update_session_def Let_def
      split: option.split)

lemma look_flow_Some_iff:
  assumes "table_ok st"
  shows "look_flow st f = Some a \<longleftrightarrow>
    a \<in> set (cseshash st (flow_hash f)) \<and> same_flow f (flow_of (heap st a))"
proof
  assume "look_flow st f = Some a"
  then show "a \<in> set (cseshash st (flow_hash f)) \<and> same_flow f (flow_of (heap st a))"
    by (auto simp: look_flow_def find_Some_iff)
next
  assume a: "a \<in> set (cseshash st (flow_hash f)) \<and> same_flow f (flow_of (heap st a))"
  then obtain b where b: "look_flow st f = Some b"
    by (cases "look_flow st f") (auto simp: look_flow_def find_None_iff)
  then have "b \<in> set (cseshash st (flow_hash f))" "same_flow f (flow_of (heap st b))"
    by (auto simp: look_flow_def find_Some_iff)
  moreover from this a have "same_flow (flow_of (heap st a)) (flow_of (heap st b))"
    by (blast intro: same_flow_sym same_flow_trans)
  ultimately have "a = b" using a assms by (auto simp: table_ok_def)
  with b show "look_flow st f = Some a" by simp
qed

lemma look_flow_None_iff:
  "look_flow st f = None \<longleftrightarrow>
   (\<forall>a \<in> set (cseshash st (flow_hash f)). \<not> same_flow f (flow_of (heap st a)))"
  by (auto simp: look_flow_def find_None_iff)

lemma look_flow_same: "same_flow f g \<Longrightarrow> look_flow st f = look_flow st g"
proof -
  assume fg: "same_flow f g"
  then have "same_flow f x \<longleftrightarrow> same_flow g x" for x
    by (blast intro: same_flow_sym same_flow_trans)
  with same_flow_hash [OF fg] show ?thesis by (simp add: look_flow_def)
qed

lemma look_flow_bound: "table_ok st \<Longrightarrow> look_flow st f = Some a \<Longrightarrow> a < next_addr st"
  by (auto simp: look_flow_Some_iff) (auto simp: table_ok_def)

section \<open>The operations keep the invariant\<close>

lemma table_ok_Init: "table_ok (CSessionHashTable_Init st)"
  by (simp add: table_ok_def CSessionHashTable_Init_def)

lemma push_session_simps [simp]:
  "fst (push_session s st) = next_addr st"
  "heap (snd (push_session s st)) = (heap st)(next_addr st := s)"
  "next_addr (snd (push_session s st)) = next_addr st + 1"
  "cseshash (snd (push_session s st))
   = (cseshash st)(flow_hash (flow_of s) := cseshash st (flow_hash (flow_of s)) @ [next_addr st])"
  by (simp_all add: push_session_def flow_of_def Let_def)

lemma table_okD:
  assumes "table_ok st"
  shows "distinct (cseshash st i)"
    and "a \<in> set (cseshash st i) \<Longrightarrow> a < next_addr st"
    and "a \<in> set (cseshash st i) \<Longrightarrow> flow_hash (flow_of (heap st a)) = i"
    and "a \<in> set (cseshash st i) \<Longrightarrow> b \<in> set (cseshash st i) \<Longrightarrow>
      same_flow (flow_of (heap st a)) (flow_of (heap st b)) \<Longrightarrow> a = b"
  using assms by (auto simp: table_ok_def)

lemma table_okI:
  assumes "\<And>i. distinct (cseshash st i)"
    and "\<And>i a. a \<in> set (cseshash st i) \<Longrightarrow> a < next_addr st"
    and "\<And>i a. a \<in> set (cseshash st i) \<Longrightarrow> flow_hash (flow_of (heap st a)) = i"
    and "\<And>i a b. a \<in> set (cseshash st i) \<Longrightarrow> b \<in> set (cseshash st i) \<Longrightarrow>
      same_flow (flow_of (heap st a)) (flow_of (heap st b)) \<Longrightarrow> a = b"
  shows "table_ok st"
  using assms unfolding table_ok_def by blast

lemma push_session_ok:
  assumes ok: "table_ok st" and new: "look_flow st (flow_of s) = None"
  shows "table_ok (snd (push_session s st))"
proof -
  let ?n = "next_addr st" and ?h = "flow_hash (flow_of s)"
  have fresh: "a < ?n" if "a \<in> set (cseshash st i)" for a i
    using table_okD(2) [OF ok that] .
  then have nin: "?n \<notin> set (cseshash st i)" for i by blast
  have no: "\<not> same_flow (flow_of s) (flow_of (heap st a))" if "a \<in> set (cseshash st ?h)" for a
    using new that by (simp add: look_flow_None_iff)
  then have no': "\<not> same_flow (flow_of (heap st a)) (flow_of s)" if "a \<in> set (cseshash st ?h)" for a
    using that same_flow_sym by blast
  show ?thesis
  proof (rule table_okI)
    fix i show "distinct (cseshash (snd (push_session s st)) i)"
      using table_okD(1) [OF ok] nin by simp
  next
    fix i a assume "a \<in> set (cseshash (snd (push_session s st)) i)"
    then have a: "a = ?n \<and> i = ?h \<or> a \<in> set (cseshash st i)" by (auto split: if_splits)
    then show "a < next_addr (snd (push_session s st))" using fresh by fastforce
    from a nin show "flow_hash (flow_of (heap (snd (push_session s st)) a)) = i"
      using table_okD(3) [OF ok, of a i] by auto
  next
    fix i a b
    assume a: "a \<in> set (cseshash (snd (push_session s st)) i)"
      and b: "b \<in> set (cseshash (snd (push_session s st)) i)"
      and same: "same_flow (flow_of (heap (snd (push_session s st)) a))
        (flow_of (heap (snd (push_session s st)) b))"
    show "a = b"
    proof (cases "i = ?h")
      case True
      with a b same no no' table_okD(4) [OF ok, of a i b] show ?thesis
        by (auto split: if_splits)
    next
      case False
      with a b same nin table_okD(4) [OF ok, of a i b] show ?thesis
        by (auto split: if_splits)
    qed
  qed
qed

lemma look_push_session:
  assumes ok: "table_ok st" and new: "look_flow st (flow_of s) = None"
  shows "look_flow (snd (push_session s st)) f
    = (if same_flow f (flow_of s) then Some (next_addr st) else look_flow st f)"
proof -
  let ?n = "next_addr st" and ?h = "flow_hash (flow_of s)" and ?i = "flow_hash f"
  have nin: "?n \<notin> set (cseshash st i)" for i
    using table_okD(2) [OF ok, of ?n i] by blast
  have old: "find (\<lambda>x. same_flow f (flow_of (((heap st)(?n := s)) x))) (cseshash st ?i)
      = look_flow st f"
    unfolding look_flow_def by (rule find_cong) (use nin in auto)
  show ?thesis
  proof (cases "same_flow f (flow_of s)")
    case True
    then have "?i = ?h" by (rule same_flow_hash)
    moreover have "look_flow st f = None" using new look_flow_same [OF True] by simp
    ultimately show ?thesis
      using True old by (simp add: look_flow_def [of "snd _"] find_append)
  next
    case False
    with old show ?thesis
      by (cases "?i = ?h") (simp_all add: look_flow_def [of "snd _"] find_append split: option.split)
  qed
qed

lemma update_session_simps [simp]:
  "next_addr (update_session a g st) = next_addr st"
  "cseshash (update_session a g st) = cseshash st"
  "heap (update_session a g st) = (heap st)(a := g (heap st a))"
  by (simp_all add: update_session_def)

lemma look_update_session:
  assumes "\<And>s. flow_of (g s) = flow_of s"
  shows "look_flow (update_session a g st) f = look_flow st f"
  using assms by (auto simp: look_flow_def intro: find_cong)

lemma update_session_ok:
  assumes "table_ok st" and "\<And>s. flow_of (g s) = flow_of s"
  shows "table_ok (update_session a g st)"
proof -
  have "flow_of (heap (update_session a g st) b) = flow_of (heap st b)" for b
    using assms(2) by simp
  then show ?thesis
    using assms(1) unfolding table_ok_def by (simp del: update_session_simps(3))
qed

lemma remove_flow_frame [simp]:
  "heap (remove_flow f st) = heap st" "next_addr (remove_flow f st) = next_addr st"
  by (simp_all add: remove_flow_def CSessionHashTable_Remove_def Let_def split: prod.split)

lemma remove_flow_buckets:
  "cseshash (remove_flow f st) = (cseshash st)(flow_hash f :=
     (case look_flow st f of None \<Rightarrow> cseshash st (flow_hash f)
                           | Some x \<Rightarrow> remove1 x (cseshash st (flow_hash f))))"
proof -
  obtain a b c d where f: "f = (a, b, c, d)" by (cases f)
  show ?thesis
    unfolding f remove_flow_def CSessionHashTable_Remove_def Let_def erase_ses_flow find_ses_flow
      look_flow_def by (simp split: option.split)
qed

lemma remove_flow_subset: "set (cseshash (remove_flow f st) i) \<subseteq> set (cseshash st i)"
  by (auto simp: remove_flow_buckets split: option.split dest: set_remove1_subset [THEN subsetD])

lemma remove_flow_ok: "table_ok st \<Longrightarrow> table_ok (remove_flow f st)"
proof (rule table_okI)
  fix i assume "table_ok st"
  then show "distinct (cseshash (remove_flow f st) i)"
    using table_okD(1) by (auto simp: remove_flow_buckets split: option.split)
next
  fix i a assume "table_ok st" "a \<in> set (cseshash (remove_flow f st) i)"
  then show "a < next_addr (remove_flow f st)"
    and "flow_hash (flow_of (heap (remove_flow f st) a)) = i"
    using table_okD(2,3) [of st a i] remove_flow_subset [of f st i] by auto
next
  fix i a b
  assume "table_ok st" "a \<in> set (cseshash (remove_flow f st) i)"
    "b \<in> set (cseshash (remove_flow f st) i)"
    "same_flow (flow_of (heap (remove_flow f st) a)) (flow_of (heap (remove_flow f st) b))"
  then show "a = b"
    using table_okD(4) [of st a i b] remove_flow_subset [of f st i] by auto
qed

lemma look_remove_flow:
  assumes ok: "table_ok st"
  shows "look_flow (remove_flow f st) g = (if same_flow g f then None else look_flow st g)"
proof (cases "look_flow st f")
  case None
  then have st: "look_flow (remove_flow f st) g = look_flow st g"
    by (simp add: look_flow_def [of "remove_flow f st"] look_flow_def [of st g] remove_flow_buckets)
  with None show ?thesis using look_flow_same by auto
next
  case (Some x)
  note ok' = remove_flow_ok [OF ok, of f]
  have x: "same_flow f (flow_of (heap st x))" "x \<in> set (cseshash st (flow_hash f))"
    using Some look_flow_Some_iff [OF ok] by auto
  have iff: "look_flow (remove_flow f st) g = Some a \<longleftrightarrow> look_flow st g = Some a \<and> a \<noteq> x" for a
  proof (cases "flow_hash g = flow_hash f")
    case True
    then have "cseshash (remove_flow f st) (flow_hash g) = remove1 x (cseshash st (flow_hash g))"
      using Some by (simp add: remove_flow_buckets)
    then show ?thesis
      using table_okD(1) [OF ok, of "flow_hash g"]
      by (auto simp: look_flow_Some_iff [OF ok] look_flow_Some_iff [OF ok'] set_remove1_eq)
  next
    case False
    then have "cseshash (remove_flow f st) (flow_hash g) = cseshash st (flow_hash g)"
      by (simp add: remove_flow_buckets)
    moreover have "x \<notin> set (cseshash st (flow_hash g))"
      using False table_okD(3) [OF ok, of x] x(2) by metis
    ultimately show ?thesis
      by (auto simp: look_flow_Some_iff [OF ok] look_flow_Some_iff [OF ok'])
  qed
  show ?thesis
  proof (cases "same_flow g f")
    case True
    with Some look_flow_same have "look_flow st g = Some x" by metis
    with iff True show ?thesis by (metis option.exhaust option.inject)
  next
    case False
    then have "look_flow st g \<noteq> Some x"
      using x look_flow_Some_iff [OF ok, of g x] by (blast intro: same_flow_sym same_flow_trans)
    with iff False show ?thesis by (metis not_Some_eq)
  qed
qed

section \<open>The contract as an interface\<close>

text \<open>
  A store of objects under keys, where keys that are \<open>same\<close> stand for one another: what is found
  after an insertion, a removal and an update in place.
\<close>

locale keyed_store =
  fixes inv :: "'s \<Rightarrow> bool"
    and same :: "'k \<Rightarrow> 'k \<Rightarrow> bool"
    and key :: "'v \<Rightarrow> 'k"
    and look :: "'s \<Rightarrow> 'k \<Rightarrow> 'a option"
    and obj :: "'s \<Rightarrow> 'a \<Rightarrow> 'v"
    and add :: "'v \<Rightarrow> 's \<Rightarrow> 'a \<times> 's"
    and del :: "'k \<Rightarrow> 's \<Rightarrow> 's"
    and upd :: "'a \<Rightarrow> ('v \<Rightarrow> 'v) \<Rightarrow> 's \<Rightarrow> 's"
  assumes same_refl: "same k k"
    and same_sym: "same k k' \<Longrightarrow> same k' k"
    and same_trans: "same k k' \<Longrightarrow> same k' k'' \<Longrightarrow> same k k''"
    and look_same: "same k k' \<Longrightarrow> look s k = look s k'"
    and look_key: "inv s \<Longrightarrow> look s k = Some a \<Longrightarrow> same k (key (obj s a))"
    and inv_add: "inv s \<Longrightarrow> look s (key v) = None \<Longrightarrow> inv (snd (add v s))"
    and look_add: "inv s \<Longrightarrow> look s (key v) = None \<Longrightarrow>
      look (snd (add v s)) k = (if same k (key v) then Some (fst (add v s)) else look s k)"
    and obj_add: "obj (snd (add v s)) (fst (add v s)) = v"
    and obj_add_old: "inv s \<Longrightarrow> look s k = Some a \<Longrightarrow> obj (snd (add v s)) a = obj s a"
    and inv_del: "inv s \<Longrightarrow> inv (del k s)"
    and look_del: "inv s \<Longrightarrow> look (del k s) k' = (if same k' k then None else look s k')"
    and obj_del: "obj (del k s) a = obj s a"
    and inv_upd: "inv s \<Longrightarrow> (\<And>v. key (g v) = key v) \<Longrightarrow> inv (upd a g s)"
    and look_upd: "(\<And>v. key (g v) = key v) \<Longrightarrow> look (upd a g s) k = look s k"
    and obj_upd: "obj (upd a g s) b = (if b = a then g (obj s a) else obj s b)"
begin

text \<open>Find the object of a key, or insert a new one for it.\<close>

lemma find_or_add:
  assumes "inv s" and "same k (key v)"
  defines "r \<equiv> (case look s k of None \<Rightarrow> add v s | Some a \<Rightarrow> (a, s))"
  shows "inv (snd r) \<and> look (snd r) k = Some (fst r) \<and> same k (key (obj (snd r) (fst r)))
    \<and> (\<forall>k'. \<not> same k' k \<longrightarrow> look (snd r) k' = look s k')"
proof (cases "look s k")
  case (Some a)
  then show ?thesis using assms look_key by (simp add: r_def)
next
  case None
  then have "look s (key v) = None" using look_same assms(2) by metis
  moreover from this have "same k' k = same k' (key v)" for k'
    using assms(2) same_sym same_trans by blast
  ultimately show ?thesis
    using None assms inv_add [of s v] look_add [of s v] obj_add [of v s] by (simp add: r_def)
qed

text \<open>What is removed is gone, and only that.\<close>

lemma add_del:
  assumes "inv s" and "look s (key v) = None"
  shows "look (del (key v) (snd (add v s))) k = look s k"
  using assms look_same [of k "key v" s] by (simp add: look_del look_add inv_add)

lemma distinct_keys:
  assumes "inv s" and "look s k = Some a" and "look s k' = Some a"
  shows "same k k'"
  using assms look_key same_sym same_trans by metis

end

interpretation sestab: keyed_store table_ok same_flow flow_of look_flow heap push_session
  remove_flow update_session
proof
  fix st :: ses_store and f g h :: flow and s and a b and u :: "csession \<Rightarrow> csession"
  show "same_flow f f" by simp
  show "same_flow f g \<Longrightarrow> same_flow g f" by (rule same_flow_sym)
  show "same_flow f g \<Longrightarrow> same_flow g h \<Longrightarrow> same_flow f h" by (rule same_flow_trans)
  show "same_flow f g \<Longrightarrow> look_flow st f = look_flow st g" by (rule look_flow_same)
  show "table_ok st \<Longrightarrow> look_flow st f = Some a \<Longrightarrow> same_flow f (flow_of (heap st a))"
    by (simp add: look_flow_Some_iff)
  show "table_ok st \<Longrightarrow> look_flow st f = Some a \<Longrightarrow> heap (snd (push_session s st)) a = heap st a"
    by (auto dest: look_flow_bound)
qed (simp_all add: push_session_ok look_push_session remove_flow_ok look_remove_flow
    update_session_ok look_update_session)

end
