(* ===== verification/HttpParse.thy ===== *)
theory HttpParse
  imports Session
begin

text \<open>
  The HTTP decoder \<open>CHttpParse\<close> (HttpParse.h, HttpParse.cpp), as the code has it: it walks over
  the two buffers of a session with 32 bit positions and C string functions. Boost's
  \<open>lexical_cast\<close> is a parameter; what the decoder writes to the file named after the client port
  is a value.
\<close>

record boost =
  lex_u32 :: "string \<Rightarrow> u32 option"      \<comment> \<open>\<open>lexical_cast<uint32_t>\<close>, \<open>None\<close> for bad_lexical_cast\<close>
  lex_float :: "string \<Rightarrow> u32 option"    \<comment> \<open>\<open>lexical_cast<float>\<close>, the bits of the IEEE single\<close>
  lex_port :: "u16 \<Rightarrow> string option"     \<comment> \<open>\<open>lexical_cast<string>\<close> of a port number\<close>

type_synonym file_output = "string \<times> string"  \<comment> \<open>a file name and the text appended to the file\<close>

section \<open>Scanning\<close>

fun tag_scan :: "block \<Rightarrow> nat \<Rightarrow> char list \<Rightarrow> nat \<Rightarrow> nat \<Rightarrow> nat \<Rightarrow> (nat option) res" where
  "tag_scan m base tag tagsize i 0 = Inr None"
| "tag_scan m base tag tagsize i (Suc k) =
     bindR (strncmp_eq m (base + i) tag tagsize) (\<lambda>eq.
       if eq then Inr (Some i) else tag_scan m base tag tagsize (i + 1) k)"

text \<open>
  \<open>GetBufByTag (in, len, tag, tagsize, out)\<close>: the position of the first tag within the next
  \<open>len\<close> bytes and \<open>out\<close> with the bytes before it appended, or \<open>None\<close> for the result -1. \<open>len\<close> is
  a signed \<open>int\<close>.
\<close>

definition GetBufByTag ::
  "block \<Rightarrow> nat \<Rightarrow> int \<Rightarrow> char list \<Rightarrow> nat \<Rightarrow> string \<Rightarrow> ((nat \<times> string) option) res" where
  "GetBufByTag m base len tag tagsize out =
     bindR (tag_scan m base tag tagsize 0 (nat len)) (\<lambda>r.
       Inr (case r of None \<Rightarrow> None | Some i \<Rightarrow> Some (i, out @ take i (drop base m))))"

lemma tag_scan_bound: "tag_scan m base tag tagsize i k = Inr (Some j) \<Longrightarrow> i \<le> j \<and> j < i + k"
proof (induction k arbitrary: i)
  case 0
  then show ?case by simp
next
  case (Suc k)
  then obtain b where b: "(if b then Inr (Some i) else tag_scan m base tag tagsize (i + 1) k)
      = Inr (Some j)"
    by (auto simp: res_simps)
  show ?case
  proof (cases b)
    case True
    with b show ?thesis by simp
  next
    case False
    with b Suc.IH [of "i + 1"] show ?thesis by simp
  qed
qed

lemma GetBufByTag_bound: "GetBufByTag m base len tag n out = Inr (Some (i, s)) \<Longrightarrow> int i < len"
proof -
  assume "GetBufByTag m base len tag n out = Inr (Some (i, s))"
  then have "tag_scan m base tag n 0 (nat len) = Inr (Some i)"
    by (auto simp: GetBufByTag_def res_simps split: option.splits)
  then have "i < 0 + nat len" using tag_scan_bound by blast
  then show ?thesis by simp
qed

section \<open>Fields\<close>

definition GetMethod :: "string \<Rightarrow> u32 res" where
  "GetMethod method =
     (if method = ''GET'' then Inr GET
      else if method = ''POST'' then Inr POST
      else if method = ''OPTIONS'' then Inr OPTIONS
      else if method = ''HEAD'' then Inr HEAD
      else if method = ''PUT'' then Inr PUT
      else if method = ''DELETE'' then Inr DELETE
      else if method = ''TRACE'' then Inr TRACE
      else if method = ''CONNECT'' then Inr CONNECT
      else Inl MissingReturn)"

fun occurs_in :: "string \<Rightarrow> string \<Rightarrow> bool" where
  "occurs_in pat [] \<longleftrightarrow> pat = []"
| "occurs_in pat (c # cs) \<longleftrightarrow> take (length pat) (c # cs) = pat \<or> occurs_in pat cs"

text \<open>
  \<open>(uint32_t) (i * 10)\<close> for a single-precision \<open>i\<close> given by its bits: the product of the
  significand is rounded to 24 bits, ties to even, and the fraction is dropped. Values outside
  the target type, infinities and NaNs have no defined conversion.
\<close>

definition round24 :: "nat \<Rightarrow> nat \<times> nat" where
  "round24 p =
     (let k = (if p < 2 ^ 24 then 0 else if p < 2 ^ 25 then 1 else if p < 2 ^ 26 then 2
               else if p < 2 ^ 27 then 3 else 4);
          q = p div 2 ^ k; r = p mod 2 ^ k
      in (if 2 ^ k < 2 * r \<or> (2 * r = 2 ^ k \<and> odd q \<and> 0 < k) then q + 1 else q, k))"

definition float_times10_to_u32 :: "u32 \<Rightarrow> u32 res" where
  "float_times10_to_u32 w =
     (let n = unat w; e = (n div 2 ^ 23) mod 256; f = n mod 2 ^ 23;
          sig = (if e = 0 then f else f + 2 ^ 23); ex = int (max e 1) - 150;
          (q, k) = round24 (10 * sig); ex' = ex + int k;
          v = (if 0 \<le> ex' then q * 2 ^ nat ex' else q div 2 ^ nat (- ex'))
      in if e = 255 then Inl BadConversion
         else if bit w 31 \<and> v \<noteq> 0 then Inl BadConversion
         else if 2 ^ 32 \<le> v then Inl BadConversion
         else Inr (of_nat v))"

definition GetVersion :: "boost \<Rightarrow> string \<Rightarrow> (u32 option) res" where
  "GetVersion bst version =
     (if length version \<noteq> 8 then Inr None
      else if \<not> occurs_in ''HTTP/'' version then Inr None
      else case lex_float bst (take 3 (drop 5 version)) of
             None \<Rightarrow> Inr None
           | Some i \<Rightarrow> bindR (float_times10_to_u32 i) (\<lambda>v. Inr (Some v)))"

section \<open>The request line, the status line and the headers\<close>

definition ParseMethodAndUri ::
  "boost \<Rightarrow> block \<Rightarrow> u32 \<Rightarrow> u32 \<Rightarrow> cresult \<Rightarrow> (bool \<times> u32 \<times> cresult) res" where
  "ParseMethodAndUri bst m len pos result =
     bindR (GetBufByTag m (unat pos) (sint (len - pos)) [SP] 1 []) (\<lambda>r. case r of
       None \<Rightarrow> Inr (False, pos, result)
     | Some (ret, method) \<Rightarrow>
         let pos = pos + of_nat ret + 1 in
     bindR (GetMethod method) (\<lambda>met.
         let result = result\<lparr>Method := met\<rparr> in
     bindR (GetBufByTag m (unat pos) (sint (len - pos)) [SP] 1 (Url result)) (\<lambda>r. case r of
       None \<Rightarrow> Inr (False, pos, result)
     | Some (ret, url) \<Rightarrow>
         let result = result\<lparr>Url := url\<rparr>; pos = pos + of_nat ret + 1 in
     bindR (GetBufByTag m (unat pos) (sint (len - pos)) [LF] 1 []) (\<lambda>r. case r of
       None \<Rightarrow> Inr (False, pos, result)
     | Some (ret, version) \<Rightarrow>
         let pos = pos + of_nat ret + 1 in
     bindR (GetVersion bst version) (\<lambda>v. case v of
       None \<Rightarrow> Inr (False, pos, result)
     | Some ver \<Rightarrow> Inr (True, pos, result\<lparr>Version := ver\<rparr>))))))"

definition ParseRspState ::
  "boost \<Rightarrow> block \<Rightarrow> u32 \<Rightarrow> u32 \<Rightarrow> cresult \<Rightarrow> (bool \<times> u32 \<times> cresult) res" where
  "ParseRspState bst m len pos result =
     bindR (GetBufByTag m (unat pos) (sint (len - pos)) [SP] 1 []) (\<lambda>r. case r of
       None \<Rightarrow> Inr (False, pos, result)
     | Some (ret, version) \<Rightarrow>
         let pos = pos + of_nat ret + 1 in
     bindR (GetVersion bst version) (\<lambda>v. case v of
       None \<Rightarrow> Inr (False, pos, result)
     | Some ver \<Rightarrow>
         if ver \<noteq> Version result then Inr (False, pos, result)
         else
     bindR (GetBufByTag m (unat pos) (sint (len - pos)) [SP] 1 []) (\<lambda>r. case r of
       None \<Rightarrow> Inr (False, pos, result)
     | Some (ret, rspCode) \<Rightarrow>
         let pos = pos + of_nat ret + 1 in
         case lex_u32 bst rspCode of
           None \<Rightarrow> Inr (False, pos, result)
         | Some code \<Rightarrow>
             let result = result\<lparr>RetCode := code\<rparr> in
     bindR (GetBufByTag m (unat pos) (sint (len - pos)) [CR, LF] 2 (RetNote result)) (\<lambda>r. case r of
       None \<Rightarrow> Inr (False, pos, result)
     | Some (ret, note) \<Rightarrow>
         Inr (True, pos + of_nat ret + 2, result\<lparr>RetNote := note\<rparr>)))))"

text \<open>
  The header loop. Each round reads the byte at the position (it is echoed with \<open>putchar\<close>),
  stops at an empty line, and otherwise takes a key up to the next colon and a value up to the
  next line feed. It terminates because the position moves towards the end by at least two.
\<close>

lemma scan_advances:
  fixes d :: u32
  assumes "int i < sint d"
  shows "unat (d - of_nat i - 1) < unat d" and "unat (d - of_nat i - 1) = unat d - Suc i"
proof -
  have "sint d = int (unat d)" using assms by (intro sint_nonneg) linarith
  then have "Suc i \<le> unat d" using assms by linarith
  moreover have eq: "d - of_nat i - 1 = d - of_nat (Suc i)" by (simp add: algebra_simps)
  ultimately show "unat (d - of_nat i - 1) = unat d - Suc i" and "unat (d - of_nat i - 1) < unat d"
    unfolding eq by (simp_all add: unat_diff_of_nat del: of_nat_Suc)
qed

function ParseHeader :: "block \<Rightarrow> u32 \<Rightarrow> u32 \<Rightarrow> header_map \<Rightarrow> (bool \<times> u32 \<times> header_map) res" where
  "ParseHeader m len pos headmap =
     (if len - pos = 0 then Inr (False, pos, headmap)
      else
     bindR (c_load m (unat pos)) (\<lambda>echoed.
     bindR (strncmp_eq m (unat pos) [LF] 1) (\<lambda>lf.
       if lf then Inr (True, pos + 1, headmap)
       else
     bindR (strncmp_eq m (unat pos) [CR, LF] 2) (\<lambda>crlf.
       if crlf then Inr (True, pos + 2, headmap)
       else
     bindR (GetBufByTag m (unat pos) (sint (len - pos)) [COLON] 1 []) (\<lambda>r. case r of
       None \<Rightarrow> Inr (False, pos, headmap)
     | Some (ret, key) \<Rightarrow>
     bindR (GetBufByTag m (unat (pos + of_nat ret + 1)) (sint (len - (pos + of_nat ret + 1)))
              [LF] 1 []) (\<lambda>r'. case r' of
       None \<Rightarrow> Inr (False, pos + of_nat ret + 1, headmap)
     | Some (ret', val) \<Rightarrow>
         ParseHeader m len (pos + of_nat ret + 1 + of_nat ret' + 1) (hm_set key val headmap)))))))"
  by pat_completeness auto
termination
proof (relation "measure (\<lambda>(m, len, pos, headmap). unat (len - pos))", goal_cases)
  case 1
  show ?case by simp
next
  case (2 m len pos headmap echoed lf crlf r x ret key r' y ret' val)
  let ?d = "len - pos"
  have r: "int ret < sint ?d" using 2 GetBufByTag_bound by blast
  have d1: "len - (pos + of_nat ret + 1) = ?d - of_nat ret - 1" by simp
  have r': "int ret' < sint (?d - of_nat ret - 1)"
    using 2 GetBufByTag_bound unfolding d1 by blast
  have "len - (pos + of_nat ret + 1 + of_nat ret' + 1) = (?d - of_nat ret - 1) - of_nat ret' - 1"
    by simp
  moreover have "unat ((?d - of_nat ret - 1) - of_nat ret' - 1) < unat ?d"
    using scan_advances(1) [OF r] scan_advances(1) [OF r'] by linarith
  ultimately show ?case by (simp only: in_measure case_prod_conv)
qed

declare ParseHeader.simps [simp del]

text \<open>The bodies are not looked at: both functions return true.\<close>

definition ParseReqData :: "block \<Rightarrow> u32 \<Rightarrow> u32 \<Rightarrow> cresult \<Rightarrow> (bool \<times> u32 \<times> cresult) res" where
  "ParseReqData m len pos result = Inr (True, pos, result)"

definition ParseRspData :: "block \<Rightarrow> u32 \<Rightarrow> u32 \<Rightarrow> cresult \<Rightarrow> (bool \<times> u32 \<times> cresult) res" where
  "ParseRspData m len pos result = Inr (True, pos, result)"

section \<open>The record that is written\<close>

text \<open>The union \<open>iptrans\<close>: the bytes of an address in host order, printed high byte first.\<close>

definition iptrans :: "u32 \<Rightarrow> string" where
  "iptrans ip =
     (let x = (\<lambda>n. show_dec (unat (take_bit 8 (drop_bit n ip))))
      in x 24 @ ''.'' @ x 16 @ ''.'' @ x 8 @ ''.'' @ x 0)"

definition show_headers :: "header_map \<Rightarrow> string" where
  "show_headers h = concat (map (\<lambda>(k, v). [CHR 0x09] @ k @ '':  '' @ v @ [LF]) h)"

definition record_text :: "csession \<Rightarrow> string \<Rightarrow> string \<Rightarrow> string" where
  "record_text s req rsp =
       iptrans (ClientIp s) @ '':'' @ show_dec (unat (ClientPort s)) @ '' ===> ''
         @ iptrans (ServerIp s) @ '':'' @ show_dec (unat (ServerPort s)) @ [LF]
     @ ''method: '' @ show_dec (unat (Method (Result s)))
         @ [CHR 0x09] @ ''version: '' @ show_dec (unat (Version (Result s))) @ [LF]
     @ ''retrun code : '' @ show_dec (unat (RetCode (Result s))) @ RetNote (Result s) @ [LF]
     @ ''url : '' @ Url (Result s) @ [LF]
     @ ''Request Header:'' @ [LF] @ show_headers (RequestHeader (Result s))
     @ ''Request Context:'' @ [LF] @ req @ [LF]
     @ ''Response Header:'' @ [LF] @ show_headers (ResponseHeader (Result s))
     @ ''Response Context:'' @ [LF] @ rsp @ [LF]
     @ replicate 98 (CHR 0x2B) @ [LF]"

text \<open>\<open>output.write (tmp, length)\<close> with what \<open>GetBuf\<close> returned.\<close>

definition written_bytes :: "cbuffer \<Rightarrow> string res" where
  "written_bytes b =
     (case CBuffer_GetBuf b of
        (None, n) \<Rightarrow> Inl NullDeref
      | (Some tmp, n) \<Rightarrow> c_read tmp 0 (unat n))"

definition Send :: "boost \<Rightarrow> csession \<Rightarrow> (file_output list) res" where
  "Send bst s =
     (case lex_port bst (ClientPort s) of
        None \<Rightarrow> Inr []
      | Some port \<Rightarrow>
          bindR (written_bytes (ReqBuf s)) (\<lambda>req.
          bindR (written_bytes (RspBuf s)) (\<lambda>rsp.
          Inr [(''../../'' @ port, record_text s req rsp)])))"

section \<open>Parse\<close>

text \<open>
  The two halves of \<open>Parse\<close> in the order of the code: each runs its three steps until one
  returns false.
\<close>

definition parse_request ::
  "boost \<Rightarrow> block \<Rightarrow> u32 \<Rightarrow> cresult \<Rightarrow> (bool \<times> u32 \<times> cresult) res" where
  "parse_request bst m len result =
     bindR (ParseMethodAndUri bst m len 0 result) (\<lambda>(ok, pos, result).
       if \<not> ok then Inr (False, pos, result)
       else
     bindR (ParseHeader m len pos (RequestHeader result)) (\<lambda>(ok, pos, hm).
       let result = result\<lparr>RequestHeader := hm\<rparr> in
       if \<not> ok then Inr (False, pos, result) else ParseReqData m len pos result))"

definition parse_response ::
  "boost \<Rightarrow> block \<Rightarrow> u32 \<Rightarrow> cresult \<Rightarrow> (bool \<times> u32 \<times> cresult) res" where
  "parse_response bst m len result =
     bindR (ParseRspState bst m len 0 result) (\<lambda>(ok, pos, result).
       if \<not> ok then Inr (False, pos, result)
       else
     bindR (ParseHeader m len pos (ResponseHeader result)) (\<lambda>(ok, pos, hm).
       let result = result\<lparr>ResponseHeader := hm\<rparr> in
       if \<not> ok then Inr (False, pos, result) else ParseRspData m len pos result))"

definition CHttpParse_Parse ::
  "boost \<Rightarrow> allocator \<Rightarrow> csession \<Rightarrow> (csession \<times> file_output list) res" where
  "CHttpParse_Parse bst al s =
     (let (reqBuf, reqLen) = CBuffer_GetBuf (ReqBuf s);
          (rspBuf, rspLen) = CBuffer_GetBuf (RspBuf s);
          give_up = (\<lambda>s. bindR (CSession_Reset al s) (\<lambda>s'. Inr (s', [])))
      in case (reqBuf, rspBuf) of
           (Some req, Some rsp) \<Rightarrow>
             if reqLen = 0 \<or> rspLen = 0 then give_up s
             else
               bindR (if 10 < reqLen then parse_request bst req reqLen (Result s)
                      else Inr (True, 0, Result s)) (\<lambda>(ok, pos, result).
               let s = s\<lparr>Result := result\<rparr> in
               if \<not> ok then give_up s
               else
               bindR (if 10 < rspLen then parse_response bst rsp rspLen result
                      else Inr (True, pos, result)) (\<lambda>(ok, pos, result).
               let s = s\<lparr>Result := result\<rparr> in
               if \<not> ok then give_up s
               else
               bindR (Send bst s) (\<lambda>out.
               bindR (CSession_Reset al s) (\<lambda>s'. Inr (s', out)))))
         | _ \<Rightarrow> give_up s)"

end
