(* ===== verification/HttpGrammar.thy ===== *)
theory HttpGrammar
  imports HttpParse
begin

text \<open>
  What the decoder accepts, stated on strings: a splitting function per tag, the header grammar,
  the request and the response; the proof that the buffer-walking functions of HttpParse compute
  exactly this, within the bounds of the memory; and the round trips with rendered messages.
\<close>

section \<open>Splitting\<close>

fun split_at :: "char \<Rightarrow> string \<Rightarrow> (string \<times> string) option" where
  "split_at c [] = None"
| "split_at c (x # xs) =
     (if x = c then Some ([], xs) else map_option (\<lambda>(a, b). (x # a, b)) (split_at c xs))"

fun split_crlf :: "string \<Rightarrow> (string \<times> string) option" where
  "split_crlf [] = None"
| "split_crlf (x # xs) =
     (if x = CR \<and> take 1 xs = [LF] then Some ([], tl xs)
      else map_option (\<lambda>(a, b). (x # a, b)) (split_crlf xs))"

lemma split_at_Some_iff: "split_at c s = Some (a, b) \<longleftrightarrow> s = a @ c # b \<and> c \<notin> set a"
proof (induction s arbitrary: a)
  case Nil
  then show ?case by simp
next
  case (Cons x xs)
  then show ?case by (cases a) auto
qed

lemma split_at_None_iff: "split_at c s = None \<longleftrightarrow> c \<notin> set s"
  by (induction s) auto

lemma split_at_append: "c \<notin> set a \<Longrightarrow> split_at c (a @ c # b) = Some (a, b)"
  by (simp add: split_at_Some_iff)

lemma split_at_length: "split_at c s = Some (a, b) \<Longrightarrow> length s = Suc (length a + length b)"
  by (simp add: split_at_Some_iff)

lemma split_crlf_SomeD: "split_crlf s = Some (a, b) \<Longrightarrow> s = a @ CR # LF # b"
proof (induction s arbitrary: a)
  case Nil
  then show ?case by simp
next
  case (Cons x xs)
  show ?case
  proof (cases "x = CR \<and> take 1 xs = [LF]")
    case True
    then obtain ys where "xs = LF # ys" by (cases xs) auto
    with True Cons.prems show ?thesis by simp
  next
    case False
    with Cons show ?thesis by (auto split: prod.splits)
  qed
qed

lemma split_crlf_append: "CR \<notin> set a \<Longrightarrow> split_crlf (a @ CR # LF # b) = Some (a, b)"
  by (induction a) auto

lemma split_crlf_None: "CR \<notin> set s \<Longrightarrow> split_crlf s = None"
  by (induction s) auto

section \<open>Windows\<close>

text \<open>
  The bytes that remain at a position, and the condition under which the position arithmetic of
  the decoder is exact: the position does not pass the end, and the length is a positive \<open>int\<close>.
\<close>

definition window :: "block \<Rightarrow> u32 \<Rightarrow> u32 \<Rightarrow> string" where
  "window m len pos = drop (unat pos) (take (unat len) m)"

definition in_window :: "block \<Rightarrow> u32 \<Rightarrow> u32 \<Rightarrow> bool" where
  "in_window m len pos \<longleftrightarrow> unat pos \<le> unat len \<and> unat len < 2 ^ 31 \<and> unat len \<le> length m"

lemma in_window_0: "unat len < 2 ^ 31 \<Longrightarrow> unat len \<le> length m \<Longrightarrow> in_window m len 0"
  by (simp add: in_window_def)

lemma window_facts:
  assumes "in_window m len pos"
  shows "length (window m len pos) = unat len - unat pos"
    and "unat (len - pos) = unat len - unat pos"
    and "sint (len - pos) = int (unat len - unat pos)"
    and "len - pos = 0 \<longleftrightarrow> window m len pos = []"
proof -
  have le: "unat pos \<le> unat len" "unat len < 2 ^ 31" "unat len \<le> length m"
    using assms by (auto simp: in_window_def)
  then show 1: "length (window m len pos) = unat len - unat pos"
    by (simp add: window_def)
  have "pos \<le> len" using le by (simp add: word_le_nat_alt)
  then show 2: "unat (len - pos) = unat len - unat pos" by (simp add: unat_sub)
  have "sint (len - pos) = int (unat (len - pos))"
    using le 2 by (intro sint_small) simp
  with 2 show "sint (len - pos) = int (unat len - unat pos)" by simp
  have "len - pos = 0 \<longleftrightarrow> unat (len - pos) = 0" by (simp only: unat_eq_0)
  then show "len - pos = 0 \<longleftrightarrow> window m len pos = []"
    using 1 2 by (simp only: length_0_conv [symmetric])
qed

lemma window_nth:
  "in_window m len pos \<Longrightarrow> i < length (window m len pos) \<Longrightarrow> window m len pos ! i = m ! (unat pos + i)"
  by (simp add: window_def in_window_def)

lemma window_index:
  "in_window m len pos \<Longrightarrow> i < length (window m len pos) \<Longrightarrow> unat pos + i < length m"
  by (auto simp: in_window_def window_facts)

lemma window_advance:
  assumes w: "in_window m len pos" and n: "n \<le> length (window m len pos)"
  shows "in_window m len (pos + of_nat n)"
    and "window m len (pos + of_nat n) = drop n (window m len pos)"
proof -
  have le: "unat pos + n \<le> unat len" "unat len < 2 ^ 31"
    using w n by (auto simp: in_window_def window_facts)
  then have "unat (pos + of_nat n) = unat pos + n" by (intro unat_add_of_nat) simp
  with w le show "in_window m len (pos + of_nat n)"
    and "window m len (pos + of_nat n) = drop n (window m len pos)"
    by (simp_all add: in_window_def window_def add.commute)
qed

lemma window_step:
  assumes "in_window m len pos" and "window m len pos = a @ c # b"
  shows "in_window m len (pos + of_nat (length a) + 1)"
    and "window m len (pos + of_nat (length a) + 1) = b"
proof -
  have eq: "pos + of_nat (length a) + 1 = pos + of_nat (Suc (length a))" by simp
  have "Suc (length a) \<le> length (window m len pos)" using assms(2) by simp
  from window_advance [OF assms(1) this] assms(2)
  show "in_window m len (pos + of_nat (length a) + 1)"
    and "window m len (pos + of_nat (length a) + 1) = b"
    unfolding eq by simp_all
qed

section \<open>Scanning a window\<close>

lemma tag_scan_char:
  assumes "base + (i + k) \<le> length m"
  shows "tag_scan m base [c] 1 i k
    = Inr (map_option (\<lambda>(a, b). i + length a) (split_at c (take k (drop (base + i) m))))"
  using assms
proof (induction k arbitrary: i)
  case 0
  then show ?case by simp
next
  case (Suc k)
  then have "take (Suc k) (drop (base + i) m) = m ! (base + i) # take k (drop (base + (i + 1)) m)"
    by (simp add: take_Suc_conv_app_nth Cons_nth_drop_Suc [symmetric])
  moreover have "base + i < length m" using Suc.prems by simp
  ultimately show ?case
    using Suc.IH [of "i + 1"] Suc.prems
    by (simp add: option.map_comp comp_def split_beta)
qed

lemma GetBufByTag_char:
  assumes w: "in_window m len pos"
  shows "GetBufByTag m (unat pos) (sint (len - pos)) [c] 1 out
    = Inr (map_option (\<lambda>(a, b). (length a, out @ a)) (split_at c (window m len pos)))"
proof -
  let ?k = "unat len - unat pos"
  have le: "unat pos + (0 + ?k) \<le> length m" using w by (simp add: in_window_def)
  have win: "window m len pos = take ?k (drop (unat pos) m)"
    by (simp add: window_def drop_take)
  have pre: "take (length a) (drop (unat pos) m) = a"
    if "split_at c (window m len pos) = Some (a, b)" for a b
  proof -
    have "window m len pos = a @ c # b" using that by (simp add: split_at_Some_iff)
    then have "take (length a) (take ?k (drop (unat pos) m)) = a"
      and "length a \<le> ?k" using window_facts(1) [OF w] by (simp_all add: win)
    then show ?thesis by (simp add: min_absorb1)
  qed
  show ?thesis
    unfolding GetBufByTag_def window_facts(3) [OF w] nat_int tag_scan_char [OF le] bindR.simps
    using pre by (cases "split_at c (window m len pos)") (auto simp: win)
qed

text \<open>
  A two-byte tag may be matched across the end of the window, so the byte behind it counts.
  \<open>quiet_end\<close> says that it is there and is no line feed.
\<close>

definition quiet_end :: "block \<Rightarrow> u32 \<Rightarrow> bool" where
  "quiet_end m len \<longleftrightarrow> unat len < length m \<and> m ! unat len \<noteq> LF"

lemma strncmp_crlf:
  assumes w: "in_window m len pos" and q: "quiet_end m len"
    and i: "i < length (window m len pos)"
  shows "strncmp_eq m (unat pos + i) [CR, LF] 2
    = Inr (take 2 (drop i (window m len pos)) = [CR, LF])"
proof -
  let ?w = "window m len pos"
  have lm: "unat pos + i < length m" using window_index [OF w i] .
  have len: "unat pos + length ?w = unat len"
    using w by (auto simp: window_facts in_window_def)
  have nth: "m ! (unat pos + i) = ?w ! i" using window_nth [OF w i] by simp
  show ?thesis
  proof (cases "i + 1 < length ?w")
    case True
    then have "take 2 (drop i ?w) = [?w ! i, ?w ! (i + 1)]"
      by (simp add: numeral_2_eq_2 take_Suc_conv_app_nth)
    moreover have "unat pos + i + 1 < length m" "m ! (unat pos + i + 1) = ?w ! (i + 1)"
      using window_index [OF w True] window_nth [OF w True] by simp_all
    ultimately show ?thesis
      using lm nth by (simp add: strncmp_eq_2 c_load_ok)
  next
    case False
    then have "drop i ?w = [?w ! i]"
      using i by (metis Cons_nth_drop_Suc Suc_eq_plus1 drop_all not_less)
    moreover have "unat pos + i + 1 = unat len" using False i len by simp
    ultimately have last: "unat pos + i + 1 = unat len" "take 2 (drop i ?w) = [?w ! i]"
      by simp_all
    then show ?thesis
      using lm q nth by (simp add: strncmp_eq_2 c_load_ok quiet_end_def)
  qed
qed

lemma tag_scan_crlf:
  assumes w: "in_window m len pos" and q: "quiet_end m len"
    and k: "i + k = length (window m len pos)"
  shows "tag_scan m (unat pos) [CR, LF] 2 i k
    = Inr (map_option (\<lambda>(a, b). i + length a) (split_crlf (drop i (window m len pos))))"
  using k
proof (induction k arbitrary: i)
  case 0
  then show ?case by simp
next
  case (Suc k)
  let ?w = "window m len pos"
  have i: "i < length ?w" using Suc.prems by simp
  then have "drop i ?w = ?w ! i # drop (i + 1) ?w" by (simp add: Cons_nth_drop_Suc)
  moreover from this have "take 2 (drop i ?w) = [CR, LF]
      \<longleftrightarrow> ?w ! i = CR \<and> take 1 (drop (i + 1) ?w) = [LF]"
    by (simp add: numeral_2_eq_2)
  ultimately show ?case
    using Suc.IH [of "i + 1"] Suc.prems strncmp_crlf [OF w q i]
    by (simp add: option.map_comp comp_def split_beta)
qed

lemma GetBufByTag_crlf:
  assumes w: "in_window m len pos" and q: "quiet_end m len"
  shows "GetBufByTag m (unat pos) (sint (len - pos)) [CR, LF] 2 out
    = Inr (map_option (\<lambda>(a, b). (length a, out @ a)) (split_crlf (window m len pos)))"
proof -
  let ?k = "unat len - unat pos"
  have k: "0 + ?k = length (window m len pos)" using window_facts(1) [OF w] by simp
  have win: "window m len pos = take ?k (drop (unat pos) m)"
    by (simp add: window_def drop_take)
  have pre: "take (length a) (drop (unat pos) m) = a"
    if "split_crlf (window m len pos) = Some (a, b)" for a b
  proof -
    have "window m len pos = a @ CR # LF # b" using that by (rule split_crlf_SomeD)
    then have "take (length a) (take ?k (drop (unat pos) m)) = a"
      and "length a \<le> ?k" using window_facts(1) [OF w] by (simp_all add: win)
    then show ?thesis by (simp add: min_absorb1)
  qed
  show ?thesis
    unfolding GetBufByTag_def window_facts(3) [OF w] nat_int tag_scan_crlf [OF w q k] bindR.simps
    using pre by (cases "split_crlf (window m len pos)") auto
qed

section \<open>Headers\<close>

function spec_headers :: "string \<Rightarrow> header_map \<Rightarrow> (header_map \<times> string) option" where
  "spec_headers s hm =
     (if s = [] then None
      else if take 1 s = [LF] then Some (hm, drop 1 s)
      else if take 2 s = [CR, LF] then Some (hm, drop 2 s)
      else case split_at COLON s of
             None \<Rightarrow> None
           | Some (key, s') \<Rightarrow>
               (case split_at LF s' of
                  None \<Rightarrow> None
                | Some (val, s'') \<Rightarrow> spec_headers s'' (hm_set key val hm)))"
  by pat_completeness auto
termination
  by (relation "measure (\<lambda>(s, hm). length s)") (auto dest!: split_at_length)

declare spec_headers.simps [simp del]

text \<open>
  The loop over the buffer computes the grammar: it never leaves the block, succeeds exactly
  when the grammar does, with the same map, and stops where the grammar stops.
\<close>

definition agrees :: "block \<Rightarrow> u32 \<Rightarrow> (bool \<times> u32 \<times> 'a) res \<Rightarrow> ('a \<times> string) option \<Rightarrow> bool" where
  "agrees m len r spec \<longleftrightarrow>
     (\<exists>ok pos x. r = Inr (ok, pos, x) \<and>
        (if ok then spec = Some (x, window m len pos) \<and> in_window m len pos else spec = None))"

lemma agreesI [intro]:
  "spec = None \<Longrightarrow> agrees m len (Inr (False, pos, x)) spec"
  "spec = Some (x, window m len pos) \<Longrightarrow> in_window m len pos
    \<Longrightarrow> agrees m len (Inr (True, pos, x)) spec"
  by (auto simp: agrees_def)

lemma ParseHeader_refines:
  assumes "in_window m len pos" and "quiet_end m len"
  shows "agrees m len (ParseHeader m len pos hm) (spec_headers (window m len pos) hm)"
  using assms
proof (induction "window m len pos" hm arbitrary: pos rule: spec_headers.induct)
  case (1 hm)
  let ?s = "window m len pos"
  note w = \<open>in_window m len pos\<close> and q = \<open>quiet_end m len\<close>
  show ?case
  proof (cases "?s = []")
    case True
    then have "len - pos = 0" by (simp only: window_facts(4) [OF w])
    then show ?thesis
      unfolding ParseHeader.simps [of m len pos] spec_headers.simps [of ?s] using True by auto
  next
    case False
    then obtain c cs where s: "?s = c # cs" by (cases ?s) auto
    have len0: "len - pos \<noteq> 0" using s by (simp only: window_facts(4) [OF w]) simp
    have i0: "0 < length ?s" using s by simp
    have ld: "unat pos < length m" "m ! unat pos = c"
      using window_index [OF w i0] window_nth [OF w i0] s by simp_all
    have tag2: "strncmp_eq m (unat pos) [CR, LF] 2 = Inr (take 2 ?s = [CR, LF])"
      using strncmp_crlf [OF w q i0] by simp
    note unf = ParseHeader.simps [of m len pos hm]
    consider (lf) "c = LF" | (crlf) "c \<noteq> LF" "take 2 ?s = [CR, LF]"
      | (key) "c \<noteq> LF" "take 2 ?s \<noteq> [CR, LF]" by blast
    then show ?thesis
    proof cases
      case lf
      have "1 \<le> length ?s" using s by simp
      from window_advance [OF w this] have w1: "in_window m len (pos + 1)"
        and "window m len (pos + 1) = drop 1 ?s" by simp_all
      then have spec: "spec_headers ?s hm = Some (hm, window m len (pos + 1))"
        using lf s by (simp add: spec_headers.simps [of "LF # cs"])
      have "ParseHeader m len pos hm = Inr (True, pos + 1, hm)"
        using lf ld len0 by (simp add: unf c_load_ok)
      then show ?thesis using spec w1 by auto
    next
      case crlf
      then have "2 \<le> length ?s" using s by (cases cs) auto
      from window_advance [OF w this] have w2: "in_window m len (pos + 2)"
        and "window m len (pos + 2) = drop 2 ?s" by simp_all
      then have spec: "spec_headers ?s hm = Some (hm, window m len (pos + 2))"
        using crlf s by (simp add: spec_headers.simps [of "CR # cs"])
      have "ParseHeader m len pos hm = Inr (True, pos + 2, hm)"
        using crlf ld len0 tag2 by (simp add: unf c_load_ok)
      then show ?thesis using spec w2 by auto
    next
      case key
      have spec: "spec_headers ?s hm = (case split_at COLON ?s of None \<Rightarrow> None
        | Some (key, s') \<Rightarrow> (case split_at LF s' of None \<Rightarrow> None
           | Some (val, s'') \<Rightarrow> spec_headers s'' (hm_set key val hm)))"
      proof -
        have "?s \<noteq> []" "take 1 ?s \<noteq> [LF]" using key(1) s by simp_all
        then show ?thesis unfolding spec_headers.simps [of ?s] by (simp only: key(2) if_False)
      qed
      have run: "ParseHeader m len pos hm =
          bindR (GetBufByTag m (unat pos) (sint (len - pos)) [COLON] 1 []) (\<lambda>r. case r of
            None \<Rightarrow> Inr (False, pos, hm)
          | Some (ret, key) \<Rightarrow>
          bindR (GetBufByTag m (unat (pos + of_nat ret + 1)) (sint (len - (pos + of_nat ret + 1)))
                   [LF] 1 []) (\<lambda>r'. case r' of
            None \<Rightarrow> Inr (False, pos + of_nat ret + 1, hm)
          | Some (ret', val) \<Rightarrow>
              ParseHeader m len (pos + of_nat ret + 1 + of_nat ret' + 1) (hm_set key val hm)))"
      proof -
        have "c_load m (unat pos) = Inr c" and "strncmp_eq m (unat pos) [LF] 1 = Inr False"
          using ld key(1) by (simp_all add: c_load_ok)
        then show ?thesis
          unfolding unf by (simp only: len0 tag2 key(2) bindR.simps if_False)
      qed
      show ?thesis
      proof (cases "split_at COLON ?s")
        case None
        then show ?thesis
          unfolding run spec GetBufByTag_char [OF w] by auto
      next
        case (Some kr)
        then obtain k r where kr: "split_at COLON ?s = Some (k, r)" by (cases kr) auto
        let ?p = "pos + of_nat (length k) + 1"
        from kr have "?s = k @ COLON # r" by (simp add: split_at_Some_iff)
        from window_step [OF w this] have wp: "in_window m len ?p" "window m len ?p = r" by auto
        show ?thesis
        proof (cases "split_at LF r")
          case None
          then show ?thesis
            using kr wp(2) unfolding run spec GetBufByTag_char [OF w]
            by (auto simp: GetBufByTag_char [OF wp(1), simplified])
        next
          case (Some vr)
          then obtain v r' where vr: "split_at LF r = Some (v, r')" by (cases vr) auto
          let ?p' = "?p + of_nat (length v) + 1"
          from vr wp have "window m len ?p = v @ LF # r'" by (simp add: split_at_Some_iff)
          from window_step [OF wp(1) this]
          have wp': "in_window m len ?p'" "window m len ?p' = r'" by auto
          have vr2: "split_at LF r = Some (v, window m len ?p')" using vr wp' by simp
          have "?s \<noteq> []" "take 1 ?s \<noteq> [LF]" using key(1) s by simp_all
          note IH = "1.hyps" [OF this key(2) kr refl vr2 refl wp'(1) q]
          show ?thesis
            using kr vr wp(2) wp'(2) IH unfolding run spec GetBufByTag_char [OF w]
            by (simp add: GetBufByTag_char [OF wp(1), simplified])
        qed
      qed
    qed
  qed
qed

section \<open>Requests and responses\<close>

text \<open>
  The grammar of a message is \<open>None\<close> where the decoder returns false, and a fault where the
  conversion of a field has one.
\<close>

definition spec_request :: "boost \<Rightarrow> string \<Rightarrow> cresult \<Rightarrow> (cresult option) res" where
  "spec_request bst s r =
     (case split_at SP s of None \<Rightarrow> Inr None | Some (method, s1) \<Rightarrow>
      bindR (GetMethod method) (\<lambda>met.
      case split_at SP s1 of None \<Rightarrow> Inr None | Some (url, s2) \<Rightarrow>
      case split_at LF s2 of None \<Rightarrow> Inr None | Some (version, s3) \<Rightarrow>
      bindR (GetVersion bst version) (\<lambda>v.
      case v of None \<Rightarrow> Inr None | Some ver \<Rightarrow>
      case spec_headers s3 (RequestHeader r) of None \<Rightarrow> Inr None | Some (hm, body) \<Rightarrow>
        Inr (Some (r\<lparr>Method := met, Url := Url r @ url, Version := ver, RequestHeader := hm\<rparr>)))))"

definition spec_response :: "boost \<Rightarrow> string \<Rightarrow> cresult \<Rightarrow> (cresult option) res" where
  "spec_response bst s r =
     (case split_at SP s of None \<Rightarrow> Inr None | Some (version, s1) \<Rightarrow>
      bindR (GetVersion bst version) (\<lambda>v.
      case v of None \<Rightarrow> Inr None | Some ver \<Rightarrow>
      if ver \<noteq> Version r then Inr None else
      case split_at SP s1 of None \<Rightarrow> Inr None | Some (code, s2) \<Rightarrow>
      case lex_u32 bst code of None \<Rightarrow> Inr None | Some c \<Rightarrow>
      case split_crlf s2 of None \<Rightarrow> Inr None | Some (note, s3) \<Rightarrow>
      case spec_headers s3 (ResponseHeader r) of None \<Rightarrow> Inr None | Some (hm, body) \<Rightarrow>
        Inr (Some (r\<lparr>RetCode := c, RetNote := RetNote r @ note, ResponseHeader := hm\<rparr>))))"

definition accepted :: "(bool \<times> u32 \<times> cresult) res \<Rightarrow> (cresult option) res" where
  "accepted r = bindR r (\<lambda>(ok, pos, x). Inr (if ok then Some x else None))"

lemma accepted_simps [simp]:
  "accepted (Inl e) = Inl e"
  "accepted (Inr (ok, pos, x)) = Inr (if ok then Some x else None)"
  by (simp_all add: accepted_def)

lemma accepted_bindR: "accepted (bindR m f) = bindR m (\<lambda>x. accepted (f x))"
  by (cases m) auto

text \<open>The header part of either message, after \<open>agrees\<close>.\<close>

lemma accepted_headers:
  assumes "agrees m len r spec"
  shows "accepted (bindR r (\<lambda>(ok, pos, hm).
      if \<not> ok then Inr (False, pos, g hm) else Inr (True, pos, g hm)))
    = (case spec of None \<Rightarrow> Inr None | Some (hm, body) \<Rightarrow> Inr (Some (g hm)))"
proof -
  obtain ok pos x where r: "r = Inr (ok, pos, x)"
    and spec: "if ok then spec = Some (x, window m len pos) \<and> in_window m len pos else spec = None"
    using assms unfolding agrees_def by blast
  then show ?thesis by (cases ok) simp_all
qed

lemma parse_request_refines:
  assumes w: "in_window m len 0" and q: "quiet_end m len"
  shows "accepted (parse_request bst m len r) = spec_request bst (window m len 0) r"
proof (cases "split_at SP (window m len 0)")
  case None
  then show ?thesis
    using GetBufByTag_char [OF w, of SP "[]"]
    by (simp add: parse_request_def ParseMethodAndUri_def spec_request_def)
next
  case (Some ms)
  then obtain met s1 where 1: "split_at SP (window m len 0) = Some (met, s1)" by (cases ms) auto
  let ?p1 = "0 + of_nat (length met) + 1 :: u32"
  from 1 have "window m len 0 = met @ SP # s1" by (simp add: split_at_Some_iff)
  from window_step [OF w this] have w1: "in_window m len ?p1" "window m len ?p1 = s1" by auto
  note g1 = GetBufByTag_char [OF w, of SP "[]"] and g2 = GetBufByTag_char [OF w1(1), of SP]
  note defs = parse_request_def ParseMethodAndUri_def spec_request_def
  show ?thesis
  proof (cases "split_at SP s1")
    case None
    then show ?thesis using 1 w1 g1 g2
      by (cases "GetMethod met") (simp_all add: defs Let_def)
  next
    case (Some us)
    then obtain url s2 where 2: "split_at SP s1 = Some (url, s2)" by (cases us) auto
    let ?p2 = "?p1 + of_nat (length url) + 1 :: u32"
    from 2 w1 have "window m len ?p1 = url @ SP # s2" by (simp add: split_at_Some_iff)
    from window_step [OF w1(1) this] have w2: "in_window m len ?p2" "window m len ?p2 = s2" by auto
    note g3 = GetBufByTag_char [OF w2(1), of LF]
    show ?thesis
    proof (cases "split_at LF s2")
      case None
      then show ?thesis using 1 2 w1 w2 g1 g2 g3
        by (cases "GetMethod met") (simp_all add: defs Let_def)
    next
      case (Some vs)
      then obtain ver s3 where 3: "split_at LF s2 = Some (ver, s3)" by (cases vs) auto
      let ?p3 = "?p2 + of_nat (length ver) + 1 :: u32"
      from 3 w2 have "window m len ?p2 = ver @ LF # s3" by (simp add: split_at_Some_iff)
      from window_step [OF w2(1) this] have w3: "in_window m len ?p3" "window m len ?p3 = s3" by auto
      note h = ParseHeader_refines [OF w3(1) q, unfolded w3(2)]
      show ?thesis
      proof (cases "GetMethod met")
        case (Inl e)
        then show ?thesis using 1 g1 by (simp add: defs Let_def)
      next
        case m: (Inr met')
        show ?thesis
        proof (cases "GetVersion bst ver")
          case (Inl e)
          then show ?thesis using 1 2 3 w1 w2 g1 g2 g3 m by (simp add: defs Let_def)
        next
          case (Inr v)
          then show ?thesis
            using 1 2 3 w1 w2 g1 g2 g3 m unfolding defs Let_def ParseReqData_def
            by (cases v) (simp_all add: accepted_headers [OF h, simplified])
        qed
      qed
    qed
  qed
qed

lemma parse_response_refines:
  assumes w: "in_window m len 0" and q: "quiet_end m len"
  shows "accepted (parse_response bst m len r) = spec_response bst (window m len 0) r"
proof (cases "split_at SP (window m len 0)")
  case None
  then show ?thesis
    using GetBufByTag_char [OF w, of SP "[]"]
    by (simp add: parse_response_def ParseRspState_def spec_response_def)
next
  case (Some vs)
  then obtain ver s1 where 1: "split_at SP (window m len 0) = Some (ver, s1)" by (cases vs) auto
  let ?p1 = "0 + of_nat (length ver) + 1 :: u32"
  from 1 have "window m len 0 = ver @ SP # s1" by (simp add: split_at_Some_iff)
  from window_step [OF w this] have w1: "in_window m len ?p1" "window m len ?p1 = s1" by auto
  note g1 = GetBufByTag_char [OF w, of SP "[]"] and g2 = GetBufByTag_char [OF w1(1), of SP]
  note defs = parse_response_def ParseRspState_def spec_response_def
  show ?thesis
  proof (cases "GetVersion bst ver")
    case (Inl e)
    then show ?thesis using 1 g1 by (simp add: defs Let_def)
  next
    case v: (Inr v)
    show ?thesis
    proof (cases "v = Some (Version r)")
      case False
      then show ?thesis using 1 g1 v by (cases v) (simp_all add: defs Let_def)
    next
      case vr: True
      show ?thesis
      proof (cases "split_at SP s1")
        case None
        then show ?thesis using 1 w1 g1 g2 v vr by (simp add: defs Let_def)
      next
        case (Some cs)
        then obtain code s2 where 2: "split_at SP s1 = Some (code, s2)" by (cases cs) auto
        let ?p2 = "?p1 + of_nat (length code) + 1 :: u32"
        from 2 w1 have "window m len ?p1 = code @ SP # s2" by (simp add: split_at_Some_iff)
        from window_step [OF w1(1) this]
        have w2: "in_window m len ?p2" "window m len ?p2 = s2" by auto
        note g3 = GetBufByTag_crlf [OF w2(1) q]
        show ?thesis
        proof (cases "lex_u32 bst code")
          case None
          then show ?thesis using 1 2 w1 g1 g2 v vr by (simp add: defs Let_def)
        next
          case c: (Some c)
          show ?thesis
          proof (cases "split_crlf s2")
            case None
            then show ?thesis using 1 2 w1 w2 g1 g2 g3 v vr c by (simp add: defs Let_def)
          next
            case (Some ns)
            then obtain rsn s3 where 3: "split_crlf s2 = Some (rsn, s3)" by (cases ns) auto
            let ?n = "length rsn + 2"
            have s2: "window m len ?p2 = rsn @ CR # LF # s3"
              using split_crlf_SomeD [OF 3] w2 by simp
            then have n: "?n \<le> length (window m len ?p2)" by simp
            have "drop ?n (rsn @ CR # LF # s3) = s3" by simp
            with window_advance [OF w2(1) n] s2
            have w3: "in_window m len (?p2 + of_nat (length rsn) + 2)"
                "window m len (?p2 + of_nat (length rsn) + 2) = s3"
              by (simp_all add: add.assoc)
            note h = ParseHeader_refines [OF w3(1) q, unfolded w3(2)]
            show ?thesis
              using 1 2 3 w1 w2 g1 g2 g3 v vr c unfolding defs Let_def ParseRspData_def
              by (simp add: accepted_headers [OF h, simplified])
          qed
        qed
      qed
    qed
  qed
qed

section \<open>Rendered messages\<close>

definition render_header :: "string \<times> string \<Rightarrow> string" where
  "render_header kv = fst kv @ [COLON] @ snd kv @ [LF]"

definition render_headers :: "(string \<times> string) list \<Rightarrow> string" where
  "render_headers kvs = concat (map render_header kvs) @ [LF]"

text \<open>
  A header line is \<open>key:value\<close> with no colon in the key and no line feed in the value, and its key
  does not look like an empty line.
\<close>

definition header_ok :: "string \<times> string \<Rightarrow> bool" where
  "header_ok kv \<longleftrightarrow> COLON \<notin> set (fst kv) \<and> LF \<notin> set (snd kv)
     \<and> take 1 (fst kv) \<noteq> [LF] \<and> take 2 (fst kv) \<noteq> [CR, LF]"

definition collect :: "(string \<times> string) list \<Rightarrow> header_map \<Rightarrow> header_map" where
  "collect kvs hm = foldl (\<lambda>m (k, v). hm_set k v m) hm kvs"

lemma collect_simps [simp]:
  "collect [] hm = hm" "collect (kv # kvs) hm = collect kvs (hm_set (fst kv) (snd kv) hm)"
  by (simp_all add: collect_def split: prod.split)

lemma spec_headers_line:
  assumes "header_ok (k, v)"
  shows "spec_headers (k @ [COLON] @ v @ [LF] @ rest) hm = spec_headers rest (hm_set k v hm)"
proof -
  let ?s = "k @ COLON # v @ LF # rest"
  have "take 1 ?s \<noteq> [LF]" "take 2 ?s \<noteq> [CR, LF]"
    using assms by (cases k; cases "tl k"; auto simp: header_ok_def)+
  moreover have "split_at COLON ?s = Some (k, v @ LF # rest)" "split_at LF (v @ LF # rest) = Some (v, rest)"
    using assms by (simp_all add: header_ok_def split_at_append)
  moreover have "?s \<noteq> []" by simp
  ultimately have "spec_headers ?s hm = spec_headers rest (hm_set k v hm)"
    unfolding spec_headers.simps [of ?s] by (simp only: if_False option.case prod.case)
  then show ?thesis by simp
qed

text \<open>Parsing what was rendered: the entries, in the order of the map, later lines winning.\<close>

lemma spec_headers_render:
  "(\<And>kv. kv \<in> set kvs \<Longrightarrow> header_ok kv) \<Longrightarrow>
   spec_headers (render_headers kvs @ rest) hm = Some (collect kvs hm, rest)"
proof (induction kvs arbitrary: hm)
  case Nil
  then show ?case by (simp add: render_headers_def spec_headers.simps)
next
  case (Cons kv kvs)
  obtain k v where kv: "kv = (k, v)" by (cases kv)
  have "header_ok (k, v)" using Cons.prems [of kv] kv by simp
  from spec_headers_line [OF this, of "render_headers kvs @ rest"] Cons kv
  show ?case by (simp add: render_headers_def render_header_def)
qed

lemma map_of_collect: "map_of (collect kvs hm) = map_of hm ++ map_of (rev kvs)"
proof (induction kvs arbitrary: hm)
  case Nil
  then show ?case by simp
next
  case (Cons kv kvs)
  obtain k v where kv: "kv = (k, v)" by (cases kv)
  have "(map_of hm)(k \<mapsto> v) = map_of hm ++ [k \<mapsto> v]" by simp
  then have "map_of (collect (kv # kvs) hm) = (map_of hm ++ [k \<mapsto> v]) ++ map_of (rev kvs)"
    by (simp only: kv collect_simps fst_conv snd_conv Cons.IH map_of_hm_set)
  then show ?case by (simp add: kv map_add_assoc del: map_add_upd)
qed

lemma collect_sorted: "hm_sorted hm \<Longrightarrow> hm_sorted (collect kvs hm)"
  by (induction kvs arbitrary: hm) (simp_all add: hm_set_sorted)

section \<open>The decoder as a whole\<close>

text \<open>The decoding of a pair of messages, on strings.\<close>

definition spec_decode :: "boost \<Rightarrow> string \<Rightarrow> string \<Rightarrow> cresult \<Rightarrow> (cresult option) res" where
  "spec_decode bst req rsp r =
     (if req = [] \<or> rsp = [] then Inr None
      else bindR (if 10 < length req then spec_request bst req r else Inr (Some r)) (\<lambda>o1.
        case o1 of None \<Rightarrow> Inr None
        | Some r1 \<Rightarrow> if 10 < length rsp then spec_response bst rsp r1 else Inr (Some r1)))"

definition emitted :: "boost \<Rightarrow> csession \<Rightarrow> file_output list" where
  "emitted bst s =
     (case lex_port bst (ClientPort s) of
        None \<Rightarrow> []
      | Some port \<Rightarrow>
          [(''../../'' @ port, record_text s (contents (ReqBuf s)) (contents (RspBuf s)))])"

text \<open>Both buffers satisfy what the position arithmetic and the two-byte tags need.\<close>

definition quiet_buf :: "cbuffer \<Rightarrow> bool" where
  "quiet_buf b \<longleftrightarrow> unat (buf_len b) < 2 ^ 31 \<and>
     (case buf_mem b of None \<Rightarrow> False | Some m \<Rightarrow> quiet_end m (buf_len b))"

lemma written_bytes_ok: "buf_ok b \<Longrightarrow> written_bytes b = Inr (contents b)"
  using buf_ok_mem [of b] buf_okD(3) [of b]
  by (auto simp: written_bytes_def CBuffer_GetBuf_def contents_def c_read_def)

lemma Send_ok: "session_ok s \<Longrightarrow> Send bst s = Inr (emitted bst s)"
  by (auto simp: Send_def emitted_def session_ok_def written_bytes_ok split: option.split)

lemma accepted_cases:
  assumes "accepted r = Inl e \<Longrightarrow> r = Inl e \<Longrightarrow> P"
    and "\<And>pos x. accepted r = Inr None \<Longrightarrow> r = Inr (False, pos, x) \<Longrightarrow> P"
    and "\<And>pos x. accepted r = Inr (Some x) \<Longrightarrow> r = Inr (True, pos, x) \<Longrightarrow> P"
    and "\<And>e. r = Inl e \<Longrightarrow> P"
  shows P
proof (cases r)
  case (Inl e)
  then show ?thesis by (rule assms(4))
next
  case (Inr t)
  then obtain ok pos x where r: "r = Inr (ok, pos, x)" by (cases t) auto
  then show ?thesis using assms(2,3) by (cases ok) auto
qed

text \<open>
  \<open>Parse\<close> computes the decoding: it writes the record of the decoded messages or nothing, and
  always leaves the session empty.
\<close>

lemma Parse_refines:
  assumes ok: "session_ok s" and al: "al_ok al 2048"
    and q: "quiet_buf (ReqBuf s)" "quiet_buf (RspBuf s)"
  shows "case spec_decode bst (contents (ReqBuf s)) (contents (RspBuf s)) (Result s) of
      Inl e \<Rightarrow> CHttpParse_Parse bst al s = Inl e
    | Inr None \<Rightarrow> \<exists>s'. CHttpParse_Parse bst al s = Inr (s', []) \<and> cleared s s'
    | Inr (Some r) \<Rightarrow> \<exists>s'. CHttpParse_Parse bst al s = Inr (s', emitted bst (s\<lparr>Result := r\<rparr>))
        \<and> cleared s s'"
proof -
  let ?n = "buf_len (ReqBuf s)" and ?k = "buf_len (RspBuf s)"
  obtain m where m: "buf_mem (ReqBuf s) = Some m" using ok buf_ok_mem by (auto simp: session_ok_def)
  obtain p where p: "buf_mem (RspBuf s) = Some p" using ok buf_ok_mem by (auto simp: session_ok_def)
  have bo: "buf_ok (ReqBuf s)" "buf_ok (RspBuf s)" using ok by (auto simp: session_ok_def)
  have wm: "in_window m ?n 0" "quiet_end m ?n" and wp: "in_window p ?k 0" "quiet_end p ?k"
    using q m p buf_okD(3) [OF bo(1) m] buf_okD(3) [OF bo(2) p]
    by (auto simp: quiet_buf_def intro!: in_window_0)
  have cm: "contents (ReqBuf s) = window m ?n 0" and cp: "contents (RspBuf s) = window p ?k 0"
    using m p by (simp_all add: contents_def window_def)
  have nil: "window m ?n 0 = [] \<longleftrightarrow> ?n = 0" "window p ?k 0 = [] \<longleftrightarrow> ?k = 0"
    using window_facts(4) [OF wm(1)] window_facts(4) [OF wp(1)] by simp_all
  have ten: "10 < length (window m ?n 0) \<longleftrightarrow> 10 < ?n" "10 < length (window p ?k 0) \<longleftrightarrow> 10 < ?k"
    using window_facts(1) [OF wm(1)] window_facts(1) [OF wp(1)] by (simp_all add: word_less_nat_alt)
  have reset: "\<exists>s'. CSession_Reset al (s\<lparr>Result := r\<rparr>) = Inr s' \<and> cleared s s'" for r
    using CSession_Reset_ok [of "s\<lparr>Result := r\<rparr>" al] ok al
    by (auto simp: session_ok_def cleared_def)
  have reset0: "\<exists>s'. CSession_Reset al s = Inr s' \<and> cleared s s'"
    using CSession_Reset_ok [OF ok al] .
  have send: "Send bst (s\<lparr>Result := r\<rparr>) = Inr (emitted bst (s\<lparr>Result := r\<rparr>))" for r
    using ok by (intro Send_ok) (simp add: session_ok_def)
  note req = parse_request_refines [OF wm, of bst "Result s"]
  note rsp = parse_response_refines [OF wp, of bst]
  define r1 where "r1 = (if 10 < ?n then parse_request bst m ?n (Result s) else Inr (True, 0, Result s))"
  define o1 where "o1 = (if 10 < ?n then spec_request bst (window m ?n 0) (Result s)
    else Inr (Some (Result s)))"
  have 1: "accepted r1 = o1" by (simp add: r1_def o1_def req)
  show ?thesis
  proof (cases "?n = 0 \<or> ?k = 0")
    case True
    then show ?thesis
      using reset0 m p unfolding cm cp spec_decode_def nil
      by (auto simp: CHttpParse_Parse_def CBuffer_GetBuf_def)
  next
    case False
    then have spec: "spec_decode bst (window m ?n 0) (window p ?k 0) (Result s)
      = bindR o1 (\<lambda>o1. case o1 of None \<Rightarrow> Inr None
        | Some r1 \<Rightarrow> if 10 < ?k then spec_response bst (window p ?k 0) r1 else Inr (Some r1))"
      by (simp add: spec_decode_def nil ten o1_def)
    have run: "CHttpParse_Parse bst al s
      = bindR r1 (\<lambda>(ok, pos, result).
          if \<not> ok then bindR (CSession_Reset al (s\<lparr>Result := result\<rparr>)) (\<lambda>s'. Inr (s', []))
          else bindR (if 10 < ?k then parse_response bst p ?k result else Inr (True, pos, result))
            (\<lambda>(ok, pos, result).
              if \<not> ok then bindR (CSession_Reset al (s\<lparr>Result := result\<rparr>)) (\<lambda>s'. Inr (s', []))
              else bindR (Send bst (s\<lparr>Result := result\<rparr>)) (\<lambda>out.
                bindR (CSession_Reset al (s\<lparr>Result := result\<rparr>)) (\<lambda>s'. Inr (s', out)))))"
      using False m p
      by (simp add: CHttpParse_Parse_def CBuffer_GetBuf_def r1_def Let_def split_beta cong: if_cong)
    show ?thesis
    proof (cases rule: accepted_cases [of r1])
      case (2 pos x)
      then show ?thesis unfolding cm cp spec run using 1 reset [of x] by auto
    next
      case (3 pos x)
      then have o1: "o1 = Inr (Some x)" "r1 = Inr (True, pos, x)" using 1 by simp_all
      define r2 where "r2 = (if 10 < ?k then parse_response bst p ?k x else Inr (True, pos, x))"
      have a2: "(if 10 < ?k then spec_response bst (window p ?k 0) x else Inr (Some x)) = accepted r2"
        by (simp add: r2_def rsp)
      have spec2: "spec_decode bst (window m ?n 0) (window p ?k 0) (Result s) = accepted r2"
        unfolding spec o1 by (simp add: a2)
      have run2: "CHttpParse_Parse bst al s
        = bindR r2 (\<lambda>(ok, pos, result).
            if \<not> ok then bindR (CSession_Reset al (s\<lparr>Result := result\<rparr>)) (\<lambda>s'. Inr (s', []))
            else bindR (Send bst (s\<lparr>Result := result\<rparr>)) (\<lambda>out.
              bindR (CSession_Reset al (s\<lparr>Result := result\<rparr>)) (\<lambda>s'. Inr (s', out))))"
        unfolding run o1 by (simp add: r2_def)
      show ?thesis
      proof (cases rule: accepted_cases [of r2])
        case (2 pos' y)
        then show ?thesis unfolding cm cp spec2 run2 using reset [of y] by auto
      next
        case (3 pos' y)
        then show ?thesis unfolding cm cp spec2 run2 using reset [of y] send by auto
      qed (auto simp: cm cp spec2 run2)
    qed (use 1 in \<open>auto simp: cm cp spec run\<close>)
  qed
qed

end
