(* ===== verification/HttpMessages.thy ===== *)
theory HttpMessages
  imports HttpGrammar
begin

text \<open>
  Messages as a peer writes them, and what becomes of them: a rendered request and a rendered
  response are decoded into their fields and the record of them is written; a request whose lines
  end in CRLF is never decoded; a status line that ends with the buffer is read past its end.
\<close>

section \<open>Rendering\<close>

definition render_request ::
  "string \<Rightarrow> string \<Rightarrow> string \<Rightarrow> (string \<times> string) list \<Rightarrow> string \<Rightarrow> string" where
  "render_request method url version kvs body =
     method @ [SP] @ url @ [SP] @ version @ [LF] @ render_headers kvs @ body"

definition render_response ::
  "string \<Rightarrow> string \<Rightarrow> string \<Rightarrow> (string \<times> string) list \<Rightarrow> string \<Rightarrow> string" where
  "render_response version code reason kvs body =
     version @ [SP] @ code @ [SP] @ reason @ [CR, LF] @ render_headers kvs @ body"

text \<open>A protocol version the decoder reads as \<open>ver\<close>.\<close>

definition version_ok :: "boost \<Rightarrow> string \<Rightarrow> u32 \<Rightarrow> bool" where
  "version_ok bst version ver \<longleftrightarrow>
     SP \<notin> set version \<and> LF \<notin> set version \<and> GetVersion bst version = Inr (Some ver)"

definition request_ok :: "string \<Rightarrow> u32 \<Rightarrow> string \<Rightarrow> (string \<times> string) list \<Rightarrow> bool" where
  "request_ok method met url kvs \<longleftrightarrow>
     GetMethod method = Inr met \<and> SP \<notin> set url \<and> list_all header_ok kvs"

definition response_ok ::
  "boost \<Rightarrow> string \<Rightarrow> u32 \<Rightarrow> string \<Rightarrow> (string \<times> string) list \<Rightarrow> bool" where
  "response_ok bst code c reason kvs \<longleftrightarrow>
     SP \<notin> set code \<and> lex_u32 bst code = Some c \<and> CR \<notin> set reason \<and> list_all header_ok kvs"

lemma GetMethod_no_space: "GetMethod method = Inr met \<Longrightarrow> SP \<notin> set method"
  by (auto simp: GetMethod_def split: if_splits)

lemma version_ok_length: "version_ok bst version ver \<Longrightarrow> length version = 8"
  by (auto simp: version_ok_def GetVersion_def split: if_splits)

lemma spec_headers_rendered:
  "list_all header_ok kvs \<Longrightarrow> spec_headers (render_headers kvs @ rest) hm = Some (collect kvs hm, rest)"
  by (rule spec_headers_render) (simp add: list_all_iff)

lemma spec_request_render:
  assumes v: "version_ok bst version ver" and r: "request_ok method met url kvs"
  shows "spec_request bst (render_request method url version kvs body) r
    = Inr (Some (r\<lparr>Method := met, Url := Url r @ url, Version := ver,
        RequestHeader := collect kvs (RequestHeader r)\<rparr>))"
proof -
  let ?h = "render_headers kvs @ body"
  have "GetMethod method = Inr met" "SP \<notin> set url" "list_all header_ok kvs"
    using r by (auto simp: request_ok_def)
  moreover from this have "SP \<notin> set method" by (simp add: GetMethod_no_space)
  moreover have "LF \<notin> set version" "GetVersion bst version = Inr (Some ver)"
    using v by (auto simp: version_ok_def)
  ultimately show ?thesis
    by (simp add: spec_request_def render_request_def split_at_append spec_headers_rendered)
qed

lemma spec_response_render:
  assumes v: "version_ok bst version (Version r)" and r: "response_ok bst code c reason kvs"
  shows "spec_response bst (render_response version code reason kvs body) r
    = Inr (Some (r\<lparr>RetCode := c, RetNote := RetNote r @ reason,
        ResponseHeader := collect kvs (ResponseHeader r)\<rparr>))"
proof -
  have "SP \<notin> set code" "lex_u32 bst code = Some c" "CR \<notin> set reason" "list_all header_ok kvs"
    using r by (auto simp: response_ok_def)
  moreover have "SP \<notin> set version" "GetVersion bst version = Inr (Some (Version r))"
    using v by (auto simp: version_ok_def)
  ultimately show ?thesis
    by (simp add: spec_response_def render_response_def split_at_append split_crlf_append
        spec_headers_rendered)
qed

section \<open>Decoding a rendered exchange\<close>

definition decoded ::
  "u32 \<Rightarrow> string \<Rightarrow> u32 \<Rightarrow> (string \<times> string) list \<Rightarrow> u32 \<Rightarrow> string \<Rightarrow> (string \<times> string) list
    \<Rightarrow> cresult \<Rightarrow> cresult" where
  "decoded met url ver kvs c reason kvs' r =
     r\<lparr>Method := met, Url := Url r @ url, Version := ver,
       RequestHeader := collect kvs (RequestHeader r),
       RetCode := c, RetNote := RetNote r @ reason,
       ResponseHeader := collect kvs' (ResponseHeader r)\<rparr>"

lemma spec_decode_render:
  assumes v: "version_ok bst version ver"
    and r: "request_ok method met url kvs" "response_ok bst code c reason kvs'"
    and "request = render_request method url version kvs body"
    and "response = render_response version code reason kvs' body'"
  shows "spec_decode bst request response r = Inr (Some (decoded met url ver kvs c reason kvs' r))"
proof -
  let ?r = "r\<lparr>Method := met, Url := Url r @ url, Version := ver,
        RequestHeader := collect kvs (RequestHeader r)\<rparr>"
  have "length version = 8" using v by (rule version_ok_length)
  then have "10 < length request" "10 < length response"
    using assms(4,5) by (simp_all add: render_request_def render_response_def render_headers_def)
  moreover have "spec_request bst request r = Inr (Some ?r)"
    using spec_request_render [OF v r(1)] assms(4) by simp
  moreover have "spec_response bst response ?r
      = Inr (Some (decoded met url ver kvs c reason kvs' r))"
    using spec_response_render [of bst version ?r code c reason kvs' body'] v r(2) assms(5)
    by (simp add: decoded_def)
  ultimately show ?thesis by (auto simp: spec_decode_def)
qed

section \<open>Requests with CRLF line ends\<close>

text \<open>
  The version is everything up to the line feed, so a carriage return before it makes it nine
  characters long.
\<close>

definition crlf_request :: "string \<Rightarrow> string \<Rightarrow> string \<Rightarrow> string \<Rightarrow> string" where
  "crlf_request method url version rest = method @ [SP] @ url @ [SP] @ version @ [CR, LF] @ rest"

lemma spec_request_crlf:
  assumes "GetMethod method = Inr met" "SP \<notin> set url" "LF \<notin> set version" "length version = 8"
  shows "spec_request bst (crlf_request method url version rest) r = Inr None"
proof -
  have "SP \<notin> set method" using assms(1) by (rule GetMethod_no_space)
  moreover have "split_at LF (version @ CR # LF # rest) = Some (version @ [CR], rest)"
    using split_at_append [of LF "version @ [CR]" rest] assms(3) by simp
  moreover have "GetVersion bst (version @ [CR]) = Inr None"
    using assms(4) by (simp add: GetVersion_def)
  ultimately show ?thesis
    using assms(1,2) by (simp add: spec_request_def crlf_request_def split_at_append)
qed

lemma spec_decode_crlf:
  assumes "GetMethod method = Inr met" "SP \<notin> set url" "LF \<notin> set version" "length version = 8"
    and "request = crlf_request method url version rest"
  shows "spec_decode bst request response r = Inr None"
proof -
  have "10 < length request" using assms(4,5) by (simp add: crlf_request_def)
  then show ?thesis
    using spec_request_crlf [OF assms(1-4)] assms(5) by (simp add: spec_decode_def)
qed

section \<open>A status line at the end of the buffer\<close>

text \<open>
  When the response ends in a carriage return and the byte behind it, no longer part of the
  response, happens to be a line feed, the two-byte comparison accepts it. The position is then
  behind the end, the remaining length wraps around, and the header loop reads on.
\<close>

lemma tag_scan_crlf_hit:
  assumes "drop (base + i) m = a @ [CR, LF] @ q" and "CR \<notin> set a" and "length a < k"
  shows "tag_scan m base [CR, LF] 2 i k = Inr (Some (i + length a))"
  using assms
proof (induction a arbitrary: i k)
  case Nil
  obtain k' where k: "k = Suc k'" using Nil.prems(3) by (cases k) auto
  have l: "base + i < length m" "base + i + 1 < length m"
    using arg_cong [OF Nil.prems(1), of length] by auto
  then have "m ! (base + i) = CR" "m ! (base + i + 1) = LF"
    using Nil.prems(1) nth_drop [of "base + i" m 0] nth_drop [of "base + i" m 1] by auto
  with l show ?case by (simp add: k strncmp_eq_2 c_load_ok)
next
  case (Cons c cs)
  obtain k' where k: "k = Suc k'" using Cons.prems(3) by (cases k) auto
  have l: "base + i < length m" using arg_cong [OF Cons.prems(1), of length] by auto
  then have "m ! (base + i) = c" using Cons.prems(1) nth_drop [of "base + i" m 0] by auto
  with l Cons.prems(2) have "strncmp_eq m (base + i) [CR, LF] 2 = Inr False"
    by (auto simp: strncmp_eq_2)
  moreover have "drop (base + (i + 1)) m = cs @ [CR, LF] @ q"
    using Cons.prems(1) drop_Suc [of 0] by (metis add.assoc append_Cons drop_drop drop0 drop_Suc_Cons
        Suc_eq_plus1 add.commute)
  then have "tag_scan m base [CR, LF] 2 (i + 1) k' = Inr (Some (i + 1 + length cs))"
    using Cons.prems k by (intro Cons.IH) auto
  ultimately show ?case by (simp add: k)
qed

lemma ParseHeader_past:
  assumes "unat pos = length m" and "len \<noteq> pos"
  shows "ParseHeader m len pos hm = Inl OutOfBounds"
  using assms by (simp add: ParseHeader.simps [of m len pos] c_load_out)

lemma status_line_overread:
  assumes v: "version_ok bst version (Version r)"
    and c: "SP \<notin> set code" "lex_u32 bst code = Some c" and rsn: "CR \<notin> set reason"
    and m: "m = version @ [SP] @ code @ [SP] @ reason @ [CR, LF]" and len: "length m < 2 ^ 31"
  shows "parse_response bst m (of_nat (length m - 1)) r = Inl OutOfBounds"
proof -
  let ?len = "of_nat (length m - 1) :: u32"
  have l: "unat ?len = length m - 1" using len by (intro unat_of_nat_small) simp
  have w: "in_window m ?len 0" using l len by (intro in_window_0) auto
  have win: "window m ?len 0 = version @ SP # code @ SP # reason @ [CR]"
  proof -
    have "window m ?len 0 = butlast m" unfolding window_def l by (simp add: butlast_conv_take)
    then show ?thesis by (simp add: m butlast_append)
  qed
  have ver: "SP \<notin> set version" "GetVersion bst version = Inr (Some (Version r))"
    using v by (auto simp: version_ok_def)
  let ?p1 = "0 + of_nat (length version) + 1 :: u32" and ?p2 = "of_nat (length version) + 1
    + of_nat (length code) + 1 :: u32"
  from window_step [OF w win]
  have w1: "in_window m ?len ?p1" "window m ?len ?p1 = code @ SP # reason @ [CR]" by auto
  from window_step [OF w1] have w2: "in_window m ?len ?p2" "window m ?len ?p2 = reason @ [CR]"
    by auto
  have p2: "?p2 = of_nat (length version + length code + 2)" by simp
  have u2: "unat ?p2 = length version + length code + 2"
    unfolding p2 using m len by (intro unat_of_nat_small) simp
  have "drop (unat ?p2 + 0) m = reason @ [CR, LF] @ []" unfolding u2 m by simp
  moreover have "nat (sint (?len - ?p2)) = length (reason @ [CR])"
    unfolding window_facts(3) [OF w2(1)] nat_int window_facts(1) [OF w2(1), symmetric] w2(2) ..
  ultimately have scan: "tag_scan m (unat ?p2) [CR, LF] 2 0 (nat (sint (?len - ?p2)))
      = Inr (Some (length reason))"
    using tag_scan_crlf_hit [of "unat ?p2" 0 m reason "[]" "nat (sint (?len - ?p2))"] rsn by simp
  let ?p3 = "?p2 + of_nat (length reason) + 2"
  have p3: "?p3 = of_nat (length m)" unfolding m by simp
  have "unat ?p3 = length m" unfolding p3 using len by (intro unat_of_nat_small) simp
  moreover have "?len \<noteq> ?p3"
    using l calculation m by auto
  ultimately have past: "ParseHeader m ?len ?p3 hm = Inl OutOfBounds" for hm
    by (rule ParseHeader_past)
  have g1: "GetBufByTag m (unat (0 :: u32)) (sint (?len - 0)) [SP] 1 []
      = Inr (Some (length version, version))"
    unfolding GetBufByTag_char [OF w] win using ver(1) by (simp add: split_at_append)
  have g2: "GetBufByTag m (unat ?p1) (sint (?len - ?p1)) [SP] 1 [] = Inr (Some (length code, code))"
    unfolding GetBufByTag_char [OF w1(1)] w1(2) using c(1) by (simp add: split_at_append)
  have g3: "GetBufByTag m (unat ?p2) (sint (?len - ?p2)) [CR, LF] 2 out
      = Inr (Some (length reason, out @ take (length reason) (drop (unat ?p2) m)))" for out
    unfolding GetBufByTag_def scan by simp
  show ?thesis
    using g1 g2 g3 ver c(2) past
    unfolding parse_response_def ParseRspState_def Let_def by (simp del: of_nat_add)
qed

end
