(* ===== verification/Handle.thy ===== *)
theory Handle
  imports HttpMessages SessionTable
begin

text \<open>
  The packet handler \<open>CHandle\<close> (Handle.h, Handle.cpp): it ages the sessions, finds or creates the
  session of a packet, and appends the payload to the buffer of its direction. What the code asks
  of its surroundings during one call is the record \<open>call_env\<close>.
\<close>

section \<open>State\<close>

record call_env =
  env_al :: allocator
  env_boost :: boost
  env_raw :: csession         \<comment> \<open>what the storage of a new session held\<close>
  t_check :: int              \<comment> \<open>\<open>time (0)\<close> in \<open>TimeOutCheck\<close>\<close>
  t_find :: int               \<comment> \<open>\<open>time (0)\<close> in \<open>Find\<close>\<close>
  t_create :: int             \<comment> \<open>\<open>time (0)\<close> in \<open>Create\<close>\<close>

text \<open>The handler's members, and the text the parser has appended to files so far.\<close>

record chandle =
  sesHash :: ses_store
  lastTimeOutCheck :: int
  written :: "file_output list"

definition CHandle_Init :: "int \<Rightarrow> chandle \<Rightarrow> chandle" where
  "CHandle_Init now h =
     h\<lparr>sesHash := CSessionHashTable_Init (sesHash h), lastTimeOutCheck := now\<rparr>"

definition session_at :: "chandle \<Rightarrow> nat \<Rightarrow> csession" where
  "session_at h a = heap (sesHash h) a"

definition set_session :: "nat \<Rightarrow> csession \<Rightarrow> chandle \<Rightarrow> chandle" where
  "set_session a s h = h\<lparr>sesHash := update_session a (\<lambda>_. s) (sesHash h)\<rparr>"

definition set_bucket :: "u16 \<Rightarrow> nat list \<Rightarrow> chandle \<Rightarrow> chandle" where
  "set_bucket i as h = h\<lparr>sesHash := (sesHash h)\<lparr>cseshash := (cseshash (sesHash h))(i := as)\<rparr>\<rparr>"

text \<open>\<open>_httpParse.Parse (sesptr)\<close> on the session object at an address.\<close>

definition parse_session :: "call_env \<Rightarrow> nat \<Rightarrow> chandle \<Rightarrow> chandle res" where
  "parse_session env a h =
     bindR (CHttpParse_Parse (env_boost env) (env_al env) (session_at h a)) (\<lambda>(s, out).
       Inr ((set_session a s h)\<lparr>written := written h @ out\<rparr>))"

section \<open>Ageing\<close>

text \<open>
  One bucket: \<open>kept\<close> are the entries the iterator has passed, \<open>a # rest\<close> those from the iterator
  on. An erased entry leaves \<open>kept @ rest\<close> in the bucket.
\<close>

definition has_data :: "csession \<Rightarrow> bool" where
  "has_data s \<longleftrightarrow> 0 < CBuffer_GetBufLen (ReqBuf s) \<or> 0 < CBuffer_GetBufLen (RspBuf s)"

fun age_bucket ::
  "call_env \<Rightarrow> int \<Rightarrow> u16 \<Rightarrow> nat list \<Rightarrow> nat list \<Rightarrow> chandle \<Rightarrow> chandle res" where
  "age_bucket env tsNow i kept [] h = Inr h"
| "age_bucket env tsNow i kept (a # rest) h =
     bindR (if has_data (session_at h a) \<and> tsNow - RefreshTime (session_at h a) > 60
            then parse_session env a h else Inr h) (\<lambda>h.
       if tsNow - RefreshTime (session_at h a) \<ge> TIMEOUT
       then age_bucket env tsNow i kept rest (set_bucket i (kept @ rest) h)
       else age_bucket env tsNow i (kept @ [a]) rest h)"

definition CHandle_TimeOutCheck :: "call_env \<Rightarrow> chandle \<Rightarrow> chandle res" where
  "CHandle_TimeOutCheck env h =
     (let tsNow = t_check env
      in if tsNow - lastTimeOutCheck h < TIMEOUT_CHECK_DUR then Inr h
         else foldR (\<lambda>i h. age_bucket env tsNow (of_nat i) []
                             (cseshash (sesHash h) (of_nat i)) h) [0..<65535] h)"

section \<open>Processing a packet\<close>

definition packet_stamp :: "cformat_packet \<Rightarrow> u64" where
  "packet_stamp p = of_int (fst (GetPacketTime p) * 1000000 + snd (GetPacketTime p))"

text \<open>
  The branches of the two directions; the result is what \<open>Append\<close> returned. The length is an
  \<open>int16_t\<close> that is converted to \<open>size_t\<close>, so a negative one becomes a huge number.
\<close>

definition take_request :: "call_env \<Rightarrow> cformat_packet \<Rightarrow> nat \<Rightarrow> chandle \<Rightarrow> (bool \<times> chandle) res" where
  "take_request env packet a h =
     bindR (if 0 < CBuffer_GetBufLen (ReqBuf (session_at h a))
              \<and> 0 < CBuffer_GetBufLen (RspBuf (session_at h a))
            then parse_session env a h else Inr h) (\<lambda>h.
     let s = session_at h a;
         s = (if CBuffer_GetBufLen (ReqBuf s) = 0 \<and> RequestTimeStamp (Result s) = 0
              then s\<lparr>Result := (Result s)\<lparr>RequestTimeStamp := packet_stamp packet\<rparr>\<rparr> else s)
     in bindR (CBuffer_Append (env_al env) (ReqBuf s) (GetData packet) (scast (GetDataLen packet)))
          (\<lambda>(ok, b). Inr (ok, set_session a (s\<lparr>ReqBuf := b\<rparr>) h)))"

definition take_response :: "call_env \<Rightarrow> cformat_packet \<Rightarrow> nat \<Rightarrow> chandle \<Rightarrow> (bool \<times> chandle) res" where
  "take_response env packet a h =
     (let s = session_at h a;
          s = (if CBuffer_GetBufLen (RspBuf s) = 0 \<and> ResponseTimeStamp (Result s) = 0
               then s\<lparr>Result := (Result s)\<lparr>ResponseTimeStamp := packet_stamp packet\<rparr>\<rparr> else s)
      in bindR (CBuffer_Append (env_al env) (RspBuf s) (GetData packet) (scast (GetDataLen packet)))
           (\<lambda>(ok, b). Inr (ok, set_session a (s\<lparr>RspBuf := b\<rparr>) h)))"

definition find_or_create ::
  "call_env \<Rightarrow> cformat_packet \<Rightarrow> behavior_info \<Rightarrow> flow \<Rightarrow> chandle \<Rightarrow> (nat \<times> chandle) res" where
  "find_or_create env packet info f h =
     (case f of (srcIp, dstIp, srcPort, dstPort) \<Rightarrow>
        let (found, st) = CSessionHashTable_Find (t_find env) srcIp dstIp srcPort dstPort (sesHash h);
            h = h\<lparr>sesHash := st\<rparr>
        in case found of
             Some a \<Rightarrow> Inr (a, h)
           | None \<Rightarrow>
               bindR (CSessionHashTable_Create (env_al env) (env_raw env) (t_create env) packet info
                        (sesHash h)) (\<lambda>(a, st). Inr (a, h\<lparr>sesHash := st\<rparr>)))"

definition packet_flow :: "cformat_packet \<Rightarrow> flow res" where
  "packet_flow packet =
     bindR (host32 (GetSrcIp packet)) (\<lambda>srcIp.
     bindR (host32 (GetDstIp packet)) (\<lambda>dstIp.
     bindR (host16 (GetSrcPort packet)) (\<lambda>srcPort.
     bindR (host16 (GetDstPort packet)) (\<lambda>dstPort.
     Inr (srcIp, dstIp, srcPort, dstPort)))))"

text \<open>
  The tail of \<open>Process\<close>: the caller's session pointer is set and both buffers are printed as C
  strings.
\<close>

definition report_session :: "nat \<Rightarrow> chandle \<Rightarrow> (nat option \<times> chandle) res" where
  "report_session a h =
     bindR (c_string (fst (CBuffer_GetBuf (ReqBuf (session_at h a))))) (\<lambda>req.
     bindR (c_string (fst (CBuffer_GetBuf (RspBuf (session_at h a))))) (\<lambda>rsp.
     Inr (Some a, h)))"

text \<open>
  What \<open>Process\<close> does with the session of the packet: it ends on FIN or RST, otherwise a repeated
  or empty packet is dropped, and the payload goes to the buffer of the direction.
\<close>

definition process_session ::
  "call_env \<Rightarrow> cformat_packet \<Rightarrow> behavior_info \<Rightarrow> flow \<Rightarrow> nat option \<Rightarrow> nat \<Rightarrow> chandle
    \<Rightarrow> (nat option \<times> chandle) res" where
  "process_session env packet info f sesp a h =
     bindR (tcp_field packet tcphdr_fin) (\<lambda>fin.
     bindR (if fin then Inr True else tcp_field packet tcphdr_rst) (\<lambda>over.
       if over then
         bindR (parse_session env a h) (\<lambda>h.
           Inr (sesp, h\<lparr>sesHash := remove_flow f (sesHash h)\<rparr>))
       else
     bindR (host32 (tcp_field packet tcphdr_seq)) (\<lambda>seq.
       if SeqNo (session_at h a) = seq then Inr (sesp, h)
       else if GetDataLen packet = 0 then Inr (sesp, h)
       else
     bindR (host32 (tcp_field packet tcphdr_ack_seq)) (\<lambda>ack.
       let h = set_session a ((session_at h a)\<lparr>SeqNo := seq, AckSeqNo := ack\<rparr>) h in
       if m_nIdtMatchWay info = UNK_MATCH then Inr (sesp, h)
       else
     bindR (if m_nIdtMatchWay info = C2S_MATCH then take_request env packet a h
            else if m_nIdtMatchWay info = S2C_MATCH then take_response env packet a h
            else Inr (True, h)) (\<lambda>(ok, h).
       if \<not> ok then Inr (sesp, h) else report_session a h)))))"

definition CHandle_Process ::
  "call_env \<Rightarrow> cformat_packet \<Rightarrow> behavior_info option \<Rightarrow> nat option \<Rightarrow> chandle
    \<Rightarrow> (nat option \<times> chandle) res" where
  "CHandle_Process env packet pInfo sesp h =
     bindR (CHandle_TimeOutCheck env h) (\<lambda>h.
       case pInfo of None \<Rightarrow> Inr (sesp, h)
       | Some info \<Rightarrow>
     bindR (packet_flow packet) (\<lambda>f.
     bindR (find_or_create env packet info f h) (\<lambda>(a, h).
       process_session env packet info f sesp a h)))"

section \<open>Invariant\<close>

text \<open>
  A session between two packets: proper buffers, and a result in which nothing but the time stamps
  is set.
\<close>

definition blank :: "cresult \<Rightarrow> bool" where
  "blank r \<longleftrightarrow> r\<lparr>RequestTimeStamp := 0, ResponseTimeStamp := 0\<rparr> = CResult_Reset"

definition ses_inv :: "csession \<Rightarrow> bool" where
  "ses_inv s \<longleftrightarrow> session_ok s \<and> blank (Result s)"

lemma blank_Reset [simp]: "blank CResult_Reset"
  by (simp add: blank_def CResult_Reset_def)

lemma blank_stamp [simp]:
  "blank (r\<lparr>RequestTimeStamp := t\<rparr>) = blank r" "blank (r\<lparr>ResponseTimeStamp := t\<rparr>) = blank r"
  by (simp_all add: blank_def)

text \<open>The table is consistent, and every session object keeps its invariant.\<close>

definition handle_ok :: "chandle \<Rightarrow> bool" where
  "handle_ok h \<longleftrightarrow> table_ok (sesHash h) \<and> (\<forall>a < next_addr (sesHash h). ses_inv (session_at h a))"

lemma session_at_set [simp]:
  "session_at (set_session a s h) b = (if b = a then s else session_at h b)"
  by (simp add: session_at_def set_session_def)

lemma set_session_frame [simp]:
  "next_addr (sesHash (set_session a s h)) = next_addr (sesHash h)"
  "cseshash (sesHash (set_session a s h)) = cseshash (sesHash h)"
  "lastTimeOutCheck (set_session a s h) = lastTimeOutCheck h"
  "written (set_session a s h) = written h"
  by (simp_all add: set_session_def)

lemma session_at_written [simp]: "session_at (h\<lparr>written := w\<rparr>) a = session_at h a"
  by (simp add: session_at_def)

lemma session_at_bucket [simp]: "session_at (set_bucket i as h) a = session_at h a"
  by (simp add: session_at_def set_bucket_def)

lemma set_bucket_frame [simp]:
  "next_addr (sesHash (set_bucket i as h)) = next_addr (sesHash h)"
  "cseshash (sesHash (set_bucket i as h)) = (cseshash (sesHash h))(i := as)"
  "lastTimeOutCheck (set_bucket i as h) = lastTimeOutCheck h"
  "written (set_bucket i as h) = written h"
  by (simp_all add: set_bucket_def)

lemma handle_ok_written [simp]: "handle_ok (h\<lparr>written := w\<rparr>) = handle_ok h"
  by (simp add: handle_ok_def)

lemma update_const:
  assumes "flow_of s = flow_of (heap st a)"
  shows "update_session a (\<lambda>_. s) st
    = update_session a (\<lambda>s'. if flow_of s' = flow_of s then s else s') st"
  using assms by (simp add: update_session_def)

lemma update_const_ok:
  assumes "table_ok st" and "flow_of s = flow_of (heap st a)"
  shows "table_ok (update_session a (\<lambda>_. s) st)"
    and "look_flow (update_session a (\<lambda>_. s) st) f = look_flow st f"
  unfolding update_const [OF assms(2)]
  using sestab.inv_upd [OF assms(1)] sestab.look_upd by simp_all

lemma set_session_ok:
  assumes "handle_ok h" and "ses_inv s" and "flow_of s = flow_of (session_at h a)"
  shows "handle_ok (set_session a s h)"
  using assms update_const_ok(1) [of "sesHash h" s a]
  by (simp add: handle_ok_def) (simp add: set_session_def session_at_def)

section \<open>Parsing a session in place\<close>

lemma Parse_resets:
  assumes "CHttpParse_Parse bst al s = Inr (s', out)"
  shows "\<exists>r. CSession_Reset al (s\<lparr>Result := r\<rparr>) = Inr s'"
proof -
  have self: "CSession_Reset al s = Inr s' \<Longrightarrow> \<exists>r. CSession_Reset al (s\<lparr>Result := r\<rparr>) = Inr s'"
    by (rule exI [of _ "Result s"]) simp
  show ?thesis
    using assms
    by (auto simp: CHttpParse_Parse_def res_simps Let_def intro: self
        split: prod.splits option.splits if_splits)
qed

lemma Reset_frame:
  assumes "CSession_Reset al s = Inr s'"
  shows "s' = s\<lparr>ReqBuf := ReqBuf s', RspBuf := RspBuf s', Result := CResult_Reset\<rparr>"
  using assms by (auto simp: CSession_Reset_def res_simps)

lemma Parse_clears:
  assumes "CHttpParse_Parse bst al s = Inr (s', out)" and "session_ok s" and "al_ok al 2048"
  shows "cleared s s'"
proof -
  obtain r where r: "CSession_Reset al (s\<lparr>Result := r\<rparr>) = Inr s'"
    using Parse_resets [OF assms(1)] ..
  have "session_ok (s\<lparr>Result := r\<rparr>)" using assms(2) by (simp add: session_ok_def)
  from CSession_Reset_ok [OF this assms(3)] r have "cleared (s\<lparr>Result := r\<rparr>) s'" by auto
  then show ?thesis by (simp add: cleared_def)
qed

lemma cleared_frame:
  assumes "cleared s s'"
  shows "flow_of s' = flow_of s" "RefreshTime s' = RefreshTime s" "SeqNo s' = SeqNo s"
    "session_ok s'" "contents (ReqBuf s') = []" "contents (RspBuf s') = []"
    "Result s' = CResult_Reset" "ses_inv s'"
proof -
  have eq: "s' = s\<lparr>ReqBuf := ReqBuf s', RspBuf := RspBuf s', Result := CResult_Reset\<rparr>"
    using assms by (simp add: cleared_def)
  show "flow_of s' = flow_of s" "RefreshTime s' = RefreshTime s" "SeqNo s' = SeqNo s"
    "Result s' = CResult_Reset"
    by (subst eq, simp add: flow_of_def)+
  from this(4) show "ses_inv s'" using assms by (simp add: ses_inv_def cleared_def)
  show "session_ok s'" "contents (ReqBuf s') = []" "contents (RspBuf s') = []"
    using assms by (simp_all add: cleared_def)
qed

lemma has_data_iff:
  "session_ok s \<Longrightarrow> has_data s \<longleftrightarrow> contents (ReqBuf s) \<noteq> [] \<or> contents (RspBuf s) \<noteq> []"
  by (simp add: has_data_def session_ok_def contents_empty_iff word_greater_zero_iff)

lemma parse_session_ok:
  assumes run: "parse_session env a h = Inr h'" and ok: "handle_ok h"
    and a: "a < next_addr (sesHash h)" and al: "al_ok (env_al env) 2048"
  shows "\<exists>s' out. CHttpParse_Parse (env_boost env) (env_al env) (session_at h a) = Inr (s', out)
    \<and> cleared (session_at h a) s' \<and> h' = (set_session a s' h)\<lparr>written := written h @ out\<rparr>
    \<and> handle_ok h'"
proof -
  obtain s' out where p: "CHttpParse_Parse (env_boost env) (env_al env) (session_at h a) = Inr (s', out)"
    and h': "h' = (set_session a s' h)\<lparr>written := written h @ out\<rparr>"
    using run by (auto simp: parse_session_def res_simps)
  have "session_ok (session_at h a)" using ok a by (simp add: handle_ok_def ses_inv_def)
  from Parse_clears [OF p this al] have cl: "cleared (session_at h a) s'" .
  have "handle_ok h'" unfolding h' using set_session_ok [OF ok] cleared_frame [OF cl] by simp
  with p h' cl show ?thesis by blast
qed

section \<open>What ageing does\<close>

text \<open>
  The fate of one session, as a function of the time: it is parsed when it has data and has been
  idle for more than a minute, and it goes when it has been idle for an hour.
\<close>

definition aged :: "call_env \<Rightarrow> int \<Rightarrow> csession \<Rightarrow> (csession \<times> file_output list) res" where
  "aged env now s =
     (if has_data s \<and> now - RefreshTime s > 60
      then CHttpParse_Parse (env_boost env) (env_al env) s else Inr (s, []))"

definition expired :: "int \<Rightarrow> csession \<Rightarrow> bool" where
  "expired now s \<longleftrightarrow> TIMEOUT \<le> now - RefreshTime s"

lemma aged_frame:
  assumes "aged env now s = Inr (s', out)" and "ses_inv s" and "al_ok (env_al env) 2048"
  shows "flow_of s' = flow_of s" "RefreshTime s' = RefreshTime s" "ses_inv s'"
  using assms Parse_clears [of "env_boost env" "env_al env" s s' out] cleared_frame [of s s']
  by (auto simp: aged_def ses_inv_def split: if_splits)

lemma age_step:
  "(if has_data (session_at h a) \<and> tsNow - RefreshTime (session_at h a) > 60
    then parse_session env a h else Inr h)
   = bindR (aged env tsNow (session_at h a)) (\<lambda>(s, out).
       Inr ((set_session a s h)\<lparr>written := written h @ out\<rparr>))"
proof -
  have "set_session a (session_at h a) h = h"
    by (simp add: set_session_def session_at_def update_session_def)
  then show ?thesis by (simp add: aged_def parse_session_def)
qed

definition aged_session :: "call_env \<Rightarrow> int \<Rightarrow> csession \<Rightarrow> csession" where
  "aged_session env now s = (case aged env now s of Inl _ \<Rightarrow> s | Inr (s', _) \<Rightarrow> s')"

definition aged_text :: "call_env \<Rightarrow> int \<Rightarrow> csession \<Rightarrow> file_output list" where
  "aged_text env now s = (case aged env now s of Inl _ \<Rightarrow> [] | Inr (_, out) \<Rightarrow> out)"

text \<open>No session of the table makes the parser fault when its time has come.\<close>

definition ageable :: "call_env \<Rightarrow> int \<Rightarrow> csession \<Rightarrow> bool" where
  "ageable env now s \<longleftrightarrow> aged env now s = Inr (aged_session env now s, aged_text env now s)"

lemma ageable_iff: "ageable env now s \<longleftrightarrow> (\<exists>r. aged env now s = Inr r)"
  by (auto simp: ageable_def aged_session_def aged_text_def)

lemma handle_okD:
  assumes "handle_ok h" and "a \<in> set (cseshash (sesHash h) i)"
  shows "a < next_addr (sesHash h)" and "ses_inv (session_at h a)"
  using assms table_okD(2) [of "sesHash h" a i] by (auto simp: handle_ok_def)

lemma set_bucket_ok:
  assumes ok: "handle_ok h" and sub: "set as \<subseteq> set (cseshash (sesHash h) i)" and "distinct as"
  shows "handle_ok (set_bucket i as h)"
proof -
  let ?st = "sesHash (set_bucket i as h)"
  have t: "table_ok (sesHash h)" using ok by (simp add: handle_ok_def)
  have mem: "a \<in> set (cseshash (sesHash h) j)" if "a \<in> set (cseshash ?st j)" for a j
    using that sub by (auto split: if_splits)
  have hp: "heap ?st = heap (sesHash h)" by (simp add: set_bucket_def)
  have "table_ok ?st"
  proof (rule table_okI)
    show "distinct (cseshash ?st j)" for j using table_okD(1) [OF t] assms(3) by simp
    show "a < next_addr ?st" if "a \<in> set (cseshash ?st j)" for j a
      using table_okD(2) [OF t mem [OF that]] by simp
    show "flow_hash (flow_of (heap ?st a)) = j" if "a \<in> set (cseshash ?st j)" for j a
      unfolding hp using table_okD(3) [OF t mem [OF that]] .
    show "a = b" if "a \<in> set (cseshash ?st j)" "b \<in> set (cseshash ?st j)"
      "same_flow (flow_of (heap ?st a)) (flow_of (heap ?st b))" for j a b
      using table_okD(4) [OF t mem [OF that(1)] mem [OF that(2)]] that(3) unfolding hp .
  qed
  then show ?thesis using ok by (simp add: handle_ok_def)
qed

text \<open>\<open>is\<close> lists the buckets that have been worked off.\<close>

definition aged_to :: "call_env \<Rightarrow> int \<Rightarrow> u16 list \<Rightarrow> chandle \<Rightarrow> chandle \<Rightarrow> bool" where
  "aged_to env now is h h' \<longleftrightarrow> handle_ok h'
     \<and> next_addr (sesHash h') = next_addr (sesHash h) \<and> lastTimeOutCheck h' = lastTimeOutCheck h
     \<and> cseshash (sesHash h') = (\<lambda>i. if i \<in> set is
          then filter (\<lambda>a. \<not> expired now (session_at h a)) (cseshash (sesHash h) i)
          else cseshash (sesHash h) i)
     \<and> session_at h' = (\<lambda>a. if \<exists>i \<in> set is. a \<in> set (cseshash (sesHash h) i)
          then aged_session env now (session_at h a) else session_at h a)
     \<and> written h' = written h @ concat (map (\<lambda>a. aged_text env now (session_at h a))
          (concat (map (cseshash (sesHash h)) is)))"

definition bucket_aged ::
  "call_env \<Rightarrow> int \<Rightarrow> u16 \<Rightarrow> nat list \<Rightarrow> nat list \<Rightarrow> chandle \<Rightarrow> chandle \<Rightarrow> bool" where
  "bucket_aged env now i kept rest h h' \<longleftrightarrow> handle_ok h'
     \<and> next_addr (sesHash h') = next_addr (sesHash h) \<and> lastTimeOutCheck h' = lastTimeOutCheck h
     \<and> cseshash (sesHash h') = (cseshash (sesHash h))
         (i := kept @ filter (\<lambda>a. \<not> expired now (session_at h a)) rest)
     \<and> session_at h' = (\<lambda>a. if a \<in> set rest then aged_session env now (session_at h a)
         else session_at h a)
     \<and> written h' = written h @ concat (map (\<lambda>a. aged_text env now (session_at h a)) rest)"

lemma age_bucket_spec:
  assumes "handle_ok h" and "al_ok (env_al env) 2048"
    and "cseshash (sesHash h) i = kept @ rest"
    and "\<And>a. a \<in> set rest \<Longrightarrow> ageable env now (session_at h a)"
  shows "\<exists>h'. age_bucket env now i kept rest h = Inr h' \<and> bucket_aged env now i kept rest h h'"
  using assms
proof (induction rest arbitrary: kept h)
  case Nil
  then show ?case by (auto simp: bucket_aged_def fun_eq_iff)
next
  case (Cons a rest)
  note ok = Cons.prems(1) and al = Cons.prems(2) and bk = Cons.prems(3)
  let ?s = "session_at h a"
  let ?s' = "aged_session env now ?s" and ?out = "aged_text env now ?s"
  let ?h1 = "(set_session a ?s' h)\<lparr>written := written h @ ?out\<rparr>"
  let ?h2 = "set_bucket i (kept @ rest) ?h1"
  have ag: "aged env now ?s = Inr (?s', ?out)"
    using Cons.prems(4) [of a] by (simp add: ageable_def)
  have dist: "distinct (kept @ a # rest)"
    using ok table_okD(1) [of "sesHash h" i] bk by (simp add: handle_ok_def)
  have "ses_inv ?s" using handle_okD(2) [OF ok, of a i] bk by simp
  note fr = aged_frame [OF ag this al]
  have ok1: "handle_ok ?h1" using set_session_ok [OF ok fr(3,1)] by simp
  have ok2: "handle_ok ?h2" using dist bk by (intro set_bucket_ok [OF ok1]) auto
  have ex: "filter (\<lambda>a. \<not> expired now (session_at ?h1 a)) rest
      = filter (\<lambda>a. \<not> expired now (session_at h a)) rest"
    using fr(2) by (intro filter_cong) (auto simp: expired_def)
  have outs: "map (\<lambda>a. aged_text env now (session_at ?h1 a)) rest
      = map (\<lambda>a. aged_text env now (session_at h a)) rest"
    using dist by (intro map_cong) auto
  have ags: "\<And>b. b \<in> set rest \<Longrightarrow> ageable env now (session_at ?h1 b)"
    using Cons.prems(4) dist by auto
  have run: "age_bucket env now i kept (a # rest) h
    = (if expired now ?s then age_bucket env now i kept rest ?h2
       else age_bucket env now i (kept @ [a]) rest ?h1)"
    using fr(2) by (simp add: age_step ag expired_def)
  show ?case
  proof (cases "expired now ?s")
    case True
    have "cseshash (sesHash ?h2) i = kept @ rest" by simp
    from Cons.IH [OF ok2 al this] ags obtain h'
      where h': "age_bucket env now i kept rest ?h2 = Inr h'" "bucket_aged env now i kept rest ?h2 h'"
      by (auto simp del: session_at_set)
    have "bucket_aged env now i kept (a # rest) h h'"
      using h'(2) [unfolded bucket_aged_def session_at_bucket ex outs] True dist
      unfolding bucket_aged_def by (auto simp: fun_eq_iff)
    with h'(1) True run show ?thesis by auto
  next
    case False
    have "cseshash (sesHash ?h1) i = (kept @ [a]) @ rest" using bk by simp
    from Cons.IH [OF ok1 al this ags] obtain h'
      where h': "age_bucket env now i (kept @ [a]) rest ?h1 = Inr h'"
        "bucket_aged env now i (kept @ [a]) rest ?h1 h'"
      by blast
    have "bucket_aged env now i kept (a # rest) h h'"
      using h'(2) [unfolded bucket_aged_def ex outs] False dist
      unfolding bucket_aged_def by (auto simp: fun_eq_iff)
    with h'(1) False run show ?thesis by auto
  qed
qed

text \<open>Different buckets share no session.\<close>

lemma buckets_disjoint:
  assumes "handle_ok h" and "a \<in> set (cseshash (sesHash h) i)" and "a \<in> set (cseshash (sesHash h) j)"
  shows "i = j"
  using assms table_okD(3) [of "sesHash h" a i] table_okD(3) [of "sesHash h" a j]
  by (simp add: handle_ok_def)

lemma age_buckets:
  assumes ok: "handle_ok h" and al: "al_ok (env_al env) 2048" and dist: "distinct is"
    and ag: "\<And>i a. i \<in> set is \<Longrightarrow> a \<in> set (cseshash (sesHash h) i) \<Longrightarrow> ageable env now (session_at h a)"
  shows "\<exists>h'. foldR (\<lambda>i h. age_bucket env now i [] (cseshash (sesHash h) i) h) is h = Inr h'
    \<and> aged_to env now is h h'"
  using dist ag
proof (induction "is" rule: rev_induct)
  case Nil
  then show ?case using ok by (simp add: aged_to_def fun_eq_iff)
next
  case (snoc i js)
  let ?step = "\<lambda>i h. age_bucket env now i [] (cseshash (sesHash h) i) h"
  obtain h1 where h1: "foldR ?step js h = Inr h1" "aged_to env now js h h1"
    using snoc by auto
  note d1 = h1(2) [unfolded aged_to_def]
  let ?b = "cseshash (sesHash h) i"
  have i: "i \<notin> set js" using snoc.prems(1) by simp
  have bk: "cseshash (sesHash h1) i = [] @ ?b" using d1 i by simp
  have at1: "session_at h1 a = session_at h a" if "a \<in> set ?b" for a
  proof -
    have "\<not> (\<exists>j \<in> set js. a \<in> set (cseshash (sesHash h) j))"
      using i buckets_disjoint [OF ok that] by blast
    moreover have "session_at h1 = (\<lambda>a. if \<exists>i \<in> set js. a \<in> set (cseshash (sesHash h) i)
        then aged_session env now (session_at h a) else session_at h a)"
      using d1 by (elim conjE)
    ultimately show ?thesis by (simp only: if_False)
  qed
  then have ag1: "\<And>a. a \<in> set ?b \<Longrightarrow> ageable env now (session_at h1 a)"
    using snoc.prems(2) [of i] by simp
  have ok1: "handle_ok h1" using d1 by blast
  from age_bucket_spec [OF ok1 al bk ag1] obtain h'
    where h': "age_bucket env now i [] ?b h1 = Inr h'" "bucket_aged env now i [] ?b h1 h'"
    by blast
  then have step: "?step i h1 = Inr h'" using bk by simp
  have dis: "a \<notin> set (cseshash (sesHash h) j)" if "a \<in> set ?b" "j \<in> set js" for a j
    using that i buckets_disjoint [OF ok that(1)] by blast
  have ex: "filter (\<lambda>a. \<not> expired now (session_at h1 a)) ?b
      = filter (\<lambda>a. \<not> expired now (session_at h a)) ?b"
    using at1 by (intro filter_cong) auto
  have outs: "map (\<lambda>a. aged_text env now (session_at h1 a)) ?b
      = map (\<lambda>a. aged_text env now (session_at h a)) ?b"
    using at1 by (intro map_cong) auto
  note b = h'(2) [unfolded bucket_aged_def ex outs append_Nil]
  have "aged_to env now (js @ [i]) h h'"
    unfolding aged_to_def
  proof (intro conjI ext)
    show "cseshash (sesHash h') j = (if j \<in> set (js @ [i])
        then filter (\<lambda>a. \<not> expired now (session_at h a)) (cseshash (sesHash h) j)
        else cseshash (sesHash h) j)" for j
      using b d1 i by (cases "j = i") simp_all
    show "session_at h' a = (if \<exists>i \<in> set (js @ [i]). a \<in> set (cseshash (sesHash h) i)
        then aged_session env now (session_at h a) else session_at h a)" for a
    proof (cases "a \<in> set ?b")
      case True
      then have "session_at h' a = aged_session env now (session_at h1 a)" using b by simp
      with True at1 show ?thesis by auto
    next
      case False
      then have "session_at h' a = session_at h1 a" using b by simp
      with False d1 show ?thesis by simp
    qed
  qed (use b d1 in simp_all)
  with h1(1) step show ?case by (simp add: foldR_append)
qed

text \<open>
  A check that is due works off the buckets 0 to 65534 and returns; bucket 65535 is left alone.
\<close>

definition checked_buckets :: "u16 list" where
  "checked_buckets = map of_nat [0..<65535]"

lemma set_checked_buckets: "i \<in> set checked_buckets \<longleftrightarrow> i \<noteq> 65535"
proof
  assume "i \<in> set checked_buckets"
  then obtain n where n: "n < 65535" "i = of_nat n" by (auto simp: checked_buckets_def)
  then have "unat i = n" by (simp add: unat_of_nat_small)
  then show "i \<noteq> 65535" using n(1) by auto
next
  assume i: "i \<noteq> 65535"
  have inv_i: "of_nat (unat i) = i" by simp
  have "unat i < 65536" using unsigned_less [of i, where 'a = nat] by simp
  moreover have "unat i \<noteq> 65535"
    using i inv_i by (metis of_nat_numeral)
  ultimately have "unat i \<in> set [0..<65535]" by simp
  then show "i \<in> set checked_buckets"
    unfolding checked_buckets_def set_map using inv_i by (metis image_eqI)
qed

lemma distinct_checked_buckets: "distinct checked_buckets"
  unfolding checked_buckets_def distinct_map
  by (auto intro!: inj_onI dest!: arg_cong [of _ _ unat] simp: unat_of_nat_small)

lemma foldR_map: "foldR f (map g xs) = foldR (\<lambda>x. f (g x)) xs"
proof (induction xs)
  case (Cons x xs)
  show ?case by (rule ext) (simp add: Cons)
qed (simp add: fun_eq_iff)

lemma TimeOutCheck_spec:
  assumes ok: "handle_ok h" and al: "al_ok (env_al env) 2048"
    and due: "120 \<le> t_check env - lastTimeOutCheck h"
    and ag: "\<And>i a. i \<noteq> 65535 \<Longrightarrow> a \<in> set (cseshash (sesHash h) i)
      \<Longrightarrow> ageable env (t_check env) (session_at h a)"
  shows "\<exists>h'. CHandle_TimeOutCheck env h = Inr h' \<and> aged_to env (t_check env) checked_buckets h h'"
proof -
  have "\<not> t_check env - lastTimeOutCheck h < TIMEOUT_CHECK_DUR"
    using due by (simp add: TIMEOUT_CHECK_DUR_def)
  then have "CHandle_TimeOutCheck env h
    = foldR (\<lambda>i h. age_bucket env (t_check env) i [] (cseshash (sesHash h) i) h) checked_buckets h"
    unfolding checked_buckets_def foldR_map CHandle_TimeOutCheck_def Let_def by (rule if_not_P)
  moreover have "\<And>i a. i \<in> set checked_buckets \<Longrightarrow> a \<in> set (cseshash (sesHash h) i)
      \<Longrightarrow> ageable env (t_check env) (session_at h a)"
    using ag by (simp add: set_checked_buckets)
  ultimately show ?thesis
    using age_buckets [OF ok al distinct_checked_buckets] by presburger
qed

lemma TimeOutCheck_not_due:
  "t_check env - lastTimeOutCheck h < 120 \<Longrightarrow> CHandle_TimeOutCheck env h = Inr h"
  by (simp add: CHandle_TimeOutCheck_def TIMEOUT_CHECK_DUR_def)

end
