(* ===== verification/Reassembly.thy ===== *)
theory Reassembly
  imports Handle
begin

text \<open>
  What \<open>CHandle::Process\<close> does with a packet, stated on the abstract view of a connection: its last
  sequence number and the bytes collected in either direction. The detailed handler refines the
  abstract step, keeps the invariant of the table, and reassembles a stream of segments.
\<close>

section \<open>Appending keeps a buffer in order\<close>

text \<open>The block of a buffer ends in NUL; then printing it as a C string stays inside.\<close>

definition terminated :: "cbuffer \<Rightarrow> bool" where
  "terminated b \<longleftrightarrow> (case buf_mem b of None \<Rightarrow> False | Some m \<Rightarrow> m \<noteq> [] \<and> last m = NUL)"

lemma terminated_prints: "terminated b \<Longrightarrow> \<exists>s. c_string (buf_mem b) = Inr s"
  using last_in_set by (force simp: terminated_def c_string_def split: option.splits)

text \<open>No line feed behind the contents.\<close>

definition tail_quiet :: "cbuffer \<Rightarrow> bool" where
  "tail_quiet b \<longleftrightarrow> (case buf_mem b of None \<Rightarrow> False | Some m \<Rightarrow> LF \<notin> set (drop (unat (buf_len b)) m))"

text \<open>
  The possible outcomes of \<open>Append\<close> on a proper buffer and a source that fits into 32 bits: the
  bytes are appended, or nothing changes.
\<close>

lemma Append_outcome:
  assumes ok: "buf_ok b" and small: "unat (buf_len b) + length src < 2 ^ 32"
    and run: "CBuffer_Append al b (Some (src, off)) sz = Inr (r, b')"
  shows "b' = b \<or> (r \<and> off + unat sz \<le> length src \<and> buf_ok b'
    \<and> contents b' = contents b @ take (unat sz) (drop off src)
    \<and> (terminated b \<longrightarrow> terminated b') \<and> (tail_quiet b \<longrightarrow> tail_quiet b'))"
proof -
  obtain m where m: "buf_mem b = Some m" using buf_ok_mem [OF ok] by blast
  note inv = buf_okD [OF ok m]
  let ?n = "unat sz"
  have sz: "sz = of_nat ?n" by simp
  consider (none) "sz = 0" | (fits) "sz \<noteq> 0" "sz < ucast (buf_free b)"
    | (grow) "sz \<noteq> 0" "\<not> sz < ucast (buf_free b)" by blast
  then show ?thesis
  proof cases
    case none
    then show ?thesis using run by (simp add: CBuffer_Append_def)
  next
    case fits
    then have n: "0 < ?n" "?n < unat (buf_free b)"
      by (simp_all add: word_less_nat_alt unat_ucast_up unat_gt_0)
    have src: "off + ?n \<le> length src"
      using run fits by (auto simp: CBuffer_Append_def c_memcpy_def c_read_def res_simps split: if_splits)
    have small': "unat (buf_len b) + ?n < 2 ^ 32" using small src by linarith
    have b': "b' = b\<lparr>buf_mem := Some (take (unat (buf_len b)) m @ take ?n (drop off src)
          @ drop (unat (buf_len b) + ?n) m),
        buf_len := buf_len b + of_nat ?n, buf_free := buf_free b - of_nat ?n\<rparr>" and r
      using run Append_fits [OF ok m src n, of al] unfolding sz [symmetric] by auto
    have len': "unat (buf_len b + of_nat ?n) = unat (buf_len b) + ?n"
      using small' by (simp add: unat_add_of_nat del: of_nat_unat)
    have free': "unat (buf_free b - of_nat ?n) = unat (buf_free b) - ?n"
      using n by (simp add: unat_diff_of_nat del: of_nat_unat)
    then have "0 < buf_free b - of_nat ?n"
      using n unfolding word_less_nat_alt by (simp del: of_nat_unat)
    moreover have "terminated b'" if "terminated b"
    proof -
      have "unat (buf_len b) + ?n < length m" using inv n by linarith
      then show ?thesis using that m by (simp add: b' terminated_def last_append last_drop)
    qed
    moreover have "tail_quiet b'" if "tail_quiet b"
    proof -
      have "set (drop (unat (buf_len b) + ?n) m) \<subseteq> set (drop (unat (buf_len b)) m)"
        by (rule set_drop_subset_set_drop) simp
      then show ?thesis using that m len' inv src by (auto simp: b' tail_quiet_def simp del: of_nat_unat)
    qed
    ultimately show ?thesis
      using inv n src len' free' m \<open>r\<close>
      by (simp add: b' buf_ok_def contents_def del: of_nat_unat)
  next
    case grow
    then have n: "unat (buf_free b) \<le> ?n"
      by (simp add: word_less_nat_alt unat_ucast_up)
    show ?thesis
    proof (cases "off + ?n \<le> length src")
      case False
      then have "b' = b"
        using run grow
        by (auto simp: CBuffer_Append_def c_memcpy_out_src res_simps split: if_splits)
      then show ?thesis ..
    next
      case src: True
      then have small': "unat (buf_len b) + ?n < 2 ^ 32" using small by linarith
      show ?thesis
      proof (cases "al_ok al (unat (buf_len b) + ?n + 1)")
        case False
        then show ?thesis
          using run Append_no_memory [OF ok m n small', of al src off] unfolding sz [symmetric] by simp
      next
        case True
        have b': "b' = \<lparr>buf_len = buf_len b + of_nat ?n, buf_free = 1,
            buf_mem = Some (take (unat (buf_len b)) m @ take ?n (drop off src) @ [NUL])\<rparr>" and r
          using run Append_grows [OF ok m src n small' True] unfolding sz [symmetric] by auto
        have len': "unat (buf_len b + of_nat ?n) = unat (buf_len b) + ?n"
          using small' by (simp add: unat_add_of_nat del: of_nat_unat)
        show ?thesis
          using inv n src len' m \<open>r\<close>
          by (simp add: b' buf_ok_def contents_def terminated_def tail_quiet_def del: of_nat_unat)
      qed
    qed
  qed
qed

section \<open>Finding or creating the session\<close>

definition fresh_block :: "allocator \<Rightarrow> block" where
  "fresh_block al = map (al_junk al) [0..<2048]"

lemma CSession_new_blocks:
  assumes "al_ok al 2048" and "CSession_new al raw = Inr s"
  shows "buf_mem (ReqBuf s) = Some (fresh_block al)" "buf_mem (RspBuf s) = Some (fresh_block al)"
proof -
  obtain b where b: "CBuffer_new al = Inr b" "buf_mem b = Some (fresh_block al)" "buf_ok b"
      "contents b = []"
    using new_ok [OF assms(1)] by (auto simp: fresh_block_def)
  have "buf_len b = 0"
    using contents_empty_iff [OF b(3)] b(4) by (simp add: CBuffer_GetBufLen_def)
  then have "buf_mem b' = buf_mem b" if "CBuffer_Reset al b = Inr b'" for b'
    using that b(2) by (auto simp: CBuffer_Reset_def BUFFER_SIZE_def)
  then show "buf_mem (ReqBuf s) = Some (fresh_block al)" "buf_mem (RspBuf s) = Some (fresh_block al)"
    using assms(2) b by (auto simp: CSession_new_def CSession_Reset_def res_simps)
qed

text \<open>Server and client of a new session: the match information names the server.\<close>

fun ends_of :: "behavior_info \<Rightarrow> flow \<Rightarrow> flow" where
  "ends_of info (srcIp, dstIp, srcPort, dstPort) =
     (if m_nIP info = srcIp \<and> m_nPort info = ucast srcPort then (srcIp, dstIp, srcPort, dstPort)
      else (dstIp, srcIp, dstPort, srcPort))"

lemma Create_spec:
  assumes f: "packet_flow pkt = Inr f" and al: "al_ok al 2048"
  shows "\<exists>s. CSessionHashTable_Create al raw now pkt info st = Inr (push_session s st)
    \<and> session_ok s \<and> same_flow f (flow_of s) \<and> SeqNo s = SeqNo raw \<and> RefreshTime s = now
    \<and> contents (ReqBuf s) = [] \<and> contents (RspBuf s) = [] \<and> Result s = CResult_Reset
    \<and> buf_mem (ReqBuf s) = Some (fresh_block al) \<and> buf_mem (RspBuf s) = Some (fresh_block al)
    \<and> flow_of s = ends_of info f"
proof -
  obtain s0 where s0: "CSession_new al raw = Inr s0" "cleared raw s0"
    using CSession_new_ok [OF al] by blast
  note fr = cleared_frame [OF s0(2)]
  obtain a b c d where f': "f = (a, b, c, d)" by (cases f) auto
  have fs: "host32 (GetSrcIp pkt) = Inr a" "host32 (GetDstIp pkt) = Inr b"
    "host16 (GetSrcPort pkt) = Inr c" "host16 (GetDstPort pkt) = Inr d"
    using f unfolding f' by (auto simp: packet_flow_def res_simps)
  let ?s = "if m_nIP info = a \<and> m_nPort info = ucast c
     then s0\<lparr>ServerIp := a, ClientIp := b, ServerPort := c, ClientPort := d,
       ServerMac := GetSrcMac pkt, ClientMac := GetDstMac pkt, Protocol := m_nBehaviorId info,
       CreatedTime := now, RefreshTime := now\<rparr>
     else s0\<lparr>ServerIp := b, ClientIp := a, ServerPort := d, ClientPort := c,
       ServerMac := GetDstMac pkt, ClientMac := GetSrcMac pkt, Protocol := m_nBehaviorId info,
       CreatedTime := now, RefreshTime := now\<rparr>"
  have "CSessionHashTable_Create al raw now pkt info st = Inr (push_session ?s st)"
    by (simp add: CSessionHashTable_Create_def s0 fs Let_def)
  moreover have "session_ok ?s" using fr(4) by (simp add: session_ok_def)
  moreover have "same_flow f (flow_of ?s)" "flow_of ?s = ends_of info f"
    by (simp_all add: f' flow_of_def)
  ultimately show ?thesis using fr CSession_new_blocks [OF al s0(1)] by (intro exI [of _ ?s]) simp
qed

text \<open>The view of the handler as a map from flows to sessions.\<close>

definition session_of :: "chandle \<Rightarrow> flow \<Rightarrow> csession option" where
  "session_of h f = map_option (session_at h) (look_flow (sesHash h) f)"

lemma find_or_create_found:
  assumes ok: "handle_ok h" and look: "look_flow (sesHash h) f = Some a"
  shows "\<exists>h'. find_or_create env packet info f h = Inr (a, h') \<and> handle_ok h'
    \<and> look_flow (sesHash h') = look_flow (sesHash h) \<and> next_addr (sesHash h') = next_addr (sesHash h)
    \<and> session_at h' = (session_at h)
        (a := (session_at h a)\<lparr>RefreshTime := t_find env mod 2 ^ 32\<rparr>)
    \<and> lastTimeOutCheck h' = lastTimeOutCheck h \<and> written h' = written h"
proof -
  let ?g = "\<lambda>s. s\<lparr>RefreshTime := t_find env mod 2 ^ 32\<rparr> :: csession"
  let ?h' = "h\<lparr>sesHash := update_session a ?g (sesHash h)\<rparr>"
  have flow: "flow_of (?g s) = flow_of s" for s by (simp add: flow_of_def)
  have "handle_ok ?h'"
    using ok sestab.inv_upd [of "sesHash h" ?g a] flow
    by (simp add: handle_ok_def session_at_def session_ok_def ses_inv_def)
  moreover have "look_flow (sesHash ?h') = look_flow (sesHash h)"
    using sestab.look_upd [of ?g a "sesHash h"] flow by (simp add: fun_eq_iff)
  ultimately show ?thesis
    using look by (cases f) (auto simp: find_or_create_def Find_look session_at_def)
qed

lemma find_or_create_new:
  assumes ok: "handle_ok h" and look: "look_flow (sesHash h) f = None"
    and f: "packet_flow packet = Inr f" and al: "al_ok (env_al env) 2048"
  shows "\<exists>h' s. find_or_create env packet info f h = Inr (next_addr (sesHash h), h') \<and> handle_ok h'
    \<and> look_flow (sesHash h') = (\<lambda>g. if same_flow g f then Some (next_addr (sesHash h))
         else look_flow (sesHash h) g)
    \<and> session_at h' = (session_at h)(next_addr (sesHash h) := s)
    \<and> next_addr (sesHash h') = next_addr (sesHash h) + 1
    \<and> session_ok s \<and> SeqNo s = SeqNo (env_raw env) \<and> contents (ReqBuf s) = []
    \<and> contents (RspBuf s) = [] \<and> Result s = CResult_Reset
    \<and> buf_mem (ReqBuf s) = Some (fresh_block (env_al env))
    \<and> buf_mem (RspBuf s) = Some (fresh_block (env_al env)) \<and> flow_of s = ends_of info f
    \<and> lastTimeOutCheck h' = lastTimeOutCheck h \<and> written h' = written h"
proof -
  let ?st = "sesHash h"
  obtain s where s: "CSessionHashTable_Create (env_al env) (env_raw env) (t_create env) packet info ?st
      = Inr (push_session s ?st)" "session_ok s" "same_flow f (flow_of s)"
      "SeqNo s = SeqNo (env_raw env)" "contents (ReqBuf s) = []" "contents (RspBuf s) = []"
      "Result s = CResult_Reset" "buf_mem (ReqBuf s) = Some (fresh_block (env_al env))"
      "buf_mem (RspBuf s) = Some (fresh_block (env_al env))" "flow_of s = ends_of info f"
    using Create_spec [OF f al] by blast
  have t: "table_ok ?st" using ok by (simp add: handle_ok_def)
  have new: "look_flow ?st (flow_of s) = None" using look sestab.look_same [OF s(3)] by simp
  obtain st' where st': "push_session s ?st = (next_addr ?st, st')"
    by (metis prod.collapse push_session_simps(1))
  let ?h' = "h\<lparr>sesHash := st'\<rparr>"
  have same: "same_flow g (flow_of s) = same_flow g f" for g
    using s(3) sestab.same_sym sestab.same_trans by blast
  have snd: "st' = snd (push_session s ?st)" by (simp add: st')
  have sa: "session_at ?h' = (session_at h)(next_addr ?st := s)"
    by (simp add: fun_eq_iff session_at_def snd)
  have "handle_ok ?h'"
    using ok s(2,7) sestab.inv_add [OF t new] unfolding handle_ok_def sa
    by (simp add: snd less_Suc_eq ses_inv_def)
  moreover have "look_flow st' = (\<lambda>g. if same_flow g f then Some (next_addr ?st) else look_flow ?st g)"
    using sestab.look_add [OF t new] by (simp add: fun_eq_iff snd same)
  moreover have "find_or_create env packet info f h = Inr (next_addr ?st, ?h')"
  proof -
    have "h\<lparr>sesHash := ?st\<rparr> = h" by simp
    then show ?thesis using look s(1) st'
      by (cases f) (simp add: find_or_create_def Find_look Let_def)
  qed
  ultimately show ?thesis using s sa by (intro exI [of _ ?h'] exI [of _ s]) (simp add: snd)
qed

section \<open>When parsing returns\<close>

definition parse_ready :: "boost \<Rightarrow> csession \<Rightarrow> bool" where
  "parse_ready bst s \<longleftrightarrow> quiet_buf (ReqBuf s) \<and> quiet_buf (RspBuf s)
     \<and> (\<exists>r. spec_decode bst (contents (ReqBuf s)) (contents (RspBuf s)) (Result s) = Inr r)"

definition parse_text :: "boost \<Rightarrow> csession \<Rightarrow> file_output list" where
  "parse_text bst s =
     (case spec_decode bst (contents (ReqBuf s)) (contents (RspBuf s)) (Result s) of
        Inr (Some r) \<Rightarrow> emitted bst (s\<lparr>Result := r\<rparr>)
      | _ \<Rightarrow> [])"

lemma Parse_ready:
  assumes ok: "session_ok s" and al: "al_ok al 2048" and ready: "parse_ready bst s"
  shows "\<exists>s'. CHttpParse_Parse bst al s = Inr (s', parse_text bst s) \<and> cleared s s'"
proof -
  have q: "quiet_buf (ReqBuf s)" "quiet_buf (RspBuf s)" using ready by (auto simp: parse_ready_def)
  obtain r where r: "spec_decode bst (contents (ReqBuf s)) (contents (RspBuf s)) (Result s) = Inr r"
    using ready by (auto simp: parse_ready_def)
  show ?thesis
    using Parse_refines [OF ok al q, of bst] r by (cases r) (simp_all add: parse_text_def)
qed

text \<open>A reset that does not shrink its block leaves the closing NUL where it is.\<close>

lemma Reset_keeps_block:
  assumes "buf_ok b" and "unat (buf_len b) \<le> 4096" and "CBuffer_Reset al b = Inr b'"
  shows "buf_mem b' = buf_mem b"
  using assms buf_ok_mem [of b]
  by (auto simp: CBuffer_Reset_def BUFFER_SIZE_def word_less_nat_alt)

lemma Parse_keeps_terminated:
  assumes run: "CHttpParse_Parse bst al s = Inr (s', out)" and ok: "session_ok s"
    and small: "unat (buf_len (ReqBuf s)) \<le> 4096" "unat (buf_len (RspBuf s)) \<le> 4096"
    and tmd: "terminated (ReqBuf s)" "terminated (RspBuf s)"
  shows "terminated (ReqBuf s')" "terminated (RspBuf s')"
proof -
  obtain r where "CSession_Reset al (s\<lparr>Result := r\<rparr>) = Inr s'" using Parse_resets [OF run] ..
  then have "CBuffer_Reset al (ReqBuf s) = Inr (ReqBuf s')"
    "CBuffer_Reset al (RspBuf s) = Inr (RspBuf s')"
    by (auto simp: CSession_Reset_def res_simps)
  with ok small have "buf_mem (ReqBuf s') = buf_mem (ReqBuf s)" "buf_mem (RspBuf s') = buf_mem (RspBuf s)"
    by (auto simp: session_ok_def intro: Reset_keeps_block)
  with tmd show "terminated (ReqBuf s')" "terminated (RspBuf s')" by (simp_all add: terminated_def)
qed

section \<open>Taking the payload\<close>

lemma scast_length: "unat w < 2 ^ 15 \<Longrightarrow> (scast (w :: u16) :: u64) = of_nat (unat w)"
proof -
  assume "unat w < 2 ^ 15"
  then have "sint w = int (unat w)" by (intro sint_small) simp
  then have "(of_int (sint w) :: u64) = of_int (int (unat w))" by (rule arg_cong)
  then show ?thesis by simp
qed

text \<open>The payload of a packet, and the room a buffer has to have for it.\<close>

definition payload :: "cformat_packet \<Rightarrow> string \<Rightarrow> bool" where
  "payload p d \<longleftrightarrow> length d < 2 ^ 15 \<and> unat (GetDataLen p) = length d
     \<and> (\<exists>off. GetData p = Some (m_pPkt p, off) \<and> c_read (m_pPkt p) off (length d) = Inr d)"

definition room :: "cformat_packet \<Rightarrow> cbuffer \<Rightarrow> bool" where
  "room p b \<longleftrightarrow> unat (buf_len b) + length (m_pPkt p) < 2 ^ 32"

lemma append_payload:
  assumes ok: "buf_ok b" and tb: "terminated b" and pl: "payload p d" and rm: "room p b"
    and al: "\<And>k. al_ok al k"
  shows "\<exists>b'. CBuffer_Append al b (GetData p) (scast (GetDataLen p)) = Inr (True, b')
    \<and> buf_ok b' \<and> terminated b' \<and> contents b' = contents b @ d
    \<and> (tail_quiet b \<longrightarrow> tail_quiet b')"
proof -
  obtain off where g: "GetData p = Some (m_pPkt p, off)"
    and rd: "off + length d \<le> length (m_pPkt p)" "take (length d) (drop off (m_pPkt p)) = d"
    using pl by (auto simp: payload_def c_read_def split: if_splits)
  have sz: "(scast (GetDataLen p) :: u64) = of_nat (length d)"
    using pl scast_length [of "GetDataLen p"] by (simp add: payload_def)
  have sm: "unat (buf_len b) + length d < 2 ^ 32" using rm rd by (simp add: room_def)
  obtain b' where b': "CBuffer_Append al b (Some (m_pPkt p, off)) (of_nat (length d)) = Inr (True, b')"
    "buf_ok b'" "contents b' = contents b @ d"
    using Append_ok [OF ok rd(1) sm al] rd(2) by auto
  have "terminated b'" "tail_quiet b \<longrightarrow> tail_quiet b'"
    using Append_outcome [OF ok _ b'(1)] rm tb by (auto simp: room_def)
  with b' show ?thesis unfolding g sz by blast
qed

section \<open>The abstract connection\<close>

record conn =
  cn_ends :: flow             \<comment> \<open>server, client and their ports\<close>
  cn_seq :: u32
  cn_req :: string
  cn_rsp :: string

definition conn_of :: "csession \<Rightarrow> conn" where
  "conn_of s = \<lparr>cn_ends = flow_of s, cn_seq = SeqNo s, cn_req = contents (ReqBuf s), cn_rsp = contents (RspBuf s)\<rparr>"

text \<open>
  One segment: dropped when its sequence number is the last one seen or it carries no data.
  Request data that follows a collected exchange starts a new one.
\<close>

definition spec_step :: "bool \<Rightarrow> segment \<Rightarrow> conn \<Rightarrow> conn" where
  "spec_step to_server s c =
     (if cn_seq c = sg_seq s \<or> sg_data s = [] then c
      else if to_server then
        (if cn_req c \<noteq> [] \<and> cn_rsp c \<noteq> []
         then c\<lparr>cn_seq := sg_seq s, cn_req := sg_data s, cn_rsp := []\<rparr>
         else c\<lparr>cn_seq := sg_seq s, cn_req := cn_req c @ sg_data s\<rparr>)
      else c\<lparr>cn_seq := sg_seq s, cn_rsp := cn_rsp c @ sg_data s\<rparr>)"

text \<open>
  A session that is in order for a packet: proper buffers that end in NUL; and when the packet goes
  to the server while a request and a response have been collected, parsing them returns without
  shrinking a block.
\<close>

definition conn_ok :: "boost \<Rightarrow> bool \<Rightarrow> csession \<Rightarrow> bool" where
  "conn_ok bst to_server s \<longleftrightarrow> ses_inv s \<and> terminated (ReqBuf s) \<and> terminated (RspBuf s)
     \<and> (to_server \<and> contents (ReqBuf s) \<noteq> [] \<and> contents (RspBuf s) \<noteq> [] \<longrightarrow>
          parse_ready bst s \<and> unat (buf_len (ReqBuf s)) \<le> 4096 \<and> unat (buf_len (RspBuf s)) \<le> 4096)"

text \<open>What a step leaves as it is, the session at \<open>a\<close> apart.\<close>

definition only_session :: "nat \<Rightarrow> chandle \<Rightarrow> chandle \<Rightarrow> bool" where
  "only_session a h h' \<longleftrightarrow> look_flow (sesHash h') = look_flow (sesHash h)
     \<and> next_addr (sesHash h') = next_addr (sesHash h)
     \<and> lastTimeOutCheck h' = lastTimeOutCheck h
     \<and> (\<forall>b. b \<noteq> a \<longrightarrow> session_at h' b = session_at h b)"

lemma only_session_trans:
  "only_session a h h1 \<Longrightarrow> only_session a h1 h2 \<Longrightarrow> only_session a h h2"
  by (simp add: only_session_def)

lemma only_session_refl [simp]: "only_session a h h"
  by (simp add: only_session_def)

lemma only_session_set:
  assumes "handle_ok h" and "flow_of s = flow_of (session_at h a)"
  shows "only_session a h (set_session a s h)"
  using assms update_const_ok(2) [of "sesHash h" s a]
  by (simp add: only_session_def handle_ok_def fun_eq_iff)
     (simp add: set_session_def session_at_def)

lemma only_session_written [simp]: "only_session a h (h'\<lparr>written := w\<rparr>) = only_session a h h'"
  by (simp add: only_session_def)

section \<open>The handler refines the abstract step\<close>

text \<open>The outcome of the direction branches on the session.\<close>

definition quiet_ses :: "csession \<Rightarrow> bool" where
  "quiet_ses s \<longleftrightarrow> tail_quiet (ReqBuf s) \<and> tail_quiet (RspBuf s)"

definition took :: "bool \<Rightarrow> nat \<Rightarrow> chandle \<Rightarrow> string \<Rightarrow> string \<Rightarrow> chandle \<Rightarrow> bool" where
  "took q a h req rsp h' \<longleftrightarrow> handle_ok h' \<and> only_session a h h'
     \<and> SeqNo (session_at h' a) = SeqNo (session_at h a)
     \<and> flow_of (session_at h' a) = flow_of (session_at h a)
     \<and> contents (ReqBuf (session_at h' a)) = req \<and> contents (RspBuf (session_at h' a)) = rsp
     \<and> terminated (ReqBuf (session_at h' a)) \<and> terminated (RspBuf (session_at h' a))
     \<and> (q \<and> quiet_ses (session_at h a) \<longrightarrow> quiet_ses (session_at h' a))"

lemma tookI:
  assumes "handle_ok h" and "ses_inv s'" and "flow_of s' = flow_of (session_at h a)"
    and "SeqNo s' = SeqNo (session_at h a)" and "contents (ReqBuf s') = req"
    and "contents (RspBuf s') = rsp" and "terminated (ReqBuf s')" and "terminated (RspBuf s')"
    and "q \<Longrightarrow> quiet_ses (session_at h a) \<Longrightarrow> quiet_ses s'"
  shows "took q a h req rsp (set_session a s' h)"
  using assms set_session_ok [OF assms(1-3)] only_session_set [OF assms(1,3)] by (simp add: took_def)

lemma took_trans:
  assumes 1: "took q a h req1 rsp1 h1" and 2: "took q' a h1 req rsp h2"
  shows "took (q \<and> q') a h req rsp h2"
proof -
  have "only_session a h h1" "only_session a h1 h2" using 1 2 by (simp_all add: took_def)
  then have "only_session a h h2" by (rule only_session_trans)
  with 1 2 show ?thesis by (simp add: took_def)
qed

lemma take_response_spec:
  assumes ok: "handle_ok h" and c: "conn_ok bst False (session_at h a)"
    and pl: "payload p d" and rm: "room p (RspBuf (session_at h a))"
    and al: "\<And>k. al_ok (env_al env) k"
  shows "\<exists>h'. take_response env p a h = Inr (True, h') \<and> written h' = written h
    \<and> took True a h (contents (ReqBuf (session_at h a))) (contents (RspBuf (session_at h a)) @ d) h'"
proof -
  let ?s = "session_at h a"
  have so: "buf_ok (ReqBuf ?s)" "buf_ok (RspBuf ?s)" "terminated (ReqBuf ?s)" "terminated (RspBuf ?s)"
    using c by (auto simp: conn_ok_def session_ok_def ses_inv_def)
  obtain b where b: "CBuffer_Append (env_al env) (RspBuf ?s) (GetData p) (scast (GetDataLen p))
      = Inr (True, b)" "buf_ok b" "terminated b" "contents b = contents (RspBuf ?s) @ d"
      "tail_quiet (RspBuf ?s) \<longrightarrow> tail_quiet b"
    using append_payload [OF so(2,4) pl rm al] by blast
  define s1 where "s1 = (if CBuffer_GetBufLen (RspBuf ?s) = 0 \<and> ResponseTimeStamp (Result ?s) = 0
      then ?s\<lparr>Result := (Result ?s)\<lparr>ResponseTimeStamp := packet_stamp p\<rparr>\<rparr> else ?s)"
  have s1: "RspBuf s1 = RspBuf ?s" "ReqBuf s1 = ReqBuf ?s" "flow_of s1 = flow_of ?s"
    "SeqNo s1 = SeqNo ?s" "blank (Result s1) = blank (Result ?s)"
    by (simp_all add: s1_def flow_of_def)
  have "take_response env p a h = Inr (True, set_session a (s1\<lparr>RspBuf := b\<rparr>) h)"
    unfolding take_response_def Let_def s1_def [symmetric] s1 by (simp add: b)
  moreover have "took True a h (contents (ReqBuf ?s)) (contents (RspBuf ?s) @ d)
      (set_session a (s1\<lparr>RspBuf := b\<rparr>) h)"
    using so b s1 c by (intro tookI [OF ok]) (simp_all add: conn_ok_def ses_inv_def session_ok_def flow_of_def quiet_ses_def)
  ultimately show ?thesis by simp
qed

text \<open>A request that follows a complete exchange: the exchange is parsed and written first.\<close>

definition completes :: "csession \<Rightarrow> bool" where
  "completes s \<longleftrightarrow> contents (ReqBuf s) \<noteq> [] \<and> contents (RspBuf s) \<noteq> []"

lemma take_request_spec:
  assumes ok: "handle_ok h" and a: "a < next_addr (sesHash h)"
    and c: "conn_ok (env_boost env) True (session_at h a)"
    and pl: "payload p d" and rm: "room p (ReqBuf (session_at h a))"
    and al: "\<And>k. al_ok (env_al env) k"
  shows "\<exists>h'. take_request env p a h = Inr (True, h')
    \<and> written h' = written h
        @ (if completes (session_at h a) then parse_text (env_boost env) (session_at h a) else [])
    \<and> took (\<not> completes (session_at h a)) a h ((if completes (session_at h a) then [] else contents (ReqBuf (session_at h a))) @ d)
        (if completes (session_at h a) then [] else contents (RspBuf (session_at h a))) h'"
proof -
  let ?s = "session_at h a"
  have so: "session_ok ?s" "buf_ok (ReqBuf ?s)" "buf_ok (RspBuf ?s)"
    "terminated (ReqBuf ?s)" "terminated (RspBuf ?s)"
    using c by (auto simp: conn_ok_def session_ok_def ses_inv_def)
  have guard: "0 < CBuffer_GetBufLen (ReqBuf ?s) \<and> 0 < CBuffer_GetBufLen (RspBuf ?s) \<longleftrightarrow> completes ?s"
    using so by (simp add: completes_def contents_empty_iff word_greater_zero_iff)
  let ?req = "if completes ?s then [] else contents (ReqBuf ?s)"
  let ?rsp = "if completes ?s then [] else contents (RspBuf ?s)"
  let ?txt = "if completes ?s then parse_text (env_boost env) ?s else []"
  obtain h1 where h1: "(if completes ?s then parse_session env a h else Inr h) = Inr h1"
      "written h1 = written h @ ?txt" "took (\<not> completes ?s) a h ?req ?rsp h1" "room p (ReqBuf (session_at h1 a))"
  proof (cases "completes ?s")
    case False
    have "took (\<not> completes ?s) a h ?req ?rsp h"
      using False ok so unfolding took_def by simp
    with False rm show ?thesis by (intro that [of h]) simp_all
  next
    case True
    then have r: "parse_ready (env_boost env) ?s" "unat (buf_len (ReqBuf ?s)) \<le> 4096"
        "unat (buf_len (RspBuf ?s)) \<le> 4096"
      using c by (auto simp: conn_ok_def completes_def)
    obtain s' where s': "CHttpParse_Parse (env_boost env) (env_al env) ?s
        = Inr (s', parse_text (env_boost env) ?s)" "cleared ?s s'"
      using Parse_ready [OF so(1) al r(1)] by blast
    note fr = cleared_frame [OF s'(2)]
    note tm = Parse_keeps_terminated [OF s'(1) so(1) r(2,3) so(4,5)]
    have "buf_len (ReqBuf s') = 0"
      using fr(4,5) contents_empty_iff [of "ReqBuf s'"]
      by (simp add: session_ok_def CBuffer_GetBufLen_def)
    then have "room p (ReqBuf s')" using rm by (simp add: room_def)
    moreover have "took False a h [] [] (set_session a s' h)"
      using fr tm by (intro tookI [OF ok]) simp_all
    ultimately show ?thesis
      using True s' by (intro that [of "(set_session a s' h)\<lparr>written := written h @ ?txt\<rparr>"])
        (simp_all add: parse_session_def took_def)
  qed
  let ?s1 = "session_at h1 a"
  note t1 = h1(3) [unfolded took_def]
  have "a < next_addr (sesHash h1)" using a t1 by (simp add: only_session_def)
  then have so1: "buf_ok (ReqBuf ?s1)" "buf_ok (RspBuf ?s1)" "blank (Result ?s1)"
    using t1 by (simp_all add: handle_ok_def session_ok_def ses_inv_def)
  obtain b where b: "CBuffer_Append (env_al env) (ReqBuf ?s1) (GetData p) (scast (GetDataLen p))
      = Inr (True, b)" "buf_ok b" "terminated b" "contents b = contents (ReqBuf ?s1) @ d"
      "tail_quiet (ReqBuf ?s1) \<longrightarrow> tail_quiet b"
    using append_payload [OF so1(1) _ pl h1(4) al] t1 by blast
  define s2 where "s2 = (if CBuffer_GetBufLen (ReqBuf ?s1) = 0 \<and> RequestTimeStamp (Result ?s1) = 0
      then ?s1\<lparr>Result := (Result ?s1)\<lparr>RequestTimeStamp := packet_stamp p\<rparr>\<rparr> else ?s1)"
  have s2: "RspBuf s2 = RspBuf ?s1" "ReqBuf s2 = ReqBuf ?s1" "flow_of s2 = flow_of ?s1"
    "SeqNo s2 = SeqNo ?s1" "blank (Result s2) = blank (Result ?s1)"
    by (simp_all add: s2_def flow_of_def)
  let ?h2 = "set_session a (s2\<lparr>ReqBuf := b\<rparr>) h1"
  have "take_request env p a h = Inr (True, ?h2)"
    unfolding take_request_def guard h1(1) bindR.simps Let_def s2_def [symmetric] s2 by (simp add: b)
  moreover have "took True a h1 (?req @ d) ?rsp ?h2"
    using so1 b s2 t1 by (intro tookI) (simp_all add: ses_inv_def session_ok_def flow_of_def quiet_ses_def)
  from took_trans [OF h1(3) this] have "took (\<not> completes ?s) a h (?req @ d) ?rsp ?h2" by simp
  ultimately show ?thesis using h1(2) by simp
qed

lemma report_session_ok:
  "terminated (ReqBuf (session_at h a)) \<Longrightarrow> terminated (RspBuf (session_at h a)) \<Longrightarrow>
   report_session a h = Inr (Some a, h)"
  using terminated_prints [of "ReqBuf (session_at h a)"] terminated_prints [of "RspBuf (session_at h a)"]
  by (auto simp: report_session_def CBuffer_GetBuf_def)

text \<open>Parsing does not look at the sequence numbers or the times of a session.\<close>

lemma seq_irrelevant:
  "conn_ok bst ts (s\<lparr>SeqNo := q, AckSeqNo := k\<rparr>) = conn_ok bst ts s"
  "parse_text bst (s\<lparr>SeqNo := q, AckSeqNo := k\<rparr>) = parse_text bst s"
  "completes (s\<lparr>SeqNo := q, AckSeqNo := k\<rparr>) = completes s"
  "conn_ok bst ts (s\<lparr>RefreshTime := t\<rparr>) = conn_ok bst ts s"
  "parse_text bst (s\<lparr>RefreshTime := t\<rparr>) = parse_text bst s"
  "completes (s\<lparr>RefreshTime := t\<rparr>) = completes s"
  "quiet_ses (s\<lparr>SeqNo := q, AckSeqNo := k\<rparr>) = quiet_ses s"
  "quiet_ses (s\<lparr>RefreshTime := t\<rparr>) = quiet_ses s"
  by (simp_all add: quiet_ses_def conn_ok_def session_ok_def ses_inv_def parse_ready_def parse_text_def emitted_def
      record_text_def completes_def split: option.split sum.split)

definition match_of :: "bool \<Rightarrow> u32" where
  "match_of to_server = (if to_server then C2S_MATCH else S2C_MATCH)"

text \<open>Whether the handler takes the payload of a segment.\<close>

definition takes :: "segment \<Rightarrow> csession \<Rightarrow> bool" where
  "takes s t \<longleftrightarrow> SeqNo t \<noteq> sg_seq s \<and> sg_data s \<noteq> []"

definition step_text :: "boost \<Rightarrow> bool \<Rightarrow> segment \<Rightarrow> csession \<Rightarrow> file_output list" where
  "step_text bst to_server s t =
     (if takes s t \<and> to_server \<and> completes t then parse_text bst t else [])"

lemma process_session_data:
  assumes ok: "handle_ok h" and a: "a < next_addr (sesHash h)"
    and c: "conn_ok (env_boost env) to_server (session_at h a)"
    and p: "shows_segment p s" "\<not> sg_fin s" "\<not> sg_rst s" "length (sg_data s) < 2 ^ 15"
    and rm: "room p (ReqBuf (session_at h a))" "room p (RspBuf (session_at h a))"
    and al: "\<And>k. al_ok (env_al env) k"
    and way: "m_nIdtMatchWay info = match_of to_server"
  shows "\<exists>h'. process_session env p info f sesp a h
        = Inr (if takes s (session_at h a) then Some a else sesp, h')
    \<and> handle_ok h' \<and> only_session a h h'
    \<and> conn_of (session_at h' a) = spec_step to_server s (conn_of (session_at h a))
    \<and> terminated (ReqBuf (session_at h' a)) \<and> terminated (RspBuf (session_at h' a))
    \<and> (\<not> (to_server \<and> completes (session_at h a)) \<and> quiet_ses (session_at h a)
         \<longrightarrow> quiet_ses (session_at h' a))
    \<and> written h' = written h @ step_text (env_boost env) to_server s (session_at h a)"
proof -
  let ?t = "session_at h a"
  have sh: "tcp_field p tcphdr_fin = Inr False" "tcp_field p tcphdr_rst = Inr False"
    "host32 (tcp_field p tcphdr_seq) = Inr (sg_seq s)"
    "host32 (tcp_field p tcphdr_ack_seq) = Inr (sg_ack s)"
    "unat (GetDataLen p) = length (sg_data s)"
    using p by (auto simp: shows_segment_def)
  have pl: "payload p (sg_data s)" using p by (simp add: payload_def shows_segment_def)
  have zero: "GetDataLen p = 0 \<longleftrightarrow> sg_data s = []" using sh(5) by (metis length_0_conv unat_eq_0)
  have tm: "terminated (ReqBuf ?t)" "terminated (RspBuf ?t)" and so: "ses_inv ?t"
    using c by (auto simp: conn_ok_def)
  show ?thesis
  proof (cases "takes s ?t")
    case False
    then have "process_session env p info f sesp a h = Inr (sesp, h)"
      using sh zero by (auto simp: process_session_def takes_def)
    with False ok tm show ?thesis
      by (intro exI [of _ h]) (auto simp: step_text_def spec_step_def conn_of_def takes_def)
  next
    case True
    let ?t1 = "?t\<lparr>SeqNo := sg_seq s, AckSeqNo := sg_ack s\<rparr>"
    let ?h1 = "set_session a ?t1 h"
    have fl: "flow_of ?t1 = flow_of ?t" by (simp add: flow_of_def)
    have so1: "ses_inv ?t1" using so by (simp add: session_ok_def ses_inv_def)
    note ok1 = set_session_ok [OF ok so1 fl] and only1 = only_session_set [OF ok fl]
    have c1: "conn_ok (env_boost env) to_server (session_at ?h1 a)" using c by (simp add: seq_irrelevant)
    have a1: "a < next_addr (sesHash ?h1)" using a by simp
    have neq: "SeqNo ?t \<noteq> sg_seq s" "sg_data s \<noteq> []" using True by (simp_all add: takes_def)
    define br where "br = (if to_server then take_request env p a ?h1 else take_response env p a ?h1)"
    have run: "process_session env p info f sesp a h
      = bindR br (\<lambda>(ok, h). if \<not> ok then Inr (sesp, h) else report_session a h)"
      using sh neq zero way
      by (simp add: process_session_def br_def match_of_def match_ways Let_def cong: if_cong)
    obtain h2 req rsp where h2: "br = Inr (True, h2)" "took (\<not> (to_server \<and> completes ?t)) a ?h1 req rsp h2"
        "written h2 = written h @ step_text (env_boost env) to_server s ?t"
        "\<lparr>cn_ends = flow_of ?t, cn_seq = sg_seq s, cn_req = req, cn_rsp = rsp\<rparr> = spec_step to_server s (conn_of ?t)"
    proof (cases to_server)
      case ts: True
      have "conn_ok (env_boost env) True (session_at ?h1 a)" using c1 ts by simp
      from take_request_spec [OF ok1 a1 this pl _ al] show ?thesis
        using rm neq ts True
        by (fastforce intro: that simp: br_def step_text_def spec_step_def conn_of_def
            seq_irrelevant completes_def)
    next
      case ts: False
      have "conn_ok (env_boost env) False (session_at ?h1 a)" using c1 ts by simp
      from take_response_spec [OF ok1 this pl _ al] show ?thesis
        using rm neq ts
        by (fastforce intro: that simp: br_def step_text_def spec_step_def conn_of_def)
    qed
    note t2 = h2(2) [unfolded took_def]
    have "process_session env p info f sesp a h = Inr (Some a, h2)"
      unfolding run h2(1) using t2 by (simp add: report_session_ok)
    moreover have "conn_of (session_at h2 a) = spec_step to_server s (conn_of ?t)"
      using t2 h2(4) fl by (simp add: conn_of_def)
    moreover have "only_session a h h2" using t2 only1 only_session_trans by blast
    ultimately show ?thesis using True t2 h2(3) by (auto simp: seq_irrelevant)
  qed
qed

section \<open>The handler on frames\<close>

definition seg_flow :: "segment \<Rightarrow> flow" where
  "seg_flow s = (sg_src_ip s, sg_dst_ip s, sg_src_port s, sg_dst_port s)"

lemma packet_flow_shows: "shows_segment p s \<Longrightarrow> packet_flow p = Inr (seg_flow s)"
  by (simp add: packet_flow_def shows_segment_def seg_flow_def)

text \<open>The map from flows to connections that a handler stands for.\<close>

definition conns :: "chandle \<Rightarrow> flow \<Rightarrow> conn option" where
  "conns h f = map_option conn_of (session_of h f)"

definition new_conn :: "call_env \<Rightarrow> behavior_info \<Rightarrow> flow \<Rightarrow> conn" where
  "new_conn env info f = \<lparr>cn_ends = ends_of info f, cn_seq = SeqNo (env_raw env), cn_req = [], cn_rsp = []\<rparr>"

text \<open>
  An environment in which memory does not run out, fresh blocks end in NUL and hold no line feed,
  and the ageing of the table is not due.
\<close>

definition calm :: "call_env \<Rightarrow> chandle \<Rightarrow> bool" where
  "calm env h \<longleftrightarrow> (\<forall>k. al_ok (env_al env) k) \<and> al_junk (env_al env) 2047 = NUL
     \<and> (\<forall>i. al_junk (env_al env) i \<noteq> LF) \<and> t_check env - lastTimeOutCheck h < 120"

definition has_room :: "csession \<Rightarrow> bool" where
  "has_room s \<longleftrightarrow> unat (buf_len (ReqBuf s)) < 2 ^ 31 \<and> unat (buf_len (RspBuf s)) < 2 ^ 31"

text \<open>The session of a flow, if there is one, is in order.\<close>

definition flow_ok :: "call_env \<Rightarrow> bool \<Rightarrow> chandle \<Rightarrow> flow \<Rightarrow> bool" where
  "flow_ok env to_server h f \<longleftrightarrow>
     (case session_of h f of None \<Rightarrow> True | Some s \<Rightarrow> conn_ok (env_boost env) to_server s \<and> has_room s)"

text \<open>Printing the session of a flow stays inside its buffers; nothing lurks behind their contents.\<close>

definition flow_printable :: "chandle \<Rightarrow> flow \<Rightarrow> bool" where
  "flow_printable h f \<longleftrightarrow> (case session_of h f of None \<Rightarrow> True
     | Some s \<Rightarrow> terminated (ReqBuf s) \<and> terminated (RspBuf s))"

definition flow_quiet :: "chandle \<Rightarrow> flow \<Rightarrow> bool" where
  "flow_quiet h f \<longleftrightarrow> (case session_of h f of None \<Rightarrow> True | Some s \<Rightarrow> quiet_ses s)"

lemma fresh_quiet:
  "(\<And>i. al_junk al i \<noteq> LF) \<Longrightarrow> buf_mem b = Some (fresh_block al) \<Longrightarrow> tail_quiet b"
  by (fastforce simp: tail_quiet_def fresh_block_def dest: in_set_dropD)

lemma fresh_terminated:
  "al_junk al 2047 = NUL \<Longrightarrow> buf_mem b = Some (fresh_block al) \<Longrightarrow> terminated b"
  by (simp add: terminated_def fresh_block_def last_map)

text \<open>
  Finding or creating ends with a session in order; \<open>s0\<close> is the session of the flow before the
  packet, or a new one.
\<close>

lemma find_or_create_ok:
  assumes ok: "handle_ok h" and f: "packet_flow p = Inr f" and calm: "calm env h"
    and fo: "flow_ok env ts h f"
  shows "\<exists>a h' s0. find_or_create env p info f h = Inr (a, h') \<and> handle_ok h'
    \<and> a < next_addr (sesHash h') \<and> look_flow (sesHash h') f = Some a
    \<and> conn_ok (env_boost env) ts (session_at h' a) \<and> has_room (session_at h' a)
    \<and> conn_of (session_at h' a) = (case conns h f of None \<Rightarrow> new_conn env info f | Some c \<Rightarrow> c)
    \<and> (\<forall>g. \<not> same_flow g f \<longrightarrow> conns h' g = conns h g)
    \<and> (flow_quiet h f \<longrightarrow> quiet_ses (session_at h' a))
    \<and> next_addr (sesHash h) \<le> next_addr (sesHash h')
    \<and> lastTimeOutCheck h' = lastTimeOutCheck h \<and> written h' = written h
    \<and> s0 = session_at h' a \<and> completes s0 = (case session_of h f of None \<Rightarrow> False | Some s \<Rightarrow> completes s)
    \<and> (\<forall>s. session_of h f = Some s \<longrightarrow> parse_text (env_boost env) s0 = parse_text (env_boost env) s)"
proof (cases "look_flow (sesHash h) f")
  case (Some a)
  obtain h' where h': "find_or_create env p info f h = Inr (a, h')" "handle_ok h'"
    "look_flow (sesHash h') = look_flow (sesHash h)" "next_addr (sesHash h') = next_addr (sesHash h)"
    "session_at h' = (session_at h)(a := (session_at h a)\<lparr>RefreshTime := t_find env mod 2 ^ 32\<rparr>)"
    "lastTimeOutCheck h' = lastTimeOutCheck h" "written h' = written h"
    using find_or_create_found [OF ok Some, of env p info] by blast
  have t: "table_ok (sesHash h)" using ok by (simp add: handle_ok_def)
  have so: "session_of h f = Some (session_at h a)" using Some by (simp add: session_of_def)
  have other: "conns h' g = conns h g" if "\<not> same_flow g f" for g
  proof -
    have "look_flow (sesHash h) g \<noteq> Some a"
      using that sestab.distinct_keys [OF t _ Some] by blast
    then show ?thesis
      by (cases "look_flow (sesHash h) g") (auto simp: conns_def session_of_def h')
  qed
  have "a < next_addr (sesHash h')" using look_flow_bound [OF t Some] h'(4) by simp
  with h' fo so other Some show ?thesis
    by (intro exI [of _ a] exI [of _ h'] exI [of _ "session_at h' a"])
       (simp add: flow_ok_def flow_quiet_def seq_irrelevant has_room_def conns_def conn_of_def flow_of_def)
next
  case None
  have al: "al_ok (env_al env) 2048" and j: "al_junk (env_al env) 2047 = NUL"
    using calm by (auto simp: calm_def)
  let ?n = "next_addr (sesHash h)"
  obtain h' s where h': "find_or_create env p info f h = Inr (?n, h')" "handle_ok h'"
    "look_flow (sesHash h') = (\<lambda>g. if same_flow g f then Some ?n else look_flow (sesHash h) g)"
    "session_at h' = (session_at h)(?n := s)" "next_addr (sesHash h') = ?n + 1"
    "session_ok s" "SeqNo s = SeqNo (env_raw env)" "contents (ReqBuf s) = []"
    "contents (RspBuf s) = []" "Result s = CResult_Reset" "buf_mem (ReqBuf s) = Some (fresh_block (env_al env))"
    "buf_mem (RspBuf s) = Some (fresh_block (env_al env))" "flow_of s = ends_of info f"
    "lastTimeOutCheck h' = lastTimeOutCheck h" "written h' = written h"
    using find_or_create_new [OF ok None f al, of info] by blast
  have t: "table_ok (sesHash h)" using ok by (simp add: handle_ok_def)
  have so: "session_of h f = None" using None by (simp add: session_of_def)
  have other: "conns h' g = conns h g" if "\<not> same_flow g f" for g
    using that look_flow_bound [OF t, of g]
    by (cases "look_flow (sesHash h) g") (auto simp: conns_def session_of_def h')
  have len: "buf_len (ReqBuf s) = 0" "buf_len (RspBuf s) = 0"
    using h'(6,8,9) contents_empty_iff [of "ReqBuf s"] contents_empty_iff [of "RspBuf s"]
    by (simp_all add: session_ok_def CBuffer_GetBufLen_def)
  have "conn_ok (env_boost env) ts s"
    using h' fresh_terminated [OF j] by (simp add: conn_ok_def ses_inv_def)
  moreover have "quiet_ses s"
    using calm h' fresh_quiet [of "env_al env"] by (auto simp: quiet_ses_def calm_def)
  ultimately show ?thesis
    using h' so other len
    by (intro exI [of _ ?n] exI [of _ h'] exI [of _ s])
       (simp add: has_room_def conns_def conn_of_def new_conn_def completes_def)
qed

text \<open>The caller's pointer points to a session object.\<close>

definition ptr_ok :: "nat option \<Rightarrow> chandle \<Rightarrow> bool" where
  "ptr_ok sesp h \<longleftrightarrow> (\<exists>a < next_addr (sesHash h). sesp = Some a)"

text \<open>The connection a packet of the flow meets.\<close>

definition met_conn :: "call_env \<Rightarrow> behavior_info \<Rightarrow> chandle \<Rightarrow> flow \<Rightarrow> conn" where
  "met_conn env info h f = (case conns h f of None \<Rightarrow> new_conn env info f | Some c \<Rightarrow> c)"

definition flow_text :: "call_env \<Rightarrow> bool \<Rightarrow> segment \<Rightarrow> chandle \<Rightarrow> file_output list" where
  "flow_text env to_server s h =
     (case session_of h (seg_flow s) of None \<Rightarrow> []
      | Some t \<Rightarrow> step_text (env_boost env) to_server s t)"

lemma session_of_conn:
  "session_of h f = Some t \<Longrightarrow> conns h f = Some (conn_of t)"
  "session_of h f = None \<Longrightarrow> conns h f = None"
  by (simp_all add: conns_def)

lemma only_session_conns:
  assumes "handle_ok h" and "look_flow (sesHash h) f = Some a" and "only_session a h h'"
  shows "conns h' g = (if same_flow g f then Some (conn_of (session_at h' a)) else conns h g)"
proof -
  have t: "table_ok (sesHash h)" using assms(1) by (simp add: handle_ok_def)
  have lk: "look_flow (sesHash h') = look_flow (sesHash h)" using assms(3) by (simp add: only_session_def)
  show ?thesis
  proof (cases "same_flow g f")
    case True
    then have "look_flow (sesHash h) g = Some a" using sestab.look_same [OF True] assms(2) by simp
    with True lk show ?thesis by (simp add: conns_def session_of_def)
  next
    case False
    then have "look_flow (sesHash h) g \<noteq> Some a"
      using sestab.distinct_keys [OF t _ assms(2)] by blast
    then show ?thesis
      using False assms(3) lk
      by (cases "look_flow (sesHash h) g") (auto simp: conns_def session_of_def only_session_def)
  qed
qed

definition flow_completes :: "chandle \<Rightarrow> flow \<Rightarrow> bool" where
  "flow_completes h f \<longleftrightarrow> (case session_of h f of None \<Rightarrow> False | Some s \<Rightarrow> completes s)"

lemma Process_data:
  assumes ok: "handle_ok h" and calm: "calm env h" and fo: "flow_ok env to_server h (seg_flow s)"
    and p: "shows_segment p s" "\<not> sg_fin s" "\<not> sg_rst s" "length (sg_data s) < 2 ^ 15"
    and len: "length (m_pPkt p) < 2 ^ 31" and way: "m_nIdtMatchWay info = match_of to_server"
  shows "\<exists>sesp' h'. CHandle_Process env p (Some info) sesp h = Inr (sesp', h') \<and> handle_ok h'
    \<and> (\<forall>f. conns h' f = (if same_flow f (seg_flow s)
          then Some (spec_step to_server s (met_conn env info h (seg_flow s))) else conns h f))
    \<and> flow_printable h' (seg_flow s)
    \<and> (flow_quiet h (seg_flow s) \<and> \<not> (to_server \<and> flow_completes h (seg_flow s))
         \<longrightarrow> flow_quiet h' (seg_flow s))
    \<and> lastTimeOutCheck h' = lastTimeOutCheck h \<and> (ptr_ok sesp h \<longrightarrow> ptr_ok sesp' h')
    \<and> written h' = written h @ flow_text env to_server s h"
proof -
  let ?f = "seg_flow s"
  have f: "packet_flow p = Inr ?f" using packet_flow_shows [OF p(1)] .
  obtain a h1 s0 where h1: "find_or_create env p info ?f h = Inr (a, h1)" "handle_ok h1"
    "a < next_addr (sesHash h1)" "look_flow (sesHash h1) ?f = Some a"
    "conn_ok (env_boost env) to_server (session_at h1 a)" "has_room (session_at h1 a)"
    "conn_of (session_at h1 a) = met_conn env info h ?f"
    "\<forall>g. \<not> same_flow g ?f \<longrightarrow> conns h1 g = conns h g"
    "flow_quiet h ?f \<longrightarrow> quiet_ses (session_at h1 a)"
    "next_addr (sesHash h) \<le> next_addr (sesHash h1)"
    "lastTimeOutCheck h1 = lastTimeOutCheck h" "written h1 = written h" "s0 = session_at h1 a"
    "completes s0 = flow_completes h ?f"
    "\<forall>s. session_of h ?f = Some s \<longrightarrow> parse_text (env_boost env) s0 = parse_text (env_boost env) s"
    using find_or_create_ok [OF ok f calm fo, of info] unfolding met_conn_def flow_completes_def by blast
  have rm: "room p (ReqBuf (session_at h1 a))" "room p (RspBuf (session_at h1 a))"
    using h1(6) len by (auto simp: has_room_def room_def)
  have al: "\<And>k. al_ok (env_al env) k" using calm by (simp add: calm_def)
  define sesp' where "sesp' = (if takes s (session_at h1 a) then Some a else sesp)"
  then have ptr: "sesp' = sesp \<or> sesp' = Some a" by simp
  obtain h' where h': "process_session env p info ?f sesp a h1 = Inr (sesp', h')"
    "handle_ok h'" "only_session a h1 h'"
    "conn_of (session_at h' a) = spec_step to_server s (conn_of (session_at h1 a))"
    "terminated (ReqBuf (session_at h' a))" "terminated (RspBuf (session_at h' a))"
    "\<not> (to_server \<and> completes (session_at h1 a)) \<and> quiet_ses (session_at h1 a)
      \<longrightarrow> quiet_ses (session_at h' a)"
    "written h' = written h1 @ step_text (env_boost env) to_server s (session_at h1 a)"
    using process_session_data [OF h1(2,3,5) p rm al way, where sesp = sesp] unfolding sesp'_def by blast
  have run: "CHandle_Process env p (Some info) sesp h = Inr (sesp', h')"
    using TimeOutCheck_not_due [of env h] calm
    by (simp add: CHandle_Process_def calm_def f h1(1) h'(1))
  have so: "session_of h' ?f = Some (session_at h' a)"
    using h'(3) h1(4) by (simp add: session_of_def only_session_def)
  have "step_text (env_boost env) to_server s (session_at h1 a) = flow_text env to_server s h"
  proof (cases "session_of h ?f")
    case None
    then show ?thesis using h1(13,14) by (simp add: flow_text_def step_text_def flow_completes_def)
  next
    case (Some t)
    then have "SeqNo (session_at h1 a) = SeqNo t"
      using h1(7) by (simp add: met_conn_def session_of_conn conn_of_def)
    with Some h1(13-15) show ?thesis
      by (simp add: flow_text_def step_text_def takes_def flow_completes_def)
  qed
  moreover have "conns h' g = (if same_flow g ?f
      then Some (spec_step to_server s (met_conn env info h ?f)) else conns h g)" for g
    using only_session_conns [OF h1(2,4) h'(3), of g] h'(4) h1(7) h1(8) [rule_format, of g] by auto
  moreover have "lastTimeOutCheck h' = lastTimeOutCheck h"
    using h'(3) h1(11) by (simp add: only_session_def)
  moreover have "flow_printable h' ?f" using h'(5,6) so by (simp add: flow_printable_def)
  moreover have "flow_quiet h ?f \<and> \<not> (to_server \<and> flow_completes h ?f) \<longrightarrow> flow_quiet h' ?f"
    using h'(7) h1(9,13,14) so by (simp add: flow_quiet_def [of h'])
  moreover have "ptr_ok sesp h \<longrightarrow> ptr_ok sesp' h'"
    using ptr h1(3,10) h'(3) by (auto simp: ptr_ok_def only_session_def)
  ultimately show ?thesis using run h'(2,8) h1(12) by auto
qed

section \<open>The end of a session\<close>

lemma parse_ready_irrelevant:
  "parse_ready bst (s\<lparr>RefreshTime := t\<rparr>) = parse_ready bst s"
  by (simp add: parse_ready_def)

lemma fresh_parse_ready:
  assumes "session_ok s" and "al_junk al 0 \<noteq> LF"
    and "buf_mem (ReqBuf s) = Some (fresh_block al)" "buf_mem (RspBuf s) = Some (fresh_block al)"
    and "contents (ReqBuf s) = []" "contents (RspBuf s) = []"
  shows "parse_ready bst s" and "parse_text bst s = []"
proof -
  have "buf_len (ReqBuf s) = 0" "buf_len (RspBuf s) = 0"
    using assms contents_empty_iff [of "ReqBuf s"] contents_empty_iff [of "RspBuf s"]
    by (simp_all add: session_ok_def CBuffer_GetBufLen_def)
  then show "parse_ready bst s" "parse_text bst s = []"
    using assms
    by (simp_all add: parse_ready_def parse_text_def quiet_buf_def quiet_end_def spec_decode_def
        fresh_block_def)
qed

lemma remove_conns:
  assumes "handle_ok h"
  shows "handle_ok (h\<lparr>sesHash := remove_flow f (sesHash h)\<rparr>)"
    and "conns (h\<lparr>sesHash := remove_flow f (sesHash h)\<rparr>) g = (if same_flow g f then None else conns h g)"
proof -
  let ?h = "h\<lparr>sesHash := remove_flow f (sesHash h)\<rparr>"
  have sa: "session_at ?h = session_at h" by (simp add: fun_eq_iff session_at_def)
  show "handle_ok ?h" and "conns ?h g = (if same_flow g f then None else conns h g)"
    using assms sestab.inv_del [of "sesHash h" f] sestab.look_del [of "sesHash h" f g]
    by (simp_all add: handle_ok_def conns_def session_of_def sa)
qed

lemma process_session_over:
  assumes ok: "handle_ok h" and look: "look_flow (sesHash h) f = Some a"
    and p: "shows_segment p s" "sg_fin s \<or> sg_rst s"
    and ready: "parse_ready (env_boost env) (session_at h a)" and al: "al_ok (env_al env) 2048"
  shows "\<exists>h'. process_session env p info f sesp a h = Inr (sesp, h') \<and> handle_ok h'
    \<and> (\<forall>g. conns h' g = (if same_flow g f then None else conns h g))
    \<and> lastTimeOutCheck h' = lastTimeOutCheck h \<and> next_addr (sesHash h') = next_addr (sesHash h)
    \<and> written h' = written h @ parse_text (env_boost env) (session_at h a)"
proof -
  have t: "table_ok (sesHash h)" using ok by (simp add: handle_ok_def)
  have so: "session_ok (session_at h a)"
    using ok look_flow_bound [OF t look] by (simp add: handle_ok_def ses_inv_def)
  obtain s' where s': "CHttpParse_Parse (env_boost env) (env_al env) (session_at h a)
      = Inr (s', parse_text (env_boost env) (session_at h a))" "cleared (session_at h a) s'"
    using Parse_ready [OF so al ready] by blast
  note fr = cleared_frame [OF s'(2)]
  let ?h1 = "(set_session a s' h)\<lparr>written := written h @ parse_text (env_boost env) (session_at h a)\<rparr>"
  have ok1: "handle_ok ?h1" using set_session_ok [OF ok fr(8,1)] by simp
  have only: "only_session a h ?h1" using only_session_set [OF ok fr(1)] by simp
  have c1: "conns ?h1 g = conns h g" if "\<not> same_flow g f" for g
    using only_session_conns [OF ok look only, of g] that by simp
  have over: "tcp_field p tcphdr_fin = Inr (sg_fin s)" "tcp_field p tcphdr_rst = Inr (sg_rst s)"
    using p(1) by (auto simp: shows_segment_def)
  have "process_session env p info f sesp a h
      = Inr (sesp, ?h1\<lparr>sesHash := remove_flow f (sesHash ?h1)\<rparr>)"
    using over p(2) s'(1) by (auto simp: process_session_def parse_session_def)
  then show ?thesis
    using remove_conns [OF ok1, of f] c1
    by (intro exI [of _ "?h1\<lparr>sesHash := remove_flow f (sesHash ?h1)\<rparr>"]) simp
qed

lemma Process_over:
  assumes ok: "handle_ok h" and calm: "calm env h"
    and p: "shows_segment p s" "sg_fin s \<or> sg_rst s"
    and t: "session_of h (seg_flow s) = Some t" "parse_ready (env_boost env) t"
  shows "\<exists>h'. CHandle_Process env p (Some info) sesp h = Inr (sesp, h') \<and> handle_ok h'
    \<and> (\<forall>g. conns h' g = (if same_flow g (seg_flow s) then None else conns h g))
    \<and> lastTimeOutCheck h' = lastTimeOutCheck h \<and> next_addr (sesHash h') = next_addr (sesHash h)
    \<and> written h' = written h @ parse_text (env_boost env) t"
proof -
  let ?f = "seg_flow s"
  have f: "packet_flow p = Inr ?f" using packet_flow_shows [OF p(1)] .
  obtain a where a: "look_flow (sesHash h) ?f = Some a" "t = session_at h a"
    using t(1) by (auto simp: session_of_def)
  obtain h1 where h1: "find_or_create env p info ?f h = Inr (a, h1)" "handle_ok h1"
    "look_flow (sesHash h1) = look_flow (sesHash h)"
    "session_at h1 = (session_at h)(a := (session_at h a)\<lparr>RefreshTime := t_find env mod 2 ^ 32\<rparr>)"
    "next_addr (sesHash h1) = next_addr (sesHash h)"
    "lastTimeOutCheck h1 = lastTimeOutCheck h" "written h1 = written h"
    using find_or_create_found [OF ok a(1), of env p info] by blast
  have look1: "look_flow (sesHash h1) ?f = Some a" using h1(3) a(1) by simp
  have ready1: "parse_ready (env_boost env) (session_at h1 a)"
    using t(2) a(2) h1(4) by (simp add: parse_ready_irrelevant)
  have al: "al_ok (env_al env) 2048" using calm by (simp add: calm_def)
  obtain h' where h': "process_session env p info ?f sesp a h1 = Inr (sesp, h')" "handle_ok h'"
    "\<forall>g. conns h' g = (if same_flow g ?f then None else conns h1 g)"
    "lastTimeOutCheck h' = lastTimeOutCheck h1" "next_addr (sesHash h') = next_addr (sesHash h1)"
    "written h' = written h1 @ parse_text (env_boost env) (session_at h1 a)"
    using process_session_over [OF h1(2) look1 p ready1 al] by blast
  have only: "only_session a h h1" using h1 by (simp add: only_session_def)
  have "conns h1 g = conns h g" if "\<not> same_flow g ?f" for g
    using only_session_conns [OF ok a(1) only, of g] that by simp
  moreover have "CHandle_Process env p (Some info) sesp h = Inr (sesp, h')"
    using TimeOutCheck_not_due [of env h] calm
    by (simp add: CHandle_Process_def calm_def f h1(1) h'(1))
  ultimately show ?thesis using h' h1 a(2) by (auto simp: seq_irrelevant)
qed

text \<open>
  A closing segment of a flow that has no session: one is created, has nothing to write, and goes.
\<close>

lemma Process_over_new:
  assumes ok: "handle_ok h" and calm: "calm env h"
    and p: "shows_segment p s" "sg_fin s \<or> sg_rst s"
    and none: "session_of h (seg_flow s) = None"
  shows "\<exists>h'. CHandle_Process env p (Some info) sesp h = Inr (sesp, h') \<and> handle_ok h'
    \<and> (\<forall>g. conns h' g = conns h g) \<and> lastTimeOutCheck h' = lastTimeOutCheck h
    \<and> next_addr (sesHash h) \<le> next_addr (sesHash h') \<and> written h' = written h"
proof -
  let ?f = "seg_flow s" and ?n = "next_addr (sesHash h)"
  have f: "packet_flow p = Inr ?f" using packet_flow_shows [OF p(1)] .
  have al: "al_ok (env_al env) 2048" using calm by (simp add: calm_def)
  have look: "look_flow (sesHash h) ?f = None" using none by (simp add: session_of_def)
  have t: "table_ok (sesHash h)" using ok by (simp add: handle_ok_def)
  obtain h1 t where h1: "find_or_create env p info ?f h = Inr (?n, h1)" "handle_ok h1"
    "look_flow (sesHash h1) = (\<lambda>g. if same_flow g ?f then Some ?n else look_flow (sesHash h) g)"
    "session_at h1 = (session_at h)(?n := t)" "session_ok t" "contents (ReqBuf t) = []"
    "contents (RspBuf t) = []" "buf_mem (ReqBuf t) = Some (fresh_block (env_al env))"
    "buf_mem (RspBuf t) = Some (fresh_block (env_al env))"
    "lastTimeOutCheck h1 = lastTimeOutCheck h" "written h1 = written h"
    "next_addr (sesHash h1) = ?n + 1"
    using find_or_create_new [OF ok look f al, of info] by blast
  have look1: "look_flow (sesHash h1) ?f = Some ?n" using h1(3) sestab.same_refl by simp
  have j: "al_junk (env_al env) 0 \<noteq> LF" using calm by (simp add: calm_def)
  note fresh = fresh_parse_ready [OF h1(5) j h1(8,9,6,7), of "env_boost env"]
  have at1: "session_at h1 ?n = t" using h1(4) by simp
  obtain h' where h': "process_session env p info ?f sesp ?n h1 = Inr (sesp, h')" "handle_ok h'"
    "\<forall>g. conns h' g = (if same_flow g ?f then None else conns h1 g)"
    "lastTimeOutCheck h' = lastTimeOutCheck h1" "written h' = written h1 @ parse_text (env_boost env) t"
    "next_addr (sesHash h') = next_addr (sesHash h1)"
    using process_session_over [OF h1(2) look1 p _ al, of info sesp] fresh(1) unfolding at1 by blast
  have "conns h' g = conns h g" for g
  proof (cases "same_flow g ?f")
    case True
    then have "conns h g = None"
      using sestab.look_same [OF True, of "sesHash h"] look by (simp add: conns_def session_of_def)
    then show ?thesis using h'(3) True by metis
  next
    case False
    then have "conns h1 g = conns h g"
      using look_flow_bound [OF t, of g] h1(3,4)
      by (cases "look_flow (sesHash h) g") (auto simp: conns_def session_of_def)
    then show ?thesis using h'(3) False by metis
  qed
  moreover have "CHandle_Process env p (Some info) sesp h = Inr (sesp, h')"
    using TimeOutCheck_not_due [of env h] calm
    by (simp add: CHandle_Process_def calm_def f h1(1) h'(1))
  ultimately show ?thesis using h'(2,4-6) h1(10-12) fresh(2) by (intro exI [of _ h']) simp
qed

section \<open>A negative payload length\<close>

text \<open>
  The total length field of the IP header is not checked against the header lengths. When it is
  smaller, the payload length is negative; it is not zero, so it goes to \<open>Append\<close> as a huge
  number and the copy leaves its blocks.
\<close>

lemma negative_size:
  assumes "2 ^ 15 \<le> unat w"
  shows "(scast (w :: u16) :: u64) = - of_nat (2 ^ 16 - unat w)"
proof -
  have lt: "unat w < 2 ^ 16" using unsigned_less [of w, where 'a = nat] by simp
  have num: "s = u - 65536" if "u = s mod 65536" "- 32768 \<le> s" "s < 32768" "32768 \<le> u" for s u :: int
  proof -
    have "s < 0" using that by (intro ccontr [of "s < 0"]) simp
    then have "(s + 65536) mod 65536 = s + 65536" using that(2) by (intro mod_pos_pos_trivial) auto
    then show ?thesis using that(1) by simp
  qed
  have "sint w = uint w - 65536"
  proof (rule num)
    show "uint w = sint w mod 65536" by (simp add: uint_sint take_bit_eq_mod)
    show "- 32768 \<le> sint w" "sint w < 32768" using sint_ge [of w] sint_less [of w] by simp_all
    have "int 32768 \<le> int (unat w)" unfolding of_nat_le_iff using assms by simp
    then show "32768 \<le> uint w" by simp
  qed
  then have "sint w = int (unat w) - 2 ^ 16" by simp
  then have "(of_int (sint w) :: u64) = of_int (- int (2 ^ 16 - unat w))"
    using lt by simp
  then show ?thesis by simp
qed

end
