(* ===== verification/HandleInvariant.thy ===== *)
theory HandleInvariant
  imports Reassembly
begin

text \<open>
  Whatever packet arrives: when \<open>CHandle::Process\<close> returns, the table is consistent, every session
  keeps its invariant, no session object disappears, and the caller's pointer points to one.
\<close>

section \<open>The invariant with room for a packet\<close>

definition roomy :: "nat \<Rightarrow> csession \<Rightarrow> bool" where
  "roomy n s \<longleftrightarrow> unat (buf_len (ReqBuf s)) + n < 2 ^ 32 \<and> unat (buf_len (RspBuf s)) + n < 2 ^ 32"

definition good :: "nat \<Rightarrow> chandle \<Rightarrow> bool" where
  "good n h \<longleftrightarrow> handle_ok h \<and> n < 2 ^ 32 \<and> (\<forall>a < next_addr (sesHash h). roomy n (session_at h a))"

lemma cleared_roomy: "cleared s s' \<Longrightarrow> n < 2 ^ 32 \<Longrightarrow> roomy n s'"
  using contents_empty_iff [of "ReqBuf s'"] contents_empty_iff [of "RspBuf s'"] cleared_frame(4-6) [of s s']
  by (simp add: roomy_def session_ok_def CBuffer_GetBufLen_def)

lemma good_set:
  assumes "good n h" and "ses_inv s" and "flow_of s = flow_of (session_at h a)" and "roomy n s"
  shows "good n (set_session a s h)"
  using assms set_session_ok [OF _ assms(2,3)] by (simp add: good_def)

lemma good_written [simp]: "good n (h\<lparr>written := w\<rparr>) = good n h"
  by (simp add: good_def)

lemma goodD:
  assumes "good n h"
  shows "handle_ok h" and "n < 2 ^ 32"
    and "a < next_addr (sesHash h) \<Longrightarrow> roomy n (session_at h a)"
    and "a < next_addr (sesHash h) \<Longrightarrow> ses_inv (session_at h a)"
  using assms by (auto simp: good_def handle_ok_def)

lemma parse_session_good:
  assumes run: "parse_session env a h = Inr h'" and g: "good n h" and a: "a < next_addr (sesHash h)"
    and al: "al_ok (env_al env) 2048"
  shows "good n h'" and "next_addr (sesHash h') = next_addr (sesHash h)"
    and "cseshash (sesHash h') = cseshash (sesHash h)"
proof -
  obtain s' out where s': "cleared (session_at h a) s'"
    "h' = (set_session a s' h)\<lparr>written := written h @ out\<rparr>"
    using parse_session_ok [OF run goodD(1) [OF g] a al] by blast
  note fr = cleared_frame [OF s'(1)]
  have "good n (set_session a s' h)"
    using good_set [OF g fr(8,1) cleared_roomy [OF s'(1) goodD(2) [OF g]]] .
  then show "good n h'" by (simp add: s'(2))
  show "next_addr (sesHash h') = next_addr (sesHash h)" "cseshash (sesHash h') = cseshash (sesHash h)"
    by (simp_all add: s'(2))
qed

lemma parse_if_good:
  assumes "(if b then parse_session env a h else Inr h) = Inr h'" and "good n h"
    and "a < next_addr (sesHash h)" and "al_ok (env_al env) 2048"
  shows "good n h'" and "next_addr (sesHash h') = next_addr (sesHash h)"
    and "cseshash (sesHash h') = cseshash (sesHash h)"
  using assms parse_session_good by (auto split: if_splits)

section \<open>Ageing\<close>

lemma good_bucket:
  assumes g: "good n h" and "set as \<subseteq> set (cseshash (sesHash h) i)" and "distinct as"
  shows "good n (set_bucket i as h)"
  using assms set_bucket_ok [OF goodD(1) [OF g]] by (simp add: good_def)

lemma age_bucket_good:
  assumes "age_bucket env now i kept rest h = Inr h'" and "good n h" and "al_ok (env_al env) 2048"
    and "cseshash (sesHash h) i = kept @ rest"
  shows "good n h' \<and> next_addr (sesHash h') = next_addr (sesHash h)"
  using assms
proof (induction rest arbitrary: kept h)
  case Nil
  then show ?case by simp
next
  case (Cons a rest)
  let ?due = "has_data (session_at h a) \<and> now - RefreshTime (session_at h a) > 60"
  obtain h1 where h1: "(if ?due then parse_session env a h else Inr h) = Inr h1"
    and run: "(if TIMEOUT \<le> now - RefreshTime (session_at h1 a)
        then age_bucket env now i kept rest (set_bucket i (kept @ rest) h1)
        else age_bucket env now i (kept @ [a]) rest h1) = Inr h'"
    using Cons.prems(1) by (auto simp only: age_bucket.simps res_simps)
  have ok: "handle_ok h" using goodD(1) [OF Cons.prems(2)] .
  then have a: "a < next_addr (sesHash h)"
    using table_okD(2) [of "sesHash h" a i] Cons.prems(4) by (simp add: handle_ok_def)
  have dist: "distinct (kept @ a # rest)"
    using table_okD(1) [of "sesHash h" i] ok Cons.prems(4) by (simp add: handle_ok_def)
  note g1 = parse_if_good [OF h1 Cons.prems(2) a Cons.prems(3)]
  show ?case
  proof (cases "TIMEOUT \<le> now - RefreshTime (session_at h1 a)")
    case True
    let ?h2 = "set_bucket i (kept @ rest) h1"
    have "good n ?h2" using dist Cons.prems(4) g1 by (intro good_bucket) auto
    moreover have "cseshash (sesHash ?h2) i = kept @ rest" by simp
    moreover have "age_bucket env now i kept rest ?h2 = Inr h'" using run True by simp
    ultimately show ?thesis using Cons.IH [of kept ?h2] Cons.prems(3) g1(2) by simp
  next
    case False
    then have "age_bucket env now i (kept @ [a]) rest h1 = Inr h'" using run by simp
    moreover have "cseshash (sesHash h1) i = (kept @ [a]) @ rest" using g1(3) Cons.prems(4) by simp
    ultimately show ?thesis using Cons.IH [of "kept @ [a]" h1] Cons.prems(3) g1(1,2) by simp
  qed
qed

lemma TimeOutCheck_good:
  assumes run: "CHandle_TimeOutCheck env h = Inr h'" and g: "good n h" and al: "al_ok (env_al env) 2048"
  shows "good n h' \<and> next_addr (sesHash h') = next_addr (sesHash h)"
proof (cases "t_check env - lastTimeOutCheck h < TIMEOUT_CHECK_DUR")
  case True
  then show ?thesis using run g by (simp add: CHandle_TimeOutCheck_def)
next
  case False
  let ?step = "\<lambda>i h. age_bucket env (t_check env) (of_nat i) [] (cseshash (sesHash h) (of_nat i)) h"
  let ?P = "\<lambda>k. good n k \<and> next_addr (sesHash k) = next_addr (sesHash h)"
  have "foldR ?step [0..<65535] h = Inr h'"
    using run unfolding CHandle_TimeOutCheck_def Let_def if_not_P [OF False] .
  then show ?thesis
  proof (rule foldR_invariant [where P = ?P, rotated 2])
    fix i k k' assume "?P k" and "?step i k = Inr k'"
    then show "?P k'" using age_bucket_good [of env "t_check env" "of_nat i" "[]" _ k k' n] al by simp
  qed (use g in simp)
qed

section \<open>Processing\<close>

lemma find_or_create_good:
  assumes run: "find_or_create env packet info f h = Inr (a, h')" and g: "good n h"
    and f: "packet_flow packet = Inr f" and al: "al_ok (env_al env) 2048"
  shows "good n h'" and "a < next_addr (sesHash h')"
    and "next_addr (sesHash h) \<le> next_addr (sesHash h')"
proof -
  note ok = goodD(1) [OF g] and n = goodD(2) [OF g]
  have t: "table_ok (sesHash h)" using ok by (simp add: handle_ok_def)
  have "good n h' \<and> a < next_addr (sesHash h') \<and> next_addr (sesHash h) \<le> next_addr (sesHash h')"
  proof (cases "look_flow (sesHash h) f")
    case (Some b)
    obtain h1 where h1: "find_or_create env packet info f h = Inr (b, h1)" "handle_ok h1"
      "next_addr (sesHash h1) = next_addr (sesHash h)"
      "session_at h1 = (session_at h)(b := (session_at h b)\<lparr>RefreshTime := t_find env mod 2 ^ 32\<rparr>)"
      using find_or_create_found [OF ok Some, of env packet info] by blast
    have "roomy n (session_at h1 c)" if "c < next_addr (sesHash h1)" for c
      using goodD(3) [OF g, of c] that h1(3,4) by (auto simp: roomy_def)
    with h1 run n look_flow_bound [OF t Some] show ?thesis by (simp add: good_def)
  next
    case None
    obtain h1 s where h1: "find_or_create env packet info f h = Inr (next_addr (sesHash h), h1)"
      "handle_ok h1" "session_at h1 = (session_at h)(next_addr (sesHash h) := s)"
      "next_addr (sesHash h1) = next_addr (sesHash h) + 1" "session_ok s"
      "contents (ReqBuf s) = []" "contents (RspBuf s) = []"
      using find_or_create_new [OF ok None f al, of info] by blast
    have "roomy n s"
      using h1(5-7) n contents_empty_iff [of "ReqBuf s"] contents_empty_iff [of "RspBuf s"]
      by (simp add: roomy_def session_ok_def CBuffer_GetBufLen_def)
    then have "roomy n (session_at h1 c)" if "c < next_addr (sesHash h1)" for c
      using goodD(3) [OF g, of c] that h1(3,4) by (cases "c = next_addr (sesHash h)") auto
    with h1 run n show ?thesis by (simp add: good_def)
  qed
  then show "good n h'" "a < next_addr (sesHash h')" "next_addr (sesHash h) \<le> next_addr (sesHash h')"
    by blast+
qed

text \<open>A packet view whose data pointer, if it has one, points into its own memory.\<close>

lemma GetData_cases: "GetData p = None \<or> (\<exists>off. GetData p = Some (m_pPkt p, off))"
  by (simp add: GetData_def split: option.split)

lemma append_keeps:
  assumes run: "CBuffer_Append al b (GetData p) sz = Inr (r, b')" and ok: "buf_ok b"
    and n: "unat (buf_len b) + length (m_pPkt p) < 2 ^ 32"
  shows "buf_ok b'"
proof -
  from GetData_cases [of p] show ?thesis
  proof (elim disjE exE)
    assume "GetData p = None"
    then show ?thesis using run ok by (simp add: CBuffer_Append_def)
  next
    fix off assume "GetData p = Some (m_pPkt p, off)"
    then show ?thesis using Append_outcome [OF ok n, of al off sz r b'] run ok by auto
  qed
qed

lemma take_request_good:
  assumes run: "take_request env p a h = Inr (r, h')" and g: "good (length (m_pPkt p)) h"
    and a: "a < next_addr (sesHash h)" and al: "al_ok (env_al env) 2048"
  shows "handle_ok h' \<and> next_addr (sesHash h') = next_addr (sesHash h)"
proof -
  let ?n = "length (m_pPkt p)"
  obtain h1 where h1: "(if 0 < CBuffer_GetBufLen (ReqBuf (session_at h a))
        \<and> 0 < CBuffer_GetBufLen (RspBuf (session_at h a)) then parse_session env a h else Inr h) = Inr h1"
    and run1: "(let s = session_at h1 a;
         s = (if CBuffer_GetBufLen (ReqBuf s) = 0 \<and> RequestTimeStamp (Result s) = 0
              then s\<lparr>Result := (Result s)\<lparr>RequestTimeStamp := packet_stamp p\<rparr>\<rparr> else s)
       in bindR (CBuffer_Append (env_al env) (ReqBuf s) (GetData p) (scast (GetDataLen p)))
          (\<lambda>(ok, b). Inr (ok, set_session a (s\<lparr>ReqBuf := b\<rparr>) h1))) = Inr (r, h')"
    using run unfolding take_request_def by (auto simp only: res_simps)
  note g1 = parse_if_good [OF h1 g a al]
  let ?s = "session_at h1 a"
  define s1 where "s1 = (if CBuffer_GetBufLen (ReqBuf ?s) = 0 \<and> RequestTimeStamp (Result ?s) = 0
      then ?s\<lparr>Result := (Result ?s)\<lparr>RequestTimeStamp := packet_stamp p\<rparr>\<rparr> else ?s)"
  have s1: "ReqBuf s1 = ReqBuf ?s" "RspBuf s1 = RspBuf ?s" "flow_of s1 = flow_of ?s"
      "blank (Result s1) = blank (Result ?s)"
    by (simp_all add: s1_def flow_of_def)
  have a1: "a < next_addr (sesHash h1)" using a g1(2) by simp
  note inv = goodD(3,4) [OF g1(1) a1]
  obtain b where b: "CBuffer_Append (env_al env) (ReqBuf s1) (GetData p) (scast (GetDataLen p)) = Inr (r, b)"
    and h': "h' = set_session a (s1\<lparr>ReqBuf := b\<rparr>) h1"
    using run1 unfolding Let_def s1_def [symmetric] by (auto simp: res_simps)
  have "buf_ok b"
    using append_keeps [OF b] inv s1 by (simp add: ses_inv_def session_ok_def roomy_def)
  then have "ses_inv (s1\<lparr>ReqBuf := b\<rparr>)"
    using inv s1 by (simp add: ses_inv_def session_ok_def)
  moreover have "flow_of (s1\<lparr>ReqBuf := b\<rparr>) = flow_of ?s" using s1(3) by (simp add: flow_of_def)
  ultimately have "handle_ok h'" unfolding h' using set_session_ok [OF goodD(1) [OF g1(1)]] by blast
  then show ?thesis using h' g1(2) by simp
qed

lemma take_response_good:
  assumes run: "take_response env p a h = Inr (r, h')" and g: "good (length (m_pPkt p)) h"
    and a: "a < next_addr (sesHash h)"
  shows "handle_ok h' \<and> next_addr (sesHash h') = next_addr (sesHash h)"
proof -
  let ?s = "session_at h a"
  define s1 where "s1 = (if CBuffer_GetBufLen (RspBuf ?s) = 0 \<and> ResponseTimeStamp (Result ?s) = 0
      then ?s\<lparr>Result := (Result ?s)\<lparr>ResponseTimeStamp := packet_stamp p\<rparr>\<rparr> else ?s)"
  have s1: "ReqBuf s1 = ReqBuf ?s" "RspBuf s1 = RspBuf ?s" "flow_of s1 = flow_of ?s"
      "blank (Result s1) = blank (Result ?s)"
    by (simp_all add: s1_def flow_of_def)
  note inv = goodD(3,4) [OF g a]
  obtain b where b: "CBuffer_Append (env_al env) (RspBuf s1) (GetData p) (scast (GetDataLen p)) = Inr (r, b)"
    and h': "h' = set_session a (s1\<lparr>RspBuf := b\<rparr>) h"
    using run unfolding take_response_def Let_def s1_def [symmetric] by (auto simp: res_simps)
  have "buf_ok b"
    using append_keeps [OF b] inv s1 by (simp add: ses_inv_def session_ok_def roomy_def)
  then have "ses_inv (s1\<lparr>RspBuf := b\<rparr>)"
    using inv s1 by (simp add: ses_inv_def session_ok_def)
  moreover have "flow_of (s1\<lparr>RspBuf := b\<rparr>) = flow_of ?s" using s1(3) by (simp add: flow_of_def)
  ultimately have "handle_ok h'" unfolding h' using set_session_ok [OF goodD(1) [OF g]] by blast
  then show ?thesis using h' by simp
qed

text \<open>The caller's pointer is the one that was passed in, or points to an existing session.\<close>

definition sound_result :: "nat option \<Rightarrow> chandle \<Rightarrow> nat option \<Rightarrow> chandle \<Rightarrow> bool" where
  "sound_result sesp h sesp' h' \<longleftrightarrow> handle_ok h'
     \<and> next_addr (sesHash h) \<le> next_addr (sesHash h')
     \<and> (sesp' = sesp \<or> (\<exists>a < next_addr (sesHash h'). sesp' = Some a))"

lemma process_session_good:
  assumes run: "process_session env p info f sesp a h = Inr (sesp', h')"
    and g: "good (length (m_pPkt p)) h" and a: "a < next_addr (sesHash h)"
    and al: "al_ok (env_al env) 2048"
  shows "sound_result sesp h sesp' h'"
proof -
  let ?n = "length (m_pPkt p)"
  obtain fin over where fo: "tcp_field p tcphdr_fin = Inr fin"
    "(if fin then Inr True else tcp_field p tcphdr_rst) = Inr over"
    using run by (auto simp: process_session_def res_simps)
  show ?thesis
  proof (cases over)
    case True
    then obtain h1 where h1: "parse_session env a h = Inr h1" "sesp' = sesp"
      "h' = h1\<lparr>sesHash := remove_flow f (sesHash h1)\<rparr>"
      using run fo by (auto simp: process_session_def res_simps)
    note g1 = parse_session_good [OF h1(1) g a al]
    show ?thesis
      using remove_conns(1) [OF goodD(1) [OF g1(1)], of f] g1(2) h1(2,3) by (simp add: sound_result_def)
  next
    case False
    then obtain seq where seq: "host32 (tcp_field p tcphdr_seq) = Inr seq"
      using run fo by (auto simp: process_session_def res_simps)
    have keep: "sound_result sesp h sesp h" using goodD(1) [OF g] by (simp add: sound_result_def)
    show ?thesis
    proof (cases "SeqNo (session_at h a) = seq \<or> GetDataLen p = 0")
      case True
      then show ?thesis using run fo False seq keep by (auto simp: process_session_def split: if_splits)
    next
      case new: False
      then obtain ack where ack: "host32 (tcp_field p tcphdr_ack_seq) = Inr ack"
        using run fo False seq by (auto simp: process_session_def res_simps split: if_splits)
      let ?s = "(session_at h a)\<lparr>SeqNo := seq, AckSeqNo := ack\<rparr>"
      let ?h1 = "set_session a ?s h"
      have g1: "good ?n ?h1"
        using goodD(3,4) [OF g a]
        by (intro good_set [OF g]) (simp_all add: ses_inv_def session_ok_def roomy_def flow_of_def)
      have a1: "a < next_addr (sesHash ?h1)" using a by simp
      have keep1: "sound_result sesp h sesp ?h1" using goodD(1) [OF g1] by (simp add: sound_result_def)
      show ?thesis
      proof (cases "m_nIdtMatchWay info = UNK_MATCH")
        case True
        then show ?thesis
          using run fo False seq new ack keep1 by (auto simp: process_session_def Let_def)
      next
        case way: False
        then obtain r h2 where h2: "(if m_nIdtMatchWay info = C2S_MATCH then take_request env p a ?h1
            else if m_nIdtMatchWay info = S2C_MATCH then take_response env p a ?h1
            else Inr (True, ?h1)) = Inr (r, h2)"
          and run2: "(if \<not> r then Inr (sesp, h2) else report_session a h2) = Inr (sesp', h')"
          using run fo False seq new ack by (auto simp: process_session_def res_simps Let_def)
        have ok2: "handle_ok h2" "next_addr (sesHash h2) = next_addr (sesHash h)"
          using h2 take_request_good [OF _ g1 a1 al] take_response_good [OF _ g1 a1] goodD(1) [OF g1]
          by (auto split: if_splits)
        then show ?thesis
          using run2 a by (auto simp: sound_result_def report_session_def res_simps split: if_splits)
      qed
    qed
  qed
qed

lemma Process_good:
  assumes run: "CHandle_Process env p pInfo sesp h = Inr (sesp', h')"
    and g: "good (length (m_pPkt p)) h" and al: "al_ok (env_al env) 2048"
  shows "sound_result sesp h sesp' h'"
proof -
  obtain h1 where h1: "CHandle_TimeOutCheck env h = Inr h1"
    using run by (auto simp: CHandle_Process_def res_simps)
  note g1 = TimeOutCheck_good [OF h1 g al]
  show ?thesis
  proof (cases pInfo)
    case None
    then show ?thesis using run h1 g1 by (simp add: CHandle_Process_def sound_result_def good_def)
  next
    case (Some info)
    then obtain f a h2 where f: "packet_flow p = Inr f" and h2: "find_or_create env p info f h1 = Inr (a, h2)"
      and run2: "process_session env p info f sesp a h2 = Inr (sesp', h')"
      using run h1 by (auto simp: CHandle_Process_def res_simps)
    note g2 = find_or_create_good [OF h2 _ f al, of "length (m_pPkt p)"]
    show ?thesis
      using process_session_good [OF run2 _ _ al] g2 g1 by (auto simp: sound_result_def)
  qed
qed

end
