(* ===== verification/Receiver.thy ===== *)
theory Receiver
  imports Reassembly
begin

text \<open>
  The receiver (Receiver.h, Receiver.cpp) and the two programs that feed it a capture file:
  \<open>main\<close> (AppMain.cpp) and the actor \<open>http_parser\<close> (http_parser.cpp), whose \<open>start\<close> has the same
  body. The capture is a sequence of Ethernet frames without any framing of its own.
\<close>

section \<open>The receiver\<close>

record receiver =
  rcv_handle :: chandle
  counter :: int              \<comment> \<open>the static \<open>int\<close> of Receiver.h\<close>

text \<open>The constructor initialises the handler; \<open>now\<close> is \<open>time (0)\<close>.\<close>

definition Receiver_new :: "int \<Rightarrow> ses_store \<Rightarrow> receiver" where
  "Receiver_new now st =
     \<lparr>rcv_handle = CHandle_Init now \<lparr>sesHash = st, lastTimeOutCheck = 0, written = []\<rparr>, counter = 0\<rparr>"

definition match_info :: "cformat_packet \<Rightarrow> behavior_info res" where
  "match_info packet =
     bindR (host16 (GetDstPort packet)) (\<lambda>dstPort.
       if dstPort = 0x50 then
         bindR (host32 (GetDstIp packet)) (\<lambda>ip.
         bindR (GetIpProtocol packet) (\<lambda>proto.
         Inr \<lparr>m_nIP = ip, m_nPort = ucast dstPort, m_nBehaviorId = ucast proto,
              m_nIdtMatchWay = C2S_MATCH\<rparr>))
       else
         bindR (host32 (GetSrcIp packet)) (\<lambda>ip.
         bindR (host16 (GetSrcPort packet)) (\<lambda>srcPort.
         bindR (GetIpProtocol packet) (\<lambda>proto.
         Inr \<lparr>m_nIP = ip, m_nPort = ucast srcPort, m_nBehaviorId = ucast proto,
              m_nIdtMatchWay = S2C_MATCH\<rparr>))))"

text \<open>\<open>tv\<close> is the packet's time stamp, which \<open>Format\<close> takes with \<open>gettimeofday\<close>.\<close>

definition Receiver_HandleMessage ::
  "call_env \<Rightarrow> int \<times> int \<Rightarrow> block option \<Rightarrow> nat option \<Rightarrow> chandle \<Rightarrow> (nat option \<times> chandle) res" where
  "Receiver_HandleMessage env tv msg sesp h =
     (case msg of
        None \<Rightarrow> Inr (sesp, h)
      | Some m \<Rightarrow>
          bindR (CFormatPacket_Format tv m) (\<lambda>packet.
          bindR (match_info packet) (\<lambda>info.
          CHandle_Process env packet (Some info) sesp h)))"

definition Receiver_Work ::
  "call_env \<Rightarrow> int \<times> int \<Rightarrow> block option \<Rightarrow> nat option \<Rightarrow> receiver \<Rightarrow> (nat option \<times> receiver) res" where
  "Receiver_Work env tv msg sesp r =
     (if counter r = 2147483647 then Inl SignedOverflow
      else bindR (Receiver_HandleMessage env tv msg sesp (rcv_handle r)) (\<lambda>(sesp, h).
             Inr (sesp, r\<lparr>rcv_handle := h, counter := counter r + 1\<rparr>)))"

section \<open>Reading the capture\<close>

text \<open>
  An open file: the bytes not read yet and the end-of-file indicator. \<open>fread\<close> stores the bytes
  there are, and sets the indicator when it wanted more.
\<close>

record cfile =
  unread :: "char list"
  at_eof :: bool

definition c_fread :: "block \<Rightarrow> nat \<Rightarrow> nat \<Rightarrow> cfile \<Rightarrow> (block \<times> cfile) res" where
  "c_fread m i n f =
     bindR (c_write (Some m) i (take n (unread f))) (\<lambda>m'. case m' of
       None \<Rightarrow> Inl NullDeref
     | Some m'' \<Rightarrow>
         Inr (m'', \<lparr>unread = drop n (unread f), at_eof = at_eof f \<or> length (unread f) < n\<rparr>))"

text \<open>The local variables of the loop with the receiver and the caller's session pointer \<open>fs\<close>.\<close>

record capture =
  tmp1 :: block               \<comment> \<open>\<open>char tmp1[2000]\<close>\<close>
  cap_len :: u16              \<comment> \<open>\<open>len\<close>, indeterminate before the first IP packet\<close>
  cap_file :: cfile
  rcv :: receiver
  fs :: "nat option"

definition ETHERTYPE_IP :: u16 where "ETHERTYPE_IP = 0x0800"
definition ETHERTYPE_IPV6 :: u16 where "ETHERTYPE_IPV6 = 0x86DD"

text \<open>
  One round of the loop. The byte counts are \<open>size_t\<close>: \<open>len - 20\<close> is an \<open>int\<close> and wraps when it is
  negative. The second test compares the type in network order.
\<close>

definition capture_step :: "call_env \<Rightarrow> int \<times> int \<Rightarrow> capture \<Rightarrow> capture res" where
  "capture_step env tv c =
     bindR (c_fread (tmp1 c) 0 14 (cap_file c)) (\<lambda>(m, f).
     bindR (load16 m 12) (\<lambda>ether_type.
       if ntohs ether_type = ETHERTYPE_IP then
         bindR (c_fread m 14 20 f) (\<lambda>(m, f).
         bindR (host16 (load16 m 16)) (\<lambda>len.
         bindR (c_fread m 34 (unat (ucast len - 20 :: u64)) f) (\<lambda>(m, f).
         bindR (Receiver_Work env tv (Some m) (fs c) (rcv c)) (\<lambda>(sesp, r).
         Inr \<lparr>tmp1 = m, cap_len = len, cap_file = f, rcv = r, fs = sesp\<rparr>))))
       else if ether_type = ETHERTYPE_IPV6 then
         bindR (c_fread m 14 40 f) (\<lambda>(m, f).
         bindR (host16 (load16 m 18)) (\<lambda>len.
         bindR (c_fread m 54 (unat len) f) (\<lambda>(m, f).
         bindR (Receiver_Work env tv (Some m) (fs c) (rcv c)) (\<lambda>(sesp, r).
         Inr \<lparr>tmp1 = m, cap_len = len, cap_file = f, rcv = r, fs = sesp\<rparr>))))
       else Inr (c\<lparr>tmp1 := m, cap_file := f\<rparr>)))"

lemma c_fread_file:
  assumes "c_fread m i n f = Inr (m', f')"
  shows "unread f' = drop n (unread f)" and "at_eof f' \<longleftrightarrow> at_eof f \<or> length (unread f) < n"
proof -
  obtain m1 where "c_write (Some m) i (take n (unread f)) = Inr (Some m1)"
    using assms unfolding c_fread_def
    by (cases "c_write (Some m) i (take n (unread f))") (auto split: option.split_asm)
  then have "f' = \<lparr>unread = drop n (unread f), at_eof = at_eof f \<or> length (unread f) < n\<rparr>"
    using assms by (simp add: c_fread_def)
  then show "unread f' = drop n (unread f)" and "at_eof f' \<longleftrightarrow> at_eof f \<or> length (unread f) < n"
    by simp_all
qed

lemma capture_step_reads:
  assumes "capture_step env tv c = Inr c'"
  shows "\<exists>k. unread (cap_file c') = drop (14 + k) (unread (cap_file c))"
    and "length (unread (cap_file c)) < 14 \<Longrightarrow> at_eof (cap_file c')"
proof -
  obtain m f et where 1: "c_fread (tmp1 c) 0 14 (cap_file c) = Inr (m, f)" "load16 m 12 = Inr et"
    using assms by (auto simp: capture_step_def res_simps)
  note f1 = c_fread_file [OF 1(1)]
  have more: "\<exists>k. unread f'' = drop (14 + k) (unread (cap_file c))"
      "length (unread (cap_file c)) < 14 \<Longrightarrow> at_eof f''"
    if "c_fread m i n f = Inr (m', f')" "c_fread m' i' n' f' = Inr (m'', f'')"
    for i n m' f' i' n' m'' f''
  proof -
    have "unread f'' = drop (14 + (n + n')) (unread (cap_file c))"
      unfolding c_fread_file(1) [OF that(2)] c_fread_file(1) [OF that(1)] f1(1) drop_drop
      by (rule arg_cong [of _ _ "\<lambda>k. drop k (unread (cap_file c))"]) simp
    then show "\<exists>k. unread f'' = drop (14 + k) (unread (cap_file c))" ..
    show "at_eof f''" if "length (unread (cap_file c)) < 14"
      using that f1(2) c_fread_file(2) [OF \<open>c_fread m i n f = _\<close>]
        c_fread_file(2) [OF \<open>c_fread m' i' n' f' = _\<close>] by simp
  qed
  consider (ip) "ntohs et = ETHERTYPE_IP" | (ip6) "ntohs et \<noteq> ETHERTYPE_IP" "et = ETHERTYPE_IPV6"
    | (other) "ntohs et \<noteq> ETHERTYPE_IP" "et \<noteq> ETHERTYPE_IPV6" by blast
  then have "(\<exists>k. unread (cap_file c') = drop (14 + k) (unread (cap_file c)))
    \<and> (length (unread (cap_file c)) < 14 \<longrightarrow> at_eof (cap_file c'))"
  proof cases
    case ip
    with assms 1 obtain m' f' n m'' where "c_fread m 14 20 f = Inr (m', f')"
        "c_fread m' 34 n f' = Inr (m'', cap_file c')"
      by (auto simp: capture_step_def res_simps)
    from more [OF this] show ?thesis by blast
  next
    case ip6
    with assms 1 obtain m' f' n m'' where "c_fread m 14 40 f = Inr (m', f')"
        "c_fread m' 54 n f' = Inr (m'', cap_file c')"
      by (auto simp: capture_step_def res_simps)
    from more [OF this] show ?thesis by blast
  next
    case other
    with assms 1 have "cap_file c' = f" by (auto simp: capture_step_def)
    with f1 show ?thesis by (auto intro: exI [of _ 0])
  qed
  then show "\<exists>k. unread (cap_file c') = drop (14 + k) (unread (cap_file c))"
    and "length (unread (cap_file c)) < 14 \<Longrightarrow> at_eof (cap_file c')" by blast+
qed

text \<open>The round number selects the surroundings of the round.\<close>

function capture_loop ::
  "(nat \<Rightarrow> call_env \<times> (int \<times> int)) \<Rightarrow> nat \<Rightarrow> capture \<Rightarrow> capture res" where
  "capture_loop env n c =
     (if at_eof (cap_file c) then Inr c
      else bindR (capture_step (fst (env n)) (snd (env n)) c) (capture_loop env (n + 1)))"
  by pat_completeness auto
termination
proof (relation "measure (\<lambda>(env, n, c). if at_eof (cap_file c) then 0
    else length (unread (cap_file c)) + 1)", goal_cases)
  case 1
  show ?case by simp
next
  case (2 env n c c')
  then obtain k where "unread (cap_file c') = drop (14 + k) (unread (cap_file c))"
    using capture_step_reads(1) by blast
  moreover have "\<not> at_eof (cap_file c') \<Longrightarrow> 14 \<le> length (unread (cap_file c))"
    using capture_step_reads(2) [OF 2(2)] by linarith
  ultimately show ?case using 2(1) by (cases "at_eof (cap_file c')") auto
qed

declare capture_loop.simps [simp del]

section \<open>The programs\<close>

text \<open>A session object that is not in the table: \<open>CSessionPtr (new CSession ())\<close>.\<close>

definition new_session :: "allocator \<Rightarrow> csession \<Rightarrow> ses_store \<Rightarrow> (nat \<times> ses_store) res" where
  "new_session al raw st =
     bindR (CSession_new al raw) (\<lambda>s.
       Inr (next_addr st, st\<lparr>heap := (heap st)(next_addr st := s), next_addr := next_addr st + 1\<rparr>))"

text \<open>
  What follows the loop: the response buffer of \<open>fs\<close> is read byte by byte, as many bytes as the
  length of the last packet says, and written to the file, which was opened for reading.
\<close>

definition dump_response :: "capture \<Rightarrow> string res" where
  "dump_response c =
     (case fs c of
        None \<Rightarrow> Inl NullDeref
      | Some a \<Rightarrow>
          if cap_len c = 0 then Inr []
          else case CBuffer_GetBuf (RspBuf (session_at (rcv_handle (rcv c)) a)) of
                 (None, n) \<Rightarrow> Inl NullDeref
               | (Some m, n) \<Rightarrow> c_read m 0 (unat (cap_len c)))"

text \<open>
  The body that \<open>main\<close> and \<open>start\<close> share. \<open>file\<close> is \<open>None\<close> when \<open>fopen\<close> fails, which is reported but
  not handled; \<open>stack\<close> is what the array held, \<open>len0\<close> what \<open>len\<close> held.
\<close>

definition decode_capture ::
  "(nat \<Rightarrow> call_env \<times> (int \<times> int)) \<Rightarrow> char list option \<Rightarrow> block \<Rightarrow> u16 \<Rightarrow> receiver \<Rightarrow> nat option
    \<Rightarrow> (capture \<times> string) res" where
  "decode_capture env file stack len0 r sesp =
     (case file of
        None \<Rightarrow> Inl NullDeref
      | Some bytes \<Rightarrow>
          bindR (capture_loop env 0 \<lparr>tmp1 = stack, cap_len = len0,
                   cap_file = \<lparr>unread = bytes, at_eof = False\<rparr>, rcv = r, fs = sesp\<rparr>) (\<lambda>c.
          bindR (dump_response c) (\<lambda>out. Inr (c, out))))"

definition empty_store :: "(nat \<Rightarrow> csession) \<Rightarrow> ses_store" where
  "empty_store raw = \<lparr>heap = raw, next_addr = 0, cseshash = (\<lambda>_. [])\<rparr>"

definition AppMain_main ::
  "int \<Rightarrow> (nat \<Rightarrow> call_env \<times> (int \<times> int)) \<Rightarrow> (nat \<Rightarrow> csession) \<Rightarrow> char list option \<Rightarrow> block \<Rightarrow> u16
    \<Rightarrow> (capture \<times> string) res" where
  "AppMain_main now env raw file stack len0 =
     (let r = Receiver_new now (empty_store raw); h = rcv_handle r
      in bindR (new_session (env_al (fst (env 0))) (raw 0) (sesHash h)) (\<lambda>(a, st).
           decode_capture env file stack len0 (r\<lparr>rcv_handle := h\<lparr>sesHash := st\<rparr>\<rparr>) (Some a)))"

text \<open>The actor: its members, its constructor, and its reaction to the message \<open>start\<close>.\<close>

record http_parser =
  hp_rcv :: receiver
  hp_fs :: "nat option"

definition http_parser_new ::
  "int \<Rightarrow> allocator \<Rightarrow> (nat \<Rightarrow> csession) \<Rightarrow> http_parser res" where
  "http_parser_new now al raw =
     (let r = Receiver_new now (empty_store raw); h = rcv_handle r
      in bindR (new_session al (raw 0) (sesHash h)) (\<lambda>(a, st).
           Inr \<lparr>hp_rcv = r\<lparr>rcv_handle := h\<lparr>sesHash := st\<rparr>\<rparr>, hp_fs = Some a\<rparr>))"

definition http_parser_start ::
  "(nat \<Rightarrow> call_env \<times> (int \<times> int)) \<Rightarrow> char list option \<Rightarrow> block \<Rightarrow> u16 \<Rightarrow> http_parser
    \<Rightarrow> (http_parser \<times> string) res" where
  "http_parser_start env file stack len0 p =
     bindR (decode_capture env file stack len0 (hp_rcv p) (hp_fs p)) (\<lambda>(c, out).
       Inr (\<lparr>hp_rcv = rcv c, hp_fs = fs c\<rparr>, out))"

end
