(* ===== verification/Exchange.thy ===== *)
theory Exchange
  imports Receiver
begin

text \<open>
  A whole HTTP exchange on the wire: request segments, response segments and the closing segment go
  through the receiver one by one, and the record of the decoded exchange is written.
\<close>

section \<open>The record of a connection\<close>

definition zero_session :: csession where
  "zero_session =
     \<lparr>ServerIp = 0, ClientIp = 0, ServerPort = 0, ClientPort = 0, ServerMac = 0, ClientMac = 0,
      CreatedTime = 0, RefreshTime = 0, SeqNo = 0, AckSeqNo = 0, Protocol = 0,
      ReqBuf = \<lparr>buf_len = 0, buf_free = 0, buf_mem = None\<rparr>,
      RspBuf = \<lparr>buf_len = 0, buf_free = 0, buf_mem = None\<rparr>, Result = CResult_Reset\<rparr>"

fun exchange_out :: "boost \<Rightarrow> flow \<Rightarrow> cresult \<Rightarrow> string \<Rightarrow> string \<Rightarrow> file_output list" where
  "exchange_out bst (sip, cip, sport, cport) r req rsp =
     (case lex_port bst cport of
        None \<Rightarrow> []
      | Some port \<Rightarrow>
          [(''../../'' @ port,
            record_text (zero_session\<lparr>ServerIp := sip, ClientIp := cip, ServerPort := sport,
              ClientPort := cport, Result := r\<rparr>) req rsp)])"

definition exchange_text :: "boost \<Rightarrow> conn \<Rightarrow> file_output list" where
  "exchange_text bst c =
     (case spec_decode bst (cn_req c) (cn_rsp c) CResult_Reset of
        Inr (Some r) \<Rightarrow> exchange_out bst (cn_ends c) r (cn_req c) (cn_rsp c)
      | _ \<Rightarrow> [])"

text \<open>The time stamps of a result take no part in decoding and are not written.\<close>

abbreviation stamped :: "u64 \<Rightarrow> u64 \<Rightarrow> cresult \<Rightarrow> cresult" where
  "stamped t u r \<equiv> r\<lparr>RequestTimeStamp := t, ResponseTimeStamp := u\<rparr>"

lemma bindR_into: "(\<And>x. m = Inr x \<Longrightarrow> f x = bindR (g x) k) \<Longrightarrow> bindR m f = bindR (bindR m g) k"
  by (cases m) auto

lemma spec_request_stamped:
  "spec_request bst s (stamped t u r)
   = bindR (spec_request bst s r) (\<lambda>o'. Inr (map_option (stamped t u) o'))"
  unfolding spec_request_def by (auto split: option.split prod.split intro!: bindR_into)

lemma spec_response_stamped:
  "spec_response bst s (stamped t u r)
   = bindR (spec_response bst s r) (\<lambda>o'. Inr (map_option (stamped t u) o'))"
  unfolding spec_response_def by (auto split: option.split prod.split intro!: bindR_into)

lemma spec_decode_stamped:
  "spec_decode bst req rsp (stamped t u r)
   = bindR (spec_decode bst req rsp r) (\<lambda>o'. Inr (map_option (stamped t u) o'))"
proof -
  have "(if 10 < length req then spec_request bst req (stamped t u r) else Inr (Some (stamped t u r)))
    = bindR (if 10 < length req then spec_request bst req r else Inr (Some r))
        (\<lambda>o'. Inr (map_option (stamped t u) o'))"
    by (simp add: spec_request_stamped)
  then show ?thesis
    unfolding spec_decode_def
    by (auto simp: bindR_assoc spec_response_stamped split: option.split
        intro!: bindR_cong)
qed

lemma blankD: "blank r \<Longrightarrow> \<exists>t u. r = stamped t u CResult_Reset"
proof -
  assume "blank r"
  then have "stamped (RequestTimeStamp r) (ResponseTimeStamp r) (stamped 0 0 r)
      = stamped (RequestTimeStamp r) (ResponseTimeStamp r) CResult_Reset"
    by (simp only: blank_def)
  then have "r = stamped (RequestTimeStamp r) (ResponseTimeStamp r) CResult_Reset" by simp
  then show ?thesis by blast
qed

lemma record_text_stamped:
  "record_text (s\<lparr>Result := stamped t u r\<rparr>) req rsp
   = record_text (zero_session\<lparr>ServerIp := ServerIp s, ClientIp := ClientIp s,
       ServerPort := ServerPort s, ClientPort := ClientPort s, Result := r\<rparr>) req rsp"
  by (simp add: record_text_def)

lemma parse_text_conn:
  assumes "ses_inv s"
  shows "parse_text bst s = exchange_text bst (conn_of s)"
proof -
  obtain t u where r: "Result s = stamped t u CResult_Reset"
    using assms blankD unfolding ses_inv_def by blast
  show ?thesis
    unfolding parse_text_def exchange_text_def r spec_decode_stamped
    by (auto simp: conn_of_def flow_of_def emitted_def record_text_stamped
        split: sum.split option.split)
qed

lemma parse_ready_conn:
  assumes "ses_inv s" and "quiet_ses s" and "has_room s"
    and "spec_decode bst (cn_req (conn_of s)) (cn_rsp (conn_of s)) CResult_Reset = Inr o'"
  shows "parse_ready bst s"
proof -
  obtain t u where r: "Result s = stamped t u CResult_Reset"
    using assms(1) blankD unfolding ses_inv_def by blast
  have q: "quiet_buf b" if bo: "buf_ok b" and "tail_quiet b" "unat (buf_len b) < 2 ^ 31" for b
  proof -
    obtain m where m: "buf_mem b = Some m" using buf_ok_mem [OF bo] by blast
    have "unat (buf_len b) < length m" using buf_okD(3) [OF bo m] .
    then have "m ! unat (buf_len b) \<in> set (drop (unat (buf_len b)) m)"
      by (simp add: Cons_nth_drop_Suc [symmetric])
    with that m \<open>unat (buf_len b) < length m\<close> show ?thesis
      by (auto simp: quiet_buf_def quiet_end_def tail_quiet_def)
  qed
  have "quiet_buf (ReqBuf s)" "quiet_buf (RspBuf s)"
    using assms by (auto simp: ses_inv_def session_ok_def quiet_ses_def has_room_def intro: q)
  then show ?thesis
    using assms(4) unfolding parse_ready_def r spec_decode_stamped by (auto simp: conn_of_def)
qed

section \<open>One segment through the receiver\<close>

text \<open>Port 80 is the server side.\<close>

definition to_server :: "segment \<Rightarrow> bool" where
  "to_server s \<longleftrightarrow> sg_dst_port s = 0x50"

definition seg_info :: "segment \<Rightarrow> behavior_info" where
  "seg_info s =
     \<lparr>m_nIP = (if to_server s then sg_dst_ip s else sg_src_ip s),
      m_nPort = ucast (if to_server s then sg_dst_port s else sg_src_port s),
      m_nBehaviorId = ucast IPPROTO_TCP, m_nIdtMatchWay = match_of (to_server s)\<rparr>"

definition seg_ends :: "segment \<Rightarrow> flow" where
  "seg_ends s =
     (if to_server s then (sg_dst_ip s, sg_src_ip s, sg_dst_port s, sg_src_port s) else seg_flow s)"

lemma match_info_shows: "shows_segment p s \<Longrightarrow> match_info p = Inr (seg_info s)"
  by (simp add: match_info_def shows_segment_def seg_info_def to_server_def match_of_def)

lemma ends_of_seg: "ends_of (seg_info s) (seg_flow s) = seg_ends s"
proof -
  have inj: "x = y" if "(ucast x :: u32) = ucast y" for x y :: u16
  proof -
    have "unat (ucast x :: u32) = unat (ucast y :: u32)" using that by (rule arg_cong)
    then have "unat x = unat y" by (simp add: unat_ucast_up)
    then show ?thesis by (rule unsigned_word_eqI)
  qed
  show ?thesis
  proof (cases "to_server s")
    case True
    then show ?thesis
      using inj [of "sg_dst_port s" "sg_src_port s"]
      by (cases "sg_dst_ip s = sg_src_ip s \<and> (ucast (sg_dst_port s) :: u32) = ucast (sg_src_port s)")
         (auto simp: seg_info_def seg_flow_def seg_ends_def)
  next
    case False
    then show ?thesis by (simp add: seg_info_def seg_flow_def seg_ends_def)
  qed
qed

lemma session_of_same: "same_flow f g \<Longrightarrow> session_of h f = session_of h g"
  by (simp add: session_of_def sestab.look_same [of f g])

lemma same_flow_cong:
  assumes "same_flow f g"
  shows "conns h f = conns h g" "flow_printable h f = flow_printable h g"
    "flow_quiet h f = flow_quiet h g" "flow_completes h f = flow_completes h g"
    "flow_ok env ts h f = flow_ok env ts h g"
  using session_of_same [OF assms]
  by (simp_all add: conns_def flow_printable_def flow_quiet_def flow_completes_def flow_ok_def)

definition seg_conn :: "call_env \<Rightarrow> chandle \<Rightarrow> segment \<Rightarrow> conn" where
  "seg_conn env h s = (case conns h (seg_flow s) of
     None \<Rightarrow> \<lparr>cn_ends = seg_ends s, cn_seq = SeqNo (env_raw env), cn_req = [], cn_rsp = []\<rparr>
   | Some c \<Rightarrow> c)"

lemma HandleMessage_data:
  assumes ok: "handle_ok h" and calm: "calm env h" and s: "seg_ok s" "\<not> sg_fin s" "\<not> sg_rst s"
    and fo: "flow_ok env (to_server s) h (seg_flow s)" and rest: "length rest < 2 ^ 30"
  shows "\<exists>sesp' h'. Receiver_HandleMessage env tv (Some (encode_frame s @ rest)) sesp h = Inr (sesp', h')
    \<and> handle_ok h'
    \<and> (\<forall>f. conns h' f = (if same_flow f (seg_flow s)
          then Some (spec_step (to_server s) s (seg_conn env h s)) else conns h f))
    \<and> flow_printable h' (seg_flow s)
    \<and> (flow_quiet h (seg_flow s) \<and> \<not> (to_server s \<and> flow_completes h (seg_flow s))
         \<longrightarrow> flow_quiet h' (seg_flow s))
    \<and> lastTimeOutCheck h' = lastTimeOutCheck h \<and> (ptr_ok sesp h \<longrightarrow> ptr_ok sesp' h')
    \<and> written h' = written h @ flow_text env (to_server s) s h"
proof -
  obtain p where p: "CFormatPacket_Format tv (encode_frame s @ rest) = Inr p" "shows_segment p s"
      "m_pPkt p = encode_frame s @ rest"
    using Format_encode [OF s(1) refl] by blast
  have tot: "length (sg_data s) < 2 ^ 15" "length (encode_frame s) < 2 ^ 16"
    using s(1) by (simp_all add: seg_ok_def seg_total_def encode_frame_def length_header_bytes)
  then have len: "length (m_pPkt p) < 2 ^ 31" using rest p(3) by simp
  have way: "m_nIdtMatchWay (seg_info s) = match_of (to_server s)" by (simp add: seg_info_def)
  have met: "met_conn env (seg_info s) h (seg_flow s) = seg_conn env h s"
    unfolding met_conn_def seg_conn_def new_conn_def ends_of_seg ..
  have run: "Receiver_HandleMessage env tv (Some (encode_frame s @ rest)) sesp h
      = CHandle_Process env p (Some (seg_info s)) sesp h"
    by (simp add: Receiver_HandleMessage_def p(1) match_info_shows [OF p(2)])
  show ?thesis
    using Process_data [OF ok calm fo p(2) s(2,3) tot(1) len way, of sesp] unfolding run met .
qed

lemma HandleMessage_over:
  assumes ok: "handle_ok h" and calm: "calm env h" and s: "seg_ok s" "sg_fin s \<or> sg_rst s"
    and t: "session_of h (seg_flow s) = Some t" "parse_ready (env_boost env) t"
  shows "\<exists>h'. Receiver_HandleMessage env tv (Some (encode_frame s @ rest)) sesp h = Inr (sesp, h')
    \<and> handle_ok h'
    \<and> (\<forall>g. conns h' g = (if same_flow g (seg_flow s) then None else conns h g))
    \<and> lastTimeOutCheck h' = lastTimeOutCheck h \<and> next_addr (sesHash h') = next_addr (sesHash h)
    \<and> written h' = written h @ exchange_text (env_boost env) (conn_of t)"
proof -
  obtain p where p: "CFormatPacket_Format tv (encode_frame s @ rest) = Inr p" "shows_segment p s"
    using Format_encode [OF s(1) refl] by blast
  obtain a where a: "look_flow (sesHash h) (seg_flow s) = Some a" "t = session_at h a"
    using t(1) by (auto simp: session_of_def)
  have "ses_inv t"
    using ok a look_flow_bound [of "sesHash h" "seg_flow s" a] by (simp add: handle_ok_def)
  then show ?thesis
    using Process_over [OF ok calm p(2) s(2) t, of "seg_info s" sesp]
    by (simp add: Receiver_HandleMessage_def p(1) match_info_shows [OF p(2)] parse_text_conn)
qed

lemma HandleMessage_over_new:
  assumes ok: "handle_ok h" and calm: "calm env h" and s: "seg_ok s" "sg_fin s \<or> sg_rst s"
    and none: "conns h (seg_flow s) = None"
  shows "\<exists>h'. Receiver_HandleMessage env tv (Some (encode_frame s @ rest)) sesp h = Inr (sesp, h')
    \<and> handle_ok h' \<and> (\<forall>g. conns h' g = conns h g) \<and> lastTimeOutCheck h' = lastTimeOutCheck h
    \<and> next_addr (sesHash h) \<le> next_addr (sesHash h') \<and> written h' = written h"
proof -
  obtain p where p: "CFormatPacket_Format tv (encode_frame s @ rest) = Inr p" "shows_segment p s"
    using Format_encode [OF s(1) refl] by blast
  have none': "session_of h (seg_flow s) = None" using none by (simp add: conns_def)
  have "Receiver_HandleMessage env tv (Some (encode_frame s @ rest)) sesp h
      = CHandle_Process env p (Some (seg_info s)) sesp h"
    by (simp add: Receiver_HandleMessage_def p(1) match_info_shows [OF p(2)])
  then show ?thesis
    using Process_over_new [OF ok calm p(2) s(2) none', of "seg_info s" sesp] by (simp only:)
qed

section \<open>Streams\<close>

text \<open>
  A segment arrives in a message: its frame, followed by other memory. Each arrival has its own
  surroundings and time stamp. The state is the caller's session pointer with the handler.
\<close>

record arrival =
  ar_env :: call_env
  ar_tv :: "int \<times> int"
  ar_rest :: "char list"
  ar_seg :: segment

definition receive :: "arrival \<Rightarrow> nat option \<times> chandle \<Rightarrow> (nat option \<times> chandle) res" where
  "receive x st = Receiver_HandleMessage (ar_env x) (ar_tv x)
     (Some (encode_frame (ar_seg x) @ ar_rest x)) (fst st) (snd st)"

definition calm_arrival :: "chandle \<Rightarrow> arrival \<Rightarrow> bool" where
  "calm_arrival h x \<longleftrightarrow> calm (ar_env x) h \<and> length (ar_rest x) < 2 ^ 30"

text \<open>The segments of one direction, and what they leave of a connection.\<close>

definition data_seg :: "flow \<Rightarrow> bool \<Rightarrow> segment \<Rightarrow> bool" where
  "data_seg f ts s \<longleftrightarrow> seg_ok s \<and> \<not> sg_fin s \<and> \<not> sg_rst s \<and> same_flow (seg_flow s) f
     \<and> to_server s = ts"

fun fresh_seqs :: "u32 \<Rightarrow> segment list \<Rightarrow> bool" where
  "fresh_seqs q [] \<longleftrightarrow> True"
| "fresh_seqs q (s # ss) \<longleftrightarrow> sg_seq s \<noteq> q \<and> sg_data s \<noteq> [] \<and> fresh_seqs (sg_seq s) ss"

fun gather :: "bool \<Rightarrow> segment list \<Rightarrow> conn \<Rightarrow> conn" where
  "gather ts [] c = c"
| "gather ts (s # ss) c = gather ts ss
     (if ts then c\<lparr>cn_seq := sg_seq s, cn_req := cn_req c @ sg_data s\<rparr>
      else c\<lparr>cn_seq := sg_seq s, cn_rsp := cn_rsp c @ sg_data s\<rparr>)"

definition stream_bytes :: "segment list \<Rightarrow> string" where
  "stream_bytes ss = concat (map sg_data ss)"

lemma gather_fields:
  "cn_ends (gather ts ss c) = cn_ends c"
  "cn_req (gather ts ss c) = cn_req c @ (if ts then stream_bytes ss else [])"
  "cn_rsp (gather ts ss c) = cn_rsp c @ (if ts then [] else stream_bytes ss)"
  "cn_seq (gather ts ss c) = (if ss = [] then cn_seq c else sg_seq (last ss))"
  by (induction ss arbitrary: c) (simp_all add: stream_bytes_def)

text \<open>What a flow needs for the next segment, from the abstract connection.\<close>

lemma conns_SomeD:
  assumes "handle_ok h" and "conns h f = Some c"
  shows "\<exists>t. session_of h f = Some t \<and> conn_of t = c \<and> ses_inv t"
proof -
  obtain a where a: "look_flow (sesHash h) f = Some a" "c = conn_of (session_at h a)"
    using assms(2) by (auto simp: conns_def session_of_def)
  then have "ses_inv (session_at h a)"
    using assms(1) look_flow_bound [of "sesHash h" f a] by (simp add: handle_ok_def)
  with a show ?thesis by (simp add: session_of_def)
qed

lemma flow_okI:
  assumes ok: "handle_ok h" and c: "conns h f = Some c" and pr: "flow_printable h f"
    and ts: "ts \<Longrightarrow> cn_rsp c = []"
    and len: "length (cn_req c) < 2 ^ 31" "length (cn_rsp c) < 2 ^ 31"
  shows "flow_ok env ts h f" and "ts \<Longrightarrow> \<not> flow_completes h f" and "flow_text env ts s h = [] \<or> seg_flow s \<noteq> f"
proof -
  obtain t where t: "session_of h f = Some t" "conn_of t = c" "ses_inv t"
    using conns_SomeD [OF ok c] by blast
  then have "buf_ok (ReqBuf t)" "buf_ok (RspBuf t)" by (auto simp: ses_inv_def session_ok_def)
  then have room: "has_room t"
    using len t(2) by (auto simp: has_room_def conn_of_def length_contents [symmetric])
  have nc: "ts \<Longrightarrow> \<not> completes t" using ts t(2) by (auto simp: completes_def conn_of_def)
  then show "flow_ok env ts h f"
    using t pr room by (auto simp: flow_ok_def conn_ok_def flow_printable_def completes_def)
  show "ts \<Longrightarrow> \<not> flow_completes h f" using nc t(1) by (simp add: flow_completes_def)
  show "flow_text env ts s h = [] \<or> seg_flow s \<noteq> f"
    using nc t(1) by (cases "seg_flow s = f") (auto simp: flow_text_def step_text_def)
qed

lemma calm_same:
  "calm_arrival h x \<Longrightarrow> lastTimeOutCheck h' = lastTimeOutCheck h \<Longrightarrow> calm_arrival h' x"
  by (simp add: calm_arrival_def calm_def)

text \<open>One segment of the stream, on a flow that already has a connection.\<close>

lemma receive_one:
  assumes ok: "handle_ok h" and calm: "calm_arrival h x" and c: "conns h f = Some c"
    and pr: "flow_printable h f" and s: "data_seg f ts (ar_seg x)"
    and fr: "fresh_seqs (cn_seq c) [ar_seg x]"
    and ts: "ts \<Longrightarrow> cn_rsp c = []"
    and len: "length (cn_req c) < 2 ^ 31" "length (cn_rsp c) < 2 ^ 31"
  shows "\<exists>sesp' h'. receive x (sesp, h) = Inr (sesp', h') \<and> handle_ok h'
    \<and> conns h' f = Some (gather ts [ar_seg x] c)
    \<and> (\<forall>g. \<not> same_flow g f \<longrightarrow> conns h' g = conns h g) \<and> flow_printable h' f
    \<and> (flow_quiet h f \<longrightarrow> flow_quiet h' f) \<and> lastTimeOutCheck h' = lastTimeOutCheck h
    \<and> (ptr_ok sesp h \<longrightarrow> ptr_ok sesp' h') \<and> written h' = written h"
proof -
  let ?env = "ar_env x" and ?s = "ar_seg x"
  have cl: "calm ?env h" "length (ar_rest x) < 2 ^ 30" using calm by (simp_all add: calm_arrival_def)
  have sg: "seg_ok ?s" "\<not> sg_fin ?s" "\<not> sg_rst ?s" "to_server ?s = ts"
    and sf: "same_flow (seg_flow ?s) f"
    using s by (auto simp: data_seg_def)
  note cong = same_flow_cong [OF sf]
  have c': "conns h (seg_flow ?s) = Some c" and pr': "flow_printable h (seg_flow ?s)"
    using c pr cong by simp_all
  have fo: "flow_ok ?env ts h (seg_flow ?s)" and nc: "ts \<Longrightarrow> \<not> flow_completes h (seg_flow ?s)"
    and ft: "flow_text ?env ts ?s h = []"
    using flow_okI [where ts = ts, OF ok c' pr' ts len] by auto
  have sc: "seg_conn ?env h ?s = c" by (simp add: seg_conn_def c')
  have step: "spec_step ts ?s c = gather ts [?s] c"
    using fr ts by (auto simp: spec_step_def)
  have fo': "flow_ok ?env (to_server ?s) h (seg_flow ?s)" using fo sg by simp
  obtain sesp' h' where h': "Receiver_HandleMessage ?env (ar_tv x)
      (Some (encode_frame ?s @ ar_rest x)) sesp h = Inr (sesp', h')" "handle_ok h'"
    "\<forall>g. conns h' g = (if same_flow g (seg_flow ?s) then Some (gather ts [?s] c) else conns h g)"
    "flow_printable h' (seg_flow ?s)" "flow_quiet h (seg_flow ?s) \<longrightarrow> flow_quiet h' (seg_flow ?s)"
    "lastTimeOutCheck h' = lastTimeOutCheck h" "written h' = written h"
    "ptr_ok sesp h \<longrightarrow> ptr_ok sesp' h'"
    using HandleMessage_data [OF ok cl(1) sg(1-3) fo' cl(2), of "ar_tv x" sesp] nc ft sc step sg(4) by fastforce
  have "same_flow g (seg_flow ?s) \<longleftrightarrow> same_flow g f" for g
    using sf sestab.same_sym sestab.same_trans by blast
  then have cn: "conns h' g = (if same_flow g f then Some (gather ts [?s] c) else conns h g)" for g
    using h'(3) by metis
  have "conns h' f = Some (gather ts [?s] c)" "\<forall>g. \<not> same_flow g f \<longrightarrow> conns h' g = conns h g"
    unfolding cn by simp_all
  moreover have "receive x (sesp, h) = Inr (sesp', h')" using h'(1) by (simp add: receive_def)
  moreover have "flow_printable h' f" "flow_quiet h f \<longrightarrow> flow_quiet h' f"
    using h'(4,5) cong same_flow_cong [OF sf, where h = h'] by simp_all
  ultimately show ?thesis using h'(2,6-8) by blast
qed

lemma receive_stream:
  assumes "handle_ok h" and "\<And>x. x \<in> set xs \<Longrightarrow> calm_arrival h x" and "conns h f = Some c"
    and "flow_printable h f" and "\<And>x. x \<in> set xs \<Longrightarrow> data_seg f ts (ar_seg x)"
    and "fresh_seqs (cn_seq c) (map ar_seg xs)" and "ts \<Longrightarrow> cn_rsp c = []"
    and "length (cn_req (gather ts (map ar_seg xs) c)) < 2 ^ 31"
    and "length (cn_rsp (gather ts (map ar_seg xs) c)) < 2 ^ 31"
  shows "\<exists>sesp' h'. foldR receive xs (sesp, h) = Inr (sesp', h') \<and> handle_ok h'
    \<and> conns h' f = Some (gather ts (map ar_seg xs) c)
    \<and> (\<forall>g. \<not> same_flow g f \<longrightarrow> conns h' g = conns h g) \<and> flow_printable h' f
    \<and> (flow_quiet h f \<longrightarrow> flow_quiet h' f) \<and> lastTimeOutCheck h' = lastTimeOutCheck h
    \<and> (ptr_ok sesp h \<longrightarrow> ptr_ok sesp' h') \<and> written h' = written h"
  using assms
proof (induction xs arbitrary: sesp h c)
  case Nil
  then show ?case by simp
next
  case (Cons x xs)
  let ?c1 = "gather ts [ar_seg x] c"
  have len: "length (cn_req c) < 2 ^ 31" "length (cn_rsp c) < 2 ^ 31"
    using Cons.prems(8,9) by (simp_all only: gather_fields) simp_all
  have ds: "data_seg f ts (ar_seg x)" and cx: "calm_arrival h x" using Cons.prems(2,5) by simp_all
  have fr: "fresh_seqs (cn_seq c) [ar_seg x]" and fr1: "fresh_seqs (cn_seq ?c1) (map ar_seg xs)"
    using Cons.prems(6) by simp_all
  obtain sesp1 h1 where h1: "receive x (sesp, h) = Inr (sesp1, h1)" "handle_ok h1"
    "conns h1 f = Some ?c1"
    "\<forall>g. \<not> same_flow g f \<longrightarrow> conns h1 g = conns h g" "flow_printable h1 f"
    "flow_quiet h f \<longrightarrow> flow_quiet h1 f" "lastTimeOutCheck h1 = lastTimeOutCheck h"
    "written h1 = written h" "ptr_ok sesp h \<longrightarrow> ptr_ok sesp1 h1"
    using receive_one [OF Cons.prems(1) cx Cons.prems(3,4) ds fr Cons.prems(7) len, of sesp] by blast
  have calm1: "\<And>y. y \<in> set xs \<Longrightarrow> calm_arrival h1 y"
    using calm_same [OF _ h1(7)] Cons.prems(2) by simp
  have g1: "gather ts (map ar_seg xs) ?c1 = gather ts (map ar_seg (x # xs)) c" by simp
  have r1: "ts \<Longrightarrow> cn_rsp ?c1 = []" using Cons.prems(7) by simp
  have ds1: "\<And>y. y \<in> set xs \<Longrightarrow> data_seg f ts (ar_seg y)" using Cons.prems(5) by simp
  obtain sesp' h' where h': "foldR receive xs (sesp1, h1) = Inr (sesp', h')" "handle_ok h'"
    "conns h' f = Some (gather ts (map ar_seg (x # xs)) c)"
    "\<forall>g. \<not> same_flow g f \<longrightarrow> conns h' g = conns h1 g" "flow_printable h' f"
    "flow_quiet h1 f \<longrightarrow> flow_quiet h' f" "lastTimeOutCheck h' = lastTimeOutCheck h1"
    "written h' = written h1" "ptr_ok sesp1 h1 \<longrightarrow> ptr_ok sesp' h'"
    using Cons.IH [OF h1(2) calm1 h1(3,5) ds1 fr1 r1, unfolded g1, OF _ _ _ Cons.prems(8,9), of sesp1]
    by blast
  then show ?case using h1 by auto
qed

section \<open>A complete exchange\<close>

text \<open>The first segment of a flow that is not in the table.\<close>

lemma receive_first:
  assumes ok: "handle_ok h" and calm: "calm_arrival h x" and env: "env = ar_env x" and sx: "s = ar_seg x"
    and none: "conns h (seg_flow s) = None" and s: "data_seg (seg_flow s) ts s"
    and fr: "fresh_seqs (SeqNo (env_raw env)) [s]"
  shows "\<exists>sesp' h'. receive x (sesp, h) = Inr (sesp', h') \<and> handle_ok h'
    \<and> conns h' (seg_flow s) = Some (gather ts [s] (seg_conn env h s))
    \<and> (\<forall>g. \<not> same_flow g (seg_flow s) \<longrightarrow> conns h' g = conns h g)
    \<and> flow_printable h' (seg_flow s) \<and> flow_quiet h' (seg_flow s)
    \<and> lastTimeOutCheck h' = lastTimeOutCheck h
    \<and> (ptr_ok sesp h \<longrightarrow> ptr_ok sesp' h') \<and> written h' = written h"
proof -
  have cl: "calm env h" "length (ar_rest x) < 2 ^ 30" using calm by (simp_all add: calm_arrival_def env)
  have sg: "seg_ok s" "\<not> sg_fin s" "\<not> sg_rst s" "to_server s = ts" using s by (auto simp: data_seg_def)
  have so: "session_of h (seg_flow s) = None" using none by (simp add: conns_def)
  then have fo: "flow_ok env (to_server s) h (seg_flow s)" and q: "flow_quiet h (seg_flow s)"
    and nc: "\<not> flow_completes h (seg_flow s)" and ft: "flow_text env (to_server s) s h = []"
    by (simp_all add: flow_ok_def flow_quiet_def flow_completes_def flow_text_def)
  have step: "spec_step (to_server s) s (seg_conn env h s) = gather ts [s] (seg_conn env h s)"
    using fr sg none by (auto simp: spec_step_def seg_conn_def)
  obtain sesp' h' where h': "Receiver_HandleMessage env (ar_tv x)
      (Some (encode_frame s @ ar_rest x)) sesp h = Inr (sesp', h')" "handle_ok h'"
    "\<forall>g. conns h' g = (if same_flow g (seg_flow s)
        then Some (gather ts [s] (seg_conn env h s)) else conns h g)"
    "flow_printable h' (seg_flow s)" "flow_quiet h' (seg_flow s)"
    "lastTimeOutCheck h' = lastTimeOutCheck h" "written h' = written h"
    "ptr_ok sesp h \<longrightarrow> ptr_ok sesp' h'"
    using HandleMessage_data [OF ok cl(1) sg(1-3) fo cl(2), of "ar_tv x" sesp] q nc ft step by fastforce
  have "conns h' (seg_flow s) = Some (gather ts [s] (seg_conn env h s))"
    "\<forall>g. \<not> same_flow g (seg_flow s) \<longrightarrow> conns h' g = conns h g"
    using h'(3) sestab.same_refl by metis+
  moreover have "receive x (sesp, h) = Inr (sesp', h')" using h'(1) by (simp add: receive_def env sx)
  ultimately show ?thesis using h'(2,4-8) by blast
qed

text \<open>The segments of an exchange, in order, on a flow that starts with the first of them.\<close>

definition exchange_segs :: "call_env \<Rightarrow> segment list \<Rightarrow> segment list \<Rightarrow> segment \<Rightarrow> bool" where
  "exchange_segs env reqs rsps fin \<longleftrightarrow> reqs \<noteq> []
     \<and> list_all (data_seg (seg_flow (hd reqs)) True) reqs
     \<and> list_all (data_seg (seg_flow (hd reqs)) False) rsps
     \<and> fresh_seqs (SeqNo (env_raw env)) (reqs @ rsps)
     \<and> length (stream_bytes reqs) < 2 ^ 31 \<and> length (stream_bytes rsps) < 2 ^ 31
     \<and> seg_ok fin \<and> (sg_fin fin \<or> sg_rst fin) \<and> same_flow (seg_flow fin) (seg_flow (hd reqs))"

lemma fresh_seqs_append:
  "fresh_seqs q (xs @ ys)
   \<longleftrightarrow> fresh_seqs q xs \<and> fresh_seqs (if xs = [] then q else sg_seq (last xs)) ys"
  by (induction q xs rule: fresh_seqs.induct) auto

lemma receive_exchange:
  fixes xs ys :: "arrival list" and z :: arrival
  defines "reqs \<equiv> map ar_seg xs" and "rsps \<equiv> map ar_seg ys" and "bst \<equiv> env_boost (ar_env z)"
  assumes ok: "handle_ok h" and calm: "\<And>x. x \<in> set (xs @ ys @ [z]) \<Longrightarrow> calm_arrival h x"
    and none: "conns h (seg_flow (hd reqs)) = None"
    and segs: "exchange_segs (ar_env (hd xs)) reqs rsps (ar_seg z)"
    and dec: "spec_decode bst (stream_bytes reqs) (stream_bytes rsps) CResult_Reset = Inr (Some r)"
  shows "\<exists>sesp' h'. foldR receive (xs @ ys @ [z]) (sesp, h) = Inr (sesp', h') \<and> handle_ok h'
    \<and> (\<forall>g. conns h' g = conns h g) \<and> lastTimeOutCheck h' = lastTimeOutCheck h
    \<and> (ptr_ok sesp h \<longrightarrow> ptr_ok sesp' h')
    \<and> written h' = written h
        @ exchange_out bst (seg_ends (hd reqs)) r (stream_bytes reqs) (stream_bytes rsps)"
proof -
  obtain x xs' where xs: "xs = x # xs'" using segs by (cases xs) (auto simp: exchange_segs_def reqs_def)
  let ?s = "ar_seg x" and ?fin = "ar_seg z" and ?env = "ar_env x"
  let ?f = "seg_flow ?s"
  have reqs: "reqs = ?s # map ar_seg xs'" by (simp add: reqs_def xs)
  have hdx: "hd xs = x" by (simp add: xs)
  note sd = segs [unfolded exchange_segs_def reqs hdx list.sel list_all_iff]
  have none': "conns h ?f = None" using none reqs by simp
  let ?c0 = "seg_conn ?env h ?s"
  have c0: "cn_req ?c0 = []" "cn_rsp ?c0 = []" "cn_seq ?c0 = SeqNo (env_raw ?env)"
    "cn_ends ?c0 = seg_ends ?s"
    using none' by (simp_all add: seg_conn_def)
  have fr: "fresh_seqs (SeqNo (env_raw ?env)) [?s]" "fresh_seqs (sg_seq ?s) (map ar_seg xs')"
    "fresh_seqs (sg_seq (last reqs)) rsps"
    using sd by (auto simp: fresh_seqs_append reqs split: if_splits)
  have ds: "data_seg ?f True ?s" using sd by simp
  have cx: "calm_arrival h x" using calm xs by simp
  obtain p1 h1 where h1: "receive x (sesp, h) = Inr (p1, h1)" "handle_ok h1"
    "conns h1 ?f = Some (gather True [?s] ?c0)"
    "\<forall>g. \<not> same_flow g ?f \<longrightarrow> conns h1 g = conns h g" "flow_printable h1 ?f" "flow_quiet h1 ?f"
    "lastTimeOutCheck h1 = lastTimeOutCheck h" "written h1 = written h"
    "ptr_ok sesp h \<longrightarrow> ptr_ok p1 h1"
    using receive_first [OF ok cx refl refl none' ds fr(1), of sesp] by blast
  let ?c2 = "gather True reqs ?c0"
  have g2: "gather True (map ar_seg xs') (gather True [?s] ?c0) = ?c2" by (simp add: reqs)
  have c2: "cn_req ?c2 = stream_bytes reqs" "cn_rsp ?c2 = []" "cn_seq ?c2 = sg_seq (last reqs)"
    "cn_ends ?c2 = seg_ends ?s"
    using c0 by (simp_all only: gather_fields) (simp_all add: reqs)
  have "\<exists>p2 h2. foldR receive xs' (p1, h1) = Inr (p2, h2) \<and> handle_ok h2
    \<and> conns h2 ?f = Some (gather True (map ar_seg xs') (gather True [?s] ?c0))
    \<and> (\<forall>g. \<not> same_flow g ?f \<longrightarrow> conns h2 g = conns h1 g) \<and> flow_printable h2 ?f
    \<and> (flow_quiet h1 ?f \<longrightarrow> flow_quiet h2 ?f) \<and> lastTimeOutCheck h2 = lastTimeOutCheck h1
    \<and> (ptr_ok p1 h1 \<longrightarrow> ptr_ok p2 h2) \<and> written h2 = written h1"
  proof (rule receive_stream [OF h1(2) _ h1(3,5)])
    show "calm_arrival h1 y" if "y \<in> set xs'" for y
      using calm [of y] calm_same [OF _ h1(7)] that xs by simp
    show "data_seg ?f True (ar_seg y)" if "y \<in> set xs'" for y using sd that by simp
    show "length (cn_req (gather True (map ar_seg xs') (gather True [?s] ?c0))) < 2 ^ 31"
      "length (cn_rsp (gather True (map ar_seg xs') (gather True [?s] ?c0))) < 2 ^ 31"
      unfolding g2 c2 using sd reqs by simp_all
  qed (use fr(2) c0 in simp_all)
  then obtain p2 h2 where h2: "foldR receive xs' (p1, h1) = Inr (p2, h2)" "handle_ok h2"
    "conns h2 ?f = Some ?c2"
    "\<forall>g. \<not> same_flow g ?f \<longrightarrow> conns h2 g = conns h1 g" "flow_printable h2 ?f"
    "flow_quiet h1 ?f \<longrightarrow> flow_quiet h2 ?f" "lastTimeOutCheck h2 = lastTimeOutCheck h1"
    "written h2 = written h1" "ptr_ok p1 h1 \<longrightarrow> ptr_ok p2 h2"
    unfolding g2 by blast
  let ?c3 = "gather False rsps ?c2"
  have c3: "cn_req ?c3 = stream_bytes reqs" "cn_rsp ?c3 = stream_bytes rsps"
    "cn_ends ?c3 = seg_ends ?s"
    unfolding gather_fields [of False rsps] c2 by simp_all
  have last2: "lastTimeOutCheck h2 = lastTimeOutCheck h" using h1(7) h2(7) by simp
  have "\<exists>p3 h3. foldR receive ys (p2, h2) = Inr (p3, h3) \<and> handle_ok h3
    \<and> conns h3 ?f = Some (gather False (map ar_seg ys) ?c2)
    \<and> (\<forall>g. \<not> same_flow g ?f \<longrightarrow> conns h3 g = conns h2 g) \<and> flow_printable h3 ?f
    \<and> (flow_quiet h2 ?f \<longrightarrow> flow_quiet h3 ?f) \<and> lastTimeOutCheck h3 = lastTimeOutCheck h2
    \<and> (ptr_ok p2 h2 \<longrightarrow> ptr_ok p3 h3) \<and> written h3 = written h2"
  proof (rule receive_stream [OF h2(2) _ h2(3,5)])
    show "calm_arrival h2 y" if "y \<in> set ys" for y
      using calm [of y] calm_same [OF _ last2] that by simp
    show "data_seg ?f False (ar_seg y)" if "y \<in> set ys" for y using sd that by (simp add: rsps_def)
    show "fresh_seqs (cn_seq ?c2) (map ar_seg ys)" using fr(3) c2(3) by (simp add: rsps_def)
    show "length (cn_req (gather False (map ar_seg ys) ?c2)) < 2 ^ 31"
      "length (cn_rsp (gather False (map ar_seg ys) ?c2)) < 2 ^ 31"
      using sd c3 by (simp_all add: rsps_def reqs)
  qed simp
  then obtain p3 h3 where h3: "foldR receive ys (p2, h2) = Inr (p3, h3)" "handle_ok h3"
    "conns h3 ?f = Some ?c3" "\<forall>g. \<not> same_flow g ?f \<longrightarrow> conns h3 g = conns h2 g"
    "flow_quiet h2 ?f \<longrightarrow> flow_quiet h3 ?f" "lastTimeOutCheck h3 = lastTimeOutCheck h2"
    "written h3 = written h2" "ptr_ok p2 h2 \<longrightarrow> ptr_ok p3 h3"
    unfolding rsps_def by blast
  have fin: "seg_ok ?fin" "sg_fin ?fin \<or> sg_rst ?fin" "same_flow (seg_flow ?fin) ?f" using sd by auto
  obtain t where t: "session_of h3 ?f = Some t" "conn_of t = ?c3" "ses_inv t"
    using conns_SomeD [OF h3(2,3)] by blast
  have "flow_quiet h3 ?f" using h1(6) h2(6) h3(5) by blast
  then have qt: "quiet_ses t" using t(1) by (simp add: flow_quiet_def)
  have room: "has_room t"
  proof -
    have "buf_ok (ReqBuf t)" "buf_ok (RspBuf t)" using t(3) by (auto simp: ses_inv_def session_ok_def)
    moreover have "contents (ReqBuf t) = stream_bytes reqs" "contents (RspBuf t) = stream_bytes rsps"
      using t(2) c3 by (auto simp: conn_of_def dest: arg_cong [of _ _ cn_req] arg_cong [of _ _ cn_rsp])
    ultimately show ?thesis using sd reqs by (simp add: has_room_def length_contents [symmetric])
  qed
  have dec': "spec_decode bst (cn_req (conn_of t)) (cn_rsp (conn_of t)) CResult_Reset = Inr (Some r)"
    unfolding t(2) c3 by (rule dec)
  have ready: "parse_ready (env_boost (ar_env z)) t"
    using parse_ready_conn [OF t(3) qt room dec'] by (simp add: bst_def)
  have t': "session_of h3 (seg_flow ?fin) = Some t" using session_of_same [OF fin(3)] t(1) by simp
  have last3: "lastTimeOutCheck h3 = lastTimeOutCheck h" using last2 h3(6) by simp
  then have calm3: "calm (ar_env z) h3" using calm [of z] by (simp add: calm_arrival_def calm_def)
  obtain h' where h': "Receiver_HandleMessage (ar_env z) (ar_tv z)
      (Some (encode_frame ?fin @ ar_rest z)) p3 h3 = Inr (p3, h')" "handle_ok h'"
    "\<forall>g. conns h' g = (if same_flow g (seg_flow ?fin) then None else conns h3 g)"
    "lastTimeOutCheck h' = lastTimeOutCheck h3" "next_addr (sesHash h') = next_addr (sesHash h3)"
    "written h' = written h3 @ exchange_text (env_boost (ar_env z)) (conn_of t)"
    using HandleMessage_over [OF h3(2) calm3 fin(1,2) t' ready, of "ar_tv z" "ar_rest z" p3] by blast
  have out_eq: "exchange_text (env_boost (ar_env z)) (conn_of t)
      = exchange_out bst (seg_ends ?s) r (stream_bytes reqs) (stream_bytes rsps)"
    unfolding exchange_text_def t(2) c3 bst_def [symmetric] using dec by simp
  have "conns h' g = conns h g" for g
  proof (cases "same_flow g ?f")
    case True
    then have "same_flow g (seg_flow ?fin)" using fin(3) sestab.same_sym sestab.same_trans by blast
    with True h'(3) none' show ?thesis using same_flow_cong(1) [OF True, of h] by metis
  next
    case False
    then have "\<not> same_flow g (seg_flow ?fin)" using fin(3) sestab.same_trans by blast
    with False h'(3) h1(4) h2(4) h3(4) show ?thesis by metis
  qed
  moreover have "foldR receive (xs @ ys @ [z]) (sesp, h) = Inr (p3, h')"
    using h1(1) h2(1) h3(1) h'(1) by (simp add: xs foldR_append receive_def)
  moreover have "ptr_ok sesp h \<longrightarrow> ptr_ok p3 h'"
    using h1(9) h2(9) h3(8) h'(5) by (auto simp: ptr_ok_def)
  ultimately show ?thesis
    using h'(2,4,6) h1(8) h2(8) h3(7) last3 out_eq reqs by (intro exI [of _ p3] exI [of _ h']) simp
qed

end
