(* ===== verification/Capture.thy ===== *)
theory Capture
  imports Exchange HandleInvariant
begin

text \<open>
  The capture loop on files that hold whole frames, at the end of the file, and on frames it does
  not handle: what each round reads, and which message the receiver gets.
\<close>

section \<open>Rounds\<close>

lemma c_fread_all:
  assumes "unread f = xs @ ys" and "i + length xs \<le> length m"
  shows "c_fread m i (length xs) f
    = Inr (take i m @ xs @ drop (i + length xs) m, \<lparr>unread = ys, at_eof = at_eof f\<rparr>)"
  using assms by (cases "xs = []") (simp_all add: c_fread_def c_write_ok c_write_def)

lemma c_fread_end:
  assumes "unread f = []"
  shows "c_fread m i n f = Inr (m, \<lparr>unread = [], at_eof = at_eof f \<or> 0 < n\<rparr>)"
  using assms by (simp add: c_fread_def c_write_def)

text \<open>A frame in the three pieces the loop reads.\<close>

definition ip_packet :: "segment \<Rightarrow> char list" where
  "ip_packet s = ip_bytes s @ tcp_bytes s @ sg_data s"

lemma length_ip_packet: "length (ip_packet s) = seg_total s" "20 \<le> seg_total s"
  by (simp_all add: ip_packet_def length_header_bytes seg_total_def)

lemma frame_pieces:
  "encode_frame s = eth_bytes @ take 20 (ip_packet s) @ drop 20 (ip_packet s)"
  "length eth_bytes = 14" "length (take 20 (ip_packet s)) = 20"
  "length (drop 20 (ip_packet s)) = seg_total s - 20"
proof -
  show "encode_frame s = eth_bytes @ take 20 (ip_packet s) @ drop 20 (ip_packet s)"
    by (simp only: append_take_drop_id) (simp add: encode_frame_def ip_packet_def)
qed (use length_ip_packet [of s] in \<open>simp_all add: length_header_bytes\<close>)

lemma length_frame: "length (encode_frame s) = 14 + seg_total s"
  by (simp add: encode_frame_def length_header_bytes seg_total_def)

text \<open>The header fields the loop looks at, in a block that starts with a frame.\<close>

lemma frame_type:
  assumes "m = eth_bytes @ r"
  shows "load16 m 12 = Inr (ntohs ETHERTYPE_IP)"
proof -
  have "load16 (replicate 12 NUL @ [CHR 0x08, NUL] @ r) (length (replicate 12 NUL) + 0)
      = load16 ([CHR 0x08, NUL] @ r) 0"
    by (rule load16_append)
  moreover have "load16 ([CHR 0x08, NUL] @ r) 0 = Inr (ntohs ETHERTYPE_IP)"
    by (simp add: load16_Cons ETHERTYPE_IP_def ntohs_def)
  ultimately show ?thesis by (simp add: assms eth_bytes_def)
qed

lemma frame_length:
  assumes "m = eth_bytes @ take 20 (ip_packet s) @ r"
  shows "host16 (load16 m 16) = Inr (of_nat (seg_total s))"
proof -
  have "take 20 (ip_packet s) = [char_of (64 + (5 + length (sg_ip_opts s) div 4)), NUL]
      @ be16 (of_nat (seg_total s)) @ take 16 (drop 4 (ip_packet s))"
  proof -
    have "take (4 + 16) (ip_packet s) = take 4 (ip_packet s) @ take 16 (drop 4 (ip_packet s))"
      by (rule take_add)
    then show ?thesis by (simp add: ip_packet_def ip_bytes_def)
  qed
  then show ?thesis
    unfolding assms
    by (intro host16_at [where xs = "eth_bytes @ [char_of (64 + (5 + length (sg_ip_opts s) div 4)), NUL]"
          and r = "take 16 (drop 4 (ip_packet s)) @ r"]) (simp_all add: length_header_bytes)
qed

text \<open>
  A round on a file that starts with a frame that fits the array: the receiver gets the frame,
  followed by whatever the array held behind it.
\<close>

definition overlay :: "char list \<Rightarrow> block \<Rightarrow> block" where
  "overlay xs m = xs @ drop (length xs) m"

lemma step_frame:
  assumes s: "seg_ok s" and fit: "length (encode_frame s) \<le> length (tmp1 c)"
    and f: "unread (cap_file c) = encode_frame s @ tail"
  shows "capture_step env tv c
    = bindR (Receiver_Work env tv (Some (overlay (encode_frame s) (tmp1 c))) (fs c) (rcv c))
        (\<lambda>(sesp, r). Inr \<lparr>tmp1 = overlay (encode_frame s) (tmp1 c),
           cap_len = of_nat (seg_total s),
           cap_file = \<lparr>unread = tail, at_eof = at_eof (cap_file c)\<rparr>, rcv = r, fs = sesp\<rparr>)"
proof -
  let ?m = "tmp1 c" and ?e = "eth_bytes" and ?h = "take 20 (ip_packet s)" and ?t = "drop 20 (ip_packet s)"
  note fp = frame_pieces(1) [of s] frame_pieces(2) frame_pieces(3,4) [of s]
  have lm: "34 + (seg_total s - 20) \<le> length ?m" using fit length_ip_packet [of s] by (simp add: length_frame)
  let ?m1 = "?e @ drop 14 ?m" and ?m2 = "?e @ ?h @ drop 34 ?m"
  let ?m3 = "?e @ ?h @ ?t @ drop (34 + (seg_total s - 20)) ?m"
  have r1: "c_fread ?m 0 14 (cap_file c)
      = Inr (?m1, \<lparr>unread = ?h @ ?t @ tail, at_eof = at_eof (cap_file c)\<rparr>)"
    using c_fread_all [of "cap_file c" ?e "?h @ ?t @ tail" 0 ?m] f fp lm by simp
  have r2: "c_fread ?m1 14 20 \<lparr>unread = ?h @ ?t @ tail, at_eof = at_eof (cap_file c)\<rparr>
      = Inr (?m2, \<lparr>unread = ?t @ tail, at_eof = at_eof (cap_file c)\<rparr>)"
    using c_fread_all [of "\<lparr>unread = ?h @ ?t @ tail, at_eof = at_eof (cap_file c)\<rparr>" ?h "?t @ tail" 14 ?m1]
      fp(2,3) lm by simp
  have tot: "seg_total s < 2 ^ 15" using s by (simp add: seg_ok_def)
  have n: "unat (ucast (of_nat (seg_total s) :: u16) - 20 :: u64) = seg_total s - 20"
  proof -
    have "(ucast (of_nat (seg_total s) :: u16) :: u64) = of_nat (seg_total s)"
      using tot by (intro ucast_of_nat_small) simp
    then have "(ucast (of_nat (seg_total s) :: u16) - 20 :: u64) = of_nat (seg_total s - 20)"
      using length_ip_packet(2) [of s] by (simp add: of_nat_diff)
    then show ?thesis using tot by (simp add: unat_of_nat_small)
  qed
  have r3: "c_fread ?m2 34 (seg_total s - 20) \<lparr>unread = ?t @ tail, at_eof = at_eof (cap_file c)\<rparr>
      = Inr (?m3, \<lparr>unread = tail, at_eof = at_eof (cap_file c)\<rparr>)"
    using c_fread_all [of "\<lparr>unread = ?t @ tail, at_eof = at_eof (cap_file c)\<rparr>" ?t tail 34 ?m2]
      fp(2-4) lm by simp
  have ov: "overlay (encode_frame s) ?m = ?m3"
  proof -
    have "?h @ ?t @ r = ip_packet s @ r" for r by (metis append_assoc append_take_drop_id)
    then show ?thesis
      using length_ip_packet [of s] by (simp add: overlay_def encode_frame_def ip_packet_def
          length_header_bytes seg_total_def)
  qed
  have ty: "load16 ?m1 12 = Inr (ntohs ETHERTYPE_IP)" by (rule frame_type) simp
  have ln: "host16 (load16 ?m2 16) = Inr (of_nat (seg_total s))" by (rule frame_length) simp
  show ?thesis
    unfolding capture_step_def r1 bindR.simps prod.case ty ov by (simp add: r2 ln n r3)
qed

lemma length_overlay [simp]: "length xs \<le> length m \<Longrightarrow> length (overlay xs m) = length m"
  by (simp add: overlay_def)

lemma overlay_overlay: "overlay xs (overlay xs m) = overlay xs m"
  by (simp add: overlay_def)

text \<open>
  The round after the last frame: nothing is read, the indicator is set, and the frame that is
  still in the array goes to the receiver again.
\<close>

lemma step_at_end:
  assumes s: "seg_ok s" and m: "tmp1 c = overlay (encode_frame s) m"
    and f: "unread (cap_file c) = []"
  shows "capture_step env tv c
    = bindR (Receiver_Work env tv (Some (tmp1 c)) (fs c) (rcv c))
        (\<lambda>(sesp, r). Inr \<lparr>tmp1 = tmp1 c, cap_len = of_nat (seg_total s),
           cap_file = \<lparr>unread = [], at_eof = True\<rparr>, rcv = r, fs = sesp\<rparr>)"
proof -
  let ?r = "drop 20 (ip_packet s) @ drop (length (encode_frame s)) m"
  have t: "tmp1 c = eth_bytes @ take 20 (ip_packet s) @ ?r"
    using frame_pieces(1) [of s] unfolding m overlay_def by simp
  have ty: "load16 (tmp1 c) 12 = Inr (ntohs ETHERTYPE_IP)" using t by (rule frame_type)
  have ln: "host16 (load16 (tmp1 c) 16) = Inr (of_nat (seg_total s))" using t by (rule frame_length)
  have eof: "c_fread (tmp1 c) i n f'
      = Inr (tmp1 c, \<lparr>unread = [], at_eof = at_eof f' \<or> 0 < n\<rparr>)" if "unread f' = []" for i n f'
    using c_fread_end [OF that] .
  show ?thesis
    by (simp add: capture_step_def eof f ty ln)
qed

section \<open>Files of frames\<close>

text \<open>The messages the receiver gets for frames that are read into an array one after the other.\<close>

fun arrivals ::
  "(nat \<Rightarrow> call_env \<times> (int \<times> int)) \<Rightarrow> nat \<Rightarrow> block \<Rightarrow> segment list \<Rightarrow> arrival list" where
  "arrivals env n m [] = []"
| "arrivals env n m (s # ss) =
     \<lparr>ar_env = fst (env n), ar_tv = snd (env n), ar_rest = drop (length (encode_frame s)) m, ar_seg = s\<rparr>
     # arrivals env (n + 1) (overlay (encode_frame s) m) ss"

lemma Work_receive:
  assumes "counter r < 2147483647"
    and "receive \<lparr>ar_env = env, ar_tv = tv, ar_rest = drop (length (encode_frame s)) m, ar_seg = s\<rparr>
      (sesp, rcv_handle r) = Inr (sesp', h')"
  shows "Receiver_Work env tv (Some (overlay (encode_frame s) m)) sesp r
    = Inr (sesp', r\<lparr>rcv_handle := h', counter := counter r + 1\<rparr>)"
  using assms by (simp add: Receiver_Work_def receive_def overlay_def)

lemma loop_tail:
  assumes "seg_ok p" and "tmp1 c = overlay (encode_frame p) m"
    and "\<And>s. s \<in> set ss \<Longrightarrow> seg_ok s \<and> length (encode_frame s) \<le> length (tmp1 c)"
    and "cap_file c = \<lparr>unread = concat (map encode_frame ss), at_eof = False\<rparr>"
    and "counter (rcv c) + int (length ss) < 2147483647"
    and "foldR receive (arrivals env n (tmp1 c) (ss @ [last (p # ss)])) (fs c, rcv_handle (rcv c))
      = Inr (sesp', h')"
  shows "\<exists>m'. length m' = length (tmp1 c) \<and> capture_loop env n c = Inr \<lparr>tmp1 = m',
      cap_len = of_nat (seg_total (last (p # ss))),
      cap_file = \<lparr>unread = [], at_eof = True\<rparr>,
      rcv = (rcv c)\<lparr>rcv_handle := h', counter := counter (rcv c) + int (length ss) + 1\<rparr>, fs = sesp'\<rparr>"
  using assms
proof (induction ss arbitrary: n c p m)
  case Nil
  let ?x = "\<lparr>ar_env = fst (env n), ar_tv = snd (env n),
    ar_rest = drop (length (encode_frame p)) (tmp1 c), ar_seg = p\<rparr>"
  have "receive ?x (fs c, rcv_handle (rcv c)) = Inr (sesp', h')" using Nil.prems(6) by (auto simp: res_simps)
  then have "Receiver_Work (fst (env n)) (snd (env n)) (Some (overlay (encode_frame p) (tmp1 c))) (fs c) (rcv c)
      = Inr (sesp', (rcv c)\<lparr>rcv_handle := h', counter := counter (rcv c) + 1\<rparr>)"
    using Nil.prems(5) by (intro Work_receive) simp_all
  then have "Receiver_Work (fst (env n)) (snd (env n)) (Some (tmp1 c)) (fs c) (rcv c)
      = Inr (sesp', (rcv c)\<lparr>rcv_handle := h', counter := counter (rcv c) + 1\<rparr>)"
    using Nil.prems(2) by (simp add: overlay_overlay)
  then show ?case
    using step_at_end [OF Nil.prems(1,2), of "fst (env n)" "snd (env n)"] Nil.prems(4)
    by (simp add: capture_loop.simps [of env n] capture_loop.simps [of env "Suc n"])
next
  case (Cons s ss)
  let ?x = "\<lparr>ar_env = fst (env n), ar_tv = snd (env n),
    ar_rest = drop (length (encode_frame s)) (tmp1 c), ar_seg = s\<rparr>"
  let ?m1 = "overlay (encode_frame s) (tmp1 c)"
  have s: "seg_ok s" "length (encode_frame s) \<le> length (tmp1 c)" using Cons.prems(3) by simp_all
  have lst: "last (p # s # ss) = last (s # ss)" by simp
  obtain p1 h1 where h1: "receive ?x (fs c, rcv_handle (rcv c)) = Inr (p1, h1)"
    and rest: "foldR receive (arrivals env (n + 1) ?m1 (ss @ [last (s # ss)])) (p1, h1) = Inr (sesp', h')"
    using Cons.prems(6) unfolding lst by (auto simp: res_simps)
  let ?r1 = "(rcv c)\<lparr>rcv_handle := h1, counter := counter (rcv c) + 1\<rparr>"
  let ?c1 = "\<lparr>tmp1 = ?m1, cap_len = of_nat (seg_total s),
    cap_file = \<lparr>unread = concat (map encode_frame ss), at_eof = False\<rparr>, rcv = ?r1, fs = p1\<rparr>"
  have "Receiver_Work (fst (env n)) (snd (env n)) (Some ?m1) (fs c) (rcv c) = Inr (p1, ?r1)"
    using Cons.prems(5) h1 by (intro Work_receive) simp_all
  then have step: "capture_step (fst (env n)) (snd (env n)) c = Inr ?c1"
    using step_frame [OF s, of "concat (map encode_frame ss)" "fst (env n)" "snd (env n)"] Cons.prems(4)
    by simp
  have "\<exists>m'. length m' = length (tmp1 ?c1) \<and> capture_loop env (n + 1) ?c1 = Inr \<lparr>tmp1 = m',
      cap_len = of_nat (seg_total (last (s # ss))), cap_file = \<lparr>unread = [], at_eof = True\<rparr>,
      rcv = (rcv ?c1)\<lparr>rcv_handle := h', counter := counter (rcv ?c1) + int (length ss) + 1\<rparr>, fs = sesp'\<rparr>"
  proof (rule Cons.IH [where p = s and m = "tmp1 c"])
    show "seg_ok t \<and> length (encode_frame t) \<le> length (tmp1 ?c1)" if "t \<in> set ss" for t
      using Cons.prems(3) [of t] that s by simp
  qed (use s Cons.prems(5) rest in simp_all)
  then obtain m' where m': "length m' = length (tmp1 c)"
    "capture_loop env (n + 1) ?c1 = Inr \<lparr>tmp1 = m',
      cap_len = of_nat (seg_total (last (s # ss))), cap_file = \<lparr>unread = [], at_eof = True\<rparr>,
      rcv = (rcv ?c1)\<lparr>rcv_handle := h', counter := counter (rcv ?c1) + int (length ss) + 1\<rparr>, fs = sesp'\<rparr>"
    using s by auto
  have "capture_loop env n c = capture_loop env (n + 1) ?c1"
    using step Cons.prems(4) by (subst capture_loop.simps) simp
  then show ?case using m' by (intro exI [of _ m']) simp
qed

definition fits :: "nat \<Rightarrow> segment \<Rightarrow> bool" where
  "fits n s \<longleftrightarrow> seg_ok s \<and> length (encode_frame s) \<le> n"

text \<open>A file of frames: every frame is received once, in order, and the last one a second time.\<close>

lemma loop_frames:
  assumes ss: "ss \<noteq> []" "list_all (fits (length (tmp1 c))) ss"
    and cf: "cap_file c = \<lparr>unread = concat (map encode_frame ss), at_eof = False\<rparr>"
    and cnt: "counter (rcv c) + int (length ss) < 2147483647"
    and run: "foldR receive (arrivals env n (tmp1 c) (ss @ [last ss])) (fs c, rcv_handle (rcv c))
      = Inr (sesp', h')"
  shows "\<exists>m'. length m' = length (tmp1 c) \<and> capture_loop env n c = Inr \<lparr>tmp1 = m',
      cap_len = of_nat (seg_total (last ss)), cap_file = \<lparr>unread = [], at_eof = True\<rparr>,
      rcv = (rcv c)\<lparr>rcv_handle := h', counter := counter (rcv c) + int (length ss) + 1\<rparr>, fs = sesp'\<rparr>"
proof -
  obtain s ss' where sss: "ss = s # ss'" using ss(1) by (cases ss) auto
  have s: "seg_ok s" "length (encode_frame s) \<le> length (tmp1 c)" using ss(2) sss by (simp_all add: fits_def)
  let ?x = "\<lparr>ar_env = fst (env n), ar_tv = snd (env n),
    ar_rest = drop (length (encode_frame s)) (tmp1 c), ar_seg = s\<rparr>"
  let ?m1 = "overlay (encode_frame s) (tmp1 c)"
  obtain p1 h1 where h1: "receive ?x (fs c, rcv_handle (rcv c)) = Inr (p1, h1)"
    and rest: "foldR receive (arrivals env (n + 1) ?m1 (ss' @ [last ss])) (p1, h1) = Inr (sesp', h')"
    using run unfolding sss by (auto simp: res_simps)
  let ?r1 = "(rcv c)\<lparr>rcv_handle := h1, counter := counter (rcv c) + 1\<rparr>"
  let ?c1 = "\<lparr>tmp1 = ?m1, cap_len = of_nat (seg_total s),
    cap_file = \<lparr>unread = concat (map encode_frame ss'), at_eof = False\<rparr>, rcv = ?r1, fs = p1\<rparr>"
  have "Receiver_Work (fst (env n)) (snd (env n)) (Some ?m1) (fs c) (rcv c) = Inr (p1, ?r1)"
    using cnt h1 sss by (intro Work_receive) simp_all
  then have step: "capture_step (fst (env n)) (snd (env n)) c = Inr ?c1"
    using step_frame [OF s, of "concat (map encode_frame ss')" "fst (env n)" "snd (env n)"] cf sss
    by simp
  have "\<exists>m'. length m' = length (tmp1 ?c1) \<and> capture_loop env (n + 1) ?c1 = Inr \<lparr>tmp1 = m',
      cap_len = of_nat (seg_total (last (s # ss'))), cap_file = \<lparr>unread = [], at_eof = True\<rparr>,
      rcv = (rcv ?c1)\<lparr>rcv_handle := h', counter := counter (rcv ?c1) + int (length ss') + 1\<rparr>, fs = sesp'\<rparr>"
  proof (rule loop_tail [where m = "tmp1 c"])
    show "seg_ok t \<and> length (encode_frame t) \<le> length (tmp1 ?c1)" if "t \<in> set ss'" for t
      using ss(2) that s sss by (auto simp: list_all_iff fits_def)
  qed (use s cnt rest sss in simp_all)
  then obtain m' where m': "length m' = length (tmp1 c)"
    "capture_loop env (n + 1) ?c1 = Inr \<lparr>tmp1 = m',
      cap_len = of_nat (seg_total (last (s # ss'))), cap_file = \<lparr>unread = [], at_eof = True\<rparr>,
      rcv = (rcv ?c1)\<lparr>rcv_handle := h', counter := counter (rcv ?c1) + int (length ss') + 1\<rparr>, fs = sesp'\<rparr>"
    using s by auto
  have "capture_loop env n c = capture_loop env (n + 1) ?c1"
    using step cf by (subst capture_loop.simps) simp
  then show ?thesis using m' sss by (intro exI [of _ m']) simp
qed

section \<open>The programs on a capture of an exchange\<close>

lemma arrivals_append:
  "\<exists>m'. arrivals env n m (as @ bs) = arrivals env n m as @ arrivals env (n + length as) m' bs
    \<and> (list_all (fits (length m)) as \<longrightarrow> length m' = length m)"
proof (induction as arbitrary: n m)
  case Nil
  then show ?case by auto
next
  case (Cons a as)
  obtain m' where m': "arrivals env (n + 1) (overlay (encode_frame a) m) (as @ bs)
      = arrivals env (n + 1) (overlay (encode_frame a) m) as
        @ arrivals env (n + 1 + length as) m' bs"
    "list_all (fits (length (overlay (encode_frame a) m))) as \<longrightarrow>
      length m' = length (overlay (encode_frame a) m)"
    using Cons.IH by blast
  moreover have "fits (length m) a \<Longrightarrow> length (overlay (encode_frame a) m) = length m"
    by (simp add: fits_def)
  ultimately show ?case by (intro exI [of _ m']) auto
qed

lemma map_ar_seg [simp]: "map ar_seg (arrivals env n m ss) = ss"
  by (induction ss arbitrary: n m) simp_all

lemma arrivals_calm:
  assumes "x \<in> set (arrivals env n m ss)" and "list_all (fits (length m)) ss"
    and "\<And>i. calm (fst (env i)) h" and "length m < 2 ^ 30"
  shows "calm_arrival h x \<and> (\<exists>i. ar_env x = fst (env i))"
  using assms
proof (induction ss arbitrary: n m)
  case Nil
  then show ?case by simp
next
  case (Cons s ss)
  show ?case
  proof (cases "x \<in> set (arrivals env (n + 1) (overlay (encode_frame s) m) ss)")
    case True
    then show ?thesis using Cons.IH [OF True] Cons.prems by (simp add: fits_def)
  next
    case False
    then have x: "x = \<lparr>ar_env = fst (env n), ar_tv = snd (env n),
      ar_rest = drop (length (encode_frame s)) m, ar_seg = s\<rparr>" using Cons.prems(1) by simp
    show ?thesis using Cons.prems(3,4) by (auto simp: x calm_arrival_def)
  qed
qed

lemma dump_ok:
  assumes "handle_ok (rcv_handle (rcv c))" and "ptr_ok (fs c) (rcv_handle (rcv c))"
    and "unat (cap_len c) \<le> 2048"
  shows "\<exists>out. dump_response c = Inr out \<and> length out = unat (cap_len c)"
proof -
  obtain a where a: "fs c = Some a" "a < next_addr (sesHash (rcv_handle (rcv c)))"
    using assms(2) by (auto simp: ptr_ok_def)
  then have "buf_ok (RspBuf (session_at (rcv_handle (rcv c)) a))"
    using assms(1) by (simp add: handle_ok_def ses_inv_def session_ok_def)
  then obtain m where m: "buf_mem (RspBuf (session_at (rcv_handle (rcv c)) a)) = Some m"
    "2048 \<le> length m"
    using buf_ok_mem buf_okD(2) by blast
  then show ?thesis
    using a assms(3) by (auto simp: dump_response_def CBuffer_GetBuf_def c_read_def)
qed

text \<open>
  The body of both programs, on a file that holds an exchange: the record is written once, the
  closing frame is processed twice, and the final dump is as long as the closing frame's packet.
\<close>

lemma decode_exchange:
  assumes ok: "handle_ok (rcv_handle r)" and calm: "\<And>i. calm (fst (env i)) (rcv_handle r)"
    and bst: "\<And>i. env_boost (fst (env i)) = bst"
    and none: "conns (rcv_handle r) (seg_flow (hd reqs)) = None" and ptr: "ptr_ok sesp (rcv_handle r)"
    and segs: "exchange_segs (fst (env 0)) reqs rsps fin"
    and fit: "list_all (fits (length stack)) (reqs @ rsps @ [fin])" and st: "length stack \<le> 2000"
    and cnt: "counter r + int (length (reqs @ rsps)) < 2147483646"
    and dec: "spec_decode bst (stream_bytes reqs) (stream_bytes rsps) CResult_Reset = Inr (Some res)"
  shows "\<exists>c out. decode_capture env (Some (concat (map encode_frame (reqs @ rsps @ [fin])))) stack len0 r sesp
      = Inr (c, out) \<and> handle_ok (rcv_handle (rcv c))
    \<and> (\<forall>g. conns (rcv_handle (rcv c)) g = conns (rcv_handle r) g)
    \<and> written (rcv_handle (rcv c)) = written (rcv_handle r)
        @ exchange_out bst (seg_ends (hd reqs)) res (stream_bytes reqs) (stream_bytes rsps)
    \<and> counter (rcv c) = counter r + int (length (reqs @ rsps)) + 2
    \<and> length out = seg_total fin"
proof -
  let ?h = "rcv_handle r" and ?A = "arrivals env"
  have f: "list_all (fits (length stack)) reqs" "list_all (fits (length stack)) rsps"
    "fits (length stack) fin" using fit by simp_all
  obtain m1 where m1: "?A 0 stack (reqs @ rsps @ [fin, fin])
      = ?A 0 stack reqs @ ?A (length reqs) m1 (rsps @ [fin, fin])" "length m1 = length stack"
    using arrivals_append [of env 0 stack reqs "rsps @ [fin, fin]"] f(1) by auto
  obtain m2 where m2: "?A (length reqs) m1 (rsps @ [fin, fin])
      = ?A (length reqs) m1 rsps @ ?A (length reqs + length rsps) m2 [fin, fin]" "length m2 = length stack"
    using arrivals_append [of env "length reqs" m1 rsps "[fin, fin]"] f(2) m1(2) by auto
  define xs where "xs = ?A 0 stack reqs"
  define ys where "ys = ?A (length reqs) m1 rsps"
  define z where "z = hd (?A (length reqs + length rsps) m2 [fin, fin])"
  define z' where "z' = hd (tl (?A (length reqs + length rsps) m2 [fin, fin]))"
  have all: "?A 0 stack (reqs @ rsps @ [fin, fin]) = (xs @ ys @ [z]) @ [z']"
    by (simp add: m1 m2 xs_def ys_def z_def z'_def)
  have seg: "map ar_seg xs = reqs" "map ar_seg ys = rsps" "ar_seg z = fin" "ar_seg z' = fin"
    by (simp_all add: xs_def ys_def z_def z'_def)
  have calm_all: "calm_arrival ?h x \<and> (\<exists>i. ar_env x = fst (env i))" if "x \<in> set ((xs @ ys @ [z]) @ [z'])" for x
  proof (rule arrivals_calm [where n = 0 and m = stack and ss = "reqs @ rsps @ [fin, fin]"])
    show "x \<in> set (?A 0 stack (reqs @ rsps @ [fin, fin]))" using that all by simp
  qed (use f calm st in simp_all)
  have boost: "env_boost (ar_env z) = bst" using calm_all [of z] bst by auto
  have ne: "reqs \<noteq> []" using segs by (simp add: exchange_segs_def)
  then have hdx: "ar_env (hd xs) = fst (env 0)" by (cases reqs) (simp_all add: xs_def)
  have calm1: "calm_arrival ?h x" if "x \<in> set (xs @ ys @ [z])" for x
    using calm_all [of x] that by auto
  have none1: "conns ?h (seg_flow (hd (map ar_seg xs))) = None"
    and segs1: "exchange_segs (ar_env (hd xs)) (map ar_seg xs) (map ar_seg ys) (ar_seg z)"
    and dec1: "spec_decode (env_boost (ar_env z)) (stream_bytes (map ar_seg xs))
      (stream_bytes (map ar_seg ys)) CResult_Reset = Inr (Some res)"
    using none segs dec unfolding seg hdx boost by simp_all
  obtain p1 h1 where h1: "foldR receive (xs @ ys @ [z]) (sesp, ?h) = Inr (p1, h1)" "handle_ok h1"
    "\<forall>g. conns h1 g = conns ?h g" "lastTimeOutCheck h1 = lastTimeOutCheck ?h"
    "ptr_ok sesp ?h \<longrightarrow> ptr_ok p1 h1"
    "written h1 = written ?h
        @ exchange_out bst (seg_ends (hd reqs)) res (stream_bytes reqs) (stream_bytes rsps)"
    using receive_exchange [OF ok calm1 none1 segs1 dec1, of sesp] unfolding seg boost by blast
  have fin: "seg_ok fin" "sg_fin fin \<or> sg_rst fin" "same_flow (seg_flow fin) (seg_flow (hd reqs))"
    using segs by (auto simp: exchange_segs_def)
  have calm2: "calm (ar_env z') h1"
    using calm_all [of z'] h1(4) by (simp add: calm_arrival_def calm_def)
  have none2: "conns h1 (seg_flow fin) = None"
    using same_flow_cong(1) [OF fin(3), of ?h] none h1(3) by metis
  obtain h2 where h2: "Receiver_HandleMessage (ar_env z') (ar_tv z')
      (Some (encode_frame fin @ ar_rest z')) p1 h1 = Inr (p1, h2)" "handle_ok h2"
    "\<forall>g. conns h2 g = conns h1 g" "next_addr (sesHash h1) \<le> next_addr (sesHash h2)"
    "written h2 = written h1"
    using HandleMessage_over_new [OF h1(2) calm2 fin(1,2) none2, of "ar_tv z'" "ar_rest z'" p1] by blast
  let ?c = "\<lparr>tmp1 = stack, cap_len = len0, cap_file = \<lparr>unread =
    concat (map encode_frame (reqs @ rsps @ [fin])), at_eof = False\<rparr>, rcv = r, fs = sesp\<rparr>"
  have "foldR receive (?A 0 stack ((reqs @ rsps @ [fin]) @ [last (reqs @ rsps @ [fin])])) (sesp, ?h)
      = Inr (p1, h2)"
  proof -
    have "foldR receive ((xs @ ys @ [z]) @ [z']) (sesp, ?h) = Inr (p1, h2)"
      unfolding foldR_append [of receive "xs @ ys @ [z]"] h1(1)
      using h2(1) by (simp add: receive_def seg)
    then show ?thesis using all by simp
  qed
  then have "\<exists>m'. length m' = length (tmp1 ?c) \<and> capture_loop env 0 ?c = Inr \<lparr>tmp1 = m',
      cap_len = of_nat (seg_total (last (reqs @ rsps @ [fin]))), cap_file = \<lparr>unread = [], at_eof = True\<rparr>,
      rcv = (rcv ?c)\<lparr>rcv_handle := h2, counter := counter (rcv ?c) + int (length (reqs @ rsps @ [fin])) + 1\<rparr>,
      fs = p1\<rparr>"
    by (intro loop_frames) (use fit cnt in simp_all)
  then obtain m' where loop: "capture_loop env 0 ?c = Inr \<lparr>tmp1 = m',
      cap_len = of_nat (seg_total fin), cap_file = \<lparr>unread = [], at_eof = True\<rparr>,
      rcv = r\<lparr>rcv_handle := h2, counter := counter r + int (length (reqs @ rsps)) + 2\<rparr>,
      fs = p1\<rparr>"
    by auto
  let ?c' = "\<lparr>tmp1 = m', cap_len = of_nat (seg_total fin), cap_file = \<lparr>unread = [], at_eof = True\<rparr>,
      rcv = r\<lparr>rcv_handle := h2, counter := counter r + int (length (reqs @ rsps)) + 2\<rparr>, fs = p1\<rparr>"
  have tot: "seg_total fin \<le> 2000" using f(3) st by (simp add: fits_def length_frame)
  then have "unat (of_nat (seg_total fin) :: u16) = seg_total fin" by (intro unat_of_nat_small) simp
  moreover have "ptr_ok p1 h2" using h1(5) ptr h2(4) by (auto simp: ptr_ok_def)
  ultimately obtain out where "dump_response ?c' = Inr out" "length out = seg_total fin"
    using dump_ok [of ?c'] h2(2) tot by auto
  then show ?thesis
    using loop h2 h1 by (intro exI [of _ ?c'] exI [of _ out]) (simp add: decode_capture_def)
qed

text \<open>The state in which \<open>main\<close> and the actor start to read.\<close>

lemma start_state:
  fixes now :: int and raw :: "nat \<Rightarrow> csession"
  assumes "al_ok al 2048"
  defines "h0 \<equiv> rcv_handle (Receiver_new now (empty_store raw))"
  shows "\<exists>st. new_session al (raw 0) (sesHash h0) = Inr (0, st) \<and> handle_ok (h0\<lparr>sesHash := st\<rparr>)
    \<and> (\<forall>f. conns (h0\<lparr>sesHash := st\<rparr>) f = None) \<and> ptr_ok (Some 0) (h0\<lparr>sesHash := st\<rparr>)
    \<and> lastTimeOutCheck h0 = now \<and> written h0 = []"
proof -
  obtain s where s: "CSession_new al (raw 0) = Inr s" "cleared (raw 0) s"
    using CSession_new_ok [OF assms(1)] by blast
  have h0: "sesHash h0 = empty_store raw" "lastTimeOutCheck h0 = now" "written h0 = []"
    by (simp_all add: h0_def Receiver_new_def CHandle_Init_def CSessionHashTable_Init_def empty_store_def)
  let ?st = "\<lparr>heap = raw(0 := s), next_addr = 1, cseshash = (\<lambda>_. [])\<rparr>"
  have "new_session al (raw 0) (sesHash h0) = Inr (0, ?st)"
    by (simp add: new_session_def s h0 empty_store_def)
  moreover have "handle_ok (h0\<lparr>sesHash := ?st\<rparr>)"
    using cleared_frame(8) [OF s(2)] by (simp add: handle_ok_def table_ok_def session_at_def)
  moreover have "conns (h0\<lparr>sesHash := ?st\<rparr>) f = None" for f
    by (simp add: conns_def session_of_def look_flow_def)
  moreover have "ptr_ok (Some 0) (h0\<lparr>sesHash := ?st\<rparr>)" by (simp add: ptr_ok_def)
  ultimately show ?thesis using h0 by (intro exI [of _ ?st]) blast
qed

definition calm_from :: "int \<Rightarrow> call_env \<Rightarrow> bool" where
  "calm_from now env \<longleftrightarrow> (\<forall>k. al_ok (env_al env) k) \<and> al_junk (env_al env) 2047 = NUL
     \<and> (\<forall>i. al_junk (env_al env) i \<noteq> LF) \<and> t_check env - now < 120"

lemma calm_from: "lastTimeOutCheck h = now \<Longrightarrow> calm_from now env = calm env h"
  by (simp add: calm_from_def calm_def)

text \<open>A capture of an exchange, as a whole.\<close>

definition exchange_capture ::
  "(nat \<Rightarrow> call_env \<times> (int \<times> int)) \<Rightarrow> int \<Rightarrow> boost \<Rightarrow> segment list \<Rightarrow> segment list \<Rightarrow> segment \<Rightarrow> cresult
    \<Rightarrow> bool" where
  "exchange_capture env now bst reqs rsps fin res \<longleftrightarrow>
     (\<forall>i. calm_from now (fst (env i)) \<and> env_boost (fst (env i)) = bst)
     \<and> exchange_segs (fst (env 0)) reqs rsps fin
     \<and> list_all (fits 2000) (reqs @ rsps @ [fin]) \<and> length (reqs @ rsps) < 2000000000
     \<and> spec_decode bst (stream_bytes reqs) (stream_bytes rsps) CResult_Reset = Inr (Some res)"

lemma main_exchange:
  assumes cap: "exchange_capture env now bst reqs rsps fin res" and st: "length stack = 2000"
  shows "\<exists>c out. AppMain_main now env raw (Some (concat (map encode_frame (reqs @ rsps @ [fin])))) stack len0
      = Inr (c, out)
    \<and> written (rcv_handle (rcv c))
        = exchange_out bst (seg_ends (hd reqs)) res (stream_bytes reqs) (stream_bytes rsps)
    \<and> (\<forall>f. conns (rcv_handle (rcv c)) f = None)
    \<and> counter (rcv c) = int (length (reqs @ rsps)) + 2 \<and> length out = seg_total fin"
proof -
  note c = cap [unfolded exchange_capture_def]
  let ?r = "Receiver_new now (empty_store raw)"
  have "calm_from now (fst (env 0))" using c by blast
  then have al: "al_ok (env_al (fst (env 0))) 2048" by (simp add: calm_from_def)
  obtain sst where sst: "new_session (env_al (fst (env 0))) (raw 0) (sesHash (rcv_handle ?r)) = Inr (0, sst)"
    "handle_ok ((rcv_handle ?r)\<lparr>sesHash := sst\<rparr>)"
    "\<forall>f. conns ((rcv_handle ?r)\<lparr>sesHash := sst\<rparr>) f = None"
    "ptr_ok (Some 0) ((rcv_handle ?r)\<lparr>sesHash := sst\<rparr>)"
    "lastTimeOutCheck (rcv_handle ?r) = now" "written (rcv_handle ?r) = []"
    using start_state [OF al] by blast
  let ?r' = "?r\<lparr>rcv_handle := (rcv_handle ?r)\<lparr>sesHash := sst\<rparr>\<rparr>"
  have cnt: "counter ?r' = 0" by (simp add: Receiver_new_def)
  have h': "rcv_handle ?r' = (rcv_handle ?r)\<lparr>sesHash := sst\<rparr>" by simp
  have "\<exists>c out. decode_capture env (Some (concat (map encode_frame (reqs @ rsps @ [fin])))) stack len0 ?r' (Some 0)
      = Inr (c, out) \<and> handle_ok (rcv_handle (rcv c))
    \<and> (\<forall>g. conns (rcv_handle (rcv c)) g = conns (rcv_handle ?r') g)
    \<and> written (rcv_handle (rcv c)) = written (rcv_handle ?r')
        @ exchange_out bst (seg_ends (hd reqs)) res (stream_bytes reqs) (stream_bytes rsps)
    \<and> counter (rcv c) = counter ?r' + int (length (reqs @ rsps)) + 2
    \<and> length out = seg_total fin"
  proof (rule decode_exchange)
    show "calm (fst (env i)) (rcv_handle ?r')" for i
    proof -
      have "lastTimeOutCheck (rcv_handle ?r') = now" using sst(5) by simp
      then show ?thesis using c calm_from by blast
    qed
    show "counter ?r' + int (length (reqs @ rsps)) < 2147483646" unfolding cnt using c by linarith
    show "list_all (fits (length stack)) (reqs @ rsps @ [fin])" unfolding st using c by blast
    show "length stack \<le> 2000" using st by simp
    show "conns (rcv_handle ?r') (seg_flow (hd reqs)) = None" unfolding h' using sst(3) by blast
    show "handle_ok (rcv_handle ?r')" "ptr_ok (Some 0) (rcv_handle ?r')" unfolding h' using sst(2,4) .
  qed (use c in blast)+
  then obtain c out where co: "decode_capture env (Some (concat (map encode_frame (reqs @ rsps @ [fin])))) stack len0 ?r' (Some 0)
      = Inr (c, out)"
    "\<forall>g. conns (rcv_handle (rcv c)) g = conns (rcv_handle ?r') g"
    "written (rcv_handle (rcv c)) = written (rcv_handle ?r')
        @ exchange_out bst (seg_ends (hd reqs)) res (stream_bytes reqs) (stream_bytes rsps)"
    "counter (rcv c) = counter ?r' + int (length (reqs @ rsps)) + 2" "length out = seg_total fin"
    by blast
  have "AppMain_main now env raw (Some (concat (map encode_frame (reqs @ rsps @ [fin])))) stack len0
      = Inr (c, out)"
    unfolding AppMain_main_def Let_def sst(1) bindR.simps prod.case by (rule co(1))
  moreover have "conns (rcv_handle (rcv c)) f = None" for f using co(2) sst(3) unfolding h' by metis
  ultimately show ?thesis
    using co(3-5) cnt sst(6) by (intro exI [of _ c] exI [of _ out]) simp
qed

text \<open>The actor: constructed, then told to start.\<close>

lemma actor_as_main:
  "bindR (http_parser_new now (env_al (fst (env 0))) raw) (http_parser_start env fil stack len0)
   = bindR (AppMain_main now env raw fil stack len0) (\<lambda>(c, out).
       Inr (\<lparr>hp_rcv = rcv c, hp_fs = fs c\<rparr>, out))"
  by (simp add: http_parser_new_def http_parser_start_def AppMain_main_def Let_def bindR_assoc
      split_def)

section \<open>Frames the loop does not handle\<close>

text \<open>A frame of more than 2000 bytes is written past the end of the array.\<close>

lemma step_oversize:
  assumes s: "seg_ok s" and m: "length (tmp1 c) = 2000" and big: "2000 < length (encode_frame s)"
    and f: "unread (cap_file c) = encode_frame s @ tail"
  shows "capture_step env tv c = Inl OutOfBounds"
proof -
  let ?m = "tmp1 c" and ?e = "eth_bytes" and ?h = "take 20 (ip_packet s)" and ?t = "drop 20 (ip_packet s)"
  note fp = frame_pieces(1) [of s] frame_pieces(2) frame_pieces(3,4) [of s]
  let ?m1 = "?e @ drop 14 ?m" and ?m2 = "?e @ ?h @ drop 34 ?m"
  let ?f1 = "\<lparr>unread = ?h @ ?t @ tail, at_eof = at_eof (cap_file c)\<rparr>"
  let ?f2 = "\<lparr>unread = ?t @ tail, at_eof = at_eof (cap_file c)\<rparr>"
  have r1: "c_fread ?m 0 14 (cap_file c) = Inr (?m1, ?f1)"
    using c_fread_all [of "cap_file c" ?e "?h @ ?t @ tail" 0 ?m] f fp m by simp
  have r2: "c_fread ?m1 14 20 ?f1 = Inr (?m2, ?f2)"
    using c_fread_all [of ?f1 ?h "?t @ tail" 14 ?m1] fp(2,3) m by simp
  have tot: "seg_total s < 2 ^ 15" "1986 < seg_total s"
    using s big by (simp_all add: seg_ok_def length_frame)
  have n: "unat (ucast (of_nat (seg_total s) :: u16) - 20 :: u64) = seg_total s - 20"
  proof -
    have "(ucast (of_nat (seg_total s) :: u16) :: u64) = of_nat (seg_total s)"
      using tot by (intro ucast_of_nat_small) simp
    then have "(ucast (of_nat (seg_total s) :: u16) - 20 :: u64) = of_nat (seg_total s - 20)"
      using length_ip_packet(2) [of s] by (simp add: of_nat_diff)
    then show ?thesis using tot(1) by (simp add: unat_of_nat_small)
  qed
  have r3: "c_fread ?m2 34 (seg_total s - 20) ?f2 = Inl OutOfBounds"
  proof -
    have "take (seg_total s - 20) (?t @ tail) = ?t" using fp(4) by simp
    moreover have "?t \<noteq> []" "length ?m2 = 2000" using fp(2-4) tot m by (auto simp flip: length_0_conv)
    ultimately show ?thesis using fp(4) tot by (simp add: c_fread_def c_write_def)
  qed
  have ty: "load16 ?m1 12 = Inr (ntohs ETHERTYPE_IP)" by (rule frame_type) simp
  have ln: "host16 (load16 ?m2 16) = Inr (of_nat (seg_total s))" by (rule frame_length) simp
  show ?thesis
    unfolding capture_step_def r1 bindR.simps prod.case ty by (simp add: r2 ln n r3)
qed

text \<open>
  The type of an IPv6 frame is compared before its bytes are swapped: only the Ethernet header is
  consumed, and the receiver does not see the packet.
\<close>

lemma step_ipv6:
  assumes m: "length (tmp1 c) = 2000" and a: "length addrs = 12"
    and f: "unread (cap_file c) = addrs @ [CHR 0x86, CHR 0xDD] @ packet"
  shows "capture_step env tv c
    = Inr (c\<lparr>tmp1 := overlay (addrs @ [CHR 0x86, CHR 0xDD]) (tmp1 c),
             cap_file := \<lparr>unread = packet, at_eof = at_eof (cap_file c)\<rparr>\<rparr>)"
proof -
  let ?t = "[CHR 0x86, CHR 0xDD]"
  let ?m1 = "addrs @ ?t @ drop 14 (tmp1 c)"
  have r1: "c_fread (tmp1 c) 0 14 (cap_file c)
      = Inr (?m1, \<lparr>unread = packet, at_eof = at_eof (cap_file c)\<rparr>)"
    using c_fread_all [of "cap_file c" "addrs @ ?t" packet 0 "tmp1 c"] f a m by simp
  have "load16 (addrs @ ?t @ drop 14 (tmp1 c)) (length addrs + 0) = load16 (?t @ drop 14 (tmp1 c)) 0"
    by (rule load16_append)
  moreover have "load16 (?t @ drop 14 (tmp1 c)) 0 = Inr 0xDD86"
    by (simp only: append_Cons append_Nil load16_Cons) simp
  ultimately have ty: "load16 ?m1 12 = Inr 0xDD86" using a by simp
  have no: "ntohs 0xDD86 \<noteq> ETHERTYPE_IP" "(0xDD86 :: u16) \<noteq> ETHERTYPE_IPV6"
    by (simp_all add: ntohs_def ETHERTYPE_IP_def ETHERTYPE_IPV6_def)
  show ?thesis
    unfolding capture_step_def r1 bindR.simps prod.case ty using no a by (simp add: overlay_def)
qed

end
