(* ===== verification/HttpProperties.thy ===== *)
theory HttpProperties
  imports Capture
begin

text \<open>
  The properties of the HTTP decoder, from the program as a whole down to its components, each with
  a concrete instance where it has hypotheses.
\<close>

section \<open>Concrete surroundings for the instances\<close>

text \<open>
  \<open>lexical_cast\<close> on the strings the instances use: the bits of the nearest single-precision value
  and the value of a decimal number.
\<close>

definition ex_boost :: boost where
  "ex_boost =
     \<lparr>lex_u32 = (\<lambda>s. if s = ''200'' then Some 200 else None),
      lex_float = (\<lambda>s. if s = ''1.1'' then Some 0x3F8CCCCD
                      else if s = ''1.0'' then Some 0x3F800000
                      else if s = ''0.9'' then Some 0x3F666666 else None),
      lex_port = (\<lambda>p. Some (show_dec (unat p)))\<rparr>"

definition ex_env :: call_env where
  "ex_env =
     \<lparr>env_al = plenty (\<lambda>_. NUL), env_boost = ex_boost, env_raw = zero_session,
      t_check = 0, t_find = 0, t_create = 0\<rparr>"

definition ex_seg :: "bool \<Rightarrow> u32 \<Rightarrow> bool \<Rightarrow> string \<Rightarrow> segment" where
  "ex_seg to_srv seq fin d =
     \<lparr>sg_src_ip = (if to_srv then 1 else 2), sg_dst_ip = (if to_srv then 2 else 1),
      sg_src_port = (if to_srv then 4000 else 80), sg_dst_port = (if to_srv then 80 else 4000),
      sg_seq = seq, sg_ack = 0, sg_fin = fin, sg_rst = False, sg_ip_opts = [], sg_tcp_opts = [],
      sg_data = d\<rparr>"

definition ex_handle :: chandle where
  "ex_handle =
     \<lparr>sesHash = \<lparr>heap = (\<lambda>_. zero_session), next_addr = 0, cseshash = (\<lambda>_. [])\<rparr>,
      lastTimeOutCheck = 0, written = []\<rparr>"

lemma ex_handle_ok: "handle_ok ex_handle" "conns ex_handle f = None" "session_of ex_handle f = None"
  by (simp_all add: handle_ok_def table_ok_def ex_handle_def conns_def session_of_def look_flow_def)

lemma ex_calm: "calm ex_env ex_handle" "calm_from 0 ex_env"
  by (simp_all add: calm_def calm_from_def ex_env_def ex_handle_def plenty_def)

lemma ex_version: "version_ok ex_boost ''HTTP/1.1'' 11"
proof -
  have "GetVersion ex_boost ''HTTP/1.1'' = Inr (Some 11)"
    by (simp add: GetVersion_def ex_boost_def float_times10_to_u32_def round24_def Let_def)
  then show ?thesis by (simp add: version_ok_def)
qed

section \<open>The program\<close>

text \<open>C1: a capture file that holds the frames of an exchange, the request and the response cut into
  segments in any way, is decoded by the program: the request line, the status line and the headers
  arrive in their fields, one record goes to the file of the client's port, nothing remains in the
  session table, and every frame is handed to the receiver once and the last one twice.\<close>

theorem capture_decoded:
  assumes env: "\<And>i. calm_from now (fst (env i)) \<and> env_boost (fst (env i)) = bst"
    and segs: "exchange_segs (fst (env 0)) reqs rsps fin"
    and fit: "list_all (fits 2000) (reqs @ rsps @ [fin])" "length (reqs @ rsps) < 2000000000"
    and req: "stream_bytes reqs = render_request method url version kvs body"
    and rsp: "stream_bytes rsps = render_response version code reason kvs' body'"
    and v: "version_ok bst version ver" and r: "request_ok method met url kvs"
    and p: "response_ok bst code c reason kvs'" and st: "length stack = 2000"
  shows "\<exists>cap out.
      AppMain_main now env raw (Some (concat (map encode_frame (reqs @ rsps @ [fin])))) stack len0
        = Inr (cap, out)
    \<and> written (rcv_handle (rcv cap)) = exchange_out bst (seg_ends (hd reqs))
        (decoded met url ver kvs c reason kvs' CResult_Reset) (stream_bytes reqs) (stream_bytes rsps)
    \<and> (\<forall>f. conns (rcv_handle (rcv cap)) f = None)
    \<and> counter (rcv cap) = int (length (reqs @ rsps)) + 2"
proof -
  have "spec_decode bst (stream_bytes reqs) (stream_bytes rsps) CResult_Reset
      = Inr (Some (decoded met url ver kvs c reason kvs' CResult_Reset))"
    using spec_decode_render [OF v r p req rsp] .
  then have "exchange_capture env now bst reqs rsps fin (decoded met url ver kvs c reason kvs' CResult_Reset)"
    using env segs fit by (simp add: exchange_capture_def)
  from main_exchange [OF this st, of raw len0] show ?thesis by blast
qed

definition ex_reqs :: "segment list" where
  "ex_reqs = [ex_seg True 1 False ''GET / HT'',
     ex_seg True 2 False (''TP/1.1'' @ [LF] @ ''Host:a'' @ [LF, LF])]"

definition ex_rsps :: "segment list" where
  "ex_rsps =
     [ex_seg False 3 False (''HTTP/1.1 200 OK'' @ [CR, LF] @ ''Server:b'' @ [LF, LF] @ ''hi'')]"

definition ex_fin :: segment where "ex_fin = ex_seg True 4 True []"

lemma ex_segs: "exchange_segs ex_env ex_reqs ex_rsps ex_fin"
  by (simp add: exchange_segs_def data_seg_def seg_ok_def seg_total_def ex_seg_def seg_flow_def
      to_server_def stream_bytes_def ex_env_def zero_session_def ex_reqs_def ex_rsps_def ex_fin_def)

lemma ex_fits: "list_all (fits 2000) (ex_reqs @ ex_rsps @ [ex_fin])"
  by (simp add: fits_def seg_ok_def length_frame seg_total_def ex_seg_def ex_reqs_def ex_rsps_def
      ex_fin_def)

lemma ex_bytes:
  "stream_bytes ex_reqs = render_request ''GET'' ''/'' ''HTTP/1.1'' [(''Host'', ''a'')] []"
  "stream_bytes ex_rsps = render_response ''HTTP/1.1'' ''200'' ''OK'' [(''Server'', ''b'')] ''hi''"
  by (simp_all add: stream_bytes_def ex_seg_def render_request_def render_response_def
      render_headers_def render_header_def ex_reqs_def ex_rsps_def)

lemma ex_messages:
  "request_ok ''GET'' GET ''/'' [(''Host'', ''a'')]"
  "response_ok ex_boost ''200'' 200 ''OK'' [(''Server'', ''b'')]"
  by (simp_all add: request_ok_def response_ok_def GetMethod_def header_ok_def ex_boost_def)

theorem capture_decoded_witness:
  "\<exists>cap out. AppMain_main 0 (\<lambda>_. (ex_env, (0, 0))) (\<lambda>_. zero_session)
      (Some (concat (map encode_frame (ex_reqs @ ex_rsps @ [ex_fin])))) (replicate 2000 NUL) 0
        = Inr (cap, out)
    \<and> written (rcv_handle (rcv cap)) = exchange_out ex_boost (2, 1, 80, 4000)
        (decoded 1 ''/'' 11 [(''Host'', ''a'')] 200 ''OK'' [(''Server'', ''b'')] CResult_Reset)
        (stream_bytes ex_reqs) (stream_bytes ex_rsps)
    \<and> counter (rcv cap) = 5"
proof -
  let ?env = "\<lambda>_. (ex_env, (0 :: int, 0 :: int))"
  have env: "calm_from 0 (fst (?env i)) \<and> env_boost (fst (?env i)) = ex_boost" for i :: nat
    using ex_calm(2) by (simp add: ex_env_def)
  have segs: "exchange_segs (fst (?env (0 :: nat))) ex_reqs ex_rsps ex_fin" using ex_segs by simp
  have len: "length (ex_reqs @ ex_rsps) < 2000000000" by (simp add: ex_reqs_def ex_rsps_def)
  have "seg_ends (hd ex_reqs) = (2, 1, 80, 4000)"
    by (simp add: ex_reqs_def ex_seg_def seg_ends_def to_server_def)
  moreover have "length (ex_reqs @ ex_rsps) = 3" by (simp add: ex_reqs_def ex_rsps_def)
  ultimately show ?thesis
    using capture_decoded [OF env segs ex_fits len ex_bytes ex_version ex_messages,
        of "replicate 2000 NUL" "\<lambda>_. zero_session" 0]
    by (auto simp: GET_def)
qed

section \<open>The receiver and the handler\<close>

text \<open>C2: for a data segment of any flow the handler does what the abstract connection does: the
  flow's connection makes one step, every other flow keeps its connection, the table stays
  consistent, and nothing but a completed exchange is written.\<close>

theorem segment_refines:
  assumes "handle_ok h" and "calm env h" and "seg_ok s" "\<not> sg_fin s" "\<not> sg_rst s"
    and "flow_ok env (to_server s) h (seg_flow s)" and "length rest < 2 ^ 30"
  shows "\<exists>sesp' h'. Receiver_HandleMessage env tv (Some (encode_frame s @ rest)) sesp h = Inr (sesp', h')
    \<and> handle_ok h'
    \<and> (\<forall>f. conns h' f = (if same_flow f (seg_flow s)
          then Some (spec_step (to_server s) s (seg_conn env h s)) else conns h f))
    \<and> written h' = written h @ flow_text env (to_server s) s h"
  using HandleMessage_data [OF assms, of tv sesp] by blast

theorem segment_refines_witness:
  "\<exists>sesp' h'. Receiver_HandleMessage ex_env (0, 0) (Some (encode_frame (ex_seg True 1 False ''GET''))) None
      ex_handle = Inr (sesp', h')
    \<and> conns h' (2, 1, 80, 4000)
      = Some \<lparr>cn_ends = (2, 1, 80, 4000), cn_seq = 1, cn_req = ''GET'', cn_rsp = []\<rparr>"
proof -
  let ?s = "ex_seg True 1 False ''GET''"
  have s: "seg_ok ?s" "\<not> sg_fin ?s" "\<not> sg_rst ?s"
    by (simp_all add: seg_ok_def seg_total_def ex_seg_def)
  have fo: "flow_ok ex_env (to_server ?s) ex_handle (seg_flow ?s)"
    by (simp add: flow_ok_def ex_handle_ok)
  have "same_flow (2, 1, 80, 4000) (seg_flow ?s)" by (simp add: seg_flow_def ex_seg_def)
  moreover have "spec_step (to_server ?s) ?s (seg_conn ex_env ex_handle ?s)
      = \<lparr>cn_ends = (2, 1, 80, 4000), cn_seq = 1, cn_req = ''GET'', cn_rsp = []\<rparr>"
    by (simp add: spec_step_def seg_conn_def ex_handle_ok seg_ends_def to_server_def ex_seg_def
        ex_env_def zero_session_def)
  ultimately show ?thesis
    using segment_refines [OF ex_handle_ok(1) ex_calm(1) s fo, of "[]" "(0, 0)" None] by fastforce
qed

text \<open>C3: a segment with FIN or RST ends the session of its flow: what was collected is decoded and
  written, the session leaves the table, and no other flow is touched.\<close>

theorem session_closes:
  assumes "handle_ok h" and "calm env h" and "seg_ok s" "sg_fin s \<or> sg_rst s"
    and "session_of h (seg_flow s) = Some t" "parse_ready (env_boost env) t"
  shows "\<exists>h'. Receiver_HandleMessage env tv (Some (encode_frame s @ rest)) sesp h = Inr (sesp, h')
    \<and> handle_ok h'
    \<and> (\<forall>g. conns h' g = (if same_flow g (seg_flow s) then None else conns h g))
    \<and> written h' = written h @ exchange_text (env_boost env) (conn_of t)"
  using HandleMessage_over [OF assms, of tv rest sesp] by blast

text \<open>A handler with one session that holds nothing yet.\<close>

definition ex_session :: csession where
  "ex_session = zero_session\<lparr>ServerIp := 2, ClientIp := 1, ServerPort := 80, ClientPort := 4000,
     ReqBuf := \<lparr>buf_len = 0, buf_free = BUFFER_SIZE, buf_mem = Some (replicate 2048 NUL)\<rparr>,
     RspBuf := \<lparr>buf_len = 0, buf_free = BUFFER_SIZE, buf_mem = Some (replicate 2048 NUL)\<rparr>\<rparr>"

definition ex_handle1 :: chandle where
  "ex_handle1 = ex_handle\<lparr>sesHash := snd (push_session ex_session (sesHash ex_handle))\<rparr>"

lemma ex_session_inv: "ses_inv ex_session" "flow_of ex_session = (2, 1, 80, 4000)"
  by (simp_all add: ses_inv_def session_ok_def buf_ok_def ex_session_def zero_session_def
      BUFFER_SIZE_def flow_of_def)

lemma ex_session_bytes: "contents (ReqBuf ex_session) = []" "contents (RspBuf ex_session) = []"
  by (simp_all add: contents_def ex_session_def)

lemma ex_handle1_ok: "handle_ok ex_handle1"
  "session_of ex_handle1 (1, 2, 4000, 80) = Some ex_session"
proof -
  have t: "table_ok (sesHash ex_handle)" "look_flow (sesHash ex_handle) (flow_of ex_session) = None"
    using ex_handle_ok by (simp_all add: handle_ok_def session_of_def)
  have n: "next_addr (sesHash ex_handle) = 0" by (simp add: ex_handle_def)
  have s0: "session_at ex_handle1 0 = ex_session"
    using n by (simp add: session_at_def ex_handle1_def)
  show "handle_ok ex_handle1"
    using push_session_ok [OF t] ex_session_inv(1) n s0
    by (simp add: handle_ok_def) (simp add: ex_handle1_def)
  have "look_flow (sesHash ex_handle1) (1, 2, 4000, 80) = Some 0"
    using look_push_session [OF t, of "(1, 2, 4000, 80)"] n ex_session_inv(2)
    by (simp add: ex_handle1_def)
  then show "session_of ex_handle1 (1, 2, 4000, 80) = Some ex_session"
    using s0 by (simp add: session_of_def)
qed

lemma ex_calm1: "calm ex_env ex_handle1"
  using ex_calm(1) by (simp add: calm_def ex_handle1_def)

theorem session_closes_witness:
  "\<exists>h'. Receiver_HandleMessage ex_env (0, 0) (Some (encode_frame ex_fin)) None ex_handle1 = Inr (None, h')
    \<and> conns h' (2, 1, 80, 4000) = None \<and> written h' = []"
proof -
  have s: "seg_ok ex_fin" "sg_fin ex_fin \<or> sg_rst ex_fin" and f: "seg_flow ex_fin = (1, 2, 4000, 80)"
    by (simp_all add: seg_ok_def seg_total_def ex_seg_def ex_fin_def seg_flow_def)
  have t: "session_of ex_handle1 (seg_flow ex_fin) = Some ex_session" using f ex_handle1_ok(2) by simp
  have r: "parse_ready (env_boost ex_env) ex_session"
    by (simp add: parse_ready_def quiet_buf_def quiet_end_def ex_session_def spec_decode_def contents_def)
  have "exchange_text (env_boost ex_env) (conn_of ex_session) = []" "written ex_handle1 = []"
    using ex_session_bytes
    by (simp_all add: exchange_text_def conn_of_def spec_decode_def ex_handle1_def ex_handle_def)
  moreover have "same_flow (2, 1, 80, 4000) (seg_flow ex_fin)" using f by simp
  ultimately show ?thesis
    using session_closes [OF ex_handle1_ok(1) ex_calm1 s t r, of "(0, 0)" "[]" None] by fastforce
qed

text \<open>C4: whatever packet arrives and whatever the match information says, when the handler returns its
  table is consistent, every session object keeps its invariant, none of them has disappeared, and the
  caller's session pointer is the old one or points to an existing object.\<close>

theorem process_keeps_invariant:
  assumes "CHandle_Process env p pInfo sesp h = Inr (sesp', h')"
    and "good (length (m_pPkt p)) h" and "al_ok (env_al env) 2048"
  shows "sound_result sesp h sesp' h'"
  using assms by (rule Process_good)

theorem process_keeps_invariant_witness:
  "\<exists>p sesp' h'. CHandle_Process ex_env p (Some (seg_info (ex_seg True 1 False ''GET''))) None ex_handle
      = Inr (sesp', h') \<and> sound_result None ex_handle sesp' h'"
proof -
  let ?s = "ex_seg True 1 False ''GET''"
  have s: "seg_ok ?s" "\<not> sg_fin ?s" "\<not> sg_rst ?s" "length (sg_data ?s) < 2 ^ 15"
    by (simp_all add: seg_ok_def seg_total_def ex_seg_def)
  obtain p where p: "shows_segment p ?s" "m_pPkt p = encode_frame ?s @ []"
    using Format_encode [OF s(1) refl] by blast
  have len: "length (m_pPkt p) = 57"
    using p(2) by (simp add: length_frame seg_total_def ex_seg_def)
  have fo: "flow_ok ex_env (to_server ?s) ex_handle (seg_flow ?s)" by (simp add: flow_ok_def ex_handle_ok)
  have len31: "length (m_pPkt p) < 2 ^ 31" using len by simp
  have way: "m_nIdtMatchWay (seg_info ?s) = match_of (to_server ?s)" by (simp add: seg_info_def)
  obtain sesp' h' where r: "CHandle_Process ex_env p (Some (seg_info ?s)) None ex_handle = Inr (sesp', h')"
    using Process_data [OF ex_handle_ok(1) ex_calm(1) fo p(1) s(2-4) len31 way, of None] by blast
  have g: "good (length (m_pPkt p)) ex_handle"
    using ex_handle_ok(1) len by (simp add: good_def ex_handle_def)
  have "al_ok (env_al ex_env) 2048" using ex_calm(1) by (simp add: calm_def)
  from process_keeps_invariant [OF r g this] r show ?thesis by blast
qed

text \<open>C5: when two minutes have passed since the start, every packet triggers a walk over the buckets 0
  to 65534: a session with data that has been idle for more than a minute is decoded and emptied, one
  that has been idle for an hour is dropped, and the others stay. The last bucket is never visited, and
  the time of the check is never stored.\<close>

theorem ageing:
  assumes "handle_ok h" and "al_ok (env_al env) 2048" and "120 \<le> t_check env - lastTimeOutCheck h"
    and "\<And>i a. i \<noteq> 65535 \<Longrightarrow> a \<in> set (cseshash (sesHash h) i)
      \<Longrightarrow> ageable env (t_check env) (session_at h a)"
  shows "\<exists>h'. CHandle_TimeOutCheck env h = Inr h' \<and> handle_ok h'
    \<and> (\<forall>i. i \<noteq> 65535 \<longrightarrow> cseshash (sesHash h') i
          = filter (\<lambda>a. t_check env - RefreshTime (session_at h a) < 3600) (cseshash (sesHash h) i))
    \<and> cseshash (sesHash h') 65535 = cseshash (sesHash h) 65535
    \<and> (\<forall>i a. i \<noteq> 65535 \<longrightarrow> a \<in> set (cseshash (sesHash h) i)
          \<longrightarrow> session_at h' a = aged_session env (t_check env) (session_at h a))
    \<and> (\<forall>a \<in> set (cseshash (sesHash h) 65535). session_at h' a = session_at h a)
    \<and> lastTimeOutCheck h' = lastTimeOutCheck h"
proof -
  obtain h' where run: "CHandle_TimeOutCheck env h = Inr h'"
    and ag: "aged_to env (t_check env) checked_buckets h h'"
    using TimeOutCheck_spec [OF assms(1-3)] assms(4) by blast
  note d = ag [unfolded aged_to_def set_checked_buckets]
  have at: "session_at h' = (\<lambda>a. if \<exists>i \<in> set checked_buckets. a \<in> set (cseshash (sesHash h) i)
      then aged_session env (t_check env) (session_at h a) else session_at h a)"
    using ag by (simp add: aged_to_def)
  have bk: "cseshash (sesHash h') = (\<lambda>i. if i \<noteq> 65535
      then filter (\<lambda>a. \<not> expired (t_check env) (session_at h a)) (cseshash (sesHash h) i)
      else cseshash (sesHash h) i)"
    using d by (elim conjE)
  then have last: "cseshash (sesHash h') 65535 = cseshash (sesHash h) 65535" by simp
  have "cseshash (sesHash h') i
      = filter (\<lambda>a. t_check env - RefreshTime (session_at h a) < 3600) (cseshash (sesHash h) i)"
    if "i \<noteq> 65535" for i
    unfolding bk using that by (simp add: expired_def TIMEOUT_def not_le)
  moreover have "session_at h' a = aged_session env (t_check env) (session_at h a)"
    if "i \<noteq> 65535" "a \<in> set (cseshash (sesHash h) i)" for i a
  proof -
    have "\<exists>i \<in> set checked_buckets. a \<in> set (cseshash (sesHash h) i)"
      using that set_checked_buckets by blast
    then show ?thesis unfolding at by (rule if_P)
  qed
  moreover have "session_at h' a = session_at h a" if "a \<in> set (cseshash (sesHash h) 65535)" for a
  proof -
    have "\<not> (\<exists>i \<in> set checked_buckets. a \<in> set (cseshash (sesHash h) i))"
      using buckets_disjoint [OF assms(1) that] set_checked_buckets by blast
    then show ?thesis unfolding at by (rule if_not_P)
  qed
  moreover have "handle_ok h'" "lastTimeOutCheck h' = lastTimeOutCheck h" using ag by (simp_all add: aged_to_def)
  ultimately show ?thesis using run last by blast
qed

theorem ageing_witness:
  "\<exists>h'. CHandle_TimeOutCheck (ex_env\<lparr>t_check := 4000\<rparr>) ex_handle1 = Inr h'
    \<and> cseshash (sesHash h') (flow_hash (flow_of ex_session)) = []"
proof -
  let ?env = "ex_env\<lparr>t_check := 4000\<rparr>" and ?i = "flow_hash (flow_of ex_session)"
  have al: "al_ok (env_al ?env) 2048" by (simp add: ex_env_def)
  have due: "120 \<le> t_check ?env - lastTimeOutCheck ex_handle1" by (simp add: ex_handle1_def ex_handle_def)
  have b: "cseshash (sesHash ex_handle1) i = (if i = ?i then [0] else [])" for i
    by (simp add: ex_handle1_def ex_handle_def)
  have s0: "session_at ex_handle1 0 = ex_session" by (simp add: session_at_def ex_handle1_def ex_handle_def)
  have "\<not> has_data ex_session"
    using has_data_iff [of ex_session] ex_session_inv(1) ex_session_bytes by (simp add: ses_inv_def)
  then have ag: "ageable ?env (t_check ?env) (session_at ex_handle1 a)"
    if "i \<noteq> 65535" "a \<in> set (cseshash (sesHash ex_handle1) i)" for i a
    using that b [of i] s0 by (auto simp: ageable_iff aged_def split: if_splits)
  have "?i \<noteq> 65535"
    by (simp add: ex_session_inv HashVal_def Let_def)
  moreover have "RefreshTime ex_session = 0" by (simp add: ex_session_def zero_session_def)
  ultimately show ?thesis
    using ageing [OF ex_handle1_ok(1) al due ag] b [of ?i] s0 by fastforce
qed

section \<open>Packets\<close>

text \<open>C6: the packet view of a frame shows the fields the sender put into it: addresses, ports, protocol,
  sequence numbers, FIN and RST, and the payload, with any options in both headers and any memory
  behind the frame.\<close>

theorem frame_round_trip:
  assumes "seg_ok s"
  shows "\<exists>p. CFormatPacket_Format now (encode_frame s @ rest) = Inr p \<and> shows_segment p s
    \<and> GetPacketTime p = now"
  using Format_encode [OF assms refl, of now rest] by blast

theorem frame_round_trip_witness:
  "\<exists>p. CFormatPacket_Format (7, 8) (encode_frame (ex_seg True 1 True ''GET'') @ ''xyz'') = Inr p
    \<and> tcp_field p tcphdr_fin = Inr True \<and> host32 (GetDstIp p) = Inr 2"
proof -
  have "seg_ok (ex_seg True 1 True ''GET'')" by (simp add: seg_ok_def seg_total_def ex_seg_def)
  from frame_round_trip [OF this, of "(7, 8)" "''xyz''"] show ?thesis
    by (auto simp: shows_segment_def ex_seg_def)
qed

text \<open>Formatting never leaves a block of at least 87 bytes, whatever its header lengths claim.\<close>

theorem format_safe:
  assumes "87 \<le> length m"
  shows "\<exists>p. CFormatPacket_Format now m = Inr p"
  using assms by (rule Format_total)

theorem format_safe_witness: "\<exists>p. CFormatPacket_Format (0, 0) (replicate 87 (CHR 0xFF)) = Inr p"
  by (rule format_safe) simp

section \<open>The HTTP parser\<close>

text \<open>C7: the parser that walks over the buffers computes the grammar of requests and responses on the
  collected bytes: it faults only where the grammar does, writes the record of the decoded messages or
  nothing, and leaves the session empty.\<close>

theorem parse_computes_grammar:
  assumes "session_ok s" and "al_ok al 2048" and "quiet_buf (ReqBuf s)" "quiet_buf (RspBuf s)"
  shows "case spec_decode bst (contents (ReqBuf s)) (contents (RspBuf s)) (Result s) of
      Inl e \<Rightarrow> CHttpParse_Parse bst al s = Inl e
    | Inr None \<Rightarrow> \<exists>s'. CHttpParse_Parse bst al s = Inr (s', []) \<and> cleared s s'
    | Inr (Some r) \<Rightarrow> \<exists>s'. CHttpParse_Parse bst al s = Inr (s', emitted bst (s\<lparr>Result := r\<rparr>))
        \<and> cleared s s'"
  using assms by (rule Parse_refines)

text \<open>A session whose buffers hold the given bytes in blocks of the default size.\<close>

definition ex_buf :: "string \<Rightarrow> cbuffer" where
  "ex_buf b = \<lparr>buf_len = of_nat (length b), buf_free = of_nat (2048 - length b),
     buf_mem = Some (b @ replicate (2048 - length b) NUL)\<rparr>"

definition ex_holding :: "string \<Rightarrow> string \<Rightarrow> csession" where
  "ex_holding req rsp = ex_session\<lparr>ReqBuf := ex_buf req, RspBuf := ex_buf rsp\<rparr>"

lemma ex_buf_ok:
  assumes "length b < 2048"
  shows "buf_ok (ex_buf b)" "contents (ex_buf b) = b" "quiet_buf (ex_buf b)"
proof -
  have u: "unat (of_nat (length b) :: u32) = length b"
    and v: "unat (of_nat (2048 - length b) :: u32) = 2048 - length b"
    using assms by (intro unat_of_nat_small, simp)+
  have "(of_nat (2048 - length b) :: u32) \<noteq> 0" using v assms by (metis unat_0 zero_less_diff less_irrefl)
  then have "0 < (of_nat (2048 - length b) :: u32)" by (simp add: word_greater_zero_iff)
  then show "buf_ok (ex_buf b)" using assms u v by (simp add: buf_ok_def ex_buf_def)
  show "contents (ex_buf b) = b" using u by (simp add: contents_def ex_buf_def)
  show "quiet_buf (ex_buf b)"
    using assms u by (simp add: quiet_buf_def quiet_end_def ex_buf_def nth_append)
qed

lemma ex_holding_ok:
  assumes "length req < 2048" and "length rsp < 2048"
  shows "session_ok (ex_holding req rsp)" "contents (ReqBuf (ex_holding req rsp)) = req"
    "contents (RspBuf (ex_holding req rsp)) = rsp"
    "quiet_buf (ReqBuf (ex_holding req rsp))" "quiet_buf (RspBuf (ex_holding req rsp))"
  using ex_buf_ok [OF assms(1)] ex_buf_ok [OF assms(2)]
  by (simp_all add: ex_holding_def session_ok_def)

theorem parse_computes_grammar_witness:
  "\<exists>s'. CHttpParse_Parse ex_boost (plenty (\<lambda>_. NUL)) (ex_holding ''GET'' ''OK'')
    = Inr (s', [(''../../4000'', record_text (ex_holding ''GET'' ''OK'') ''GET'' ''OK'')])
    \<and> contents (ReqBuf s') = []"
proof -
  let ?s = "ex_holding ''GET'' ''OK''"
  have "length ''GET'' < 2048" "length ''OK'' < 2048" by simp_all
  note h = ex_holding_ok [OF this]
  have d: "spec_decode ex_boost (contents (ReqBuf ?s)) (contents (RspBuf ?s)) (Result ?s)
      = Inr (Some (Result ?s))"
    by (simp add: h spec_decode_def)
  have port: "ClientPort ?s = 4000" by (simp add: ex_holding_def ex_session_def)
  have show4000: "show_dec 4000 = ''4000''" by code_simp
  have "?s\<lparr>Result := Result ?s\<rparr> = ?s" by simp
  then have "emitted ex_boost (?s\<lparr>Result := Result ?s\<rparr>)
      = [(''../../4000'', record_text ?s ''GET'' ''OK'')]"
    using show4000 by (simp add: emitted_def h port ex_boost_def)
  then show ?thesis
    using parse_computes_grammar [OF h(1) _ h(4,5), of "plenty (\<lambda>_. NUL)" ex_boost] d
    by (auto simp: cleared_def)
qed

text \<open>C8: parsing rendered header lines gives back the entries: the map is in key order, of several
  lines with one key the last one wins, and the position stops behind the empty line.\<close>

theorem headers_round_trip:
  assumes "in_window m len pos" and "quiet_end m len"
    and "window m len pos = render_headers kvs @ rest" and "list_all header_ok kvs"
  shows "\<exists>pos' hm. ParseHeader m len pos [] = Inr (True, pos', hm) \<and> window m len pos' = rest
    \<and> map_of hm = map_of (rev kvs) \<and> hm_sorted hm"
proof -
  have "spec_headers (window m len pos) [] = Some (collect kvs [], rest)"
    unfolding assms(3) using spec_headers_rendered [OF assms(4)] .
  with ParseHeader_refines [OF assms(1,2), of "[]"] obtain pos' where
    "ParseHeader m len pos [] = Inr (True, pos', collect kvs [])" "window m len pos' = rest"
    by (auto simp: agrees_def split: if_splits)
  moreover have "map_of (collect kvs []) = map_of (rev kvs)" by (simp add: map_of_collect)
  moreover have "hm_sorted (collect kvs [])" by (rule collect_sorted) (simp add: hm_sorted_def)
  ultimately show ?thesis by blast
qed

theorem headers_round_trip_witness:
  "\<exists>pos' hm. ParseHeader (''b:1'' @ [LF] @ ''a:2'' @ [LF] @ ''b:3'' @ [LF, LF] @ ''x'' @ [NUL]) 14 0 []
      = Inr (True, pos', hm) \<and> map_of hm ''b'' = Some ''3'' \<and> map_of hm ''a'' = Some ''2''"
proof -
  let ?m = "''b:1'' @ [LF] @ ''a:2'' @ [LF] @ ''b:3'' @ [LF, LF] @ ''x'' @ [NUL]"
  let ?kvs = "[(''b'', ''1''), (''a'', ''2''), (''b'', ''3'')]"
  have "in_window ?m 14 0" "quiet_end ?m 14" by (simp_all add: in_window_def quiet_end_def)
  moreover have "window ?m 14 0 = render_headers ?kvs @ ''x''"
    by (simp add: window_def render_headers_def render_header_def)
  moreover have "list_all header_ok ?kvs" by (simp add: header_ok_def)
  ultimately show ?thesis using headers_round_trip [of ?m 14 0 ?kvs "''x''"] by fastforce
qed

text \<open>A request whose request line ends in CRLF, as HTTP prescribes, is not decoded, whatever it
  and the response contain: the version is compared with its carriage return. Nothing is written.\<close>

theorem crlf_request_dropped:
  assumes "session_ok s" and "al_ok al 2048" and "quiet_buf (ReqBuf s)" "quiet_buf (RspBuf s)"
    and "contents (ReqBuf s) = crlf_request method url version rest"
    and "GetMethod method = Inr met" "SP \<notin> set url" "LF \<notin> set version" "length version = 8"
  shows "\<exists>s'. CHttpParse_Parse bst al s = Inr (s', []) \<and> cleared s s'"
proof -
  have "spec_decode bst (contents (ReqBuf s)) (contents (RspBuf s)) (Result s) = Inr None"
    using spec_decode_crlf [OF assms(6-9,5)] .
  then show ?thesis using Parse_refines [OF assms(1-4), of bst] by simp
qed

theorem crlf_request_dropped_witness:
  "\<exists>s'. CHttpParse_Parse ex_boost (plenty (\<lambda>_. NUL))
      (ex_holding (''GET / HTTP/1.1'' @ [CR, LF, CR, LF]) ''HTTP/1.1 200 OK'') = Inr (s', [])"
proof -
  let ?req = "''GET / HTTP/1.1'' @ [CR, LF, CR, LF]" and ?rsp = "''HTTP/1.1 200 OK''"
  have "length ?req < 2048" "length ?rsp < 2048" by simp_all
  note h = ex_holding_ok [OF this]
  have "contents (ReqBuf (ex_holding ?req ?rsp)) = crlf_request ''GET'' ''/'' ''HTTP/1.1'' [CR, LF]"
    by (simp only: h) (simp add: crlf_request_def)
  moreover have "GetMethod ''GET'' = Inr GET" by (simp add: GetMethod_def)
  ultimately show ?thesis
    using crlf_request_dropped [OF h(1) plenty_ok h(4,5), of "''GET''" "''/''" "''HTTP/1.1''"
        "[CR, LF]" GET ex_boost]
    by auto
qed

text \<open>When the response ends with the carriage return of its status line and the byte behind the
  response is a line feed, which is no part of it, the parser takes the two for the line end, passes the
  end of the buffer and reads outside the block.\<close>

theorem status_line_runs_over:
  assumes "version_ok bst version (Version r)" and "SP \<notin> set code" "lex_u32 bst code = Some c"
    and "CR \<notin> set reason" and "m = version @ [SP] @ code @ [SP] @ reason @ [CR, LF]"
    and "length m < 2 ^ 31"
  shows "parse_response bst m (of_nat (length m - 1)) r = Inl OutOfBounds"
  using assms by (rule status_line_overread)

theorem status_line_runs_over_witness:
  "parse_response ex_boost (''HTTP/1.1 200 OK'' @ [CR, LF]) 16 (CResult_Reset\<lparr>Version := 11\<rparr>)
    = Inl OutOfBounds"
  using status_line_runs_over [of ex_boost "''HTTP/1.1''" "CResult_Reset\<lparr>Version := 11\<rparr>" "''200''" 200 "''OK''"
      "''HTTP/1.1 200 OK'' @ [CR, LF]"] ex_version
  by (simp add: ex_boost_def)

end
