(* ===== verification/HttpLimits.thy ===== *)
theory HttpLimits
  imports HttpProperties
begin

text \<open>
  Properties of the HTTP decoder's parts: the table of sessions and the reassembly buffer behave as
  the map and the byte string they stand for, the fields of a message are read as documented; and
  the inputs at which the program leaves its contract: methods it does not know, negative payload
  lengths, blocks without a closing NUL, frames larger than the array, IPv6 frames, and a first
  packet whose sequence number the new session happens to hold.
\<close>

section \<open>The table of sessions\<close>

text \<open>What \<open>Find\<close> returns for every flow.\<close>

definition found :: "int \<Rightarrow> ses_store \<Rightarrow> flow \<Rightarrow> nat option" where
  "found now st = (\<lambda>(a, b, c, d). fst (CSessionHashTable_Find now a b c d st))"

lemma found_look: "found now st = look_flow st"
  by (rule ext) (simp add: found_def Find_look split: prod.split option.split)

lemma found_stored:
  assumes "table_ok st"
  shows "look_flow st f = Some x \<longleftrightarrow>
    (\<exists>i. x \<in> set (cseshash st i)) \<and> same_flow f (flow_of (heap st x))"
  using assms table_okD(3) [OF assms, of x] same_flow_hash [of f "flow_of (heap st x)"]
  by (auto simp: look_flow_Some_iff)

lemma Find_keeps:
  "table_ok st \<Longrightarrow> table_ok (snd (CSessionHashTable_Find now a b c d st))"
  "look_flow (snd (CSessionHashTable_Find now a b c d st)) = look_flow st"
  by (simp_all add: Find_look update_session_ok look_update_session flow_of_def fun_eq_iff
      split: option.split)

lemma Create_map:
  assumes "table_ok st" and "packet_flow pkt = Inr f" and "al_ok al 2048" and "look_flow st f = None"
  shows "\<exists>x st'. CSessionHashTable_Create al raw t pkt info st = Inr (x, st') \<and> table_ok st'
    \<and> look_flow st' = (\<lambda>g. if same_flow g f then Some x else look_flow st g)
    \<and> flow_of (heap st' x) = ends_of info f \<and> (\<forall>y. y \<noteq> x \<longrightarrow> heap st' y = heap st y)"
proof -
  obtain s where s: "CSessionHashTable_Create al raw t pkt info st = Inr (push_session s st)"
    "same_flow f (flow_of s)" "flow_of s = ends_of info f"
    using Create_spec [OF assms(2,3)] by blast
  have new: "look_flow st (flow_of s) = None" using look_flow_same [OF s(2)] assms(4) by simp
  have "same_flow g (flow_of s) = same_flow g f" for g
    using s(2) by (blast intro: same_flow_sym same_flow_trans)
  then have "look_flow (snd (push_session s st))
      = (\<lambda>g. if same_flow g f then Some (next_addr st) else look_flow st g)"
    using sestab.look_add [OF assms(1) new] by (simp add: fun_eq_iff)
  moreover have "push_session s st = (next_addr st, snd (push_session s st))"
    by (metis prod.collapse push_session_simps(1))
  ultimately show ?thesis
    using s(1,3) sestab.inv_add [OF assms(1) new]
    by (intro exI [of _ "next_addr st"] exI [of _ "snd (push_session s st)"]) simp
qed

text \<open>C9: the session table is a map from undirected flows to sessions. After Init it is empty; on
  every consistent table Find returns exactly the stored session of the flow, in either direction,
  and changes nothing but its time stamp; Create for a packet of a flow that is not in the table adds
  one session of that flow, with the server the match information names; Remove takes the flow out.
  Each keeps the table consistent and leaves the sessions found for every other flow as they were,
  those behind the removed one in its bucket included.\<close>

theorem session_table_map:
  assumes "table_ok st"
  shows "table_ok (CSessionHashTable_Init st) \<and> found now (CSessionHashTable_Init st) = (\<lambda>f. None)
    \<and> (\<forall>a b c d. case CSessionHashTable_Find t a b c d st of (r, st') \<Rightarrow>
         table_ok st' \<and> found now st' = found now st
       \<and> (\<forall>x. (r = Some x) = ((\<exists>i. x \<in> set (cseshash st i)) \<and> IsSameSes a b c d (heap st x)))
       \<and> heap st' = (\<lambda>x. if r = Some x then (heap st x)\<lparr>RefreshTime := t mod 2 ^ 32\<rparr> else heap st x))
    \<and> (\<forall>pkt f. packet_flow pkt = Inr f \<and> al_ok al 2048 \<and> found now st f = None \<longrightarrow>
         (\<exists>x st'. CSessionHashTable_Create al raw t pkt info st = Inr (x, st')
           \<and> table_ok st' \<and> found now st' = (\<lambda>g. if same_flow g f then Some x else found now st g)
           \<and> flow_of (heap st' x) = ends_of info f \<and> (\<forall>y. y \<noteq> x \<longrightarrow> heap st' y = heap st y)))
    \<and> (\<forall>a b c d. let st' = CSessionHashTable_Remove a b c d st in
         table_ok st' \<and> heap st' = heap st
       \<and> found now st' = (\<lambda>g. if same_flow g (a, b, c, d) then None else found now st g))"
proof (intro conjI allI impI)
  show "found now (CSessionHashTable_Init st) = (\<lambda>f. None)"
    by (simp add: found_look look_flow_def CSessionHashTable_Init_def fun_eq_iff)
next
  fix a b c d
  have stored: "((\<exists>i. x \<in> set (cseshash st i)) \<and> IsSameSes a b c d (heap st x))
      = (look_flow st (a, b, c, d) = Some x)" for x
    using found_stored [OF assms, of "(a, b, c, d)" x] by (simp add: IsSameSes_flow)
  show "case CSessionHashTable_Find t a b c d st of (r, st') \<Rightarrow>
         table_ok st' \<and> found now st' = found now st
       \<and> (\<forall>x. (r = Some x) = ((\<exists>i. x \<in> set (cseshash st i)) \<and> IsSameSes a b c d (heap st x)))
       \<and> heap st' = (\<lambda>x. if r = Some x then (heap st x)\<lparr>RefreshTime := t mod 2 ^ 32\<rparr> else heap st x)"
    unfolding found_look stored
    using Find_keeps(1) [OF assms, of t a b c d] Find_keeps(2) [of t a b c d st]
    by (cases "look_flow st (a, b, c, d)") (auto simp: Find_look fun_eq_iff)
next
  fix pkt f assume "packet_flow pkt = Inr f \<and> al_ok al 2048 \<and> found now st f = None"
  then show "\<exists>x st'. CSessionHashTable_Create al raw t pkt info st = Inr (x, st')
      \<and> table_ok st' \<and> found now st' = (\<lambda>g. if same_flow g f then Some x else found now st g)
      \<and> flow_of (heap st' x) = ends_of info f \<and> (\<forall>y. y \<noteq> x \<longrightarrow> heap st' y = heap st y)"
    unfolding found_look using Create_map [OF assms] by blast
next
  fix a b c d
  have "CSessionHashTable_Remove a b c d st = remove_flow (a, b, c, d) st"
    by (simp add: remove_flow_def)
  then show "let st' = CSessionHashTable_Remove a b c d st in table_ok st' \<and> heap st' = heap st
      \<and> found now st' = (\<lambda>g. if same_flow g (a, b, c, d) then None else found now st g)"
    by (simp add: found_look sestab.inv_del [OF assms] sestab.look_del [OF assms] fun_eq_iff)
qed (rule table_ok_Init)

text \<open>Two flows of one bucket: the first is removed, the second is found, in both directions; and
  the frame of a new flow then creates its session.\<close>

definition ex_table :: ses_store where
  "ex_table = snd (push_session
      (zero_session\<lparr>ServerIp := 3, ClientIp := 0, ServerPort := 80, ClientPort := 4000\<rparr>)
      (snd (push_session
        (zero_session\<lparr>ServerIp := 1, ClientIp := 2, ServerPort := 80, ClientPort := 4000\<rparr>)
        (sesHash ex_handle))))"

lemma ex_table_ok: "table_ok ex_table" "cseshash ex_table (HashVal 1 2 80 4000) = [0, 1]"
proof -
  let ?s = "zero_session\<lparr>ServerIp := 1, ClientIp := 2, ServerPort := 80, ClientPort := 4000\<rparr>"
  let ?t = "zero_session\<lparr>ServerIp := 3, ClientIp := 0, ServerPort := 80, ClientPort := 4000\<rparr>"
  have "table_ok (sesHash ex_handle)" "look_flow (sesHash ex_handle) (flow_of ?s) = None"
    by (simp_all add: table_ok_def ex_handle_def look_flow_def)
  note one = push_session_ok [OF this] look_push_session [OF this, of "flow_of ?t"]
  have "look_flow (snd (push_session ?s (sesHash ex_handle))) (flow_of ?t) = None"
    unfolding one(2) by (simp add: flow_of_def) (simp add: look_flow_def ex_handle_def)
  from push_session_ok [OF one(1) this] show "table_ok ex_table" by (simp add: ex_table_def)
  show "cseshash ex_table (HashVal 1 2 80 4000) = [0, 1]"
    by (simp add: ex_table_def ex_handle_def flow_of_def HashVal_def)
qed

theorem session_table_map_witness:
  "found 9 ex_table (2, 1, 4000, 80) = Some 0 \<and> found 9 ex_table (0, 3, 4000, 80) = Some 1
    \<and> found 9 (CSessionHashTable_Remove 1 2 80 4000 ex_table) (2, 1, 4000, 80) = None
    \<and> found 9 (CSessionHashTable_Remove 1 2 80 4000 ex_table) (0, 3, 4000, 80) = Some 1"
proof -
  have look: "found 9 ex_table (2, 1, 4000, 80) = Some 0" "found 9 ex_table (0, 3, 4000, 80) = Some 1"
    by (simp_all add: found_look look_flow_def ex_table_def ex_handle_def flow_of_def HashVal_def)
  have "found 9 (CSessionHashTable_Remove 1 2 80 4000 ex_table)
      = (\<lambda>g. if same_flow g (1, 2, 80, 4000) then None else found 9 ex_table g)"
    using session_table_map [OF ex_table_ok(1), of 9] by (simp add: Let_def)
  then show ?thesis using look by simp
qed

section \<open>The reassembly buffer\<close>

text \<open>Whatever a buffer held, after Reset the segments appended to it are its contents, in order,
  as long as they stay below the 32 bits of the length; no append fails when memory does not run out.\<close>

theorem buffer_reassembles:
  assumes "buf_ok b" and "length (concat segs) < 2 ^ 32"
  shows "\<exists>b0 b'. CBuffer_Reset (plenty junk) b = Inr b0
    \<and> foldR (\<lambda>cs b. bindR (CBuffer_Append (plenty junk) b (Some (cs, 0)) (of_nat (length cs)))
        (\<lambda>r. Inr (snd r))) segs b0 = Inr b'
    \<and> buf_ok b' \<and> contents b' = concat segs"
  using cbuf.reset_reassemble [OF assms, of junk] by (simp only: append_bytes_def)

theorem buffer_reassembles_witness:
  "\<exists>b0 b'. CBuffer_Reset (plenty (\<lambda>_. NUL)) (ex_buf ''old'') = Inr b0
    \<and> foldR (\<lambda>cs b. bindR (CBuffer_Append (plenty (\<lambda>_. NUL)) b (Some (cs, 0)) (of_nat (length cs)))
        (\<lambda>r. Inr (snd r))) [''GET'', '' / ''] b0 = Inr b' \<and> contents b' = ''GET / ''"
  using buffer_reassembles [of "ex_buf ''old''" "[''GET'', '' / '']" "\<lambda>_. NUL"] ex_buf_ok(1) [of "''old''"]
  by auto

text \<open>A buffer that has grown past twice its default is shrunk by Reset, which keeps the old bytes
  and writes no NUL; when a small payload follows, the string the handler prints has no end in the
  block.\<close>

theorem shrunk_buffer_unterminated:
  assumes "buf_mem b = Some m" and "4096 < buf_len b" and "2048 \<le> length m"
    and "NUL \<notin> set (take 2048 m)" and "NUL \<notin> set d" and "d \<noteq> []" and "length d < 2048"
    and "al_ok al 2048"
  shows "\<exists>b0 b'. CBuffer_Reset al b = Inr b0 \<and> CBuffer_Append al b0 (Some (d, 0)) (of_nat (length d)) = Inr (True, b')
    \<and> contents b' = d \<and> c_string (fst (CBuffer_GetBuf b')) = Inl OutOfBounds"
proof -
  let ?m = "take 2048 m"
  let ?b0 = "\<lparr>buf_len = 0, buf_free = BUFFER_SIZE, buf_mem = Some ?m\<rparr>"
  have r: "CBuffer_Reset al b = Inr ?b0"
    using assms by (simp add: CBuffer_Reset_def c_realloc_block BUFFER_SIZE_def)
  have ok: "buf_ok ?b0" using assms by (simp add: buf_ok_def BUFFER_SIZE_def)
  obtain b' where b': "CBuffer_Append al ?b0 (Some (d, 0)) (of_nat (length d)) = Inr (True, b')"
    "buf_mem b' = Some (d @ drop (length d) ?m)" "buf_len b' = of_nat (length d)"
  proof -
    have l: "unat (of_nat (length d) :: u64) = length d" using assms(7) by (simp add: unat_of_nat_small)
    have "(of_nat (length d) :: u64) \<noteq> 0" using assms(6) l by (metis length_0_conv unat_0)
    moreover have "(of_nat (length d) :: u64) < ucast BUFFER_SIZE"
      using l assms(7) by (simp add: word_less_nat_alt BUFFER_SIZE_def)
    moreover have "c_memcpy (Some ?m) 0 d 0 (length d) = Inr (Some (d @ drop (length d) ?m))"
      using assms(3,7) by (simp add: c_memcpy_ok)
    ultimately have "CBuffer_Append al ?b0 (Some (d, 0)) (of_nat (length d))
        = Inr (True, \<lparr>buf_len = of_nat (length d), buf_free = BUFFER_SIZE - of_nat (length d),
            buf_mem = Some (d @ drop (length d) ?m)\<rparr>)"
      using l assms(7) by (simp add: CBuffer_Append_def unat_of_nat_small ucast_of_nat_small)
    then show ?thesis by (rule that) simp_all
  qed
  have "contents b' = d"
    using b' assms(7) by (simp add: contents_def unat_of_nat_small)
  moreover have "NUL \<notin> set (d @ drop (length d) ?m)"
    using assms(4,5) by (auto dest: in_set_dropD)
  then have "c_string (fst (CBuffer_GetBuf b')) = Inl OutOfBounds"
    using b'(2) by (simp add: CBuffer_GetBuf_def c_string_def)
  ultimately show ?thesis using r b'(1) by blast
qed

theorem shrunk_buffer_unterminated_witness:
  "\<exists>b0 b'. CBuffer_Reset (plenty (\<lambda>_. NUL)) \<lparr>buf_len = 5000, buf_free = 1, buf_mem = Some (replicate 5001 (CHR ''x''))\<rparr> = Inr b0
    \<and> CBuffer_Append (plenty (\<lambda>_. NUL)) b0 (Some (''GET'', 0)) (of_nat (length ''GET'')) = Inr (True, b')
    \<and> c_string (fst (CBuffer_GetBuf b')) = Inl OutOfBounds"
  using shrunk_buffer_unterminated [of
      "\<lparr>buf_len = 5000, buf_free = 1, buf_mem = Some (replicate 5001 (CHR ''x''))\<rparr>"
      "replicate 5001 (CHR ''x'')" "''GET''" "plenty (\<lambda>_. NUL)"]
  by auto

text \<open>A frame whose IP length is smaller than its headers claim has a negative payload length, which
  passes the test for zero and reaches Append as a huge size: the allocation wraps to a small one
  and the copy leaves its blocks, or the block is released while the session still points to it.\<close>

theorem negative_payload_corrupts:
  assumes "2 ^ 15 \<le> unat (GetDataLen p)" and "GetData p = Some (src, off)" and "length src < 2 ^ 63"
    and "buf_ok (RspBuf (session_at h a))" and "\<And>n. al_ok (env_al env) n"
    and "2 ^ 16 - unat (GetDataLen p) \<le> unat (buf_len (RspBuf (session_at h a))) + 1"
  shows "take_response env p a h
    = Inl (if 2 ^ 16 - unat (GetDataLen p) = unat (buf_len (RspBuf (session_at h a))) + 1
           then FreedBlock else OutOfBounds)"
proof -
  have "0 < 2 ^ 16 - unat (GetDataLen p)" using unsigned_less [of "GetDataLen p", where 'a = nat] by simp
  from Append_negative [OF assms(4) this assms(6,3,5), of off]
  have "CBuffer_Append (env_al env) (RspBuf (session_at h a)) (GetData p) (scast (GetDataLen p))
    = Inl (if 2 ^ 16 - unat (GetDataLen p) = unat (buf_len (RspBuf (session_at h a))) + 1
           then FreedBlock else OutOfBounds)"
    unfolding negative_size [OF assms(1)] assms(2) .
  moreover have "RspBuf (if P then (session_at h a)\<lparr>Result := r\<rparr> else session_at h a)
      = RspBuf (session_at h a)" for P r
    by simp
  ultimately show ?thesis unfolding take_response_def Let_def by (simp only: bindR.simps)
qed

theorem negative_payload_corrupts_witness:
  "\<exists>p. CFormatPacket_Format (0, 0) (replicate 16 NUL @ [NUL, CHR 0x07] @ replicate 69 NUL) = Inr p
    \<and> take_response ex_env p 0 (ex_handle\<lparr>sesHash := (sesHash ex_handle)\<lparr>heap := (\<lambda>_. ex_session)\<rparr>\<rparr>)
      = Inl FreedBlock"
proof -
  let ?m = "replicate 16 NUL @ [NUL, CHR 0x07] @ replicate 69 NUL"
  let ?h = "ex_handle\<lparr>sesHash := (sesHash ex_handle)\<lparr>heap := (\<lambda>_. ex_session)\<rparr>\<rparr>"
  have at: "session_at ?h 0 = ex_session" by (simp add: session_at_def)
  let ?p = "\<lparr>m_pPkt = ?m, m_pEthhdr = Some 0, m_pIphdr = Some 14, m_pTcphdr = Some 14, m_uPktLen = 7,
    m_pEthIndex = 12, m_pData = Some 22, m_DataLen = 0xFFFF, m_time = (0, 0)\<rparr>"
  have "c_read ?m 16 2 = Inr [NUL, CHR 0x07]" by (simp add: c_read_def)
  then have "load16 ?m 16 = Inr 0x0700" by (simp add: load16_def)
  then have "CFormatPacket_Format (0, 0) ?m = Inr ?p"
    by (simp add: CFormatPacket_Format_def iphdr_ihl_def c_load_def nth_append ntohs_def IPPROTO_TCP_def)
  then obtain p where p: "CFormatPacket_Format (0, 0) ?m = Inr p" "GetDataLen p = 0xFFFF"
      "GetData p = Some (?m, 22)"
    by (rule that) (simp_all add: GetDataLen_def GetData_def)
  have al: "al_ok (env_al ex_env) n" for n by (simp add: ex_env_def)
  have ses: "buf_ok (RspBuf ex_session)" "unat (buf_len (RspBuf ex_session)) = 0"
    using ex_session_inv(1) ex_session_bytes by (auto simp: ses_inv_def session_ok_def length_contents [symmetric])
  have "take_response ex_env p 0 ?h = Inl FreedBlock"
    using negative_payload_corrupts [OF _ p(3), of ?h 0 ex_env] al ses by (simp add: p(2) at)
  with p(1) show ?thesis by blast
qed

section \<open>Fields\<close>

text \<open>A request whose method is none of the eight known names makes the parser run off the end of
  GetMethod, which has no return statement there; the eight names are decoded.\<close>

theorem unknown_method_runs_off:
  assumes "session_ok s" and "al_ok al 2048" and "quiet_buf (ReqBuf s)" "quiet_buf (RspBuf s)"
    and "contents (ReqBuf s) = method @ [SP] @ rest" and "SP \<notin> set method"
    and "10 < length (contents (ReqBuf s))" and "contents (RspBuf s) \<noteq> []"
  shows "method \<in> {''GET'', ''POST'', ''OPTIONS'', ''HEAD'', ''PUT'', ''DELETE'', ''TRACE'', ''CONNECT''}
    \<or> CHttpParse_Parse bst al s = Inl MissingReturn"
proof (rule disjCI)
  assume no: "CHttpParse_Parse bst al s \<noteq> Inl MissingReturn"
  have sp: "split_at SP (contents (ReqBuf s)) = Some (method, rest)"
    using assms(5,6) by (simp add: split_at_append)
  have "spec_decode bst (contents (ReqBuf s)) (contents (RspBuf s)) (Result s) = Inl MissingReturn"
    if "GetMethod method = Inl MissingReturn"
    using that sp assms(7,8) by (auto simp: spec_decode_def spec_request_def)
  then have "GetMethod method \<noteq> Inl MissingReturn"
    using no Parse_refines [OF assms(1-4), of bst] by auto
  then show "method \<in> {''GET'', ''POST'', ''OPTIONS'', ''HEAD'', ''PUT'', ''DELETE'', ''TRACE'', ''CONNECT''}"
    unfolding GetMethod_def by (simp split: if_split_asm)
qed

theorem unknown_method_runs_off_witness:
  "CHttpParse_Parse ex_boost (plenty (\<lambda>_. NUL)) (ex_holding ''PATCH / HTTP/1.1'' ''OK'') = Inl MissingReturn"
proof -
  have "length ''PATCH / HTTP/1.1'' < 2048" "length ''OK'' < 2048" by simp_all
  note h = ex_holding_ok [OF this]
  have "contents (ReqBuf (ex_holding ''PATCH / HTTP/1.1'' ''OK'')) = ''PATCH'' @ [SP] @ ''/ HTTP/1.1''"
    unfolding h by simp
  from unknown_method_runs_off [OF h(1) plenty_ok h(4,5) this, of ex_boost] show ?thesis
    by (simp add: h)
qed

text \<open>the version strings of HTTP are read as ten times their number, although the multiplication
  is done in single precision, given that the conversion of their digits is correctly rounded; the
  tag is only required somewhere in the string, and a length other than 8 is refused.\<close>

theorem versions_decoded:
  assumes "lex_float bst ''1.1'' = Some 0x3F8CCCCD" "lex_float bst ''1.0'' = Some 0x3F800000"
    "lex_float bst ''0.9'' = Some 0x3F666666" "lex_float bst ''2.0'' = Some 0x40000000"
  shows "GetVersion bst ''HTTP/1.1'' = Inr (Some 11) \<and> GetVersion bst ''HTTP/1.0'' = Inr (Some 10)
    \<and> GetVersion bst ''HTTP/0.9'' = Inr (Some 9) \<and> GetVersion bst ''HTTP/2.0'' = Inr (Some 20)
    \<and> GetVersion bst ''HTTP/2'' = Inr None \<and> GetVersion bst ''HTTP/1.1.'' = Inr None"
  using assms by (simp add: GetVersion_def float_times10_to_u32_def round24_def Let_def)

theorem versions_decoded_witness:
  "GetVersion (ex_boost\<lparr>lex_float := (lex_float ex_boost)(''2.0'' \<mapsto> 0x40000000)\<rparr>) ''HTTP/0.9'' = Inr (Some 9)"
  using versions_decoded [of "ex_boost\<lparr>lex_float := (lex_float ex_boost)(''2.0'' \<mapsto> 0x40000000)\<rparr>"]
  by (simp add: ex_boost_def)

section \<open>Packets and captures\<close>

text \<open>A new session takes the sequence number it compares with from uninitialised memory: when that
  is the sequence number of the packet that opens the session, the packet counts as repeated and
  its payload is lost.\<close>

theorem first_packet_lost:
  assumes "handle_ok h" and "calm env h" and "seg_ok s" "\<not> sg_fin s" "\<not> sg_rst s"
    and "conns h (seg_flow s) = None" and "SeqNo (env_raw env) = sg_seq s" and "length rest < 2 ^ 30"
  shows "\<exists>sesp' h' c. Receiver_HandleMessage env tv (Some (encode_frame s @ rest)) sesp h = Inr (sesp', h')
    \<and> conns h' (seg_flow s) = Some c \<and> cn_req c = [] \<and> cn_rsp c = []"
proof -
  have "session_of h (seg_flow s) = None" using assms(6) by (simp add: conns_def)
  then have "flow_ok env (to_server s) h (seg_flow s)" by (simp add: flow_ok_def)
  from HandleMessage_data [OF assms(1-5) this assms(8), of tv sesp] obtain sesp' h' where
    h': "Receiver_HandleMessage env tv (Some (encode_frame s @ rest)) sesp h = Inr (sesp', h')"
    "\<forall>f. conns h' f = (if same_flow f (seg_flow s)
        then Some (spec_step (to_server s) s (seg_conn env h s)) else conns h f)" by blast
  have "conns h' (seg_flow s) = Some (seg_conn env h s)"
    using h'(2) [rule_format, of "seg_flow s"] assms(6,7) by (simp add: spec_step_def seg_conn_def)
  moreover have "cn_req (seg_conn env h s) = []" "cn_rsp (seg_conn env h s) = []"
    using assms(6) by (simp_all add: seg_conn_def)
  ultimately show ?thesis using h'(1) by blast
qed

theorem first_packet_lost_witness:
  "\<exists>sesp' h' c. Receiver_HandleMessage ex_env (0, 0) (Some (encode_frame (ex_seg True 0 False ''GET'') @ []))
      None ex_handle = Inr (sesp', h')
    \<and> conns h' (1, 2, 4000, 80) = Some c \<and> cn_req c = []"
proof -
  have f: "seg_flow (ex_seg True 0 False ''GET'') = (1, 2, 4000, 80)" by (simp add: seg_flow_def ex_seg_def)
  have "seg_ok (ex_seg True 0 False ''GET'')" "\<not> sg_fin (ex_seg True 0 False ''GET'')"
    "\<not> sg_rst (ex_seg True 0 False ''GET'')" "SeqNo (env_raw ex_env) = sg_seq (ex_seg True 0 False ''GET'')"
    by (simp_all add: seg_ok_def seg_total_def ex_seg_def ex_env_def zero_session_def)
  from first_packet_lost [OF ex_handle_ok(1) ex_calm(1) this(1-3) ex_handle_ok(2) this(4), of "[]" "(0, 0)" None]
  show ?thesis unfolding f by fastforce
qed

text \<open>a capture whose next frame is larger than the array of the program makes fread write past its
  end, whatever follows: the length comes from the frame and is not checked.\<close>

theorem oversize_frame_overflows:
  assumes "seg_ok s" and "2000 < length (encode_frame s)" and "length stack = 2000"
    and "al_ok (env_al (fst (env 0))) 2048"
  shows "AppMain_main now env raw (Some (encode_frame s @ tail)) stack len0 = Inl OutOfBounds"
proof -
  obtain t where t: "CSession_new (env_al (fst (env 0))) (raw 0) = Inr t"
    using CSession_new_ok [OF assms(4)] by blast
  have "capture_loop env 0 c = Inl OutOfBounds"
    if "cap_file c = \<lparr>unread = encode_frame s @ tail, at_eof = False\<rparr>" "length (tmp1 c) = 2000" for c
    using step_oversize [OF assms(1) that(2) assms(2), of tail] that(1)
    by (subst capture_loop.simps) simp
  then show ?thesis
    using assms(3) t by (simp add: AppMain_main_def new_session_def decode_capture_def Let_def)
qed

theorem oversize_frame_overflows_witness:
  "AppMain_main 0 (\<lambda>_. (ex_env, (0, 0))) (\<lambda>_. zero_session)
      (Some (encode_frame (ex_seg True 0 False (replicate 1960 (CHR ''x''))) @ [])) (replicate 2000 NUL) 0
    = Inl OutOfBounds"
proof (rule oversize_frame_overflows)
  show "2000 < length (encode_frame (ex_seg True 0 False (replicate 1960 (CHR ''x''))))"
    by (simp add: length_frame) (simp add: seg_total_def ex_seg_def)
qed (simp_all add: seg_ok_def seg_total_def ex_seg_def ex_env_def)

text \<open>the frame of an IPv6 packet is never taken as one: its type is compared in network order, so
  the header is skipped, no packet reaches the receiver and the bytes of the packet are left to be
  read as the next frame.\<close>

theorem ipv6_frame_misread:
  assumes "length (tmp1 c) = 2000" and "length addrs = 12"
    and "cap_file c = \<lparr>unread = addrs @ [CHR 0x86, CHR 0xDD] @ packet, at_eof = False\<rparr>"
  shows "\<exists>m. capture_loop env n c = capture_loop env (n + 1)
    (c\<lparr>tmp1 := m, cap_file := \<lparr>unread = packet, at_eof = False\<rparr>\<rparr>)"
  using step_ipv6 [OF assms(1,2), of packet "fst (env n)" "snd (env n)"] assms(3)
  by (subst capture_loop.simps) auto

theorem ipv6_frame_misread_witness:
  "\<exists>c. capture_loop (\<lambda>_. (ex_env, (0, 0))) 0
    \<lparr>tmp1 = replicate 2000 NUL, cap_len = 0, cap_file = \<lparr>unread = replicate 12 NUL @ [CHR 0x86, CHR 0xDD] @ ''packet'',
        at_eof = False\<rparr>, rcv = \<lparr>rcv_handle = ex_handle, counter = 5\<rparr>, fs = None\<rparr>
    = capture_loop (\<lambda>_. (ex_env, (0, 0))) 1 c \<and> unread (cap_file c) = ''packet'' \<and> counter (rcv c) = 5"
proof -
  let ?c = "\<lparr>tmp1 = replicate 2000 NUL, cap_len = 0,
    cap_file = \<lparr>unread = replicate 12 NUL @ [CHR 0x86, CHR 0xDD] @ ''packet'', at_eof = False\<rparr>,
    rcv = \<lparr>rcv_handle = ex_handle, counter = 5\<rparr>, fs = None\<rparr>"
  have "length (tmp1 ?c) = 2000" "length (replicate 12 NUL) = 12"
    "cap_file ?c = \<lparr>unread = replicate 12 NUL @ [CHR 0x86, CHR 0xDD] @ ''packet'', at_eof = False\<rparr>" by simp_all
  from ipv6_frame_misread [OF this, of "\<lambda>_. (ex_env, (0, 0))" 0] obtain m where
    "capture_loop (\<lambda>_. (ex_env, (0, 0))) 0 ?c = capture_loop (\<lambda>_. (ex_env, (0, 0))) (0 + 1)
      (?c\<lparr>tmp1 := m, cap_file := \<lparr>unread = ''packet'', at_eof = False\<rparr>\<rparr>)" ..
  then show ?thesis
    by (intro exI [of _ "?c\<lparr>tmp1 := m, cap_file := \<lparr>unread = ''packet'', at_eof = False\<rparr>\<rparr>"]) simp
qed

end
