(* ===== verification/TypeList.thy ===== *)
theory TypeList
  imports Prelude
begin

text \<open>
  The list library of the actor framework's template metaprograms (type_list.hpp, type_pair.hpp and
  int_list.hpp in libcaf_core/caf/detail). A template is a function on types, its partial
  specialisations are the equations, and a parameter pack is a list. Where no specialisation matches,
  the function has no equation or the result is \<^const>\<open>None\<close>.
\<close>

section \<open>Types\<close>

datatype ctype =
    Void
  | Unit_t
  | None_t
  | Named string
  | Type_pair ctype ctype
  | Type_list "ctype list"

type_synonym type_list = "ctype list"
type_synonym type_pred = "ctype \<Rightarrow> bool"

definition empty_type_list :: type_list where "empty_type_list = []"

fun is_type_list :: "ctype \<Rightarrow> bool" where
  "is_type_list (Type_list ts) \<longleftrightarrow> True"
| "is_type_list t \<longleftrightarrow> False"

definition to_type_pair :: "ctype \<Rightarrow> ctype \<Rightarrow> ctype" where
  "to_type_pair a b = Type_pair a b"

fun is_type_pair :: "ctype \<Rightarrow> bool" where
  "is_type_pair (Type_pair a b) \<longleftrightarrow> True"
| "is_type_pair t \<longleftrightarrow> False"

fun pair_first :: "ctype \<Rightarrow> ctype option" where
  "pair_first (Type_pair a b) = Some a"
| "pair_first t = None"

fun pair_second :: "ctype \<Rightarrow> ctype option" where
  "pair_second (Type_pair a b) = Some b"
| "pair_second t = None"

text \<open>Subtraction of the type \<open>size_t\<close>.\<close>

definition size_sub :: "nat \<Rightarrow> nat \<Rightarrow> nat" where
  "size_sub a b = (if b \<le> a then a - b else 2 ^ 64 + a - b)"

section \<open>Access\<close>

fun tl_head :: "type_list \<Rightarrow> ctype" where
  "tl_head [] = Void"
| "tl_head (t # ts) = t"

fun tl_tail :: "type_list \<Rightarrow> type_list" where
  "tl_tail [] = []"
| "tl_tail (t # ts) = ts"

definition tl_size :: "type_list \<Rightarrow> nat" where
  "tl_size ts = length ts"

fun tl_back :: "type_list \<Rightarrow> ctype" where
  "tl_back [] = Unit_t"
| "tl_back [t] = t"
| "tl_back (t0 # t1 # ts) = tl_back (t1 # ts)"

definition tl_empty :: "type_list \<Rightarrow> bool" where
  "tl_empty ts \<longleftrightarrow> empty_type_list = ts"

fun tl_at_impl :: "nat \<Rightarrow> type_list \<Rightarrow> ctype" where
  "tl_at_impl n [] = Unit_t"
| "tl_at_impl 0 (e0 # e) = e0"
| "tl_at_impl (Suc n) (e0 # e) = tl_at_impl n e"

definition tl_at :: "type_list \<Rightarrow> nat \<Rightarrow> ctype" where
  "tl_at ts n = tl_at_impl n ts"

section \<open>Slices\<close>

fun tl_slice_impl :: "nat \<Rightarrow> nat \<Rightarrow> ctype \<Rightarrow> type_list \<Rightarrow> type_list \<Rightarrow> type_list" where
  "tl_slice_impl (Suc left) remaining pad ts acc = tl_slice_impl left remaining pad (tl_tail ts) acc"
| "tl_slice_impl 0 (Suc remaining) pad [] acc = tl_slice_impl 0 remaining pad [] (acc @ [pad])"
| "tl_slice_impl 0 (Suc remaining) pad (t # ts) acc
     = tl_slice_impl 0 remaining pad (tl_tail (t # ts)) (acc @ [tl_head (t # ts)])"
| "tl_slice_impl 0 0 pad ts acc = acc"

definition tl_slice_sized :: "type_list \<Rightarrow> nat \<Rightarrow> nat \<Rightarrow> nat \<Rightarrow> ctype \<Rightarrow> type_list" where
  "tl_slice_sized ts list_size first till pad =
     (if first = 0 \<and> till = list_size then ts
      else tl_slice_impl first (size_sub till first) pad ts [])"

definition tl_slice :: "type_list \<Rightarrow> nat \<Rightarrow> nat \<Rightarrow> type_list" where
  "tl_slice ts first till =
     tl_slice_sized ts (tl_size ts) (if first > till then till else first) till Unit_t"

definition tl_right :: "type_list \<Rightarrow> nat \<Rightarrow> type_list" where
  "tl_right ts new_size =
     (let old_size = tl_size ts; first_idx = (if old_size > new_size then old_size - new_size else 0)
      in if new_size = old_size then ts
         else if ts = empty_type_list then empty_type_list
         else tl_slice ts first_idx old_size)"

definition tl_pop_back :: "type_list \<Rightarrow> type_list" where
  "tl_pop_back ts = (if ts = empty_type_list then empty_type_list else tl_slice ts 0 (tl_size ts - 1))"

section \<open>Zipping\<close>

definition tl_zip_impl ::
  "type_list \<Rightarrow> type_list \<Rightarrow> (ctype \<Rightarrow> ctype \<Rightarrow> ctype) \<Rightarrow> type_list option" where
  "tl_zip_impl ls rs fn =
     (if length ls = length rs then Some (map (\<lambda>(l, r). fn l r) (zip ls rs)) else None)"

definition tl_zip :: "type_list \<Rightarrow> type_list \<Rightarrow> (ctype \<Rightarrow> ctype \<Rightarrow> ctype) \<Rightarrow> type_list option" where
  "tl_zip as bs fn =
     (let sizea = tl_size as; sizeb = tl_size bs; result_size = (if sizea < sizeb then sizea else sizeb)
      in tl_zip_impl (tl_slice as 0 result_size) (tl_slice bs 0 result_size) fn)"

definition tl_zip_right ::
  "type_list \<Rightarrow> type_list \<Rightarrow> (ctype \<Rightarrow> ctype \<Rightarrow> ctype) \<Rightarrow> nat \<Rightarrow> type_list option" where
  "tl_zip_right as bs fn n = tl_zip_impl (tl_right as n) (tl_right bs n) fn"

text \<open>The padding types are parameters of \<open>tl_zip_all\<close> that its body does not use.\<close>

definition tl_zip_all ::
  "type_list \<Rightarrow> type_list \<Rightarrow> ctype \<Rightarrow> ctype \<Rightarrow> (ctype \<Rightarrow> ctype \<Rightarrow> ctype) \<Rightarrow> type_list option" where
  "tl_zip_all as bs pad_a pad_b fn =
     (let result_size = (if tl_size as > tl_size bs then tl_size as else tl_size bs)
      in tl_zip_impl (tl_slice_sized as (tl_size as) 0 result_size Unit_t)
           (tl_slice_sized bs (tl_size bs) 0 result_size Unit_t) fn)"

definition tl_unzip :: "type_list \<Rightarrow> (type_list \<times> type_list) option" where
  "tl_unzip ts =
     (case those (map pair_first ts) of
        None \<Rightarrow> None
      | Some firsts \<Rightarrow>
          (case those (map pair_second ts) of None \<Rightarrow> None | Some seconds \<Rightarrow> Some (firsts, seconds)))"

definition tl_is_zipped :: "type_list \<Rightarrow> bool" where
  "tl_is_zipped ts \<longleftrightarrow> list_all is_type_pair ts"

section \<open>Searching\<close>

fun tl_index_of_impl :: "int \<Rightarrow> ctype \<Rightarrow> type_list \<Rightarrow> int" where
  "tl_index_of_impl pos x [] = -1"
| "tl_index_of_impl pos x (t # ts) = (if t = x then pos else tl_index_of_impl (pos + 1) x ts)"

definition tl_index_of :: "type_list \<Rightarrow> ctype \<Rightarrow> int" where
  "tl_index_of ts t = tl_index_of_impl 0 t ts"

fun tl_index_where_impl :: "int \<Rightarrow> type_pred \<Rightarrow> type_list \<Rightarrow> int" where
  "tl_index_where_impl pos p [] = -1"
| "tl_index_where_impl pos p (t # ts) = (if p t then pos else tl_index_where_impl (pos + 1) p ts)"

definition tl_index_where :: "type_list \<Rightarrow> type_pred \<Rightarrow> int" where
  "tl_index_where ts p = tl_index_where_impl 0 p ts"

fun tl_find_impl :: "type_pred \<Rightarrow> type_list \<Rightarrow> ctype" where
  "tl_find_impl p [] = None_t"
| "tl_find_impl p (t # ts) = (if p t then t else tl_find_impl p ts)"

definition tl_find :: "type_list \<Rightarrow> type_pred \<Rightarrow> ctype" where
  "tl_find ts p = tl_find_impl p ts"

fun tl_contains :: "type_list \<Rightarrow> ctype \<Rightarrow> bool" where
  "tl_contains [] x \<longleftrightarrow> False"
| "tl_contains (t # ts) x \<longleftrightarrow> (if t = x then True else tl_contains ts x)"

section \<open>Quantifiers and counting\<close>

lemma tl_tail_shorter [simp, termination_simp]: "ts \<noteq> [] \<Longrightarrow> length (tl_tail ts) < length ts"
  by (cases ts) simp_all

lemma tl_tail_length [simp, termination_simp]: "length (tl_tail ts) = length ts - 1"
  by (cases ts) simp_all

fun tl_forall :: "type_list \<Rightarrow> type_pred \<Rightarrow> bool" where
  "tl_forall [] p \<longleftrightarrow> True"
| "tl_forall (t # ts) p \<longleftrightarrow> p (tl_head (t # ts)) \<and> tl_forall (tl_tail (t # ts)) p"

text \<open>Unless both lists are empty, the general template is taken, with the head of an empty list.\<close>

function tl_forall2_impl :: "type_list \<Rightarrow> type_list \<Rightarrow> (ctype \<Rightarrow> ctype \<Rightarrow> bool) \<Rightarrow> bool" where
  "tl_forall2_impl as bs p =
     (if as = [] \<and> bs = [] then True
      else p (tl_head as) (tl_head bs) \<and> tl_forall2_impl (tl_tail as) (tl_tail bs) p)"
  by pat_completeness auto
termination
  by (relation "measure (\<lambda>(as, bs, p). length as + length bs)") (auto simp flip: length_greater_0_conv)

declare tl_forall2_impl.simps [simp del]

definition tl_binary_forall :: "type_list \<Rightarrow> type_list \<Rightarrow> (ctype \<Rightarrow> ctype \<Rightarrow> bool) \<Rightarrow> bool" where
  "tl_binary_forall as bs p \<longleftrightarrow> tl_size as = tl_size bs \<and> tl_forall2_impl as bs p"

fun tl_exists :: "type_list \<Rightarrow> type_pred \<Rightarrow> bool" where
  "tl_exists [] p \<longleftrightarrow> False"
| "tl_exists (t # ts) p \<longleftrightarrow> p (tl_head (t # ts)) \<or> tl_exists (tl_tail (t # ts)) p"

fun tl_count :: "type_list \<Rightarrow> type_pred \<Rightarrow> nat" where
  "tl_count [] p = 0"
| "tl_count (t # ts) p = (if p (tl_head (t # ts)) then 1 else 0) + tl_count (tl_tail (t # ts)) p"

fun tl_count_type :: "type_list \<Rightarrow> ctype \<Rightarrow> nat" where
  "tl_count_type [] x = 0"
| "tl_count_type (t # ts) x
     = (if tl_head (t # ts) = x then 1 else 0) + tl_count_type (tl_tail (t # ts)) x"

fun tl_count_not :: "type_list \<Rightarrow> type_pred \<Rightarrow> nat" where
  "tl_count_not [] p = 0"
| "tl_count_not (t # ts) p = (if p (tl_head (t # ts)) then 0 else 1) + tl_count_not (tl_tail (t # ts)) p"

section \<open>Building lists\<close>

fun tl_reverse_impl :: "type_list \<Rightarrow> type_list \<Rightarrow> type_list" where
  "tl_reverse_impl (t0 # ts) es = tl_reverse_impl ts (t0 # es)"
| "tl_reverse_impl [] es = es"

definition tl_reverse :: "type_list \<Rightarrow> type_list" where
  "tl_reverse ts = tl_reverse_impl ts []"

definition tl_concat_impl :: "type_list \<Rightarrow> type_list \<Rightarrow> type_list" where
  "tl_concat_impl ls rs = ls @ rs"

text \<open>The pack of \<open>tl_concat\<close> has at least one list.\<close>

fun tl_concat :: "type_list \<Rightarrow> type_list list \<Rightarrow> type_list" where
  "tl_concat list0 [] = list0"
| "tl_concat list0 (list1 # more_lists) = tl_concat (tl_concat_impl list0 list1) more_lists"

definition tl_push_back :: "type_list \<Rightarrow> ctype \<Rightarrow> type_list" where
  "tl_push_back ts x = ts @ [x]"

definition tl_push_front :: "type_list \<Rightarrow> ctype \<Rightarrow> type_list" where
  "tl_push_front ts x = x # ts"

definition tl_cons :: "ctype \<Rightarrow> type_list \<Rightarrow> type_list" where
  "tl_cons x ts = tl_push_front ts x"

definition tl_prepend :: "type_list \<Rightarrow> ctype \<Rightarrow> type_list" where
  "tl_prepend ts x = x # ts"

fun tl_apply_all :: "ctype \<Rightarrow> (ctype \<Rightarrow> ctype) list \<Rightarrow> ctype" where
  "tl_apply_all t [] = t"
| "tl_apply_all t (fun0 # funs) = tl_apply_all (fun0 t) funs"

definition tl_map :: "type_list \<Rightarrow> (ctype \<Rightarrow> ctype) list \<Rightarrow> type_list" where
  "tl_map ts funs = map (\<lambda>t. tl_apply_all t funs) ts"

fun tl_map_conditional ::
  "type_list \<Rightarrow> type_pred \<Rightarrow> bool \<Rightarrow> (ctype \<Rightarrow> ctype) list \<Rightarrow> type_list" where
  "tl_map_conditional [] trait res funs = empty_type_list"
| "tl_map_conditional (t # ts) trait res funs =
     tl_concat
       [if trait (tl_head (t # ts)) = res then tl_apply_all (tl_head (t # ts)) funs
        else tl_head (t # ts)]
       [tl_map_conditional (tl_tail (t # ts)) trait res funs]"

text \<open>There is no last element to replace in an empty list.\<close>

fun tl_replace_back_impl :: "type_list \<Rightarrow> ctype \<Rightarrow> type_list \<Rightarrow> type_list option" where
  "tl_replace_back_impl (t0 # t1 # ts) back us = tl_replace_back_impl (t1 # ts) back (us @ [t0])"
| "tl_replace_back_impl [t] back us = Some (us @ [back])"
| "tl_replace_back_impl [] back us = None"

definition tl_replace_back :: "type_list \<Rightarrow> ctype \<Rightarrow> type_list option" where
  "tl_replace_back ts back = tl_replace_back_impl ts back []"

fun tl_replicate :: "nat \<Rightarrow> ctype \<Rightarrow> type_list" where
  "tl_replicate 0 t = []"
| "tl_replicate (Suc n) t = tl_cons t (tl_replicate n t)"

section \<open>Filters\<close>

text \<open>The flags are a second pack, as long as the list.\<close>

fun tl_filter_impl :: "type_list \<Rightarrow> bool list \<Rightarrow> type_list" where
  "tl_filter_impl [] [] = empty_type_list"
| "tl_filter_impl (t0 # ts) (False # s) = tl_filter_impl ts s"
| "tl_filter_impl (t0 # ts) (True # s) = tl_prepend (tl_filter_impl ts s) t0"

definition tl_filter :: "type_list \<Rightarrow> type_pred \<Rightarrow> type_list" where
  "tl_filter ts p = tl_filter_impl ts (map p ts)"

definition tl_filter_not :: "type_list \<Rightarrow> type_pred \<Rightarrow> type_list" where
  "tl_filter_not ts p =
     (if ts = empty_type_list then empty_type_list else tl_filter_impl ts (map (\<lambda>t. \<not> p t) ts))"

definition tl_filter_type :: "type_list \<Rightarrow> ctype \<Rightarrow> type_list" where
  "tl_filter_type ts x = tl_filter_impl ts (map (\<lambda>t. \<not> t = x) ts)"

definition tl_filter_not_type :: "type_list \<Rightarrow> ctype \<Rightarrow> type_list" where
  "tl_filter_not_type ts x = tl_filter_impl ts (map (\<lambda>t. \<not> t = x) ts)"

lemma tl_filter_impl_eq [simp]: "tl_filter_impl ts (map p ts) = filter p ts"
proof (induction ts)
  case (Cons t ts)
  then show ?case by (cases "p t") (simp_all add: tl_prepend_def)
qed (simp add: empty_type_list_def)

lemma tl_filter_eqs [simp]:
  "tl_filter ts p = filter p ts"
  "tl_filter_not ts p = filter (\<lambda>t. \<not> p t) ts"
  "tl_filter_type ts x = filter (\<lambda>t. t \<noteq> x) ts"
  "tl_filter_not_type ts x = filter (\<lambda>t. t \<noteq> x) ts"
  by (simp_all add: tl_filter_def tl_filter_not_def tl_filter_type_def tl_filter_not_type_def
      empty_type_list_def)

section \<open>Duplicates\<close>

function tl_distinct :: "type_list \<Rightarrow> type_list" where
  "tl_distinct [] = empty_type_list"
| "tl_distinct (t0 # ts) = tl_concat [t0] [tl_distinct (tl_filter_type ts t0)]"
  by pat_completeness auto
termination
  by (relation "measure length") (simp_all add: le_imp_less_Suc)

definition tl_is_distinct :: "type_list \<Rightarrow> bool" where
  "tl_is_distinct ts \<longleftrightarrow> tl_size ts = tl_size (tl_distinct ts)"

definition tl_union :: "type_list \<Rightarrow> type_list list \<Rightarrow> type_list" where
  "tl_union xs xss = tl_distinct (tl_concat xs xss)"

definition tl_head_is_unique :: "type_list \<Rightarrow> bool" where
  "tl_head_is_unique ts \<longleftrightarrow> tl_count_type ts (tl_head ts) = 1"

function (sequential) tl_intersect_impl :: "type_list \<Rightarrow> bool \<Rightarrow> type_list" where
  "tl_intersect_impl (t0 # ts) True = tl_intersect_impl ts (tl_head_is_unique ts)"
| "tl_intersect_impl (t0 # ts) False =
     (let rest = tl_filter_type ts t0
      in tl_concat [t0] [tl_intersect_impl rest (tl_head_is_unique rest)])"
| "tl_intersect_impl [] unique = empty_type_list"
  by pat_completeness auto
termination
  by (relation "measure (\<lambda>(ts, u). length ts)") (simp_all add: le_imp_less_Suc)

definition tl_intersect :: "type_list \<Rightarrow> type_list list \<Rightarrow> type_list" where
  "tl_intersect xs xss = (let ts = tl_concat xs xss in tl_intersect_impl ts (tl_head_is_unique ts))"

section \<open>Padding and trimming\<close>

function tl_pad_right_impl ::
  "type_list \<Rightarrow> bool \<Rightarrow> nat \<Rightarrow> nat \<Rightarrow> ctype \<Rightarrow> type_list" where
  "tl_pad_right_impl ts False old_size new_size fill =
     (if old_size = new_size then ts else tl_slice ts 0 new_size)"
| "tl_pad_right_impl ts True old_size new_size fill =
     tl_pad_right_impl (tl_push_back ts fill) (old_size + 1 < new_size) (old_size + 1) new_size fill"
  by pat_completeness auto
termination
  by (relation "measure (\<lambda>(ts, less, old, new, fill). if less then Suc (new - old) else 0)") auto

definition tl_pad_right :: "type_list \<Rightarrow> nat \<Rightarrow> ctype \<Rightarrow> type_list" where
  "tl_pad_right ts new_size fill =
     tl_pad_right_impl ts (tl_size ts < new_size) (tl_size ts) new_size fill"

text \<open>\<^const>\<open>None\<close>: the sizes never meet and the instantiation does not end.\<close>

function tl_pad_left_impl :: "type_list \<Rightarrow> nat \<Rightarrow> nat \<Rightarrow> ctype \<Rightarrow> type_list option" where
  "tl_pad_left_impl ts old_size new_size fill =
     (if old_size = new_size then Some ts
      else if old_size > new_size then None
      else tl_pad_left_impl (tl_push_front ts fill) (old_size + 1) new_size fill)"
  by pat_completeness auto
termination
  by (relation "measure (\<lambda>(ts, old, new, fill). new - old)") auto

declare tl_pad_left_impl.simps [simp del]

definition tl_pad_left :: "type_list \<Rightarrow> nat \<Rightarrow> ctype \<Rightarrow> type_list option" where
  "tl_pad_left ts new_size fill =
     (let list_size = tl_size ts
      in tl_pad_left_impl ts list_size (if list_size > new_size then list_size else new_size) fill)"

lemma size_sub_0 [simp]: "size_sub n 0 = n"
  by (simp add: size_sub_def)

lemma slice_impl_0: "tl_slice_impl 0 n pad ts acc = acc @ take n ts @ replicate (n - length ts) pad"
  by (induction "0 :: nat" n pad ts acc rule: tl_slice_impl.induct) (simp_all add: replicate_append_same)

lemma slice_impl_eq:
  "tl_slice_impl k n pad ts acc = acc @ take n (drop k ts) @ replicate (n - (length ts - k)) pad"
proof (induction k arbitrary: ts)
  case (Suc k)
  then show ?case by (cases ts) simp_all
qed (simp add: slice_impl_0)

lemma pop_back_eq [simp]: "tl_pop_back ts = butlast ts"
  by (cases ts) (simp_all add: tl_pop_back_def tl_slice_def tl_slice_sized_def tl_size_def empty_type_list_def
      slice_impl_eq butlast_conv_take)

function tl_trim :: "type_list \<Rightarrow> ctype \<Rightarrow> type_list" where
  "tl_trim ts x =
     (if ts = [] then empty_type_list
      else if tl_back ts = x then tl_trim (tl_pop_back ts) x else ts)"
  by pat_completeness auto
termination
  by (relation "measure (\<lambda>(ts, x). length ts)") auto

declare tl_trim.simps [simp del]

section \<open>Groups\<close>

definition tl_group_by_impl_step :: "bool \<Rightarrow> ctype \<Rightarrow> type_list \<Rightarrow> type_list" where
  "tl_group_by_impl_step app x ts =
     (if app then [Type_list (ts @ [x])] else [Type_list ts, Type_list [x]])"

function tl_group_by_impl :: "type_list \<Rightarrow> type_list \<Rightarrow> (ctype \<Rightarrow> ctype \<Rightarrow> bool) \<Rightarrow> type_list option" where
  "tl_group_by_impl [] out p = Some out"
| "tl_group_by_impl (t0 # ts) out p =
     (if out = empty_type_list then tl_group_by_impl ts [Type_list [t0]] p
      else case tl_back out of
        Type_list last_group \<Rightarrow>
          let suffix = tl_group_by_impl_step (p t0 (tl_back last_group)) t0 last_group
          in tl_group_by_impl (tl_tail (t0 # ts)) (tl_concat (tl_pop_back out) [suffix]) p
      | _ \<Rightarrow> None)"
  by pat_completeness auto
termination
  by (relation "measure (\<lambda>(ts, out, p). length ts)") auto

definition tl_group_by :: "type_list \<Rightarrow> (ctype \<Rightarrow> ctype \<Rightarrow> bool) \<Rightarrow> type_list option" where
  "tl_group_by ts p = tl_group_by_impl ts empty_type_list p"

definition tl_apply :: "type_list \<Rightarrow> (type_list \<Rightarrow> 'a) \<Rightarrow> 'a" where
  "tl_apply ts tpl = tpl ts"

section \<open>Sets\<close>

fun tl_subset_of :: "type_list \<Rightarrow> type_list \<Rightarrow> bool \<Rightarrow> bool" where
  "tl_subset_of as bs False \<longleftrightarrow> False"
| "tl_subset_of [] bs True \<longleftrightarrow> True"
| "tl_subset_of (t # ts) bs True \<longleftrightarrow> tl_subset_of ts bs (tl_contains bs t)"

definition tl_equal :: "type_list \<Rightarrow> type_list \<Rightarrow> bool" where
  "tl_equal as bs \<longleftrightarrow> tl_subset_of as bs True \<and> tl_subset_of bs as True"

section \<open>Lists of integers\<close>

type_synonym int_list = "int list"

text \<open>The size counts the elements left; the pack may end first.\<close>

fun il_right_impl :: "nat \<Rightarrow> nat \<Rightarrow> int_list \<Rightarrow> int_list" where
  "il_right_impl n sz [] = []"
| "il_right_impl n sz (i # is) = (if n = sz then i # is else il_right_impl n (size_sub sz 1) is)"

definition il_right :: "int_list \<Rightarrow> nat \<Rightarrow> int_list" where
  "il_right is n = il_right_impl (if n > length is then length is else n) (length is) is"

fun il_take_impl :: "bool \<Rightarrow> nat \<Rightarrow> int_list \<Rightarrow> int_list \<Rightarrow> int_list option" where
  "il_take_impl True num rs is = (if num = 0 then Some rs else None)"
| "il_take_impl False num rs (i # is) = il_take_impl (num = 1) (size_sub num 1) (rs @ [i]) is"
| "il_take_impl False num rs [] = None"

definition il_take :: "int_list \<Rightarrow> nat \<Rightarrow> int_list option" where
  "il_take is n = il_take_impl (n = 0) n [] is"

fun il_indices :: "type_list \<Rightarrow> int \<Rightarrow> int_list \<Rightarrow> int_list" where
  "il_indices [] pos is = is"
| "il_indices (t0 # ts) pos is = il_indices ts (pos + 1) (is @ [pos])"

definition get_indices :: "type_list \<Rightarrow> int_list" where
  "get_indices ts = il_indices ts 0 []"

definition get_right_indices :: "nat \<Rightarrow> type_list \<Rightarrow> int_list" where
  "get_right_indices num ts = il_right (il_indices ts 0 []) num"

text \<open>\<^const>\<open>None\<close>: the bounds never meet.\<close>

function il_range :: "int \<Rightarrow> int \<Rightarrow> int_list \<Rightarrow> int_list option" where
  "il_range first till is =
     (if first = till then Some is
      else if first > till then None
      else il_range (first + 1) till (is @ [first]))"
  by pat_completeness auto
termination
  by (relation "measure (\<lambda>(first, till, is). nat (till - first))") auto

declare il_range.simps [simp del]

section \<open>The lists the templates compute\<close>

lemma access_eqs [simp]:
  "tl_size ts = length ts" "tl_empty ts \<longleftrightarrow> ts = []" "tl_contains ts x \<longleftrightarrow> x \<in> set ts"
  "tl_push_back ts x = ts @ [x]" "tl_push_front ts x = x # ts" "tl_cons x ts = x # ts"
  "tl_prepend ts x = x # ts" "tl_concat xs xss = xs @ concat xss" "tl_replicate n x = replicate n x"
proof -
  show "tl_contains ts x \<longleftrightarrow> x \<in> set ts" by (induction ts) auto
  show "tl_concat xs xss = xs @ concat xss"
    by (induction xs xss rule: tl_concat.induct) (simp_all add: tl_concat_impl_def)
  show "tl_replicate n x = replicate n x" by (induction n) (simp_all add: tl_cons_def tl_push_front_def)
qed (auto simp: tl_size_def tl_empty_def empty_type_list_def tl_push_back_def tl_push_front_def
    tl_cons_def tl_prepend_def)

lemma tl_back_eq [simp]: "ts \<noteq> [] \<Longrightarrow> tl_back ts = last ts"
  by (induction ts rule: tl_back.induct) simp_all

lemma tl_at_eq: "tl_at ts n = (if n < length ts then ts ! n else Unit_t)"
proof -
  have "tl_at_impl n ts = (if n < length ts then ts ! n else Unit_t)"
    by (induction n ts rule: tl_at_impl.induct) simp_all
  then show ?thesis by (simp add: tl_at_def)
qed

lemma tl_reverse_eq: "tl_reverse ts = rev ts"
proof -
  have "tl_reverse_impl ts es = rev ts @ es" for es
    by (induction ts arbitrary: es) simp_all
  then show ?thesis by (simp add: tl_reverse_def)
qed

lemma tl_map_eq: "tl_map ts funs = map (\<lambda>t. fold (\<lambda>f. f) funs t) ts"
proof -
  have "tl_apply_all t funs = fold (\<lambda>f. f) funs t" for t
    by (induction funs arbitrary: t) simp_all
  then show ?thesis by (simp add: tl_map_def)
qed

lemma quantifier_eqs [simp]:
  "tl_forall ts p \<longleftrightarrow> list_all p ts" "tl_exists ts p \<longleftrightarrow> list_ex p ts"
  "tl_count ts p = length (filter p ts)" "tl_count_type ts x = count_list ts x"
  "tl_count_not ts p = length (filter (\<lambda>t. \<not> p t) ts)"
  by (induction ts) simp_all

lemma tl_binary_forall_eq: "tl_binary_forall as bs p \<longleftrightarrow> list_all2 p as bs"
proof -
  have "length as = length bs \<Longrightarrow> tl_forall2_impl as bs p \<longleftrightarrow> list_all2 p as bs"
  proof (induction as arbitrary: bs)
    case Nil
    then show ?case by (simp add: tl_forall2_impl.simps)
  next
    case (Cons a as)
    then obtain b bs' where "bs = b # bs'" by (cases bs) auto
    with Cons show ?case by (subst tl_forall2_impl.simps) simp
  qed
  then show ?thesis unfolding tl_binary_forall_def by (auto dest: list_all2_lengthD)
qed

text \<open>Positions: the first element with the property, or minus one.\<close>

lemma tl_index_where_impl_eq:
  "tl_index_where_impl pos p ts
   = (if list_ex p ts then pos + int (length (takeWhile (\<lambda>t. \<not> p t) ts)) else -1)"
  by (induction ts arbitrary: pos) auto

lemma tl_index_of_impl_eq: "tl_index_of_impl pos x ts = tl_index_where_impl pos (\<lambda>t. t = x) ts"
  by (induction ts arbitrary: pos) auto

lemma tl_find_eq: "tl_find ts p = (case List.find p ts of None \<Rightarrow> None_t | Some t \<Rightarrow> t)"
proof -
  have "tl_find_impl p ts = (case List.find p ts of None \<Rightarrow> None_t | Some t \<Rightarrow> t)"
    by (induction ts) simp_all
  then show ?thesis by (simp add: tl_find_def)
qed

text \<open>Slices: a list cut from a position, padded when it is too short.\<close>

definition padded :: "nat \<Rightarrow> ctype \<Rightarrow> type_list \<Rightarrow> type_list" where
  "padded n x ts = take n ts @ replicate (n - length ts) x"

lemma padded_exact [simp]: "padded (length ts) x ts = ts"
  by (simp add: padded_def)

lemma tl_slice_sized_eq:
  assumes "first \<le> till"
  shows "tl_slice_sized ts (length ts) first till x = padded (till - first) x (drop first ts)"
  using assms by (simp add: tl_slice_sized_def slice_impl_eq padded_def size_sub_def)

lemma tl_slice_eq: "tl_slice ts first till = padded (till - min first till) Unit_t (drop (min first till) ts)"
proof -
  have "(if first > till then till else first) = min first till" by simp
  then show ?thesis
    unfolding tl_slice_def access_eqs(1) using tl_slice_sized_eq [of "min first till" till ts Unit_t] by simp
qed

lemma tl_right_eq: "tl_right ts n = drop (length ts - n) ts"
proof (cases "n = length ts \<or> ts = []")
  case True
  then show ?thesis by (auto simp: tl_right_def empty_type_list_def)
next
  case False
  have "padded (length ts - k) Unit_t (drop k ts) = drop k ts" for k
    using padded_exact [of "drop k ts"] by simp
  with False show ?thesis
    by (auto simp: tl_right_def empty_type_list_def Let_def tl_slice_eq min_def)
qed

lemma tl_pad_right_eq: "tl_pad_right ts n x = padded n x ts"
proof -
  have "tl_pad_right_impl ts less k n x = ts @ replicate (n - k) x"
    if "k = length ts" "less = (k < n)" "less \<or> k = n" for less k
    using that
  proof (induction ts less k n x rule: tl_pad_right_impl.induct)
    case (2 ts k n x)
    then have "Suc (length ts) < n \<or> Suc (length ts) = n" by auto
    with 2 have "tl_pad_right_impl (ts @ [x]) (k + 1 < n) (k + 1) n x
        = (ts @ [x]) @ replicate (n - (k + 1)) x" by simp
    moreover have "replicate (n - k) x = x # replicate (n - (k + 1)) x"
      using 2(3) by (simp add: Suc_diff_Suc flip: replicate_Suc)
    ultimately show ?case by simp
  qed simp
  then show ?thesis
    by (cases "length ts < n \<or> length ts = n") (auto simp: tl_pad_right_def padded_def tl_slice_eq)
qed

lemma tl_pad_left_eq: "tl_pad_left ts n x = Some (replicate (n - length ts) x @ ts)"
proof -
  have "k \<le> n \<Longrightarrow> tl_pad_left_impl ts k n x = Some (replicate (n - k) x @ ts)" for k n
  proof (induction ts k n x rule: tl_pad_left_impl.induct)
    case (1 ts k n x)
    show ?case
    proof (cases "k = n")
      case False
      with 1 have "tl_pad_left_impl (x # ts) (k + 1) n x = Some (replicate (n - (k + 1)) x @ x # ts)" by simp
      moreover have "replicate (n - k) x = replicate (n - (k + 1)) x @ [x]"
        using False 1(2) by (simp add: Suc_diff_Suc replicate_append_same flip: replicate_Suc)
      ultimately show ?thesis using False 1(2) by (subst tl_pad_left_impl.simps) simp
    qed (simp add: tl_pad_left_impl.simps)
  qed
  then show ?thesis by (simp add: tl_pad_left_def Let_def)
qed

lemma tl_trim_eq: "tl_trim ts x = rev (dropWhile (\<lambda>t. t = x) (rev ts))"
proof (induction ts rule: rev_induct)
  case Nil
  then show ?case by (simp add: tl_trim.simps empty_type_list_def)
next
  case (snoc t ts)
  then show ?case by (subst tl_trim.simps) simp
qed

text \<open>Zipping and unzipping.\<close>

lemma tl_zip_eq: "tl_zip as bs fn = Some (map (\<lambda>(a, b). fn a b) (zip as bs))"
proof -
  let ?n = "min (length as) (length bs)"
  have "tl_slice ts 0 n = take n ts" if "n \<le> length ts" for ts n
    using that by (simp add: tl_slice_eq padded_def)
  moreover have "(if length as < length bs then length as else length bs) = ?n" by simp
  moreover have "zip (take ?n as) (take ?n bs) = zip as bs"
    by (simp flip: take_zip)
  ultimately show ?thesis by (simp add: tl_zip_def tl_zip_impl_def Let_def)
qed

lemma tl_zip_all_eq:
  "tl_zip_all as bs pad_a pad_b fn
   = (let n = max (length as) (length bs)
      in Some (map (\<lambda>(a, b). fn a b) (zip (padded n Unit_t as) (padded n Unit_t bs))))"
proof -
  have "(if length as > length bs then length as else length bs) = max (length as) (length bs)" by simp
  moreover have "length (padded n x ts) = n" if "length ts \<le> n" for n x ts
    using that by (simp add: padded_def)
  ultimately show ?thesis
    by (simp add: tl_zip_all_def tl_zip_impl_def tl_slice_sized_eq Let_def)
qed

lemma tl_unzip_eq:
  "tl_unzip ts = (if list_all is_type_pair ts
     then Some (map (\<lambda>t. case t of Type_pair a b \<Rightarrow> a) ts, map (\<lambda>t. case t of Type_pair a b \<Rightarrow> b) ts) else None)"
proof (cases "list_all is_type_pair ts")
  case True
  then have "those (map pair_first ts) = Some (map (\<lambda>t. case t of Type_pair a b \<Rightarrow> a) ts)
      \<and> those (map pair_second ts) = Some (map (\<lambda>t. case t of Type_pair a b \<Rightarrow> b) ts)"
    by (induction ts) (auto split: ctype.splits)
  with True show ?thesis by (simp add: tl_unzip_def)
next
  case False
  then have "those (map pair_first ts) = None"
    by (induction ts) (auto split: option.splits ctype.splits elim: is_type_pair.elims)
  with False show ?thesis by (simp add: tl_unzip_def)
qed

lemma tl_unzip_zip:
  assumes "tl_zip as bs to_type_pair = Some ts"
  shows "tl_unzip ts = Some (take (length bs) as, take (length as) bs)"
proof -
  have ts: "ts = map (\<lambda>(a, b). Type_pair a b) (zip as bs)"
    using assms by (simp add: tl_zip_eq to_type_pair_def)
  have "map fst (zip as bs) = take (length bs) as" "map snd (zip as bs) = take (length as) bs"
    by (simp_all add: map_fst_zip_take map_snd_zip_take min_def)
  then show ?thesis
    unfolding tl_unzip_eq ts by (simp add: list_all_iff case_prod_beta comp_def)
qed

text \<open>Duplicates.\<close>

lemma tl_distinct_simps [simp]:
  "tl_distinct [] = []" "tl_distinct (t # ts) = t # tl_distinct (filter (\<lambda>x. x \<noteq> t) ts)"
  by (simp_all add: empty_type_list_def)

declare tl_distinct.simps [simp del]

lemma set_tl_distinct [simp]: "set (tl_distinct ts) = set ts"
  by (induction ts rule: tl_distinct.induct) auto

lemma distinct_tl_distinct [simp]: "distinct (tl_distinct ts)"
  by (induction ts rule: tl_distinct.induct) auto

text \<open>What stays is the first occurrence of every element.\<close>

lemma filter_remdups_comm: "filter p (remdups xs) = remdups (filter p xs)"
  by (induction xs) auto

lemma tl_distinct_eq: "tl_distinct ts = rev (remdups (rev ts))"
proof (induction ts rule: tl_distinct.induct)
  case (2 t ts)
  have "remdups (xs @ [t]) = remdups (filter (\<lambda>x. x \<noteq> t) xs) @ [t]" for xs
    by (induction xs) auto
  then show ?case using 2 by (simp add: rev_filter)
qed simp

lemma tl_is_distinct_eq: "tl_is_distinct ts \<longleftrightarrow> distinct ts"
  unfolding tl_is_distinct_def tl_distinct_eq
  by (metis access_eqs(1) distinct_rev length_remdups_eq length_rev remdups_id_iff_distinct)

lemma tl_intersect_impl_spec:
  assumes "u = tl_head_is_unique ts"
  shows "distinct (tl_intersect_impl ts u)
    \<and> set (tl_intersect_impl ts u) = {x. 2 \<le> count_list ts x}"
  using assms
proof (induction ts u rule: tl_intersect_impl.induct)
  case (1 t ts)
  then have t: "t \<notin> set ts" by (simp add: tl_head_is_unique_def count_list_0_iff)
  have "{x. 2 \<le> count_list (t # ts) x} = {x. 2 \<le> count_list ts x}"
    using t count_notin [of t ts] by auto
  with 1 show ?case by simp
next
  case (2 t ts)
  let ?rest = "filter (\<lambda>x. x \<noteq> t) ts"
  have t: "0 < count_list ts t" using 2 by (simp add: tl_head_is_unique_def)
  have c: "count_list ?rest x = (if x = t then 0 else count_list ts x)" for x
    by (induction ts) auto
  have "{x. 2 \<le> count_list (t # ts) x} = insert t {x. 2 \<le> count_list ?rest x}"
    using t by (auto simp: c)
  with 2 show ?case by (auto simp: c Let_def)
next
  case (3 u)
  then show ?case by (simp add: empty_type_list_def)
qed

lemma tl_intersect_eq:
  "distinct (tl_intersect xs xss)"
  "set (tl_intersect xs xss) = {x. 2 \<le> count_list (xs @ concat xss) x}"
  using tl_intersect_impl_spec [OF refl] by (simp_all add: tl_intersect_def Let_def)

text \<open>Sets.\<close>

lemma tl_subset_of_eq: "tl_subset_of as bs flag \<longleftrightarrow> flag \<and> set as \<subseteq> set bs"
  by (induction as bs flag rule: tl_subset_of.induct) auto

lemma tl_equal_eq: "tl_equal as bs \<longleftrightarrow> set as = set bs"
  by (auto simp: tl_equal_def tl_subset_of_eq)

text \<open>
  Groups: the list is cut where the predicate fails between an element and the one before it.
  Inside a group it holds for neighbours, between groups it fails.
\<close>

fun groups_of :: "(ctype \<Rightarrow> ctype \<Rightarrow> bool) \<Rightarrow> type_list \<Rightarrow> type_list list" where
  "groups_of p [] = []"
| "groups_of p (t # ts) =
     (case groups_of p ts of
        [] \<Rightarrow> [[t]]
      | g # gs \<Rightarrow> if p (hd ts) t then (t # g) # gs else [t] # g # gs)"

lemma groups_of_ne: "groups_of p ts = [] \<longleftrightarrow> ts = []" "[] \<notin> set (groups_of p ts)"
  by (induction ts) (auto split: list.splits)

lemma concat_groups [simp]: "concat (groups_of p ts) = ts"
  by (induction ts) (auto split: list.splits)

text \<open>Adding elements at the end of a list adds them to its last group or opens new ones.\<close>

definition glue :: "(ctype \<Rightarrow> ctype \<Rightarrow> bool) \<Rightarrow> type_list \<Rightarrow> type_list \<Rightarrow> type_list list" where
  "glue p g ts =
     (case groups_of p ts of
        [] \<Rightarrow> [g]
      | h # hs \<Rightarrow> if p (hd ts) (last g) then (g @ h) # hs else g # h # hs)"

lemma glue_single [simp]: "glue p [t] ts = groups_of p (t # ts)"
  by (simp add: glue_def split: list.splits)

lemma glue_Cons:
  assumes "g \<noteq> []"
  shows "glue p g (t # ts) = (if p t (last g) then glue p (g @ [t]) ts else g # glue p [t] ts)"
  using assms by (cases "groups_of p ts") (auto simp: glue_def)

lemma tl_group_by_impl_eq:
  assumes "g \<noteq> []"
  shows "tl_group_by_impl ts (map Type_list (gs @ [g])) p = Some (map Type_list (gs @ glue p g ts))"
  using assms
proof (induction ts arbitrary: gs g)
  case Nil
  then show ?case by (simp add: glue_def)
next
  case (Cons t ts)
  then show ?case
    using Cons.IH [of "g @ [t]" gs] Cons.IH [of "[t]" "gs @ [g]"]
    by (simp add: empty_type_list_def tl_group_by_impl_step_def glue_Cons)
qed

lemma tl_group_by_eq: "tl_group_by ts p = Some (map Type_list (groups_of p ts))"
proof (cases ts)
  case (Cons t ts')
  then show ?thesis
    using tl_group_by_impl_eq [of "[t]" ts' "[]" p] by (simp add: tl_group_by_def empty_type_list_def)
qed (simp add: tl_group_by_def empty_type_list_def)

text \<open>Lists of integers.\<close>

lemma il_right_eq: "il_right is n = drop (length is - n) is"
proof -
  have "n \<le> length is \<Longrightarrow> il_right_impl n (length is) is = drop (length is - n) is" for n
  proof (induction "is")
    case (Cons i "is")
    then show ?case by (cases "n = Suc (length is)") (simp_all add: size_sub_def Suc_diff_le)
  qed simp
  then show ?thesis by (simp add: il_right_def)
qed

lemma il_take_eq: "il_take is n = (if n \<le> length is then Some (take n is) else None)"
proof -
  have "il_take_impl (n = 0) n rs is = (if n \<le> length is then Some (rs @ take n is) else None)" for n rs
  proof (induction "is" arbitrary: n rs)
    case Nil
    then show ?case by (cases n) simp_all
  next
    case (Cons i "is")
    then show ?case
    proof (cases n)
      case (Suc m)
      then show ?thesis using Cons [of m "rs @ [i]"] by (simp add: size_sub_def)
    qed simp
  qed
  then show ?thesis by (simp add: il_take_def)
qed

lemma il_indices_eq: "il_indices ts pos is = is @ map (\<lambda>k. pos + int k) [0..<length ts]"
proof (induction ts arbitrary: pos "is")
  case (Cons t ts)
  have "map (\<lambda>k. pos + int k) [0..<Suc (length ts)] = pos # map (\<lambda>k. pos + 1 + int k) [0..<length ts]"
    by (rule nth_equalityI) (auto simp: nth_Cons' simp del: upt_Suc)
  then show ?case by (simp add: Cons del: upt_Suc)
qed simp

lemma il_range_eq: "first \<le> till \<Longrightarrow> il_range first till is = Some (is @ [first..till - 1])"
proof (induction first till "is" rule: il_range.induct)
  case (1 first till "is")
  then show ?case by (subst il_range.simps) (auto simp: upto.simps [of first])
qed

lemmas tl_eqs = tl_at_eq tl_reverse_eq tl_map_eq tl_binary_forall_eq tl_find_eq tl_slice_eq
  tl_right_eq tl_pad_right_eq tl_pad_left_eq tl_trim_eq tl_zip_eq tl_distinct_eq tl_is_distinct_eq
  tl_equal_eq tl_group_by_eq

end
