(* ===== verification/Atom.thy ===== *)
theory Atom
  imports CMemory
begin

unbundle bit_operations_syntax

text \<open>
  Atoms (libcaf_core/caf/atom.hpp, caf/detail/atom_val.hpp, src/atom.cpp): short names packed into
  64 bits, six bits a character behind the marker \<open>0xF\<close>.
\<close>

section \<open>Encoding\<close>

definition encoding_table :: "nat list" where
  "encoding_table =
     [0,  0,  0,  0,  0,  0,  0,  0,  0,  0,  0,  0,  0,  0,  0,  0,
      0,  0,  0,  0,  0,  0,  0,  0,  0,  0,  0,  0,  0,  0,  0,  0,
      0,  0,  0,  0,  0,  0,  0,  0,  0,  0,  0,  0,  0,  0,  0,  0,
      1,  2,  3,  4,  5,  6,  7,  8,  9,  10, 0,  0,  0,  0,  0,  0,
      0, 11, 12, 13, 14, 15, 16, 17, 18, 19, 20, 21, 22, 23, 24, 25,
     26, 27, 28, 29, 30, 31, 32, 33, 34, 35, 36,  0,  0,  0,  0, 37,
      0, 38, 39, 40, 41, 42, 43, 44, 45, 46, 47, 48, 49, 50, 51, 52,
     53, 54, 55, 56, 57, 58, 59, 60, 61, 62, 63,  0,  0,  0,  0,  0]"

definition decoding_table :: string where
  "decoding_table = '' 0123456789'' @ ''ABCDEFGHIJKLMNOPQRSTUVWXYZ_'' @ ''abcdefghijklmnopqrstuvwxyz''"

definition next_interim :: "u64 \<Rightarrow> nat \<Rightarrow> u64" where
  "next_interim current char_code =
     push_bit 6 current OR of_nat (encoding_table ! (if char_code \<le> 0x7F then char_code else 0))"

text \<open>The string ends at its NUL, or where the model's list ends.\<close>

fun atom_val :: "string \<Rightarrow> u64 \<Rightarrow> u64" where
  "atom_val [] interim = interim"
| "atom_val (c # cstr) interim =
     (if c = NUL then interim else atom_val cstr (next_interim interim (of_char c)))"

text \<open>A literal of more than 10 characters is a compile-time error.\<close>

definition atom :: "string \<Rightarrow> u64 option" where
  "atom str = (if length str + 1 \<le> 11 then Some (atom_val str 0xF) else None)"

section \<open>Decoding\<close>

text \<open>The loop over the shifts 54, 48, ..., 0, with the mask that moves along.\<close>

fun atom_chars :: "u64 \<Rightarrow> nat list \<Rightarrow> u64 \<Rightarrow> bool \<Rightarrow> string \<Rightarrow> string" where
  "atom_chars x [] msk read_chars result = result"
| "atom_chars x (bitshift # shifts) msk read_chars result =
     (let group = drop_bit bitshift (x AND msk); msk' = drop_bit 6 msk
      in if read_chars then atom_chars x shifts msk' True (result @ [decoding_table ! unat group])
         else atom_chars x shifts msk' (group = 0xF) result)"

definition atom_to_string :: "u64 \<Rightarrow> string" where
  "atom_to_string x =
     atom_chars x [54, 48, 42, 36, 30, 24, 18, 12, 6, 0] 0x0FC0000000000000
       (drop_bit 60 (x AND 0xF000000000000000) = 0xF) []"

text \<open>The names of the predefined atoms: the alias and its literal.\<close>

definition predefined_atoms :: "(string \<times> string) list" where
  "predefined_atoms =
     [(''add_atom'', ''add''), (''get_atom'', ''get''), (''put_atom'', ''put''),
      (''update_atom'', ''update''), (''delete_atom'', ''delete''), (''ok_atom'', ''ok''),
      (''sys_atom'', ''sys''), (''join_atom'', ''join''), (''leave_atom'', ''leave''),
      (''forward_atom'', ''forward''), (''flush_atom'', ''flush''), (''redirect_atom'', ''redirect''),
      (''link_atom'', ''link''), (''unlink_atom'', ''unlink''), (''publish_atom'', ''publish''),
      (''unpublish_atom'', ''unpublish''), (''subscribe_atom'', ''subscribe''),
      (''unsubscribe_atom'', ''unsubscrib''), (''connect_atom'', ''connect''), (''open_atom'', ''open''),
      (''close_atom'', ''close''), (''spawn_atom'', ''spawn''), (''migrate_atom'', ''migrate''),
      (''tick_atom'', ''tick'')]"

section \<open>The value as a number\<close>

text \<open>The code of a character, and what a string becomes: base 64 behind the digit 15.\<close>

definition char_code :: "char \<Rightarrow> nat" where
  "char_code c = encoding_table ! (if of_char c \<le> (0x7F :: nat) then of_char c else 0)"

definition readable :: "char \<Rightarrow> char" where
  "readable c = decoding_table ! char_code c"

lemma length_tables [simp]: "length encoding_table = 128" "length decoding_table = 64"
  by (simp_all add: encoding_table_def decoding_table_def)

lemma char_code_bound: "char_code c < 64"
proof -
  have "\<forall>n \<in> set encoding_table. n < 64" by (simp add: encoding_table_def)
  moreover have "char_code c \<in> set encoding_table" unfolding char_code_def by (rule nth_mem) simp
  ultimately show ?thesis by blast
qed

fun digits :: "nat list \<Rightarrow> nat \<Rightarrow> nat" where
  "digits [] a = a"
| "digits (d # ds) a = digits ds (64 * a + d)"

lemma digits_eq: "digits ds a = 64 ^ length ds * a + digits ds 0"
proof (induction ds arbitrary: a)
  case (Cons d ds)
  from Cons [of "64 * a + d"] Cons [of d] show ?case by (simp add: algebra_simps)
qed simp

lemma digits_less: "list_all (\<lambda>d. d < 64) ds \<Longrightarrow> digits ds 0 < 64 ^ length ds"
proof (induction ds)
  case (Cons d ds)
  have "64 ^ length ds * d + digits ds 0 < 64 ^ length ds * d + 64 ^ length ds" using Cons by simp
  also have "\<dots> = 64 ^ length ds * (d + 1)" by (simp add: algebra_simps)
  also have "\<dots> \<le> 64 ^ length ds * 64" using Cons by (intro mult_left_mono) auto
  finally show ?case using digits_eq [of ds d] by simp
qed simp

lemma digits_snoc [simp]: "digits (ds @ [d]) a = 64 * digits ds a + d"
  by (induction ds arbitrary: a) simp_all

lemma next_interim_value:
  assumes "unat w < 2 ^ 58" and "code < 64" and "encoding_table ! (if k \<le> 0x7F then k else 0) = code"
  shows "unat (next_interim w k) = 64 * unat w + code"
proof -
  have c: "unat (of_nat code :: u64) = code" using assms(2) by (intro unat_of_nat_small) simp
  have "\<not> bit (push_bit 6 w) i \<or> \<not> bit (of_nat code :: u64) i" for i
  proof (cases "i < 6")
    case False
    have "take_bit 6 (of_nat code :: u64) = of_nat code"
      using assms(2) c by (simp add: word_unat_eq_iff unsigned_take_bit_eq take_bit_nat_eq_self)
    with False show ?thesis by (metis bit_take_bit_iff)
  qed (simp add: bit_push_bit_iff)
  then have "next_interim w k = push_bit 6 w + of_nat code"
    unfolding next_interim_def assms(3) by (subst disjunctive_add) auto
  also have "\<dots> = of_nat (64 * unat w + code)" by (simp add: push_bit_eq_mult)
  finally show ?thesis using assms(1,2) by (simp add: unat_of_nat_small del: of_nat_add of_nat_mult)
qed

lemma atom_val_value:
  assumes "NUL \<notin> set s" and "digits (map char_code s) (unat w) < 2 ^ 64"
  shows "unat (atom_val s w) = digits (map char_code s) (unat w)"
  using assms
proof (induction s arbitrary: w)
  case (Cons c s)
  let ?a = "64 * unat w + char_code c"
  have "?a \<le> digits (map char_code s) ?a" by (subst digits_eq) (simp add: trans_le_add1)
  then have "unat w < 2 ^ 58" using Cons.prems(2) by simp
  then have "unat (next_interim w (of_char c)) = ?a"
    by (rule next_interim_value) (auto simp: char_code_bound char_code_def [symmetric] simp del: of_char_eq_iff)
  with Cons show ?case by auto
qed simp

section \<open>Reading the groups\<close>

lemma w63: "(63 :: u64) = mask 6"
  by (simp add: mask_eq_exp_minus_1)

lemma masked_bits: "drop_bit n (x AND push_bit n (mask k)) = take_bit k (drop_bit n (x :: u64))"
  by (intro bit_word_eqI)
    (auto simp: bit_drop_bit_eq bit_and_iff bit_push_bit_iff bit_take_bit_iff bit_mask_iff dest: bit_imp_le_length)

lemmas masked_group = masked_bits [of _ _ 6, folded w63]

text \<open>The groups from the \<open>k\<close>-th on, as the loop reads them.\<close>

definition group_at :: "nat \<Rightarrow> nat \<Rightarrow> nat" where
  "group_at n k = n div 64 ^ k mod 64"

lemma unat_group: "unat (take_bit 6 (drop_bit (6 * k) (x :: u64))) = group_at (unat x) k"
  unfolding unsigned_take_bit_eq unat_drop_bit_eq
  by (simp add: drop_bit_eq_div take_bit_eq_mod group_at_def power_mult)

fun read_groups :: "nat list \<Rightarrow> bool \<Rightarrow> string" where
  "read_groups [] r = []"
| "read_groups (g # gs) r = (if r then decoding_table ! g # read_groups gs True else read_groups gs (g = 15))"

lemma atom_chars_groups:
  assumes "n \<le> 9"
  shows "atom_chars x (map (\<lambda>k. 6 * k) (rev [0..<n + 1])) (push_bit (6 * n) 63) r result
    = result @ read_groups (map (group_at (unat x)) (rev [0..<n + 1])) r"
  using assms
proof (induction n arbitrary: r result)
  case 0
  have "x AND 63 = take_bit 6 x" using masked_group [of 0 x] by simp
  moreover have "take_bit 6 x = 15 \<longleftrightarrow> group_at (unat x) 0 = 15"
    using unat_group [of 0 x] by (simp add: word_unat_eq_iff)
  ultimately show ?case using unat_group [of 0 x] by simp
next
  case (Suc n)
  have m: "drop_bit 6 (push_bit (6 * Suc n) (63 :: u64)) = push_bit (6 * n) 63"
    using Suc.prems unfolding w63
    by (intro bit_word_eqI) (auto simp: bit_drop_bit_eq bit_push_bit_iff bit_mask_iff)
  have g: "take_bit 6 (drop_bit (6 * Suc n) x) = 15 \<longleftrightarrow> group_at (unat x) (Suc n) = 15"
    using unat_group [of "Suc n" x] by (simp add: word_unat_eq_iff)
  have "rev [0..<Suc n + 1] = Suc n # rev [0..<n + 1]" by simp
  then show ?case
    using Suc.IH [OF Suc_leD [OF Suc.prems]] unat_group [of "Suc n" x]
    by (simp only: list.map atom_chars.simps Let_def masked_group m g read_groups.simps) simp
qed

lemma group_at_simps [simp]: "group_at n 0 = n mod 64" "group_at n (Suc k) = group_at (n div 64) k"
  by (simp_all add: group_at_def div_mult2_eq)

lemma groups_split: "map (group_at n) (rev [0..<Suc k]) = map (group_at (n div 64)) (rev [0..<k]) @ [n mod 64]"
  by (induction k) simp_all

lemma groups_of_digits:
  assumes "list_all (\<lambda>d. d < 64) ds"
  shows "map (group_at (digits ds a)) (rev [0..<length ds]) = ds"
  using assms
proof (induction ds rule: rev_induct)
  case (snoc d ds)
  then have "digits (ds @ [d]) a div 64 = digits ds a" "digits (ds @ [d]) a mod 64 = d" by simp_all
  with snoc show ?case by (simp only: length_append_singleton groups_split) simp
qed simp

lemma group_above:
  assumes "list_all (\<lambda>d. d < 64) ds" and "a < 64"
  shows "group_at (digits ds a) (length ds) = a" and "length ds < k \<Longrightarrow> group_at (digits ds a) k = 0"
proof -
  have "digits ds a div 64 ^ length ds = a"
    using digits_less [OF assms(1)] by (subst digits_eq) (simp add: div_plus_div_distrib_dvd_left)
  with assms(2) show "group_at (digits ds a) (length ds) = a" by (simp add: group_at_def)
  assume "length ds < k"
  then obtain j where k: "k = length ds + Suc j" using less_iff_Suc_add by auto
  have "digits ds a div 64 ^ k = (digits ds a div 64 ^ length ds) div 64 ^ Suc j"
    by (simp only: k power_add div_mult2_eq)
  also have "\<dots> = 0"
    using \<open>digits ds a div 64 ^ length ds = a\<close> assms(2)
    by (simp add: div_less less_le_trans [OF assms(2)])
  finally show "group_at (digits ds a) k = 0" by (simp add: group_at_def)
qed

lemma read_groups_True: "read_groups gs True = map ((!) decoding_table) gs"
  by (induction gs) simp_all

lemma read_groups_zeros: "read_groups (replicate n 0 @ gs) False = read_groups gs False"
  by (induction n) simp_all

lemma atom_to_string_val:
  assumes "length s \<le> 10" and "NUL \<notin> set s"
  shows "atom_to_string (atom_val s 0xF) = map readable s"
proof -
  let ?ds = "map char_code s" and ?x = "atom_val s 0xF" and ?n = "length s"
  have ds: "list_all (\<lambda>d. d < 64) ?ds" by (simp add: list_all_iff char_code_bound)
  have "digits ?ds 15 < 64 ^ ?n * 16" using digits_less [OF ds] by (subst digits_eq) simp
  moreover have "(64 :: nat) ^ ?n * 16 \<le> 64 ^ 10 * 16"
    using assms(1) by (intro mult_right_mono power_increasing) simp_all
  ultimately have "digits ?ds 15 < 2 ^ 64" by simp
  then have x: "unat ?x = digits ?ds 15" using atom_val_value [of s "0xF"] assms(2) by simp
  have run: "atom_to_string ?x = read_groups (map (group_at (unat ?x)) (rev [0..<10]))
      (drop_bit 60 (?x AND 0xF000000000000000) = 0xF)"
    using atom_chars_groups [of 9 ?x _ "[]"]
    by (simp add: atom_to_string_def push_bit_eq_mult upt_rec)
  have top: "drop_bit 60 (?x AND 0xF000000000000000) = 0xF \<longleftrightarrow> ?n = 10"
  proof -
    have "drop_bit 60 (?x AND 0xF000000000000000) = take_bit 4 (drop_bit 60 ?x)"
      using masked_bits [of 60 ?x 4] by (simp add: mask_eq_exp_minus_1 push_bit_eq_mult)
    moreover have "unat (take_bit 4 (drop_bit 60 ?x)) = digits ?ds 15 div 64 ^ 10 mod 16"
      unfolding unsigned_take_bit_eq unat_drop_bit_eq x by (simp add: drop_bit_eq_div take_bit_eq_mod)
    moreover have "digits ?ds 15 div 64 ^ 10 mod 16 = 15 \<longleftrightarrow> ?n = 10"
    proof -
      have "digits ?ds 15 div 64 ^ 10 mod 16 = group_at (digits ?ds 15) 10 mod 16"
        unfolding group_at_def by (rule mod_mod_cancel [symmetric]) simp
      then show ?thesis
        using group_above(1) [OF ds, of 15] group_above(2) [OF ds, of 15 10] assms(1) by (cases "?n = 10") auto
    qed
    ultimately show ?thesis by (simp add: word_unat_eq_iff)
  qed
  have read: "map ((!) decoding_table) ?ds = map readable s" by (simp add: readable_def)
  show ?thesis
  proof (cases "?n = 10")
    case True
    then show ?thesis using run top read groups_of_digits [OF ds, of 15] x
      by (simp add: read_groups_True)
  next
    case False
    then have n: "?n < 10" using assms(1) by simp
    then have "rev [0..<10] = rev [Suc ?n..<10] @ ?n # rev [0..<?n]"
      using upt_add_eq_append [of 0 ?n "10 - ?n"] upt_conv_Cons [of ?n 10] by simp
    moreover have "map (group_at (unat ?x)) (rev [Suc ?n..<10]) = replicate (9 - ?n) 0"
      using group_above(2) [OF ds, of 15] x by (intro replicate_eqI) auto
    ultimately have "map (group_at (unat ?x)) (rev [0..<10]) = replicate (9 - ?n) 0 @ 15 # ?ds"
      using group_above(1) [OF ds, of 15] groups_of_digits [OF ds, of 15] x by simp
    then show ?thesis using run top False read by (simp add: read_groups_zeros read_groups_True)
  qed
qed

section \<open>The alphabet\<close>

text \<open>The 64 characters of the table read as themselves; every other one reads as a space.\<close>

lemma readable_table: "c \<in> set decoding_table \<Longrightarrow> readable c = c"
proof -
  have "list_all (\<lambda>c. readable c = c) decoding_table" by code_simp
  then show "c \<in> set decoding_table \<Longrightarrow> readable c = c" by (simp add: list_all_iff)
qed

lemma NUL_not_in_table: "set s \<subseteq> set decoding_table \<Longrightarrow> NUL \<notin> set s"
  by (auto simp: decoding_table_def)

lemma atom_inject:
  assumes "length s \<le> 10" "NUL \<notin> set s" and "length t \<le> 10" "NUL \<notin> set t"
  shows "atom s = atom t \<longleftrightarrow> map readable s = map readable t"
proof
  assume "atom s = atom t"
  then have "atom_val s 0xF = atom_val t 0xF" using assms by (simp add: atom_def)
  then show "map readable s = map readable t"
    using atom_to_string_val [OF assms(1,2)] atom_to_string_val [OF assms(3,4)] by simp
next
  have next_eq: "next_interim w (of_char c) = next_interim w (of_char d)" if "readable c = readable d" for w c d
  proof -
    have "distinct decoding_table" by code_simp
    then have "char_code c = char_code d"
      using that char_code_bound by (simp add: readable_def nth_eq_iff_index_eq)
    then show ?thesis by (simp add: next_interim_def char_code_def)
  qed
  have "map readable s = map readable t \<Longrightarrow> NUL \<notin> set s \<Longrightarrow> NUL \<notin> set t \<Longrightarrow> atom_val s w = atom_val t w" for w
  proof (induction s t arbitrary: w rule: list_induct2')
    case (4 c s d t)
    then have "next_interim w (of_char c) = next_interim w (of_char d)" by (intro next_eq) simp
    with 4 show ?case by auto
  qed simp_all
  moreover assume "map readable s = map readable t"
  moreover from this have "length s = length t" by (rule map_eq_imp_length_eq)
  ultimately show "atom s = atom t" using assms by (simp add: atom_def)
qed

end
