(* ===== verification/ParseIni.thy ===== *)
theory ParseIni
  imports Atom
begin

text \<open>
  The parser of configuration files (libcaf_core/src/parse_ini.cpp, caf/detail/parse_ini.hpp). The text is a list of
  characters, what the parser calls or prints is a list of events. The conversion of a floating point number,
  \<open>strtod\<close>, is a parameter: it gives the value and how many characters it has read.
\<close>

section \<open>The library functions\<close>

definition isspace :: "char \<Rightarrow> bool" where
  "isspace c \<longleftrightarrow> of_char c = (32 :: nat) \<or> (9 \<le> (of_char c :: nat) \<and> of_char c \<le> (13 :: nat))"

definition isdigit :: "char \<Rightarrow> bool" where
  "isdigit c \<longleftrightarrow> 48 \<le> (of_char c :: nat) \<and> of_char c \<le> (57 :: nat)"

definition tolower :: "char \<Rightarrow> char" where
  "tolower c = (if 65 \<le> (of_char c :: nat) \<and> of_char c \<le> (90 :: nat) then char_of (of_char c + (32 :: nat)) else c)"

text \<open>\<open>getline\<close>: the text behind the last newline is a line if it is not empty.\<close>

fun getlines :: "string \<Rightarrow> string \<Rightarrow> string list" where
  "getlines line [] = (if line = [] then [] else [line])"
| "getlines line (c # cs) = (if c = CHR 0x0A then line # getlines [] cs else getlines (line @ [c]) cs)"

definition digit_value :: "char \<Rightarrow> nat" where
  "digit_value c =
     (if isdigit c then of_char c - 48
      else if 97 \<le> (of_char (tolower c) :: nat) \<and> of_char (tolower c) \<le> (122 :: nat) then of_char (tolower c) - 87
      else 36)"

fun digits_value :: "nat \<Rightarrow> string \<Rightarrow> nat \<Rightarrow> nat" where
  "digits_value base [] a = a"
| "digits_value base (c # cs) a = digits_value base cs (base * a + digit_value c)"

definition clamp64 :: "int \<Rightarrow> int" where
  "clamp64 x = max (- (2 ^ 63)) (min (2 ^ 63 - 1) x)"

text \<open>\<open>strtoll\<close>: white space, a sign, the prefix \<open>0x\<close> for base 16, digits; without digits nothing is read.\<close>

definition strtoll :: "nat \<Rightarrow> string \<Rightarrow> int \<times> nat" where
  "strtoll base s =
     (let t = dropWhile isspace s;
          neg = (t \<noteq> [] \<and> hd t = CHR ''-'');
          t = (if t \<noteq> [] \<and> (hd t = CHR ''-'' \<or> hd t = CHR ''+'') then tl t else t);
          t = (if base = 16 \<and> length t > 2 \<and> t ! 0 = CHR ''0'' \<and> tolower (t ! 1) = CHR ''x'' \<and> digit_value (t ! 2) < 16
               then drop 2 t else t);
          ds = takeWhile (\<lambda>c. digit_value c < base) t
      in if ds = [] then (0, 0)
         else (clamp64 (if neg then - int (digits_value base ds 0) else int (digits_value base ds 0)),
               length s - length t + length ds))"

section \<open>The parser\<close>

datatype 'd config_value = Cv_string string | Cv_double 'd | Cv_int int | Cv_bool bool | Cv_atom u64

datatype 'd ini_event =
    Consumed nat string "'d config_value"       \<comment> \<open>line, key and value\<close>
  | Ini_error nat string
  | Ini_warning nat string

text \<open>\<open>std::equal\<close> with a literal and its NUL: it reads on behind them.\<close>

fun equal_icase :: "string \<Rightarrow> string \<Rightarrow> bool res" where
  "equal_icase [] lit = Inr True"
| "equal_icase (x # xs) [] = Inl OutOfBounds"
| "equal_icase (x # xs) (y # ys) = (if tolower x = tolower y then equal_icase xs ys else Inr False)"

text \<open>The loop over the characters between the quotation marks: what is read so far, and whether the last was a backslash.\<close>

fun unescape :: "string \<Rightarrow> bool \<Rightarrow> string \<Rightarrow> string \<times> bool" where
  "unescape result last_char_backslash [] = (result, last_char_backslash)"
| "unescape result last_char_backslash (c # cs) =
     (if last_char_backslash then
        unescape (result @ [if c = CHR ''n'' then CHR 0x0A else if c = CHR ''t'' then CHR 0x09 else c]) False cs
      else if c = CHR 0x5C then unescape result True cs
      else unescape (result @ [c]) False cs)"

definition set_ival :: "nat \<Rightarrow> string \<Rightarrow> bool \<Rightarrow> string \<Rightarrow> nat \<Rightarrow> string \<Rightarrow> 'd ini_event list res" where
  "set_ival ln key is_neg txt base err =
     (case strtoll base txt of (res, e) \<Rightarrow>
        if e \<noteq> length txt then Inr [Ini_error ln err]
        else if is_neg \<and> res = - (2 ^ 63) then Inl SignedOverflow
        else Inr [Consumed ln key (Cv_int (if is_neg then - res else res))])"

definition set_dval ::
  "(string \<Rightarrow> 'd \<times> nat) \<Rightarrow> ('d \<Rightarrow> 'd) \<Rightarrow> nat \<Rightarrow> string \<Rightarrow> bool \<Rightarrow> string \<Rightarrow> 'd ini_event list res" where
  "set_dval strtod dneg ln key is_neg txt =
     (case strtod txt of (res, e) \<Rightarrow>
        Inr (if e \<noteq> length txt then [Ini_error ln ''invalid value'']
             else [Consumed ln key (Cv_double (if is_neg then dneg res else res))]))"

definition parse_number ::
  "(string \<Rightarrow> 'd \<times> nat) \<Rightarrow> ('d \<Rightarrow> 'd) \<Rightarrow> nat \<Rightarrow> string \<Rightarrow> string \<Rightarrow> 'd ini_event list res" where
  "parse_number strtod dneg ln key v =
     (let is_neg = (hd v = CHR ''-'');
          v = (if is_neg then tl v else v)
      in if v = [] then Inr [Ini_error ln ([CHR 0x27, CHR ''-'', CHR 0x27] @ '' is not a number'')]
         else if hd v = CHR ''0'' \<and> length v > 1 then
           if v ! 1 = CHR ''x'' \<or> v ! 1 = CHR ''X'' then set_ival ln key is_neg (drop 2 v) 16 ''invalid hex value''
           else if v ! 1 = CHR ''b'' \<or> v ! 1 = CHR ''B'' then set_ival ln key is_neg (drop 2 v) 2 ''invalid binary value''
           else if list_all isdigit v then set_ival ln key is_neg (drop 1 v) 8 ''invalid oct value''
           else set_dval strtod dneg ln key is_neg v
         else if list_all isdigit v then set_ival ln key is_neg v 10 ''invalid decimal value''
         else set_dval strtod dneg ln key is_neg v)"

definition quote_mark :: char where "quote_mark = CHR 0x22"
definition atom_mark :: char where "atom_mark = CHR 0x27"

definition parse_atom_value :: "nat \<Rightarrow> string \<Rightarrow> string \<Rightarrow> 'd ini_event list" where
  "parse_atom_value ln key v =
     (if length v = 1 then [Ini_error ln (''stray '' @ [atom_mark])]
      else if last v \<noteq> atom_mark then [Ini_error ln (''atom not terminated by '' @ [atom_mark])]
      else if length v - 2 > 10 then [Ini_error ln ''atoms are not allowed to have more than 10 characters'']
      else [Consumed ln key (Cv_atom (atom_val (butlast (tl v)) 0xF))])"

definition parse_string_value :: "nat \<Rightarrow> string \<Rightarrow> string \<Rightarrow> 'd ini_event list" where
  "parse_string_value ln key v =
     (if length v = 1 then [Ini_error ln (''stray '' @ [atom_mark, quote_mark, atom_mark])]
      else if last v \<noteq> quote_mark then [Ini_error ln (''string not terminated by '' @ [atom_mark, quote_mark, atom_mark])]
      else case unescape [] False (butlast (tl v)) of (result, last_char_backslash) \<Rightarrow>
        (if last_char_backslash then [Ini_warning ln ''trailing quotation mark escaped''] else [])
        @ [Consumed ln key (Cv_string result)])"

text \<open>The value is not empty here.\<close>

definition parse_value ::
  "(string \<Rightarrow> 'd \<times> nat) \<Rightarrow> ('d \<Rightarrow> 'd) \<Rightarrow> nat \<Rightarrow> string \<Rightarrow> string \<Rightarrow> 'd ini_event list res" where
  "parse_value strtod dneg ln key v =
     bindR (equal_icase v (''true'' @ [CHR 0x00])) (\<lambda>is_true.
       if is_true then Inr [Consumed ln key (Cv_bool True)]
       else bindR (equal_icase v (''false'' @ [CHR 0x00])) (\<lambda>is_false.
         if is_false then Inr [Consumed ln key (Cv_bool False)]
         else if hd v = atom_mark then Inr (parse_atom_value ln key v)
         else if hd v = quote_mark then Inr (parse_string_value ln key v)
         else parse_number strtod dneg ln key v))"

definition trim_right :: "string \<Rightarrow> string" where
  "trim_right s = rev (dropWhile isspace (rev s))"

text \<open>One line, with the group it is in; the group of the next line and the events.\<close>

definition parse_line ::
  "(string \<Rightarrow> 'd \<times> nat) \<Rightarrow> ('d \<Rightarrow> 'd) \<Rightarrow> nat \<Rightarrow> string \<Rightarrow> string \<Rightarrow> (string \<times> 'd ini_event list) res" where
  "parse_line strtod dneg ln grp line =
     (let l = dropWhile isspace (trim_right line)
      in if l = [] \<or> hd l = CHR '';'' then Inr (grp, [])
         else if hd l = CHR ''['' then
           if last l \<noteq> CHR '']'' then Inr (grp, [Ini_error ln ''missing ] at end of line''])
           else Inr (butlast (tl l), [])
         else if grp = [] then Inr (grp, [Ini_error ln ''value outside of a group''])
         else
           let name = takeWhile (\<lambda>c. c \<noteq> CHR ''='') l;
               rest = dropWhile (\<lambda>c. c \<noteq> CHR ''='') l
           in if rest = [] then Inr (grp, [Ini_error ln (''no '' @ [atom_mark, CHR ''='', atom_mark] @ '' found'')])
              else if name = [] then Inr (grp, [Ini_error ln (''line starting with '' @ [atom_mark, CHR ''='', atom_mark])])
              else if tl rest = [] then Inr (grp, [Ini_error ln (''line ends with '' @ [atom_mark, CHR ''='', atom_mark])])
              else bindR (parse_value strtod dneg ln (grp @ ''.'' @ takeWhile (\<lambda>c. \<not> isspace c) name)
                           (dropWhile isspace (tl rest)))
                     (\<lambda>es. Inr (grp, es)))"

fun parse_lines ::
  "(string \<Rightarrow> 'd \<times> nat) \<Rightarrow> ('d \<Rightarrow> 'd) \<Rightarrow> nat \<Rightarrow> string \<Rightarrow> string list \<Rightarrow> 'd ini_event list res" where
  "parse_lines strtod dneg ln grp [] = Inr []"
| "parse_lines strtod dneg ln grp (line # ls) =
     bindR (parse_line strtod dneg (ln + 1) grp line) (\<lambda>(grp, es).
       bindR (parse_lines strtod dneg (ln + 1) grp ls) (\<lambda>fs. Inr (es @ fs)))"

definition parse_ini :: "(string \<Rightarrow> 'd \<times> nat) \<Rightarrow> ('d \<Rightarrow> 'd) \<Rightarrow> string \<Rightarrow> 'd ini_event list res" where
  "parse_ini strtod dneg input = parse_lines strtod dneg 0 [] (getlines [] input)"

end
