(* ===== verification/IniProperties.thy ===== *)
theory IniProperties
  imports ParseIni
begin

text \<open>
  A configuration that is written out is read back, with the line of each value; and the values that the parser takes
  for something else.
\<close>

section \<open>Decimal numbers\<close>

lemma of_char_digit [simp]: "d < 10 \<Longrightarrow> of_char (char_of (48 + d) :: char) = (48 + d :: nat)"
  by (simp add: of_char_of take_bit_nat_eq_self)

lemma isdigit_digit [simp]: "d < 10 \<Longrightarrow> isdigit (char_of (48 + d :: nat))"
  by (simp add: isdigit_def)

lemma digit_value_digit [simp]: "d < 10 \<Longrightarrow> digit_value (char_of (48 + d :: nat)) = d"
  by (simp add: digit_value_def)

lemma show_dec_all_digits: "list_all isdigit (show_dec n)"
  by (induction n rule: show_dec.induct) (subst show_dec.simps, simp)

lemma digits_value_append: "digits_value b (xs @ ys) a = digits_value b ys (digits_value b xs a)"
  by (induction xs arbitrary: a) simp_all

lemma digits_value_show_dec: "digits_value 10 (show_dec n) 0 = n"
  by (induction n rule: show_dec.induct) (subst show_dec.simps, simp add: digits_value_append)

lemma show_dec_not_Nil [simp]: "show_dec n \<noteq> []"
  by (subst show_dec.simps) simp

lemma show_dec_zero: "n \<noteq> 0 \<Longrightarrow> hd (show_dec n) \<noteq> CHR ''0''"
proof (induction n rule: show_dec.induct)
  case (1 n)
  have "hd (show_dec n) = (if n < 10 then char_of (48 + n) else hd (show_dec (n div 10)))"
    by (subst show_dec.simps) simp
  moreover have "char_of (48 + n) \<noteq> CHR ''0''" if "n < 10"
  proof
    assume "char_of (48 + n) = CHR ''0''"
    then have "of_char (char_of (48 + n) :: char) = (of_char CHR ''0'' :: nat)" by simp
    then show False using that 1(2) by simp
  qed
  ultimately show ?case using 1 by auto
qed

lemma isdigit_not: "isdigit c \<Longrightarrow> \<not> isspace c \<and> c \<noteq> CHR ''-'' \<and> c \<noteq> CHR ''+'' \<and> c \<noteq> CHR ''=''"
  by (auto simp: isdigit_def isspace_def)

lemma isdigit_value: "isdigit c \<Longrightarrow> digit_value c < 10"
  unfolding digit_value_def isdigit_def by (auto simp: less_diff_conv2)

lemma strtoll_dec:
  assumes "list_all isdigit s" and "s \<noteq> []"
  shows "strtoll 10 s = (clamp64 (int (digits_value 10 s 0)), length s)"
proof -
  have h: "isdigit (hd s)" using assms by (cases s) auto
  have "dropWhile isspace s = s" using h isdigit_not assms(2) by (cases s) auto
  moreover have tw: "takeWhile (\<lambda>c. digit_value c < 10) s = s"
    using assms(1) isdigit_value by (auto simp: takeWhile_eq_all_conv list_all_iff)
  ultimately show ?thesis using h isdigit_not assms(2) by (simp add: strtoll_def Let_def tw)
qed

section \<open>Writing a configuration\<close>

fun escape :: "string \<Rightarrow> string" where
  "escape [] = []"
| "escape (c # cs) =
     (if c = CHR 0x0A then [CHR 0x5C, CHR ''n'']
      else if c = CHR 0x09 then [CHR 0x5C, CHR ''t'']
      else if c = CHR 0x5C then [c, c]
      else [c]) @ escape cs"

datatype ini_value = Ini_bool bool | Ini_int int | Ini_string string | Ini_atom string

fun ini_render :: "ini_value \<Rightarrow> string" where
  "ini_render (Ini_bool b) = (if b then ''true'' else ''false'')"
| "ini_render (Ini_int i) = (if i < 0 then CHR ''-'' # show_dec (nat (- i)) else show_dec (nat i))"
| "ini_render (Ini_string s) = [quote_mark] @ escape s @ [quote_mark]"
| "ini_render (Ini_atom s) = [atom_mark] @ s @ [atom_mark]"

fun ini_meaning :: "ini_value \<Rightarrow> 'd config_value" where
  "ini_meaning (Ini_bool b) = Cv_bool b"
| "ini_meaning (Ini_int i) = Cv_int i"
| "ini_meaning (Ini_string s) = Cv_string s"
| "ini_meaning (Ini_atom s) = Cv_atom (the (atom s))"

fun ini_ok :: "ini_value \<Rightarrow> bool" where
  "ini_ok (Ini_int i) \<longleftrightarrow> - (2 ^ 63) < i \<and> i < 2 ^ 63"
| "ini_ok (Ini_atom s) \<longleftrightarrow> length s \<le> 10 \<and> CHR 0x0A \<notin> set s"
| "ini_ok _ \<longleftrightarrow> True"

lemma unescape_escape: "unescape r False (escape s) = (r @ s, False)"
  by (induction s arbitrary: r) simp_all

lemma escape_no_newline: "CHR 0x0A \<notin> set (escape s)"
  by (induction s) auto

lemma clamp64_id: "- (2 ^ 63) < i \<Longrightarrow> i < 2 ^ 63 \<Longrightarrow> clamp64 i = i"
  by (simp add: clamp64_def)

lemma parse_number_dec:
  assumes "n < 2 ^ 63"
  shows "set_ival ln key neg (show_dec n) 10 err = Inr [Consumed ln key (Cv_int (if neg then - int n else int n))]"
proof -
  have "clamp64 (int n) = int n" using assms by (simp add: clamp64_id)
  then show ?thesis using strtoll_dec [OF show_dec_all_digits show_dec_not_Nil, of n]
    by (simp add: set_ival_def digits_value_show_dec)
qed

lemma parse_int_render:
  assumes "- (2 ^ 63) < i" and "i < 2 ^ 63"
  shows "parse_number strtod dneg ln key (ini_render (Ini_int i)) = Inr [Consumed ln key (Cv_int i)]"
proof -
  have single: "length (show_dec n) \<le> 1 \<or> hd (show_dec n) \<noteq> CHR ''0''" for n
    using show_dec_zero [of n] by (cases "n = 0") (simp_all add: show_dec.simps [of 0])
  have dash: "hd (show_dec n) \<noteq> CHR ''-''" for n
    using show_dec_all_digits [of n] isdigit_not by (cases "show_dec n") auto
  show ?thesis
  proof (cases "i < 0")
    case True
    then have "nat (- i) < 2 ^ 63" using assms(1) by simp
    then show ?thesis using True single [of "nat (- i)"] show_dec_all_digits [of "nat (- i)"]
      by (auto simp: parse_number_def Let_def parse_number_dec)
  next
    case False
    then have "nat i < 2 ^ 63" using assms(2) by simp
    then show ?thesis using False single [of "nat i"] show_dec_all_digits [of "nat i"] dash
      by (auto simp: parse_number_def Let_def parse_number_dec)
  qed
qed

lemma tolower_digit: "isdigit c \<Longrightarrow> tolower c = c"
  by (simp add: tolower_def isdigit_def)

lemma parse_value_render:
  assumes "ini_ok v"
  shows "parse_value strtod dneg ln key (ini_render v) = Inr [Consumed ln key (ini_meaning v)]"
proof (cases v)
  case (Ini_bool b)
  then show ?thesis by (cases b) (simp_all add: parse_value_def tolower_def)
next
  case (Ini_string s)
  then show ?thesis
    by (simp add: parse_value_def tolower_def quote_mark_def atom_mark_def parse_string_value_def unescape_escape butlast_append)
next
  case (Ini_atom s)
  then show ?thesis using assms
    by (simp add: parse_value_def tolower_def quote_mark_def atom_mark_def parse_atom_value_def butlast_append atom_def)
next
  case (Ini_int i)
  obtain c cs where c: "ini_render (Ini_int i) = c # cs" "c = CHR ''-'' \<or> isdigit c"
  proof (cases "i < 0")
    case False
    then show ?thesis using that show_dec_all_digits [of "nat i"] by (cases "show_dec (nat i)") auto
  qed (use that in auto)
  have "tolower c = c" "c \<noteq> CHR ''t''" "c \<noteq> CHR ''f''" "c \<noteq> atom_mark" "c \<noteq> quote_mark"
    using c(2) by (auto simp: tolower_digit tolower_def isdigit_def atom_mark_def quote_mark_def)
  then have "equal_icase (c # cs) (''true'' @ [CHR 0x00]) = Inr False" "equal_icase (c # cs) (''false'' @ [CHR 0x00]) = Inr False"
    by (simp_all add: tolower_def split: if_splits)
  then show ?thesis using parse_int_render [of i strtod dneg ln key] assms Ini_int c \<open>c \<noteq> atom_mark\<close> \<open>c \<noteq> quote_mark\<close>
    by (simp add: parse_value_def)
qed

section \<open>A configuration is read back\<close>

text \<open>Groups with their entries, as lines.\<close>

type_synonym ini_group = "string \<times> (string \<times> ini_value) list"

fun entry_line :: "string \<times> ini_value \<Rightarrow> string" where
  "entry_line (name, v) = name @ ''='' @ ini_render v"

definition group_lines :: "ini_group \<Rightarrow> string list" where
  "group_lines g = (''['' @ fst g @ '']'') # map entry_line (snd g)"

fun entry_ok :: "string \<times> ini_value \<Rightarrow> bool" where
  "entry_ok (name, v) \<longleftrightarrow> ini_ok v \<and> name \<noteq> [] \<and> hd name \<noteq> CHR '';'' \<and> hd name \<noteq> CHR ''[''
     \<and> list_all (\<lambda>c. \<not> isspace c \<and> c \<noteq> CHR ''='') name"

definition group_ok :: "ini_group \<Rightarrow> bool" where
  "group_ok g \<longleftrightarrow> fst g \<noteq> [] \<and> CHR 0x0A \<notin> set (fst g) \<and> list_all entry_ok (snd g)"

fun entry_events :: "string \<Rightarrow> nat \<Rightarrow> (string \<times> ini_value) list \<Rightarrow> 'd ini_event list" where
  "entry_events grp ln [] = []"
| "entry_events grp ln ((name, v) # es) = Consumed ln (grp @ ''.'' @ name) (ini_meaning v) # entry_events grp (ln + 1) es"

fun group_events :: "nat \<Rightarrow> ini_group list \<Rightarrow> 'd ini_event list" where
  "group_events ln [] = []"
| "group_events ln (g # gs) = entry_events (fst g) (ln + 2) (snd g) @ group_events (ln + 1 + length (snd g)) gs"

definition ini_text :: "ini_group list \<Rightarrow> string" where
  "ini_text gs = concat (map (\<lambda>l. l @ [CHR 0x0A]) (concat (map group_lines gs)))"

lemma getlines_line: "CHR 0x0A \<notin> set l \<Longrightarrow> getlines acc (l @ CHR 0x0A # rest) = (acc @ l) # getlines [] rest"
  by (induction l arbitrary: acc) auto

lemma getlines_text:
  "\<forall>l \<in> set ls. CHR 0x0A \<notin> set l \<Longrightarrow> getlines [] (concat (map (\<lambda>l. l @ [CHR 0x0A]) ls)) = ls"
  by (induction ls) (simp_all add: getlines_line)

lemma trim_id:
  assumes "l \<noteq> []" and "\<not> isspace (hd l)" and "\<not> isspace (last l)"
  shows "dropWhile isspace (trim_right l) = l"
proof -
  have "dropWhile isspace (rev l) = rev l" using assms(1,3) by (cases l rule: rev_cases) simp_all
  then show ?thesis using assms(1,2) by (cases l) (simp_all add: trim_right_def)
qed

lemma isspace_chars [simp]:
  "\<not> isspace (CHR ''['')" "\<not> isspace (CHR '']'')" "\<not> isspace (CHR ''-'')" "\<not> isspace quote_mark" "\<not> isspace atom_mark"
  "\<not> isspace (CHR ''e'')" "\<not> isspace (CHR ''t'')" "\<not> isspace (CHR ''f'')" "isspace (CHR 0x0A)"
  by (simp_all add: isspace_def quote_mark_def atom_mark_def)

lemma show_dec_ends: "\<not> isspace (hd (show_dec n))" "\<not> isspace (last (show_dec n))"
proof -
  have "isdigit (hd (show_dec n))" "isdigit (last (show_dec n))"
    using show_dec_all_digits [of n] show_dec_not_Nil [of n] by (auto simp: list_all_iff)
  then show "\<not> isspace (hd (show_dec n))" "\<not> isspace (last (show_dec n))" using isdigit_not by blast+
qed

lemma ini_render_ends: "ini_render v \<noteq> []" "\<not> isspace (hd (ini_render v))" "\<not> isspace (last (ini_render v))"
  using show_dec_ends by (cases v; auto)+

lemma show_dec_no_newline: "CHR 0x0A \<notin> set (show_dec n)"
  using show_dec_all_digits [of n] by (auto simp: list_all_iff isdigit_def)

lemma ini_render_no_newline: "ini_ok v \<Longrightarrow> CHR 0x0A \<notin> set (ini_render v)"
  using show_dec_no_newline escape_no_newline by (cases v) (auto simp: quote_mark_def atom_mark_def)

lemma parse_group_line:
  assumes "CHR 0x0A \<notin> set grp"
  shows "parse_line strtod dneg ln old (''['' @ grp @ '']'') = Inr (grp, [])"
proof -
  have "dropWhile isspace (trim_right (''['' @ grp @ '']'')) = ''['' @ grp @ '']''" by (rule trim_id) simp_all
  then show ?thesis by (simp add: parse_line_def)
qed

lemma parse_entry_line:
  assumes "entry_ok (name, v)" and "grp \<noteq> []"
  shows "parse_line strtod dneg ln grp (entry_line (name, v)) = Inr (grp, [Consumed ln (grp @ ''.'' @ name) (ini_meaning v)])"
proof -
  let ?l = "name @ ''='' @ ini_render v"
  have n: "name \<noteq> []" "\<forall>c \<in> set name. \<not> isspace c \<and> c \<noteq> CHR ''=''" "hd name \<noteq> CHR '';''" "hd name \<noteq> CHR ''[''"
    using assms(1) by (simp_all add: list_all_iff)
  have "dropWhile isspace (trim_right ?l) = ?l"
    using n ini_render_ends [of v] by (intro trim_id) auto
  moreover have "takeWhile (\<lambda>c. c \<noteq> CHR ''='') ?l = name" "dropWhile (\<lambda>c. c \<noteq> CHR ''='') ?l = ''='' @ ini_render v"
    using n(2) by (simp_all add: takeWhile_append dropWhile_append)
  moreover have tw: "takeWhile (\<lambda>c. \<not> isspace c) name = name" using n(2) by (simp add: takeWhile_eq_all_conv)
  moreover have "dropWhile isspace (ini_render v) = ini_render v" using ini_render_ends [of v] by (cases "ini_render v") auto
  ultimately show ?thesis
    using n assms parse_value_render [of v strtod dneg ln "grp @ ''.'' @ name"] ini_render_ends [of v]
    by (simp add: parse_line_def Let_def tw)
qed

lemma parse_entries:
  "list_all entry_ok es \<Longrightarrow> grp \<noteq> [] \<Longrightarrow> parse_lines strtod dneg (ln + length es) grp rest = Inr fs \<Longrightarrow>
   parse_lines strtod dneg ln grp (map entry_line es @ rest) = Inr (entry_events grp (ln + 1) es @ fs)"
proof (induction es arbitrary: ln)
  case (Cons e es)
  obtain name v where e: "e = (name, v)" by (rule prod.exhaust)
  have "parse_lines strtod dneg (ln + 1) grp (map entry_line es @ rest) = Inr (entry_events grp (ln + 1 + 1) es @ fs)"
    by (rule Cons.IH) (use Cons.prems in simp_all)
  then show ?case using Cons.prems parse_entry_line [of name v grp strtod dneg "ln + 1"]
    by (simp add: e del: entry_line.simps entry_ok.simps)
qed simp

lemma parse_groups:
  "list_all group_ok gs \<Longrightarrow> parse_lines strtod dneg ln old (concat (map group_lines gs)) = Inr (group_events ln gs)"
proof (induction gs arbitrary: ln old)
  case (Cons g gs)
  have g: "fst g \<noteq> []" "CHR 0x0A \<notin> set (fst g)" "list_all entry_ok (snd g)" using Cons.prems by (simp_all add: group_ok_def)
  have "parse_lines strtod dneg (ln + 1 + length (snd g)) (fst g) (concat (map group_lines gs))
      = Inr (group_events (ln + 1 + length (snd g)) gs)"
    by (rule Cons.IH) (use Cons.prems in simp)
  from parse_entries [OF g(3,1) this] show ?case
    using parse_group_line [OF g(2), of strtod dneg "ln + 1" old] group_lines_def [of g] by simp
qed simp

text \<open>C40: a configuration that is written out is read back: each entry of each group gives one value, with the key
  \<open>group.name\<close> and the number of its line, in order, and nothing else is reported. Strings may have any characters,
  integers any value but the least.\<close>

theorem ini_round_trip:
  assumes "list_all group_ok gs"
  shows "parse_ini strtod dneg (ini_text gs) = Inr (group_events 0 gs)"
proof -
  have "CHR 0x0A \<notin> set l" if l: "l \<in> set (concat (map group_lines gs))" for l
  proof -
    obtain g where g: "g \<in> set gs" "l \<in> set (group_lines g)" using l by auto
    then have ok: "group_ok g" using assms by (simp add: list_all_iff)
    show ?thesis
    proof (cases "l = ''['' @ fst g @ '']''")
      case True
      then show ?thesis using ok by (simp add: group_ok_def)
    next
      case False
      then obtain name v where e: "(name, v) \<in> set (snd g)" "l = entry_line (name, v)"
        using g(2) by (auto simp: group_lines_def)
      then have "entry_ok (name, v)" using ok unfolding group_ok_def list_all_iff by blast
      then have "CHR 0x0A \<notin> set (ini_render v)" "CHR 0x0A \<notin> set name"
        using ini_render_no_newline [of v] isspace_chars(9) by (auto simp: list_all_iff simp del: isspace_chars)
      then show ?thesis by (simp add: e(2))
    qed
  qed
  then have "getlines [] (ini_text gs) = concat (map group_lines gs)"
    unfolding ini_text_def by (intro getlines_text) blast
  then show ?thesis using parse_groups [OF assms, of strtod dneg 0 "[]"] by (simp add: parse_ini_def)
qed

definition sample_groups :: "ini_group list" where
  "sample_groups = [(''a b'', [(''x'', Ini_int (-12)), (''y'', Ini_string [CHR 0x22, CHR 0x0A, CHR '';'', CHR 0x5C])]), (''s'', []),
     (''t'', [(''on'', Ini_bool True), (''p'', Ini_atom ''foo'')])]"

lemma ini_round_trip_witness:
  "parse_ini (\<lambda>s. (s, 0)) id (ini_text sample_groups)
     = Inr [Consumed 2 ''a b.x'' (Cv_int (-12)), Consumed 3 ''a b.y'' (Cv_string [CHR 0x22, CHR 0x0A, CHR '';'', CHR 0x5C]),
            Consumed 6 ''t.on'' (Cv_bool True), Consumed 7 ''t.p'' (Cv_atom (the (atom ''foo'')))]"
  using ini_round_trip [of sample_groups "\<lambda>s. (s, 0)" id]
  by (simp add: sample_groups_def group_ok_def isspace_def)

section \<open>Values that are taken for others\<close>

lemma equal_icase_prefix:
  "length v \<le> length lit \<Longrightarrow> map tolower v = map tolower (take (length v) lit) \<Longrightarrow> equal_icase v lit = Inr True"
  by (induction v lit rule: equal_icase.induct) auto

lemma equal_word:
  assumes "map tolower w = w" and "map tolower v = take (length v) w"
  shows "equal_icase v (w @ zs) = Inr True"
proof (rule equal_icase_prefix)
  have "length v = min (length v) (length w)" using arg_cong [OF assms(2), of length] by simp
  then show l: "length v \<le> length (w @ zs)" by simp
  have "length v \<le> length w" using \<open>length v = min (length v) (length w)\<close> by simp
  moreover have "map tolower (take (length v) w) = take (length v) w" using assms(1) by (metis take_map)
  ultimately show "map tolower v = map tolower (take (length v) (w @ zs))" using assms(2) by simp
qed

text \<open>Each beginning of the words \<open>true\<close> and \<open>false\<close>, in any case, is read as the boolean: \<open>t\<close>, \<open>Tr\<close>, \<open>fals\<close>. An
  integer outside 64 bits is read as the nearest one without an error, the least integer as its successor, a bare
  prefix \<open>0x\<close> as zero, and \<open>true\<close> with a NUL and more makes the parser read behind a literal.\<close>

theorem ini_misread:
  "(v \<noteq> [] \<and> map tolower v = take (length v) ''true'' \<longrightarrow>
      parse_value (strtod :: string \<Rightarrow> 'd \<times> nat) dneg ln key v = Inr [Consumed ln key (Cv_bool True)])
   \<and> (v \<noteq> [] \<and> map tolower v = take (length v) ''false'' \<longrightarrow>
      parse_value strtod dneg ln key v = Inr [Consumed ln key (Cv_bool False)])
   \<and> (n \<ge> 2 ^ 63 \<longrightarrow> set_ival ln key False (show_dec n) 10 err = (Inr [Consumed ln key (Cv_int (2 ^ 63 - 1))] :: 'd ini_event list res)
        \<and> set_ival ln key True (show_dec n) 10 err = (Inr [Consumed ln key (Cv_int (- (2 ^ 63) + 1))] :: 'd ini_event list res))
   \<and> parse_value strtod dneg ln key ''0x'' = Inr [Consumed ln key (Cv_int 0)]
   \<and> parse_value strtod dneg ln key (''true'' @ [CHR 0x00, CHR ''!'']) = Inl OutOfBounds"
proof (intro conjI impI)
  have words: "map tolower ''true'' = ''true''" "map tolower ''false'' = ''false''" by (simp_all add: tolower_def)
  show "parse_value strtod dneg ln key v = Inr [Consumed ln key (Cv_bool True)]"
    if "v \<noteq> [] \<and> map tolower v = take (length v) ''true''"
    using equal_word [OF words(1), of v "[CHR 0x00]"] that by (simp add: parse_value_def)
  show "parse_value strtod dneg ln key v = Inr [Consumed ln key (Cv_bool False)]"
    if v: "v \<noteq> [] \<and> map tolower v = take (length v) ''false''"
  proof -
    obtain c cs where c: "v = c # cs" using v by (cases v) auto
    then have "tolower c = CHR ''f''" using v by simp
    then have "equal_icase v (''true'' @ [CHR 0x00]) = Inr False" by (simp add: c tolower_def)
    then show ?thesis using equal_word [OF words(2), of v "[CHR 0x00]"] v by (simp add: parse_value_def)
  qed
  have clamp: "strtoll 10 (show_dec n) = (2 ^ 63 - 1, length (show_dec n))" if "n \<ge> 2 ^ 63"
  proof -
    have "int n \<ge> 2 ^ 63" using that by (metis of_nat_le_iff of_nat_numeral of_nat_power)
    then have "clamp64 (int n) = 2 ^ 63 - 1" by (simp add: clamp64_def)
    then show ?thesis using strtoll_dec [OF show_dec_all_digits show_dec_not_Nil, of n] by (simp add: digits_value_show_dec)
  qed
  show "set_ival ln key False (show_dec n) 10 err = Inr [Consumed ln key (Cv_int (2 ^ 63 - 1))]" if "n \<ge> 2 ^ 63"
    using clamp [OF that] by (simp add: set_ival_def)
  show "set_ival ln key True (show_dec n) 10 err = Inr [Consumed ln key (Cv_int (- (2 ^ 63) + 1))]" if "n \<ge> 2 ^ 63"
    using clamp [OF that] by (simp add: set_ival_def)
  show "parse_value strtod dneg ln key ''0x'' = Inr [Consumed ln key (Cv_int 0)]"
    by (simp add: parse_value_def tolower_def parse_number_def atom_mark_def quote_mark_def set_ival_def strtoll_def)
  show "parse_value strtod dneg ln key (''true'' @ [CHR 0x00, CHR ''!'']) = Inl OutOfBounds"
    by (simp add: parse_value_def)
qed

lemma tolower_T: "tolower (CHR ''T'') = CHR ''t''" "tolower (CHR ''r'') = CHR ''r''" "tolower (CHR ''f'') = CHR ''f''"
  by code_simp+

lemma ini_misread_witness:
  "parse_value (\<lambda>s. (s, 0)) id 1 ''k'' ''Tr'' = Inr [Consumed 1 ''k'' (Cv_bool True)]
   \<and> parse_value (\<lambda>s. (s, 0)) id 1 ''k'' ''f'' = Inr [Consumed 1 ''k'' (Cv_bool False)]
   \<and> set_ival 1 ''k'' False (show_dec (2 ^ 64)) 10 [] = (Inr [Consumed 1 ''k'' (Cv_int (2 ^ 63 - 1))] :: string ini_event list res)"
  using ini_misread [of "''Tr''" "\<lambda>s. (s, 0)" id 1 "''k''" "2 ^ 64" "[]"]
    ini_misread [of "''f''" "\<lambda>s. (s, 0)" id 1 "''k''" "2 ^ 64" "[]"]
  by (simp add: tolower_T)

end
