(* ===== verification/Deque.thy ===== *)
theory Deque
  imports Prelude
begin

text \<open>
  The queue of a worker of the scheduler (libcaf_core/caf/detail/double_ended_queue.hpp): a linked list with a dummy
  node and two spin locks, used by several threads. A step is one access to what the threads share; with both locks
  taken, or on fields that nobody else can reach, several accesses are one step. Each step has a label, the operation
  on the list of values that it is when it takes effect, and the nodes that it dereferences or deletes.
\<close>

section \<open>The state\<close>

text \<open>Where a thread is, with its local variables.\<close>

datatype dpc =
    D_idle
  | App_new nat | App_locked nat | App_published nat
  | Pre_new nat | Pre_head nat | Pre_both nat
  | Hd_locked | Hd_next nat nat | Hd_taken nat "nat option"
  | Tl_head | Tl_both | Tl_taken nat "nat option"
  | D_done "nat option"

record deq =
  dval :: "nat \<Rightarrow> nat option"
  dnxt :: "nat \<Rightarrow> nat option"
  heap :: "nat set"
  dhead :: nat
  dtail :: nat
  hlock :: "nat option"
  tlock :: "nat option"
  pc :: "nat \<Rightarrow> dpc"

datatype dlabel = Tau | Push_back nat | Push_front nat | Pop_front "nat option" | Pop_back "nat option"

definition deq_new :: "nat \<Rightarrow> deq" where
  "deq_new n = \<lparr>dval = \<lambda>_. None, dnxt = \<lambda>_. None, heap = {n}, dhead = n, dtail = n, hlock = None, tlock = None,
     pc = \<lambda>_. D_idle\<rparr>"

text \<open>\<open>empty\<close> compares the two pointers without a lock.\<close>

definition deq_empty :: "deq \<Rightarrow> bool" where "deq_empty s \<longleftrightarrow> dhead s = dtail s"

partial_function (option) find_predecessor :: "(nat \<Rightarrow> nat option) \<Rightarrow> nat \<Rightarrow> nat \<Rightarrow> nat option option" where
  [code]: "find_predecessor nx i what =
     (if nx i = Some what then Some (Some i)
      else case nx i of None \<Rightarrow> Some None | Some j \<Rightarrow> find_predecessor nx j what)"

text \<open>The nodes that this passes are among those.\<close>

definition following :: "(nat \<Rightarrow> nat option) \<Rightarrow> nat \<Rightarrow> nat set" where
  "following nx i = {n. (\<lambda>a b. nx a = Some b)\<^sup>*\<^sup>* i n}"

definition goto :: "nat \<Rightarrow> dpc \<Rightarrow> deq \<Rightarrow> deq" where
  "goto t p s = s\<lparr>pc := (pc s)(t := p)\<rparr>"

definition alloc :: "nat \<Rightarrow> nat \<Rightarrow> deq \<Rightarrow> deq" where
  "alloc n v s = s\<lparr>heap := insert n (heap s), dval := (dval s)(n := Some v), dnxt := (dnxt s)(n := None)\<rparr>"

definition ready :: "dpc \<Rightarrow> bool" where
  "ready p \<longleftrightarrow> p = D_idle \<or> (\<exists>r. p = D_done r)"

section \<open>The steps\<close>

inductive dstep :: "nat \<Rightarrow> deq \<Rightarrow> dlabel \<Rightarrow> nat set \<Rightarrow> deq \<Rightarrow> bool" where
  app_new: "ready (pc s t) \<Longrightarrow> n \<notin> heap s \<Longrightarrow> dstep t s Tau {} (goto t (App_new n) (alloc n v s))"
| app_lock: "pc s t = App_new n \<Longrightarrow> tlock s = None \<Longrightarrow>
    dstep t s Tau {} (goto t (App_locked n) (s\<lparr>tlock := Some t\<rparr>))"
| app_publish: "pc s t = App_locked n \<Longrightarrow>
    dstep t s (Push_back (the (dval s n))) {dtail s}
      (goto t (App_published n) (s\<lparr>dnxt := (dnxt s)(dtail s := Some n)\<rparr>))"
| app_end: "pc s t = App_published n \<Longrightarrow>
    dstep t s Tau {} (goto t (D_done None) (s\<lparr>dtail := n, tlock := None\<rparr>))"
| pre_new: "ready (pc s t) \<Longrightarrow> n \<notin> heap s \<Longrightarrow> dstep t s Tau {} (goto t (Pre_new n) (alloc n v s))"
| pre_lock_head: "pc s t = Pre_new n \<Longrightarrow> hlock s = None \<Longrightarrow>
    dstep t s Tau {} (goto t (Pre_head n) (s\<lparr>hlock := Some t\<rparr>))"
| pre_lock_tail: "pc s t = Pre_head n \<Longrightarrow> tlock s = None \<Longrightarrow>
    dstep t s Tau {} (goto t (Pre_both n) (s\<lparr>tlock := Some t\<rparr>))"
| pre_insert: "pc s t = Pre_both n \<Longrightarrow>
    dstep t s (Push_front (the (dval s n))) {dhead s, n}
      (goto t (D_done None)
         (case dnxt s (dhead s) of
            Some x \<Rightarrow> s\<lparr>dnxt := (dnxt s)(n := Some x, dhead s := Some n), hlock := None, tlock := None\<rparr>
          | None \<Rightarrow> s\<lparr>dnxt := (dnxt s)(dhead s := Some n), dtail := n, hlock := None, tlock := None\<rparr>))"
| hd_lock: "ready (pc s t) \<Longrightarrow> hlock s = None \<Longrightarrow> dstep t s Tau {} (goto t Hd_locked (s\<lparr>hlock := Some t\<rparr>))"
| hd_empty: "pc s t = Hd_locked \<Longrightarrow> dnxt s (dhead s) = None \<Longrightarrow>
    dstep t s (Pop_front None) {dhead s} (goto t (D_done None) (s\<lparr>hlock := None\<rparr>))"
| hd_read: "pc s t = Hd_locked \<Longrightarrow> dnxt s (dhead s) = Some x \<Longrightarrow>
    dstep t s Tau {dhead s} (goto t (Hd_next (dhead s) x) s)"
| hd_take: "pc s t = Hd_next first x \<Longrightarrow>
    dstep t s (Pop_front (dval s x)) {x}
      (goto t (Hd_taken first (dval s x)) (s\<lparr>dval := (dval s)(x := None), dhead := x, hlock := None\<rparr>))"
| hd_free: "pc s t = Hd_taken first r \<Longrightarrow>
    dstep t s Tau {first} (goto t (D_done r) (s\<lparr>heap := heap s - {first}\<rparr>))"
| tl_lock_head: "ready (pc s t) \<Longrightarrow> hlock s = None \<Longrightarrow> dstep t s Tau {} (goto t Tl_head (s\<lparr>hlock := Some t\<rparr>))"
| tl_lock_tail: "pc s t = Tl_head \<Longrightarrow> tlock s = None \<Longrightarrow> dstep t s Tau {} (goto t Tl_both (s\<lparr>tlock := Some t\<rparr>))"
| tl_empty: "pc s t = Tl_both \<Longrightarrow> dtail s = dhead s \<Longrightarrow>
    dstep t s (Pop_back None) {} (goto t (D_done None) (s\<lparr>hlock := None, tlock := None\<rparr>))"
| tl_take: "pc s t = Tl_both \<Longrightarrow> dtail s \<noteq> dhead s \<Longrightarrow> find_predecessor (dnxt s) (dhead s) (dtail s) = Some (Some p) \<Longrightarrow>
    dstep t s (Pop_back (dval s (dtail s))) (insert (dtail s) (following (dnxt s) (dhead s)))
      (goto t (Tl_taken (dtail s) (dval s (dtail s)))
         (s\<lparr>dnxt := (dnxt s)(p := None), dtail := p, hlock := None, tlock := None\<rparr>))"
| tl_free: "pc s t = Tl_taken final r \<Longrightarrow>
    dstep t s Tau {final} (goto t (D_done r) (s\<lparr>heap := heap s - {final}\<rparr>))"

inductive dsteps :: "deq \<Rightarrow> dlabel list \<Rightarrow> deq \<Rightarrow> bool" where
  no_step: "dsteps s [] s"
| one_more: "dsteps s ls s' \<Longrightarrow> dstep t s' l acc s'' \<Longrightarrow> dsteps s (ls @ [l]) s''"

section \<open>The queue as a list\<close>

text \<open>What the operations are on a list; \<^const>\<open>None\<close> where a result is not the one of the list.\<close>

fun deq_spec :: "dlabel \<Rightarrow> nat list \<Rightarrow> nat list option" where
  "deq_spec Tau xs = Some xs"
| "deq_spec (Push_back v) xs = Some (xs @ [v])"
| "deq_spec (Push_front v) xs = Some (v # xs)"
| "deq_spec (Pop_front None) xs = (if xs = [] then Some [] else None)"
| "deq_spec (Pop_front (Some v)) xs = (if xs \<noteq> [] \<and> hd xs = v then Some (tl xs) else None)"
| "deq_spec (Pop_back None) xs = (if xs = [] then Some [] else None)"
| "deq_spec (Pop_back (Some v)) xs = (if xs \<noteq> [] \<and> last xs = v then Some (butlast xs) else None)"

fun deq_specs :: "dlabel list \<Rightarrow> nat list \<Rightarrow> nat list option" where
  "deq_specs [] xs = Some xs"
| "deq_specs (l # ls) xs = Option.bind (deq_spec l xs) (deq_specs ls)"

lemma deq_specs_append: "deq_specs (ls @ ms) xs = Option.bind (deq_specs ls xs) (deq_specs ms)"
  by (induction ls arbitrary: xs) (simp_all add: Option.bind_assoc split: Option.bind_splits)

fun chain :: "(nat \<Rightarrow> nat option) \<Rightarrow> nat list \<Rightarrow> bool" where
  "chain nx [] \<longleftrightarrow> False"
| "chain nx [x] \<longleftrightarrow> nx x = None"
| "chain nx (x # y # zs) \<longleftrightarrow> nx x = Some y \<and> chain nx (y # zs)"

lemma chain_cong: "(\<And>x. x \<in> set ns \<Longrightarrow> nx' x = nx x) \<Longrightarrow> chain nx' ns \<longleftrightarrow> chain nx ns"
  by (induction nx ns rule: chain.induct) simp_all

lemma chain_last: "chain nx ns \<Longrightarrow> nx (last ns) = None"
  by (induction nx ns rule: chain.induct) simp_all

lemma chain_append: "chain nx ns \<Longrightarrow> nx n = None \<Longrightarrow> n \<notin> set ns \<Longrightarrow> distinct ns \<Longrightarrow> chain (nx(last ns := Some n)) (ns @ [n])"
proof (induction nx ns rule: chain.induct)
  case (3 nx x y zs)
  then have "x \<noteq> last (y # zs)" using last_in_set [of "y # zs"] by auto
  with 3 show ?case by simp
qed simp_all

lemma chain_butlast:
  "chain nx (ns @ [p, n]) \<Longrightarrow> distinct (ns @ [p, n]) \<Longrightarrow> chain (nx(p := None)) (ns @ [p])"
proof (induction ns)
  case (Cons x xs)
  then show ?case by (cases xs) auto
qed simp

lemma find_predecessor_chain:
  "chain nx (ns @ [p, n] @ ms) \<Longrightarrow> distinct (ns @ [p, n] @ ms) \<Longrightarrow> find_predecessor nx (hd (ns @ [p, n] @ ms)) n = Some (Some p)"
proof (induction ns)
  case Nil
  then show ?case by (subst find_predecessor.simps) (cases ms; simp)
next
  case (Cons x xs)
  have h: "nx x = Some (hd (xs @ [p, n] @ ms))" "hd (xs @ [p, n] @ ms) \<noteq> n"
    using Cons.prems by (cases xs; simp)+
  moreover have "find_predecessor nx (hd (xs @ [p, n] @ ms)) n = Some (Some p)"
    using Cons by (cases xs; simp)
  ultimately show ?case by (subst find_predecessor.simps) simp
qed

lemma following_chain: "chain nx ns \<Longrightarrow> following nx (hd ns) \<subseteq> set ns"
proof
  fix n assume c: "chain nx ns" and n: "n \<in> following nx (hd ns)"
  have step: "b \<in> set ns" if "a \<in> set ns" "nx a = Some b" for a b
    using c that by (induction nx ns rule: chain.induct) auto
  have "(\<lambda>a b. nx a = Some b)\<^sup>*\<^sup>* (hd ns) n" using n by (simp add: following_def)
  then show "n \<in> set ns"
    by (induction rule: rtranclp_induct) (use c step in \<open>auto intro: hd_in_set\<close>)
qed

section \<open>The invariant\<close>

text \<open>A node that only one thread knows: not yet in the list, or taken out.\<close>

fun own_new :: "dpc \<Rightarrow> nat option" where
  "own_new (App_new n) = Some n"
| "own_new (App_locked n) = Some n"
| "own_new (Pre_new n) = Some n"
| "own_new (Pre_head n) = Some n"
| "own_new (Pre_both n) = Some n"
| "own_new _ = None"

fun own_old :: "dpc \<Rightarrow> nat option" where
  "own_old (Hd_taken n r) = Some n"
| "own_old (Tl_taken n r) = Some n"
| "own_old _ = None"

definition own :: "dpc \<Rightarrow> nat option" where
  "own p = (case own_new p of Some n \<Rightarrow> Some n | None \<Rightarrow> own_old p)"

fun has_head :: "dpc \<Rightarrow> bool" where
  "has_head (Pre_head n) = True"
| "has_head (Pre_both n) = True"
| "has_head Hd_locked = True"
| "has_head (Hd_next f x) = True"
| "has_head Tl_head = True"
| "has_head Tl_both = True"
| "has_head _ = False"

fun has_tail :: "dpc \<Rightarrow> bool" where
  "has_tail (App_locked n) = True"
| "has_tail (App_published n) = True"
| "has_tail (Pre_both n) = True"
| "has_tail Tl_both = True"
| "has_tail _ = False"

definition list_wf :: "deq \<Rightarrow> nat list \<Rightarrow> bool" where
  "list_wf s ns \<longleftrightarrow> chain (dnxt s) ns \<and> hd ns = dhead s \<and> distinct ns \<and> set ns \<subseteq> heap s \<and> (\<forall>n \<in> set (tl ns). dval s n \<noteq> None)
     \<and> ((\<forall>t n. pc s t \<noteq> App_published n) \<longrightarrow> dtail s = last ns)
     \<and> (\<forall>t n. pc s t = App_published n \<longrightarrow> last ns = n)
     \<and> (\<forall>t f x. pc s t = Hd_next f x \<longrightarrow> f = dhead s \<and> dnxt s f = Some x)"

definition nodes_wf :: "deq \<Rightarrow> nat list \<Rightarrow> bool" where
  "nodes_wf s ns \<longleftrightarrow>
     (\<forall>t n. own (pc s t) = Some n \<longrightarrow> n \<in> heap s \<and> n \<notin> set ns)
     \<and> (\<forall>t t' n. own (pc s t) = Some n \<and> own (pc s t') = Some n \<longrightarrow> t = t')
     \<and> (\<forall>t n. own_new (pc s t) = Some n \<longrightarrow> dnxt s n = None \<and> dval s n \<noteq> None)"

definition deq_locks_wf :: "deq \<Rightarrow> bool" where
  "deq_locks_wf s \<longleftrightarrow> (\<forall>t. (hlock s = Some t \<longleftrightarrow> has_head (pc s t)) \<and> (tlock s = Some t \<longleftrightarrow> has_tail (pc s t)))"

definition contents :: "deq \<Rightarrow> nat list \<Rightarrow> nat list" where
  "contents s ns = map (\<lambda>n. the (dval s n)) (tl ns)"

definition deq_wf :: "deq \<Rightarrow> nat list \<Rightarrow> bool" where
  "deq_wf s ns \<longleftrightarrow> list_wf s ns \<and> nodes_wf s ns \<and> deq_locks_wf s"

lemma goto_simps [simp]:
  "pc (goto t p s) = (pc s)(t := p)" "dval (goto t p s) = dval s" "dnxt (goto t p s) = dnxt s" "heap (goto t p s) = heap s"
  "dhead (goto t p s) = dhead s" "dtail (goto t p s) = dtail s" "hlock (goto t p s) = hlock s" "tlock (goto t p s) = tlock s"
  by (simp_all add: goto_def)

lemma alloc_simps [simp]:
  "pc (alloc n v s) = pc s" "dval (alloc n v s) = (dval s)(n := Some v)" "dnxt (alloc n v s) = (dnxt s)(n := None)"
  "heap (alloc n v s) = insert n (heap s)" "dhead (alloc n v s) = dhead s" "dtail (alloc n v s) = dtail s"
  "hlock (alloc n v s) = hlock s" "tlock (alloc n v s) = tlock s"
  by (simp_all add: alloc_def)

lemma own_simps [simp]:
  "own D_idle = None" "own (App_new n) = Some n" "own (App_locked n) = Some n" "own (App_published n) = None"
  "own (Pre_new n) = Some n" "own (Pre_head n) = Some n" "own (Pre_both n) = Some n" "own Hd_locked = None"
  "own (Hd_next f x) = None" "own (Hd_taken n r) = Some n" "own Tl_head = None" "own Tl_both = None"
  "own (Tl_taken n r) = Some n" "own (D_done r) = None"
  by (simp_all add: own_def)

text \<open>Locks.\<close>

lemma ready_simps [simp]: "ready p \<Longrightarrow> \<not> has_head p" "ready p \<Longrightarrow> \<not> has_tail p" "ready p \<Longrightarrow> own p = None"
  "ready p \<Longrightarrow> p \<noteq> App_published n" "ready p \<Longrightarrow> p \<noteq> Hd_next f x"
  by (auto simp: ready_def)

lemma dstep_locks:
  assumes "dstep t s l acc s'" and "deq_locks_wf s"
  shows "deq_locks_wf s'"
proof -
  have l: "\<And>t. hlock s = Some t \<longleftrightarrow> has_head (pc s t)" "\<And>t. tlock s = Some t \<longleftrightarrow> has_tail (pc s t)"
    using assms(2) by (simp_all add: deq_locks_wf_def)
  have hu: "has_head (pc s u) \<Longrightarrow> has_head (pc s t) \<Longrightarrow> u = t" for u t using l(1) [of u] l(1) [of t] by simp
  have tu: "has_tail (pc s u) \<Longrightarrow> has_tail (pc s t) \<Longrightarrow> u = t" for u t using l(2) [of u] l(2) [of t] by simp
  show ?thesis using assms(1)
  proof cases
    case (pre_insert n)
    then have "has_head (pc s t)" "has_tail (pc s t)" by simp_all
    then show ?thesis using pre_insert hu tu unfolding deq_locks_wf_def by (auto split: option.split)
  qed (use l hu tu in \<open>force simp: deq_locks_wf_def\<close>)+
qed

text \<open>The list and the nodes.\<close>

lemma list_wfD:
  assumes "list_wf s ns"
  shows "chain (dnxt s) ns" "hd ns = dhead s" "distinct ns" "set ns \<subseteq> heap s" "\<And>n. n \<in> set (tl ns) \<Longrightarrow> dval s n \<noteq> None"
    "(\<And>t n. pc s t \<noteq> App_published n) \<Longrightarrow> dtail s = last ns" "\<And>t n. pc s t = App_published n \<Longrightarrow> last ns = n"
    "\<And>t f x. pc s t = Hd_next f x \<Longrightarrow> f = dhead s \<and> dnxt s f = Some x" "ns \<noteq> []"
proof -
  show "ns \<noteq> []" using assms by (cases ns) (auto simp: list_wf_def)
qed (use assms in \<open>unfold list_wf_def, blast+\<close>)

lemma nodes_wfD:
  assumes "nodes_wf s ns"
  shows "\<And>t n. own (pc s t) = Some n \<Longrightarrow> n \<in> heap s \<and> n \<notin> set ns"
    "\<And>t t' n. own (pc s t) = Some n \<Longrightarrow> own (pc s t') = Some n \<Longrightarrow> t = t'"
    "\<And>t n. own_new (pc s t) = Some n \<Longrightarrow> dnxt s n = None \<and> dval s n \<noteq> None"
  using assms unfolding nodes_wf_def by blast+

lemma list_wfI:
  assumes "chain (dnxt s) ns" "hd ns = dhead s" "distinct ns" "set ns \<subseteq> heap s" "\<And>n. n \<in> set (tl ns) \<Longrightarrow> dval s n \<noteq> None"
    "(\<And>t n. pc s t \<noteq> App_published n) \<Longrightarrow> dtail s = last ns" "\<And>t n. pc s t = App_published n \<Longrightarrow> last ns = n"
    "\<And>t f x. pc s t = Hd_next f x \<Longrightarrow> f = dhead s \<and> dnxt s f = Some x"
  shows "list_wf s ns"
  unfolding list_wf_def using assms by blast

lemma nodes_wfI:
  assumes "\<And>t n. own (pc s t) = Some n \<Longrightarrow> n \<in> heap s \<and> n \<notin> set ns"
    "\<And>t t' n. own (pc s t) = Some n \<Longrightarrow> own (pc s t') = Some n \<Longrightarrow> t = t'"
    "\<And>t n. own_new (pc s t) = Some n \<Longrightarrow> dnxt s n = None \<and> dval s n \<noteq> None"
  shows "nodes_wf s ns"
  unfolding nodes_wf_def using assms by blast

lemma own_new_own: "own_new p = Some n \<Longrightarrow> own p = Some n"
  by (simp add: own_def)

lemma wf_local:
  assumes l: "list_wf s ns" and w: "nodes_wf s ns"
    and u: "dval u = dval s" "dnxt u = dnxt s" "heap u = heap s" "dhead u = dhead s" "dtail u = dtail s" "pc u = pc s"
    and "own p = own (pc s t)" "own_new p = own_new (pc s t)" "\<And>n. pc s t \<noteq> App_published n" "\<And>n. p \<noteq> App_published n"
    and "\<And>f x. p = Hd_next f x \<Longrightarrow> f = dhead s \<and> dnxt s f = Some x"
  shows "list_wf (goto t p u) ns \<and> nodes_wf (goto t p u) ns \<and> contents (goto t p u) ns = contents s ns"
proof (intro conjI)
  have pub: "((pc s)(t := p)) v = App_published n \<longleftrightarrow> pc s v = App_published n" for v n
    using assms(11,12) by auto
  have q: "own (((pc s)(t := p)) v) = own (pc s v)" "own_new (((pc s)(t := p)) v) = own_new (pc s v)" for v
    using assms(9,10) by auto
  show "list_wf (goto t p u) ns"
  proof (rule list_wfI)
    show "dtail (goto t p u) = last ns" if "\<And>v n. pc (goto t p u) v \<noteq> App_published n"
    proof -
      have "pc s v \<noteq> App_published n" for v n using that [of v n] pub [of v n] by (simp add: u)
      then show ?thesis using list_wfD(6) [OF l] by (simp add: u)
    qed
    show "last ns = n" if "pc (goto t p u) v = App_published n" for v n
      by (rule list_wfD(7) [OF l]) (use that pub [of v n] in \<open>simp add: u\<close>)
    show "f = dhead (goto t p u) \<and> dnxt (goto t p u) f = Some x" if "pc (goto t p u) v = Hd_next f x" for v f x
      using that list_wfD(8) [OF l, of v f x] assms(13) [of f x] by (auto simp: u split: if_splits)
  qed (use list_wfD(1-5) [OF l] in \<open>simp_all add: u\<close>)
  show "nodes_wf (goto t p u) ns"
  proof (rule nodes_wfI)
    show "m \<in> heap (goto t p u) \<and> m \<notin> set ns" if "own (pc (goto t p u) v) = Some m" for v m
      using that nodes_wfD(1) [OF w, of v m] q(1) [of v] by (simp add: u)
    show "v = v'" if "own (pc (goto t p u) v) = Some m" "own (pc (goto t p u) v') = Some m" for v v' m
      by (rule nodes_wfD(2) [OF w, of v m v']) (use that q(1) [of v] q(1) [of v'] in \<open>simp_all add: u\<close>)
    show "dnxt (goto t p u) m = None \<and> dval (goto t p u) m \<noteq> None" if "own_new (pc (goto t p u) v) = Some m" for v m
      using that nodes_wfD(3) [OF w, of v m] q(2) [of v] by (simp add: u)
  qed
  show "contents (goto t p u) ns = contents s ns" using u(1) by (simp add: contents_def)
qed

lemma contents_cong: "(\<And>n. n \<in> set (tl ns) \<Longrightarrow> dval s' n = dval s n) \<Longrightarrow> contents s' ns = contents s ns"
  by (simp add: contents_def)

lemma wf_alloc:
  fixes v :: nat
  assumes l: "list_wf s ns" and w: "nodes_wf s ns" and fresh: "n \<notin> heap s" and rdy: "ready (pc s t)"
    and p: "own p = Some n" "own_new p = Some n" "\<And>n. p \<noteq> App_published n" "\<And>f x. p \<noteq> Hd_next f x"
  defines "s' \<equiv> goto t p (alloc n v s)"
  shows "list_wf s' ns \<and> nodes_wf s' ns \<and> contents s' ns = contents s ns"
proof (intro conjI)
  have ne: "ns \<noteq> []" by (rule list_wfD(9) [OF l])
  have n: "n \<notin> set ns" using list_wfD(4) [OF l] fresh by blast
  have nt: "m \<noteq> n" if "m \<in> set (tl ns)" for m using n that ne list.set_sel(2) [of ns m] by auto
  have hd_in: "dhead s \<in> set ns" using list_wfD(2) [OF l] ne hd_in_set [of ns] by simp
  have pub: "((pc s)(t := p)) v = App_published m \<longleftrightarrow> pc s v = App_published m" for v m
    using rdy p(3) by auto
  show "list_wf s' ns"
  proof (rule list_wfI)
    show "chain (dnxt s') ns"
    proof -
      have "chain ((dnxt s)(n := None)) ns \<longleftrightarrow> chain (dnxt s) ns" by (rule chain_cong) (use n in auto)
      then show ?thesis using list_wfD(1) [OF l] by (simp add: s'_def)
    qed
    show "dtail s' = last ns" if "\<And>v n. pc s' v \<noteq> App_published n"
    proof -
      have "pc s v \<noteq> App_published n" for v n using that [of v n] pub [of v n] by (simp add: s'_def)
      then show ?thesis using list_wfD(6) [OF l] by (simp add: s'_def)
    qed
    show "last ns = m" if "pc s' v = App_published m" for v m
      by (rule list_wfD(7) [OF l]) (use that pub [of v m] in \<open>simp add: s'_def\<close>)
    show "f = dhead s' \<and> dnxt s' f = Some x" if "pc s' v = Hd_next f x" for v f x
    proof -
      have "pc s v = Hd_next f x" using that p(4) [of f x] by (cases "v = t") (simp_all add: s'_def)
      then show ?thesis using list_wfD(8) [OF l] hd_in n by (auto simp: s'_def)
    qed
    show "dval s' m \<noteq> None" if "m \<in> set (tl ns)" for m
      using list_wfD(5) [OF l that] nt [OF that] by (simp add: s'_def)
  qed (use list_wfD(2-4) [OF l] in \<open>auto simp: s'_def\<close>)
  have no: "own (pc s u) \<noteq> Some n" for u using nodes_wfD(1) [OF w] fresh by blast
  then have no': "own_new (pc s u) \<noteq> Some n" for u using own_new_own by blast
  show "nodes_wf s' ns"
  proof (rule nodes_wfI)
    show "m \<in> heap s' \<and> m \<notin> set ns" if "own (pc s' u) = Some m" for u m
      using that nodes_wfD(1) [OF w, of u m] p(1) n by (auto simp: s'_def split: if_splits)
    show "u = u'" if "own (pc s' u) = Some m" "own (pc s' u') = Some m" for u u' m
      using that nodes_wfD(2) [OF w, of u m u'] p(1) no by (auto simp: s'_def split: if_splits)
    show "dnxt s' m = None \<and> dval s' m \<noteq> None" if "own_new (pc s' u) = Some m" for u m
      using that nodes_wfD(3) [OF w, of u m] p(2) by (auto simp: s'_def split: if_splits)
  qed
  show "contents s' ns = contents s ns" using nt by (intro contents_cong) (simp add: s'_def)
qed

lemma wf_publish:
  assumes l: "list_wf s ns" and w: "nodes_wf s ns" and k: "deq_locks_wf s" and p: "pc s t = App_locked n"
  defines "s' \<equiv> goto t (App_published n) (s\<lparr>dnxt := (dnxt s)(dtail s := Some n)\<rparr>)"
  shows "list_wf s' (ns @ [n]) \<and> nodes_wf s' (ns @ [n]) \<and> contents s' (ns @ [n]) = contents s ns @ [the (dval s n)]
    \<and> dtail s \<in> heap s"
proof (intro conjI)
  have others: "pc s u \<noteq> App_published m" for u m
  proof
    assume "pc s u = App_published m"
    then have "tlock s = Some u" "tlock s = Some t" using k p by (simp_all add: deq_locks_wf_def)
    then show False using p \<open>pc s u = App_published m\<close> by simp
  qed
  then have tail: "dtail s = last ns" using list_wfD(6) [OF l] by blast
  have ne: "ns \<noteq> []" by (rule list_wfD(9) [OF l])
  have in_ns: "dtail s \<in> set ns" using tail ne by simp
  then show "dtail s \<in> heap s" using list_wfD(4) [OF l] by blast
  have n: "n \<in> heap s" "n \<notin> set ns" "dnxt s n = None" "dval s n \<noteq> None"
    using nodes_wfD(1) [OF w, of t n] nodes_wfD(3) [OF w, of t n] p by simp_all
  show "list_wf s' (ns @ [n])"
  proof (rule list_wfI)
    show "chain (dnxt s') (ns @ [n])"
      using chain_append [OF list_wfD(1) [OF l] n(3,2) list_wfD(3) [OF l]] tail by (simp add: s'_def)
    show "dtail s' = last (ns @ [n])" if "\<And>v n. pc s' v \<noteq> App_published n"
      using that [of t n] by (simp add: s'_def)
    show "last (ns @ [n]) = m" if "pc s' v = App_published m" for v m
      using that others by (simp add: s'_def split: if_splits)
    show "f = dhead s' \<and> dnxt s' f = Some x" if "pc s' v = Hd_next f x" for v f x
    proof -
      have "pc s v = Hd_next f x" using that by (simp add: s'_def split: if_splits)
      then have "f = dhead s" "dnxt s f = Some x" using list_wfD(8) [OF l] by blast+
      moreover have "f \<noteq> dtail s" using calculation(2) chain_last [OF list_wfD(1) [OF l]] tail by auto
      ultimately show ?thesis by (simp add: s'_def)
    qed
    show "dval s' m \<noteq> None" if "m \<in> set (tl (ns @ [n]))" for m
      using that list_wfD(5) [OF l, of m] n(4) ne by (auto simp: s'_def)
  qed (use list_wfD(2-4) [OF l] n ne in \<open>auto simp: s'_def\<close>)
  have no: "own (pc s u) \<noteq> Some n" if "u \<noteq> t" for u using nodes_wfD(2) [OF w, of u n t] p that by auto
  show "nodes_wf s' (ns @ [n])"
  proof (rule nodes_wfI)
    show "m \<in> heap s' \<and> m \<notin> set (ns @ [n])" if "own (pc s' u) = Some m" for u m
      using that nodes_wfD(1) [OF w, of u m] no [of u] by (auto simp: s'_def split: if_splits)
    show "u = u'" if "own (pc s' u) = Some m" "own (pc s' u') = Some m" for u u' m
      using that nodes_wfD(2) [OF w, of u m u'] by (auto simp: s'_def split: if_splits)
    show "dnxt s' m = None \<and> dval s' m \<noteq> None" if "own_new (pc s' u) = Some m" for u m
    proof -
      have "own_new (pc s u) = Some m" using that by (simp add: s'_def split: if_splits)
      then show ?thesis
        using nodes_wfD(3) [OF w, of u m] nodes_wfD(1) [OF w own_new_own, of u m] in_ns by (auto simp: s'_def)
    qed
  qed
  show "contents s' (ns @ [n]) = contents s ns @ [the (dval s n)]" using ne by (simp add: contents_def s'_def)
qed

text \<open>Inserting at the front, behind the dummy.\<close>

lemma chain_insert:
  assumes "chain nx (h # rest)" and "n \<notin> set (h # rest)" and "distinct (h # rest)"
  shows "chain (nx(n := nx h, h := Some n)) (h # n # rest)"
proof (cases rest)
  case (Cons x xs)
  have "chain (nx(n := nx h, h := Some n)) rest \<longleftrightarrow> chain nx rest" by (rule chain_cong) (use assms in auto)
  then show ?thesis using assms Cons by simp
qed (use assms in auto)

lemma wf_insert:
  assumes l: "list_wf s ns" and w: "nodes_wf s ns" and k: "deq_locks_wf s" and p: "pc s t = Pre_both n"
  defines "s' \<equiv> goto t (D_done None)
         (case dnxt s (dhead s) of
            Some x \<Rightarrow> s\<lparr>dnxt := (dnxt s)(n := Some x, dhead s := Some n), hlock := None, tlock := None\<rparr>
          | None \<Rightarrow> s\<lparr>dnxt := (dnxt s)(dhead s := Some n), dtail := n, hlock := None, tlock := None\<rparr>)"
  shows "\<exists>ns'. list_wf s' ns' \<and> nodes_wf s' ns' \<and> contents s' ns' = the (dval s n) # contents s ns"
    and "dhead s \<in> heap s" "n \<in> heap s"
proof -
  have locks: "hlock s = Some t" "tlock s = Some t" using k p by (simp_all add: deq_locks_wf_def)
  have others: "pc s u \<noteq> App_published m" "pc s u \<noteq> Hd_next f x" for u m f x
  proof -
    show "pc s u \<noteq> App_published m"
    proof
      assume "pc s u = App_published m"
      then have "tlock s = Some u" using k by (simp add: deq_locks_wf_def)
      then show False using locks p \<open>pc s u = App_published m\<close> by simp
    qed
    show "pc s u \<noteq> Hd_next f x"
    proof
      assume "pc s u = Hd_next f x"
      then have "hlock s = Some u" using k by (simp add: deq_locks_wf_def)
      then show False using locks p \<open>pc s u = Hd_next f x\<close> by simp
    qed
  qed
  have tail: "dtail s = last ns" using list_wfD(6) [OF l] others(1) by blast
  obtain rest where ns: "ns = dhead s # rest" using list_wfD(2,9) [OF l] by (cases ns) auto
  have n: "n \<in> heap s" "n \<notin> set ns" "dnxt s n = None" "dval s n \<noteq> None"
    using nodes_wfD(1) [OF w, of t n] nodes_wfD(3) [OF w, of t n] p by simp_all
  show "n \<in> heap s" "dhead s \<in> heap s" using n list_wfD(4) [OF l] ns by auto
  have s': "dval s' = dval s" "heap s' = heap s" "dhead s' = dhead s" "pc s' = (pc s)(t := D_done None)"
    "dnxt s' = (dnxt s)(n := dnxt s (dhead s), dhead s := Some n)"
    "dtail s' = (if rest = [] then n else dtail s)"
    using list_wfD(1) [OF l] n ns by (cases rest; auto simp: s'_def fun_eq_iff split: option.split)+
  let ?ns = "dhead s # n # rest"
  have "list_wf s' ?ns"
  proof (rule list_wfI)
    show "chain (dnxt s') ?ns" using chain_insert [of "dnxt s" "dhead s" rest n] list_wfD(1,3) [OF l] n ns s' by simp
    show "dtail s' = last ?ns" using tail ns s' by simp
    show "last ?ns = m" if "pc s' v = App_published m" for v m using that others by (simp add: s' split: if_splits)
    show "f = dhead s' \<and> dnxt s' f = Some x" if "pc s' v = Hd_next f x" for v f x
      using that others by (simp add: s' split: if_splits)
    show "dval s' m \<noteq> None" if "m \<in> set (tl ?ns)" for m using that list_wfD(5) [OF l, of m] n(4) ns s' by auto
  qed (use list_wfD(3,4) [OF l] n ns s' in auto)
  moreover have "nodes_wf s' ?ns"
  proof (rule nodes_wfI)
    have own': "own (pc s' u) = Some m \<Longrightarrow> own (pc s u) = Some m \<and> m \<noteq> n" for u m
      using nodes_wfD(2) [OF w, of u m t] p by (auto simp: s' split: if_splits)
    show "m \<in> heap s' \<and> m \<notin> set ?ns" if "own (pc s' u) = Some m" for u m
      using own' [OF that] nodes_wfD(1) [OF w, of u m] by (simp add: ns s')
    show "u = u'" if "own (pc s' u) = Some m" "own (pc s' u') = Some m" for u u' m
      using nodes_wfD(2) [OF w, of u m u'] own' that by blast
    show "dnxt s' m = None \<and> dval s' m \<noteq> None" if "own_new (pc s' u) = Some m" for u m
    proof -
      have "own (pc s u) = Some m" "m \<noteq> n" using own' own_new_own [OF that] by blast+
      moreover have "own_new (pc s u) = Some m" using that by (simp add: s' split: if_splits)
      ultimately show ?thesis using nodes_wfD(3) [OF w, of u m] nodes_wfD(1) [OF w, of u m] by (auto simp: s' ns)
    qed
  qed
  moreover have "contents s' ?ns = the (dval s n) # contents s ns" by (simp add: contents_def s' ns)
  ultimately show "\<exists>ns'. list_wf s' ns' \<and> nodes_wf s' ns' \<and> contents s' ns' = the (dval s n) # contents s ns" by blast
qed

text \<open>Taking the first: its node becomes the dummy.\<close>

lemma wf_take_head:
  assumes l: "list_wf s ns" and w: "nodes_wf s ns" and k: "deq_locks_wf s" and p: "pc s t = Hd_next first x"
  defines "s' \<equiv> goto t (Hd_taken first (dval s x)) (s\<lparr>dval := (dval s)(x := None), dhead := x, hlock := None\<rparr>)"
  shows "\<exists>ns'. list_wf s' ns' \<and> nodes_wf s' ns' \<and> deq_spec (Pop_front (dval s x)) (contents s ns) = Some (contents s' ns')"
    and "x \<in> heap s"
proof -
  have first: "first = dhead s" "dnxt s first = Some x" using list_wfD(8) [OF l p] by auto
  obtain rest where ns: "ns = first # x # rest"
  proof -
    obtain y ys where "ns = y # ys" using list_wfD(9) [OF l] by (cases ns) auto
    then show ?thesis using that list_wfD(1,2) [OF l] first by (cases ys) auto
  qed
  show "x \<in> heap s" using list_wfD(4) [OF l] ns by simp
  obtain v where v: "dval s x = Some v" using list_wfD(5) [OF l, of x] ns by auto
  have d: "first \<noteq> x" "first \<notin> set rest" "x \<notin> set rest" using list_wfD(3) [OF l] ns by auto
  have others: "pc s u \<noteq> Hd_next f y" if "u \<noteq> t" for u f y
  proof
    assume "pc s u = Hd_next f y"
    then have "hlock s = Some u" "hlock s = Some t" using k p by (simp_all add: deq_locks_wf_def)
    then show False using that by simp
  qed
  have "list_wf s' (x # rest)"
  proof (rule list_wfI)
    show "dtail s' = last (x # rest)" if "\<And>v n. pc s' v \<noteq> App_published n"
    proof -
      have "pc s v \<noteq> App_published n" for v n using that [of v n] p by (auto simp: s'_def split: if_splits)
      then show ?thesis using list_wfD(6) [OF l] ns by (simp add: s'_def)
    qed
    show "last (x # rest) = m" if "pc s' v = App_published m" for v m
      using list_wfD(7) [OF l, of v m] that ns by (simp add: s'_def split: if_splits)
    show "f = dhead s' \<and> dnxt s' f = Some y" if "pc s' v = Hd_next f y" for v f y
      using that others by (simp add: s'_def split: if_splits)
    show "dval s' m \<noteq> None" if "m \<in> set (tl (x # rest))" for m
      using that list_wfD(5) [OF l, of m] d ns by (auto simp: s'_def)
  qed (use list_wfD(1,3,4) [OF l] ns in \<open>auto simp: s'_def\<close>)
  moreover have "nodes_wf s' (x # rest)"
  proof (rule nodes_wfI)
    have f: "own (pc s u) \<noteq> Some first" "own (pc s u) \<noteq> Some x" for u
      using nodes_wfD(1) [OF w, of u first] nodes_wfD(1) [OF w, of u x] ns by auto
    show "m \<in> heap s' \<and> m \<notin> set (x # rest)" if "own (pc s' u) = Some m" for u m
      using that nodes_wfD(1) [OF w, of u m] list_wfD(4) [OF l] d ns by (auto simp: s'_def split: if_splits)
    show "u = u'" if "own (pc s' u) = Some m" "own (pc s' u') = Some m" for u u' m
      using that nodes_wfD(2) [OF w, of u m u'] f by (auto simp: s'_def split: if_splits)
    show "dnxt s' m = None \<and> dval s' m \<noteq> None" if "own_new (pc s' u) = Some m" for u m
    proof -
      have "own_new (pc s u) = Some m" using that by (auto simp: s'_def split: if_splits)
      then show ?thesis using nodes_wfD(3) [OF w, of u m] f(2) [of u] own_new_own [of "pc s u" m] by (auto simp: s'_def)
    qed
  qed
  moreover have "contents s ns = v # contents s' (x # rest)"
    using d v by (simp add: contents_def ns s'_def)
  ultimately show "\<exists>ns'. list_wf s' ns' \<and> nodes_wf s' ns' \<and> deq_spec (Pop_front (dval s x)) (contents s ns) = Some (contents s' ns')"
    using v by (intro exI [of _ "x # rest"]) simp
qed

text \<open>Taking the last.\<close>

lemma wf_take_tail:
  assumes l: "list_wf s ns" and w: "nodes_wf s ns" and k: "deq_locks_wf s" and p: "pc s t = Tl_both"
    and ne: "dtail s \<noteq> dhead s" and pre: "find_predecessor (dnxt s) (dhead s) (dtail s) = Some (Some q)"
  defines "s' \<equiv> goto t (Tl_taken (dtail s) (dval s (dtail s)))
         (s\<lparr>dnxt := (dnxt s)(q := None), dtail := q, hlock := None, tlock := None\<rparr>)"
  shows "\<exists>ns'. list_wf s' ns' \<and> nodes_wf s' ns' \<and> deq_spec (Pop_back (dval s (dtail s))) (contents s ns) = Some (contents s' ns')"
    and "insert (dtail s) (following (dnxt s) (dhead s)) \<subseteq> heap s"
proof -
  have locks: "hlock s = Some t" "tlock s = Some t" using k p by (simp_all add: deq_locks_wf_def)
  have others: "pc s u \<noteq> App_published m" "pc s u \<noteq> Hd_next f x" for u m f x
  proof -
    show "pc s u \<noteq> App_published m"
    proof
      assume a: "pc s u = App_published m"
      then have "tlock s = Some u" using k by (simp add: deq_locks_wf_def)
      then show False using locks p a by simp
    qed
    show "pc s u \<noteq> Hd_next f x"
    proof
      assume a: "pc s u = Hd_next f x"
      then have "hlock s = Some u" using k by (simp add: deq_locks_wf_def)
      then show False using locks p a by simp
    qed
  qed
  have tail: "dtail s = last ns" using list_wfD(6) [OF l] others(1) by blast
  have head: "dhead s = hd ns" "ns \<noteq> []" using list_wfD(2,9) [OF l] by simp_all
  have "butlast ns \<noteq> []" using ne tail head by (cases ns) auto
  then obtain pre' b where pb: "butlast ns = pre' @ [b]" by (metis append_butlast_last_id)
  then have ns: "ns = pre' @ [b, dtail s]" using head(2) tail by (metis append_butlast_last_id append.assoc append_Cons append_Nil)
  have "find_predecessor (dnxt s) (hd (pre' @ [b, dtail s] @ [])) (dtail s) = Some (Some b)"
    by (rule find_predecessor_chain) (use list_wfD(1,3) [OF l] ns in simp_all)
  then have q: "q = b" using pre head ns by simp
  show "insert (dtail s) (following (dnxt s) (dhead s)) \<subseteq> heap s"
    using following_chain [OF list_wfD(1) [OF l]] list_wfD(4) [OF l] head ns by auto
  have d: "dtail s \<notin> set pre'" "b \<noteq> dtail s" "b \<notin> set pre'" using list_wfD(3) [OF l] ns by auto
  let ?ns = "pre' @ [b]"
  have hd': "hd ?ns = dhead s" using head ns by (cases pre') auto
  have tl': "set (tl ?ns) \<subseteq> set (tl ns)" "tl ns = tl ?ns @ [dtail s]" using ns by (cases pre'; auto)+
  have "list_wf s' ?ns"
  proof (rule list_wfI)
    show "chain (dnxt s') ?ns" using chain_butlast [of "dnxt s" pre' b "dtail s"] list_wfD(1,3) [OF l] ns q by (simp add: s'_def)
    show "last ?ns = m" if "pc s' v = App_published m" for v m using that others by (simp add: s'_def split: if_splits)
    show "f = dhead s' \<and> dnxt s' f = Some x" if "pc s' v = Hd_next f x" for v f x
      using that others by (simp add: s'_def split: if_splits)
    show "dval s' m \<noteq> None" if "m \<in> set (tl ?ns)" for m
      using list_wfD(5) [OF l, of m] tl'(1) that by (auto simp: s'_def)
  qed (use list_wfD(3,4) [OF l] ns hd' q in \<open>auto simp: s'_def\<close>)
  moreover have "nodes_wf s' ?ns"
  proof (rule nodes_wfI)
    have f: "own (pc s u) \<noteq> Some (dtail s)" "own (pc s u) \<noteq> Some b" for u
      using nodes_wfD(1) [OF w, of u "dtail s"] nodes_wfD(1) [OF w, of u b] ns by auto
    show "m \<in> heap s' \<and> m \<notin> set ?ns" if "own (pc s' u) = Some m" for u m
      using that nodes_wfD(1) [OF w, of u m] list_wfD(4) [OF l] d ns by (auto simp: s'_def split: if_splits)
    show "u = u'" if "own (pc s' u) = Some m" "own (pc s' u') = Some m" for u u' m
      using that nodes_wfD(2) [OF w, of u m u'] f by (auto simp: s'_def split: if_splits)
    show "dnxt s' m = None \<and> dval s' m \<noteq> None" if "own_new (pc s' u) = Some m" for u m
    proof -
      have "own_new (pc s u) = Some m" using that by (auto simp: s'_def split: if_splits)
      then show ?thesis using nodes_wfD(3) [OF w, of u m] by (auto simp: s'_def)
    qed
  qed
  moreover obtain v where v: "dval s (dtail s) = Some v" using list_wfD(5) [OF l, of "dtail s"] tl'(2) by auto
  moreover have "contents s ns = contents s' ?ns @ [v]" using v by (simp add: contents_def tl'(2) s'_def)
  ultimately show "\<exists>ns'. list_wf s' ns' \<and> nodes_wf s' ns'
      \<and> deq_spec (Pop_back (dval s (dtail s))) (contents s ns) = Some (contents s' ns')"
    by (intro exI [of _ ?ns]) simp
qed

text \<open>Deleting a node that was taken out.\<close>

lemma wf_free:
  fixes r :: "nat option"
  assumes l: "list_wf s ns" and w: "nodes_wf s ns" and p: "own_old (pc s t) = Some n"
  defines "s' \<equiv> goto t (D_done r) (s\<lparr>heap := heap s - {n}\<rparr>)"
  shows "list_wf s' ns \<and> nodes_wf s' ns \<and> contents s' ns = contents s ns \<and> n \<in> heap s"
proof (intro conjI)
  have o: "own (pc s t) = Some n" "own_new (pc s t) = None" using p by (cases "pc s t"; simp)+
  have n: "n \<in> heap s" "n \<notin> set ns" using nodes_wfD(1) [OF w o(1)] by simp_all
  then show "n \<in> heap s" by simp
  show "list_wf s' ns"
  proof (rule list_wfI)
    show "dtail s' = last ns" if "\<And>v n. pc s' v \<noteq> App_published n"
    proof -
      have "pc s v \<noteq> App_published m" for v m using that [of v m] p by (cases "v = t") (auto simp: s'_def)
      then show ?thesis using list_wfD(6) [OF l] by (simp add: s'_def)
    qed
    show "last ns = m" if "pc s' v = App_published m" for v m
      using list_wfD(7) [OF l, of v m] that by (simp add: s'_def split: if_splits)
    show "f = dhead s' \<and> dnxt s' f = Some x" if "pc s' v = Hd_next f x" for v f x
      using list_wfD(8) [OF l, of v f x] that by (auto simp: s'_def split: if_splits)
  qed (use list_wfD(1-5) [OF l] n in \<open>auto simp: s'_def\<close>)
  show "nodes_wf s' ns"
  proof (rule nodes_wfI)
    show "m \<in> heap s' \<and> m \<notin> set ns" if "own (pc s' u) = Some m" for u m
      using that nodes_wfD(1) [OF w, of u m] nodes_wfD(2) [OF w, of u m t] o(1) by (auto simp: s'_def split: if_splits)
    show "u = u'" if "own (pc s' u) = Some m" "own (pc s' u') = Some m" for u u' m
      using that nodes_wfD(2) [OF w, of u m u'] by (auto simp: s'_def split: if_splits)
    show "dnxt s' m = None \<and> dval s' m \<noteq> None" if "own_new (pc s' u) = Some m" for u m
      using that nodes_wfD(3) [OF w, of u m] by (auto simp: s'_def split: if_splits)
  qed
  show "contents s' ns = contents s ns" by (simp add: contents_def s'_def)
qed

section \<open>Each step is one of the list\<close>

lemma dstep_refines:
  assumes step: "dstep t s l acc s'" and wf: "deq_wf s ns"
  shows "acc \<subseteq> heap s \<and> (\<exists>ns'. deq_wf s' ns' \<and> deq_spec l (contents s ns) = Some (contents s' ns'))"
proof -
  have l: "list_wf s ns" and w: "nodes_wf s ns" and k: "deq_locks_wf s" using wf by (simp_all add: deq_wf_def)
  have k': "deq_locks_wf s'" using dstep_locks [OF step k] .
  have head: "dhead s \<in> heap s" using list_wfD(2,4,9) [OF l] hd_in_set [of ns] by auto
  have "acc \<subseteq> heap s \<and> (\<exists>ns'. list_wf s' ns' \<and> nodes_wf s' ns' \<and> deq_spec l (contents s ns) = Some (contents s' ns'))"
    using step
  proof cases
    case (app_new n v)
    then show ?thesis using wf_alloc [OF l w app_new(5,4), of "App_new n" v] by auto
  next
    case (app_lock n)
    then show ?thesis using wf_local [OF l w, of "s\<lparr>tlock := Some t\<rparr>" "App_locked n" t] by auto
  next
    case (app_publish n)
    then show ?thesis using wf_publish [OF l w k, of t n] by auto
  next
    case (app_end n)
    have own_t: "tlock s = Some t" using k app_end(4) by (simp add: deq_locks_wf_def)
    have others: "pc s u \<noteq> App_published m" if "u \<noteq> t" for u m
    proof
      assume "pc s u = App_published m"
      then have "tlock s = Some u" using k by (simp add: deq_locks_wf_def)
      then show False using own_t that by simp
    qed
    have "list_wf s' ns"
    proof (rule list_wfI)
      show "dtail s' = last ns" using list_wfD(7) [OF l app_end(4)] by (simp add: app_end)
      show "last ns = m" if "pc s' v = App_published m" for v m
        using that others by (simp add: app_end split: if_splits)
      show "f = dhead s' \<and> dnxt s' f = Some x" if "pc s' v = Hd_next f x" for v f x
        using that list_wfD(8) [OF l, of v f x] by (auto simp: app_end split: if_splits)
    qed (use list_wfD(1-5) [OF l] in \<open>simp_all add: app_end\<close>)
    moreover have "nodes_wf s' ns"
    proof (rule nodes_wfI)
      show "m \<in> heap s' \<and> m \<notin> set ns" if "own (pc s' u) = Some m" for u m
        using that nodes_wfD(1) [OF w, of u m] by (simp add: app_end split: if_splits)
      show "u = u'" if "own (pc s' u) = Some m" "own (pc s' u') = Some m" for u u' m
        using that nodes_wfD(2) [OF w, of u m u'] by (simp add: app_end split: if_splits)
      show "dnxt s' m = None \<and> dval s' m \<noteq> None" if "own_new (pc s' u) = Some m" for u m
        using that nodes_wfD(3) [OF w, of u m] by (simp add: app_end split: if_splits)
    qed
    ultimately show ?thesis using app_end by (auto simp: contents_def)
  next
    case (pre_new n v)
    then show ?thesis using wf_alloc [OF l w pre_new(5,4), of "Pre_new n" v] by auto
  next
    case (pre_lock_head n)
    then show ?thesis using wf_local [OF l w, of "s\<lparr>hlock := Some t\<rparr>" "Pre_head n" t] by auto
  next
    case (pre_lock_tail n)
    then show ?thesis using wf_local [OF l w, of "s\<lparr>tlock := Some t\<rparr>" "Pre_both n" t] by auto
  next
    case (pre_insert n)
    then show ?thesis using wf_insert [OF l w k, of t n] by auto
  next
    case hd_lock
    then show ?thesis using wf_local [OF l w, of "s\<lparr>hlock := Some t\<rparr>" Hd_locked t]
      by (auto simp: ready_def)
  next
    case hd_empty
    have "ns = [dhead s]" using list_wfD(1,2) [OF l] hd_empty(5) by (cases ns; cases "tl ns") auto
    then have "contents s ns = []" by (simp add: contents_def)
    then show ?thesis using hd_empty head wf_local [OF l w, of "s\<lparr>hlock := None\<rparr>" "D_done None" t] by auto
  next
    case (hd_read x)
    then show ?thesis using head wf_local [OF l w, of s "Hd_next (dhead s) x" t] by auto
  next
    case (hd_take first x)
    then show ?thesis using wf_take_head [OF l w k, of t first x] by auto
  next
    case (hd_free first r)
    then show ?thesis using wf_free [OF l w, of t first r] by auto
  next
    case tl_lock_head
    then show ?thesis using wf_local [OF l w, of "s\<lparr>hlock := Some t\<rparr>" Tl_head t]
      by (auto simp: ready_def)
  next
    case tl_lock_tail
    then show ?thesis using wf_local [OF l w, of "s\<lparr>tlock := Some t\<rparr>" Tl_both t] by auto
  next
    case tl_empty
    have "pc s u \<noteq> App_published m" for u m
    proof
      assume a: "pc s u = App_published m"
      then have "tlock s = Some u" "tlock s = Some t" using k tl_empty(4) by (simp_all add: deq_locks_wf_def)
      then show False using a tl_empty(4) by simp
    qed
    then have "last ns = hd ns" using list_wfD(2) [OF l] list_wfD(6) [OF l] tl_empty(5) by simp
    then have "tl ns = []" using list_wfD(3,9) [OF l] by (cases ns) (auto split: if_splits)
    then have "contents s ns = []" by (simp add: contents_def)
    then show ?thesis using tl_empty wf_local [OF l w, of "s\<lparr>hlock := None, tlock := None\<rparr>" "D_done None" t] by auto
  next
    case (tl_take p)
    then show ?thesis using wf_take_tail [OF l w k, of t p] by auto
  next
    case (tl_free final r)
    then show ?thesis using wf_free [OF l w, of t final r] by auto
  qed
  then show ?thesis using k' by (auto simp: deq_wf_def)
qed

lemma deq_new_wf: "deq_wf (deq_new n) [n]"
  by (simp add: deq_wf_def deq_new_def list_wf_def nodes_wf_def deq_locks_wf_def)

lemma dsteps_refine:
  "dsteps s ls s' \<Longrightarrow> deq_wf s ns \<Longrightarrow> \<exists>ns'. deq_wf s' ns' \<and> deq_specs ls (contents s ns) = Some (contents s' ns')"
proof (induction rule: dsteps.induct)
  case (no_step s)
  then show ?case by auto
next
  case (one_more s ls s' t l acc s'')
  obtain ns' where "deq_wf s' ns'" "deq_specs ls (contents s ns) = Some (contents s' ns')" using one_more by blast
  moreover obtain ns'' where "deq_wf s'' ns''" "deq_spec l (contents s' ns') = Some (contents s'' ns'')"
    using dstep_refines [OF one_more.hyps(2)] calculation by blast
  ultimately show ?case by (intro exI [of _ ns'']) (simp add: deq_specs_append)
qed

end
