(* ===== verification/DequeProperties.thy ===== *)
theory DequeProperties
  imports Deque
begin

text \<open>
  The queue of a worker is a double-ended list for any number of threads, it never touches a deleted node, and its two
  locks cannot block each other.
\<close>

text \<open>C39: however the steps of any number of threads are interleaved, the operations in the order of their effects are
  those of a list: each element that is taken is the one at its end of the list, nothing is taken from an empty list,
  an operation says that it found nothing only when the list was empty, and nothing is lost or taken twice. No step
  dereferences or deletes a node that was deleted. When no append is under way, \<open>empty\<close> tells whether the list is.\<close>

theorem deque_linearizable:
  assumes "dsteps (deq_new n) ls s"
  shows "\<exists>xs. deq_specs ls [] = Some xs
    \<and> ((\<forall>t m. pc s t \<noteq> App_published m) \<longrightarrow> (deq_empty s \<longleftrightarrow> xs = []))
    \<and> (\<forall>t l acc s'. dstep t s l acc s' \<longrightarrow> acc \<subseteq> heap s)"
proof -
  obtain ns where ns: "deq_wf s ns" "deq_specs ls (contents (deq_new n) [n]) = Some (contents s ns)"
    using dsteps_refine [OF assms deq_new_wf] by blast
  have l: "list_wf s ns" using ns(1) by (simp add: deq_wf_def)
  have "deq_empty s \<longleftrightarrow> contents s ns = []" if "\<forall>t m. pc s t \<noteq> App_published m"
  proof -
    have "dtail s = last ns" using list_wfD(6) [OF l] that by blast
    moreover obtain y ys where "ns = y # ys" using list_wfD(9) [OF l] by (cases ns) auto
    ultimately show ?thesis
      using list_wfD(2,3) [OF l] last_in_set [of ys] by (auto simp: deq_empty_def contents_def split: if_splits)
  qed
  moreover have "contents (deq_new n) [n] = []" by (simp add: contents_def)
  ultimately show ?thesis using ns dstep_refines [OF _ ns(1)] by auto
qed

lemma deque_linearizable_witness:
  "\<exists>s. dsteps (deq_new 0) [Tau, Tau, Push_back 7, Tau, Tau, Tau, Pop_front (Some 7)] s
    \<and> deq_specs [Tau, Tau, Push_back 7, Tau, Tau, Tau, Pop_front (Some 7)] [] = Some []"
proof -
  define s1 where "s1 = goto 1 (App_new 5) (alloc 5 7 (deq_new 0))"
  define s2 where "s2 = goto 1 (App_locked 5) (s1\<lparr>tlock := Some 1\<rparr>)"
  define s3 where "s3 = goto 1 (App_published 5) (s2\<lparr>dnxt := (dnxt s2)(dtail s2 := Some 5)\<rparr>)"
  define s4 where "s4 = goto 2 Hd_locked (s3\<lparr>hlock := Some 2\<rparr>)"
  define s5 where "s5 = goto 2 (Hd_next (dhead s4) 5) s4"
  define s6 where "s6 = goto 1 (D_done None) (s5\<lparr>dtail := 5, tlock := None\<rparr>)"
  define s7 where "s7 = goto 2 (Hd_taken 0 (dval s6 5)) (s6\<lparr>dval := (dval s6)(5 := None), dhead := 5, hlock := None\<rparr>)"
  note d = s1_def s2_def s3_def s4_def s5_def s6_def s7_def deq_new_def
  have 1: "dstep 1 (deq_new 0) Tau {} s1" unfolding s1_def by (rule app_new) (simp_all add: deq_new_def ready_def)
  have 2: "dstep 1 s1 Tau {} s2" unfolding s2_def by (rule app_lock) (simp_all add: d)
  have "dstep 1 s2 (Push_back (the (dval s2 5))) {dtail s2} s3" unfolding s3_def by (rule app_publish) (simp add: s2_def)
  then have 3: "dstep 1 s2 (Push_back 7) {dtail s2} s3" by (simp add: s2_def s1_def)
  have 4: "dstep 2 s3 Tau {} s4" unfolding s4_def by (rule hd_lock) (simp_all add: d ready_def)
  have 5: "dstep 2 s4 Tau {dhead s4} s5" unfolding s5_def by (rule hd_read) (simp_all add: d)
  have 6: "dstep 1 s5 Tau {} s6" unfolding s6_def by (rule app_end) (simp add: d)
  have "dstep 2 s6 (Pop_front (dval s6 5)) {5} s7" unfolding s7_def by (rule hd_take) (simp add: d)
  then have 7: "dstep 2 s6 (Pop_front (Some 7)) {5} s7" by (simp add: d)
  have run: "dsteps (deq_new 0) [Tau, Tau, Push_back 7, Tau, Tau, Tau, Pop_front (Some 7)] s7"
    using one_more [OF one_more [OF one_more [OF one_more [OF one_more [OF one_more [OF one_more [OF no_step 1] 2] 3] 4] 5] 6] 7]
    by simp
  then show ?thesis using deque_linearizable [OF run] by auto
qed

lemma tail_predecessor:
  assumes l: "list_wf s ns" and tail: "dtail s = last ns" and ne: "dtail s \<noteq> dhead s"
  shows "\<exists>q. find_predecessor (dnxt s) (dhead s) (dtail s) = Some (Some q)"
proof -
  have head: "dhead s = hd ns" "ns \<noteq> []" using list_wfD(2,9) [OF l] by simp_all
  have "butlast ns \<noteq> []" using ne tail head by (cases ns) auto
  then obtain pre' b where pb: "butlast ns = pre' @ [b]" by (metis append_butlast_last_id)
  then have ns: "ns = pre' @ [b, dtail s]" using head(2) tail by (metis append_butlast_last_id append.assoc append_Cons append_Nil)
  have "find_predecessor (dnxt s) (hd (pre' @ [b, dtail s] @ [])) (dtail s) = Some (Some b)"
    by (rule find_predecessor_chain) (use list_wfD(1,3) [OF l] ns in simp_all)
  then show ?thesis using head ns by auto
qed

text \<open>The two locks never block each other: whenever a thread is inside an operation, some thread that is inside
  an operation can do its next step.\<close>

theorem deque_progress:
  assumes "dsteps (deq_new n) ls s" and "\<not> ready (pc s t)"
  shows "\<exists>u l acc s'. \<not> ready (pc s u) \<and> dstep u s l acc s'"
proof -
  obtain ns where wf: "deq_wf s ns" using dsteps_refine [OF assms(1) deq_new_wf] by blast
  have l: "list_wf s ns" and k: "deq_locks_wf s" using wf by (simp_all add: deq_wf_def)
  have free: "hlock s = None \<longleftrightarrow> (\<forall>u. \<not> has_head (pc s u))" "tlock s = None \<longleftrightarrow> (\<forall>u. \<not> has_tail (pc s u))"
    using k by (auto simp: deq_locks_wf_def) (metis option.exhaust)+
  consider (tail) u where "has_tail (pc s u)" | (head) u where "\<not> (\<exists>u. has_tail (pc s u))" "has_head (pc s u)"
    | (none) "\<not> (\<exists>u. has_tail (pc s u))" "\<not> (\<exists>u. has_head (pc s u))" by blast
  then show ?thesis
  proof cases
    case tail
    have "\<exists>l acc s'. dstep u s l acc s'"
    proof (cases "pc s u")
      case Tl_both
      have "pc s v \<noteq> App_published m" for v m
      proof
        assume a: "pc s v = App_published m"
        then have "tlock s = Some v" "tlock s = Some u" using k Tl_both by (simp_all add: deq_locks_wf_def)
        then show False using a Tl_both by simp
      qed
      then have "dtail s = last ns" using list_wfD(6) [OF l] by blast
      then show ?thesis using Tl_both tail_predecessor [OF l] by (cases "dtail s = dhead s") (blast intro: dstep.intros)+
    qed (use tail in \<open>simp_all\<close>, (blast intro: dstep.intros)+)
    moreover have "\<not> ready (pc s u)" using tail by auto
    ultimately show ?thesis by blast
  next
    case head
    then have "tlock s = None" and nt: "\<not> has_tail (pc s u)" using free by blast+
    then have "\<exists>l acc s'. dstep u s l acc s'"
      using head(2) nt by (cases "pc s u"; cases "dnxt s (dhead s)"; simp) (blast intro: dstep.intros)+
    moreover have "\<not> ready (pc s u)" using head by auto
    ultimately show ?thesis by blast
  next
    case none
    then have "tlock s = None" "hlock s = None" and nt: "\<not> has_tail (pc s t)" "\<not> has_head (pc s t)" using free by blast+
    then have "\<exists>l acc s'. dstep t s l acc s'"
      using nt assms(2) by (cases "pc s t"; simp add: ready_def) (blast intro: dstep.intros)+
    then show ?thesis using assms(2) by blast
  qed
qed

lemma deque_progress_witness:
  "\<exists>s u l acc s'. dsteps (deq_new 0) [Tau] s \<and> \<not> ready (pc s u) \<and> dstep u s l acc s'"
proof -
  define s where "s = goto 1 Tl_head ((deq_new 0)\<lparr>hlock := Some 1\<rparr>)"
  have "dstep 1 (deq_new 0) Tau {} s" unfolding s_def by (rule tl_lock_head) (simp_all add: deq_new_def ready_def)
  then have "dsteps (deq_new 0) [Tau] s" using one_more [OF no_step] by fastforce
  moreover have "\<not> ready (pc s 1)" by (simp add: s_def ready_def)
  ultimately show ?thesis using deque_progress by blast
qed

end
