(* ===== verification/Errors.thy ===== *)
theory Errors
  imports Atom
begin

text \<open>
  Errors (libcaf_core/caf/error.hpp, src/error.cpp) and the two categories of the framework: system error codes
  (caf/sec.hpp, src/sec.cpp) and exit reasons (caf/exit_reason.hpp, src/exit_reason.cpp).
\<close>

section \<open>Errors\<close>

record error =
  err_code :: u8
  err_category :: u64
  err_context :: "string option"     \<comment> \<open>the additional message, as its string\<close>

definition no_error :: error where
  "no_error = \<lparr>err_code = 0, err_category = the (atom ''''), err_context = None\<rparr>"

definition error_of :: "u8 \<Rightarrow> u64 \<Rightarrow> error" where
  "error_of x y = \<lparr>err_code = x, err_category = y, err_context = None\<rparr>"

definition is_error :: "error \<Rightarrow> bool" where "is_error e \<longleftrightarrow> err_code e \<noteq> 0"

definition error_clear :: "error \<Rightarrow> error" where
  "error_clear e = e\<lparr>err_code := 0, err_context := None\<rparr>"

text \<open>Moving takes the context; the code and the category are copied.\<close>

definition moved_from :: "error \<Rightarrow> error" where "moved_from e = e\<lparr>err_context := None\<rparr>"

definition error_compare :: "error \<Rightarrow> u8 \<Rightarrow> u64 \<Rightarrow> int" where
  "error_compare e x y =
     (if err_code e = 0 \<and> x = 0 then 0
      else if err_category e < y then -1
      else if err_category e > y then 1
      else uint (err_code e) - uint x)"

definition error_cmp :: "error \<Rightarrow> error \<Rightarrow> int" where
  "error_cmp e x = error_compare e (err_code x) (err_category x)"

definition error_to_string :: "error \<Rightarrow> string" where
  "error_to_string x =
     (if \<not> is_error x then ''no-error''
      else ''error('' @ atom_to_string (err_category x) @ '', '' @ show_dec (unat (err_code x))
        @ (case err_context x of None \<Rightarrow> '''' | Some c \<Rightarrow> '', '' @ c) @ '')'')"


text \<open>The operators of \<open>comparable\<close> are derived from \<open>compare\<close>.\<close>

definition error_eq :: "error \<Rightarrow> error \<Rightarrow> bool" where "error_eq x y \<longleftrightarrow> error_cmp x y = 0"

definition error_less :: "error \<Rightarrow> error \<Rightarrow> bool" where "error_less x y \<longleftrightarrow> error_cmp x y < 0"

section \<open>System error codes\<close>

datatype sec =
    Sec_unexpected_message | Sec_unexpected_response | Sec_request_receiver_down
  | Sec_request_timeout | Sec_no_such_group_module | Sec_no_actor_published_at_port
  | Sec_unexpected_actor_messaging_interface | Sec_state_not_serializable | Sec_unsupported_sys_key
  | Sec_unsupported_sys_message | Sec_disconnect_during_handshake | Sec_cannot_forward_to_invalid_actor
  | Sec_no_route_to_receiving_node | Sec_failed_to_assign_scribe_from_handle | Sec_failed_to_assign_doorman_from_handle
  | Sec_cannot_close_invalid_port | Sec_cannot_connect_to_node | Sec_cannot_open_port
  | Sec_network_syscall_failed | Sec_invalid_argument | Sec_invalid_protocol_family
  | Sec_cannot_publish_invalid_actor | Sec_cannot_spawn_actor_from_arguments | Sec_bad_function_call

fun sec_value :: "sec \<Rightarrow> u8" where
  "sec_value Sec_unexpected_message = 1"
| "sec_value Sec_unexpected_response = 2"
| "sec_value Sec_request_receiver_down = 3"
| "sec_value Sec_request_timeout = 4"
| "sec_value Sec_no_such_group_module = 5"
| "sec_value Sec_no_actor_published_at_port = 6"
| "sec_value Sec_unexpected_actor_messaging_interface = 7"
| "sec_value Sec_state_not_serializable = 8"
| "sec_value Sec_unsupported_sys_key = 9"
| "sec_value Sec_unsupported_sys_message = 10"
| "sec_value Sec_disconnect_during_handshake = 11"
| "sec_value Sec_cannot_forward_to_invalid_actor = 12"
| "sec_value Sec_no_route_to_receiving_node = 13"
| "sec_value Sec_failed_to_assign_scribe_from_handle = 14"
| "sec_value Sec_failed_to_assign_doorman_from_handle = 15"
| "sec_value Sec_cannot_close_invalid_port = 16"
| "sec_value Sec_cannot_connect_to_node = 17"
| "sec_value Sec_cannot_open_port = 18"
| "sec_value Sec_network_syscall_failed = 19"
| "sec_value Sec_invalid_argument = 20"
| "sec_value Sec_invalid_protocol_family = 21"
| "sec_value Sec_cannot_publish_invalid_actor = 22"
| "sec_value Sec_cannot_spawn_actor_from_arguments = 23"
| "sec_value Sec_bad_function_call = 24"

definition sec_strings :: "string list" where
  "sec_strings =
     [''<no-error>'',
      ''unexpected_message'',
      ''unexpected_response'',
      ''request_receiver_down'',
      ''request_timeout'',
      ''no_such_group_module'',
      ''no_actor_published_at_port'',
      ''unexpected_actor_messaging_interface'',
      ''state_not_serializable'',
      ''unsupported_sys_key'',
      ''unsupported_sys_message'',
      ''disconnect_during_handshake'',
      ''cannot_forward_to_invalid_actor'',
      ''no_route_to_receiving_node'',
      ''failed_to_assign_scribe_from_handle'',
      ''failed_to_assign_doorman_from_handle'',
      ''cannot_close_invalid_port'',
      ''cannot_connect_to_node'',
      ''cannot_open_port'',
      ''network_syscall_failed'',
      ''invalid_argument'',
      ''invalid_protocol_family'',
      ''cannot_publish_invalid_actor'',
      ''cannot_spawn_actor_from_arguments'',
      ''bad_function_call'']"

definition sec_to_string :: "sec \<Rightarrow> string" where
  "sec_to_string x =
     (let index = unat (sec_value x)
      in if index > unat (sec_value Sec_bad_function_call) then ''<unknown>'' else sec_strings ! index)"

definition make_sec_error :: "sec \<Rightarrow> error" where
  "make_sec_error x = error_of (sec_value x) (the (atom ''system''))"

section \<open>Exit reasons\<close>

datatype exit_reason =
    Exit_normal | Unhandled_exception | Unknown | Out_of_workers | User_shutdown | Kill
  | Remote_link_unreachable | Unreachable

fun exit_value :: "exit_reason \<Rightarrow> u8" where
  "exit_value Exit_normal = 0"
| "exit_value Unhandled_exception = 1"
| "exit_value Unknown = 2"
| "exit_value Out_of_workers = 3"
| "exit_value User_shutdown = 4"
| "exit_value Kill = 5"
| "exit_value Remote_link_unreachable = 6"
| "exit_value Unreachable = 7"

definition exit_reason_strings :: "string list" where
  "exit_reason_strings =
     [''normal'', ''unhandled_exception'', ''unhandled_request_error'', ''unknown'', ''out_of_workers'',
      ''user_shutdown'', ''kill'', ''remote_link_unreachable'', ''unreachable'']"

definition exit_to_string :: "exit_reason \<Rightarrow> string" where
  "exit_to_string x =
     (let index = unat (exit_value x)
      in if index > unat (exit_value Unreachable) then ''<unknown>'' else exit_reason_strings ! index)"

definition make_exit_error :: "exit_reason \<Rightarrow> error" where
  "make_exit_error x = error_of (exit_value x) (the (atom ''exit''))"

end
