(* ===== verification/Monitorable.thy ===== *)
theory Monitorable
  imports Errors
begin

text \<open>
  Monitors and links (libcaf_core/src/monitorable_actor.cpp, caf/monitorable_actor.hpp, src/attachable.cpp,
  src/default_attachable.cpp, caf/detail/functor_attachable.hpp). The world has the state of every actor;
  messages that are enqueued and functors that are called are a log.
\<close>

section \<open>Attachables\<close>

datatype observe_type = Monitor | Link

datatype attachable =
    Default_attachable nat nat observe_type    \<comment> \<open>observed, observer\<close>
  | Functor_attachable nat

datatype token = Anonymous | Observe_token nat observe_type

fun matches :: "token \<Rightarrow> attachable \<Rightarrow> bool" where
  "matches (Observe_token tk_observer tk_type) (Default_attachable observed observer type)
     \<longleftrightarrow> tk_observer = observer \<and> tk_type = type"
| "matches _ _ \<longleftrightarrow> False"

text \<open>\<^const>\<open>None\<close>: the recursion on the element that is kept does not end.\<close>

fun detach_impl :: "token \<Rightarrow> attachable list \<Rightarrow> bool \<Rightarrow> bool \<Rightarrow> (nat \<times> attachable list) option" where
  "detach_impl what [] stop_on_hit dry_run = Some (0, [])"
| "detach_impl what (x # xs) stop_on_hit dry_run =
     (if matches what x
      then if stop_on_hit then Some (1, if dry_run then x # xs else xs)
           else if dry_run then None
           else map_option (\<lambda>(n, ys). (1 + n, ys)) (detach_impl what xs stop_on_hit dry_run)
      else map_option (\<lambda>(n, ys). (n, x # ys)) (detach_impl what xs stop_on_hit dry_run))"

section \<open>Actors\<close>

record mactor =
  fail_state :: error
  attachables :: "attachable list"
  terminated :: bool
  cleaned_up :: bool
  used_aout :: bool

datatype sys_msg = Exit_msg nat error | Down_msg nat error

datatype sys_event =
    Enqueued nat "nat option" sys_msg     \<comment> \<open>to an actor, from a sender\<close>
  | Functor_called nat error
  | Printer_purged nat

record world =
  act :: "nat \<Rightarrow> mactor"
  objs :: "nat set"              \<comment> \<open>the actors whose object still exists\<close>
  trace :: "sys_event list"

definition fresh_actor :: mactor where
  "fresh_actor = \<lparr>fail_state = no_error, attachables = [], terminated = False, cleaned_up = False, used_aout = False\<rparr>"

definition emit :: "sys_event list \<Rightarrow> world \<Rightarrow> world" where
  "emit es w = w\<lparr>trace := trace w @ es\<rparr>"

definition upd :: "nat \<Rightarrow> (mactor \<Rightarrow> mactor) \<Rightarrow> world \<Rightarrow> world" where
  "upd a f w = w\<lparr>act := (act w)(a := f (act w a))\<rparr>"

fun actor_exited :: "error \<Rightarrow> attachable \<Rightarrow> world \<Rightarrow> world" where
  "actor_exited rsn (Default_attachable observed observer type) w =
     (if observer \<in> objs w
      then emit [Enqueued observer (if observed \<in> objs w then Some observed else None)
                   (if type = Monitor then Down_msg observed rsn else Exit_msg observed rsn)] w
      else w)"
| "actor_exited rsn (Functor_attachable f) w = emit [Functor_called f rsn] w"

definition attach_impl :: "nat \<Rightarrow> attachable \<Rightarrow> world \<Rightarrow> world" where
  "attach_impl a x w = upd a (\<lambda>s. s\<lparr>attachables := x # attachables s\<rparr>) w"

definition attach :: "nat \<Rightarrow> attachable \<Rightarrow> world \<Rightarrow> world" where
  "attach a x w =
     (if terminated (act w a) then actor_exited (fail_state (act w a)) x w else attach_impl a x w)"

definition detach_from :: "nat \<Rightarrow> token \<Rightarrow> bool \<Rightarrow> world \<Rightarrow> nat \<times> world" where
  "detach_from a what stop_on_hit w =
     (case detach_impl what (attachables (act w a)) stop_on_hit False of
        Some (n, xs) \<Rightarrow> (n, upd a (\<lambda>s. s\<lparr>attachables := xs\<rparr>) w)
      | None \<Rightarrow> (0, w))"

definition detach :: "nat \<Rightarrow> token \<Rightarrow> world \<Rightarrow> nat \<times> world" where
  "detach a what w = detach_from a what False w"

text \<open>The reason is given, and moved into \<open>fail_state_\<close>, or it is \<open>fail_state_\<close> itself.\<close>

definition mon_cleanup :: "nat \<Rightarrow> error option \<Rightarrow> world \<Rightarrow> bool \<times> world" where
  "mon_cleanup a reason w =
     (let s = act w a
      in if cleaned_up s then (False, w)
         else
           let (fs, rsn) = (case reason of None \<Rightarrow> (fail_state s, fail_state s) | Some r \<Rightarrow> (r, moved_from r));
               head = attachables s;
               w = upd a (\<lambda>s. s\<lparr>fail_state := fs, attachables := [], terminated := True, cleaned_up := True\<rparr>) w;
               w = fold (actor_exited rsn) head w
           in (True, if used_aout s then emit [Printer_purged a] w else w))"

section \<open>Monitors and links\<close>

definition mon_monitor :: "nat \<Rightarrow> nat \<Rightarrow> world \<Rightarrow> world" where
  "mon_monitor a x w = attach x (Default_attachable x a Monitor) w"

definition mon_demonitor :: "nat \<Rightarrow> nat \<Rightarrow> world \<Rightarrow> world" where
  "mon_demonitor a whom w =
     (if whom \<notin> objs w then w else snd (detach whom (Observe_token a Monitor) w))"

definition establish_backlink :: "nat \<Rightarrow> nat \<Rightarrow> world \<Rightarrow> bool \<times> world" where
  "establish_backlink a x w =
     (let s = act w a
      in if terminated s then (False, emit [Enqueued x None (Exit_msg a (fail_state s))] w)
         else case detach_impl (Observe_token x Link) (attachables s) True True of
           Some (n, _) \<Rightarrow> if n = 0 then (True, attach_impl a (Default_attachable a x Link) w) else (False, w)
         | None \<Rightarrow> (False, w))"

definition establish_link :: "nat \<Rightarrow> nat \<Rightarrow> world \<Rightarrow> bool \<times> world" where
  "establish_link a x w =
     (let s = act w a
      in if terminated s then (False, emit [Enqueued x None (Exit_msg a (fail_state s))] w)
         else case establish_backlink x a w of
           (True, w) \<Rightarrow> (True, attach_impl a (Default_attachable a x Link) w)
         | (False, w) \<Rightarrow> (False, w))"

definition remove_backlink :: "nat \<Rightarrow> nat \<Rightarrow> world \<Rightarrow> bool \<times> world" where
  "remove_backlink a x w =
     (case detach_from a (Observe_token x Link) True w of (n, w) \<Rightarrow> (n > 0, w))"

definition remove_link :: "nat \<Rightarrow> nat \<Rightarrow> world \<Rightarrow> bool \<times> world" where
  "remove_link a x w =
     (case detach_from a (Observe_token x Link) True w of (n, w) \<Rightarrow>
        (n > 0, if n > 0 then snd (remove_backlink x a w) else w))"

definition link_to :: "nat \<Rightarrow> nat \<Rightarrow> world \<Rightarrow> world" where
  "link_to a x w = (if x \<notin> objs w \<or> x = a then w else snd (establish_link a x w))"

definition unlink_from :: "nat \<Rightarrow> nat \<Rightarrow> world \<Rightarrow> world" where
  "unlink_from a x w = (if x \<notin> objs w \<or> x = a then w else snd (remove_link a x w))"

definition mon_quit :: "nat \<Rightarrow> error \<Rightarrow> world \<Rightarrow> world" where
  "mon_quit a x w = upd a (\<lambda>s. s\<lparr>fail_state := x, terminated := True\<rparr>) w"

text \<open>\<open>on_destroy\<close>, when the last strong pointer to the actor goes.\<close>

definition on_destroy :: "nat \<Rightarrow> world \<Rightarrow> world" where
  "on_destroy a w =
     (let w = w\<lparr>objs := objs w - {a}\<rparr>
      in if cleaned_up (act w a) then w else snd (mon_cleanup a (Some (make_exit_error Unreachable)) w))"

section \<open>Runs\<close>

datatype mop =
    Attach nat attachable | Detach nat token | Monitor_op nat nat | Demonitor_op nat nat
  | Link_op nat nat | Unlink_op nat nat | Quit_op nat error | Cleanup_op nat "error option" | Destroy_op nat

fun mstep :: "mop \<Rightarrow> world \<Rightarrow> world" where
  "mstep (Attach a x) w = attach a x w"
| "mstep (Detach a tk) w = snd (detach a tk w)"
| "mstep (Monitor_op a x) w = mon_monitor a x w"
| "mstep (Demonitor_op a x) w = mon_demonitor a x w"
| "mstep (Link_op a x) w = link_to a x w"
| "mstep (Unlink_op a x) w = unlink_from a x w"
| "mstep (Quit_op a e) w = mon_quit a e w"
| "mstep (Cleanup_op a e) w = snd (mon_cleanup a e w)"
| "mstep (Destroy_op a) w = on_destroy a w"

text \<open>Links are made and removed by the operations on links only.\<close>

fun mop_ok :: "mop \<Rightarrow> bool" where
  "mop_ok (Attach a (Default_attachable observed observer type)) \<longleftrightarrow> type = Monitor"
| "mop_ok (Detach a (Observe_token observer type)) \<longleftrightarrow> type = Monitor"
| "mop_ok _ \<longleftrightarrow> True"

definition mrun :: "mop list \<Rightarrow> world \<Rightarrow> world" where
  "mrun ops w = fold mstep ops w"

definition fresh_world :: "nat set \<Rightarrow> world" where
  "fresh_world os = \<lparr>act = \<lambda>_. fresh_actor, objs = os, trace = []\<rparr>"

section \<open>Lists of attachables\<close>

lemma detach_stop:
  "detach_impl what xs True dry =
     Some (if list_ex (matches what) xs
           then (1, if dry then xs else takeWhile (\<lambda>x. \<not> matches what x) xs @ tl (dropWhile (\<lambda>x. \<not> matches what x) xs))
           else (0, xs))"
  by (induction xs) auto

lemma detach_all:
  "detach_impl what xs False False = Some (length (filter (matches what) xs), filter (\<lambda>x. \<not> matches what x) xs)"
  by (induction xs) auto

fun link_observer :: "attachable \<Rightarrow> nat option" where
  "link_observer (Default_attachable observed observer Link) = Some observer"
| "link_observer _ = None"

text \<open>The actors an actor is linked to.\<close>

definition link_peers :: "attachable list \<Rightarrow> nat list" where
  "link_peers xs = List.map_filter link_observer xs"

lemma link_peers_simps [simp]:
  "link_peers [] = []"
  "link_peers (x # xs) = (case link_observer x of None \<Rightarrow> link_peers xs | Some b \<Rightarrow> b # link_peers xs)"
  "link_peers (xs @ ys) = link_peers xs @ link_peers ys"
  by (simp_all add: link_peers_def List.map_filter_simps List.map_filter_def split: option.split)

lemma matches_link: "matches (Observe_token b Link) x \<longleftrightarrow> link_observer x = Some b"
  by (cases x rule: link_observer.cases) auto

lemma matches_link_ex: "list_ex (matches (Observe_token b Link)) xs \<longleftrightarrow> b \<in> set (link_peers xs)"
  by (induction xs) (auto simp: matches_link split: option.splits)

lemma link_peers_detach_link:
  "link_peers (takeWhile (\<lambda>x. \<not> matches (Observe_token b Link) x) xs
     @ tl (dropWhile (\<lambda>x. \<not> matches (Observe_token b Link) x) xs)) = remove1 b (link_peers xs)"
  by (induction xs) (auto simp: matches_link split: option.splits)

lemma link_peers_detach_other:
  assumes "\<And>observer. tk \<noteq> Observe_token observer Link"
  shows "link_peers (filter (\<lambda>x. \<not> matches tk x) xs) = link_peers xs"
proof -
  have "link_observer x = None" if "matches tk x" for x
    using that assms by (cases tk; cases x rule: link_observer.cases) auto
  then show ?thesis by (induction xs) (auto split: option.splits)
qed

definition peers :: "world \<Rightarrow> nat \<Rightarrow> nat list" where
  "peers w a = link_peers (attachables (act w a))"

section \<open>Links are symmetric\<close>

definition links_wf :: "world \<Rightarrow> bool" where
  "links_wf w \<longleftrightarrow>
     (\<forall>a. distinct (peers w a) \<and> a \<notin> set (peers w a)
        \<and> (cleaned_up (act w a) \<longrightarrow> attachables (act w a) = [] \<and> terminated (act w a)))
     \<and> (\<forall>a b. \<not> cleaned_up (act w a) \<longrightarrow> \<not> cleaned_up (act w b) \<longrightarrow> (b \<in> set (peers w a) \<longleftrightarrow> a \<in> set (peers w b)))"

lemma emit_simps [simp]: "act (emit es w) = act w" "objs (emit es w) = objs w" "trace (emit es w) = trace w @ es"
  by (simp_all add: emit_def)

lemma upd_simps [simp]:
  "act (upd a f w) b = (if b = a then f (act w a) else act w b)" "objs (upd a f w) = objs w" "trace (upd a f w) = trace w"
  by (simp_all add: upd_def)

lemma upd_cong: "f (act w a) = g (act w a) \<Longrightarrow> upd a f w = upd a g w"
  by (simp add: upd_def)

lemma actor_exited_simps [simp]: "act (actor_exited r x w) = act w" "objs (actor_exited r x w) = objs w"
  by (cases x; simp)+

lemma fold_exited_simps [simp]: "act (fold (actor_exited r) xs w) = act w" "objs (fold (actor_exited r) xs w) = objs w"
  by (induction xs arbitrary: w) simp_all

text \<open>What the operations do to the links.\<close>

lemma establish_backlink_eq:
  "establish_backlink a x w =
     (if terminated (act w a) then (False, emit [Enqueued x None (Exit_msg a (fail_state (act w a)))] w)
      else if x \<in> set (peers w a) then (False, w)
      else (True, attach_impl a (Default_attachable a x Link) w))"
  by (simp add: establish_backlink_def Let_def detach_stop matches_link_ex peers_def)

lemma establish_link_eq:
  assumes "a \<noteq> x"
  shows "establish_link a x w =
     (if terminated (act w a) then (False, emit [Enqueued x None (Exit_msg a (fail_state (act w a)))] w)
      else if terminated (act w x) then (False, emit [Enqueued a None (Exit_msg x (fail_state (act w x)))] w)
      else if a \<in> set (peers w x) then (False, w)
      else (True, attach_impl a (Default_attachable a x Link) (attach_impl x (Default_attachable x a Link) w)))"
  using assms by (simp add: establish_link_def Let_def establish_backlink_eq)

definition drop_link :: "nat \<Rightarrow> attachable list \<Rightarrow> attachable list" where
  "drop_link b xs = (if b \<in> set (link_peers xs)
     then takeWhile (\<lambda>x. \<not> matches (Observe_token b Link) x) xs @ tl (dropWhile (\<lambda>x. \<not> matches (Observe_token b Link) x) xs)
     else xs)"

lemma link_peers_drop [simp]: "link_peers (drop_link b xs) = remove1 b (link_peers xs)"
  using link_peers_detach_link [of b xs] by (simp add: drop_link_def remove1_idem)

lemma detach_from_link:
  "detach_from a (Observe_token b Link) True w =
     (if b \<in> set (peers w a) then 1 else 0, upd a (\<lambda>s. s\<lparr>attachables := drop_link b (attachables s)\<rparr>) w)"
  by (auto simp: detach_from_def detach_stop matches_link_ex peers_def drop_link_def intro: upd_cong)

lemma remove_link_eq:
  "remove_link a x w =
     (x \<in> set (peers w a),
      if x \<in> set (peers w a)
      then upd x (\<lambda>s. s\<lparr>attachables := drop_link a (attachables s)\<rparr>) (upd a (\<lambda>s. s\<lparr>attachables := drop_link x (attachables s)\<rparr>) w)
      else upd a (\<lambda>s. s\<lparr>attachables := drop_link x (attachables s)\<rparr>) w)"
  by (simp add: remove_link_def remove_backlink_def detach_from_link)

lemma links_wf_frame:
  assumes "links_wf w" and "\<And>a. link_peers (attachables (act w' a)) = peers w a"
    and "\<And>a. cleaned_up (act w' a) = cleaned_up (act w a)"
    and "\<And>a. cleaned_up (act w a) \<Longrightarrow> attachables (act w' a) = [] \<and> terminated (act w' a)"
  shows "links_wf w'"
  using assms unfolding links_wf_def by (simp add: peers_def)

lemma drop_Nil [simp]: "drop_link b [] = []"
  by (simp add: drop_link_def)

text \<open>Each operation keeps that.\<close>

lemma links_wfD:
  assumes "links_wf w"
  shows "distinct (peers w a)" "a \<notin> set (peers w a)"
    "cleaned_up (act w a) \<Longrightarrow> attachables (act w a) = [] \<and> terminated (act w a)"
    "\<not> cleaned_up (act w a) \<Longrightarrow> \<not> cleaned_up (act w b) \<Longrightarrow> b \<in> set (peers w a) \<longleftrightarrow> a \<in> set (peers w b)"
  using assms by (simp_all add: links_wf_def)

lemma attach_wf:
  assumes "links_wf w" and "link_observer x = None"
  shows "links_wf (attach a x w)"
  by (rule links_wf_frame [OF assms(1)])
    (use links_wfD(3) [OF assms(1)] assms(2) in \<open>auto simp: attach_def attach_impl_def peers_def\<close>)

lemma detach_wf:
  assumes "links_wf w" and "\<And>observer. tk \<noteq> Observe_token observer Link"
  shows "links_wf (snd (detach a tk w))"
  by (rule links_wf_frame [OF assms(1)])
    (use links_wfD(3) [OF assms(1)] link_peers_detach_other [OF assms(2)] in
      \<open>auto simp: detach_def detach_from_def detach_all peers_def\<close>)

lemma establish_link_wf:
  assumes w: "links_wf w" and "a \<noteq> x"
  shows "links_wf (snd (establish_link a x w))"
proof (cases "terminated (act w a) \<or> terminated (act w x) \<or> a \<in> set (peers w x)")
  case True
  then show ?thesis
    by (intro links_wf_frame [OF w]) (use links_wfD(3) [OF w] in \<open>auto simp: establish_link_eq [OF assms(2)] peers_def\<close>)
next
  case False
  let ?w = "attach_impl a (Default_attachable a x Link) (attach_impl x (Default_attachable x a Link) w)"
  have p: "peers ?w b = (if b = a then x # peers w a else if b = x then a # peers w x else peers w b)" for b
    using assms(2) by (simp add: peers_def attach_impl_def)
  have c: "cleaned_up (act ?w b) = cleaned_up (act w b)" "terminated (act ?w b) = terminated (act w b)"
    "attachables (act ?w b) = [] \<longrightarrow> attachables (act w b) = []" "b \<noteq> a \<Longrightarrow> b \<noteq> x \<Longrightarrow> attachables (act ?w b) = attachables (act w b)" for b
    by (simp_all add: attach_impl_def)
  have nc: "\<not> cleaned_up (act w a)" "\<not> cleaned_up (act w x)" using False links_wfD(3) [OF w] by auto
  then have "x \<notin> set (peers w a)" using False links_wfD(4) [OF w, of a x] by simp
  then have "links_wf ?w"
    unfolding links_wf_def p using links_wfD [OF w] nc False c assms(2) by auto
  then show ?thesis using False by (simp add: establish_link_eq [OF assms(2)])
qed

lemma remove_link_wf:
  assumes w: "links_wf w" and "a \<noteq> x"
  shows "links_wf (snd (remove_link a x w))"
proof (cases "x \<in> set (peers w a)")
  case False
  then have "drop_link x (attachables (act w a)) = attachables (act w a)" by (simp add: drop_link_def peers_def)
  then show ?thesis using False
    by (intro links_wf_frame [OF w]) (use links_wfD(3) [OF w] in \<open>auto simp: remove_link_eq peers_def\<close>)
next
  case True
  let ?w = "snd (remove_link a x w)"
  have p: "peers ?w b = (if b = a then remove1 x (peers w a) else if b = x then remove1 a (peers w x) else peers w b)" for b
    using assms(2) True by (simp add: peers_def remove_link_eq)
  have c: "cleaned_up (act ?w b) = cleaned_up (act w b)" "terminated (act ?w b) = terminated (act w b)"
    "attachables (act w b) = [] \<Longrightarrow> attachables (act ?w b) = []" for b
    using True by (auto simp: remove_link_eq drop_Nil)
  show ?thesis
    unfolding links_wf_def p using links_wfD [OF w] c assms(2) by auto
qed

lemma mon_cleanup_wf:
  assumes w: "links_wf w"
  shows "links_wf (snd (mon_cleanup a r w))"
proof (cases "cleaned_up (act w a)")
  case False
  let ?w = "snd (mon_cleanup a r w)"
  have p: "peers ?w b = (if b = a then [] else peers w b)" "attachables (act ?w b) = (if b = a then [] else attachables (act w b))"
    "cleaned_up (act ?w b) = (b = a \<or> cleaned_up (act w b))" "terminated (act ?w b) = (b = a \<or> terminated (act w b))" for b
    using False by (simp_all add: mon_cleanup_def Let_def peers_def split: option.split)
  show ?thesis
    unfolding links_wf_def p using links_wfD [OF w] by auto
qed (use w in \<open>simp add: mon_cleanup_def Let_def\<close>)

lemma mstep_wf:
  assumes "links_wf w" and "mop_ok op"
  shows "links_wf (mstep op w)"
proof (cases op)
  case (Attach a x)
  with assms show ?thesis by (cases x) (auto intro: attach_wf)
next
  case (Detach a tk)
  with assms show ?thesis by (cases tk) (auto intro: detach_wf)
next
  case (Quit_op a e)
  with assms links_wfD(3) [OF assms(1)] show ?thesis
    by (auto simp: mon_quit_def peers_def intro!: links_wf_frame [OF assms(1)] split: if_splits)
next
  case (Destroy_op a)
  have "links_wf (w\<lparr>objs := objs w - {a}\<rparr>)" using assms(1) by (simp add: links_wf_def peers_def)
  then show ?thesis using Destroy_op mon_cleanup_wf by (simp add: on_destroy_def Let_def)
qed (use assms in \<open>auto simp: mon_monitor_def mon_demonitor_def link_to_def unlink_from_def
    intro: attach_wf detach_wf establish_link_wf remove_link_wf mon_cleanup_wf\<close>)

lemma mrun_wf: "links_wf w \<Longrightarrow> list_all mop_ok ops \<Longrightarrow> links_wf (mrun ops w)"
  by (induction ops arbitrary: w) (simp_all add: mrun_def mstep_wf)

lemma fresh_world_wf: "links_wf (fresh_world os)"
  by (simp add: links_wf_def fresh_world_def fresh_actor_def peers_def)

end
