(* ===== verification/LinkLocking.thy ===== *)
theory LinkLocking
  imports Monitorable
begin

text \<open>
  Actors that link to each other at the same time (libcaf_core/src/monitorable_actor.cpp): \<open>establish_link_impl\<close>
  calls \<open>establish_backlink\<close> of the other actor inside its own critical section, so that it has the mutex of both
  actors. An actor runs in one thread; a step takes or releases one mutex, with the code up to the next such point.
\<close>

section \<open>The steps\<close>

datatype link_pc = Start_link | Own_locked | Both_locked | Back_done bool | Link_done

record lstate =
  wld :: world
  pcs :: "nat \<Rightarrow> link_pc"
  holder :: "nat \<Rightarrow> nat option"     \<comment> \<open>who has the mutex of an actor\<close>

definition link_start :: "world \<Rightarrow> lstate" where
  "link_start w = \<lparr>wld = w, pcs = \<lambda>_. Start_link, holder = \<lambda>_. None\<rparr>"

inductive lstep :: "(nat \<rightharpoonup> nat) \<Rightarrow> lstate \<Rightarrow> lstate \<Rightarrow> bool" for target where
  lock_own: "target a = Some x \<Longrightarrow> pcs s a = Start_link \<Longrightarrow> holder s a = None \<Longrightarrow>
    lstep target s (s\<lparr>pcs := (pcs s)(a := Own_locked), holder := (holder s)(a \<mapsto> a)\<rparr>)"
| own_terminated: "target a = Some x \<Longrightarrow> pcs s a = Own_locked \<Longrightarrow> terminated (act (wld s) a) \<Longrightarrow>
    lstep target s (s\<lparr>wld := emit [Enqueued x None (Exit_msg a (fail_state (act (wld s) a)))] (wld s),
      pcs := (pcs s)(a := Link_done), holder := (holder s)(a := None)\<rparr>)"
| lock_other: "target a = Some x \<Longrightarrow> pcs s a = Own_locked \<Longrightarrow> \<not> terminated (act (wld s) a) \<Longrightarrow> holder s x = None \<Longrightarrow>
    lstep target s (s\<lparr>pcs := (pcs s)(a := Both_locked), holder := (holder s)(x \<mapsto> a)\<rparr>)"
| backlink: "target a = Some x \<Longrightarrow> pcs s a = Both_locked \<Longrightarrow> establish_backlink x a (wld s) = (ok, w) \<Longrightarrow>
    lstep target s (s\<lparr>wld := w, pcs := (pcs s)(a := Back_done ok), holder := (holder s)(x := None)\<rparr>)"
| link_end: "target a = Some x \<Longrightarrow> pcs s a = Back_done ok \<Longrightarrow>
    lstep target s (s\<lparr>wld := (if ok then attach_impl a (Default_attachable a x Link) (wld s) else wld s),
      pcs := (pcs s)(a := Link_done), holder := (holder s)(a := None)\<rparr>)"

definition link_reach :: "(nat \<rightharpoonup> nat) \<Rightarrow> lstate \<Rightarrow> lstate \<Rightarrow> bool" where
  "link_reach target = (lstep target)\<^sup>*\<^sup>*"

definition all_linked :: "(nat \<rightharpoonup> nat) \<Rightarrow> lstate \<Rightarrow> bool" where
  "all_linked target s \<longleftrightarrow> (\<forall>a \<in> dom target. pcs s a = Link_done)"

section \<open>Who has a mutex\<close>

fun holds_own :: "link_pc \<Rightarrow> bool" where
  "holds_own Own_locked = True"
| "holds_own Both_locked = True"
| "holds_own (Back_done ok) = True"
| "holds_own Start_link = False"
| "holds_own Link_done = False"

definition locks_wf :: "(nat \<rightharpoonup> nat) \<Rightarrow> lstate \<Rightarrow> bool" where
  "locks_wf target s \<longleftrightarrow>
     (\<forall>l t. holder s l = Some t \<longleftrightarrow>
        (t = l \<and> target t \<noteq> None \<and> holds_own (pcs s t)) \<or> (target t = Some l \<and> pcs s t = Both_locked))"

lemma locks_wfD:
  assumes "locks_wf target s"
  shows "holder s l = Some t \<longleftrightarrow>
    (t = l \<and> target t \<noteq> None \<and> holds_own (pcs s t)) \<or> (target t = Some l \<and> pcs s t = Both_locked)"
  using assms unfolding locks_wf_def by blast

lemma lstep_locks:
  assumes "lstep target s s'" and "locks_wf target s" and irr: "\<And>a. target a \<noteq> Some a"
  shows "locks_wf target s'"
  using assms(1)
proof cases
  case (lock_own a x)
  have "holder s a \<noteq> Some t" for t using lock_own by simp
  then have "\<not> (target t = Some a \<and> pcs s t = Both_locked)" for t using locks_wfD [OF assms(2), of a t] by simp
  then show ?thesis
    using lock_own locks_wfD [OF assms(2)] irr unfolding locks_wf_def by (auto split: if_splits)
next
  case (own_terminated a x)
  have h: "holder s a = Some a" using own_terminated locks_wfD [OF assms(2), of a a] by simp
  have "\<not> (target t = Some a \<and> pcs s t = Both_locked)" for t
    using h irr locks_wfD [OF assms(2), of a t] by (cases "t = a") auto
  then show ?thesis
    using own_terminated locks_wfD [OF assms(2)] irr unfolding locks_wf_def by (auto split: if_splits)
next
  case (lock_other a x)
  have "holder s x \<noteq> Some t" for t using lock_other by simp
  then have "\<not> (target t = Some x \<and> pcs s t = Both_locked)" "\<not> (target x \<noteq> None \<and> holds_own (pcs s x))" for t
    using locks_wfD [OF assms(2), of x t] locks_wfD [OF assms(2), of x x] by auto
  then show ?thesis
    using lock_other locks_wfD [OF assms(2)] irr unfolding locks_wf_def by (auto split: if_splits)
next
  case (backlink a x ok w)
  have h: "holder s x = Some a" using backlink locks_wfD [OF assms(2), of x a] by simp
  have "t = a" if "(t = x \<and> target t \<noteq> None \<and> holds_own (pcs s t)) \<or> (target t = Some x \<and> pcs s t = Both_locked)" for t
    using h that locks_wfD [OF assms(2), of x t] by auto
  then show ?thesis
    using backlink locks_wfD [OF assms(2)] irr unfolding locks_wf_def by (auto split: if_splits)
next
  case (link_end a x ok)
  have h: "holder s a = Some a" using link_end locks_wfD [OF assms(2), of a a] by simp
  have "\<not> (target t = Some a \<and> pcs s t = Both_locked)" for t
    using h irr locks_wfD [OF assms(2), of a t] by (cases "t = a") auto
  then show ?thesis
    using link_end locks_wfD [OF assms(2)] irr unfolding locks_wf_def by (auto split: if_splits)
qed

lemma link_start_locks: "locks_wf target (link_start w)"
  by (simp add: locks_wf_def link_start_def)

section \<open>Each actor takes at most four steps\<close>

fun link_rank :: "link_pc \<Rightarrow> nat" where
  "link_rank Start_link = 4"
| "link_rank Own_locked = 3"
| "link_rank Both_locked = 2"
| "link_rank (Back_done ok) = 1"
| "link_rank Link_done = 0"

definition link_measure :: "(nat \<rightharpoonup> nat) \<Rightarrow> lstate \<Rightarrow> nat" where
  "link_measure target s = (\<Sum>a\<in>dom target. link_rank (pcs s a))"

lemma lstep_measure:
  assumes "lstep target s s'" and fin: "finite (dom target)"
  shows "link_measure target s' < link_measure target s"
proof -
  have "\<exists>a p. a \<in> dom target \<and> pcs s' = (pcs s)(a := p) \<and> link_rank p < link_rank (pcs s a)"
    using assms(1)
  proof cases
    case (own_terminated a x)
    then show ?thesis by (intro exI [of _ a] exI [of _ Link_done]) auto
  next
    case (link_end a x ok)
    then show ?thesis by (intro exI [of _ a] exI [of _ Link_done]) auto
  next
    case (lock_own a x)
    then show ?thesis by (intro exI [of _ a] exI [of _ Own_locked]) auto
  next
    case (lock_other a x)
    then show ?thesis by (intro exI [of _ a] exI [of _ Both_locked]) auto
  next
    case (backlink a x ok w)
    then show ?thesis by (intro exI [of _ a] exI [of _ "Back_done ok"]) auto
  qed
  then obtain a p where a: "a \<in> dom target" "pcs s' = (pcs s)(a := p)" "link_rank p < link_rank (pcs s a)" by blast
  show ?thesis unfolding link_measure_def
  proof (rule sum_strict_mono_ex1 [OF fin])
    show "\<forall>b\<in>dom target. link_rank (pcs s' b) \<le> link_rank (pcs s b)" using a by auto
    show "\<exists>b\<in>dom target. link_rank (pcs s' b) < link_rank (pcs s b)" using a by (intro bexI [of _ a]) auto
  qed
qed

section \<open>Somebody can go on, if the links are ordered\<close>

lemma lstep_progress:
  assumes wf: "locks_wf target s" and fin: "finite (dom target)"
    and ord: "\<And>a x. target a = Some x \<Longrightarrow> a < x" and open_link: "\<not> all_linked target s"
  shows "\<exists>s'. lstep target s s'"
proof (cases "\<exists>a x. target a = Some x \<and> (pcs s a = Both_locked \<or> (\<exists>ok. pcs s a = Back_done ok))")
  case True
  then obtain a x where "target a = Some x" "pcs s a = Both_locked \<or> (\<exists>ok. pcs s a = Back_done ok)" by blast
  then show ?thesis
    by (cases "establish_backlink x a (wld s)") (auto intro: lstep.backlink lstep.link_end)
next
  case False
  then have none: "pcs s a \<noteq> Both_locked" "pcs s a \<noteq> Back_done ok" if "target a = Some x" for a x ok
    using that by blast+
  let ?own = "{a \<in> dom target. pcs s a = Own_locked}"
  show ?thesis
  proof (cases "?own = {}")
    case True
    obtain a where a: "a \<in> dom target" "pcs s a \<noteq> Link_done" using open_link by (auto simp: all_linked_def)
    then obtain x where x: "target a = Some x" by blast
    have start: "pcs s a = Start_link" using a True none [OF x] x by (cases "pcs s a") auto
    have "holder s a \<noteq> Some t" for t
      using locks_wfD [OF wf, of a t] start none(1) [of t a] by auto
    then have "holder s a = None" by (cases "holder s a") auto
    with x start show ?thesis by (blast intro: lstep.lock_own)
  next
    case False
    define a where "a = Max ?own"
    have fown: "finite ?own" using fin by simp
    have a: "a \<in> ?own" unfolding a_def using Max_in [OF fown False] .
    then obtain x where x: "target a = Some x" "pcs s a = Own_locked" by blast
    have "x \<notin> ?own" using Max_ge [OF fown, of x] ord [OF x(1)] a_def by fastforce
    then have "holder s x \<noteq> Some t" for t
      using locks_wfD [OF wf, of x t] none(1) [of t x] none [of x] by (cases "pcs s x") auto
    then have "holder s x = None" by (cases "holder s x") auto
    with x show ?thesis
      by (cases "terminated (act (wld s) a)") (blast intro: lstep.own_terminated lstep.lock_other)+
  qed
qed

section \<open>Links are symmetric again when all are done\<close>

definition halfway :: "(nat \<rightharpoonup> nat) \<Rightarrow> lstate \<Rightarrow> nat \<Rightarrow> nat \<Rightarrow> bool" where
  "halfway target s a b \<longleftrightarrow> target a = Some b \<and> pcs s a = Back_done True"

definition linking_wf :: "(nat \<rightharpoonup> nat) \<Rightarrow> lstate \<Rightarrow> bool" where
  "linking_wf target s \<longleftrightarrow>
     (\<forall>a. distinct (peers (wld s) a) \<and> a \<notin> set (peers (wld s) a))
     \<and> (\<forall>a b. halfway target s a b \<longrightarrow> b \<notin> set (peers (wld s) a))
     \<and> (\<forall>a b. b \<in> set (peers (wld s) a) \<or> halfway target s a b \<longleftrightarrow> a \<in> set (peers (wld s) b) \<or> halfway target s b a)"

lemma linking_wf_frame:
  assumes "linking_wf target s" "\<And>a. peers (wld s') a = peers (wld s) a" "\<And>a b. halfway target s' a b = halfway target s a b"
  shows "linking_wf target s'"
  using assms by (simp add: linking_wf_def)

lemma linking_wfD:
  assumes "linking_wf target s"
  shows "distinct (peers (wld s) a)" "a \<notin> set (peers (wld s) a)" "halfway target s a b \<Longrightarrow> b \<notin> set (peers (wld s) a)"
    "b \<in> set (peers (wld s) a) \<or> halfway target s a b \<longleftrightarrow> a \<in> set (peers (wld s) b) \<or> halfway target s b a"
  using assms unfolding linking_wf_def by blast+

lemma peers_emit [simp]: "peers (emit es w) a = peers w a"
  by (simp add: peers_def)

lemma peers_attach_link [simp]:
  "peers (attach_impl a (Default_attachable a x Link) w) b = (if b = a then x # peers w a else peers w b)"
  by (simp add: peers_def attach_impl_def)

lemma lstep_linking:
  assumes "lstep target s s'" and locks: "locks_wf target s" and wf: "linking_wf target s"
    and irr: "\<And>a. target a \<noteq> Some a"
  shows "linking_wf target s'"
  using assms(1)
proof cases
  case (backlink a x ok w)
  have hw: "halfway target s' b c = (if b = a then c = x \<and> ok else halfway target s b c)" for b c
    using backlink by (auto simp: halfway_def)
  have na: "\<not> halfway target s a c" for c using backlink by (simp add: halfway_def)
  have ax: "a \<noteq> x" using backlink(2) irr by blast
  have nx: "\<not> halfway target s x c" for c
  proof
    assume "halfway target s x c"
    then have "holder s x = Some x" using locks_wfD [OF locks, of x x] by (simp add: halfway_def)
    moreover have "holder s x = Some a" using locks_wfD [OF locks, of x a] backlink by simp
    ultimately show False using ax by simp
  qed
  show ?thesis
  proof (cases "ok")
    case False
    then have "peers w b = peers (wld s) b" for b
      using backlink by (auto simp: establish_backlink_eq split: if_splits)
    then show ?thesis using False backlink na hw by (intro linking_wf_frame [OF wf]) auto
  next
    case True
    then have w: "w = attach_impl x (Default_attachable x a Link) (wld s)" "a \<notin> set (peers (wld s) x)"
      using backlink by (auto simp: establish_backlink_eq split: if_splits)
    then have "x \<notin> set (peers (wld s) a)" using linking_wfD(4) [OF wf, of a x] nx na by blast
    then show ?thesis
      unfolding linking_wf_def hw using w True backlink linking_wfD [OF wf] ax nx na by auto
  qed
next
  case (link_end a x ok)
  have hw: "halfway target s' b c = (b \<noteq> a \<and> halfway target s b c)" for b c
    using link_end by (auto simp: halfway_def)
  have ax: "a \<noteq> x" using link_end(2) irr by blast
  show ?thesis
  proof (cases "ok")
    case False
    then have "\<not> halfway target s a c" for c using link_end by (simp add: halfway_def)
    then show ?thesis using False link_end hw by (intro linking_wf_frame [OF wf]) auto
  next
    case True
    have ha: "halfway target s a c \<longleftrightarrow> c = x" for c using True link_end by (auto simp: halfway_def)
    have p: "peers (wld s') b = (if b = a then x # peers (wld s) a else peers (wld s) b)" for b
      using True link_end by simp
    have "x \<notin> set (peers (wld s) a)" using linking_wfD(3) [OF wf, of a x] ha by simp
    then show ?thesis
      unfolding linking_wf_def hw p using linking_wfD [OF wf] ax ha by auto
  qed
qed (auto simp: halfway_def intro!: linking_wf_frame [OF wf] split: if_splits)

lemma link_reach_wf:
  assumes "link_reach target s s'" and "locks_wf target s" and "linking_wf target s" and irr: "\<And>a. target a \<noteq> Some a"
  shows "locks_wf target s' \<and> linking_wf target s'"
  using assms(1) unfolding link_reach_def
  by (induction rule: rtranclp_induct) (use assms lstep_locks lstep_linking in blast)+

lemma link_start_wf:
  assumes "links_wf w" and "\<And>a. \<not> cleaned_up (act w a)"
  shows "linking_wf target (link_start w)"
  using assms by (simp add: linking_wf_def link_start_def links_wf_def halfway_def)

lemma relpowp_measure:
  assumes "(r ^^ n) s s'" and "\<And>s s'. r s s' \<Longrightarrow> m s' < (m s :: nat)"
  shows "n + m s' \<le> m s"
  using assms(1)
proof (induction n arbitrary: s')
  case (Suc n)
  then obtain t where "(r ^^ n) s t" "r t s'" by auto
  then show ?case using Suc.IH assms(2) by fastforce
qed simp

end
