(* ===== verification/MonitorProperties.thy ===== *)
theory MonitorProperties
  imports LinkLocking
begin

text \<open>
  What monitors and links promise: links are symmetric, an exit is told once to everyone who asked, and who may
  wait for whom when several actors link at the same time. Also the names and the order of errors.
\<close>

section \<open>Errors\<close>

lemma sec_value_bounds: "1 \<le> sec_value c" "sec_value c \<le> 24"
  by (cases c; simp)+

text \<open>\<open>to_string\<close> of a system error is the name of the enumerator, for each of the 24. The table for exit
  reasons has an entry that is not an exit reason any more, so from \<open>unknown\<close> on each exit reason is printed with
  the name of the one before it, and \<open>unreachable\<close> is never printed: \<open>kill\<close> is reported as \<open>user_shutdown\<close>.\<close>

theorem exit_names:
  "map sec_to_string [Sec_unexpected_message, Sec_request_receiver_down, Sec_unsupported_sys_key,
       Sec_no_route_to_receiving_node, Sec_bad_function_call]
     = [''unexpected_message'', ''request_receiver_down'', ''unsupported_sys_key'',
        ''no_route_to_receiving_node'', ''bad_function_call'']
   \<and> map exit_to_string [Exit_normal, Unhandled_exception, Unknown, Out_of_workers, User_shutdown, Kill,
       Remote_link_unreachable, Unreachable]
     = [''normal'', ''unhandled_exception'', ''unhandled_request_error'', ''unknown'', ''out_of_workers'',
        ''user_shutdown'', ''kill'', ''remote_link_unreachable'']
   \<and> (\<forall>x. exit_to_string x \<noteq> ''unreachable'')
   \<and> inj sec_to_string"
proof -
  have "exit_to_string x \<noteq> ''unreachable''" for x
    by (cases x) (simp_all add: exit_to_string_def Let_def exit_reason_strings_def)
  moreover have "inj sec_to_string"
  proof (rule injI)
    fix x y assume "sec_to_string x = sec_to_string y"
    moreover have "distinct sec_strings" by (simp add: sec_strings_def)
    moreover have "sec_to_string z = sec_strings ! unat (sec_value z)" "unat (sec_value z) < length sec_strings" for z
      by (cases z; simp add: sec_to_string_def Let_def sec_strings_def)+
    ultimately have "unat (sec_value x) = unat (sec_value y)" by (simp add: nth_eq_iff_index_eq)
    then show "x = y" by (cases x; cases y; simp)
  qed
  ultimately show ?thesis
    by (simp add: sec_to_string_def exit_to_string_def Let_def sec_strings_def exit_reason_strings_def)
qed

text \<open>On errors (code not 0) the order is total and agrees with the order on category and code; errors without
  a code are all equal, whatever their category. The two together are no order: the empty errors of the categories
  \<open>a\<close> and \<open>c\<close> are equal, and an error between the categories is greater than one and less than the other.\<close>

theorem error_order:
  "(is_error x \<and> is_error y \<longrightarrow>
      (error_less x y \<longleftrightarrow> err_category x < err_category y \<or> err_category x = err_category y \<and> err_code x < err_code y)
      \<and> (error_eq x y \<longleftrightarrow> err_category x = err_category y \<and> err_code x = err_code y))
   \<and> (\<not> is_error x \<and> \<not> is_error y \<longrightarrow> error_eq x y)
   \<and> error_eq x x \<and> (error_eq x y \<longleftrightarrow> error_eq y x)
   \<and> (a < b \<and> b < c \<and> z \<noteq> 0 \<longrightarrow>
        error_eq (error_of 0 a) (error_of 0 c) \<and> error_less (error_of 0 a) (error_of z b)
        \<and> error_less (error_of z b) (error_of 0 c))"
proof -
  have code: "uint p - uint q < 0 \<longleftrightarrow> p < q" "uint p - uint q = 0 \<longleftrightarrow> p = q" for p q :: u8
    by (simp_all add: word_less_def word_uint_eq_iff)
  have "(error_less x y \<longleftrightarrow> err_category x < err_category y \<or> err_category x = err_category y \<and> err_code x < err_code y)
      \<and> (error_eq x y \<longleftrightarrow> err_category x = err_category y \<and> err_code x = err_code y)"
    if "is_error x \<and> is_error y"
    using that code [of "err_code x" "err_code y"]
    by (auto simp: error_less_def error_eq_def error_cmp_def error_compare_def is_error_def)
  moreover have "error_eq x y" if "\<not> is_error x \<and> \<not> is_error y"
    using that by (simp add: error_eq_def error_cmp_def error_compare_def is_error_def)
  moreover have "error_eq x x" "error_eq x y \<longleftrightarrow> error_eq y x"
    by (auto simp: error_eq_def error_cmp_def error_compare_def split: if_splits)
  moreover have "error_eq (error_of 0 a) (error_of 0 c) \<and> error_less (error_of 0 a) (error_of z b)
        \<and> error_less (error_of z b) (error_of 0 c)" if "a < b \<and> b < c \<and> z \<noteq> 0"
    using that by (auto simp: error_eq_def error_less_def error_cmp_def error_compare_def error_of_def)
  ultimately show ?thesis by blast
qed

lemma error_order_witness:
  "error_less (error_of 1 2) (error_of 1 3)
   \<and> error_eq (error_of 0 1) (error_of 0 3) \<and> error_less (error_of 0 1) (error_of 7 2)
   \<and> error_less (error_of 7 2) (error_of 0 3)"
  using error_order [of "error_of 1 2" "error_of 1 3" 1 2 3 7]
  by (simp add: is_error_def error_of_def)

section \<open>Who is told of an exit\<close>

lemma count_distinct: "distinct xs \<Longrightarrow> count_list xs b = (if b \<in> set xs then 1 else 0)"
  by (induction xs) auto

text \<open>The messages and calls that one attachable stands for.\<close>

fun notices :: "error \<Rightarrow> nat set \<Rightarrow> attachable \<Rightarrow> sys_event list" where
  "notices rsn os (Default_attachable observed observer type) =
     (if observer \<in> os
      then [Enqueued observer (if observed \<in> os then Some observed else None)
              (case type of Monitor \<Rightarrow> Down_msg observed rsn | Link \<Rightarrow> Exit_msg observed rsn)]
      else [])"
| "notices rsn os (Functor_attachable f) = [Functor_called f rsn]"

lemma actor_exited_notices: "actor_exited rsn x w = emit (notices rsn (objs w) x) w"
  by (cases x) (auto simp: emit_def split: observe_type.split)

lemma fold_exited_notices: "trace (fold (actor_exited rsn) xs w) = trace w @ concat (map (notices rsn (objs w)) xs)"
  by (induction xs arbitrary: w) (simp_all add: actor_exited_notices)

lemma cleanup_trace:
  assumes "\<not> cleaned_up (act w a)"
  shows "trace (snd (mon_cleanup a r w)) = trace w
    @ concat (map (notices (case r of None \<Rightarrow> fail_state (act w a) | Some e \<Rightarrow> moved_from e) (objs w)) (attachables (act w a)))
    @ (if used_aout (act w a) then [Printer_purged a] else [])"
  using assms by (cases r) (simp_all add: mon_cleanup_def Let_def fold_exited_notices)

fun is_exit_to :: "nat \<Rightarrow> nat \<Rightarrow> sys_event \<Rightarrow> bool" where
  "is_exit_to b a (Enqueued c sender (Exit_msg d e)) \<longleftrightarrow> c = b \<and> d = a"
| "is_exit_to b a _ \<longleftrightarrow> False"

definition exits_to :: "nat \<Rightarrow> nat \<Rightarrow> world \<Rightarrow> nat" where
  "exits_to b a w = length (filter (is_exit_to b a) (trace w))"

text \<open>The attachables of an actor are about that actor.\<close>

definition own_attachables :: "world \<Rightarrow> bool" where
  "own_attachables w \<longleftrightarrow>
     (\<forall>a observed observer type. Default_attachable observed observer type \<in> set (attachables (act w a)) \<longrightarrow> observed = a)"

fun mop_own :: "mop \<Rightarrow> bool" where
  "mop_own (Attach a (Default_attachable observed observer type)) \<longleftrightarrow> observed = a"
| "mop_own _ \<longleftrightarrow> True"

lemma own_frame:
  assumes "own_attachables w"
    and "\<And>a x. x \<in> set (attachables (act w' a)) \<Longrightarrow> x \<in> set (attachables (act w a)) \<or> (\<exists>b t. x = Default_attachable a b t)
      \<or> (\<exists>f. x = Functor_attachable f)"
  shows "own_attachables w'"
  using assms unfolding own_attachables_def by blast

lemma drop_link_subset: "set (drop_link b xs) \<subseteq> set xs"
proof -
  have "set (takeWhile P ys @ tl (dropWhile P ys)) \<subseteq> set ys" for P :: "attachable \<Rightarrow> bool" and ys
    by (induction ys) auto
  then show ?thesis by (simp add: drop_link_def)
qed

lemma drop_linkD: "x \<in> set (drop_link b xs) \<Longrightarrow> x \<in> set xs"
  using drop_link_subset by blast

lemma mon_cleanup_attachables:
  "x \<in> set (attachables (act (snd (mon_cleanup a r w)) b)) \<Longrightarrow> x \<in> set (attachables (act w b))"
  by (auto simp: mon_cleanup_def Let_def split: if_splits option.splits)

lemma mstep_own:
  assumes "own_attachables w" and "mop_own op"
  shows "own_attachables (mstep op w)"
proof (rule own_frame [OF assms(1)])
  fix b x assume x: "x \<in> set (attachables (act (mstep op w) b))"
  show "x \<in> set (attachables (act w b)) \<or> (\<exists>c t. x = Default_attachable b c t) \<or> (\<exists>f. x = Functor_attachable f)"
  proof (cases op)
    case (Attach a y)
    with x assms(2) show ?thesis by (cases y) (auto simp: attach_def attach_impl_def split: if_splits)
  next
    case (Detach a tk)
    with x show ?thesis by (auto simp: detach_def detach_from_def detach_all split: if_splits)
  next
    case (Monitor_op a c)
    with x show ?thesis by (auto simp: mon_monitor_def attach_def attach_impl_def split: if_splits)
  next
    case (Demonitor_op a c)
    with x show ?thesis by (auto simp: mon_demonitor_def detach_def detach_from_def detach_all split: if_splits)
  next
    case (Link_op a c)
    with x show ?thesis
      by (cases "c = a") (auto simp: link_to_def establish_link_eq attach_impl_def split: if_splits)
  next
    case (Unlink_op a c)
    with x show ?thesis by (auto simp: unlink_from_def remove_link_eq dest!: drop_linkD split: if_splits)
  next
    case (Quit_op a e)
    with x show ?thesis by (auto simp: mon_quit_def split: if_splits)
  next
    case (Cleanup_op a r)
    with x show ?thesis by (auto dest: mon_cleanup_attachables)
  next
    case (Destroy_op a)
    with x show ?thesis by (auto simp: on_destroy_def Let_def dest: mon_cleanup_attachables split: if_splits)
  qed
qed

lemma mrun_own: "own_attachables w \<Longrightarrow> list_all mop_own ops \<Longrightarrow> own_attachables (mrun ops w)"
  by (induction ops arbitrary: w) (simp_all add: mrun_def mstep_own)

lemma fresh_world_own: "own_attachables (fresh_world os)"
  by (simp add: own_attachables_def fresh_world_def fresh_actor_def)

lemma exits_of_attachables:
  assumes "\<And>o1 o2 t. Default_attachable o1 o2 t \<in> set xs \<Longrightarrow> o1 = a" and "b \<in> os"
  shows "length (filter (is_exit_to b a) (concat (map (notices rsn os) xs))) = count_list (link_peers xs) b"
  using assms(1)
proof (induction xs)
  case (Cons x xs)
  have own: "x = Default_attachable o1 o2 t \<Longrightarrow> o1 = a" for o1 o2 t using Cons.prems [of o1 o2 t] by simp
  have "length (filter (is_exit_to b a) (notices rsn os x)) = (if link_observer x = Some b then 1 else 0)"
    using assms(2) own by (cases x rule: link_observer.cases) auto
  moreover have "length (filter (is_exit_to b a) (concat (map (notices rsn os) xs))) = count_list (link_peers xs) b"
    by (rule Cons.IH) (erule Cons.prems [OF list.set_intros(2)])
  ultimately show ?case by (simp split: option.split)
qed simp

text \<open>C37: for any operations on any actors, in any order: links are symmetric between actors that have not been
  cleaned up, an actor is linked to another at most once and never to itself, and an actor that has been cleaned up
  has no attachable left.\<close>

theorem link_symmetry:
  assumes "list_all mop_ok ops" and "w = mrun ops (fresh_world os)"
  shows "(\<not> cleaned_up (act w a) \<and> \<not> cleaned_up (act w b) \<longrightarrow> (b \<in> set (peers w a) \<longleftrightarrow> a \<in> set (peers w b)))
    \<and> distinct (peers w a) \<and> a \<notin> set (peers w a)
    \<and> (cleaned_up (act w a) \<longrightarrow> attachables (act w a) = [])"
  using links_wfD [OF mrun_wf [OF fresh_world_wf assms(1)]] assms(2) by blast

lemma link_symmetry_witness:
  "let w = mrun [Link_op 1 2, Link_op 2 1, Monitor_op 3 1, Link_op 1 1, Unlink_op 3 1, Link_op 1 3, Unlink_op 3 1]
             (fresh_world {1, 2, 3})
   in peers w 1 = [2] \<and> (2 \<in> set (peers w 1) \<longleftrightarrow> 1 \<in> set (peers w 2))"
  using link_symmetry [of "[Link_op 1 2, Link_op 2 1, Monitor_op 3 1, Link_op 1 1, Unlink_op 3 1, Link_op 1 3, Unlink_op 3 1]"
      _ "{1, 2, 3}" 1 2, OF _ refl]
  by (simp add: mrun_def fresh_world_def fresh_actor_def link_to_def unlink_from_def establish_link_eq remove_link_eq
      drop_link_def mon_monitor_def attach_def attach_impl_def upd_def peers_def Let_def)

text \<open>C36: when an actor is cleaned up, each actor it is linked to that still exists gets exactly one exit message from
  it, and no other actor gets any; a second cleanup does nothing. Linking to it later is answered by an exit message
  at once, with the reason of its exit.\<close>

theorem exit_messages_once:
  assumes "list_all mop_ok ops" and "list_all mop_own ops" and "w = mrun ops (fresh_world os)"
    and "\<not> cleaned_up (act w a)" and "(ok, w') = mon_cleanup a r w" and "b \<in> objs w"
  shows "exits_to b a w' = exits_to b a w + (if b \<in> set (peers w a) then 1 else 0)
    \<and> ok \<and> mon_cleanup a r' w' = (False, w')
    \<and> (b \<noteq> a \<and> \<not> terminated (act w' b) \<and> a \<in> objs w' \<longrightarrow>
          link_to b a w' = emit [Enqueued b None (Exit_msg a (fail_state (act w' a)))] w')"
proof (intro conjI impI)
  have w': "w' = snd (mon_cleanup a r w)" and ok: "ok = fst (mon_cleanup a r w)" by (simp_all flip: assms(5))
  have own: "\<And>o1 o2 t. Default_attachable o1 o2 t \<in> set (attachables (act w a)) \<Longrightarrow> o1 = a"
    using mrun_own [OF fresh_world_own assms(2)] assms(3) unfolding own_attachables_def by blast
  have "distinct (peers w a)" using links_wfD(1) [OF mrun_wf [OF fresh_world_wf assms(1)]] assms(3) by blast
  then have "count_list (peers w a) b = (if b \<in> set (peers w a) then 1 else 0)"
    by (rule count_distinct)
  then show "exits_to b a w' = exits_to b a w + (if b \<in> set (peers w a) then 1 else 0)"
    using exits_of_attachables [OF own assms(6)]
    by (simp add: exits_to_def w' cleanup_trace [OF assms(4)] flip: peers_def)
  show ok using assms(4) by (simp add: ok mon_cleanup_def Let_def split: option.split)
  show "mon_cleanup a r' w' = (False, w')"
    using assms(4) by (simp add: w' mon_cleanup_def Let_def split: option.split)
  have "terminated (act w' a)" using assms(4) by (simp add: w' mon_cleanup_def Let_def split: option.split)
  then show "link_to b a w' = emit [Enqueued b None (Exit_msg a (fail_state (act w' a)))] w'"
    if "b \<noteq> a \<and> \<not> terminated (act w' b) \<and> a \<in> objs w'"
    using that by (simp add: link_to_def establish_link_eq)
qed

lemma exit_messages_once_witness:
  "let w = mrun [Link_op 1 2, Link_op 3 1] (fresh_world {1, 2, 3});
       w' = snd (mon_cleanup 1 (Some (make_exit_error Kill)) w)
   in exits_to 2 1 w' = exits_to 2 1 w + 1
      \<and> link_to 2 1 w' = emit [Enqueued 2 None (Exit_msg 1 (fail_state (act w' 1)))] w'"
  using exit_messages_once [of "[Link_op 1 2, Link_op 3 1]" _ "{1, 2, 3}" 1 _ _ "Some (make_exit_error Kill)" 2, OF _ _ refl _ prod.collapse]
  by (simp add: mrun_def fresh_world_def fresh_actor_def link_to_def establish_link_eq
      attach_impl_def upd_def peers_def Let_def mon_cleanup_def)

section \<open>Attached functors\<close>

definition functor_calls :: "nat \<Rightarrow> world \<Rightarrow> nat" where
  "functor_calls f w = length (filter (\<lambda>e. \<exists>rsn. e = Functor_called f rsn) (trace w))"

definition functor_pending :: "nat \<Rightarrow> nat \<Rightarrow> world \<Rightarrow> nat" where
  "functor_pending f a w = count_list (attachables (act w a)) (Functor_attachable f)"

definition functor_attached :: "nat \<Rightarrow> mop list \<Rightarrow> nat" where
  "functor_attached f ops = length (filter (\<lambda>op. \<exists>a. op = Attach a (Functor_attachable f)) ops)"

lemma functor_notices:
  "length (filter (\<lambda>e. \<exists>rsn. e = Functor_called f rsn) (notices rsn os x)) = (if x = Functor_attachable f then 1 else 0)"
  by (cases x) auto

lemma functor_calls_fold:
  "functor_calls f (fold (actor_exited rsn) xs w) = functor_calls f w + count_list xs (Functor_attachable f)"
  by (induction xs arbitrary: w) (simp_all add: functor_calls_def actor_exited_notices functor_notices)

lemma functor_calls_simps [simp]:
  "functor_calls f (upd a g w) = functor_calls f w"
  "functor_calls f (attach_impl a x w) = functor_calls f w"
  "functor_calls f (emit [Enqueued b s m] w) = functor_calls f w"
  "functor_calls f (emit [Printer_purged b] w) = functor_calls f w"
  "functor_calls f (w\<lparr>objs := os\<rparr>) = functor_calls f w"
  "functor_calls f (emit [Functor_called h rsn] w) = functor_calls f w + (if h = f then 1 else 0)"
  by (simp_all add: functor_calls_def attach_impl_def)

lemma functor_pending_upd [simp]:
  "functor_pending f b (upd a g w) =
     (if b = a then count_list (attachables (g (act w a))) (Functor_attachable f) else functor_pending f b w)"
  "functor_pending f b (emit es w) = functor_pending f b w"
  "functor_pending f b (w\<lparr>objs := os\<rparr>) = functor_pending f b w"
  "functor_pending f b (attach_impl a x w) = functor_pending f b w + (if b = a \<and> x = Functor_attachable f then 1 else 0)"
  by (simp_all add: functor_pending_def attach_impl_def)

lemma functor_pending_fold [simp]: "functor_pending f b (fold (actor_exited rsn) xs w) = functor_pending f b w"
  by (simp add: functor_pending_def)

text \<open>What calls and what is pending move together; \<open>n\<close> functors are new.\<close>

definition functors_kept :: "nat \<Rightarrow> nat \<Rightarrow> nat \<Rightarrow> world \<Rightarrow> world \<Rightarrow> bool" where
  "functors_kept f a n w w' \<longleftrightarrow>
     functor_calls f w' + functor_pending f a w' = functor_calls f w + functor_pending f a w + n
     \<and> (\<forall>b. b \<noteq> a \<longrightarrow> functor_pending f b w = 0 \<longrightarrow> functor_pending f b w' = 0)"

lemma matches_functor: "\<not> matches tk (Functor_attachable f)"
  by (cases tk) simp_all

lemma count_filter_functor:
  "count_list (filter (\<lambda>x. \<not> matches tk x) xs) (Functor_attachable f) = count_list xs (Functor_attachable f)"
  by (induction xs) (auto simp: matches_functor)

lemma count_drop_link: "count_list (drop_link b xs) (Functor_attachable f) = count_list xs (Functor_attachable f)"
  by (induction xs) (auto simp: drop_link_def matches_link split: option.splits if_splits)

lemma attach_functors:
  "x \<noteq> Functor_attachable f \<or> a = c \<Longrightarrow>
   functors_kept f a (if x = Functor_attachable f then 1 else 0) w (attach c x w)"
  by (cases x) (auto simp: functors_kept_def attach_def)

lemma detach_functors: "functors_kept f a 0 w (snd (detach c tk w))"
  by (auto simp: functors_kept_def detach_def detach_from_def detach_all count_filter_functor functor_pending_def)

lemma cleanup_functors:
  assumes "c \<noteq> a \<longrightarrow> functor_pending f c w = 0"
  shows "functors_kept f a 0 w (snd (mon_cleanup c r w))"
  using assms
  by (auto simp: functors_kept_def mon_cleanup_def Let_def functor_calls_fold functor_pending_def split: option.split)

lemma mstep_functors:
  assumes "\<And>b. b \<noteq> a \<Longrightarrow> functor_pending f b w = 0" and "\<And>b. op = Attach b (Functor_attachable f) \<Longrightarrow> b = a"
  shows "functors_kept f a (functor_attached f [op]) w (mstep op w)"
proof (cases op)
  case (Attach b x)
  with assms attach_functors [of x f a b w] show ?thesis by (auto simp: functor_attached_def)
next
  case (Link_op b c)
  then show ?thesis
    by (cases "b = c") (auto simp: functors_kept_def functor_attached_def link_to_def establish_link_eq)
next
  case (Unlink_op b c)
  then show ?thesis
    by (auto simp: functors_kept_def functor_attached_def unlink_from_def remove_link_eq count_drop_link functor_pending_def)
next
  case (Quit_op b e)
  then show ?thesis by (auto simp: functors_kept_def functor_attached_def mon_quit_def functor_pending_def)
next
  case (Monitor_op b c)
  with attach_functors [of "Default_attachable c b Monitor" f a c w] show ?thesis
    by (simp add: functor_attached_def mon_monitor_def)
next
  case (Demonitor_op b c)
  with detach_functors [of f a w] show ?thesis
    by (simp add: functor_attached_def mon_demonitor_def functors_kept_def)
next
  case (Detach b tk)
  with detach_functors [of f a w] show ?thesis by (simp add: functor_attached_def)
next
  case (Cleanup_op b r)
  with cleanup_functors [of b a f w r] assms(1) show ?thesis by (auto simp: functor_attached_def)
next
  case (Destroy_op b)
  have "functors_kept f a 0 (w\<lparr>objs := objs w - {b}\<rparr>) (snd (mon_cleanup b (Some (make_exit_error Unreachable)) (w\<lparr>objs := objs w - {b}\<rparr>)))"
    using assms(1) by (intro cleanup_functors) auto
  with Destroy_op show ?thesis by (auto simp: functors_kept_def functor_attached_def on_destroy_def Let_def)
qed

lemma mrun_functors:
  assumes "\<And>b. b \<noteq> a \<Longrightarrow> functor_pending f b w = 0" and "\<And>b. Attach b (Functor_attachable f) \<in> set ops \<Longrightarrow> b = a"
  shows "functors_kept f a (functor_attached f ops) w (mrun ops w)"
  using assms
proof (induction ops arbitrary: w)
  case (Cons op ops)
  have s: "functors_kept f a (functor_attached f [op]) w (mstep op w)"
    by (rule mstep_functors) (use Cons.prems in auto)
  have "functors_kept f a (functor_attached f ops) (mstep op w) (mrun ops (mstep op w))"
    by (rule Cons.IH) (use s Cons.prems in \<open>auto simp: functors_kept_def\<close>)
  with s show ?case by (auto simp: functors_kept_def mrun_def functor_attached_def split: if_splits)
qed (simp add: functors_kept_def mrun_def functor_attached_def)

text \<open>A functor that is attached to an actor, at any time, is called once for each time it was attached as soon as
  the actor has been cleaned up: by the cleanup if it was attached before, at once if later. Before that, each call
  and each functor that is still pending is one that was attached.\<close>

theorem attached_functors_called_once:
  assumes "list_all mop_ok ops" and "\<forall>b. Attach b (Functor_attachable f) \<in> set ops \<longrightarrow> b = a"
    and "w = mrun ops (fresh_world os)"
  shows "functor_calls f w + functor_pending f a w = functor_attached f ops
    \<and> (cleaned_up (act w a) \<longrightarrow> functor_calls f w = functor_attached f ops)"
proof -
  have "functors_kept f a (functor_attached f ops) (fresh_world os) w"
    unfolding assms(3)
    by (rule mrun_functors) (use assms(2) in \<open>auto simp: functor_pending_def fresh_world_def fresh_actor_def\<close>)
  then have k: "functor_calls f w + functor_pending f a w = functor_attached f ops"
    by (simp add: functors_kept_def functor_calls_def functor_pending_def fresh_world_def fresh_actor_def)
  moreover have "functor_pending f a w = 0" if "cleaned_up (act w a)"
    using links_wfD(3) [OF mrun_wf [OF fresh_world_wf assms(1)]] assms(3) that
    by (simp add: functor_pending_def)
  ultimately show ?thesis by auto
qed

lemma attached_functors_called_once_witness:
  "let ops = [Attach 1 (Functor_attachable 7), Attach 1 (Functor_attachable 7), Detach 1 Anonymous,
              Quit_op 1 (make_exit_error Kill), Attach 1 (Functor_attachable 7), Cleanup_op 1 None,
              Attach 1 (Functor_attachable 7)]
   in cleaned_up (act (mrun ops (fresh_world {1})) 1) \<and> functor_calls 7 (mrun ops (fresh_world {1})) = 4"
  using attached_functors_called_once [of "[Attach 1 (Functor_attachable 7), Attach 1 (Functor_attachable 7), Detach 1 Anonymous,
              Quit_op 1 (make_exit_error Kill), Attach 1 (Functor_attachable 7), Cleanup_op 1 None,
              Attach 1 (Functor_attachable 7)]" 7 1 _ "{1}", OF _ _ refl]
  by (simp add: mrun_def fresh_world_def fresh_actor_def attach_def attach_impl_def upd_def detach_def detach_from_def
      mon_quit_def mon_cleanup_def emit_def Let_def functor_attached_def)

section \<open>Linking at the same time\<close>

lemma link_runs_end:
  assumes fin: "finite (dom target)" and ord: "\<And>a x. target a = Some x \<Longrightarrow> a < x" and locks: "locks_wf target s"
  shows "\<exists>s'. link_reach target s s' \<and> all_linked target s'"
  using locks
proof (induction "link_measure target s" arbitrary: s rule: less_induct)
  case less
  show ?case
  proof (cases "all_linked target s")
    case False
    then obtain t where t: "lstep target s t" using lstep_progress [OF less.prems fin ord] by blast
    have "locks_wf target t" by (rule lstep_locks [OF t less.prems]) (use ord in blast)
    with less.hyps [OF lstep_measure [OF t fin]] obtain s' where "link_reach target t s'" "all_linked target s'" by blast
    with t show ?thesis unfolding link_reach_def by (blast intro: converse_rtranclp_into_rtranclp)
  qed (auto simp: link_reach_def)
qed

lemma link_measure_start: "link_measure target (link_start w) = 4 * card (dom target)"
  by (simp add: link_measure_def link_start_def)

text \<open>C38: when every actor that links to another has the smaller address of the two, no order of the steps of the
  threads deadlocks: from every state that is reached, all links can be completed, in every run each thread takes at
  most four steps, and as soon as all threads are done the links are symmetric.\<close>

theorem ordered_linking_ends:
  assumes "finite (dom target)" and "\<forall>a x. target a = Some x \<longrightarrow> a < x"
    and "links_wf w" and "\<forall>a. \<not> cleaned_up (act w a)" and "link_reach target (link_start w) s"
  shows "(\<exists>s'. link_reach target s s' \<and> all_linked target s')
    \<and> (\<not> all_linked target s \<longrightarrow> (\<exists>s'. lstep target s s'))
    \<and> ((lstep target ^^ n) (link_start w) s \<longrightarrow> n \<le> 4 * card (dom target))
    \<and> (all_linked target s \<longrightarrow> (b \<in> set (peers (wld s) a) \<longleftrightarrow> a \<in> set (peers (wld s) b)))"
proof (intro conjI impI)
  have ord: "a < x" if "target a = Some x" for a x using assms(2) that by blast
  then have irr: "target a \<noteq> Some a" for a by blast
  have start: "locks_wf target (link_start w)" "linking_wf target (link_start w)"
    using link_start_locks link_start_wf [OF assms(3)] assms(4) by blast+
  have wf: "locks_wf target s" "linking_wf target s"
    using link_reach_wf [OF assms(5) start irr] by blast+
  show "\<exists>s'. link_reach target s s' \<and> all_linked target s'"
    using link_runs_end [OF assms(1) ord wf(1)] .
  show "\<exists>s'. lstep target s s'" if "\<not> all_linked target s"
    using lstep_progress [OF wf(1) assms(1) ord that] .
  show "n \<le> 4 * card (dom target)" if "(lstep target ^^ n) (link_start w) s"
    using relpowp_measure [OF that, of "link_measure target"] lstep_measure assms(1)
    by (simp add: link_measure_start)
  show "b \<in> set (peers (wld s) a) \<longleftrightarrow> a \<in> set (peers (wld s) b)" if "all_linked target s"
  proof -
    have "\<not> halfway target s c d" for c d using that by (auto simp: halfway_def all_linked_def dom_def)
    then show ?thesis using linking_wfD(4) [OF wf(2), of b a] by simp
  qed
qed

lemma ordered_linking_ends_witness:
  "(\<exists>s'. link_reach [1 \<mapsto> 2, 2 \<mapsto> 3] (link_start (fresh_world {1, 2, 3})) s' \<and> all_linked [1 \<mapsto> 2, 2 \<mapsto> 3] s')"
  using ordered_linking_ends [of "[1 \<mapsto> 2, 2 \<mapsto> 3]" "fresh_world {1, 2, 3}" "link_start (fresh_world {1, 2, 3})" 0 0 0]
    fresh_world_wf
  by (simp add: link_reach_def fresh_world_def fresh_actor_def)

text \<open>Two running actors that link to each other at the same time can both get stuck for good: each has its own
  mutex and waits for the one of the other. No step is possible in that state, and neither of them is done.\<close>

theorem mutual_linking_deadlocks:
  assumes "a \<noteq> b" and "\<not> terminated (act w a)" and "\<not> terminated (act w b)"
  shows "\<exists>s. link_reach [a \<mapsto> b, b \<mapsto> a] (link_start w) s \<and> (\<forall>s'. \<not> lstep [a \<mapsto> b, b \<mapsto> a] s s')
    \<and> pcs s a \<noteq> Link_done \<and> pcs s b \<noteq> Link_done"
proof -
  let ?t = "[a \<mapsto> b, b \<mapsto> a]"
  define s1 where "s1 = (link_start w)\<lparr>pcs := (pcs (link_start w))(a := Own_locked), holder := (holder (link_start w))(a \<mapsto> a)\<rparr>"
  define s2 where "s2 = s1\<lparr>pcs := (pcs s1)(b := Own_locked), holder := (holder s1)(b \<mapsto> b)\<rparr>"
  have "lstep ?t (link_start w) s1"
    unfolding s1_def by (rule lstep.lock_own [of _ _ b]) (use assms in \<open>simp_all add: link_start_def\<close>)
  moreover have "lstep ?t s1 s2"
    unfolding s2_def by (rule lstep.lock_own [of _ _ a]) (use assms in \<open>simp_all add: s1_def link_start_def\<close>)
  ultimately have "link_reach ?t (link_start w) s2"
    unfolding link_reach_def by (meson rtranclp.rtrancl_refl rtranclp.rtrancl_into_rtrancl)
  moreover have "\<not> lstep ?t s2 s'" for s'
    using assms by (auto simp: s2_def s1_def link_start_def elim!: lstep.cases split: if_splits)
  ultimately show ?thesis using assms(1) by (intro exI [of _ s2]) (simp add: s2_def s1_def)
qed

lemma mutual_linking_deadlocks_witness:
  "\<exists>s. link_reach [1 \<mapsto> 2, 2 \<mapsto> 1] (link_start (fresh_world {1, 2})) s
      \<and> (\<forall>s'. \<not> lstep [1 \<mapsto> 2, 2 \<mapsto> 1] s s') \<and> pcs s 1 \<noteq> Link_done \<and> pcs s 2 \<noteq> Link_done"
  using mutual_linking_deadlocks [of 1 2 "fresh_world {1, 2}"] by (simp add: fresh_world_def fresh_actor_def)

end
