(* ===== verification/MessageId.thy ===== *)
theory MessageId
  imports CMemory
begin

unbundle bit_operations_syntax

text \<open>
  Message identifiers (libcaf_core/caf/message_id.hpp) with their order (caf/detail/comparable.hpp),
  the counter that hands them out (src/local_actor.cpp), and time spans (caf/duration.hpp,
  src/duration.cpp).
\<close>

section \<open>Message identifiers\<close>

datatype message_id = Message_id (integer_value: u64)

datatype message_priority = Normal | High

definition response_flag_mask :: u64 where "response_flag_mask = 0x8000000000000000"
definition answered_flag_mask :: u64 where "answered_flag_mask = 0x4000000000000000"
definition high_prioity_flag_mask :: u64 where "high_prioity_flag_mask = 0x2000000000000000"
definition request_id_mask :: u64 where "request_id_mask = 0x1FFFFFFFFFFFFFFF"

definition invalid_message_id :: message_id where "invalid_message_id = Message_id 0"

definition mid_increment :: "message_id \<Rightarrow> message_id" where
  "mid_increment m = Message_id (integer_value m + 1)"

definition is_async :: "message_id \<Rightarrow> bool" where
  "is_async m \<longleftrightarrow> integer_value m = 0 \<or> integer_value m = high_prioity_flag_mask"

definition is_response :: "message_id \<Rightarrow> bool" where
  "is_response m \<longleftrightarrow> integer_value m AND response_flag_mask \<noteq> 0"

definition is_answered :: "message_id \<Rightarrow> bool" where
  "is_answered m \<longleftrightarrow> integer_value m AND answered_flag_mask \<noteq> 0"

definition is_high_priority :: "message_id \<Rightarrow> bool" where
  "is_high_priority m \<longleftrightarrow> integer_value m AND high_prioity_flag_mask \<noteq> 0"

definition mid_valid :: "message_id \<Rightarrow> bool" where
  "mid_valid m \<longleftrightarrow> integer_value m AND request_id_mask \<noteq> 0"

definition is_request :: "message_id \<Rightarrow> bool" where
  "is_request m \<longleftrightarrow> mid_valid m \<and> \<not> is_response m"

definition response_id :: "message_id \<Rightarrow> message_id" where
  "response_id m = Message_id (if is_request m then integer_value m OR response_flag_mask else 0)"

definition request_id :: "message_id \<Rightarrow> message_id" where
  "request_id m = Message_id (integer_value m AND request_id_mask)"

definition with_high_priority :: "message_id \<Rightarrow> message_id" where
  "with_high_priority m = Message_id (integer_value m OR high_prioity_flag_mask)"

definition with_normal_priority :: "message_id \<Rightarrow> message_id" where
  "with_normal_priority m = Message_id (integer_value m AND NOT high_prioity_flag_mask)"

definition mark_as_answered :: "message_id \<Rightarrow> message_id" where
  "mark_as_answered m = Message_id (integer_value m OR answered_flag_mask)"

definition from_integer_value :: "u64 \<Rightarrow> message_id" where
  "from_integer_value v = Message_id v"

definition mid_make :: "message_priority \<Rightarrow> message_id" where
  "mid_make prio = Message_id (if prio = High then high_prioity_flag_mask else 0)"

definition mid_compare :: "message_id \<Rightarrow> message_id \<Rightarrow> int" where
  "mid_compare m n =
     (if integer_value m = integer_value n then 0
      else if integer_value m < integer_value n then -1 else 1)"

definition mid_to_string :: "message_id \<Rightarrow> string" where
  "mid_to_string m = show_dec (unat (integer_value m))"

text \<open>The comparison operators of \<open>comparable\<close>, derived from \<open>compare\<close>.\<close>

instantiation message_id :: linorder
begin

definition less_eq_message_id :: "message_id \<Rightarrow> message_id \<Rightarrow> bool" where
  "m \<le> n \<longleftrightarrow> mid_compare m n \<le> 0"

definition less_message_id :: "message_id \<Rightarrow> message_id \<Rightarrow> bool" where
  "m < n \<longleftrightarrow> mid_compare m n < 0"

instance
proof
  fix x y z :: message_id
  show "x < y \<longleftrightarrow> x \<le> y \<and> \<not> y \<le> x"
    by (auto simp: less_message_id_def less_eq_message_id_def mid_compare_def)
  show "x \<le> x" by (simp add: less_eq_message_id_def mid_compare_def)
  show "x \<le> y \<Longrightarrow> y \<le> z \<Longrightarrow> x \<le> z"
    by (auto simp: less_eq_message_id_def mid_compare_def split: if_splits)
  show "x \<le> y \<Longrightarrow> y \<le> x \<Longrightarrow> x = y"
    by (auto simp: less_eq_message_id_def mid_compare_def message_id.expand split: if_splits)
  show "x \<le> y \<or> y \<le> x" by (auto simp: less_eq_message_id_def mid_compare_def)
qed

end

text \<open>\<open>new_request_id\<close>: the actor's counter is incremented and read.\<close>

definition new_request_id :: "message_priority \<Rightarrow> message_id \<Rightarrow> message_id \<times> message_id" where
  "new_request_id mp last_request_id =
     (let result = mid_increment last_request_id
      in (if mp = Normal then result else with_high_priority result, result))"

section \<open>Bits\<close>

lemmas mid_masks = response_flag_mask_def answered_flag_mask_def high_prioity_flag_mask_def
  request_id_mask_def

definition flag :: "nat \<Rightarrow> u64" where "flag k = push_bit k 1"

lemma mask_bits:
  "response_flag_mask = flag 63" "answered_flag_mask = flag 62"
  "high_prioity_flag_mask = flag 61" "request_id_mask = mask 61"
  by (simp_all add: mid_masks flag_def push_bit_eq_mult mask_eq_exp_minus_1)

lemma and_flag: "(w :: u64) AND flag k \<noteq> 0 \<longleftrightarrow> bit w k"
proof
  assume "bit w k"
  then have "bit (w AND flag k) k" by (auto simp: bit_and_iff flag_def bit_push_bit_iff bit_exp_iff possible_bit_word dest: bit_imp_le_length)
  then show "w AND flag k \<noteq> 0" by auto
next
  assume "w AND flag k \<noteq> 0"
  then obtain i where "bit (w AND flag k) i" by (auto simp: bit_eq_iff)
  then show "bit w k" by (auto simp: bit_and_iff flag_def bit_push_bit_iff bit_1_iff bit_exp_iff possible_bit_word)
qed

lemma mid_bits:
  "is_response m \<longleftrightarrow> bit (integer_value m) 63" "is_answered m \<longleftrightarrow> bit (integer_value m) 62"
  "is_high_priority m \<longleftrightarrow> bit (integer_value m) 61"
  "mid_valid m \<longleftrightarrow> take_bit 61 (integer_value m) \<noteq> 0"
  by (simp_all only: is_response_def is_answered_def is_high_priority_def mid_valid_def mask_bits
      and_flag take_bit_eq_mask)

lemma request_id_bits: "integer_value (request_id m) = take_bit 61 (integer_value m)"
  by (simp only: request_id_def message_id.sel mask_bits take_bit_eq_mask)

lemma take_bit_flag:
  assumes "61 \<le> k"
  shows "take_bit 61 (flag k) = 0"
    "take_bit 61 ((w :: u64) AND NOT (flag k)) = take_bit 61 w"
  using assms by (auto intro!: bit_word_eqI simp: bit_take_bit_iff bit_or_iff bit_and_iff bit_not_iff
      flag_def bit_push_bit_iff bit_1_iff bit_exp_iff possible_bit_word)

lemma flag_bits:
  assumes "k < 64"
  shows "bit ((w :: u64) OR flag k) j \<longleftrightarrow> bit w j \<or> j = k"
    "bit (w AND NOT (flag k)) j \<longleftrightarrow> bit w j \<and> j \<noteq> k"
  using assms by (auto simp: bit_or_iff bit_and_iff bit_not_iff flag_def bit_push_bit_iff bit_1_iff bit_exp_iff possible_bit_word
      dest: bit_imp_le_length)

lemma or_not_zero: "bit (w :: u64) k \<Longrightarrow> w \<noteq> 0"
  by auto

section \<open>What the operations do to the parts\<close>

lemma response_id_parts:
  assumes "is_request m"
  shows "is_response (response_id m)" "mid_valid (response_id m)"
    "request_id (response_id m) = request_id m"
    "is_answered (response_id m) = is_answered m" "is_high_priority (response_id m) = is_high_priority m"
    "\<not> is_request (response_id m)"
proof -
  have v: "integer_value (response_id m) = integer_value m OR flag 63"
    using assms by (simp add: response_id_def mask_bits)
  show r: "is_response (response_id m)" by (simp add: mid_bits v flag_bits)
  show "mid_valid (response_id m)"
    using assms by (simp add: mid_bits v take_bit_flag is_request_def)
  show "request_id (response_id m) = request_id m"
    by (rule message_id.expand) (simp add: request_id_bits v take_bit_flag)
  show "is_answered (response_id m) = is_answered m"
    "is_high_priority (response_id m) = is_high_priority m"
    by (simp_all add: mid_bits v flag_bits)
  show "\<not> is_request (response_id m)" using r by (simp add: is_request_def)
qed

lemma response_id_none: "\<not> is_request m \<Longrightarrow> response_id m = invalid_message_id"
  by (simp add: response_id_def invalid_message_id_def)

lemma priority_parts:
  "is_high_priority (with_high_priority m)" "\<not> is_high_priority (with_normal_priority m)"
  "request_id (with_high_priority m) = request_id m" "request_id (with_normal_priority m) = request_id m"
  "is_response (with_high_priority m) = is_response m" "is_response (with_normal_priority m) = is_response m"
  "is_answered (with_high_priority m) = is_answered m" "is_answered (with_normal_priority m) = is_answered m"
  "with_normal_priority (with_high_priority m) = with_normal_priority m"
proof -
  have v: "integer_value (with_high_priority m) = integer_value m OR flag 61"
    "integer_value (with_normal_priority m) = integer_value m AND NOT (flag 61)" for m
    by (simp_all add: with_high_priority_def with_normal_priority_def mask_bits)
  show "is_high_priority (with_high_priority m)" "\<not> is_high_priority (with_normal_priority m)"
    "is_response (with_high_priority m) = is_response m" "is_response (with_normal_priority m) = is_response m"
    "is_answered (with_high_priority m) = is_answered m" "is_answered (with_normal_priority m) = is_answered m"
    by (simp_all add: mid_bits v flag_bits)
  show "request_id (with_high_priority m) = request_id m" "request_id (with_normal_priority m) = request_id m"
    by (rule message_id.expand, simp add: request_id_bits v take_bit_flag del: take_bit_and)+
  show "with_normal_priority (with_high_priority m) = with_normal_priority m"
    by (rule message_id.expand) (auto simp: v flag_bits intro: bit_word_eqI)
qed

lemma answered_parts:
  "is_answered (mark_as_answered m)" "request_id (mark_as_answered m) = request_id m"
  "is_response (mark_as_answered m) = is_response m"
  "is_high_priority (mark_as_answered m) = is_high_priority m" "is_request (mark_as_answered m) = is_request m"
proof -
  have v: "integer_value (mark_as_answered m) = integer_value m OR flag 62"
    by (simp add: mark_as_answered_def mask_bits)
  show "is_answered (mark_as_answered m)" "is_response (mark_as_answered m) = is_response m"
    "is_high_priority (mark_as_answered m) = is_high_priority m" "is_request (mark_as_answered m) = is_request m"
    by (simp_all add: mid_bits v flag_bits take_bit_flag is_request_def)
  show "request_id (mark_as_answered m) = request_id m"
    by (rule message_id.expand) (simp add: request_id_bits v take_bit_flag)
qed

section \<open>The identifiers of an actor's requests\<close>

text \<open>The identifiers handed out one after the other with the given priorities.\<close>

fun request_ids :: "message_priority list \<Rightarrow> message_id \<Rightarrow> message_id list" where
  "request_ids [] q = []"
| "request_ids (mp # mps) q = (let (m, q') = new_request_id mp q in m # request_ids mps q')"

definition counts_to :: "nat \<Rightarrow> message_id \<Rightarrow> bool" where
  "counts_to n m \<longleftrightarrow> integer_value m = of_nat n"

lemma new_request_id_parts:
  assumes "integer_value q = of_nat n" and "n + 1 < 2 ^ 61"
  shows "\<exists>m q'. new_request_id mp q = (m, q') \<and> integer_value q' = of_nat (n + 1) \<and> is_request m
    \<and> \<not> is_answered m \<and> (is_high_priority m \<longleftrightarrow> mp = High)
    \<and> integer_value (request_id m) = of_nat (n + 1)"
proof -
  let ?q = "mid_increment q"
  have v: "integer_value ?q = of_nat (n + 1)" using assms(1) by (simp add: mid_increment_def add.commute)
  have u: "unat (of_nat (n + 1) :: u64) = n + 1" using assms(2) by (intro unat_of_nat_small) simp
  have t: "take_bit 61 (of_nat (n + 1) :: u64) = of_nat (n + 1)"
    using assms(2) u by (simp add: word_unat_eq_iff unsigned_take_bit_eq take_bit_nat_eq_self del: of_nat_add of_nat_Suc)
  have nz: "(of_nat (n + 1) :: u64) \<noteq> 0" using u by (metis Suc_eq_plus1 nat.distinct(1) unat_0)
  have low: "\<not> bit (of_nat (n + 1) :: u64) k" if "61 \<le> k" for k
    using that t by (metis bit_take_bit_iff not_le)
  have q: "is_request ?q" "\<not> is_answered ?q" "\<not> is_high_priority ?q"
    "integer_value (request_id ?q) = of_nat (n + 1)"
    using nz t low [of 61] low [of 62] low [of 63]
    unfolding is_request_def mid_bits request_id_bits v by simp_all
  have "mid_valid m \<longleftrightarrow> integer_value (request_id m) \<noteq> 0" for m
    by (simp add: mid_bits request_id_bits)
  then have h: "is_request (with_high_priority ?q)"
    using q(1) by (simp add: is_request_def priority_parts)
  show ?thesis
  proof (cases mp)
    case Normal
    then show ?thesis using q v by (simp add: new_request_id_def Let_def)
  next
    case High
    then show ?thesis using q h v by (simp add: new_request_id_def Let_def priority_parts)
  qed
qed

text \<open>
  An actor that has made \<open>n\<close> requests: the next ones get the numbers that follow, with the
  priorities asked for, as long as they stay below \<open>2^61\<close>.
\<close>

lemma request_ids_numbers:
  assumes "integer_value q = of_nat n" and "n + length mps < 2 ^ 61"
  shows "map (\<lambda>m. integer_value (request_id m)) (request_ids mps q) = map of_nat [n + 1..<n + 1 + length mps]
    \<and> list_all (\<lambda>m. is_request m \<and> \<not> is_answered m) (request_ids mps q)
    \<and> map is_high_priority (request_ids mps q) = map (\<lambda>mp. mp = High) mps"
  using assms
proof (induction mps arbitrary: q n)
  case (Cons mp mps)
  obtain m q' where m: "new_request_id mp q = (m, q')" "integer_value q' = of_nat (n + 1)" "is_request m"
    "\<not> is_answered m" "is_high_priority m \<longleftrightarrow> mp = High" "integer_value (request_id m) = of_nat (n + 1)"
    using new_request_id_parts [OF Cons.prems(1), of mp] Cons.prems(2) by auto
  have ids: "request_ids (mp # mps) q = m # request_ids mps q'" by (simp add: m(1))
  have up: "[n + 1..<n + 1 + length (mp # mps)] = (n + 1) # [n + 1 + 1..<n + 1 + 1 + length mps]"
    by (subst upt_conv_Cons) simp_all
  show ?case
    using Cons.IH [OF m(2)] Cons.prems(2) m(3-6)
    unfolding ids up list.map by (simp del: upt_Suc)
qed simp

section \<open>Time spans\<close>

datatype time_unit = Invalid | Seconds | Milliseconds | Microseconds

definition time_unit_to_string :: "time_unit \<Rightarrow> string" where
  "time_unit_to_string x =
     (case x of Seconds \<Rightarrow> ''seconds'' | Milliseconds \<Rightarrow> ''milliseconds''
      | Microseconds \<Rightarrow> ''microseconds'' | Invalid \<Rightarrow> ''invalid'')"

definition ratio_to_time_unit_helper :: "int \<Rightarrow> int \<Rightarrow> time_unit" where
  "ratio_to_time_unit_helper num denom =
     (if num = 1 \<and> denom = 1 then Seconds
      else if num = 1 \<and> denom = 1000 then Milliseconds
      else if num = 1 \<and> denom = 1000000 then Microseconds
      else if num = 60 \<and> denom = 1 then Seconds
      else Invalid)"

definition get_time_unit_from_period :: "int \<times> int \<Rightarrow> time_unit" where
  "get_time_unit_from_period period = ratio_to_time_unit_helper (fst period) (snd period)"

record duration =
  unit :: time_unit
  count :: u64

definition infinite :: duration where
  "infinite = \<lparr>unit = Invalid, count = 0\<rparr>"

definition duration_of :: "time_unit \<Rightarrow> u32 \<Rightarrow> duration" where
  "duration_of u v = \<lparr>unit = u, count = ucast v\<rparr>"

text \<open>\<open>rd\<close>: a negative count becomes 0; the product is taken in 64 bits.\<close>

definition duration_rd :: "int \<Rightarrow> int \<times> int \<Rightarrow> u64" where
  "duration_rd cnt period = (if cnt < 0 then 0 else of_int cnt * of_int (fst period))"

text \<open>A period outside the supported ones is a compile-time error.\<close>

definition duration_from_chrono :: "int \<Rightarrow> int \<times> int \<Rightarrow> duration option" where
  "duration_from_chrono cnt period =
     (if get_time_unit_from_period period = Invalid then None
      else Some \<lparr>unit = get_time_unit_from_period period, count = duration_rd cnt period\<rparr>)"

definition duration_valid :: "duration \<Rightarrow> bool" where
  "duration_valid d \<longleftrightarrow> unit d \<noteq> Invalid"

definition duration_is_zero :: "duration \<Rightarrow> bool" where
  "duration_is_zero d \<longleftrightarrow> count d = 0"

definition duration_to_string :: "duration \<Rightarrow> string" where
  "duration_to_string x =
     (let result = show_dec (unat (count x))
      in case unit x of Seconds \<Rightarrow> result @ ''s'' | Milliseconds \<Rightarrow> result @ ''ms''
         | Microseconds \<Rightarrow> result @ ''us'' | Invalid \<Rightarrow> ''infinite'')"

definition duration_eq :: "duration \<Rightarrow> duration \<Rightarrow> bool" where
  "duration_eq lhs rhs \<longleftrightarrow> unit lhs = unit rhs \<and> count lhs = count rhs"

text \<open>\<open>+=\<close> on a time point, here a number of microseconds; chrono keeps the count as a signed number.\<close>

definition time_point_add :: "int \<Rightarrow> duration \<Rightarrow> int" where
  "time_point_add lhs rhs =
     (case unit rhs of Seconds \<Rightarrow> lhs + sint (count rhs) * 1000000
      | Milliseconds \<Rightarrow> lhs + sint (count rhs) * 1000
      | Microseconds \<Rightarrow> lhs + sint (count rhs)
      | Invalid \<Rightarrow> lhs)"

text \<open>The microseconds of a period of the standard library.\<close>

lemma duration_adds:
  assumes "duration_from_chrono cnt (num, den) = Some d" and "0 \<le> cnt" and "cnt * num < 2 ^ 63"
  shows "(time_point_add t d - t) * den = cnt * num * 1000000"
proof -
  have u: "get_time_unit_from_period (num, den) \<noteq> Invalid"
    "d = \<lparr>unit = get_time_unit_from_period (num, den), count = duration_rd cnt (num, den)\<rparr>"
    using assms(1) by (simp_all add: duration_from_chrono_def split: if_splits)
  have n: "0 \<le> num" using u(1) by (auto simp: get_time_unit_from_period_def ratio_to_time_unit_helper_def split: if_splits)
  have "sint (of_int cnt * of_int num :: u64) = cnt * num"
  proof -
    have "(of_int cnt * of_int num :: u64) = of_int (cnt * num)" by simp
    moreover have "0 \<le> cnt * num" using assms(2) n by simp
    then have "signed_take_bit 63 (cnt * num) = cnt * num"
      using assms(3) by (intro signed_take_bit_int_eq_self) simp_all
    ultimately show ?thesis by (simp only: signed_of_int) simp
  qed
  then show ?thesis
    using u assms(2)
    by (auto simp: get_time_unit_from_period_def ratio_to_time_unit_helper_def duration_rd_def
        time_point_add_def split: if_splits)
qed

end
