(* ===== verification/PartitionedList.thy ===== *)
theory PartitionedList
  imports Prelude
begin

text \<open>
  The intrusive list that caches an actor's messages
  (libcaf_core/caf/detail/intrusive_partitioned_list.hpp). The links are fields of the elements; the
  three sentinels \<open>head_\<close>, \<open>separator_\<close> and \<open>tail_\<close> belong to the list. Elements are numbers, their
  links a store that the mailbox of \<open>Mailbox\<close> shares.
\<close>

section \<open>Pointers and links\<close>

datatype ptr = Null | Stack_empty_dummy | Reader_blocked_dummy | Head | Separator | Tail | Node nat

record links =
  nxt :: "ptr \<Rightarrow> ptr"
  prv :: "ptr \<Rightarrow> ptr"
  deleted :: "nat list"       \<comment> \<open>the elements handed to the deleter, in order\<close>

fun node_of :: "ptr \<Rightarrow> nat" where
  "node_of (Node n) = n"
| "node_of _ = 0"

section \<open>Operations\<close>

definition plist_new :: "'a links_scheme \<Rightarrow> 'a links_scheme" where
  "plist_new l = l\<lparr>nxt := (nxt l)(Head := Separator, Separator := Tail),
                   prv := (prv l)(Separator := Head, Tail := Separator)\<rparr>"

definition plist_begin :: "'a links_scheme \<Rightarrow> ptr" where
  "plist_begin l = nxt l Head"

definition plist_separator :: ptr where
  "plist_separator = Separator"

definition plist_continuation :: "'a links_scheme \<Rightarrow> ptr" where
  "plist_continuation l = nxt l Separator"

definition plist_end :: ptr where
  "plist_end = Tail"

definition plist_ranges :: "'a links_scheme \<Rightarrow> (ptr \<times> ptr) list" where
  "plist_ranges l = [(plist_begin l, plist_separator), (plist_continuation l, plist_end)]"

definition plist_insert :: "ptr \<Rightarrow> ptr \<Rightarrow> 'a links_scheme \<Rightarrow> 'a links_scheme" where
  "plist_insert pos val l =
     (let prev = prv l pos
      in l\<lparr>nxt := (nxt l)(val := pos, prev := val), prv := (prv l)(val := prev, pos := val)\<rparr>)"

definition plist_empty :: "'a links_scheme \<Rightarrow> bool" where
  "plist_empty l \<longleftrightarrow> nxt l Head = Separator \<and> nxt l Separator = Tail"

definition plist_take :: "ptr \<Rightarrow> 'a links_scheme \<Rightarrow> ptr \<times> 'a links_scheme" where
  "plist_take pos l =
     (let succ = nxt l pos; pred = prv l pos
      in (pos, l\<lparr>nxt := (nxt l)(pred := succ), prv := (prv l)(succ := pred)\<rparr>))"

definition plist_erase :: "ptr \<Rightarrow> 'a links_scheme \<Rightarrow> ptr \<times> 'a links_scheme" where
  "plist_erase pos l =
     (let succ = nxt l pos; (p, l') = plist_take pos l
      in (succ, l'\<lparr>deleted := deleted l' @ [node_of p]\<rparr>))"

text \<open>The elements an iterator passes on its way; there is no result when it never arrives.\<close>

partial_function (option) walk :: "(ptr \<Rightarrow> ptr) \<Rightarrow> ptr \<Rightarrow> ptr \<Rightarrow> (ptr list) option" where
  [code]: "walk f i e =
     (if i = e then Some [] else Option.bind (walk f (f i) e) (\<lambda>ps. Some (i # ps)))"

text \<open>\<open>clear\<close> deletes the elements of both ranges and closes the gaps.\<close>

definition plist_clear :: "'a links_scheme \<Rightarrow> ('a links_scheme) option" where
  "plist_clear l =
     Option.bind (walk (nxt l) (plist_begin l) plist_separator) (\<lambda>ps.
     Option.bind (walk (nxt l) (plist_continuation l) plist_end) (\<lambda>qs.
     let l = l\<lparr>deleted := deleted l @ map node_of ps @ map node_of qs\<rparr>;
         l = (if nxt l Head \<noteq> Separator
              then l\<lparr>nxt := (nxt l)(Head := Separator), prv := (prv l)(Separator := Head)\<rparr> else l);
         l = (if nxt l Separator \<noteq> Tail
              then l\<lparr>nxt := (nxt l)(Separator := Tail), prv := (prv l)(Tail := Separator)\<rparr> else l)
     in Some l))"

text \<open>\<open>count\<close> stops when the number reaches the limit; the flag says that it did.\<close>

partial_function (option) count_range ::
  "(ptr \<Rightarrow> ptr) \<Rightarrow> ptr \<Rightarrow> ptr \<Rightarrow> nat \<Rightarrow> nat \<Rightarrow> (bool \<times> nat) option" where
  [code]: "count_range f i e max_count result =
     (if i = e then Some (False, result)
      else if result + 1 = max_count then Some (True, max_count)
      else count_range f (f i) e max_count (result + 1))"

definition plist_count :: "nat \<Rightarrow> 'a links_scheme \<Rightarrow> nat option" where
  "plist_count max_count l =
     Option.bind (count_range (nxt l) (plist_begin l) plist_separator max_count 0) (\<lambda>(stop, result).
       if stop then Some result
       else Option.bind (count_range (nxt l) (plist_continuation l) plist_end max_count result)
              (\<lambda>(stop, result). Some result))"

section \<open>Chains\<close>

text \<open>Neighbours in the list are linked to each other.\<close>

definition linked :: "(ptr \<Rightarrow> ptr) \<Rightarrow> (ptr \<Rightarrow> ptr) \<Rightarrow> ptr list \<Rightarrow> bool" where
  "linked f g ps \<longleftrightarrow> successively (\<lambda>p q. f p = q \<and> g q = p) ps"

lemma linked_simps [simp]:
  "linked f g []" "linked f g [p]" "linked f g (p # q # ps) \<longleftrightarrow> f p = q \<and> g q = p \<and> linked f g (q # ps)"
  by (auto simp: linked_def)

lemma linked_append:
  "linked f g (ps @ p # q # qs) \<longleftrightarrow> linked f g (ps @ [p]) \<and> f p = q \<and> g q = p \<and> linked f g (q # qs)"
  unfolding linked_def successively_append_iff successively_Cons by auto

lemma set_tlD: "x \<in> set (tl xs) \<Longrightarrow> x \<in> set xs"
  by (cases xs) auto

text \<open>Links of pointers outside a chain, and those that leave its ends, do not matter.\<close>

lemma linked_cong:
  assumes "\<And>p. p \<in> set (butlast ps) \<Longrightarrow> f' p = f p" and "\<And>p. p \<in> set (tl ps) \<Longrightarrow> g' p = g p"
  shows "linked f' g' ps \<longleftrightarrow> linked f g ps"
  using assms
proof (induction ps)
  case (Cons p ps)
  show ?case
  proof (cases ps)
    case (Cons q qs)
    moreover have "linked f' g' (q # qs) \<longleftrightarrow> linked f g (q # qs)"
      using Cons.IH Cons.prems Cons by (auto dest: set_tlD)
    ultimately show ?thesis using Cons.prems by auto
  qed simp
qed simp

lemma linked_insert:
  assumes l: "linked f g (ps @ p # q # qs)" and d: "distinct (ps @ p # q # qs)" and v: "v \<notin> set (ps @ p # q # qs)"
  shows "linked (f(v := q, p := v)) (g(v := p, q := v)) (ps @ p # v # q # qs)"
proof -
  let ?f = "f(v := q, p := v)" and ?g = "g(v := p, q := v)"
  have "linked ?f ?g (ps @ [p]) \<longleftrightarrow> linked f g (ps @ [p])"
    using d v by (intro linked_cong) (auto dest: set_tlD)
  moreover have "linked ?f ?g (q # qs) \<longleftrightarrow> linked f g (q # qs)"
    using d v by (intro linked_cong) (auto split: if_splits dest: in_set_butlastD)
  ultimately show ?thesis
    using l d v by (auto simp: linked_append [of _ _ ps])
qed

lemma linked_take:
  assumes l: "linked f g (ps @ p # v # q # qs)" and d: "distinct (ps @ p # v # q # qs)"
  shows "linked (f(p := q)) (g(q := p)) (ps @ p # q # qs)"
proof -
  have "linked (f(p := q)) (g(q := p)) (ps @ [p]) \<longleftrightarrow> linked f g (ps @ [p])"
    using d by (intro linked_cong) (auto dest: set_tlD)
  moreover have "linked (f(p := q)) (g(q := p)) (q # qs) \<longleftrightarrow> linked f g (q # qs)"
    using d by (intro linked_cong) (auto split: if_splits dest: in_set_butlastD)
  ultimately show ?thesis using l by (auto simp: linked_append [of _ _ ps])
qed

text \<open>Walking along a chain passes its elements.\<close>

lemma walk_linked:
  assumes "linked f g (ps @ [e])" and "distinct (ps @ [e])"
  shows "walk f (hd (ps @ [e])) e = Some ps"
  using assms
proof (induction ps)
  case Nil
  then show ?case by (simp add: walk.simps)
next
  case (Cons p ps)
  then have "f p = hd (ps @ [e])" "linked f g (ps @ [e])" by (cases ps; simp)+
  with Cons show ?case by (subst walk.simps) auto
qed

lemma count_range_linked:
  assumes "linked f g (ps @ [e])" and "distinct (ps @ [e])" and "result < max_count"
  shows "count_range f (hd (ps @ [e])) e max_count result
    = Some (if result + length ps < max_count then (False, result + length ps) else (True, max_count))"
  using assms
proof (induction ps arbitrary: result)
  case Nil
  then show ?case by (simp add: count_range.simps)
next
  case (Cons p ps)
  then have "f p = hd (ps @ [e])" "linked f g (ps @ [e])" by (cases ps; simp)+
  with Cons show ?case by (subst count_range.simps) auto
qed

lemma linked_insert_split:
  assumes l: "linked f g (ps @ qs)" "distinct (ps @ qs)" and ne: "ps \<noteq> []" "qs \<noteq> []"
    and v: "v \<notin> set (ps @ qs)"
  shows "linked (f(v := hd qs, g (hd qs) := v)) (g(v := g (hd qs), hd qs := v)) (ps @ v # qs)"
proof -
  obtain ps' p where p: "ps = ps' @ [p]" using ne(1) by (cases ps rule: rev_cases) auto
  obtain q qs' where q: "qs = q # qs'" using ne(2) by (cases qs) auto
  have l': "linked f g (ps' @ p # q # qs')" using l(1) p q by simp
  moreover from this have "g q = p" by (simp add: linked_append)
  ultimately show ?thesis using linked_insert [OF l', of v] l(2) v p q by simp
qed

lemma linked_take_split:
  assumes l: "linked f g (ps @ v # qs)" "distinct (ps @ v # qs)" and ne: "ps \<noteq> []" "qs \<noteq> []"
  shows "f v = hd qs" "g v = last ps" "linked (f(g v := f v)) (g(f v := g v)) (ps @ qs)"
proof -
  obtain ps' p where p: "ps = ps' @ [p]" using ne(1) by (cases ps rule: rev_cases) auto
  obtain q qs' where q: "qs = q # qs'" using ne(2) by (cases qs) auto
  have l': "linked f g (ps' @ p # v # q # qs')" using l(1) p q by simp
  then have "linked f g (p # v # q # qs')" by (simp add: linked_append)
  then have "f v = q" "g v = p" by simp_all
  then show "f v = hd qs" "g v = last ps" "linked (f(g v := f v)) (g(f v := g v)) (ps @ qs)"
    using linked_take [OF l'] l(2) p q by simp_all
qed

section \<open>The list a store represents\<close>

definition chain :: "nat list \<Rightarrow> nat list \<Rightarrow> ptr list" where
  "chain xs ys = Head # map Node xs @ Separator # map Node ys @ [Tail]"

definition plist :: "'a links_scheme \<Rightarrow> nat list \<Rightarrow> nat list \<Rightarrow> bool" where
  "plist l xs ys \<longleftrightarrow> distinct (xs @ ys) \<and> linked (nxt l) (prv l) (chain xs ys)"

text \<open>The iterator in front of a list of elements.\<close>

definition first_of :: "nat list \<Rightarrow> ptr \<Rightarrow> ptr" where
  "first_of xs e = hd (map Node xs @ [e])"

lemma first_of_simps [simp]: "first_of [] e = e" "first_of (x # xs) e = Node x"
  by (simp_all add: first_of_def)

lemma distinct_chain [simp]: "distinct (chain xs ys) \<longleftrightarrow> distinct (xs @ ys)"
  by (auto simp: chain_def distinct_map inj_on_def)

lemma chain_splits:
  "chain (xs @ ys) zs = (Head # map Node xs) @ (map Node ys @ Separator # map Node zs @ [Tail])"
  "chain xs (ys @ zs) = (Head # map Node xs @ Separator # map Node ys) @ (map Node zs @ [Tail])"
  by (simp_all add: chain_def)

lemma plist_new_rep: "plist (plist_new l) [] []"
  by (simp add: plist_def plist_new_def chain_def)

lemma linked_next:
  assumes "linked f g (ps @ p # qs)" and "qs \<noteq> []"
  shows "f p = hd qs" and "g (hd qs) = p"
  using assms by (cases qs; simp add: linked_append)+

lemma plist_begins:
  assumes "plist l xs ys"
  shows "plist_begin l = first_of xs Separator" "plist_continuation l = first_of ys Tail"
proof -
  have "linked (nxt l) (prv l) ([] @ Head # (map Node xs @ Separator # map Node ys @ [Tail]))"
    and "linked (nxt l) (prv l) ((Head # map Node xs) @ Separator # (map Node ys @ [Tail]))"
    using assms by (simp_all add: plist_def chain_def)
  then have "nxt l Head = hd (map Node xs @ Separator # map Node ys @ [Tail])"
    and "nxt l Separator = hd (map Node ys @ [Tail])"
    using linked_next(1) by fastforce+
  then show "plist_begin l = first_of xs Separator" "plist_continuation l = first_of ys Tail"
    unfolding plist_begin_def plist_continuation_def first_of_def by (cases xs; simp)+
qed

lemma plist_insert_first:
  assumes "plist l (xs @ ys) zs" and "v \<notin> set (xs @ ys @ zs)"
  shows "plist (plist_insert (first_of ys Separator) (Node v) l) (xs @ v # ys) zs"
proof -
  let ?ps = "Head # map Node xs" and ?qs = "map Node ys @ Separator # map Node zs @ [Tail]"
  have hd: "hd ?qs = first_of ys Separator" by (cases ys) simp_all
  have "linked (nxt l) (prv l) (?ps @ ?qs)" "distinct (?ps @ ?qs)" "Node v \<notin> set (?ps @ ?qs)"
    using assms distinct_chain [of "xs @ ys" zs] by (auto simp: plist_def chain_splits)
  from linked_insert_split [OF this(1,2) _ _ this(3)] show ?thesis
    using assms by (simp add: plist_def plist_insert_def Let_def hd chain_def)
qed

lemma plist_insert_second:
  assumes "plist l xs (ys @ zs)" and "v \<notin> set (xs @ ys @ zs)"
  shows "plist (plist_insert (first_of zs Tail) (Node v) l) xs (ys @ v # zs)"
proof -
  let ?ps = "Head # map Node xs @ Separator # map Node ys" and ?qs = "map Node zs @ [Tail]"
  have hd: "hd ?qs = first_of zs Tail" by (cases zs) simp_all
  have "linked (nxt l) (prv l) (?ps @ ?qs)" "distinct (?ps @ ?qs)" "Node v \<notin> set (?ps @ ?qs)"
    using assms distinct_chain [of xs "ys @ zs"] by (auto simp: plist_def chain_splits)
  from linked_insert_split [OF this(1,2) _ _ this(3)] show ?thesis
    using assms by (simp add: plist_def plist_insert_def Let_def hd chain_def)
qed

lemma plist_take_first:
  assumes "plist l (xs @ v # ys) zs"
  shows "\<exists>l'. plist_take (Node v) l = (Node v, l') \<and> plist l' (xs @ ys) zs \<and> deleted l' = deleted l
    \<and> nxt l (Node v) = first_of ys Separator"
proof -
  let ?ps = "Head # map Node xs" and ?qs = "map Node ys @ Separator # map Node zs @ [Tail]"
  have hd: "hd ?qs = first_of ys Separator" by (cases ys) simp_all
  have "linked (nxt l) (prv l) (?ps @ Node v # ?qs)" "distinct (?ps @ Node v # ?qs)"
    using assms distinct_chain [of "xs @ v # ys" zs] by (simp_all add: plist_def chain_splits del: distinct_chain)
  from linked_take_split [OF this] show ?thesis
    using assms by (simp add: plist_def plist_take_def Let_def hd chain_def)
qed

lemma plist_take_second:
  assumes "plist l xs (ys @ v # zs)"
  shows "\<exists>l'. plist_take (Node v) l = (Node v, l') \<and> plist l' xs (ys @ zs) \<and> deleted l' = deleted l
    \<and> nxt l (Node v) = first_of zs Tail"
proof -
  let ?ps = "Head # map Node xs @ Separator # map Node ys" and ?qs = "map Node zs @ [Tail]"
  have hd: "hd ?qs = first_of zs Tail" by (cases zs) simp_all
  have "linked (nxt l) (prv l) (?ps @ Node v # ?qs)" "distinct (?ps @ Node v # ?qs)"
    using assms distinct_chain [of xs "ys @ v # zs"] by (simp_all add: plist_def chain_splits del: distinct_chain)
  from linked_take_split [OF this] show ?thesis
    using assms by (simp add: plist_def plist_take_def Let_def hd chain_def)
qed

lemma plist_empty_rep: "plist l xs ys \<Longrightarrow> plist_empty l \<longleftrightarrow> xs = [] \<and> ys = []"
  using plist_begins [of l xs ys]
  by (cases xs; cases ys) (auto simp: plist_empty_def plist_begin_def plist_continuation_def)

lemma plist_walks:
  assumes "plist l xs ys"
  shows "walk (nxt l) (plist_begin l) plist_separator = Some (map Node xs)"
    "walk (nxt l) (plist_continuation l) plist_end = Some (map Node ys)"
    "linked (nxt l) (prv l) (map Node xs @ [Separator])" "linked (nxt l) (prv l) (map Node ys @ [Tail])"
proof -
  have sub: "linked (nxt l) (prv l) qs" if "linked (nxt l) (prv l) (ps @ qs @ rs)" for ps qs rs
    using that by (simp add: linked_def successively_append_iff)
  show 1: "linked (nxt l) (prv l) (map Node xs @ [Separator])"
    using assms sub [of "[Head]" "map Node xs @ [Separator]" "map Node ys @ [Tail]"] by (simp add: plist_def chain_def)
  show 2: "linked (nxt l) (prv l) (map Node ys @ [Tail])"
    using assms sub [of "Head # map Node xs @ [Separator]" "map Node ys @ [Tail]" "[]"] by (simp add: plist_def chain_def)
  have d: "distinct (map Node xs @ [Separator])" "distinct (map Node ys @ [Tail])"
    using assms by (auto simp: plist_def distinct_map inj_on_def)
  show "walk (nxt l) (plist_begin l) plist_separator = Some (map Node xs)"
    "walk (nxt l) (plist_continuation l) plist_end = Some (map Node ys)"
    using walk_linked [OF 1 d(1)] walk_linked [OF 2 d(2)]
    by (simp_all add: plist_begins [OF assms] first_of_def plist_separator_def plist_end_def)
qed

lemma map_node_of [simp]: "map (node_of \<circ> Node) xs = xs"
  by (induction xs) simp_all

text \<open>\<open>clear\<close> deletes the elements in order and leaves an empty list.\<close>

lemma plist_clear_rep:
  assumes "plist l xs ys"
  shows "\<exists>l'. plist_clear l = Some l' \<and> plist l' [] [] \<and> deleted l' = deleted l @ xs @ ys"
proof -
  have n: "nxt l Head = first_of xs Separator" "nxt l Separator = first_of ys Tail"
    using plist_begins [OF assms] by (simp_all add: plist_begin_def plist_continuation_def)
  have "linked (nxt l) (prv l) (chain xs ys)" using assms by (simp add: plist_def)
  then have "xs = [] \<Longrightarrow> prv l Separator = Head" "ys = [] \<Longrightarrow> prv l Tail = Separator"
    using linked_next(2) [of "nxt l" "prv l" "Head # map Node xs" Separator "[Tail]"]
    by (auto simp: chain_def)
  with n show ?thesis
    using plist_walks(1,2) [OF assms]
    by (cases xs; cases ys) (simp_all add: plist_clear_def plist_def chain_def Let_def)
qed

lemma plist_count_rep:
  assumes "plist l xs ys" and "0 < max_count"
  shows "plist_count max_count l = Some (min max_count (length xs + length ys))"
proof -
  have d: "distinct (map Node xs @ [Separator])" "distinct (map Node ys @ [Tail])"
    using assms(1) by (auto simp: plist_def distinct_map inj_on_def)
  have "count_range (nxt l) (plist_begin l) plist_separator max_count 0
      = Some (if length xs < max_count then (False, length xs) else (True, max_count))"
    using count_range_linked [OF plist_walks(3) [OF assms(1)] d(1) assms(2)]
    by (simp add: plist_begins [OF assms(1)] first_of_def plist_separator_def)
  moreover have "length xs < max_count \<Longrightarrow>
      count_range (nxt l) (plist_continuation l) plist_end max_count (length xs)
      = Some (if length xs + length ys < max_count then (False, length xs + length ys) else (True, max_count))"
    using count_range_linked [OF plist_walks(4) [OF assms(1)] d(2)]
    by (simp add: plist_begins [OF assms(1)] first_of_def plist_end_def)
  ultimately show ?thesis by (auto simp: plist_count_def)
qed

text \<open>A limit of 0 is none: the counter is incremented before it is compared.\<close>

lemma count_range_0:
  assumes "linked f g (ps @ [e])" and "distinct (ps @ [e])"
  shows "count_range f (hd (ps @ [e])) e 0 result = Some (False, result + length ps)"
  using assms
proof (induction ps arbitrary: result)
  case Nil
  then show ?case by (simp add: count_range.simps)
next
  case (Cons p ps)
  then have "f p = hd (ps @ [e])" "linked f g (ps @ [e])" by (cases ps; simp)+
  with Cons show ?case by (subst count_range.simps) auto
qed

end
