(* ===== verification/Mailbox.thy ===== *)
theory Mailbox
  imports PartitionedList MessageId "HOL-Library.Monad_Syntax"
begin

text \<open>
  The mailbox of an actor: the single reader queue
  (libcaf_core/caf/detail/single_reader_queue.hpp), a stack of enqueued elements which the owner turns
  around into the list it reads from, with the partitioned list of \<open>PartitionedList\<close> as a cache. This
  theory has the operations as one thread runs them; \<open>MailboxConcurrent\<close> interleaves them.
\<close>

section \<open>State\<close>

record mailbox = links +
  mstack :: ptr                    \<comment> \<open>\<open>stack_\<close>, shared with the writers\<close>
  mhead :: ptr                     \<comment> \<open>\<open>head_\<close>, the owner's\<close>
  mid_of :: "nat \<Rightarrow> message_id"     \<comment> \<open>the \<open>mid\<close> of each element\<close>

datatype enqueue_result = Success | Unblocked_reader | Queue_closed

definition is_dummy :: "ptr \<Rightarrow> bool" where
  "is_dummy p \<longleftrightarrow> p = Stack_empty_dummy \<or> p = Reader_blocked_dummy"

definition mailbox_new :: "mailbox \<Rightarrow> mailbox" where
  "mailbox_new q = (plist_new q)\<lparr>mhead := Null, mstack := Stack_empty_dummy\<rparr>"

text \<open>\<open>compare_exchange_strong\<close>: did it succeed, the value it has seen, the new state.\<close>

definition cas :: "ptr \<Rightarrow> ptr \<Rightarrow> mailbox \<Rightarrow> bool \<times> ptr \<times> mailbox" where
  "cas expected desired q =
     (if mstack q = expected then (True, expected, q\<lparr>mstack := desired\<rparr>) else (False, mstack q, q))"

section \<open>Writers\<close>

definition delete_element :: "nat \<Rightarrow> mailbox \<Rightarrow> mailbox" where
  "delete_element n q = q\<lparr>deleted := deleted q @ [n]\<rparr>"

definition link_element :: "nat \<Rightarrow> ptr \<Rightarrow> mailbox \<Rightarrow> mailbox" where
  "link_element n e q = q\<lparr>nxt := (nxt q)(Node n := if is_dummy e then Null else e)\<rparr>"

partial_function (option) enqueue_loop :: "ptr \<Rightarrow> nat \<Rightarrow> mailbox \<Rightarrow> (enqueue_result \<times> mailbox) option" where
  [code]: "enqueue_loop e n q =
     (if e = Null then Some (Queue_closed, delete_element n q)
      else case cas e (Node n) (link_element n e q) of (ok, e', q') \<Rightarrow>
        if ok then Some (if e' = Reader_blocked_dummy then Unblocked_reader else Success, q')
        else enqueue_loop e' n q')"

definition enqueue :: "nat \<Rightarrow> mailbox \<Rightarrow> (enqueue_result \<times> mailbox) option" where
  "enqueue n q = enqueue_loop (mstack q) n q"

text \<open>\<open>synchronized_enqueue\<close>: was the element accepted, and is a waiting reader notified.\<close>

definition synchronized_enqueue :: "nat \<Rightarrow> mailbox \<Rightarrow> (bool \<times> bool \<times> mailbox) option" where
  "synchronized_enqueue n q =
     Option.bind (enqueue n q) (\<lambda>(r, q').
       Some (case r of Unblocked_reader \<Rightarrow> (True, True, q') | Success \<Rightarrow> (True, False, q')
             | Queue_closed \<Rightarrow> (False, False, q')))"

section \<open>The owner\<close>

definition mclosed :: "mailbox \<Rightarrow> bool" where "mclosed q \<longleftrightarrow> mstack q = Null"

definition mblocked :: "mailbox \<Rightarrow> bool" where "mblocked q \<longleftrightarrow> mstack q = Reader_blocked_dummy"

definition can_fetch_more :: "mailbox \<Rightarrow> bool" where
  "can_fetch_more q \<longleftrightarrow> mhead q \<noteq> Null \<or> \<not> is_dummy (mstack q)"

definition mempty :: "mailbox \<Rightarrow> bool" where
  "mempty q \<longleftrightarrow> plist_empty q \<and> mhead q = Null \<and> is_dummy (mstack q)"

definition try_block :: "mailbox \<Rightarrow> bool \<times> mailbox" where
  "try_block q = (case cas Stack_empty_dummy Reader_blocked_dummy q of (ok, e, q') \<Rightarrow> (ok, q'))"

definition try_unblock :: "mailbox \<Rightarrow> bool \<times> mailbox" where
  "try_unblock q = (case cas Reader_blocked_dummy Stack_empty_dummy q of (ok, e, q') \<Rightarrow> (ok, q'))"

text \<open>The loops of \<open>fetch_new_data\<close>: taking the stack, and moving its elements to the list one by one.\<close>

definition move_element :: "ptr \<Rightarrow> mailbox \<Rightarrow> ptr \<times> mailbox" where
  "move_element e q = (nxt q e, q\<lparr>nxt := (nxt q)(e := mhead q), mhead := e\<rparr>)"

partial_function (option) move_elements :: "ptr \<Rightarrow> mailbox \<Rightarrow> mailbox option" where
  [code]: "move_elements e q =
     (if e = Null then Some q else case move_element e q of (e', q') \<Rightarrow> move_elements e' q')"

partial_function (option) fetch_loop :: "ptr \<Rightarrow> ptr \<Rightarrow> mailbox \<Rightarrow> (bool \<times> mailbox) option" where
  [code]: "fetch_loop e end_ptr q =
     (if e = end_ptr then Some (False, q)
      else case cas e end_ptr q of (ok, e', q') \<Rightarrow>
        if ok then
          (if is_dummy e' then Some (False, q')
           else Option.bind (move_elements e' q') (\<lambda>q'. Some (True, q')))
        else fetch_loop e' end_ptr q')"

definition fetch_new_data :: "ptr \<Rightarrow> mailbox \<Rightarrow> (bool \<times> mailbox) option" where
  "fetch_new_data end_ptr q = fetch_loop (mstack q) end_ptr q"

definition take_head :: "mailbox \<Rightarrow> (ptr \<times> mailbox) option" where
  "take_head q =
     Option.bind (if mhead q \<noteq> Null then Some (True, q) else fetch_new_data Stack_empty_dummy q)
       (\<lambda>(ok, q). Some (if ok then (mhead q, q\<lparr>mhead := nxt q (mhead q)\<rparr>) else (Null, q)))"

definition try_pop :: "mailbox \<Rightarrow> (ptr \<times> mailbox) option" where
  "try_pop q = take_head q"

text \<open>Elements are handed to \<open>f\<close> and then deleted; \<^const>\<open>deleted\<close> has them in that order.\<close>

partial_function (option) clear_cached_elements :: "mailbox \<Rightarrow> mailbox option" where
  [code]: "clear_cached_elements q =
     (if mhead q = Null then Some q
      else clear_cached_elements ((delete_element (node_of (mhead q)) q)\<lparr>mhead := nxt q (mhead q)\<rparr>))"

definition mclose :: "mailbox \<Rightarrow> mailbox option" where
  "mclose q =
     Option.bind (clear_cached_elements q) (\<lambda>q.
     Option.bind (if mblocked q then Some (False, q) else fetch_new_data Null q) (\<lambda>(ok, q).
     Option.bind (if ok then clear_cached_elements q else Some q) plist_clear))"

definition mailbox_destroy :: "mailbox \<Rightarrow> mailbox option" where
  "mailbox_destroy q = (if mclosed q then Some q else mclose q)"

partial_function (option) count_list :: "(ptr \<Rightarrow> ptr) \<Rightarrow> ptr \<Rightarrow> nat \<Rightarrow> nat \<Rightarrow> nat option" where
  [code]: "count_list f p res max_count =
     (if p \<noteq> Null \<and> res < max_count then count_list f (f p) (res + 1) max_count else Some res)"

definition mcount :: "nat \<Rightarrow> mailbox \<Rightarrow> (nat \<times> mailbox) option" where
  "mcount max_count q =
     Option.bind (plist_count max_count q) (\<lambda>res.
       if max_count \<le> res then Some (res, q)
       else Option.bind (fetch_new_data Stack_empty_dummy q) (\<lambda>(_, q).
              Option.bind (count_list (nxt q) (mhead q) res max_count) (\<lambda>res. Some (res, q))))"

section \<open>The messages of an actor\<close>

definition elem_high_priority :: "mailbox \<Rightarrow> ptr \<Rightarrow> bool" where
  "elem_high_priority q p \<longleftrightarrow> is_high_priority (mid_of q (node_of p))"

text \<open>\<open>next_message\<close> of a priority aware actor sorts what the queue holds into the cache.\<close>

partial_function (option) sort_messages :: "ptr \<Rightarrow> ptr \<Rightarrow> ptr \<Rightarrow> mailbox \<Rightarrow> mailbox option" where
  [code]: "sort_messages hp_pos e tmp q =
     (if tmp = Null then Some q
      else let q = plist_insert (if elem_high_priority q tmp then hp_pos else e) tmp q;
               hp_pos = (if hp_pos = e \<and> \<not> elem_high_priority q tmp then prv q hp_pos else hp_pos)
           in Option.bind (try_pop q) (\<lambda>(tmp, q). sort_messages hp_pos e tmp q))"

definition next_message :: "bool \<Rightarrow> mailbox \<Rightarrow> (ptr \<times> mailbox) option" where
  "next_message priority_aware q =
     (if \<not> priority_aware then try_pop q
      else let i = plist_begin q; e = plist_separator
           in Option.bind
                (if i = e \<or> \<not> elem_high_priority q i
                 then Option.bind (try_pop q) (\<lambda>(tmp, q). sort_messages i e tmp q) else Some q)
                (\<lambda>q. let i = plist_begin q in Some (if i \<noteq> e then plist_take i q else (Null, q))))"

definition has_next_message :: "bool \<Rightarrow> mailbox \<Rightarrow> bool" where
  "has_next_message priority_aware q \<longleftrightarrow>
     (if \<not> priority_aware then can_fetch_more q
      else plist_begin q \<noteq> plist_separator \<or> can_fetch_more q)"

text \<open>\<open>std::partition_point\<close> on a range whose high priority elements come first.\<close>

partial_function (option) partition_point :: "(ptr \<Rightarrow> ptr) \<Rightarrow> (ptr \<Rightarrow> bool) \<Rightarrow> ptr \<Rightarrow> ptr \<Rightarrow> ptr option" where
  [code]: "partition_point f P i e =
     (if i = e \<or> \<not> P i then Some i else partition_point f P (f i) e)"

definition push_to_cache :: "bool \<Rightarrow> ptr \<Rightarrow> mailbox \<Rightarrow> mailbox option" where
  "push_to_cache priority_aware p q =
     (if \<not> priority_aware \<or> \<not> elem_high_priority q p then Some (plist_insert plist_end p q)
      else Option.bind (partition_point (nxt q) (elem_high_priority q) (plist_continuation q) plist_end)
             (\<lambda>pos. Some (plist_insert pos p q)))"

section \<open>The lists a mailbox holds\<close>

fun list_at :: "(ptr \<Rightarrow> ptr) \<Rightarrow> ptr \<Rightarrow> nat list \<Rightarrow> bool" where
  "list_at f p [] \<longleftrightarrow> p = Null"
| "list_at f p (x # xs) \<longleftrightarrow> p = Node x \<and> list_at f (f p) xs"

definition stack_at :: "(ptr \<Rightarrow> ptr) \<Rightarrow> ptr \<Rightarrow> nat list \<Rightarrow> bool" where
  "stack_at f s xs \<longleftrightarrow> (if is_dummy s \<or> s = Null then xs = [] else list_at f s xs)"

definition mailbox_rep :: "mailbox \<Rightarrow> nat list \<Rightarrow> nat list \<Rightarrow> nat list \<Rightarrow> nat list \<Rightarrow> bool" where
  "mailbox_rep q hs ss as bs \<longleftrightarrow> list_at (nxt q) (mhead q) hs \<and> stack_at (nxt q) (mstack q) ss
     \<and> plist q as bs \<and> distinct (hs @ ss @ as @ bs)"

text \<open>What is left to read, oldest first.\<close>

definition holds :: "mailbox \<Rightarrow> nat list \<Rightarrow> nat list \<Rightarrow> nat list \<Rightarrow> bool" where
  "holds q ps as bs \<longleftrightarrow> (\<exists>hs ss. mailbox_rep q hs ss as bs \<and> ps = hs @ rev ss)
     \<and> mstack q \<noteq> Null \<and> mstack q \<noteq> Reader_blocked_dummy"

lemma is_dummy_simps [simp]:
  "is_dummy Stack_empty_dummy" "is_dummy Reader_blocked_dummy" "\<not> is_dummy Null" "\<not> is_dummy (Node n)"
  by (simp_all add: is_dummy_def)

lemma list_at_Null [simp]: "list_at f Null xs \<longleftrightarrow> xs = []" by (cases xs) auto

lemma list_at_Node: "list_at f (Node n) xs \<longleftrightarrow> (\<exists>ys. xs = n # ys \<and> list_at f (f (Node n)) ys)"
  by (cases xs) auto

lemma list_at_nonempty: "list_at f p xs \<Longrightarrow> p \<noteq> Null \<Longrightarrow> xs \<noteq> []" by auto

lemma list_at_dummy [simp]: "is_dummy p \<Longrightarrow> \<not> list_at f p xs" by (cases xs) auto

lemma list_at_cong:
  assumes "\<And>x. x \<in> set xs \<Longrightarrow> f' (Node x) = f (Node x)"
  shows "list_at f' p xs \<longleftrightarrow> list_at f p xs"
  using assms by (induction xs arbitrary: p) auto

lemma stack_at_cong:
  "(\<And>x. x \<in> set xs \<Longrightarrow> f' (Node x) = f (Node x)) \<Longrightarrow> stack_at f' s xs \<longleftrightarrow> stack_at f s xs"
  using list_at_cong [of xs f' f s] by (simp add: stack_at_def)

lemma list_at_upd [simp]: "n \<notin> set xs \<Longrightarrow> list_at (f(Node n := p)) s xs \<longleftrightarrow> list_at f s xs"
  by (rule list_at_cong) auto

lemma stack_at_upd [simp]: "n \<notin> set xs \<Longrightarrow> stack_at (f(Node n := p)) s xs \<longleftrightarrow> stack_at f s xs"
  by (rule stack_at_cong) auto

lemma stack_at_simps [simp]:
  "stack_at f Null xs \<longleftrightarrow> xs = []" "stack_at f Stack_empty_dummy xs \<longleftrightarrow> xs = []"
  "stack_at f Reader_blocked_dummy xs \<longleftrightarrow> xs = []" "stack_at f (Node n) xs \<longleftrightarrow> list_at f (Node n) xs"
  by (simp_all add: stack_at_def)

text \<open>Elements outside the cache do not matter to it.\<close>

lemma plist_cong:
  assumes "\<And>p. p \<in> set (chain xs ys) \<Longrightarrow> nxt l' p = nxt l p" and "\<And>p. p \<in> set (chain xs ys) \<Longrightarrow> prv l' p = prv l p"
  shows "plist l' xs ys \<longleftrightarrow> plist l xs ys"
  using linked_cong [of "chain xs ys" "nxt l'" "nxt l" "prv l'" "prv l"] assms
  by (auto simp: plist_def dest: in_set_butlastD set_tlD)

lemma plist_upd_links [simp]:
  "plist (q\<lparr>mstack := s\<rparr>) as bs = plist q as bs" "plist (q\<lparr>mhead := h\<rparr>) as bs = plist q as bs"
  "plist (q\<lparr>deleted := d\<rparr>) as bs = plist q as bs"
  by (simp_all add: plist_def)

lemma plist_upd_node:
  "n \<notin> set (as @ bs) \<Longrightarrow> plist (q\<lparr>nxt := (nxt q)(Node n := p)\<rparr>) as bs \<longleftrightarrow> plist q as bs"
  by (rule plist_cong) (auto simp: chain_def)

section \<open>The operations of the queue\<close>

lemma mailbox_new_rep: "mailbox_rep (mailbox_new q) [] [] [] []" "holds (mailbox_new q) [] [] []"
  using plist_new_rep [of q] by (auto simp: holds_def mailbox_rep_def mailbox_new_def)

text \<open>Without interference the exchange succeeds at the first attempt.\<close>

lemma enqueue_eq:
  "enqueue n q = Some
     (if mstack q = Null then (Queue_closed, delete_element n q)
      else (if mstack q = Reader_blocked_dummy then Unblocked_reader else Success,
            (link_element n (mstack q) q)\<lparr>mstack := Node n\<rparr>))"
  unfolding enqueue_def by (subst enqueue_loop.simps) (auto simp: cas_def link_element_def)

lemma mailbox_rep_link:
  assumes "mailbox_rep q hs ss as bs" and "n \<notin> set (hs @ ss @ as @ bs)"
  shows "mailbox_rep (link_element n e q) hs ss as bs"
  using assms by (simp add: mailbox_rep_def link_element_def plist_upd_node)

lemma mailbox_rep_push:
  assumes "mailbox_rep q hs ss as bs" and "n \<notin> set (hs @ ss @ as @ bs)" and "mstack q \<noteq> Null"
    and "nxt q (Node n) = (if is_dummy (mstack q) then Null else mstack q)"
  shows "mailbox_rep (q\<lparr>mstack := Node n\<rparr>) hs (n # ss) as bs"
  using assms by (auto simp: mailbox_rep_def stack_at_def)

lemma link_element_simps [simp]:
  "mstack (link_element n e q) = mstack q" "mhead (link_element n e q) = mhead q"
  "deleted (link_element n e q) = deleted q" "mid_of (link_element n e q) = mid_of q"
  "nxt (link_element n e q) (Node n) = (if is_dummy e then Null else e)"
  by (simp_all add: link_element_def)

lemma enqueue_rep:
  assumes "mailbox_rep q hs ss as bs" and "n \<notin> set (hs @ ss @ as @ bs)" and "mstack q \<noteq> Null"
  shows "\<exists>q'. enqueue n q = Some (if mblocked q then Unblocked_reader else Success, q')
    \<and> mailbox_rep q' hs (n # ss) as bs \<and> mid_of q' = mid_of q \<and> deleted q' = deleted q \<and> mstack q' = Node n"
  using mailbox_rep_push [OF mailbox_rep_link [OF assms(1,2)] assms(2)] assms(3)
  by (simp add: enqueue_eq mblocked_def)

lemma enqueue_holds:
  assumes "holds q ps as bs" and "n \<notin> set (ps @ as @ bs)"
  shows "\<exists>q'. enqueue n q = Some (Success, q') \<and> holds q' (ps @ [n]) as bs \<and> mid_of q' = mid_of q
    \<and> deleted q' = deleted q"
proof -
  obtain hs ss where r: "mailbox_rep q hs ss as bs" and ps: "ps = hs @ rev ss" and s: "mstack q \<noteq> Null"
      "mstack q \<noteq> Reader_blocked_dummy"
    using assms by (auto simp: holds_def)
  obtain q' where q': "enqueue n q = Some (Success, q')" "mailbox_rep q' hs (n # ss) as bs"
      "mid_of q' = mid_of q" "deleted q' = deleted q" "mstack q' = Node n"
    using enqueue_rep [OF r _ s(1), of n] assms(2) ps s(2) by (auto simp: mblocked_def)
  then have "holds q' (ps @ [n]) as bs"
    unfolding holds_def ps by (intro conjI exI [of _ hs] exI [of _ "n # ss"]) auto
  with q' show ?thesis by blast
qed

text \<open>Moving the elements of the stack to the front of the list turns them around.\<close>

lemma move_elements_eq:
  assumes "list_at (nxt q) e ss" and "list_at (nxt q) (mhead q) hs" and "distinct (ss @ hs)"
  shows "\<exists>q'. move_elements e q = Some q' \<and> list_at (nxt q') (mhead q') (rev ss @ hs)
    \<and> (\<forall>p. p \<notin> Node ` set ss \<longrightarrow> nxt q' p = nxt q p) \<and> prv q' = prv q \<and> mstack q' = mstack q
    \<and> deleted q' = deleted q \<and> mid_of q' = mid_of q"
  using assms
proof (induction ss arbitrary: e q hs)
  case Nil
  then show ?case by (simp add: move_elements.simps)
next
  case (Cons s ss)
  let ?q = "q\<lparr>nxt := (nxt q)(Node s := mhead q), mhead := Node s\<rparr>"
  have e: "e = Node s" using Cons.prems by simp
  have "list_at (nxt ?q) (nxt q (Node s)) ss" "list_at (nxt ?q) (mhead q) hs"
    using Cons.prems by (auto intro: list_at_cong [THEN iffD2])
  then have "list_at (nxt ?q) (mhead ?q) (s # hs)" by simp
  with Cons.IH [OF \<open>list_at (nxt ?q) (nxt q (Node s)) ss\<close> this] Cons.prems
  obtain q' where q': "move_elements (nxt q (Node s)) ?q = Some q'" "list_at (nxt q') (mhead q') (rev ss @ s # hs)"
      "\<forall>p. p \<notin> Node ` set ss \<longrightarrow> nxt q' p = nxt ?q p" "prv q' = prv q" "mstack q' = mstack q"
      "deleted q' = deleted q" "mid_of q' = mid_of q"
    by auto
  have "move_elements e q = Some q'" using q'(1) e by (subst move_elements.simps) (simp add: move_element_def)
  with q' show ?case by auto
qed

text \<open>What fetching does: the elements of the stack come in front of those in the list.\<close>

lemma fetch_rep:
  assumes r: "mailbox_rep q hs ss as bs" and s: "ss \<noteq> []" and e: "end_ptr = Null \<or> end_ptr = Stack_empty_dummy"
  shows "\<exists>q'. fetch_new_data end_ptr q = Some (True, q') \<and> mailbox_rep q' (rev ss @ hs) [] as bs
    \<and> mstack q' = end_ptr \<and> mid_of q' = mid_of q \<and> deleted q' = deleted q"
proof -
  have nd: "\<not> is_dummy (mstack q)" "mstack q \<noteq> Null" using r s by (auto simp: mailbox_rep_def stack_at_def split: if_splits)
  let ?q = "q\<lparr>mstack := end_ptr\<rparr>"
  have "list_at (nxt ?q) (mstack q) ss" "list_at (nxt ?q) (mhead ?q) hs" "distinct (ss @ hs)"
    using r nd by (auto simp: mailbox_rep_def stack_at_def)
  from move_elements_eq [OF this] obtain q' where q': "move_elements (mstack q) ?q = Some q'"
      "list_at (nxt q') (mhead q') (rev ss @ hs)" "\<forall>p. p \<notin> Node ` set ss \<longrightarrow> nxt q' p = nxt q p"
      "prv q' = prv q" "mstack q' = end_ptr" "deleted q' = deleted q" "mid_of q' = mid_of q"
    by auto
  have "fetch_new_data end_ptr q = Some (True, q')"
    using nd q'(1) e unfolding fetch_new_data_def by (subst fetch_loop.simps) (auto simp: cas_def)
  moreover have "Node n \<notin> Node ` set ss" if "n \<in> set (as @ bs)" for n
    using that r by (auto simp: mailbox_rep_def)
  then have "plist q' as bs \<longleftrightarrow> plist q as bs"
    using q'(3,4) by (intro plist_cong) (auto simp: chain_def)
  ultimately show ?thesis
    using q' r e by (auto simp: mailbox_rep_def)
qed

lemma fetch_empty: "mstack q = Stack_empty_dummy \<Longrightarrow> fetch_new_data Stack_empty_dummy q = Some (False, q)"
  unfolding fetch_new_data_def by (subst fetch_loop.simps) simp

text \<open>Popping takes the oldest element.\<close>

lemma take_first:
  assumes "mailbox_rep q (h # hs) ss as bs" and "mstack q \<noteq> Null" and "mstack q \<noteq> Reader_blocked_dummy"
  shows "holds (q\<lparr>mhead := nxt q (mhead q)\<rparr>) (hs @ rev ss) as bs" "mhead q = Node h"
proof -
  show "mhead q = Node h" using assms(1) by (simp add: mailbox_rep_def)
  have "mailbox_rep (q\<lparr>mhead := nxt q (mhead q)\<rparr>) hs ss as bs" using assms(1) by (auto simp: mailbox_rep_def)
  with assms(2,3) show "holds (q\<lparr>mhead := nxt q (mhead q)\<rparr>) (hs @ rev ss) as bs" by (auto simp: holds_def)
qed

lemma try_pop_holds:
  assumes "holds q ps as bs"
  shows "ps = [] \<Longrightarrow> try_pop q = Some (Null, q)"
    and "ps \<noteq> [] \<Longrightarrow> \<exists>q'. try_pop q = Some (Node (hd ps), q') \<and> holds q' (tl ps) as bs \<and> mid_of q' = mid_of q
      \<and> deleted q' = deleted q"
proof -
  obtain hs ss where r: "mailbox_rep q hs ss as bs" and ps: "ps = hs @ rev ss" and s: "mstack q \<noteq> Null"
      "mstack q \<noteq> Reader_blocked_dummy"
    using assms by (auto simp: holds_def)
  have emp: "mstack q = Stack_empty_dummy" if "ss = []"
    using r s that by (auto simp: mailbox_rep_def stack_at_def is_dummy_def split: if_splits)
  show "try_pop q = Some (Null, q)" if "ps = []"
    using that ps emp r fetch_empty [of q] by (simp add: try_pop_def take_head_def mailbox_rep_def)
  assume ne: "ps \<noteq> []"
  show "\<exists>q'. try_pop q = Some (Node (hd ps), q') \<and> holds q' (tl ps) as bs \<and> mid_of q' = mid_of q \<and> deleted q' = deleted q"
  proof (cases hs)
    case (Cons h hs')
    with r have "mhead q = Node h" by (simp add: mailbox_rep_def)
    then show ?thesis using take_first [of q h hs' ss as bs] r s Cons ps by (simp add: try_pop_def take_head_def)
  next
    case Nil
    then have ss: "ss \<noteq> []" using ps ne by simp
    obtain q1 where q1: "fetch_new_data Stack_empty_dummy q = Some (True, q1)" "mailbox_rep q1 (rev ss @ hs) [] as bs"
        "mstack q1 = Stack_empty_dummy" "mid_of q1 = mid_of q" "deleted q1 = deleted q"
      using fetch_rep [OF r ss, of Stack_empty_dummy] by auto
    obtain h hs' where h: "ps = h # hs'" using ne by (cases ps) auto
    have "mailbox_rep q1 (h # hs') [] as bs" "mhead q = Null"
      using q1(2) h ps Nil r by (simp, simp add: mailbox_rep_def)
    with take_first [of q1 h hs' "[]" as bs] q1(3)
    have "holds (q1\<lparr>mhead := nxt q1 (Node h)\<rparr>) hs' as bs" "mhead q1 = Node h" by auto
    then show ?thesis
      using \<open>mhead q = Null\<close> q1(1,4,5) h by (simp add: try_pop_def take_head_def)
  qed
qed

lemma can_fetch_more_holds: "holds q ps as bs \<Longrightarrow> can_fetch_more q \<longleftrightarrow> ps \<noteq> []"
  by (auto simp: holds_def mailbox_rep_def can_fetch_more_def stack_at_def is_dummy_def split: if_splits dest: list_at_nonempty)

lemma mempty_holds: "holds q ps as bs \<Longrightarrow> mempty q \<longleftrightarrow> ps = [] \<and> as = [] \<and> bs = []"
  using can_fetch_more_holds [of q ps as bs] plist_empty_rep [of q as bs]
  by (auto simp: mempty_def can_fetch_more_def holds_def mailbox_rep_def)

text \<open>Blocking succeeds exactly when nothing is on the stack.\<close>

lemma try_block_eq:
  "try_block q = (if mstack q = Stack_empty_dummy then (True, q\<lparr>mstack := Reader_blocked_dummy\<rparr>) else (False, q))"
  "try_unblock q = (if mblocked q then (True, q\<lparr>mstack := Stack_empty_dummy\<rparr>) else (False, q))"
  by (simp_all add: try_block_def try_unblock_def cas_def mblocked_def)

section \<open>Closing and counting\<close>

lemma clear_cached_elements_eq:
  "list_at (nxt q) (mhead q) hs \<Longrightarrow>
   clear_cached_elements q = Some (q\<lparr>deleted := deleted q @ hs, mhead := Null\<rparr>)"
proof (induction hs arbitrary: q)
  case Nil
  then show ?case by (subst clear_cached_elements.simps) (cases q, simp)
next
  case (Cons h hs)
  then have h: "mhead q = Node h" "list_at (nxt q) (nxt q (Node h)) hs" by auto
  then show ?case
    using Cons.IH [of "q\<lparr>deleted := deleted q @ [h], mhead := nxt q (Node h)\<rparr>"]
    by (subst clear_cached_elements.simps) (simp add: delete_element_def)
qed

lemma plist_clear_mailbox:
  assumes "plist q as bs"
  shows "\<exists>q'. plist_clear q = Some q' \<and> plist q' [] [] \<and> deleted q' = deleted q @ as @ bs \<and> mstack q' = mstack q
    \<and> mhead q' = mhead q \<and> mid_of q' = mid_of q"
proof -
  obtain q' where q': "plist_clear q = Some q'" "plist q' [] []" "deleted q' = deleted q @ as @ bs"
    using plist_clear_rep [OF assms] by blast
  from q'(1) have "mstack q' = mstack q \<and> mhead q' = mhead q \<and> mid_of q' = mid_of q"
    by (auto simp: plist_clear_def Let_def split: bind_splits)
  with q' show ?thesis by blast
qed

lemma fetch_closing:
  "ss = [] \<Longrightarrow> stack_at f (mstack q) ss \<Longrightarrow> \<not> mblocked q \<Longrightarrow>
   fetch_new_data Null q = Some (False, q\<lparr>mstack := Null\<rparr>)"
  unfolding fetch_new_data_def
  by (subst fetch_loop.simps) (auto simp: cas_def mblocked_def stack_at_def is_dummy_def split: if_splits)

text \<open>Closing deletes everything, oldest first, and closes the queue unless its reader is blocked.\<close>

lemma mclose_rep:
  assumes r: "mailbox_rep q hs ss as bs"
  shows "\<exists>q'. mclose q = Some q' \<and> mailbox_rep q' [] [] [] []
    \<and> mstack q' = (if mblocked q then Reader_blocked_dummy else Null)
    \<and> deleted q' = deleted q @ hs @ rev ss @ as @ bs"
proof -
  let ?q = "q\<lparr>deleted := deleted q @ hs, mhead := Null\<rparr>"
  have c: "clear_cached_elements q = Some ?q" using r clear_cached_elements_eq by (simp add: mailbox_rep_def)
  have r1: "mailbox_rep ?q [] ss as bs" using r by (simp add: mailbox_rep_def)
  have bl: "mblocked ?q = mblocked q" by (simp add: mblocked_def)
  have tail: "\<exists>q'. plist_clear q2 = Some q' \<and> mailbox_rep q' [] [] [] [] \<and> mstack q' = mstack q2
      \<and> deleted q' = deleted q2 @ as @ bs"
    if "mailbox_rep q2 [] [] as bs" for q2
    using plist_clear_mailbox [of q2 as bs] that by (force simp: mailbox_rep_def stack_at_def)
  show ?thesis
  proof (cases "mblocked q")
    case True
    then have "ss = []" using r by (simp add: mailbox_rep_def mblocked_def)
    with True show ?thesis using tail [of ?q] r1 by (force simp: mclose_def c bl mblocked_def)
  next
    case nb: False
    show ?thesis
    proof (cases "ss = []")
      case True
      then have f: "fetch_new_data Null ?q = Some (False, ?q\<lparr>mstack := Null\<rparr>)"
        using r1 nb bl by (intro fetch_closing [of ss "nxt q"]) (auto simp: mailbox_rep_def)
      have "mailbox_rep (?q\<lparr>mstack := Null\<rparr>) [] [] as bs" using r1 True by (simp add: mailbox_rep_def)
      from tail [OF this] nb True show ?thesis by (auto simp: mclose_def c bl f)
    next
      case False
      obtain q2 where q2: "fetch_new_data Null ?q = Some (True, q2)" "mailbox_rep q2 (rev ss) [] as bs"
          "mstack q2 = Null" "deleted q2 = deleted q @ hs"
        using fetch_rep [OF r1 False, of Null] by auto
      let ?q3 = "q2\<lparr>deleted := deleted q2 @ rev ss, mhead := Null\<rparr>"
      have "clear_cached_elements q2 = Some ?q3" "mailbox_rep ?q3 [] [] as bs"
        using q2(2) clear_cached_elements_eq [of q2 "rev ss"] by (simp_all add: mailbox_rep_def)
      with tail [of ?q3] nb q2 show ?thesis by (force simp: mclose_def c bl)
    qed
  qed
qed

text \<open>A closed queue deletes what it is given.\<close>

lemma enqueue_closed: "mclosed q \<Longrightarrow> enqueue n q = Some (Queue_closed, delete_element n q)"
  by (simp add: enqueue_eq mclosed_def)

lemma count_list_eq:
  "list_at f p xs \<Longrightarrow> res \<le> max_count \<Longrightarrow> count_list f p res max_count = Some (min max_count (res + length xs))"
proof (induction xs arbitrary: p res)
  case Nil
  then show ?case by (subst count_list.simps) simp
next
  case (Cons x xs)
  then show ?case
    by (subst count_list.simps) (auto simp: Cons.IH [of "f p" "res + 1"])
qed

text \<open>Counting fetches, also when there are elements left to read: the later ones come in front.\<close>

lemma mcount_rep:
  assumes r: "mailbox_rep q hs ss as bs" and m: "length as + length bs < max_count" and s: "ss \<noteq> []"
  shows "\<exists>q'. mcount max_count q = Some (min max_count (length (as @ bs @ hs @ ss)), q')
    \<and> mailbox_rep q' (rev ss @ hs) [] as bs \<and> mstack q' = Stack_empty_dummy \<and> mid_of q' = mid_of q"
proof -
  obtain q' where q': "fetch_new_data Stack_empty_dummy q = Some (True, q')" "mailbox_rep q' (rev ss @ hs) [] as bs"
      "mstack q' = Stack_empty_dummy" "mid_of q' = mid_of q"
    using fetch_rep [OF r s, of Stack_empty_dummy] by auto
  have c: "plist_count max_count q = Some (length as + length bs)"
    using plist_count_rep [of q as bs max_count] r m by (simp add: mailbox_rep_def)
  have "list_at (nxt q') (mhead q') (rev ss @ hs)" using q'(2) by (simp add: mailbox_rep_def)
  from count_list_eq [OF this, of "length as + length bs" max_count] m
  show ?thesis using q' c by (simp add: mcount_def ac_simps)
qed

section \<open>The cache of a mailbox\<close>

lemma plist_mailbox_simps [simp]:
  "mstack (plist_insert p v q) = mstack q" "mhead (plist_insert p v q) = mhead q"
  "mid_of (plist_insert p v q) = mid_of q" "deleted (plist_insert p v q) = deleted q"
  "plist_take p q = (r, q') \<Longrightarrow> mstack q' = mstack q" "plist_take p q = (r, q') \<Longrightarrow> mhead q' = mhead q"
  "plist_take p q = (r, q') \<Longrightarrow> mid_of q' = mid_of q" "plist_take p q = (r, q') \<Longrightarrow> deleted q' = deleted q"
  by (auto simp: plist_insert_def plist_take_def Let_def)

lemma linked_prv: "linked f g ps \<Longrightarrow> p \<in> set (tl ps) \<Longrightarrow> g p \<in> set ps"
proof (induction ps)
  case (Cons q ps)
  then show ?case by (cases ps) auto
qed simp

text \<open>Inserting into the cache and taking from it leave the links of other elements.\<close>

lemma plist_insert_nxt:
  assumes "plist l xs ys" and "pos \<in> set (tl (chain xs ys))" and "n \<noteq> v" and "n \<notin> set (xs @ ys)"
  shows "nxt (plist_insert pos (Node v) l) (Node n) = nxt l (Node n)"
  using linked_prv [of "nxt l" "prv l" "chain xs ys" pos] assms
  by (auto simp: plist_def plist_insert_def Let_def chain_def)

lemma plist_take_nxt:
  assumes "plist l xs ys" and "x \<in> set (xs @ ys)" and "n \<notin> set (xs @ ys)"
  shows "nxt (snd (plist_take (Node x) l)) (Node n) = nxt l (Node n)"
  using linked_prv [of "nxt l" "prv l" "chain xs ys" "Node x"] assms
  by (auto simp: plist_def plist_take_def Let_def chain_def)

lemma holds_frame:
  assumes "holds q ps as bs" and "plist q' as' bs'" and "distinct (ps @ as' @ bs')"
    and "\<And>n. n \<in> set ps \<Longrightarrow> nxt q' (Node n) = nxt q (Node n)" and "mstack q' = mstack q" and "mhead q' = mhead q"
  shows "holds q' ps as' bs'"
proof -
  obtain hs ss where r: "mailbox_rep q hs ss as bs" and ps: "ps = hs @ rev ss" and s: "mstack q \<noteq> Null"
      "mstack q \<noteq> Reader_blocked_dummy"
    using assms(1) by (auto simp: holds_def)
  have "list_at (nxt q') (mhead q') hs" "stack_at (nxt q') (mstack q') ss"
    using r assms(4-6) ps list_at_cong [of hs "nxt q'" "nxt q"] stack_at_cong [of ss "nxt q'" "nxt q"]
    by (simp_all add: mailbox_rep_def)
  then have "mailbox_rep q' hs ss as' bs'" using assms(2,3) ps by (auto simp: mailbox_rep_def)
  then show ?thesis using s assms(5) ps by (auto simp: holds_def)
qed

lemma holds_plist: "holds q ps as bs \<Longrightarrow> plist q as bs \<and> distinct (ps @ as @ bs)"
  by (auto simp: holds_def mailbox_rep_def)

lemma insert_first_holds:
  assumes "holds q ps (xs @ ys) bs" and "v \<notin> set (ps @ xs @ ys @ bs)"
  shows "holds (plist_insert (first_of ys Separator) (Node v) q) ps (xs @ v # ys) bs"
proof (rule holds_frame [OF assms(1)])
  have p: "plist q (xs @ ys) bs" "distinct (ps @ (xs @ ys) @ bs)" using holds_plist [OF assms(1)] by auto
  show "plist (plist_insert (first_of ys Separator) (Node v) q) (xs @ v # ys) bs"
    using plist_insert_first [OF p(1), of v] assms(2) by simp
  show "distinct (ps @ (xs @ v # ys) @ bs)" using p(2) assms(2) by auto
  have "first_of ys Separator \<in> set (tl (chain (xs @ ys) bs))" by (cases ys) (auto simp: chain_def)
  then show "nxt (plist_insert (first_of ys Separator) (Node v) q) (Node n) = nxt q (Node n)" if "n \<in> set ps" for n
    by (rule plist_insert_nxt [OF p(1)]) (use that p(2) assms(2) in auto)
qed simp_all

lemma insert_second_holds:
  assumes "holds q ps as (xs @ ys)" and "v \<notin> set (ps @ as @ xs @ ys)"
  shows "holds (plist_insert (first_of ys Tail) (Node v) q) ps as (xs @ v # ys)"
proof (rule holds_frame [OF assms(1)])
  have p: "plist q as (xs @ ys)" "distinct (ps @ as @ (xs @ ys))" using holds_plist [OF assms(1)] by auto
  show "plist (plist_insert (first_of ys Tail) (Node v) q) as (xs @ v # ys)"
    using plist_insert_second [OF p(1), of v] assms(2) by simp
  show "distinct (ps @ as @ (xs @ v # ys))" using p(2) assms(2) by auto
  have "first_of ys Tail \<in> set (tl (chain as (xs @ ys)))" by (cases ys) (auto simp: chain_def)
  then show "nxt (plist_insert (first_of ys Tail) (Node v) q) (Node n) = nxt q (Node n)" if "n \<in> set ps" for n
    by (rule plist_insert_nxt [OF p(1)]) (use that p(2) assms(2) in auto)
qed simp_all

lemma take_first_holds:
  assumes "holds q ps (x # xs) bs"
  shows "\<exists>q'. plist_take (Node x) q = (Node x, q') \<and> holds q' ps xs bs \<and> mid_of q' = mid_of q \<and> deleted q' = deleted q"
proof -
  have p: "plist q ([] @ x # xs) bs" "distinct (ps @ (x # xs) @ bs)" using holds_plist [OF assms] by auto
  obtain q' where q': "plist_take (Node x) q = (Node x, q')" "plist q' ([] @ xs) bs"
    using plist_take_first [OF p(1)] by blast
  have "holds q' ps xs bs"
  proof (rule holds_frame [OF assms])
    show "nxt q' (Node n) = nxt q (Node n)" if "n \<in> set ps" for n
      using plist_take_nxt [OF p(1), of x n] that p(2) q'(1) by auto
  qed (use q' p(2) in auto)
  with q' show ?thesis by auto
qed

section \<open>Reading by priority\<close>

definition high :: "mailbox \<Rightarrow> nat \<Rightarrow> bool" where "high q n \<longleftrightarrow> is_high_priority (mid_of q n)"

lemma elem_high_priority_Node [simp]: "elem_high_priority q (Node n) = high q n"
  by (simp add: elem_high_priority_def high_def)

lemma high_cong: "mid_of q' = mid_of q \<Longrightarrow> high q' = high q"
  by (simp add: high_def fun_eq_iff)

lemma high_plist_insert [simp]: "high (plist_insert p v q) = high q"
  by (rule high_cong) simp

lemma prv_plist_insert [simp]: "prv (plist_insert pos v q) pos = v"
  by (simp add: plist_insert_def Let_def)

lemma sort_messages_holds:
  assumes "holds q ps (hi @ lo) bs" and "t \<notin> set (ps @ hi @ lo @ bs)"
  shows "\<exists>q'. sort_messages (first_of lo Separator) Separator (Node t) q = Some q'
    \<and> holds q' [] (hi @ filter (high q) (t # ps) @ lo @ filter (\<lambda>n. \<not> high q n) (t # ps)) bs
    \<and> mid_of q' = mid_of q \<and> deleted q' = deleted q"
  using assms
proof (induction ps arbitrary: t q hi lo)
  case Nil
  let ?q = "plist_insert (if high q t then first_of lo Separator else Separator) (Node t) q"
  have h: "holds ?q [] (hi @ (if high q t then t # lo else lo @ [t])) bs"
    using insert_first_holds [of q "[]" hi lo bs t] insert_first_holds [of q "[]" "hi @ lo" "[]" bs t] Nil by auto
  have "sort_messages (first_of lo Separator) Separator (Node t) q = Some ?q"
    by (subst sort_messages.simps) (simp add: Let_def try_pop_holds(1) [OF h] sort_messages.simps [of _ _ Null])
  with h show ?case by (auto split: if_splits)
next
  case (Cons u ps)
  let ?q = "plist_insert (if high q t then first_of lo Separator else Separator) (Node t) q"
  let ?hi = "if high q t then hi @ [t] else hi" and ?lo = "if high q t then lo else lo @ [t]"
  have h: "holds ?q (u # ps) (?hi @ ?lo) bs"
    using insert_first_holds [of q "u # ps" hi lo bs t] insert_first_holds [of q "u # ps" "hi @ lo" "[]" bs t] Cons.prems by auto
  obtain q1 where q1: "try_pop ?q = Some (Node u, q1)" "holds q1 ps (?hi @ ?lo) bs" "mid_of q1 = mid_of q"
      "deleted q1 = deleted q"
    using try_pop_holds(2) [OF h] by auto
  have "u \<notin> set (ps @ ?hi @ ?lo @ bs)" using holds_plist [OF h] by auto
  from Cons.IH [OF q1(2) this] q1(3,4) high_cong [OF q1(3)] obtain q' where q':
      "sort_messages (first_of ?lo Separator) Separator (Node u) q1 = Some q'"
      "holds q' [] (?hi @ filter (high q) (u # ps) @ ?lo @ filter (\<lambda>n. \<not> high q n) (u # ps)) bs"
      "mid_of q' = mid_of q" "deleted q' = deleted q"
    by auto
  have "sort_messages (first_of lo Separator) Separator (Node t) q = Some q'"
    using q1(1) q'(1) by (subst sort_messages.simps) (cases lo; simp add: Let_def split: if_splits)
  with q' show ?case by (auto split: if_splits)
qed

text \<open>
  The list an actor reads from next: its cached messages if the first of them has high priority, else
  the new high priority ones, the cached ones and the new ones of normal priority.
\<close>

definition sorted_messages :: "(nat \<Rightarrow> bool) \<Rightarrow> nat list \<Rightarrow> nat list \<Rightarrow> nat list" where
  "sorted_messages H as ps =
     (if as \<noteq> [] \<and> H (hd as) then as else filter H ps @ as @ filter (\<lambda>n. \<not> H n) ps)"

definition unsorted_messages :: "(nat \<Rightarrow> bool) \<Rightarrow> nat list \<Rightarrow> nat list \<Rightarrow> nat list" where
  "unsorted_messages H as ps = (if as \<noteq> [] \<and> H (hd as) then ps else [])"

lemma next_sorts:
  assumes "holds q ps as bs" and "\<not> (as \<noteq> [] \<and> high q (hd as))"
  shows "\<exists>q'. Option.bind (try_pop q) (\<lambda>(tmp, q). sort_messages (plist_begin q) Separator tmp q) = Some q'
    \<and> holds q' [] (filter (high q) ps @ as @ filter (\<lambda>n. \<not> high q n) ps) bs
    \<and> mid_of q' = mid_of q \<and> deleted q' = deleted q"
proof (cases ps)
  case Nil
  with try_pop_holds(1) [OF assms(1)] assms(1) show ?thesis by (simp add: sort_messages.simps [of _ _ Null])
next
  case (Cons t ps')
  then obtain q1 where q1: "try_pop q = Some (Node t, q1)" "holds q1 ps' as bs" "mid_of q1 = mid_of q"
      "deleted q1 = deleted q"
    using try_pop_holds(2) [OF assms(1)] by auto
  have "t \<notin> set (ps' @ [] @ as @ bs)" using holds_plist [OF assms(1)] Cons by auto
  from sort_messages_holds [of q1 ps' "[]" as bs t, OF _ this] q1(2-4) high_cong [OF q1(3)]
    plist_begins(1) [of q1 as bs] holds_plist [OF q1(2)] q1(1) Cons
  show ?thesis by simp
qed

lemma try_pop_begin:
  assumes "holds q ps as bs" and "try_pop q = Some (tmp, q')"
  shows "plist_begin q' = plist_begin q"
proof -
  have "\<exists>ps'. holds q' ps' as bs"
    using try_pop_holds [OF assms(1)] assms by (cases "ps = []") auto
  then show ?thesis
    using plist_begins(1) [of q as bs] plist_begins(1) [of q' as bs] holds_plist assms(1) by metis
qed

theorem next_message_priority:
  assumes h: "holds q ps as bs"
  defines "xs \<equiv> sorted_messages (high q) as ps"
  shows "\<exists>q'. next_message True q = Some (if xs = [] then Null else Node (hd xs), q')
    \<and> holds q' (unsorted_messages (high q) as ps) (tl xs) bs \<and> mid_of q' = mid_of q \<and> deleted q' = deleted q"
proof -
  have beg: "plist_begin q = first_of as Separator" using plist_begins(1) [of q as bs] holds_plist [OF h] by simp
  have sort: "Option.bind (try_pop q) (\<lambda>(tmp, q'). sort_messages (plist_begin q) Separator tmp q')
      = Option.bind (try_pop q) (\<lambda>(tmp, q'). sort_messages (plist_begin q') Separator tmp q')"
    using try_pop_begin [OF h] by (cases "try_pop q") auto
  obtain q1 where q1: "(if plist_begin q = Separator \<or> \<not> elem_high_priority q (plist_begin q)
        then Option.bind (try_pop q) (\<lambda>(tmp, q'). sort_messages (plist_begin q) Separator tmp q') else Some q) = Some q1"
      "holds q1 (unsorted_messages (high q) as ps) xs bs" "mid_of q1 = mid_of q" "deleted q1 = deleted q"
  proof (cases "as \<noteq> [] \<and> high q (hd as)")
    case True
    then obtain a as' where "as = a # as'" "high q a" by (cases as) auto
    with h show ?thesis by (intro that [of q]) (simp_all add: beg xs_def sorted_messages_def unsorted_messages_def)
  next
    case False
    then have "plist_begin q = Separator \<or> \<not> elem_high_priority q (plist_begin q)" by (cases as) (auto simp: beg)
    moreover obtain q' where
        "Option.bind (try_pop q) (\<lambda>(tmp, q). sort_messages (plist_begin q) Separator tmp q) = Some q'"
        "holds q' [] (filter (high q) ps @ as @ filter (\<lambda>n. \<not> high q n) ps) bs"
        "mid_of q' = mid_of q" "deleted q' = deleted q"
      using next_sorts [OF h False] by blast
    ultimately show ?thesis
      using False by (intro that [of q']) (simp_all only: sort xs_def sorted_messages_def unsorted_messages_def if_True if_False)
  qed
  have beg1: "plist_begin q1 = first_of xs Separator" using plist_begins(1) [of q1 xs bs] holds_plist [OF q1(2)] by simp
  show ?thesis
  proof (cases xs)
    case Nil
    with q1 beg1 show ?thesis by (auto simp: next_message_def plist_separator_def Let_def)
  next
    case (Cons x xs')
    with take_first_holds [of q1 _ x xs' bs] q1 beg1 show ?thesis
      by (auto simp: next_message_def plist_separator_def Let_def)
  qed
qed

text \<open>Skipped messages go to the second part of the cache, those of high priority before the others.\<close>

lemma partition_point_eq:
  assumes "linked f g (map Node (xs @ ys) @ [e])" and "e \<notin> Node ` set (xs @ ys)"
    and "\<forall>x \<in> set xs. P (Node x)" and "ys = [] \<or> \<not> P (Node (hd ys))"
  shows "partition_point f P (first_of (xs @ ys) e) e = Some (first_of ys e)"
  using assms
proof (induction xs)
  case Nil
  then show ?case by (cases ys) (auto simp: partition_point.simps)
next
  case (Cons x xs)
  then have "f (Node x) = first_of (xs @ ys) e" "linked f g (map Node (xs @ ys) @ [e])"
    by (cases "xs @ ys"; simp)+
  with Cons show ?case by (subst partition_point.simps) auto
qed

lemma push_to_cache_priority:
  assumes h: "holds q ps as (hi @ lo)" and v: "v \<notin> set (ps @ as @ hi @ lo)"
    and p: "\<forall>n \<in> set hi. high q n" "\<forall>n \<in> set lo. \<not> high q n"
  shows "\<exists>q'. push_to_cache True (Node v) q = Some q'
    \<and> holds q' ps as (if high q v then hi @ v # lo else hi @ lo @ [v]) \<and> mid_of q' = mid_of q"
proof (cases "high q v")
  case False
  with insert_second_holds [of q ps as "hi @ lo" "[]" v] h v show ?thesis
    by (auto simp: push_to_cache_def plist_end_def)
next
  case True
  have pl: "plist q as (hi @ lo)" using holds_plist [OF h] by simp
  have "partition_point (nxt q) (elem_high_priority q) (first_of (hi @ lo) Tail) Tail = Some (first_of lo Tail)"
    by (rule partition_point_eq [OF plist_walks(4) [OF pl]]) (use p in \<open>auto simp: hd_in_set\<close>)
  with True insert_second_holds [of q ps as hi lo v] h v show ?thesis
    by (auto simp: push_to_cache_def plist_end_def plist_begins(2) [OF pl])
qed

section \<open>Queues as an interface\<close>

text \<open>What a queue promises: nothing is lost, added or overtaken by any sequence of operations.\<close>

locale fifo_queue =
  fixes rep :: "'q \<Rightarrow> 'a list \<Rightarrow> bool"
    and enq :: "'a \<Rightarrow> 'q \<Rightarrow> 'q option"
    and deq :: "'q \<Rightarrow> ('a option \<times> 'q) option"
  assumes enq_rep: "rep q xs \<Longrightarrow> x \<notin> set xs \<Longrightarrow> \<exists>q'. enq x q = Some q' \<and> rep q' (xs @ [x])"
    and deq_empty: "rep q [] \<Longrightarrow> \<exists>q'. deq q = Some (None, q') \<and> rep q' []"
    and deq_rep: "rep q (x # xs) \<Longrightarrow> \<exists>q'. deq q = Some (Some x, q') \<and> rep q' xs"

datatype 'a queue_op = Enq 'a | Deq

text \<open>The elements a sequence of operations reads, in order, and the state it leaves.\<close>

fun queue_run ::
  "('a \<Rightarrow> 'q \<Rightarrow> 'q option) \<Rightarrow> ('q \<Rightarrow> ('a option \<times> 'q) option) \<Rightarrow> 'a queue_op list \<Rightarrow> 'q \<Rightarrow> ('a list \<times> 'q) option" where
  "queue_run enq deq [] q = Some ([], q)"
| "queue_run enq deq (Enq x # ops) q = Option.bind (enq x q) (queue_run enq deq ops)"
| "queue_run enq deq (Deq # ops) q =
     Option.bind (deq q) (\<lambda>(r, q). Option.bind (queue_run enq deq ops q) (\<lambda>(rs, q).
       Some (case r of None \<Rightarrow> rs | Some x \<Rightarrow> x # rs, q)))"

fun enqueued :: "'a queue_op list \<Rightarrow> 'a list" where
  "enqueued [] = []"
| "enqueued (Enq x # ops) = x # enqueued ops"
| "enqueued (Deq # ops) = enqueued ops"

context fifo_queue begin

lemma run_fifo:
  "rep q xs \<Longrightarrow> distinct (xs @ enqueued ops) \<Longrightarrow>
   \<exists>rs rest q'. queue_run enq deq ops q = Some (rs, q') \<and> rep q' rest \<and> rs @ rest = xs @ enqueued ops"
proof (induction ops arbitrary: q xs)
  case Nil
  then show ?case by simp
next
  case (Cons op ops)
  show ?case
  proof (cases op)
    case (Enq x)
    then obtain q1 where "enq x q = Some q1" "rep q1 (xs @ [x])" using enq_rep [of q xs x] Cons.prems by auto
    with Cons.IH [of q1 "xs @ [x]"] Cons.prems Enq show ?thesis by auto
  next
    case op: Deq
    show ?thesis
    proof (cases xs)
      case Nil
      with deq_empty [of q] Cons.prems obtain q1 where "deq q = Some (None, q1)" "rep q1 []" by auto
      with Cons.IH [of q1 "[]"] Cons.prems op Nil show ?thesis by fastforce
    next
      case (Cons x xs')
      with deq_rep [of q x xs'] Cons.prems obtain q1 where "deq q = Some (Some x, q1)" "rep q1 xs'" by auto
      with Cons.IH [of q1 xs'] Cons.prems op Cons show ?thesis by fastforce
    qed
  qed
qed

end

definition mailbox_enq :: "nat \<Rightarrow> mailbox \<Rightarrow> mailbox option" where
  "mailbox_enq n q = map_option snd (enqueue n q)"

definition mailbox_deq :: "mailbox \<Rightarrow> (nat option \<times> mailbox) option" where
  "mailbox_deq q = map_option (map_prod (\<lambda>p. if p = Null then None else Some (node_of p)) id) (next_message False q)"

interpretation mb: fifo_queue "\<lambda>q ps. holds q ps [] []" mailbox_enq mailbox_deq
proof unfold_locales
  fix q :: mailbox and xs and x :: nat
  show "\<exists>q'. mailbox_enq x q = Some q' \<and> holds q' (xs @ [x]) [] []" if "holds q xs [] []" "x \<notin> set xs"
    using enqueue_holds [OF that(1), of x] that(2) by (auto simp: mailbox_enq_def)
  show "\<exists>q'. mailbox_deq q = Some (None, q') \<and> holds q' [] [] []" if "holds q [] [] []"
    using try_pop_holds(1) [OF that] that by (simp add: mailbox_deq_def next_message_def)
  show "\<exists>q'. mailbox_deq q = Some (Some x, q') \<and> holds q' xs [] []" if "holds q (x # xs) [] []"
    using try_pop_holds(2) [OF that] by (force simp: mailbox_deq_def next_message_def)
qed

end
