(* ===== verification/MailboxConcurrent.thy ===== *)
theory MailboxConcurrent
  imports Mailbox "HOL-Library.Transitive_Closure_Table"
begin

text \<open>
  The mailbox under concurrent use: any number of calls of \<^const>\<open>enqueue\<close>, one per element, and one
  owner, interleaved at every access to the shared stack and at every write of a link. The elements
  pushed and popped so far, and how often the owner has been blocked and woken, are kept as history.
\<close>

section \<open>Interfaces\<close>

text \<open>An invariant of a transition system holds in every state it reaches.\<close>

locale invariant =
  fixes init :: "'s \<Rightarrow> bool" and step :: "'s \<Rightarrow> 's \<Rightarrow> bool" and inv :: "'s \<Rightarrow> bool"
  assumes init_inv: "init s \<Longrightarrow> inv s"
    and step_inv: "inv s \<Longrightarrow> step s t \<Longrightarrow> inv t"
begin

lemma reach_inv: "step\<^sup>*\<^sup>* s t \<Longrightarrow> inv s \<Longrightarrow> inv t"
  by (induction rule: rtranclp_induct) (auto intro: step_inv)

lemma reachable_inv: "init s \<Longrightarrow> step\<^sup>*\<^sup>* s t \<Longrightarrow> inv t"
  by (rule reach_inv) (auto intro: init_inv)

end

section \<open>Threads\<close>

datatype writer = Idle | Loaded ptr | Linked ptr | Returned enqueue_result

datatype owner = Ready | Fetching ptr ptr | Moving ptr

record config =
  mbox :: mailbox
  writer :: "nat \<Rightarrow> writer"      \<comment> \<open>the call of \<open>enqueue\<close> with this element\<close>
  owner :: owner
  pushed :: "nat list"
  popped :: "nat list"
  blocks :: nat                \<comment> \<open>successful calls of \<open>try_block\<close> that \<open>try_unblock\<close> has not undone\<close>
  wakeups :: nat               \<comment> \<open>calls of \<open>enqueue\<close> that returned \<open>unblocked_reader\<close>\<close>

definition start :: "config \<Rightarrow> bool" where
  "start c \<longleftrightarrow> (\<exists>q. mbox c = mailbox_new q \<and> deleted q = []) \<and> (\<forall>n. writer c n = Idle) \<and> owner c = Ready
     \<and> pushed c = [] \<and> popped c = [] \<and> blocks c = 0 \<and> wakeups c = 0"

inductive wstep :: "nat \<Rightarrow> config \<Rightarrow> config \<Rightarrow> bool" for n where
  w_load: "writer c n = Idle \<Longrightarrow> wstep n c (c\<lparr>writer := (writer c)(n := Loaded (mstack (mbox c)))\<rparr>)"
| w_closed: "writer c n = Loaded Null \<Longrightarrow>
    wstep n c (c\<lparr>mbox := delete_element n (mbox c), writer := (writer c)(n := Returned Queue_closed)\<rparr>)"
| w_link: "writer c n = Loaded e \<Longrightarrow> e \<noteq> Null \<Longrightarrow>
    wstep n c (c\<lparr>mbox := link_element n e (mbox c), writer := (writer c)(n := Linked e)\<rparr>)"
| w_push: "writer c n = Linked e \<Longrightarrow> cas e (Node n) (mbox c) = (True, e', q) \<Longrightarrow>
    wstep n c (c\<lparr>mbox := q, pushed := pushed c @ [n],
      writer := (writer c)(n := Returned (if e' = Reader_blocked_dummy then Unblocked_reader else Success)),
      wakeups := (if e' = Reader_blocked_dummy then wakeups c + 1 else wakeups c)\<rparr>)"
| w_retry: "writer c n = Linked e \<Longrightarrow> cas e (Node n) (mbox c) = (False, e', q) \<Longrightarrow>
    wstep n c (c\<lparr>mbox := q, writer := (writer c)(n := Loaded e')\<rparr>)"

text \<open>
  The owner fetches when its list is empty and it is not blocked; \<open>end_ptr\<close> is \<^const>\<open>Null\<close> when it closes
  the queue. The weak exchange may fail for no reason.
\<close>

inductive ostep :: "config \<Rightarrow> config \<Rightarrow> bool" where
  o_take: "owner c = Ready \<Longrightarrow> mhead (mbox c) = Node h \<Longrightarrow>
    ostep c (c\<lparr>mbox := (mbox c)\<lparr>mhead := nxt (mbox c) (mhead (mbox c))\<rparr>, popped := popped c @ [h]\<rparr>)"
| o_load: "owner c = Ready \<Longrightarrow> mhead (mbox c) = Null \<Longrightarrow> \<not> mclosed (mbox c) \<Longrightarrow> \<not> mblocked (mbox c) \<Longrightarrow>
    end_ptr = Null \<or> end_ptr = Stack_empty_dummy \<Longrightarrow>
    ostep c (c\<lparr>owner := Fetching (mstack (mbox c)) end_ptr\<rparr>)"
| o_nothing: "owner c = Fetching e e \<Longrightarrow> ostep c (c\<lparr>owner := Ready\<rparr>)"
| o_fetch: "owner c = Fetching e end_ptr \<Longrightarrow> e \<noteq> end_ptr \<Longrightarrow> cas e end_ptr (mbox c) = (True, e', q) \<Longrightarrow>
    ostep c (c\<lparr>mbox := q, owner := (if is_dummy e' then Ready else Moving e')\<rparr>)"
| o_retry: "owner c = Fetching e end_ptr \<Longrightarrow> e \<noteq> end_ptr \<Longrightarrow>
    ostep c (c\<lparr>owner := Fetching (mstack (mbox c)) end_ptr\<rparr>)"
| o_move: "owner c = Moving e \<Longrightarrow> e \<noteq> Null \<Longrightarrow> move_element e (mbox c) = (e', q) \<Longrightarrow>
    ostep c (c\<lparr>mbox := q, owner := Moving e'\<rparr>)"
| o_moved: "owner c = Moving Null \<Longrightarrow> ostep c (c\<lparr>owner := Ready\<rparr>)"
| o_block: "owner c = Ready \<Longrightarrow> mhead (mbox c) = Null \<Longrightarrow> try_block (mbox c) = (ok, q) \<Longrightarrow>
    ostep c (c\<lparr>mbox := q, blocks := (if ok then blocks c + 1 else blocks c)\<rparr>)"
| o_unblock: "owner c = Ready \<Longrightarrow> try_unblock (mbox c) = (ok, q) \<Longrightarrow>
    ostep c (c\<lparr>mbox := q, blocks := (if ok then blocks c - 1 else blocks c)\<rparr>)"

definition cstep :: "config \<Rightarrow> config \<Rightarrow> bool" where
  "cstep c d \<longleftrightarrow> ostep c d \<or> (\<exists>n. wstep n c d)"

definition reachable :: "config \<Rightarrow> bool" where
  "reachable c \<longleftrightarrow> (\<exists>s. start s \<and> cstep\<^sup>*\<^sup>* s c)"

section \<open>The invariant\<close>

definition accepted :: "writer \<Rightarrow> bool" where
  "accepted w \<longleftrightarrow> w = Returned Success \<or> w = Returned Unblocked_reader"

fun owner_inv :: "owner \<Rightarrow> mailbox \<Rightarrow> nat list \<Rightarrow> nat list \<Rightarrow> bool" where
  "owner_inv Ready q hs ms \<longleftrightarrow> ms = []"
| "owner_inv (Fetching e end_ptr) q hs ms \<longleftrightarrow> ms = [] \<and> hs = [] \<and> e \<noteq> Null \<and> e \<noteq> Reader_blocked_dummy
     \<and> (end_ptr = Null \<or> end_ptr = Stack_empty_dummy) \<and> \<not> mclosed q \<and> \<not> mblocked q"
| "owner_inv (Moving e) q hs ms \<longleftrightarrow> list_at (nxt q) e ms \<and> \<not> mblocked q"

text \<open>
  The elements pushed and not popped, oldest first: those on the stack that was taken and are still to be
  moved, those in the list, those on the stack.
\<close>

definition lists_inv :: "config \<Rightarrow> nat list \<Rightarrow> nat list \<Rightarrow> nat list \<Rightarrow> bool" where
  "lists_inv c hs ms ss \<longleftrightarrow>
     list_at (nxt (mbox c)) (mhead (mbox c)) hs \<and> stack_at (nxt (mbox c)) (mstack (mbox c)) ss
     \<and> owner_inv (owner c) (mbox c) hs ms
     \<and> pushed c = popped c @ rev ms @ hs @ rev ss"

definition writers_inv :: "config \<Rightarrow> bool" where
  "writers_inv c \<longleftrightarrow> distinct (pushed c) \<and> (\<forall>n. n \<in> set (pushed c) \<longleftrightarrow> accepted (writer c n))
     \<and> (\<forall>n e. writer c n = Linked e \<longrightarrow>
          e \<noteq> Null \<and> nxt (mbox c) (Node n) = (if is_dummy e then Null else e))
     \<and> distinct (deleted (mbox c)) \<and> (\<forall>n. n \<in> set (deleted (mbox c)) \<longleftrightarrow> writer c n = Returned Queue_closed)"

definition wakeup_inv :: "config \<Rightarrow> bool" where
  "wakeup_inv c \<longleftrightarrow> blocks c = wakeups c + (if mblocked (mbox c) then 1 else 0)"

definition mailbox_inv :: "config \<Rightarrow> bool" where
  "mailbox_inv c \<longleftrightarrow> (\<exists>hs ms ss. lists_inv c hs ms ss) \<and> writers_inv c \<and> wakeup_inv c"

lemma returned_simps [simp]:
  "\<not> accepted Idle" "\<not> accepted (Loaded e)" "\<not> accepted (Linked e)"
  "accepted (Returned r) \<longleftrightarrow> r \<noteq> Queue_closed"
  by (auto simp: accepted_def) (cases r; simp)

lemma delete_element_simps [simp]:
  "nxt (delete_element n q) = nxt q" "mstack (delete_element n q) = mstack q" "mhead (delete_element n q) = mhead q"
  "deleted (delete_element n q) = deleted q @ [n]"
  by (simp_all add: delete_element_def)

lemma owner_inv_cong:
  "nxt q' = nxt q \<Longrightarrow> mstack q' = mstack q \<Longrightarrow> owner_inv ow q' hs ms \<longleftrightarrow> owner_inv ow q hs ms"
  by (cases ow) (auto simp: mclosed_def mblocked_def)

lemma start_inv: "start c \<Longrightarrow> mailbox_inv c"
  by (auto simp: start_def mailbox_inv_def lists_inv_def writers_inv_def wakeup_inv_def mailbox_new_def
      plist_new_def mblocked_def)

text \<open>The link of an element that is in none of the lists does not matter to them.\<close>

lemma lists_inv_link:
  assumes "lists_inv c hs ms ss" and "n \<notin> set (pushed c)"
  shows "lists_inv (c\<lparr>mbox := link_element n e (mbox c), writer := w\<rparr>) hs ms ss"
proof -
  have n: "n \<notin> set hs" "n \<notin> set ms" "n \<notin> set ss" using assms by (auto simp: lists_inv_def)
  then have "owner_inv (owner c) (link_element n e (mbox c)) hs ms \<longleftrightarrow> owner_inv (owner c) (mbox c) hs ms"
    by (cases "owner c") (auto simp: mclosed_def mblocked_def link_element_def)
  with assms n show ?thesis by (simp add: lists_inv_def link_element_def)
qed

lemma lists_inv_push:
  assumes "lists_inv c hs ms ss" and "n \<notin> set (pushed c)" and "mstack (mbox c) \<noteq> Null"
    and "nxt (mbox c) (Node n) = (if is_dummy (mstack (mbox c)) then Null else mstack (mbox c))"
  shows "lists_inv (c\<lparr>mbox := (mbox c)\<lparr>mstack := Node n\<rparr>, pushed := pushed c @ [n], writer := w, wakeups := k\<rparr>) hs ms (n # ss)"
proof -
  have "owner_inv (owner c) ((mbox c)\<lparr>mstack := Node n\<rparr>) hs ms" using assms(1)
    by (cases "owner c") (auto simp: lists_inv_def mclosed_def mblocked_def)
  moreover have "stack_at (nxt (mbox c)) (Node n) (n # ss)"
    using assms(1,3,4) by (auto simp: lists_inv_def stack_at_def)
  ultimately show ?thesis using assms(1) by (simp add: lists_inv_def)
qed

lemma wstep_inv:
  assumes "wstep n c d" and inv: "mailbox_inv c"
  shows "mailbox_inv d"
proof -
  obtain hs ms ss where l: "lists_inv c hs ms ss" and w: "writers_inv c" and k: "wakeup_inv c"
    using inv by (auto simp: mailbox_inv_def)
  have fresh: "n \<notin> set (pushed c)" if "\<not> accepted (writer c n)" using w that by (simp add: writers_inv_def)
  from assms(1) show ?thesis
  proof cases
    case w_load
    then show ?thesis using l w k by (auto simp: mailbox_inv_def lists_inv_def writers_inv_def wakeup_inv_def)
  next
    case w_closed
    have "lists_inv d hs ms ss"
      using l w_closed(1) by (simp add: lists_inv_def owner_inv_cong [of "delete_element n (mbox c)" "mbox c"])
    moreover have "writers_inv d" using w w_closed by (auto simp: writers_inv_def)
    ultimately show ?thesis using k w_closed(1) by (auto simp: mailbox_inv_def wakeup_inv_def mblocked_def)
  next
    case (w_link e)
    have "lists_inv d hs ms ss" using lists_inv_link [OF l fresh, where e = e] w_link by simp
    moreover have "writers_inv d" using w w_link by (auto simp: writers_inv_def link_element_def)
    ultimately show ?thesis using k w_link(1) by (auto simp: mailbox_inv_def wakeup_inv_def mblocked_def)
  next
    case (w_push e e' q)
    then have q: "mstack (mbox c) = e" "e' = e" "q = (mbox c)\<lparr>mstack := Node n\<rparr>"
      by (auto simp: cas_def split: if_splits)
    have e: "e \<noteq> Null" "nxt (mbox c) (Node n) = (if is_dummy e then Null else e)"
      using w w_push(2) by (auto simp: writers_inv_def)
    have "lists_inv d hs ms (n # ss)" using lists_inv_push [OF l fresh] w_push q e by simp
    moreover have "writers_inv d" using w w_push q fresh by (auto simp: writers_inv_def)
    moreover have "wakeup_inv d" using k w_push(1) q by (auto simp: wakeup_inv_def mblocked_def)
    ultimately show ?thesis by (auto simp: mailbox_inv_def)
  next
    case (w_retry e e' q)
    then have "q = mbox c" by (auto simp: cas_def split: if_splits)
    then show ?thesis using l w k w_retry by (auto simp: mailbox_inv_def lists_inv_def writers_inv_def wakeup_inv_def)
  qed
qed

lemma writers_inv_cong:
  "writers_inv c \<Longrightarrow> writer d = writer c \<Longrightarrow> pushed d = pushed c \<Longrightarrow> nxt (mbox d) = nxt (mbox c) \<Longrightarrow>
   deleted (mbox d) = deleted (mbox c) \<Longrightarrow> writers_inv d"
  by (simp add: writers_inv_def)

lemma ostep_inv:
  assumes "ostep c d" and inv: "mailbox_inv c"
  shows "mailbox_inv d"
proof -
  obtain hs ms ss where l: "lists_inv c hs ms ss" and w: "writers_inv c" and k: "wakeup_inv c"
    using inv by (auto simp: mailbox_inv_def)
  have dist: "distinct (popped c @ rev ms @ hs @ rev ss)" using l w by (simp add: lists_inv_def writers_inv_def)
  from assms(1) show ?thesis
  proof cases
    case (o_take h)
    then obtain hs' where hs: "hs = h # hs'" using l by (auto simp: lists_inv_def list_at_Node)
    have "lists_inv d hs' ms ss" using l o_take hs by (auto simp: lists_inv_def)
    then show ?thesis using w k o_take by (auto simp: mailbox_inv_def writers_inv_def wakeup_inv_def mblocked_def)
  next
    case (o_load end_ptr)
    have "lists_inv d hs ms ss" using l o_load by (auto simp: lists_inv_def mclosed_def mblocked_def)
    then show ?thesis using w k o_load by (auto simp: mailbox_inv_def writers_inv_def wakeup_inv_def)
  next
    case (o_nothing e)
    have "lists_inv d hs ms ss" using l o_nothing by (auto simp: lists_inv_def)
    then show ?thesis using w k o_nothing by (auto simp: mailbox_inv_def writers_inv_def wakeup_inv_def)
  next
    case (o_fetch e end_ptr e' q)
    then have q: "mstack (mbox c) = e" "e' = e" "q = (mbox c)\<lparr>mstack := end_ptr\<rparr>"
      by (auto simp: cas_def split: if_splits)
    have o: "ms = []" "hs = []" "e \<noteq> Null" "e \<noteq> Reader_blocked_dummy" "end_ptr = Null \<or> end_ptr = Stack_empty_dummy"
      using l o_fetch(2) by (auto simp: lists_inv_def)
    have "lists_inv d [] (if is_dummy e then [] else ss) []"
      using l o o_fetch(1) q by (auto simp: lists_inv_def stack_at_def mblocked_def)
    moreover have "writers_inv d" using w o_fetch(1) q by (simp add: writers_inv_def)
    moreover have "wakeup_inv d" using k o_fetch(1) q o by (auto simp: wakeup_inv_def mblocked_def)
    ultimately show ?thesis by (auto simp: mailbox_inv_def)
  next
    case (o_retry e end_ptr)
    have "lists_inv d hs ms ss" using l o_retry by (auto simp: lists_inv_def mclosed_def mblocked_def)
    then show ?thesis using w k o_retry by (auto simp: mailbox_inv_def writers_inv_def wakeup_inv_def)
  next
    case (o_move e e' q)
    then obtain m ms' where m: "ms = m # ms'" "e = Node m" using l by (cases ms) (auto simp: lists_inv_def)
    have q: "q = (mbox c)\<lparr>nxt := (nxt (mbox c))(Node m := mhead (mbox c)), mhead := Node m\<rparr>" "e' = nxt (mbox c) (Node m)"
      using o_move(4) m(2) by (auto simp: move_element_def)
    have "lists_inv d (m # hs) ms' ss"
      using l o_move(1,2) m q dist by (auto simp: lists_inv_def mblocked_def)
    moreover have "accepted (writer c m)" using l w m(1) by (auto simp: lists_inv_def writers_inv_def)
    then have "writers_inv d" using w o_move(1) q by (auto simp: writers_inv_def)
    ultimately show ?thesis using k o_move(1) q by (auto simp: mailbox_inv_def wakeup_inv_def mblocked_def)
  next
    case o_moved
    have "lists_inv d hs ms ss" using l o_moved by (auto simp: lists_inv_def)
    then show ?thesis using w k o_moved by (auto simp: mailbox_inv_def writers_inv_def wakeup_inv_def)
  next
    case (o_block ok q)
    have "lists_inv d hs ms ss" using l o_block by (auto simp: lists_inv_def try_block_eq split: if_splits)
    moreover have "writers_inv d"
      by (rule writers_inv_cong [OF w]) (use o_block in \<open>auto simp: try_block_eq split: if_splits\<close>)
    moreover have "wakeup_inv d"
      using k o_block by (auto simp: wakeup_inv_def try_block_eq mblocked_def split: if_splits)
    ultimately show ?thesis by (auto simp: mailbox_inv_def)
  next
    case (o_unblock ok q)
    have "lists_inv d hs ms ss" using l o_unblock by (auto simp: lists_inv_def try_block_eq mblocked_def split: if_splits)
    moreover have "writers_inv d"
      by (rule writers_inv_cong [OF w]) (use o_unblock in \<open>auto simp: try_block_eq split: if_splits\<close>)
    moreover have "wakeup_inv d"
      using k o_unblock by (auto simp: wakeup_inv_def try_block_eq mblocked_def split: if_splits)
    ultimately show ?thesis by (auto simp: mailbox_inv_def)
  qed
qed

interpretation mailbox: invariant start cstep mailbox_inv
  by unfold_locales (auto intro: start_inv wstep_inv ostep_inv simp: cstep_def)

lemma mailbox_holds_inv: "reachable c \<Longrightarrow> mailbox_inv c"
  by (auto simp: reachable_def intro: mailbox.reachable_inv)

lemma reachable_step: "reachable c \<Longrightarrow> cstep\<^sup>*\<^sup>* c d \<Longrightarrow> reachable d"
  unfolding reachable_def by (meson rtranclp_trans)

section \<open>Progress\<close>

definition finished :: "writer \<Rightarrow> bool" where
  "finished w \<longleftrightarrow> (\<exists>r. w = Returned r)"

lemma accepted_finished: "accepted w \<Longrightarrow> finished w" by (auto simp: accepted_def finished_def)

text \<open>A writer that runs alone has its result after at most five steps.\<close>

lemma writer_alone:
  "\<exists>d k. (wstep n ^^ k) c d \<and> k \<le> 5 \<and> finished (writer d n)"
proof -
  let ?T = "\<lambda>k c. \<exists>d j. (wstep n ^^ j) c d \<and> j \<le> k \<and> finished (writer d n)"
  have step: "?T (Suc k) c" if w: "wstep n c c'" and t: "?T k c'" for k c c'
  proof -
    obtain d j where "(wstep n ^^ j) c' d" "j \<le> k" "finished (writer d n)" using t by blast
    moreover from this have "(wstep n ^^ Suc j) c d" using w by (blast intro: relpowp_Suc_I2)
    ultimately show ?thesis by (intro exI [of _ d] exI [of _ "Suc j"]) simp
  qed
  have fin: "?T k c" if "finished (writer c n)" for k c
    using that by (intro exI [of _ c] exI [of _ 0]) simp
  have linked: "?T (Suc 0) c" if "writer c n = Linked (mstack (mbox c))" for c
    by (rule step [OF w_push [OF that]]) (auto simp: cas_def intro!: fin simp: finished_def)
  have loaded: "?T 2 c" if "writer c n = Loaded (mstack (mbox c))" for c
  proof (cases "mstack (mbox c) = Null")
    case True
    with that show ?thesis unfolding numeral_2_eq_2
      by (intro step [OF w_closed] fin) (auto simp: finished_def)
  next
    case False
    have "?T (Suc (Suc 0)) c"
      by (rule step [OF w_link [OF that False]], rule linked) simp
    then show ?thesis by (simp add: numeral_2_eq_2)
  qed
  have linked': "?T 3 c" if "writer c n = Linked e" for c e
  proof (cases "e = mstack (mbox c)")
    case True
    with linked [of c] that obtain d j where "(wstep n ^^ j) c d" "j \<le> 1" "finished (writer d n)" by auto
    then show ?thesis by (intro exI [of _ d] exI [of _ j]) simp
  next
    case False
    have "?T (Suc 2) c"
      by (rule step [OF w_retry [OF that]], use False in \<open>simp add: cas_def\<close>, rule loaded) simp
    then show ?thesis by (simp add: numeral_3_eq_3)
  qed
  have loaded': "?T 4 c" if "writer c n = Loaded e" for c e
  proof (cases "e = Null")
    case True
    have "?T (Suc 3) c" using True that by (intro step [OF w_closed] fin) (auto simp: finished_def)
    then show ?thesis by (simp add: eval_nat_numeral)
  next
    case False
    have "?T (Suc 3) c" by (rule step [OF w_link [OF that False]], rule linked' [of _ e]) simp
    then show ?thesis by (simp add: eval_nat_numeral)
  qed
  show ?thesis
  proof (cases "writer c n")
    case Idle
    have "?T (Suc 4) c" by (rule step [OF w_load [OF Idle]], rule loaded' [of _ "mstack (mbox c)"]) simp
    then show ?thesis by (simp add: eval_nat_numeral)
  next
    case (Loaded e)
    then obtain d j where "(wstep n ^^ j) c d" "j \<le> 4" "finished (writer d n)" using loaded' [of c e] by force
    then show ?thesis by (intro exI [of _ d] exI [of _ j]) simp
  next
    case (Linked e)
    then obtain d j where "(wstep n ^^ j) c d" "j \<le> 4" "finished (writer d n)" using linked' [of c e] by force
    then show ?thesis by (intro exI [of _ d] exI [of _ j]) simp
  next
    case (Returned r)
    with fin [of c 5] show ?thesis by (simp add: finished_def)
  qed
qed

end
