(* ===== verification/ScheduledActor.thy ===== *)
theory ScheduledActor
  imports Mailbox
begin

text \<open>
  The scheduled actor (libcaf_core/src/scheduled_actor.cpp): how a message reaches its mailbox and who
  answers when that is closed (src/sync_request_bouncer.cpp), its timeouts, and how it goes through the
  messages it skipped before. What its behavior does with a message is a parameter.
\<close>

section \<open>Enqueueing\<close>

type_synonym actor_ptr = "nat option"

datatype action =
    Ref_added | Thread_resumed | Exec_later | Scheduler_enqueued
  | Response_sent nat message_id     \<comment> \<open>the error \<open>request_receiver_down\<close> to an actor\<close>

definition sync_request_bouncer :: "actor_ptr \<Rightarrow> message_id \<Rightarrow> action list" where
  "sync_request_bouncer sender mid =
     (case sender of None \<Rightarrow> []
      | Some a \<Rightarrow> if is_request mid then [Response_sent a (response_id mid)] else [])"

definition scheduled_enqueue ::
  "bool \<Rightarrow> bool \<Rightarrow> actor_ptr \<Rightarrow> nat \<Rightarrow> mailbox \<Rightarrow> (action list \<times> mailbox) option" where
  "scheduled_enqueue is_detached eu sender n q =
     (let mid = mid_of q n
      in Option.bind (enqueue n q) (\<lambda>(r, q).
         Some (case r of
             Unblocked_reader \<Rightarrow>
               ([Ref_added, if is_detached then Thread_resumed else if eu then Exec_later else Scheduler_enqueued], q)
           | Queue_closed \<Rightarrow> (if is_request mid then sync_request_bouncer sender mid else [], q)
           | Success \<Rightarrow> ([], q))))"

section \<open>Timeouts\<close>

record timeouts =
  timeout_id :: u32
  has_timeout :: bool

text \<open>The message that is sent, at once or after a delay, carries an identifier too.\<close>

datatype timeout_msg = Timeout_now u32 | Timeout_after duration u32

definition request_timeout :: "duration \<Rightarrow> timeouts \<Rightarrow> u32 \<times> timeout_msg list \<times> timeouts" where
  "request_timeout d t =
     (if \<not> duration_valid d then (0, [], t\<lparr>has_timeout := False\<rparr>)
      else
        let t = t\<lparr>has_timeout := True\<rparr>;
            t = t\<lparr>timeout_id := timeout_id t + 1\<rparr>;
            result = timeout_id t;
            t = t\<lparr>timeout_id := timeout_id t + 1\<rparr>;
            msg = timeout_id t
        in (result, [if duration_is_zero d then Timeout_now msg else Timeout_after d msg], t))"

definition is_active_timeout :: "u32 \<Rightarrow> timeouts \<Rightarrow> bool" where
  "is_active_timeout tid t \<longleftrightarrow> has_timeout t \<and> timeout_id t = tid"

definition reset_timeout :: "u32 \<Rightarrow> timeouts \<Rightarrow> timeouts" where
  "reset_timeout tid t = (if is_active_timeout tid t then t\<lparr>has_timeout := False\<rparr> else t)"

section \<open>Skipped messages\<close>

datatype invoke_message_result = Im_success | Im_skipped | Im_dropped

text \<open>\<open>consume\<close> of the actor's state is a parameter; it leaves the mailbox alone.\<close>

partial_function (option) consume_loop ::
  "(nat \<Rightarrow> 's \<Rightarrow> invoke_message_result \<times> 's) \<Rightarrow> ptr \<Rightarrow> ptr \<Rightarrow> 's \<Rightarrow> mailbox \<Rightarrow> (bool \<times> 's \<times> mailbox) option" where
  [code]: "consume_loop consume i e s q =
     (if i = e then Some (False, s, q)
      else case consume (node_of i) s of (r, s) \<Rightarrow>
        if r = Im_success then Some (True, s, snd (plist_erase i q))
        else if r = Im_skipped then consume_loop consume (nxt q i) e s q
        else case plist_erase i q of (i, q) \<Rightarrow> consume_loop consume i e s q)"

definition consume_from_cache ::
  "(nat \<Rightarrow> 's \<Rightarrow> invoke_message_result \<times> 's) \<Rightarrow> 's \<Rightarrow> mailbox \<Rightarrow> (bool \<times> 's \<times> mailbox) option" where
  "consume_from_cache consume s q = consume_loop consume (plist_continuation q) plist_end s q"

text \<open>\<open>consume\<close> with the ownership of the message: what was skipped goes to the cache, else it is deleted.\<close>

definition consume_message ::
  "(nat \<Rightarrow> 's \<Rightarrow> invoke_message_result \<times> 's) \<Rightarrow> bool \<Rightarrow> nat \<Rightarrow> 's \<Rightarrow> mailbox \<Rightarrow> ('s \<times> mailbox) option" where
  "consume_message consume priority_aware n s q =
     (case consume n s of (r, s) \<Rightarrow>
        if r = Im_skipped then Option.bind (push_to_cache priority_aware (Node n) q) (\<lambda>q. Some (s, q))
        else Some (s, delete_element n q))"

text \<open>The same on the list of skipped messages: what is kept, what is deleted.\<close>

fun consume_list ::
  "(nat \<Rightarrow> 's \<Rightarrow> invoke_message_result \<times> 's) \<Rightarrow> nat list \<Rightarrow> 's \<Rightarrow> bool \<times> 's \<times> nat list \<times> nat list" where
  "consume_list consume [] s = (False, s, [], [])"
| "consume_list consume (n # ns) s =
     (case consume n s of (r, s) \<Rightarrow>
        if r = Im_success then (True, s, ns, [n])
        else case consume_list consume ns s of (ok, s, kept, del) \<Rightarrow>
          if r = Im_skipped then (ok, s, n # kept, del) else (ok, s, kept, n # del))"

lemma take_second_holds:
  assumes "holds q ps as (xs @ v # ys)"
  shows "\<exists>q'. plist_take (Node v) q = (Node v, q') \<and> holds q' ps as (xs @ ys) \<and> mid_of q' = mid_of q
    \<and> deleted q' = deleted q \<and> nxt q (Node v) = first_of ys Tail"
proof -
  have p: "plist q as (xs @ v # ys)" "distinct (ps @ as @ xs @ v # ys)" using holds_plist [OF assms] by auto
  obtain q' where q': "plist_take (Node v) q = (Node v, q')" "plist q' as (xs @ ys)" "nxt q (Node v) = first_of ys Tail"
    using plist_take_second [OF p(1)] by blast
  have "holds q' ps as (xs @ ys)"
  proof (rule holds_frame [OF assms])
    show "nxt q' (Node n) = nxt q (Node n)" if "n \<in> set ps" for n
      using plist_take_nxt [OF p(1), of v n] that p(2) q'(1) by auto
  qed (use q' p(2) in auto)
  with q' show ?thesis by auto
qed

lemma erase_second_holds:
  assumes "holds q ps as (xs @ v # ys)"
  shows "\<exists>q'. plist_erase (Node v) q = (first_of ys Tail, q') \<and> holds q' ps as (xs @ ys) \<and> mid_of q' = mid_of q
    \<and> deleted q' = deleted q @ [v]"
proof -
  obtain q' where q': "plist_take (Node v) q = (Node v, q')" "holds q' ps as (xs @ ys)" "mid_of q' = mid_of q"
      "deleted q' = deleted q" "nxt q (Node v) = first_of ys Tail"
    using take_second_holds [OF assms] by blast
  have "holds (q'\<lparr>deleted := deleted q' @ [v]\<rparr>) ps as (xs @ ys)"
    by (rule holds_frame [OF q'(2)]) (use holds_plist [OF q'(2)] in simp_all)
  with q' show ?thesis by (auto simp: plist_erase_def)
qed

lemma next_second:
  assumes "holds q ps as (xs @ v # ys)"
  shows "nxt q (Node v) = first_of ys Tail"
  using take_second_holds [OF assms] by blast

text \<open>Going through the cache computes that.\<close>

lemma consume_loop_holds:
  "holds q ps as (xs @ ys) \<Longrightarrow> consume_list consume ys s = (ok, s', kept, del) \<Longrightarrow>
   \<exists>q'. consume_loop consume (first_of ys Tail) Tail s q = Some (ok, s', q') \<and> holds q' ps as (xs @ kept)
     \<and> mid_of q' = mid_of q \<and> deleted q' = deleted q @ del"
proof (induction ys arbitrary: q xs s ok s' kept del)
  case Nil
  then show ?case by (simp add: consume_loop.simps)
next
  case (Cons y ys)
  obtain r t where c: "consume y s = (r, t)" by (cases "consume y s")
  obtain ok1 s1 kept1 del1 where rec: "consume_list consume ys t = (ok1, s1, kept1, del1)"
    by (cases "consume_list consume ys t")
  obtain q1 where q1: "plist_erase (Node y) q = (first_of ys Tail, q1)" "holds q1 ps as (xs @ ys)" "mid_of q1 = mid_of q"
      "deleted q1 = deleted q @ [y]"
    using erase_second_holds [OF Cons.prems(1)] by blast
  have h': "holds q ps as ((xs @ [y]) @ ys)" using Cons.prems(1) by simp
  show ?case
  proof (cases r)
    case Im_success
    with Cons.prems(2) c have "ok" "s' = t" "kept = ys" "del = [y]" by auto
    then show ?thesis using c Im_success q1 by (subst consume_loop.simps) simp
  next
    case Im_skipped
    with Cons.prems(2) c rec have "ok = ok1" "s' = s1" "kept = y # kept1" "del = del1" by auto
    then show ?thesis using Cons.IH [OF h' rec] c Im_skipped next_second [OF Cons.prems(1)]
      by (subst consume_loop.simps) simp
  next
    case Im_dropped
    with Cons.prems(2) c rec have "ok = ok1" "s' = s1" "kept = kept1" "del = y # del1" by auto
    then show ?thesis using Cons.IH [OF q1(2) rec] c Im_dropped q1
      by (subst consume_loop.simps) simp
  qed
qed

lemma consume_from_cache_holds:
  assumes "holds q ps as bs" and "consume_list consume bs s = (ok, s', kept, del)"
  shows "\<exists>q'. consume_from_cache consume s q = Some (ok, s', q') \<and> holds q' ps as kept
    \<and> mid_of q' = mid_of q \<and> deleted q' = deleted q @ del"
  using consume_loop_holds [of q ps as "[]" bs] assms plist_begins(2) [of q as bs] holds_plist [OF assms(1)]
  by (simp add: consume_from_cache_def plist_end_def)

end
