(* ===== verification/MailboxProperties.thy ===== *)
theory MailboxProperties
  imports MailboxConcurrent ScheduledActor "HOL-Library.Multiset"
begin

text \<open>
  The properties of the mailbox: order, priorities, concurrent use, closing, skipped messages and timeouts.
\<close>

section \<open>A mailbox to start from\<close>

definition idle_mailbox :: mailbox where
  "idle_mailbox = mailbox_new \<lparr>nxt = \<lambda>_. Null, prv = \<lambda>_. Null, deleted = [], mstack = Null, mhead = Null,
     mid_of = \<lambda>n. if even n then mid_make High else Message_id (of_nat n)\<rparr>"

lemma idle_holds: "holds idle_mailbox [] [] []"
  by (simp add: idle_mailbox_def mailbox_new_rep)

lemma idle_high: "high idle_mailbox n \<longleftrightarrow> even n \<or> is_high_priority (Message_id (of_nat n))"
  by (simp add: high_def idle_mailbox_def mailbox_new_def plist_new_def mid_make_def is_high_priority_def
      high_prioity_flag_mask_def)

section \<open>Order\<close>

text \<open>
  Whatever sequence of enqueues and reads a mailbox runs, every operation returns, and the messages it
  has read followed by those it still holds are those it held followed by those enqueued, in order: none is
  lost, duplicated or overtaken.
\<close>

theorem mailbox_fifo:
  assumes "holds q ps [] []" and "distinct (ps @ enqueued ops)"
  shows "\<exists>rs rest q'. queue_run mailbox_enq mailbox_deq ops q = Some (rs, q') \<and> holds q' rest [] []
    \<and> rs @ rest = ps @ enqueued ops"
  by (rule mb.run_fifo [OF assms])

lemma mailbox_fifo_witness:
  "\<exists>rs rest q'. queue_run mailbox_enq mailbox_deq [Deq, Enq 1, Enq 2, Deq, Enq 3, Deq] idle_mailbox = Some (rs, q')
    \<and> holds q' rest [] [] \<and> rs @ rest = [1, 2, 3]"
  using mailbox_fifo [OF idle_holds, of "[Deq, Enq 1, Enq 2, Deq, Enq 3, Deq]"] by simp

definition mailbox_prio_deq :: "mailbox \<Rightarrow> (nat option \<times> mailbox) option" where
  "mailbox_prio_deq q =
     map_option (map_prod (\<lambda>p. if p = Null then None else Some (node_of p)) id) (next_message True q)"

text \<open>What a priority aware actor has read and what it holds, by priority.\<close>

definition prio_rep :: "mailbox \<Rightarrow> nat list \<Rightarrow> nat list \<Rightarrow> nat list \<Rightarrow> bool" where
  "prio_rep q ps hi lo \<longleftrightarrow> holds q ps (hi @ lo) [] \<and> (\<forall>n \<in> set hi. high q n) \<and> (\<forall>n \<in> set lo. \<not> high q n)"

lemma prio_enq:
  assumes "prio_rep q ps hi lo" and "n \<notin> set (ps @ hi @ lo)"
  shows "\<exists>q'. mailbox_enq n q = Some q' \<and> prio_rep q' (ps @ [n]) hi lo \<and> high q' = high q"
proof -
  obtain q' where q': "enqueue n q = Some (Success, q')" "holds q' (ps @ [n]) (hi @ lo) []" "mid_of q' = mid_of q"
    using enqueue_holds [of q ps "hi @ lo" "[]" n] assms by (auto simp: prio_rep_def)
  then have "high q' = high q" by (intro high_cong) simp
  with q' assms(1) show ?thesis by (simp add: prio_rep_def mailbox_enq_def)
qed

text \<open>The state after a read: what is read is the first of these lists that is not empty.\<close>

definition prio_next :: "(nat \<Rightarrow> bool) \<Rightarrow> nat list \<Rightarrow> nat list \<Rightarrow> nat list \<Rightarrow> nat list \<times> nat list \<times> nat list" where
  "prio_next H ps hi lo =
     (if hi \<noteq> [] then (ps, hi, lo) else ([], filter H ps, lo @ filter (\<lambda>n. \<not> H n) ps))"

lemma prio_deq:
  assumes "prio_rep q ps hi lo" and "prio_next (high q) ps hi lo = (ps', hi', lo')"
  shows "\<exists>q'. mailbox_prio_deq q = Some (case hi' @ lo' of [] \<Rightarrow> None | n # _ \<Rightarrow> Some n, q')
    \<and> prio_rep q' ps' (tl hi') (if hi' = [] then tl lo' else lo') \<and> high q' = high q"
proof -
  have h: "holds q ps (hi @ lo) []" and hi: "\<forall>n \<in> set hi. high q n" and lo: "\<forall>n \<in> set lo. \<not> high q n"
    using assms(1) by (simp_all add: prio_rep_def)
  have s: "sorted_messages (high q) (hi @ lo) ps = hi' @ lo'" "unsorted_messages (high q) (hi @ lo) ps = ps'"
    using assms(2) hi lo
    by (cases hi; cases lo; auto simp: prio_next_def sorted_messages_def unsorted_messages_def)+
  obtain q' where q': "next_message True q = Some (if hi' @ lo' = [] then Null else Node (hd (hi' @ lo')), q')"
      "holds q' ps' (tl (hi' @ lo')) []" "mid_of q' = mid_of q"
    using next_message_priority [OF h] unfolding s by blast
  have hq: "high q' = high q" by (rule high_cong [OF q'(3)])
  have "\<forall>n \<in> set hi'. high q n" "\<forall>n \<in> set lo'. \<not> high q n"
    using assms(2) hi lo by (auto simp: prio_next_def split: if_splits)
  then have "prio_rep q' ps' (tl hi') (if hi' = [] then tl lo' else lo')"
    using q'(2) hq by (cases hi') (auto simp: prio_rep_def dest: set_tlD)
  then show ?thesis using q'(1) hq by (auto simp: mailbox_prio_deq_def split: list.splits)
qed

lemma prio_run:
  assumes "prio_rep q ps hi lo" and "distinct (ps @ hi @ lo @ enqueued ops)" and "H = high q"
  shows "\<exists>rs q' ps' hi' lo'. queue_run mailbox_enq mailbox_prio_deq ops q = Some (rs, q') \<and> prio_rep q' ps' hi' lo'
    \<and> filter H rs @ hi' @ filter H ps' = hi @ filter H (ps @ enqueued ops)
    \<and> filter (\<lambda>n. \<not> H n) rs @ lo' @ filter (\<lambda>n. \<not> H n) ps' = lo @ filter (\<lambda>n. \<not> H n) (ps @ enqueued ops)"
  using assms
proof (induction ops arbitrary: q ps hi lo)
  case Nil
  then show ?case by (intro exI [of _ "[]"] exI [of _ q] exI [of _ ps] exI [of _ hi] exI [of _ lo]) simp
next
  case (Cons op ops)
  show ?case
  proof (cases op)
    case (Enq n)
    obtain q1 where q1: "mailbox_enq n q = Some q1" "prio_rep q1 (ps @ [n]) hi lo" "high q1 = high q"
      using prio_enq [OF Cons.prems(1), of n] Cons.prems(2) Enq by auto
    have "distinct ((ps @ [n]) @ hi @ lo @ enqueued ops)" using Cons.prems(2) Enq by auto
    from Cons.IH [OF q1(2) this] q1 Cons.prems(3) Enq show ?thesis by simp
  next
    case Deq
    obtain ps1 hi1 lo1 where nx: "prio_next (high q) ps hi lo = (ps1, hi1, lo1)" by (cases "prio_next (high q) ps hi lo") auto
    let ?hi = "tl hi1" and ?lo = "if hi1 = [] then tl lo1 else lo1"
    obtain q1 where q1: "mailbox_prio_deq q = Some (case hi1 @ lo1 of [] \<Rightarrow> None | n # _ \<Rightarrow> Some n, q1)"
        "prio_rep q1 ps1 ?hi ?lo" "high q1 = H"
      using prio_deq [OF Cons.prems(1) nx] Cons.prems(3) by auto
    have all: "hi1 @ filter H (ps1 @ enqueued ops) = hi @ filter H (ps @ enqueued ops)"
      "lo1 @ filter (\<lambda>n. \<not> H n) (ps1 @ enqueued ops) = lo @ filter (\<lambda>n. \<not> H n) (ps @ enqueued ops)"
      using nx Cons.prems(3) by (auto simp: prio_next_def split: if_splits)
    have "distinct (ps @ hi @ lo @ enqueued ops)" using Cons.prems(2) Deq by simp
    then have "distinct (ps1 @ hi1 @ lo1 @ enqueued ops)"
      using nx by (cases "hi = []") (auto simp: prio_next_def)
    then have d: "distinct (ps1 @ ?hi @ ?lo @ enqueued ops)" by (cases hi1; cases lo1) auto
    have H1: "\<forall>n \<in> set hi1. H n" "\<forall>n \<in> set lo1. \<not> H n"
      using nx Cons.prems(1,3) by (auto simp: prio_next_def prio_rep_def split: if_splits)
    obtain rs q' ps' hi' lo' where r: "queue_run mailbox_enq mailbox_prio_deq ops q1 = Some (rs, q')" "prio_rep q' ps' hi' lo'"
        "filter H rs @ hi' @ filter H ps' = ?hi @ filter H (ps1 @ enqueued ops)"
        "filter (\<lambda>n. \<not> H n) rs @ lo' @ filter (\<lambda>n. \<not> H n) ps' = ?lo @ filter (\<lambda>n. \<not> H n) (ps1 @ enqueued ops)"
      using Cons.IH [OF q1(2) d] q1(3) by auto
    let ?rs = "take 1 (hi1 @ lo1) @ rs"
    have "queue_run mailbox_enq mailbox_prio_deq (op # ops) q = Some (?rs, q')"
      using q1(1) r(1) Deq by (cases hi1; cases lo1) auto
    moreover have "filter H ?rs @ hi' @ filter H ps' = hi1 @ filter H (ps1 @ enqueued ops)"
      "filter (\<lambda>n. \<not> H n) ?rs @ lo' @ filter (\<lambda>n. \<not> H n) ps' = lo1 @ filter (\<lambda>n. \<not> H n) (ps1 @ enqueued ops)"
      using r(3,4) H1 by (cases hi1; cases lo1; auto)+
    moreover have "enqueued (op # ops) = enqueued ops" using Deq by simp
    ultimately show ?thesis using r(2) all
      by (intro exI [of _ ?rs] exI [of _ q'] exI [of _ ps'] exI [of _ hi'] exI [of _ lo']) (simp only: simp_thms)
  qed
qed

text \<open>
  A mailbox read by a priority aware actor keeps the order within each priority and loses nothing: after
  any sequence of enqueues and reads, the messages read and those still held are, for each of the two
  priorities, those enqueued with it, in order; and a read that finds a message of high priority anywhere
  in the mailbox or the cache returns one.
\<close>

theorem mailbox_priority:
  assumes "distinct (enqueued ops)" and "H = high idle_mailbox"
  shows "(\<exists>rs rest q'. queue_run mailbox_enq mailbox_prio_deq ops idle_mailbox = Some (rs, q')
      \<and> filter H rs @ filter H rest = filter H (enqueued ops)
      \<and> filter (\<lambda>n. \<not> H n) rs @ filter (\<lambda>n. \<not> H n) rest = filter (\<lambda>n. \<not> H n) (enqueued ops))
    \<and> (\<forall>q ps hi lo. prio_rep q ps hi lo \<and> (\<exists>n \<in> set (hi @ ps). high q n) \<longrightarrow>
         (\<exists>n q'. mailbox_prio_deq q = Some (Some n, q') \<and> high q n))"
proof (intro conjI allI impI)
  have "prio_rep idle_mailbox [] [] []" by (simp add: prio_rep_def idle_holds)
  then obtain rs q' ps' hi' lo' where r: "queue_run mailbox_enq mailbox_prio_deq ops idle_mailbox = Some (rs, q')"
      "prio_rep q' ps' hi' lo'" "filter H rs @ hi' @ filter H ps' = filter H (enqueued ops)"
      "filter (\<lambda>n. \<not> H n) rs @ lo' @ filter (\<lambda>n. \<not> H n) ps' = filter (\<lambda>n. \<not> H n) (enqueued ops)"
    using prio_run [of idle_mailbox "[]" "[]" "[]" ops H] assms by auto
  have "filter H hi' = hi'" "filter (\<lambda>n. \<not> H n) hi' = []" "filter (\<lambda>n. \<not> H n) lo' = lo'" "filter H lo' = []"
  proof -
    have "x \<in> set hi' \<Longrightarrow> H x" for x
    proof -
      assume "x \<in> set hi'"
      then have "x \<in> set (filter H rs @ hi' @ filter H ps')" by simp
      then show "H x" unfolding r(3) by simp
    qed
    moreover have "x \<in> set lo' \<Longrightarrow> \<not> H x" for x
    proof -
      assume "x \<in> set lo'"
      then have "x \<in> set (filter (\<lambda>n. \<not> H n) rs @ lo' @ filter (\<lambda>n. \<not> H n) ps')" by simp
      then show "\<not> H x" unfolding r(4) by simp
    qed
    ultimately show "filter H hi' = hi'" "filter (\<lambda>n. \<not> H n) hi' = []" "filter (\<lambda>n. \<not> H n) lo' = lo'" "filter H lo' = []"
      by (auto simp: filter_id_conv filter_empty_conv)
  qed
  with r show "\<exists>rs rest q'. queue_run mailbox_enq mailbox_prio_deq ops idle_mailbox = Some (rs, q')
      \<and> filter H rs @ filter H rest = filter H (enqueued ops)
      \<and> filter (\<lambda>n. \<not> H n) rs @ filter (\<lambda>n. \<not> H n) rest = filter (\<lambda>n. \<not> H n) (enqueued ops)"
    by (intro exI [of _ rs] exI [of _ "hi' @ lo' @ ps'"] exI [of _ q']) simp
next
  fix q ps hi lo
  assume p: "prio_rep q ps hi lo \<and> (\<exists>n \<in> set (hi @ ps). high q n)"
  obtain ps1 hi1 lo1 where nx: "prio_next (high q) ps hi lo = (ps1, hi1, lo1)" by (cases "prio_next (high q) ps hi lo") auto
  have "hi1 \<noteq> [] \<and> high q (hd hi1)"
  proof (cases "hi = []")
    case False
    with nx p show ?thesis by (auto simp: prio_next_def prio_rep_def)
  next
    case True
    with nx have h: "hi1 = filter (high q) ps" by (simp add: prio_next_def)
    moreover from this p True have "hi1 \<noteq> []" by (auto simp: filter_empty_conv)
    ultimately show ?thesis using hd_in_set [of hi1] by auto
  qed
  with prio_deq [of q ps hi lo ps1 hi1 lo1] nx p
  show "\<exists>n q'. mailbox_prio_deq q = Some (Some n, q') \<and> high q n" by (cases hi1) auto
qed

lemma mailbox_priority_witness:
  "\<exists>rs rest q'. queue_run mailbox_enq mailbox_prio_deq [Enq 1, Enq 2, Deq, Enq 3] idle_mailbox = Some (rs, q')
     \<and> filter (high idle_mailbox) rs @ filter (high idle_mailbox) rest = filter (high idle_mailbox) [1, 2, 3]"
  using mailbox_priority [of "[Enq 1, Enq 2, Deq, Enq 3]" "high idle_mailbox"] by auto

section \<open>Concurrent use\<close>

text \<open>A run: one writer pushes its element and the owner takes it.\<close>

lemma example_run:
  "\<exists>c. reachable c \<and> pushed c = [1] \<and> popped c = [1] \<and> owner c = Ready \<and> mhead (mbox c) = Null
    \<and> mstack (mbox c) = Stack_empty_dummy"
proof -
  define c0 where "c0 = \<lparr>mbox = idle_mailbox, writer = \<lambda>_. Idle, owner = Ready, pushed = [], popped = [], blocks = 0, wakeups = 0\<rparr>"
  have q0: "mstack (mbox c0) = Stack_empty_dummy" "mhead (mbox c0) = Null" "writer c0 1 = Idle"
    by (simp_all add: c0_def idle_mailbox_def mailbox_new_def)
  have "start c0" by (auto simp: start_def c0_def idle_mailbox_def)
  have ws: "cstep\<^sup>*\<^sup>* c d" if "cstep\<^sup>*\<^sup>* c c'" "wstep 1 c' d" for c c' d
    by (rule rtranclp.rtrancl_into_rtrancl [OF that(1)]) (use that(2) in \<open>auto simp: cstep_def\<close>)
  have os: "cstep\<^sup>*\<^sup>* c d" if "cstep\<^sup>*\<^sup>* c c'" "ostep c' d" for c c' d
    by (rule rtranclp.rtrancl_into_rtrancl [OF that(1)]) (use that(2) in \<open>simp add: cstep_def\<close>)
  obtain c1 where c1: "cstep\<^sup>*\<^sup>* c0 c1" "writer c1 1 = Loaded Stack_empty_dummy" "mbox c1 = mbox c0" "owner c1 = Ready"
      "pushed c1 = []" "popped c1 = []"
    using ws [OF _ wstep.w_load [of c0 1]] q0 by (fastforce simp: c0_def)
  obtain c2 where c2: "cstep\<^sup>*\<^sup>* c0 c2" "writer c2 1 = Linked Stack_empty_dummy" "mhead (mbox c2) = Null"
      "mstack (mbox c2) = Stack_empty_dummy" "nxt (mbox c2) (Node 1) = Null" "owner c2 = Ready" "pushed c2 = []" "popped c2 = []"
    using ws [OF c1(1) wstep.w_link [OF c1(2)]] c1 q0 by fastforce
  obtain c3 where c3: "cstep\<^sup>*\<^sup>* c0 c3" "mhead (mbox c3) = Null"
      "mstack (mbox c3) = Node 1" "nxt (mbox c3) (Node 1) = Null" "owner c3 = Ready" "pushed c3 = [1]" "popped c3 = []"
    using ws [OF c2(1) wstep.w_push [OF c2(2)]] c2 by (fastforce simp: cas_def)
  obtain c4 where c4: "cstep\<^sup>*\<^sup>* c0 c4" "mhead (mbox c4) = Null"
      "mstack (mbox c4) = Node 1" "nxt (mbox c4) (Node 1) = Null" "owner c4 = Fetching (Node 1) Stack_empty_dummy"
      "pushed c4 = [1]" "popped c4 = []"
    using os [OF c3(1) ostep.o_load [of c3 Stack_empty_dummy]] c3 by (fastforce simp: mclosed_def mblocked_def)
  obtain c5 where c5: "cstep\<^sup>*\<^sup>* c0 c5" "mhead (mbox c5) = Null"
      "mstack (mbox c5) = Stack_empty_dummy" "nxt (mbox c5) (Node 1) = Null" "owner c5 = Moving (Node 1)"
      "pushed c5 = [1]" "popped c5 = []"
    using os [OF c4(1) ostep.o_fetch [OF c4(5)]] c4 by (fastforce simp: cas_def)
  obtain c6 where c6: "cstep\<^sup>*\<^sup>* c0 c6" "mhead (mbox c6) = Node 1"
      "mstack (mbox c6) = Stack_empty_dummy" "nxt (mbox c6) (Node 1) = Null" "owner c6 = Moving Null"
      "pushed c6 = [1]" "popped c6 = []"
    using os [OF c5(1) ostep.o_move [OF c5(5)]] c5 by (fastforce simp: move_element_def)
  obtain c7 where c7: "cstep\<^sup>*\<^sup>* c0 c7" "mhead (mbox c7) = Node 1"
      "mstack (mbox c7) = Stack_empty_dummy" "nxt (mbox c7) (Node 1) = Null" "owner c7 = Ready"
      "pushed c7 = [1]" "popped c7 = []"
    using os [OF c6(1) ostep.o_moved [OF c6(5)]] c6 by fastforce
  obtain c8 where "cstep\<^sup>*\<^sup>* c0 c8" "mhead (mbox c8) = Null"
      "mstack (mbox c8) = Stack_empty_dummy" "owner c8 = Ready" "pushed c8 = [1]" "popped c8 = [1]"
    using os [OF c7(1) ostep.o_take [OF c7(5,2)]] c7 by fastforce
  with \<open>start c0\<close> show ?thesis by (auto simp: reachable_def)
qed

text \<open>
  C10: In every state that any number of concurrent writers and the owner of a mailbox can reach, what the
  owner has read is a prefix of the elements in the order in which their writers pushed them; no element is
  pushed twice; and it is pushed exactly when its call returned that it was accepted, deleted exactly once
  when its call returned that the queue was closed.
\<close>

theorem mailbox_concurrent:
  assumes "reachable c"
  shows "(\<exists>pending. pushed c = popped c @ pending) \<and> distinct (pushed c)
    \<and> (\<forall>n. n \<in> set (pushed c) \<longleftrightarrow> writer c n \<in> {Returned Success, Returned Unblocked_reader})
    \<and> distinct (deleted (mbox c)) \<and> (\<forall>n. n \<in> set (deleted (mbox c)) \<longleftrightarrow> writer c n = Returned Queue_closed)"
  using mailbox_holds_inv [OF assms] unfolding mailbox_inv_def lists_inv_def writers_inv_def accepted_def by blast

lemma mailbox_concurrent_witness:
  "\<exists>c. reachable c \<and> popped c = [1] \<and> (\<exists>pending. pushed c = popped c @ pending) \<and> distinct (pushed c)"
  using example_run mailbox_concurrent by metis

text \<open>
  C11: No message and no wake-up is lost: in a reachable state in which the owner is idle with nothing in its
  list and nothing on the stack, it has read all that was pushed; and the owner has been blocked as often as
  a writer was told to wake it, once more while it is blocked.
\<close>

theorem mailbox_nothing_lost:
  assumes "reachable c"
  shows "(owner c = Ready \<and> mhead (mbox c) = Null \<and> is_dummy (mstack (mbox c)) \<longrightarrow> popped c = pushed c)
    \<and> blocks c = wakeups c + (if mblocked (mbox c) then 1 else 0)"
proof -
  obtain hs ms ss where l: "lists_inv c hs ms ss" and w: "wakeup_inv c"
    using mailbox_holds_inv [OF assms] by (auto simp: mailbox_inv_def)
  have "popped c = pushed c" if "owner c = Ready" "mhead (mbox c) = Null" "is_dummy (mstack (mbox c))"
    using l that by (simp add: lists_inv_def stack_at_def)
  with w show ?thesis by (simp add: wakeup_inv_def)
qed

lemma mailbox_nothing_lost_witness: "\<exists>c. reachable c \<and> popped c = [1] \<and> popped c = pushed c \<and> blocks c = wakeups c"
proof -
  obtain c where c: "reachable c" "pushed c = [1]" "popped c = [1]" "owner c = Ready" "mhead (mbox c) = Null"
      "mstack (mbox c) = Stack_empty_dummy"
    using example_run by blast
  with mailbox_nothing_lost [OF c(1)] show ?thesis by (auto simp: mblocked_def)
qed

text \<open>
  Whatever the others have done, a writer that is left alone returns after at most five of its steps, and
  the state it returns in is reachable.
\<close>

theorem writer_progress:
  assumes "reachable c"
  shows "\<exists>d k. k \<le> 5 \<and> (wstep n ^^ k) c d \<and> reachable d \<and> (\<exists>r. writer d n = Returned r)"
proof -
  obtain d k where d: "(wstep n ^^ k) c d" "k \<le> 5" "finished (writer d n)" using writer_alone by blast
  have "cstep\<^sup>*\<^sup>* c e" if "(wstep n ^^ j) c e" for j e
    using that
  proof (induction j arbitrary: e)
    case (Suc j)
    then obtain e' where "(wstep n ^^ j) c e'" "wstep n e' e" by auto
    with Suc.IH [of e'] show ?case by (auto simp: cstep_def intro: rtranclp.rtrancl_into_rtrancl)
  qed simp
  from this [OF d(1)] assms have "reachable d" by (rule reachable_step [rotated])
  with d show ?thesis unfolding finished_def by blast
qed

lemma writer_progress_witness:
  "\<exists>c d k. reachable c \<and> k \<le> 5 \<and> (wstep 2 ^^ k) c d \<and> (\<exists>r. writer d 2 = Returned r)"
  using example_run writer_progress [where n = 2] by metis

section \<open>Closing, counting\<close>

text \<open>
  Closing a mailbox whose reader is not blocked deletes all that is in it, the list, the stack and the
  two parts of the cache in the order in which they are read. After that a message is deleted and, if it is a
  request with a sender, answered by one error with the identifier of the response.
\<close>

theorem mailbox_close_bounces:
  assumes "holds q ps as bs"
  shows "\<exists>q'. mclose q = Some q' \<and> deleted q' = deleted q @ ps @ as @ bs \<and> mclosed q'
    \<and> (\<forall>det eu sender n. scheduled_enqueue det eu sender n q'
         = Some (case sender of
                   Some a \<Rightarrow> if is_request (mid_of q' n) then [Response_sent a (response_id (mid_of q' n))] else []
                 | None \<Rightarrow> [], q'\<lparr>deleted := deleted q' @ [n]\<rparr>))"
proof -
  obtain hs ss where r: "mailbox_rep q hs ss as bs" "ps = hs @ rev ss" "\<not> mblocked q"
    using assms by (auto simp: holds_def mblocked_def)
  obtain q' where q': "mclose q = Some q'" "mstack q' = Null" "deleted q' = deleted q @ hs @ rev ss @ as @ bs"
    using mclose_rep [OF r(1)] r(3) by auto
  then have "enqueue n q' = Some (Queue_closed, delete_element n q')" for n
    by (intro enqueue_closed) (simp add: mclosed_def)
  with q' r(2) show ?thesis
    by (auto simp: mclosed_def scheduled_enqueue_def sync_request_bouncer_def delete_element_def Let_def split: option.split)
qed

lemma mailbox_close_bounces_witness:
  "\<exists>q q'. mclose q = Some q' \<and> deleted q' = deleted q @ [1, 2] \<and> mclosed q'"
proof -
  obtain q1 where q1: "holds q1 [1] [] []" using enqueue_holds [OF idle_holds, of 1] by auto
  obtain q2 where "holds q2 [1, 2] [] []" using enqueue_holds [OF q1, of 2] by auto
  from mailbox_close_bounces [OF this] show ?thesis by auto
qed

text \<open>
  Counting reorders: when the owner still has elements in its list and others have arrived, \<open>count\<close> gives
  the right number but leaves the later elements in front of the earlier ones, and the next read returns one
  that came after.
\<close>

theorem count_reorders:
  assumes "mailbox_rep q (h # hs) (ss @ [s]) as bs" and "length as + length bs < max_count"
  shows "\<exists>q' q''. mcount max_count q = Some (min max_count (length (as @ bs @ h # hs @ ss @ [s])), q')
    \<and> holds q' (s # rev ss @ h # hs) as bs \<and> try_pop q' = Some (Node s, q'')"
proof -
  obtain q' where q': "mcount max_count q = Some (min max_count (length (as @ bs @ h # hs @ ss @ [s])), q')"
      "mailbox_rep q' (s # rev ss @ h # hs) [] as bs" "mstack q' = Stack_empty_dummy"
    using mcount_rep [OF assms] by auto
  then have h: "holds q' (s # rev ss @ h # hs) as bs" by (auto simp: holds_def)
  obtain q'' where "try_pop q' = Some (Node s, q'')" using try_pop_holds(2) [OF h] by auto
  with q'(1) h show ?thesis by blast
qed

lemma count_reorders_witness:
  "\<exists>q q' q''. mailbox_rep q [1] [2] [] [] \<and> mcount 10 q = Some (2, q') \<and> try_pop q' = Some (Node 2, q'')"
proof -
  have "mailbox_rep idle_mailbox [] [] [] []" by (simp add: idle_mailbox_def mailbox_new_rep)
  moreover have "mstack idle_mailbox = Stack_empty_dummy" by (simp add: idle_mailbox_def mailbox_new_def)
  ultimately obtain q1 where q1: "mailbox_rep q1 [] [1] [] []" "mstack q1 = Node 1"
    using enqueue_rep [of idle_mailbox "[]" "[]" "[]" "[]" 1] by auto
  obtain q2 where q2: "mailbox_rep q2 [1] [] [] []" "mstack q2 = Stack_empty_dummy"
    using fetch_rep [OF q1(1), of Stack_empty_dummy] by auto
  obtain q3 where q3: "mailbox_rep q3 [1] ([] @ [2]) [] []" using enqueue_rep [OF q2(1), of 2] q2(2) by auto
  from count_reorders [OF q3, of 10] q3 show ?thesis by auto
qed

section \<open>Skipped messages and timeouts\<close>

text \<open>
  Going through the skipped messages returns, whatever the behavior does with them: it takes them in
  order up to the first that is consumed, deletes that one and those that are dropped, keeps those that are
  skipped again and those behind in their order, and leaves the rest of the mailbox alone.
\<close>

theorem skipped_messages:
  assumes "holds q ps as bs"
  shows "\<exists>ok s' kept del q'. consume_list consume bs s = (ok, s', kept, del)
    \<and> consume_from_cache consume s q = Some (ok, s', q') \<and> holds q' ps as kept \<and> deleted q' = deleted q @ del
    \<and> mset kept + mset del = mset bs"
proof -
  obtain ok s' kept del where c: "consume_list consume bs s = (ok, s', kept, del)" by (cases "consume_list consume bs s")
  have "consume_list consume ns t = (ok, s', kept, del) \<Longrightarrow> mset kept + mset del = mset ns" for ns t ok s' kept del
    by (induction ns arbitrary: t ok s' kept del) (auto split: prod.splits if_splits)
  then show ?thesis using c consume_from_cache_holds [OF assms c] by blast
qed

definition example_consume :: "nat \<Rightarrow> nat \<Rightarrow> invoke_message_result \<times> nat" where
  "example_consume n s = (if n = 1 then (Im_skipped, s) else if n = 2 then (Im_dropped, s) else (Im_success, s + n))"

lemma skipped_messages_witness:
  "\<exists>q q'. holds q [] [] [1, 2, 3, 4] \<and> consume_from_cache example_consume 0 q = Some (True, 3, q')
    \<and> holds q' [] [] [1, 4] \<and> deleted q' = deleted q @ [2, 3]"
proof -
  obtain q1 where q1: "holds q1 [] [] [1]" using insert_second_holds [of idle_mailbox "[]" "[]" "[]" "[]" 1] idle_holds by auto
  obtain q2 where q2: "holds q2 [] [] [1, 2]" using insert_second_holds [of q1 "[]" "[]" "[1]" "[]" 2] q1 by auto
  obtain q3 where q3: "holds q3 [] [] [1, 2, 3]" using insert_second_holds [of q2 "[]" "[]" "[1, 2]" "[]" 3] q2 by auto
  obtain q4 where q4: "holds q4 [] [] [1, 2, 3, 4]" using insert_second_holds [of q3 "[]" "[]" "[1, 2, 3]" "[]" 4] q3 by auto
  with skipped_messages [OF q4, of example_consume 0] show ?thesis by (auto simp: example_consume_def)
qed

text \<open>
  The identifier that \<open>request_timeout\<close> returns for a valid duration is never that of the active timeout:
  the message that is sent carries the next one, so that a reset with the returned identifier does nothing,
  while a reset with that of the message ends the timeout.
\<close>

theorem timeout_id_mismatch:
  assumes "duration_valid d" and "request_timeout d t = (tid, msgs, t')"
  shows "\<not> is_active_timeout tid t' \<and> reset_timeout tid t' = t'
    \<and> msgs = [if duration_is_zero d then Timeout_now (tid + 1) else Timeout_after d (tid + 1)]
    \<and> is_active_timeout (tid + 1) t' \<and> \<not> has_timeout (reset_timeout (tid + 1) t')"
proof -
  have "tid = timeout_id t + 1" "timeout_id t' = timeout_id t + 1 + 1" "has_timeout t'"
    and m: "msgs = [if duration_is_zero d then Timeout_now (timeout_id t + 1 + 1) else Timeout_after d (timeout_id t + 1 + 1)]"
    using assms by (auto simp: request_timeout_def Let_def)
  then show ?thesis by (simp add: is_active_timeout_def reset_timeout_def)
qed

lemma timeout_id_mismatch_witness:
  "\<exists>tid msgs t'. request_timeout (duration_of Seconds 1) \<lparr>timeout_id = 0, has_timeout = False\<rparr> = (tid, msgs, t')
    \<and> tid = 1 \<and> \<not> is_active_timeout tid t' \<and> is_active_timeout 2 t'"
  using timeout_id_mismatch [of "duration_of Seconds 1" "\<lparr>timeout_id = 0, has_timeout = False\<rparr>"]
  by (simp add: request_timeout_def Let_def duration_valid_def duration_of_def is_active_timeout_def)

end
