(* ===== verification/ActorLoop.thy ===== *)
theory ActorLoop
  imports ScheduledActor Monitorable
begin

text \<open>
  The life of a scheduled actor (libcaf_core/src/scheduled_actor.cpp): activation, the dispatch of a message to
  response handlers, system handlers or the behavior, the stack of behaviors (src/behavior_stack.cpp), the answer to
  the sender (src/response_promise.cpp, caf/detail/default_invoke_result_visitor.hpp), the loop over the mailbox and
  the end of the actor. The mailbox is the pair of lists that the operations of \<open>Mailbox\<close> implement, for an actor
  that does not ask for priorities. What the user's code does is a parameter.
\<close>

section \<open>Messages\<close>

text \<open>By the types of its values: \<open>Sys_get\<close> is the pair of atoms \<open>sys\<close> and \<open>get\<close> with a key.\<close>

datatype content =
    Sys_get string | Timeout_msg u32 | System_msg sys_msg | Error_msg error | Sec_msg sec | Info_reply string | Ordinary nat | Empty_msg

record element =
  elem_sender :: actor_ptr
  elem_mid :: message_id
  elem_stages :: "nat list"
  elem_content :: content

record behavior =
  bhvr_fun :: nat
  bhvr_timeout :: duration

datatype event =
    Delivered nat element                  \<comment> \<open>enqueued to an actor\<close>
  | Delayed duration element               \<comment> \<open>given to the clock, for the actor itself\<close>
  | Bounced nat message_id                 \<comment> \<open>the error \<open>request_receiver_down\<close>\<close>
  | Rescheduled
  | Unlinked nat
  | Printed
  | Exited
  | Dereferenced_null
  | Popped_empty_stack

section \<open>The actor\<close>

record 'u sactor =
  self :: nat
  inbox :: "element list"
  skipped :: "element list"
  closed :: bool
  blocked :: bool
  deleted_elems :: "element list"
  tmo :: timeouts
  elements :: "behavior list"          \<comment> \<open>the last is the current one\<close>
  erased_elements :: "behavior list"
  awaited_responses :: "(message_id \<times> behavior) list"
  multiplexed_responses :: "message_id \<rightharpoonup> behavior"
  fail :: error
  is_terminated :: bool
  is_initialized :: bool
  cleaned :: bool
  events :: "event list"
  user :: 'u

definition log_event :: "event \<Rightarrow> 'u sactor \<Rightarrow> 'u sactor" where
  "log_event e s = s\<lparr>events := events s @ [e]\<rparr>"

definition bounce :: "element \<Rightarrow> event list" where
  "bounce x = map (\<lambda>a. case a of Response_sent b mid \<Rightarrow> Bounced b mid)
     (sync_request_bouncer (elem_sender x) (elem_mid x))"

text \<open>A message to the actor itself goes to its mailbox.\<close>

definition deliver :: "nat \<Rightarrow> element \<Rightarrow> 'u sactor \<Rightarrow> 'u sactor" where
  "deliver to x s =
     (let s = log_event (Delivered to x) s
      in if to \<noteq> self s then s
         else if closed s then s\<lparr>deleted_elems := deleted_elems s @ [x], events := events s @ bounce x\<rparr>
         else if blocked s then log_event Rescheduled (s\<lparr>inbox := inbox s @ [x], blocked := False\<rparr>)
         else s\<lparr>inbox := inbox s @ [x]\<rparr>)"

definition plain :: "actor_ptr \<Rightarrow> message_id \<Rightarrow> content \<Rightarrow> element" where
  "plain sender mid c = \<lparr>elem_sender = sender, elem_mid = mid, elem_stages = [], elem_content = c\<rparr>"

section \<open>Responses\<close>

record promise =
  promise_source :: actor_ptr
  promise_stages :: "nat list"
  promise_id :: message_id

definition no_promise :: promise where
  "no_promise = \<lparr>promise_source = None, promise_stages = [], promise_id = invalid_message_id\<rparr>"

definition response_promise :: "element \<Rightarrow> promise" where
  "response_promise x =
     (if is_response (elem_mid x) then no_promise\<lparr>promise_id := elem_mid x\<rparr>
      else \<lparr>promise_source = elem_sender x, promise_stages = elem_stages x, promise_id = elem_mid x\<rparr>)"

definition make_response_promise :: "element \<Rightarrow> promise" where
  "make_response_promise x = (if is_answered (elem_mid x) then no_promise else response_promise x)"

definition pending :: "promise \<Rightarrow> bool" where
  "pending p \<longleftrightarrow> promise_stages p \<noteq> [] \<or> promise_source p \<noteq> None"

definition promise_async :: "promise \<Rightarrow> bool" where
  "promise_async p \<longleftrightarrow> is_async (promise_id p)"

text \<open>To the last stage with the stages before it, else to the source.\<close>

definition deliver_impl :: "promise \<Rightarrow> content \<Rightarrow> 'u sactor \<Rightarrow> 'u sactor" where
  "deliver_impl p msg s =
     (if promise_stages p \<noteq> [] then
        deliver (last (promise_stages p)) \<lparr>elem_sender = promise_source p, elem_mid = promise_id p,
          elem_stages = butlast (promise_stages p), elem_content = msg\<rparr> s
      else case promise_source p of
        Some a \<Rightarrow> deliver a (plain (Some (self s)) (response_id (promise_id p)) msg) s
      | None \<Rightarrow> s)"

text \<open>What a handler returns, as the visitor sees it.\<close>

datatype visit_result = Res_nothing | Res_error error | Res_message content | Res_none

definition delegate :: "element \<Rightarrow> (promise \<Rightarrow> 'u sactor \<Rightarrow> 'u sactor) \<Rightarrow> 'u sactor \<Rightarrow> 'u sactor" where
  "delegate x f s = (let rp = make_response_promise x in if \<not> pending rp then s else f rp s)"

fun visit :: "element \<Rightarrow> visit_result \<Rightarrow> 'u sactor \<Rightarrow> 'u sactor" where
  "visit x Res_nothing s = s"
| "visit x (Res_error e) s = delegate x (\<lambda>rp. deliver_impl rp (Error_msg e)) s"
| "visit x (Res_message m) s =
     delegate x (\<lambda>rp s. if m = Empty_msg \<and> promise_async rp then s else deliver_impl rp m s) s"
| "visit x Res_none s = delegate x (\<lambda>rp. deliver_impl rp (Error_msg (make_sec_error Sec_unexpected_response))) s"

section \<open>The user's code\<close>

datatype command =
    Become behavior bool               \<comment> \<open>and whether the old one is discarded\<close>
  | Unbecome
  | Quit error
  | Send_elem nat element
  | Await message_id behavior
  | Then message_id behavior
  | Print

datatype verdict = Matched visit_result | Skipped | Threw nat

datatype outcome = No_match | Ran "command list" verdict

datatype default_result = Rt_value content | Rt_error error | Rt_delegated | Rt_skip | Rt_threw nat

text \<open>\<open>exception_handler\<close> is empty unless the user sets it.\<close>

record 'u hooks =
  on_match :: "nat \<Rightarrow> content \<Rightarrow> 'u \<Rightarrow> outcome \<times> 'u"
  on_timeout :: "nat \<Rightarrow> 'u \<Rightarrow> (command list \<times> nat option) \<times> 'u"
  default_handler :: "element \<Rightarrow> 'u \<Rightarrow> (command list \<times> default_result) \<times> 'u"
  error_handler :: "error \<Rightarrow> 'u \<Rightarrow> (command list \<times> nat option) \<times> 'u"
  down_handler :: "nat \<Rightarrow> error \<Rightarrow> 'u \<Rightarrow> (command list \<times> nat option) \<times> 'u"
  exit_handler :: "nat \<Rightarrow> error \<Rightarrow> 'u \<Rightarrow> (command list \<times> nat option) \<times> 'u"
  initialize :: "'u \<Rightarrow> (command list \<times> nat option) \<times> 'u"
  on_exit :: "'u \<Rightarrow> command list \<times> 'u"
  exception_handler :: "(nat \<Rightarrow> error) option"
  render :: "content \<Rightarrow> string"

definition reflect :: "element \<Rightarrow> 'u \<Rightarrow> (command list \<times> default_result) \<times> 'u" where
  "reflect x u = (([], Rt_value (elem_content x)), u)"

definition reflect_and_quit :: "element \<Rightarrow> 'u \<Rightarrow> (command list \<times> default_result) \<times> 'u" where
  "reflect_and_quit x u = (([Quit (make_exit_error Exit_normal)], Rt_value (elem_content x)), u)"

definition print_and_drop :: "element \<Rightarrow> 'u \<Rightarrow> (command list \<times> default_result) \<times> 'u" where
  "print_and_drop x u = (([Print], Rt_error (make_sec_error Sec_unexpected_message)), u)"

definition drop_message :: "element \<Rightarrow> 'u \<Rightarrow> (command list \<times> default_result) \<times> 'u" where
  "drop_message x u = (([], Rt_error (make_sec_error Sec_unexpected_message)), u)"

definition default_error_handler :: "error \<Rightarrow> 'u \<Rightarrow> (command list \<times> nat option) \<times> 'u" where
  "default_error_handler x u = (([Quit x], None), u)"

definition default_down_handler :: "nat \<Rightarrow> error \<Rightarrow> 'u \<Rightarrow> (command list \<times> nat option) \<times> 'u" where
  "default_down_handler source x u = (([Print], None), u)"

definition default_exit_handler :: "nat \<Rightarrow> error \<Rightarrow> 'u \<Rightarrow> (command list \<times> nat option) \<times> 'u" where
  "default_exit_handler source x u = (if is_error x then default_error_handler x u else (([], None), u))"

section \<open>What handlers call\<close>

text \<open>\<open>request_timeout\<close> of \<open>ScheduledActor\<close>, with its messages sent.\<close>

definition send_timeout :: "timeout_msg \<Rightarrow> 'u sactor \<Rightarrow> 'u sactor" where
  "send_timeout m s =
     (case m of
        Timeout_now t \<Rightarrow> deliver (self s) (plain (Some (self s)) invalid_message_id (Timeout_msg t)) s
      | Timeout_after d t \<Rightarrow> log_event (Delayed d (plain (Some (self s)) (mid_make Normal) (Timeout_msg t))) s)"

definition actor_timeout :: "duration \<Rightarrow> 'u sactor \<Rightarrow> 'u sactor" where
  "actor_timeout d s =
     (case request_timeout d (tmo s) of (r, ms, t) \<Rightarrow> fold send_timeout ms (s\<lparr>tmo := t\<rparr>))"

definition stack_pop :: "'u sactor \<Rightarrow> 'u sactor" where
  "stack_pop s =
     (if elements s = [] then log_event Popped_empty_stack s
      else s\<lparr>erased_elements := erased_elements s @ [last (elements s)], elements := butlast (elements s)\<rparr>)"

definition stack_clear :: "'u sactor \<Rightarrow> 'u sactor" where
  "stack_clear s =
     (if elements s = [] then s
      else if erased_elements s = [] then s\<lparr>erased_elements := elements s, elements := erased_elements s\<rparr>
      else s\<lparr>erased_elements := erased_elements s @ elements s, elements := []\<rparr>)"

definition stack_cleanup :: "'u sactor \<Rightarrow> 'u sactor" where
  "stack_cleanup s = s\<lparr>erased_elements := []\<rparr>"

definition do_become :: "behavior \<Rightarrow> bool \<Rightarrow> 'u sactor \<Rightarrow> 'u sactor" where
  "do_become bhvr discard_old s =
     (let s = if discard_old \<and> elements s \<noteq> [] then stack_pop s else s;
          s = actor_timeout (bhvr_timeout bhvr) s
      in s\<lparr>elements := elements s @ [bhvr]\<rparr>)"

definition actor_quit :: "error \<Rightarrow> 'u sactor \<Rightarrow> 'u sactor" where
  "actor_quit x s = s\<lparr>fail := x, is_terminated := True\<rparr>"

definition request_response_timeout :: "duration \<Rightarrow> message_id \<Rightarrow> 'u sactor \<Rightarrow> 'u sactor" where
  "request_response_timeout d mid s =
     (if \<not> duration_valid d then s
      else log_event (Delayed d (plain (Some (self s)) (response_id mid) (Sec_msg Sec_request_timeout))) s)"

definition add_awaited_response_handler :: "message_id \<Rightarrow> behavior \<Rightarrow> 'u sactor \<Rightarrow> 'u sactor" where
  "add_awaited_response_handler rid bhvr s =
     (let s = if duration_valid (bhvr_timeout bhvr) then request_response_timeout (bhvr_timeout bhvr) rid s else s
      in s\<lparr>awaited_responses := (rid, bhvr) # awaited_responses s\<rparr>)"

text \<open>\<open>emplace\<close> keeps an entry that is there.\<close>

definition add_multiplexed_response_handler :: "message_id \<Rightarrow> behavior \<Rightarrow> 'u sactor \<Rightarrow> 'u sactor" where
  "add_multiplexed_response_handler rid bhvr s =
     (let s = if duration_valid (bhvr_timeout bhvr) then request_response_timeout (bhvr_timeout bhvr) rid s else s
      in if multiplexed_responses s rid = None
         then s\<lparr>multiplexed_responses := (multiplexed_responses s)(rid \<mapsto> bhvr)\<rparr> else s)"

fun run_command :: "command \<Rightarrow> 'u sactor \<Rightarrow> 'u sactor" where
  "run_command (Become b discard_old) s = do_become b discard_old s"
| "run_command Unbecome s = stack_pop s"
| "run_command (Quit x) s = actor_quit x s"
| "run_command (Send_elem to x) s = deliver to x s"
| "run_command (Await mid b) s = add_awaited_response_handler mid b s"
| "run_command (Then mid b) s = add_multiplexed_response_handler mid b s"
| "run_command Print s = log_event Printed s"

text \<open>A handler runs and may throw.\<close>

definition react :: "(command list \<times> nat option) \<times> 'u \<Rightarrow> 'u sactor \<Rightarrow> nat option \<times> 'u sactor" where
  "react r s = (case r of ((cs, exn), u) \<Rightarrow> (exn, fold run_command cs (s\<lparr>user := u\<rparr>)))"

definition call :: "'u hooks \<Rightarrow> behavior \<Rightarrow> content \<Rightarrow> 'u sactor \<Rightarrow> verdict option \<times> 'u sactor" where
  "call h b c s =
     (case on_match h (bhvr_fun b) c (user s) of
        (No_match, u) \<Rightarrow> (None, s\<lparr>user := u\<rparr>)
      | (Ran cs v, u) \<Rightarrow> (Some v, fold run_command cs (s\<lparr>user := u\<rparr>)))"

section \<open>Consuming a message\<close>

datatype message_category = Expired_timeout | Timeout | Cat_ordinary | Internal

fun categorize :: "'u hooks \<Rightarrow> element \<Rightarrow> 'u sactor \<Rightarrow> (nat + message_category) \<times> 'u sactor" where
  "categorize h x s =
     (case elem_content x of
        Sys_get what \<Rightarrow>
          (Inr Internal,
           case elem_sender x of
             None \<Rightarrow> log_event Dereferenced_null s
           | Some a \<Rightarrow> if what = ''info'' then deliver a (plain (Some (self s)) (response_id (elem_mid x)) (Info_reply what)) s
               else deliver a (plain (Some (self s)) (response_id (elem_mid x)) (Sec_msg Sec_unsupported_sys_key)) s)
      | Timeout_msg tid \<Rightarrow> (Inr (if is_active_timeout tid (tmo s) then Timeout else Expired_timeout), s)
      | System_msg (Exit_msg source reason) \<Rightarrow>
          (let s = log_event (Unlinked source) s
           in if error_eq reason (make_exit_error Kill) then (Inr Internal, actor_quit reason s)
              else case react (exit_handler h source reason (user s)) s of
                (None, s) \<Rightarrow> (Inr Internal, s) | (Some e, s) \<Rightarrow> (Inl e, s))
      | System_msg (Down_msg source reason) \<Rightarrow>
          (case react (down_handler h source reason (user s)) s of
             (None, s) \<Rightarrow> (Inr Internal, s) | (Some e, s) \<Rightarrow> (Inl e, s))
      | Error_msg err \<Rightarrow>
          (case react (error_handler h err (user s)) s of
             (None, s) \<Rightarrow> (Inr Internal, s) | (Some e, s) \<Rightarrow> (Inl e, s))
      | _ \<Rightarrow> (Inr Cat_ordinary, s))"

text \<open>A response handler that does not match is called again with an error that has the message.\<close>

definition call_response_handler :: "'u hooks \<Rightarrow> behavior \<Rightarrow> content \<Rightarrow> 'u sactor \<Rightarrow> nat option \<times> 'u sactor" where
  "call_response_handler h b c s =
     (case call h b c s of
        (Some (Threw e), s) \<Rightarrow> (Some e, s)
      | (Some (Matched r), s) \<Rightarrow> (None, s)
      | (v, s) \<Rightarrow>
          (case call h b (Error_msg ((make_sec_error Sec_unexpected_response)\<lparr>err_context := Some (render h c)\<rparr>)) s of
             (Some (Threw e), s) \<Rightarrow> (Some e, s) | (v, s) \<Rightarrow> (None, s)))"

text \<open>Whether the message is skipped.\<close>

definition call_default_handler :: "'u hooks \<Rightarrow> element \<Rightarrow> 'u sactor \<Rightarrow> (nat + bool) \<times> 'u sactor" where
  "call_default_handler h x s =
     (case default_handler h x (user s) of ((cs, r), u) \<Rightarrow>
        let s = fold run_command cs (s\<lparr>user := u\<rparr>)
        in case r of
             Rt_error e \<Rightarrow> (Inr False, visit x (Res_error e) s)
           | Rt_value c \<Rightarrow> (Inr False, visit x (Res_message c) s)
           | Rt_skip \<Rightarrow> (Inr True, s)
           | Rt_delegated \<Rightarrow> (Inr False, s)
           | Rt_threw e \<Rightarrow> (Inl e, s))"

definition consume_ordinary :: "'u hooks \<Rightarrow> element \<Rightarrow> 'u sactor \<Rightarrow> (nat + invoke_message_result) \<times> 'u sactor" where
  "consume_ordinary h x s =
     (let had_timeout = has_timeout (tmo s);
          s = s\<lparr>tmo := (tmo s)\<lparr>has_timeout := False\<rparr>\<rparr>;
          (r, s) =
            (if elements s = [] then call_default_handler h x s
             else case call h (last (elements s)) (elem_content x) s of
               (None, s) \<Rightarrow> call_default_handler h x s
             | (Some Skipped, s) \<Rightarrow> (Inr True, s)
             | (Some (Matched res), s) \<Rightarrow> (Inr False, visit x res s)
             | (Some (Threw e), s) \<Rightarrow> (Inl e, s))
      in case r of
           Inl e \<Rightarrow> (Inl e, s)
         | Inr skip \<Rightarrow>
             (Inr (if skip then Im_skipped else Im_success),
              if skip \<and> had_timeout then s\<lparr>tmo := (tmo s)\<lparr>has_timeout := True\<rparr>\<rparr> else s))"

definition consume :: "'u hooks \<Rightarrow> element \<Rightarrow> 'u sactor \<Rightarrow> (nat + invoke_message_result) \<times> 'u sactor" where
  "consume h x s =
     (case awaited_responses s of
        (mid, b) # _ \<Rightarrow>
          (if elem_mid x \<noteq> mid then (Inr Im_skipped, s)
           else case call_response_handler h b (elem_content x) s of
             (Some e, s) \<Rightarrow> (Inl e, s)
           | (None, s) \<Rightarrow> (Inr Im_success, s\<lparr>awaited_responses := tl (awaited_responses s)\<rparr>))
      | [] \<Rightarrow>
          (if is_response (elem_mid x) then
             case multiplexed_responses s (elem_mid x) of
               None \<Rightarrow> (Inr Im_dropped, s)
             | Some b \<Rightarrow>
                 (case call_response_handler h b (elem_content x) s of
                    (Some e, s) \<Rightarrow> (Inl e, s)
                  | (None, s) \<Rightarrow> (Inr Im_success, s\<lparr>multiplexed_responses := (multiplexed_responses s)(elem_mid x := None)\<rparr>))
           else case categorize h x s of
             (Inl e, s) \<Rightarrow> (Inl e, s)
           | (Inr Expired_timeout, s) \<Rightarrow> (Inr Im_dropped, s)
           | (Inr Internal, s) \<Rightarrow> (Inr Im_success, s)
           | (Inr Timeout, s) \<Rightarrow>
               (if elements s = [] then (Inr Im_dropped, s)
                else case react (on_timeout h (bhvr_fun (last (elements s))) (user s)) s of
                  (None, s) \<Rightarrow> (Inr Im_success, s) | (Some e, s) \<Rightarrow> (Inl e, s))
           | (Inr Cat_ordinary, s) \<Rightarrow> consume_ordinary h x s))"

section \<open>The end of an actor\<close>

definition has_behavior :: "'u sactor \<Rightarrow> bool" where
  "has_behavior s \<longleftrightarrow> elements s \<noteq> [] \<or> awaited_responses s \<noteq> [] \<or> multiplexed_responses s \<noteq> Map.empty"

definition close_mailbox :: "'u sactor \<Rightarrow> 'u sactor" where
  "close_mailbox s =
     s\<lparr>closed := True, inbox := [], skipped := [], deleted_elems := deleted_elems s @ inbox s @ skipped s,
       events := events s @ concat (map bounce (inbox s @ skipped s))\<rparr>"

definition actor_cleanup :: "error \<Rightarrow> 'u sactor \<Rightarrow> 'u sactor" where
  "actor_cleanup reason s =
     (let s = s\<lparr>awaited_responses := [], multiplexed_responses := Map.empty\<rparr>;
          s = if closed s then s else close_mailbox s
      in if cleaned s then s
         else log_event Exited (s\<lparr>fail := reason, is_terminated := True, cleaned := True\<rparr>))"

definition finalize :: "'u hooks \<Rightarrow> 'u sactor \<Rightarrow> bool \<times> 'u sactor" where
  "finalize h s =
     (if has_behavior s \<and> \<not> is_terminated s then (False, s)
      else
        let (cs, u) = on_exit h (user s);
            s = fold run_command cs (s\<lparr>user := u\<rparr>);
            s = stack_cleanup (stack_clear s)
        in (True, actor_cleanup (fail s) s))"

text \<open>An exception: \<open>Inl\<close> when there is no handler and the call of the empty function throws.\<close>

definition handle_exception :: "'u hooks \<Rightarrow> nat \<Rightarrow> 'u sactor \<Rightarrow> (nat + unit) \<times> 'u sactor" where
  "handle_exception h e s =
     (case exception_handler h of
        None \<Rightarrow> (Inl e, s)
      | Some f \<Rightarrow> (Inr (), snd (finalize h (actor_quit (f e) s))))"

section \<open>Activation\<close>

definition activate :: "'u hooks \<Rightarrow> 'u sactor \<Rightarrow> (nat + bool) \<times> 'u sactor" where
  "activate h s =
     (if is_initialized s \<and> (\<not> has_behavior s \<or> is_terminated s) then (Inr False, s)
      else if is_initialized s then (Inr True, s)
      else case react (initialize h (user s)) (s\<lparr>is_initialized := True\<rparr>) of
        (Some e, s) \<Rightarrow>
          (case handle_exception h e s of (Inl e, s) \<Rightarrow> (Inl e, s) | (Inr _, s) \<Rightarrow> (Inr False, s))
      | (None, s) \<Rightarrow> (case finalize h s of (end_reached, s) \<Rightarrow> (Inr (\<not> end_reached), s)))"

datatype activation_result = Act_success | Act_terminated | Act_skipped | Act_dropped

definition reactivate :: "'u hooks \<Rightarrow> element \<Rightarrow> 'u sactor \<Rightarrow> (nat + activation_result) \<times> 'u sactor" where
  "reactivate h x s =
     (case consume h x s of
        (Inr Im_dropped, s) \<Rightarrow> (Inr Act_dropped, s)
      | (Inr Im_success, s) \<Rightarrow>
          (case finalize h (stack_cleanup s) of
             (end_reached, s) \<Rightarrow> (Inr (if end_reached then Act_terminated else Act_success), s))
      | (Inr Im_skipped, s) \<Rightarrow> (Inr Act_skipped, s)
      | (Inl e, s) \<Rightarrow>
          (case handle_exception h e s of (Inl e, s) \<Rightarrow> (Inl e, s) | (Inr _, s) \<Rightarrow> (Inr Act_terminated, s)))"

definition activate_message :: "'u hooks \<Rightarrow> element \<Rightarrow> 'u sactor \<Rightarrow> (nat + activation_result) \<times> 'u sactor" where
  "activate_message h x s =
     (case activate h s of
        (Inl e, s) \<Rightarrow> (Inl e, s)
      | (Inr False, s) \<Rightarrow> (Inr Act_terminated, s)
      | (Inr True, s) \<Rightarrow> reactivate h x s)"

section \<open>The loop\<close>

text \<open>The cache: what is kept comes first, then what is not yet tried.\<close>

fun cache_loop ::
  "'u hooks \<Rightarrow> element list \<Rightarrow> element list \<Rightarrow> 'u sactor \<Rightarrow> (nat + bool) \<times> 'u sactor" where
  "cache_loop h kept [] s = (Inr False, s\<lparr>skipped := kept\<rparr>)"
| "cache_loop h kept (x # xs) s =
     (case consume h x s of
        (Inl e, s) \<Rightarrow> (Inl e, s\<lparr>skipped := kept @ x # xs\<rparr>)
      | (Inr Im_success, s) \<Rightarrow> (Inr True, s\<lparr>skipped := kept @ xs, deleted_elems := deleted_elems s @ [x]\<rparr>)
      | (Inr Im_skipped, s) \<Rightarrow> cache_loop h (kept @ [x]) xs s
      | (Inr Im_dropped, s) \<Rightarrow> cache_loop h kept xs (s\<lparr>deleted_elems := deleted_elems s @ [x]\<rparr>))"

definition actor_consume_from_cache :: "'u hooks \<Rightarrow> 'u sactor \<Rightarrow> (nat + bool) \<times> 'u sactor" where
  "actor_consume_from_cache h s = cache_loop h [] (skipped s) s"

datatype resume_result = Resume_later | Awaiting_message | Done | Shutdown_execution_unit

text \<open>Consuming from the cache as often as possible: the number of messages, and whether the actor has ended.\<close>

partial_function (option) drain_cache ::
  "'u hooks \<Rightarrow> nat \<Rightarrow> 'u sactor \<Rightarrow> ((nat + nat \<times> bool) \<times> 'u sactor) option" where
  [code]: "drain_cache h n s =
     (case actor_consume_from_cache h s of (r, s) \<Rightarrow>
        if \<not> isl r then
          if projr r then
            case finalize h (stack_cleanup s) of (end_reached, s) \<Rightarrow>
              if end_reached then Some (Inr (n + 1, True), s) else drain_cache h (n + 1) s
          else Some (Inr (n, False), s)
        else Some (Inl (projl r), s))"

definition reset_timeout_if_needed :: "nat \<Rightarrow> 'u sactor \<Rightarrow> 'u sactor" where
  "reset_timeout_if_needed handled_msgs s =
     (if handled_msgs > 0 \<and> elements s \<noteq> [] then actor_timeout (bhvr_timeout (last (elements s))) s else s)"

definition delete_elem :: "element \<Rightarrow> 'u sactor \<Rightarrow> 'u sactor" where
  "delete_elem x s = s\<lparr>deleted_elems := deleted_elems s @ [x]\<rparr>"

text \<open>An empty mailbox is blocked; nobody else runs in between.\<close>

partial_function (option) resume_loop ::
  "'u hooks \<Rightarrow> nat \<Rightarrow> nat \<Rightarrow> 'u sactor \<Rightarrow> ((nat + resume_result) \<times> 'u sactor) option" where
  [code]: "resume_loop h max_throughput handled_msgs s =
     (if handled_msgs \<ge> max_throughput then
        let s = reset_timeout_if_needed handled_msgs s
        in Some (if inbox s = [] then (Inr Awaiting_message, s\<lparr>blocked := True\<rparr>) else (Inr Resume_later, s))
      else if inbox s = [] then
        Some (Inr Awaiting_message, reset_timeout_if_needed handled_msgs (s\<lparr>blocked := True\<rparr>))
      else
        let x = hd (inbox s) in
        case reactivate h x (s\<lparr>inbox := tl (inbox s)\<rparr>) of (r, s) \<Rightarrow>
          if isl r then Some (Inl (projl r), delete_elem x s)
          else if projr r = Act_terminated then Some (Inr Done, delete_elem x s)
          else if projr r = Act_success then
            Option.bind (drain_cache h (handled_msgs + 1) s) (\<lambda>(r, s).
              if isl r then Some (Inl (projl r), delete_elem x s)
              else if snd (projr r) then Some (Inr Done, delete_elem x s)
              else resume_loop h max_throughput (fst (projr r)) (delete_elem x s))
          else if projr r = Act_skipped then resume_loop h max_throughput handled_msgs (s\<lparr>skipped := skipped s @ [x]\<rparr>)
          else resume_loop h max_throughput handled_msgs (delete_elem x s))"

definition resume ::
  "'u hooks \<Rightarrow> nat \<Rightarrow> 'u sactor \<Rightarrow> ((nat + resume_result) \<times> 'u sactor) option" where
  "resume h max_throughput s =
     (case activate h s of (r, s) \<Rightarrow>
        if isl r then Some (Inl (projl r), s)
        else if projr r then resume_loop h max_throughput 0 s
        else Some (Inr Done, s))"

section \<open>Launching\<close>

datatype launch_action = Registered bool | Thread_started | Launch_ref_added | Launch_exec_later

definition actor_try_block :: "'u sactor \<Rightarrow> bool \<times> 'u sactor" where
  "actor_try_block s =
     (if inbox s = [] \<and> \<not> closed s \<and> \<not> blocked s then (True, s\<lparr>blocked := True\<rparr>) else (False, s))"

definition launch :: "bool \<Rightarrow> bool \<Rightarrow> bool \<Rightarrow> 'u sactor \<Rightarrow> launch_action list \<times> 'u sactor" where
  "launch is_detached lazy hide s =
     (if is_detached then ([Registered (\<not> hide), Thread_started], s)
      else case (if lazy then actor_try_block s else (False, s)) of (is_blocked, s) \<Rightarrow>
        if is_blocked then ([Registered (\<not> hide)], s)
        else ([Registered (\<not> hide), Launch_ref_added, Launch_exec_later], s))"

end
