(* ===== verification/ActorLemmas.thy ===== *)
theory ActorLemmas
  imports ActorLoop "HOL-Library.Multiset"
begin

text \<open>
  What the steps of an actor leave alone, that its loops end, and where its messages go.
\<close>

section \<open>Handlers leave the mailbox alone but for what they send\<close>

fun sent_to :: "nat \<Rightarrow> event list \<Rightarrow> element list" where
  "sent_to a [] = []"
| "sent_to a (e # es) = (case e of Delivered b x \<Rightarrow> if b = a then [x] else [] | _ \<Rightarrow> []) @ sent_to a es"

lemma sent_to_append [simp]: "sent_to a (es @ fs) = sent_to a es @ sent_to a fs"
  by (induction es) simp_all

definition self_sent :: "'u sactor \<Rightarrow> element list" where
  "self_sent s = sent_to (self s) (events s)"

definition frame :: "'u sactor \<Rightarrow> 'u sactor \<Rightarrow> bool" where
  "frame s s' \<longleftrightarrow> \<not> closed s \<longrightarrow>
     \<not> closed s' \<and> self s' = self s \<and> skipped s' = skipped s \<and> cleaned s' = cleaned s \<and> is_initialized s' = is_initialized s
     \<and> deleted_elems s' = deleted_elems s \<and> (\<exists>ms. inbox s' = inbox s @ ms \<and> self_sent s' = self_sent s @ ms)"

lemma frame_refl [simp, intro]: "frame s s"
  by (simp add: frame_def)

lemma frame_trans [trans]: "frame s t \<Longrightarrow> frame t u \<Longrightarrow> frame s u"
  unfolding frame_def by fastforce

lemma frameD:
  assumes "frame s s'" and "\<not> closed s"
  shows "\<not> closed s'" "self s' = self s" "skipped s' = skipped s" "cleaned s' = cleaned s"
    "is_initialized s' = is_initialized s" "deleted_elems s' = deleted_elems s"
    "\<exists>ms. inbox s' = inbox s @ ms \<and> self_sent s' = self_sent s @ ms"
  using assms unfolding frame_def by blast+

text \<open>Updates of the other fields.\<close>

lemma frame_upd [simp, intro]:
  "frame s (s\<lparr>tmo := t\<rparr>)" "frame s (s\<lparr>elements := bs\<rparr>)" "frame s (s\<lparr>erased_elements := bs\<rparr>)"
  "frame s (s\<lparr>awaited_responses := aw\<rparr>)" "frame s (s\<lparr>multiplexed_responses := mp\<rparr>)" "frame s (s\<lparr>fail := e\<rparr>)"
  "frame s (s\<lparr>is_terminated := b\<rparr>)" "frame s (s\<lparr>user := u\<rparr>)"
  "frame s (s\<lparr>erased_elements := bs, elements := cs\<rparr>)" "frame s (s\<lparr>elements := cs, erased_elements := bs\<rparr>)"
  "frame s (s\<lparr>fail := e, is_terminated := b\<rparr>)"
  by (simp_all add: frame_def self_sent_def)

lemma frame_log: "\<forall>to x. e \<noteq> Delivered to x \<Longrightarrow> frame s (log_event e s)"
  by (cases e) (auto simp: frame_def log_event_def self_sent_def)

lemma self_sent_log [simp]:
  "self_sent (log_event (Delivered to x) s) = self_sent s @ (if to = self s then [x] else [])"
  "self_sent (log_event Rescheduled s) = self_sent s"
  "self_sent (s\<lparr>inbox := is\<rparr>) = self_sent s"
  "self_sent (s\<lparr>inbox := is, blocked := b\<rparr>) = self_sent s"
  by (simp_all add: self_sent_def log_event_def List.map_filter_def)

lemma log_event_simps [simp]:
  "self (log_event e s) = self s" "closed (log_event e s) = closed s" "inbox (log_event e s) = inbox s"
  "skipped (log_event e s) = skipped s" "cleaned (log_event e s) = cleaned s" "blocked (log_event e s) = blocked s"
  "is_initialized (log_event e s) = is_initialized s" "deleted_elems (log_event e s) = deleted_elems s"
  "elements (log_event e s) = elements s" "awaited_responses (log_event e s) = awaited_responses s"
  "multiplexed_responses (log_event e s) = multiplexed_responses s" "fail (log_event e s) = fail s"
  "is_terminated (log_event e s) = is_terminated s" "tmo (log_event e s) = tmo s" "user (log_event e s) = user s"
  "erased_elements (log_event e s) = erased_elements s" "events (log_event e s) = events s @ [e]"
  by (simp_all add: log_event_def)

lemma frame_deliver [simp, intro]: "frame s (deliver to x s)"
  by (simp add: frame_def deliver_def Let_def)

lemma frame_timeout [simp, intro]: "frame s (send_timeout m s)"
  by (cases m) (simp_all add: send_timeout_def frame_log)

lemma frame_fold:
  assumes "\<And>c s. frame s (f c s)"
  shows "frame s (fold f cs s)"
  by (induction cs arbitrary: s) (auto intro: frame_trans assms)

lemma frame_actor_timeout [simp, intro]: "frame s (actor_timeout d s)"
  unfolding actor_timeout_def
  by (cases "request_timeout d (tmo s)") (auto intro: frame_trans [OF _ frame_fold])

lemma frame_stack [simp, intro]:
  "frame s (stack_pop s)" "frame s (stack_clear s)" "frame s (stack_cleanup s)"
  by (simp_all add: stack_pop_def stack_clear_def stack_cleanup_def frame_log)

lemma frame_become [simp, intro]: "frame s (do_become b d s)"
proof -
  have "frame s (actor_timeout (bhvr_timeout b) (if d \<and> elements s \<noteq> [] then stack_pop s else s))"
    by (rule frame_trans [OF _ frame_actor_timeout]) simp
  then show ?thesis unfolding do_become_def Let_def by (rule frame_trans) simp
qed

lemma frame_response_timeout [simp, intro]: "frame s (request_response_timeout d mid s)"
  by (simp add: request_response_timeout_def frame_log)

lemma frame_add_handler [simp, intro]:
  "frame s (add_awaited_response_handler mid b s)" "frame s (add_multiplexed_response_handler mid b s)"
  unfolding add_awaited_response_handler_def add_multiplexed_response_handler_def Let_def
  by (auto intro: frame_trans [OF frame_response_timeout])

lemma frame_command [simp, intro]: "frame s (run_command c s)"
  by (cases c) (simp_all add: actor_quit_def frame_log)

lemma frame_commands [simp, intro]: "frame s (fold run_command cs s)"
  by (rule frame_fold) simp

lemma frame_user_commands [simp, intro]: "frame s (fold run_command cs (s\<lparr>user := u\<rparr>))"
  by (rule frame_trans [OF _ frame_commands]) simp

lemma frame_react: "react r s = (e, s') \<Longrightarrow> frame s s'"
  by (auto simp: react_def split: prod.splits)

lemma frame_call: "call h b c s = (v, s') \<Longrightarrow> frame s s'"
  by (auto simp: call_def split: prod.splits outcome.splits)

lemma frame_deliver_impl [simp, intro]: "frame s (deliver_impl p m s)"
  by (simp add: deliver_impl_def split: option.split)

lemma frame_visit [simp, intro]: "frame s (visit x r s)"
  by (cases r) (simp_all add: delegate_def Let_def)

lemma frame_response_handler: "call_response_handler h b c s = (e, s') \<Longrightarrow> frame s s'"
  by (auto simp: call_response_handler_def split: prod.splits option.splits verdict.splits
      dest!: frame_call intro: frame_trans)

lemma frame_user_visit [simp, intro]: "frame s (visit x r (fold run_command cs (s\<lparr>user := u\<rparr>)))"
  by (rule frame_trans [OF frame_user_commands frame_visit])

lemma frame_default: "call_default_handler h x s = (r, s') \<Longrightarrow> frame s s'"
  by (auto simp: call_default_handler_def Let_def simp del: visit.simps split: prod.splits default_result.splits)

lemma frame_categorize: "categorize h x s = (r, s') \<Longrightarrow> frame s s'"
proof (cases "elem_content x")
  case (System_msg m)
  assume c: "categorize h x s = (r, s')"
  show ?thesis
  proof (cases m)
    case (Exit_msg source reason)
    have l: "frame s (log_event (Unlinked source) s)" by (simp add: frame_log)
    have q: "frame t (actor_quit reason t)" for t :: "'a sactor" by (simp add: actor_quit_def)
    from c System_msg Exit_msg show ?thesis
      by (auto simp: Let_def split: prod.splits option.splits if_splits dest!: frame_react
          intro: frame_trans [OF l] q)
  next
    case (Down_msg source reason)
    from c System_msg this show ?thesis by (auto split: prod.splits option.splits dest: frame_react)
  qed
next
  case (Error_msg e)
  assume "categorize h x s = (r, s')"
  then show ?thesis using Error_msg by (auto split: prod.splits option.splits dest: frame_react)
qed (auto simp: frame_log split: option.splits if_splits)

lemma frame_ordinary:
  assumes "consume_ordinary h x s = (r, s')"
  shows "frame s s'"
proof -
  define s1 where "s1 = s\<lparr>tmo := (tmo s)\<lparr>has_timeout := False\<rparr>\<rparr>"
  have f1: "frame s s1" by (simp add: s1_def)
  obtain q t where q: "(if elements s1 = [] then call_default_handler h x s1
             else case call h (last (elements s1)) (elem_content x) s1 of
               (None, s) \<Rightarrow> call_default_handler h x s
             | (Some Skipped, s) \<Rightarrow> (Inr True, s)
             | (Some (Matched res), s) \<Rightarrow> (Inr False, visit x res s)
             | (Some (Threw e), s) \<Rightarrow> (Inl e, s)) = (q, t)" by (rule prod.exhaust)
  then have f2: "frame s1 t"
    by (auto simp del: visit.simps split: if_splits prod.splits option.splits verdict.splits
        dest!: frame_call frame_default intro: frame_trans frame_visit)
  have "s' = t \<or> s' = t\<lparr>tmo := (tmo t)\<lparr>has_timeout := True\<rparr>\<rparr>"
    using assms q unfolding consume_ordinary_def Let_def s1_def [symmetric] by (auto split: sum.splits)
  then show ?thesis using frame_trans [OF f1 f2] by (auto intro: frame_trans)
qed

theorem frame_consume:
  assumes "consume h x s = (r, s')"
  shows "frame s s'"
proof (cases "awaited_responses s")
  case (Cons p aw)
  with assms show ?thesis
    by (auto simp: consume_def split: prod.splits if_splits option.splits dest!: frame_response_handler
        intro: frame_trans)
next
  case Nil
  show ?thesis
  proof (cases "is_response (elem_mid x)")
    case True
    with assms Nil show ?thesis
      by (auto simp: consume_def split: prod.splits if_splits option.splits dest!: frame_response_handler
          intro: frame_trans)
  next
    case False
    obtain c t where c: "categorize h x s = (c, t)" by (rule prod.exhaust)
    have "frame t s'"
      using assms Nil False c
      by (auto simp: consume_def split: prod.splits if_splits option.splits sum.splits message_category.splits
          dest: frame_react frame_ordinary)
    then show ?thesis using frame_categorize [OF c] frame_trans by blast
  qed
qed

section \<open>Where messages go\<close>

definition account :: "'u sactor \<Rightarrow> element multiset" where
  "account s = mset (inbox s) + mset (skipped s) + mset (deleted_elems s)"

text \<open>Each message of the actor is in its mailbox or deleted; new are those it sent to itself.\<close>

definition balanced :: "'u sactor \<Rightarrow> 'u sactor \<Rightarrow> bool" where
  "balanced s s' \<longleftrightarrow> self s' = self s \<and> account s' + mset (self_sent s) = account s + mset (self_sent s')"

lemma balanced_refl [simp, intro]: "balanced s s"
  by (simp add: balanced_def)

lemma balanced_trans [trans]:
  assumes "balanced s t" and "balanced t u"
  shows "balanced s u"
proof -
  have "account t + mset (self_sent s) = account s + mset (self_sent t)"
    "account u + mset (self_sent t) = account t + mset (self_sent u)"
    using assms by (simp_all add: balanced_def)
  then have "account u + mset (self_sent t) + mset (self_sent s) = account s + mset (self_sent t) + mset (self_sent u)"
    by (metis add.assoc add.commute)
  then show ?thesis using assms by (auto simp: balanced_def ac_simps)
qed

lemma frame_balanced: "frame s s' \<Longrightarrow> \<not> closed s \<Longrightarrow> balanced s s'"
  by (auto simp: frame_def balanced_def account_def)

section \<open>The end of an actor\<close>

definition alive :: "'u sactor \<Rightarrow> bool" where
  "alive s \<longleftrightarrow> \<not> closed s \<and> \<not> cleaned s \<and> is_initialized s"

definition ended :: "'u sactor \<Rightarrow> bool" where
  "ended s \<longleftrightarrow> closed s \<and> cleaned s \<and> is_terminated s \<and> is_initialized s \<and> \<not> has_behavior s
     \<and> inbox s = [] \<and> skipped s = []"

lemma frame_alive: "frame s s' \<Longrightarrow> alive s \<Longrightarrow> alive s'"
  by (auto simp: frame_def alive_def)

lemma sent_to_bounce [simp]: "sent_to a (bounce x) = []"
  by (auto simp: bounce_def sync_request_bouncer_def split: option.split)

lemma sent_to_bounces [simp]: "sent_to a (concat (map bounce xs)) = []"
  by (induction xs) simp_all

lemma cleanup_balanced: "balanced s (actor_cleanup r s)"
  by (simp add: actor_cleanup_def close_mailbox_def balanced_def account_def self_sent_def Let_def)

lemma finalize_not: "finalize h s = (False, s') \<Longrightarrow> s' = s \<and> has_behavior s \<and> \<not> is_terminated s"
  by (simp add: finalize_def Let_def split: if_splits prod.splits)

lemma finalize_end:
  assumes "finalize h s = (True, s')" and "alive s"
  shows "balanced s s'" "ended s'" "fail s' = fail (fold run_command (fst (on_exit h (user s))) (s\<lparr>user := snd (on_exit h (user s))\<rparr>))"
proof -
  obtain cs u where ex: "on_exit h (user s) = (cs, u)" by (rule prod.exhaust)
  define t where "t = stack_cleanup (stack_clear (fold run_command cs (s\<lparr>user := u\<rparr>)))"
  have f: "frame s t"
    unfolding t_def by (intro frame_trans [OF frame_trans [OF frame_user_commands frame_stack(2)] frame_stack(3)])
  have t: "alive t" using frame_alive [OF f assms(2)] .
  have s': "s' = actor_cleanup (fail t) t"
    using assms(1) ex by (simp add: finalize_def t_def Let_def split: if_splits)
  have "balanced s t" using frame_balanced [OF f] assms(2) by (simp add: alive_def)
  then show "balanced s s'" using cleanup_balanced balanced_trans s' by metis
  have "elements t = []" by (simp add: t_def stack_cleanup_def stack_clear_def)
  then show "ended s'" using t
    by (simp add: ended_def s' actor_cleanup_def close_mailbox_def Let_def alive_def has_behavior_def)
  show "fail s' = fail (fold run_command (fst (on_exit h (user s))) (s\<lparr>user := snd (on_exit h (user s))\<rparr>))"
    using t by (simp add: s' actor_cleanup_def close_mailbox_def Let_def alive_def ex)
      (simp add: t_def stack_cleanup_def stack_clear_def)
qed

lemma exception_end:
  assumes "handle_exception h e s = (r, s')" and "alive s"
  shows "balanced s s'" "r = Inr () \<Longrightarrow> ended s'" "isl r \<longleftrightarrow> exception_handler h = None"
proof -
  have "balanced s s' \<and> (r = Inr () \<longrightarrow> ended s') \<and> (isl r \<longleftrightarrow> exception_handler h = None)"
  proof (cases "exception_handler h")
    case (Some f)
    have q: "frame s (actor_quit (f e) s)" by (simp add: actor_quit_def)
    obtain b t where t: "finalize h (actor_quit (f e) s) = (b, t)" by (rule prod.exhaust)
    have b using t by (simp add: finalize_def actor_quit_def Let_def split: prod.splits)
    then have "balanced (actor_quit (f e) s) t" "ended t"
      using finalize_end [of h "actor_quit (f e) s" t] t frame_alive [OF q assms(2)] by simp_all
    moreover have "balanced s (actor_quit (f e) s)" using frame_balanced [OF q] assms(2) by (simp add: alive_def)
    ultimately show ?thesis using assms(1) Some t balanced_trans by (auto simp: handle_exception_def)
  qed (use assms in \<open>auto simp: handle_exception_def\<close>)
  then show "balanced s s'" "r = Inr () \<Longrightarrow> ended s'" "isl r \<longleftrightarrow> exception_handler h = None" by blast+
qed

lemma stack_cleanup_alive [simp]: "alive (stack_cleanup s) = alive s"
  by (simp add: stack_cleanup_def alive_def)

lemma stack_cleanup_balanced: "balanced s (stack_cleanup s)"
  by (simp add: stack_cleanup_def balanced_def account_def self_sent_def)

text \<open>One message: the actor has ended, or it still is alive, has the message apart, and its mailbox has grown only.\<close>

lemma reactivate_step:
  assumes "reactivate h x s = (r, s')" and "alive s"
  shows "balanced s s'"
    and "r = Inr Act_terminated \<Longrightarrow> ended s'"
    and "r = Inr Act_success \<or> r = Inr Act_skipped \<or> r = Inr Act_dropped \<Longrightarrow> frame s s' \<and> alive s'"
proof -
  obtain c t where c: "consume h x s = (c, t)" by (rule prod.exhaust)
  have f: "frame s t" using frame_consume [OF c] .
  have t: "alive t" "balanced s t" using frame_alive [OF f assms(2)] frame_balanced [OF f] assms(2) by (auto simp: alive_def)
  have "balanced s s' \<and> (r = Inr Act_terminated \<longrightarrow> ended s')
    \<and> (r = Inr Act_success \<or> r = Inr Act_skipped \<or> r = Inr Act_dropped \<longrightarrow> frame s s' \<and> alive s')"
  proof (cases c)
    case (Inl e)
    obtain q u where q: "handle_exception h e t = (q, u)" by (rule prod.exhaust)
    have "balanced s u" "q = Inr () \<longrightarrow> ended u" using exception_end [OF q t(1)] t(2) balanced_trans by blast+
    moreover have "s' = u \<and> r = (case q of Inl e \<Rightarrow> Inl e | Inr _ \<Rightarrow> Inr Act_terminated)"
      using assms(1) c Inl q by (simp add: reactivate_def split: sum.splits)
    ultimately show ?thesis by (cases q) auto
  next
    case (Inr m)
    show ?thesis
    proof (cases "m = Im_success")
      case True
      obtain b u where b: "finalize h (stack_cleanup t) = (b, u)" by (rule prod.exhaust)
      show ?thesis
      proof (cases b)
        case True
        then have "balanced (stack_cleanup t) u" "ended u" using finalize_end [of h "stack_cleanup t" u] b t(1) by simp_all
        then have "balanced s u" using t(2) stack_cleanup_balanced balanced_trans by blast
        then show ?thesis using assms(1) c Inr \<open>m = Im_success\<close> b True \<open>ended u\<close> by (auto simp: reactivate_def)
      next
        case False
        then have "u = stack_cleanup t" using finalize_not [of h "stack_cleanup t" u] b by simp
        then show ?thesis using assms(1) c Inr \<open>m = Im_success\<close> b False t
            frame_trans [OF f frame_stack(3)] balanced_trans [OF t(2) stack_cleanup_balanced] stack_cleanup_alive [of t]
          by (auto simp: reactivate_def simp del: stack_cleanup_alive)
      qed
    next
      case False
      then have "s' = t" "r = Inr Act_dropped \<or> r = Inr Act_skipped"
        using assms(1) c Inr by (cases m; simp add: reactivate_def)+
      then show ?thesis using f t by auto
    qed
  qed
  then show "balanced s s'" "r = Inr Act_terminated \<Longrightarrow> ended s'"
    "r = Inr Act_success \<or> r = Inr Act_skipped \<or> r = Inr Act_dropped \<Longrightarrow> frame s s' \<and> alive s'" by blast+
qed

section \<open>The cache\<close>

lemma self_sent_upd [simp]:
  "self_sent (s\<lparr>skipped := xs\<rparr>) = self_sent s" "self_sent (s\<lparr>deleted_elems := xs\<rparr>) = self_sent s"
  "self_sent (s\<lparr>skipped := xs, deleted_elems := ys\<rparr>) = self_sent s"
  by (simp_all add: self_sent_def)

lemma alive_upd [simp]:
  "alive (s\<lparr>skipped := xs\<rparr>) = alive s" "alive (s\<lparr>deleted_elems := xs\<rparr>) = alive s"
  "alive (s\<lparr>skipped := xs, deleted_elems := ys\<rparr>) = alive s" "alive (s\<lparr>inbox := xs\<rparr>) = alive s"
  by (simp_all add: alive_def)

lemma cache_loop_step:
  "cache_loop h kept xs s = (r, s') \<Longrightarrow> alive s \<Longrightarrow>
     alive s' \<and> balanced (s\<lparr>skipped := kept @ xs\<rparr>) s' \<and> length (skipped s') \<le> length (kept @ xs)
     \<and> (r = Inr True \<longrightarrow> length (skipped s') < length (kept @ xs))"
proof (induction xs arbitrary: kept s)
  case Nil
  then have "s' = s\<lparr>skipped := kept\<rparr>" "r = Inr False" by auto
  then show ?case using Nil by simp
next
  case (Cons x xs)
  obtain c t where c: "consume h x s = (c, t)" by (rule prod.exhaust)
  have f: "frame s t" using frame_consume [OF c] .
  have open_mbox: "\<not> closed s" using Cons.prems(2) by (simp add: alive_def)
  have t: "alive t" using frame_alive [OF f Cons.prems(2)] .
  obtain ms where ms: "inbox t = inbox s @ ms" "self_sent t = self_sent s @ ms"
    using frameD(7) [OF f open_mbox] by blast
  note fr = frameD(2,6) [OF f open_mbox]
  show ?case
  proof (cases c)
    case (Inl e)
    then have "s' = t\<lparr>skipped := kept @ x # xs\<rparr>" "r = Inl e" using Cons.prems(1) c by simp_all
    then show ?thesis using t ms fr by (simp add: balanced_def account_def)
  next
    case (Inr m)
    show ?thesis
    proof (cases m)
      case Im_success
      then have "s' = t\<lparr>skipped := kept @ xs, deleted_elems := deleted_elems t @ [x]\<rparr>"
        using Cons.prems(1) c Inr by simp
      then show ?thesis using t ms fr by (simp add: balanced_def account_def)
    next
      case Im_skipped
      then have rec: "cache_loop h (kept @ [x]) xs t = (r, s')" using Cons.prems(1) c Inr by simp
      have "balanced (s\<lparr>skipped := kept @ x # xs\<rparr>) (t\<lparr>skipped := (kept @ [x]) @ xs\<rparr>)"
        using ms fr by (simp add: balanced_def account_def)
      then show ?thesis using Cons.IH [OF rec t] balanced_trans by fastforce
    next
      case Im_dropped
      define u where "u = t\<lparr>deleted_elems := deleted_elems t @ [x]\<rparr>"
      have rec: "cache_loop h kept xs u = (r, s')" using Cons.prems(1) c Inr Im_dropped by (simp add: u_def)
      have "balanced (s\<lparr>skipped := kept @ x # xs\<rparr>) (u\<lparr>skipped := kept @ xs\<rparr>)"
        using ms fr by (simp add: balanced_def account_def u_def)
      then show ?thesis using Cons.IH [OF rec] t balanced_trans by (fastforce simp: u_def)
    qed
  qed
qed

lemma consume_cache_step:
  assumes "actor_consume_from_cache h s = (r, s')" and "alive s"
  shows "alive s'" "balanced s s'" "length (skipped s') \<le> length (skipped s)"
    "r = Inr True \<Longrightarrow> length (skipped s') < length (skipped s)"
  using cache_loop_step [of h "[]" "skipped s" s r s'] assms by (simp_all add: actor_consume_from_cache_def)

text \<open>Going through the cache until nothing is consumed any more comes to an end.\<close>

lemma drain_cache_ends:
  "alive s \<Longrightarrow> \<exists>r s'. drain_cache h n s = Some (r, s') \<and> balanced s s'
     \<and> (\<forall>m b. r = Inr (m, b) \<longrightarrow> n \<le> m \<and> (if b then ended s' else alive s'))"
proof (induction "length (skipped s)" arbitrary: s n rule: less_induct)
  case less
  obtain r t where c: "actor_consume_from_cache h s = (r, t)" by (rule prod.exhaust)
  note t = consume_cache_step [OF c less.prems]
  show ?case
  proof (cases r)
    case (Inl e)
    then show ?thesis using c t by (subst drain_cache.simps) simp
  next
    case (Inr more)
    show ?thesis
    proof (cases more)
      case False
      then show ?thesis using c t Inr by (subst drain_cache.simps) simp
    next
      case True
      obtain b u where b: "finalize h (stack_cleanup t) = (b, u)" by (rule prod.exhaust)
      have st: "balanced s (stack_cleanup t)" "alive (stack_cleanup t)"
        using t stack_cleanup_balanced balanced_trans by auto
      show ?thesis
      proof (cases b)
        case True
        then have "balanced s u" "ended u"
          using finalize_end [of h "stack_cleanup t" u] b st balanced_trans by auto
        then show ?thesis using c Inr \<open>more\<close> b True by (subst drain_cache.simps) simp
      next
        case False
        then have u: "u = stack_cleanup t" using finalize_not [of h "stack_cleanup t" u] b by simp
        have "length (skipped u) < length (skipped s)" using t(4) Inr \<open>more\<close> by (simp add: u stack_cleanup_def)
        from less.hyps [OF this, of "n + 1"] u st(2) obtain q v where
          "drain_cache h (n + 1) u = Some (q, v)" "balanced u v"
          "\<forall>m b. q = Inr (m, b) \<longrightarrow> n + 1 \<le> m \<and> (if b then ended v else alive v)" by auto
        then show ?thesis using c Inr \<open>more\<close> b False u st balanced_trans
          by (subst drain_cache.simps) (fastforce split: if_splits)
      qed
    qed
  qed
qed

section \<open>The loop\<close>

text \<open>A handler that skips its message does nothing else.\<close>

definition quiet_skips :: "'u hooks \<Rightarrow> bool" where
  "quiet_skips h \<longleftrightarrow>
     (\<forall>f c u cs u'. on_match h f c u = (Ran cs Skipped, u') \<longrightarrow> cs = [])
     \<and> (\<forall>x u cs u'. default_handler h x u = ((cs, Rt_skip), u') \<longrightarrow> cs = [])"

lemma quiet_default:
  assumes "quiet_skips h" and "call_default_handler h x s = (Inr True, s')"
  shows "inbox s' = inbox s"
proof -
  obtain cs r u where d: "default_handler h x (user s) = ((cs, r), u)" by (metis prod.collapse)
  with assms(2) have "r = Rt_skip" "s' = fold run_command cs (s\<lparr>user := u\<rparr>)"
    by (auto simp: call_default_handler_def Let_def split: default_result.splits)
  moreover from this d assms(1) have "cs = []" unfolding quiet_skips_def by blast
  ultimately show ?thesis by simp
qed

lemma quiet_call:
  assumes "quiet_skips h" and "call h b c s = (v, s')" and "v = None \<or> v = Some Skipped"
  shows "inbox s' = inbox s"
proof -
  obtain q u where d: "on_match h (bhvr_fun b) c (user s) = (q, u)" by (rule prod.exhaust)
  show ?thesis
  proof (cases q)
    case (Ran cs w)
    then have "w = Skipped" using assms(2,3) d by (auto simp: call_def)
    then have "cs = []" using assms(1) d Ran unfolding quiet_skips_def by blast
    then show ?thesis using assms(2) d Ran by (auto simp: call_def)
  qed (use assms d in \<open>auto simp: call_def\<close>)
qed

lemma quiet_ordinary:
  assumes "quiet_skips h" and "consume_ordinary h x s = (Inr m, s')" and "m \<noteq> Im_success"
  shows "inbox s' = inbox s"
proof -
  define s1 where "s1 = s\<lparr>tmo := (tmo s)\<lparr>has_timeout := False\<rparr>\<rparr>"
  obtain q t where q: "(if elements s1 = [] then call_default_handler h x s1
             else case call h (last (elements s1)) (elem_content x) s1 of
               (None, s) \<Rightarrow> call_default_handler h x s
             | (Some Skipped, s) \<Rightarrow> (Inr True, s)
             | (Some (Matched res), s) \<Rightarrow> (Inr False, visit x res s)
             | (Some (Threw e), s) \<Rightarrow> (Inl e, s)) = (q, t)" by (rule prod.exhaust)
  have i: "q = Inr True" "inbox s' = inbox t"
    using assms(2,3) q unfolding consume_ordinary_def Let_def s1_def [symmetric]
    by (auto split: sum.splits if_splits)
  have "inbox t = inbox s1"
  proof (cases "elements s1 = []")
    case True
    then show ?thesis using q i quiet_default [OF assms(1)] by auto
  next
    case False
    obtain v u where c: "call h (last (elements s1)) (elem_content x) s1 = (v, u)" by (rule prod.exhaust)
    then have v: "v = None \<or> v = Some Skipped" using q i False by (auto split: option.splits verdict.splits)
    have u: "inbox u = inbox s1" using quiet_call [OF assms(1) c v] .
    from v show ?thesis
    proof
      assume "v = None"
      then have "call_default_handler h x u = (Inr True, t)" using q i False c by simp
      then show ?thesis using quiet_default [OF assms(1)] u by simp
    next
      assume "v = Some Skipped"
      then show ?thesis using q False c u by simp
    qed
  qed
  then show ?thesis using i by (simp add: s1_def)
qed

lemma quiet_consume:
  assumes "quiet_skips h" and "consume h x s = (Inr m, s')" and "m \<noteq> Im_success"
  shows "inbox s' = inbox s"
proof (cases "awaited_responses s")
  case Nil
  show ?thesis
  proof (cases "is_response (elem_mid x)")
    case True
    then show ?thesis using assms Nil by (auto simp: consume_def split: option.splits prod.splits)
  next
    case False
    obtain c t where c: "categorize h x s = (c, t)" by (rule prod.exhaust)
    then consider "c = Inr Expired_timeout" "s' = t" | "c = Inr Timeout" "s' = t"
      | "c = Inr Cat_ordinary" "consume_ordinary h x t = (Inr m, s')"
      using assms(2,3) Nil False
      by (auto simp: consume_def split: sum.splits message_category.splits if_splits option.splits prod.splits)
    then show ?thesis
    proof cases
      case 3
      have "t = s" using c 3(1) by (auto simp: Let_def split: content.splits sys_msg.splits option.splits if_splits prod.splits)
      then show ?thesis using quiet_ordinary [OF assms(1) 3(2) assms(3)] by simp
    qed (use c in \<open>auto simp: Let_def split: content.splits sys_msg.splits option.splits if_splits prod.splits\<close>)
  qed
next
  case (Cons p aw)
  then show ?thesis using assms by (auto simp: consume_def split: prod.splits if_splits option.splits)
qed

lemma quiet_reactivate:
  assumes "quiet_skips h" and "reactivate h x s = (r, s')" and "r = Inr Act_skipped \<or> r = Inr Act_dropped"
  shows "inbox s' = inbox s"
proof -
  obtain c t where c: "consume h x s = (c, t)" by (rule prod.exhaust)
  then have "s' = t" "\<exists>m. c = Inr m \<and> m \<noteq> Im_success"
    using assms(2,3) by (auto simp: reactivate_def split: sum.splits invoke_message_result.splits prod.splits if_splits)
  then show ?thesis using quiet_consume [OF assms(1)] c by auto
qed

lemma pop_balanced:
  assumes "inbox s = x # xs" and "balanced (s\<lparr>inbox := xs\<rparr>) t"
  shows "balanced s (delete_elem x t)" "balanced s (t\<lparr>skipped := skipped t @ [x]\<rparr>)"
proof -
  have a: "account s = add_mset x (account (s\<lparr>inbox := xs\<rparr>))" using assms(1) by (simp add: account_def)
  have "account (delete_elem x t) = add_mset x (account t)" "self_sent (delete_elem x t) = self_sent t"
    "account (t\<lparr>skipped := skipped t @ [x]\<rparr>) = add_mset x (account t)"
    by (simp_all add: account_def delete_elem_def)
  then show "balanced s (delete_elem x t)" "balanced s (t\<lparr>skipped := skipped t @ [x]\<rparr>)"
    using assms(2) a by (simp_all add: balanced_def delete_elem_def)
qed

lemma frame_reset_timeout: "frame s (reset_timeout_if_needed n s)"
  by (simp add: reset_timeout_if_needed_def)

lemma alive_blocked [simp]: "alive (s\<lparr>blocked := b\<rparr>) = alive s"
  by (simp add: alive_def)

lemma balanced_blocked: "balanced s (s\<lparr>blocked := b\<rparr>)"
  by (simp add: balanced_def account_def self_sent_def)

lemma delete_elem_ended [simp]: "ended (delete_elem x s) = ended s" "alive (delete_elem x s) = alive s"
  by (simp_all add: ended_def delete_elem_def has_behavior_def alive_def)

definition loop_result :: "'u sactor \<Rightarrow> (nat + resume_result) \<times> 'u sactor \<Rightarrow> bool" where
  "loop_result s p \<longleftrightarrow> balanced s (snd p)
     \<and> (fst p = Inr Done \<longrightarrow> ended (snd p))
     \<and> (fst p = Inr Awaiting_message \<or> fst p = Inr Resume_later \<longrightarrow> alive (snd p))
     \<and> fst p \<noteq> Inr Shutdown_execution_unit"

lemma loop_result_trans: "balanced s t \<Longrightarrow> loop_result t p \<Longrightarrow> loop_result s p"
  using balanced_trans by (auto simp: loop_result_def)

lemma resume_loop_ends:
  assumes quiet: "quiet_skips h"
  shows "alive s \<Longrightarrow> \<exists>p. resume_loop h max_throughput n s = Some p \<and> loop_result s p"
proof (induction "max_throughput - n" arbitrary: n s rule: less_induct)
  case outer: less
  from outer.prems show ?case
  proof (induction "length (inbox s)" arbitrary: s rule: less_induct)
    case inner: less
    have open_mbox: "\<not> closed s" using inner.prems by (simp add: alive_def)
    show ?case
    proof (cases "max_throughput \<le> n")
      case True
      define t where "t = reset_timeout_if_needed n s"
      have "alive t" "balanced s t"
        using frame_alive [OF frame_reset_timeout inner.prems] frame_balanced [OF frame_reset_timeout open_mbox]
        by (simp_all add: t_def)
      then have "loop_result s (Inr Awaiting_message, t\<lparr>blocked := True\<rparr>)" "loop_result s (Inr Resume_later, t)"
        using balanced_trans [OF \<open>balanced s t\<close> balanced_blocked] by (simp_all add: loop_result_def)
      then show ?thesis using True by (subst resume_loop.simps) (simp add: Let_def t_def)
    next
      case running: False
      show ?thesis
      proof (cases "inbox s")
        case Nil
        define t where "t = reset_timeout_if_needed n (s\<lparr>blocked := True\<rparr>)"
        have "alive t" "balanced s t"
          using frame_alive [OF frame_reset_timeout, of "s\<lparr>blocked := True\<rparr>" n] inner.prems open_mbox
            balanced_trans [OF balanced_blocked frame_balanced [OF frame_reset_timeout]] by (simp_all add: t_def)
        then have "loop_result s (Inr Awaiting_message, t)" by (simp add: loop_result_def)
        then show ?thesis using running Nil by (subst resume_loop.simps) (simp add: t_def)
      next
        case (Cons x xs)
        obtain r t where r: "reactivate h x (s\<lparr>inbox := xs\<rparr>) = (r, t)" by (rule prod.exhaust)
        have a: "alive (s\<lparr>inbox := xs\<rparr>)" using inner.prems by simp
        note step = reactivate_step [OF r a]
        note pop = pop_balanced [OF Cons]
        show ?thesis
        proof (cases r)
          case (Inl e)
          have "loop_result s (Inl e, delete_elem x t)" using pop(1) [OF step(1)] by (simp add: loop_result_def)
          then show ?thesis using running Cons r Inl by (subst resume_loop.simps) simp
        next
          case (Inr act)
          consider "act = Act_terminated" | "act = Act_success" | "act = Act_skipped" | "act = Act_dropped"
            by (cases act) simp_all
          then show ?thesis
          proof cases
            case 1
            have "loop_result s (Inr Done, delete_elem x t)"
              using pop(1) [OF step(1)] step(2) Inr 1 by (simp add: loop_result_def)
            then show ?thesis using running Cons r Inr 1 by (subst resume_loop.simps) simp
          next
            case 2
            have t: "alive t" using step(3) Inr 2 by simp
            obtain q u where q: "drain_cache h (n + 1) t = Some (q, u)" "balanced t u"
              "\<And>m b. q = Inr (m, b) \<Longrightarrow> n + 1 \<le> m \<and> (if b then ended u else alive u)"
              using drain_cache_ends [OF t, of h "n + 1"] by blast
            have u: "balanced s (delete_elem x u)" using pop(1) balanced_trans [OF step(1) q(2)] by blast
            show ?thesis
            proof (cases q)
              case (Inl e)
              have "loop_result s (Inl e, delete_elem x u)" using u by (simp add: loop_result_def)
              then show ?thesis using running Cons r Inr 2 q Inl by (subst resume_loop.simps) simp
            next
              case qr: (Inr mb)
              obtain m b where mb: "q = Inr (m, b)" using qr by (cases mb) simp
              show ?thesis
              proof (cases b)
                case True
                have "loop_result s (Inr Done, delete_elem x u)" using u q(3) [OF mb] True by (simp add: loop_result_def)
                then show ?thesis using running Cons r Inr 2 q(1) mb True by (subst resume_loop.simps) simp
              next
                case False
                have "max_throughput - m < max_throughput - n" "alive (delete_elem x u)"
                  using q(3) [OF mb] False running by auto
                then obtain p where "resume_loop h max_throughput m (delete_elem x u) = Some p" "loop_result (delete_elem x u) p"
                  using outer.hyps by blast
                then show ?thesis using running Cons r Inr 2 q(1) mb False loop_result_trans [OF u]
                  by (subst resume_loop.simps) simp
              qed
            qed
          next
            case 3
            define v where "v = t\<lparr>skipped := skipped t @ [x]\<rparr>"
            have "alive v" using step(3) Inr 3 by (simp add: v_def)
            moreover have "length (inbox v) < length (inbox s)"
              using quiet_reactivate [OF quiet r] Inr 3 Cons by (simp add: v_def)
            ultimately obtain p where "resume_loop h max_throughput n v = Some p" "loop_result v p"
              using inner.hyps by blast
            then show ?thesis using running Cons r Inr 3 loop_result_trans [OF pop(2) [OF step(1)]]
              by (subst resume_loop.simps) (simp add: v_def)
          next
            case 4
            have "alive (delete_elem x t)" using step(3) Inr 4 by simp
            moreover have "length (inbox (delete_elem x t)) < length (inbox s)"
              using quiet_reactivate [OF quiet r] Inr 4 Cons by (simp add: delete_elem_def)
            ultimately obtain p where "resume_loop h max_throughput n (delete_elem x t) = Some p" "loop_result (delete_elem x t) p"
              using inner.hyps by blast
            then show ?thesis using running Cons r Inr 4 loop_result_trans [OF pop(1) [OF step(1)]]
              by (subst resume_loop.simps) simp
          qed
        qed
      qed
    qed
  qed
qed

section \<open>Resuming\<close>

text \<open>An actor that has not run yet, or runs.\<close>

definition resumable :: "'u sactor \<Rightarrow> bool" where
  "resumable s \<longleftrightarrow> \<not> closed s \<and> \<not> cleaned s \<and> (is_initialized s \<longrightarrow> has_behavior s \<and> \<not> is_terminated s)"

lemma activate_step:
  assumes "activate h s = (r, s')" and "resumable s"
  shows "balanced s s'" "r = Inr True \<Longrightarrow> alive s'" "r = Inr False \<Longrightarrow> ended s'"
proof -
  have "balanced s s' \<and> (r = Inr True \<longrightarrow> alive s') \<and> (r = Inr False \<longrightarrow> ended s')"
  proof (cases "is_initialized s")
    case True
    then show ?thesis using assms by (auto simp: activate_def resumable_def alive_def)
  next
    case False
    define s1 where "s1 = s\<lparr>is_initialized := True\<rparr>"
    have b1: "balanced s s1" by (simp add: s1_def balanced_def account_def self_sent_def)
    have a1: "alive s1" using assms(2) by (simp add: s1_def alive_def resumable_def)
    obtain e t where e: "react (initialize h (user s)) s1 = (e, t)" by (rule prod.exhaust)
    have t: "alive t" using frame_alive [OF frame_react [OF e] a1] .
    have b2: "balanced s t"
      using balanced_trans [OF b1 frame_balanced [OF frame_react [OF e]]] a1 by (simp add: alive_def)
    show ?thesis
    proof (cases e)
      case None
      obtain b u where b: "finalize h t = (b, u)" by (rule prod.exhaust)
      have "s' = u" "r = Inr (\<not> b)" using assms(1) False e None b by (simp_all add: activate_def s1_def)
      then show ?thesis
        using finalize_end [of h t u] finalize_not [of h t u] b t b2 balanced_trans by (cases b) auto
    next
      case (Some x)
      obtain q u where q: "handle_exception h x t = (q, u)" by (rule prod.exhaust)
      have "s' = u" "r = (case q of Inl e \<Rightarrow> Inl e | Inr _ \<Rightarrow> Inr False)"
        using assms(1) False e Some q by (auto simp: activate_def s1_def split: sum.splits)
      then show ?thesis using exception_end [OF q t] balanced_trans [OF b2] by (cases q) auto
    qed
  qed
  then show "balanced s s'" "r = Inr True \<Longrightarrow> alive s'" "r = Inr False \<Longrightarrow> ended s'" by blast+
qed

lemma resume_ends:
  assumes "quiet_skips h" and "resumable s"
  shows "\<exists>p. resume h max_throughput s = Some p \<and> loop_result s p"
proof -
  obtain r t where r: "activate h s = (r, t)" by (rule prod.exhaust)
  note a = activate_step [OF r assms(2)]
  show ?thesis
  proof (cases r)
    case (Inl e)
    then show ?thesis using r a(1) by (simp add: resume_def loop_result_def)
  next
    case (Inr b)
    show ?thesis
    proof (cases b)
      case True
      then show ?thesis
        using r Inr a(1,2) resume_loop_ends [OF assms(1), of t max_throughput 0] loop_result_trans
        by (auto simp: resume_def)
    next
      case False
      then show ?thesis using r Inr a by (simp add: resume_def loop_result_def)
    qed
  qed
qed

end
