(* ===== verification/ActorProperties.thy ===== *)
theory ActorProperties
  imports ActorLemmas
begin

text \<open>
  What a scheduled actor promises: its loop returns, no message is lost, what an awaited response does to other
  messages, and what becomes of errors and exceptions.
\<close>

section \<open>The loop returns\<close>

text \<open>C35: \<open>resume\<close> returns for each actor that may run, whatever its handlers do, if a handler that skips its message
  does nothing else. When it returns with \<open>done\<close>, the actor has no behavior and an empty, closed mailbox. No
  message is lost or doubled: what was in the mailbox or among the skipped messages still is, or was deleted; new
  are only the messages that the actor sent to itself.\<close>

theorem resume_returns:
  assumes "quiet_skips h" and "resumable s"
  shows "\<exists>r s'. resume h max_throughput s = Some (r, s')
    \<and> (r = Inr Done \<longrightarrow> closed s' \<and> inbox s' = [] \<and> skipped s' = [] \<and> \<not> has_behavior s' \<and> is_terminated s')
    \<and> (r = Inr Awaiting_message \<or> r = Inr Resume_later \<longrightarrow> \<not> closed s' \<and> \<not> cleaned s')
    \<and> mset (inbox s' @ skipped s' @ deleted_elems s') + mset (self_sent s)
        = mset (inbox s @ skipped s @ deleted_elems s) + mset (self_sent s')"
  using resume_ends [OF assms, of max_throughput]
  by (auto simp: loop_result_def balanced_def account_def ended_def alive_def add.assoc)

definition quiet_hooks :: "nat hooks" where
  "quiet_hooks = \<lparr>on_match = (\<lambda>f c u. if c = Ordinary 0 then (Ran [] Skipped, u) else (No_match, u)),
     on_timeout = (\<lambda>f u. (([], None), u)), default_handler = print_and_drop, error_handler = default_error_handler,
     down_handler = default_down_handler, exit_handler = default_exit_handler,
     initialize = (\<lambda>u. (([Become \<lparr>bhvr_fun = 0, bhvr_timeout = infinite\<rparr> True], None), u)),
     on_exit = (\<lambda>u. ([], u)), exception_handler = None, render = (\<lambda>c. '''')\<rparr>"

definition new_actor :: "nat \<Rightarrow> element list \<Rightarrow> nat sactor" where
  "new_actor a xs = \<lparr>self = a, inbox = xs, skipped = [], closed = False, blocked = False, deleted_elems = [],
     tmo = \<lparr>timeout_id = 0, has_timeout = False\<rparr>, elements = [], erased_elements = [], awaited_responses = [],
     multiplexed_responses = Map.empty, fail = no_error, is_terminated = False, is_initialized = False,
     cleaned = False, events = [], user = 0\<rparr>"

lemma quiet_hooks_quiet: "quiet_skips quiet_hooks"
  by (simp add: quiet_skips_def quiet_hooks_def print_and_drop_def)

lemma new_actor_resumable: "resumable (new_actor a xs)"
  by (simp add: resumable_def new_actor_def)

lemma new_actor_parts:
  "inbox (new_actor a xs) = xs" "skipped (new_actor a xs) = []" "deleted_elems (new_actor a xs) = []" "self_sent (new_actor a xs) = []"
  by (simp_all add: new_actor_def self_sent_def)

lemma resume_returns_witness:
  "\<exists>r s'. resume quiet_hooks 10 (new_actor 1 [plain (Some 2) (Message_id 0) (Ordinary 0), plain (Some 2) (Message_id 0) (Ordinary 1)])
      = Some (r, s')
    \<and> mset (inbox s' @ skipped s' @ deleted_elems s')
        = {# plain (Some 2) (Message_id 0) (Ordinary 0), plain (Some 2) (Message_id 0) (Ordinary 1) #} + mset (self_sent s')"
  using resume_returns [OF quiet_hooks_quiet new_actor_resumable, of 10 1
      "[plain (Some 2) (Message_id 0) (Ordinary 0), plain (Some 2) (Message_id 0) (Ordinary 1)]"]
  by (auto simp: new_actor_parts)

definition spinning :: "'u hooks \<Rightarrow> nat \<Rightarrow> element \<Rightarrow> 'u hooks \<Rightarrow> nat \<Rightarrow> nat \<Rightarrow> 'u sactor \<Rightarrow> bool" where
  "spinning h a x g m n s \<longleftrightarrow> g = h \<and> n < m \<and> self s = a \<and> \<not> closed s \<and> \<not> blocked s \<and> elements s \<noteq> []
     \<and> awaited_responses s = [] \<and> inbox s = [x]"

lemma spinning_loop:
  assumes h: "\<And>f c u. on_match h f c u = (Ran [Send_elem a x] Skipped, u)"
    and x: "\<not> is_response (elem_mid x)" "elem_content x = Ordinary k"
    and r: "resume_loop g m n s = Some p"
  shows "\<not> spinning h a x g m n s"
proof (rule resume_loop.raw_induct [OF _ r, where P = "\<lambda>g m n s p. \<not> spinning h a x g m n s"])
  fix loop g m n s p
  assume IH: "\<And>g m n s p. loop g m n s = Some p \<Longrightarrow> \<not> spinning h a x g m n s"
    and run: "(if n \<ge> m then
        let s = reset_timeout_if_needed n s
        in Some (if inbox s = [] then (Inr Awaiting_message, s\<lparr>blocked := True\<rparr>) else (Inr Resume_later, s))
      else if inbox s = [] then
        Some (Inr Awaiting_message, reset_timeout_if_needed n (s\<lparr>blocked := True\<rparr>))
      else
        let x = hd (inbox s) in
        case reactivate g x (s\<lparr>inbox := tl (inbox s)\<rparr>) of (r, s) \<Rightarrow>
          if isl r then Some (Inl (projl r), delete_elem x s)
          else if projr r = Act_terminated then Some (Inr Done, delete_elem x s)
          else if projr r = Act_success then
            Option.bind (drain_cache g (n + 1) s) (\<lambda>(r, s).
              if isl r then Some (Inl (projl r), delete_elem x s)
              else if snd (projr r) then Some (Inr Done, delete_elem x s)
              else loop g m (fst (projr r)) (delete_elem x s))
          else if projr r = Act_skipped then loop g m n (s\<lparr>skipped := skipped s @ [x]\<rparr>)
          else loop g m n (delete_elem x s)) = Some p"
  show "\<not> spinning h a x g m n s"
  proof
    assume "spinning h a x g m n s"
    then have s: "g = h" "n < m" "self s = a" "\<not> closed s" "\<not> blocked s" "elements s \<noteq> []"
      "awaited_responses s = []" "inbox s = [x]" by (simp_all add: spinning_def)
    obtain t where t: "reactivate h x (s\<lparr>inbox := []\<rparr>) = (Inr Act_skipped, t)" "self t = a" "\<not> closed t" "\<not> blocked t"
        "elements t \<noteq> []" "awaited_responses t = []" "inbox t = [x]"
      using s x by (simp add: reactivate_def consume_def consume_ordinary_def call_def h deliver_def Let_def)
    let ?t = "t\<lparr>skipped := skipped t @ [x]\<rparr>"
    have "loop h m n ?t = Some p" using run s t(1) by simp
    then have "\<not> spinning h a x h m n ?t" by (rule IH)
    then show False using t s by (simp add: spinning_def)
  qed
qed

text \<open>With a handler that skips its message but sends it to the actor again, \<open>resume\<close> never returns, whatever the
  bound on the messages that one run may handle: only messages that are consumed count.\<close>

theorem resume_spins:
  assumes "\<And>f c u. on_match h f c u = (Ran [Send_elem (self s) x] Skipped, u)"
    and "\<not> is_response (elem_mid x)" and "elem_content x = Ordinary k"
    and "alive s" and "\<not> is_terminated s" and "elements s \<noteq> []" and "awaited_responses s = []"
    and "\<not> blocked s" and "inbox s = [x]" and "0 < max_throughput"
  shows "resume h max_throughput s = None"
proof -
  have "resume h max_throughput s = resume_loop h max_throughput 0 s"
    using assms(4,5,6) by (simp add: resume_def activate_def alive_def has_behavior_def)
  moreover have False if "resume_loop h max_throughput 0 s = Some p" for p
    using spinning_loop [OF assms(1,2,3) that] assms by (simp add: alive_def spinning_def)
  ultimately show ?thesis by (cases "resume_loop h max_throughput 0 s") auto
qed

definition spinning_element :: element where
  "spinning_element = plain (Some 1) (Message_id 0) (Ordinary 0)"

lemma resume_spins_witness:
  "resume (quiet_hooks\<lparr>on_match := \<lambda>f c u. (Ran [Send_elem 1 spinning_element] Skipped, u)\<rparr>) 5
     ((new_actor 1 [spinning_element])\<lparr>is_initialized := True, elements := [\<lparr>bhvr_fun = 0, bhvr_timeout = infinite\<rparr>]\<rparr>) = None"
  by (rule resume_spins [where x = spinning_element and k = 0])
    (simp_all add: spinning_element_def plain_def new_actor_def alive_def is_response_def response_flag_mask_def)

section \<open>Awaited responses\<close>

lemma awaiting_loop:
  "alive s \<Longrightarrow> awaited_responses s = (mid, b) # aw \<Longrightarrow> \<forall>x \<in> set (inbox s). elem_mid x \<noteq> mid \<Longrightarrow> 0 < m \<Longrightarrow>
   resume_loop h m 0 s = Some (Inr Awaiting_message, s\<lparr>inbox := [], skipped := skipped s @ inbox s, blocked := True\<rparr>)"
proof (induction "inbox s" arbitrary: s)
  case Nil
  then have i: "inbox s = []" by simp
  then show ?case using Nil.prems(4) by (subst resume_loop.simps) (simp add: reset_timeout_if_needed_def flip: i)
next
  case (Cons x xs)
  define t where "t = s\<lparr>inbox := xs, skipped := skipped s @ [x]\<rparr>"
  have r: "reactivate h x (s\<lparr>inbox := xs\<rparr>) = (Inr Act_skipped, s\<lparr>inbox := xs\<rparr>)"
    using Cons.prems Cons.hyps(2) [symmetric] by (simp add: reactivate_def consume_def)
  have "resume_loop h m 0 s = resume_loop h m 0 t"
    using Cons.prems(4) Cons.hyps(2) [symmetric] r by (subst resume_loop.simps) (simp add: t_def)
  also have "\<dots> = Some (Inr Awaiting_message, t\<lparr>inbox := [], skipped := skipped t @ inbox t, blocked := True\<rparr>)"
    by (rule Cons.hyps(1)) (use Cons.prems Cons.hyps(2) [symmetric] in \<open>auto simp: t_def alive_def\<close>)
  finally show ?case using Cons.hyps(2) [symmetric] by (simp add: t_def)
qed

text \<open>While an actor awaits a response, no other message reaches it, of whatever kind: a run of the actor moves its
  whole mailbox to the skipped messages, in order, and changes nothing else. That includes exit messages with the
  reason \<open>kill\<close>, so that the actor is not terminated by them.\<close>

theorem awaiting_skips_all:
  assumes "alive s" and "\<not> is_terminated s" and "awaited_responses s = (mid, b) # aw"
    and "\<forall>x \<in> set (inbox s). elem_mid x \<noteq> mid" and "0 < max_throughput"
  shows "resume h max_throughput s =
    Some (Inr Awaiting_message, s\<lparr>inbox := [], skipped := skipped s @ inbox s, blocked := True\<rparr>)"
  using awaiting_loop [OF assms(1,3,4,5)] assms(1,2,3)
  by (simp add: resume_def activate_def alive_def has_behavior_def)

definition kill_message :: element where
  "kill_message = plain None (Message_id 0) (System_msg (Exit_msg 2 (make_exit_error Kill)))"

lemma awaiting_skips_all_witness:
  "let s = (new_actor 1 [kill_message])\<lparr>is_initialized := True,
             awaited_responses := [(Message_id 0x8000000000000001, \<lparr>bhvr_fun = 0, bhvr_timeout = infinite\<rparr>)]\<rparr>
   in resume quiet_hooks 5 s = Some (Inr Awaiting_message, s\<lparr>inbox := [], skipped := [kill_message], blocked := True\<rparr>)"
  using awaiting_skips_all [of "(new_actor 1 [kill_message])\<lparr>is_initialized := True,
      awaited_responses := [(Message_id 0x8000000000000001, \<lparr>bhvr_fun = 0, bhvr_timeout = infinite\<rparr>)]\<rparr>"
      "Message_id 0x8000000000000001" "\<lparr>bhvr_fun = 0, bhvr_timeout = infinite\<rparr>" "[]" 5 quiet_hooks]
  by (simp add: new_actor_def alive_def kill_message_def plain_def)

text \<open>A handler of an awaited response that awaits another response itself is not removed: the new handler is taken
  from the front instead. The actor then waits for the first response again, which does not come a second time, and
  skips all else, the second response included.\<close>

theorem nested_await_is_lost:
  assumes "awaited_responses s = (mid, b) # aw" and "elem_mid x = mid"
    and "on_match h (bhvr_fun b) (elem_content x) (user s) = (Ran [Await mid' b'] (Matched r), u)"
  shows "\<exists>s'. consume h x s = (Inr Im_success, s') \<and> awaited_responses s' = (mid, b) # aw
    \<and> (\<forall>y. elem_mid y \<noteq> mid \<longrightarrow> consume h y s' = (Inr Im_skipped, s'))"
  using assms
  by (simp add: consume_def call_response_handler_def call_def add_awaited_response_handler_def Let_def
      request_response_timeout_def)

lemma nested_await_is_lost_witness:
  "\<exists>s'. consume (quiet_hooks\<lparr>on_match := \<lambda>f c u. (Ran [Await (Message_id 0x8000000000000002)
             \<lparr>bhvr_fun = 1, bhvr_timeout = infinite\<rparr>] (Matched Res_nothing), u)\<rparr>)
          (plain None (Message_id 0x8000000000000001) (Ordinary 0))
          ((new_actor 1 [])\<lparr>awaited_responses := [(Message_id 0x8000000000000001, \<lparr>bhvr_fun = 0, bhvr_timeout = infinite\<rparr>)]\<rparr>)
        = (Inr Im_success, s')
      \<and> awaited_responses s' = [(Message_id 0x8000000000000001, \<lparr>bhvr_fun = 0, bhvr_timeout = infinite\<rparr>)]"
  using nested_await_is_lost [where s = "(new_actor 1 [])\<lparr>awaited_responses := [(Message_id 0x8000000000000001, \<lparr>bhvr_fun = 0, bhvr_timeout = infinite\<rparr>)]\<rparr>"
      and mid = "Message_id 0x8000000000000001" and b = "\<lparr>bhvr_fun = 0, bhvr_timeout = infinite\<rparr>" and aw = "[]"
      and x = "plain None (Message_id 0x8000000000000001) (Ordinary 0)"
      and h = "quiet_hooks\<lparr>on_match := \<lambda>f c u. (Ran [Await (Message_id 0x8000000000000002)
             \<lparr>bhvr_fun = 1, bhvr_timeout = infinite\<rparr>] (Matched Res_nothing), u)\<rparr>"
      and mid' = "Message_id 0x8000000000000002" and b' = "\<lparr>bhvr_fun = 1, bhvr_timeout = infinite\<rparr>" and r = Res_nothing
      and u = "user ((new_actor 1 [])\<lparr>awaited_responses := [(Message_id 0x8000000000000001, \<lparr>bhvr_fun = 0, bhvr_timeout = infinite\<rparr>)]\<rparr>)"]
  by (auto simp: plain_def)

text \<open>The timeout of a behavior that awaits a response has no effect: \<open>add_awaited_response_handler\<close> asks for the
  response to a response, which has the identifier 0, so the actor skips the timeout message like all others.\<close>

theorem await_timeout_is_lost:
  assumes "is_response mid" and "duration_valid (bhvr_timeout b)"
  shows "\<exists>s' x. add_awaited_response_handler mid b s = s' \<and> events s' = events s @ [Delayed (bhvr_timeout b) x]
    \<and> elem_content x = Sec_msg Sec_request_timeout \<and> consume h x s' = (Inr Im_skipped, s')"
proof -
  have "\<not> is_request mid" using assms(1) by (simp add: is_request_def)
  moreover have "mid \<noteq> Message_id 0" using assms(1) by (auto simp: is_response_def)
  ultimately show ?thesis
    using assms(2) by (auto simp: add_awaited_response_handler_def request_response_timeout_def Let_def
        consume_def response_id_def plain_def)
qed

lemma await_timeout_is_lost_witness:
  "\<exists>s' x. add_awaited_response_handler (Message_id 0x8000000000000001) \<lparr>bhvr_fun = 0, bhvr_timeout = duration_of Seconds 1\<rparr>
        (new_actor 1 []) = s'
      \<and> elem_content x = Sec_msg Sec_request_timeout \<and> consume quiet_hooks x s' = (Inr Im_skipped, s')"
  using await_timeout_is_lost [of "Message_id 0x8000000000000001" "\<lparr>bhvr_fun = 0, bhvr_timeout = duration_of Seconds 1\<rparr>"
      "new_actor 1 []" quiet_hooks]
  by (auto simp: is_response_def response_flag_mask_def duration_valid_def duration_of_def)

section \<open>Errors and exceptions\<close>

lemma async_mid:
  assumes "is_async mid"
  shows "\<not> is_response mid" "\<not> is_answered mid" "response_id mid = Message_id 0"
  using assms
  by (auto simp: is_async_def is_response_def is_answered_def response_id_def is_request_def mid_valid_def mid_masks)

text \<open>An asynchronous message that the receiver does not handle is answered with an error although nobody asked,
  and the default handler for errors ends the actor that gets it. So with the default handlers of both actors, an
  actor that sends a message of an unexpected type to another is terminated by that.\<close>

theorem unexpected_message_ends_sender:
  assumes "alive s" and "\<not> is_terminated s" and "awaited_responses s = []" and "elements s \<noteq> []"
    and "on_match h (bhvr_fun (last (elements s))) (Ordinary k) (user s) = (No_match, u)"
    and "default_handler h = print_and_drop" and "is_async mid" and "a \<noteq> self s"
    and "alive t" and "awaited_responses t = []" and "error_handler g = default_error_handler"
    and "on_exit g = (\<lambda>u. ([], u))"
  shows "\<exists>s' y t'. reactivate h (plain (Some a) mid (Ordinary k)) s = (Inr Act_success, s')
    \<and> events s' = events s @ [Printed, Delivered a y]
    \<and> reactivate g y t = (Inr Act_terminated, t') \<and> ended t' \<and> fail t' = make_sec_error Sec_unexpected_message"
proof -
  let ?e = "make_sec_error Sec_unexpected_message"
  let ?y = "plain (Some (self s)) (Message_id 0) (Error_msg ?e)"
  obtain s' where s': "consume h (plain (Some a) mid (Ordinary k)) s = (Inr Im_success, s')"
      "events s' = events s @ [Printed, Delivered a ?y]" "elements s' = elements s" "\<not> is_terminated s'"
    using assms(2-6,8) async_mid [OF assms(7)]
    by (simp add: consume_def consume_ordinary_def call_def call_default_handler_def print_and_drop_def delegate_def
        make_response_promise_def response_promise_def pending_def deliver_impl_def deliver_def plain_def Let_def)
  have fin: "finalize h (stack_cleanup s') = (False, stack_cleanup s')"
    using s'(3,4) assms(4) by (simp add: finalize_def has_behavior_def stack_cleanup_def)
  obtain b t' where t': "finalize g (stack_cleanup (actor_quit ?e (t\<lparr>user := user t\<rparr>))) = (b, t')" by (rule prod.exhaust)
  have b: b using t' by (simp add: finalize_def stack_cleanup_def actor_quit_def Let_def split: prod.splits)
  have "consume g ?y t = (Inr Im_success, actor_quit ?e (t\<lparr>user := user t\<rparr>))"
    using assms(10,11) by (simp add: consume_def plain_def react_def default_error_handler_def is_response_def)
  then have "reactivate g ?y t = (Inr Act_terminated, t')" using t' b by (simp add: reactivate_def)
  moreover have "alive (stack_cleanup (actor_quit ?e (t\<lparr>user := user t\<rparr>)))"
    using assms(9) by (simp add: alive_def actor_quit_def stack_cleanup_def)
  then have "ended t'" "fail t' = ?e"
    using finalize_end [of g _ t'] t' b assms(12) by (simp_all add: stack_cleanup_def actor_quit_def)
  moreover have "reactivate h (plain (Some a) mid (Ordinary k)) s = (Inr Act_success, stack_cleanup s')"
    using s'(1) fin by (simp add: reactivate_def)
  moreover have "events (stack_cleanup s') = events s'" by (simp add: stack_cleanup_def)
  ultimately show ?thesis using s'(2) by fastforce
qed

definition running_actor :: "nat \<Rightarrow> nat sactor" where
  "running_actor a = (new_actor a [])\<lparr>is_initialized := True, elements := [\<lparr>bhvr_fun = 0, bhvr_timeout = infinite\<rparr>]\<rparr>"

lemma unexpected_message_ends_sender_witness:
  "\<exists>s' y t'. reactivate quiet_hooks (plain (Some 2) (Message_id 0) (Ordinary 1)) (running_actor 1) = (Inr Act_success, s')
    \<and> events s' = [Printed, Delivered 2 y]
    \<and> reactivate quiet_hooks y (running_actor 2) = (Inr Act_terminated, t') \<and> ended t'
    \<and> fail t' = make_sec_error Sec_unexpected_message"
  using unexpected_message_ends_sender [of "running_actor 1" quiet_hooks 1 0 "Message_id 0" 2 "running_actor 2" quiet_hooks]
  by (simp add: running_actor_def new_actor_def alive_def quiet_hooks_def is_async_def)

text \<open>An exception from a message ends the actor with the error that the handler for exceptions gives. An actor that
  did not set one has none, the constructor leaves it empty, and calling it throws out of \<open>resume\<close> with the actor
  not cleaned up. While skipped messages are tried again an exception leaves \<open>resume\<close> in any case.\<close>

theorem exceptions:
  assumes "alive s" and "consume h x s = (Inl e, t)"
  shows "(exception_handler h \<noteq> None \<longrightarrow> (\<exists>s'. reactivate h x s = (Inr Act_terminated, s') \<and> ended s'))
    \<and> (exception_handler h = None \<longrightarrow> reactivate h x s = (Inl e, t) \<and> alive t)
    \<and> (skipped s = x # xs \<longrightarrow> drain_cache h n s = Some (Inl e, t\<lparr>skipped := x # xs\<rparr>))"
proof (intro conjI impI)
  have t: "alive t" using frame_alive [OF frame_consume [OF assms(2)] assms(1)] .
  show "\<exists>s'. reactivate h x s = (Inr Act_terminated, s') \<and> ended s'" if "exception_handler h \<noteq> None"
  proof -
    obtain q u where q: "handle_exception h e t = (q, u)" by (rule prod.exhaust)
    then have "q = Inr ()" using exception_end(3) [OF q t] that by (cases q) auto
    then show ?thesis using assms(2) q exception_end(2) [OF q t] by (auto simp: reactivate_def)
  qed
  show "reactivate h x s = (Inl e, t)" if "exception_handler h = None"
    using assms(2) that by (simp add: reactivate_def handle_exception_def)
  show "alive t" by (rule t)
  show "drain_cache h n s = Some (Inl e, t\<lparr>skipped := x # xs\<rparr>)" if "skipped s = x # xs"
    using assms(2) that by (subst drain_cache.simps) (simp add: actor_consume_from_cache_def)
qed

lemma exceptions_witness:
  "let h = quiet_hooks\<lparr>on_match := \<lambda>f c u. (Ran [] (Threw 7), u)\<rparr>;
       x = plain None (Message_id 0) (Ordinary 1)
   in (\<exists>t. reactivate h x (running_actor 1) = (Inl 7, t) \<and> alive t)
      \<and> (\<exists>s'. reactivate (h\<lparr>exception_handler := Some (\<lambda>e. make_exit_error Unhandled_exception)\<rparr>) x (running_actor 1)
             = (Inr Act_terminated, s') \<and> ended s')"
  using exceptions [of "running_actor 1" "quiet_hooks\<lparr>on_match := \<lambda>f c u. (Ran [] (Threw 7), u)\<rparr>"
      "plain None (Message_id 0) (Ordinary 1)" 7]
    exceptions [of "running_actor 1" "quiet_hooks\<lparr>on_match := \<lambda>f c u. (Ran [] (Threw 7), u),
        exception_handler := Some (\<lambda>e. make_exit_error Unhandled_exception)\<rparr>" "plain None (Message_id 0) (Ordinary 1)" 7]
  by (simp add: consume_def consume_ordinary_def call_def plain_def is_response_def running_actor_def new_actor_def
      alive_def Let_def quiet_hooks_def)

text \<open>An actor that has no behavior, or was told to quit, ends: whatever \<open>on_exit\<close> does, a new behavior or a
  new response handler included, the actor has no behavior afterwards, and resuming it does nothing.\<close>

theorem end_is_final:
  assumes "alive s" and "\<not> has_behavior s \<or> is_terminated s"
  shows "\<exists>s'. finalize h s = (True, s') \<and> elements s' = [] \<and> awaited_responses s' = [] \<and> closed s' \<and> is_terminated s'
    \<and> resume h max_throughput s' = Some (Inr Done, s')"
proof -
  obtain b s' where f: "finalize h s = (b, s')" by (rule prod.exhaust)
  then have b: b using assms(2) by (auto simp: finalize_def Let_def split: if_splits prod.splits)
  have e: "ended s'" using finalize_end(2) [of h s s'] f b assms(1) by simp
  then have "resume h max_throughput s' = Some (Inr Done, s')"
    by (simp add: resume_def activate_def ended_def)
  then show ?thesis using f b e by (simp add: ended_def has_behavior_def)
qed

lemma end_is_final_witness:
  "\<exists>s'. finalize (quiet_hooks\<lparr>on_exit := \<lambda>u. ([Become \<lparr>bhvr_fun = 1, bhvr_timeout = infinite\<rparr> False], u)\<rparr>)
           (actor_quit no_error (running_actor 1)) = (True, s') \<and> elements s' = []"
  using end_is_final [of "actor_quit no_error (running_actor 1)"
      "quiet_hooks\<lparr>on_exit := \<lambda>u. ([Become \<lparr>bhvr_fun = 1, bhvr_timeout = infinite\<rparr> False], u)\<rparr>" 5]
  by (auto simp: running_actor_def new_actor_def alive_def actor_quit_def)

end
