(* ===== verification/Serializer.thy ===== *)
theory Serializer
  imports CMemory
begin

text \<open>
  The binary serialization of the actor framework: stream buffers (libcaf_core/caf/streambuf.hpp), network
  byte order (detail/network_order.hpp), and the serializer and deserializer over them
  (stream_serializer.hpp, stream_deserializer.hpp, data_processor.hpp). The machine is little endian. The
  floating point cases of \<open>apply_builtin\<close> are left out.
\<close>

section \<open>Stream buffers\<close>

type_synonym bytes = "u8 list"

record streambuf =
  written :: bytes
  room :: "nat option"     \<comment> \<open>what an \<open>arraybuf\<close> still takes; a \<open>containerbuf\<close> has no limit\<close>

definition vectorbuf :: "bytes \<Rightarrow> streambuf" where
  "vectorbuf container = \<lparr>written = container, room = None\<rparr>"

definition charbuf :: "nat \<Rightarrow> streambuf" where
  "charbuf n = \<lparr>written = [], room = Some n\<rparr>"

definition xsputn :: "bytes \<Rightarrow> streambuf \<Rightarrow> streambuf" where
  "xsputn s sb =
     (case room sb of
        None \<Rightarrow> sb\<lparr>written := written sb @ s\<rparr>
      | Some available \<Rightarrow>
          let actual = min (length s) available
          in sb\<lparr>written := written sb @ take actual s, room := Some (available - actual)\<rparr>)"

definition xsgetn :: "nat \<Rightarrow> bytes \<Rightarrow> bytes \<times> bytes" where
  "xsgetn n input = (let actual = min n (length input) in (take actual input, drop actual input))"

text \<open>\<open>sbumpc\<close> has no character at the end of the input.\<close>

definition sbumpc :: "bytes \<Rightarrow> (u8 \<times> bytes) option" where
  "sbumpc input = (case input of [] \<Rightarrow> None | c # cs \<Rightarrow> Some (c, cs))"

section \<open>Byte order\<close>

text \<open>The bytes of an integer in memory.\<close>

definition le_bytes :: "'a::len word \<Rightarrow> bytes" where
  "le_bytes x = map (\<lambda>i. ucast (drop_bit (8 * i) x)) [0..<LENGTH('a) div 8]"

fun of_le_bytes :: "bytes \<Rightarrow> 'a::len word" where
  "of_le_bytes [] = 0"
| "of_le_bytes (b # bs) = ucast b OR push_bit 8 (of_le_bytes bs)"

text \<open>The builtin byte swaps.\<close>

definition to_network_order :: "'a::len word \<Rightarrow> 'a word" where
  "to_network_order value = of_le_bytes (rev (le_bytes value))"

definition from_network_order :: "'a::len word \<Rightarrow> 'a word" where
  "from_network_order value = to_network_order value"

section \<open>Saving\<close>

definition save_raw :: "bytes \<Rightarrow> streambuf \<Rightarrow> streambuf" where
  "save_raw bs sb = xsputn bs sb"

definition save_int :: "'a::len word \<Rightarrow> streambuf \<Rightarrow> streambuf" where
  "save_int x sb = save_raw (le_bytes (to_network_order x)) sb"

function varbyte_bytes :: "u64 \<Rightarrow> bytes" where
  "varbyte_bytes x =
     (if x > 0x7f then (((ucast x AND 0x7f) OR 0x80) :: u8) # varbyte_bytes (drop_bit 7 x)
      else [ucast x AND 0x7f])"
  by auto

definition varbyte_encode :: "u64 \<Rightarrow> streambuf \<Rightarrow> streambuf" where
  "varbyte_encode x sb = xsputn (varbyte_bytes x) sb"

datatype builtin =
    U8_v u8 | U16_v u16 | U32_v u32 | U64_v u64    \<comment> \<open>each stands for the signed type as well\<close>
  | String8_v bytes | String16_v "u16 list" | String32_v "u32 list"

text \<open>The characters of the wide strings are written one by one, in the order of the machine.\<close>

definition save_builtin :: "builtin \<Rightarrow> streambuf \<Rightarrow> streambuf" where
  "save_builtin val sb =
     (case val of
        U8_v x \<Rightarrow> save_raw [x] sb
      | U16_v x \<Rightarrow> save_int x sb
      | U32_v x \<Rightarrow> save_int x sb
      | U64_v x \<Rightarrow> save_int x sb
      | String8_v str \<Rightarrow> save_raw str (varbyte_encode (of_nat (length str)) sb)
      | String16_v str \<Rightarrow> fold (\<lambda>c. save_raw (le_bytes c)) str (varbyte_encode (of_nat (length str)) sb)
      | String32_v str \<Rightarrow> fold (\<lambda>c. save_raw (le_bytes c)) str (varbyte_encode (of_nat (length str)) sb))"

definition save_bool :: "bool \<Rightarrow> streambuf \<Rightarrow> streambuf" where
  "save_bool x sb = save_builtin (U8_v (if x then 1 else 0)) sb"

definition save_sequence :: "('a \<Rightarrow> streambuf \<Rightarrow> streambuf) \<Rightarrow> 'a list \<Rightarrow> streambuf \<Rightarrow> streambuf" where
  "save_sequence app xs sb = fold app xs (varbyte_encode (of_nat (length xs)) sb)"

definition save_object :: "u16 \<Rightarrow> bytes \<Rightarrow> streambuf \<Rightarrow> streambuf" where
  "save_object typenr name sb =
     (let sb = save_builtin (U16_v typenr) sb
      in if typenr = 0 then save_builtin (String8_v name) sb else sb)"

section \<open>Loading\<close>

text \<open>
  Errors the deserializer raises, and the undefined shift of \<open>varbyte_decode\<close>: its bytes are promoted to
  \<open>int\<close> before they are shifted.
\<close>

datatype load_error = Begin_sequence | Range_check | Bad_shift

type_synonym 'a load = "bytes \<Rightarrow> load_error + ('a \<times> bytes)"

primrec bindL :: "'e + 'a \<Rightarrow> ('a \<Rightarrow> 'e + 'b) \<Rightarrow> 'e + 'b" where
  "bindL (Inl e) f = Inl e"
| "bindL (Inr x) f = f x"

lemma bindL_cong [fundef_cong]:
  "m = m' \<Longrightarrow> (\<And>x. m' = Inr x \<Longrightarrow> f x = f' x) \<Longrightarrow> bindL m f = bindL m' f'"
  by (cases m') auto

definition load_raw :: "nat \<Rightarrow> bytes load" where
  "load_raw num_bytes input =
     (case xsgetn num_bytes input of (got, rest) \<Rightarrow>
        if length got \<noteq> num_bytes then Inl Range_check else Inr (got, rest))"

definition load_int :: "nat \<Rightarrow> 'a::len word load" where
  "load_int n input =
     bindL (load_raw n input) (\<lambda>(got, rest). Inr (from_network_order (of_le_bytes got), rest))"

definition int_shift :: "u8 \<Rightarrow> u64 \<Rightarrow> u64 option" where
  "int_shift v n =
     (if 7 * n \<ge> 32 \<or> unat v * 2 ^ unat (7 * n) \<ge> 2 ^ 32 then None
      else Some (scast (push_bit (unat (7 * n)) (ucast v :: u32))))"

fun varbyte_loop :: "u64 \<Rightarrow> u64 \<Rightarrow> u64 load" where
  "varbyte_loop n x [] = Inl Begin_sequence"
| "varbyte_loop n x (low7 # cs) =
     (case int_shift (low7 AND 0x7F) n of
        None \<Rightarrow> Inl Bad_shift
      | Some y \<Rightarrow>
          if low7 AND 0x80 \<noteq> 0 then varbyte_loop (n + 1) (x OR y) cs else Inr (x OR y, cs))"

definition varbyte_decode :: "u64 load" where
  "varbyte_decode input = varbyte_loop 0 0 input"

datatype builtin_type = U8_t | U16_t | U32_t | U64_t | String8_t | String16_t | String32_t

text \<open>The characters of a wide string that was resized and then partly overwritten.\<close>

definition wide_string :: "nat \<Rightarrow> nat \<Rightarrow> bytes \<Rightarrow> 'a::len word list" where
  "wide_string width len got =
     map (\<lambda>i. of_le_bytes (take width (drop (width * i) (got @ replicate (width * len) 0)))) [0..<len]"

definition load_wide :: "nat \<Rightarrow> 'a::len word list load" where
  "load_wide width input =
     bindL (varbyte_decode input) (\<lambda>(str_size, input).
     let bytes = str_size * of_nat width;
         (got, rest) = xsgetn (unat bytes) input
     in if of_nat (length got) \<noteq> str_size then Inl Range_check
        else Inr (wide_string width (unat str_size) got, rest))"

definition load_builtin :: "builtin_type \<Rightarrow> builtin load" where
  "load_builtin ty input =
     (case ty of
        U8_t \<Rightarrow> bindL (load_raw 1 input) (\<lambda>(got, rest). Inr (U8_v (hd got), rest))
      | U16_t \<Rightarrow> bindL (load_int 2 input) (\<lambda>(x, rest). Inr (U16_v x, rest))
      | U32_t \<Rightarrow> bindL (load_int 4 input) (\<lambda>(x, rest). Inr (U32_v x, rest))
      | U64_t \<Rightarrow> bindL (load_int 8 input) (\<lambda>(x, rest). Inr (U64_v x, rest))
      | String8_t \<Rightarrow>
          bindL (varbyte_decode input) (\<lambda>(str_size, input).
          bindL (load_raw (unat str_size) input) (\<lambda>(got, rest). Inr (String8_v got, rest)))
      | String16_t \<Rightarrow> bindL (load_wide 2 input) (\<lambda>(x, rest). Inr (String16_v x, rest))
      | String32_t \<Rightarrow> bindL (load_wide 4 input) (\<lambda>(x, rest). Inr (String32_v x, rest)))"

definition load_bool :: "bool load" where
  "load_bool input = bindL (load_raw 1 input) (\<lambda>(got, rest). Inr (hd got \<noteq> 0, rest))"

fun load_elements :: "'a load \<Rightarrow> nat \<Rightarrow> 'a list load" where
  "load_elements app 0 input = Inr ([], input)"
| "load_elements app (Suc n) input =
     bindL (app input) (\<lambda>(x, input).
     bindL (load_elements app n input) (\<lambda>(xs, input). Inr (x # xs, input)))"

definition load_sequence :: "'a load \<Rightarrow> 'a list load" where
  "load_sequence app input =
     bindL (varbyte_decode input) (\<lambda>(num_elements, input). load_elements app (unat num_elements) input)"

definition load_object :: "(u16 \<times> bytes) load" where
  "load_object input =
     bindL (load_int 2 input) (\<lambda>(typenr, input).
       if typenr = 0
       then bindL (load_builtin String8_t input) (\<lambda>(v, rest).
              case v of String8_v name \<Rightarrow> Inr ((typenr, name), rest) | _ \<Rightarrow> Inl Range_check)
       else Inr ((typenr, []), input))"

section \<open>Termination\<close>

lemma drop_bit_less: "x > 0x7f \<Longrightarrow> unat (drop_bit 7 (x :: u64)) < unat x"
proof -
  assume "x > 0x7f"
  then have "0 < unat x" by (simp add: word_less_nat_alt)
  then show ?thesis by (simp add: drop_bit_eq_div unat_div_distrib)
qed

termination varbyte_bytes
  by (relation "measure unat") (use drop_bit_less in \<open>auto simp: unat_drop_bit_eq\<close>)

declare varbyte_bytes.simps [simp del]

section \<open>Bytes and integers\<close>

lemma bit_of_le_bytes:
  "bit (of_le_bytes bs :: 'a::len word) n \<longleftrightarrow>
     n < LENGTH('a) \<and> n div 8 < length bs \<and> bit (bs ! (n div 8)) (n mod 8)"
proof (induction bs arbitrary: n)
  case (Cons b bs)
  show ?case
  proof (cases "n < 8")
    case True
    then show ?thesis
      by (auto simp: bit_simps)
  next
    case False
    then have "n div 8 = Suc ((n - 8) div 8)" "n mod 8 = (n - 8) mod 8"
      by (auto simp: div_if mod_if)
    with False Cons.IH [of "n - 8"] show ?thesis
      by (auto simp: bit_simps dest: bit_imp_le_length)
  qed
qed simp

lemma length_le_bytes [simp]: "length (le_bytes (x :: 'a::len word)) = LENGTH('a) div 8"
  by (simp add: le_bytes_def)

text \<open>The machine's integers have whole bytes.\<close>

lemma of_le_le_bytes: "8 dvd LENGTH('a) \<Longrightarrow> of_le_bytes (le_bytes x) = (x :: 'a::len word)"
proof (rule bit_word_eqI)
  fix n assume d: "8 dvd LENGTH('a)" and n: "n < LENGTH('a)"
  then have "n div 8 < LENGTH('a) div 8" by (metis div_less_iff_less_mult dvd_div_mult_self zero_less_numeral)
  with n show "bit (of_le_bytes (le_bytes x) :: 'a word) n \<longleftrightarrow> bit x n"
    by (simp add: bit_of_le_bytes le_bytes_def bit_simps)
qed

lemma le_of_le_bytes:
  assumes "8 dvd LENGTH('a)" and "length bs = LENGTH('a) div 8"
  shows "le_bytes (of_le_bytes bs :: 'a::len word) = bs"
proof (rule nth_equalityI)
  show "length (le_bytes (of_le_bytes bs :: 'a word)) = length bs" using assms by simp
  fix i assume "i < length (le_bytes (of_le_bytes bs :: 'a word))"
  then have i: "i < LENGTH('a) div 8" by simp
  have "8 * i + k < LENGTH('a)" if "k < 8" for k
    using i that assms(1) by (auto elim!: dvdE)
  then show "le_bytes (of_le_bytes bs :: 'a word) ! i = bs ! i"
    using i assms(2) by (intro bit_word_eqI) (auto simp: le_bytes_def bit_simps bit_of_le_bytes)
qed

lemma le_network_order:
  "8 dvd LENGTH('a) \<Longrightarrow> le_bytes (to_network_order x) = rev (le_bytes (x :: 'a::len word))"
  by (simp add: to_network_order_def le_of_le_bytes)

text \<open>Swapping the bytes again gives the native order.\<close>

lemma from_to_network_order:
  "8 dvd LENGTH('a) \<Longrightarrow> from_network_order (to_network_order x) = (x :: 'a::len word)"
  by (simp add: from_network_order_def to_network_order_def [of "to_network_order x"] le_network_order of_le_le_bytes)

section \<open>Sinks\<close>

lemma save_raw_append: "save_raw b (save_raw a sb) = save_raw (a @ b) sb"
  by (auto simp: save_raw_def xsputn_def Let_def min_def split: option.splits)

lemma save_raw_vectorbuf: "save_raw bs (vectorbuf c) = vectorbuf (c @ bs)"
  by (simp add: save_raw_def xsputn_def vectorbuf_def)

lemma save_raw_Nil [simp]: "save_raw [] sb = sb"
  by (cases sb) (auto simp: save_raw_def xsputn_def Let_def split: option.splits)

text \<open>An array that has the right size is filled completely.\<close>

lemma save_raw_charbuf: "length bs = n \<Longrightarrow> written (save_raw bs (charbuf n)) = bs"
  by (simp add: save_raw_def xsputn_def charbuf_def)

lemma load_raw_append [simp]: "length bs = n \<Longrightarrow> load_raw n (bs @ rest) = Inr (bs, rest)"
  by (simp add: load_raw_def xsgetn_def Let_def)

lemma load_raw_short: "length input < n \<Longrightarrow> load_raw n input = Inl Range_check"
  by (simp add: load_raw_def xsgetn_def Let_def)

section \<open>Sizes as variable byte sequences\<close>

lemma bit_le_unat: "bit (v :: 'a::len word) i \<Longrightarrow> 2 ^ i \<le> unat v"
proof (rule ccontr)
  assume b: "bit v i" and "\<not> 2 ^ i \<le> unat v"
  then have "unat v div 2 ^ i = 0" by simp
  moreover have "bit (unat v) i" using b by (simp add: bit_unsigned_iff)
  ultimately show False by (simp add: bit_nat_def)
qed

lemma int_shift_small:
  assumes k: "k \<le> 4" and v: "unat v * 2 ^ (7 * k) < 2 ^ 31"
  shows "int_shift v (of_nat k) = Some (push_bit (7 * k) (ucast v))"
proof -
  have u: "unat (7 * of_nat k :: u64) = 7 * k" using k by (auto simp: unat_word_ariths unat_of_nat)
  then have "7 * of_nat k < (32 :: u64)" using k by (simp add: word_less_nat_alt)
  moreover have "\<not> bit v j" if "31 - 7 * k \<le> j" for j
  proof
    assume "bit v j"
    then have "2 ^ (31 - 7 * k) * 2 ^ (7 * k) \<le> unat v * 2 ^ (7 * k)"
      using le_trans [OF power_increasing [OF that, of "2::nat"] bit_le_unat [of v j]] by (intro mult_right_mono) auto
    then show False using v k by (simp add: power_add [symmetric])
  qed
  then have "scast (push_bit (7 * k) (ucast v :: u32)) = (push_bit (7 * k) (ucast v) :: u64)"
    using k by (intro bit_word_eqI) (auto simp: bit_simps min_def dest: bit_imp_le_length)
  ultimately show ?thesis using v by (simp add: int_shift_def u not_le)
qed

lemma bit_masks [simp]: "bit (0x7f :: int) n \<longleftrightarrow> n < 7" "bit (0x80 :: int) n \<longleftrightarrow> n = 7"
  using bit_mask_iff [where 'a = int, of 7 n] bit_exp_iff [where 'a = int, of 7 n]
  by (simp_all add: mask_eq_exp_minus_1)

lemma low7_bits:
  "(((ucast (y :: u64) AND 0x7f) OR 0x80) :: u8) AND 0x7f = ucast (take_bit 7 y)"
  "((ucast (y :: u64) AND 0x7f) :: u8) AND 0x7f = ucast (take_bit 7 y)"
  "(((ucast (y :: u64) AND 0x7f) OR 0x80) :: u8) AND 0x80 \<noteq> 0"
  "((ucast (y :: u64) AND 0x7f) :: u8) AND 0x80 = 0"
proof -
  show "(((ucast y AND 0x7f) OR 0x80) :: u8) AND 0x7f = ucast (take_bit 7 y)"
    by (rule bit_word_eqI) (auto simp: bit_and_iff bit_or_iff bit_take_bit_iff bit_unsigned_iff)
  show "((ucast y AND 0x7f) :: u8) AND 0x7f = ucast (take_bit 7 y)"
    by (rule bit_word_eqI) (auto simp: bit_and_iff bit_take_bit_iff bit_unsigned_iff)
  show "((ucast y AND 0x7f) :: u8) AND 0x80 = 0"
    by (rule bit_word_eqI) (auto simp: bit_and_iff)
  have "bit ((((ucast y AND 0x7f) OR 0x80) :: u8) AND 0x80) 7" by (simp add: bit_and_iff bit_or_iff)
  then show "(((ucast y AND 0x7f) OR 0x80) :: u8) AND 0x80 \<noteq> 0" by (metis bit_0_eq bot_apply bot_bool_def)
qed

lemma ucast_low7: "unat (ucast (take_bit 7 (y :: u64)) :: u8) = unat y mod 128"
  "(ucast (ucast (take_bit 7 y) :: u8) :: u64) = take_bit 7 y"
proof -
  show "unat (ucast (take_bit 7 y) :: u8) = unat y mod 128"
    by (simp add: unsigned_ucast_eq take_bit_eq_mod unat_mod_distrib)
  show "(ucast (ucast (take_bit 7 y) :: u8) :: u64) = take_bit 7 y"
    by (rule bit_word_eqI) (auto simp: bit_simps)
qed

lemma varbyte_bytes_low: "\<not> y > 0x7f \<Longrightarrow> varbyte_bytes y = [ucast (take_bit 7 y)]"
proof -
  assume y: "\<not> y > 0x7f"
  have "(ucast y AND 0x7f :: u8) = ucast (take_bit 7 y)" unfolding low7_bits(2) [symmetric] by (simp add: and.assoc)
  with y show ?thesis by (subst varbyte_bytes.simps) simp
qed

lemma take_bit_low: "\<not> y > 0x7f \<Longrightarrow> take_bit 7 y = (y :: u64)"
  by (simp add: word_unat_eq_iff unsigned_take_bit_eq word_less_nat_alt take_bit_nat_eq_self)

lemma take_drop_bits: "(acc OR push_bit m (take_bit 7 y)) OR push_bit (7 + m) (drop_bit 7 y) = acc OR push_bit m (y :: u64)"
proof (rule bit_word_eqI)
  fix n assume n: "n < LENGTH(64)"
  have "7 + (n - (7 + m)) = n - m" if "7 + m \<le> n" using that by simp
  with n show "bit ((acc OR push_bit m (take_bit 7 y)) OR push_bit (7 + m) (drop_bit 7 y)) n \<longleftrightarrow> bit (acc OR push_bit m y) n"
    by (cases "7 + m \<le> n") (auto simp: bit_simps)
qed

lemma take_drop_28: "take_bit 28 x OR push_bit 28 (drop_bit 28 x) = (x :: u64)"
proof (rule bit_word_eqI)
  fix n assume n: "n < LENGTH(64)"
  have "28 + (n - 28) = n" if "28 \<le> n" using that by simp
  with n show "bit (take_bit 28 x OR push_bit 28 (drop_bit 28 x)) n \<longleftrightarrow> bit x n"
    by (cases "28 \<le> n") (auto simp: bit_simps)
qed

text \<open>One byte of the loop: the last one, and one that is continued.\<close>

lemma varbyte_loop_last:
  assumes "\<not> y > 0x7f" and "int_shift (ucast (take_bit 7 y)) n = Some z"
  shows "varbyte_loop n acc (varbyte_bytes y @ rest) = Inr (acc OR z, rest)"
proof -
  have v: "(ucast (take_bit 7 y) :: u8) AND 0x7f = ucast (take_bit 7 y)" "(ucast (take_bit 7 y) :: u8) AND 0x80 = 0"
    unfolding low7_bits(2) [symmetric] by (simp_all add: and.assoc)
  show ?thesis using assms by (simp add: varbyte_bytes_low v)
qed

lemma varbyte_loop_more:
  assumes "y > 0x7f"
  shows "varbyte_loop n acc (varbyte_bytes y @ rest)
    = (case int_shift (ucast (take_bit 7 y)) n of None \<Rightarrow> Inl Bad_shift
       | Some z \<Rightarrow> varbyte_loop (n + 1) (acc OR z) (varbyte_bytes (drop_bit 7 y) @ rest))"
  using assms by (subst varbyte_bytes.simps) (simp add: low7_bits split: option.splits)

lemma varbyte_loop_bytes:
  assumes "k \<le> 4" and "unat y * 2 ^ (7 * k) < 2 ^ 31"
  shows "varbyte_loop (of_nat k) acc (varbyte_bytes y @ rest) = Inr (acc OR push_bit (7 * k) y, rest)"
  using assms
proof (induction y arbitrary: k acc rule: varbyte_bytes.induct)
  case (1 y)
  have "unat y mod 128 * 2 ^ (7 * k) < 2 ^ 31"
    using order_le_less_trans [OF mult_right_mono [OF mod_less_eq_dividend] 1(3)] by simp
  with int_shift_small [OF 1(2), of "ucast (take_bit 7 y)"]
  have shift: "int_shift (ucast (take_bit 7 y)) (of_nat k) = Some (push_bit (7 * k) (take_bit 7 y))"
    unfolding ucast_low7 by simp
  show ?case
  proof (cases "y > 0x7f")
    case False
    with varbyte_loop_last [OF False shift] take_bit_low show ?thesis by simp
  next
    case True
    then have y: "128 \<le> unat y" by (simp add: word_less_nat_alt)
    have "128 * 2 ^ (7 * k) < (2 :: nat) ^ 31"
      using le_less_trans [OF mult_right_mono [OF y] 1(3)] by simp
    then have k: "Suc k \<le> 4" using 1(2) by (cases "k = 4") auto
    have "unat (drop_bit 7 y) * 2 ^ (7 * Suc k) = unat y div 128 * 128 * 2 ^ (7 * k)"
      by (simp add: drop_bit_eq_div unat_div_distrib power_add)
    also have "\<dots> \<le> unat y * 2 ^ (7 * k)" by (intro mult_right_mono) auto
    finally have d: "unat (drop_bit 7 y) * 2 ^ (7 * Suc k) < 2 ^ 31" using 1(3) by simp
    from 1(1) [OF True k d, of "acc OR push_bit (7 * k) (take_bit 7 y)"] shift varbyte_loop_more [OF True]
    show ?thesis by (simp add: add.commute take_drop_bits [of acc "7 * k" y] del: varbyte_loop.simps)
  qed
qed

text \<open>Sizes below \<open>2 ^ 31\<close> are read back.\<close>

lemma varbyte_roundtrip: "x < 0x80000000 \<Longrightarrow> varbyte_decode (varbyte_bytes x @ rest) = Inr (x, rest)"
  using varbyte_loop_bytes [of 0 x 0 rest] by (simp add: varbyte_decode_def word_less_nat_alt)

section \<open>Codecs\<close>

text \<open>
  A type that is saved as the bytes \<open>enc x\<close> and read back: what every message part promises to the parts
  it is built from. Not every value survives; \<open>ok\<close> are those that do.
\<close>

locale codec =
  fixes put :: "'a \<Rightarrow> streambuf \<Rightarrow> streambuf" and get :: "'a load"
    and enc :: "'a \<Rightarrow> bytes" and ok :: "'a \<Rightarrow> bool"
  assumes put_enc: "put x sb = save_raw (enc x) sb"
    and get_enc: "ok x \<Longrightarrow> get (enc x @ rest) = Inr (x, rest)"
begin

lemma put_vectorbuf: "put x (vectorbuf c) = vectorbuf (c @ enc x)"
  by (simp add: put_enc save_raw_vectorbuf)

lemma put_then: "put x (save_raw a sb) = save_raw (a @ enc x) sb"
  by (simp add: put_enc save_raw_append)

lemma enc_inj: "ok x \<Longrightarrow> ok y \<Longrightarrow> enc x = enc y \<Longrightarrow> x = y"
  using get_enc [of x "[]"] get_enc [of y "[]"] by auto

lemma fold_put: "fold put xs (save_raw a sb) = save_raw (a @ concat (map enc xs)) sb"
  by (induction xs arbitrary: a) (simp_all add: put_then)

lemma load_elements_enc:
  "list_all ok xs \<Longrightarrow> load_elements get (length xs) (concat (map enc xs) @ rest) = Inr (xs, rest)"
  by (induction xs) (simp_all add: get_enc)

lemma save_sequence_enc:
  "save_sequence put xs sb = save_raw (varbyte_bytes (of_nat (length xs)) @ concat (map enc xs)) sb"
  unfolding save_sequence_def varbyte_encode_def
  using fold_put [of xs "varbyte_bytes (of_nat (length xs))" sb] by (simp add: save_raw_def)

lemma load_sequence_enc:
  assumes "list_all ok xs" and "length xs < 2 ^ 31"
  shows "load_sequence get (varbyte_bytes (of_nat (length xs)) @ concat (map enc xs) @ rest) = Inr (xs, rest)"
proof -
  have u: "unat (of_nat (length xs) :: u64) = length xs" using assms(2) by (simp add: unat_of_nat take_bit_nat_eq_self)
  then have "of_nat (length xs) < (0x80000000 :: u64)" using assms(2) by (simp add: word_less_nat_alt)
  then show ?thesis using load_elements_enc [OF assms(1)] by (simp add: load_sequence_def varbyte_roundtrip u)
qed

end

text \<open>Integers of whole bytes are saved most significant byte first.\<close>

definition int_bytes :: "'a::len word \<Rightarrow> bytes" where
  "int_bytes x = rev (le_bytes x)"

lemma save_int_enc: "8 dvd LENGTH('a) \<Longrightarrow> save_int (x :: 'a::len word) sb = save_raw (int_bytes x) sb"
  by (simp add: save_int_def le_network_order int_bytes_def)

lemma load_int_enc:
  assumes "8 dvd LENGTH('a)" and "n = LENGTH('a) div 8"
  shows "load_int n (int_bytes x @ rest) = Inr (x :: 'a::len word, rest)"
proof -
  have "of_le_bytes (int_bytes x) = to_network_order x" by (simp add: int_bytes_def to_network_order_def)
  with assms show ?thesis by (simp add: load_int_def int_bytes_def from_to_network_order)
qed

interpretation u16: codec save_int "load_int 2" "int_bytes :: u16 \<Rightarrow> bytes" "\<lambda>_. True"
  by unfold_locales (simp_all add: save_int_enc load_int_enc)

interpretation u32: codec save_int "load_int 4" "int_bytes :: u32 \<Rightarrow> bytes" "\<lambda>_. True"
  by unfold_locales (simp_all add: save_int_enc load_int_enc)

interpretation u64: codec save_int "load_int 8" "int_bytes :: u64 \<Rightarrow> bytes" "\<lambda>_. True"
  by unfold_locales (simp_all add: save_int_enc load_int_enc)

lemma length_int_bytes [simp]: "length (int_bytes (x :: 'a::len word)) = LENGTH('a) div 8"
  by (simp add: int_bytes_def)

definition save_string :: "bytes \<Rightarrow> streambuf \<Rightarrow> streambuf" where
  "save_string str sb = save_builtin (String8_v str) sb"

definition load_string :: "bytes load" where
  "load_string input =
     bindL (load_builtin String8_t input) (\<lambda>(v, rest). case v of String8_v s \<Rightarrow> Inr (s, rest) | _ \<Rightarrow> Inl Range_check)"

definition string_bytes :: "bytes \<Rightarrow> bytes" where
  "string_bytes str = varbyte_bytes (of_nat (length str)) @ str"

definition short :: "'a list \<Rightarrow> bool" where "short xs \<longleftrightarrow> length xs < 2 ^ 31"

lemma short_size:
  assumes "short xs"
  shows "unat (of_nat (length xs) :: u64) = length xs" "of_nat (length xs) < (0x80000000 :: u64)"
proof -
  show u: "unat (of_nat (length xs) :: u64) = length xs" using assms by (simp add: short_def unat_of_nat take_bit_nat_eq_self)
  then show "of_nat (length xs) < (0x80000000 :: u64)" using assms by (simp add: short_def word_less_nat_alt)
qed

interpretation str: codec save_string load_string string_bytes short
proof unfold_locales
  show "save_string x sb = save_raw (string_bytes x) sb" for x sb
    by (simp add: save_string_def save_builtin_def varbyte_encode_def string_bytes_def save_raw_append
        flip: save_raw_def)
  show "load_string (string_bytes x @ rest) = Inr (x, rest)" if "short x" for x rest
    using short_size [OF that]
    by (simp add: load_string_def load_builtin_def string_bytes_def varbyte_roundtrip)
qed

section \<open>What is not read back\<close>

text \<open>A larger size is not: the shift of the fifth byte reaches the sign of \<open>int\<close>, that of a sixth its width.\<close>

lemma varbyte_four:
  assumes "x \<ge> 0x80000000"
  shows "varbyte_decode (varbyte_bytes x @ rest) = varbyte_loop 4 (take_bit 28 x) (varbyte_bytes (drop_bit 28 x) @ rest)"
proof -
  have step: "varbyte_loop (of_nat k) (take_bit (7 * k) x) (varbyte_bytes (drop_bit (7 * k) x) @ rest)
      = varbyte_loop (of_nat (Suc k)) (take_bit (7 * Suc k) x) (varbyte_bytes (drop_bit (7 * Suc k) x) @ rest)"
    if k: "k < 4" for k
  proof -
    let ?y = "drop_bit (7 * k) x"
    have "unat ?y = unat x div 2 ^ (7 * k)" unfolding unat_drop_bit_eq by (rule drop_bit_eq_div)
    then have "0x80000000 div 2 ^ (7 * k) \<le> unat ?y" using assms by (simp add: word_le_nat_alt div_le_mono)
    moreover have "k \<in> {0, 1, 2, 3}" using k by auto
    then have "128 \<le> (0x80000000 :: nat) div 2 ^ (7 * k)" by auto
    ultimately have y: "?y > 0x7f" by (simp add: word_less_nat_alt)
    have "unat ?y mod 128 * 2 ^ (7 * k) < 128 * 2 ^ 21"
      using k by (intro mult_less_le_imp_less power_increasing) auto
    then have "int_shift (ucast (take_bit 7 ?y)) (of_nat k) = Some (push_bit (7 * k) (take_bit 7 ?y))"
      using int_shift_small [of k "ucast (take_bit 7 ?y)"] k unfolding ucast_low7 by simp
    moreover have "take_bit (7 * k) x OR push_bit (7 * k) (take_bit 7 ?y) = take_bit (7 * Suc k) x"
      by (rule bit_word_eqI) (auto simp: bit_simps)
    ultimately show ?thesis using varbyte_loop_more [OF y, of "of_nat k"] by (simp add: add.commute)
  qed
  show ?thesis
    using step [of 0] step [of 1] step [of 2] step [of 3] by (simp add: varbyte_decode_def)
qed

lemma int_shift_five: "int_shift v 5 = None"
  by (simp add: int_shift_def)

lemma int_shift_four:
  "16 \<le> unat v \<Longrightarrow> int_shift v 4 = None"
  "8 \<le> unat v \<Longrightarrow> unat v < 16 \<Longrightarrow> int_shift v 4 = Some (0xFFFFFFFF80000000 OR push_bit 28 (ucast v))"
proof -
  show "16 \<le> unat v \<Longrightarrow> int_shift v 4 = None" by (simp add: int_shift_def)
  assume v: "8 \<le> unat v" "unat v < 16"
  then have "unat v \<in> {8, 9, 10, 11, 12, 13, 14, 15}" by auto
  then have "v \<in> {8, 9, 10, 11, 12, 13, 14, 15}" by (auto simp: word_unat_eq_iff)
  then show "int_shift v 4 = Some (0xFFFFFFFF80000000 OR push_bit 28 (ucast v))"
    unfolding insert_iff by (elim disjE emptyE) (simp_all add: int_shift_def)
qed

lemma varbyte_loop_five: "varbyte_loop 5 acc (varbyte_bytes y @ rest) = Inl Bad_shift"
  by (subst varbyte_bytes.simps) (simp add: int_shift_five)

lemma varbyte_large:
  assumes "x \<ge> 0x80000000"
  shows "varbyte_decode (varbyte_bytes x @ rest)
    = (if x < 0x100000000 then Inr (x OR 0xFFFFFFFF80000000, rest) else Inl Bad_shift)"
proof -
  let ?y = "drop_bit 28 x"
  have y: "unat ?y = unat x div 2 ^ 28" unfolding unat_drop_bit_eq by (rule drop_bit_eq_div)
  then have y8: "8 \<le> unat ?y" using assms by (simp add: word_le_nat_alt)
  have x32: "x < 0x100000000 \<longleftrightarrow> unat ?y < 16" using y by (simp add: word_less_nat_alt div_less_iff_less_mult)
  show ?thesis
  proof (cases "unat ?y mod 128 < 16 \<and> \<not> ?y > 0x7f")
    case True
    then have "unat ?y < 128" by (simp add: word_less_nat_alt)
    with True have low: "unat ?y < 16" by simp
    then have "int_shift (ucast (take_bit 7 ?y)) 4 = Some (0xFFFFFFFF80000000 OR push_bit 28 ?y)"
      using int_shift_four(2) [of "ucast (take_bit 7 ?y)"] y8 True take_bit_low [of ?y] unfolding ucast_low7 by simp
    then have "varbyte_loop 4 (take_bit 28 x) (varbyte_bytes ?y @ rest)
        = Inr (take_bit 28 x OR (0xFFFFFFFF80000000 OR push_bit 28 ?y), rest)"
      using True by (intro varbyte_loop_last) simp
    also have "take_bit 28 x OR (c OR push_bit 28 ?y) = x OR c" for c
      using take_drop_28 [of x] by (metis or.assoc or.commute)
    finally show ?thesis using low x32 varbyte_four [OF assms] by (simp only: if_True simp_thms)
  next
    case False
    have "varbyte_loop 4 (take_bit 28 x) (varbyte_bytes ?y @ rest) = Inl Bad_shift"
    proof (cases "?y > 0x7f")
      case True
      then show ?thesis by (simp add: varbyte_loop_more varbyte_loop_five split: option.splits)
    next
      case low: False
      with False have "int_shift (ucast (take_bit 7 ?y)) 4 = None"
        using int_shift_four(1) [of "ucast (take_bit 7 ?y)"] unfolding ucast_low7 by simp
      then show ?thesis
        using low low7_bits(1) [of ?y] by (simp add: varbyte_bytes_low low7_bits(2) [symmetric] and.assoc)
    qed
    moreover have "\<not> x < 0x100000000" unfolding x32 using False by (auto simp: word_less_nat_alt)
    ultimately show ?thesis by (simp add: varbyte_four [OF assms])
  qed
qed

text \<open>
  A wide string is never read back, except the empty one: the number of bytes that were read is compared
  with the number of characters.
\<close>

lemma length_concat_le_bytes: "length (concat (map le_bytes (str :: 'a::len word list))) = LENGTH('a) div 8 * length str"
  by (induction str) simp_all

lemma load_wide_fails:
  fixes str :: "'a::len word list"
  assumes s: "short str" "str \<noteq> []" and w: "w = LENGTH('a) div 8" "1 < w" "w \<le> 8"
  shows "(load_wide w :: 'a word list load) (varbyte_bytes (of_nat (length str)) @ concat (map le_bytes str) @ rest)
    = Inl Range_check"
proof -
  let ?n = "of_nat (length str) :: u64"
  have l: "length str < 2 ^ 31" using s by (simp add: short_def)
  then have wl: "length str * w < 2 ^ 64" using w(3) mult_less_le_imp_less [of "length str" "2 ^ 31" w 8] s(2) w(2) by simp
  then have u: "unat (?n * of_nat w) = w * length str"
    using l w(3) by (simp add: unat_of_nat take_bit_nat_eq_self mult.commute flip: of_nat_mult)
  have "xsgetn (w * length str) (concat (map le_bytes str) @ rest) = (concat (map le_bytes str), rest)"
    using length_concat_le_bytes [of str] w(1) by (simp add: xsgetn_def Let_def)
  moreover have "of_nat (w * length str) \<noteq> ?n"
  proof
    assume "of_nat (w * length str) = ?n"
    then have "unat (of_nat (w * length str) :: u64) = unat ?n" by simp
    then have "w * length str = length str" using wl l by (simp add: unat_of_nat take_bit_nat_eq_self mult.commute del: of_nat_mult)
    with s(2) w(2) show False by simp
  qed
  ultimately show ?thesis
    using short_size [OF s(1)] length_concat_le_bytes [of str]
    unfolding load_wide_def by (simp add: varbyte_roundtrip Let_def u del: of_nat_mult flip: w(1))
qed

end
