(* ===== verification/NodeId.thy ===== *)
theory NodeId
  imports Serializer
begin

text \<open>
  Identifiers of actor systems (libcaf_core/caf/node_id.hpp, src/node_id.cpp): a 160 bit host ID and a
  process ID. An identifier without data is the invalid one.
\<close>

section \<open>Data\<close>

record node_data =
  pid :: u32
  host :: bytes

type_synonym node_id = "node_data option"

definition host_id_size :: nat where "host_id_size = 20"

definition node_serialized_size :: nat where "node_serialized_size = host_id_size + 4"

definition invalid_host_id :: bytes where "invalid_host_id = replicate host_id_size 0"

definition invalid_node_id :: node_id where "invalid_node_id = None"

definition process_id :: "node_id \<Rightarrow> u32" where
  "process_id x = (case x of None \<Rightarrow> 0 | Some d \<Rightarrow> pid d)"

definition host_id :: "node_id \<Rightarrow> bytes" where
  "host_id x = (case x of None \<Rightarrow> invalid_host_id | Some d \<Rightarrow> host d)"

section \<open>Comparison\<close>

text \<open>The first position where the host IDs differ decides; the process IDs are subtracted as \<open>int\<close>.\<close>

fun mismatch :: "bytes \<Rightarrow> bytes \<Rightarrow> (u8 \<times> u8) option" where
  "mismatch (a # as) (b # bs) = (if a = b then mismatch as bs else Some (a, b))"
| "mismatch _ _ = None"

definition int_minus :: "u32 \<Rightarrow> u32 \<Rightarrow> int res" where
  "int_minus a b =
     (let d = sint a - sint b in if d < - (2 ^ 31) \<or> d \<ge> 2 ^ 31 then Inl SignedOverflow else Inr d)"

definition node_compare :: "node_id \<Rightarrow> node_id \<Rightarrow> int res" where
  "node_compare x y =
     (case (x, y) of
        (None, None) \<Rightarrow> Inr 0
      | (Some _, None) \<Rightarrow> Inr 1
      | (None, Some _) \<Rightarrow> Inr (-1)
      | (Some _, Some _) \<Rightarrow>
          (case mismatch (host_id x) (host_id y) of
             None \<Rightarrow> int_minus (process_id x) (process_id y)
           | Some (a, b) \<Rightarrow> Inr (if a < b then -1 else 1)))"

section \<open>Serialization\<close>

definition save_node_id :: "node_id \<Rightarrow> streambuf \<Rightarrow> streambuf" where
  "save_node_id x sb =
     (case x of
        None \<Rightarrow> save_int (0 :: u32) (save_raw (replicate host_id_size 0) sb)
      | Some d \<Rightarrow> save_int (pid d) (save_raw (host d) sb))"

definition load_node_id :: "node_id load" where
  "load_node_id input =
     bindL (load_raw host_id_size input) (\<lambda>(tmp_hid, input).
     bindL (load_int 4 input) (\<lambda>(tmp_pid, input).
       if tmp_pid = 0 \<and> list_all (\<lambda>value. value = 0) tmp_hid then Inr (invalid_node_id, input)
       else Inr (Some \<lparr>pid = tmp_pid, host = tmp_hid\<rparr>, input)))"

section \<open>Text\<close>

definition is_digit :: "char \<Rightarrow> bool" where
  "is_digit c \<longleftrightarrow> CHR ''0'' \<le> c \<and> c \<le> CHR ''9''"

definition is_xdigit :: "char \<Rightarrow> bool" where
  "is_xdigit c \<longleftrightarrow> is_digit c \<or> (CHR ''a'' \<le> c \<and> c \<le> CHR ''f'') \<or> (CHR ''A'' \<le> c \<and> c \<le> CHR ''F'')"

definition code :: "char \<Rightarrow> nat" where "code c = of_char c"

text \<open>\<open>hex_value\<close> of the constructor and \<open>hex_nibble\<close> of \<open>from_string\<close>.\<close>

definition hex_value :: "char \<Rightarrow> u8" where
  "hex_value c =
     (if CHR ''a'' \<le> c \<and> c \<le> CHR ''f'' then of_nat (code c - code CHR ''a'' + 10)
      else if CHR ''A'' \<le> c \<and> c \<le> CHR ''F'' then of_nat (code c - code CHR ''A'' + 10)
      else if is_digit c then of_nat (code c - code CHR ''0'') else 0)"

definition hex_nibble :: "char \<Rightarrow> u8" where
  "hex_nibble c =
     (if is_digit c then of_nat (code c) - of_nat (code CHR ''0'')
      else if CHR ''a'' \<le> c \<and> c \<le> CHR ''f'' then of_nat (code c) - of_nat (code CHR ''a'') + 10
      else of_nat (code c) - of_nat (code CHR ''A'') + 10)"

fun hex_bytes :: "(char \<Rightarrow> u8) \<Rightarrow> string \<Rightarrow> bytes" where
  "hex_bytes f (a # b # cs) = (push_bit 4 (f a) OR f b) # hex_bytes f cs"
| "hex_bytes f _ = []"

definition node_id_of_hash :: "u32 \<Rightarrow> string \<Rightarrow> node_id" where
  "node_id_of_hash procid hash =
     Some \<lparr>pid = procid,
           host = (if length hash \<noteq> host_id_size * 2 then invalid_host_id else hex_bytes hex_value hash)\<rparr>"

text \<open>\<open>atoll\<close> on digits; a larger number is the largest \<open>long long\<close>.\<close>

definition atoll :: "string \<Rightarrow> nat" where
  "atoll s = min (foldl (\<lambda>n c. 10 * n + (code c - code CHR ''0'')) 0 s) (2 ^ 63 - 1)"

definition node_id_from_string :: "string \<Rightarrow> node_id" where
  "node_id_from_string str =
     (if str = ''<invalid-node>'' then None
      else let hexstr_size = host_id_size * 2 in
      if length str < hexstr_size + 2 then None
      else if str ! hexstr_size \<noteq> CHR '':'' then None
      else if \<not> list_all is_xdigit (take hexstr_size str) then None
      else if \<not> list_all is_digit (drop (hexstr_size + 1) str) then None
      else Some \<lparr>pid = of_nat (atoll (drop (hexstr_size + 1) str)),
                 host = hex_bytes hex_nibble (take hexstr_size str)\<rparr>)"

definition hex_digit :: "nat \<Rightarrow> char" where
  "hex_digit n = ''0123456789abcdef'' ! n"

definition hex_byte :: "u8 \<Rightarrow> string" where
  "hex_byte val = [hex_digit (unat val div 16), hex_digit (unat val mod 16)]"

definition node_id_to_string :: "node_id \<Rightarrow> string" where
  "node_id_to_string x =
     (case x of None \<Rightarrow> ''<invalid-node>''
      | Some d \<Rightarrow> concat (map hex_byte (host_id x)) @ '':'' @ show_dec (unat (process_id x)))"

section \<open>Identifiers that exist\<close>

definition node_wf :: "node_id \<Rightarrow> bool" where
  "node_wf x \<longleftrightarrow> (case x of None \<Rightarrow> True | Some d \<Rightarrow> length (host d) = host_id_size)"

text \<open>The invalid identifier is written as zeros, so that an identifier of zeros is read as invalid.\<close>

definition node_ok :: "node_id \<Rightarrow> bool" where
  "node_ok x \<longleftrightarrow> node_wf x \<and> \<not> (\<exists>d. x = Some d \<and> pid d = 0 \<and> list_all (\<lambda>v. v = 0) (host d))"

definition node_bytes :: "node_id \<Rightarrow> bytes" where
  "node_bytes x = host_id x @ int_bytes (process_id x)"

lemma load_node_id_bytes:
  assumes "length h = host_id_size"
  shows "load_node_id (h @ int_bytes p @ rest)
    = Inr (if p = 0 \<and> list_all (\<lambda>v. v = 0) h then invalid_node_id else Some \<lparr>pid = p, host = h\<rparr>, rest)"
  using load_raw_append [OF assms] u32.get_enc [of p rest] by (simp add: load_node_id_def)

interpretation node: codec save_node_id load_node_id node_bytes node_ok
proof unfold_locales
  show "save_node_id x sb = save_raw (node_bytes x) sb" for x sb
    by (auto simp: save_node_id_def node_bytes_def host_id_def process_id_def invalid_host_id_def
        save_int_enc save_raw_append split: option.splits)
  show "load_node_id (node_bytes x @ rest) = Inr (x, rest)" if "node_ok x" for x rest
  proof (cases x)
    case None
    then show ?thesis using load_node_id_bytes [of invalid_host_id 0 rest]
      by (simp add: node_bytes_def host_id_def process_id_def invalid_host_id_def invalid_node_id_def list_all_iff)
  next
    case (Some d)
    with that load_node_id_bytes [of "host d" "pid d" rest] show ?thesis
      by (auto simp: node_ok_def node_wf_def node_bytes_def host_id_def process_id_def)
  qed
qed

lemma length_node_bytes: "node_wf x \<Longrightarrow> length (node_bytes x) = node_serialized_size"
  by (auto simp: node_wf_def node_bytes_def host_id_def invalid_host_id_def node_serialized_size_def split: option.splits)

lemma mismatch_None: "length as = length bs \<Longrightarrow> mismatch as bs = None \<longleftrightarrow> as = bs"
  by (induction as bs rule: mismatch.induct) auto

text \<open>Where the subtraction does not overflow, comparison finds exactly the equal identifiers.\<close>

lemma node_compare_eq:
  assumes "node_wf x" and "node_wf y"
  shows "node_compare x y = Inr 0 \<longleftrightarrow> x = y"
proof -
  have "sint (pid a) = sint (pid b) \<longleftrightarrow> pid a = pid b" for a b :: node_data
    by (rule word_eq_iff_signed [symmetric])
  then show ?thesis
    using assms mismatch_None [of "host_id x" "host_id y"]
    by (auto simp: node_compare_def node_wf_def host_id_def process_id_def int_minus_def Let_def
        split: option.splits if_splits)
qed

section \<open>Reading what was printed\<close>

lemma hex_digit_less: "n < 16 \<Longrightarrow> is_xdigit (hex_digit n) \<and> hex_nibble (hex_digit n) = of_nat n"
proof -
  have "\<forall>n \<in> set [0..<16]. is_xdigit (hex_digit n) \<and> hex_nibble (hex_digit n) = of_nat n" by code_simp
  then show "n < 16 \<Longrightarrow> is_xdigit (hex_digit n) \<and> hex_nibble (hex_digit n) = of_nat n" by simp
qed

lemma nibbles: "push_bit 4 (of_nat (unat v div 16)) OR of_nat (unat v mod 16) = (v :: u8)"
proof -
  have v: "unat v < 256" using unsigned_less [of v] by simp
  then have "unat v div 16 mod 256 = unat v div 16" by simp
  then have "of_nat (unat v div 16) = drop_bit 4 v" "of_nat (unat v mod 16) = take_bit 4 v"
    by (simp_all add: word_unat_eq_iff unat_of_nat drop_bit_eq_div take_bit_eq_mod unat_div_distrib unat_mod_distrib)
  moreover have "bit (push_bit 4 (drop_bit 4 v) OR take_bit 4 v) n \<longleftrightarrow> bit v n" if "n < 8" for n
    using that by (cases "n < 4") (auto simp: bit_simps)
  ultimately show ?thesis by (intro bit_word_eqI) simp
qed

lemma hex_bytes_hex: "hex_bytes hex_nibble (concat (map hex_byte hs)) = hs"
proof (induction hs)
  case (Cons v hs)
  have v: "unat v < 256" using unsigned_less [of v] by simp
  then have "unat v div 16 < 16" "unat v mod 16 < 16" by auto
  with Cons nibbles [of v] show ?case by (simp add: hex_byte_def hex_digit_less)
qed simp

lemma xdigits_hex: "list_all is_xdigit (concat (map hex_byte hs))"
proof (induction hs)
  case (Cons v hs)
  have v: "unat v < 256" using unsigned_less [of v] by simp
  then have "unat v div 16 < 16" "unat v mod 16 < 16" by auto
  with Cons show ?case by (simp add: hex_byte_def hex_digit_less)
qed simp

lemma length_hex: "length (concat (map hex_byte hs)) = 2 * length hs"
  by (induction hs) (simp_all add: hex_byte_def)

lemma digit_code: "n < 10 \<Longrightarrow> is_digit (char_of (48 + n)) \<and> code (char_of (48 + n)) - code CHR ''0'' = n"
proof -
  have "\<forall>n \<in> set [0..<10]. is_digit (char_of (48 + n)) \<and> code (char_of (48 + n)) - code CHR ''0'' = n" by code_simp
  then show "n < 10 \<Longrightarrow> is_digit (char_of (48 + n)) \<and> code (char_of (48 + n)) - code CHR ''0'' = n" by simp
qed

lemma show_dec_digits:
  "show_dec n \<noteq> [] \<and> list_all is_digit (show_dec n)
   \<and> foldl (\<lambda>n c. 10 * n + (code c - code CHR ''0'')) 0 (show_dec n) = n"
proof (induction n rule: show_dec.induct)
  case (1 n)
  show ?case
  proof (cases "n < 10")
    case True
    then show ?thesis using digit_code by (subst (1 2 3) show_dec.simps) simp
  next
    case False
    have "n mod 10 < 10" by simp
    with False 1 digit_code show ?thesis by (subst (1 2 3) show_dec.simps) simp
  qed
qed

lemma node_id_text_roundtrip:
  assumes "node_wf x"
  shows "node_id_from_string (node_id_to_string x) = x"
proof (cases x)
  case None
  then show ?thesis by (simp add: node_id_to_string_def node_id_from_string_def)
next
  case (Some d)
  let ?h = "concat (map hex_byte (host d))" and ?n = "show_dec (unat (pid d))"
  have h: "length ?h = 40" using assms Some by (simp add: length_hex node_wf_def host_id_size_def)
  have p: "unat (pid d) < 2 ^ 32" using unsigned_less [of "pid d"] by simp
  have n: "?n \<noteq> []" "list_all is_digit ?n" "atoll ?n = unat (pid d)"
    using show_dec_digits [of "unat (pid d)"] p by (auto simp: atoll_def)
  have str: "node_id_to_string x = ?h @ CHR '':'' # ?n"
    using Some by (simp add: node_id_to_string_def host_id_def process_id_def)
  have "length (node_id_to_string x) \<ge> 42" using h n(1) by (cases ?n) (simp_all add: str)
  moreover from this have "node_id_to_string x \<noteq> ''<invalid-node>''" by auto
  ultimately have "node_id_from_string (node_id_to_string x)
      = Some \<lparr>pid = of_nat (atoll ?n), host = hex_bytes hex_nibble ?h\<rparr>"
    using h n xdigits_hex [of "host d"] by (simp add: node_id_from_string_def host_id_size_def str nth_append)
  then show ?thesis using Some n(3) by (simp add: hex_bytes_hex)
qed

end
