(* ===== verification/BaspHeader.thy ===== *)
theory BaspHeader
  imports NodeId
begin

text \<open>
  The header of a message of the binary actor system protocol
  (libcaf_io/caf/io/basp/header.hpp, src/header.cpp, basp/message_type.hpp, src/message_type.cpp).
\<close>

section \<open>Headers\<close>

text \<open>The operation is one byte, which may hold a value that names none.\<close>

datatype message_type =
    Server_handshake | Client_handshake | Dispatch_message | Announce_proxy | Kill_proxy | Heartbeat
  | Unknown_type u8

type_synonym actor_id = u64

definition invalid_actor_id :: actor_id where "invalid_actor_id = 0"

record header =
  operation :: message_type
  flags :: u8
  payload_len :: u32
  operation_data :: u64
  source_node :: node_id
  dest_node :: node_id
  source_actor :: actor_id
  dest_actor :: actor_id

definition named_receiver_flag :: u8 where "named_receiver_flag = 0x01"

definition has_flag :: "header \<Rightarrow> u8 \<Rightarrow> bool" where
  "has_flag hdr flag \<longleftrightarrow> flags hdr AND flag \<noteq> 0"

definition message_type_value :: "message_type \<Rightarrow> u8" where
  "message_type_value t =
     (case t of Server_handshake \<Rightarrow> 0x00 | Client_handshake \<Rightarrow> 0x01 | Dispatch_message \<Rightarrow> 0x02
      | Announce_proxy \<Rightarrow> 0x03 | Kill_proxy \<Rightarrow> 0x04 | Heartbeat \<Rightarrow> 0x05 | Unknown_type x \<Rightarrow> x)"

definition message_type_of :: "u8 \<Rightarrow> message_type" where
  "message_type_of x =
     (if x = 0x00 then Server_handshake else if x = 0x01 then Client_handshake
      else if x = 0x02 then Dispatch_message else if x = 0x03 then Announce_proxy
      else if x = 0x04 then Kill_proxy else if x = 0x05 then Heartbeat else Unknown_type x)"

definition message_type_to_string :: "message_type \<Rightarrow> string" where
  "message_type_to_string x =
     (case x of Server_handshake \<Rightarrow> ''server_handshake'' | Client_handshake \<Rightarrow> ''client_handshake''
      | Dispatch_message \<Rightarrow> ''dispatch_message'' | Announce_proxy \<Rightarrow> ''announce_proxy_instance''
      | Kill_proxy \<Rightarrow> ''kill_proxy_instance'' | Heartbeat \<Rightarrow> ''heartbeat'' | Unknown_type _ \<Rightarrow> ''???'')"

definition to_bin :: "u8 \<Rightarrow> string" where
  "to_bin x = concat (map (\<lambda>offset. show_dec (unat (drop_bit offset x AND 0x01))) (rev [0..<8]))"

definition header_to_string :: "header \<Rightarrow> string" where
  "header_to_string hdr =
     ''{'' @ message_type_to_string (operation hdr) @ '', '' @ to_bin (flags hdr) @ '', ''
     @ show_dec (unat (payload_len hdr)) @ '', '' @ show_dec (unat (operation_data hdr)) @ '', ''
     @ node_id_to_string (source_node hdr) @ '', '' @ node_id_to_string (dest_node hdr) @ '', ''
     @ show_dec (unat (source_actor hdr)) @ '', '' @ show_dec (unat (dest_actor hdr)) @ ''}''"

definition node_eq :: "node_id \<Rightarrow> node_id \<Rightarrow> bool" where
  "node_eq x y \<longleftrightarrow> node_compare x y = Inr 0"

definition header_eq :: "header \<Rightarrow> header \<Rightarrow> bool" where
  "header_eq lhs rhs \<longleftrightarrow>
     operation lhs = operation rhs
   \<and> flags lhs = flags rhs
   \<and> payload_len lhs = payload_len rhs
   \<and> operation_data lhs = operation_data rhs
   \<and> node_eq (source_node lhs) (source_node rhs)
   \<and> node_eq (dest_node lhs) (dest_node rhs)
   \<and> source_actor lhs = source_actor rhs
   \<and> dest_actor lhs = dest_actor rhs"

definition is_handshake :: "header \<Rightarrow> bool" where
  "is_handshake hdr \<longleftrightarrow> operation hdr = Server_handshake \<or> operation hdr = Client_handshake"

definition is_heartbeat :: "header \<Rightarrow> bool" where
  "is_heartbeat hdr \<longleftrightarrow> operation hdr = Heartbeat"

section \<open>Validity\<close>

definition valid_node :: "node_id \<Rightarrow> bool" where
  "valid_node val \<longleftrightarrow> val \<noteq> invalid_node_id"

definition server_handshake_valid :: "header \<Rightarrow> bool" where
  "server_handshake_valid hdr \<longleftrightarrow>
     valid_node (source_node hdr) \<and> \<not> valid_node (dest_node hdr)
   \<and> dest_actor hdr = 0 \<and> operation_data hdr \<noteq> 0"

definition client_handshake_valid :: "header \<Rightarrow> bool" where
  "client_handshake_valid hdr \<longleftrightarrow>
     valid_node (source_node hdr) \<and> valid_node (dest_node hdr) \<and> source_node hdr \<noteq> dest_node hdr
   \<and> source_actor hdr = 0 \<and> dest_actor hdr = 0 \<and> operation_data hdr = 0"

definition dispatch_message_valid :: "header \<Rightarrow> bool" where
  "dispatch_message_valid hdr \<longleftrightarrow>
     valid_node (dest_node hdr)
   \<and> (dest_actor hdr \<noteq> 0 \<or> has_flag hdr named_receiver_flag) \<and> payload_len hdr \<noteq> 0"

definition announce_proxy_instance_valid :: "header \<Rightarrow> bool" where
  "announce_proxy_instance_valid hdr \<longleftrightarrow>
     valid_node (source_node hdr) \<and> valid_node (dest_node hdr) \<and> source_node hdr \<noteq> dest_node hdr
   \<and> source_actor hdr = 0 \<and> dest_actor hdr \<noteq> 0 \<and> payload_len hdr = 0 \<and> operation_data hdr = 0"

definition kill_proxy_instance_valid :: "header \<Rightarrow> bool" where
  "kill_proxy_instance_valid hdr \<longleftrightarrow>
     valid_node (source_node hdr) \<and> valid_node (dest_node hdr) \<and> source_node hdr \<noteq> dest_node hdr
   \<and> source_actor hdr \<noteq> 0 \<and> dest_actor hdr = 0 \<and> payload_len hdr \<noteq> 0 \<and> operation_data hdr = 0"

definition heartbeat_valid :: "header \<Rightarrow> bool" where
  "heartbeat_valid hdr \<longleftrightarrow>
     valid_node (source_node hdr) \<and> valid_node (dest_node hdr) \<and> source_node hdr \<noteq> dest_node hdr
   \<and> source_actor hdr = 0 \<and> dest_actor hdr = 0 \<and> payload_len hdr = 0 \<and> operation_data hdr = 0"

definition header_valid :: "header \<Rightarrow> bool" where
  "header_valid hdr \<longleftrightarrow>
     (case operation hdr of
        Server_handshake \<Rightarrow> server_handshake_valid hdr
      | Client_handshake \<Rightarrow> client_handshake_valid hdr
      | Dispatch_message \<Rightarrow> dispatch_message_valid hdr
      | Announce_proxy \<Rightarrow> announce_proxy_instance_valid hdr
      | Kill_proxy \<Rightarrow> kill_proxy_instance_valid hdr
      | Heartbeat \<Rightarrow> heartbeat_valid hdr
      | Unknown_type _ \<Rightarrow> False)"

lemmas validity_defs = server_handshake_valid_def client_handshake_valid_def dispatch_message_valid_def
  announce_proxy_instance_valid_def kill_proxy_instance_valid_def heartbeat_valid_def valid_node_def

section \<open>Serialization\<close>

text \<open>Two bytes of padding are written as 0 and skipped when reading.\<close>

definition save_header :: "header \<Rightarrow> streambuf \<Rightarrow> streambuf" where
  "save_header hdr sb =
     (let pad = 0;
          sb = save_raw [message_type_value (operation hdr)] sb;
          sb = save_raw [pad] sb;
          sb = save_raw [pad] sb;
          sb = save_raw [flags hdr] sb;
          sb = save_int (payload_len hdr) sb;
          sb = save_int (operation_data hdr) sb;
          sb = save_node_id (source_node hdr) sb;
          sb = save_node_id (dest_node hdr) sb;
          sb = save_int (source_actor hdr) sb
      in save_int (dest_actor hdr) sb)"

definition load_header :: "header load" where
  "load_header input =
     bindL (load_raw 1 input) (\<lambda>(op, input).
     bindL (load_raw 1 input) (\<lambda>(pad1, input).
     bindL (load_raw 1 input) (\<lambda>(pad2, input).
     bindL (load_raw 1 input) (\<lambda>(fl, input).
     bindL (load_int 4 input) (\<lambda>(len, input).
     bindL (load_int 8 input) (\<lambda>(data, input).
     bindL (load_node_id input) (\<lambda>(src, input).
     bindL (load_node_id input) (\<lambda>(dst, input).
     bindL (load_int 8 input) (\<lambda>(src_actor, input).
     bindL (load_int 8 input) (\<lambda>(dst_actor, input).
       Inr (\<lparr>operation = message_type_of (hd op), flags = hd fl, payload_len = len, operation_data = data,
             source_node = src, dest_node = dst, source_actor = src_actor, dest_actor = dst_actor\<rparr>, input)))))))))))"

definition header_size :: nat where
  "header_size = node_serialized_size * 2 + 8 * 2 + 4 * 2 + 8"

definition header_bytes :: "header \<Rightarrow> bytes" where
  "header_bytes hdr =
     [message_type_value (operation hdr), 0, 0, flags hdr] @ int_bytes (payload_len hdr) @ int_bytes (operation_data hdr)
     @ node_bytes (source_node hdr) @ node_bytes (dest_node hdr)
     @ int_bytes (source_actor hdr) @ int_bytes (dest_actor hdr)"

text \<open>The headers that are read back as they were written.\<close>

definition header_ok :: "header \<Rightarrow> bool" where
  "header_ok hdr \<longleftrightarrow> node_ok (source_node hdr) \<and> node_ok (dest_node hdr)
     \<and> (\<forall>x. operation hdr = Unknown_type x \<longrightarrow> x > 5)"

lemma message_type_roundtrip:
  assumes "\<forall>x. t = Unknown_type x \<longrightarrow> x > 5"
  shows "message_type_of (message_type_value t) = t"
  using assms by (cases t) (auto simp: message_type_of_def message_type_value_def)

lemma load_byte [simp]: "load_raw (Suc 0) (b # bs) = Inr ([b], bs)"
  using load_raw_append [of "[b]" 1 bs] by simp

lemma load_header_bytes:
  assumes "header_ok h"
  shows "load_header (header_bytes h @ rest) = Inr (h, rest)"
proof -
  have n: "load_node_id (node_bytes (source_node h) @ bs) = Inr (source_node h, bs)"
    "load_node_id (node_bytes (dest_node h) @ bs) = Inr (dest_node h, bs)" for bs
    using assms node.get_enc by (simp_all add: header_ok_def)
  have t: "message_type_of (message_type_value (operation h)) = operation h"
    using assms by (intro message_type_roundtrip) (simp add: header_ok_def)
  show ?thesis
    by (simp add: load_header_def header_bytes_def u32.get_enc u64.get_enc n t)
qed

interpretation hdr: codec save_header load_header header_bytes header_ok
proof unfold_locales
  show "save_header x sb = save_raw (header_bytes x) sb" for x sb
    by (simp add: save_header_def header_bytes_def Let_def save_raw_append u32.put_enc u64.put_enc node.put_enc)
  show "load_header (header_bytes x @ rest) = Inr (x, rest)" if "header_ok x" for x rest
    using that by (rule load_header_bytes)
qed

lemma length_basp_header:
  "node_wf (source_node h) \<Longrightarrow> node_wf (dest_node h) \<Longrightarrow> length (header_bytes h) = header_size"
  by (simp add: header_bytes_def header_size_def length_node_bytes)

lemma header_ok_wf: "header_ok h \<Longrightarrow> node_wf (source_node h) \<and> node_wf (dest_node h)"
  by (simp add: header_ok_def node_ok_def)

lemma header_eq_iff:
  assumes "node_wf (source_node x)" "node_wf (dest_node x)" "node_wf (source_node y)" "node_wf (dest_node y)"
  shows "header_eq x y \<longleftrightarrow> x = y"
  using assms by (cases x; cases y) (auto simp: header_eq_def node_eq_def node_compare_eq)

end
