(* ===== verification/RoutingTable.thy ===== *)
theory RoutingTable
  imports NodeId
begin

text \<open>
  The routing table of the binary actor system protocol (libcaf_io/caf/io/basp/routing_table.hpp,
  src/routing_table.cpp): direct connections in both directions, and for each node that is known
  indirectly the hops that lead to it. The calls of the erase callback and the hooks are a log.
\<close>

section \<open>State\<close>

type_synonym handle = int

definition invalid_connection_handle :: handle where "invalid_connection_handle = -1"

datatype rt_event =
    Purged node_id                   \<comment> \<open>the callback of an erase operation\<close>
  | Connection_established node_id | Connection_lost node_id
  | Route_added node_id node_id | Route_lost node_id node_id

text \<open>A set of nodes is the list of its elements in the order in which the library iterates over it.\<close>

type_synonym node_id_set = "node_id list"

record routing_table =
  direct_by_hdl :: "handle \<rightharpoonup> node_id"
  direct_by_nid :: "node_id \<rightharpoonup> handle"
  indirect :: "node_id \<rightharpoonup> node_id_set"
  blacklist :: "node_id \<rightharpoonup> node_id_set"
  rt_log :: "rt_event list"

text \<open>A route without its buffer, which is the one of its handle.\<close>

record route =
  next_hop :: node_id
  hdl :: handle

definition routing_table_new :: routing_table where
  "routing_table_new = \<lparr>direct_by_hdl = Map.empty, direct_by_nid = Map.empty, indirect = Map.empty,
     blacklist = Map.empty, rt_log = []\<rparr>"

definition notify :: "rt_event list \<Rightarrow> routing_table \<Rightarrow> routing_table" where
  "notify es t = t\<lparr>rt_log := rt_log t @ es\<rparr>"

section \<open>Lookup\<close>

definition get_opt :: "('a \<rightharpoonup> 'b) \<Rightarrow> 'a \<Rightarrow> 'b \<Rightarrow> 'b" where
  "get_opt m k x = (case m k of Some v \<Rightarrow> v | None \<Rightarrow> x)"

definition lookup_node :: "handle \<Rightarrow> routing_table \<Rightarrow> node_id" where
  "lookup_node h t = get_opt (direct_by_hdl t) h invalid_node_id"

definition lookup_direct :: "node_id \<Rightarrow> routing_table \<Rightarrow> handle" where
  "lookup_direct nid t = get_opt (direct_by_nid t) nid invalid_connection_handle"

definition lookup_indirect :: "node_id \<Rightarrow> routing_table \<Rightarrow> node_id" where
  "lookup_indirect nid t =
     (case indirect t nid of None \<Rightarrow> invalid_node_id
      | Some hops \<Rightarrow> (case hops of [] \<Rightarrow> invalid_node_id | hop # _ \<Rightarrow> hop))"

text \<open>The loop over the hops erases those that have no connection.\<close>

fun try_hops :: "node_id_set \<Rightarrow> routing_table \<Rightarrow> route option \<times> node_id_set" where
  "try_hops [] t = (None, [])"
| "try_hops (hop # hops) t =
     (let h = lookup_direct hop t
      in if h \<noteq> invalid_connection_handle then (Some \<lparr>next_hop = hop, hdl = h\<rparr>, hop # hops)
         else try_hops hops t)"

definition lookup :: "node_id \<Rightarrow> routing_table \<Rightarrow> route option \<times> routing_table" where
  "lookup target t =
     (let h = lookup_direct target t
      in if h \<noteq> invalid_connection_handle then (Some \<lparr>next_hop = target, hdl = h\<rparr>, t)
         else case indirect t target of
           None \<Rightarrow> (None, t)
         | Some hops \<Rightarrow>
             (case try_hops hops t of (r, hops') \<Rightarrow> (r, t\<lparr>indirect := (indirect t)(target \<mapsto> hops')\<rparr>)))"

definition reachable_node :: "node_id \<Rightarrow> routing_table \<Rightarrow> bool" where
  "reachable_node dest t \<longleftrightarrow> direct_by_nid t dest \<noteq> None \<or> indirect t dest \<noteq> None"

section \<open>Changes\<close>

definition emplace :: "node_id \<Rightarrow> node_id_set \<Rightarrow> node_id_set" where
  "emplace x xs = (if x \<in> set xs then xs else x # xs)"

definition rt_blacklist :: "node_id \<Rightarrow> node_id \<Rightarrow> routing_table \<Rightarrow> routing_table" where
  "rt_blacklist hop dest t =
     (let t = t\<lparr>blacklist := (blacklist t)(dest \<mapsto> emplace hop (get_opt (blacklist t) dest []))\<rparr>
      in case indirect t dest of None \<Rightarrow> t
         | Some hops \<Rightarrow>
             let hops = removeAll hop hops
             in t\<lparr>indirect := (indirect t)(dest := if hops = [] then None else Some hops)\<rparr>)"

definition erase_direct :: "handle \<Rightarrow> routing_table \<Rightarrow> routing_table" where
  "erase_direct h t =
     (case direct_by_hdl t h of None \<Rightarrow> t
      | Some nid \<Rightarrow>
          (notify [Purged nid, Connection_lost nid] t)
            \<lparr>direct_by_nid := (direct_by_nid t)(nid := None), direct_by_hdl := (direct_by_hdl t)(h := None)\<rparr>)"

definition erase_indirect :: "node_id \<Rightarrow> bool \<Rightarrow> routing_table \<Rightarrow> bool \<times> routing_table" where
  "erase_indirect dest has_hook t =
     (case indirect t dest of None \<Rightarrow> (False, t)
      | Some hops \<Rightarrow>
          let t = (if has_hook then notify (map (\<lambda>nid. Route_lost nid dest) hops) t else t)
          in (True, t\<lparr>indirect := (indirect t)(dest := None)\<rparr>))"

text \<open>\<open>emplace\<close> on a map leaves an entry that exists.\<close>

definition map_emplace :: "'a \<Rightarrow> 'b \<Rightarrow> ('a \<rightharpoonup> 'b) \<Rightarrow> ('a \<rightharpoonup> 'b)" where
  "map_emplace k v m = (if m k = None then m(k \<mapsto> v) else m)"

definition add_direct :: "handle \<Rightarrow> node_id \<Rightarrow> routing_table \<Rightarrow> routing_table" where
  "add_direct h nid t =
     notify [Connection_established nid]
       (t\<lparr>direct_by_hdl := map_emplace h nid (direct_by_hdl t),
          direct_by_nid := map_emplace nid h (direct_by_nid t)\<rparr>)"

definition add_indirect :: "node_id \<Rightarrow> node_id \<Rightarrow> routing_table \<Rightarrow> bool \<times> routing_table" where
  "add_indirect hop dest t =
     (if hop \<notin> set (get_opt (blacklist t) dest [])
      then let hops = get_opt (indirect t) dest []; added_first = (hops = [])
           in (added_first,
               notify [Route_added hop dest] (t\<lparr>indirect := (indirect t)(dest \<mapsto> emplace hop hops)\<rparr>))
      else (False, t))"

definition erase :: "node_id \<Rightarrow> routing_table \<Rightarrow> nat \<times> routing_table" where
  "erase dest t =
     (let t = notify [Purged dest] t;
          (res, t) =
            (case indirect t dest of None \<Rightarrow> (0, t)
             | Some hops \<Rightarrow>
                 (length hops,
                  (notify (concat (map (\<lambda>nid. [Purged nid, Route_lost nid dest]) hops)) t)
                    \<lparr>indirect := (indirect t)(dest := None)\<rparr>));
          h = lookup_direct dest t
      in if h \<noteq> invalid_connection_handle
         then (res + 1,
               notify [Connection_lost dest]
                 (t\<lparr>direct_by_hdl := (direct_by_hdl t)(h := None), direct_by_nid := (direct_by_nid t)(dest := None)\<rparr>))
         else (res, t))"

section \<open>Well-formed tables\<close>

text \<open>The two maps of direct connections are inverse to each other, and hops are listed once.\<close>

definition direct_wf :: "(handle \<rightharpoonup> node_id) \<Rightarrow> (node_id \<rightharpoonup> handle) \<Rightarrow> bool" where
  "direct_wf f g \<longleftrightarrow> (\<forall>h n. f h = Some n \<longleftrightarrow> g n = Some h)
     \<and> f invalid_connection_handle = None \<and> g invalid_node_id = None"

definition hops_wf :: "(node_id \<rightharpoonup> node_id_set) \<Rightarrow> (node_id \<rightharpoonup> node_id_set) \<Rightarrow> bool" where
  "hops_wf ind bl \<longleftrightarrow>
     (\<forall>n hops. ind n = Some hops \<longrightarrow> distinct hops \<and> set hops \<inter> set (get_opt bl n []) = {})"

definition rt_wf :: "routing_table \<Rightarrow> bool" where
  "rt_wf t \<longleftrightarrow> direct_wf (direct_by_hdl t) (direct_by_nid t) \<and> hops_wf (indirect t) (blacklist t)"

lemma direct_wf_iff: "direct_wf f g \<Longrightarrow> f h = Some n \<longleftrightarrow> g n = Some h"
  by (simp add: direct_wf_def)

lemma direct_wf_valid: "direct_wf f g \<Longrightarrow> g n \<noteq> Some invalid_connection_handle"
  using direct_wf_iff [of f g invalid_connection_handle n] by (auto simp: direct_wf_def)

lemma direct_wf_erase:
  assumes "direct_wf f g" and "g n = Some h"
  shows "direct_wf (f(h := None)) (g(n := None))"
proof -
  have i: "f h' = Some n' \<longleftrightarrow> g n' = Some h'" for h' n' by (rule direct_wf_iff [OF assms(1)])
  have "(f(h := None)) h' = Some n' \<longleftrightarrow> (g(n := None)) n' = Some h'" for h' n'
    using i [of h' n'] i [of h n] assms(2) by auto
  then show ?thesis using assms(1) by (simp add: direct_wf_def)
qed

lemma direct_wf_add:
  assumes "direct_wf f g" and "f h = None" and "g n = None" and "h \<noteq> invalid_connection_handle" and "n \<noteq> invalid_node_id"
  shows "direct_wf (f(h \<mapsto> n)) (g(n \<mapsto> h))"
proof -
  have i: "f h' = Some n' \<longleftrightarrow> g n' = Some h'" for h' n' by (rule direct_wf_iff [OF assms(1)])
  have "(f(h \<mapsto> n)) h' = Some n' \<longleftrightarrow> (g(n \<mapsto> h)) n' = Some h'" for h' n'
    using i [of h' n'] assms(2,3) by auto
  then show ?thesis using assms by (simp add: direct_wf_def)
qed

lemma hops_wf_set:
  "hops_wf ind bl \<Longrightarrow> distinct hops \<Longrightarrow> set hops \<inter> set (get_opt bl n []) = {} \<Longrightarrow> hops_wf (ind(n \<mapsto> hops)) bl"
  by (simp add: hops_wf_def)

lemma hops_wf_erase: "hops_wf ind bl \<Longrightarrow> hops_wf (ind(n := None)) bl"
  by (simp add: hops_wf_def)

lemma hops_wfD:
  "hops_wf ind bl \<Longrightarrow> ind n = Some hops \<Longrightarrow> distinct hops \<and> set hops \<inter> set (get_opt bl n []) = {}"
  by (simp add: hops_wf_def)

lemma notify_simps [simp]:
  "direct_by_hdl (notify es t) = direct_by_hdl t" "direct_by_nid (notify es t) = direct_by_nid t"
  "indirect (notify es t) = indirect t" "blacklist (notify es t) = blacklist t"
  "rt_log (notify es t) = rt_log t @ es"
  by (simp_all add: notify_def)

lemma rt_wf_notify [simp]: "rt_wf (notify es t) \<longleftrightarrow> rt_wf t"
  by (simp add: rt_wf_def)

lemma rt_wf_new: "rt_wf routing_table_new"
  by (simp add: rt_wf_def routing_table_new_def direct_wf_def hops_wf_def)

lemma lookup_direct_None: "rt_wf t \<Longrightarrow> lookup_direct n t = invalid_connection_handle \<longleftrightarrow> direct_by_nid t n = None"
  using direct_wf_valid [of "direct_by_hdl t" "direct_by_nid t" n]
  by (cases "direct_by_nid t n") (auto simp: lookup_direct_def get_opt_def rt_wf_def)

lemma lookup_direct_Some: "direct_by_nid t n = Some h \<Longrightarrow> lookup_direct n t = h"
  by (simp add: lookup_direct_def get_opt_def)

lemma emplace_simps [simp]: "set (emplace x xs) = insert x (set xs)" "distinct xs \<Longrightarrow> distinct (emplace x xs)"
  by (auto simp: emplace_def)

text \<open>The hops that are left are those behind the ones without a connection.\<close>

lemma try_hops_eq:
  assumes "rt_wf t"
  shows "try_hops hops t =
     (let hops' = dropWhile (\<lambda>n. direct_by_nid t n = None) hops
      in (case hops' of [] \<Rightarrow> None | hop # _ \<Rightarrow> Some \<lparr>next_hop = hop, hdl = the (direct_by_nid t hop)\<rparr>, hops'))"
proof (induction hops)
  case (Cons hop hops)
  show ?case
  proof (cases "direct_by_nid t hop")
    case None
    with Cons lookup_direct_None [OF assms, of hop] show ?thesis by simp
  next
    case (Some h)
    with lookup_direct_None [OF assms, of hop] lookup_direct_Some [OF Some] show ?thesis by simp
  qed
qed simp

text \<open>What lookup does, by the two kinds of routes.\<close>

lemma lookup_eq:
  assumes "rt_wf t"
  shows "direct_by_nid t n = Some h \<Longrightarrow> lookup n t = (Some \<lparr>next_hop = n, hdl = h\<rparr>, t)"
    and "direct_by_nid t n = None \<Longrightarrow> indirect t n = None \<Longrightarrow> lookup n t = (None, t)"
    and "direct_by_nid t n = None \<Longrightarrow> indirect t n = Some hops \<Longrightarrow> lookup n t =
      (fst (try_hops hops t), t\<lparr>indirect := (indirect t)(n \<mapsto> snd (try_hops hops t))\<rparr>)"
  using lookup_direct_None [OF assms, of n] lookup_direct_Some [of t n]
  by (simp_all add: lookup_def Let_def case_prod_unfold)

lemma try_hops_set:
  assumes "rt_wf t"
  shows "set (snd (try_hops hops t)) \<subseteq> set hops" "distinct hops \<Longrightarrow> distinct (snd (try_hops hops t))"
  by (auto simp: try_hops_eq [OF assms] Let_def dest: set_dropWhileD)

lemma lookup_wf:
  assumes "rt_wf t"
  shows "rt_wf (snd (lookup n t))"
proof (cases "direct_by_nid t n")
  case None
  show ?thesis
  proof (cases "indirect t n")
    case (Some hops)
    have "hops_wf ((indirect t)(n \<mapsto> snd (try_hops hops t))) (blacklist t)"
      using assms Some hops_wfD [of "indirect t" "blacklist t" n hops] try_hops_set [OF assms, of hops]
      by (intro hops_wf_set) (auto simp: rt_wf_def)
    with assms None Some show ?thesis by (simp add: lookup_eq [OF assms] rt_wf_def)
  qed (use assms None in \<open>simp add: lookup_eq [OF assms]\<close>)
qed (use assms in \<open>simp add: lookup_eq [OF assms]\<close>)

lemma rt_blacklist_wf:
  assumes "rt_wf t"
  shows "rt_wf (rt_blacklist hop dest t)"
proof -
  let ?bl = "(blacklist t)(dest \<mapsto> emplace hop (get_opt (blacklist t) dest []))"
  have h: "hops_wf (indirect t) (blacklist t)" using assms by (simp add: rt_wf_def)
  show ?thesis
  proof (cases "indirect t dest")
    case None
    then have "hops_wf (indirect t) ?bl" using h by (auto simp: hops_wf_def get_opt_def)
    with None assms show ?thesis by (simp add: rt_blacklist_def Let_def rt_wf_def)
  next
    case (Some hops)
    have "hops_wf ((indirect t)(dest := if removeAll hop hops = [] then None else Some (removeAll hop hops))) ?bl"
      using h hops_wfD [OF h Some] by (auto simp: hops_wf_def get_opt_def distinct_removeAll)
    with Some assms show ?thesis by (simp add: rt_blacklist_def Let_def rt_wf_def)
  qed
qed

lemma erase_direct_wf: "rt_wf t \<Longrightarrow> rt_wf (erase_direct h t)"
  by (cases "direct_by_hdl t h") (auto simp: rt_wf_def erase_direct_def direct_wf_iff intro: direct_wf_erase)

lemma erase_indirect_wf: "rt_wf t \<Longrightarrow> rt_wf (snd (erase_indirect dest hk t))"
  by (cases "indirect t dest") (simp_all add: rt_wf_def erase_indirect_def Let_def hops_wf_erase)

text \<open>The code asserts that neither the handle nor the node has a connection yet.\<close>

lemma add_direct_wf:
  "rt_wf t \<Longrightarrow> direct_by_hdl t h = None \<Longrightarrow> direct_by_nid t n = None \<Longrightarrow> h \<noteq> invalid_connection_handle \<Longrightarrow>
   n \<noteq> invalid_node_id \<Longrightarrow> rt_wf (add_direct h n t)"
  by (simp add: rt_wf_def add_direct_def map_emplace_def direct_wf_add)

lemma add_indirect_wf:
  assumes "rt_wf t"
  shows "rt_wf (snd (add_indirect hop dest t))"
proof -
  let ?hops = "get_opt (indirect t) dest []"
  have "distinct ?hops \<and> set ?hops \<inter> set (get_opt (blacklist t) dest []) = {}"
    using assms hops_wfD [of "indirect t" "blacklist t" dest] by (cases "indirect t dest") (auto simp: rt_wf_def get_opt_def)
  with assms show ?thesis
    by (auto simp: add_indirect_def Let_def rt_wf_def intro!: hops_wf_set)
qed

text \<open>\<open>erase\<close> removes the routes of a node, the direct one and the indirect ones.\<close>

lemma erase_eq:
  assumes "rt_wf t"
  shows "direct_by_nid (snd (erase n t)) = (direct_by_nid t)(n := None)"
    and "indirect (snd (erase n t)) = (indirect t)(n := None)"
    and "direct_by_hdl (snd (erase n t)) = (case direct_by_nid t n of None \<Rightarrow> direct_by_hdl t | Some h \<Rightarrow> (direct_by_hdl t)(h := None))"
    and "blacklist (snd (erase n t)) = blacklist t"
    and "fst (erase n t) = length (get_opt (indirect t) n []) + (if direct_by_nid t n = None then 0 else 1)"
    and "rt_log (snd (erase n t)) = rt_log t @ [Purged n]
      @ concat (map (\<lambda>nid. [Purged nid, Route_lost nid n]) (get_opt (indirect t) n []))
      @ (if direct_by_nid t n = None then [] else [Connection_lost n])"
  using lookup_direct_None [OF assms, of n]
  by (cases "indirect t n"; cases "direct_by_nid t n";
      auto simp: erase_def Let_def lookup_direct_def get_opt_def)+

lemma erase_wf: "rt_wf t \<Longrightarrow> rt_wf (snd (erase n t))"
  using erase_eq [of t n] direct_wf_erase [of "direct_by_hdl t" "direct_by_nid t" n]
  by (cases "direct_by_nid t n") (simp_all add: rt_wf_def hops_wf_erase fun_upd_idem)

section \<open>Routes\<close>

text \<open>A node can be sent to: it is connected, or one of its hops is.\<close>

definition routable :: "routing_table \<Rightarrow> node_id \<Rightarrow> bool" where
  "routable t n \<longleftrightarrow> direct_by_nid t n \<noteq> None
     \<or> (\<exists>hops hop. indirect t n = Some hops \<and> hop \<in> set hops \<and> direct_by_nid t hop \<noteq> None)"

lemma dropWhile_hd: "dropWhile P xs = x # ys \<Longrightarrow> x \<in> set xs \<and> \<not> P x"
  by (induction xs) (auto split: if_splits)

lemma lookup_routes:
  assumes "rt_wf t"
  shows "fst (lookup n t) \<noteq> None \<longleftrightarrow> routable t n"
    and "fst (lookup n t) = Some r \<Longrightarrow> direct_by_nid t (next_hop r) = Some (hdl r)
      \<and> (next_hop r = n \<or> (direct_by_nid t n = None \<and> (\<exists>hops. indirect t n = Some hops \<and> next_hop r \<in> set hops)))"
proof -
  let ?P = "\<lambda>n. direct_by_nid t n = None"
  have "(fst (lookup n t) \<noteq> None \<longleftrightarrow> routable t n) \<and> (fst (lookup n t) = Some r \<longrightarrow> direct_by_nid t (next_hop r) = Some (hdl r)
      \<and> (next_hop r = n \<or> (direct_by_nid t n = None \<and> (\<exists>hops. indirect t n = Some hops \<and> next_hop r \<in> set hops))))" for r
  proof (cases "direct_by_nid t n")
    case (Some h)
    then show ?thesis by (auto simp: lookup_eq [OF assms] routable_def)
  next
    case nd: None
    show ?thesis
    proof (cases "indirect t n")
      case None
      with nd show ?thesis by (simp add: lookup_eq [OF assms] routable_def)
    next
      case (Some hops)
      show ?thesis
      proof (cases "dropWhile ?P hops")
        case Nil
        then have "\<forall>hop \<in> set hops. ?P hop" by simp
        moreover have "fst (lookup n t) = None" using nd Some Nil
          by (simp add: lookup_eq [OF assms] try_hops_eq [OF assms] Let_def del: dropWhile_eq_Nil_conv)
        ultimately show ?thesis using nd Some by (simp add: routable_def)
      next
        case (Cons hop rest)
        then have "hop \<in> set hops" "\<not> ?P hop" using dropWhile_hd by fast+
        with nd Some Cons show ?thesis
          by (auto simp: lookup_eq [OF assms] try_hops_eq [OF assms] Let_def routable_def)
      qed
    qed
  qed
  then show "fst (lookup n t) \<noteq> None \<longleftrightarrow> routable t n"
    and "fst (lookup n t) = Some r \<Longrightarrow> direct_by_nid t (next_hop r) = Some (hdl r)
      \<and> (next_hop r = n \<or> (direct_by_nid t n = None \<and> (\<exists>hops. indirect t n = Some hops \<and> next_hop r \<in> set hops)))"
    by blast+
qed

text \<open>Looking up a node forgets dead hops only: every node keeps its routes.\<close>

lemma lookup_frame:
  "direct_by_nid (snd (lookup n t)) = direct_by_nid t" "direct_by_hdl (snd (lookup n t)) = direct_by_hdl t"
  "rt_log (snd (lookup n t)) = rt_log t" "blacklist (snd (lookup n t)) = blacklist t"
  by (auto simp: lookup_def Let_def case_prod_unfold split: option.split)

lemma lookup_keeps_routes:
  assumes "rt_wf t"
  shows "routable (snd (lookup n t)) m \<longleftrightarrow> routable t m"
proof -
  let ?P = "\<lambda>n. direct_by_nid t n = None"
  have dw: "(\<exists>hop \<in> set (dropWhile ?P hops). \<not> ?P hop) \<longleftrightarrow> (\<exists>hop \<in> set hops. \<not> ?P hop)" for hops
    by (induction hops) auto
  show ?thesis
  proof (cases "direct_by_nid t n = None \<and> indirect t n \<noteq> None")
    case True
    then obtain hops where "direct_by_nid t n = None" "indirect t n = Some hops" by blast
    then have "snd (lookup n t) = t\<lparr>indirect := (indirect t)(n \<mapsto> dropWhile ?P hops)\<rparr>"
      by (simp add: lookup_eq [OF assms] try_hops_eq [OF assms] Let_def)
    with dw [of hops] \<open>indirect t n = Some hops\<close> show ?thesis by (auto simp: routable_def)
  next
    case False
    then have "snd (lookup n t) = t" by (cases "direct_by_nid t n") (simp_all add: lookup_eq [OF assms])
    then show ?thesis by simp
  qed
qed

end
