(* ===== verification/BaspInstance.thy ===== *)
theory BaspInstance
  imports BaspHeader RoutingTable MessageId
begin

text \<open>
  A protocol instance of the binary actor system protocol (libcaf_io/caf/io/basp/instance.hpp,
  src/instance.cpp): it handles what arrives on a connection, forwards, answers handshakes, and writes
  messages. The calls of the \<open>callee\<close> interface and of the hooks are a log, the write buffers of the broker
  are the bytes written to each connection. The forwarding stack and message of a dispatched message, and
  the error that kills a proxy, are types of other parts: their serialization is a parameter.
\<close>

section \<open>State\<close>

datatype connection_state = Await_header | Await_payload | Close_connection

definition connection_state_to_string :: "connection_state \<Rightarrow> string" where
  "connection_state_to_string x =
     (if x = Await_header then ''await_header''
      else if x = Await_payload then ''await_payload'' else ''close_connection'')"

definition basp_version :: u64 where "basp_version = 2"

datatype ('b, 'e) call =
    Finalize_handshake node_id actor_id "bytes set"
  | Purge_state node_id
  | Proxy_announced node_id actor_id
  | Kill_proxy_call node_id actor_id 'e
  | Deliver node_id actor_id actor_id message_id 'b
  | Deliver_named node_id actor_id u64 message_id 'b
  | Learned_directly node_id bool
  | Learned_indirectly node_id
  | Heartbeat_received node_id
  | Message_forwarded header "bytes option"
  | Message_forwarding_failed header "bytes option"
  | Message_sent node_id actor_id message_id 'b
  | Message_sending_failed actor_id message_id 'b
  | Actor_published "actor_id option" "bytes set" u16
  | Flush_route handle         \<comment> \<open>a flush of the instance that comes after calls of the callee\<close>

record ('b, 'e) env =
  this_node :: node_id
  app_identifier :: bytes
  has_hook :: bool
  save_body :: "'b \<Rightarrow> streambuf \<Rightarrow> streambuf"
  load_body :: "'b load"
  save_reason :: "'e \<Rightarrow> streambuf \<Rightarrow> streambuf"
  load_reason :: "'e load"

type_synonym published_actor = "actor_id option \<times> bytes set"

record ('b, 'e) basp =
  tbl :: routing_table
  published_actors :: "(u16 \<times> published_actor) list"     \<comment> \<open>in the order of the map\<close>
  wr_buf :: "handle \<Rightarrow> bytes"
  flushes :: "handle list"
  calls :: "('b, 'e) call list"

definition tell :: "('b, 'e) call list \<Rightarrow> ('b, 'e) basp \<Rightarrow> ('b, 'e) basp" where
  "tell cs i = i\<lparr>calls := calls i @ cs\<rparr>"

definition flush :: "route \<Rightarrow> ('b, 'e) basp \<Rightarrow> ('b, 'e) basp" where
  "flush path i = i\<lparr>flushes := flushes i @ [hdl path]\<rparr>"

definition basp_lookup :: "node_id \<Rightarrow> ('b, 'e) basp \<Rightarrow> route option \<times> ('b, 'e) basp" where
  "basp_lookup target i = (case lookup target (tbl i) of (r, t) \<Rightarrow> (r, i\<lparr>tbl := t\<rparr>))"

text \<open>The callback of an erase operation calls \<open>purge_state\<close>.\<close>

definition purges :: "rt_event list \<Rightarrow> ('b, 'e) call list" where
  "purges es = concat (map (\<lambda>e. case e of Purged n \<Rightarrow> [Purge_state n] | _ \<Rightarrow> []) es)"

definition erase_with :: "(routing_table \<Rightarrow> routing_table) \<Rightarrow> ('b, 'e) basp \<Rightarrow> ('b, 'e) basp" where
  "erase_with f i =
     (let t = f (tbl i) in tell (purges (drop (length (rt_log (tbl i))) (rt_log t))) (i\<lparr>tbl := t\<rparr>))"

section \<open>Writing\<close>

text \<open>
  With a payload, room for the header is left in the buffer and the header is written there when the length
  is known.
\<close>

definition write_msg :: "bytes \<Rightarrow> header \<Rightarrow> (streambuf \<Rightarrow> streambuf) option \<Rightarrow> header \<times> bytes" where
  "write_msg buf hdr pw =
     (case pw of
        Some writer \<Rightarrow>
          let pos = length buf;
              placeholder = replicate header_size 0;
              buf = written (writer (vectorbuf (buf @ placeholder)));
              plen = length buf - pos - header_size;
              hdr = hdr\<lparr>payload_len := of_nat plen\<rparr>;
              out = written (save_header hdr (charbuf header_size))
          in (hdr, take pos buf @ out @ drop (pos + length out) buf)
      | None \<Rightarrow> (hdr, written (save_header hdr (vectorbuf buf))))"

definition write_to :: "handle \<Rightarrow> header \<Rightarrow> (streambuf \<Rightarrow> streambuf) option \<Rightarrow> ('b, 'e) basp \<Rightarrow> ('b, 'e) basp" where
  "write_to h hdr pw i = i\<lparr>wr_buf := (wr_buf i)(h := snd (write_msg (wr_buf i h) hdr pw))\<rparr>"

definition write_route :: "route \<Rightarrow> header \<Rightarrow> (streambuf \<Rightarrow> streambuf) option \<Rightarrow> ('b, 'e) basp \<Rightarrow> ('b, 'e) basp" where
  "write_route r hdr pw i = flush r (write_to (hdl r) hdr pw i)"

definition save_set :: "bytes set \<Rightarrow> streambuf \<Rightarrow> streambuf" where
  "save_set xs sb = save_sequence save_string (sorted_list_of_set xs) sb"

definition load_set :: "bytes set load" where
  "load_set input = bindL (load_sequence load_string input) (\<lambda>(xs, input). Inr (set xs, input))"

definition server_handshake_header :: "node_id \<Rightarrow> actor_id \<Rightarrow> header" where
  "server_handshake_header this aid =
     \<lparr>operation = Server_handshake, flags = 0, payload_len = 0, operation_data = basp_version,
      source_node = this, dest_node = invalid_node_id, source_actor = aid, dest_actor = invalid_actor_id\<rparr>"

definition server_handshake_payload :: "('b, 'e) env \<Rightarrow> actor_id \<Rightarrow> bytes set \<Rightarrow> streambuf \<Rightarrow> streambuf" where
  "server_handshake_payload env aid sigs sb = save_set sigs (save_int aid (save_string (app_identifier env) sb))"

definition write_server_handshake :: "('b, 'e) env \<Rightarrow> handle \<Rightarrow> u16 option \<Rightarrow> ('b, 'e) basp \<Rightarrow> ('b, 'e) basp" where
  "write_server_handshake env h port i =
     (let pa = (case port of None \<Rightarrow> None | Some p \<Rightarrow> map_of (published_actors i) p);
          aid = (case pa of Some (Some a, _) \<Rightarrow> a | _ \<Rightarrow> invalid_actor_id);
          sigs = (case pa of Some (_, s) \<Rightarrow> s | None \<Rightarrow> {})
      in write_to h (server_handshake_header (this_node env) aid) (Some (server_handshake_payload env aid sigs)) i)"

definition client_handshake_header :: "node_id \<Rightarrow> node_id \<Rightarrow> header" where
  "client_handshake_header this remote_side =
     \<lparr>operation = Client_handshake, flags = 0, payload_len = 0, operation_data = 0,
      source_node = this, dest_node = remote_side, source_actor = invalid_actor_id, dest_actor = invalid_actor_id\<rparr>"

definition write_client_handshake :: "('b, 'e) env \<Rightarrow> handle \<Rightarrow> node_id \<Rightarrow> ('b, 'e) basp \<Rightarrow> ('b, 'e) basp" where
  "write_client_handshake env h remote_side i =
     write_to h (client_handshake_header (this_node env) remote_side) (Some (save_string (app_identifier env))) i"

definition write_announce_proxy :: "('b, 'e) env \<Rightarrow> handle \<Rightarrow> node_id \<Rightarrow> actor_id \<Rightarrow> ('b, 'e) basp \<Rightarrow> ('b, 'e) basp" where
  "write_announce_proxy env h dest aid i =
     write_to h \<lparr>operation = Announce_proxy, flags = 0, payload_len = 0, operation_data = 0,
       source_node = this_node env, dest_node = dest, source_actor = invalid_actor_id, dest_actor = aid\<rparr> None i"

definition write_kill_proxy :: "('b, 'e) env \<Rightarrow> handle \<Rightarrow> node_id \<Rightarrow> actor_id \<Rightarrow> 'e \<Rightarrow> ('b, 'e) basp \<Rightarrow> ('b, 'e) basp" where
  "write_kill_proxy env h dest aid rsn i =
     write_to h \<lparr>operation = Kill_proxy, flags = 0, payload_len = 0, operation_data = 0,
       source_node = this_node env, dest_node = dest, source_actor = aid, dest_actor = invalid_actor_id\<rparr>
       (Some (save_reason env rsn)) i"

definition write_heartbeat :: "('b, 'e) env \<Rightarrow> handle \<Rightarrow> node_id \<Rightarrow> ('b, 'e) basp \<Rightarrow> ('b, 'e) basp" where
  "write_heartbeat env h remote_side i =
     write_to h \<lparr>operation = Heartbeat, flags = 0, payload_len = 0, operation_data = 0,
       source_node = this_node env, dest_node = remote_side, source_actor = invalid_actor_id,
       dest_actor = invalid_actor_id\<rparr> None i"

text \<open>Heartbeats go to the connections, which are given in the order of the map.\<close>

fun handle_heartbeat :: "('b, 'e) env \<Rightarrow> (handle \<times> node_id) list \<Rightarrow> ('b, 'e) basp \<Rightarrow> ('b, 'e) basp" where
  "handle_heartbeat env [] i = i"
| "handle_heartbeat env ((h, n) # kvps) i =
     handle_heartbeat env kvps (flush \<lparr>next_hop = n, hdl = h\<rparr> (write_heartbeat env h n i))"

definition handle_node_shutdown :: "node_id \<Rightarrow> ('b, 'e) basp \<Rightarrow> ('b, 'e) basp" where
  "handle_node_shutdown affected_node i =
     (if affected_node = invalid_node_id then i else erase_with (\<lambda>t. snd (erase affected_node t)) i)"

section \<open>Published actors\<close>

definition add_published_actor :: "u16 \<Rightarrow> actor_id option \<Rightarrow> bytes set \<Rightarrow> ('b, 'e) basp \<Rightarrow> ('b, 'e) basp" where
  "add_published_actor port act iface i =
     (let ps = published_actors i;
          ps = (if map_of ps port = None then ps @ [(port, (act, iface))]
                else map (\<lambda>(p, e). if p = port then (p, (act, iface)) else (p, e)) ps)
      in tell [Actor_published act iface port] (i\<lparr>published_actors := ps\<rparr>))"

text \<open>The entries that are removed, for which the callback is called, and their number.\<close>

definition remove_published_port :: "u16 \<Rightarrow> ('b, 'e) basp \<Rightarrow> nat \<times> (actor_id option \<times> u16) list \<times> ('b, 'e) basp" where
  "remove_published_port port i =
     (case map_of (published_actors i) port of None \<Rightarrow> (0, [], i)
      | Some (a, _) \<Rightarrow> (1, [(a, port)], i\<lparr>published_actors := filter (\<lambda>(p, _). p \<noteq> port) (published_actors i)\<rparr>))"

definition remove_published_actor ::
  "actor_id option \<Rightarrow> u16 \<Rightarrow> ('b, 'e) basp \<Rightarrow> nat \<times> (actor_id option \<times> u16) list \<times> ('b, 'e) basp" where
  "remove_published_actor whom port i =
     (if port \<noteq> 0
      then case map_of (published_actors i) port of
             Some (a, _) \<Rightarrow>
               if a = whom
               then (1, [(a, port)], i\<lparr>published_actors := filter (\<lambda>(p, _). p \<noteq> port) (published_actors i)\<rparr>)
               else (0, [], i)
           | None \<Rightarrow> (0, [], i)
      else let removed = filter (\<lambda>(_, a, _). a = whom) (published_actors i)
           in (length removed, map (\<lambda>(p, a, _). (a, p)) removed,
               i\<lparr>published_actors := filter (\<lambda>(_, a, _). a \<noteq> whom) (published_actors i)\<rparr>))"

section \<open>Sending\<close>

definition dispatch_header ::
  "('b, 'e) env \<Rightarrow> (node_id \<times> actor_id) option \<Rightarrow> node_id \<Rightarrow> actor_id \<Rightarrow> message_id \<Rightarrow> header" where
  "dispatch_header env sender dest receiver mid =
     \<lparr>operation = Dispatch_message, flags = 0, payload_len = 0, operation_data = integer_value mid,
      source_node = (case sender of Some (n, _) \<Rightarrow> n | None \<Rightarrow> this_node env), dest_node = dest,
      source_actor = (case sender of Some (_, a) \<Rightarrow> a | None \<Rightarrow> invalid_actor_id), dest_actor = receiver\<rparr>"

definition dispatch ::
  "('b, 'e) env \<Rightarrow> (node_id \<times> actor_id) option \<Rightarrow> node_id \<Rightarrow> actor_id \<Rightarrow> message_id \<Rightarrow> 'b \<Rightarrow> ('b, 'e) basp
   \<Rightarrow> bool \<times> ('b, 'e) basp" where
  "dispatch env sender dest receiver mid body i =
     (case basp_lookup dest i of
        (None, i) \<Rightarrow> (False, tell [Message_sending_failed receiver mid body] i)
      | (Some path, i) \<Rightarrow>
          let i = write_to (hdl path) (dispatch_header env sender dest receiver mid) (Some (save_body env body)) i;
              i = flush path i
          in (True, tell [Message_sent (next_hop path) receiver mid body] i))"

section \<open>Handling what is received\<close>

text \<open>A handler ends in a connection state or in an error of the deserializer, which it does not catch.\<close>

type_synonym ('b, 'e) handled = "(load_error + connection_state) \<times> ('b, 'e) basp"

definition close_on_error :: "handle \<Rightarrow> ('b, 'e) basp \<Rightarrow> ('b, 'e) handled" where
  "close_on_error h i = (Inr Close_connection, erase_with (erase_direct h) i)"

definition payload_valid :: "header \<Rightarrow> bytes option \<Rightarrow> bool" where
  "payload_valid hdr payload \<longleftrightarrow> (case payload of None \<Rightarrow> False | Some p \<Rightarrow> length p = unat (payload_len hdr))"

definition save_payload :: "bytes option \<Rightarrow> streambuf \<Rightarrow> streambuf" where
  "save_payload payload sb = (case payload of None \<Rightarrow> sb | Some p \<Rightarrow> save_raw p sb)"

definition forward :: "('b, 'e) env \<Rightarrow> header \<Rightarrow> bytes option \<Rightarrow> ('b, 'e) basp \<Rightarrow> ('b, 'e) handled" where
  "forward env hdr payload i =
     (case basp_lookup (dest_node hdr) i of
        (Some path, i) \<Rightarrow>
          let sb = save_payload payload (save_header hdr (vectorbuf (wr_buf i (hdl path))));
              i = i\<lparr>wr_buf := (wr_buf i)(hdl path := written sb)\<rparr>;
              i = flush path i
          in (Inr Await_header, tell [Message_forwarded hdr payload] i)
      | (None, i) \<Rightarrow>
          let i = (if source_node hdr \<noteq> this_node env then snd (basp_lookup (source_node hdr) i) else i)
          in (Inr Await_header, tell [Message_forwarding_failed hdr payload] i))"

definition load_server_handshake :: "bytes \<Rightarrow> bytes \<Rightarrow> load_error + (actor_id \<times> bytes set) option" where
  "load_server_handshake app p =
     bindL (load_string p) (\<lambda>(remote_appid, bd).
       if remote_appid \<noteq> app then Inr None
       else bindL (load_int 8 bd) (\<lambda>(aid, bd).
            bindL (load_set bd) (\<lambda>(sigs, bd). Inr (Some (aid, sigs)))))"

definition handle_server_handshake ::
  "('b, 'e) env \<Rightarrow> handle \<Rightarrow> header \<Rightarrow> bytes option \<Rightarrow> ('b, 'e) basp \<Rightarrow> ('b, 'e) handled" where
  "handle_server_handshake env h hdr payload i =
     (if \<not> payload_valid hdr payload then close_on_error h i
      else case load_server_handshake (app_identifier env) (the payload) of
        Inl e \<Rightarrow> (Inl e, i)
      | Inr None \<Rightarrow> close_on_error h i
      | Inr (Some (aid, sigs)) \<Rightarrow>
          if source_node hdr = this_node env
             \<or> lookup_direct (source_node hdr) (tbl i) \<noteq> invalid_connection_handle
          then close_on_error h (tell [Finalize_handshake (source_node hdr) aid sigs] i)
          else
            let i = i\<lparr>tbl := add_direct h (source_node hdr) (tbl i)\<rparr>;
                (was_indirect, t) = erase_indirect (source_node hdr) (has_hook env) (tbl i);
                (path, i) = basp_lookup (source_node hdr) (i\<lparr>tbl := t\<rparr>)
            in case path of
                 None \<Rightarrow> close_on_error h i
               | Some path \<Rightarrow>
                   let i = write_client_handshake env (hdl path) (source_node hdr) i;
                       i = tell [Learned_directly (source_node hdr) was_indirect,
                                 Finalize_handshake (source_node hdr) aid sigs, Flush_route (hdl path)] i
                   in (Inr Await_header, i))"

definition handle_client_handshake ::
  "('b, 'e) env \<Rightarrow> handle \<Rightarrow> header \<Rightarrow> bytes option \<Rightarrow> ('b, 'e) basp \<Rightarrow> ('b, 'e) handled" where
  "handle_client_handshake env h hdr payload i =
     (if lookup_direct (source_node hdr) (tbl i) \<noteq> invalid_connection_handle then (Inr Await_header, i)
      else if \<not> payload_valid hdr payload then close_on_error h i
      else case load_string (the payload) of
        Inl e \<Rightarrow> (Inl e, i)
      | Inr (remote_appid, _) \<Rightarrow>
          if remote_appid \<noteq> app_identifier env then close_on_error h i
          else
            let i = i\<lparr>tbl := add_direct h (source_node hdr) (tbl i)\<rparr>;
                (was_indirect, t) = erase_indirect (source_node hdr) (has_hook env) (tbl i)
            in (Inr Await_header, tell [Learned_directly (source_node hdr) was_indirect] (i\<lparr>tbl := t\<rparr>)))"

definition load_dispatched :: "('b, 'e) env \<Rightarrow> header \<Rightarrow> bytes \<Rightarrow> load_error + (u64 \<times> 'b)" where
  "load_dispatched env hdr p =
     bindL (if has_flag hdr named_receiver_flag then load_int 8 p else Inr (0, p)) (\<lambda>(receiver_name, bd).
     bindL (load_body env bd) (\<lambda>(body, bd). Inr (receiver_name, body)))"

definition handle_dispatch ::
  "('b, 'e) env \<Rightarrow> handle \<Rightarrow> header \<Rightarrow> bytes option \<Rightarrow> ('b, 'e) basp \<Rightarrow> ('b, 'e) handled" where
  "handle_dispatch env h hdr payload i =
     (if \<not> payload_valid hdr payload then close_on_error h i
      else
        let last_hop = lookup_node h (tbl i);
            src = source_node hdr;
            i = (if src \<noteq> invalid_node_id \<and> src \<noteq> this_node env \<and> last_hop \<noteq> src
                    \<and> lookup_direct src (tbl i) = invalid_connection_handle
                 then case add_indirect last_hop src (tbl i) of (added, t) \<Rightarrow>
                        tell (if added then [Learned_indirectly src] else []) (i\<lparr>tbl := t\<rparr>)
                 else i);
            mid = from_integer_value (operation_data hdr)
        in case load_dispatched env hdr (the payload) of
             Inl e \<Rightarrow> (Inl e, i)
           | Inr (receiver_name, body) \<Rightarrow>
               (Inr Await_header,
                tell [if has_flag hdr named_receiver_flag
                      then Deliver_named src (source_actor hdr) receiver_name mid body
                      else Deliver src (source_actor hdr) (dest_actor hdr) mid body] i))"

definition handle_kill_proxy ::
  "('b, 'e) env \<Rightarrow> handle \<Rightarrow> header \<Rightarrow> bytes option \<Rightarrow> ('b, 'e) basp \<Rightarrow> ('b, 'e) handled" where
  "handle_kill_proxy env h hdr payload i =
     (if \<not> payload_valid hdr payload then close_on_error h i
      else case load_reason env (the payload) of
        Inl e \<Rightarrow> (Inl e, i)
      | Inr (fail_state, _) \<Rightarrow>
          (Inr Await_header, tell [Kill_proxy_call (source_node hdr) (source_actor hdr) fail_state] i))"

definition handle_message ::
  "('b, 'e) env \<Rightarrow> handle \<Rightarrow> header \<Rightarrow> bytes option \<Rightarrow> ('b, 'e) basp \<Rightarrow> ('b, 'e) handled" where
  "handle_message env h hdr payload i =
     (if \<not> is_handshake hdr \<and> \<not> is_heartbeat hdr \<and> dest_node hdr \<noteq> this_node env
      then forward env hdr payload i
      else case operation hdr of
        Server_handshake \<Rightarrow> handle_server_handshake env h hdr payload i
      | Client_handshake \<Rightarrow> handle_client_handshake env h hdr payload i
      | Dispatch_message \<Rightarrow> handle_dispatch env h hdr payload i
      | Announce_proxy \<Rightarrow> (Inr Await_header, tell [Proxy_announced (source_node hdr) (dest_actor hdr)] i)
      | Kill_proxy \<Rightarrow> handle_kill_proxy env h hdr payload i
      | Heartbeat \<Rightarrow> (Inr Await_header, tell [Heartbeat_received (source_node hdr)] i)
      | Unknown_type _ \<Rightarrow> close_on_error h i)"

text \<open>\<open>handle\<close> is called with a header, and then, when that asks for one, with its payload.\<close>

definition basp_handle ::
  "('b, 'e) env \<Rightarrow> handle \<Rightarrow> bytes \<Rightarrow> header \<Rightarrow> bool \<Rightarrow> ('b, 'e) basp
   \<Rightarrow> (load_error + connection_state) \<times> header \<times> ('b, 'e) basp" where
  "basp_handle env h buf hdr is_payload i =
     (if is_payload
      then let (r, i) = (if length buf \<noteq> unat (payload_len hdr) then close_on_error h i
                         else handle_message env h hdr (Some buf) i)
           in (r, hdr, i)
      else case load_header buf of
        Inl e \<Rightarrow> (Inl e, hdr, i)
      | Inr (hdr, _) \<Rightarrow>
          if \<not> header_valid hdr then let (r, i) = close_on_error h i in (r, hdr, i)
          else if payload_len hdr > 0 then (Inr Await_payload, hdr, i)
          else let (r, i) = handle_message env h hdr None i in (r, hdr, i))"

text \<open>
  A message that arrives on a connection: the header, read into one that is overwritten, then the payload it
  announces.
\<close>

definition header_init :: header where
  "header_init = \<lparr>operation = Server_handshake, flags = 0, payload_len = 0, operation_data = 0,
     source_node = invalid_node_id, dest_node = invalid_node_id, source_actor = 0, dest_actor = 0\<rparr>"

definition receive ::
  "('b, 'e) env \<Rightarrow> handle \<Rightarrow> bytes \<Rightarrow> ('b, 'e) basp \<Rightarrow> ('b, 'e) handled" where
  "receive env h msg i =
     (case basp_handle env h (take header_size msg) header_init False i of
        (Inr Await_payload, hdr, i) \<Rightarrow>
          (case basp_handle env h (drop header_size msg) hdr True i of (r, _, i) \<Rightarrow> (r, i))
      | (r, _, i) \<Rightarrow> (r, i))"

section \<open>What is written is received\<close>

definition with_length :: "header \<Rightarrow> bytes \<Rightarrow> header" where
  "with_length hdr bs = hdr\<lparr>payload_len := of_nat (length bs)\<rparr>"

lemma with_length_simps [simp]:
  "operation (with_length hdr bs) = operation hdr" "flags (with_length hdr bs) = flags hdr"
  "operation_data (with_length hdr bs) = operation_data hdr" "source_node (with_length hdr bs) = source_node hdr"
  "dest_node (with_length hdr bs) = dest_node hdr" "source_actor (with_length hdr bs) = source_actor hdr"
  "dest_actor (with_length hdr bs) = dest_actor hdr" "payload_len (with_length hdr bs) = of_nat (length bs)"
  by (simp_all add: with_length_def)

text \<open>The bytes of a message: its header with the length of the payload, then the payload.\<close>

definition message_bytes :: "header \<Rightarrow> bytes \<Rightarrow> bytes" where
  "message_bytes hdr bs = header_bytes (with_length hdr bs) @ bs"

lemma write_msg_payload:
  assumes w: "\<And>sb. writer sb = save_raw bs sb" and n: "node_wf (source_node hdr)" "node_wf (dest_node hdr)"
  shows "write_msg buf hdr (Some writer) = (with_length hdr bs, buf @ message_bytes hdr bs)"
proof -
  let ?h = "with_length hdr bs"
  have l: "length (header_bytes ?h) = header_size" using n by (simp add: length_basp_header)
  then have "written (save_header ?h (charbuf header_size)) = header_bytes ?h"
    using save_raw_charbuf [OF l] by (simp add: hdr.put_enc)
  moreover have "written (writer (vectorbuf (buf @ replicate header_size 0))) = buf @ replicate header_size 0 @ bs"
    by (simp add: w save_raw_vectorbuf) (simp add: vectorbuf_def)
  ultimately show ?thesis using l by (simp add: write_msg_def Let_def message_bytes_def with_length_def)
qed

lemma write_msg_header: "write_msg buf hdr None = (hdr, buf @ header_bytes hdr)"
  by (simp add: write_msg_def hdr.put_vectorbuf) (simp add: vectorbuf_def)

lemma message_bytes_length:
  "node_wf (source_node hdr) \<Longrightarrow> node_wf (dest_node hdr) \<Longrightarrow>
   take header_size (message_bytes hdr bs) = header_bytes (with_length hdr bs)
   \<and> drop header_size (message_bytes hdr bs) = bs"
  using length_basp_header [of "with_length hdr bs"] by (simp add: message_bytes_def)

lemma handler_states:
  "fst (close_on_error h i) \<noteq> Inr Await_payload"
  "fst (forward env hdr payload i) \<noteq> Inr Await_payload"
  "fst (handle_server_handshake env h hdr payload i) \<noteq> Inr Await_payload"
  "fst (handle_client_handshake env h hdr payload i) \<noteq> Inr Await_payload"
  "fst (handle_dispatch env h hdr payload i) \<noteq> Inr Await_payload"
  "fst (handle_kill_proxy env h hdr payload i) \<noteq> Inr Await_payload"
proof -
  show c: "fst (close_on_error h i) \<noteq> Inr Await_payload" for h :: handle and i :: "('a, 'b) basp"
    by (simp add: close_on_error_def)
  show "fst (forward env hdr payload i) \<noteq> Inr Await_payload"
    by (simp add: forward_def Let_def case_prod_unfold split: option.split)
  show "fst (handle_server_handshake env h hdr payload i) \<noteq> Inr Await_payload"
    by (simp add: handle_server_handshake_def Let_def case_prod_unfold c split: option.split sum.split)
  show "fst (handle_client_handshake env h hdr payload i) \<noteq> Inr Await_payload"
    by (simp add: handle_client_handshake_def Let_def case_prod_unfold c split: sum.split)
  show "fst (handle_dispatch env h hdr payload i) \<noteq> Inr Await_payload"
    by (simp add: handle_dispatch_def Let_def case_prod_unfold c split: sum.split)
  show "fst (handle_kill_proxy env h hdr payload i) \<noteq> Inr Await_payload"
    by (simp add: handle_kill_proxy_def case_prod_unfold c split: sum.split)
qed

lemma handle_message_state: "fst (handle_message env h hdr payload i) \<noteq> Inr Await_payload"
  by (simp add: handle_message_def handler_states split: message_type.split)

lemma receive_message:
  assumes ok: "header_ok hdr" and v: "header_valid (with_length hdr bs)" and l: "length bs < 2 ^ 32"
  shows "receive env h (message_bytes hdr bs) i
    = handle_message env h (with_length hdr bs) (if bs = [] then None else Some bs) i"
proof -
  let ?h = "with_length hdr bs"
  have n: "node_wf (source_node hdr)" "node_wf (dest_node hdr)" using header_ok_wf [OF ok] by simp_all
  have "header_ok ?h" using ok by (simp add: header_ok_def)
  from load_header_bytes [OF this, of "[]"] have ld: "load_header (header_bytes ?h) = Inr (?h, [])" by simp
  have len: "unat (of_nat (length bs) :: u32) = length bs" using l by (simp add: unat_of_nat take_bit_nat_eq_self)
  then have pos: "0 < (of_nat (length bs) :: u32) \<longleftrightarrow> bs \<noteq> []" by (simp add: word_less_nat_alt)
  show ?thesis
    using v ld len pos message_bytes_length [OF n, of bs] handle_message_state [of env h ?h None i]
    by (cases "bs = []")
      (auto simp: receive_def basp_handle_def case_prod_unfold Let_def prod_eq_iff
        split: sum.splits connection_state.splits)
qed

section \<open>The routing table of an instance\<close>

lemma tell_simps [simp]:
  "tbl (tell cs i) = tbl i" "wr_buf (tell cs i) = wr_buf i" "calls (tell cs i) = calls i @ cs"
  "tbl (flush r i) = tbl i" "calls (flush r i) = calls i" "wr_buf (flush r i) = wr_buf i"
  "tbl (write_to h hdr pw i) = tbl i" "calls (write_to h hdr pw i) = calls i"
  "tbl (write_client_handshake env h n i) = tbl i" "calls (write_client_handshake env h n i) = calls i"
  by (simp_all add: tell_def flush_def write_to_def write_client_handshake_def)

lemma tbl_erase_with [simp]: "tbl (erase_with f i) = f (tbl i)"
  by (simp add: erase_with_def Let_def)

lemma basp_lookup_simps [simp]:
  "fst (basp_lookup n i) = fst (lookup n (tbl i))" "tbl (snd (basp_lookup n i)) = snd (lookup n (tbl i))"
  "wr_buf (snd (basp_lookup n i)) = wr_buf i" "calls (snd (basp_lookup n i)) = calls i"
  by (simp_all add: basp_lookup_def case_prod_unfold)

lemma close_on_error_wf: "rt_wf (tbl i) \<Longrightarrow> rt_wf (tbl (snd (close_on_error h i)))"
  by (simp add: close_on_error_def erase_direct_wf)

lemma forward_wf: "rt_wf (tbl i) \<Longrightarrow> rt_wf (tbl (snd (forward env hdr payload i)))"
  by (auto simp: forward_def Let_def basp_lookup_def case_prod_unfold lookup_wf split: option.splits)

lemma erase_indirect_frame:
  "direct_by_nid (snd (erase_indirect d k t)) = direct_by_nid t" "direct_by_hdl (snd (erase_indirect d k t)) = direct_by_hdl t"
  by (auto simp: erase_indirect_def Let_def split: option.splits)

text \<open>A connection whose handshake arrives has no direct entry yet: then handling keeps the table well-formed.\<close>

lemma handle_server_handshake_wf:
  assumes "rt_wf (tbl i)" and "direct_by_hdl (tbl i) h = None" and "h \<noteq> invalid_connection_handle"
    and "source_node hdr \<noteq> invalid_node_id"
  shows "rt_wf (tbl (snd (handle_server_handshake env h hdr payload i)))"
proof -
  have "rt_wf (add_direct h (source_node hdr) (tbl i))"
    if "lookup_direct (source_node hdr) (tbl i) = invalid_connection_handle"
    using that assms lookup_direct_None by (intro add_direct_wf) auto
  then show ?thesis using assms
    by (auto simp: handle_server_handshake_def Let_def case_prod_unfold close_on_error_wf erase_indirect_wf lookup_wf
        split: sum.splits option.splits)
qed

lemma handle_client_handshake_wf:
  assumes "rt_wf (tbl i)" and "direct_by_hdl (tbl i) h = None" and "h \<noteq> invalid_connection_handle"
    and "source_node hdr \<noteq> invalid_node_id"
  shows "rt_wf (tbl (snd (handle_client_handshake env h hdr payload i)))"
proof -
  have "rt_wf (add_direct h (source_node hdr) (tbl i))"
    if "lookup_direct (source_node hdr) (tbl i) = invalid_connection_handle"
    using that assms lookup_direct_None by (intro add_direct_wf) auto
  then show ?thesis using assms
    by (auto simp: handle_client_handshake_def Let_def case_prod_unfold close_on_error_wf erase_indirect_wf
        split: sum.splits)
qed

lemma handle_dispatch_wf: "rt_wf (tbl i) \<Longrightarrow> rt_wf (tbl (snd (handle_dispatch env h hdr payload i)))"
  by (auto simp: handle_dispatch_def Let_def case_prod_unfold close_on_error_wf add_indirect_wf split: sum.splits)

lemma handle_kill_proxy_wf: "rt_wf (tbl i) \<Longrightarrow> rt_wf (tbl (snd (handle_kill_proxy env h hdr payload i)))"
  by (auto simp: handle_kill_proxy_def case_prod_unfold close_on_error_wf split: sum.splits)

lemma handle_message_wf:
  assumes "rt_wf (tbl i)" and "is_handshake hdr \<Longrightarrow> direct_by_hdl (tbl i) h = None" and "h \<noteq> invalid_connection_handle"
    and "header_valid hdr"
  shows "rt_wf (tbl (snd (handle_message env h hdr payload i)))"
  using assms handle_server_handshake_wf [of i h hdr] handle_client_handshake_wf [of i h hdr]
  by (cases "operation hdr")
    (auto simp: handle_message_def is_handshake_def is_heartbeat_def forward_wf handle_dispatch_wf handle_kill_proxy_wf
      close_on_error_wf header_valid_def validity_defs)

section \<open>Payloads\<close>

definition set_bytes :: "bytes set \<Rightarrow> bytes" where
  "set_bytes xs = varbyte_bytes (of_nat (card xs)) @ concat (map string_bytes (sorted_list_of_set xs))"

definition set_ok :: "bytes set \<Rightarrow> bool" where
  "set_ok xs \<longleftrightarrow> finite xs \<and> card xs < 2 ^ 31 \<and> (\<forall>x \<in> xs. short x)"

interpretation strings: codec save_set load_set set_bytes set_ok
proof unfold_locales
  show "save_set x sb = save_raw (set_bytes x) sb" for x sb
    by (simp add: save_set_def set_bytes_def str.save_sequence_enc)
  show "load_set (set_bytes x @ rest) = Inr (x, rest)" if "set_ok x" for x rest
    using that str.load_sequence_enc [of "sorted_list_of_set x" rest]
    by (simp add: set_ok_def load_set_def set_bytes_def list_all_iff)
qed

definition server_handshake_bytes :: "('b, 'e) env \<Rightarrow> actor_id \<Rightarrow> bytes set \<Rightarrow> bytes" where
  "server_handshake_bytes env aid sigs = string_bytes (app_identifier env) @ int_bytes aid @ set_bytes sigs"

lemma server_handshake_payload_enc:
  "server_handshake_payload env aid sigs sb = save_raw (server_handshake_bytes env aid sigs) sb"
  by (simp add: server_handshake_payload_def server_handshake_bytes_def strings.put_enc u64.put_enc str.put_enc save_raw_append)

lemma load_server_handshake_enc:
  "short (app_identifier env) \<Longrightarrow> set_ok sigs \<Longrightarrow>
   load_server_handshake (app_identifier env) (server_handshake_bytes env aid sigs) = Inr (Some (aid, sigs))"
  using strings.get_enc [of sigs "[]"]
  by (simp add: load_server_handshake_def server_handshake_bytes_def str.get_enc u64.get_enc)

lemma payload_valid_length:
  "length bs < 2 ^ 32 \<Longrightarrow> bs \<noteq> [] \<Longrightarrow> payload_valid (with_length hdr bs) (if bs = [] then None else Some bs)"
  by (simp add: payload_valid_def unat_of_nat take_bit_nat_eq_self)

lemma word_length_pos: "length bs < 2 ^ 32 \<Longrightarrow> bs \<noteq> [] \<Longrightarrow> (of_nat (length bs) :: u32) \<noteq> 0"
  by (simp add: word_unat_eq_iff unat_of_nat take_bit_nat_eq_self)

lemma string_bytes_Cons: "string_bytes s \<noteq> []"
  unfolding string_bytes_def by (subst varbyte_bytes.simps) simp

end
