(* ===== verification/BaspProperties.thy ===== *)
theory BaspProperties
  imports BaspInstance
begin

text \<open>
  The properties of serialization, of node identifiers and of the binary actor system protocol: headers, the
  routing table, messages from one node to another, handshakes.
\<close>

section \<open>Serialization\<close>

text \<open>
  The size of a sequence is read back exactly when it is below \<open>2 ^ 31\<close>: a larger one below \<open>2 ^ 32\<close> is
  read with all its high bits set, a still larger one reaches a shift that C++ does not define.
\<close>

theorem varbyte_sizes:
  "varbyte_decode (varbyte_bytes x @ rest) =
     (if x < 0x80000000 then Inr (x, rest)
      else if x < 0x100000000 then Inr (x OR 0xFFFFFFFF80000000, rest)
      else Inl Bad_shift)"
proof (cases "x < 0x80000000")
  case True
  then show ?thesis by (simp add: varbyte_roundtrip)
next
  case False
  then have "x \<ge> 0x80000000" by simp
  from varbyte_large [OF this] False show ?thesis by simp
qed

text \<open>
  A wide string that is not empty is never read back: the deserializer compares the number of bytes it has
  got with the number of characters and reports an error, for strings of 16 and of 32 bits, while narrow
  strings are read back.
\<close>

theorem wide_strings_fail:
  assumes "short s16" and "s16 \<noteq> []" and "short s32" and "s32 \<noteq> []" and "short s8"
  shows "load_builtin String16_t (written (save_builtin (String16_v s16) (vectorbuf [])) @ rest) = Inl Range_check
    \<and> load_builtin String32_t (written (save_builtin (String32_v s32) (vectorbuf [])) @ rest) = Inl Range_check
    \<and> load_builtin String8_t (written (save_builtin (String8_v s8) (vectorbuf [])) @ rest) = Inr (String8_v s8, rest)"
proof -
  have f: "fold (\<lambda>c. save_raw (le_bytes c)) str (vectorbuf c) = vectorbuf (c @ concat (map le_bytes str))"
    for str :: "'a::len word list" and c
    by (induction str arbitrary: c) (simp_all add: save_raw_vectorbuf)
  have v: "varbyte_encode n (vectorbuf []) = vectorbuf (varbyte_bytes n)" for n
    using save_raw_vectorbuf [of "varbyte_bytes n" "[]"] by (simp add: varbyte_encode_def save_raw_def)
  have w: "written (vectorbuf c) = c" for c by (simp add: vectorbuf_def)
  have "load_builtin String16_t (written (save_builtin (String16_v s16) (vectorbuf [])) @ rest) = Inl Range_check"
    using load_wide_fails [OF assms(1,2), of 2 rest] by (simp add: save_builtin_def load_builtin_def v f w)
  moreover have "load_builtin String32_t (written (save_builtin (String32_v s32) (vectorbuf [])) @ rest) = Inl Range_check"
    using load_wide_fails [OF assms(3,4), of 4 rest] by (simp add: save_builtin_def load_builtin_def v f w)
  moreover have "load_builtin String8_t (written (save_builtin (String8_v s8) (vectorbuf [])) @ rest) = Inr (String8_v s8, rest)"
    using short_size [OF assms(5)]
    by (simp add: save_builtin_def load_builtin_def v w save_raw_vectorbuf varbyte_roundtrip)
  ultimately show ?thesis by blast
qed

lemma wide_strings_fail_witness:
  "load_builtin String16_t (written (save_builtin (String16_v [0x41]) (vectorbuf [])) @ []) = Inl Range_check"
  using wide_strings_fail [of "[0x41]" "[0x41]" "[0x41]" "[]"] by (simp add: short_def)

text \<open>
  Every header with identifiers that exist is written as \<open>header_size\<close> bytes, appended to what is in the
  buffer or filling the room left for it, and read back from them whatever follows; two headers with the same
  bytes are equal.
\<close>

theorem header_round_trip:
  assumes "header_ok hdr" and "header_ok hdr'"
  shows "written (save_header hdr (vectorbuf buf)) = buf @ header_bytes hdr
    \<and> written (save_header hdr (charbuf header_size)) = header_bytes hdr
    \<and> length (header_bytes hdr) = header_size
    \<and> load_header (header_bytes hdr @ rest) = Inr (hdr, rest)
    \<and> (header_bytes hdr = header_bytes hdr' \<longrightarrow> header_eq hdr hdr')"
proof -
  have l: "length (header_bytes hdr) = header_size" using header_ok_wf [OF assms(1)] by (simp add: length_basp_header)
  have "header_bytes hdr = header_bytes hdr' \<Longrightarrow> header_eq hdr hdr'"
    using hdr.enc_inj [OF assms] header_ok_wf [OF assms(1)] header_eq_iff [of hdr hdr] by simp
  then show ?thesis using l save_raw_charbuf [OF l] load_header_bytes [OF assms(1), of rest]
    by (simp add: hdr.put_enc hdr.put_vectorbuf save_raw_vectorbuf) (simp add: vectorbuf_def)
qed

definition node_a :: node_id where "node_a = Some \<lparr>pid = 1, host = replicate 20 0xAA\<rparr>"

definition node_b :: node_id where "node_b = Some \<lparr>pid = 2, host = replicate 20 0xBB\<rparr>"

definition node_c :: node_id where "node_c = Some \<lparr>pid = 3, host = replicate 20 0xCC\<rparr>"

lemma nodes_ok: "node_ok node_a" "node_ok node_b" "node_ok node_c" "node_ok invalid_node_id"
  by (simp_all add: node_ok_def node_wf_def node_a_def node_b_def node_c_def host_id_size_def invalid_node_id_def)

lemma nodes_differ [simp]:
  "node_a \<noteq> node_b" "node_a \<noteq> node_c" "node_b \<noteq> node_c" "node_b \<noteq> node_a" "node_c \<noteq> node_a" "node_c \<noteq> node_b"
  "node_a \<noteq> invalid_node_id" "node_b \<noteq> invalid_node_id" "node_c \<noteq> invalid_node_id"
  by (simp_all add: node_a_def node_b_def node_c_def invalid_node_id_def)

lemma header_round_trip_witness:
  "load_header (header_bytes (client_handshake_header node_a node_b) @ [7]) = Inr (client_handshake_header node_a node_b, [7])"
  using header_round_trip [of "client_handshake_header node_a node_b" "client_handshake_header node_a node_b" "[]" "[7]"]
  by (simp add: header_ok_def client_handshake_header_def nodes_ok)

text \<open>
  An identifier of a node is read back from its text, and two identifiers compare as equal exactly when
  they have the same data.
\<close>

theorem node_id_text:
  assumes "node_wf x" and "node_wf y"
  shows "node_id_from_string (node_id_to_string x) = x \<and> (node_compare x y = Inr 0 \<longleftrightarrow> x = y)
    \<and> (node_id_to_string x = node_id_to_string y \<longrightarrow> x = y)"
  using node_id_text_roundtrip [OF assms(1)] node_id_text_roundtrip [OF assms(2)] node_compare_eq [OF assms] by metis

lemma node_id_text_witness:
  "node_id_from_string (node_id_to_string node_a) = node_a \<and> node_compare node_a node_b \<noteq> Inr 0"
  using node_id_text [of node_a node_b] nodes_ok by (simp add: node_ok_def)

section \<open>Messages\<close>

text \<open>
  C12: A message that is dispatched to a node with a route is appended to the buffer of the connection of that
  route, and nothing else is written. A node that receives these bytes and is not the destination appends the
  same bytes to the connection of its own route. The destination, whatever node it receives them from, hands
  the message to the receiver with the node and identifier of the sender, the identifier of the message and
  its content, as the only delivery.
\<close>

theorem message_delivered:
  assumes body: "codec (save_body envA) (load_body envB) enc ok" "ok msg" "enc msg \<noteq> []" "length (enc msg) < 2 ^ 32"
    and nodes: "node_ok src" "node_ok dest" "dest \<noteq> invalid_node_id" "dest = this_node envB" and recv: "receiver \<noteq> 0"
    and route: "fst (lookup dest (tbl a)) = Some r"
    and m: "m = message_bytes (dispatch_header envA (Some (src, sender)) dest receiver mid) (enc msg)"
  shows "(\<exists>a'. dispatch envA (Some (src, sender)) dest receiver mid msg a = (True, a')
       \<and> wr_buf a' = (wr_buf a)(hdl r := wr_buf a (hdl r) @ m) \<and> flushes a' = flushes a @ [hdl r])
    \<and> (\<forall>(envC :: ('b, 'e) env) h c rc. dest \<noteq> this_node envC \<and> fst (lookup dest (tbl c)) = Some rc \<longrightarrow>
         (\<exists>c'. receive envC h m c = (Inr Await_header, c') \<and> wr_buf c' = (wr_buf c)(hdl rc := wr_buf c (hdl rc) @ m)))
    \<and> (\<forall>h b. \<exists>b' learned. receive envB h m b = (Inr Await_header, b')
         \<and> calls b' = calls b @ learned @ [Deliver src sender receiver mid msg]
         \<and> learned \<in> {[], [Learned_indirectly src]} \<and> wr_buf b' = wr_buf b)"
proof -
  define H where "H = dispatch_header envA (Some (src, sender)) dest receiver mid"
  let ?p = "enc msg"
  have nd: "this_node envB = dest" and m: "m = message_bytes H ?p" using nodes(4) m by (simp_all add: H_def)
  have put: "save_body envA msg sb = save_raw ?p sb" for sb using codec.put_enc [OF body(1)] .
  have get: "load_body envB ?p = Inr (msg, [])" using codec.get_enc [OF body(1,2), of "[]"] by simp
  have h: "operation H = Dispatch_message" "source_node H = src" "dest_node H = dest" "dest_actor H = receiver"
    "source_actor H = sender" "flags H = 0" "operation_data H = integer_value mid"
    by (simp_all add: H_def dispatch_header_def)
  have ok: "header_ok H" using nodes(1,2) h by (simp add: header_ok_def)
  then have ok': "header_ok (with_length H ?p)" by (simp add: header_ok_def)
  have wf: "node_wf (source_node H)" "node_wf (dest_node H)" using header_ok_wf [OF ok] by simp_all
  have len: "(of_nat (length ?p) :: u32) \<noteq> 0" "unat (of_nat (length ?p) :: u32) = length ?p"
    using word_length_pos [OF body(4,3)] body(4) by (simp_all add: unat_of_nat take_bit_nat_eq_self)
  have valid: "header_valid (with_length H ?p)"
    using nodes(3) recv len(1) by (simp add: header_valid_def validity_defs h)
  have no_flag: "\<not> has_flag (with_length H ?p) named_receiver_flag" by (simp add: has_flag_def h)
  obtain a1 where a1: "basp_lookup dest a = (Some r, a1)" "wr_buf a1 = wr_buf a" "flushes a1 = flushes a"
    using route by (cases "basp_lookup dest a") (auto simp: basp_lookup_def split: prod.splits)
  have sent: "\<exists>a'. dispatch envA (Some (src, sender)) dest receiver mid msg a = (True, a')
       \<and> wr_buf a' = (wr_buf a)(hdl r := wr_buf a (hdl r) @ m) \<and> flushes a' = flushes a @ [hdl r]"
    using a1 write_msg_payload [of "save_body envA msg" ?p H, OF put wf]
    by (simp add: dispatch_def write_to_def flush_def tell_def m flip: H_def)
  have fwd: "\<exists>c'. receive envC h m c = (Inr Await_header, c') \<and> wr_buf c' = (wr_buf c)(hdl rc := wr_buf c (hdl rc) @ m)"
    if c: "dest \<noteq> this_node envC" "fst (lookup dest (tbl c)) = Some rc" for envC :: "('b, 'e) env" and h c rc
  proof -
    obtain c1 where c1: "basp_lookup dest c = (Some rc, c1)" "wr_buf c1 = wr_buf c"
      using c(2) by (cases "basp_lookup dest c") (auto simp: basp_lookup_def split: prod.splits)
    have "written (save_raw ?p (save_header (with_length H ?p) (vectorbuf buf))) = buf @ m" for buf
      by (simp add: hdr.put_vectorbuf save_raw_vectorbuf m message_bytes_def) (simp add: vectorbuf_def)
    then show ?thesis
      using receive_message [OF ok valid body(4), of envC h c] body(3) c(1) c1 h
      by (simp add: m handle_message_def is_handshake_def is_heartbeat_def forward_def save_payload_def flush_def tell_def)
  qed
  have del: "\<exists>b' learned. receive envB h m b = (Inr Await_header, b')
         \<and> calls b' = calls b @ learned @ [Deliver src sender receiver mid msg]
         \<and> learned \<in> {[], [Learned_indirectly src]} \<and> wr_buf b' = wr_buf b" for h b
    using receive_message [OF ok valid body(4), of envB h b] body(3) nd no_flag len(2) get
    by (auto simp: m handle_message_def is_handshake_def is_heartbeat_def handle_dispatch_def h payload_valid_def
        load_dispatched_def from_integer_value_def Let_def case_prod_unfold)
  from sent fwd del show ?thesis by blast
qed

text \<open>Nodes whose messages are strings, with one connection or none.\<close>

definition example_env :: "node_id \<Rightarrow> (bytes, bytes) env" where
  "example_env n = \<lparr>this_node = n, app_identifier = [0x63, 0x61, 0x66], has_hook = False, save_body = save_string,
     load_body = load_string, save_reason = save_string, load_reason = load_string\<rparr>"

definition new_basp :: "(bytes, bytes) basp" where
  "new_basp = \<lparr>tbl = routing_table_new, published_actors = [], wr_buf = \<lambda>_. [], flushes = [], calls = []\<rparr>"

definition basp_connected :: "handle \<Rightarrow> node_id \<Rightarrow> (bytes, bytes) basp" where
  "basp_connected h n = new_basp\<lparr>tbl := add_direct h n routing_table_new\<rparr>"

lemma connected_lookup: "h \<noteq> invalid_connection_handle \<Longrightarrow> lookup n (tbl (basp_connected h n))
  = (Some \<lparr>next_hop = n, hdl = h\<rparr>, tbl (basp_connected h n))"
  by (simp add: basp_connected_def lookup_def lookup_direct_def get_opt_def add_direct_def map_emplace_def routing_table_new_def)

lemma string_codec: "codec (save_body (example_env n)) (load_body (example_env m)) string_bytes short"
  using str.codec_axioms by (simp add: example_env_def)

lemma length_small: "length xs < 128 \<Longrightarrow> string_bytes xs = of_nat (length xs) # xs"
proof -
  assume l: "length xs < 128"
  then have u: "unat (of_nat (length xs) :: u64) = length xs" by (simp add: unat_of_nat take_bit_nat_eq_self)
  then have n: "\<not> (of_nat (length xs) :: u64) > 0x7f" using l by (simp add: word_less_nat_alt)
  have "ucast (of_nat (length xs) :: u64) = (of_nat (length xs) :: u8)"
    using l u by (simp add: word_unat_eq_iff unsigned_ucast_eq unat_of_nat take_bit_nat_eq_self)
  with n show ?thesis by (simp add: string_bytes_def varbyte_bytes_low take_bit_low)
qed

lemma message_delivered_witness:
  "\<exists>a' m. dispatch (example_env node_a) (Some (node_a, 42)) node_c 7 (Message_id 1) [1, 2, 3] (basp_connected 5 node_c) = (True, a')
     \<and> wr_buf a' 5 = m
     \<and> (\<exists>b'. receive (example_env node_c) 9 m new_basp = (Inr Await_header, b') \<and> wr_buf b' = wr_buf new_basp)"
proof -
  have l: "fst (lookup node_c (tbl (basp_connected 5 node_c))) = Some \<lparr>next_hop = node_c, hdl = 5\<rparr>"
    using connected_lookup [of 5 node_c] by (simp add: invalid_connection_handle_def)
  have s: "short [1, 2, 3 :: u8]" "string_bytes [1, 2, 3] \<noteq> []" "length (string_bytes [1, 2, 3]) < 2 ^ 32"
    by (simp_all add: short_def length_small)
  have n: "node_c = this_node (example_env node_c)" by (simp add: example_env_def)
  from message_delivered [OF string_codec s nodes_ok(1,3) nodes_differ(9) n _ l refl, of 7]
  show ?thesis by (fastforce simp: basp_connected_def new_basp_def)
qed

section \<open>Connections\<close>

lemma erase_indirect_result:
  "\<exists>t'. erase_indirect d k t = (indirect t d \<noteq> None, t') \<and> indirect t' d = None
    \<and> direct_by_nid t' = direct_by_nid t \<and> direct_by_hdl t' = direct_by_hdl t"
  by (cases "indirect t d") (auto simp: erase_indirect_def Let_def)

lemma add_direct_new:
  "direct_by_nid t n = None \<Longrightarrow> direct_by_hdl t h = None \<Longrightarrow>
   direct_by_nid (add_direct h n t) = (direct_by_nid t)(n \<mapsto> h) \<and> direct_by_hdl (add_direct h n t) = (direct_by_hdl t)(h \<mapsto> n)
   \<and> indirect (add_direct h n t) = indirect t"
  by (simp add: add_direct_def map_emplace_def)

lemma client_handshake_received:
  assumes ok: "node_ok srv" "node_ok cl" "srv \<noteq> invalid_node_id" "cl \<noteq> invalid_node_id" "srv \<noteq> cl"
    and app: "short (app_identifier env)" "length (string_bytes (app_identifier env)) < 2 ^ 32"
    and fresh: "direct_by_nid (tbl s) cl = None" "direct_by_hdl (tbl s) h = None" and wf: "rt_wf (tbl s)"
  shows "\<exists>s'. receive env h (message_bytes (client_handshake_header cl srv) (string_bytes (app_identifier env))) s
      = (Inr Await_header, s')
    \<and> direct_by_nid (tbl s') cl = Some h \<and> direct_by_hdl (tbl s') h = Some cl \<and> indirect (tbl s') cl = None
    \<and> calls s' = calls s @ [Learned_directly cl (indirect (tbl s) cl \<noteq> None)]"
proof -
  let ?p = "string_bytes (app_identifier env)" and ?h = "client_handshake_header cl srv"
  have h: "operation ?h = Client_handshake" "source_node ?h = cl" "dest_node ?h = srv" "source_actor ?h = 0"
    "dest_actor ?h = 0" "operation_data ?h = 0"
    by (simp_all add: client_handshake_header_def invalid_actor_id_def)
  have v: "header_valid (with_length ?h ?p)" using ok by (simp add: header_valid_def validity_defs h)
  have ho: "header_ok ?h" using ok by (simp add: header_ok_def h)
  have len: "unat (of_nat (length ?p) :: u32) = length ?p" using app(2) by (simp add: unat_of_nat take_bit_nat_eq_self)
  have get: "load_string ?p = Inr (app_identifier env, [])" using str.get_enc [OF app(1), of "[]"] by simp
  have nd: "lookup_direct cl (tbl s) = invalid_connection_handle" using lookup_direct_None [OF wf] fresh by simp
  obtain t' where t': "erase_indirect cl (has_hook env) (add_direct h cl (tbl s)) = (indirect (tbl s) cl \<noteq> None, t')"
      "indirect t' cl = None" "direct_by_nid t' = (direct_by_nid (tbl s))(cl \<mapsto> h)" "direct_by_hdl t' = (direct_by_hdl (tbl s))(h \<mapsto> cl)"
    using erase_indirect_result [of cl "has_hook env" "add_direct h cl (tbl s)"] add_direct_new [OF fresh] by auto
  show ?thesis
    using receive_message [OF ho v app(2), of env h s] string_bytes_Cons [of "app_identifier env"] len get nd t'
    by (simp add: handle_message_def is_handshake_def h handle_client_handshake_def payload_valid_def Let_def)
qed

lemma server_handshake_received:
  assumes ok: "node_ok srv" "srv \<noteq> invalid_node_id" "srv \<noteq> this_node env" "node_ok (this_node env)"
    and app: "app_identifier env = app_identifier envS" "short (app_identifier envS)"
    and sigs: "set_ok sigs" "length (server_handshake_bytes envS aid sigs) < 2 ^ 32"
    and fresh: "direct_by_nid (tbl c) srv = None" "direct_by_hdl (tbl c) h = None"
    and wf: "rt_wf (tbl c)" "h \<noteq> invalid_connection_handle"
  shows "\<exists>c'. receive env h (message_bytes (server_handshake_header srv aid) (server_handshake_bytes envS aid sigs)) c
      = (Inr Await_header, c')
    \<and> wr_buf c' h = wr_buf c h @ message_bytes (client_handshake_header (this_node env) srv) (string_bytes (app_identifier env))
    \<and> direct_by_nid (tbl c') srv = Some h \<and> direct_by_hdl (tbl c') h = Some srv \<and> indirect (tbl c') srv = None
    \<and> calls c' = calls c @ [Learned_directly srv (indirect (tbl c) srv \<noteq> None), Finalize_handshake srv aid sigs, Flush_route h]"
proof -
  let ?p = "server_handshake_bytes envS aid sigs" and ?h = "server_handshake_header srv aid"
  have h: "operation ?h = Server_handshake" "source_node ?h = srv" "dest_node ?h = invalid_node_id"
    "dest_actor ?h = 0" "operation_data ?h = basp_version"
    by (simp_all add: server_handshake_header_def invalid_actor_id_def)
  have v: "header_valid (with_length ?h ?p)" using ok(2) by (simp add: header_valid_def validity_defs h basp_version_def)
  have ho: "header_ok ?h" using ok(1) by (simp add: header_ok_def h node_ok_def node_wf_def invalid_node_id_def)
  have len: "unat (of_nat (length ?p) :: u32) = length ?p" using sigs(2) by (simp add: unat_of_nat take_bit_nat_eq_self)
  have ne: "?p \<noteq> []" using string_bytes_Cons by (simp add: server_handshake_bytes_def)
  have get: "load_server_handshake (app_identifier env) ?p = Inr (Some (aid, sigs))"
    using load_server_handshake_enc [OF app(2) sigs(1)] app(1) by simp
  have nd: "lookup_direct srv (tbl c) = invalid_connection_handle" using lookup_direct_None [OF wf(1)] fresh by simp
  obtain t' where t': "erase_indirect srv (has_hook env) (add_direct h srv (tbl c)) = (indirect (tbl c) srv \<noteq> None, t')"
      "indirect t' srv = None" "direct_by_nid t' = (direct_by_nid (tbl c))(srv \<mapsto> h)" "direct_by_hdl t' = (direct_by_hdl (tbl c))(h \<mapsto> srv)"
    using erase_indirect_result [of srv "has_hook env" "add_direct h srv (tbl c)"] add_direct_new [OF fresh] by auto
  have look: "lookup srv t' = (Some \<lparr>next_hop = srv, hdl = h\<rparr>, t')"
    using t'(3) wf(2) by (simp add: lookup_def lookup_direct_def get_opt_def)
  have w: "write_msg buf (client_handshake_header (this_node env) srv) (Some (save_string (app_identifier env)))
      = (with_length (client_handshake_header (this_node env) srv) (string_bytes (app_identifier env)),
         buf @ message_bytes (client_handshake_header (this_node env) srv) (string_bytes (app_identifier env)))" for buf
    using ok by (intro write_msg_payload) (simp_all add: str.put_enc client_handshake_header_def node_ok_def)
  show ?thesis
    using receive_message [OF ho v sigs(2), of env h c] ne len get nd t' ok(3) look w
    by (simp add: handle_message_def is_handshake_def h handle_server_handshake_def payload_valid_def Let_def
        basp_lookup_def write_client_handshake_def write_to_def)
qed

text \<open>
  When a server writes its handshake to a connection and a client that does not know the server yet
  receives it, the client enters the server as directly connected over that connection, drops what it knew
  indirectly, reports the published actor and its interface, and answers; when the server receives the
  answer, it enters the client in the same way. Both wait for the next header.
\<close>

theorem handshake_connects:
  assumes app: "app_identifier envC = app_identifier envS" "short (app_identifier envS)"
    and nodes: "node_ok srv" "node_ok cl" "srv \<noteq> invalid_node_id" "cl \<noteq> invalid_node_id" "srv \<noteq> cl"
      "this_node envS = srv" "this_node envC = cl"
    and sigs: "set_ok sigs" "length (server_handshake_bytes envS aid sigs) < 2 ^ 32"
    and pub: "map_of (published_actors s) port = Some (Some aid, sigs)"
    and fresh: "direct_by_nid (tbl c) srv = None" "direct_by_hdl (tbl c) hc = None"
      "direct_by_nid (tbl s) cl = None" "direct_by_hdl (tbl s) hs = None"
    and wf: "rt_wf (tbl c)" "rt_wf (tbl s)" "hc \<noteq> invalid_connection_handle" "hs \<noteq> invalid_connection_handle"
  shows "\<exists>m1 m2 c' s'. wr_buf (write_server_handshake envS hs (Some port) s) hs = wr_buf s hs @ m1
    \<and> receive envC hc m1 c = (Inr Await_header, c') \<and> wr_buf c' hc = wr_buf c hc @ m2
    \<and> direct_by_nid (tbl c') srv = Some hc \<and> direct_by_hdl (tbl c') hc = Some srv \<and> indirect (tbl c') srv = None
    \<and> calls c' = calls c @ [Learned_directly srv (indirect (tbl c) srv \<noteq> None), Finalize_handshake srv aid sigs, Flush_route hc]
    \<and> receive envS hs m2 s = (Inr Await_header, s')
    \<and> direct_by_nid (tbl s') cl = Some hs \<and> direct_by_hdl (tbl s') hs = Some cl \<and> indirect (tbl s') cl = None
    \<and> calls s' = calls s @ [Learned_directly cl (indirect (tbl s) cl \<noteq> None)]"
proof -
  let ?p = "server_handshake_bytes envS aid sigs" and ?a = "string_bytes (app_identifier envS)"
  let ?m1 = "message_bytes (server_handshake_header srv aid) ?p" and ?m2 = "message_bytes (client_handshake_header cl srv) ?a"
  have w: "wr_buf (write_server_handshake envS hs (Some port) s) hs = wr_buf s hs @ ?m1"
    using write_msg_payload [of "server_handshake_payload envS aid sigs" ?p "server_handshake_header srv aid",
        OF server_handshake_payload_enc] pub nodes(1,6)
    by (simp add: write_server_handshake_def Let_def write_to_def server_handshake_header_def node_ok_def node_wf_def invalid_node_id_def)
  obtain c' where c': "receive envC hc ?m1 c = (Inr Await_header, c')" "wr_buf c' hc = wr_buf c hc @ ?m2"
      "direct_by_nid (tbl c') srv = Some hc" "direct_by_hdl (tbl c') hc = Some srv" "indirect (tbl c') srv = None"
      "calls c' = calls c @ [Learned_directly srv (indirect (tbl c) srv \<noteq> None), Finalize_handshake srv aid sigs, Flush_route hc]"
    using server_handshake_received [of srv envC envS sigs aid c hc] nodes app sigs fresh(1,2) wf(1,3) by auto
  have "length ?a < 2 ^ 32" using sigs(2) by (simp add: server_handshake_bytes_def)
  then obtain s' where s': "receive envS hs ?m2 s = (Inr Await_header, s')" "direct_by_nid (tbl s') cl = Some hs"
      "direct_by_hdl (tbl s') hs = Some cl" "indirect (tbl s') cl = None"
      "calls s' = calls s @ [Learned_directly cl (indirect (tbl s) cl \<noteq> None)]"
    using client_handshake_received [of srv cl envS s hs] nodes(1-5) app(2) fresh(3,4) wf(2) by auto
  from w c' s' show ?thesis by blast
qed

definition server_basp :: "(bytes, bytes) basp" where
  "server_basp = add_published_actor 4242 (Some 11) {[0x66]} new_basp"

lemma handshake_connects_witness:
  "\<exists>m1 m2 c' s'. receive (example_env node_b) 3 m1 new_basp = (Inr Await_header, c') \<and> wr_buf c' 3 = m2
    \<and> receive (example_env node_a) 4 m2 server_basp = (Inr Await_header, s')
    \<and> direct_by_nid (tbl c') node_a = Some 3 \<and> direct_by_nid (tbl s') node_b = Some 4"
proof -
  have t: "tbl server_basp = routing_table_new" "map_of (published_actors server_basp) 4242 = Some (Some 11, {[0x66]})"
    by (simp_all add: server_basp_def add_published_actor_def new_basp_def tell_def)
  have s: "set_ok {[0x66]}" "short [0x63, 0x61, 0x66 :: u8]" by (simp_all add: set_ok_def short_def)
  have "length (server_handshake_bytes (example_env node_a) 11 {[0x66]}) < 2 ^ 32"
    by (simp add: server_handshake_bytes_def set_bytes_def example_env_def length_small varbyte_bytes_low)
  then show ?thesis
    using handshake_connects [of "example_env node_b" "example_env node_a" node_a node_b "{[0x66]}" 11 server_basp 4242 new_basp 3 4]
      nodes_ok s t rt_wf_new
    by (fastforce simp: example_env_def new_basp_def routing_table_new_def invalid_connection_handle_def)
qed


section \<open>The table of an instance that runs\<close>

lemma erase_direct_gone [simp]: "direct_by_hdl (erase_direct h t) h = None"
  by (simp add: erase_direct_def split: option.split)

lemma close_on_error_gone [simp]: "direct_by_hdl (tbl (snd (close_on_error h i))) h = None"
  by (simp add: close_on_error_def)

lemma handlers_close:
  "fst (forward env hdr payload i) \<noteq> Inr Close_connection"
  "fst (handle_server_handshake env h hdr payload i) = Inr Close_connection
   \<Longrightarrow> direct_by_hdl (tbl (snd (handle_server_handshake env h hdr payload i))) h = None"
  "fst (handle_client_handshake env h hdr payload i) = Inr Close_connection
   \<Longrightarrow> direct_by_hdl (tbl (snd (handle_client_handshake env h hdr payload i))) h = None"
  "fst (handle_dispatch env h hdr payload i) = Inr Close_connection
   \<Longrightarrow> direct_by_hdl (tbl (snd (handle_dispatch env h hdr payload i))) h = None"
  "fst (handle_kill_proxy env h hdr payload i) = Inr Close_connection
   \<Longrightarrow> direct_by_hdl (tbl (snd (handle_kill_proxy env h hdr payload i))) h = None"
proof -
  show "fst (forward env hdr payload i) \<noteq> Inr Close_connection"
    by (simp add: forward_def Let_def case_prod_unfold split: option.split)
  show "fst (handle_server_handshake env h hdr payload i) = Inr Close_connection
   \<Longrightarrow> direct_by_hdl (tbl (snd (handle_server_handshake env h hdr payload i))) h = None"
    by (auto simp: handle_server_handshake_def Let_def case_prod_unfold split: option.splits sum.splits if_splits)
  show "fst (handle_client_handshake env h hdr payload i) = Inr Close_connection
   \<Longrightarrow> direct_by_hdl (tbl (snd (handle_client_handshake env h hdr payload i))) h = None"
    by (auto simp: handle_client_handshake_def Let_def case_prod_unfold split: sum.splits if_splits)
  show "fst (handle_dispatch env h hdr payload i) = Inr Close_connection
   \<Longrightarrow> direct_by_hdl (tbl (snd (handle_dispatch env h hdr payload i))) h = None"
    by (cases "payload_valid hdr payload")
      (simp_all add: handle_dispatch_def Let_def case_prod_unfold split: sum.splits)
  show "fst (handle_kill_proxy env h hdr payload i) = Inr Close_connection
   \<Longrightarrow> direct_by_hdl (tbl (snd (handle_kill_proxy env h hdr payload i))) h = None"
    by (simp add: handle_kill_proxy_def case_prod_unfold split: sum.splits if_splits)
qed

lemma handle_message_closes:
  "fst (handle_message env h hdr payload i) = Inr Close_connection
   \<Longrightarrow> direct_by_hdl (tbl (snd (handle_message env h hdr payload i))) h = None"
proof (cases "\<not> is_handshake hdr \<and> \<not> is_heartbeat hdr \<and> dest_node hdr \<noteq> this_node env")
  case True
  then show "fst (handle_message env h hdr payload i) = Inr Close_connection \<Longrightarrow> ?thesis"
    by (simp add: handle_message_def handlers_close)
next
  case False
  then show "fst (handle_message env h hdr payload i) = Inr Close_connection \<Longrightarrow> ?thesis"
    by (auto simp: handle_message_def handlers_close split: message_type.splits)
qed

text \<open>The two ways through \<open>receive\<close>: what is not handed to a handler leaves the table or erases the connection.\<close>

lemma receive_cases:
  obtains (failed) e where "receive env h msg i = (Inl e, i)"
    | (closed) "receive env h msg i = close_on_error h i"
    | (handled) hdr rest payload where "load_header (take header_size msg) = Inr (hdr, rest)" "header_valid hdr"
        "receive env h msg i = handle_message env h hdr payload i"
proof (cases "load_header (take header_size msg)")
  case (Inl e)
  then show ?thesis by (intro failed [of e]) (simp add: receive_def basp_handle_def)
next
  case (Inr p)
  then obtain hdr rest where l: "load_header (take header_size msg) = Inr (hdr, rest)" by (cases p) auto
  have c: "fst (close_on_error h i) = Inr Close_connection" by (simp add: close_on_error_def)
  show ?thesis
  proof (cases "header_valid hdr")
    case False
    with l c show ?thesis
      by (intro closed) (simp add: receive_def basp_handle_def Let_def case_prod_unfold prod_eq_iff)
  next
    case v: True
    show ?thesis
    proof (cases "payload_len hdr > 0")
      case True
      show ?thesis
      proof (cases "length (drop header_size msg) = unat (payload_len hdr)")
        case True
        with l v \<open>payload_len hdr > 0\<close> show ?thesis
          by (intro handled [OF l v, of "Some (drop header_size msg)"])
            (simp add: receive_def basp_handle_def Let_def case_prod_unfold)
      next
        case False
        with l v \<open>payload_len hdr > 0\<close> show ?thesis
          by (intro closed) (simp add: receive_def basp_handle_def Let_def case_prod_unfold)
      qed
    next
      case False
      with l v handle_message_state [of env h hdr None i] show ?thesis
        by (intro handled [OF l v, of None])
          (auto simp: receive_def basp_handle_def Let_def case_prod_unfold prod_eq_iff
            split: sum.splits connection_state.splits)
    qed
  qed
qed

text \<open>
  What happens to an instance: a message arrives, a message is sent, a node or a connection goes down, a hop is
  blacklisted, heartbeats are sent. A handshake arrives on a connection that has had none.
\<close>

inductive basp_reach :: "('b, 'e) env \<Rightarrow> ('b, 'e) basp \<Rightarrow> bool" for env where
  reach_start: "tbl i = routing_table_new \<Longrightarrow> basp_reach env i"
| reach_receive:
    "basp_reach env i \<Longrightarrow> h \<noteq> invalid_connection_handle
     \<Longrightarrow> (\<And>hdr rest. load_header (take header_size msg) = Inr (hdr, rest) \<Longrightarrow> is_handshake hdr
            \<Longrightarrow> direct_by_hdl (tbl i) h = None)
     \<Longrightarrow> basp_reach env (snd (receive env h msg i))"
| reach_dispatch: "basp_reach env i \<Longrightarrow> basp_reach env (snd (dispatch env sender dest receiver mid body i))"
| reach_node_down: "basp_reach env i \<Longrightarrow> basp_reach env (handle_node_shutdown n i)"
| reach_connection_down: "basp_reach env i \<Longrightarrow> basp_reach env (erase_with (erase_direct h) i)"
| reach_blacklist: "basp_reach env i \<Longrightarrow> basp_reach env (i\<lparr>tbl := rt_blacklist hop dest (tbl i)\<rparr>)"
| reach_heartbeat: "basp_reach env i \<Longrightarrow> basp_reach env (handle_heartbeat env kvps i)"

inductive_simps basp_reach_simp: "basp_reach env i"

lemma heartbeat_tbl [simp]: "tbl (handle_heartbeat env kvps i) = tbl i"
  by (induction env kvps i rule: handle_heartbeat.induct) (simp_all add: write_heartbeat_def)

lemma dispatch_tbl [simp]: "tbl (snd (dispatch env sender dest receiver mid body i)) = snd (lookup dest (tbl i))"
  by (auto simp: dispatch_def Let_def basp_lookup_def case_prod_unfold split: option.splits)

lemma receive_wf:
  assumes "rt_wf (tbl i)" and "h \<noteq> invalid_connection_handle"
    and "\<And>hdr rest. load_header (take header_size msg) = Inr (hdr, rest) \<Longrightarrow> is_handshake hdr \<Longrightarrow> direct_by_hdl (tbl i) h = None"
  shows "rt_wf (tbl (snd (receive env h msg i)))"
proof (cases rule: receive_cases [of env h msg i])
  case (handled hdr rest payload)
  with assms show ?thesis using handle_message_wf [of i hdr h env payload] by auto
qed (use assms in \<open>simp_all add: close_on_error_wf\<close>)

lemma basp_reach_wf: "basp_reach env i \<Longrightarrow> rt_wf (tbl i)"
proof (induction rule: basp_reach.induct)
  case (reach_receive i h msg)
  then show ?case by (intro receive_wf) auto
next
  case (reach_node_down i n)
  then show ?case by (simp add: handle_node_shutdown_def erase_wf)
qed (simp_all add: rt_wf_new lookup_wf erase_direct_wf rt_blacklist_wf)

text \<open>
  C34: However an instance runs, as long as a handshake arrives only on a connection without one: the table of
  nodes and the table of connections are inverse to each other, every route that is looked up goes over an
  open connection to its next hop and is found exactly when the node or one of its hops is connected, and
  when handling a message asks to close the connection, the table does not know it any more.
\<close>

theorem table_invariant:
  assumes "basp_reach env i"
  shows "(direct_by_hdl (tbl i) h = Some n \<longleftrightarrow> direct_by_nid (tbl i) n = Some h)
    \<and> (fst (lookup n (tbl i)) = Some r \<longrightarrow> direct_by_hdl (tbl i) (hdl r) = Some (next_hop r))
    \<and> (fst (lookup n (tbl i)) \<noteq> None \<longleftrightarrow> routable (tbl i) n)
    \<and> (fst (receive env h msg i) = Inr Close_connection
       \<longrightarrow> direct_by_hdl (tbl (snd (receive env h msg i))) h = None)"
proof -
  have wf: "rt_wf (tbl i)" by (rule basp_reach_wf [OF assms])
  then have d: "direct_by_hdl (tbl i) h = Some n \<longleftrightarrow> direct_by_nid (tbl i) n = Some h" for h n
    by (simp add: rt_wf_def direct_wf_iff)
  have "direct_by_hdl (tbl (snd (receive env h msg i))) h = None" if "fst (receive env h msg i) = Inr Close_connection"
    by (cases rule: receive_cases [of env h msg i]) (use that handle_message_closes in auto)
  with d lookup_routes [OF wf] show ?thesis by blast
qed

text \<open>A client handshake is taken on any connection, whatever the table says of the connection.\<close>

lemma client_handshake_any:
  assumes ok: "node_ok srv" "node_ok cl" "srv \<noteq> invalid_node_id" "cl \<noteq> invalid_node_id" "srv \<noteq> cl"
    and app: "short (app_identifier env)" "length (string_bytes (app_identifier env)) < 2 ^ 32"
    and nd: "lookup_direct cl (tbl s) = invalid_connection_handle" and fresh: "direct_by_nid (tbl s) cl = None"
  shows "\<exists>s'. receive env h (message_bytes (client_handshake_header cl srv) (string_bytes (app_identifier env))) s
      = (Inr Await_header, s')
    \<and> direct_by_nid (tbl s') = (direct_by_nid (tbl s))(cl \<mapsto> h)
    \<and> direct_by_hdl (tbl s') = map_emplace h cl (direct_by_hdl (tbl s))"
proof -
  let ?p = "string_bytes (app_identifier env)" and ?h = "client_handshake_header cl srv"
  have h: "operation ?h = Client_handshake" "source_node ?h = cl" "dest_node ?h = srv" "source_actor ?h = 0"
    "dest_actor ?h = 0" "operation_data ?h = 0"
    by (simp_all add: client_handshake_header_def invalid_actor_id_def)
  have v: "header_valid (with_length ?h ?p)" using ok by (simp add: header_valid_def validity_defs h)
  have ho: "header_ok ?h" using ok by (simp add: header_ok_def h)
  have len: "unat (of_nat (length ?p) :: u32) = length ?p" using app(2) by (simp add: unat_of_nat take_bit_nat_eq_self)
  have get: "load_string ?p = Inr (app_identifier env, [])" using str.get_enc [OF app(1), of "[]"] by simp
  show ?thesis
    using receive_message [OF ho v app(2), of env h s] string_bytes_Cons [of "app_identifier env"] len get nd fresh
    by (simp add: handle_message_def is_handshake_def h handle_client_handshake_def payload_valid_def Let_def
        case_prod_unfold erase_indirect_frame add_direct_def map_emplace_def)
qed

text \<open>A node that has received a handshake.\<close>

lemma connected_reachable:
  "\<exists>i. basp_reach (example_env node_a) i \<and> direct_by_hdl (tbl i) 5 = Some node_b \<and> direct_by_nid (tbl i) = [node_b \<mapsto> 5]"
proof -
  let ?e = "example_env node_a"
  let ?m = "message_bytes (client_handshake_header node_b node_a) (string_bytes (app_identifier ?e))"
  have t: "tbl new_basp = routing_table_new" by (simp add: new_basp_def)
  have "short (app_identifier ?e)" "length (string_bytes (app_identifier ?e)) < 2 ^ 32"
    by (simp_all add: example_env_def short_def length_small)
  moreover have "lookup_direct node_b (tbl new_basp) = invalid_connection_handle" "direct_by_nid (tbl new_basp) node_b = None"
    by (simp_all add: t routing_table_new_def lookup_direct_def get_opt_def)
  ultimately obtain s' where s: "receive ?e 5 ?m new_basp = (Inr Await_header, s')"
      "direct_by_nid (tbl s') = (direct_by_nid (tbl new_basp))(node_b \<mapsto> 5)"
      "direct_by_hdl (tbl s') = map_emplace 5 node_b (direct_by_hdl (tbl new_basp))"
    using client_handshake_any [OF nodes_ok(1,2) nodes_differ(7,8) nodes_differ(1)] by metis
  have "basp_reach ?e (snd (receive ?e 5 ?m new_basp))"
    by (rule reach_receive [OF reach_start]) (simp_all add: t routing_table_new_def invalid_connection_handle_def)
  with s show ?thesis by (auto simp: t routing_table_new_def map_emplace_def)
qed

lemma table_invariant_witness:
  "\<exists>i. basp_reach (example_env node_a) i \<and> direct_by_nid (tbl i) node_b = Some 5"
  using connected_reachable table_invariant [of "example_env node_a" _ 5 node_b] by blast


section \<open>Where the table goes wrong\<close>

text \<open>
  A second client handshake on a connection, from another node, is accepted: the new node is entered
  with the connection while the connection keeps the old node, so that the two maps are not inverse any
  more, and when the connection is lost the new node stays: messages to it are reported as sent and flushed
  to the connection that is gone.
\<close>

theorem second_handshake:
  assumes nodes: "node_ok (this_node env)" "node_ok n2" "this_node env \<noteq> invalid_node_id" "n2 \<noteq> invalid_node_id"
      "n2 \<noteq> this_node env" "n1 \<noteq> n2"
    and app: "short (app_identifier env)" "length (string_bytes (app_identifier env)) < 2 ^ 32"
    and run: "basp_reach env i" "direct_by_hdl (tbl i) h = Some n1" "direct_by_nid (tbl i) n2 = None"
  shows "\<exists>s. receive env h (message_bytes (client_handshake_header n2 (this_node env)) (string_bytes (app_identifier env))) i
      = (Inr Await_header, s)
    \<and> direct_by_hdl (tbl s) h = Some n1 \<and> direct_by_nid (tbl s) n2 = Some h
    \<and> (let s' = erase_with (erase_direct h) s; (sent, s'') = dispatch env sender n2 receiver mid body s'
       in direct_by_hdl (tbl s') h = None \<and> direct_by_nid (tbl s') n2 = Some h
          \<and> sent \<and> flushes s'' = flushes s' @ [h])"
proof -
  have wf: "rt_wf (tbl i)" by (rule basp_reach_wf [OF run(1)])
  have h: "h \<noteq> invalid_connection_handle" using wf run(2) unfolding rt_wf_def direct_wf_def by (metis option.distinct(1))
  obtain s where s: "receive env h (message_bytes (client_handshake_header n2 (this_node env)) (string_bytes (app_identifier env))) i
      = (Inr Await_header, s)" "direct_by_nid (tbl s) = (direct_by_nid (tbl i))(n2 \<mapsto> h)"
      "direct_by_hdl (tbl s) = direct_by_hdl (tbl i)"
    using client_handshake_any [of "this_node env" n2 env i h] nodes app run lookup_direct_None [OF wf]
    by (auto simp: map_emplace_def)
  let ?s' = "erase_with (erase_direct h) s"
  have d: "direct_by_nid (tbl ?s') n2 = Some h" using s run(2) nodes(6) by (simp add: erase_direct_def)
  then have "lookup n2 (tbl ?s') = (Some \<lparr>next_hop = n2, hdl = h\<rparr>, tbl ?s')"
    using h by (simp add: lookup_def lookup_direct_def get_opt_def)
  then have "fst (dispatch env sender n2 receiver mid body ?s')"
    "flushes (snd (dispatch env sender n2 receiver mid body ?s')) = flushes ?s' @ [h]"
    by (simp_all add: dispatch_def basp_lookup_def Let_def tell_def flush_def write_to_def)
  with s d run(2) show ?thesis by (simp add: Let_def case_prod_unfold)
qed

lemma second_handshake_witness:
  "\<exists>i (s :: (bytes, bytes) basp). basp_reach (example_env node_a) i \<and> direct_by_hdl (tbl s) 5 = Some node_b \<and> direct_by_nid (tbl s) node_c = Some 5"
proof -
  let ?e = "example_env node_a"
  obtain i where i: "basp_reach ?e i" "direct_by_hdl (tbl i) 5 = Some node_b" "direct_by_nid (tbl i) = [node_b \<mapsto> 5]"
    using connected_reachable by blast
  have e: "short (app_identifier ?e)" "length (string_bytes (app_identifier ?e)) < 2 ^ 32" "this_node ?e = node_a"
    by (simp_all add: example_env_def short_def length_small)
  have n: "node_ok (this_node ?e)" "node_ok node_c" "this_node ?e \<noteq> invalid_node_id" "node_c \<noteq> invalid_node_id"
      "node_c \<noteq> this_node ?e" "node_b \<noteq> node_c" "direct_by_nid (tbl i) node_c = None"
    using nodes_ok i(3) by (simp_all add: e)
  obtain s :: "(bytes, bytes) basp" where "direct_by_hdl (tbl s) 5 = Some node_b" "direct_by_nid (tbl s) node_c = Some 5"
    using second_handshake [OF n(1-6) e(1,2) i(1,2) n(7), of None 7 "Message_id 1" "[]"] by blast
  with i(1) show ?thesis by blast
qed

text \<open>
  When a node goes down, its routes are erased. The state of the node is purged, but also the state of
  each node over which it could be reached, although those stay connected; and a node that could be reached
  only over the node that went down can be reached no more, without its state being purged and with the table
  still calling it reachable.
\<close>

theorem node_shutdown:
  assumes "rt_wf (tbl i)" and "n \<noteq> invalid_node_id"
  shows "calls (handle_node_shutdown n i) = calls i @ map Purge_state (n # get_opt (indirect (tbl i)) n [])
    \<and> \<not> reachable_node n (tbl (handle_node_shutdown n i)) \<and> \<not> routable (tbl (handle_node_shutdown n i)) n
    \<and> (m \<noteq> n \<longrightarrow> direct_by_nid (tbl (handle_node_shutdown n i)) m = direct_by_nid (tbl i) m)
    \<and> (m \<noteq> n \<and> direct_by_nid (tbl i) m = None \<and> indirect (tbl i) m = Some [n]
       \<longrightarrow> \<not> routable (tbl (handle_node_shutdown n i)) m \<and> reachable_node m (tbl (handle_node_shutdown n i)))"
proof -
  note e = erase_eq [OF assms(1), of n]
  have p: "purges (Purged n # es) = Purge_state n # purges es" "purges (es @ fs) = purges es @ purges fs"
      "purges [] = []" "purges [Connection_lost n] = []" for es fs :: "rt_event list" and n
    by (simp_all add: purges_def)
  have hops: "purges (concat (map (\<lambda>nid. [Purged nid, Route_lost nid n]) hops)) = map Purge_state hops" for hops
    by (induction hops) (simp_all add: purges_def)
  have "calls (handle_node_shutdown n i) = calls i @ map Purge_state (n # get_opt (indirect (tbl i)) n [])"
    using assms(2) by (simp add: handle_node_shutdown_def erase_with_def Let_def tell_def e p hops)
  moreover have "tbl (handle_node_shutdown n i) = snd (erase n (tbl i))"
    using assms(2) by (simp add: handle_node_shutdown_def)
  ultimately show ?thesis using e(1,2) by (simp add: routable_def reachable_node_def)
qed

lemma node_shutdown_witness:
  "\<exists>i :: (bytes, bytes) basp. calls (handle_node_shutdown node_b i) = [Purge_state node_b] \<and> routable (tbl i) node_c
     \<and> \<not> routable (tbl (handle_node_shutdown node_b i)) node_c"
proof -
  let ?i = "new_basp\<lparr>tbl := snd (add_indirect node_b node_c (add_direct 5 node_b routing_table_new))\<rparr>"
  have "rt_wf (tbl ?i)"
    using add_indirect_wf [OF add_direct_wf [OF rt_wf_new, of 5 node_b], of node_b node_c]
    by (simp add: invalid_connection_handle_def routing_table_new_def)
  moreover have "direct_by_nid (tbl ?i) = [node_b \<mapsto> 5]" "indirect (tbl ?i) = [node_c \<mapsto> [node_b]]" "calls ?i = []"
    by (simp_all add: add_indirect_def add_direct_def map_emplace_def routing_table_new_def get_opt_def emplace_def new_basp_def)
  ultimately have "rt_wf (tbl ?i)" "routable (tbl ?i) node_c" "direct_by_nid (tbl ?i) node_c = None"
      "indirect (tbl ?i) node_c = Some [node_b]" "calls ?i = []" "get_opt (indirect (tbl ?i)) node_b [] = []"
    by (simp_all add: routable_def get_opt_def)
  with node_shutdown [of ?i node_b node_c] show ?thesis by (intro exI [of _ ?i]) simp
qed

end
