(* ===== verification/ActorRegistry.thy ===== *)
theory ActorRegistry
  imports BaspHeader Errors "HOL-Library.AList"
begin

text \<open>
  The tables of actors of a system: the actor registry (libcaf_core/caf/actor_registry.hpp,
  src/actor_registry.cpp), which has local actors by identifier and by name, and the proxy registry
  (caf/proxy_registry.hpp, src/proxy_registry.cpp), which has the proxies of actors of other nodes. Actors live
  in a store; a \<open>strong_actor_ptr\<close> is an address of it or null, and keeps its actor. Of an actor the store has
  what the tables need: its node and identifier, whether it is finished, and the functors attached to it.
\<close>

section \<open>Actors and their functors\<close>

type_synonym ref = nat

datatype afunctor =
    Erase_entry actor_id              \<comment> \<open>attached by \<open>actor_registry::put\<close>\<close>
  | Reset_name u64                    \<comment> \<open>attached by \<open>put\<close> with a name\<close>
  | Drop_proxy node_id ref            \<comment> \<open>attached to a proxy by the broker\<close>
  | Announce_end node_id actor_id     \<comment> \<open>attached to a local actor by the broker\<close>

text \<open>What functors hand to the thread of the broker.\<close>

datatype task = Erase_proxy_task node_id actor_id error | Kill_proxy_task node_id actor_id error

record actor_obj =
  obj_node :: node_id
  obj_id :: actor_id
  obj_end :: "error option"
  obj_functors :: "afunctor list"

type_synonym submap = "(actor_id \<times> ref option) list"     \<comment> \<open>in the order of the map\<close>

record system =
  store :: "ref \<Rightarrow> actor_obj"
  next_ref :: ref
  last_id :: actor_id
  id_entries :: "actor_id \<rightharpoonup> ref"
  named_entries :: "u64 \<rightharpoonup> ref option"
  proxies :: "(node_id \<times> submap) list"                      \<comment> \<open>in the order of its iteration\<close>
  posted :: "task list"

definition make_actor :: "node_id \<Rightarrow> actor_id \<Rightarrow> system \<Rightarrow> ref \<times> system" where
  "make_actor n i s =
     (next_ref s,
      s\<lparr>store := (store s)(next_ref s := \<lparr>obj_node = n, obj_id = i, obj_end = None, obj_functors = []\<rparr>),
        next_ref := Suc (next_ref s)\<rparr>)"

definition next_actor_id :: "system \<Rightarrow> actor_id \<times> system" where
  "next_actor_id s = (let i = last_id s + 1 in (i, s\<lparr>last_id := i\<rparr>))"

section \<open>The actor registry\<close>

definition reg_get :: "actor_id \<Rightarrow> system \<Rightarrow> ref option" where
  "reg_get key s = id_entries s key"

definition reg_erase :: "actor_id \<Rightarrow> system \<Rightarrow> system" where
  "reg_erase key s = s\<lparr>id_entries := (id_entries s)(key := None)\<rparr>"

definition name_get :: "u64 \<Rightarrow> system \<Rightarrow> ref option" where
  "name_get key s = (case named_entries s key of None \<Rightarrow> None | Some v \<Rightarrow> v)"

definition name_erase :: "u64 \<Rightarrow> system \<Rightarrow> system" where
  "name_erase key s = s\<lparr>named_entries := (named_entries s)(key := None)\<rparr>"

text \<open>\<open>emplace\<close> leaves the value of a key that is there.\<close>

definition name_emplace :: "u64 \<Rightarrow> ref option \<Rightarrow> system \<Rightarrow> system" where
  "name_emplace key v s =
     (if named_entries s key = None then s\<lparr>named_entries := (named_entries s)(key \<mapsto> v)\<rparr> else s)"

text \<open>A functor is called with the reason for which its actor ended.\<close>

fun call_functor :: "error \<Rightarrow> afunctor \<Rightarrow> system \<Rightarrow> system" where
  "call_functor rsn (Erase_entry key) s = reg_erase key s"
| "call_functor rsn (Reset_name key) s = name_emplace key None s"
| "call_functor rsn (Drop_proxy nid p) s = s\<lparr>posted := posted s @ [Erase_proxy_task nid (obj_id (store s p)) rsn]\<rparr>"
| "call_functor rsn (Announce_end nid i) s = s\<lparr>posted := posted s @ [Kill_proxy_task nid i rsn]\<rparr>"

text \<open>As in \<open>monitorable_actor\<close>: a functor is attached in front, and called at once if the actor is finished.\<close>

definition attach_functor :: "ref \<Rightarrow> afunctor \<Rightarrow> system \<Rightarrow> system" where
  "attach_functor p f s =
     (case obj_end (store s p) of
        Some rsn \<Rightarrow> call_functor rsn f s
      | None \<Rightarrow> s\<lparr>store := (store s)(p := (store s p)\<lparr>obj_functors := f # obj_functors (store s p)\<rparr>)\<rparr>)"

definition finish :: "ref \<Rightarrow> error \<Rightarrow> system \<Rightarrow> system" where
  "finish p rsn s =
     (case obj_end (store s p) of
        Some _ \<Rightarrow> s
      | None \<Rightarrow> fold (call_functor rsn) (obj_functors (store s p))
          (s\<lparr>store := (store s)(p := (store s p)\<lparr>obj_end := Some rsn, obj_functors := []\<rparr>)\<rparr>))"

definition reg_put :: "actor_id \<Rightarrow> ref option \<Rightarrow> system \<Rightarrow> system" where
  "reg_put key val s =
     (case val of
        None \<Rightarrow> s
      | Some p \<Rightarrow>
          if id_entries s key \<noteq> None then s
          else attach_functor p (Erase_entry key) (s\<lparr>id_entries := (id_entries s)(key \<mapsto> p)\<rparr>))"

definition name_put :: "u64 \<Rightarrow> ref option \<Rightarrow> system \<Rightarrow> system" where
  "name_put key val s =
     name_emplace key val (case val of None \<Rightarrow> s | Some p \<Rightarrow> attach_functor p (Reset_name key) s)"

section \<open>The proxy registry\<close>

definition submap_of :: "node_id \<Rightarrow> system \<Rightarrow> submap" where
  "submap_of nid s = (case map_of (proxies s) nid of None \<Rightarrow> [] | Some m \<Rightarrow> m)"

text \<open>Writing an entry of the inner map, which is ordered by the identifiers.\<close>

definition sub_put :: "actor_id \<Rightarrow> ref option \<Rightarrow> submap \<Rightarrow> submap" where
  "sub_put i v m = insort_key fst (i, v) (AList.delete i m)"

definition put_proxy :: "node_id \<Rightarrow> actor_id \<Rightarrow> ref option \<Rightarrow> system \<Rightarrow> system" where
  "put_proxy nid i v s = s\<lparr>proxies := AList.update nid (sub_put i v (submap_of nid s)) (proxies s)\<rparr>"

definition count_proxies :: "node_id \<Rightarrow> system \<Rightarrow> nat" where
  "count_proxies nid s = length (submap_of nid s)"

text \<open>\<open>get\<close> uses the operator of the map that enters an empty inner map for an unknown node.\<close>

definition get_proxy :: "node_id \<Rightarrow> actor_id \<Rightarrow> system \<Rightarrow> ref option \<times> system" where
  "get_proxy nid i s =
     (case map_of (submap_of nid s) i of None \<Rightarrow> None | Some v \<Rightarrow> v,
      s\<lparr>proxies := AList.update nid (submap_of nid s) (proxies s)\<rparr>)"

definition get_all_proxies :: "node_id \<Rightarrow> system \<Rightarrow> ref option list" where
  "get_all_proxies nid s = map snd (submap_of nid s)"

definition no_proxies :: "system \<Rightarrow> bool" where
  "no_proxies s \<longleftrightarrow> proxies s = []"

definition kill_proxy :: "error \<Rightarrow> ref option \<Rightarrow> system \<Rightarrow> system" where
  "kill_proxy rsn ptr s = (case ptr of None \<Rightarrow> s | Some p \<Rightarrow> finish p rsn s)"

definition link_lost :: error where "link_lost = make_exit_error Remote_link_unreachable"

definition erase_proxies :: "node_id \<Rightarrow> system \<Rightarrow> system" where
  "erase_proxies nid s =
     (case map_of (proxies s) nid of
        None \<Rightarrow> s
      | Some m \<Rightarrow>
          let s = fold (kill_proxy link_lost) (map snd m) s
          in s\<lparr>proxies := AList.delete nid (proxies s)\<rparr>)"

definition erase_proxy :: "node_id \<Rightarrow> actor_id \<Rightarrow> error \<Rightarrow> system \<Rightarrow> system" where
  "erase_proxy nid i rsn s =
     (case map_of (proxies s) nid of
        None \<Rightarrow> s
      | Some m \<Rightarrow>
          (case map_of m i of
             None \<Rightarrow> s
           | Some ptr \<Rightarrow>
               let s = kill_proxy rsn ptr s; m = AList.delete i m
               in s\<lparr>proxies := if m = [] then AList.delete nid (proxies s) else AList.update nid m (proxies s)\<rparr>))"

definition clear_proxies :: "system \<Rightarrow> system" where
  "clear_proxies s =
     (fold (kill_proxy link_lost) (concat (map (map snd \<circ> snd) (proxies s))) s)\<lparr>proxies := []\<rparr>"

section \<open>What the operations leave alone\<close>

lemma call_functor_frame [simp]:
  "store (call_functor rsn f s) = store s" "next_ref (call_functor rsn f s) = next_ref s"
  "last_id (call_functor rsn f s) = last_id s" "proxies (call_functor rsn f s) = proxies s"
  by (cases f; simp add: reg_erase_def name_emplace_def)+

lemma fold_functors_frame [simp]:
  "store (fold (call_functor rsn) fs s) = store s" "next_ref (fold (call_functor rsn) fs s) = next_ref s"
  "last_id (fold (call_functor rsn) fs s) = last_id s" "proxies (fold (call_functor rsn) fs s) = proxies s"
  by (induction fs arbitrary: s) simp_all

lemma finish_frame [simp]:
  "next_ref (finish p rsn s) = next_ref s" "last_id (finish p rsn s) = last_id s" "proxies (finish p rsn s) = proxies s"
  by (simp_all add: finish_def split: option.split)

lemma attach_frame [simp]:
  "next_ref (attach_functor p f s) = next_ref s" "last_id (attach_functor p f s) = last_id s"
  "proxies (attach_functor p f s) = proxies s"
  by (simp_all add: attach_functor_def split: option.split)

lemma reg_put_frame [simp]:
  "next_ref (reg_put k v s) = next_ref s" "last_id (reg_put k v s) = last_id s" "proxies (reg_put k v s) = proxies s"
  by (simp_all add: reg_put_def split: option.split)

text \<open>The only change that an operation makes to the identity of an actor is none.\<close>

lemma finish_store:
  "obj_node (store (finish p rsn s) q) = obj_node (store s q)" "obj_id (store (finish p rsn s) q) = obj_id (store s q)"
  "obj_end (store (finish p rsn s) q) = (if q = p \<and> obj_end (store s p) = None then Some rsn else obj_end (store s q))"
  "q \<noteq> p \<Longrightarrow> store (finish p rsn s) q = store s q"
  by (simp_all add: finish_def split: option.split)

lemma attach_store:
  "obj_node (store (attach_functor p f s) q) = obj_node (store s q)"
  "obj_id (store (attach_functor p f s) q) = obj_id (store s q)"
  "obj_end (store (attach_functor p f s) q) = obj_end (store s q)"
  "set (obj_functors (store s q)) \<subseteq> set (obj_functors (store (attach_functor p f s) q))"
  "q \<noteq> p \<Longrightarrow> store (attach_functor p f s) q = store s q"
  by (auto simp: attach_functor_def split: option.split)

lemma reg_put_store:
  "obj_node (store (reg_put k v s) q) = obj_node (store s q)" "obj_id (store (reg_put k v s) q) = obj_id (store s q)"
  "obj_end (store (reg_put k v s) q) = obj_end (store s q)"
  "set (obj_functors (store s q)) \<subseteq> set (obj_functors (store (reg_put k v s) q))"
  by (auto simp: reg_put_def attach_functor_def reg_erase_def split: option.split)

text \<open>Finishing an actor takes it out of the registry.\<close>

lemma fold_functors_entries:
  "id_entries (fold (call_functor rsn) fs s) k = (if Erase_entry k \<in> set fs then None else id_entries s k)"
proof (induction fs arbitrary: s)
  case (Cons f fs)
  then show ?case by (cases f) (auto simp: reg_erase_def name_emplace_def)
qed simp

lemma finish_entries:
  "id_entries (finish p rsn s) k =
     (if obj_end (store s p) = None \<and> Erase_entry k \<in> set (obj_functors (store s p)) then None else id_entries s k)"
  by (simp add: finish_def fold_functors_entries split: option.split)

section \<open>Well-formed tables\<close>

text \<open>Registered actors are alive and will leave the table when they end.\<close>

definition entries_wf :: "system \<Rightarrow> bool" where
  "entries_wf s \<longleftrightarrow> (\<forall>k p. id_entries s k = Some p \<longrightarrow>
     p < next_ref s \<and> obj_end (store s p) = None \<and> Erase_entry k \<in> set (obj_functors (store s p)))"

text \<open>An entry of the proxy registry is a live proxy of that actor.\<close>

definition proxy_at :: "node_id \<Rightarrow> actor_id \<Rightarrow> system \<Rightarrow> ref option" where
  "proxy_at nid i s = (case map_of (submap_of nid s) i of Some v \<Rightarrow> v | None \<Rightarrow> None)"

definition proxies_wf :: "system \<Rightarrow> bool" where
  "proxies_wf s \<longleftrightarrow> (\<forall>nid i p. proxy_at nid i s = Some p \<longrightarrow>
     p < next_ref s \<and> obj_node (store s p) = nid \<and> obj_id (store s p) = i \<and> obj_end (store s p) = None)
   \<and> distinct (map fst (proxies s)) \<and> (\<forall>nid. distinct (map fst (submap_of nid s)))"

definition sys_wf :: "system \<Rightarrow> bool" where "sys_wf s \<longleftrightarrow> entries_wf s \<and> proxies_wf s"

lemma entries_wfD:
  "entries_wf s \<Longrightarrow> id_entries s k = Some p \<Longrightarrow>
   p < next_ref s \<and> obj_end (store s p) = None \<and> Erase_entry k \<in> set (obj_functors (store s p))"
  by (simp add: entries_wf_def)

lemma proxies_wfD:
  "proxies_wf s \<Longrightarrow> proxy_at nid i s = Some p \<Longrightarrow>
   p < next_ref s \<and> obj_node (store s p) = nid \<and> obj_id (store s p) = i \<and> obj_end (store s p) = None"
  by (simp add: proxies_wf_def)

lemma same_tables:
  "proxies s' = proxies s \<Longrightarrow> proxy_at nid i s' = proxy_at nid i s"
  "proxies s' = proxies s \<Longrightarrow> submap_of nid s' = submap_of nid s"
  by (simp_all add: proxy_at_def submap_of_def)

text \<open>What keeps the two: no actor of the tables ends, nor loses a functor.\<close>

lemma sys_wf_mono:
  assumes "sys_wf s" and "proxies s' = proxies s" and "next_ref s \<le> next_ref s'"
    and same: "\<And>q. q < next_ref s \<Longrightarrow> obj_node (store s' q) = obj_node (store s q) \<and> obj_id (store s' q) = obj_id (store s q)
      \<and> obj_end (store s' q) = obj_end (store s q) \<and> set (obj_functors (store s q)) \<subseteq> set (obj_functors (store s' q))"
    and entries: "\<And>k p. id_entries s' k = Some p \<Longrightarrow> id_entries s k = Some p
      \<or> p < next_ref s' \<and> obj_end (store s' p) = None \<and> Erase_entry k \<in> set (obj_functors (store s' p))"
  shows "sys_wf s'"
proof -
  have e: "entries_wf s" and p: "proxies_wf s" using assms(1) by (simp_all add: sys_wf_def)
  have "entries_wf s'"
    using entries entries_wfD [OF e] same assms(3) unfolding entries_wf_def by (metis order_less_le_trans subset_iff)
  moreover have "proxies_wf s'"
    using p assms(2,3) same unfolding proxies_wf_def same_tables [OF assms(2)] by (metis order_less_le_trans)
  ultimately show ?thesis by (simp add: sys_wf_def)
qed

lemma make_actor_wf: "sys_wf s \<Longrightarrow> sys_wf (snd (make_actor n i s))"
  by (rule sys_wf_mono [of s]) (auto simp: make_actor_def)

lemma attach_functor_wf:
  assumes "sys_wf s"
  shows "sys_wf (attach_functor p f s)"
proof (rule sys_wf_mono [OF assms])
  fix k q
  assume "id_entries (attach_functor p f s) k = Some q"
  then show "id_entries s k = Some q \<or> q < next_ref (attach_functor p f s) \<and> obj_end (store (attach_functor p f s) q) = None
      \<and> Erase_entry k \<in> set (obj_functors (store (attach_functor p f s) q))"
    by (cases f) (auto simp: attach_functor_def reg_erase_def name_emplace_def split: option.splits if_splits)
qed (simp_all add: attach_store)

lemma reg_put_wf:
  assumes "sys_wf s" and "\<And>p. v = Some p \<Longrightarrow> p < next_ref s"
  shows "sys_wf (reg_put k v s)"
proof (rule sys_wf_mono [OF assms(1)])
  fix k' q
  assume "id_entries (reg_put k v s) k' = Some q"
  with assms(2) show "id_entries s k' = Some q \<or> q < next_ref (reg_put k v s) \<and> obj_end (store (reg_put k v s) q) = None
      \<and> Erase_entry k' \<in> set (obj_functors (store (reg_put k v s) q))"
    by (auto simp: reg_put_def attach_functor_def reg_erase_def split: option.splits if_splits)
qed (simp_all add: reg_put_store)

lemma finish_wf:
  assumes "sys_wf s" and "\<And>nid i. proxy_at nid i s \<noteq> Some p"
  shows "sys_wf (finish p rsn s)"
proof -
  have e: "entries_wf s" and x: "proxies_wf s" using assms(1) by (simp_all add: sys_wf_def)
  have "p' \<noteq> p" if k: "id_entries (finish p rsn s) k = Some p'" for k p'
  proof
    assume "p' = p"
    with k entries_wfD [OF e, of k p] show False by (auto simp: finish_entries split: if_splits)
  qed
  then have "entries_wf (finish p rsn s)"
    using entries_wfD [OF e] by (auto simp: entries_wf_def finish_entries finish_store split: if_splits)
  moreover have "proxies_wf (finish p rsn s)"
    using x assms(2) unfolding proxies_wf_def same_tables [OF finish_frame(3)] by (auto simp: finish_store)
  ultimately show ?thesis by (simp add: sys_wf_def)
qed

section \<open>The proxy registry as a map\<close>

lemma map_of_insort: "i \<notin> fst ` set m \<Longrightarrow> map_of (insort_key fst (i, v) m) = (map_of m)(i \<mapsto> v)"
  by (induction m) (auto simp: fun_eq_iff)

lemma delete_key: "i \<notin> fst ` set (AList.delete i m)"
  by (induction m) auto

lemma map_of_sub_put [simp]: "map_of (sub_put i v m) = (map_of m)(i \<mapsto> v)"
  unfolding sub_put_def map_of_insort [OF delete_key] by (simp add: delete_conv' fun_eq_iff)

lemma distinct_sub_put: "distinct (map fst m) \<Longrightarrow> distinct (map fst (sub_put i v m))"
proof -
  assume d: "distinct (map fst m)"
  have "distinct (map fst (insort_key fst (i, v) m))" if "distinct (map fst m)" "i \<notin> fst ` set m" for m :: submap
    using that by (induction m) (auto simp: set_insort_key)
  from this [OF distinct_delete [OF d] delete_key] show ?thesis by (simp add: sub_put_def)
qed

lemma submap_put [simp]:
  "submap_of n (put_proxy nid i v s) = (if n = nid then sub_put i v (submap_of nid s) else submap_of n s)"
  by (simp add: submap_of_def put_proxy_def update_conv')

lemma proxy_at_put [simp]:
  "proxy_at n j (put_proxy nid i v s) = (if n = nid \<and> j = i then v else proxy_at n j s)"
  by (simp add: proxy_at_def)

lemma put_proxy_frame [simp]:
  "store (put_proxy nid i v s) = store s" "next_ref (put_proxy nid i v s) = next_ref s"
  "id_entries (put_proxy nid i v s) = id_entries s" "posted (put_proxy nid i v s) = posted s"
  "last_id (put_proxy nid i v s) = last_id s" "named_entries (put_proxy nid i v s) = named_entries s"
  by (simp_all add: put_proxy_def)

lemma put_proxy_wf:
  assumes "sys_wf s"
    and "\<And>p. v = Some p \<Longrightarrow> p < next_ref s \<and> obj_node (store s p) = nid \<and> obj_id (store s p) = i \<and> obj_end (store s p) = None"
  shows "sys_wf (put_proxy nid i v s)"
proof -
  have e: "entries_wf s" and p: "proxies_wf s" using assms(1) by (simp_all add: sys_wf_def)
  have "distinct (map fst (proxies (put_proxy nid i v s)))"
    using p by (simp add: put_proxy_def proxies_wf_def distinct_update)
  then have "proxies_wf (put_proxy nid i v s)"
    using p assms(2) by (auto simp: proxies_wf_def distinct_sub_put split: if_splits)
  with e show ?thesis by (simp add: sys_wf_def entries_wf_def)
qed

text \<open>Killing proxies, and what the table has afterwards.\<close>

lemma kill_proxy_frame [simp]:
  "next_ref (kill_proxy rsn v s) = next_ref s" "proxies (kill_proxy rsn v s) = proxies s" "last_id (kill_proxy rsn v s) = last_id s"
  by (simp_all add: kill_proxy_def split: option.split)

lemma fold_kill_frame [simp]:
  "next_ref (fold (kill_proxy rsn) vs s) = next_ref s" "proxies (fold (kill_proxy rsn) vs s) = proxies s"
  "last_id (fold (kill_proxy rsn) vs s) = last_id s"
  by (induction vs arbitrary: s) simp_all

lemma kill_proxy_store:
  "obj_node (store (kill_proxy rsn v s) q) = obj_node (store s q)" "obj_id (store (kill_proxy rsn v s) q) = obj_id (store s q)"
  "obj_end (store (kill_proxy rsn v s) q) = (if v = Some q \<and> obj_end (store s q) = None then Some rsn else obj_end (store s q))"
  by (auto simp: kill_proxy_def finish_store split: option.split)

lemma kill_proxy_other: "v \<noteq> Some q \<Longrightarrow> store (kill_proxy rsn v s) q = store s q"
  by (cases v) (simp_all add: kill_proxy_def finish_store(4))

lemma fold_kill_store:
  "obj_node (store (fold (kill_proxy rsn) vs s) q) = obj_node (store s q)"
  "obj_id (store (fold (kill_proxy rsn) vs s) q) = obj_id (store s q)"
  "obj_end (store (fold (kill_proxy rsn) vs s) q) =
     (if Some q \<in> set vs \<and> obj_end (store s q) = None then Some rsn else obj_end (store s q))"
  "Some q \<notin> set vs \<Longrightarrow> store (fold (kill_proxy rsn) vs s) q = store s q"
  by (induction vs arbitrary: s) (auto simp: kill_proxy_store kill_proxy_other)

lemma kill_proxy_entries:
  "id_entries (kill_proxy rsn v s) k = Some q \<Longrightarrow> id_entries s k = Some q \<and> (entries_wf s \<longrightarrow> v \<noteq> Some q)"
proof -
  assume k: "id_entries (kill_proxy rsn v s) k = Some q"
  show ?thesis
  proof (cases v)
    case (Some p)
    then show ?thesis using k entries_wfD [of s k q] by (auto simp: kill_proxy_def finish_entries split: if_splits)
  qed (use k in \<open>simp add: kill_proxy_def\<close>)
qed

lemma kill_proxy_entries_wf: "entries_wf s \<Longrightarrow> entries_wf (kill_proxy rsn v s)"
  unfolding entries_wf_def [of "kill_proxy rsn v s"]
proof (intro allI impI)
  fix k q
  assume e: "entries_wf s" and k: "id_entries (kill_proxy rsn v s) k = Some q"
  then have q: "id_entries s k = Some q" "v \<noteq> Some q" using kill_proxy_entries [OF k] by simp_all
  from entries_wfD [OF e q(1)] q(2)
  show "q < next_ref (kill_proxy rsn v s) \<and> obj_end (store (kill_proxy rsn v s) q) = None
      \<and> Erase_entry k \<in> set (obj_functors (store (kill_proxy rsn v s) q))"
    by (simp add: kill_proxy_other)
qed

lemma fold_kill_entries_wf: "entries_wf s \<Longrightarrow> entries_wf (fold (kill_proxy rsn) vs s)"
  by (induction vs arbitrary: s) (simp_all add: kill_proxy_entries_wf)

lemma proxy_at_Some:
  assumes "distinct (map fst (submap_of nid s))"
  shows "Some q \<in> snd ` set (submap_of nid s) \<longleftrightarrow> (\<exists>i. proxy_at nid i s = Some q)"
proof
  assume "Some q \<in> snd ` set (submap_of nid s)"
  then obtain i where "(i, Some q) \<in> set (submap_of nid s)" by auto
  from map_of_is_SomeI [OF assms this] show "\<exists>i. proxy_at nid i s = Some q"
    by (intro exI [of _ i]) (simp add: proxy_at_def)
next
  assume "\<exists>i. proxy_at nid i s = Some q"
  then obtain i where "map_of (submap_of nid s) i = Some (Some q)" by (auto simp: proxy_at_def split: option.splits)
  then show "Some q \<in> snd ` set (submap_of nid s)" using map_of_SomeD by force
qed

lemma proxy_at_update:
  "proxies s' = AList.delete nid (proxies s) \<Longrightarrow> proxy_at n i s' = (if n = nid then None else proxy_at n i s)"
  "proxies s' = AList.update nid (AList.delete j (submap_of nid s)) (proxies s) \<Longrightarrow>
   proxy_at n i s' = (if n = nid \<and> i = j then None else proxy_at n i s)"
  by (auto simp: proxy_at_def submap_of_def update_conv' delete_conv')

lemma erase_proxies_at: "proxy_at n i (erase_proxies nid s) = (if n = nid then None else proxy_at n i s)"
proof (cases "map_of (proxies s) nid")
  case None
  then show ?thesis by (simp add: erase_proxies_def) (simp add: proxy_at_def submap_of_def)
next
  case (Some m)
  then show ?thesis by (intro proxy_at_update(1)) (simp add: erase_proxies_def Let_def)
qed

lemma erase_proxies_ends:
  assumes "sys_wf s"
  shows "obj_end (store (erase_proxies nid s) q) =
     (if (\<exists>i. proxy_at nid i s = Some q) then Some link_lost else obj_end (store s q))"
    and "obj_node (store (erase_proxies nid s) q) = obj_node (store s q)"
    and "obj_id (store (erase_proxies nid s) q) = obj_id (store s q)"
    and "next_ref (erase_proxies nid s) = next_ref s"
proof -
  have p: "proxies_wf s" using assms by (simp add: sys_wf_def)
  then have d: "distinct (map fst (submap_of nid s))" by (simp add: proxies_wf_def)
  have "obj_end (store s q) = None" if "Some q \<in> snd ` set (submap_of nid s)"
    using that proxies_wfD [OF p] unfolding proxy_at_Some [OF d] by blast
  then show "obj_end (store (erase_proxies nid s) q) =
     (if (\<exists>i. proxy_at nid i s = Some q) then Some link_lost else obj_end (store s q))"
    unfolding proxy_at_Some [OF d, symmetric]
    by (cases "map_of (proxies s) nid") (auto simp: erase_proxies_def Let_def fold_kill_store submap_of_def)
  show "obj_node (store (erase_proxies nid s) q) = obj_node (store s q)"
    "obj_id (store (erase_proxies nid s) q) = obj_id (store s q)" "next_ref (erase_proxies nid s) = next_ref s"
    by (simp_all add: erase_proxies_def Let_def fold_kill_store split: option.split)
qed

lemma erase_proxies_submaps:
  "distinct (map fst (proxies s)) \<Longrightarrow> distinct (map fst (proxies (erase_proxies nid s)))"
  "submap_of n (erase_proxies nid s) = (if n = nid then [] else submap_of n s)"
  by (auto simp: erase_proxies_def Let_def distinct_delete submap_of_def delete_conv' split: option.split)

lemma erase_proxies_wf:
  assumes "sys_wf s"
  shows "sys_wf (erase_proxies nid s)"
proof -
  have e: "entries_wf s" and p: "proxies_wf s" using assms by (simp_all add: sys_wf_def)
  have "entries_wf (erase_proxies nid s)"
    using fold_kill_entries_wf [OF e] e
    by (cases "map_of (proxies s) nid") (simp_all add: erase_proxies_def Let_def entries_wf_def)
  moreover have "obj_end (store (erase_proxies nid s) q) = None" if "n \<noteq> nid" "proxy_at n i s = Some q" for n i q
    using erase_proxies_ends(1) [OF assms, of nid q] proxies_wfD [OF p that(2)] proxies_wfD [OF p, of nid _ q] that(1)
    by (auto split: if_splits)
  then have "proxies_wf (erase_proxies nid s)"
    using p proxies_wfD [OF p] erase_proxies_submaps
    by (auto simp: proxies_wf_def erase_proxies_at erase_proxies_ends(2-4) [OF assms] split: if_splits)
  ultimately show ?thesis by (simp add: sys_wf_def)
qed

lemma erase_proxy_at: "proxy_at n j (erase_proxy nid i rsn s) = (if n = nid \<and> j = i then None else proxy_at n j s)"
proof (cases "map_of (proxies s) nid")
  case None
  then show ?thesis by (simp add: erase_proxy_def) (simp add: proxy_at_def submap_of_def)
next
  case (Some m)
  then have m: "submap_of nid s = m" by (simp add: submap_of_def)
  show ?thesis
  proof (cases "map_of m i")
    case None
    with Some m show ?thesis by (simp add: erase_proxy_def) (simp add: proxy_at_def)
  next
    case v: (Some v)
    show ?thesis
    proof (cases "AList.delete i m = []")
      case True
      then have "proxy_at n j s = None" if "n = nid" "j \<noteq> i" for n j
        using m that fun_cong [OF delete_conv' [of i m], of j] by (auto simp: proxy_at_def)
      moreover have "proxies (erase_proxy nid i rsn s) = AList.delete nid (proxies s)"
        using True Some v by (simp add: erase_proxy_def Let_def)
      ultimately show ?thesis by (auto simp: proxy_at_update(1))
    next
      case False
      then show ?thesis using Some v m
        by (intro proxy_at_update(2)) (simp add: erase_proxy_def Let_def)
    qed
  qed
qed

lemma erase_proxy_ends:
  "obj_end (store (erase_proxy nid i rsn s) q) =
     (if proxy_at nid i s = Some q \<and> obj_end (store s q) = None then Some rsn else obj_end (store s q))"
  "obj_node (store (erase_proxy nid i rsn s) q) = obj_node (store s q)"
  "obj_id (store (erase_proxy nid i rsn s) q) = obj_id (store s q)"
  "next_ref (erase_proxy nid i rsn s) = next_ref s"
  by (auto simp: erase_proxy_def Let_def kill_proxy_store proxy_at_def submap_of_def split: option.split)

lemma erase_proxy_submaps:
  "distinct (map fst (proxies s)) \<Longrightarrow> distinct (map fst (proxies (erase_proxy nid i rsn s)))"
  "distinct (map fst (submap_of n s)) \<Longrightarrow> distinct (map fst (submap_of n (erase_proxy nid i rsn s)))"
  by (auto simp: erase_proxy_def Let_def distinct_delete distinct_update submap_of_def delete_conv' update_conv'
      split: option.splits)

lemma erase_proxy_wf:
  assumes "sys_wf s"
  shows "sys_wf (erase_proxy nid i rsn s)"
proof -
  have e: "entries_wf s" and p: "proxies_wf s" using assms by (simp_all add: sys_wf_def)
  have "entries_wf (erase_proxy nid i rsn s)"
    using kill_proxy_entries_wf [OF e] e by (auto simp: erase_proxy_def Let_def entries_wf_def split: option.splits)
  moreover have "obj_end (store (erase_proxy nid i rsn s) q) = None" if "\<not> (n = nid \<and> j = i)" "proxy_at n j s = Some q" for n j q
    using proxies_wfD [OF p that(2)] proxies_wfD [OF p, of nid i q] that(1) by (auto simp: erase_proxy_ends)
  then have "proxies_wf (erase_proxy nid i rsn s)"
    using p proxies_wfD [OF p] erase_proxy_submaps
    by (auto simp: proxies_wf_def erase_proxy_at erase_proxy_ends(2-4) split: if_splits)
  ultimately show ?thesis by (simp add: sys_wf_def)
qed

end
