(* ===== verification/BaspBroker.thy ===== *)
theory BaspBroker
  imports BaspInstance ActorRegistry
begin

text \<open>
  The broker of the binary actor system protocol (libcaf_io/caf/io/basp_broker.hpp, src/basp_broker.cpp): the
  actor around a protocol instance. It is the instance's \<open>callee\<close>, creates and kills proxies for remote
  actors, has a context for each connection, and handles the messages of the middleman, the multiplexer and
  the proxies. Operations on sockets, answers to requests and messages to local actors are a log. The bodies
  of the two queries it sends to other nodes are parameters, what its helper actors do with the answers is not
  modelled.
\<close>

section \<open>State\<close>

record 'b broker_env =
  protocol :: "('b, error) env"
  spawn_query :: 'b         \<comment> \<open>\<open>sys, get, "info"\<close>\<close>
  config_query :: 'b        \<comment> \<open>\<open>get, "basp.default-connectivity"\<close>\<close>

type_synonym promise_id = nat

record connection_context =
  cstate :: connection_state
  ctx_hdr :: header
  ctx_hdl :: handle
  ctx_id :: node_id
  remote_port :: u16
  callback :: "promise_id option"

datatype answer =
    Connected node_id "ref option" "bytes set"
  | Failed sec
  | Delegated ref

datatype 'b broker_action =
    Answered promise_id answer
  | To_mailbox ref "ref option" message_id 'b      \<comment> \<open>receiver, sender\<close>
  | Bounced ref message_id                        \<comment> \<open>the error of a request that nobody handles\<close>
  | Read_exactly handle nat
  | Closed handle
  | Closed_port u16
  | Assigned_scribe handle
  | Tick_scheduled nat

record 'b broker =
  inst :: "('b, error) basp"
  ctxs :: "handle \<rightharpoonup> connection_context"
  this_context :: "handle option"
  spawn_servers :: "node_id \<rightharpoonup> ref"
  enable_automatic_connections :: bool
  sys :: system
  broker_terminated :: bool
  actions :: "'b broker_action list"

definition broker_act :: "'b broker_action list \<Rightarrow> 'b broker \<Rightarrow> 'b broker" where
  "broker_act xs b = b\<lparr>actions := actions b @ xs\<rparr>"

definition on_inst :: "(('b, error) basp \<Rightarrow> ('b, error) basp) \<Rightarrow> 'b broker \<Rightarrow> 'b broker" where
  "on_inst f b = b\<lparr>inst := f (inst b)\<rparr>"

definition on_sys :: "(system \<Rightarrow> system) \<Rightarrow> 'b broker \<Rightarrow> 'b broker" where
  "on_sys f b = b\<lparr>sys := f (sys b)\<rparr>"

abbreviation me :: "'b broker_env \<Rightarrow> node_id" where "me env \<equiv> this_node (protocol env)"

definition broker_lookup :: "node_id \<Rightarrow> 'b broker \<Rightarrow> route option \<times> 'b broker" where
  "broker_lookup nid b = (case basp_lookup nid (inst b) of (r, i) \<Rightarrow> (r, b\<lparr>inst := i\<rparr>))"

text \<open>The context of a connection may be erased while the broker still points to it.\<close>

definition ctx_at :: "handle \<Rightarrow> 'b broker \<Rightarrow> connection_context res" where
  "ctx_at h b = (case ctxs b h of None \<Rightarrow> Inl FreedBlock | Some c \<Rightarrow> Inr c)"

definition this_ctx :: "'b broker \<Rightarrow> connection_context res" where
  "this_ctx b = (case this_context b of None \<Rightarrow> Inl NullDeref | Some h \<Rightarrow> ctx_at h b)"

definition set_ctx :: "handle \<Rightarrow> connection_context \<Rightarrow> 'b broker \<Rightarrow> 'b broker" where
  "set_ctx h c b = b\<lparr>ctxs := (ctxs b)(h \<mapsto> c)\<rparr>"

definition set_context :: "handle \<Rightarrow> 'b broker \<Rightarrow> 'b broker" where
  "set_context h b =
     (let b = (if ctxs b h = None
               then set_ctx h \<lparr>cstate = Await_header, ctx_hdr = header_init, ctx_hdl = h, ctx_id = invalid_node_id,
                      remote_port = 0, callback = None\<rparr> b
               else b)
      in b\<lparr>this_context := Some h\<rparr>)"

section \<open>New nodes\<close>

text \<open>A message to a named actor of another node, from a helper of this node.\<close>

definition query_header :: "node_id \<Rightarrow> node_id \<Rightarrow> actor_id \<Rightarrow> header" where
  "query_header this nid helper =
     \<lparr>operation = Dispatch_message, flags = named_receiver_flag, payload_len = 0, operation_data = 0,
      source_node = this, dest_node = nid, source_actor = helper, dest_actor = invalid_actor_id\<rparr>"

definition save_named :: "'b broker_env \<Rightarrow> u64 \<Rightarrow> 'b \<Rightarrow> streambuf \<Rightarrow> streambuf" where
  "save_named env name body sb = save_body (protocol env) body (save_int name sb)"

definition write_query :: "'b broker_env \<Rightarrow> route \<Rightarrow> node_id \<Rightarrow> actor_id \<Rightarrow> string \<Rightarrow> 'b \<Rightarrow> 'b broker \<Rightarrow> 'b broker" where
  "write_query env path nid helper name body b =
     on_inst (\<lambda>i. flush path (write_to (hdl path) (query_header (me env) nid helper)
       (Some (save_named env (the (atom name)) body)) i)) b"

definition spawn_helper :: "'b broker_env \<Rightarrow> 'b broker \<Rightarrow> ref \<times> 'b broker" where
  "spawn_helper env b =
     (case next_actor_id (sys b) of (i, s) \<Rightarrow> case make_actor (me env) i s of (p, s) \<Rightarrow> (p, b\<lparr>sys := s\<rparr>))"

definition register :: "ref \<Rightarrow> 'b broker \<Rightarrow> 'b broker" where
  "register p b = on_sys (reg_put (obj_id (store (sys b) p)) (Some p)) b"

definition learned_new_node :: "'b broker_env \<Rightarrow> node_id \<Rightarrow> 'b broker \<Rightarrow> 'b broker" where
  "learned_new_node env nid b =
     (if spawn_servers b nid \<noteq> None then b
      else case spawn_helper env b of (tmp, b) \<Rightarrow>
        let b = register tmp (b\<lparr>spawn_servers := (spawn_servers b)(nid \<mapsto> tmp)\<rparr>)
        in case broker_lookup nid b of
             (None, b) \<Rightarrow> b
           | (Some path, b) \<Rightarrow> write_query env path nid (obj_id (store (sys b) tmp)) ''SpawnServ'' (spawn_query env) b)"

definition learned_new_node_directly :: "'b broker_env \<Rightarrow> node_id \<Rightarrow> bool \<Rightarrow> 'b broker \<Rightarrow> 'b broker" where
  "learned_new_node_directly env nid was_indirectly_before b =
     (if \<not> was_indirectly_before then learned_new_node env nid b else b)"

definition learned_new_node_indirectly :: "'b broker_env \<Rightarrow> node_id \<Rightarrow> 'b broker \<Rightarrow> 'b broker" where
  "learned_new_node_indirectly env nid b =
     (let b = learned_new_node env nid b
      in if \<not> enable_automatic_connections b then b
         else case broker_lookup nid b of
             (None, b) \<Rightarrow> b
           | (Some path, b) \<Rightarrow>
               if next_hop path = nid then b
               else case spawn_helper env b of (tmp, b) \<Rightarrow>
                 write_query env path nid (obj_id (store (sys b) tmp)) ''ConfigServ'' (config_query env) (register tmp b))"

section \<open>Proxies\<close>

text \<open>A node that sends handles of a third node is taken as a hop to that node.\<close>

definition offer_route :: "'b broker_env \<Rightarrow> node_id \<Rightarrow> node_id \<Rightarrow> 'b broker \<Rightarrow> 'b broker" where
  "offer_route env hop nid b =
     (if nid \<noteq> hop \<and> lookup_direct nid (tbl (inst b)) = invalid_connection_handle
      then case add_indirect hop nid (tbl (inst b)) of (added, t) \<Rightarrow>
             let b = on_inst (tbl_update (\<lambda>_. t)) b
             in if added then learned_new_node_indirectly env nid b else b
      else b)"

definition make_proxy :: "'b broker_env \<Rightarrow> node_id \<Rightarrow> actor_id \<Rightarrow> 'b broker \<Rightarrow> (ref option \<times> 'b broker) res" where
  "make_proxy env nid i b =
     (if nid = invalid_node_id \<or> i = invalid_actor_id then Inr (None, b)
      else bindR (this_ctx b) (\<lambda>c.
        case broker_lookup nid (offer_route env (ctx_id c) nid b) of
             (None, b) \<Rightarrow> Inr (None, b)
           | (Some path, b) \<Rightarrow>
               (case make_actor nid i (sys b) of (p, s) \<Rightarrow>
                  let b = b\<lparr>sys := attach_functor p (Drop_proxy nid p) s\<rparr>;
                      b = on_inst (write_announce_proxy (protocol env) (ctx_hdl c) nid i) b
                  in Inr (Some p, on_inst (flush path) b))))"

definition get_or_put :: "'b broker_env \<Rightarrow> node_id \<Rightarrow> actor_id \<Rightarrow> 'b broker \<Rightarrow> (ref option \<times> 'b broker) res" where
  "get_or_put env nid i b =
     (case map_of (submap_of nid (sys b)) i of
        Some (Some p) \<Rightarrow> Inr (Some p, b)
      | _ \<Rightarrow> bindR (make_proxy env nid i (on_sys (put_proxy nid i None) b)) (\<lambda>(r, b).
               Inr (r, on_sys (put_proxy nid i r) b)))"

section \<open>The calls of the instance\<close>

definition finalize_handshake :: "'b broker_env \<Rightarrow> node_id \<Rightarrow> actor_id \<Rightarrow> bytes set \<Rightarrow> 'b broker \<Rightarrow> 'b broker res" where
  "finalize_handshake env nid i sigs b =
     bindR (this_ctx b) (\<lambda>c.
       let b = set_ctx (the (this_context b)) (c\<lparr>ctx_id := nid\<rparr>) b
       in case callback c of
            None \<Rightarrow> Inr b
          | Some cb \<Rightarrow>
              bindR (if i = invalid_actor_id then Inr (None, b)
                     else if nid = me env then Inr (reg_get i (sys b), b)
                     else get_or_put env nid i b) (\<lambda>(ptr, b).
              bindR (this_ctx b) (\<lambda>c.
                Inr (broker_act [Answered cb (Connected nid ptr sigs)]
                  (set_ctx (the (this_context b)) (c\<lparr>callback := None\<rparr>) b)))))"

definition purge_state :: "node_id \<Rightarrow> 'b broker \<Rightarrow> 'b broker" where
  "purge_state nid b =
     (let h = lookup_direct nid (tbl (inst b))
      in if h = invalid_connection_handle then b
         else
           let b = (case ctxs b h of
                      None \<Rightarrow> b
                    | Some c \<Rightarrow>
                        let b = (case callback c of None \<Rightarrow> b
                                 | Some cb \<Rightarrow> broker_act [Answered cb (Failed Sec_disconnect_during_handshake)] b)
                        in b\<lparr>ctxs := (ctxs b)(h := None)\<rparr>)
           in on_sys (erase_proxies nid) b)"

definition send_kill_proxy_instance :: "'b broker_env \<Rightarrow> node_id \<Rightarrow> actor_id \<Rightarrow> error \<Rightarrow> 'b broker \<Rightarrow> 'b broker" where
  "send_kill_proxy_instance env nid i rsn b =
     (let rsn = (if \<not> is_error rsn then make_exit_error Unknown else rsn)
      in case broker_lookup nid b of
           (None, b) \<Rightarrow> b
         | (Some path, b) \<Rightarrow>
             on_inst (\<lambda>j. flush path (write_kill_proxy (protocol env) (hdl path) nid i rsn j)) b)"

text \<open>A functor that is attached to a finished actor runs at once, and so does what it dispatches.\<close>

definition proxy_announced :: "'b broker_env \<Rightarrow> node_id \<Rightarrow> actor_id \<Rightarrow> 'b broker \<Rightarrow> 'b broker" where
  "proxy_announced env nid i b =
     (case reg_get i (sys b) of
        None \<Rightarrow> send_kill_proxy_instance env nid i (make_exit_error Unknown) b
      | Some p \<Rightarrow>
          (case obj_end (store (sys b) p) of
             Some rsn \<Rightarrow> send_kill_proxy_instance env nid i rsn b
           | None \<Rightarrow> on_sys (attach_functor p (Announce_end nid i)) b))"

definition kill_proxy_call :: "node_id \<Rightarrow> actor_id \<Rightarrow> error \<Rightarrow> 'b broker \<Rightarrow> 'b broker" where
  "kill_proxy_call nid i rsn b = on_sys (erase_proxy nid i rsn) b"

definition bounce_request :: "ref option \<Rightarrow> message_id \<Rightarrow> 'b broker \<Rightarrow> 'b broker" where
  "bounce_request sender mid b =
     (case sender of None \<Rightarrow> b
      | Some p \<Rightarrow> if is_request mid then broker_act [Bounced p (response_id mid)] b else b)"

definition deliver_to ::
  "'b broker_env \<Rightarrow> node_id \<Rightarrow> actor_id \<Rightarrow> (system \<Rightarrow> ref option) \<Rightarrow> message_id \<Rightarrow> 'b \<Rightarrow> 'b broker \<Rightarrow> 'b broker res" where
  "deliver_to env src_nid src_aid dest mid body b =
     (let dst = dest (sys b)
      in bindR (if src_nid = me env then Inr (reg_get src_aid (sys b), b) else get_or_put env src_nid src_aid b) (\<lambda>(src, b).
         Inr (case dst of
                None \<Rightarrow> if mid_valid mid then bounce_request src mid b else b
              | Some p \<Rightarrow> broker_act [To_mailbox p src mid body] b)))"

fun broker_call :: "'b broker_env \<Rightarrow> ('b, error) call \<Rightarrow> 'b broker \<Rightarrow> 'b broker res" where
  "broker_call env (Finalize_handshake nid i sigs) b = finalize_handshake env nid i sigs b"
| "broker_call env (Purge_state nid) b = Inr (purge_state nid b)"
| "broker_call env (Proxy_announced nid i) b = Inr (proxy_announced env nid i b)"
| "broker_call env (Kill_proxy_call nid i rsn) b = Inr (kill_proxy_call nid i rsn b)"
| "broker_call env (Deliver nid i dest mid body) b = deliver_to env nid i (reg_get dest) mid body b"
| "broker_call env (Deliver_named nid i name mid body) b = deliver_to env nid i (name_get name) mid body b"
| "broker_call env (Learned_directly nid was) b = Inr (learned_new_node_directly env nid was b)"
| "broker_call env (Learned_indirectly nid) b = Inr (learned_new_node_indirectly env nid b)"
| "broker_call env (Flush_route k) b = Inr (on_inst (\<lambda>i. i\<lparr>flushes := flushes i @ [k]\<rparr>) b)"
| "broker_call env _ b = Inr b"      \<comment> \<open>heartbeats and hooks\<close>

section \<open>Messages of the multiplexer\<close>

datatype 'b broker_outcome = Threw load_error "'b broker" | Went_on "'b broker"

text \<open>
  The instance calls the broker while it handles the data. A connection is closed last, and its entries are
  erased from the table after the calls: so they see the table from before.
\<close>

definition run_calls :: "'b broker_env \<Rightarrow> ('b, error) basp \<Rightarrow> 'b broker \<Rightarrow> 'b broker res" where
  "run_calls env i b = foldR (broker_call env) (calls i) (b\<lparr>inst := i\<lparr>calls := []\<rparr>\<rparr>)"

definition on_new_data :: "'b broker_env \<Rightarrow> handle \<Rightarrow> bytes \<Rightarrow> 'b broker \<Rightarrow> 'b broker_outcome res" where
  "on_new_data env h buf b =
     (let b = set_context h b
      in bindR (ctx_at h b) (\<lambda>c.
         case basp_handle (protocol env) h buf (ctx_hdr c) (cstate c = Await_payload) (inst b) of (r, hdr, i) \<Rightarrow>
           let b = set_ctx h (c\<lparr>ctx_hdr := hdr\<rparr>) b
           in case r of
                Inl e \<Rightarrow> bindR (run_calls env i b) (\<lambda>b. Inr (Threw e b))
              | Inr Close_connection \<Rightarrow>
                  bindR (run_calls env (i\<lparr>tbl := tbl (inst b)\<rparr>) b) (\<lambda>b.
                  let b = on_inst (tbl_update (erase_direct h)) b
                  in bindR (ctx_at h b) (\<lambda>c.
                     let b = (case callback c of None \<Rightarrow> b
                              | Some cb \<Rightarrow> broker_act [Answered cb (Connected invalid_node_id None {})] b)
                     in Inr (Went_on (broker_act [Closed h] (b\<lparr>ctxs := (ctxs b)(h := None)\<rparr>)))))
              | Inr next \<Rightarrow>
                  bindR (run_calls env i b) (\<lambda>b.
                  bindR (ctx_at h b) (\<lambda>c.
                    Inr (Went_on
                      (if next = cstate c then b
                       else set_ctx h (c\<lparr>cstate := next\<rparr>)
                         (broker_act [Read_exactly h (if next = Await_payload then unat (payload_len (ctx_hdr c)) else header_size)] b)))))))"

definition on_new_connection :: "'b broker_env \<Rightarrow> handle \<Rightarrow> u16 \<Rightarrow> 'b broker \<Rightarrow> 'b broker" where
  "on_new_connection env h port b =
     broker_act [Read_exactly h header_size]
       (on_inst (\<lambda>i. (write_server_handshake (protocol env) h (Some port) i)\<lparr>flushes := flushes i @ [h]\<rparr>) b)"

definition on_connection_closed :: "'b broker_env \<Rightarrow> handle \<Rightarrow> 'b broker \<Rightarrow> 'b broker res" where
  "on_connection_closed env h b =
     (let nid = lookup_node h (tbl (inst b));
          i = handle_node_shutdown nid (inst b)
      in bindR (run_calls env (i\<lparr>tbl := tbl (inst b)\<rparr>) b) (\<lambda>b. Inr (on_inst (tbl_update (\<lambda>_. tbl i)) b)))"

definition on_acceptor_closed :: "u16 \<Rightarrow> 'b broker \<Rightarrow> 'b broker" where
  "on_acceptor_closed port b = on_inst (\<lambda>i. snd (snd (remove_published_port port i))) b"

section \<open>Messages of proxies and of the middleman\<close>

definition silent :: "('b, error) basp \<Rightarrow> 'b broker \<Rightarrow> 'b broker" where
  "silent i b = b\<lparr>inst := i\<lparr>calls := []\<rparr>\<rparr>"

definition on_forward :: "'b broker_env \<Rightarrow> ref option \<Rightarrow> ref option \<Rightarrow> message_id \<Rightarrow> 'b \<Rightarrow> 'b broker \<Rightarrow> 'b broker" where
  "on_forward env src dest mid body b =
     (case dest of
        None \<Rightarrow> b
      | Some d \<Rightarrow>
          let ob = store (sys b)
          in if obj_node (ob d) = me env then b
             else
               let b = (case src of Some p \<Rightarrow> if obj_node (ob p) = me env then register p b else b | None \<Rightarrow> b);
                   sender = map_option (\<lambda>p. (obj_node (ob p), obj_id (ob p))) src
               in case dispatch (protocol env) sender (obj_node (ob d)) (obj_id (ob d)) mid body (inst b) of (ok, i) \<Rightarrow>
                    let b = silent i b in if \<not> ok \<and> is_request mid then bounce_request src mid b else b)"

definition on_forward_named ::
  "'b broker_env \<Rightarrow> ref option \<Rightarrow> node_id \<Rightarrow> u64 \<Rightarrow> 'b \<Rightarrow> 'b broker \<Rightarrow> (sec + unit) \<times> 'b broker" where
  "on_forward_named env src dest_nid dest_name body b =
     (case src of
        None \<Rightarrow> (Inl Sec_cannot_forward_to_invalid_actor, b)
      | Some p \<Rightarrow>
          (case broker_lookup dest_nid b of
             (None, b) \<Rightarrow> (Inl Sec_no_route_to_receiving_node, b)
           | (Some path, b) \<Rightarrow>
               let b = (if obj_node (store (sys b) p) = me env then register p b else b);
                   hdr = query_header (me env) dest_nid (obj_id (store (sys b) p))
               in (Inr (), on_inst (\<lambda>i. flush path (write_to (hdl path) hdr (Some (save_named env dest_name body)) i)) b)))"

definition on_publish ::
  "handle \<Rightarrow> bool \<Rightarrow> u16 \<Rightarrow> ref option \<Rightarrow> bytes set \<Rightarrow> 'b broker \<Rightarrow> 'b broker" where
  "on_publish h assigned port whom sigs b =
     (if h = invalid_connection_handle \<or> \<not> assigned then b
      else
        let b = (case whom of None \<Rightarrow> b | Some p \<Rightarrow> register p b)
        in silent (add_published_actor port (map_option (\<lambda>p. obj_id (store (sys b) p)) whom) sigs (inst b)) b)"

text \<open>An entry that is there keeps its header and node.\<close>

definition on_connect :: "handle \<Rightarrow> u16 \<Rightarrow> bool \<Rightarrow> promise_id \<Rightarrow> 'b broker \<Rightarrow> 'b broker" where
  "on_connect h port assigned rp b =
     (if \<not> assigned then broker_act [Answered rp (Failed Sec_failed_to_assign_scribe_from_handle)] b
      else
        let c = (case ctxs b h of Some c \<Rightarrow> c
                 | None \<Rightarrow> \<lparr>cstate = Await_header, ctx_hdr = header_init, ctx_hdl = h, ctx_id = invalid_node_id,
                     remote_port = 0, callback = None\<rparr>)
        in broker_act [Assigned_scribe h, Read_exactly h header_size]
             (set_ctx h (c\<lparr>ctx_hdl := h, remote_port := port, cstate := Await_header, callback := Some rp\<rparr>) b))"

definition on_delete :: "node_id \<Rightarrow> actor_id \<Rightarrow> 'b broker \<Rightarrow> 'b broker" where
  "on_delete nid i b = on_sys (erase_proxy nid i link_lost) b"

definition on_unpublish :: "actor_id option \<Rightarrow> u16 \<Rightarrow> 'b broker \<Rightarrow> (sec + unit) \<times> 'b broker" where
  "on_unpublish whom port b =
     (case remove_published_actor whom port (inst b) of (n, removed, i) \<Rightarrow>
        (if n = 0 then Inl Sec_no_actor_published_at_port else Inr (),
         broker_act (map (\<lambda>(_, p). Closed_port p) removed) (b\<lparr>inst := i\<rparr>)))"

definition on_close :: "u16 \<Rightarrow> bool \<Rightarrow> 'b broker \<Rightarrow> (sec + unit) \<times> 'b broker" where
  "on_close port has_doorman b =
     (if port = 0 then (Inl Sec_cannot_close_invalid_port, b)
      else
        let b = on_inst (\<lambda>i. snd (snd (remove_published_port port i))) b
        in if has_doorman then (Inr (), broker_act [Closed_port port] b) else (Inl Sec_cannot_close_invalid_port, b))"

definition on_spawn :: "node_id \<Rightarrow> promise_id \<Rightarrow> 'b broker \<Rightarrow> 'b broker" where
  "on_spawn nid rp b =
     (case spawn_servers b nid of
        None \<Rightarrow> broker_act [Answered rp (Failed Sec_no_route_to_receiving_node)] b
      | Some p \<Rightarrow> broker_act [Answered rp (Delegated p)] b)"

definition on_get :: "node_id \<Rightarrow> 'b broker \<Rightarrow> node_id \<times> handle option" where
  "on_get nid b =
     (let h = lookup_direct nid (tbl (inst b)) in (nid, if h \<noteq> invalid_connection_handle then Some h else None))"

definition on_tick :: "'b broker_env \<Rightarrow> (handle \<times> node_id) list \<Rightarrow> nat \<Rightarrow> 'b broker \<Rightarrow> 'b broker" where
  "on_tick env kvps interval b = broker_act [Tick_scheduled interval] (on_inst (handle_heartbeat (protocol env) kvps) b)"

section \<open>What functors have posted\<close>

definition run_task :: "'b broker_env \<Rightarrow> task \<Rightarrow> 'b broker \<Rightarrow> 'b broker" where
  "run_task env t b =
     (if broker_terminated b then b
      else case t of
             Erase_proxy_task nid i rsn \<Rightarrow> on_sys (erase_proxy nid i rsn) b
           | Kill_proxy_task nid i rsn \<Rightarrow> send_kill_proxy_instance env nid i rsn b)"

definition run_posted :: "'b broker_env \<Rightarrow> 'b broker \<Rightarrow> 'b broker" where
  "run_posted env b =
     (case posted (sys b) of [] \<Rightarrow> b | t # ts \<Rightarrow> run_task env t (on_sys (posted_update (\<lambda>_. ts)) b))"

section \<open>The behavior of the broker\<close>

datatype 'b broker_event =
    Data handle bytes
  | New_connection handle u16
  | Connection_closed handle
  | Acceptor_closed u16
  | Forward_msg "ref option" "ref option" message_id 'b
  | Forward_named "ref option" node_id u64 'b
  | Publish handle bool u16 "ref option" "bytes set"
  | Connect handle u16 bool promise_id
  | Delete_proxy node_id actor_id
  | Unpublish "actor_id option" u16
  | Close_port u16 bool
  | Spawn_remote node_id promise_id
  | Tick "(handle \<times> node_id) list" nat
  | Run_posted
  | Actor_started                 \<comment> \<open>elsewhere in the process\<close>
  | Actor_ended ref error

text \<open>An exception that nobody catches ends the broker.\<close>

fun broker_step :: "'b broker_env \<Rightarrow> 'b broker_event \<Rightarrow> 'b broker \<Rightarrow> 'b broker res" where
  "broker_step env (Data h buf) b =
     bindR (on_new_data env h buf b) (\<lambda>r. Inr (case r of Went_on b \<Rightarrow> b | Threw e b \<Rightarrow> b\<lparr>broker_terminated := True\<rparr>))"
| "broker_step env (New_connection h port) b = Inr (on_new_connection env h port b)"
| "broker_step env (Connection_closed h) b = on_connection_closed env h b"
| "broker_step env (Acceptor_closed port) b = Inr (on_acceptor_closed port b)"
| "broker_step env (Forward_msg src dest mid body) b = Inr (on_forward env src dest mid body b)"
| "broker_step env (Forward_named src nid name body) b = Inr (snd (on_forward_named env src nid name body b))"
| "broker_step env (Publish h assigned port whom sigs) b = Inr (on_publish h assigned port whom sigs b)"
| "broker_step env (Connect h port assigned rp) b = Inr (on_connect h port assigned rp b)"
| "broker_step env (Delete_proxy nid i) b = Inr (on_delete nid i b)"
| "broker_step env (Unpublish whom port) b = Inr (snd (on_unpublish whom port b))"
| "broker_step env (Close_port port has_doorman) b = Inr (snd (on_close port has_doorman b))"
| "broker_step env (Spawn_remote nid rp) b = Inr (on_spawn nid rp b)"
| "broker_step env (Tick kvps interval) b = Inr (on_tick env kvps interval b)"
| "broker_step env Run_posted b = Inr (run_posted env b)"
| "broker_step env Actor_started b = Inr (snd (spawn_helper env b))"
| "broker_step env (Actor_ended p rsn) b = Inr (on_sys (finish p rsn) b)"

definition broker_init :: "'b broker" where
  "broker_init = \<lparr>inst = \<lparr>tbl = routing_table_new, published_actors = [], wr_buf = (\<lambda>_. []), flushes = [], calls = []\<rparr>,
     ctxs = Map.empty, this_context = None, spawn_servers = Map.empty, enable_automatic_connections = False,
     sys = \<lparr>store = (\<lambda>_. \<lparr>obj_node = invalid_node_id, obj_id = 0, obj_end = None, obj_functors = []\<rparr>), next_ref = 0, last_id = 0,
       id_entries = Map.empty, named_entries = Map.empty, proxies = [], posted = []\<rparr>,
     broker_terminated = False, actions = []\<rparr>"

end
