(* ===== verification/BrokerHelpers.thy ===== *)
theory BrokerHelpers
  imports BaspBroker
begin

text \<open>
  The helper actors of the broker (libcaf_io/src/basp_broker.cpp): one for each node that is learned, which asks
  for its spawn server and passes requests to spawn on to it, and one for each node that is learned over
  another, which asks how to connect to it directly and opens a connection. Each is its state and a function on
  the messages that it handles, in the order in which they come.
\<close>

section \<open>The spawn server helper\<close>

datatype spawn_msg =
    Info_reply "ref option"          \<comment> \<open>\<open>ok, "info", config_serv, name\<close>\<close>
  | Spawn_request promise_id
  | Spawn_timeout                    \<comment> \<open>five minutes without a message that matches\<close>
  | Server_down error
  | Other_msg promise_id

datatype default_handler = Skip | Print_and_drop

record spawn_helper_state =
  spawn_default :: default_handler
  spawn_server :: "ref option"          \<comment> \<open>after \<open>become\<close>\<close>
  spawn_skipped :: "spawn_msg list"
  spawn_quit :: "error option"

datatype helper_action =
    Monitored ref
  | Delegated_spawn ref promise_id      \<comment> \<open>\<open>get, type, args\<close>\<close>
  | Dropped promise_id
  | Connect_sent handle u16

definition spawn_helper_new :: spawn_helper_state where
  "spawn_helper_new = \<lparr>spawn_default = Skip, spawn_server = None, spawn_skipped = [], spawn_quit = None\<rparr>"

definition unmatched :: "spawn_msg \<Rightarrow> promise_id \<Rightarrow> spawn_helper_state \<Rightarrow> helper_action list \<times> spawn_helper_state" where
  "unmatched m p s =
     (case spawn_default s of
        Skip \<Rightarrow> ([], s\<lparr>spawn_skipped := spawn_skipped s @ [m]\<rparr>)
      | Print_and_drop \<Rightarrow> ([Dropped p], s))"

text \<open>The first behavior has the reply and the timeout, the second one the request.\<close>

fun spawn_helper_handle :: "spawn_msg \<Rightarrow> spawn_helper_state \<Rightarrow> helper_action list \<times> spawn_helper_state" where
  "spawn_helper_handle (Server_down rsn) s = ([], s\<lparr>spawn_quit := Some rsn\<rparr>)"
| "spawn_helper_handle Spawn_timeout s =
     (if spawn_server s = None then ([], s\<lparr>spawn_quit := Some (make_exit_error Exit_normal)\<rparr>) else ([], s))"
| "spawn_helper_handle (Info_reply config_serv) s =
     (case spawn_server s of
        Some _ \<Rightarrow> unmatched (Info_reply config_serv) 0 s
      | None \<Rightarrow>
          let s = s\<lparr>spawn_default := Print_and_drop\<rparr>
          in case config_serv of
               None \<Rightarrow> ([], s)
             | Some p \<Rightarrow> ([Monitored p], s\<lparr>spawn_server := Some p\<rparr>))"
| "spawn_helper_handle (Spawn_request p) s =
     (case spawn_server s of
        Some serv \<Rightarrow> ([Delegated_spawn serv p], s)
      | None \<Rightarrow> unmatched (Spawn_request p) p s)"
| "spawn_helper_handle (Other_msg p) s = unmatched (Other_msg p) p s"

text \<open>After a message that changes the behavior the skipped ones are handled again, in order.\<close>

definition replays :: "spawn_msg \<Rightarrow> spawn_helper_state \<Rightarrow> bool" where
  "replays m s \<longleftrightarrow> (case m of Info_reply _ \<Rightarrow> spawn_server s = None | _ \<Rightarrow> False)"

fun spawn_helper_run :: "spawn_msg list \<Rightarrow> spawn_helper_state \<Rightarrow> helper_action list \<times> spawn_helper_state" where
  "spawn_helper_run [] s = ([], s)"
| "spawn_helper_run (m # ms) s =
     (if spawn_quit s \<noteq> None then ([], s)
      else case spawn_helper_handle m s of (as, s) \<Rightarrow> case spawn_helper_run ms s of (bs, s) \<Rightarrow> (as @ bs, s))"

definition spawn_helper_step :: "spawn_msg \<Rightarrow> spawn_helper_state \<Rightarrow> helper_action list \<times> spawn_helper_state" where
  "spawn_helper_step m s =
     (if spawn_quit s \<noteq> None then ([], s)
      else case spawn_helper_handle m s of (as, s') \<Rightarrow>
        if replays m s
        then case spawn_helper_run (spawn_skipped s') (s'\<lparr>spawn_skipped := []\<rparr>) of (bs, s'') \<Rightarrow> (as @ bs, s'')
        else (as, s'))"

fun spawn_helper_steps :: "spawn_msg list \<Rightarrow> spawn_helper_state \<Rightarrow> helper_action list \<times> spawn_helper_state" where
  "spawn_helper_steps [] s = ([], s)"
| "spawn_helper_steps (m # ms) s =
     (case spawn_helper_step m s of (as, s) \<Rightarrow> case spawn_helper_steps ms s of (bs, s) \<Rightarrow> (as @ bs, s))"

section \<open>The connection helper\<close>

datatype net_protocol = Ethernet | Ipv4 | Ipv6

text \<open>Opening a connection to an address and a port: a handle, or nothing. The addresses come by protocol.\<close>

fun first_reachable :: "(string \<Rightarrow> u16 \<Rightarrow> handle option) \<Rightarrow> u16 \<Rightarrow> string list \<Rightarrow> handle option" where
  "first_reachable new_scribe port [] = None"
| "first_reachable new_scribe port (a # as) =
     (case new_scribe a port of Some h \<Rightarrow> Some h | None \<Rightarrow> first_reachable new_scribe port as)"

fun try_addresses ::
  "(string \<Rightarrow> u16 \<Rightarrow> handle option) \<Rightarrow> u16 \<Rightarrow> (net_protocol \<times> string list) list \<Rightarrow> helper_action list" where
  "try_addresses new_scribe port [] = []"
| "try_addresses new_scribe port ((proto, as) # kvps) =
     (if proto \<noteq> Ethernet
      then case first_reachable new_scribe port as of
             Some h \<Rightarrow> [Connect_sent h port]
           | None \<Rightarrow> try_addresses new_scribe port kvps
      else try_addresses new_scribe port kvps)"

datatype config_msg =
    Config_reply "(u16 \<times> (net_protocol \<times> string list) list) option"     \<comment> \<open>if the content matches\<close>
  | Config_timeout
  | Broker_down error

text \<open>The helper, which is its reason to quit.\<close>

fun connection_helper_handle ::
  "(string \<Rightarrow> u16 \<Rightarrow> handle option) \<Rightarrow> config_msg \<Rightarrow> error option \<Rightarrow> helper_action list \<times> error option" where
  "connection_helper_handle new_scribe m (Some e) = ([], Some e)"
| "connection_helper_handle new_scribe (Config_reply r) None =
     (case r of None \<Rightarrow> [] | Some (port, addresses) \<Rightarrow> try_addresses new_scribe port addresses,
      Some (make_exit_error Exit_normal))"
| "connection_helper_handle new_scribe Config_timeout None = ([], Some (make_exit_error User_shutdown))"
| "connection_helper_handle new_scribe (Broker_down rsn) None = ([], Some rsn)"

section \<open>What they do\<close>

lemma first_reachable_append:
  "first_reachable f port (xs @ ys) = (case first_reachable f port xs of Some h \<Rightarrow> Some h | None \<Rightarrow> first_reachable f port ys)"
  by (induction xs) (simp_all split: option.split)

text \<open>The addresses are tried in order, those of the network cards left out, until one can be connected.\<close>

lemma try_addresses_eq:
  "try_addresses f port kvps =
     (case first_reachable f port (concat (map snd (filter (\<lambda>(p, _). p \<noteq> Ethernet) kvps))) of
        None \<Rightarrow> [] | Some h \<Rightarrow> [Connect_sent h port])"
  by (induction f port kvps rule: try_addresses.induct) (auto simp: first_reachable_append split: option.split)

text \<open>At most one connection is opened, whatever the answers are.\<close>

lemma connects_once:
  "length (fst (connection_helper_handle f m e)) \<le> 1
   \<and> (fst (connection_helper_handle f m e) \<noteq> [] \<longrightarrow> e = None \<and> snd (connection_helper_handle f m e) \<noteq> None)"
  by (cases e; cases m) (auto simp: try_addresses_eq split: option.splits)

definition spawn_requests :: "spawn_msg list \<Rightarrow> promise_id list" where
  "spawn_requests ms = concat (map (\<lambda>m. case m of Spawn_request p \<Rightarrow> [p] | _ \<Rightarrow> []) ms)"

fun waiting_msg :: "spawn_msg \<Rightarrow> bool" where
  "waiting_msg (Spawn_request _) = True"
| "waiting_msg (Other_msg _) = True"
| "waiting_msg _ = False"

definition delegated_spawns :: "helper_action list \<Rightarrow> promise_id list" where
  "delegated_spawns as = concat (map (\<lambda>a. case a of Delegated_spawn _ p \<Rightarrow> [p] | _ \<Rightarrow> []) as)"

lemma waiting_steps:
  assumes "list_all waiting_msg ms" and "spawn_server s = None" "spawn_default s = Skip" "spawn_quit s = None"
  shows "spawn_helper_steps ms s = ([], s\<lparr>spawn_skipped := spawn_skipped s @ ms\<rparr>)"
  using assms
proof (induction ms arbitrary: s)
  case (Cons m ms)
  then have "spawn_helper_step m s = ([], s\<lparr>spawn_skipped := spawn_skipped s @ [m]\<rparr>)"
    by (cases m) (simp_all add: spawn_helper_step_def unmatched_def replays_def)
  with Cons show ?case by simp
qed simp

lemma serving_run:
  assumes "list_all waiting_msg ms" and "spawn_server s = Some p" "spawn_default s = Print_and_drop" "spawn_quit s = None"
  shows "snd (spawn_helper_run ms s) = s \<and> delegated_spawns (fst (spawn_helper_run ms s)) = spawn_requests ms"
  using assms(1)
proof (induction ms)
  case (Cons m ms)
  then show ?case using assms(2-4)
    by (cases m) (auto simp: unmatched_def delegated_spawns_def spawn_requests_def split: prod.splits)
qed (simp add: delegated_spawns_def spawn_requests_def)

lemma delegated_append: "delegated_spawns (xs @ ys) = delegated_spawns xs @ delegated_spawns ys"
  by (simp add: delegated_spawns_def)

lemma serving_steps:
  assumes "list_all waiting_msg ms" and "spawn_server s = Some p" "spawn_default s = Print_and_drop" "spawn_quit s = None"
  shows "delegated_spawns (fst (spawn_helper_steps ms s)) = spawn_requests ms"
  using assms(1)
proof (induction ms)
  case (Cons m ms)
  then show ?case using assms(2-4)
    by (cases m) (auto simp: spawn_helper_step_def replays_def unmatched_def delegated_spawns_def spawn_requests_def
        split: prod.splits)
qed (simp add: delegated_spawns_def spawn_requests_def)

lemma spawn_helper_steps_append:
  "spawn_helper_steps (xs @ ys) s = (case spawn_helper_steps xs s of (as, s) \<Rightarrow>
     case spawn_helper_steps ys s of (bs, s) \<Rightarrow> (as @ bs, s))"
  by (induction xs arbitrary: s) (simp_all add: case_prod_unfold)

text \<open>
  No request to spawn is lost while the helper waits for the spawn server: once the reply is there, the
  requests from before and after it are all passed on, in their order.
\<close>

theorem spawn_requests_kept:
  assumes "list_all waiting_msg ms" and "list_all waiting_msg ms'"
  shows "delegated_spawns (fst (spawn_helper_steps (ms @ Info_reply (Some p) # ms') spawn_helper_new))
    = spawn_requests ms @ spawn_requests ms'"
proof -
  let ?s = "spawn_helper_new\<lparr>spawn_skipped := ms\<rparr>"
  let ?t = "spawn_helper_new\<lparr>spawn_default := Print_and_drop, spawn_server := Some p\<rparr>"
  have t: "spawn_server ?t = Some p" "spawn_default ?t = Print_and_drop" "spawn_quit ?t = None"
    by (simp_all add: spawn_helper_new_def)
  have w: "spawn_helper_steps ms spawn_helper_new = ([], ?s)"
    using waiting_steps [OF assms(1), of spawn_helper_new] by (simp add: spawn_helper_new_def)
  have st: "spawn_helper_step (Info_reply (Some p)) ?s = (Monitored p # fst (spawn_helper_run ms ?t), ?t)"
    using serving_run [OF assms(1) t]
    by (simp add: spawn_helper_step_def replays_def case_prod_unfold) (simp add: spawn_helper_new_def)
  show ?thesis
    using serving_run [OF assms(1) t] serving_steps [OF assms(2) t]
    by (simp add: spawn_helper_steps_append w st case_prod_unfold delegated_append)
      (simp add: delegated_spawns_def)
qed

lemma spawn_requests_kept_witness:
  "delegated_spawns (fst (spawn_helper_steps [Spawn_request 3, Info_reply (Some 9), Spawn_request 4] spawn_helper_new)) = [3, 4]"
  using spawn_requests_kept [of "[Spawn_request 3]" "[Spawn_request 4]" 9] by (simp add: spawn_requests_def)

end
