(* ===== verification/BrokerLemmas.thy ===== *)
theory BrokerLemmas
  imports BaspBroker BaspProperties
begin

text \<open>
  Lemmas on the broker (BaspBroker): what its operations leave alone, the run of a broker as a relation over
  its events, and the invariants of a run: the tables of actors are well-formed, and every request to connect
  is answered at most once.
\<close>

section \<open>What the operations leave alone\<close>

lemma on_inst_frame [simp]:
  "ctxs (on_inst f b) = ctxs b" "this_context (on_inst f b) = this_context b" "actions (on_inst f b) = actions b"
  "sys (on_inst f b) = sys b" "spawn_servers (on_inst f b) = spawn_servers b" "inst (on_inst f b) = f (inst b)"
  "broker_terminated (on_inst f b) = broker_terminated b"
  "enable_automatic_connections (on_inst f b) = enable_automatic_connections b"
  by (simp_all add: on_inst_def)

lemma on_sys_frame [simp]:
  "ctxs (on_sys g b) = ctxs b" "this_context (on_sys g b) = this_context b" "actions (on_sys g b) = actions b"
  "sys (on_sys g b) = g (sys b)" "spawn_servers (on_sys g b) = spawn_servers b" "inst (on_sys g b) = inst b"
  "broker_terminated (on_sys g b) = broker_terminated b"
  "enable_automatic_connections (on_sys g b) = enable_automatic_connections b"
  by (simp_all add: on_sys_def)

lemma broker_act_frame [simp]:
  "ctxs (broker_act xs b) = ctxs b" "this_context (broker_act xs b) = this_context b"
  "actions (broker_act xs b) = actions b @ xs" "sys (broker_act xs b) = sys b"
  "spawn_servers (broker_act xs b) = spawn_servers b" "inst (broker_act xs b) = inst b"
  "enable_automatic_connections (broker_act xs b) = enable_automatic_connections b"
  "broker_terminated (broker_act xs b) = broker_terminated b"
  by (simp_all add: broker_act_def)

lemma set_ctx_frame [simp]:
  "ctxs (set_ctx h c b) = (ctxs b)(h \<mapsto> c)" "this_context (set_ctx h c b) = this_context b"
  "actions (set_ctx h c b) = actions b" "sys (set_ctx h c b) = sys b"
  "spawn_servers (set_ctx h c b) = spawn_servers b" "inst (set_ctx h c b) = inst b"
  "enable_automatic_connections (set_ctx h c b) = enable_automatic_connections b"
  "broker_terminated (set_ctx h c b) = broker_terminated b"
  by (simp_all add: set_ctx_def)

lemma broker_lookup_eq: "broker_lookup nid b =
    (fst (lookup nid (tbl (inst b))), on_inst (\<lambda>i. i\<lparr>tbl := snd (lookup nid (tbl i))\<rparr>) b)"
  by (simp add: broker_lookup_def basp_lookup_def on_inst_def case_prod_unfold)

lemma register_frame [simp]:
  "ctxs (register p b) = ctxs b" "this_context (register p b) = this_context b" "actions (register p b) = actions b"
  "inst (register p b) = inst b" "spawn_servers (register p b) = spawn_servers b"
  "sys (register p b) = reg_put (obj_id (store (sys b) p)) (Some p) (sys b)"
  "enable_automatic_connections (register p b) = enable_automatic_connections b"
  "broker_terminated (register p b) = broker_terminated b"
  by (simp_all add: register_def)

lemma write_query_frame [simp]:
  "ctxs (write_query env path nid i name body b) = ctxs b"
  "this_context (write_query env path nid i name body b) = this_context b"
  "actions (write_query env path nid i name body b) = actions b" "sys (write_query env path nid i name body b) = sys b"
  "spawn_servers (write_query env path nid i name body b) = spawn_servers b"
  "enable_automatic_connections (write_query env path nid i name body b) = enable_automatic_connections b"
  "broker_terminated (write_query env path nid i name body b) = broker_terminated b"
  by (simp_all add: write_query_def)

lemma spawn_helper_eq: "spawn_helper env b =
    (next_ref (sys b), on_sys (\<lambda>s. snd (make_actor (me env) (last_id s + 1) (s\<lparr>last_id := last_id s + 1\<rparr>))) b)"
  by (simp add: spawn_helper_def next_actor_id_def make_actor_def on_sys_def Let_def)

lemma learned_new_node_frame [simp]:
  "ctxs (learned_new_node env nid b) = ctxs b" "this_context (learned_new_node env nid b) = this_context b"
  "actions (learned_new_node env nid b) = actions b"
  "enable_automatic_connections (learned_new_node env nid b) = enable_automatic_connections b"
  "broker_terminated (learned_new_node env nid b) = broker_terminated b"
  by (simp_all add: learned_new_node_def spawn_helper_eq broker_lookup_eq Let_def split: option.split)

lemma learned_directly_frame [simp]:
  "ctxs (learned_new_node_directly env nid was b) = ctxs b"
  "this_context (learned_new_node_directly env nid was b) = this_context b"
  "actions (learned_new_node_directly env nid was b) = actions b"
  "broker_terminated (learned_new_node_directly env nid was b) = broker_terminated b"
  by (simp_all add: learned_new_node_directly_def)

lemma learned_indirectly_frame [simp]:
  "ctxs (learned_new_node_indirectly env nid b) = ctxs b"
  "this_context (learned_new_node_indirectly env nid b) = this_context b"
  "actions (learned_new_node_indirectly env nid b) = actions b"
  "broker_terminated (learned_new_node_indirectly env nid b) = broker_terminated b"
  by (simp_all add: learned_new_node_indirectly_def spawn_helper_eq broker_lookup_eq Let_def split: option.split)

lemma send_kill_frame [simp]:
  "ctxs (send_kill_proxy_instance env nid i rsn b) = ctxs b"
  "this_context (send_kill_proxy_instance env nid i rsn b) = this_context b"
  "actions (send_kill_proxy_instance env nid i rsn b) = actions b"
  "sys (send_kill_proxy_instance env nid i rsn b) = sys b"
  by (simp_all add: send_kill_proxy_instance_def broker_lookup_eq Let_def split: option.split)

lemma proxy_announced_frame [simp]:
  "ctxs (proxy_announced env nid i b) = ctxs b" "this_context (proxy_announced env nid i b) = this_context b"
  "actions (proxy_announced env nid i b) = actions b"
  by (simp_all add: proxy_announced_def split: option.split)

lemma offer_route_frame [simp]:
  "ctxs (offer_route env hop nid b) = ctxs b" "this_context (offer_route env hop nid b) = this_context b"
  "actions (offer_route env hop nid b) = actions b"
  "broker_terminated (offer_route env hop nid b) = broker_terminated b"
  by (simp_all add: offer_route_def case_prod_unfold Let_def)

lemma make_proxy_frame:
  assumes "make_proxy env nid i b = Inr (r, b')"
  shows "ctxs b' = ctxs b" "this_context b' = this_context b" "actions b' = actions b"
    "broker_terminated b' = broker_terminated b"
  using assms
  by (auto simp: make_proxy_def res_simps broker_lookup_eq Let_def case_prod_unfold split: if_splits option.splits)

lemma get_or_put_frame:
  assumes "get_or_put env nid i b = Inr (r, b')"
  shows "ctxs b' = ctxs b" "this_context b' = this_context b" "actions b' = actions b"
    "broker_terminated b' = broker_terminated b"
  using assms
  by (auto simp: get_or_put_def res_simps dest: make_proxy_frame split: option.splits)

section \<open>The tables of actors\<close>

definition broker_wf :: "'b broker \<Rightarrow> bool" where "broker_wf b \<longleftrightarrow> sys_wf (sys b)"

lemma sys_wf_last_id [simp]: "sys_wf (last_id_update f s) \<longleftrightarrow> sys_wf s"
  by (simp add: sys_wf_def entries_wf_def proxies_wf_def proxy_at_def submap_of_def)

lemma sys_wf_posted [simp]: "sys_wf (posted_update f s) \<longleftrightarrow> sys_wf s"
  by (simp add: sys_wf_def entries_wf_def proxies_wf_def proxy_at_def submap_of_def)

lemma spawned_wf:
  "sys_wf s \<Longrightarrow> sys_wf (reg_put i (Some (next_ref s)) (snd (make_actor n i (s\<lparr>last_id := k\<rparr>))))"
  by (intro reg_put_wf make_actor_wf) (simp_all add: make_actor_def)

lemma learned_new_node_wf: "broker_wf b \<Longrightarrow> broker_wf (learned_new_node env nid b)"
  using spawned_wf [of "sys b"]
  by (auto simp: broker_wf_def learned_new_node_def spawn_helper_eq broker_lookup_eq Let_def make_actor_def split: option.split)

lemma learned_indirectly_wf: "broker_wf b \<Longrightarrow> broker_wf (learned_new_node_indirectly env nid b)"
  using spawned_wf [of "sys (learned_new_node env nid b)"] learned_new_node_wf [of b env nid]
  by (auto simp: broker_wf_def learned_new_node_indirectly_def spawn_helper_eq broker_lookup_eq Let_def make_actor_def
      split: option.split)

lemma offer_route_wf: "broker_wf b \<Longrightarrow> broker_wf (offer_route env hop nid b)"
  using learned_indirectly_wf [of "on_inst (tbl_update (\<lambda>_. snd (add_indirect hop nid (tbl (inst b))))) b"]
  by (simp add: offer_route_def case_prod_unfold Let_def broker_wf_def)

lemma make_proxy_new:
  assumes "make_proxy env nid i b = Inr (Some p, b')" and "broker_wf b"
  shows "broker_wf b' \<and> p < next_ref (sys b') \<and> obj_node (store (sys b') p) = nid \<and> obj_id (store (sys b') p) = i
    \<and> obj_end (store (sys b') p) = None"
proof -
  obtain c where c: "this_ctx b = Inr c"
    using assms(1) by (auto simp: make_proxy_def res_simps split: if_splits)
  define b1 where "b1 = offer_route env (ctx_id c) nid b"
  have b1: "broker_wf b1" "p = next_ref (sys b1)" "sys b' = attach_functor p (Drop_proxy nid p) (snd (make_actor nid i (sys b1)))"
    using assms offer_route_wf [of b] c unfolding b1_def
    by (auto simp: make_proxy_def broker_lookup_eq Let_def case_prod_unfold make_actor_def split: if_splits option.splits)
  then have "sys_wf (sys b')" using make_actor_wf attach_functor_wf by (auto simp: broker_wf_def)
  with b1 show ?thesis by (simp add: broker_wf_def attach_store) (simp add: make_actor_def)
qed

lemma make_proxy_wf: "make_proxy env nid i b = Inr (r, b') \<Longrightarrow> broker_wf b \<Longrightarrow> broker_wf b'"
proof (cases r)
  case None
  then show "make_proxy env nid i b = Inr (r, b') \<Longrightarrow> broker_wf b \<Longrightarrow> broker_wf b'"
    using offer_route_wf [of b]
    by (auto simp: make_proxy_def res_simps broker_lookup_eq Let_def case_prod_unfold make_actor_def broker_wf_def
        split: if_splits option.splits)
qed (use make_proxy_new in blast)

lemma get_or_put_wf:
  assumes "get_or_put env nid i b = Inr (r, b')" and "broker_wf b"
  shows "broker_wf b' \<and> (\<forall>p. r = Some p \<longrightarrow> proxy_at nid i (sys b') = Some p)"
proof (cases "\<exists>p. map_of (submap_of nid (sys b)) i = Some (Some p)")
  case True
  with assms show ?thesis by (auto simp: get_or_put_def proxy_at_def)
next
  case False
  let ?b = "on_sys (put_proxy nid i None) b"
  obtain b1 where b1: "make_proxy env nid i ?b = Inr (r, b1)" "b' = on_sys (put_proxy nid i r) b1"
    using assms(1) False by (auto simp: get_or_put_def res_simps split: option.splits)
  have w: "broker_wf ?b" using assms(2) by (auto simp: broker_wf_def intro: put_proxy_wf)
  show ?thesis
  proof (cases r)
    case None
    with make_proxy_wf [OF b1(1) w] show ?thesis by (auto simp: b1(2) broker_wf_def intro: put_proxy_wf)
  next
    case (Some p)
    with make_proxy_new [OF b1(1) [unfolded Some] w] show ?thesis
      by (auto simp: b1(2) broker_wf_def intro: put_proxy_wf)
  qed
qed

section \<open>Runs\<close>

definition answers :: "'b broker \<Rightarrow> promise_id list" where
  "answers b = concat (map (\<lambda>a. case a of Answered p _ \<Rightarrow> [p] | _ \<Rightarrow> []) (actions b))"

definition pending :: "'b broker \<Rightarrow> handle \<Rightarrow> promise_id \<Rightarrow> bool" where
  "pending b h p \<longleftrightarrow> (\<exists>c. ctxs b h = Some c \<and> callback c = Some p)"

definition unused :: "promise_id \<Rightarrow> 'b broker \<Rightarrow> bool" where
  "unused p b \<longleftrightarrow> p \<notin> set (answers b) \<and> (\<forall>h. \<not> pending b h p)"

text \<open>Pointers that come with a message point to actors, each request has a promise of its own.\<close>

fun event_ok :: "'b broker \<Rightarrow> 'b broker_event \<Rightarrow> bool" where
  "event_ok b (Forward_msg src dest mid body) \<longleftrightarrow> (\<forall>p. src = Some p \<longrightarrow> p < next_ref (sys b))"
| "event_ok b (Forward_named src nid name body) \<longleftrightarrow> (\<forall>p. src = Some p \<longrightarrow> p < next_ref (sys b))"
| "event_ok b (Publish h assigned port whom sigs) \<longleftrightarrow> (\<forall>p. whom = Some p \<longrightarrow> p < next_ref (sys b))"
| "event_ok b (Connect h port assigned rp) \<longleftrightarrow> unused rp b"
| "event_ok b (Spawn_remote nid rp) \<longleftrightarrow> unused rp b"
| "event_ok b (Actor_ended p rsn) \<longleftrightarrow> (\<forall>nid i. proxy_at nid i (sys b) \<noteq> Some p)"
| "event_ok b _ \<longleftrightarrow> True"

inductive broker_reach :: "'b broker_env \<Rightarrow> 'b broker \<Rightarrow> bool" for env where
  broker_start: "broker_reach env (broker_init\<lparr>enable_automatic_connections := auto\<rparr>)"
| broker_next: "broker_reach env b \<Longrightarrow> event_ok b ev \<Longrightarrow> broker_step env ev b = Inr b' \<Longrightarrow> broker_reach env b'"

section \<open>The tables of actors in a run\<close>

lemma purge_state_wf: "broker_wf b \<Longrightarrow> broker_wf (purge_state nid b)"
  by (simp add: broker_wf_def purge_state_def Let_def erase_proxies_wf split: option.split)

lemma proxy_announced_wf: "broker_wf b \<Longrightarrow> broker_wf (proxy_announced env nid i b)"
  by (simp add: broker_wf_def proxy_announced_def attach_functor_wf split: option.split)

lemma deliver_to_wf:
  assumes "deliver_to env src_nid src_aid dest mid body b = Inr b'" and "broker_wf b"
  shows "broker_wf b'"
proof -
  obtain src b1 where b1: "(if src_nid = me env then Inr (reg_get src_aid (sys b), b) else get_or_put env src_nid src_aid b)
      = Inr (src, b1)" "sys b' = sys b1"
    using assms(1) by (auto simp: deliver_to_def Let_def res_simps bounce_request_def split: option.splits if_splits)
  then have "broker_wf b1" using assms(2) by (auto split: if_splits dest: get_or_put_wf)
  with b1(2) show ?thesis by (simp add: broker_wf_def)
qed

lemma finalize_wf:
  assumes "finalize_handshake env nid i sigs b = Inr b'" and "broker_wf b"
  shows "broker_wf b'"
proof -
  obtain c where c: "this_ctx b = Inr c" using assms(1) by (auto simp: finalize_handshake_def res_simps)
  let ?b = "set_ctx (the (this_context b)) (c\<lparr>ctx_id := nid\<rparr>) b"
  have w: "broker_wf ?b" using assms(2) by (simp add: broker_wf_def)
  show ?thesis
  proof (cases "callback c")
    case None
    with assms(1) c w show ?thesis by (simp add: finalize_handshake_def Let_def)
  next
    case (Some cb)
    then obtain ptr b1 where b1: "(if i = invalid_actor_id then Inr (None, ?b)
        else if nid = me env then Inr (reg_get i (sys ?b), ?b) else get_or_put env nid i ?b) = Inr (ptr, b1)" "sys b' = sys b1"
      using assms(1) c by (auto simp: finalize_handshake_def Let_def res_simps)
    then have "broker_wf b1" using w by (auto split: if_splits dest: get_or_put_wf)
    with b1(2) show ?thesis by (simp add: broker_wf_def)
  qed
qed

lemma broker_wf_on_inst [simp]: "broker_wf (on_inst f b) \<longleftrightarrow> broker_wf b"
  by (simp add: broker_wf_def)

lemma broker_call_wf: "broker_call env call b = Inr b' \<Longrightarrow> broker_wf b \<Longrightarrow> broker_wf b'"
  by (cases call)
    (auto simp: purge_state_wf proxy_announced_wf learned_new_node_wf learned_indirectly_wf learned_new_node_directly_def
      dest: finalize_wf deliver_to_wf, simp add: kill_proxy_call_def broker_wf_def erase_proxy_wf)

lemma run_calls_wf: "run_calls env i b = Inr b' \<Longrightarrow> broker_wf b \<Longrightarrow> broker_wf b'"
proof -
  assume r: "run_calls env i b = Inr b'" and w: "broker_wf b"
  have w': "broker_wf (b\<lparr>inst := i\<lparr>calls := []\<rparr>\<rparr>)" using w by (simp add: broker_wf_def)
  show ?thesis
    by (rule foldR_invariant [where P = broker_wf, OF _ w' r [unfolded run_calls_def]]) (rule broker_call_wf)
qed

lemma set_context_frame [simp]:
  "sys (set_context h b) = sys b" "actions (set_context h b) = actions b" "inst (set_context h b) = inst b"
  "this_context (set_context h b) = Some h" "spawn_servers (set_context h b) = spawn_servers b"
  "enable_automatic_connections (set_context h b) = enable_automatic_connections b"
  by (simp_all add: set_context_def Let_def)

text \<open>The three ways in which handling data ends.\<close>

lemma on_new_data_elim [consumes 1, case_names threw closed next_state]:
  assumes "on_new_data env h buf b = Inr r"
  obtains (threw) c e hdr i b1 where
      "ctx_at h (set_context h b) = Inr c"
      "basp_handle (protocol env) h buf (ctx_hdr c) (cstate c = Await_payload) (inst b) = (Inl e, hdr, i)"
      "run_calls env i (set_ctx h (c\<lparr>ctx_hdr := hdr\<rparr>) (set_context h b)) = Inr b1" "r = Threw e b1"
    | (closed) c hdr i b1 c1 where
      "ctx_at h (set_context h b) = Inr c"
      "basp_handle (protocol env) h buf (ctx_hdr c) (cstate c = Await_payload) (inst b) = (Inr Close_connection, hdr, i)"
      "run_calls env (i\<lparr>tbl := tbl (inst b)\<rparr>) (set_ctx h (c\<lparr>ctx_hdr := hdr\<rparr>) (set_context h b)) = Inr b1"
      "ctx_at h b1 = Inr c1"
      "r = Went_on (broker_act ((case callback c1 of None \<Rightarrow> [] | Some cb \<Rightarrow> [Answered cb (Connected invalid_node_id None {})]) @ [Closed h])
         ((on_inst (tbl_update (erase_direct h)) b1)\<lparr>ctxs := (ctxs b1)(h := None)\<rparr>))"
    | (next_state) c hdr i b1 c1 st where
      "ctx_at h (set_context h b) = Inr c" "st \<noteq> Close_connection"
      "basp_handle (protocol env) h buf (ctx_hdr c) (cstate c = Await_payload) (inst b) = (Inr st, hdr, i)"
      "run_calls env i (set_ctx h (c\<lparr>ctx_hdr := hdr\<rparr>) (set_context h b)) = Inr b1" "ctx_at h b1 = Inr c1"
      "r = Went_on (if st = cstate c1 then b1
           else set_ctx h (c1\<lparr>cstate := st\<rparr>)
             (broker_act [Read_exactly h (if st = Await_payload then unat (payload_len (ctx_hdr c1)) else header_size)] b1))"
proof -
  let ?b = "set_context h b"
  obtain c where c: "ctx_at h ?b = Inr c" using assms by (auto simp: on_new_data_def Let_def res_simps)
  obtain q hdr i where q: "basp_handle (protocol env) h buf (ctx_hdr c) (cstate c = Await_payload) (inst b) = (q, hdr, i)"
    by (cases "basp_handle (protocol env) h buf (ctx_hdr c) (cstate c = Await_payload) (inst b)") auto
  note d = assms [unfolded on_new_data_def Let_def]
  consider e where "q = Inl e" | "q = Inr Close_connection" | st where "q = Inr st" "st \<noteq> Close_connection"
    by (cases q) auto
  then show thesis
  proof cases
    case 1
    with d c q that(1) [OF c] show ?thesis by (auto simp: res_simps)
  next
    case 2
    with d c q obtain b1 c1 where b1: "run_calls env (i\<lparr>tbl := tbl (inst b)\<rparr>) (set_ctx h (c\<lparr>ctx_hdr := hdr\<rparr>) ?b) = Inr b1"
        "ctx_at h (on_inst (tbl_update (erase_direct h)) b1) = Inr c1"
        "r = Went_on (broker_act [Closed h] ((case callback c1 of None \<Rightarrow> on_inst (tbl_update (erase_direct h)) b1
            | Some cb \<Rightarrow> broker_act [Answered cb (Connected invalid_node_id None {})] (on_inst (tbl_update (erase_direct h)) b1))
            \<lparr>ctxs := (ctxs b1)(h := None)\<rparr>))"
      by (auto simp: res_simps split: option.splits)
    then have "ctx_at h b1 = Inr c1" by (simp add: ctx_at_def)
    moreover have "r = Went_on (broker_act ((case callback c1 of None \<Rightarrow> [] | Some cb \<Rightarrow> [Answered cb (Connected invalid_node_id None {})]) @ [Closed h])
         ((on_inst (tbl_update (erase_direct h)) b1)\<lparr>ctxs := (ctxs b1)(h := None)\<rparr>))"
      using b1(3) by (simp add: broker_act_def split: option.split)
    ultimately show ?thesis using that(2) [OF c _ b1(1)] q 2 by simp
  next
    case 3
    with d c q obtain b1 c1 where b1: "run_calls env i (set_ctx h (c\<lparr>ctx_hdr := hdr\<rparr>) ?b) = Inr b1" "ctx_at h b1 = Inr c1"
        "r = Went_on (if st = cstate c1 then b1 else set_ctx h (c1\<lparr>cstate := st\<rparr>)
             (broker_act [Read_exactly h (if st = Await_payload then unat (payload_len (ctx_hdr c1)) else header_size)] b1))"
      by (cases st) (auto simp: res_simps)
    show ?thesis by (rule that(3) [OF c 3(2) _ b1]) (use q 3 in simp)
  qed
qed

lemma on_new_data_wf:
  assumes "on_new_data env h buf b = Inr r" and "broker_wf b"
  shows "broker_wf (case r of Went_on b \<Rightarrow> b | Threw e b \<Rightarrow> b)"
proof -
  have w: "broker_wf (set_ctx h c (set_context h b))" for c using assms(2) by (simp add: broker_wf_def)
  show ?thesis
    using assms(1) run_calls_wf [OF _ w]
    by (cases rule: on_new_data_elim) (auto simp: broker_wf_def split: option.split)
qed

lemma register_wf: "broker_wf b \<Longrightarrow> p < next_ref (sys b) \<Longrightarrow> broker_wf (register p b)"
  unfolding broker_wf_def register_frame by (rule reg_put_wf) auto

lemma run_posted_wf: "broker_wf b \<Longrightarrow> broker_wf (run_posted env b)"
  by (auto simp: run_posted_def run_task_def broker_wf_def erase_proxy_wf split: list.split task.split)

lemma broker_step_wf:
  assumes "broker_step env ev b = Inr b'" and "event_ok b ev" and "broker_wf b"
  shows "broker_wf b'"
proof (cases ev)
  case (Data h buf)
  then obtain r where "on_new_data env h buf b = Inr r"
      "b' = (case r of Went_on b \<Rightarrow> b | Threw e b \<Rightarrow> b\<lparr>broker_terminated := True\<rparr>)"
    using assms(1) by (auto simp: res_simps)
  with on_new_data_wf [of env h buf b r] assms(3) show ?thesis by (cases r) (simp_all add: broker_wf_def)
next
  case (Connection_closed h)
  then show ?thesis
    using assms(1,3) by (auto simp: on_connection_closed_def Let_def res_simps broker_wf_def dest!: run_calls_wf [unfolded broker_wf_def])
next
  case (Forward_msg src dest mid body)
  with assms register_wf [of b] show ?thesis
    by (auto simp: on_forward_def Let_def case_prod_unfold silent_def bounce_request_def broker_wf_def split: option.splits if_splits)
next
  case (Forward_named src nid name body)
  with assms register_wf [of b] show ?thesis
    by (auto simp: on_forward_named_def broker_lookup_eq Let_def broker_wf_def split: option.splits if_splits)
next
  case (Publish h assigned port whom sigs)
  with assms register_wf [of b] show ?thesis
    by (auto simp: on_publish_def Let_def silent_def broker_wf_def split: option.splits if_splits)
next
  case Run_posted
  with assms run_posted_wf show ?thesis by auto
next
  case Actor_started
  with assms show ?thesis by (auto simp: spawn_helper_eq broker_wf_def intro!: make_actor_wf)
next
  case (Actor_ended p rsn)
  with assms show ?thesis by (auto simp: broker_wf_def intro!: finish_wf)
qed (use assms in \<open>auto simp: on_new_connection_def on_acceptor_closed_def on_connect_def on_delete_def on_unpublish_def
  on_close_def on_spawn_def on_tick_def broker_wf_def Let_def erase_proxy_wf case_prod_unfold split: option.splits if_splits\<close>)

lemma broker_reach_wf: "broker_reach env b \<Longrightarrow> broker_wf b"
proof (induction rule: broker_reach.induct)
  case (broker_start auto)
  then show ?case
    by (simp add: broker_wf_def broker_init_def sys_wf_def entries_wf_def proxies_wf_def proxy_at_def submap_of_def)
qed (rule broker_step_wf)

section \<open>The answers in a run\<close>

definition promises_wf :: "'b broker \<Rightarrow> bool" where
  "promises_wf b \<longleftrightarrow> distinct (answers b) \<and> (\<forall>h p. pending b h p \<longrightarrow> p \<notin> set (answers b))
     \<and> (\<forall>h h' p. pending b h p \<longrightarrow> pending b h' p \<longrightarrow> h = h')"

lemma answers_append:
  "answers (broker_act xs b) = answers b @ concat (map (\<lambda>a. case a of Answered p _ \<Rightarrow> [p] | _ \<Rightarrow> []) xs)"
  by (simp add: answers_def)

lemma answers_same: "actions b' = actions b \<Longrightarrow> answers b' = answers b"
  by (simp add: answers_def)

text \<open>Steps that answer nothing, and steps that answer what is pending.\<close>

lemma promises_wf_keep:
  "promises_wf b \<Longrightarrow> answers b' = answers b \<Longrightarrow> (\<And>h p. pending b' h p \<Longrightarrow> pending b h p) \<Longrightarrow> promises_wf b'"
  unfolding promises_wf_def by metis

lemma promises_wf_same: "promises_wf b \<Longrightarrow> actions b' = actions b \<Longrightarrow> ctxs b' = ctxs b \<Longrightarrow> promises_wf b'"
  by (erule promises_wf_keep) (simp_all add: answers_def pending_def)

lemma promises_wf_answer:
  assumes "promises_wf b" and "pending b h p" and "answers b' = answers b @ [p]"
    and "\<And>h' q. pending b' h' q \<Longrightarrow> pending b h' q \<and> h' \<noteq> h"
  shows "promises_wf b'"
proof -
  have "distinct (answers b')" using assms(1-3) by (simp add: promises_wf_def)
  moreover have "q \<notin> set (answers b')" if "pending b' h' q" for h' q
  proof -
    have "pending b h' q" "h' \<noteq> h" using assms(4) [OF that] by simp_all
    then have "q \<notin> set (answers b)" "q \<noteq> p" using assms(1,2) unfolding promises_wf_def by blast+
    then show ?thesis by (simp add: assms(3))
  qed
  moreover have "h' = h''" if "pending b' h' q" "pending b' h'' q" for h' h'' q
    using assms(1) assms(4) [OF that(1)] assms(4) [OF that(2)] unfolding promises_wf_def by blast
  ultimately show ?thesis unfolding promises_wf_def by blast
qed

lemma pending_ctx: "ctxs b h = Some c \<Longrightarrow> pending b h p \<longleftrightarrow> callback c = Some p"
  by (simp add: pending_def)

lemma pending_at_SomeD: "ctx_at h b = Inr c \<Longrightarrow> callback c = Some p \<Longrightarrow> pending b h p"
  by (auto simp: ctx_at_def pending_def split: option.splits)

lemma finalize_promises:
  assumes "finalize_handshake env nid i sigs b = Inr b'" and "promises_wf b"
  shows "promises_wf b'"
proof -
  obtain c h where c: "this_ctx b = Inr c" "this_context b = Some h" "ctxs b h = Some c"
    using assms(1) by (auto simp: finalize_handshake_def res_simps this_ctx_def ctx_at_def split: option.splits)
  let ?b = "set_ctx h (c\<lparr>ctx_id := nid\<rparr>) b"
  show ?thesis
  proof (cases "callback c")
    case None
    then have "b' = ?b" using assms(1) c by (simp add: finalize_handshake_def Let_def)
    then show ?thesis using None c(3)
      by (intro promises_wf_keep [OF assms(2)]) (auto simp: answers_def pending_def split: if_splits)
  next
    case (Some cb)
    then obtain ptr b1 where b1: "(if i = invalid_actor_id then Inr (None, ?b)
        else if nid = me env then Inr (reg_get i (sys ?b), ?b) else get_or_put env nid i ?b) = Inr (ptr, b1)"
        "bindR (this_ctx b1) (\<lambda>c. Inr (broker_act [Answered cb (Connected nid ptr sigs)]
           (set_ctx (the (this_context b1)) (c\<lparr>callback := None\<rparr>) b1))) = Inr b'"
      using assms(1) c by (auto simp: finalize_handshake_def Let_def res_simps)
    have same: "ctxs b1 = ctxs ?b" "this_context b1 = Some h" "actions b1 = actions b"
      using b1(1) c(2) by (auto split: if_splits dest: get_or_put_frame)
    then have b': "b' = broker_act [Answered cb (Connected nid ptr sigs)] (set_ctx h (c\<lparr>ctx_id := nid, callback := None\<rparr>) b1)"
      using b1(2) by (simp add: this_ctx_def ctx_at_def)
    show ?thesis
    proof (rule promises_wf_answer [OF assms(2), of h cb])
      show "pending b h cb" using Some c(3) by (simp add: pending_def)
      show "answers b' = answers b @ [cb]" using same(3) by (simp add: b' answers_def)
    qed (auto simp: b' same pending_def split: if_splits)
  qed
qed

lemma purge_promises: "promises_wf b \<Longrightarrow> promises_wf (purge_state nid b)"
proof -
  assume w: "promises_wf b"
  let ?h = "lookup_direct nid (tbl (inst b))"
  show "promises_wf (purge_state nid b)"
  proof (cases "?h = invalid_connection_handle \<or> ctxs b ?h = None")
    case True
    then show ?thesis by (intro promises_wf_same [OF w]) (auto simp: purge_state_def Let_def)
  next
    case False
    then obtain c where c: "ctxs b ?h = Some c" by auto
    show ?thesis
    proof (cases "callback c")
      case None
      then show ?thesis using False c
        by (intro promises_wf_keep [OF w]) (auto simp: purge_state_def answers_def pending_def split: if_splits)
    next
      case (Some cb)
      show ?thesis
        using Some False c
        by (intro promises_wf_answer [OF w, of ?h cb]) (auto simp: purge_state_def answers_def pending_def split: if_splits)
    qed
  qed
qed

lemma deliver_to_promises:
  assumes "deliver_to env src_nid src_aid dest mid body b = Inr b'" and "promises_wf b"
  shows "promises_wf b'"
proof -
  obtain src b1 where b1: "(if src_nid = me env then Inr (reg_get src_aid (sys b), b) else get_or_put env src_nid src_aid b)
      = Inr (src, b1)" "ctxs b' = ctxs b1" "answers b' = answers b1"
    using assms(1)
    by (auto simp: deliver_to_def Let_def res_simps bounce_request_def answers_append split: option.splits if_splits)
  then have "ctxs b1 = ctxs b" "actions b1 = actions b" by (auto split: if_splits dest: get_or_put_frame)
  with b1(2,3) show ?thesis by (intro promises_wf_keep [OF assms(2)]) (simp_all add: answers_def pending_def)
qed

lemma broker_call_promises: "broker_call env call b = Inr b' \<Longrightarrow> promises_wf b \<Longrightarrow> promises_wf b'"
proof (induction env call b rule: broker_call.induct)
  case (1 env nid i sigs b)
  then show ?case by (auto intro: finalize_promises)
next
  case (5 env nid i dest mid body b)
  then show ?case by (auto intro: deliver_to_promises)
next
  case (6 env nid i name mid body b)
  then show ?case by (auto intro: deliver_to_promises)
next
  case (2 env nid b)
  then show ?case using purge_promises [of b nid] by auto
qed (auto simp: kill_proxy_call_def elim!: promises_wf_same)

lemma run_calls_promises:
  assumes "run_calls env i b = Inr b'" and "promises_wf b"
  shows "promises_wf b'"
proof -
  have w: "promises_wf (b\<lparr>inst := i\<lparr>calls := []\<rparr>\<rparr>)" by (rule promises_wf_same [OF assms(2)]) simp_all
  show ?thesis
    by (rule foldR_invariant [where P = promises_wf, OF _ w assms(1) [unfolded run_calls_def]]) (rule broker_call_promises)
qed

lemma on_new_data_promises:
  assumes "on_new_data env h buf b = Inr r" and "promises_wf b"
  shows "promises_wf (case r of Went_on b \<Rightarrow> b | Threw e b \<Rightarrow> b)"
proof -
  have w0: "promises_wf (set_context h b)"
    by (rule promises_wf_keep [OF assms(2)])
      (auto simp: answers_def pending_def set_context_def Let_def split: if_splits)
  have w: "promises_wf (set_ctx h (c\<lparr>ctx_hdr := hdr\<rparr>) (set_context h b))" if "ctx_at h (set_context h b) = Inr c" for c hdr
    using that
    by (intro promises_wf_keep [OF w0]) (auto simp: answers_def pending_def ctx_at_def split: if_splits option.splits)
  show ?thesis
    using assms(1)
  proof (cases rule: on_new_data_elim)
    case (threw c e hdr i b1)
    then show ?thesis using run_calls_promises [OF threw(3) w [OF threw(1)]] by simp
  next
    case (closed c hdr i b1 c1)
    have w1: "promises_wf b1" by (rule run_calls_promises [OF closed(3) w [OF closed(1)]])
    define b2 where "b2 = broker_act ((case callback c1 of None \<Rightarrow> [] | Some cb \<Rightarrow> [Answered cb (Connected invalid_node_id None {})])
      @ [Closed h]) ((on_inst (tbl_update (erase_direct h)) b1)\<lparr>ctxs := (ctxs b1)(h := None)\<rparr>)"
    have p: "pending b2 h' q \<Longrightarrow> pending b1 h' q \<and> h' \<noteq> h" for h' q
      by (simp add: b2_def pending_def split: if_splits)
    have "promises_wf b2"
    proof (cases "callback c1")
      case None
      then have "answers b2 = answers b1" by (simp add: b2_def answers_def)
      then show ?thesis by (rule promises_wf_keep [OF w1]) (use p in blast)
    next
      case (Some cb)
      then have "answers b2 = answers b1 @ [cb]" by (simp add: b2_def answers_def)
      then show ?thesis by (rule promises_wf_answer [OF w1 pending_at_SomeD [OF closed(4) Some]]) (use p in blast)
    qed
    then show ?thesis unfolding closed(5) b2_def by simp
  next
    case (next_state c hdr i b1 c1 st)
    have w1: "promises_wf b1" by (rule run_calls_promises [OF next_state(4) w [OF next_state(1)]])
    define b2 where "b2 = set_ctx h (c1\<lparr>cstate := st\<rparr>)
      (broker_act [Read_exactly h (if st = Await_payload then unat (payload_len (ctx_hdr c1)) else header_size)] b1)"
    have "ctxs b1 h = Some c1" using next_state(5) by (simp add: ctx_at_def split: option.splits)
    then have "pending b2 h' q \<Longrightarrow> pending b1 h' q" for h' q by (auto simp: b2_def pending_def split: if_splits)
    moreover have "answers b2 = answers b1" by (simp add: b2_def answers_def)
    ultimately have "promises_wf b2" using promises_wf_keep [OF w1] by blast
    with w1 show ?thesis unfolding next_state(6) b2_def by simp
  qed
qed

lemma connection_closed_promises:
  assumes "on_connection_closed env h b = Inr b'" and "promises_wf b"
  shows "promises_wf b'"
proof -
  let ?i = "handle_node_shutdown (lookup_node h (tbl (inst b))) (inst b)"
  obtain b1 where b1: "run_calls env (?i\<lparr>tbl := tbl (inst b)\<rparr>) b = Inr b1" "b' = on_inst (tbl_update (\<lambda>_. tbl ?i)) b1"
    using assms(1) by (auto simp: on_connection_closed_def Let_def res_simps)
  show ?thesis by (rule promises_wf_same [OF run_calls_promises [OF b1(1) assms(2)]]) (simp_all add: b1(2))
qed

lemma on_forward_quiet:
  "ctxs (on_forward env src dest mid body b) = ctxs b" "answers (on_forward env src dest mid body b) = answers b"
  by (auto simp: on_forward_def Let_def case_prod_unfold silent_def bounce_request_def answers_def split: option.split)

lemma on_unpublish_quiet:
  "ctxs (snd (on_unpublish whom port b)) = ctxs b" "answers (snd (on_unpublish whom port b)) = answers b"
proof -
  have "concat (map (\<lambda>a. case a of Answered p _ \<Rightarrow> [p] | _ \<Rightarrow> []) (map (\<lambda>(_, p). Closed_port p) xs)) = []"
    for xs :: "(actor_id option \<times> u16) list" by (induction xs) auto
  then show "ctxs (snd (on_unpublish whom port b)) = ctxs b" "answers (snd (on_unpublish whom port b)) = answers b"
    by (simp_all add: on_unpublish_def case_prod_unfold answers_def)
qed

text \<open>A promise that nobody has used is entered or answered.\<close>

lemma promises_wf_new:
  assumes "promises_wf b" and "unused p b"
  shows "answers b' = answers b \<Longrightarrow> (\<And>h' q. pending b' h' q \<Longrightarrow> pending b h' q \<or> h' = h \<and> q = p)
      \<Longrightarrow> promises_wf b'"
    and "answers b' = answers b @ [p] \<Longrightarrow> (\<And>h' q. pending b' h' q \<Longrightarrow> pending b h' q) \<Longrightarrow> promises_wf b'"
  using assms unfolding promises_wf_def unused_def by (auto; metis)+

lemma broker_step_promises:
  assumes "broker_step env ev b = Inr b'" and "event_ok b ev" and "promises_wf b"
  shows "promises_wf b'"
proof -
  note w = assms(3)
  note keep = promises_wf_keep [OF w]
  show ?thesis
  proof (cases ev)
    case (Data h buf)
    then obtain r where r: "on_new_data env h buf b = Inr r"
        "b' = (case r of Went_on b \<Rightarrow> b | Threw e b \<Rightarrow> b\<lparr>broker_terminated := True\<rparr>)"
      using assms(1) by (auto simp: res_simps)
    show ?thesis
    proof (cases r)
      case (Threw e b1)
      with on_new_data_promises [OF r(1) w] have "promises_wf b1" by simp
      then show ?thesis by (rule promises_wf_same) (simp_all add: r(2) Threw)
    next
      case (Went_on b1)
      with on_new_data_promises [OF r(1) w] r(2) show ?thesis by simp
    qed
  next
    case (Connection_closed h)
    with assms(1) w show ?thesis by (auto intro: connection_closed_promises)
  next
    case (Forward_msg src dest mid body)
    with assms(1) show ?thesis by (intro keep) (auto simp: on_forward_quiet pending_def)
  next
    case (Forward_named src nid name body)
    with assms(1) show ?thesis
      by (intro keep) (auto simp: on_forward_named_def broker_lookup_eq Let_def answers_def pending_def split: option.splits if_splits)
  next
    case (Connect h port assigned rp)
    show ?thesis
    proof (cases assigned)
      case True
      have "answers b' = answers b" using True Connect assms(1) by (auto simp: on_connect_def Let_def answers_def)
      moreover have "pending b' h' q \<Longrightarrow> pending b h' q \<or> h' = h \<and> q = rp" for h' q
        using True Connect assms(1) by (auto simp: on_connect_def Let_def pending_def split: if_splits)
      moreover have "unused rp b" using Connect assms(2) by simp
      ultimately show ?thesis using promises_wf_new(1) [OF w] by blast
    next
      case False
      then have "answers b' = answers b @ [rp]" using Connect assms(1) by (auto simp: on_connect_def answers_def)
      moreover have "pending b' h' q \<Longrightarrow> pending b h' q" for h' q
        using False Connect assms(1) by (auto simp: on_connect_def pending_def)
      moreover have "unused rp b" using Connect assms(2) by simp
      ultimately show ?thesis using promises_wf_new(2) [OF w] by blast
    qed
  next
    case (Spawn_remote nid rp)
    then have "answers b' = answers b @ [rp]" using assms(1) by (auto simp: on_spawn_def answers_def split: option.split)
    moreover have "pending b' h' q \<Longrightarrow> pending b h' q" for h' q
      using Spawn_remote assms(1) by (auto simp: on_spawn_def pending_def split: option.splits)
    moreover have "unused rp b" using Spawn_remote assms(2) by simp
    ultimately show ?thesis using promises_wf_new(2) [OF w] by blast
  next
    case (Unpublish whom port)
    with assms(1) have b': "b' = snd (on_unpublish whom port b)" by simp
    show ?thesis by (rule keep) (simp_all add: b' on_unpublish_quiet pending_def)
  next
    case (Publish h assigned port whom sigs)
    with assms(1) show ?thesis
      by (intro promises_wf_same [OF w]) (auto simp: on_publish_def Let_def silent_def split: option.split)
  next
    case (Close_port port has_doorman)
    with assms(1) show ?thesis
      by (intro keep) (auto simp: on_close_def Let_def answers_def pending_def split: if_splits)
  next
    case Run_posted
    with assms(1) show ?thesis
      by (intro promises_wf_same [OF w]) (auto simp: run_posted_def run_task_def split: list.split task.split)
  qed (use assms(1) in \<open>auto intro!: keep simp: on_new_connection_def on_acceptor_closed_def on_delete_def on_tick_def
    spawn_helper_eq answers_def pending_def\<close>)
qed

lemma broker_reach_promises: "broker_reach env b \<Longrightarrow> promises_wf b"
proof (induction rule: broker_reach.induct)
  case (broker_start auto)
  then show ?case by (simp add: promises_wf_def answers_def pending_def broker_init_def)
qed (rule broker_step_promises)

end
