(* ===== verification/BrokerProperties.thy ===== *)
theory BrokerProperties
  imports BrokerLemmas
begin

text \<open>
  The properties of the broker (BaspBroker): what holds in every run, what happens when connections fail, and
  two brokers together, whose proxies stand for the actors of the other.
\<close>

section \<open>Receiving a message\<close>

text \<open>The multiplexer delivers what was asked for: a header, and then the payload that it announces.\<close>

definition broker_receive :: "'b broker_env \<Rightarrow> handle \<Rightarrow> bytes \<Rightarrow> 'b broker \<Rightarrow> 'b broker_outcome res" where
  "broker_receive env h msg b =
     bindR (on_new_data env h (take header_size msg) b) (\<lambda>r.
       case r of
         Threw e b \<Rightarrow> Inr (Threw e b)
       | Went_on b \<Rightarrow> if length msg > header_size then on_new_data env h (drop header_size msg) b else Inr (Went_on b))"

lemma calls_nil [simp]: "calls i = [] \<Longrightarrow> i\<lparr>calls := []\<rparr> = i"
  by simp

text \<open>The broker that handles a message which arrived with its payload.\<close>

definition receiving :: "handle \<Rightarrow> connection_context \<Rightarrow> header \<Rightarrow> bytes \<Rightarrow> 'b broker \<Rightarrow> 'b broker" where
  "receiving h c hdr bs b =
     b\<lparr>this_context := Some h, ctxs := (ctxs b)(h \<mapsto> c\<lparr>ctx_hdr := hdr, cstate := if bs = [] then Await_header else Await_payload\<rparr>),
       actions := actions b @ (if bs = [] then [] else [Read_exactly h (length bs)])\<rparr>"

lemma receiving_frame [simp]:
  "inst (receiving h c hdr bs b) = inst b" "sys (receiving h c hdr bs b) = sys b"
  "spawn_servers (receiving h c hdr bs b) = spawn_servers b"
  "enable_automatic_connections (receiving h c hdr bs b) = enable_automatic_connections b"
  "this_context (receiving h c hdr bs b) = Some h"
  by (simp_all add: receiving_def)

lemma broker_receive_message:
  assumes ok: "header_ok hdr" and v: "header_valid (with_length hdr bs)" and l: "length bs < 2 ^ 32"
    and c: "ctxs b h = Some c" "cstate c = Await_header" and none: "calls (inst b) = []"
    and hm: "handle_message (protocol env) h (with_length hdr bs) (if bs = [] then None else Some bs) (inst b) = (Inr Await_header, i)"
  shows "broker_receive env h (message_bytes hdr bs) b =
    bindR (run_calls env i (receiving h c (with_length hdr bs) bs b)) (\<lambda>b. bindR (ctx_at h b) (\<lambda>c.
      Inr (Went_on (if cstate c = Await_header then b
        else set_ctx h (c\<lparr>cstate := Await_header\<rparr>) (broker_act [Read_exactly h header_size] b)))))"
proof -
  let ?h = "with_length hdr bs"
  have n: "node_wf (source_node hdr)" "node_wf (dest_node hdr)" using header_ok_wf [OF ok] by simp_all
  have "header_ok ?h" using ok by (simp add: header_ok_def)
  from load_header_bytes [OF this, of "[]"] have ld: "load_header (header_bytes ?h) = Inr (?h, [])" by simp
  have len: "unat (of_nat (length bs) :: u32) = length bs" using l by (simp add: unat_of_nat take_bit_nat_eq_self)
  then have pos: "0 < (of_nat (length bs) :: u32) \<longleftrightarrow> bs \<noteq> []" by (simp add: word_less_nat_alt)
  have sc: "set_context h b = b\<lparr>this_context := Some h\<rparr>" using c by (simp add: set_context_def)
  have lm: "length (message_bytes hdr bs) = header_size + length bs"
    using n by (simp add: message_bytes_def length_basp_header)
  show ?thesis
  proof (cases "bs = []")
    case True
    have "basp_handle (protocol env) h (header_bytes ?h) (ctx_hdr c) False (inst b) = (Inr Await_header, ?h, i)"
      using hm ld v pos True by (simp add: basp_handle_def)
    moreover have "receiving h c ?h bs b = b\<lparr>this_context := Some h, ctxs := (ctxs b)(h \<mapsto> c\<lparr>ctx_hdr := ?h\<rparr>)\<rparr>"
      using c(2) True by (cases c) (simp add: receiving_def)
    ultimately show ?thesis
      using c True n lm message_bytes_length [OF n, of bs]
      by (simp add: broker_receive_def on_new_data_def Let_def sc ctx_at_def set_ctx_def bindR_assoc
          eq_commute [of Await_header "cstate x" for x] cong: if_cong)
  next
    case False
    have h1: "basp_handle (protocol env) h (header_bytes ?h) (ctx_hdr c) False (inst b) = (Inr Await_payload, ?h, inst b)"
      using ld v pos False by (simp add: basp_handle_def)
    have h2: "basp_handle (protocol env) h bs ?h True (inst b) = (Inr Await_header, ?h, i)"
      using hm len False by (simp add: basp_handle_def)
    have f: "on_new_data env h (header_bytes ?h) b = Inr (Went_on (receiving h c ?h bs b))"
      using c h1 none False len
      by (simp add: on_new_data_def Let_def sc ctx_at_def set_ctx_def run_calls_def receiving_def broker_act_def)
    define R where "R = receiving h c ?h bs b"
    define cR where "cR = c\<lparr>ctx_hdr := ?h, cstate := Await_payload\<rparr>"
    have R: "set_context h R = R" "ctx_at h R = Inr cR" "set_ctx h (cR\<lparr>ctx_hdr := ?h\<rparr>) R = R" "inst R = inst b"
      using False by (cases b; cases c; simp add: R_def cR_def set_context_def receiving_def ctx_at_def set_ctx_def)+
    have cR: "cstate cR = Await_payload" "ctx_hdr cR = ?h" by (simp_all add: cR_def)
    have s: "on_new_data env h bs R =
      bindR (run_calls env i R) (\<lambda>b. bindR (ctx_at h b) (\<lambda>c.
        Inr (Went_on (if cstate c = Await_header then b
          else set_ctx h (c\<lparr>cstate := Await_header\<rparr>) (broker_act [Read_exactly h header_size] b)))))"
      using h2 R cR
      by (simp add: on_new_data_def Let_def eq_commute [of Await_header "cstate x" for x] cong: if_cong)
    show ?thesis
      using False n lm message_bytes_length [OF n, of bs] f s by (simp add: broker_receive_def R_def)
  qed
qed

section \<open>Invariants\<close>

text \<open>
  C32: However the broker runs, whatever arrives on its connections: the actors in the registry are alive; a
  proxy that the proxy registry has for an actor of a node is alive and is the proxy of that actor; and asking
  for a proxy again returns the same one.
\<close>

theorem broker_actor_tables:
  assumes "broker_reach env b"
  shows "(reg_get k (sys b) = Some p \<longrightarrow> obj_end (store (sys b) p) = None)
    \<and> (proxy_at nid i (sys b) = Some q \<longrightarrow> obj_end (store (sys b) q) = None \<and> obj_node (store (sys b) q) = nid
         \<and> obj_id (store (sys b) q) = i \<and> get_or_put env nid i b = Inr (Some q, b))
    \<and> (get_or_put env nid i b = Inr (Some r, b') \<longrightarrow> get_or_put env nid i b' = Inr (Some r, b'))"
proof -
  have w: "broker_wf b" by (rule broker_reach_wf [OF assms])
  then have s: "entries_wf (sys b)" "proxies_wf (sys b)" by (simp_all add: broker_wf_def sys_wf_def)
  have again: "get_or_put env nid i b1 = Inr (Some q, b1)" if "proxy_at nid i (sys b1) = Some q" for b1 q
    using that by (simp add: get_or_put_def proxy_at_def split: option.splits)
  have "reg_get k (sys b) = Some p \<longrightarrow> obj_end (store (sys b) p) = None"
    using entries_wfD [OF s(1)] by (simp add: reg_get_def)
  then show ?thesis using proxies_wfD [OF s(2)] again get_or_put_wf [OF _ w, of env nid i] by blast
qed

text \<open>
  C33: No request to connect or to spawn is answered twice, and as long as one is waiting for a handshake, no
  other connection has its promise.
\<close>

theorem requests_answered_once:
  assumes "broker_reach env b"
  shows "distinct (answers b) \<and> (pending b h p \<longrightarrow> p \<notin> set (answers b) \<and> (pending b h' p \<longrightarrow> h' = h))"
  using broker_reach_promises [OF assms] unfolding promises_wf_def by blast

definition example_broker_env :: "node_id \<Rightarrow> bytes broker_env" where
  "example_broker_env n = \<lparr>protocol = \<lparr>this_node = n, app_identifier = [0x63, 0x61, 0x66], has_hook = False,
     save_body = save_string, load_body = load_string, save_reason = (\<lambda>e. save_int (err_code e)),
     load_reason = (\<lambda>bs. bindL (load_int 1 bs) (\<lambda>(x, bs). Inr (error_of x (the (atom ''exit'')), bs)))\<rparr>,
     spawn_query = [1], config_query = [2]\<rparr>"

lemma broker_init_simps [simp]:
  "ctxs broker_init = Map.empty" "actions broker_init = []" "tbl (inst broker_init) = routing_table_new"
  "calls (inst broker_init) = []" "next_ref (sys broker_init) = 0" "last_id (sys broker_init) = 0"
  "id_entries (sys broker_init) = Map.empty" "proxies (sys broker_init) = []" "posted (sys broker_init) = []"
  "spawn_servers broker_init = Map.empty" "published_actors (inst broker_init) = []"
  by (simp_all add: broker_init_def)

lemma broker_init_reach: "broker_reach env broker_init"
  using broker_start [of env False] by (simp add: broker_init_def)

text \<open>A broker on which one actor is published.\<close>

definition publishing_broker :: "node_id \<Rightarrow> bytes broker" where
  "publishing_broker n = on_publish 1 True 4242 (Some 0) {} (snd (spawn_helper (example_broker_env n) broker_init))"

lemma publishing_broker_reach: "broker_reach (example_broker_env n) (publishing_broker n)"
proof -
  have "broker_reach (example_broker_env n) (snd (spawn_helper (example_broker_env n) broker_init))"
    using broker_next [OF broker_init_reach, of Actor_started] by simp
  from broker_next [OF this, of "Publish 1 True 4242 (Some 0) {}"]
  show ?thesis by (simp add: publishing_broker_def spawn_helper_eq make_actor_def)
qed

lemma publishing_broker_entry: "reg_get 1 (sys (publishing_broker n)) = Some 0"
  by (simp add: publishing_broker_def on_publish_def invalid_connection_handle_def Let_def silent_def spawn_helper_eq
      make_actor_def reg_put_def attach_functor_def reg_get_def)

lemma broker_actor_tables_witness: "obj_end (store (sys (publishing_broker node_a)) 0) = None"
  using broker_actor_tables [OF publishing_broker_reach [of node_a], where k = 1 and p = 0] publishing_broker_entry [of node_a] by blast

lemma requests_answered_once_witness:
  "\<exists>b. broker_reach (example_broker_env node_a) b \<and> pending b 3 7 \<and> 7 \<notin> set (answers b)"
proof -
  let ?b = "on_connect 3 80 True 7 broker_init"
  have "event_ok broker_init (Connect 3 80 True 7)" by (simp add: unused_def answers_def pending_def)
  from broker_next [OF broker_init_reach this] have r: "broker_reach (example_broker_env node_a) ?b" by simp
  have p: "pending ?b 3 7" by (simp add: on_connect_def pending_def Let_def)
  with requests_answered_once [OF r, of 3 7] r show ?thesis by blast
qed

section \<open>Connections that fail\<close>

lemma rt_direct:
  assumes "rt_wf t" and "direct_by_hdl t h = Some nid"
  shows "direct_by_nid t nid = Some h" "lookup_direct nid t = h" "h \<noteq> invalid_connection_handle" "nid \<noteq> invalid_node_id"
proof -
  have d: "direct_wf (direct_by_hdl t) (direct_by_nid t)" using assms(1) by (simp add: rt_wf_def)
  show n: "direct_by_nid t nid = Some h" using direct_wf_iff [OF d, of h nid] assms(2) by simp
  then show "lookup_direct nid t = h" by (simp add: lookup_direct_def get_opt_def)
  have "direct_by_hdl t invalid_connection_handle = None" "direct_by_nid t invalid_node_id = None"
    using d by (simp_all add: direct_wf_def)
  then show "h \<noteq> invalid_connection_handle" "nid \<noteq> invalid_node_id" using n assms(2) by auto
qed

lemma purges_erase_direct:
  "direct_by_hdl t h = Some nid \<Longrightarrow> purges (drop (length (rt_log t)) (rt_log (erase_direct h t))) = [Purge_state nid]"
  by (simp add: erase_direct_def purges_def)

text \<open>
  When a header is not valid, or a payload has not the announced length, on a connection that belongs to a
  node, handling it erases the context of the connection, and the broker then reads the context it still holds
  a reference to: the behavior is undefined.
\<close>

theorem error_reads_erased_context:
  assumes wf: "rt_wf (tbl (inst b))" and d: "direct_by_hdl (tbl (inst b)) h = Some nid" and none: "calls (inst b) = []"
    and c: "ctxs b h = Some c"
    and bad: "cstate c = Await_header \<and> load_header buf = Inr (hdr, rest) \<and> \<not> header_valid hdr
      \<or> cstate c = Await_payload \<and> length buf \<noteq> unat (payload_len (ctx_hdr c))"
  shows "on_new_data env h buf b = Inl FreedBlock"
proof -
  have bh: "\<exists>hd. basp_handle (protocol env) h buf (ctx_hdr c) (cstate c = Await_payload) (inst b)
      = (Inr Close_connection, hd, snd (close_on_error h (inst b)))"
    using bad by (auto simp: basp_handle_def close_on_error_def)
  have calls: "calls (snd (close_on_error h (inst b))) = [Purge_state nid]"
    using purges_erase_direct [OF d] none by (simp add: close_on_error_def erase_with_def Let_def)
  have s: "set_context h b = b\<lparr>this_context := Some h\<rparr>" using c by (simp add: set_context_def)
  have gone: "ctxs (purge_state nid b1) h = None" if "tbl (inst b1) = tbl (inst b)" for b1 :: "'a broker"
    using that rt_direct [OF wf d] by (auto simp: purge_state_def Let_def split: option.split)
  from bh obtain hd where bh: "basp_handle (protocol env) h buf (ctx_hdr c) (cstate c = Await_payload) (inst b)
      = (Inr Close_connection, hd, snd (close_on_error h (inst b)))" by blast
  then show ?thesis
    using c by (simp add: on_new_data_def s Let_def ctx_at_def run_calls_def calls gone)
qed

text \<open>A connection to another node after its handshake.\<close>

definition established :: "handle \<Rightarrow> node_id \<Rightarrow> 'b broker \<Rightarrow> 'b broker" where
  "established h n b = set_context h (on_inst (\<lambda>i. i\<lparr>tbl := add_direct h n (tbl i)\<rparr>) b)"

lemma established_simps [simp]:
  "tbl (inst (established h n b)) = add_direct h n (tbl (inst b))" "calls (inst (established h n b)) = calls (inst b)"
  "sys (established h n b) = sys b" "spawn_servers (established h n b) = spawn_servers b"
  "actions (established h n b) = actions b" "wr_buf (inst (established h n b)) = wr_buf (inst b)"
  by (simp_all add: established_def)

lemma established_ctx: "ctxs b h = None \<Longrightarrow> ctxs (established h n b) h =
    Some \<lparr>cstate = Await_header, ctx_hdr = header_init, ctx_hdl = h, ctx_id = invalid_node_id, remote_port = 0, callback = None\<rparr>"
  by (simp add: established_def set_context_def)

lemma established_new:
  "h \<noteq> invalid_connection_handle \<Longrightarrow> n \<noteq> invalid_node_id \<Longrightarrow>
   rt_wf (add_direct h n routing_table_new) \<and> direct_by_hdl (add_direct h n routing_table_new) = [h \<mapsto> n]
   \<and> direct_by_nid (add_direct h n routing_table_new) = [n \<mapsto> h] \<and> indirect (add_direct h n routing_table_new) = Map.empty"
  by (auto simp: add_direct_def map_emplace_def routing_table_new_def intro!: add_direct_wf [OF rt_wf_new, unfolded add_direct_def map_emplace_def routing_table_new_def, simplified])

lemma error_reads_erased_context_witness:
  "on_new_data (example_broker_env node_a) 3 (header_bytes header_init) (established 3 node_b broker_init) = Inl FreedBlock"
proof -
  have h: "header_ok header_init" by (simp add: header_ok_def header_init_def nodes_ok)
  have v: "\<not> header_valid header_init"
    by (simp add: header_valid_def header_init_def validity_defs)
  have t: "rt_wf (add_direct 3 node_b routing_table_new)" "direct_by_hdl (add_direct 3 node_b routing_table_new) = [3 \<mapsto> node_b]"
    using established_new [of 3 node_b] by (simp_all add: invalid_connection_handle_def)
  show ?thesis
    using load_header_bytes [OF h, of "[]"] v t
    by (intro error_reads_erased_context [where nid = node_b and hdr = header_init and rest = "[]", OF _ _ _ established_ctx]) simp_all
qed

lemma purge_state_frame [simp]:
  "inst (purge_state nid b) = inst b" "spawn_servers (purge_state nid b) = spawn_servers b"
  "this_context (purge_state nid b) = this_context b" "broker_terminated (purge_state nid b) = broker_terminated b"
  "sys (purge_state nid b) = (if lookup_direct nid (tbl (inst b)) = invalid_connection_handle then sys b
     else erase_proxies nid (sys b))"
  by (simp_all add: purge_state_def Let_def split: option.split)

lemma purges_simps [simp]:
  "purges [] = []" "purges (Purged n # es) = Purge_state n # purges es" "purges (Connection_lost n # es) = purges es"
  "purges (Route_lost m n # es) = purges es" "purges (es @ es') = purges es @ purges es'"
  by (simp_all add: purges_def)

lemma purges_hops [simp]:
  "purges (concat (map (\<lambda>nid. [Purged nid, Route_lost nid n]) hops)) = map Purge_state hops"
  by (induction hops) simp_all

lemma shutdown_calls:
  assumes "rt_wf (tbl i)" and "n \<noteq> invalid_node_id" and "calls i = []"
  shows "calls (handle_node_shutdown n i) = map Purge_state (n # get_opt (indirect (tbl i)) n [])"
    and "tbl (handle_node_shutdown n i) = snd (erase n (tbl i))"
  using assms erase_eq(6) [OF assms(1), of n]
  by (simp_all add: handle_node_shutdown_def erase_with_def Let_def tell_def)

text \<open>The answers to the requests that wait for a handshake on the connection of a node.\<close>

definition handshake_answers :: "'b broker \<Rightarrow> node_id \<Rightarrow> 'b broker_action list" where
  "handshake_answers b n =
     (case direct_by_nid (tbl (inst b)) n of None \<Rightarrow> []
      | Some k \<Rightarrow> (case ctxs b k of None \<Rightarrow> []
          | Some c \<Rightarrow> (case callback c of None \<Rightarrow> []
              | Some p \<Rightarrow> [Answered p (Failed Sec_disconnect_during_handshake)])))"

lemma purge_state_one:
  assumes "rt_wf (tbl (inst b))"
  shows "ctxs (purge_state n b) = (\<lambda>k. if direct_by_nid (tbl (inst b)) n = Some k then None else ctxs b k)"
    and "actions (purge_state n b) = actions b @ handshake_answers b n"
    and "sys (purge_state n b) = (if direct_by_nid (tbl (inst b)) n = None then sys b else erase_proxies n (sys b))"
  using lookup_direct_None [OF assms, of n] lookup_direct_Some [of "tbl (inst b)" n]
  by (cases "direct_by_nid (tbl (inst b)) n";
      auto simp: purge_state_def Let_def handshake_answers_def fun_eq_iff split: option.split)+

lemma handshake_answers_after:
  assumes "rt_wf (tbl (inst b))"
  shows "handshake_answers (purge_state n b) m = (if m = n then [] else handshake_answers b m)"
proof -
  have d: "direct_wf (direct_by_hdl (tbl (inst b))) (direct_by_nid (tbl (inst b)))" using assms by (simp add: rt_wf_def)
  have "m = n" if "direct_by_nid (tbl (inst b)) m = Some k" "direct_by_nid (tbl (inst b)) n = Some k" for k
    using that direct_wf_iff [OF d, of k m] direct_wf_iff [OF d, of k n] by simp
  then show ?thesis
    using purge_state_one(1) [OF assms, of n] by (auto simp: handshake_answers_def split: option.split)
qed

lemma purge_all_inst [simp]: "inst (fold purge_state ns b) = inst b"
  by (induction ns arbitrary: b) simp_all

lemma purge_all_ctxs:
  assumes "rt_wf (tbl (inst b))"
  shows "ctxs (fold purge_state ns b) =
    (\<lambda>k. if \<exists>n \<in> set ns. direct_by_nid (tbl (inst b)) n = Some k then None else ctxs b k)"
  using assms by (induction ns arbitrary: b) (auto simp: purge_state_one(1) fun_eq_iff)

lemma purge_all_proxies:
  assumes "rt_wf (tbl (inst b))"
  shows "proxy_at m j (sys (fold purge_state ns b)) =
    (if m \<in> set ns \<and> direct_by_nid (tbl (inst b)) m \<noteq> None then None else proxy_at m j (sys b))"
  using assms by (induction ns arbitrary: b) (auto simp: purge_state_one(3) erase_proxies_at simp del: purge_state_frame(5))

lemma purge_all_ends:
  assumes "rt_wf (tbl (inst b))" and "broker_wf b"
  shows "obj_end (store (sys (fold purge_state ns b)) q) =
    (if \<exists>n \<in> set ns. direct_by_nid (tbl (inst b)) n \<noteq> None \<and> (\<exists>j. proxy_at n j (sys b) = Some q) then Some link_lost
     else obj_end (store (sys b) q))"
  using assms
proof (induction ns arbitrary: b)
  case (Cons n ns)
  have "sys_wf (sys b)" using Cons.prems(2) by (simp add: broker_wf_def)
  note ends = erase_proxies_ends(1) [OF this, of n q]
  show ?case
    using Cons.IH [of "purge_state n b"] Cons.prems purge_state_wf [OF Cons.prems(2), of n] ends
      purge_state_one(3) [OF Cons.prems(1), of n]
    by (auto simp: erase_proxies_at simp del: purge_state_frame(5) split: if_splits)
qed simp

lemma purge_all_actions:
  assumes "rt_wf (tbl (inst b))" and "distinct ns"
  shows "actions (fold purge_state ns b) = actions b @ concat (map (handshake_answers b) ns)"
  using assms
proof (induction ns arbitrary: b)
  case (Cons n ns)
  have "concat (map (handshake_answers (purge_state n b)) ns) = concat (map (handshake_answers b) ns)"
    using Cons.prems by (intro arg_cong [where f = concat] map_cong) (auto simp: handshake_answers_after)
  then show ?case using Cons by (simp add: purge_state_one(2))
qed simp

lemma purges_run: "foldR (broker_call env) (map Purge_state ns) b = Inr (fold purge_state ns b)"
  by (induction ns arbitrary: b) simp_all

text \<open>Purging a node a second time answers nothing.\<close>

lemma answers_first:
  assumes "rt_wf (tbl (inst b))"
  shows "handshake_answers b n @ concat (map (handshake_answers (purge_state n b)) ns)
    = concat (map (handshake_answers b) (n # removeAll n ns))"
  by (induction ns) (simp_all add: handshake_answers_after [OF assms])

text \<open>
  The nodes that the broker takes as lost with a node: those it has a connection to, among the node itself and
  the hops over which the node can be reached too.
\<close>

definition lost_nodes :: "routing_table \<Rightarrow> node_id \<Rightarrow> node_id list" where
  "lost_nodes t nid = filter (\<lambda>n. direct_by_nid t n \<noteq> None) (nid # removeAll nid (get_opt (indirect t) nid []))"

lemma lost_nodes_set: "n \<in> set (lost_nodes t nid) \<longleftrightarrow>
    n \<in> set (nid # get_opt (indirect t) nid []) \<and> direct_by_nid t n \<noteq> None"
  by (auto simp: lost_nodes_def)

lemma lost_answers: "concat (map (handshake_answers b) (lost_nodes (tbl (inst b)) nid))
    = concat (map (handshake_answers b) (nid # removeAll nid (get_opt (indirect (tbl (inst b))) nid [])))"
proof -
  have "concat (map (handshake_answers b) (filter (\<lambda>n. direct_by_nid (tbl (inst b)) n \<noteq> None) ns))
      = concat (map (handshake_answers b) ns)" for ns
    by (induction ns) (auto simp: handshake_answers_def)
  then show ?thesis by (simp only: lost_nodes_def)
qed

text \<open>What closing the connection of a node does to the broker.\<close>

definition lost_with :: "handle \<Rightarrow> node_id \<Rightarrow> 'b broker \<Rightarrow> 'b broker \<Rightarrow> bool" where
  "lost_with h nid b b' \<longleftrightarrow>
     (let t = tbl (inst b); t' = tbl (inst b'); lost = lost_nodes t nid
      in direct_by_hdl t' = (direct_by_hdl t)(h := None) \<and> direct_by_nid t' = (direct_by_nid t)(nid := None)
       \<and> indirect t' = (indirect t)(nid := None)
       \<and> ctxs b' = (\<lambda>k. if \<exists>n \<in> set lost. direct_by_nid t n = Some k then None else ctxs b k)
       \<and> actions b' = actions b @ concat (map (handshake_answers b) lost)
       \<and> (\<forall>n j. proxy_at n j (sys b') = (if n \<in> set lost then None else proxy_at n j (sys b)))
       \<and> (\<forall>q. obj_end (store (sys b') q) =
            (if \<exists>n \<in> set lost. \<exists>j. proxy_at n j (sys b) = Some q then Some link_lost else obj_end (store (sys b) q))))"

lemma closed_lost_with:
  assumes wf: "broker_wf b" "rt_wf (tbl (inst b))" and none: "calls (inst b) = []"
    and d: "direct_by_hdl (tbl (inst b)) h = Some nid"
  shows "\<exists>b'. on_connection_closed env h b = Inr b' \<and> lost_with h nid b b'"
proof -
  let ?t = "tbl (inst b)" and ?hops = "get_opt (indirect (tbl (inst b))) nid []"
  note rd = rt_direct [OF wf(2) d]
  have n: "lookup_node h ?t = nid" using d by (simp add: lookup_node_def get_opt_def)
  note sc = shutdown_calls [OF wf(2) rd(4) none]
  define b1 where "b1 = b\<lparr>inst := (handle_node_shutdown nid (inst b))\<lparr>tbl := ?t, calls := []\<rparr>\<rparr>"
  have b1: "tbl (inst b1) = ?t" "ctxs b1 = ctxs b" "sys b1 = sys b" "actions b1 = actions b"
    "handshake_answers b1 = handshake_answers b" "broker_wf b1"
    using wf(1) by (simp_all add: b1_def handshake_answers_def fun_eq_iff broker_wf_def split: option.split)
  have wf1: "rt_wf (tbl (inst b1))" using wf(2) b1(1) by simp
  let ?p = "fold purge_state (nid # ?hops) b1"
  let ?b' = "on_inst (tbl_update (\<lambda>_. snd (erase nid ?t))) ?p"
  have step: "on_connection_closed env h b = Inr ?b'"
    unfolding on_connection_closed_def n Let_def run_calls_def
    using purges_run [of env "nid # ?hops" b1] sc by (simp add: b1_def)
  have "distinct ?hops"
    using wf(2) hops_wfD [of "indirect ?t" "blacklist ?t" nid] by (cases "indirect ?t nid") (auto simp: rt_wf_def get_opt_def)
  then have "actions ?p = actions b @ concat (map (handshake_answers b) (nid # removeAll nid ?hops))"
    using purge_all_actions [of "purge_state nid b1" ?hops] answers_first [OF wf1, of nid ?hops] wf1 b1
    by (simp add: purge_state_one(2))
  then have acts: "actions ?b' = actions b @ concat (map (handshake_answers b) (lost_nodes ?t nid))"
    by (simp only: lost_answers on_inst_frame)
  have lost: "(\<exists>n \<in> set (lost_nodes ?t nid). P n) \<longleftrightarrow> (\<exists>n \<in> set (nid # ?hops). direct_by_nid ?t n \<noteq> None \<and> P n)" for P
    unfolding Bex_def lost_nodes_set by blast
  have ctx: "ctxs ?b' = (\<lambda>k. if \<exists>n \<in> set (lost_nodes ?t nid). direct_by_nid ?t n = Some k then None else ctxs b k)"
    using purge_all_ctxs [OF wf1, of "nid # ?hops"] b1(1,2) by (auto simp: lost fun_eq_iff)
  have ends: "obj_end (store (sys ?b') q) =
      (if \<exists>n \<in> set (lost_nodes ?t nid). \<exists>j. proxy_at n j (sys b) = Some q then Some link_lost else obj_end (store (sys b) q))" for q
    using purge_all_ends [OF wf1 b1(6), of "nid # ?hops" q] unfolding lost b1 by (simp only: on_inst_frame)
  have prox: "proxy_at n j (sys ?b') = (if n \<in> set (lost_nodes ?t nid) then None else proxy_at n j (sys b))" for n j
    using purge_all_proxies [OF wf1, of n j "nid # ?hops"] unfolding lost_nodes_set b1 by (simp only: on_inst_frame)
  have "lost_with h nid b ?b'"
    unfolding lost_with_def Let_def using ctx acts ends prox erase_eq(1-3) [OF wf(2), of nid] rd(1) by simp
  with step show ?thesis by blast
qed

text \<open>
  C31: What the broker does when a connection is closed. If the connection belongs to no node, because its
  handshake has not arrived yet, nothing: the context stays and a request that waits for the handshake gets no
  answer. If it belongs to a node, the broker forgets the connection and the routes of the node; of the node, and of
  each connected node that was a hop to it, it drops the context of the connection, answers a request that
  still waits there with an error, in that order and once, and ends the proxies with the reason
  \<open>remote_link_unreachable\<close> and takes them out of the proxy registry; all other contexts, proxies and actors stay.
\<close>

theorem connection_lost:
  assumes "broker_wf b" and "rt_wf (tbl (inst b))" and "calls (inst b) = []"
  shows "case direct_by_hdl (tbl (inst b)) h of
      None \<Rightarrow> on_connection_closed env h b = Inr b
    | Some nid \<Rightarrow> \<exists>b'. on_connection_closed env h b = Inr b' \<and> lost_with h nid b b'"
proof (cases "direct_by_hdl (tbl (inst b)) h")
  case None
  then have "lookup_node h (tbl (inst b)) = invalid_node_id" by (simp add: lookup_node_def get_opt_def)
  then have "on_connection_closed env h b = Inr b"
    using assms(3) by (cases b) (simp add: on_connection_closed_def handle_node_shutdown_def run_calls_def on_inst_def Let_def)
  with None show ?thesis by simp
next
  case (Some nid)
  with closed_lost_with [OF assms Some] show ?thesis by simp
qed

definition with_proxy :: "node_id \<Rightarrow> actor_id \<Rightarrow> 'b broker \<Rightarrow> 'b broker" where
  "with_proxy n i b = on_sys (\<lambda>s. put_proxy n i (Some (next_ref s))
     (attach_functor (next_ref s) (Drop_proxy n (next_ref s)) (snd (make_actor n i s)))) b"

lemma broker_init_wf: "broker_wf broker_init"
  by (rule broker_reach_wf [OF broker_init_reach])

lemma with_proxy_wf: "broker_wf b \<Longrightarrow> broker_wf (with_proxy n i b)"
  unfolding broker_wf_def with_proxy_def on_sys_frame
  by (intro put_proxy_wf attach_functor_wf make_actor_wf) (simp_all add: attach_store, simp_all add: make_actor_def)

lemma connection_lost_witness:
  "\<exists>b'. on_connection_closed (example_broker_env node_a) 3
       (with_proxy node_b 7 (established 3 node_b (on_connect 3 80 True 9 broker_init))) = Inr b'
     \<and> ctxs b' 3 = None \<and> Answered 9 (Failed Sec_disconnect_during_handshake) \<in> set (actions b')
     \<and> proxy_at node_b 7 (sys b') = None \<and> obj_end (store (sys b') 0) = Some link_lost"
proof -
  let ?i = "on_connect 3 80 True 9 (broker_init :: bytes broker)"
  let ?b = "with_proxy node_b 7 (established 3 node_b ?i)"
  have i: "sys ?i = sys (broker_init :: bytes broker)" "inst ?i = inst broker_init"
    "spawn_servers ?i = spawn_servers (broker_init :: bytes broker)"
    "\<exists>c. ctxs ?i 3 = Some c \<and> callback c = Some 9"
    by (simp_all add: on_connect_def Let_def)
  have w: "broker_wf ?b" by (intro with_proxy_wf) (use broker_init_wf i in \<open>simp add: broker_wf_def\<close>)
  have t: "tbl (inst ?b) = add_direct 3 node_b routing_table_new" "calls (inst ?b) = []"
    "\<exists>c. ctxs ?b 3 = Some c \<and> callback c = Some 9"
    using i by (auto simp: with_proxy_def established_def set_context_def)
  have n: "rt_wf (add_direct 3 node_b routing_table_new)" "direct_by_hdl (add_direct 3 node_b routing_table_new) = [3 \<mapsto> node_b]"
    "direct_by_nid (add_direct 3 node_b routing_table_new) = [node_b \<mapsto> 3]"
    "indirect (add_direct 3 node_b routing_table_new) = Map.empty"
    using established_new [of 3 node_b] by (simp_all add: invalid_connection_handle_def)
  have p: "proxy_at node_b 7 (sys ?b) = Some 0" using i by (simp add: with_proxy_def)
  have l: "lost_nodes (tbl (inst ?b)) node_b = [node_b]"
    "handshake_answers ?b node_b = [Answered 9 (Failed Sec_disconnect_during_handshake)]"
    using t n by (auto simp: lost_nodes_def get_opt_def handshake_answers_def)
  obtain b' where b': "on_connection_closed (example_broker_env node_a) 3 ?b = Inr b'" "lost_with 3 node_b ?b b'"
    using connection_lost [OF w _ t(2), where h = 3 and env = "example_broker_env node_a"] n(1,2) t(1) by auto
  from b'(2) have "ctxs b' 3 = None" "Answered 9 (Failed Sec_disconnect_during_handshake) \<in> set (actions b')"
      "proxy_at node_b 7 (sys b') = None" "obj_end (store (sys b') 0) = Some link_lost"
    using p n(3) t(1) l by (auto simp: lost_with_def Let_def)
  with b'(1) show ?thesis by blast
qed

text \<open>
  When a connection is closed before its handshake has arrived, the broker does nothing: the context stays, and
  the request to connect is not answered.
\<close>

theorem handshake_never_answered:
  assumes "direct_by_hdl (tbl (inst b)) h = None" and "pending b h p" and "calls (inst b) = []"
    and "broker_reach env b"
  shows "on_connection_closed env h b = Inr b \<and> p \<notin> set (answers b)"
proof -
  have "p \<notin> set (answers b)" using broker_reach_promises [OF assms(4)] assms(2) unfolding promises_wf_def by blast
  moreover have "lookup_node h (tbl (inst b)) = invalid_node_id" using assms(1) by (simp add: lookup_node_def get_opt_def)
  then have "on_connection_closed env h b = Inr b"
    using assms(3) by (cases b) (simp add: on_connection_closed_def handle_node_shutdown_def run_calls_def on_inst_def Let_def)
  ultimately show ?thesis by blast
qed

lemma handshake_never_answered_witness:
  "on_connection_closed (example_broker_env node_a) 3 (on_connect 3 80 True 7 broker_init) = Inr (on_connect 3 80 True 7 broker_init)"
proof -
  let ?b = "on_connect 3 80 True 7 (broker_init :: bytes broker)"
  have "event_ok (broker_init :: bytes broker) (Connect 3 80 True 7)" by (simp add: unused_def answers_def pending_def)
  from broker_next [OF broker_init_reach this] have r: "broker_reach (example_broker_env node_a) ?b" by simp
  have "pending ?b 3 7" "tbl (inst ?b) = routing_table_new" "calls (inst ?b) = []"
    by (simp_all add: on_connect_def pending_def Let_def)
  with handshake_never_answered [of ?b 3 7 "example_broker_env node_a"] r show ?thesis by (simp add: routing_table_new_def)
qed

section \<open>Names\<close>

lemma call_functor_names: "named_entries s key = Some v \<Longrightarrow> named_entries (call_functor rsn f s) key = Some v"
  by (cases f) (auto simp: reg_erase_def name_emplace_def)

lemma fold_functors_names: "named_entries s key = Some v \<Longrightarrow> named_entries (fold (call_functor rsn) fs s) key = Some v"
  by (induction fs arbitrary: s) (simp_all add: call_functor_names)

text \<open>
  An actor that is registered under a name keeps the name when it ends: the functor that should reset the entry
  does not overwrite it, and no other actor can get the name.
\<close>

theorem dead_actor_keeps_name:
  assumes "named_entries s key = None" and "obj_end (store s p) = None"
    and s: "s1 = name_put key (Some p) s" "s2 = finish p rsn s1"
  shows "name_get key s1 = Some p \<and> obj_end (store s2 p) = Some rsn \<and> name_get key s2 = Some p
    \<and> name_get key (name_put key (Some q) s2) = Some p"
proof -
  have e: "named_entries s1 key = Some (Some p)" "obj_end (store s1 p) = None"
    using assms(1,2) by (simp_all add: s(1) name_put_def attach_functor_def name_emplace_def)
  then have e2: "named_entries s2 key = Some (Some p)" "obj_end (store s2 p) = Some rsn"
    by (simp_all add: s(2) finish_def fold_functors_names)
  have "named_entries (attach_functor q (Reset_name key) s2) key = Some (Some p)"
    using e2(1) by (simp add: attach_functor_def name_emplace_def split: option.split)
  then have "named_entries (name_put key (Some q) s2) key = Some (Some p)"
    by (simp add: name_put_def name_emplace_def)
  with e e2 show ?thesis by (simp add: name_get_def)
qed

lemma dead_actor_keeps_name_witness:
  "name_get 5 (finish 0 link_lost (name_put 5 (Some 0) (sys (broker_init :: bytes broker)))) = Some 0"
proof -
  let ?s = "sys (broker_init :: bytes broker)"
  have "named_entries ?s 5 = None" "obj_end (store ?s 0) = None" by (simp_all add: broker_init_def)
  from dead_actor_keeps_name [OF this refl refl, of link_lost] show ?thesis by blast
qed

end
