(* ===== verification/BrokerPairs.thy ===== *)
theory BrokerPairs
  imports BrokerProperties
begin

text \<open>
  Two brokers that are connected: the proxies that one has for the actors of the other, from their creation to
  their end, and a message and its reply.
\<close>

section \<open>A proxy is created\<close>

definition announce_header :: "node_id \<Rightarrow> node_id \<Rightarrow> actor_id \<Rightarrow> header" where
  "announce_header src dst i = \<lparr>operation = Announce_proxy, flags = 0, payload_len = 0, operation_data = 0,
     source_node = src, dest_node = dst, source_actor = invalid_actor_id, dest_actor = i\<rparr>"

lemma with_length_nil: "payload_len hdr = 0 \<Longrightarrow> with_length hdr [] = hdr"
  by (simp add: with_length_def)

lemma announce_written:
  "write_announce_proxy env h dst i j =
     j\<lparr>wr_buf := (wr_buf j)(h := wr_buf j h @ message_bytes (announce_header (this_node env) dst i) [])\<rparr>"
proof -
  let ?h = "announce_header (this_node env) dst i"
  have "with_length ?h [] = ?h" by (rule with_length_nil) (simp add: announce_header_def)
  then have "message_bytes ?h [] = header_bytes ?h" by (simp add: message_bytes_def)
  then show ?thesis
    by (simp add: write_announce_proxy_def write_to_def write_msg_header announce_header_def)
qed

text \<open>What asking for a new proxy of a connected node does.\<close>

lemma get_or_put_new:
  assumes new: "proxy_at nid i (sys b) = None" and c: "this_context b = Some k" "ctxs b k = Some c" "ctx_hdl c = k"
    and r: "rt_wf (tbl (inst b))" "direct_by_nid (tbl (inst b)) nid = Some h" and ok: "nid \<noteq> invalid_node_id" "i \<noteq> 0"
  shows "\<exists>b'. get_or_put env nid i b = Inr (Some (next_ref (sys b)), b')
    \<and> wr_buf (inst b') = (wr_buf (inst b))(k := wr_buf (inst b) k @ message_bytes (announce_header (me env) nid i) [])
    \<and> flushes (inst b') = flushes (inst b) @ [h] \<and> tbl (inst b') = tbl (inst b) \<and> calls (inst b') = calls (inst b)
    \<and> published_actors (inst b') = published_actors (inst b)
    \<and> ctxs b' = ctxs b \<and> this_context b' = this_context b \<and> actions b' = actions b \<and> spawn_servers b' = spawn_servers b
    \<and> broker_terminated b' = broker_terminated b
    \<and> sys b' = put_proxy nid i (Some (next_ref (sys b))) (attach_functor (next_ref (sys b)) (Drop_proxy nid (next_ref (sys b)))
         (snd (make_actor nid i (put_proxy nid i None (sys b)))))"
proof -
  have l: "lookup nid (tbl (inst b)) = (Some \<lparr>next_hop = nid, hdl = h\<rparr>, tbl (inst b))" by (rule lookup_eq(1) [OF r])
  have ld: "lookup_direct nid (tbl (inst b)) \<noteq> invalid_connection_handle" using lookup_direct_None [OF r(1)] r(2) by simp
  define b0 where "b0 = on_sys (put_proxy nid i None) b"
  have b0: "inst b0 = inst b" "sys b0 = put_proxy nid i None (sys b)" "this_ctx b0 = Inr c" "ctxs b0 = ctxs b"
      "this_context b0 = this_context b" "actions b0 = actions b" "spawn_servers b0 = spawn_servers b"
      "broker_terminated b0 = broker_terminated b"
    using c by (simp_all add: b0_def this_ctx_def ctx_at_def)
  have o: "offer_route env (ctx_id c) nid b0 = b0" using ld by (simp add: offer_route_def b0)
  have g: "get_or_put env nid i b = bindR (make_proxy env nid i b0) (\<lambda>(r, b). Inr (r, on_sys (put_proxy nid i r) b))"
    using new by (auto simp: get_or_put_def proxy_at_def b0_def split: option.splits)
  show ?thesis
    unfolding g using ok l c(3)
    by (simp add: make_proxy_def invalid_actor_id_def b0 o broker_lookup_eq make_actor_def announce_written flush_def)
qed

text \<open>
  A proxy of an actor of a third node is announced on the connection that is being read, but the connection
  of the route is flushed: the announcement waits until something else is sent to the node it goes to first.
\<close>

theorem announcement_not_flushed:
  assumes "proxy_at nid i (sys b) = None" and "this_context b = Some k" "ctxs b k = Some c" "ctx_hdl c = k"
    and "rt_wf (tbl (inst b))" "direct_by_nid (tbl (inst b)) nid = Some h" and "nid \<noteq> invalid_node_id" "i \<noteq> 0"
    and other: "h \<noteq> k"
  shows "\<exists>p b'. get_or_put env nid i b = Inr (Some p, b')
    \<and> wr_buf (inst b') k = wr_buf (inst b) k @ message_bytes (announce_header (me env) nid i) []
    \<and> wr_buf (inst b') h = wr_buf (inst b) h \<and> flushes (inst b') = flushes (inst b) @ [h]"
  using get_or_put_new [OF assms(1-8), of env] other by fastforce

section \<open>An actor ends\<close>

text \<open>A connection on which the handshake is done and no payload is awaited.\<close>

definition linked :: "handle \<Rightarrow> node_id \<Rightarrow> 'b broker \<Rightarrow> bool" where
  "linked h n b \<longleftrightarrow> rt_wf (tbl (inst b)) \<and> direct_by_nid (tbl (inst b)) n = Some h \<and> calls (inst b) = []
     \<and> (\<exists>c. ctxs b h = Some c \<and> cstate c = Await_header \<and> ctx_hdl c = h)"

definition kill_header :: "node_id \<Rightarrow> node_id \<Rightarrow> actor_id \<Rightarrow> header" where
  "kill_header src dst i = \<lparr>operation = Kill_proxy, flags = 0, payload_len = 0, operation_data = 0,
     source_node = src, dest_node = dst, source_actor = i, dest_actor = invalid_actor_id\<rparr>"

lemma tell_silent: "calls i = [] \<Longrightarrow> (tell cs i)\<lparr>calls := []\<rparr> = i"
  by (simp add: tell_def)

text \<open>A message whose handling is a list of calls, which leave the context in place.\<close>

lemma linked_receives:
  assumes ok: "header_ok hdr" and v: "header_valid (with_length hdr bs)" and l: "length bs < 2 ^ 32"
    and k: "linked h n b"
    and hm: "handle_message (protocol env) h (with_length hdr bs) (if bs = [] then None else Some bs) (inst b) = (Inr Await_header, i)"
    and run: "\<And>c. ctxs b h = Some c \<Longrightarrow> run_calls env i (receiving h c (with_length hdr bs) bs b) = Inr (b1 c)
        \<and> ctxs (b1 c) = ctxs (receiving h c (with_length hdr bs) bs b)"
  shows "\<exists>c b'. ctxs b h = Some c \<and> broker_receive env h (message_bytes hdr bs) b = Inr (Went_on b')
    \<and> inst b' = inst (b1 c) \<and> sys b' = sys (b1 c) \<and> this_context b' = this_context (b1 c)
    \<and> spawn_servers b' = spawn_servers (b1 c) \<and> broker_terminated b' = broker_terminated (b1 c)
    \<and> (\<exists>ds. actions b' = actions (b1 c) @ ds \<and> set ds \<subseteq> {Read_exactly h header_size})
    \<and> ctxs b' = (ctxs b)(h \<mapsto> c\<lparr>ctx_hdr := with_length hdr bs, cstate := Await_header\<rparr>)"
proof -
  obtain c where c: "ctxs b h = Some c" "cstate c = Await_header" "calls (inst b) = []" using k by (auto simp: linked_def)
  note r = run [OF c(1)]
  have "ctx_at h (b1 c) = Inr (c\<lparr>ctx_hdr := with_length hdr bs, cstate := if bs = [] then Await_header else Await_payload\<rparr>)"
    using r by (simp add: ctx_at_def receiving_def)
  with broker_receive_message [OF ok v l c hm] r
  have "broker_receive env h (message_bytes hdr bs) b = Inr (Went_on (if bs = [] then b1 c
      else set_ctx h (c\<lparr>ctx_hdr := with_length hdr bs, cstate := Await_header\<rparr>) (broker_act [Read_exactly h header_size] (b1 c))))"
    by simp
  with c(1) r show ?thesis by (cases "bs = []") (auto simp: receiving_def)
qed

lemma linkedI:
  "linked h n b \<Longrightarrow> tbl (inst b') = tbl (inst b) \<Longrightarrow> calls (inst b') = [] \<Longrightarrow> ctxs b h = Some c
   \<Longrightarrow> ctxs b' = (ctxs b)(h \<mapsto> c\<lparr>ctx_hdr := hdr, cstate := Await_header\<rparr>) \<Longrightarrow> linked h n b'"
  by (auto simp: linked_def)

lemma announce_received:
  assumes k: "linked h nb a" and e: "reg_get i (sys a) = Some p" "obj_end (store (sys a) p) = None"
    and n: "node_ok nb" "node_ok (me env)" "nb \<noteq> invalid_node_id" "me env \<noteq> invalid_node_id" "nb \<noteq> me env" "i \<noteq> 0"
  shows "\<exists>a'. broker_receive env h (message_bytes (announce_header nb (me env) i) []) a = Inr (Went_on a')
    \<and> linked h nb a' \<and> inst a' = inst a \<and> sys a' = attach_functor p (Announce_end nb i) (sys a)
    \<and> broker_terminated a' = broker_terminated a"
proof -
  let ?h = "announce_header nb (me env) i"
  have w: "with_length ?h [] = ?h" by (rule with_length_nil) (simp add: announce_header_def)
  have ok: "header_ok ?h" using n by (simp add: header_ok_def announce_header_def)
  have v: "header_valid ?h" using n by (simp add: header_valid_def announce_header_def validity_defs invalid_actor_id_def)
  have none: "calls (inst a) = []" using k by (simp add: linked_def)
  have hm: "handle_message (protocol env) h (with_length ?h []) (if [] = ([] :: bytes) then None else Some []) (inst a)
      = (Inr Await_header, tell [Proxy_announced nb i] (inst a))"
    unfolding w by (simp add: handle_message_def announce_header_def is_handshake_def is_heartbeat_def)
  define b1 where "b1 = (\<lambda>c. on_sys (attach_functor p (Announce_end nb i)) (receiving h c ?h [] a))"
  have "run_calls env (tell [Proxy_announced nb i] (inst a)) (receiving h c (with_length ?h []) [] a) = Inr (b1 c)
      \<and> ctxs (b1 c) = ctxs (receiving h c (with_length ?h []) [] a)" for c
  proof -
    have "(receiving h c ?h [] a)\<lparr>inst := inst a\<rparr> = receiving h c ?h [] a" by (cases a) (simp add: receiving_def)
    then show ?thesis
      using e none by (simp add: run_calls_def tell_silent w proxy_announced_def b1_def)
  qed
  from linked_receives [OF ok _ _ k hm, of b1] this v w obtain c a' where "ctxs a h = Some c"
      "broker_receive env h (message_bytes ?h []) a = Inr (Went_on a')" "inst a' = inst a"
      "sys a' = attach_functor p (Announce_end nb i) (sys a)" "broker_terminated a' = broker_terminated a"
      "ctxs a' = (ctxs a)(h \<mapsto> c\<lparr>ctx_hdr := ?h, cstate := Await_header\<rparr>)"
    by (auto simp: b1_def) (auto simp: receiving_def)
  moreover from this k none have "linked h nb a'" by (auto intro: linkedI)
  ultimately show ?thesis by blast
qed

text \<open>The reason that is reported: an actor that ended normally has none.\<close>

definition reported :: "error \<Rightarrow> error" where
  "reported rsn = (if is_error rsn then rsn else make_exit_error Unknown)"

lemma end_written:
  assumes codec: "codec (save_reason (protocol env)) (load_reason env') enc good"
    and k: "linked h nb a" and n: "node_ok nb" "node_ok (me env)"
    and p: "obj_end (store (sys a) p) = None" "obj_functors (store (sys a) p) = [Announce_end nb i, Erase_entry i]"
    and q: "posted (sys a) = []" and alive: "\<not> broker_terminated a"
  shows "wr_buf (inst (run_posted env (on_sys (finish p rsn) a))) =
    (wr_buf (inst a))(h := wr_buf (inst a) h @ message_bytes (kill_header (me env) nb i) (enc (reported rsn)))"
proof -
  let ?a = "on_sys (finish p rsn) a" and ?h = "kill_header (me env) nb i"
  have post: "posted (sys ?a) = [Kill_proxy_task nb i rsn]" using p q by (simp add: finish_def reg_erase_def)
  have put: "save_reason (protocol env) x sb = save_raw (enc x) sb" for x sb using codec.put_enc [OF codec] .
  have w: "write_msg buf ?h (Some (save_reason (protocol env) x)) = (with_length ?h (enc x), buf @ message_bytes ?h (enc x))" for buf x
    using n by (intro write_msg_payload put) (simp_all add: kill_header_def node_ok_def)
  have l: "lookup nb (tbl (inst a)) = (Some \<lparr>next_hop = nb, hdl = h\<rparr>, tbl (inst a))"
    using k by (intro lookup_eq(1)) (simp_all add: linked_def)
  have "run_posted env ?a = run_task env (Kill_proxy_task nb i rsn) (on_sys (posted_update (\<lambda>_. [])) ?a)"
    by (simp add: run_posted_def post del: on_sys_frame(4))
  also have "wr_buf (inst \<dots>) = (wr_buf (inst a))(h := wr_buf (inst a) h @ message_bytes ?h (enc (reported rsn)))"
    using alive l w by (simp add: run_task_def send_kill_proxy_instance_def broker_lookup_eq reported_def flush_def
        write_kill_proxy_def write_to_def kill_header_def [symmetric] Let_def)
  finally show ?thesis .
qed

lemma kill_received:
  assumes codec: "codec (save_reason env') (load_reason (protocol env)) enc good"
    and x: "good x" "enc x \<noteq> []" "length (enc x) < 2 ^ 32"
    and k: "linked k na b"
    and n: "node_ok na" "node_ok (me env)" "na \<noteq> invalid_node_id" "me env \<noteq> invalid_node_id" "na \<noteq> me env" "i \<noteq> 0"
  shows "\<exists>b'. broker_receive env k (message_bytes (kill_header na (me env) i) (enc x)) b = Inr (Went_on b')
    \<and> linked k na b' \<and> inst b' = inst b \<and> sys b' = erase_proxy na i x (sys b)"
proof -
  let ?h = "kill_header na (me env) i" and ?p = "enc x"
  let ?w = "with_length ?h ?p"
  have ok: "header_ok ?h" using n by (simp add: header_ok_def kill_header_def)
  have len: "(of_nat (length ?p) :: u32) \<noteq> 0" "unat (of_nat (length ?p) :: u32) = length ?p"
    using word_length_pos [OF x(3,2)] x(3) by (simp_all add: unat_of_nat take_bit_nat_eq_self)
  have v: "header_valid ?w"
    using n len(1) by (simp add: header_valid_def kill_header_def validity_defs invalid_actor_id_def)
  have none: "calls (inst b) = []" using k by (simp add: linked_def)
  have get: "load_reason (protocol env) ?p = Inr (x, [])" using codec.get_enc [OF codec x(1), of "[]"] by simp
  have hm: "handle_message (protocol env) k ?w (if ?p = [] then None else Some ?p) (inst b)
      = (Inr Await_header, tell [Kill_proxy_call na i x] (inst b))"
    using x(2) len(2) get
    by (simp add: handle_message_def kill_header_def is_handshake_def is_heartbeat_def handle_kill_proxy_def payload_valid_def)
  define b1 where "b1 = (\<lambda>c. on_sys (erase_proxy na i x) (receiving k c ?w ?p b))"
  have "run_calls env (tell [Kill_proxy_call na i x] (inst b)) (receiving k c ?w ?p b) = Inr (b1 c)
      \<and> ctxs (b1 c) = ctxs (receiving k c ?w ?p b)" for c
  proof -
    have "(receiving k c ?w ?p b)\<lparr>inst := inst b\<rparr> = receiving k c ?w ?p b" by (cases b) (simp add: receiving_def)
    then show ?thesis using none by (simp add: run_calls_def tell_silent kill_proxy_call_def b1_def)
  qed
  from linked_receives [OF ok v x(3) k hm, of b1] this obtain c b' where "ctxs b k = Some c"
      "broker_receive env k (message_bytes ?h ?p) b = Inr (Went_on b')" "inst b' = inst b"
      "sys b' = erase_proxy na i x (sys b)" "ctxs b' = (ctxs b)(k \<mapsto> c\<lparr>ctx_hdr := ?w, cstate := Await_header\<rparr>)"
    by (auto simp: b1_def)
  moreover from this k none have "linked k na b'" by (auto intro: linkedI)
  ultimately show ?thesis by blast
qed

text \<open>
  C29: When a broker gets a proxy for an actor of a connected node, it tells the node; when that actor ends, the
  node tells the broker, and the proxy ends with the reason of the actor and is no longer registered. If the
  actor ended normally, the reason is \<open>unknown\<close>.
\<close>

theorem actor_end_reported:
  assumes codec: "codec (save_reason (protocol ea)) (load_reason (protocol eb)) enc good"
    and x: "good (reported rsn)" "enc (reported rsn) \<noteq> []" "length (enc (reported rsn)) < 2 ^ 32"
    and a: "linked h (me eb) a" "reg_get i (sys a) = Some p" "obj_end (store (sys a) p) = None"
      "obj_functors (store (sys a) p) = [Erase_entry i]" "posted (sys a) = []" "\<not> broker_terminated a"
    and b: "linked k (me ea) b" "proxy_at (me ea) i (sys b) = None" "this_context b = Some k" "broker_wf b"
    and n: "node_ok (me ea)" "node_ok (me eb)" "me ea \<noteq> invalid_node_id" "me eb \<noteq> invalid_node_id" "me ea \<noteq> me eb" "i \<noteq> 0"
  shows "\<exists>q b1 m1 a1 m2 b2. get_or_put eb (me ea) i b = Inr (Some q, b1)
    \<and> wr_buf (inst b1) k = wr_buf (inst b) k @ m1 \<and> k \<in> set (flushes (inst b1))
    \<and> obj_end (store (sys b1) q) = None \<and> proxy_at (me ea) i (sys b1) = Some q
    \<and> broker_receive ea h m1 a = Inr (Went_on a1)
    \<and> wr_buf (inst (run_posted ea (on_sys (finish p rsn) a1))) h = wr_buf (inst a) h @ m2
    \<and> broker_receive eb k m2 b1 = Inr (Went_on b2)
    \<and> obj_end (store (sys b2) q) = Some (reported rsn) \<and> proxy_at (me ea) i (sys b2) = None"
proof -
  obtain c where c: "ctxs b k = Some c" "ctx_hdl c = k" "rt_wf (tbl (inst b))" "direct_by_nid (tbl (inst b)) (me ea) = Some k"
    using b(1) by (auto simp: linked_def)
  obtain b1 where b1: "get_or_put eb (me ea) i b = Inr (Some (next_ref (sys b)), b1)"
      "wr_buf (inst b1) k = wr_buf (inst b) k @ message_bytes (announce_header (me eb) (me ea) i) []"
      "flushes (inst b1) = flushes (inst b) @ [k]" "tbl (inst b1) = tbl (inst b)" "calls (inst b1) = calls (inst b)" "ctxs b1 = ctxs b"
    using get_or_put_new [OF b(2,3) c(1,2,3,4) n(3,6), of eb] by auto
  have k1: "linked k (me ea) b1" using b(1) by (simp add: linked_def b1(4-6))
  have w1: "broker_wf b1" and at: "proxy_at (me ea) i (sys b1) = Some (next_ref (sys b))"
    using get_or_put_wf [OF b1(1) b(4)] by simp_all
  then have live: "obj_end (store (sys b1) (next_ref (sys b))) = None"
    using proxies_wfD by (auto simp: broker_wf_def sys_wf_def)
  obtain a1 where a1: "broker_receive ea h (message_bytes (announce_header (me eb) (me ea) i) []) a = Inr (Went_on a1)"
      "linked h (me eb) a1" "inst a1 = inst a" "sys a1 = attach_functor p (Announce_end (me eb) i) (sys a)"
      "broker_terminated a1 = broker_terminated a"
    using announce_received [OF a(1,2,3), of ea] n by auto
  have p1: "obj_end (store (sys a1) p) = None" "obj_functors (store (sys a1) p) = [Announce_end (me eb) i, Erase_entry i]"
    "posted (sys a1) = []" using a(3,4,5) by (simp_all add: a1(4) attach_functor_def)
  let ?m2 = "message_bytes (kill_header (me ea) (me eb) i) (enc (reported rsn))"
  have w2: "wr_buf (inst (run_posted ea (on_sys (finish p rsn) a1))) h = wr_buf (inst a) h @ ?m2"
    using end_written [OF codec a1(2) n(2,1) p1, of rsn] a(6) a1(3,5) by simp
  obtain b2 where "broker_receive eb k ?m2 b1 = Inr (Went_on b2)" "sys b2 = erase_proxy (me ea) i (reported rsn) (sys b1)"
    using kill_received [OF codec x k1 n(1,2,3,4,5,6)] by blast
  with b1(1-3) a1(1) w2 live at show ?thesis
    by (intro exI [of _ "next_ref (sys b)"] exI [of _ b1] exI [of _ a1] exI [of _ b2] exI [of _ ?m2]
        exI [of _ "message_bytes (announce_header (me eb) (me ea) i) []"]) (simp add: erase_proxy_ends erase_proxy_at)
qed

text \<open>Two brokers with an exit reason for an error, of which the first has an actor and the second asks for it.\<close>

lemma example_codec:
  "codec (save_reason (protocol (example_broker_env m))) (load_reason (protocol (example_broker_env n)))
     (\<lambda>e. int_bytes (err_code e)) (\<lambda>e. e = error_of (err_code e) (the (atom ''exit'')))"
proof
  fix x :: error and sb :: streambuf and rest :: bytes
  show "save_reason (protocol (example_broker_env m)) x sb = save_raw (int_bytes (err_code x)) sb"
    by (simp add: example_broker_env_def save_int_enc)
  assume x: "x = error_of (err_code x) (the (atom ''exit''))"
  have "load_int 1 (int_bytes (err_code x) @ rest) = Inr (err_code x, rest)" by (simp add: load_int_enc)
  with x show "load_reason (protocol (example_broker_env n)) (int_bytes (err_code x) @ rest) = Inr (x, rest)"
    by (simp add: example_broker_env_def)
qed

definition owner :: "bytes broker" where "owner = established 3 node_b (publishing_broker node_a)"

definition observer :: "bytes broker" where "observer = established 4 node_a broker_init"

lemma publishing_broker_state:
  "sys (publishing_broker n) = (sys (broker_init :: bytes broker))\<lparr>last_id := 1, next_ref := 1,
     store := (store (sys (broker_init :: bytes broker)))(0 := \<lparr>obj_node = n, obj_id = 1, obj_end = None, obj_functors = [Erase_entry 1]\<rparr>),
     id_entries := [1 \<mapsto> 0]\<rparr>"
  "ctxs (publishing_broker n) = Map.empty" "tbl (inst (publishing_broker n)) = routing_table_new"
  "calls (inst (publishing_broker n)) = []" "broker_terminated (publishing_broker n) = False"
  by (simp_all add: publishing_broker_def on_publish_def invalid_connection_handle_def Let_def silent_def spawn_helper_eq
      make_actor_def reg_put_def attach_functor_def add_published_actor_def example_broker_env_def)
    (simp_all add: broker_init_def tell_def)

lemma established_linked:
  "ctxs b h = None \<Longrightarrow> tbl (inst b) = routing_table_new \<Longrightarrow> calls (inst b) = [] \<Longrightarrow> h \<noteq> invalid_connection_handle \<Longrightarrow>
   n \<noteq> invalid_node_id \<Longrightarrow> linked h n (established h n b)"
  using established_new [of h n] established_ctx [of b h n] by (simp add: linked_def)

lemma me_example [simp]: "me (example_broker_env n) = n"
  by (simp add: example_broker_env_def)

lemma owner_linked: "linked 3 node_b owner"
  unfolding owner_def by (rule established_linked) (simp_all add: publishing_broker_state invalid_connection_handle_def)

lemma observer_linked: "linked 4 node_a observer"
  unfolding observer_def by (rule established_linked) (simp_all add: invalid_connection_handle_def)

lemma observer_state: "sys observer = sys (broker_init :: bytes broker)" "this_context observer = Some 4"
  "proxy_at n i (sys observer) = None"
  by (simp_all add: observer_def) (simp_all add: established_def proxy_at_def submap_of_def)

lemma observer_wf: "broker_wf observer"
  using broker_init_wf by (simp add: broker_wf_def observer_state(1))

lemma actor_end_reported_witness:
  "\<exists>q b1 a1 m2 b2. get_or_put (example_broker_env node_b) node_a 1 observer = Inr (Some q, b1)
     \<and> wr_buf (inst (run_posted (example_broker_env node_a) (on_sys (finish 0 (make_exit_error Kill)) a1))) 3 = wr_buf (inst owner) 3 @ m2
     \<and> broker_receive (example_broker_env node_b) 4 m2 b1 = Inr (Went_on b2)
     \<and> obj_end (store (sys b2) q) = Some (make_exit_error Kill)"
proof -
  have o: "reg_get 1 (sys owner) = Some 0" "obj_end (store (sys owner) 0) = None"
    "obj_functors (store (sys owner) 0) = [Erase_entry 1]" "posted (sys owner) = []" "\<not> broker_terminated owner"
    by (simp_all add: owner_def reg_get_def publishing_broker_state)
      (simp_all add: established_def set_context_def publishing_broker_state)
  have r: "reported (make_exit_error Kill) = make_exit_error Kill"
    by (simp add: reported_def is_error_def make_exit_error_def error_of_def)
  have x: "make_exit_error Kill = error_of (err_code (make_exit_error Kill)) (the (atom ''exit''))"
    by (simp add: make_exit_error_def error_of_def)
  have l: "length (int_bytes (err_code (make_exit_error Kill))) = 1" by simp
  then have "int_bytes (err_code (make_exit_error Kill)) \<noteq> []" by (metis list.size(3) zero_neq_one)
  with l have y: "int_bytes (err_code (make_exit_error Kill)) \<noteq> []" "length (int_bytes (err_code (make_exit_error Kill))) < 2 ^ 32"
    by simp_all
  from actor_end_reported [OF example_codec [of node_a node_b], of "make_exit_error Kill" 3 owner 1 0 4 observer]
    o r x y owner_linked observer_linked observer_state observer_wf nodes_ok
  show ?thesis by (simp del: length_int_bytes) blast
qed

lemma announcement_not_flushed_witness:
  "\<exists>p b'. get_or_put (example_broker_env node_b) node_c 7 (established 5 node_c observer\<lparr>this_context := Some 4\<rparr>) = Inr (Some p, b')
     \<and> flushes (inst b') = flushes (inst observer) @ [5]"
proof -
  let ?t = "add_direct 5 node_c (add_direct 4 node_a routing_table_new)"
  let ?b = "established 5 node_c observer\<lparr>this_context := Some 4\<rparr>"
  have n: "rt_wf (add_direct 4 node_a routing_table_new)" "direct_by_hdl (add_direct 4 node_a routing_table_new) = [4 \<mapsto> node_a]"
    "direct_by_nid (add_direct 4 node_a routing_table_new) = [node_a \<mapsto> 4]"
    using established_new [of 4 node_a] by (simp_all add: invalid_connection_handle_def)
  then have t: "rt_wf ?t" "direct_by_nid ?t node_c = Some 5"
    using add_direct_new [of "add_direct 4 node_a routing_table_new" node_c 5]
    by (auto intro!: add_direct_wf simp: invalid_connection_handle_def)
  have c: "ctxs ?b 4 = Some \<lparr>cstate = Await_header, ctx_hdr = header_init, ctx_hdl = 4, ctx_id = invalid_node_id, remote_port = 0, callback = None\<rparr>"
    using established_ctx [of "broker_init :: bytes broker" 4 node_a]
    by (simp add: established_def [of 5] set_context_def observer_def [symmetric])
  have i: "tbl (inst ?b) = ?t" "flushes (inst ?b) = flushes (inst observer)" "sys ?b = sys observer"
    by (simp_all add: observer_def) (simp_all add: established_def)
  from announcement_not_flushed [of node_c 7 ?b 4 _ 5 "example_broker_env node_b", OF _ _ c] i t observer_state(3)
  show ?thesis by simp blast
qed

section \<open>A message and its reply\<close>

text \<open>Asking for a proxy of a connected node, whether there is one already or not.\<close>

lemma get_or_put_linked:
  assumes c': "ctxs b k = Some c" "ctx_hdl c = k" "rt_wf (tbl (inst b))" "direct_by_nid (tbl (inst b)) nid = Some k" "calls (inst b) = []"
    and c: "this_context b = Some k" and w: "broker_wf b" and ok: "nid \<noteq> invalid_node_id" "i \<noteq> 0"
  shows "\<exists>q b'. get_or_put env nid i b = Inr (Some q, b') \<and> tbl (inst b') = tbl (inst b) \<and> calls (inst b') = []
    \<and> ctxs b' = ctxs b \<and> this_context b' = this_context b \<and> actions b' = actions b \<and> proxy_at nid i (sys b') = Some q
    \<and> broker_wf b' \<and> obj_node (store (sys b') q) = nid \<and> obj_id (store (sys b') q) = i
    \<and> (\<forall>p < next_ref (sys b). obj_node (store (sys b') p) = obj_node (store (sys b) p)
         \<and> obj_id (store (sys b') p) = obj_id (store (sys b) p)) \<and> next_ref (sys b) \<le> next_ref (sys b')
    \<and> id_entries (sys b') = id_entries (sys b)"
proof -
  obtain q b' where g: "get_or_put env nid i b = Inr (Some q, b')" and f: "tbl (inst b') = tbl (inst b)" "calls (inst b') = []"
      "id_entries (sys b') = id_entries (sys b)" "next_ref (sys b) \<le> next_ref (sys b')"
      "\<forall>p < next_ref (sys b). obj_node (store (sys b') p) = obj_node (store (sys b) p) \<and> obj_id (store (sys b') p) = obj_id (store (sys b) p)"
  proof (cases "proxy_at nid i (sys b)")
    case (Some q)
    then have "get_or_put env nid i b = Inr (Some q, b)" by (simp add: get_or_put_def proxy_at_def split: option.splits)
    then show ?thesis using that c'(5) by auto
  next
    case None
    from get_or_put_new [OF None c c'(1-4) ok, of env] that c'(5) show ?thesis
      by (fastforce simp: attach_functor_def make_actor_def)
  qed
  have w': "broker_wf b'" "proxy_at nid i (sys b') = Some q" using get_or_put_wf [OF g w] by simp_all
  then have "obj_node (store (sys b') q) = nid \<and> obj_id (store (sys b') q) = i"
    using proxies_wfD by (auto simp: broker_wf_def sys_wf_def)
  with g f w' get_or_put_frame [OF g] show ?thesis by blast
qed

lemma dispatch_received:
  assumes body: "codec (save_body env') (load_body (protocol env)) enc good" "good msg" "enc msg \<noteq> []" "length (enc msg) < 2 ^ 32"
    and k: "linked k na b" and w: "broker_wf b" and p: "reg_get r (sys b) = Some p"
    and n: "node_ok na" "node_ok (me env)" "na \<noteq> invalid_node_id" "me env \<noteq> invalid_node_id" "na \<noteq> me env" "s \<noteq> 0" "r \<noteq> 0"
  shows "\<exists>q b'. broker_receive env k (message_bytes (dispatch_header sender_env (Some (na, s)) (me env) r mid) (enc msg)) b = Inr (Went_on b')
    \<and> actions b' = actions b @ [Read_exactly k (length (enc msg)), To_mailbox p (Some q) mid msg, Read_exactly k header_size]
    \<and> obj_node (store (sys b') q) = na \<and> obj_id (store (sys b') q) = s \<and> proxy_at na s (sys b') = Some q
    \<and> obj_node (store (sys b') p) = obj_node (store (sys b) p) \<and> obj_id (store (sys b') p) = obj_id (store (sys b) p)
    \<and> linked k na b' \<and> broker_wf b' \<and> reg_get r (sys b') = Some p
    \<and> id_entries (sys b') = id_entries (sys b) \<and> next_ref (sys b) \<le> next_ref (sys b')
    \<and> (\<forall>x < next_ref (sys b). obj_node (store (sys b') x) = obj_node (store (sys b) x) \<and> obj_id (store (sys b') x) = obj_id (store (sys b) x))"
proof -
  define H where "H = dispatch_header sender_env (Some (na, s)) (me env) r mid"
  let ?p = "enc msg" and ?w = "with_length H (enc msg)"
  have h: "operation H = Dispatch_message" "source_node H = na" "dest_node H = me env" "dest_actor H = r"
    "source_actor H = s" "flags H = 0" "operation_data H = integer_value mid"
    by (simp_all add: H_def dispatch_header_def)
  have ok: "header_ok H" using n h by (simp add: header_ok_def)
  have len: "(of_nat (length ?p) :: u32) \<noteq> 0" "unat (of_nat (length ?p) :: u32) = length ?p"
    using word_length_pos [OF body(4,3)] body(4) by (simp_all add: unat_of_nat take_bit_nat_eq_self)
  have v: "header_valid ?w" using n len(1) by (simp add: header_valid_def validity_defs h)
  have get: "load_body (protocol env) ?p = Inr (msg, [])" using codec.get_enc [OF body(1,2), of "[]"] by simp
  obtain c0 where c0: "ctxs b k = Some c0" "ctx_hdl c0 = k" "cstate c0 = Await_header" "rt_wf (tbl (inst b))"
      "direct_by_nid (tbl (inst b)) na = Some k" "calls (inst b) = []"
    using k by (auto simp: linked_def)
  have ld: "lookup_direct na (tbl (inst b)) \<noteq> invalid_connection_handle" using lookup_direct_None [OF c0(4)] c0(5) by simp
  have hm: "handle_message (protocol env) k ?w (if ?p = [] then None else Some ?p) (inst b)
      = (Inr Await_header, tell [Deliver na s r mid msg] (inst b))"
    using body(3) len(2) get ld
    by (simp add: handle_message_def is_handshake_def is_heartbeat_def handle_dispatch_def h payload_valid_def
        load_dispatched_def from_integer_value_def has_flag_def Let_def)
  define b0 where "b0 = receiving k c0 ?w ?p b"
  have b0: "this_context b0 = Some k" "broker_wf b0" "sys b0 = sys b" "inst b0 = inst b"
      "actions b0 = actions b @ [Read_exactly k (length ?p)]" "b0\<lparr>inst := inst b\<rparr> = b0" using w body(3)
    by (simp_all add: b0_def broker_wf_def) (simp_all add: receiving_def)
  have cb0: "ctxs b0 k = Some (c0\<lparr>ctx_hdr := ?w, cstate := Await_payload\<rparr>)" using body(3) by (simp add: b0_def receiving_def)
  have pre: "rt_wf (tbl (inst b0))" "direct_by_nid (tbl (inst b0)) na = Some k" "calls (inst b0) = []" using c0 b0(4) by simp_all
  from get_or_put_linked [OF cb0 _ pre b0(1,2) n(3,6), of env] c0(2)
  obtain q b1 where q: "get_or_put env na s b0 = Inr (Some q, b1)" "tbl (inst b1) = tbl (inst b)" "calls (inst b1) = []"
      "ctxs b1 = ctxs b0" "actions b1 = actions b0" "proxy_at na s (sys b1) = Some q" "broker_wf b1"
      "obj_node (store (sys b1) q) = na" "obj_id (store (sys b1) q) = s" "id_entries (sys b1) = id_entries (sys b)"
      "\<forall>p < next_ref (sys b). obj_node (store (sys b1) p) = obj_node (store (sys b) p) \<and> obj_id (store (sys b1) p) = obj_id (store (sys b) p)"
      "next_ref (sys b) \<le> next_ref (sys b1)"
    using b0(3,4) by auto
  have run: "run_calls env (tell [Deliver na s r mid msg] (inst b)) b0 = Inr (broker_act [To_mailbox p (Some q) mid msg] b1)"
    using c0(6) b0(6) q(1) p n(5) b0(3) by (simp add: run_calls_def tell_silent deliver_to_def)
  have at: "ctx_at k (broker_act [To_mailbox p (Some q) mid msg] b1) = Inr (c0\<lparr>ctx_hdr := ?w, cstate := Await_payload\<rparr>)"
    using cb0 q(4) by (simp add: ctx_at_def)
  define b' where "b' = set_ctx k (c0\<lparr>ctx_hdr := ?w, cstate := Await_header\<rparr>)
    (broker_act [Read_exactly k header_size] (broker_act [To_mailbox p (Some q) mid msg] b1))"
  have rcv: "broker_receive env k (message_bytes H ?p) b = Inr (Went_on b')"
    using broker_receive_message [OF ok v body(4) c0(1,3,6) hm] run at by (simp add: b'_def b0_def [symmetric])
  have lk: "linked k na b'" using c0 q(2,3) by (simp add: linked_def b'_def)
  have "p < next_ref (sys b)" using w p by (auto simp: broker_wf_def sys_wf_def reg_get_def dest: entries_wfD)
  then show ?thesis unfolding H_def [symmetric]
    using rcv lk q b0(5) p
    by (intro exI [of _ q] exI [of _ b']) (simp add: b'_def broker_wf_def reg_get_def)
qed

lemma forward_written:
  assumes body: "codec (save_body (protocol env)) load enc good"
    and k: "linked k na b" and d: "obj_node (store (sys b) q) = na" "obj_id (store (sys b) q) = s"
    and p: "obj_node (store (sys b) p) = me env" "obj_id (store (sys b) p) = r"
    and n: "node_ok na" "node_ok (me env)" "na \<noteq> me env"
  shows "wr_buf (inst (on_forward env (Some p) (Some q) mid msg b)) = (wr_buf (inst b))
    (k := wr_buf (inst b) k @ message_bytes (dispatch_header (protocol env) (Some (me env, r)) na s mid) (enc msg))"
proof -
  let ?H = "dispatch_header (protocol env) (Some (me env, r)) na s mid"
  have put: "save_body (protocol env) msg sb = save_raw (enc msg) sb" for sb using codec.put_enc [OF body] .
  have w: "write_msg buf ?H (Some (save_body (protocol env) msg)) = (with_length ?H (enc msg), buf @ message_bytes ?H (enc msg))" for buf
    using n by (intro write_msg_payload put) (simp_all add: dispatch_header_def node_ok_def)
  have l: "lookup na (tbl (inst b)) = (Some \<lparr>next_hop = na, hdl = k\<rparr>, tbl (inst b))"
    using k by (intro lookup_eq(1)) (simp_all add: linked_def)
  show ?thesis
    using d p n(3) l w by (simp add: on_forward_def Let_def dispatch_def basp_lookup_def write_to_def flush_def tell_def silent_def)
qed

text \<open>
  C28: A message for a registered actor that arrives from an actor of a connected node is handed to it with a
  proxy as its sender. What the actor sends to this proxy is written to the connection; when the other node
  receives it, its broker hands it to the first actor, with a proxy for the second as the sender.
\<close>

theorem message_and_reply:
  assumes body: "codec (save_body (protocol ea)) (load_body (protocol eb)) enc good"
      "codec (save_body (protocol eb)) (load_body (protocol ea)) enc' good'"
    and msg: "good msg" "enc msg \<noteq> []" "length (enc msg) < 2 ^ 32" "good' ans" "enc' ans \<noteq> []" "length (enc' ans) < 2 ^ 32"
    and a: "linked h (me eb) a" "broker_wf a" "reg_get s (sys a) = Some pa"
    and b: "linked k (me ea) b" "broker_wf b" "reg_get r (sys b) = Some pb"
      "obj_node (store (sys b) pb) = me eb" "obj_id (store (sys b) pb) = r"
    and n: "node_ok (me ea)" "node_ok (me eb)" "me ea \<noteq> invalid_node_id" "me eb \<noteq> invalid_node_id" "me ea \<noteq> me eb" "s \<noteq> 0" "r \<noteq> 0"
    and m: "m = message_bytes (dispatch_header (protocol ea) (Some (me ea, s)) (me eb) r mid) (enc msg)"
  shows "\<exists>q b1 m' q' a1. broker_receive eb k m b = Inr (Went_on b1) \<and> To_mailbox pb (Some q) mid msg \<in> set (actions b1)
    \<and> wr_buf (inst (on_forward eb (Some pb) (Some q) mid' ans b1)) k = wr_buf (inst b1) k @ m'
    \<and> broker_receive ea h m' a = Inr (Went_on a1) \<and> To_mailbox pa (Some q') mid' ans \<in> set (actions a1)
    \<and> obj_node (store (sys a1) q') = me eb \<and> obj_id (store (sys a1) q') = r"
proof -
  obtain q b1 where b1: "broker_receive eb k m b = Inr (Went_on b1)" "linked k (me ea) b1"
      "actions b1 = actions b @ [Read_exactly k (length (enc msg)), To_mailbox pb (Some q) mid msg, Read_exactly k header_size]"
      "obj_node (store (sys b1) q) = me ea" "obj_id (store (sys b1) q) = s"
      "obj_node (store (sys b1) pb) = me eb" "obj_id (store (sys b1) pb) = r"
    using dispatch_received [OF body(1) msg(1-3) b(1,2,3) n(1-7), of "protocol ea" mid] b(4,5) unfolding m by auto
  let ?m = "message_bytes (dispatch_header (protocol eb) (Some (me eb, r)) (me ea) s mid') (enc' ans)"
  have w: "wr_buf (inst (on_forward eb (Some pb) (Some q) mid' ans b1)) k = wr_buf (inst b1) k @ ?m"
    using forward_written [OF body(2) b1(2,4,5,6,7) n(1,2,5), of mid' ans] by simp
  have n': "me eb \<noteq> me ea" using n(5) by simp
  from dispatch_received [OF body(2) msg(4-6) a(1,2,3) n(2,1,4,3) n' n(7,6), of "protocol eb" mid']
  obtain q' a1 where a1: "broker_receive ea h ?m a = Inr (Went_on a1)"
      "actions a1 = actions a @ [Read_exactly h (length (enc' ans)), To_mailbox pa (Some q') mid' ans, Read_exactly h header_size]"
      "obj_node (store (sys a1) q') = me eb" "obj_id (store (sys a1) q') = r"
    by blast
  show ?thesis
    by (intro exI [of _ q] exI [of _ b1] exI [of _ ?m] exI [of _ q'] exI [of _ a1]) (simp add: b1(1,3) w a1)
qed

lemma message_and_reply_witness:
  "\<exists>m q b1 m' q' a1. broker_receive (example_broker_env node_b) 4 m (established 4 node_a (publishing_broker node_b)) = Inr (Went_on b1)
     \<and> wr_buf (inst (on_forward (example_broker_env node_b) (Some 0) (Some q) (Message_id 6) [8] b1)) 4 = wr_buf (inst b1) 4 @ m'
     \<and> broker_receive (example_broker_env node_a) 3 m' owner = Inr (Went_on a1) \<and> To_mailbox 0 (Some q') (Message_id 6) [8] \<in> set (actions a1)"
proof -
  let ?b = "established 4 node_a (publishing_broker node_b)"
  have c: "codec (save_body (protocol (example_broker_env m))) (load_body (protocol (example_broker_env n))) string_bytes short" for m n
    using str.codec_axioms by (simp add: example_broker_env_def)
  have s: "short [x]" "string_bytes [x] \<noteq> []" "length (string_bytes [x]) < 2 ^ 32" for x :: u8
    by (simp_all add: short_def length_small)
  have b: "linked 4 node_a ?b"
    by (rule established_linked) (simp_all add: publishing_broker_state invalid_connection_handle_def)
  have w: "broker_wf ?b" "broker_wf owner"
    using broker_reach_wf [OF publishing_broker_reach] by (simp_all add: broker_wf_def owner_def)
  have o: "reg_get 1 (sys owner) = Some 0" "reg_get 1 (sys ?b) = Some 0" "obj_node (store (sys ?b) 0) = node_b" "obj_id (store (sys ?b) 0) = 1"
    by (simp_all add: owner_def reg_get_def publishing_broker_state)
  from message_and_reply [OF c [of node_a node_b] c [of node_b node_a] s [of 7] s [of 8], of 3 owner 1 0 4 ?b 1 0, OF _ w(2) _ _ w(1) _ _ _ _ _ _ _ _ _ _ refl]
    owner_linked b o nodes_ok
  show ?thesis by simp blast
qed

section \<open>A late task\<close>

lemma posted_by_end:
  "obj_end (store s q) = None \<Longrightarrow> Drop_proxy nid q \<in> set (obj_functors (store s q)) \<Longrightarrow>
   Erase_proxy_task nid (obj_id (store s q)) rsn \<in> set (posted (finish q rsn s))"
proof -
  assume e: "obj_end (store s q) = None" and f: "Drop_proxy nid q \<in> set (obj_functors (store s q))"
  have keep: "set (posted s) \<subseteq> set (posted (fold (call_functor rsn) fs s))" for fs s
  proof (induction fs arbitrary: s)
    case (Cons x fs)
    have "set (posted s) \<subseteq> set (posted (call_functor rsn x s))"
      by (cases x) (auto simp: reg_erase_def name_emplace_def)
    with Cons [of "call_functor rsn x s"] show ?case by auto
  qed simp
  have "Erase_proxy_task nid (obj_id (store s q)) rsn \<in> set (posted (fold (call_functor rsn) fs s))"
    if "Drop_proxy nid q \<in> set fs" for fs s
    using that
  proof (induction fs arbitrary: s)
    case (Cons x fs)
    show ?case
    proof (cases "x = Drop_proxy nid q")
      case True
      then show ?thesis using keep [of "call_functor rsn x s" fs] by auto
    next
      case False
      then show ?thesis using Cons.IH [of "call_functor rsn x s"] Cons.prems by simp
    qed
  qed simp
  from this [OF f, of "s\<lparr>store := (store s)(q := (store s q)\<lparr>obj_end := Some rsn, obj_functors := []\<rparr>)\<rparr>"] e
  show ?thesis by (simp add: finish_def)
qed

text \<open>
  When the last connection to a node is lost, a task is left behind for each of its proxies. If the node is
  connected again and there is a new proxy for the same actor before the task runs, the task ends the new
  proxy, although its actor and connection are alive.
\<close>

theorem late_task_ends_new_proxy:
  assumes q: "obj_end (store (sys b) q) = None" "Drop_proxy nid q \<in> set (obj_functors (store (sys b) q))" "obj_id (store (sys b) q) = i"
    and later: "posted (sys b') = Erase_proxy_task nid i rsn # ts" "proxy_at nid i (sys b') = Some q'"
      "obj_end (store (sys b') q') = None" "\<not> broker_terminated b'"
  shows "Erase_proxy_task nid i rsn \<in> set (posted (finish q rsn (sys b)))
    \<and> obj_end (store (sys (run_posted env b')) q') = Some rsn \<and> proxy_at nid i (sys (run_posted env b')) = None"
  using posted_by_end [OF q(1,2), of rsn] q(3) later
  by (simp add: run_posted_def run_task_def erase_proxy_at erase_proxy_ends) (simp add: proxy_at_def submap_of_def)

lemma late_task_ends_new_proxy_witness:
  "obj_end (store (sys (run_posted (example_broker_env node_a)
     (with_proxy node_b 7 (on_sys (erase_proxies node_b) (with_proxy node_b 7 (broker_init :: bytes broker)))))) 1) = Some link_lost"
proof -
  let ?b = "with_proxy node_b 7 (broker_init :: bytes broker)"
  let ?b' = "with_proxy node_b 7 (on_sys (erase_proxies node_b) ?b)"
  have b: "obj_end (store (sys ?b) 0) = None" "Drop_proxy node_b 0 \<in> set (obj_functors (store (sys ?b) 0))"
    "obj_id (store (sys ?b) 0) = 7"
    by (simp_all add: with_proxy_def make_actor_def attach_functor_def)
  have t: "next_ref (sys ?b) = 1" "posted (sys (on_sys (erase_proxies node_b) ?b)) = [Erase_proxy_task node_b 7 link_lost]"
    "next_ref (sys (on_sys (erase_proxies node_b) ?b)) = 1"
    by (simp_all add: with_proxy_def make_actor_def attach_functor_def erase_proxies_def put_proxy_def sub_put_def
        submap_of_def kill_proxy_def finish_def)
  have p: "posted (sys ?b') = [Erase_proxy_task node_b 7 link_lost]" "proxy_at node_b 7 (sys ?b') = Some 1"
    "obj_end (store (sys ?b') 1) = None"
    using t unfolding with_proxy_def [of _ _ "on_sys (erase_proxies node_b) ?b"] on_sys_frame(4) [of "\<lambda>s. put_proxy node_b 7 _ _"]
    by (simp_all add: make_actor_def attach_functor_def)
  have "broker_wf ?b" by (rule with_proxy_wf [OF broker_init_wf])
  moreover have "\<not> broker_terminated ?b'" by (simp add: with_proxy_def broker_init_def)
  ultimately show ?thesis
    using late_task_ends_new_proxy [OF b p(1) p(2,3), of "example_broker_env node_a"] by blast
qed

section \<open>A node that was lost\<close>

lemma learned_new_node_known: "spawn_servers b nid \<noteq> None \<Longrightarrow> learned_new_node env nid b = b"
  by (simp add: learned_new_node_def)

lemma learned_keeps_server: "spawn_servers b n = Some p \<Longrightarrow> spawn_servers (learned_new_node env nid b) n = Some p"
  by (auto simp: learned_new_node_def spawn_helper_eq broker_lookup_eq Let_def split: option.split)

lemma learned_indirectly_keeps_server:
  "spawn_servers b n = Some p \<Longrightarrow> spawn_servers (learned_new_node_indirectly env nid b) n = Some p"
  using learned_keeps_server [of b n p env nid]
  by (simp add: learned_new_node_indirectly_def spawn_helper_eq broker_lookup_eq Let_def split: option.split)

lemma offer_route_keeps_server: "spawn_servers b n = Some p \<Longrightarrow> spawn_servers (offer_route env hop nid b) n = Some p"
  by (simp add: offer_route_def case_prod_unfold Let_def learned_indirectly_keeps_server)

lemma make_proxy_keeps_server:
  assumes "make_proxy env nid i b = Inr (r, b')" and "spawn_servers b n = Some p"
  shows "spawn_servers b' n = Some p"
  using assms offer_route_keeps_server [OF assms(2), of env _ nid]
  by (auto simp: make_proxy_def res_simps broker_lookup_eq Let_def case_prod_unfold split: if_splits option.splits)

lemma get_or_put_keeps_server:
  "get_or_put env nid i b = Inr (r, b') \<Longrightarrow> spawn_servers b n = Some p \<longrightarrow> spawn_servers b' n = Some p"
  by (auto simp: get_or_put_def res_simps dest: make_proxy_keeps_server split: option.splits)

lemma broker_call_keeps_server:
  "broker_call env call b = Inr b' \<Longrightarrow> spawn_servers b n = Some p \<Longrightarrow> spawn_servers b' n = Some p"
proof (induction env call b rule: broker_call.induct)
  case (1 env nid i sigs b)
  then show ?case
    by (auto simp: finalize_handshake_def res_simps Let_def dest!: get_or_put_keeps_server split: option.splits if_splits)
next
  case (5 env nid i dest mid body b)
  then show ?case
    by (auto simp: deliver_to_def res_simps Let_def bounce_request_def dest!: get_or_put_keeps_server split: option.splits if_splits)
next
  case (6 env nid i name mid body b)
  then show ?case
    by (auto simp: deliver_to_def res_simps Let_def bounce_request_def dest!: get_or_put_keeps_server split: option.splits if_splits)
qed (auto simp: kill_proxy_call_def learned_indirectly_keeps_server learned_keeps_server learned_new_node_directly_def
    proxy_announced_def send_kill_proxy_instance_def broker_lookup_eq Let_def split: option.split)

lemma run_calls_keeps_server:
  assumes "run_calls env i b = Inr b'" and "spawn_servers b n = Some p"
  shows "spawn_servers b' n = Some p"
proof -
  have w: "spawn_servers (b\<lparr>inst := i\<lparr>calls := []\<rparr>\<rparr>) n = Some p" using assms(2) by simp
  show ?thesis
    by (rule foldR_invariant [where P = "\<lambda>b. spawn_servers b n = Some p", OF _ w assms(1) [unfolded run_calls_def]])
      (rule broker_call_keeps_server)
qed

lemma broker_step_keeps_server:
  assumes "broker_step env ev b = Inr b'" and "spawn_servers b n = Some p"
  shows "spawn_servers b' n = Some p"
proof (cases ev)
  case (Data h buf)
  then obtain r where r: "on_new_data env h buf b = Inr r"
      "b' = (case r of Went_on b \<Rightarrow> b | Threw e b \<Rightarrow> b\<lparr>broker_terminated := True\<rparr>)"
    using assms(1) by (auto simp: res_simps)
  have w: "spawn_servers (set_ctx h c (set_context h b)) n = Some p" for c using assms(2) by simp
  from r(1) show ?thesis
    using run_calls_keeps_server [OF _ w] r(2) by (cases rule: on_new_data_elim) auto
next
  case (Connection_closed h)
  then show ?thesis
    using assms run_calls_keeps_server [OF _ assms(2)] by (auto simp: on_connection_closed_def Let_def res_simps)
next
  case (Forward_msg src dest mid body)
  then show ?thesis
    using assms by (auto simp: on_forward_def Let_def case_prod_unfold silent_def bounce_request_def split: option.splits)
next
  case (Forward_named src nid name body)
  then show ?thesis
    using assms by (auto simp: on_forward_named_def broker_lookup_eq Let_def split: option.splits if_splits)
next
  case (Publish h assigned port whom sigs)
  then show ?thesis using assms by (auto simp: on_publish_def Let_def silent_def split: option.splits)
next
  case Run_posted
  then show ?thesis
    using assms by (auto simp: run_posted_def run_task_def send_kill_proxy_instance_def broker_lookup_eq Let_def
        split: list.splits task.splits option.splits)
next
  case (Connect h port assigned rp)
  then show ?thesis using assms by (auto simp: on_connect_def Let_def)
next
  case (Close_port port has_doorman)
  then show ?thesis using assms by (auto simp: on_close_def Let_def split: if_splits)
qed (use assms in \<open>auto simp: on_new_connection_def on_acceptor_closed_def on_delete_def on_unpublish_def on_spawn_def on_tick_def
  spawn_helper_eq case_prod_unfold split: option.splits\<close>)

text \<open>
  The helper that a broker spawns when it learns a node is kept for good, also when the node is lost: when
  the node is learned again no new helper is spawned and nothing is asked, and requests to spawn are delegated
  to the old helper, even if that has ended with the proxies of the lost node.
\<close>

theorem lost_node_keeps_old_helper:
  assumes "spawn_servers b nid = Some p" and "foldR (broker_step env) evs b = Inr b'"
  shows "spawn_servers b' nid = Some p \<and> learned_new_node_directly env nid was b' = b'
    \<and> actions (on_spawn nid rp b') = actions b' @ [Answered rp (Delegated p)]"
proof -
  have "spawn_servers b' nid = Some p"
    by (rule foldR_invariant [where P = "\<lambda>b. spawn_servers b nid = Some p", OF _ assms(1,2)])
      (rule broker_step_keeps_server)
  then show ?thesis by (simp add: learned_new_node_directly_def learned_new_node_known on_spawn_def)
qed

lemma lost_node_keeps_old_helper_witness:
  "\<exists>b b'. spawn_servers b node_b = Some 0 \<and> on_connection_closed (example_broker_env node_a) 3 b = Inr b'
     \<and> on_sys (finish 0 link_lost) b' = learned_new_node_directly (example_broker_env node_a) node_b False (on_sys (finish 0 link_lost) b')"
proof -
  let ?e = "example_broker_env node_a"
  let ?b = "(established 3 node_b (broker_init :: bytes broker))\<lparr>spawn_servers := [node_b \<mapsto> 0]\<rparr>"
  let ?i = "handle_node_shutdown (lookup_node 3 (tbl (inst ?b))) (inst ?b)"
  have "direct_by_hdl (add_direct 3 node_b routing_table_new) = [3 \<mapsto> node_b]" "indirect (add_direct 3 node_b routing_table_new) = Map.empty"
      "rt_wf (add_direct 3 node_b routing_table_new)"
    using established_new [of 3 node_b] by (simp_all add: invalid_connection_handle_def)
  then have "calls ?i = [Purge_state node_b]"
    using shutdown_calls(1) [of "inst ?b" node_b] by (simp add: lookup_node_def get_opt_def)
  then obtain b' where b': "on_connection_closed ?e 3 ?b = Inr b'"
    by (simp add: on_connection_closed_def run_calls_def Let_def)
  have "foldR (broker_step ?e) [Connection_closed 3, Actor_ended 0 link_lost] ?b = Inr (on_sys (finish 0 link_lost) b')"
    using b' by simp
  from lost_node_keeps_old_helper [OF _ this, of node_b 0 False] b' show ?thesis
    by (intro exI [of _ ?b] exI [of _ b']) simp
qed

section \<open>Connecting\<close>

text \<open>The bytes of a query to a named actor.\<close>

lemma query_written:
  assumes body: "codec (save_body (protocol env)) load enc good" and n: "node_ok nid" "node_ok (me env)"
  shows "write_query env path nid i name body b = on_inst (\<lambda>j. j\<lparr>wr_buf := (wr_buf j)(hdl path := wr_buf j (hdl path)
      @ message_bytes (query_header (me env) nid i) (int_bytes (the (atom name)) @ enc body)), flushes := flushes j @ [hdl path]\<rparr>) b"
proof -
  let ?p = "int_bytes (the (atom name)) @ enc body"
  have put: "save_named env (the (atom name)) body sb = save_raw ?p sb" for sb
    using codec.put_enc [OF body] by (simp add: save_named_def save_int_enc save_raw_append)
  have w: "write_msg buf (query_header (me env) nid i) (Some (save_named env (the (atom name)) body))
      = (with_length (query_header (me env) nid i) ?p, buf @ message_bytes (query_header (me env) nid i) ?p)" for buf
    using n by (intro write_msg_payload put) (simp_all add: query_header_def node_ok_def)
  show ?thesis by (simp add: write_query_def write_to_def flush_def w)
qed

lemma handshake_handled:
  assumes ok: "node_ok srv" "srv \<noteq> invalid_node_id" "srv \<noteq> this_node env" "node_ok (this_node env)"
    and app: "app_identifier env = app_identifier envS" "short (app_identifier envS)"
    and sigs: "set_ok sigs" "length (server_handshake_bytes envS i sigs) < 2 ^ 32"
    and fresh: "direct_by_nid (tbl c) srv = None" "direct_by_hdl (tbl c) h = None" "indirect (tbl c) srv = None" "calls c = []"
    and wf: "rt_wf (tbl c)" "h \<noteq> invalid_connection_handle"
    and H: "H = with_length (server_handshake_header srv i) (server_handshake_bytes envS i sigs)"
  shows "\<exists>c'. handle_message env h H (Some (server_handshake_bytes envS i sigs)) c = (Inr Await_header, c')
    \<and> wr_buf c' h = wr_buf c h @ message_bytes (client_handshake_header (this_node env) srv) (string_bytes (app_identifier env))
    \<and> direct_by_nid (tbl c') srv = Some h \<and> rt_wf (tbl c')
    \<and> calls c' = [Learned_directly srv False, Finalize_handshake srv i sigs, Flush_route h]
    \<and> header_ok (server_handshake_header srv i) \<and> header_valid H \<and> server_handshake_bytes envS i sigs \<noteq> []"
proof -
  let ?p = "server_handshake_bytes envS i sigs" and ?h = "server_handshake_header srv i"
  have h: "operation ?h = Server_handshake" "source_node ?h = srv" "dest_node ?h = invalid_node_id"
    "dest_actor ?h = 0" "operation_data ?h = basp_version"
    by (simp_all add: server_handshake_header_def invalid_actor_id_def)
  have v: "header_valid H" using ok(2) by (simp add: H header_valid_def validity_defs h basp_version_def)
  have ho: "header_ok ?h" using ok(1) by (simp add: header_ok_def h node_ok_def node_wf_def invalid_node_id_def)
  have ne: "?p \<noteq> []" using string_bytes_Cons by (simp add: server_handshake_bytes_def)
  obtain c' where c': "receive env h (message_bytes ?h ?p) c = (Inr Await_header, c')"
      "wr_buf c' h = wr_buf c h @ message_bytes (client_handshake_header (this_node env) srv) (string_bytes (app_identifier env))"
      "direct_by_nid (tbl c') srv = Some h" "calls c' = calls c @ [Learned_directly srv (indirect (tbl c) srv \<noteq> None), Finalize_handshake srv i sigs, Flush_route h]"
    using server_handshake_received [OF ok app sigs fresh(1,2) wf] by blast
  have r: "handle_message env h H (Some ?p) c = (Inr Await_header, c')"
    using receive_message [OF ho v [unfolded H] sigs(2), of env h c] ne c'(1) H by simp
  have "rt_wf (tbl (snd (handle_message env h H (Some ?p) c)))"
    using wf fresh(2) v by (intro handle_message_wf) auto
  with r c' v ho ne fresh(3,4) show ?thesis by auto
qed

text \<open>The calls of the instance after the handshake of a server that nobody knew.\<close>

lemma new_server_calls:
  assumes body: "codec (save_body (protocol env)) load enc good"
    and ok: "node_ok srv" "srv \<noteq> invalid_node_id" "srv \<noteq> me env" "node_ok (me env)" "i \<noteq> 0"
    and t: "rt_wf (tbl (inst b))" "direct_by_nid (tbl (inst b)) srv = Some h" "calls (inst b) = []"
    and c: "this_context b = Some h" "ctxs b h = Some c" "ctx_hdl c = h" "callback c = Some rp"
    and new: "spawn_servers b srv = None" "proxy_at srv i (sys b) = None" "broker_wf b"
  shows "\<exists>b' q. finalize_handshake env srv i sigs (learned_new_node env srv b) = Inr b'
    \<and> ctxs b' = (ctxs b)(h \<mapsto> c\<lparr>ctx_id := srv, callback := None\<rparr>)
    \<and> actions b' = actions b @ [Answered rp (Connected srv (Some q) sigs)] \<and> proxy_at srv i (sys b') = Some q
    \<and> tbl (inst b') = tbl (inst b) \<and> calls (inst b') = []
    \<and> wr_buf (inst b') h = wr_buf (inst b) h
        @ message_bytes (query_header (me env) srv (last_id (sys b) + 1)) (int_bytes (the (atom ''SpawnServ'')) @ enc (spawn_query env))
        @ message_bytes (announce_header (me env) srv i) []"
proof -
  have lk: "lookup srv (tbl (inst b)) = (Some \<lparr>next_hop = srv, hdl = h\<rparr>, tbl (inst b))" by (rule lookup_eq(1) [OF t(1,2)])
  define b2 where "b2 = learned_new_node env srv b"
  have b2: "tbl (inst b2) = tbl (inst b)" "calls (inst b2) = []" "this_context b2 = Some h" "ctxs b2 = ctxs b" "actions b2 = actions b"
      "wr_buf (inst b2) h = wr_buf (inst b) h
        @ message_bytes (query_header (me env) srv (last_id (sys b) + 1)) (int_bytes (the (atom ''SpawnServ'')) @ enc (spawn_query env))"
      "proxies (sys b2) = proxies (sys b)"
    using new(1) lk t(3) c(1)
    by (simp_all add: b2_def learned_new_node_def spawn_helper_eq broker_lookup_eq Let_def query_written [OF body ok(1,4)]
        reg_put_store make_actor_def)
  define b3 where "b3 = set_ctx h (c\<lparr>ctx_id := srv\<rparr>) b2"
  have w3: "broker_wf b3" using learned_new_node_wf [OF new(3), of env srv] by (simp add: b3_def b2_def broker_wf_def)
  have at3: "proxy_at srv i (sys b3) = None" using new(2) b2(7) by (simp add: b3_def proxy_at_def submap_of_def)
  have c3: "this_context b3 = Some h" "ctxs b3 h = Some (c\<lparr>ctx_id := srv\<rparr>)" "ctx_hdl (c\<lparr>ctx_id := srv\<rparr>) = h"
      "rt_wf (tbl (inst b3))" "direct_by_nid (tbl (inst b3)) srv = Some h"
    using b2 c(3) t by (simp_all add: b3_def)
  obtain q b4 where q: "get_or_put env srv i b3 = Inr (Some q, b4)"
      "wr_buf (inst b4) h = wr_buf (inst b3) h @ message_bytes (announce_header (me env) srv i) []"
      "tbl (inst b4) = tbl (inst b)" "calls (inst b4) = []" "ctxs b4 = ctxs b3" "this_context b4 = Some h" "actions b4 = actions b"
    using get_or_put_new [OF at3 c3(1,2,3,4,5) ok(2,5), of env] b2 by (auto simp: b3_def)
  have at4: "proxy_at srv i (sys b4) = Some q" using get_or_put_wf [OF q(1) w3] by simp
  define b5 where "b5 = broker_act [Answered rp (Connected srv (Some q) sigs)] (set_ctx h (c\<lparr>ctx_id := srv, callback := None\<rparr>) b4)"
  have "this_ctx b2 = Inr c" "this_ctx b4 = Inr (c\<lparr>ctx_id := srv\<rparr>)"
    using b2(3,4) q(5,6) c(2) by (simp_all add: this_ctx_def ctx_at_def b3_def)
  then have "finalize_handshake env srv i sigs b2 = Inr b5"
    using q(1,6) b2(3) ok(3,5) c(4)
    by (simp add: finalize_handshake_def b3_def [symmetric] invalid_actor_id_def b5_def)
  with q at4 b2 show ?thesis
    by (intro exI [of _ b5] exI [of _ q]) (simp add: b2_def [symmetric] b5_def, simp add: b3_def)
qed

text \<open>
  C30: When the middleman has connected to a server and the handshake of the server arrives, the broker writes
  its own handshake, asks the spawn server of the node and announces a proxy for the published actor, in this
  order; it answers the request with that proxy and the interface, once, and the connection is ready.
\<close>

theorem connect_answered:
  fixes env :: "'b broker_env" and envS :: "('c, 'd) env"
  assumes body: "codec (save_body (protocol env)) load enc good"
    and ok: "node_ok srv" "srv \<noteq> invalid_node_id" "srv \<noteq> me env" "node_ok (me env)"
    and app: "app_identifier (protocol env) = app_identifier envS" "short (app_identifier envS)"
    and sigs: "set_ok sigs" "length (server_handshake_bytes envS i sigs) < 2 ^ 32" "i \<noteq> 0"
    and fresh: "direct_by_nid (tbl (inst b)) srv = None" "direct_by_hdl (tbl (inst b)) h = None" "indirect (tbl (inst b)) srv = None"
      "calls (inst b) = []" "ctxs b h = None" "spawn_servers b srv = None" "proxy_at srv i (sys b) = None"
    and wf: "rt_wf (tbl (inst b))" "h \<noteq> invalid_connection_handle" "broker_wf b"
    and m: "m = message_bytes (server_handshake_header srv i) (server_handshake_bytes envS i sigs)"
  shows "\<exists>b' q. broker_receive env h m (on_connect h port True rp b) = Inr (Went_on b')
    \<and> filter (\<lambda>a. \<exists>p r. a = Answered p r) (actions b') = filter (\<lambda>a. \<exists>p r. a = Answered p r) (actions b) @ [Answered rp (Connected srv (Some q) sigs)]
    \<and> \<not> pending b' h rp \<and> proxy_at srv i (sys b') = Some q \<and> linked h srv b'
    \<and> wr_buf (inst b') h = wr_buf (inst b) h
        @ message_bytes (client_handshake_header (me env) srv) (string_bytes (app_identifier (protocol env)))
        @ message_bytes (query_header (me env) srv (last_id (sys b) + 1)) (int_bytes (the (atom ''SpawnServ'')) @ enc (spawn_query env))
        @ message_bytes (announce_header (me env) srv i) []"
proof -
  let ?p = "server_handshake_bytes envS i sigs" and ?h = "server_handshake_header srv i"
  let ?w = "with_length ?h ?p"
  define b0 where "b0 = on_connect h port True rp b"
  obtain c0 where c0: "ctxs b0 h = Some c0" "cstate c0 = Await_header" "ctx_hdl c0 = h" "callback c0 = Some rp"
    using fresh(5) by (simp add: b0_def on_connect_def Let_def)
  have b0: "inst b0 = inst b" "sys b0 = sys b" "spawn_servers b0 = spawn_servers b"
      "actions b0 = actions b @ [Assigned_scribe h, Read_exactly h header_size]"
    by (simp_all add: b0_def on_connect_def Let_def)
  obtain j where j: "handle_message (protocol env) h ?w (Some ?p) (inst b) = (Inr Await_header, j)"
      "wr_buf j h = wr_buf (inst b) h @ message_bytes (client_handshake_header (me env) srv) (string_bytes (app_identifier (protocol env)))"
      "direct_by_nid (tbl j) srv = Some h" "rt_wf (tbl j)" "calls j = [Learned_directly srv False, Finalize_handshake srv i sigs, Flush_route h]"
      "header_ok ?h" "header_valid ?w" "?p \<noteq> []"
    using handshake_handled [OF ok(1,2,3,4) app sigs(1,2) fresh(1-4) wf(1,2) refl] by blast
  define b1 where "b1 = (receiving h c0 ?w ?p b0)\<lparr>inst := j\<lparr>calls := []\<rparr>\<rparr>"
  define c1 where "c1 = c0\<lparr>ctx_hdr := ?w, cstate := Await_payload\<rparr>"
  have b1: "inst b1 = j\<lparr>calls := []\<rparr>" "sys b1 = sys b" "spawn_servers b1 srv = None" "this_context b1 = Some h"
      "ctxs b1 h = Some c1" "actions b1 = actions b @ [Assigned_scribe h, Read_exactly h header_size, Read_exactly h (length ?p)]"
    using fresh(6) j(8) b0 by (simp_all add: b1_def c1_def) (simp_all add: receiving_def b0)
  have c1: "ctx_hdl c1 = h" "callback c1 = Some rp" using c0(3,4) by (simp_all add: c1_def)
  have pre: "rt_wf (tbl (inst b1))" "direct_by_nid (tbl (inst b1)) srv = Some h" "calls (inst b1) = []"
      "proxy_at srv i (sys b1) = None" "broker_wf b1"
    using j(3,4) fresh(7) wf(3) b1(1,2) by (simp_all add: broker_wf_def)
  obtain b5 q where b5: "finalize_handshake env srv i sigs (learned_new_node env srv b1) = Inr b5"
      "ctxs b5 = (ctxs b1)(h \<mapsto> c1\<lparr>ctx_id := srv, callback := None\<rparr>)"
      "actions b5 = actions b1 @ [Answered rp (Connected srv (Some q) sigs)]" "proxy_at srv i (sys b5) = Some q"
      "tbl (inst b5) = tbl j" "calls (inst b5) = []"
      "wr_buf (inst b5) h = wr_buf j h
        @ message_bytes (query_header (me env) srv (last_id (sys b) + 1)) (int_bytes (the (atom ''SpawnServ'')) @ enc (spawn_query env))
        @ message_bytes (announce_header (me env) srv i) []"
    using new_server_calls [OF body ok sigs(3) pre(1,2,3) b1(4,5) c1 b1(3) pre(4,5), of sigs] b1(1,2) by auto
  define b6 where "b6 = on_inst (\<lambda>i. i\<lparr>flushes := flushes i @ [h]\<rparr>) b5"
  have run: "run_calls env j (receiving h c0 ?w ?p b0) = Inr b6"
    using b5(1) by (simp add: run_calls_def j(5) b1_def [symmetric] learned_new_node_directly_def b6_def)
  have at: "ctx_at h b6 = Inr (c1\<lparr>ctx_id := srv, callback := None\<rparr>)" by (simp add: b6_def b5(2) ctx_at_def)
  define b' where "b' = set_ctx h (c1\<lparr>ctx_id := srv, callback := None, cstate := Await_header\<rparr>) (broker_act [Read_exactly h header_size] b6)"
  have "broker_receive env h m b0 = Inr (Went_on b')"
    unfolding m using broker_receive_message [OF j(6,7) sigs(2) c0(1,2), of env j] fresh(4) j(1,8) b0(1) run at
    by (simp add: b'_def) (simp add: c1_def)
  moreover have "linked h srv b'" using b5(5,6) j(3,4) c0(3) by (simp add: linked_def b'_def c1_def b6_def)
  ultimately show ?thesis unfolding b0_def [symmetric]
    using b5 b1(6) by (intro exI [of _ b'] exI [of _ q]) (simp add: b'_def b6_def pending_def j(2))
qed

lemma connect_answered_witness:
  "\<exists>m b' q. broker_receive (example_broker_env node_b) 3 m (on_connect 3 80 True 7 broker_init) = Inr (Went_on b')
     \<and> Answered 7 (Connected node_a (Some q) {[0x66]}) \<in> set (actions b') \<and> linked 3 node_a b'"
proof -
  let ?S = "protocol (example_broker_env node_a)" and ?b = "broker_init :: bytes broker"
  have c: "codec (save_body (protocol (example_broker_env node_b))) load_string string_bytes short"
    using str.codec_axioms by (simp add: example_broker_env_def)
  have s: "set_ok {[0x66]}" "short (app_identifier ?S)" "app_identifier (protocol (example_broker_env node_b)) = app_identifier ?S"
    by (simp_all add: set_ok_def short_def example_broker_env_def)
  have l: "length (server_handshake_bytes ?S 1 {[0x66]}) < 2 ^ 32"
    by (simp add: server_handshake_bytes_def set_bytes_def example_broker_env_def length_small varbyte_bytes_low)
  have p: "proxy_at node_a 1 (sys ?b) = None" by (simp add: proxy_at_def submap_of_def)
  obtain b' q where b': "broker_receive (example_broker_env node_b) 3
        (message_bytes (server_handshake_header node_a 1) (server_handshake_bytes ?S 1 {[0x66]})) (on_connect 3 80 True 7 ?b) = Inr (Went_on b')"
      "filter (\<lambda>a. \<exists>p r. a = Answered p r) (actions b') = [Answered 7 (Connected node_a (Some q) {[0x66]})]" "linked 3 node_a b'"
    using connect_answered [OF c nodes_ok(1) nodes_differ(7) _ _ s(3,2,1) l _ _ _ _ _ _ _ p _ _ broker_init_wf refl, of 3 80 7]
      nodes_ok rt_wf_new by (simp add: routing_table_new_def invalid_connection_handle_def) blast
  have "Answered 7 (Connected node_a (Some q) {[0x66]}) \<in> set (filter (\<lambda>a. \<exists>p r. a = Answered p r) (actions b'))"
    unfolding b'(2) by simp
  then have "Answered 7 (Connected node_a (Some q) {[0x66]}) \<in> set (actions b')" unfolding set_filter by blast
  with b'(1,3) show ?thesis by blast
qed

end
