(* ===== verification/CoreProperties.thy ===== *)
theory CoreProperties
  imports TypeList Atom MessageId
begin

text \<open>
  The properties of the small parts of the actor framework: atoms, message identifiers, time spans, and the
  list library of its templates.
\<close>

section \<open>Atoms\<close>

text \<open>
  A name of at most ten characters has an atom, and the atom reads back as the name with every character
  outside the alphabet shown as a space; two names have the same atom exactly when they read the same. A
  name over the alphabet, leading spaces included, reads back as itself.
\<close>

theorem atom_names:
  assumes "length s \<le> 10" and "NUL \<notin> set s" and "length t \<le> 10" and "NUL \<notin> set t"
  shows "\<exists>x. atom s = Some x \<and> atom_to_string x = map readable s
    \<and> (atom t = Some x \<longleftrightarrow> map readable t = map readable s)
    \<and> (set s \<subseteq> set decoding_table \<longrightarrow> atom_to_string x = s)"
proof -
  have "set s \<subseteq> set decoding_table \<Longrightarrow> map readable s = s" by (rule map_idI) (auto intro: readable_table)
  moreover have "atom s = Some (atom_val s 0xF)" using assms(1) by (simp add: atom_def)
  ultimately show ?thesis
    using atom_to_string_val [OF assms(1,2)] atom_inject [OF assms(3,4,1,2)] by auto
qed

lemma atom_names_witness:
  "\<exists>x. atom ''get_value'' = Some x \<and> atom_to_string x = ''get_value'' \<and> atom ''get-value'' \<noteq> Some x"
proof -
  have "set ''get_value'' \<subseteq> set decoding_table" by (simp add: decoding_table_def)
  moreover have "map readable ''get-value'' \<noteq> map readable ''get_value''" by code_simp
  ultimately show ?thesis using atom_names [of "''get_value''" "''get-value''"] by auto
qed

section \<open>Message identifiers and time spans\<close>

text \<open>
  The requests of an actor get consecutive numbers with the priorities asked for, all different as long
  as there are fewer than \<open>2 ^ 61\<close>; each is a request that is not answered, and its response identifier is a
  response that carries the number and the priority of the request, and is no request itself.
\<close>

theorem request_numbers:
  assumes "integer_value q = of_nat n" and "n + length mps < 2 ^ 61"
  shows "map (\<lambda>m. integer_value (request_id m)) (request_ids mps q) = map of_nat [n + 1..<n + 1 + length mps]
    \<and> distinct (map request_id (request_ids mps q))
    \<and> map is_high_priority (request_ids mps q) = map (\<lambda>mp. mp = High) mps
    \<and> (\<forall>m \<in> set (request_ids mps q). is_request m \<and> \<not> is_answered m \<and> is_response (response_id m)
        \<and> request_id (response_id m) = request_id m \<and> is_high_priority (response_id m) = is_high_priority m
        \<and> \<not> is_request (response_id m) \<and> response_id (response_id m) = invalid_message_id)"
proof -
  note r = request_ids_numbers [OF assms]
  have "inj_on (of_nat :: nat \<Rightarrow> u64) {..<2 ^ 64}"
    by (rule inj_on_inverseI [where g = unat]) (simp add: unat_of_nat_small)
  moreover have "set [n + 1..<n + 1 + length mps] \<subseteq> {..<2 ^ 64}" using assms(2) by (simp del: upt_Suc add: subset_iff)
  ultimately have "distinct (map (of_nat :: nat \<Rightarrow> u64) [n + 1..<n + 1 + length mps])"
    unfolding distinct_map using distinct_upt inj_on_subset by blast
  then have "distinct (map integer_value (map request_id (request_ids mps q)))"
    unfolding map_map comp_def conjunct1 [OF r] .
  then have "distinct (map request_id (request_ids mps q))" by (simp only: distinct_map)
  moreover have "is_request m \<Longrightarrow> is_response (response_id m) \<and> request_id (response_id m) = request_id m
      \<and> is_high_priority (response_id m) = is_high_priority m \<and> \<not> is_request (response_id m)
      \<and> response_id (response_id m) = invalid_message_id" for m
    by (simp add: response_id_parts response_id_none)
  ultimately show ?thesis using r unfolding list_all_iff by blast
qed

lemma request_numbers_witness:
  "map (\<lambda>m. integer_value (request_id m)) (request_ids [Normal, High] invalid_message_id) = [1, 2]"
  using request_numbers [of invalid_message_id 0 "[Normal, High]"]
  by (simp add: invalid_message_id_def upt_rec)

text \<open>
  A time span made from a count and a period of the standard library adds that much time to a time point:
  counts of seconds, minutes, milliseconds and microseconds, as long as the number of units fits in 63 bits.
  A negative count adds nothing.
\<close>

theorem time_span_adds:
  assumes "duration_from_chrono cnt (num, den) = Some d" and "cnt * num < 2 ^ 63"
  shows "(time_point_add t d - t) * den = max 0 cnt * num * 1000000"
proof (cases "0 \<le> cnt")
  case True
  with duration_adds [OF assms(1) _ assms(2), of t] show ?thesis by simp
next
  case False
  then have "count d = 0"
    using assms(1) by (auto simp: duration_from_chrono_def duration_rd_def split: if_splits)
  then have "time_point_add t d = t" by (simp add: time_point_add_def split: time_unit.split)
  with False show ?thesis by simp
qed

lemma time_span_adds_witness:
  "\<exists>d. duration_from_chrono 3 (60, 1) = Some d \<and> time_point_add 7 d - 7 = 180000000"
proof -
  obtain d where d: "duration_from_chrono 3 (60, 1) = Some d"
    by (simp add: duration_from_chrono_def get_time_unit_from_period_def ratio_to_time_unit_helper_def)
  with time_span_adds [OF d, of 7] show ?thesis by simp
qed

section \<open>Lists of types\<close>

lemma slice_le: "i \<le> j \<Longrightarrow> tl_slice ts i j = padded (j - i) Unit_t (drop i ts)"
  by (simp add: tl_slice_eq min_def)

lemma nth_padded: "k < n \<Longrightarrow> padded n x ts ! k = (if k < length ts then ts ! k else x)"
  by (simp add: padded_def nth_append)

lemma padded_split:
  assumes "i \<le> j"
  shows "padded i x ts @ padded (j - i) x (drop i ts) = padded j x ts"
proof (cases "i \<le> length ts")
  case True
  have "take j ts = take i ts @ take (j - i) (drop i ts)"
    using assms take_add [of i "j - i" ts] by simp
  with True assms show ?thesis by (simp add: padded_def)
next
  case False
  with assms show ?thesis by (simp add: padded_def flip: replicate_add)
qed

text \<open>
  A slice holds the elements from the first index up to the second, with \<open>unit_t\<close> for those past the end;
  the slices of a cut are together the list. The rightmost elements are those of the list, all of them when
  fewer are there. Padding on the right cuts a list that is longer, padding on the left keeps it, and trimming
  takes the padding away again.
\<close>

theorem list_slices:
  assumes "i \<le> j"
  shows "length (tl_slice ts i j) = j - i
    \<and> (\<forall>k < j - i. tl_slice ts i j ! k = tl_at ts (i + k))
    \<and> tl_slice ts 0 i @ tl_slice ts i j = tl_slice ts 0 j
    \<and> tl_right ts n = (if n \<le> length ts then tl_slice ts (length ts - n) (length ts) else ts)
    \<and> (length ts \<le> n \<longrightarrow> tl_trim (tl_pad_right ts n x) x = tl_trim ts x)
    \<and> (n \<le> length ts \<longrightarrow> tl_pad_right ts n x = tl_slice ts 0 n \<and> tl_pad_left ts n x = Some ts)"
proof -
  have len: "length (tl_slice ts i j) = j - i" using assms by (simp add: slice_le padded_def)
  have nth: "\<forall>k < j - i. tl_slice ts i j ! k = tl_at ts (i + k)"
    using assms by (auto simp: slice_le nth_padded tl_at_eq)
  have cut: "tl_slice ts 0 i @ tl_slice ts i j = tl_slice ts 0 j"
    using assms padded_split [OF assms, of Unit_t ts] by (simp add: slice_le)
  have right: "tl_right ts n = (if n \<le> length ts then tl_slice ts (length ts - n) (length ts) else ts)"
    by (simp add: tl_right_eq slice_le padded_def)
  have "dropWhile (\<lambda>t. t = x) (replicate m x @ us) = dropWhile (\<lambda>t. t = x) us" for m us
    by (induction m) simp_all
  then have trim: "length ts \<le> n \<Longrightarrow> tl_trim (tl_pad_right ts n x) x = tl_trim ts x"
    by (simp add: tl_trim_eq tl_pad_right_eq padded_def)
  have left: "n \<le> length ts \<Longrightarrow> tl_pad_right ts n x = tl_slice ts 0 n \<and> tl_pad_left ts n x = Some ts"
    by (simp add: tl_pad_right_eq tl_pad_left_eq slice_le padded_def)
  from len nth cut right trim left show ?thesis by blast
qed

lemma list_slices_witness:
  "tl_slice [Void, None_t] 0 1 @ tl_slice [Void, None_t] 1 3 = [Void, None_t, Unit_t]"
  using list_slices [of 1 3 "[Void, None_t]" 0 Void] by (simp add: tl_slice_eq padded_def)

text \<open>
  \<open>tl_distinct\<close> keeps the first occurrence of every type, \<open>tl_union\<close> has the types of all lists, and
  \<open>tl_equal\<close> compares lists as sets. \<open>tl_intersect\<close> gives the types that occur twice or more in all lists
  together: for two lists without repetition that is their intersection, with a repetition in one list it is
  not.
\<close>

theorem list_sets:
  "tl_distinct ts = rev (remdups (rev ts))
    \<and> distinct (tl_union xs xss) \<and> set (tl_union xs xss) = set xs \<union> (\<Union>ys \<in> set xss. set ys)
    \<and> (tl_equal xs ys \<longleftrightarrow> set xs = set ys)
    \<and> (tl_is_distinct xs \<and> tl_is_distinct ys \<longrightarrow> set (tl_intersect xs [ys]) = set xs \<inter> set ys)
    \<and> (\<not> tl_is_distinct xs \<longrightarrow> (\<exists>t. t \<in> set (tl_intersect xs [[]])))"
proof -
  have one: "count_list zs t = (if t \<in> set zs then 1 else 0)" if "distinct zs" for zs and t :: ctype
    using that by (induction zs) auto
  have "set (tl_intersect xs [ys]) = set xs \<inter> set ys" if "distinct xs" "distinct ys"
    using that one [of xs] one [of ys] by (auto simp: tl_intersect_eq)
  moreover have "\<exists>t. 2 \<le> count_list xs t" if "\<not> distinct xs"
    using that
  proof (induction xs)
    case (Cons x xs)
    then show ?case
    proof (cases "x \<in> set xs")
      case True
      then have "count_list xs x \<noteq> 0" by (simp add: count_list_0_iff)
      then have "2 \<le> count_list (x # xs) x" by simp
      then show ?thesis ..
    next
      case False
      with Cons obtain t where "2 \<le> count_list xs t" by auto
      then have "2 \<le> count_list (x # xs) t" by simp
      then show ?thesis ..
    qed
  qed simp
  ultimately show ?thesis
    by (simp add: tl_distinct_eq [symmetric] tl_union_def tl_equal_eq tl_is_distinct_eq tl_intersect_eq)
qed

lemma list_sets_witness:
  "set (tl_intersect [Void, None_t] [[None_t, Unit_t]]) = {None_t}"
  using list_sets [of "[]" "[Void, None_t]" "[[None_t, Unit_t]]" "[None_t, Unit_t]"] by (simp add: tl_is_distinct_eq)

lemma groups_neighbours:
  "(\<forall>g \<in> set (groups_of p ts). successively (\<lambda>a b. p b a) g)
   \<and> successively (\<lambda>g h. \<not> p (hd h) (last g)) (groups_of p ts)"
proof (induction ts)
  case (Cons t ts)
  show ?case
  proof (cases "groups_of p ts")
    case Nil
    then show ?thesis by simp
  next
    case (Cons g gs)
    moreover have "g \<noteq> []" "hd ts = hd g" using groups_of_ne(2) [of p ts] concat_groups [of p ts] Cons by auto
    ultimately show ?thesis using Cons.IH by (auto simp: successively_Cons)
  qed
qed simp

text \<open>
  Zipping cuts the longer list, unzipping the pairs gives back the two cut lists. Grouping cuts a list into
  parts that are together the list: inside a part the predicate holds of every type and the one before it,
  and between parts it fails.
\<close>

theorem list_zip_groups:
  "(\<exists>zs. tl_zip as bs to_type_pair = Some zs \<and> tl_is_zipped zs
      \<and> tl_unzip zs = Some (take (length bs) as, take (length as) bs))
   \<and> (\<exists>gs. tl_group_by ts p = Some (map Type_list gs) \<and> concat gs = ts \<and> [] \<notin> set gs
      \<and> (\<forall>g \<in> set gs. successively (\<lambda>a b. p b a) g) \<and> successively (\<lambda>g h. \<not> p (hd h) (last g)) gs)"
proof -
  obtain zs where z: "tl_zip as bs to_type_pair = Some zs" by (simp add: tl_zip_eq)
  then have "tl_is_zipped zs" by (auto simp: tl_is_zipped_def tl_zip_eq to_type_pair_def list_all_iff)
  with z tl_unzip_zip [OF z] show ?thesis
    using groups_of_ne(2) groups_neighbours by (auto simp: tl_group_by_eq)
qed

lemma list_zip_groups_witness:
  "\<exists>zs. tl_zip [Void] [None_t, Unit_t] to_type_pair = Some zs \<and> tl_unzip zs = Some ([Void], [None_t])"
  using list_zip_groups [of "[Void]" "[None_t, Unit_t]" "[]" "(=)"] by auto

end
