(* ===== verification/ActorPool.thy ===== *)
theory ActorPool
  imports Monitorable MessageId
begin

text \<open>
  Actor pools (libcaf_core/src/actor_pool.cpp, caf/actor_pool.hpp): the vector of workers, the policies, the filter
  in front of them, and the end of the pool. A pool is no scheduled actor: \<open>enqueue\<close> runs in the thread of
  the caller, so a down message that a monitor sends while the pool holds its lock is handled inside that call.
\<close>

section \<open>State\<close>

text \<open>
  \<open>Round_robin\<close> has the counter \<open>pos_\<close>; \<open>Random_policy\<close> the number of draws so far, the draws themselves are a
  parameter \<open>draw k m\<close>: the \<open>k\<close>-th draw from \<open>0\<close> to \<open>m\<close>.
\<close>

datatype policy = Round_robin u64 | Broadcast | Random_policy nat

record pool =
  workers :: "nat list"
  planned_reason :: exit_reason
  policy_of :: policy
  registered :: bool

datatype 'm pool_content =
    Exit_content nat error     \<comment> \<open>\<open>exit_msg\<close>: source and reason\<close>
  | Down_content nat error     \<comment> \<open>\<open>down_msg\<close>\<close>
  | Put_content nat | Delete_content nat | Get_content
  | Other_content 'm

datatype 'm delivery =
    Forwarded nat "nat option" message_id 'm      \<comment> \<open>to a worker, with the sender\<close>
  | Exit_sent nat nat error                       \<comment> \<open>to a worker: source and reason\<close>
  | Workers_reply nat message_id "nat list"
  | Empty_reply nat message_id

text \<open>The world of the monitors, the pool, and what the pool has sent.\<close>

record 'm psys =
  pworld :: world
  pool_of :: pool
  sent :: "'m delivery list"

text \<open>\<open>Spins\<close>: the call waits for a lock that its own thread has.\<close>

datatype pool_fault = Null_sender | Spins

definition pool_deliver :: "'m delivery list \<Rightarrow> 'm psys \<Rightarrow> 'm psys" where
  "pool_deliver ds s = s\<lparr>sent := sent s @ ds\<rparr>"

definition set_workers :: "nat list \<Rightarrow> 'm psys \<Rightarrow> 'm psys" where
  "set_workers ws s = s\<lparr>pool_of := (pool_of s)\<lparr>workers := ws\<rparr>\<rparr>"

definition set_policy :: "policy \<Rightarrow> 'm psys \<Rightarrow> 'm psys" where
  "set_policy x s = s\<lparr>pool_of := (pool_of s)\<lparr>policy_of := x\<rparr>\<rparr>"

section \<open>Policies\<close>

definition round_robin :: policy where "round_robin = Round_robin 0"

definition random_draws :: policy where "random_draws = Random_policy 0"

definition dispatch_round_robin :: "u64 \<Rightarrow> nat option \<Rightarrow> message_id \<Rightarrow> 'm \<Rightarrow> 'm psys \<Rightarrow> 'm psys" where
  "dispatch_round_robin pos sender mid m s =
     (let vec = workers (pool_of s);
          selected = vec ! (unat pos mod length vec)
      in pool_deliver [Forwarded selected sender mid m] (set_policy (Round_robin (pos + 1)) s))"

definition broadcast_dispatch :: "nat option \<Rightarrow> message_id \<Rightarrow> 'm \<Rightarrow> 'm psys \<Rightarrow> 'm psys" where
  "broadcast_dispatch sender mid m s = pool_deliver (map (\<lambda>w. Forwarded w sender mid m) (workers (pool_of s))) s"

definition dispatch_random :: "(nat \<Rightarrow> nat \<Rightarrow> nat) \<Rightarrow> nat \<Rightarrow> nat option \<Rightarrow> message_id \<Rightarrow> 'm \<Rightarrow> 'm psys \<Rightarrow> 'm psys" where
  "dispatch_random draw k sender mid m s =
     (let vec = workers (pool_of s);
          selected = vec ! draw k (length vec - 1)
      in pool_deliver [Forwarded selected sender mid m] (set_policy (Random_policy (k + 1)) s))"

definition apply_policy :: "(nat \<Rightarrow> nat \<Rightarrow> nat) \<Rightarrow> nat option \<Rightarrow> message_id \<Rightarrow> 'm \<Rightarrow> 'm psys \<Rightarrow> 'm psys" where
  "apply_policy draw sender mid m s =
     (case policy_of (pool_of s) of
        Round_robin pos \<Rightarrow> dispatch_round_robin pos sender mid m s
      | Broadcast \<Rightarrow> broadcast_dispatch sender mid m s
      | Random_policy k \<Rightarrow> dispatch_random draw k sender mid m s)"

section \<open>The end of the pool\<close>

definition unregister :: "'m psys \<Rightarrow> 'm psys" where
  "unregister s = s\<lparr>pool_of := (pool_of s)\<lparr>registered := False\<rparr>\<rparr>"

definition pool_quit :: "nat \<Rightarrow> 'm psys \<Rightarrow> 'm psys" where
  "pool_quit p s =
     (case mon_cleanup p (Some (make_exit_error (planned_reason (pool_of s)))) (pworld s) of
        (ok, w) \<Rightarrow> if ok then unregister (s\<lparr>pworld := w\<rparr>) else s\<lparr>pworld := w\<rparr>)"

text \<open>
  A shared holder of the lock that upgrades gives its share back and then waits until no thread has the
  lock, so it waits for good if its own thread has \<open>held\<close> further shares.
\<close>

definition handle_down :: "nat \<Rightarrow> nat \<Rightarrow> nat \<Rightarrow> 'm psys \<Rightarrow> pool_fault + 'm psys" where
  "handle_down held p source s =
     (if held > 0 then Inl Spins
      else
        let ws = remove1 source (workers (pool_of s));
            s = set_workers ws s
        in Inr (if ws = [] then pool_quit p (s\<lparr>pool_of := (pool_of s)\<lparr>planned_reason := Out_of_workers\<rparr>\<rparr>) else s))"

definition handle_exit :: "nat \<Rightarrow> nat \<Rightarrow> error \<Rightarrow> 'm psys \<Rightarrow> 'm psys" where
  "handle_exit p source reason s =
     (case mon_cleanup p (Some reason) (pworld s) of
        (False, w) \<Rightarrow> s\<lparr>pworld := w\<rparr>
      | (True, w) \<Rightarrow>
          unregister (pool_deliver (map (\<lambda>x. Exit_sent x source reason) (workers (pool_of s)))
            (set_workers [] (s\<lparr>pworld := w\<rparr>))))"

text \<open>Attaching a monitor to an actor that has ended calls \<open>enqueue\<close> of the pool with the down message at once.\<close>

definition monitor_worker :: "nat \<Rightarrow> nat \<Rightarrow> nat \<Rightarrow> 'm psys \<Rightarrow> pool_fault + 'm psys" where
  "monitor_worker held p worker s =
     (let s' = s\<lparr>pworld := attach worker (Default_attachable worker p Monitor) (pworld s)\<rparr>
      in if terminated (act (pworld s) worker) \<and> p \<in> objs (pworld s) then handle_down held p worker s' else Inr s')"

section \<open>Messages\<close>

text \<open>\<open>filter\<close> is entered with a share of the lock. \<^const>\<open>True\<close>: the message is done.\<close>

fun pool_filter :: "nat \<Rightarrow> nat option \<Rightarrow> message_id \<Rightarrow> 'm pool_content \<Rightarrow> 'm psys \<Rightarrow> pool_fault + (bool \<times> 'm psys)" where
  "pool_filter p sender mid (Exit_content source reason) s = Inr (True, handle_exit p source reason s)"
| "pool_filter p sender mid (Down_content source reason) s = map_sum id (Pair True) (handle_down 0 p source s)"
| "pool_filter p sender mid (Put_content worker) s =
     map_sum id (\<lambda>s. (True, set_workers (workers (pool_of s) @ [worker]) s)) (monitor_worker 1 p worker s)"
| "pool_filter p sender mid (Delete_content what) s =
     Inr (True, set_workers (remove1 what (workers (pool_of s))) s)"
| "pool_filter p sender mid Get_content s =
     (case sender of
        None \<Rightarrow> Inl Null_sender
      | Some a \<Rightarrow> Inr (True, pool_deliver [Workers_reply a (response_id mid) (workers (pool_of s))] s))"
| "pool_filter p sender mid (Other_content m) s =
     (if workers (pool_of s) = []
      then Inr (True, case sender of
             Some a \<Rightarrow> if mid_valid mid then pool_deliver [Empty_reply a (response_id mid)] s else s
           | None \<Rightarrow> s)
      else Inr (False, s))"

definition pool_enqueue ::
    "(nat \<Rightarrow> nat \<Rightarrow> nat) \<Rightarrow> nat \<Rightarrow> nat option \<Rightarrow> message_id \<Rightarrow> 'm pool_content \<Rightarrow> 'm psys \<Rightarrow> pool_fault + 'm psys" where
  "pool_enqueue draw p sender mid c s =
     (case pool_filter p sender mid c s of
        Inl f \<Rightarrow> Inl f
      | Inr (True, s) \<Rightarrow> Inr s
      | Inr (False, s) \<Rightarrow> Inr (case c of Other_content m \<Rightarrow> apply_policy draw sender mid m s | _ \<Rightarrow> s))"

section \<open>Creation\<close>

text \<open>\<open>planned_reason_\<close> is not initialized by the constructor; it is written before it is read.\<close>

definition make_empty :: "exit_reason \<Rightarrow> policy \<Rightarrow> pool" where
  "make_empty junk pol = \<lparr>workers = [], planned_reason = junk, policy_of = pol, registered = True\<rparr>"

text \<open>The workers are the results of the calls of the factory. The lock is not taken.\<close>

fun add_workers :: "nat \<Rightarrow> nat list \<Rightarrow> 'm psys \<Rightarrow> pool_fault + 'm psys" where
  "add_workers p [] s = Inr s"
| "add_workers p (worker # ws) s =
     (case monitor_worker 0 p worker s of
        Inl f \<Rightarrow> Inl f
      | Inr s \<Rightarrow> add_workers p ws (set_workers (workers (pool_of s) @ [worker]) s))"

definition make_pool :: "exit_reason \<Rightarrow> nat \<Rightarrow> nat list \<Rightarrow> policy \<Rightarrow> world \<Rightarrow> pool_fault + 'm psys" where
  "make_pool junk p ws pol w = add_workers p ws \<lparr>pworld = w, pool_of = make_empty junk pol, sent = []\<rparr>"

section \<open>Runs\<close>

text \<open>
  A worker that ends sends one down message for each monitor of the pool, and the pool handles each inside that call.
\<close>

datatype 'm pool_op = Pool_msg "nat option" message_id "'m pool_content" | Worker_ends nat error

fun handle_downs :: "nat \<Rightarrow> nat \<Rightarrow> nat \<Rightarrow> 'm psys \<Rightarrow> pool_fault + 'm psys" where
  "handle_downs p w 0 s = Inr s"
| "handle_downs p w (Suc n) s = (case handle_down 0 p w s of Inl f \<Rightarrow> Inl f | Inr s \<Rightarrow> handle_downs p w n s)"

definition pool_monitors :: "nat \<Rightarrow> nat \<Rightarrow> world \<Rightarrow> nat" where
  "pool_monitors p w wd = length (filter (matches (Observe_token p Monitor)) (attachables (act wd w)))"

fun pool_step :: "(nat \<Rightarrow> nat \<Rightarrow> nat) \<Rightarrow> nat \<Rightarrow> 'm pool_op \<Rightarrow> 'm psys \<Rightarrow> pool_fault + 'm psys" where
  "pool_step draw p (Pool_msg sender mid c) s = pool_enqueue draw p sender mid c s"
| "pool_step draw p (Worker_ends w rsn) s =
     (case mon_cleanup w (Some rsn) (pworld s) of
        (ok, wd) \<Rightarrow>
          if ok \<and> p \<in> objs (pworld s) then handle_downs p w (pool_monitors p w (pworld s)) (s\<lparr>pworld := wd\<rparr>)
          else Inr (s\<lparr>pworld := wd\<rparr>))"

fun pool_run :: "(nat \<Rightarrow> nat \<Rightarrow> nat) \<Rightarrow> nat \<Rightarrow> 'm pool_op list \<Rightarrow> 'm psys \<Rightarrow> pool_fault + 'm psys" where
  "pool_run draw p [] s = Inr s"
| "pool_run draw p (op # ops) s =
     (case pool_step draw p op s of Inl f \<Rightarrow> Inl f | Inr s \<Rightarrow> pool_run draw p ops s)"

end
