(* ===== verification/PoolProperties.thy ===== *)
theory PoolProperties
  imports ActorPool
begin

text \<open>
  What a pool does over a run of messages and ends of workers: its refinement of an abstract pool, the faults of
  \<open>enqueue\<close>, and how evenly the round robin policy distributes.
\<close>

section \<open>The abstract pool\<close>

record apool =
  members :: "nat list"
  over :: bool
  watched :: "nat set"     \<comment> \<open>the actors that were ever added\<close>
  dead :: "nat set"

definition drop_member :: "(nat list \<Rightarrow> nat list) \<Rightarrow> apool \<Rightarrow> apool" where
  "drop_member f a = a\<lparr>members := f (members a), over := over a \<or> f (members a) = []\<rparr>"

fun apool_step :: "'m pool_op \<Rightarrow> apool \<Rightarrow> apool" where
  "apool_step (Pool_msg sender mid (Exit_content source reason)) a = (if over a then a else a\<lparr>members := [], over := True\<rparr>)"
| "apool_step (Pool_msg sender mid (Down_content source reason)) a = drop_member (remove1 source) a"
| "apool_step (Pool_msg sender mid (Put_content w)) a = a\<lparr>members := members a @ [w], watched := insert w (watched a)\<rparr>"
| "apool_step (Pool_msg sender mid (Delete_content w)) a = a\<lparr>members := remove1 w (members a)\<rparr>"
| "apool_step (Pool_msg sender mid Get_content) a = a"
| "apool_step (Pool_msg sender mid (Other_content m)) a = a"
| "apool_step (Worker_ends w rsn) a =
     (if w \<in> dead a then a
      else (if w \<in> watched a then drop_member (removeAll w) a else a)\<lparr>dead := insert w (dead a)\<rparr>)"

definition spec_start :: "nat list \<Rightarrow> apool" where
  "spec_start ws = \<lparr>members = ws, over = False, watched = set ws, dead = {}\<rparr>"

text \<open>Two calls do not return normally: adding an actor that has ended waits for good, since the down message
  comes back at once and needs the lock that the call has, and the workers cannot be told to nobody.\<close>

fun spec_fault :: "'m pool_op \<Rightarrow> apool \<Rightarrow> pool_fault option" where
  "spec_fault (Pool_msg sender mid (Put_content w)) a = (if w \<in> dead a then Some Spins else None)"
| "spec_fault (Pool_msg None mid Get_content) a = Some Null_sender"
| "spec_fault op a = None"

fun spec_run :: "'m pool_op list \<Rightarrow> apool \<Rightarrow> pool_fault + apool" where
  "spec_run [] a = Inr a"
| "spec_run (op # ops) a = (case spec_fault op a of Some f \<Rightarrow> Inl f | None \<Rightarrow> spec_run ops (apool_step op a))"

text \<open>A pool is not its own worker.\<close>

fun other_than :: "nat \<Rightarrow> 'm pool_op \<Rightarrow> bool" where
  "other_than p (Worker_ends w rsn) \<longleftrightarrow> w \<noteq> p"
| "other_than p (Pool_msg sender mid (Put_content w)) \<longleftrightarrow> w \<noteq> p"
| "other_than p op \<longleftrightarrow> True"

text \<open>Only living actors other than the pool are added, and who asks for the workers has a name.\<close>

fun puts_live :: "nat \<Rightarrow> nat set \<Rightarrow> 'm pool_op list \<Rightarrow> bool" where
  "puts_live p D [] \<longleftrightarrow> True"
| "puts_live p D (Worker_ends w rsn # ops) \<longleftrightarrow> w \<noteq> p \<and> puts_live p (insert w D) ops"
| "puts_live p D (Pool_msg sender mid (Put_content w) # ops) \<longleftrightarrow> w \<noteq> p \<and> w \<notin> D \<and> puts_live p D ops"
| "puts_live p D (Pool_msg sender mid Get_content # ops) \<longleftrightarrow> sender \<noteq> None \<and> puts_live p D ops"
| "puts_live p D (Pool_msg sender mid c # ops) \<longleftrightarrow> puts_live p D ops"

lemma puts_live_run:
  "puts_live p (dead a) ops \<Longrightarrow> spec_run ops a = Inr (fold apool_step ops a) \<and> list_all (other_than p) ops"
proof (induction ops arbitrary: a)
  case (Cons op ops)
  have "spec_fault op a = None \<and> other_than p op \<and> puts_live p (dead (apool_step op a)) ops"
    by (cases "(op, a)" rule: apool_step.cases)
      (use Cons.prems in \<open>auto simp: drop_member_def insert_absorb split: option.split elim: option.exhaust\<close>)
  then show ?case using Cons.IH [of "apool_step op a"] by simp
qed simp

definition pool_rel :: "nat \<Rightarrow> 'm psys \<Rightarrow> apool \<Rightarrow> bool" where
  "pool_rel p s a \<longleftrightarrow>
     p \<in> objs (pworld s) \<and> workers (pool_of s) = members a \<and> cleaned_up (act (pworld s) p) = over a
     \<and> (\<forall>w. w \<noteq> p \<longrightarrow> terminated (act (pworld s) w) = (w \<in> dead a) \<and> cleaned_up (act (pworld s) w) = (w \<in> dead a))
     \<and> (\<forall>w. w \<noteq> p \<longrightarrow> w \<notin> dead a \<longrightarrow> count_list (members a) w \<le> pool_monitors p w (pworld s)
          \<and> (pool_monitors p w (pworld s) > 0 \<longleftrightarrow> w \<in> watched a))
     \<and> set (members a) \<inter> insert p (dead a) = {}"

section \<open>What the operations leave alone\<close>

lemma pool_simps [simp]:
  "pworld (pool_deliver ds s) = pworld s" "pool_of (pool_deliver ds s) = pool_of s" "sent (pool_deliver ds s) = sent s @ ds"
  "pworld (set_workers ws s) = pworld s" "workers (pool_of (set_workers ws s)) = ws" "sent (set_workers ws s) = sent s"
  "policy_of (pool_of (set_workers ws s)) = policy_of (pool_of s)"
  "pworld (set_policy x s) = pworld s" "workers (pool_of (set_policy x s)) = workers (pool_of s)" "sent (set_policy x s) = sent s"
  "policy_of (pool_of (set_policy x s)) = x"
  "pworld (unregister s) = pworld s" "workers (pool_of (unregister s)) = workers (pool_of s)" "sent (unregister s) = sent s"
  by (simp_all add: pool_deliver_def set_workers_def set_policy_def unregister_def)

lemma apply_policy_simps [simp]:
  "pworld (apply_policy draw sender mid m s) = pworld s"
  "workers (pool_of (apply_policy draw sender mid m s)) = workers (pool_of s)"
  by (simp_all add: apply_policy_def dispatch_round_robin_def broadcast_dispatch_def dispatch_random_def Let_def
      split: policy.split)

lemma mon_cleanup_act:
  assumes "mon_cleanup a (Some r) w = (ok, w')"
  shows "ok = (\<not> cleaned_up (act w a))" "objs w' = objs w" "b \<noteq> a \<Longrightarrow> act w' b = act w b" "cleaned_up (act w' a)"
    "\<not> cleaned_up (act w a) \<Longrightarrow> terminated (act w' a) \<and> attachables (act w' a) = []"
    "cleaned_up (act w a) \<Longrightarrow> w' = w"
  using assms by (auto simp: mon_cleanup_def Let_def split: if_splits)

lemma pool_monitors_cong: "act w' b = act w b \<Longrightarrow> pool_monitors p b w' = pool_monitors p b w"
  by (simp add: pool_monitors_def)

lemma pool_quit_simps [simp]:
  "objs (pworld (pool_quit p s)) = objs (pworld s)" "b \<noteq> p \<Longrightarrow> act (pworld (pool_quit p s)) b = act (pworld s) b"
  "cleaned_up (act (pworld (pool_quit p s)) p)" "workers (pool_of (pool_quit p s)) = workers (pool_of s)"
  by (cases "mon_cleanup p (Some (make_exit_error (planned_reason (pool_of s)))) (pworld s)";
      simp add: pool_quit_def mon_cleanup_act)+

lemma handle_down_ok:
  "\<exists>s'. handle_down 0 p w s = Inr s' \<and> workers (pool_of s') = remove1 w (workers (pool_of s))
     \<and> objs (pworld s') = objs (pworld s) \<and> (\<forall>b. b \<noteq> p \<longrightarrow> act (pworld s') b = act (pworld s) b)
     \<and> cleaned_up (act (pworld s') p) = (cleaned_up (act (pworld s) p) \<or> remove1 w (workers (pool_of s)) = [])"
  by (simp add: handle_down_def Let_def)

text \<open>Removing one entry per down message removes them all, if there is a message for each.\<close>

lemma remove1_pow: "count_list xs w \<le> n \<Longrightarrow> ((remove1 w) ^^ n) xs = removeAll w xs"
proof (induction n arbitrary: xs)
  case 0
  then show ?case by (simp add: removeAll_id count_list_0_iff)
next
  case (Suc n)
  have "removeAll w (remove1 w xs) = removeAll w xs" by (induction xs) auto
  moreover have "count_list (remove1 w xs) w = count_list xs w - 1" by (induction xs) auto
  ultimately show ?case using Suc by (simp add: funpow_swap1 del: funpow.simps) (simp add: funpow_Suc_right del: funpow.simps)
qed

lemma handle_downs_ok:
  "\<exists>s'. handle_downs p w n s = Inr s' \<and> workers (pool_of s') = ((remove1 w) ^^ n) (workers (pool_of s))
     \<and> objs (pworld s') = objs (pworld s) \<and> (\<forall>b. b \<noteq> p \<longrightarrow> act (pworld s') b = act (pworld s) b)
     \<and> cleaned_up (act (pworld s') p) =
         (cleaned_up (act (pworld s) p) \<or> n > 0 \<and> ((remove1 w) ^^ n) (workers (pool_of s)) = [])"
proof (induction n arbitrary: s)
  case (Suc n)
  obtain s1 where s1: "handle_down 0 p w s = Inr s1" "workers (pool_of s1) = remove1 w (workers (pool_of s))"
    "objs (pworld s1) = objs (pworld s)" "\<And>b. b \<noteq> p \<Longrightarrow> act (pworld s1) b = act (pworld s) b"
    "cleaned_up (act (pworld s1) p) = (cleaned_up (act (pworld s) p) \<or> remove1 w (workers (pool_of s)) = [])"
    using handle_down_ok [of p w s] by blast
  have e: "(remove1 w ^^ n) ([] :: nat list) = []" for n by (induction n) simp_all
  show ?case using Suc.IH [of s1] s1 e by (auto simp: funpow_Suc_right simp del: funpow.simps)
qed simp

section \<open>The refinement\<close>

lemma pool_rel_quiet:
  assumes "pool_rel p s a" and "objs (pworld s') = objs (pworld s)" "\<And>b. b \<noteq> p \<Longrightarrow> act (pworld s') b = act (pworld s) b"
    and "workers (pool_of s') = ms" "cleaned_up (act (pworld s') p) = ov"
    and "set ms \<subseteq> set (members a)" "\<And>w. count_list ms w \<le> count_list (members a) w"
  shows "pool_rel p s' (a\<lparr>members := ms, over := ov\<rparr>)"
proof -
  have m: "pool_monitors p b (pworld s') = pool_monitors p b (pworld s)" if "b \<noteq> p" for b
    using assms(3) [OF that] by (rule pool_monitors_cong)
  have c: "count_list ms w \<le> pool_monitors p w (pworld s)" if "w \<noteq> p" "w \<notin> dead a" for w
  proof -
    have "count_list (members a) w \<le> pool_monitors p w (pworld s)" using assms(1) that by (simp add: pool_rel_def)
    with assms(7) [of w] show ?thesis by linarith
  qed
  show ?thesis using assms(1,2,4-6) m c assms(3) unfolding pool_rel_def by auto
qed

lemma count_remove1: "count_list (remove1 w xs) v \<le> count_list xs v"
  by (induction xs) auto

lemma count_removeAll: "count_list (removeAll w xs) v \<le> count_list xs v"
  by (induction xs) auto

lemma handle_exit_simps [simp]:
  "workers (pool_of (handle_exit p source reason s)) = (if cleaned_up (act (pworld s) p) then workers (pool_of s) else [])"
  "objs (pworld (handle_exit p source reason s)) = objs (pworld s)"
  "b \<noteq> p \<Longrightarrow> act (pworld (handle_exit p source reason s)) b = act (pworld s) b"
  "cleaned_up (act (pworld (handle_exit p source reason s)) p)"
  by (cases "mon_cleanup p (Some reason) (pworld s)" rule: prod.exhaust [case_product bool.exhaust];
      auto simp: handle_exit_def dest: mon_cleanup_act [of p reason] split: bool.split prod.splits)+

lemma pool_rel_downs:
  assumes "pool_rel p s a" "handle_down 0 p w s = Inr s'"
  shows "pool_rel p s' (drop_member (remove1 w) a)"
proof -
  have w: "workers (pool_of s) = members a" "cleaned_up (act (pworld s) p) = over a" using assms(1) by (simp_all add: pool_rel_def)
  have "pool_rel p s' (a\<lparr>members := remove1 w (members a), over := over a \<or> remove1 w (members a) = []\<rparr>)"
    by (rule pool_rel_quiet [OF assms(1)])
      (use handle_down_ok [of p w s] assms(2) w set_remove1_subset [of w "members a"] count_remove1 [of w "members a"] in auto)
  then show ?thesis by (simp add: drop_member_def)
qed

lemma monitor_live:
  assumes "pool_rel p s a" "w \<noteq> p" "w \<notin> dead a"
  shows "\<exists>s'. monitor_worker held p w s = Inr s' \<and> workers (pool_of s') = workers (pool_of s)
    \<and> pool_rel p (set_workers (workers (pool_of s') @ [w]) s') (a\<lparr>members := members a @ [w], watched := insert w (watched a)\<rparr>)"
proof -
  let ?s = "s\<lparr>pworld := attach w (Default_attachable w p Monitor) (pworld s)\<rparr>"
  have t: "\<not> terminated (act (pworld s) w)" using assms by (simp add: pool_rel_def)
  have m: "pool_monitors p b (pworld ?s) = pool_monitors p b (pworld s) + (if b = w then 1 else 0)" for b
    using t by (simp add: pool_monitors_def attach_def attach_impl_def)
  have "pool_rel p (set_workers (workers (pool_of ?s) @ [w]) ?s) (a\<lparr>members := members a @ [w], watched := insert w (watched a)\<rparr>)"
    using assms m t unfolding pool_rel_def by (auto simp: attach_def attach_impl_def)
  then show ?thesis using t by (simp add: monitor_worker_def Let_def)
qed

lemma pool_enqueue_other:
  assumes "pool_rel p s a"
  shows "\<exists>s'. pool_enqueue draw p sender mid (Other_content m) s = Inr s' \<and> pool_rel p s' a"
  using assms by (auto simp: pool_enqueue_def pool_rel_def split: option.split)

lemma worker_ends_rel:
  assumes r: "pool_rel p s a" and "w \<noteq> p"
  shows "\<exists>s'. pool_step draw p (Worker_ends w rsn) s = Inr s' \<and> pool_rel p s' (apool_step (Worker_ends w rsn) a)"
proof (cases "w \<in> dead a")
  case True
  then show ?thesis using assms by (auto simp: pool_rel_def mon_cleanup_def Let_def)
next
  case False
  obtain ok wd where c: "mon_cleanup w (Some rsn) (pworld s) = (ok, wd)" by fastforce
  note wd = mon_cleanup_act [OF c]
  have live: "\<not> cleaned_up (act (pworld s) w)" "p \<in> objs (pworld s)" "workers (pool_of s) = members a"
    "cleaned_up (act (pworld s) p) = over a" "count_list (members a) w \<le> pool_monitors p w (pworld s)"
    "pool_monitors p w (pworld s) > 0 \<longleftrightarrow> w \<in> watched a"
    using r False assms(2) by (simp_all add: pool_rel_def)
  have act_wd: "act wd b = act (pworld s) b" if "b \<noteq> w" for b using wd(3) that by blast
  define n where "n = pool_monitors p w (pworld s)"
  obtain s' where s': "handle_downs p w n (s\<lparr>pworld := wd\<rparr>) = Inr s'"
    "workers (pool_of s') = (remove1 w ^^ n) (members a)" "objs (pworld s') = objs wd"
    "\<And>b. b \<noteq> p \<Longrightarrow> act (pworld s') b = act wd b"
    "cleaned_up (act (pworld s') p) = (cleaned_up (act wd p) \<or> n > 0 \<and> (remove1 w ^^ n) (members a) = [])"
    using handle_downs_ok [of p w n "s\<lparr>pworld := wd\<rparr>"] live(3) by auto
  have ws: "(remove1 w ^^ n) (members a) = removeAll w (members a)" using live(5) by (simp add: n_def remove1_pow)
  have other: "act (pworld s') b = act (pworld s) b" if "b \<noteq> p" "b \<noteq> w" for b using s'(4) act_wd that by simp
  have mon: "pool_monitors p b (pworld s') = pool_monitors p b (pworld s)" if "b \<noteq> p" "b \<noteq> w" for b
    using other [OF that] by (rule pool_monitors_cong)
  have w': "terminated (act (pworld s') w)" "cleaned_up (act (pworld s') w)"
    using s'(4) [of w] wd(4,5) live(1) assms(2) by simp_all
  have z: "n = 0 \<Longrightarrow> removeAll w (members a) = members a" using live(5) by (simp add: n_def removeAll_id count_list_0_iff)
  have "pool_rel p s' (a\<lparr>members := removeAll w (members a), over := over a \<or> n > 0 \<and> removeAll w (members a) = [],
      dead := insert w (dead a)\<rparr>)" (is "pool_rel p s' ?a")
    unfolding pool_rel_def
  proof (intro conjI allI impI)
    fix b assume b: "b \<noteq> p" "b \<notin> dead ?a"
    then have "count_list (members a) b \<le> pool_monitors p b (pworld s)" using r by (simp add: pool_rel_def)
    then show "count_list (members ?a) b \<le> pool_monitors p b (pworld s')"
      using mon b count_removeAll [of w "members a" b] by simp
    show "(pool_monitors p b (pworld s') > 0) = (b \<in> watched ?a)" using r mon b by (simp add: pool_rel_def)
  next
    fix b assume "b \<noteq> p"
    then show "terminated (act (pworld s') b) = (b \<in> dead ?a)" "cleaned_up (act (pworld s') b) = (b \<in> dead ?a)"
      using r other [of b] w' by (cases "b = w"; simp add: pool_rel_def)+
  next
    have "set (members a) \<inter> insert p (dead a) = {}" using r by (simp add: pool_rel_def)
    then show "set (members ?a) \<inter> insert p (dead ?a) = {}" by auto
  qed (use s'(2,3,5) ws wd(2) act_wd [of p] live(2,4) assms(2) in simp_all)
  moreover have "pool_step draw p (Worker_ends w rsn) s = Inr s'"
    using c wd(1) live s'(1) by (simp add: n_def)
  moreover have "apool_step (Worker_ends w rsn) a = ?a"
    using False live(6) z by (auto simp: drop_member_def n_def)
  ultimately show ?thesis by auto
qed

lemma pool_step_rel:
  assumes r: "pool_rel p s a" and ok: "other_than p op"
  shows "case spec_fault op a of Some f \<Rightarrow> pool_step draw p op s = Inl f
    | None \<Rightarrow> \<exists>s'. pool_step draw p op s = Inr s' \<and> pool_rel p s' (apool_step op a)"
proof (cases op)
  case (Worker_ends w rsn)
  then show ?thesis using worker_ends_rel [OF r, of w draw rsn] ok by (auto simp: drop_member_def insert_absorb)
next
  case (Pool_msg sender mid c)
  have q: "workers (pool_of s) = members a" "cleaned_up (act (pworld s) p) = over a" using r by (simp_all add: pool_rel_def)
  show ?thesis
  proof (cases c)
    case (Exit_content source reason)
    have "pool_rel p (handle_exit p source reason s)
        (a\<lparr>members := (if over a then members a else []), over := True\<rparr>)"
      by (rule pool_rel_quiet [OF r]) (use q in \<open>auto\<close>)
    moreover have "a\<lparr>members := (if over a then members a else []), over := True\<rparr> = apool_step op a"
      using Pool_msg Exit_content by simp
    ultimately show ?thesis using Pool_msg Exit_content ok by (simp add: pool_enqueue_def)
  next
    case (Down_content source reason)
    then show ?thesis using Pool_msg ok handle_down_ok [of p source s] pool_rel_downs [OF r, of source]
      by (auto simp: pool_enqueue_def drop_member_def)
  next
    case (Put_content w)
    have "monitor_worker 1 p w s = Inl Spins" if "w \<in> dead a"
      using that r ok Pool_msg Put_content by (simp add: monitor_worker_def handle_down_def pool_rel_def)
    then show ?thesis using Put_content Pool_msg ok monitor_live [OF r, of w 1] by (auto simp: pool_enqueue_def)
  next
    case (Delete_content w)
    have "pool_rel p (set_workers (remove1 w (workers (pool_of s))) s) (a\<lparr>members := remove1 w (members a), over := over a\<rparr>)"
      by (rule pool_rel_quiet [OF r]) (use q count_remove1 set_remove1_subset [of w "members a"] in auto)
    then show ?thesis using Pool_msg Delete_content ok by (simp add: pool_enqueue_def)
  next
    case Get_content
    then show ?thesis using Pool_msg ok r by (cases sender) (auto simp: pool_enqueue_def pool_rel_def)
  next
    case (Other_content m)
    then show ?thesis using Pool_msg ok pool_enqueue_other [OF r] by simp
  qed
qed

lemma pool_run_rel:
  "pool_rel p s a \<Longrightarrow> list_all (other_than p) ops \<Longrightarrow>
    (case spec_run ops a of Inl f \<Rightarrow> pool_run draw p ops s = Inl f
     | Inr a' \<Rightarrow> \<exists>s'. pool_run draw p ops s = Inr s' \<and> pool_rel p s' a')"
proof (induction ops arbitrary: s a)
  case (Cons op ops)
  then have step: "case spec_fault op a of Some f \<Rightarrow> pool_step draw p op s = Inl f
    | None \<Rightarrow> \<exists>s'. pool_step draw p op s = Inr s' \<and> pool_rel p s' (apool_step op a)"
    using pool_step_rel [of p s a op draw] by simp
  show ?case
  proof (cases "spec_fault op a")
    case None
    then obtain s1 where "pool_step draw p op s = Inr s1" "pool_rel p s1 (apool_step op a)" using step by auto
    then show ?thesis using Cons.IH [of s1 "apool_step op a"] Cons.prems(2) None
      by (auto split: sum.splits)
  qed (use step in simp)
qed simp

definition all_alive :: "nat \<Rightarrow> world \<Rightarrow> bool" where
  "all_alive p w \<longleftrightarrow> p \<in> objs w \<and> \<not> cleaned_up (act w p)
     \<and> (\<forall>b. b \<noteq> p \<longrightarrow> \<not> terminated (act w b) \<and> \<not> cleaned_up (act w b) \<and> pool_monitors p b w = 0)"

lemma add_workers_rel:
  "pool_rel p s a \<Longrightarrow> set ws \<inter> insert p (dead a) = {} \<Longrightarrow>
    \<exists>s'. add_workers p ws s = Inr s' \<and> pool_rel p s' (a\<lparr>members := members a @ ws, watched := watched a \<union> set ws\<rparr>)"
proof (induction ws arbitrary: s a)
  case (Cons w ws)
  obtain s1 where s1: "monitor_worker 0 p w s = Inr s1"
    "pool_rel p (set_workers (workers (pool_of s1) @ [w]) s1) (a\<lparr>members := members a @ [w], watched := insert w (watched a)\<rparr>)"
    using monitor_live [OF Cons.prems(1), of w 0] Cons.prems(2) by auto
  then show ?case using Cons.IH [OF s1(2)] Cons.prems(2) by auto
qed simp

lemma make_pool_rel:
  assumes "all_alive p w" and "p \<notin> set ws"
  shows "\<exists>s. make_pool junk p ws pol w = Inr s \<and> pool_rel p s (spec_start ws)"
proof -
  let ?a = "\<lparr>members = [], over = False, watched = {}, dead = {}\<rparr>"
  have "pool_rel p \<lparr>pworld = w, pool_of = make_empty junk pol, sent = ([] :: 'm delivery list)\<rparr> ?a"
    using assms(1) by (auto simp: pool_rel_def all_alive_def make_empty_def)
  from add_workers_rel [OF this, of ws] assms(2) show ?thesis
    by (auto simp: make_pool_def spec_start_def)
qed

section \<open>Round robin\<close>

text \<open>How many of the numbers below \<open>m\<close> have the remainder \<open>j\<close>.\<close>

lemma residues_below:
  assumes "j < k"
  shows "length (filter (\<lambda>x. x mod k = j) [0..<m]) = (m + (k - 1 - j)) div k"
proof (induction m)
  case 0
  then show ?case using assms by simp
next
  case (Suc m)
  have "Suc (m + (k - 1 - j)) mod k = 0 \<longleftrightarrow> m mod k = j"
  proof -
    have "Suc (m + (k - 1 - j)) = k * (m div k) + (m mod k + (k - j))" using assms by simp
    then have "Suc (m + (k - 1 - j)) mod k = (m mod k + (k - j)) mod k" by (simp only: mod_mult_self4)
    moreover have "(r + (k - j)) mod k = 0 \<longleftrightarrow> r = j" if "r < k" for r
    proof (cases "r < j")
      case False
      then have "r + (k - j) = k + (r - j)" using assms by simp
      then have "(r + (k - j)) mod k = (r - j) mod k" by (simp only: mod_add_self1)
      then have "(r + (k - j)) mod k = r - j" using that by simp
      then show ?thesis using False by simp
    qed (use assms in simp)
    moreover have "m mod k < k" using assms by simp
    ultimately show ?thesis by simp
  qed
  then show ?case using Suc assms by (simp add: div_Suc)
qed

lemma div_slice:
  fixes x n k :: nat
  assumes "0 < k"
  shows "x div k + n div k \<le> (x + n) div k" "(x + n) div k \<le> x div k + (n + k - 1) div k"
proof -
  show "x div k + n div k \<le> (x + n) div k" using assms by (simp add: div_add1_eq [of x n k])
  have "x + n = k * (x div k) + (x mod k + n)" by simp
  then have "(x + n) div k = x div k + (x mod k + n) div k" using assms by (metis div_mult_self4 less_numeral_extra(3))
  moreover have "x mod k \<le> k - 1" using assms by (simp add: Suc_leI less_Suc_eq_le [symmetric])
  then have "(x mod k + n) div k \<le> (n + k - 1) div k" using assms by (intro div_le_mono) linarith
  ultimately show "(x + n) div k \<le> x div k + (n + k - 1) div k" by simp
qed

lemma residues_slice:
  assumes "j < k"
  shows "length (filter (\<lambda>i. (a + i) mod k = j) [0..<n]) \<in> {n div k .. (n + k - 1) div k}"
proof -
  have "map ((+) a) [0..<n] = [a..<a + n]" by (induction n) simp_all
  then have s: "[0..<a + n] = [0..<a] @ map ((+) a) [0..<n]" using upt_add_eq_append [of 0 a n] by simp
  have "length (filter (\<lambda>i. (a + i) mod k = j) [0..<n])
      = length (filter (\<lambda>x. x mod k = j) [0..<a + n]) - length (filter (\<lambda>x. x mod k = j) [0..<a])"
    unfolding s by (simp add: filter_map comp_def)
  then have "length (filter (\<lambda>i. (a + i) mod k = j) [0..<n])
      = (a + (k - 1 - j) + n) div k - (a + (k - 1 - j)) div k"
    using assms by (simp only: residues_below) (simp add: ac_simps)
  moreover have "x - y \<in> {c..d}" if "y + c \<le> x" "x \<le> y + d" for x y c d :: nat using that by auto
  moreover have "0 < k" using assms by simp
  ultimately show ?thesis using div_slice [of k "a + (k - 1 - j)" n] by simp
qed

text \<open>A sequence of messages that are dispatched round robin.\<close>

definition sends :: "(nat option \<times> message_id \<times> 'm) list \<Rightarrow> 'm pool_op list" where
  "sends ms = map (\<lambda>(sender, mid, m). Pool_msg sender mid (Other_content m)) ms"

fun forwarded_to :: "nat \<Rightarrow> 'm delivery \<Rightarrow> bool" where
  "forwarded_to w (Forwarded v sender mid m) \<longleftrightarrow> v = w"
| "forwarded_to w _ \<longleftrightarrow> False"

definition nth_forward :: "nat list \<Rightarrow> nat \<Rightarrow> nat option \<times> message_id \<times> 'm \<Rightarrow> 'm delivery" where
  "nth_forward vec i x = (case x of (sender, mid, m) \<Rightarrow> Forwarded (vec ! (i mod length vec)) sender mid m)"

lemma round_robin_run:
  assumes "policy_of (pool_of s) = Round_robin pos" "workers (pool_of s) = vec" "vec \<noteq> []" "unat pos + length ms \<le> 2 ^ 64"
  shows "\<exists>s'. pool_run draw p (sends ms) s = Inr s' \<and> workers (pool_of s') = vec
    \<and> sent s' = sent s @ map (\<lambda>i. nth_forward vec (unat pos + i) (ms ! i)) [0..<length ms]"
  using assms
proof (induction ms arbitrary: s pos)
  case (Cons x ms)
  obtain sender mid m where x: "x = (sender, mid, m)" by (cases x)
  let ?s = "dispatch_round_robin pos sender mid m s"
  have s1: "policy_of (pool_of ?s) = Round_robin (pos + 1)" "workers (pool_of ?s) = vec"
    "sent ?s = sent s @ [nth_forward vec (unat pos) x]"
    using Cons.prems x by (simp_all add: dispatch_round_robin_def Let_def nth_forward_def)
  have idx: "map (\<lambda>i. nth_forward vec (unat pos + i) ((x # ms) ! i)) [0..<length (x # ms)]
    = nth_forward vec (unat pos) x # map (\<lambda>i. nth_forward vec (unat pos + Suc i) (ms ! i)) [0..<length ms]"
    by (simp add: upt_conv_Cons map_Suc_upt [symmetric] comp_def del: upt_Suc)
  show ?case
  proof (cases "ms = []")
    case True
    then show ?thesis using Cons.prems s1 x by (simp add: sends_def pool_enqueue_def apply_policy_def)
  next
    case False
    then have "1 \<le> length ms" by (simp add: Suc_leI)
    then have "unat pos + 1 < 2 ^ 64" using Cons.prems(4) by simp
    then have u: "unat (pos + 1) = unat pos + 1" by (simp add: unat_word_ariths)
    obtain s' where "pool_run draw p (sends ms) ?s = Inr s'" "workers (pool_of s') = vec"
      "sent s' = sent ?s @ map (\<lambda>i. nth_forward vec (unat (pos + 1) + i) (ms ! i)) [0..<length ms]"
      using Cons.IH [OF s1(1,2) Cons.prems(3)] Cons.prems(4) u by auto
    then show ?thesis using Cons.prems s1 x idx u
      by (simp add: sends_def pool_enqueue_def apply_policy_def del: upt_Suc)
  qed
qed (simp add: sends_def)

lemma forwarded_nth [simp]: "forwarded_to w (nth_forward vec i x) \<longleftrightarrow> vec ! (i mod length vec) = w"
  by (simp add: nth_forward_def split: prod.split)

section \<open>Properties\<close>

lemma no_delete_over:
  assumes "\<And>sender mid w. Pool_msg sender mid (Delete_content w) \<notin> set ops" and "members a = [] \<longrightarrow> over a"
  shows "members (fold apool_step ops a) = [] \<longrightarrow> over (fold apool_step ops a)"
  using assms
proof (induction ops arbitrary: a)
  case (Cons op ops)
  have "members (apool_step op a) = [] \<longrightarrow> over (apool_step op a)"
    by (cases "(op, a)" rule: apool_step.cases) (use Cons.prems in \<open>auto simp: drop_member_def\<close>)
  then show ?case using Cons by simp
qed simp

text \<open>C18: a pool refines the abstract pool, faults included. From its creation, with all other actors alive and
  the pool not its own worker, over any messages and ends of actors: a call goes wrong exactly when the
  abstract pool says so, by waiting for good when an actor that has ended is added, and by a null sender when
  the workers are asked for by nobody; otherwise all calls return, the vector is the list of members of the
  abstract pool, and the pool has ended exactly when the abstract one is over: after an exit message, or after a
  down message that leaves no worker, be it that of the last worker or one that reaches a pool
  emptied by deletions.\<close>

theorem pool_refines:
  assumes "all_alive p w" and "p \<notin> set ws" and "list_all (other_than p) ops"
  shows "\<exists>s. make_pool junk p ws pol w = Inr (s :: 'm psys) \<and>
    (case spec_run ops (spec_start ws) of
       Inl f \<Rightarrow> pool_run draw p ops s = Inl f
     | Inr a \<Rightarrow> \<exists>s'. pool_run draw p ops s = Inr s' \<and> workers (pool_of s') = members a
         \<and> cleaned_up (act (pworld s') p) = over a)"
proof -
  obtain s :: "'m psys" where s: "make_pool junk p ws pol w = Inr s" "pool_rel p s (spec_start ws)"
    using make_pool_rel [OF assms(1,2)] by blast
  show ?thesis
    using s(1) pool_run_rel [OF s(2) assms(3), of draw]
    by (cases "spec_run ops (spec_start ws)") (auto simp: pool_rel_def)
qed

definition pool_example :: "nat pool_op list" where
  "pool_example = [Pool_msg None (mid_make Normal) (Put_content 3), Worker_ends 1 no_error,
     Pool_msg (Some 9) (Message_id 5) (Other_content 7), Worker_ends 3 no_error, Worker_ends 2 no_error]"

lemma fresh_alive: "p \<in> os \<Longrightarrow> all_alive p (fresh_world os)"
  by (simp add: all_alive_def fresh_world_def fresh_actor_def pool_monitors_def)

theorem pool_refines_witness:
  "(\<exists>s s'. make_pool Exit_normal 0 [1, 2] round_robin (fresh_world {0, 1, 2, 3}) = Inr s
      \<and> pool_run (\<lambda>k m. m) 0 pool_example s = Inr s' \<and> workers (pool_of s') = [] \<and> cleaned_up (act (pworld s') 0))
    \<and> (\<exists>s. make_pool Exit_normal 0 [1, 2] round_robin (fresh_world {0, 1, 2, 3}) = Inr s
      \<and> pool_run (\<lambda>k m. m) 0 (pool_example @ [Pool_msg None (mid_make Normal) (Put_content 1)]) s = Inl Spins)"
  using pool_refines [OF fresh_alive [of 0 "{0, 1, 2, 3}"], of "[1, 2]" pool_example Exit_normal round_robin "\<lambda>k m. m"]
    pool_refines [OF fresh_alive [of 0 "{0, 1, 2, 3}"], of "[1, 2]"
      "pool_example @ [Pool_msg None (mid_make Normal) (Put_content 1)]" Exit_normal round_robin "\<lambda>k m. m"]
  by (simp add: pool_example_def spec_start_def drop_member_def)

lemma members_watched: "set (members a) \<subseteq> watched a \<Longrightarrow> set (members (fold apool_step ops a)) \<subseteq> watched (fold apool_step ops a)"
proof (induction ops arbitrary: a)
  case (Cons op ops)
  have "set (members (apool_step op a)) \<subseteq> watched (apool_step op a)"
    by (cases "(op, a)" rule: apool_step.cases)
      (use Cons.prems set_remove1_subset [of _ "members a"] in \<open>auto simp: drop_member_def\<close>)
  then show ?case using Cons.IH by simp
qed simp

text \<open>An actor that has ended is never among the workers; and a pool that was made with workers and from
  which none is taken out by a message has ended when all actors that were ever added have ended.\<close>

theorem pool_ends_with_workers:
  assumes "all_alive p w" and "p \<notin> set ws" and "puts_live p {} ops" and "ws \<noteq> []"
    and "\<And>sender mid v. Pool_msg sender mid (Delete_content v) \<notin> set ops"
  shows "\<exists>s s'. make_pool junk p ws pol w = Inr s \<and> pool_run draw p ops (s :: 'm psys) = Inr s'
    \<and> (\<forall>v \<in> set (workers (pool_of s')). \<not> terminated (act (pworld s') v))
    \<and> (watched (fold apool_step ops (spec_start ws)) \<subseteq> dead (fold apool_step ops (spec_start ws))
        \<longrightarrow> workers (pool_of s') = [] \<and> cleaned_up (act (pworld s') p))"
proof -
  define a where "a = fold apool_step ops (spec_start ws)"
  obtain s :: "'m psys" where s: "make_pool junk p ws pol w = Inr s" "pool_rel p s (spec_start ws)"
    using make_pool_rel [OF assms(1,2)] by blast
  have "puts_live p (dead (spec_start ws)) ops" using assms(3) by (simp add: spec_start_def)
  then have "spec_run ops (spec_start ws) = Inr a" "list_all (other_than p) ops"
    using puts_live_run [of p "spec_start ws" ops] by (simp_all add: a_def)
  then obtain s' where s': "pool_run draw p ops s = Inr s'" and r: "pool_rel p s' a"
    using pool_run_rel [OF s(2), of ops draw] by auto
  have d: "set (members a) \<inter> insert p (dead a) = {}" and m: "workers (pool_of s') = members a"
    "cleaned_up (act (pworld s') p) = over a" "\<And>v. v \<noteq> p \<Longrightarrow> terminated (act (pworld s') v) = (v \<in> dead a)"
    using r by (simp_all add: pool_rel_def)
  have "set (members a) \<subseteq> watched a" unfolding a_def by (rule members_watched) (simp add: spec_start_def)
  then have "members a = []" if "watched a \<subseteq> dead a" using that d by (cases "members a") auto
  moreover have "members a = [] \<longrightarrow> over a"
    unfolding a_def by (rule no_delete_over [OF assms(5)]) (use assms(4) in \<open>simp add: spec_start_def\<close>)
  moreover have "\<not> terminated (act (pworld s') v)" if "v \<in> set (workers (pool_of s'))" for v
    using that m(1) m(3) [of v] d by auto
  ultimately show ?thesis using s(1) s' m(1,2) unfolding a_def [symmetric] by auto
qed

theorem pool_ends_with_workers_witness:
  "\<exists>s s'. make_pool Exit_normal 0 [1, 2] round_robin (fresh_world {0, 1, 2, 3}) = Inr s
    \<and> pool_run (\<lambda>k m. m) 0 pool_example s = Inr s'
    \<and> (\<forall>v \<in> set (workers (pool_of s')). \<not> terminated (act (pworld s') v))
    \<and> workers (pool_of s') = [] \<and> cleaned_up (act (pworld s') 0)"
  using pool_ends_with_workers [OF fresh_alive [of 0 "{0, 1, 2, 3}"], of "[1, 2]" pool_example Exit_normal round_robin "\<lambda>k m. m"]
  by (simp add: pool_example_def spec_start_def drop_member_def)

text \<open>C19: as long as its counter does not wrap, a round robin pool forwards each message, to a worker of its vector, and
  of \<open>n\<close> messages each of the \<open>k\<close> workers gets at least \<open>n div k\<close> and at most that rounded up.\<close>

theorem round_robin_even:
  assumes "policy_of (pool_of s) = Round_robin pos" and "workers (pool_of s) = vec" and "distinct vec" and "w \<in> set vec"
    and "unat pos + length ms \<le> 2 ^ 64" and "n = length ms" and "k = length vec"
  shows "\<exists>s' ds. pool_run draw p (sends ms) s = Inr s' \<and> sent s' = sent s @ ds \<and> length ds = n
    \<and> length (filter (forwarded_to w) ds) \<in> {n div k .. (n + k - 1) div k}"
proof -
  have vec: "vec \<noteq> []" using assms(4) by auto
  obtain j where j: "j < k" "vec ! j = w" using assms(4,7) by (auto simp: in_set_conv_nth)
  define ds where "ds = map (\<lambda>i. nth_forward vec (unat pos + i) (ms ! i)) [0..<n]"
  have "filter (forwarded_to w) ds = map (\<lambda>i. nth_forward vec (unat pos + i) (ms ! i))
      (filter (\<lambda>i. (unat pos + i) mod k = j) [0..<n])"
    using assms(3,7) vec j by (auto simp: ds_def filter_map comp_def nth_eq_iff_index_eq intro!: arg_cong [where f = "map _"] filter_cong)
  then have "length (filter (forwarded_to w) ds) \<in> {n div k .. (n + k - 1) div k}"
    using residues_slice [OF j(1), of "unat pos" n] by simp
  then show ?thesis using round_robin_run [OF assms(1,2) vec assms(5), of draw p] assms(6) by (auto simp: ds_def)
qed

definition robin_example :: "nat psys" where
  "robin_example = \<lparr>pworld = fresh_world {0, 1, 2}, pool_of = \<lparr>workers = [1, 2], planned_reason = Exit_normal,
     policy_of = Round_robin (- 4), registered = True\<rparr>, sent = []\<rparr>"

theorem round_robin_even_witness:
  "\<exists>s' ds. pool_run (\<lambda>k m. m) 0 (sends [(None, Message_id 0, 5), (None, Message_id 0, 6), (None, Message_id 0, 7)]) robin_example
      = Inr s' \<and> sent s' = ds \<and> length ds = 3 \<and> length (filter (forwarded_to 2) ds) \<in> {1 .. 2}"
  using round_robin_even [of robin_example "- 4" "[1, 2]" 2
      "[(None, Message_id 0, 5), (None, Message_id 0, 6), (None, Message_id 0, 7)]" 3 2 "\<lambda>k m. m" 0]
  by (simp add: robin_example_def)

text \<open>A call of \<open>enqueue\<close> fails in exactly two cases: it dereferences null when a message without sender asks for the
  workers, and it waits for its own lock when a worker is added that has ended already.\<close>

theorem pool_faults:
  "pool_enqueue draw p sender mid c s = Inl f \<longleftrightarrow>
     f = Null_sender \<and> c = Get_content \<and> sender = None
     \<or> f = Spins \<and> (\<exists>w. c = Put_content w \<and> terminated (act (pworld s) w) \<and> p \<in> objs (pworld s))"
  by (cases c) (auto simp: pool_enqueue_def handle_down_def monitor_worker_def Let_def split: option.split)

text \<open>A pool goes on after its end: the exit message is ignored the second time, and its new worker is left.\<close>

lemma pool_revived:
  assumes "cleaned_up (act (pworld s) p)" and "w \<noteq> p" "\<not> terminated (act (pworld s) w)" "workers (pool_of s) = []"
  shows "\<exists>s'. pool_run draw p [Pool_msg None mid (Put_content w), Pool_msg None mid (Exit_content src rsn)] s = Inr s'
    \<and> workers (pool_of s') = [w] \<and> sent s' = sent s"
  using assms
  by (auto simp: pool_enqueue_def monitor_worker_def Let_def handle_exit_def mon_cleanup_def attach_def attach_impl_def)

end
