(* ===== verification/GroupManager.thy ===== *)
theory GroupManager
  imports MailboxConcurrent Errors "HOL-Library.Multiset"
begin

text \<open>
  Groups of actors (libcaf_core/src/group_manager.cpp): the local group on its own node, its broker, and the proxies of
  the group on other nodes. The model has one group: node 0 has the group, every other node a proxy of it; the
  proxy broker of a node is named by its node. Actors of a node are numbers.
\<close>

section \<open>Messages and state\<close>

datatype 'm gmsg =
    Join_msg nat | Leave_msg nat          \<comment> \<open>\<open>join_atom\<close> and \<open>leave_atom\<close> with a proxy broker\<close>
  | Forward_msg "'m gmsg"                 \<comment> \<open>\<open>forward_atom\<close> and a message\<close>
  | Down_note nat                         \<comment> \<open>\<open>down_msg\<close> of a proxy broker\<close>
  | Group_down
  | Plain 'm

record 'm gsys =
  subscribers :: "nat \<Rightarrow> nat list"         \<comment> \<open>a \<open>std::set\<close> per node\<close>
  posting :: "nat \<Rightarrow> 'm gmsg list"         \<comment> \<open>calls that have left the lock and have not sent yet\<close>
  broker_in :: "'m gmsg list"              \<comment> \<open>mailbox of the broker\<close>
  acquaintances :: "nat list"
  monitors_on :: "nat \<Rightarrow> nat"              \<comment> \<open>monitors of the broker on a proxy broker\<close>
  proxy_in :: "nat \<Rightarrow> 'm gmsg list"        \<comment> \<open>mailboxes of the proxy brokers\<close>
  got :: "(nat \<times> nat \<times> 'm gmsg) list"      \<comment> \<open>node, subscriber, message\<close>

definition new_group :: "'m gsys" where
  "new_group = \<lparr>subscribers = \<lambda>_. [], posting = \<lambda>_. [], broker_in = [], acquaintances = [], monitors_on = \<lambda>_. 0,
     proxy_in = \<lambda>_. [], got = []\<rparr>"

text \<open>The sets of the library as sorted lists: \<open>emplace\<close> and \<open>erase\<close> with their results.\<close>

definition set_emplace :: "nat \<Rightarrow> nat list \<Rightarrow> bool \<times> nat list" where
  "set_emplace x xs = (x \<notin> set xs, insort_insert x xs)"

definition set_erase :: "nat \<Rightarrow> nat list \<Rightarrow> nat \<times> nat list" where
  "set_erase x xs = (if x \<in> set xs then 1 else 0, remove1 x xs)"

section \<open>The group\<close>

definition put_subs :: "nat \<Rightarrow> nat list \<Rightarrow> 'm gsys \<Rightarrow> 'm gsys" where
  "put_subs n xs g = g\<lparr>subscribers := (subscribers g)(n := xs)\<rparr>"

definition to_broker :: "'m gmsg \<Rightarrow> 'm gsys \<Rightarrow> 'm gsys" where
  "to_broker m g = g\<lparr>broker_in := broker_in g @ [m]\<rparr>"

definition send_all_subscribers :: "nat \<Rightarrow> 'm gmsg \<Rightarrow> 'm gsys \<Rightarrow> 'm gsys" where
  "send_all_subscribers n m g = g\<lparr>got := got g @ map (\<lambda>s. (n, s, m)) (subscribers g n)\<rparr>"

text \<open>The results of the two: whether the set has changed, and its size.\<close>

definition add_subscriber :: "nat \<Rightarrow> nat option \<Rightarrow> 'm gsys \<Rightarrow> (bool \<times> nat) \<times> 'm gsys" where
  "add_subscriber n who g =
     (case who of
        None \<Rightarrow> ((False, length (subscribers g n)), g)
      | Some a \<Rightarrow> (case set_emplace a (subscribers g n) of
          (res, xs) \<Rightarrow> ((res, length xs), put_subs n xs g)))"

definition erase_subscriber :: "nat \<Rightarrow> nat \<Rightarrow> 'm gsys \<Rightarrow> (bool \<times> nat) \<times> 'm gsys" where
  "erase_subscriber n who g =
     (case set_erase who (subscribers g n) of
        (k, xs) \<Rightarrow> if k = 0 then ((False, length (subscribers g n)), g)
                  else ((True, length xs), put_subs n xs g))"

definition local_subscribe :: "nat option \<Rightarrow> 'm gsys \<Rightarrow> bool \<times> 'm gsys" where
  "local_subscribe who g = (case add_subscriber 0 who g of ((ok, _), g) \<Rightarrow> (ok, g))"

definition local_unsubscribe :: "nat \<Rightarrow> 'm gsys \<Rightarrow> 'm gsys" where
  "local_unsubscribe who g = snd (erase_subscriber 0 who g)"

definition local_enqueue :: "'m gmsg \<Rightarrow> 'm gsys \<Rightarrow> 'm gsys" where
  "local_enqueue m g = to_broker m (send_all_subscribers 0 m g)"

section \<open>Its proxies\<close>

text \<open>\<open>anon_send\<close> comes after the lock is released; until then the message is in \<open>posting\<close>.\<close>

definition post :: "nat \<Rightarrow> 'm gmsg \<Rightarrow> 'm gsys \<Rightarrow> 'm gsys" where
  "post n m g = g\<lparr>posting := (posting g)(n := posting g n @ [m])\<rparr>"

definition proxy_subscribe :: "nat \<Rightarrow> nat option \<Rightarrow> 'm gsys \<Rightarrow> bool \<times> 'm gsys" where
  "proxy_subscribe n who g =
     (case add_subscriber n who g of ((ok, k), g) \<Rightarrow>
        if ok then (True, if k = 1 then post n (Join_msg n) g else g) else (False, g))"

definition proxy_unsubscribe :: "nat \<Rightarrow> nat \<Rightarrow> 'm gsys \<Rightarrow> 'm gsys" where
  "proxy_unsubscribe n who g =
     (case erase_subscriber n who g of ((ok, k), g) \<Rightarrow> if ok \<and> k = 0 then post n (Leave_msg n) g else g)"

definition proxy_enqueue :: "'m gmsg \<Rightarrow> 'm gsys \<Rightarrow> 'm gsys" where
  "proxy_enqueue m g = to_broker (Forward_msg m) g"

text \<open>\<open>proxy_broker\<close>: every message goes to the subscribers of its node.\<close>

definition proxy_broker_handle :: "nat \<Rightarrow> 'm gmsg \<Rightarrow> 'm gsys \<Rightarrow> 'm gsys" where
  "proxy_broker_handle n m g = send_all_subscribers n m g"

text \<open>\<open>broker_monitor_actor\<close>, when the broker is down.\<close>

definition broker_lost :: "nat \<Rightarrow> 'm gsys \<Rightarrow> 'm gsys" where
  "broker_lost n g = send_all_subscribers n Group_down g"

section \<open>The broker\<close>

definition send_to_acquaintances :: "'m gmsg \<Rightarrow> 'm gsys \<Rightarrow> 'm gsys" where
  "send_to_acquaintances m g =
     g\<lparr>proxy_in := \<lambda>n. if n \<in> set (acquaintances g) then proxy_in g n @ [m] else proxy_in g n\<rparr>"

definition monitor_proxy :: "nat \<Rightarrow> 'm gsys \<Rightarrow> 'm gsys" where
  "monitor_proxy n g = g\<lparr>monitors_on := (monitors_on g)(n := monitors_on g n + 1)\<rparr>"

definition demonitor_proxy :: "nat \<Rightarrow> 'm gsys \<Rightarrow> 'm gsys" where
  "demonitor_proxy n g = g\<lparr>monitors_on := (monitors_on g)(n := 0)\<rparr>"

definition put_acq :: "nat list \<Rightarrow> 'm gsys \<Rightarrow> 'm gsys" where
  "put_acq xs g = g\<lparr>acquaintances := xs\<rparr>"

fun broker_handle :: "'m gmsg \<Rightarrow> 'm gsys \<Rightarrow> 'm gsys" where
  "broker_handle (Join_msg other) g =
     (case set_emplace other (acquaintances g) of
        (inserted, xs) \<Rightarrow> if inserted then monitor_proxy other (put_acq xs g) else put_acq xs g)"
| "broker_handle (Leave_msg other) g =
     (let g = put_acq (snd (set_erase other (acquaintances g))) g
      in case set_erase other (acquaintances g) of
           (k, xs) \<Rightarrow> if k > 0 then demonitor_proxy other (put_acq xs g) else put_acq xs g)"
| "broker_handle (Forward_msg what) g = send_to_acquaintances what (send_all_subscribers 0 what g)"
| "broker_handle (Down_note source) g =
     (if source \<in> set (acquaintances g) then put_acq (remove1 source (acquaintances g)) g else g)"
| "broker_handle m g = send_to_acquaintances m g"

section \<open>Interleaved steps\<close>

definition pop_broker :: "'m gsys \<Rightarrow> 'm gsys" where "pop_broker g = g\<lparr>broker_in := tl (broker_in g)\<rparr>"

definition pop_proxy :: "nat \<Rightarrow> 'm gsys \<Rightarrow> 'm gsys" where
  "pop_proxy n g = g\<lparr>proxy_in := (proxy_in g)(n := tl (proxy_in g n))\<rparr>"

text \<open>The brokers work on their mailboxes.\<close>

inductive work :: "'m gsys \<Rightarrow> 'm gsys \<Rightarrow> bool" where
  work_broker: "broker_in g = m # ms \<Longrightarrow> work g (broker_handle m (pop_broker g))"
| work_proxy: "proxy_in g n = m # ms \<Longrightarrow> work g (proxy_broker_handle n m (pop_proxy n g))"

text \<open>The calls of other threads; a call of a proxy has two steps.\<close>

datatype 'm gcall =
    Subscribe nat nat | Unsubscribe nat nat     \<comment> \<open>node, actor\<close>
  | Posted nat nat                              \<comment> \<open>node, index of the pending send\<close>
  | Send nat 'm                                 \<comment> \<open>from a node\<close>

definition post_done :: "nat \<Rightarrow> nat \<Rightarrow> 'm gsys \<Rightarrow> 'm gsys" where
  "post_done n i g =
     (if i < length (posting g n)
      then to_broker (posting g n ! i) (g\<lparr>posting := (posting g)(n := take i (posting g n) @ drop (Suc i) (posting g n))\<rparr>)
      else g)"

fun call_step :: "'m gcall \<Rightarrow> 'm gsys \<Rightarrow> 'm gsys" where
  "call_step (Subscribe n a) g = (if n = 0 then snd (local_subscribe (Some a) g) else snd (proxy_subscribe n (Some a) g))"
| "call_step (Unsubscribe n a) g = (if n = 0 then local_unsubscribe a g else proxy_unsubscribe n a g)"
| "call_step (Posted n i) g = post_done n i g"
| "call_step (Send n m) g = (if n = 0 then local_enqueue (Plain m) g else proxy_enqueue (Plain m) g)"

text \<open>A run: the calls so far, and the state.\<close>

inductive grun :: "'m gcall list \<Rightarrow> 'm gsys \<Rightarrow> bool" where
  g_start: "grun [] new_group"
| g_call: "grun cs g \<Longrightarrow> grun (cs @ [c]) (call_step c g)"
| g_work: "grun cs g \<Longrightarrow> work g g' \<Longrightarrow> grun cs g'"

definition quiet :: "'m gsys \<Rightarrow> bool" where
  "quiet g \<longleftrightarrow> broker_in g = [] \<and> (\<forall>n. proxy_in g n = [])"

section \<open>Modules\<close>

text \<open>
  \<open>local_group_module\<close>: groups by identifier, proxies by broker. A group is a number. \<open>get\<close> and \<open>load\<close> look up
  under a shared lock, create, and insert under the exclusive lock; between the two another thread may insert.
\<close>

record gmodule =
  instances :: "string \<rightharpoonup> nat"
  proxies :: "nat \<rightharpoonup> nat"
  made :: nat               \<comment> \<open>objects created so far\<close>
  stopped :: "nat set"

definition create_group :: "gmodule \<Rightarrow> nat \<times> gmodule" where
  "create_group s = (made s, s\<lparr>made := made s + 1\<rparr>)"

definition get_emplace :: "string \<Rightarrow> nat \<Rightarrow> gmodule \<Rightarrow> nat \<times> gmodule" where
  "get_emplace identifier tmp s =
     (case instances s identifier of
        None \<Rightarrow> (tmp, s\<lparr>instances := (instances s)(identifier \<mapsto> tmp)\<rparr>)
      | Some result \<Rightarrow> (result, if result \<noteq> tmp then s\<lparr>stopped := insert tmp (stopped s)\<rparr> else s))"

definition load_emplace :: "nat \<Rightarrow> nat \<Rightarrow> gmodule \<Rightarrow> nat \<times> gmodule" where
  "load_emplace broker tmp s =
     (case proxies s broker of
        None \<Rightarrow> (tmp, s\<lparr>proxies := (proxies s)(broker \<mapsto> tmp)\<rparr>)
      | Some p \<Rightarrow> (p, s))"

definition module_get :: "string \<Rightarrow> gmodule \<Rightarrow> nat \<times> gmodule" where
  "module_get identifier s =
     (case instances s identifier of
        Some i \<Rightarrow> (i, s)
      | None \<Rightarrow> (case create_group s of (tmp, s) \<Rightarrow> get_emplace identifier tmp s))"

text \<open>\<open>here\<close>: the broker is on this node. \<^const>\<open>None\<close> is the invalid group.\<close>

definition module_load :: "string \<Rightarrow> nat option \<Rightarrow> bool \<Rightarrow> gmodule \<Rightarrow> nat option \<times> gmodule" where
  "module_load identifier broker_ptr here s =
     (case broker_ptr of
        None \<Rightarrow> (None, s)
      | Some broker \<Rightarrow>
          if here then map_prod Some id (module_get identifier s)
          else case proxies s broker of
            Some i \<Rightarrow> (Some i, s)
          | None \<Rightarrow> (case create_group s of (tmp, s) \<Rightarrow> map_prod Some id (load_emplace broker tmp s)))"

text \<open>\<open>stop\<close> takes both maps and stops what was in them.\<close>

definition module_stop :: "gmodule \<Rightarrow> gmodule" where
  "module_stop s =
     s\<lparr>instances := Map.empty, proxies := Map.empty, stopped := stopped s \<union> ran (instances s) \<union> ran (proxies s)\<rparr>"

text \<open>Any number of threads call \<open>get\<close> and \<open>load\<close>; each call has the two critical sections.\<close>

datatype gkey = Instance string | Proxy nat

datatype gthread = G_idle | G_made gkey nat | G_done gkey nat

definition find_group :: "gkey \<Rightarrow> gmodule \<Rightarrow> nat option" where
  "find_group k s = (case k of Instance i \<Rightarrow> instances s i | Proxy b \<Rightarrow> proxies s b)"

definition emplace_group :: "gkey \<Rightarrow> nat \<Rightarrow> gmodule \<Rightarrow> nat \<times> gmodule" where
  "emplace_group k tmp s = (case k of Instance i \<Rightarrow> get_emplace i tmp s | Proxy b \<Rightarrow> load_emplace b tmp s)"

inductive gstep :: "(nat \<Rightarrow> gthread) \<times> gmodule \<Rightarrow> (nat \<Rightarrow> gthread) \<times> gmodule \<Rightarrow> bool" where
  gs_found: "th t = G_idle \<Longrightarrow> find_group k s = Some r \<Longrightarrow> gstep (th, s) (th(t := G_done k r), s)"
| gs_made: "th t = G_idle \<Longrightarrow> find_group k s = None \<Longrightarrow> create_group s = (tmp, s') \<Longrightarrow>
    gstep (th, s) (th(t := G_made k tmp), s')"
| gs_emplaced: "th t = G_made k tmp \<Longrightarrow> emplace_group k tmp s = (r, s') \<Longrightarrow> gstep (th, s) (th(t := G_done k r), s')"

definition new_module :: gmodule where
  "new_module = \<lparr>instances = Map.empty, proxies = Map.empty, made = 0, stopped = {}\<rparr>"

definition module_start :: "(nat \<Rightarrow> gthread) \<times> gmodule \<Rightarrow> bool" where
  "module_start c \<longleftrightarrow> c = (\<lambda>_. G_idle, new_module)"

section \<open>The manager\<close>

record gmanager =
  mmap :: "string \<rightharpoonup> gmodule"
  s_ad_hoc_id :: nat

text \<open>Modules of the configuration are added by name; a name that is taken keeps its module.\<close>

definition manager_init :: "(string \<times> gmodule) list \<Rightarrow> gmanager \<Rightarrow> gmanager" where
  "manager_init facs s =
     fold (\<lambda>(name, m) s. if mmap s name = None then s\<lparr>mmap := (mmap s)(name \<mapsto> m)\<rparr> else s)
       ((''local'', new_module) # facs) s"

definition manager_stop :: "gmanager \<Rightarrow> gmanager" where
  "manager_stop s = s\<lparr>mmap := map_option module_stop \<circ> mmap s\<rparr>"

definition get_module :: "string \<Rightarrow> gmanager \<Rightarrow> gmodule option" where
  "get_module x s = mmap s x"

definition manager_get :: "string \<Rightarrow> string \<Rightarrow> gmanager \<Rightarrow> (error + nat) \<times> gmanager" where
  "manager_get module_name group_identifier s =
     (case get_module module_name s of
        Some m \<Rightarrow> (case module_get group_identifier m of (r, m) \<Rightarrow> (Inr r, s\<lparr>mmap := (mmap s)(module_name \<mapsto> m)\<rparr>))
      | None \<Rightarrow> (Inl (make_sec_error Sec_no_such_group_module
            \<lparr>err_context := Some (''no module named '' @ [CHR 0x22] @ module_name @ [CHR 0x22] @ '' found'')\<rparr>), s))"

text \<open>\<^const>\<open>None\<close>: the result is dereferenced although there is no module of this name.\<close>

definition get_local :: "string \<Rightarrow> gmanager \<Rightarrow> (nat \<times> gmanager) option" where
  "get_local group_identifier s =
     (case manager_get ''local'' group_identifier s of (Inr r, s) \<Rightarrow> Some (r, s) | (Inl _, _) \<Rightarrow> None)"

definition anonymous_group :: "gmanager \<Rightarrow> (nat \<times> gmanager) option" where
  "anonymous_group s =
     (let s = s\<lparr>s_ad_hoc_id := s_ad_hoc_id s + 1\<rparr>;
          ident = ''__#'' @ show_dec (s_ad_hoc_id s)
      in case get_module ''local'' s of
           None \<Rightarrow> None
         | Some m \<Rightarrow> (case module_get ident m of (r, m) \<Rightarrow> Some (r, s\<lparr>mmap := (mmap s)(''local'' \<mapsto> m)\<rparr>)))"

end
