(* ===== verification/GroupProperties.thy ===== *)
theory GroupProperties
  imports GroupManager
begin

text \<open>
  What groups promise: each message that is sent to a group reaches each subscriber on each node once, the broker
  knows the nodes with subscribers when the calls at a proxy do not overlap, and a group has one object.
\<close>

section \<open>What the operations change\<close>

lemma in_insort [simp]: "set (insort_insert x xs) = insert x (set xs)"
  by (rule set_insort_insert)

lemma distinct_insort_insert: "distinct xs \<Longrightarrow> distinct (insort_insert x xs)"
  by (cases "x \<in> set xs") (simp_all add: insort_insert_triv insort_insert_insort distinct_insort)

lemma insort_insert_ne [simp]: "insort_insert x xs \<noteq> []"
  by (cases "x \<in> set xs") (auto simp: insort_insert_triv insort_insert_insort)

lemma length_insort_insert: "length (insort_insert x xs) = (if x \<in> set xs then length xs else Suc (length xs))"
  by (simp add: insort_insert_triv insort_insert_insort)

lemmas group_defs = put_subs_def to_broker_def send_all_subscribers_def post_def send_to_acquaintances_def
  monitor_proxy_def demonitor_proxy_def put_acq_def pop_broker_def pop_proxy_def

lemma add_subscriber_eq:
  "add_subscriber n (Some a) g = ((a \<notin> set (subscribers g n), length (insort_insert a (subscribers g n))),
     put_subs n (insort_insert a (subscribers g n)) g)"
  by (simp add: add_subscriber_def set_emplace_def)

lemma erase_subscriber_eq:
  "erase_subscriber n a g =
     (if a \<in> set (subscribers g n) then ((True, length (remove1 a (subscribers g n))), put_subs n (remove1 a (subscribers g n)) g)
      else ((False, length (subscribers g n)), g))"
  by (simp add: erase_subscriber_def set_erase_def)

text \<open>A proxy posts a join when its first subscriber comes and a leave when its last one goes.\<close>

lemma proxy_subscribe_eq:
  "snd (proxy_subscribe n (Some a) g) =
     (let g' = put_subs n (insort_insert a (subscribers g n)) g
      in if subscribers g n = [] then post n (Join_msg n) g' else g')"
  by (auto simp: proxy_subscribe_def add_subscriber_eq Let_def length_insort_insert put_subs_def insort_insert_triv)

lemma remove1_empty_iff: "remove1 a xs = [] \<longleftrightarrow> xs = [] \<or> xs = [a]"
  by (cases xs) (auto split: if_splits)

lemma proxy_unsubscribe_eq:
  "proxy_unsubscribe n a g =
     (let g' = put_subs n (remove1 a (subscribers g n)) g
      in if subscribers g n = [a] then post n (Leave_msg n) g' else g')"
  by (auto simp: proxy_unsubscribe_def erase_subscriber_eq Let_def put_subs_def remove1_empty_iff remove1_idem)

lemma broker_leave:
  "distinct (acquaintances g) \<Longrightarrow> broker_handle (Leave_msg n) g = put_acq (remove1 n (acquaintances g)) g"
  by (simp add: set_erase_def put_acq_def set_remove1_eq remove1_idem)

lemma broker_join:
  "broker_handle (Join_msg n) g =
     (if n \<in> set (acquaintances g) then g else monitor_proxy n (put_acq (insort_insert n (acquaintances g)) g))"
  by (simp add: set_emplace_def put_acq_def insort_insert_triv)

text \<open>The monitors of the broker: a leave does not remove one, so each new join adds one.\<close>

lemma monitor_kept:
  assumes "distinct (acquaintances g)"
  shows "monitors_on (broker_handle (Leave_msg n) g) = monitors_on g"
  using assms by (simp add: broker_leave put_acq_def del: broker_handle.simps)

definition join_and_leave :: "nat \<Rightarrow> 'm gsys \<Rightarrow> 'm gsys" where
  "join_and_leave n g = broker_handle (Leave_msg n) (broker_handle (Join_msg n) g)"

lemma monitors_pile_up:
  assumes "distinct (acquaintances g)" and "n \<notin> set (acquaintances g)"
  shows "monitors_on ((join_and_leave n ^^ k) g) n = monitors_on g n + k \<and> acquaintances ((join_and_leave n ^^ k) g) = acquaintances g"
proof (induction k)
  case (Suc k)
  have "remove1 n (insort_insert n (acquaintances g)) = acquaintances g"
    using assms by (simp add: insort_insert_insort remove1_insort_key)
  then have "monitors_on (join_and_leave n h) n = monitors_on h n + 1 \<and> acquaintances (join_and_leave n h) = acquaintances h"
    if "acquaintances h = acquaintances g" for h :: "'a gsys"
    using assms that
    by (simp add: join_and_leave_def broker_join broker_leave group_defs distinct_insort_insert del: broker_handle.simps)
  then show ?case using Suc by simp
qed simp

section \<open>Control messages\<close>

text \<open>Whether the broker knows a node, after some messages.\<close>

fun control :: "nat \<Rightarrow> 'm gmsg \<Rightarrow> bool \<Rightarrow> bool" where
  "control n (Join_msg k) b = (if k = n then True else b)"
| "control n (Leave_msg k) b = (if k = n then False else b)"
| "control n _ b = b"

fun sound_msg :: "'m gmsg \<Rightarrow> bool" where
  "sound_msg (Join_msg k) \<longleftrightarrow> k \<noteq> 0"
| "sound_msg (Leave_msg k) \<longleftrightarrow> k \<noteq> 0"
| "sound_msg (Forward_msg (Plain m)) \<longleftrightarrow> True"
| "sound_msg (Plain m) \<longleftrightarrow> True"
| "sound_msg _ \<longleftrightarrow> False"

definition group_wf :: "'m gsys \<Rightarrow> bool" where
  "group_wf g \<longleftrightarrow> distinct (acquaintances g) \<and> 0 \<notin> set (acquaintances g) \<and> proxy_in g 0 = []
     \<and> (\<forall>n. distinct (subscribers g n)) \<and> (\<forall>m \<in> set (broker_in g). sound_msg m)
     \<and> (\<forall>n. \<forall>m \<in> set (posting g n). n \<noteq> 0 \<and> (m = Join_msg n \<or> m = Leave_msg n))"

lemma broker_handle_wf:
  assumes "group_wf g" and "sound_msg m"
  shows "group_wf (broker_handle m g)"
  using assms
  by (cases m rule: sound_msg.cases)
    (auto simp: group_wf_def broker_join broker_leave group_defs distinct_insort_insert simp del: broker_handle.simps(1,2)
      dest: notin_set_remove1 in_set_remove1)

lemma set_tl_subset: "set (tl xs) \<subseteq> set xs"
  by (cases xs) auto

lemma pop_broker_wf: "group_wf g \<Longrightarrow> group_wf (pop_broker g)"
  using set_tl_subset [of "broker_in g"] by (auto simp: group_wf_def pop_broker_def)

lemma proxy_handle_wf: "group_wf g \<Longrightarrow> n \<noteq> 0 \<Longrightarrow> group_wf (proxy_broker_handle n m (pop_proxy n g))"
  by (auto simp: group_wf_def proxy_broker_handle_def group_defs)

lemma work_wf:
  assumes "work g g'" and "group_wf g"
  shows "group_wf g'"
  using assms
proof cases
  case (work_broker m ms)
  then have "sound_msg m" using assms(2) by (simp add: group_wf_def)
  then show ?thesis using broker_handle_wf [OF pop_broker_wf [OF assms(2)]] work_broker by simp
next
  case (work_proxy n m ms)
  then have "n \<noteq> 0" using assms(2) by (cases n) (auto simp: group_wf_def)
  then show ?thesis using work_proxy proxy_handle_wf assms(2) by blast
qed

lemma local_calls_eq:
  "snd (local_subscribe (Some a) g) = put_subs 0 (insort_insert a (subscribers g 0)) g"
  "local_unsubscribe a g = put_subs 0 (remove1 a (subscribers g 0)) g"
  by (simp_all add: local_subscribe_def add_subscriber_eq local_unsubscribe_def erase_subscriber_eq put_subs_def remove1_idem)

lemma to_broker_wf: "group_wf g \<Longrightarrow> sound_msg m \<Longrightarrow> group_wf (to_broker m g)"
  by (simp add: group_wf_def to_broker_def)

lemma posted: "group_wf g \<Longrightarrow> m \<in> set (posting g n) \<Longrightarrow> n \<noteq> 0 \<and> (m = Join_msg n \<or> m = Leave_msg n)"
  unfolding group_wf_def by blast

lemma posting_sub:
  assumes "group_wf g" and "set xs \<subseteq> set (posting g n)"
  shows "group_wf (g\<lparr>posting := (posting g)(n := xs)\<rparr>)"
proof -
  have "k \<noteq> 0 \<and> (m = Join_msg k \<or> m = Leave_msg k)" if "m \<in> set (((posting g)(n := xs)) k)" for m k
    using that assms(2) posted [OF assms(1), of m k] by (auto split: if_splits)
  then show ?thesis using assms(1) by (auto simp: group_wf_def)
qed

lemma post_done_wf:
  assumes "group_wf g"
  shows "group_wf (post_done n i g)"
proof (cases "i < length (posting g n)")
  case True
  have "set (take i (posting g n) @ drop (Suc i) (posting g n)) \<subseteq> set (posting g n)"
    using set_take_subset [of i "posting g n"] set_drop_subset [of "Suc i" "posting g n"] by simp
  moreover have "sound_msg (posting g n ! i)" using posted [OF assms nth_mem [OF True]] by auto
  ultimately show ?thesis using True by (auto simp: post_done_def intro!: to_broker_wf posting_sub [OF assms])
qed (use assms in \<open>simp add: post_done_def\<close>)

lemma put_subs_wf: "group_wf g \<Longrightarrow> distinct xs \<Longrightarrow> group_wf (put_subs n xs g)"
  by (simp add: group_wf_def put_subs_def)

lemma post_wf: "group_wf g \<Longrightarrow> n \<noteq> 0 \<Longrightarrow> m = Join_msg n \<or> m = Leave_msg n \<Longrightarrow> group_wf (post n m g)"
  by (auto simp: group_wf_def post_def)

lemma send_all_wf: "group_wf g \<Longrightarrow> group_wf (send_all_subscribers n m g)"
  by (simp add: group_wf_def send_all_subscribers_def)

lemma subs_distinct: "group_wf g \<Longrightarrow> distinct (subscribers g n)"
  by (simp add: group_wf_def)

lemma call_step_wf:
  assumes "group_wf g"
  shows "group_wf (call_step c g)"
  using assms subs_distinct [OF assms]
  by (cases c)
    (simp_all add: local_calls_eq proxy_subscribe_eq proxy_unsubscribe_eq Let_def local_enqueue_def proxy_enqueue_def
      post_done_wf to_broker_wf put_subs_wf post_wf send_all_wf distinct_insort_insert)

lemma grun_wf: "grun cs g \<Longrightarrow> group_wf g"
  by (induction rule: grun.induct) (auto simp: call_step_wf work_wf, simp add: group_wf_def new_group_def)

section \<open>Messages are delivered\<close>

text \<open>The deliveries of a message to a subscriber, those that are made and those that are under way.\<close>

definition under_way :: "nat \<Rightarrow> 'm \<Rightarrow> 'm gsys \<Rightarrow> nat" where
  "under_way n m g =
     (if n = 0 then List.count_list (broker_in g) (Forward_msg (Plain m))
      else List.count_list (proxy_in g n) (Plain m)
        + (if n \<in> set (acquaintances g)
           then List.count_list (broker_in g) (Plain m) + List.count_list (broker_in g) (Forward_msg (Plain m)) else 0))"

definition received :: "nat \<Rightarrow> nat \<Rightarrow> 'm \<Rightarrow> 'm gsys \<Rightarrow> nat" where
  "received n a m g = List.count_list (got g) (n, a, Plain m)"

definition owed :: "nat \<Rightarrow> nat \<Rightarrow> 'm \<Rightarrow> 'm gsys \<Rightarrow> nat" where
  "owed n a m g = received n a m g + (if a \<in> set (subscribers g n) then under_way n m g else 0)"

lemma count_map_pair:
  "distinct xs \<Longrightarrow> List.count_list (map (\<lambda>s. (k, s, x)) xs) (n, a, y) = (if k = n \<and> x = y \<and> a \<in> set xs then 1 else 0)"
  by (induction xs) auto

lemma received_simps [simp]:
  "received n a m (send_to_acquaintances x g) = received n a m g"
  "received n a m (to_broker x g) = received n a m g"
  "received n a m (pop_broker g) = received n a m g" "received n a m (pop_proxy k g) = received n a m g"
  by (simp_all add: received_def group_defs)

lemma received_send_all:
  "distinct (subscribers g k) \<Longrightarrow> received n a m (send_all_subscribers k x g)
     = received n a m g + (if k = n \<and> x = Plain m \<and> a \<in> set (subscribers g n) then 1 else 0)"
  by (auto simp: received_def send_all_subscribers_def count_map_pair)

fun payload_msg :: "'m gmsg \<Rightarrow> bool" where
  "payload_msg (Forward_msg (Plain m)) \<longleftrightarrow> True"
| "payload_msg (Plain m) \<longleftrightarrow> True"
| "payload_msg _ \<longleftrightarrow> False"

definition traffic_only :: "'m gsys \<Rightarrow> bool" where
  "traffic_only g \<longleftrightarrow> (\<forall>m \<in> set (broker_in g). payload_msg m)"

lemma work_broker_owed:
  assumes "group_wf g" and "broker_in g = x # xs" and "payload_msg x"
  shows "owed n a m (broker_handle x (pop_broker g)) = owed n a m g"
    "acquaintances (broker_handle x (pop_broker g)) = acquaintances g"
    "subscribers (broker_handle x (pop_broker g)) = subscribers g"
    "broker_in (broker_handle x (pop_broker g)) = xs"
  using assms subs_distinct [OF assms(1)]
  by (cases x rule: payload_msg.cases;
      auto simp: owed_def received_send_all under_way_def pop_broker_def send_to_acquaintances_def send_all_subscribers_def
        received_def count_map_pair group_wf_def)+

lemma work_proxy_owed:
  assumes "group_wf g" and "proxy_in g k = x # xs"
  shows "owed n a m (proxy_broker_handle k x (pop_proxy k g)) = owed n a m g"
    "acquaintances (proxy_broker_handle k x (pop_proxy k g)) = acquaintances g"
    "subscribers (proxy_broker_handle k x (pop_proxy k g)) = subscribers g"
    "broker_in (proxy_broker_handle k x (pop_proxy k g)) = broker_in g"
proof -
  have "k \<noteq> 0" using assms by (cases k) (auto simp: group_wf_def)
  then show "owed n a m (proxy_broker_handle k x (pop_proxy k g)) = owed n a m g"
    using assms subs_distinct [OF assms(1)]
    by (auto simp: owed_def proxy_broker_handle_def under_way_def pop_proxy_def send_all_subscribers_def received_def count_map_pair)
qed (simp_all add: proxy_broker_handle_def pop_proxy_def send_all_subscribers_def)

text \<open>Sends and the work of the brokers, while nobody joins or leaves.\<close>

inductive traffic :: "'m gsys \<Rightarrow> (nat \<times> 'm) list \<Rightarrow> 'm gsys \<Rightarrow> bool" for g where
  t_start: "traffic g [] g"
| t_send: "traffic g ss h \<Longrightarrow> traffic g (ss @ [(k, m)]) (call_step (Send k m) h)"
| t_work: "traffic g ss h \<Longrightarrow> work h h' \<Longrightarrow> traffic g ss h'"

text \<open>The broker knows exactly the nodes that have subscribers.\<close>

definition settled :: "'m gsys \<Rightarrow> bool" where
  "settled g \<longleftrightarrow> (\<forall>n. n \<noteq> 0 \<longrightarrow> (n \<in> set (acquaintances g) \<longleftrightarrow> subscribers g n \<noteq> []))"

definition flowing :: "'m gsys \<Rightarrow> bool" where
  "flowing g \<longleftrightarrow> group_wf g \<and> traffic_only g \<and> (\<forall>n. n \<notin> set (acquaintances g) \<longrightarrow> proxy_in g n = [])"

definition weight :: "'m gsys \<Rightarrow> nat" where
  "weight g = length (broker_in g) * (length (acquaintances g) + 1)
     + (\<Sum>n \<leftarrow> acquaintances g. length (proxy_in g n))"

lemma sum_list_upd_le:
  fixes f :: "'a \<Rightarrow> nat"
  shows "(\<And>n. n \<in> set xs \<Longrightarrow> f' n \<le> f n + 1) \<Longrightarrow> (\<Sum>n \<leftarrow> xs. f' n) \<le> (\<Sum>n \<leftarrow> xs. f n) + length xs"
  by (induction xs) (auto simp: add_mono algebra_simps, force)

lemma sum_list_dec:
  fixes f :: "'a \<Rightarrow> nat"
  assumes "k \<in> set xs" and "f' k < f k" and "\<And>n. n \<noteq> k \<Longrightarrow> f' n = f n"
  shows "(\<Sum>n \<leftarrow> xs. f' n) < (\<Sum>n \<leftarrow> xs. f n)"
proof -
  have le: "f' n \<le> f n" for n using assms(2,3) by (cases "n = k") (auto simp: less_imp_le)
  show ?thesis using assms(1)
  proof (induction xs)
    case (Cons x xs)
    have "(\<Sum>n \<leftarrow> xs. f' n) \<le> (\<Sum>n \<leftarrow> xs. f n)" by (rule sum_list_mono) (use le in simp)
    then show ?case using Cons assms(2) le [of x] by (cases "x = k") (auto intro: add_less_le_mono add_le_less_mono)
  qed simp
qed

lemma payload_handle:
  "payload_msg x \<Longrightarrow> broker_in g = x # xs \<Longrightarrow> proxy_in (broker_handle x (pop_broker g)) n =
     (if n \<in> set (acquaintances g) then proxy_in g n @ [case x of Forward_msg y \<Rightarrow> y | _ \<Rightarrow> x] else proxy_in g n)"
  by (cases x rule: payload_msg.cases) (auto simp: group_defs)

lemma work_flowing:
  assumes "work g g'" and fl: "flowing g"
  shows "flowing g' \<and> weight g' < weight g \<and> (\<forall>n a m. owed n a m g' = owed n a m g)
     \<and> subscribers g' = subscribers g \<and> acquaintances g' = acquaintances g"
  using assms(1)
proof cases
  case (work_broker x xs)
  have x: "payload_msg x" "group_wf g" using fl work_broker by (auto simp: flowing_def traffic_only_def)
  note eqs = work_broker_owed [OF x(2) work_broker(2) x(1), folded work_broker(1)]
  have p: "proxy_in g' n = (if n \<in> set (acquaintances g) then proxy_in g n @ [case x of Forward_msg y \<Rightarrow> y | _ \<Rightarrow> x] else proxy_in g n)" for n
    unfolding work_broker(1) by (rule payload_handle [OF x(1) work_broker(2)])
  have "(\<Sum>n \<leftarrow> acquaintances g. length (proxy_in g' n)) \<le> (\<Sum>n \<leftarrow> acquaintances g. length (proxy_in g n)) + length (acquaintances g)"
    by (rule sum_list_upd_le) (simp add: p)
  then have "weight g' < weight g" using eqs work_broker(2) by (simp add: weight_def)
  moreover have "flowing g'" using fl p eqs work_wf [OF assms(1)] work_broker(2) by (auto simp: flowing_def traffic_only_def)
  ultimately show ?thesis using eqs by simp
next
  case (work_proxy k x xs)
  have wf: "group_wf g" using fl by (simp add: flowing_def)
  note eqs = work_proxy_owed [OF wf work_proxy(2), folded work_proxy(1)]
  have p: "proxy_in g' n = (if n = k then xs else proxy_in g n)" for n
    using work_proxy by (simp add: proxy_broker_handle_def send_all_subscribers_def pop_proxy_def)
  have k: "k \<in> set (acquaintances g)" using fl work_proxy(2) by (auto simp: flowing_def)
  have "(\<Sum>n \<leftarrow> acquaintances g. length (proxy_in g' n)) < (\<Sum>n \<leftarrow> acquaintances g. length (proxy_in g n))"
    by (rule sum_list_dec [OF k]) (use p work_proxy(2) in simp_all)
  then have "weight g' < weight g" using eqs by (simp add: weight_def)
  moreover have "flowing g'" using fl p eqs work_wf [OF assms(1)] work_proxy(2) by (auto simp: flowing_def traffic_only_def)
  ultimately show ?thesis using eqs by simp
qed

lemma send_flowing:
  assumes fl: "flowing g" and st: "settled g" and h: "h = call_step (Send k m) g"
  shows "flowing h \<and> subscribers h = subscribers g \<and> acquaintances h = acquaintances g
     \<and> owed n a x h = owed n a x g + (if a \<in> set (subscribers g n) \<and> x = m then 1 else 0)"
proof -
  have wf: "group_wf g" and d: "distinct (subscribers g 0)" using fl by (auto simp: flowing_def subs_distinct)
  have acq: "n \<in> set (acquaintances g)" if "a \<in> set (subscribers g n)" "n \<noteq> 0"
    using st that by (cases "subscribers g n") (auto simp: settled_def)
  have h': "subscribers h = subscribers g" "acquaintances h = acquaintances g" "proxy_in h = proxy_in g"
    "broker_in h = broker_in g @ [if k = 0 then Plain m else Forward_msg (Plain m)]"
    "received n a x h = received n a x g + (if k = 0 \<and> n = 0 \<and> x = m \<and> a \<in> set (subscribers g 0) then 1 else 0)"
    using h d by (simp_all add: local_enqueue_def proxy_enqueue_def received_send_all)
      (auto simp: to_broker_def send_all_subscribers_def)
  then have "flowing h" using fl call_step_wf [OF wf, of "Send k m"] h by (auto simp: flowing_def traffic_only_def)
  moreover have "owed n a x h = owed n a x g + (if a \<in> set (subscribers g n) \<and> x = m then 1 else 0)"
    using h' acq by (auto simp: owed_def under_way_def)
  ultimately show ?thesis using h' by blast
qed

lemma settled_cong: "subscribers h = subscribers g \<Longrightarrow> acquaintances h = acquaintances g \<Longrightarrow> settled h = settled g"
  by (simp add: settled_def)

lemma traffic_flowing:
  assumes "traffic g sends h" and "flowing g" and "settled g"
  shows "flowing h \<and> subscribers h = subscribers g \<and> acquaintances h = acquaintances g
     \<and> (\<forall>n a m. owed n a m h = owed n a m g + (if a \<in> set (subscribers g n) then List.count_list (map snd sends) m else 0))"
  using assms(1)
proof induction
  case (t_send ss h k m)
  then have "settled h" using settled_cong [of h g] assms(3) by simp
  then show ?case using send_flowing [of h "call_step (Send k m) h" k m] t_send.IH by simp
next
  case (t_work ss h h')
  then show ?case using work_flowing [of h h'] by simp
qed (use assms in simp)

lemma work_run_weight: "(work ^^ k) g h \<Longrightarrow> flowing g \<Longrightarrow> flowing h \<and> k + weight h \<le> weight g"
proof (induction k arbitrary: h)
  case (Suc k)
  then obtain g' where g': "(work ^^ k) g g'" "work g' h" by auto
  then show ?case using Suc.IH [of g'] Suc.prems(2) work_flowing [of g' h] by fastforce
qed simp

lemma not_quiet_work: "\<not> quiet g \<Longrightarrow> \<exists>g'. work g g'"
  by (auto simp: quiet_def neq_Nil_conv intro: work.intros)

lemma quiet_owed: "quiet g \<Longrightarrow> owed n a m g = received n a m g"
  by (simp add: quiet_def owed_def under_way_def)

section \<open>The broker knows the nodes\<close>

text \<open>Runs in which a call at a proxy starts only when the last one has sent its message.\<close>

inductive serial_run :: "'m gcall list \<Rightarrow> 'm gsys \<Rightarrow> bool" where
  s_start: "serial_run [] new_group"
| s_call: "serial_run cs g \<Longrightarrow>
    (case c of Subscribe n a \<Rightarrow> posting g n = [] | Unsubscribe n a \<Rightarrow> posting g n = [] | _ \<Rightarrow> True) \<Longrightarrow>
    serial_run (cs @ [c]) (call_step c g)"
| s_work: "serial_run cs g \<Longrightarrow> work g g' \<Longrightarrow> serial_run cs g'"

lemma serial_grun: "serial_run cs g \<Longrightarrow> grun cs g"
  by (induction rule: serial_run.induct) (auto intro: grun.intros)

definition knows :: "nat \<Rightarrow> 'm gsys \<Rightarrow> bool" where
  "knows n g = fold (control n) (broker_in g @ posting g n) (n \<in> set (acquaintances g))"

definition informed :: "'m gsys \<Rightarrow> bool" where
  "informed g \<longleftrightarrow> (\<forall>n. n \<noteq> 0 \<longrightarrow> knows n g = (subscribers g n \<noteq> []) \<and> length (posting g n) \<le> 1)"

lemma control_idem: "m \<noteq> Join_msg n \<Longrightarrow> m \<noteq> Leave_msg n \<Longrightarrow> control n m b = b"
  by (cases m) auto

lemma broker_knows:
  assumes wf: "group_wf g" and "broker_in g = x # xs"
  shows "knows n (broker_handle x (pop_broker g)) = knows n g"
    "posting (broker_handle x (pop_broker g)) = posting g" "subscribers (broker_handle x (pop_broker g)) = subscribers g"
proof -
  have x: "sound_msg x" "distinct (acquaintances g)" using assms by (auto simp: group_wf_def)
  have d: "distinct (acquaintances (pop_broker g))" using x by (simp add: pop_broker_def)
  show "knows n (broker_handle x (pop_broker g)) = knows n g"
    using x(1) d assms(2)
    by (cases x rule: sound_msg.cases)
      (simp_all add: knows_def broker_join broker_leave group_defs set_remove1_eq del: broker_handle.simps(1,2))
  show "posting (broker_handle x (pop_broker g)) = posting g" "subscribers (broker_handle x (pop_broker g)) = subscribers g"
    using x(1) d by (cases x rule: sound_msg.cases;
      simp add: broker_join broker_leave group_defs del: broker_handle.simps(1,2))+
qed

lemma informed_work:
  assumes "work g g'" and "group_wf g" and "informed g"
  shows "informed g'"
  using assms(1)
proof cases
  case (work_broker x xs)
  then show ?thesis using broker_knows [OF assms(2) work_broker(2)] assms(3) by (simp add: informed_def)
next
  case (work_proxy k x xs)
  then have "knows n g' = knows n g" "posting g' = posting g" "subscribers g' = subscribers g" for n
    by (simp_all add: knows_def proxy_broker_handle_def send_all_subscribers_def pop_proxy_def)
  then show ?thesis using assms(3) by (simp add: informed_def)
qed

lemma informed_subs:
  assumes "group_wf g" and "informed g" and "posting g n = []"
    and "subscribers g' = (subscribers g)(n := xs)" "broker_in g' = broker_in g" "acquaintances g' = acquaintances g"
    and "posting g' = (posting g)(n := (if (xs = []) = (subscribers g n = []) then []
           else [if xs = [] then Leave_msg n else Join_msg n]))"
  shows "informed g'"
  unfolding informed_def
proof (intro allI impI)
  fix k :: nat assume k: "k \<noteq> 0"
  have "knows k g = (subscribers g k \<noteq> [])" "length (posting g k) \<le> 1" using assms(2) k by (simp_all add: informed_def)
  then show "knows k g' = (subscribers g' k \<noteq> []) \<and> length (posting g' k) \<le> 1"
    using assms(3-7) by (auto simp: knows_def)
qed

lemma informed_post_done:
  assumes wf: "group_wf g" and inf: "informed g"
  shows "informed (post_done n i g)"
proof (cases "i < length (posting g n)")
  case True
  let ?m = "posting g n ! i"
  have n: "n \<noteq> 0" "?m = Join_msg n \<or> ?m = Leave_msg n" using posted [OF wf nth_mem [OF True]] by auto
  have "length (posting g n) \<le> 1" using inf n by (simp add: informed_def)
  then obtain p where p: "posting g n = [p]" "i = 0" using True by (cases "posting g n") auto
  have "knows k (post_done n i g) = knows k g" for k
    using p n by (auto simp: knows_def post_done_def to_broker_def control_idem)
  moreover have "length (posting (post_done n i g) k) \<le> length (posting g k)" "subscribers (post_done n i g) = subscribers g" for k
    using p by (simp_all add: post_done_def to_broker_def)
  ultimately show ?thesis using inf le_trans unfolding informed_def by metis
qed (use inf in \<open>simp add: post_done_def\<close>)

lemma informed_send:
  assumes "informed g"
  shows "informed (call_step (Send k m) g)"
  using assms
  by (auto simp: informed_def knows_def local_enqueue_def proxy_enqueue_def to_broker_def send_all_subscribers_def)

lemma informed_call:
  assumes wf: "group_wf g" and inf: "informed g"
    and serial: "case c of Subscribe n a \<Rightarrow> posting g n = [] | Unsubscribe n a \<Rightarrow> posting g n = [] | _ \<Rightarrow> True"
  shows "informed (call_step c g)"
proof (cases c)
  case (Subscribe n a)
  show ?thesis
  proof (cases "n = 0")
    case False
    then show ?thesis using Subscribe serial
      by (intro informed_subs [OF wf inf, of n _ "insort_insert a (subscribers g n)"])
        (auto simp: proxy_subscribe_eq Let_def group_defs fun_eq_iff)
  qed (use Subscribe inf in \<open>simp add: local_calls_eq informed_def knows_def put_subs_def\<close>)
next
  case (Unsubscribe n a)
  show ?thesis
  proof (cases "n = 0")
    case False
    then show ?thesis using Unsubscribe serial
      by (intro informed_subs [OF wf inf, of n _ "remove1 a (subscribers g n)"])
        (auto simp: proxy_unsubscribe_eq Let_def group_defs fun_eq_iff remove1_empty_iff)
  qed (use Unsubscribe inf in \<open>simp add: local_calls_eq informed_def knows_def put_subs_def\<close>)
next
  case (Posted n i)
  then show ?thesis using informed_post_done [OF wf inf] by simp
next
  case (Send n m)
  then show ?thesis using informed_send [OF inf] by simp
qed

lemma serial_informed: "serial_run cs g \<Longrightarrow> informed g"
proof (induction rule: serial_run.induct)
  case (s_call cs g c)
  then show ?case using informed_call grun_wf [OF serial_grun] by blast
next
  case (s_work cs g g')
  then show ?case using informed_work grun_wf [OF serial_grun] by blast
qed (simp add: informed_def knows_def new_group_def)

section \<open>Nothing is delivered twice\<close>

definition copies :: "nat \<Rightarrow> 'm \<Rightarrow> 'm gsys \<Rightarrow> nat" where
  "copies n m g = List.count_list (broker_in g) (Forward_msg (Plain m))
     + (if n = 0 then 0 else List.count_list (proxy_in g n) (Plain m) + List.count_list (broker_in g) (Plain m))"

fun sends_of :: "'m \<Rightarrow> 'm gcall \<Rightarrow> bool" where
  "sends_of m (Send k x) \<longleftrightarrow> x = m"
| "sends_of m _ \<longleftrightarrow> False"

lemma copies_broker:
  assumes "group_wf g" and "broker_in g = x # xs" and "sound_msg x"
  shows "received n a m (broker_handle x (pop_broker g)) + copies n m (broker_handle x (pop_broker g)) \<le> received n a m g + copies n m g"
proof -
  have d: "distinct (acquaintances (pop_broker g))" "distinct (subscribers g 0)" "0 \<notin> set (acquaintances g)"
    using assms(1) by (auto simp: group_wf_def pop_broker_def)
  show ?thesis using assms(2,3) d
    by (cases x rule: sound_msg.cases)
      (simp_all add: copies_def broker_join broker_leave received_def group_defs count_map_pair del: broker_handle.simps(1,2))
qed

lemma copies_proxy:
  assumes wf: "group_wf g" and "proxy_in g k = x # xs"
  shows "received n a m (proxy_broker_handle k x (pop_proxy k g)) + copies n m (proxy_broker_handle k x (pop_proxy k g))
    \<le> received n a m g + copies n m g"
proof -
  have "k \<noteq> 0" using assms by (cases k) (auto simp: group_wf_def)
  then show ?thesis using assms(2) subs_distinct [OF wf]
    by (auto simp: copies_def received_def proxy_broker_handle_def pop_proxy_def send_all_subscribers_def count_map_pair)
qed

lemma copies_post_done:
  assumes "group_wf g"
  shows "received n a m (post_done k i g) + copies n m (post_done k i g) = received n a m g + copies n m g"
proof (cases "i < length (posting g k)")
  case True
  then have "posting g k ! i = Join_msg k \<or> posting g k ! i = Leave_msg k" using posted [OF assms nth_mem] by blast
  then show ?thesis by (auto simp: post_done_def copies_def received_def to_broker_def)
qed (simp add: post_done_def)

lemma copies_call:
  assumes "group_wf g"
  shows "received n a m (call_step c g) + copies n m (call_step c g) \<le> received n a m g + copies n m g + (if sends_of m c then 1 else 0)"
proof (cases c)
  case (Posted k i)
  then show ?thesis using copies_post_done [OF assms] by simp
next
  case (Send k x)
  then show ?thesis using subs_distinct [OF assms]
    by (auto simp: local_enqueue_def proxy_enqueue_def received_send_all)
      (auto simp: copies_def to_broker_def send_all_subscribers_def)
qed (simp_all add: local_calls_eq proxy_subscribe_eq proxy_unsubscribe_eq Let_def received_def copies_def group_defs)

lemma copies_run: "grun cs g \<Longrightarrow> received n a m g + copies n m g \<le> length (filter (sends_of m) cs)"
proof (induction rule: grun.induct)
  case (g_call cs g c)
  then show ?case using copies_call [OF grun_wf [OF g_call.hyps], of n a m c] by (auto split: if_splits)
next
  case (g_work cs g g')
  have wf: "group_wf g" using grun_wf [OF g_work.hyps(1)] .
  from g_work.hyps(2) have "received n a m g' + copies n m g' \<le> received n a m g + copies n m g"
  proof cases
    case (work_broker x xs)
    then have "sound_msg x" using wf by (simp add: group_wf_def)
    then show ?thesis using copies_broker [OF wf work_broker(2)] work_broker(1) by simp
  next
    case (work_proxy k x xs)
    then show ?thesis using copies_proxy [OF wf work_proxy(2)] by simp
  qed
  then show ?case using g_work.IH by simp
qed (simp add: received_def copies_def new_group_def)

text \<open>Who receives has subscribed.\<close>

definition subscribed :: "'m gcall list \<Rightarrow> nat \<Rightarrow> nat \<Rightarrow> bool" where
  "subscribed cs n a \<longleftrightarrow> Subscribe n a \<in> set cs"

definition members_known :: "'m gcall list \<Rightarrow> 'm gsys \<Rightarrow> bool" where
  "members_known cs g \<longleftrightarrow> (\<forall>n a. a \<in> set (subscribers g n) \<or> (\<exists>x. (n, a, x) \<in> set (got g)) \<longrightarrow> subscribed cs n a)"

lemma work_members: "work g g' \<Longrightarrow> members_known cs g \<Longrightarrow> members_known cs g'"
proof (induction rule: work.induct)
  case (work_broker g m ms)
  then show ?case
    by (cases m)
      (auto simp: members_known_def group_defs set_emplace_def set_erase_def Let_def)
next
  case (work_proxy g n m ms)
  then show ?case by (auto simp: members_known_def proxy_broker_handle_def group_defs)
qed

lemma call_members: "members_known cs g \<Longrightarrow> members_known (cs @ [c]) (call_step c g)"
  by (cases c)
    (auto simp: members_known_def subscribed_def local_calls_eq proxy_subscribe_eq proxy_unsubscribe_eq Let_def
      local_enqueue_def proxy_enqueue_def post_done_def group_defs dest: notin_set_remove1 split: if_splits)

lemma run_members: "grun cs g \<Longrightarrow> members_known cs g"
  by (induction rule: grun.induct) (auto simp: call_members work_members, simp add: members_known_def new_group_def)

section \<open>A group has one object\<close>

definition modules_inv :: "(nat \<Rightarrow> gthread) \<times> gmodule \<Rightarrow> bool" where
  "modules_inv c \<longleftrightarrow> (case c of (th, s) \<Rightarrow>
     (\<forall>k r. find_group k s = Some r \<longrightarrow> r < made s \<and> r \<notin> stopped s)
     \<and> (\<forall>k k' r. find_group k s = Some r \<longrightarrow> find_group k' s = Some r \<longrightarrow> k = k')
     \<and> (\<forall>t k r. th t = G_done k r \<longrightarrow> find_group k s = Some r)
     \<and> (\<forall>t k tmp. th t = G_made k tmp \<longrightarrow> tmp < made s \<and> tmp \<notin> stopped s \<and> (\<forall>k'. find_group k' s \<noteq> Some tmp))
     \<and> (\<forall>t u k k' tmp. th t = G_made k tmp \<longrightarrow> th u = G_made k' tmp \<longrightarrow> t = u)
     \<and> (\<forall>x \<in> stopped s. x < made s))"

lemma emplace_eqs:
  "fst (emplace_group k tmp s) = (case find_group k s of None \<Rightarrow> tmp | Some r \<Rightarrow> r)"
  "made (snd (emplace_group k tmp s)) = made s"
  "find_group j (snd (emplace_group k tmp s)) = (if find_group k s = None \<and> j = k then Some tmp else find_group j s)"
  "stopped (snd (emplace_group k tmp s)) =
     (if (\<exists>i. k = Instance i) \<and> find_group k s \<noteq> None \<and> find_group k s \<noteq> Some tmp then insert tmp (stopped s) else stopped s)"
  by (cases k; cases j; simp add: emplace_group_def get_emplace_def load_emplace_def find_group_def split: option.split)+

lemma emplace_group_cases:
  assumes "emplace_group k tmp s = (r, s')"
  obtains (fresh) "find_group k s = None" "r = tmp" "made s' = made s" "stopped s' = stopped s"
      "\<And>j. find_group j s' = (if j = k then Some tmp else find_group j s)"
  | (taken) "find_group k s = Some r" "made s' = made s" "stopped s' \<subseteq> insert tmp (stopped s)"
      "r = tmp \<longrightarrow> stopped s' = stopped s" "\<And>j. find_group j s' = find_group j s"
  using assms emplace_eqs(1) [of k tmp s] emplace_eqs(2) [of k tmp s] emplace_eqs(3) [of _ k tmp s]
    emplace_eqs(4) [of k tmp s]
  by (cases "find_group k s") (auto split: if_splits)

lemma modules_invI:
  assumes "\<And>k r. find_group k s = Some r \<Longrightarrow> r < made s \<and> r \<notin> stopped s"
    and "\<And>k k' r. find_group k s = Some r \<Longrightarrow> find_group k' s = Some r \<Longrightarrow> k = k'"
    and "\<And>t k r. th t = G_done k r \<Longrightarrow> find_group k s = Some r"
    and "\<And>t k tmp. th t = G_made k tmp \<Longrightarrow> tmp < made s \<and> tmp \<notin> stopped s \<and> (\<forall>k'. find_group k' s \<noteq> Some tmp)"
    and "\<And>t u k k' tmp. th t = G_made k tmp \<Longrightarrow> th u = G_made k' tmp \<Longrightarrow> t = u"
    and "\<And>x. x \<in> stopped s \<Longrightarrow> x < made s"
  shows "modules_inv (th, s)"
  using assms unfolding modules_inv_def prod.case by blast

lemma modules_invD:
  assumes "modules_inv (th, s)"
  shows "find_group k s = Some r \<Longrightarrow> r < made s \<and> r \<notin> stopped s"
    and "find_group k s = Some r \<Longrightarrow> find_group k' s = Some r \<Longrightarrow> k = k'"
    and "th t = G_done k r \<Longrightarrow> find_group k s = Some r"
    and "th t = G_made k r \<Longrightarrow> r < made s \<and> r \<notin> stopped s \<and> (\<forall>k'. find_group k' s \<noteq> Some r)"
    and "th t = G_made k r \<Longrightarrow> th u = G_made k' r \<Longrightarrow> t = u"
    and "x \<in> stopped s \<Longrightarrow> x < made s"
  using assms unfolding modules_inv_def prod.case by blast+

lemma made_inv:
  assumes inv: "modules_inv (th, s)" and "find_group k s = None" "create_group s = (tmp, s')"
  shows "modules_inv (th(t := G_made k tmp), s')"
proof -
  note D = modules_invD [OF inv]
  have s': "tmp = made s" "made s' = made s + 1" "stopped s' = stopped s" "find_group j s' = find_group j s" for j
    using assms(3) by (auto simp: create_group_def find_group_def split: gkey.split)
  show ?thesis
  proof (rule modules_invI, goal_cases)
    case (4 u k' x)
    then show ?case using D(4) [of u k' x] D(6) [of x] D(1) [of _ x] s' by (auto split: if_splits)
  next
    case (5 u v k1 k2 x)
    then show ?case using D(5) [of u k1 x v k2] D(4) [of u k1 x] D(4) [of v k2 x] s' by (auto split: if_splits)
  qed (use D(1,2,3,6) s' in \<open>auto simp: less_Suc_eq split: if_splits\<close>)
qed

lemma emplaced_inv:
  assumes inv: "modules_inv (th, s)" and t: "th t = G_made k tmp" and "emplace_group k tmp s = (r, s')"
  shows "modules_inv (th(t := G_done k r), s')"
  using assms(3)
proof (cases rule: emplace_group_cases)
  note D = modules_invD [OF inv]
  note T = D(4) [OF t]
  case fresh
  show ?thesis
  proof (rule modules_invI, goal_cases)
    case (3 u j x)
    then show ?case using D(3) [of u j x] fresh by (auto split: if_splits)
  next
    case (4 u j x)
    then have u: "th u = G_made j x" "u \<noteq> t" by (auto split: if_splits)
    then have "x \<noteq> tmp" using D(5) [OF t, of u j] by auto
    then show ?case using D(4) [OF u(1)] fresh by auto
  qed (use D(1,2,5,6) T fresh in \<open>auto split: if_splits\<close>)
next
  note D = modules_invD [OF inv]
  note T = D(4) [OF t]
  case taken
  have ne: "r \<noteq> tmp" using T taken(1) by auto
  show ?thesis
  proof (rule modules_invI, goal_cases)
    case (1 j x)
    then have "find_group j s = Some x" using taken(5) by simp
    then show ?case using D(1) [of j x] T taken(2,3) ne by auto
  next
    case (4 u j x)
    then have u: "th u = G_made j x" "u \<noteq> t" by (auto split: if_splits)
    then have "x \<noteq> tmp" using D(5) [OF t, of u j] by auto
    then show ?case using D(4) [OF u(1)] taken(2,3,5) ne by auto
  next
    case (6 x)
    then show ?case using D(6) [of x] T taken(2,3) ne by auto
  qed (use D(2,3,5) taken(1,5) in \<open>auto split: if_splits\<close>)
qed

lemma gstep_modules_inv: "gstep c d \<Longrightarrow> modules_inv c \<Longrightarrow> modules_inv d"
proof (induction rule: gstep.induct)
  case (gs_found th t k s r)
  note D = modules_invD [OF gs_found(3)]
  show ?case by (rule modules_invI) (use D gs_found(2) in \<open>auto split: if_splits\<close>)
qed (auto intro: made_inv emplaced_inv)

lemma module_start_inv: "module_start c \<Longrightarrow> modules_inv c"
  by (cases c) (auto simp: module_start_def new_module_def find_group_def split: gkey.splits intro!: modules_invI)

interpretation modules: invariant module_start gstep modules_inv
  by unfold_locales (erule module_start_inv, erule (1) gstep_modules_inv [rotated])

section \<open>Properties\<close>

text \<open>C20: from a quiet state in which the broker knows the nodes with subscribers, while nobody joins or leaves, however sends
  from any node and the work of the brokers are interleaved: when the brokers are idle each subscriber on each
  node has received each message exactly as often as it was sent, others nothing; and the brokers become idle.\<close>

theorem group_delivers:
  assumes "grun cs g" and "quiet g" and "settled g" and "traffic g sends h"
  shows "(quiet h \<longrightarrow> received n a m h = received n a m g
            + (if a \<in> set (subscribers g n) then List.count_list (map snd sends) m else 0))
    \<and> (\<not> quiet h \<longrightarrow> (\<exists>h'. work h h')) \<and> (\<forall>k h'. (work ^^ k) h h' \<longrightarrow> k \<le> weight h)"
proof -
  have fl: "flowing g" using grun_wf [OF assms(1)] assms(2) by (simp add: flowing_def traffic_only_def quiet_def)
  note t = traffic_flowing [OF assms(4) fl assms(3)]
  have "received n a m h = received n a m g + (if a \<in> set (subscribers g n) then List.count_list (map snd sends) m else 0)"
    if "quiet h" using t quiet_owed [OF that, of n a m] quiet_owed [OF assms(2), of n a m] by simp
  moreover have "k \<le> weight h" if "(work ^^ k) h h'" for k h' using work_run_weight [OF that] t by simp
  ultimately show ?thesis using not_quiet_work by blast
qed

text \<open>C21: when the calls at each proxy do not overlap, then in every run the broker knows exactly the nodes with subscribers
  as soon as no send is pending and its mailbox is empty.\<close>

theorem group_settles:
  assumes "serial_run cs g" and "broker_in g = []" and "\<And>n. posting g n = []"
  shows "settled g"
  using serial_informed [OF assms(1)] assms(2,3) by (auto simp: informed_def settled_def knows_def)

text \<open>C22: in every run, also when calls at a proxy overlap, no subscriber receives a message more often than it was sent,
  and who receives has subscribed at that node.\<close>

theorem group_at_most_once:
  assumes "grun cs g"
  shows "received n a m g \<le> length (filter (sends_of m) cs) \<and> (received n a m g > 0 \<longrightarrow> subscribed cs n a)"
proof -
  have "(n, a, Plain m) \<in> set (got g)" if "received n a m g > 0"
    using that by (metis List.count_list_0_iff less_irrefl received_def)
  then show ?thesis using copies_run [OF assms, of n a m] run_members [OF assms] by (auto simp: members_known_def)
qed

text \<open>Runs for the examples: the broker handles \<open>k\<close> messages.\<close>

fun broker_turns :: "nat \<Rightarrow> 'm gsys \<Rightarrow> 'm gsys" where
  "broker_turns 0 g = g"
| "broker_turns (Suc k) g = (case broker_in g of [] \<Rightarrow> g | m # ms \<Rightarrow> broker_turns k (broker_handle m (pop_broker g)))"

lemma broker_turns_run: "grun cs g \<Longrightarrow> grun cs (broker_turns k g)"
  by (induction k arbitrary: g) (auto split: list.split intro: g_work work_broker)

lemma broker_turns_serial: "serial_run cs g \<Longrightarrow> serial_run cs (broker_turns k g)"
  by (induction k arbitrary: g) (auto split: list.split intro: s_work work_broker)

definition joined_example :: "nat gsys" where
  "joined_example = broker_turns 1 (call_step (Posted 1 0) (call_step (Subscribe 0 4) (call_step (Subscribe 1 5) new_group)))"

lemma joined_serial: "serial_run [Subscribe 1 5, Subscribe 0 4, Posted 1 0] joined_example"
proof -
  have "serial_run ([] @ [Subscribe 1 5]) (call_step (Subscribe 1 5) (new_group :: nat gsys))"
    by (rule s_call [OF s_start]) (simp add: new_group_def)
  then have "serial_run (([] @ [Subscribe 1 5]) @ [Subscribe 0 4])
      (call_step (Subscribe 0 4) (call_step (Subscribe 1 5) (new_group :: nat gsys)))"
    by (rule s_call) (simp add: proxy_subscribe_eq new_group_def group_defs)
  then have "serial_run ((([] @ [Subscribe 1 5]) @ [Subscribe 0 4]) @ [Posted 1 0])
      (call_step (Posted 1 0) (call_step (Subscribe 0 4) (call_step (Subscribe 1 5) (new_group :: nat gsys))))"
    by (rule s_call) simp
  from broker_turns_serial [OF this, of 1] show ?thesis unfolding joined_example_def by (simp only: append.simps)
qed

lemma joined_eqs:
  "broker_in joined_example = []" "acquaintances joined_example = [1]" "proxy_in joined_example = (\<lambda>_. [])"
  "subscribers joined_example = ((\<lambda>_. [])(1 := [5], 0 := [4]))" "got joined_example = []" "posting joined_example = (\<lambda>_. [])"
  by (simp_all add: joined_example_def local_calls_eq proxy_subscribe_eq new_group_def group_defs post_done_def Let_def
      set_emplace_def numeral_eq_Suc fun_eq_iff insort_insert_key_def)

lemma joined_settled: "settled joined_example" "quiet joined_example"
  by (auto simp: settled_def quiet_def joined_eqs)

theorem group_settles_witness: "settled joined_example"
  by (rule group_settles [OF joined_serial]) (simp_all add: joined_eqs)

theorem group_delivers_witness:
  "\<not> quiet (call_step (Send 1 7) joined_example) \<and> (\<exists>h'. work (call_step (Send 1 7) joined_example) h')"
proof -
  have "traffic joined_example ([] @ [(1, 7)]) (call_step (Send 1 7) joined_example)" by (rule t_send [OF t_start])
  moreover have "\<not> quiet (call_step (Send 1 7) joined_example)"
    by (simp add: quiet_def proxy_enqueue_def to_broker_def)
  ultimately show ?thesis using group_delivers [OF serial_grun [OF joined_serial] joined_settled(2,1)] by blast
qed

theorem group_at_most_once_witness: "received 1 5 7 joined_example \<le> 0"
  using group_at_most_once [OF serial_grun [OF joined_serial], of 1 5 7] by simp

text \<open>When a subscribe and an unsubscribe overlap at a proxy, their messages can reach the broker in the wrong order, and
  then the proxy has a subscriber, nothing is pending, and messages that are sent to the group do not reach it.\<close>

theorem group_join_race:
  "\<exists>cs (g :: 'm gsys). grun (cs @ [Send 0 m]) g \<and> Send 0 m \<notin> set cs \<and> broker_in g = [] \<and> (\<forall>n. posting g n = [] \<and> proxy_in g n = [])
     \<and> subscribers g 1 = [6] \<and> received 1 6 m g = 0"
proof -
  let ?g1 = "broker_turns 1 (call_step (Posted 1 0) (call_step (Subscribe 1 5) (new_group :: 'm gsys)))"
  let ?g2 = "call_step (Posted 1 0) (call_step (Posted 1 1) (call_step (Subscribe 1 6) (call_step (Unsubscribe 1 5) ?g1)))"
  let ?g3 = "broker_turns 3 (call_step (Send 0 m) ?g2)"
  let ?cs = "((((([] @ [Subscribe 1 5]) @ [Posted 1 0]) @ [Unsubscribe 1 5]) @ [Subscribe 1 6]) @ [Posted 1 1]) @ [Posted 1 0]"
  have "grun (?cs @ [Send 0 m]) ?g3" by (intro broker_turns_run g_call g_start)
  moreover have g2: "broker_in ?g2 = [Join_msg 1, Leave_msg 1]" "posting ?g2 = (\<lambda>_. [])" "acquaintances ?g2 = [1]"
    "proxy_in ?g2 = (\<lambda>_. [])" "subscribers ?g2 = (\<lambda>_. [])(1 := [6])" "got ?g2 = []"
    by (simp_all add: proxy_subscribe_eq proxy_unsubscribe_eq new_group_def group_defs post_done_def Let_def
        set_emplace_def numeral_eq_Suc fun_eq_iff insort_insert_key_def)
  have "broker_in ?g3 = []" "posting ?g3 = (\<lambda>_. [])" "proxy_in ?g3 = (\<lambda>_. [])" "subscribers ?g3 = (\<lambda>_. [])(1 := [6])" "got ?g3 = []"
    using g2 by (simp_all add: local_enqueue_def group_defs numeral_eq_Suc set_emplace_def set_erase_def Let_def
        insort_insert_key_def fun_eq_iff)
  ultimately show ?thesis by (intro exI [of _ ?cs] exI [of _ ?g3]) (simp add: received_def)
qed

text \<open>C23: however calls of \<open>get\<close> and \<open>load\<close> of any number of threads are interleaved, calls for the same identifier or broker
  return the same group, calls for different ones different groups, and a group that is returned is not stopped.\<close>

theorem group_identity:
  assumes "module_start c" and "gstep\<^sup>*\<^sup>* c (th, s)" and "th t = G_done k r" and "th u = G_done k' r'"
  shows "(k = k' \<longleftrightarrow> r = r') \<and> r \<notin> stopped s"
proof -
  have "modules_inv (th, s)" using modules.reachable_inv [OF assms(1,2)] .
  note D = modules_invD [OF this]
  have "find_group k s = Some r" "find_group k' s = Some r'" using D(3) assms(3,4) by blast+
  then show ?thesis using D(1,2) by auto
qed

theorem group_identity_witness:
  "\<exists>th s. gstep\<^sup>*\<^sup>* (\<lambda>_. G_idle, new_module) (th, s) \<and> th 1 = G_done (Instance ''a'') 0 \<and> th 2 = G_done (Instance ''a'') 0
     \<and> 0 \<notin> stopped s \<and> 1 \<in> stopped s"
proof -
  let ?k = "Instance ''a''"
  let ?t1 = "(\<lambda>_. G_idle)(1 := G_made ?k 0)" and ?s1 = "new_module\<lparr>made := 1\<rparr>"
  let ?t2 = "?t1(2 := G_made ?k 1)" and ?s2 = "new_module\<lparr>made := 2\<rparr>"
  let ?t3 = "?t2(1 := G_done ?k 0)" and ?s3 = "?s2\<lparr>instances := [''a'' \<mapsto> 0]\<rparr>"
  let ?t4 = "?t3(2 := G_done ?k 0)" and ?s4 = "?s3\<lparr>stopped := {1}\<rparr>"
  note ds = new_module_def find_group_def create_group_def emplace_group_def get_emplace_def
  have s1: "gstep (\<lambda>_. G_idle, new_module) (?t1, ?s1)" by (rule gs_made) (simp_all add: ds)
  have s2: "gstep (?t1, ?s1) (?t2, ?s2)" by (rule gs_made) (simp_all add: ds)
  have s3: "gstep (?t2, ?s2) (?t3, ?s3)" by (rule gs_emplaced [where tmp = 0]) (simp_all add: ds)
  have s4: "gstep (?t3, ?s3) (?t4, ?s4)" by (rule gs_emplaced [where tmp = 1]) (simp_all add: ds)
  note then_step = converse_rtranclp_into_rtranclp [of gstep]
  have run: "gstep\<^sup>*\<^sup>* (\<lambda>_. G_idle, new_module) (?t4, ?s4)"
    by (rule then_step [OF s1], rule then_step [OF s2], rule then_step [OF s3], rule then_step [OF s4], rule rtranclp.rtrancl_refl)
  have "0 \<notin> stopped ?s4"
    using group_identity [OF _ run, of 1 ?k 0 2 ?k 0] by (simp add: module_start_def)
  then show ?thesis using run by (intro exI [of _ ?t4] exI [of _ ?s4]) simp
qed

text \<open>A proxy that lost the race of \<open>load\<close> is not stopped.\<close>

lemma lost_proxy_runs:
  "proxies s broker = Some p \<Longrightarrow> load_emplace broker tmp s = (p, s)"
  by (simp add: load_emplace_def)

end
