(* ===== verification/Messages.thy ===== *)
theory Messages
  imports Prelude
begin

text \<open>
  Messages (libcaf_core/src/message.cpp, caf/message.hpp, src/decorated_tuple.cpp, src/concatenated_tuple.cpp,
  src/dynamic_message_data.cpp), type numbers and type tokens (caf/type_nr.hpp), and pattern matching
  (src/try_match.cpp, caf/detail/try_match.hpp, caf/match_case.hpp, src/behavior_impl.cpp).
\<close>

section \<open>Type numbers and tokens\<close>

definition sorted_builtin_types :: "string list" where
  "sorted_builtin_types =
     [''actor'', ''std::vector<actor>'', ''actor_addr'', ''std::vector<actor_addr>'', ''atom_value'',
      ''std::vector<char>'', ''down_msg'', ''duration'', ''error'', ''exit_msg'', ''group'', ''group_down_msg'',
      ''int16_t'', ''int32_t'', ''int64_t'', ''int8_t'', ''long double'', ''message'', ''message_id'', ''node_id'',
      ''std::string'', ''std::map<std::string, std::string>'', ''strong_actor_ptr'', ''std::set<std::string>'',
      ''std::vector<std::string>'', ''sync_timeout_msg'', ''timeout_msg'', ''uint16_t'', ''std::u16string'', ''uint32_t'',
      ''std::u32string'', ''uint64_t'', ''uint8_t'', ''unit_t'', ''weak_actor_ptr'', ''bool'', ''double'', ''float'']"

text \<open>The index in the list plus one; a type that is not in it has the index -1, so the number 0.\<close>

fun index_from :: "string \<Rightarrow> string list \<Rightarrow> nat \<Rightarrow> int" where
  "index_from t [] i = -1"
| "index_from t (x # xs) i = (if x = t then int i else index_from t xs (i + 1))"

definition type_nr :: "string \<Rightarrow> u16" where
  "type_nr t = word_of_int (index_from t sorted_builtin_types 0 + 1)"

definition add_to_type_token :: "u32 \<Rightarrow> u16 \<Rightarrow> u32" where
  "add_to_type_token token tnr = push_bit 6 token OR ucast tnr"

definition make_type_token :: "u16 list \<Rightarrow> u32" where
  "make_type_token tnrs = foldl add_to_type_token 0xFFFFFFFF tnrs"

section \<open>Data of messages\<close>

text \<open>An element has the number of its type and, if that is 0, the identity of the type.\<close>

record 'v elem =
  typenr :: u16
  rtti :: nat
  val :: 'v

text \<open>A dynamic or static tuple, a selection of another one, and a sequence of others.\<close>

datatype 'e data = Tuple "'e list" | Decorated "'e data" "nat list" | Concatenated "'e data list"

datatype access_fault =
    Outside          \<comment> \<open>access outside of a vector\<close>
  | Out_of_range     \<comment> \<open>the error that \<open>select\<close> raises\<close>

fun data_size :: "'e data \<Rightarrow> nat" where
  "data_size (Tuple xs) = length xs"
| "data_size (Decorated d mapping) = length mapping"
| "data_size (Concatenated ds) = sum_list (map data_size ds)"

text \<open>\<open>select\<close> walks over the parts.\<close>

fun select_part :: "('e data \<Rightarrow> nat) \<Rightarrow> 'e data list \<Rightarrow> nat \<Rightarrow> ('e data \<times> nat) option" where
  "select_part sz [] idx = None"
| "select_part sz (m # ms) idx = (if idx \<ge> sz m then select_part sz ms (idx - sz m) else Some (m, idx))"

lemma select_part_in: "select_part sz ds idx = Some (m, i) \<Longrightarrow> m \<in> set ds"
  by (induction ds arbitrary: idx) (auto split: if_splits)

lemma select_part_cong [fundef_cong]:
  "ds = ds' \<Longrightarrow> idx = idx' \<Longrightarrow> (\<And>d. d \<in> set ds' \<Longrightarrow> sz d = sz' d) \<Longrightarrow> select_part sz ds idx = select_part sz' ds' idx'"
  by (induction ds arbitrary: ds' idx idx') auto

function data_get :: "'e data \<Rightarrow> nat \<Rightarrow> access_fault + 'e" where
  "data_get (Tuple xs) pos = (if pos < length xs then Inr (xs ! pos) else Inl Outside)"
| "data_get (Decorated d mapping) pos =
     (if pos < length mapping then data_get d (mapping ! pos) else Inl Outside)"
| "data_get (Concatenated ds) pos =
     (case select_part data_size ds pos of None \<Rightarrow> Inl Out_of_range | Some (m, i) \<Rightarrow> data_get m i)"
  by pat_completeness auto
termination
proof (relation "measure (\<lambda>(d, pos). size d)", goal_cases)
  case (3 ds pos p m i)
  then have "m \<in> set ds" using select_part_in by fastforce
  then show ?case using size_list_estimation' [of m ds "size m" size] by simp
qed simp_all

fun flatten :: "'e data \<Rightarrow> 'e data list" where
  "flatten (Concatenated ds) = ds"
| "flatten d = [d]"

definition decorated_make :: "'e data \<Rightarrow> nat list \<Rightarrow> 'e data" where
  "decorated_make d v =
     (case d of Decorated d' pmap \<Rightarrow> Decorated d' (map (\<lambda>i. pmap ! i) v) | _ \<Rightarrow> Decorated d v)"

text \<open>The null pointers are left out, the parts of a concatenated tuple are taken over.\<close>

definition concatenated_make :: "'e data option list \<Rightarrow> 'e data" where
  "concatenated_make xs = Concatenated (concat (map (case_option [] flatten) xs))"

section \<open>Messages\<close>

text \<open>A message is a pointer to data, which may be null.\<close>

type_synonym 'e message = "'e data option"

definition msg_size :: "'e message \<Rightarrow> nat" where
  "msg_size m = (case m of None \<Rightarrow> 0 | Some d \<Rightarrow> data_size d)"

definition msg_slice :: "nat \<Rightarrow> nat \<Rightarrow> 'e message \<Rightarrow> 'e message" where
  "msg_slice pos n m =
     (case m of None \<Rightarrow> None
      | Some d \<Rightarrow> let s = data_size d
                 in if pos \<ge> s then None else Some (decorated_make d [pos ..< pos + min (s - pos) n]))"

definition msg_drop :: "nat \<Rightarrow> 'e message \<Rightarrow> 'e message" where
  "msg_drop n m =
     (case m of None \<Rightarrow> None
      | Some d \<Rightarrow> if n = 0 then m else if n \<ge> data_size d then None else Some (decorated_make d [n ..< data_size d]))"

definition msg_drop_right :: "nat \<Rightarrow> 'e message \<Rightarrow> 'e message" where
  "msg_drop_right n m =
     (case m of None \<Rightarrow> None
      | Some d \<Rightarrow> if n = 0 then m else if n \<ge> data_size d then None
                 else Some (decorated_make d [0 ..< data_size d - n]))"

definition msg_take :: "nat \<Rightarrow> 'e message \<Rightarrow> 'e message" where
  "msg_take n m = (if n \<ge> msg_size m then m else msg_drop_right (msg_size m - n) m)"

definition msg_take_right :: "nat \<Rightarrow> 'e message \<Rightarrow> 'e message" where
  "msg_take_right n m = (if n \<ge> msg_size m then m else msg_drop (msg_size m - n) m)"

definition concat_impl :: "'e message list \<Rightarrow> 'e message" where
  "concat_impl xs =
     (case filter (\<lambda>x. x \<noteq> None) xs of [] \<Rightarrow> None | [x] \<Rightarrow> x | _ \<Rightarrow> Some (concatenated_make xs))"

definition msg_append :: "'e message \<Rightarrow> 'e message \<Rightarrow> 'e message" where
  "msg_append m x = concat_impl [m, x]"

text \<open>The builder: a dynamic tuple.\<close>

definition emplace_value :: "'e \<Rightarrow> 'e list \<Rightarrow> 'e list" where "emplace_value x data = data @ [x]"

definition to_message :: "'e list \<Rightarrow> 'e message" where "to_message data = Some (Tuple data)"

section \<open>Extraction\<close>

text \<open>
  \<open>extract_impl\<close>: slices from index \<open>i\<close>, the longest first; one that the handler takes is cut out, and the walk goes
  on at the same index. The handler has a state. \<open>n\<close> is the length of the next slice.
\<close>

lemma msg_size_Some [simp]: "msg_size (Some d) = data_size d" "msg_size None = 0"
  by (simp_all add: msg_size_def)

lemma decorated_make_size [simp]: "data_size (decorated_make d v) = length v"
  by (cases d) (simp_all add: decorated_make_def)

definition cut_mapping :: "nat \<Rightarrow> nat \<Rightarrow> nat \<Rightarrow> nat list" where
  "cut_mapping s i n = take i [0..<s] @ drop (i + n) [0..<s]"

function extract_loop ::
    "('s \<Rightarrow> 'e message \<Rightarrow> bool \<times> 's) \<Rightarrow> 's \<Rightarrow> 'e data \<Rightarrow> nat \<Rightarrow> nat \<Rightarrow> 'e message \<times> 's" where
  "extract_loop handler st d i n =
     (let s = data_size d
      in if i \<ge> s then (Some d, st)
         else if n = 0 then extract_loop handler st d (i + 1) (s - (i + 1))
         else case handler st (msg_slice i n (Some d)) of
             (True, st) \<Rightarrow>
               (let mapping = cut_mapping s i n
                in if mapping = [] then (None, st)
                   else let d = decorated_make d mapping in extract_loop handler st d i (data_size d - i))
           | (False, st) \<Rightarrow> extract_loop handler st d i (n - 1))"
  by pat_completeness auto
termination
  by (relation "(\<lambda>(handler, st, d, i, n). data_size d) <*mlex*> (\<lambda>(handler, st, d, i, n). data_size d - i)
        <*mlex*> measure (\<lambda>(handler, st, d, i, n). n)")
    (auto simp: wf_mlex mlex_prod_def cut_mapping_def)

definition msg_extract :: "('s \<Rightarrow> 'e message \<Rightarrow> bool \<times> 's) \<Rightarrow> 's \<Rightarrow> 'e message \<Rightarrow> 'e message \<times> 's" where
  "msg_extract handler st m =
     (case m of None \<Rightarrow> (None, st) | Some d \<Rightarrow> extract_loop handler st d 0 (data_size d))"

section \<open>Matching\<close>

datatype pat = Type_pat u16 nat | Atom_pat u64

definition elem_matches :: "u16 \<Rightarrow> nat \<Rightarrow> 'v elem \<Rightarrow> bool" where
  "elem_matches nr ptr e \<longleftrightarrow> typenr e = nr \<and> (nr = 0 \<longrightarrow> rtti e = ptr)"

text \<open>\<open>atomv\<close> reads the atom in a value.\<close>

fun match_pat :: "('v \<Rightarrow> u64) \<Rightarrow> pat \<Rightarrow> 'v elem \<Rightarrow> bool" where
  "match_pat atomv (Type_pat nr t) e \<longleftrightarrow> elem_matches nr t e"
| "match_pat atomv (Atom_pat v) e \<longleftrightarrow> elem_matches (type_nr ''atom_value'') 0 e \<and> atomv (val e) = v"

fun match_from :: "('v \<Rightarrow> u64) \<Rightarrow> 'v elem data \<Rightarrow> pat list \<Rightarrow> nat \<Rightarrow> access_fault + bool" where
  "match_from atomv xs [] i = Inr True"
| "match_from atomv xs (p # ps) i =
     (case data_get xs i of
        Inl f \<Rightarrow> Inl f
      | Inr e \<Rightarrow> if match_pat atomv p e then match_from atomv xs ps (i + 1) else Inr False)"

definition try_match :: "('v \<Rightarrow> u64) \<Rightarrow> 'v elem data \<Rightarrow> pat list \<Rightarrow> access_fault + bool" where
  "try_match atomv xs ps = (if data_size xs \<noteq> length ps then Inr False else match_from atomv xs ps 0)"

definition pat_nr :: "pat \<Rightarrow> u16" where
  "pat_nr p = (case p of Type_pat nr t \<Rightarrow> nr | Atom_pat v \<Rightarrow> type_nr ''atom_value'')"

definition nr_at :: "'v elem data \<Rightarrow> nat \<Rightarrow> u16" where
  "nr_at d i = (case data_get d i of Inr e \<Rightarrow> typenr e | Inl f \<Rightarrow> 0)"

fun data_token :: "'v elem data \<Rightarrow> u32" where
  "data_token (Tuple xs) = make_type_token (map typenr xs)"
| "data_token (Decorated d mapping) = make_type_token (map (nr_at d) mapping)"
| "data_token (Concatenated ds) = make_type_token (concat (map (\<lambda>m. map (nr_at m) [0..<data_size m]) ds))"

text \<open>
  A case has a pattern and a function, which gets the elements and a state; \<^const>\<open>False\<close>: it has skipped.
  A behavior is an array of cases, or two behaviors of which the second is asked if the first does not match.
\<close>

datatype match_result = No_match | Match_found | Skip_found

record ('v, 's) match_case =
  case_pattern :: "pat list"
  case_fun :: "'v elem data \<Rightarrow> 's \<Rightarrow> bool \<times> 's"

datatype ('v, 's) behavior_impl = Cases "('v, 's) match_case list" | Combinator "('v, 's) behavior_impl" "('v, 's) behavior_impl"

definition invoke_case ::
    "('v \<Rightarrow> u64) \<Rightarrow> ('v, 's) match_case \<Rightarrow> 'v elem data \<Rightarrow> 's \<Rightarrow> access_fault + (match_result \<times> 's)" where
  "invoke_case atomv c xs st =
     (case try_match atomv xs (case_pattern c) of
        Inl f \<Rightarrow> Inl f
      | Inr False \<Rightarrow> Inr (No_match, st)
      | Inr True \<Rightarrow> (case case_fun c xs st of (ok, st) \<Rightarrow> Inr (if ok then Match_found else Skip_found, st)))"

definition case_token :: "('v, 's) match_case \<Rightarrow> u32" where
  "case_token c = make_type_token (map pat_nr (case_pattern c))"

fun invoke_cases ::
    "('v \<Rightarrow> u64) \<Rightarrow> ('v, 's) match_case list \<Rightarrow> 'v elem data \<Rightarrow> 's \<Rightarrow> access_fault + (match_result \<times> 's)" where
  "invoke_cases atomv [] xs st = Inr (No_match, st)"
| "invoke_cases atomv (c # cs) xs st =
     (if case_token c = data_token xs
      then case invoke_case atomv c xs st of
             Inr (No_match, st) \<Rightarrow> invoke_cases atomv cs xs st
           | r \<Rightarrow> r
      else invoke_cases atomv cs xs st)"

fun invoke_behavior ::
    "('v \<Rightarrow> u64) \<Rightarrow> ('v, 's) behavior_impl \<Rightarrow> 'v elem data \<Rightarrow> 's \<Rightarrow> access_fault + (match_result \<times> 's)" where
  "invoke_behavior atomv (Cases cs) xs st = invoke_cases atomv cs xs st"
| "invoke_behavior atomv (Combinator b1 b2) xs st =
     (case invoke_behavior atomv b1 xs st of
        Inr (No_match, st) \<Rightarrow> invoke_behavior atomv b2 xs st
      | r \<Rightarrow> r)"

section \<open>Serialization\<close>

text \<open>
  The type names of the elements are joined to one name. \<open>portable\<close> is the table of types, \<open>save\<close> and \<open>load\<close> write and
  read a value; the header of the object is the pair of the number 0 and the name.
\<close>

datatype ser_error = Unknown_type | Builtin_found | Bad_prefix string | Bad_type string

fun join_names :: "('e \<Rightarrow> string option) \<Rightarrow> 'e list \<Rightarrow> ser_error + string" where
  "join_names portable [] = Inr []"
| "join_names portable (x # xs) =
     (case portable x of
        None \<Rightarrow> Inl Unknown_type
      | Some n \<Rightarrow> map_sum id (\<lambda>r. CHR ''+'' # n @ r) (join_names portable xs))"

fun data_elems :: "'e data \<Rightarrow> 'e list" where
  "data_elems (Tuple xs) = xs"
| "data_elems (Decorated d mapping) = map (\<lambda>i. data_elems d ! i) mapping"
| "data_elems (Concatenated ds) = concat (map data_elems ds)"

definition msg_elems :: "'e message \<Rightarrow> 'e list" where
  "msg_elems m = (case m of None \<Rightarrow> [] | Some d \<Rightarrow> data_elems d)"

definition serialize_msg ::
    "('e \<Rightarrow> string option) \<Rightarrow> ('e \<Rightarrow> 'b list) \<Rightarrow> 'e message \<Rightarrow> ser_error + ((nat \<times> string) \<times> 'b list)" where
  "serialize_msg portable save m =
     (if msg_size m = 0 then Inr ((0, ''@<>''), [])
      else map_sum id (\<lambda>names. ((0, ''@<>'' @ names), concat (map save (msg_elems m)))) (join_names portable (msg_elems m)))"

text \<open>The loop over the joined names, from behind the first plus sign.\<close>

function load_names ::
    "(string \<Rightarrow> 'b list \<Rightarrow> ('e \<times> 'b list) option) \<Rightarrow> string \<Rightarrow> 'b list \<Rightarrow> ser_error + ('e list \<times> 'b list)" where
  "load_names load str source =
     (let tmp = takeWhile (\<lambda>c. c \<noteq> CHR ''+'') str; n = dropWhile (\<lambda>c. c \<noteq> CHR ''+'') str
      in case load tmp source of
           None \<Rightarrow> Inl (Bad_type tmp)
         | Some (x, source) \<Rightarrow>
             if tl n = [] then Inr ([x], source)
             else map_sum id (map_prod (Cons x) id) (load_names load (tl n) source))"
  by pat_completeness auto
termination
proof (relation "measure (\<lambda>(load, str, source). length str)", goal_cases)
  case (2 load str source tmp n)
  then have "n \<noteq> []" by (metis list.sel(2))
  then have "length (tl n) < length n" by (cases n) simp_all
  moreover have "length n \<le> length str" using 2(2) by (simp add: length_dropWhile_le)
  ultimately show ?case by simp
qed simp

definition deserialize_msg ::
    "(string \<Rightarrow> 'b list \<Rightarrow> ('e \<times> 'b list) option) \<Rightarrow> nat \<times> string \<Rightarrow> 'b list \<Rightarrow> ser_error + ('e message \<times> 'b list)" where
  "deserialize_msg load header source =
     (case header of (nr, tname) \<Rightarrow>
        if nr \<noteq> 0 then Inl Builtin_found
        else if tname = ''@<>'' then Inr (None, source)
        else if take 4 tname \<noteq> ''@<>+'' then Inl (Bad_prefix tname)
        else map_sum id (\<lambda>(xs, source). (Some (Tuple xs), source)) (load_names load (drop 4 tname) source))"

definition msg_to_string :: "('e \<Rightarrow> string) \<Rightarrow> 'e message \<Rightarrow> string" where
  "msg_to_string stringify m =
     (case msg_elems m of
        [] \<Rightarrow> ''<empty-message>''
      | x # xs \<Rightarrow> ''('' @ stringify x @ concat (map (\<lambda>y. '', '' @ stringify y) xs) @ '')'')"

end
