(* ===== verification/MessageProperties.thy ===== *)
theory MessageProperties
  imports Messages
begin

text \<open>
  Messages are lists of elements whatever their data is built of, the token only saves comparisons, and the
  serialized form is read back.
\<close>

section \<open>Data is a list\<close>

fun data_ok :: "'e data \<Rightarrow> bool" where
  "data_ok (Tuple xs) \<longleftrightarrow> True"
| "data_ok (Decorated d mapping) \<longleftrightarrow> data_ok d \<and> (\<forall>i \<in> set mapping. i < data_size d)"
| "data_ok (Concatenated ds) \<longleftrightarrow> list_all data_ok ds"

definition msg_ok :: "'e message \<Rightarrow> bool" where
  "msg_ok m \<longleftrightarrow> (case m of None \<Rightarrow> True | Some d \<Rightarrow> data_ok d)"

lemma length_data_elems [simp]: "length (data_elems d) = data_size d"
  by (induction d) (simp_all add: length_concat comp_def cong: map_cong)

lemma length_msg_elems [simp]: "length (msg_elems m) = msg_size m"
  by (simp add: msg_elems_def split: option.split)

lemma select_part_elems:
  "pos < sum_list (map data_size ds) \<Longrightarrow>
    \<exists>m i. select_part data_size ds pos = Some (m, i) \<and> m \<in> set ds \<and> i < data_size m \<and> concat (map data_elems ds) ! pos = data_elems m ! i"
proof (induction ds arbitrary: pos)
  case (Cons d ds)
  show ?case
  proof (cases "pos < data_size d")
    case False
    then have "pos - data_size d < sum_list (map data_size ds)" using Cons.prems by simp
    from Cons.IH [OF this] False show ?thesis by (force simp: nth_append)
  qed (simp add: nth_append)
qed simp

lemma select_part_none: "sum_list (map data_size ds) \<le> pos \<Longrightarrow> select_part data_size ds pos = None"
  by (induction ds arbitrary: pos) auto

lemma data_get_eq:
  "data_ok d \<Longrightarrow> (if pos < data_size d then data_get d pos = Inr (data_elems d ! pos) else \<exists>f. data_get d pos = Inl f)"
proof (induction d pos rule: data_get.induct)
  case (3 ds pos)
  then show ?case
    using select_part_elems [of pos ds] select_part_none [of ds pos]
    by (auto simp: list_all_iff)
qed auto

lemma data_get_in: "data_ok d \<Longrightarrow> pos < data_size d \<Longrightarrow> data_get d pos = Inr (data_elems d ! pos)"
  using data_get_eq [of d pos] by simp

lemma decorated_make_ok:
  assumes "data_ok d" and "\<And>i. i \<in> set v \<Longrightarrow> i < data_size d"
  shows "data_ok (decorated_make d v)" "data_elems (decorated_make d v) = map (\<lambda>i. data_elems d ! i) v"
  using assms by (cases d; force simp: decorated_make_def)+

lemma flatten_ok: "data_ok d \<Longrightarrow> list_all data_ok (flatten d) \<and> concat (map data_elems (flatten d)) = data_elems d"
  by (cases d) auto

lemma concatenated_make_ok:
  assumes "list_all msg_ok ms"
  shows "data_ok (concatenated_make ms) \<and> data_elems (concatenated_make ms) = concat (map msg_elems ms)"
  using assms flatten_ok
  by (induction ms) (auto simp: concatenated_make_def msg_ok_def msg_elems_def split: option.splits)

section \<open>Operations on lists\<close>

lemma map_nth_upt: "b \<le> length xs \<Longrightarrow> map (\<lambda>i. xs ! i) [a..<b] = take (b - a) (drop a xs)"
  by (rule nth_equalityI) auto

lemma decorated_range:
  assumes "data_ok d" and "b \<le> data_size d"
  shows "data_ok (decorated_make d [a..<b])" "data_elems (decorated_make d [a..<b]) = take (b - a) (drop a (data_elems d))"
  using decorated_make_ok [OF assms(1), of "[a..<b]"] assms(2) by (simp_all add: map_nth_upt)

lemma msg_slice_ok:
  "msg_ok m \<Longrightarrow> msg_ok (msg_slice pos n m) \<and> msg_elems (msg_slice pos n m) = take n (drop pos (msg_elems m))"
  using decorated_range [of "the m" "pos + min (data_size (the m) - pos) n" pos]
  by (cases m) (auto simp: msg_slice_def msg_ok_def msg_elems_def Let_def min_def)

lemma msg_drop_ok: "msg_ok m \<Longrightarrow> msg_ok (msg_drop n m) \<and> msg_elems (msg_drop n m) = drop n (msg_elems m)"
  using decorated_range [of "the m" "data_size (the m)" n] by (cases m) (auto simp: msg_drop_def msg_ok_def msg_elems_def)

lemma msg_drop_right_ok:
  "msg_ok m \<Longrightarrow> msg_ok (msg_drop_right n m) \<and> msg_elems (msg_drop_right n m) = take (msg_size m - n) (msg_elems m)"
  using decorated_range [of "the m" "data_size (the m) - n" 0]
  by (cases m) (auto simp: msg_drop_right_def msg_ok_def msg_elems_def)

lemma filter_some_cases:
  "filter (\<lambda>x. x \<noteq> None) ms = [] \<Longrightarrow> concat (map msg_elems ms) = []"
  "filter (\<lambda>x. x \<noteq> None) ms = [x] \<Longrightarrow> concat (map msg_elems ms) = msg_elems x \<and> x \<in> set ms"
proof -
  have e: "concat (map msg_elems ms) = concat (map msg_elems (filter (\<lambda>x. x \<noteq> None) ms))"
    by (induction ms) (auto simp: msg_elems_def)
  show "filter (\<lambda>x. x \<noteq> None) ms = [] \<Longrightarrow> concat (map msg_elems ms) = []" by (simp only: e) simp
  show "concat (map msg_elems ms) = msg_elems x \<and> x \<in> set ms" if "filter (\<lambda>x. x \<noteq> None) ms = [x]"
  proof -
    have "set (filter (\<lambda>x. x \<noteq> None) ms) \<subseteq> set ms" by auto
    then have "x \<in> set ms" unfolding that by simp
    then show ?thesis unfolding e that by simp
  qed
qed

lemma concat_impl_ok:
  assumes "list_all msg_ok ms"
  shows "msg_ok (concat_impl ms) \<and> msg_elems (concat_impl ms) = concat (map msg_elems ms)"
proof -
  have c: "msg_ok (Some (concatenated_make ms)) \<and> msg_elems (Some (concatenated_make ms)) = concat (map msg_elems ms)"
    using concatenated_make_ok [OF assms] by (simp add: msg_ok_def msg_elems_def)
  consider (none) "filter (\<lambda>x. x \<noteq> None) ms = []" | (one) x where "filter (\<lambda>x. x \<noteq> None) ms = [x]"
    | (more) x y zs where "filter (\<lambda>x. x \<noteq> None) ms = x # y # zs"
    by (metis list.exhaust)
  then show ?thesis
  proof cases
    case none
    then show ?thesis using filter_some_cases(1) [OF none] by (simp add: concat_impl_def msg_ok_def msg_elems_def)
  next
    case one
    then show ?thesis using filter_some_cases(2) [OF one] assms by (simp add: concat_impl_def list_all_iff)
  next
    case more
    then show ?thesis using c by (simp add: concat_impl_def)
  qed
qed

section \<open>Extraction on lists\<close>

function list_extract :: "('s \<Rightarrow> 'e list \<Rightarrow> bool \<times> 's) \<Rightarrow> 's \<Rightarrow> 'e list \<Rightarrow> nat \<Rightarrow> nat \<Rightarrow> 'e list \<times> 's" where
  "list_extract g st xs i n =
     (if i \<ge> length xs then (xs, st)
      else if n = 0 then list_extract g st xs (i + 1) (length xs - (i + 1))
      else case g st (take n (drop i xs)) of
          (True, st) \<Rightarrow> (let ys = take i xs @ drop (i + n) xs in list_extract g st ys i (length ys - i))
        | (False, st) \<Rightarrow> list_extract g st xs i (n - 1))"
  by pat_completeness auto
termination
  by (relation "(\<lambda>(g, st, xs, i, n). length xs) <*mlex*> (\<lambda>(g, st, xs, i, n). length xs - i)
        <*mlex*> measure (\<lambda>(g, st, xs, i, n). n)")
    (auto simp: wf_mlex mlex_prod_def)

declare extract_loop.simps [simp del] list_extract.simps [simp del]

text \<open>A handler that sees the elements only.\<close>

definition on_elems :: "('s \<Rightarrow> 'e list \<Rightarrow> bool \<times> 's) \<Rightarrow> 's \<Rightarrow> 'e message \<Rightarrow> bool \<times> 's" where
  "on_elems g st m = g st (msg_elems m)"

lemma cut_mapping_elems:
  assumes "data_ok d" and "i < data_size d"
  shows "data_ok (decorated_make d (cut_mapping (data_size d) i n))"
    "data_elems (decorated_make d (cut_mapping (data_size d) i n)) = take i (data_elems d) @ drop (i + n) (data_elems d)"
proof -
  have c: "cut_mapping (data_size d) i n = [0..<i] @ [i + n..<data_size d]" using assms(2) by (simp add: cut_mapping_def)
  have r: "j < data_size d" if "j \<in> set (cut_mapping (data_size d) i n)" for j using that assms(2) unfolding c by auto
  show "data_ok (decorated_make d (cut_mapping (data_size d) i n))" by (rule decorated_make_ok(1) [OF assms(1) r])
  have "data_elems (decorated_make d (cut_mapping (data_size d) i n)) = map (\<lambda>i. data_elems d ! i) (cut_mapping (data_size d) i n)"
    by (rule decorated_make_ok(2) [OF assms(1) r])
  then show "data_elems (decorated_make d (cut_mapping (data_size d) i n)) = take i (data_elems d) @ drop (i + n) (data_elems d)"
    using assms(2) unfolding c by (simp add: map_nth_upt)
qed

lemma extract_loop_list:
  "data_ok d \<Longrightarrow> handler = on_elems g \<Longrightarrow>
     msg_ok (fst (extract_loop handler st d i n))
     \<and> msg_elems (fst (extract_loop handler st d i n)) = fst (list_extract g st (data_elems d) i n)
     \<and> snd (extract_loop handler st d i n) = snd (list_extract g st (data_elems d) i n)"
proof (induction handler st d i n rule: extract_loop.induct)
  case (1 handler st d i n)
  consider (stop) "i \<ge> data_size d" | (next_i) "i < data_size d" "n = 0"
    | (no) st' where "i < data_size d" "n \<noteq> 0" "handler st (msg_slice i n (Some d)) = (False, st')"
    | (yes) st' where "i < data_size d" "n \<noteq> 0" "handler st (msg_slice i n (Some d)) = (True, st')"
    by (metis (full_types) leI surj_pair)
  then show ?case
  proof cases
    case stop
    then show ?thesis using 1(4) by (simp add: extract_loop.simps list_extract.simps msg_ok_def msg_elems_def)
  next
    case next_i
    then show ?thesis using 1(1) [OF refl _ _ 1(4,5)]
      by (simp add: extract_loop.simps [of handler st d i 0] list_extract.simps [of g st "data_elems d" i 0])
  next
    case no
    have g: "g st (take n (drop i (data_elems d))) = (False, st')"
      using no(3) msg_slice_ok [of "Some d" i n] 1(4,5) by (simp add: on_elems_def msg_ok_def msg_elems_def)
    show ?thesis using 1(3) [OF refl _ _ no(3) [symmetric] refl 1(4,5)] no g
      by (simp add: extract_loop.simps [of handler st d i n] list_extract.simps [of g st "data_elems d" i n])
  next
    case yes
    have g: "g st (take n (drop i (data_elems d))) = (True, st')"
      using yes(3) msg_slice_ok [of "Some d" i n] 1(4,5) by (simp add: on_elems_def msg_ok_def msg_elems_def)
    let ?v = "cut_mapping (data_size d) i n"
    let ?ys = "take i (data_elems d) @ drop (i + n) (data_elems d)"
    note cut = cut_mapping_elems [OF 1(4) yes(1), of n]
    have len: "length ?v = length ?ys" using arg_cong [OF cut(2), of length] by simp
    show ?thesis
    proof (cases "?v = []")
      case True
      then have ys: "?ys = []" using len yes(1) by (auto simp: min_def split: if_splits)
      have "list_extract g st' ?ys j l = ([], st')" for j l unfolding ys by (simp add: list_extract.simps)
      then show ?thesis using yes g True
        by (simp add: extract_loop.simps [of handler st d i n] list_extract.simps [of g st "data_elems d" i n]
            msg_ok_def msg_elems_def)
    next
      case False
      then show ?thesis using 1(2) [OF refl _ _ yes(3) [symmetric] refl refl False refl cut(1) 1(5)] yes g cut(2) len
        by (simp add: extract_loop.simps [of handler st d i n] list_extract.simps [of g st "data_elems d" i n] Let_def)
    qed
  qed
qed


section \<open>Tokens\<close>

lemma index_from_bounds: "index_from t xs i = -1 \<or> int i \<le> index_from t xs i \<and> index_from t xs i < int (i + length xs)"
proof (induction xs arbitrary: i)
  case (Cons x xs)
  then show ?case using Cons.IH [of "Suc i"] by auto
qed simp

lemma type_nr_small: "uint (type_nr t) \<le> 38"
proof -
  define k where "k = index_from t sorted_builtin_types 0 + 1"
  have l: "length sorted_builtin_types = 38" by (simp add: sorted_builtin_types_def)
  have "0 \<le> k" "k \<le> 38" using index_from_bounds [of t sorted_builtin_types 0] l by (auto simp: k_def)
  then have "uint (word_of_int k :: u16) = k" by (simp add: unsigned_of_int take_bit_int_eq_self)
  then show ?thesis using \<open>k \<le> 38\<close> by (simp only: type_nr_def k_def)
qed

text \<open>The token as a number: the type numbers are its digits to the base 64, the first digit is -1.\<close>

definition token_value :: "int list \<Rightarrow> int" where "token_value xs = foldl (\<lambda>a x. 64 * a + x) (-1) xs"

lemma token_value_simps [simp]: "token_value [] = -1" "token_value (xs @ [x]) = 64 * token_value xs + x"
  by (simp_all add: token_value_def)

lemma add_token_eq:
  assumes "uint tnr \<le> 38"
  shows "add_to_type_token (word_of_int v) tnr = word_of_int (64 * v + uint tnr)"
proof -
  have low: "k < 6" if "bit tnr k" for k
  proof (rule ccontr)
    assume "\<not> k < 6"
    then have "(2 :: int) ^ 6 \<le> 2 ^ k" by (intro power_increasing) simp_all
    then have "uint tnr div 2 ^ k = 0" using assms by simp
    moreover have "bit (uint tnr) k" using that bit_imp_le_length [OF that] by (simp add: bit_uint_iff)
    ultimately show False by (simp add: bit_iff_odd)
  qed
  have "push_bit 6 (word_of_int v) + ucast tnr = push_bit 6 (word_of_int v) OR (ucast tnr :: u32)"
    by (rule disjunctive_add) (use low in \<open>fastforce simp: bit_push_bit_iff bit_ucast_iff\<close>)
  moreover have "(ucast tnr :: u32) = word_of_int (uint tnr)" by (rule ucast_eq)
  moreover have "push_bit 6 (word_of_int v) = (word_of_int (64 * v) :: u32)" by (simp add: push_bit_eq_mult mult.commute)
  ultimately show ?thesis unfolding add_to_type_token_def by (simp only: of_int_add)
qed

lemma token_digits:
  "\<forall>x \<in> set xs. uint x \<le> 38 \<Longrightarrow> make_type_token xs = word_of_int (token_value (map uint xs))"
proof (induction xs rule: rev_induct)
  case (snoc x xs)
  then show ?case by (simp add: make_type_token_def add_token_eq del: of_int_add of_int_mult)
qed (simp add: make_type_token_def)

lemma last_digit:
  fixes v w x y m :: int
  assumes "(64 * v + x) mod (64 * m) = (64 * w + y) mod (64 * m)" and "0 \<le> x" "x \<le> 63" "0 \<le> y" "y \<le> 63"
  shows "x = y" "v mod m = w mod m"
proof -
  have "(64 * v + x) mod (64 * m) mod 64 = (64 * w + y) mod (64 * m) mod 64" using assms(1) by simp
  then have "(64 * v + x) mod 64 = (64 * w + y) mod 64" by (simp add: mod_mod_cancel)
  then show xy: "x = y" using assms(2-5) by (simp add: mod_pos_pos_trivial)
  have "(64 * m) dvd (64 * v + x - (64 * w + y))" using assms(1) by (simp add: mod_eq_dvd_iff)
  then have "(64 * m) dvd (64 * (v - w))" using xy by (simp add: algebra_simps)
  then have "m dvd v - w" by (simp only: dvd_mult_cancel_left) simp
  then show "v mod m = w mod m" by (simp add: mod_eq_dvd_iff)
qed

lemma token_value_inject:
  assumes "token_value xs mod 2 ^ (8 + 6 * k) = token_value ys mod 2 ^ (8 + 6 * k)" and "length ys \<le> k"
    and "\<forall>x \<in> set xs \<union> set ys. 0 \<le> x \<and> x \<le> 38"
  shows "xs = ys"
  using assms
proof (induction k arbitrary: xs ys)
  case 0
  then show ?case
  proof (cases xs rule: rev_cases)
    case (snoc as a)
    then have "(64 * token_value as + a) mod (64 * 4) = (64 * (-1) + 63) mod (64 * 4)" using 0 by simp
    from last_digit(1) [OF this] show ?thesis using 0(3) snoc by auto
  qed simp
next
  case (Suc k)
  have m: "2 ^ (8 + 6 * Suc k) = 64 * (2 ^ (8 + 6 * k) :: int)" by (simp add: power_add)
  have none: "(64 * v + a) mod (64 * n) \<noteq> -1 mod (64 * n)" if "0 \<le> a" "a \<le> 38" for v a n :: int
  proof
    assume "(64 * v + a) mod (64 * n) = -1 mod (64 * n)"
    then have "(64 * v + a) mod (64 * n) = (64 * (-1) + 63) mod (64 * n)" by simp
    from last_digit(1) [OF this] show False using that by auto
  qed
  show ?case
  proof (cases xs rule: rev_cases)
    case Nil
    show ?thesis
    proof (cases ys rule: rev_cases)
      case (snoc bs b)
      have "(64 * token_value bs + b) mod (64 * 2 ^ (8 + 6 * k)) = -1 mod (64 * 2 ^ (8 + 6 * k))"
        using Suc.prems(1) unfolding m snoc Nil by simp
      then show ?thesis using none Suc.prems(3) snoc by simp
    qed (simp add: Nil)
  next
    case (snoc as a)
    note xs = snoc
    show ?thesis
    proof (cases ys rule: rev_cases)
      case Nil
      have "(64 * token_value as + a) mod (64 * 2 ^ (8 + 6 * k)) = -1 mod (64 * 2 ^ (8 + 6 * k))"
        using Suc.prems(1) unfolding m xs Nil by simp
      then show ?thesis using none Suc.prems(3) xs by simp
    next
      case (snoc bs b)
      have "(64 * token_value as + a) mod (64 * 2 ^ (8 + 6 * k)) = (64 * token_value bs + b) mod (64 * 2 ^ (8 + 6 * k))"
        using Suc.prems(1) unfolding m xs snoc by simp
      from last_digit [OF this] have "a = b" "token_value as mod 2 ^ (8 + 6 * k) = token_value bs mod 2 ^ (8 + 6 * k)"
        using Suc.prems(3) xs snoc by auto
      then show ?thesis using Suc.IH [of as bs] Suc.prems(2,3) xs snoc by auto
    qed
  qed
qed

section \<open>Matching\<close>

lemma nr_at_ok: "data_ok d \<Longrightarrow> i < data_size d \<Longrightarrow> nr_at d i = typenr (data_elems d ! i)"
  by (simp add: nr_at_def data_get_in)

lemma map_nr_at: "data_ok d \<Longrightarrow> map (nr_at d) [0..<data_size d] = map typenr (data_elems d)"
  by (rule nth_equalityI) (simp_all add: nr_at_ok)

lemma data_token_ok: "data_ok d \<Longrightarrow> data_token d = make_type_token (map typenr (data_elems d))"
proof (cases d)
  case (Concatenated ds)
  assume "data_ok d"
  then have "map (\<lambda>m. map (nr_at m) [0..<data_size m]) ds = map (\<lambda>m. map typenr (data_elems m)) ds"
    using Concatenated by (auto simp: list_all_iff map_nr_at)
  then show ?thesis using Concatenated by (simp add: map_concat comp_def cong: map_cong)
qed (simp_all add: nr_at_ok comp_def cong: map_cong)

lemma match_from_ok:
  "data_ok d \<Longrightarrow> i + length ps = data_size d \<Longrightarrow>
     match_from atomv d ps i = Inr (list_all2 (match_pat atomv) ps (drop i (data_elems d)))"
proof (induction ps arbitrary: i)
  case (Cons p ps)
  have i: "i < data_size d" using Cons.prems(2) by simp
  then have "drop i (data_elems d) = data_elems d ! i # drop (Suc i) (data_elems d)" by (simp add: Cons_nth_drop_Suc)
  then show ?case using Cons.IH [of "Suc i"] Cons.prems data_get_in [OF Cons.prems(1) i] by simp
qed simp

lemma try_match_ok: "data_ok d \<Longrightarrow> try_match atomv d ps = Inr (list_all2 (match_pat atomv) ps (data_elems d))"
  using match_from_ok [of d 0 ps atomv] by (auto simp: try_match_def dest: list_all2_lengthD)

lemma match_pat_nr: "match_pat atomv p e \<Longrightarrow> pat_nr p = typenr e"
  by (cases p) (auto simp: pat_nr_def elem_matches_def)

lemma match_token:
  assumes "data_ok d" and "list_all2 (match_pat atomv) ps (data_elems d)"
  shows "make_type_token (map pat_nr ps) = data_token d"
proof -
  have "map pat_nr ps = map typenr (data_elems d)" using assms(2) by (induction rule: list_all2_induct) (auto dest: match_pat_nr)
  then show ?thesis using data_token_ok [OF assms(1)] by simp
qed

text \<open>The reference: the first case whose pattern fits, without tokens.\<close>

fun first_match :: "('v \<Rightarrow> u64) \<Rightarrow> ('v, 's) match_case list \<Rightarrow> 'v elem data \<Rightarrow> 's \<Rightarrow> match_result \<times> 's" where
  "first_match atomv [] d st = (No_match, st)"
| "first_match atomv (c # cs) d st =
     (if list_all2 (match_pat atomv) (case_pattern c) (data_elems d)
      then case case_fun c d st of (ok, st) \<Rightarrow> (if ok then Match_found else Skip_found, st)
      else first_match atomv cs d st)"

fun all_cases :: "('v, 's) behavior_impl \<Rightarrow> ('v, 's) match_case list" where
  "all_cases (Cases cs) = cs"
| "all_cases (Combinator b1 b2) = all_cases b1 @ all_cases b2"

lemma invoke_cases_eq: "data_ok d \<Longrightarrow> invoke_cases atomv cs d st = Inr (first_match atomv cs d st)"
proof (induction cs)
  case (Cons c cs)
  then show ?case using match_token [OF Cons.prems, of atomv "case_pattern c"]
    by (auto simp: case_token_def invoke_case_def try_match_ok split: prod.split)
qed simp

lemma first_match_append:
  "first_match atomv (cs @ ds) d st = (case first_match atomv cs d st of (No_match, st') \<Rightarrow> first_match atomv ds d st' | r \<Rightarrow> r)"
  by (induction cs) (auto split: prod.splits match_result.splits)

text \<open>C25: dispatch with type tokens is dispatch without them: a behavior, combined in any way, calls the first of its
  cases whose pattern fits the elements, whatever the data of the message is built of, and no access is out of bounds.\<close>

theorem dispatch_first_match:
  assumes "data_ok d"
  shows "invoke_behavior atomv b d st = Inr (first_match atomv (all_cases b) d st)"
  using assms
proof (induction b arbitrary: st)
  case (Combinator b1 b2)
  then show ?case by (auto simp: first_match_append split: prod.split match_result.split)
qed (simp add: invoke_cases_eq)

definition int_elem :: "nat \<Rightarrow> nat elem" where
  "int_elem n = \<lparr>typenr = 14, rtti = 0, val = n\<rparr>"

definition example_data :: "nat elem data" where
  "example_data = Concatenated [Decorated (Tuple [int_elem 1, int_elem 2, int_elem 3]) [2, 0], Tuple [int_elem 4]]"

definition example_case :: "nat \<Rightarrow> (nat, nat list) match_case" where
  "example_case n = \<lparr>case_pattern = replicate n (Type_pat 14 0), case_fun = \<lambda>d st. (True, map val (data_elems d))\<rparr>"

lemma dispatch_first_match_witness:
  "invoke_behavior of_nat (Combinator (Cases [example_case 2]) (Cases [example_case 3])) example_data []
     = Inr (Match_found, [3, 1, 4])"
  using dispatch_first_match [of example_data of_nat "Combinator (Cases [example_case 2]) (Cases [example_case 3])" "[]"]
  by (simp add: example_data_def example_case_def int_elem_def elem_matches_def numeral_3_eq_3 numeral_2_eq_2)

text \<open>Type numbers are at most 38, so a token that is computed from at most four types is the token of no other
  list of types, however long: in particular only a \<open>down_msg\<close> has its token. From five types on this fails.\<close>

theorem token_identifies:
  assumes "make_type_token (map type_nr xs) = make_type_token (map type_nr ys)" and "length ys \<le> 4"
  shows "map type_nr xs = map type_nr ys"
proof -
  have s: "uint (type_nr t) \<le> 38" for t by (rule type_nr_small)
  have t: "make_type_token (map type_nr zs) = word_of_int (token_value (map (uint \<circ> type_nr) zs))" for zs
    using token_digits [of "map type_nr zs"] s by (simp add: comp_def)
  have "(word_of_int (token_value (map (uint \<circ> type_nr) xs)) :: u32) = word_of_int (token_value (map (uint \<circ> type_nr) ys))"
    using assms(1) t by simp
  then have "token_value (map (uint \<circ> type_nr) xs) mod 2 ^ 32 = token_value (map (uint \<circ> type_nr) ys) mod 2 ^ 32"
    by (simp add: word_of_int_eq_iff take_bit_eq_mod)
  then have "map (uint \<circ> type_nr) xs = map (uint \<circ> type_nr) ys"
    by (intro token_value_inject [where k = 4]) (use s assms(2) in auto)
  then have "map uint (map type_nr xs) = map uint (map type_nr ys)" by simp
  then show ?thesis by (rule map_injective) (rule injI, rule word_uint_eqI)
qed

lemma token_identifies_witness: "map type_nr [''down_msg''] = map type_nr [''down_msg'']"
  by (rule token_identifies) simp_all

lemma tokens_collide:
  "make_type_token (map type_nr [''actor_addr'', ''bool'', ''bool'', ''bool'', ''bool'', ''bool''])
     = make_type_token (map type_nr [''bool'', ''bool'', ''bool'', ''bool'', ''bool''])"
  by (simp add: make_type_token_def add_to_type_token_def type_nr_def sorted_builtin_types_def push_bit_eq_mult)

section \<open>Messages are lists\<close>

text \<open>C24: whatever the data of messages is built of, an access reads the element of the list or is an error behind its end,
  the operations are those on lists, and extraction with a handler that looks at the elements is extraction on the list.\<close>

theorem messages_are_lists:
  assumes "msg_ok m" and "list_all msg_ok ms"
  shows "msg_size m = length (msg_elems m)
    \<and> (\<forall>d pos. m = Some d \<longrightarrow> (if pos < msg_size m then data_get d pos = Inr (msg_elems m ! pos) else \<exists>f. data_get d pos = Inl f))
    \<and> msg_elems (msg_slice pos n m) = take n (drop pos (msg_elems m))
    \<and> msg_elems (msg_drop n m) = drop n (msg_elems m) \<and> msg_elems (msg_take n m) = take n (msg_elems m)
    \<and> msg_elems (msg_drop_right n m) = take (length (msg_elems m) - n) (msg_elems m)
    \<and> msg_elems (msg_take_right n m) = drop (length (msg_elems m) - n) (msg_elems m)
    \<and> msg_elems (concat_impl ms) = concat (map msg_elems ms)
    \<and> msg_elems (fst (msg_extract (on_elems g) st m)) = fst (list_extract g st (msg_elems m) 0 (length (msg_elems m)))
    \<and> snd (msg_extract (on_elems g) st m) = snd (list_extract g st (msg_elems m) 0 (length (msg_elems m)))"
proof (intro conjI)
  show "\<forall>d pos. m = Some d \<longrightarrow> (if pos < msg_size m then data_get d pos = Inr (msg_elems m ! pos) else \<exists>f. data_get d pos = Inl f)"
    using assms(1) data_get_eq by (fastforce simp: msg_ok_def msg_elems_def)
  show "msg_elems (msg_take n m) = take n (msg_elems m)"
    using msg_drop_right_ok [OF assms(1), of "msg_size m - n"] by (simp add: msg_take_def)
  show "msg_elems (msg_take_right n m) = drop (length (msg_elems m) - n) (msg_elems m)"
    using msg_drop_ok [OF assms(1), of "msg_size m - n"] by (simp add: msg_take_right_def)
  show "msg_elems (fst (msg_extract (on_elems g) st m)) = fst (list_extract g st (msg_elems m) 0 (length (msg_elems m)))"
    "snd (msg_extract (on_elems g) st m) = snd (list_extract g st (msg_elems m) 0 (length (msg_elems m)))"
    using assms(1) extract_loop_list [of "the m" "on_elems g" g st 0 "data_size (the m)"]
    by (cases m; simp add: msg_extract_def msg_ok_def msg_elems_def list_extract.simps [of g st "[]"])+
qed (use msg_slice_ok [OF assms(1)] msg_drop_ok [OF assms(1)] msg_drop_right_ok [OF assms(1)] concat_impl_ok [OF assms(2)] in simp_all)

definition take_pair :: "nat list \<Rightarrow> nat elem list \<Rightarrow> bool \<times> nat list" where
  "take_pair st es = (if length es = 2 then (True, st @ map val es) else (False, st))"

theorem messages_are_lists_witness:
  "msg_elems (msg_slice 1 2 (Some example_data)) = [int_elem 1, int_elem 4]
    \<and> snd (msg_extract (on_elems take_pair) [] (Some example_data)) = [3, 1]"
proof -
  have "msg_ok (Some example_data)" "list_all msg_ok [Some example_data]" by (simp_all add: msg_ok_def example_data_def)
  note w = messages_are_lists [OF this, where pos = 1 and n = 2 and g = take_pair and st = "[]"]
  have e: "msg_elems (Some example_data) = [int_elem 3, int_elem 1, int_elem 4]" by (simp add: msg_elems_def example_data_def)
  have "list_extract take_pair [] [int_elem 3, int_elem 1, int_elem 4] 0 3 = ([int_elem 4], [3, 1])"
    by (simp add: list_extract.simps take_pair_def int_elem_def)
  then show ?thesis using w unfolding e by (simp add: numeral_2_eq_2 numeral_3_eq_3)
qed

section \<open>Serialization\<close>

lemma join_names_Some:
  "(\<And>e. e \<in> set es \<Longrightarrow> portable e = Some (nm e)) \<Longrightarrow> join_names portable es = Inr (concat (map (\<lambda>e. CHR ''+'' # nm e) es))"
  by (induction es) simp_all

declare load_names.simps [simp del]

lemma plus_free_append:
  "CHR ''+'' \<notin> set s \<Longrightarrow> takeWhile (\<lambda>c. c \<noteq> CHR ''+'') (s @ xs) = s @ takeWhile (\<lambda>c. c \<noteq> CHR ''+'') xs"
  "CHR ''+'' \<notin> set s \<Longrightarrow> dropWhile (\<lambda>c. c \<noteq> CHR ''+'') (s @ xs) = dropWhile (\<lambda>c. c \<noteq> CHR ''+'') xs"
  by (induction s) auto

lemma deserialize_plus:
  "deserialize_msg load (0, ''@<>'' @ CHR ''+'' # ns) source = map_sum id (\<lambda>(xs, source). (Some (Tuple xs), source)) (load_names load ns source)"
  by (simp add: deserialize_msg_def)

lemma load_names_ok:
  assumes "es \<noteq> []" and "\<And>e. e \<in> set es \<Longrightarrow> nm e \<noteq> [] \<and> CHR ''+'' \<notin> set (nm e)"
    and "\<And>e r. e \<in> set es \<Longrightarrow> load (nm e) (save e @ r) = Some (e, r)"
  shows "load_names load (tl (concat (map (\<lambda>e. CHR ''+'' # nm e) es))) (concat (map save es) @ rest) = Inr (es, rest)"
  using assms
proof (induction es)
  case (Cons e es)
  have e: "takeWhile (\<lambda>c. c \<noteq> CHR ''+'') (nm e @ xs) = nm e @ takeWhile (\<lambda>c. c \<noteq> CHR ''+'') xs"
    "dropWhile (\<lambda>c. c \<noteq> CHR ''+'') (nm e @ xs) = dropWhile (\<lambda>c. c \<noteq> CHR ''+'') xs" for xs
    using Cons.prems(2) [of e] by (simp_all add: plus_free_append)
  show ?case
  proof (cases es)
    case Nil
    have e0: "takeWhile (\<lambda>c. c \<noteq> CHR ''+'') (nm e) = nm e" "dropWhile (\<lambda>c. c \<noteq> CHR ''+'') (nm e) = []"
      using Cons.prems(2) [of e] by (auto simp: takeWhile_eq_all_conv)
    then show ?thesis using Nil Cons.prems(3) [of e rest] by (simp add: load_names.simps [of load "nm e"] e0 Let_def)
  next
    case (Cons a as)
    then have "load_names load (tl (concat (map (\<lambda>e. CHR ''+'' # nm e) es))) (concat (map save es) @ rest) = Inr (es, rest)"
      using Cons.IH Cons.prems(2,3) by simp
    moreover have "nm a \<noteq> []" using Cons.prems(2) [of a] Cons by simp
    ultimately show ?thesis using Cons Cons.prems(3) [of e] e by (simp add: load_names.simps [of load "nm e @ _"])
  qed
qed simp

text \<open>C26: a message is read back from its serialized form if the names of the types are not empty and have no plus sign
  and each value is read back by the function of its type; what follows in the stream is left.\<close>

theorem message_round_trip:
  assumes "msg_ok m" and "\<And>e. e \<in> set (msg_elems m) \<Longrightarrow> portable e = Some (nm e) \<and> nm e \<noteq> [] \<and> CHR ''+'' \<notin> set (nm e)"
    and "\<And>e r. e \<in> set (msg_elems m) \<Longrightarrow> load (nm e) (save e @ r) = Some (e, r)"
  shows "\<exists>hdr bs m'. serialize_msg portable save m = Inr (hdr, bs)
    \<and> deserialize_msg load hdr (bs @ rest) = Inr (m', rest) \<and> msg_elems m' = msg_elems m"
proof (cases "msg_elems m = []")
  case True
  then have "msg_size m = 0" by (metis length_msg_elems list.size(3))
  then show ?thesis using True by (simp add: serialize_msg_def deserialize_msg_def) (simp add: msg_elems_def)
next
  case False
  then have s: "msg_size m \<noteq> 0" by (metis length_0_conv length_msg_elems)
  let ?names = "concat (map (\<lambda>e. CHR ''+'' # nm e) (msg_elems m))"
  have j: "join_names portable (msg_elems m) = Inr ?names" by (rule join_names_Some) (use assms(2) in blast)
  obtain e es where es: "msg_elems m = e # es" using False by (cases "msg_elems m") auto
  have l: "load_names load (tl ?names) (concat (map save (msg_elems m)) @ rest) = Inr (msg_elems m, rest)"
    using load_names_ok [OF False, of nm load save rest] assms(2,3) by blast
  have "?names = CHR ''+'' # tl ?names" by (simp add: es)
  then have "deserialize_msg load (0, ''@<>'' @ ?names) (concat (map save (msg_elems m)) @ rest) = Inr (Some (Tuple (msg_elems m)), rest)"
    using deserialize_plus [of load "tl ?names" "concat (map save (msg_elems m)) @ rest"] l by simp
  then show ?thesis using s j by (auto simp: serialize_msg_def msg_elems_def)
qed

definition nat_portable :: "nat elem \<Rightarrow> string option" where "nat_portable e = Some ''@i32''"

definition nat_load :: "string \<Rightarrow> nat list \<Rightarrow> (nat elem \<times> nat list) option" where
  "nat_load n bs = (case bs of [] \<Rightarrow> None | b # bs \<Rightarrow> if n = ''@i32'' then Some (int_elem b, bs) else None)"

lemma message_round_trip_witness:
  "\<exists>hdr bs m'. serialize_msg nat_portable (\<lambda>e. [val e]) (Some example_data) = Inr (hdr, bs)
    \<and> deserialize_msg nat_load hdr (bs @ [9]) = Inr (m', [9]) \<and> msg_elems m' = msg_elems (Some example_data)"
  by (rule message_round_trip [where nm = "\<lambda>e. ''@i32''"])
    (auto simp: msg_ok_def msg_elems_def example_data_def nat_portable_def nat_load_def int_elem_def)

end
