(* ===== verification/CliOptions.thy ===== *)
theory CliOptions
  imports MessageProperties
begin

text \<open>
  Command line options (libcaf_core/src/message.cpp, \<open>extract_opts\<close>, caf/message.hpp, caf/string_algorithms.hpp): the
  table of options, the help text, and the two handlers that take options out of a message of strings.
\<close>

section \<open>Strings\<close>

text \<open>\<open>split\<close>: \<open>token_compress_on\<close> is false, so empty parts are left out.\<close>

function split_any :: "string \<Rightarrow> string \<Rightarrow> string list" where
  "split_any delims str =
     (let tok = takeWhile (\<lambda>c. c \<notin> set delims) str; rest = dropWhile (\<lambda>c. c \<notin> set delims) str
      in if rest = [] then (if str = [] then [] else [str])
         else (if tok = [] then [] else [tok]) @ split_any delims (tl rest))"
  by pat_completeness auto
termination
proof (relation "measure (\<lambda>(delims, str). length str)", goal_cases)
  case (2 delims str tok rest)
  then have "length (tl rest) < length rest" by simp
  moreover have "length rest \<le> length str" using 2(2) by (simp add: length_dropWhile_le)
  ultimately show ?case by simp
qed simp

definition pad_left :: "nat \<Rightarrow> string \<Rightarrow> string" where
  "pad_left n s = s @ replicate (n - length s) CHR '' ''"

definition newline :: string where "newline = [CHR 0x0A]"

section \<open>Options\<close>

datatype 'o cli_elem = Str string | Other 'o

record 'c cli_arg =
  cname :: string
  ctext :: string
  chelp :: string
  cfun :: "(string \<Rightarrow> 'c \<Rightarrow> bool \<times> 'c) option"      \<comment> \<open>the consumer, on the variables of the user\<close>
  cflag :: "nat option"

record 'c cli_state =
  cli_error :: string
  cli_opts :: "string set"
  cli_flags :: "nat set"
  cli_user :: 'c

definition arg_plain :: "string \<Rightarrow> string \<Rightarrow> 'c cli_arg" where
  "arg_plain nstr tstr = \<lparr>cname = nstr, ctext = tstr, chelp = [], cfun = None, cflag = None\<rparr>"

definition arg_flag :: "string \<Rightarrow> string \<Rightarrow> nat \<Rightarrow> 'c cli_arg" where
  "arg_flag nstr tstr flag = \<lparr>cname = nstr, ctext = tstr, chelp = [], cfun = None, cflag = Some flag\<rparr>"

definition arg_consumer :: "string \<Rightarrow> string \<Rightarrow> (string \<Rightarrow> 'c \<Rightarrow> bool \<times> 'c) \<Rightarrow> 'c cli_arg" where
  "arg_consumer nstr tstr f = \<lparr>cname = nstr, ctext = tstr, chelp = [], cfun = Some f, cflag = None\<rparr>"

definition arg_string :: "string \<Rightarrow> string \<Rightarrow> (string \<Rightarrow> 'c \<Rightarrow> 'c) \<Rightarrow> 'c cli_arg" where
  "arg_string nstr tstr store = arg_consumer nstr tstr (\<lambda>str u. (True, store str u))"

definition arg_atom :: "string \<Rightarrow> string \<Rightarrow> (string \<Rightarrow> 'c \<Rightarrow> 'c) \<Rightarrow> 'c cli_arg" where
  "arg_atom nstr tstr store = arg_consumer nstr tstr (\<lambda>str u. if length str \<le> 10 then (True, store str u) else (False, u))"

definition is_help :: "'c cli_arg \<Rightarrow> bool" where
  "is_help arg =
     (case split_any '','' (cname arg) of
        [] \<Rightarrow> False
      | s # ss \<Rightarrow> s = ''help'' \<or> list_ex (\<lambda>opt. list_ex (\<lambda>c. c \<in> set ''h?'') opt) ss)"

definition add_help :: "bool \<Rightarrow> 'c cli_arg list \<Rightarrow> 'c cli_arg list" where
  "add_help no_help xs =
     (if \<not> no_help \<and> \<not> list_ex is_help xs then xs @ [arg_plain ''help,h,?'' ''print this text''] else xs)"

definition help_item :: "string list \<Rightarrow> bool \<Rightarrow> string" where
  "help_item s has_fun =
     (case s of
        [l] \<Rightarrow> ''--'' @ l
      | l # c # cs \<Rightarrow> ''-'' @ c @ '' ['' @ concat (map (\<lambda>x. ''-'' @ x @ '','') cs) @ ''--'' @ l @ '']''
      | [] \<Rightarrow> []) @ (if has_fun then '' arg'' else [])"

text \<open>The tables map the texts to the index of the option.\<close>

type_synonym opt_table = "string \<rightharpoonup> nat"

fun register_shorts :: "nat \<Rightarrow> string list \<Rightarrow> opt_table \<Rightarrow> string + opt_table" where
  "register_shorts i [] shorts = Inr shorts"
| "register_shorts i (s # ss) shorts =
     (if length s \<noteq> 1 then Inl (''invalid short option name: '' @ s)
      else register_shorts i ss (shorts(''-'' @ s \<mapsto> i)))"

fun register_args :: "nat \<Rightarrow> 'c cli_arg list \<Rightarrow> opt_table \<Rightarrow> opt_table \<Rightarrow> string + ('c cli_arg list \<times> opt_table \<times> opt_table)" where
  "register_args i [] shorts longs = Inr ([], shorts, longs)"
| "register_args i (arg # args) shorts longs =
     (case split_any '','' (cname arg) of
        [] \<Rightarrow> Inl (''invalid option name: '' @ cname arg)
      | l # ss \<Rightarrow>
          (case register_shorts i ss shorts of
             Inl e \<Rightarrow> Inl e
           | Inr shorts \<Rightarrow>
               map_sum id (\<lambda>(args, shorts, longs). (arg\<lparr>chelp := chelp arg @ help_item (l # ss) (cfun arg \<noteq> None)\<rparr> # args, shorts, longs))
                 (register_args (i + 1) args shorts (longs(''--'' @ l \<mapsto> i)))))"

definition default_help :: "'c cli_arg list \<Rightarrow> string" where
  "default_help xs =
     (let name_width = foldl (\<lambda>tmp arg. max tmp (length (chelp arg))) 0 xs
      in ''Allowed options:'' @ newline
         @ concat (map (\<lambda>ca. ''  '' @ pad_left name_width (chelp ca) @ ''  : '' @ ctext ca @ newline) xs))"

section \<open>The handlers\<close>

definition insert_opt_name :: "'c cli_arg \<Rightarrow> 'c cli_state \<Rightarrow> 'c cli_state" where
  "insert_opt_name arg st = st\<lparr>cli_opts := insert (takeWhile (\<lambda>c. c \<noteq> CHR '','') (cname arg)) (cli_opts st)\<rparr>"

definition set_flag :: "'c cli_arg \<Rightarrow> 'c cli_state \<Rightarrow> 'c cli_state" where
  "set_flag arg st = (case cflag arg of None \<Rightarrow> st | Some i \<Rightarrow> st\<lparr>cli_flags := insert i (cli_flags st)\<rparr>)"

definition set_error :: "string \<Rightarrow> 'c cli_state \<Rightarrow> 'c cli_state" where "set_error e st = st\<lparr>cli_error := e\<rparr>"

definition call_consumer :: "(string \<Rightarrow> 'c \<Rightarrow> bool \<times> 'c) \<Rightarrow> string \<Rightarrow> 'c cli_state \<Rightarrow> bool \<times> 'c cli_state" where
  "call_consumer f v st = (case f v (cli_user st) of (ok, u) \<Rightarrow> (ok, st\<lparr>cli_user := u\<rparr>))"

text \<open>A value for an option: taken, or an error.\<close>

definition consume_value :: "'c cli_arg \<Rightarrow> (string \<Rightarrow> 'c \<Rightarrow> bool \<times> 'c) \<Rightarrow> string \<Rightarrow> string \<Rightarrow> 'c cli_state \<Rightarrow> bool \<times> 'c cli_state" where
  "consume_value arg f v message st =
     (case call_consumer f v st of
        (False, st) \<Rightarrow> (False, set_error message st)
      | (True, st) \<Rightarrow> (True, insert_opt_name arg st))"

definition one_arg :: "'c cli_arg list \<Rightarrow> opt_table \<Rightarrow> opt_table \<Rightarrow> string \<Rightarrow> 'c cli_state \<Rightarrow> bool \<times> 'c cli_state" where
  "one_arg args shorts longs arg st =
     (if arg = [] \<or> hd arg \<noteq> CHR ''-'' then (False, st)
      else case shorts (take 2 arg) of
        Some i \<Rightarrow>
          (case cfun (args ! i) of
             Some f \<Rightarrow>
               if length arg > 2
               then consume_value (args ! i) f (drop 2 arg) (''invalid value for '' @ cname (args ! i) @ '': '' @ arg) st
               else (False, st)
           | None \<Rightarrow> (True, insert_opt_name (args ! i) (set_flag (args ! i) st)))
      | None \<Rightarrow>
          let key = takeWhile (\<lambda>c. c \<noteq> CHR ''='') arg; rest = dropWhile (\<lambda>c. c \<noteq> CHR ''='') arg
          in case longs key of
               Some j \<Rightarrow>
                 (case cfun (args ! j) of
                    Some f \<Rightarrow>
                      if rest = [] then (False, set_error (''missing argument to '' @ arg) st)
                      else consume_value (args ! j) f (tl rest) (''invalid value for '' @ cname (args ! j) @ '': '' @ arg) st
                  | None \<Rightarrow> (True, insert_opt_name (args ! j) (set_flag (args ! j) st)))
             | None \<Rightarrow> (False, set_error (''unknown command line option: '' @ arg) st))"

definition two_args :: "'c cli_arg list \<Rightarrow> opt_table \<Rightarrow> string \<Rightarrow> string \<Rightarrow> 'c cli_state \<Rightarrow> bool \<times> 'c cli_state" where
  "two_args args shorts arg1 arg2 st =
     (if length arg1 < 2 \<or> arg1 ! 0 \<noteq> CHR ''-'' \<or> arg1 ! 1 = CHR ''-'' then (False, st)
      else case shorts (take 2 arg1) of
        Some i \<Rightarrow>
          (case cfun (args ! i) of
             None \<Rightarrow> (False, st)
           | Some f \<Rightarrow>
               if length arg1 > 2 then (False, st)
               else consume_value (args ! i) f arg2 (''invalid value for option '' @ cname (args ! i) @ '': '' @ arg2) st)
      | None \<Rightarrow> (False, set_error (''unknown command line option: '' @ arg1) st))"

fun cli_handler :: "'c cli_arg list \<Rightarrow> opt_table \<Rightarrow> opt_table \<Rightarrow> 'c cli_state \<Rightarrow> 'o cli_elem list \<Rightarrow> bool \<times> 'c cli_state" where
  "cli_handler args shorts longs st [Str arg] = one_arg args shorts longs arg st"
| "cli_handler args shorts longs st [Str arg1, Str arg2] = two_args args shorts arg1 arg2 st"
| "cli_handler args shorts longs st xs = (False, st)"

record ('o, 'c) cli_res =
  remainder :: "'o cli_elem message"
  res_helptext :: string
  res_state :: "'c cli_state"

definition extract_opts ::
    "'c cli_arg list \<Rightarrow> ('c cli_arg list \<Rightarrow> string) option \<Rightarrow> bool \<Rightarrow> 'c \<Rightarrow> 'o cli_elem message \<Rightarrow> ('o, 'c) cli_res" where
  "extract_opts xs f no_help user m =
     (let st = \<lparr>cli_error = [], cli_opts = {}, cli_flags = {}, cli_user = user\<rparr>
      in case register_args 0 (add_help no_help xs) Map.empty Map.empty of
           Inl e \<Rightarrow> \<lparr>remainder = m, res_helptext = [], res_state = set_error e st\<rparr>
         | Inr (args, shorts, longs) \<Rightarrow>
             let helpstr = (case f of Some f \<Rightarrow> f args | None \<Rightarrow> default_help args)
             in case msg_extract (on_elems (cli_handler args shorts longs)) st m of
                  (res, st) \<Rightarrow> \<lparr>remainder = res, res_helptext = helpstr, res_state = st\<rparr>)"

section \<open>Command lines\<close>

text \<open>The parts of a command line, by the index of their option, and how they are written.\<close>

datatype cli_item =
    Long_value nat string string | Long_flag nat string
  | Short_joined nat char string | Short_value nat char string | Short_flag nat char
  | Positional string

fun item_ok :: "'c cli_arg list \<Rightarrow> opt_table \<Rightarrow> opt_table \<Rightarrow> cli_item \<Rightarrow> bool" where
  "item_ok args shorts longs (Long_value i l v) \<longleftrightarrow> longs (''--'' @ l) = Some i \<and> CHR ''='' \<notin> set l
     \<and> (\<exists>f. cfun (args ! i) = Some f \<and> (\<forall>u. fst (f v u)))"
| "item_ok args shorts longs (Long_flag i l) \<longleftrightarrow> longs (''--'' @ l) = Some i \<and> CHR ''='' \<notin> set l \<and> cfun (args ! i) = None"
| "item_ok args shorts longs (Short_joined i c v) \<longleftrightarrow> shorts [CHR ''-'', c] = Some i \<and> c \<noteq> CHR ''-'' \<and> v \<noteq> []
     \<and> (\<exists>f. cfun (args ! i) = Some f \<and> (\<forall>u. fst (f v u)))"
| "item_ok args shorts longs (Short_value i c v) \<longleftrightarrow> shorts [CHR ''-'', c] = Some i \<and> c \<noteq> CHR ''-''
     \<and> (\<exists>f. cfun (args ! i) = Some f \<and> (\<forall>u. fst (f v u)))"
| "item_ok args shorts longs (Short_flag i c) \<longleftrightarrow> shorts [CHR ''-'', c] = Some i \<and> c \<noteq> CHR ''-'' \<and> cfun (args ! i) = None"
| "item_ok args shorts longs (Positional s) \<longleftrightarrow> s = [] \<or> hd s \<noteq> CHR ''-''"

fun write_item :: "cli_item \<Rightarrow> 'o cli_elem list" where
  "write_item (Long_value i l v) = [Str (''--'' @ l @ ''='' @ v)]"
| "write_item (Long_flag i l) = [Str (''--'' @ l)]"
| "write_item (Short_joined i c v) = [Str ([CHR ''-'', c] @ v)]"
| "write_item (Short_value i c v) = [Str [CHR ''-'', c], Str v]"
| "write_item (Short_flag i c) = [Str [CHR ''-'', c]]"
| "write_item (Positional s) = [Str s]"

definition give_value :: "'c cli_arg list \<Rightarrow> nat \<Rightarrow> string \<Rightarrow> 'c cli_state \<Rightarrow> 'c cli_state" where
  "give_value args i v st = insert_opt_name (args ! i) (st\<lparr>cli_user := snd (the (cfun (args ! i)) v (cli_user st))\<rparr>)"

fun item_effect :: "'c cli_arg list \<Rightarrow> cli_item \<Rightarrow> 'c cli_state \<Rightarrow> 'c cli_state" where
  "item_effect args (Long_value i l v) st = give_value args i v st"
| "item_effect args (Short_joined i c v) st = give_value args i v st"
| "item_effect args (Short_value i c v) st = give_value args i v st"
| "item_effect args (Long_flag i l) st = insert_opt_name (args ! i) (set_flag (args ! i) st)"
| "item_effect args (Short_flag i c) st = insert_opt_name (args ! i) (set_flag (args ! i) st)"
| "item_effect args (Positional s) st = st"

fun positional :: "cli_item \<Rightarrow> 'o cli_elem list" where
  "positional (Positional s) = [Str s]"
| "positional _ = []"

end
