(* ===== verification/CliProperties.thy ===== *)
theory CliProperties
  imports CliOptions
begin

text \<open>
  Command lines are read as they are written: each option goes to its consumer in order, the rest stays.
\<close>

section \<open>One step of the extraction\<close>

text \<open>Slices of more than two elements are never taken.\<close>

lemma long_slice:
  "length es > 2 \<Longrightarrow> cli_handler args shorts longs st es = (False, st)"
  by (cases "(args, shorts, longs, st, es)" rule: cli_handler.cases) auto

lemma extract_short:
  "Suc (Suc 0) \<le> n \<Longrightarrow> i + n \<le> length xs \<Longrightarrow>
     list_extract (cli_handler args shorts longs) st xs i n = list_extract (cli_handler args shorts longs) st xs i (Suc (Suc 0))"
proof (induction n)
  case (Suc n)
  show ?case
  proof (cases "n = Suc 0")
    case False
    then have "length (take (Suc n) (drop i xs)) > 2" using Suc.prems by (simp add: not_less_eq_eq)
    then have "cli_handler args shorts longs st (take (Suc n) (drop i xs)) = (False, st)" by (rule long_slice)
    then show ?thesis using Suc False by (simp add: list_extract.simps [of _ st xs i "Suc n"])
  qed simp
qed simp

lemma extract_at_end: "list_extract g st pre (length pre) n = (pre, st)"
  by (simp add: list_extract.simps)

lemma try_two:
  assumes "\<And>b es'. es = Str b # es' \<Longrightarrow> two_args args shorts a b st = (False, st)"
  shows "list_extract (cli_handler args shorts longs) st (pre @ Str a # es) (length pre) (Suc (length es))
    = list_extract (cli_handler args shorts longs) st (pre @ Str a # es) (length pre) (Suc 0)"
proof (cases es)
  case (Cons b es')
  let ?h = "cli_handler args shorts longs"
  have "?h st [Str a, b] = (False, st)" using assms Cons by (cases b) auto
  then have "list_extract ?h st (pre @ Str a # es) (length pre) (Suc (Suc 0)) = list_extract ?h st (pre @ Str a # es) (length pre) (Suc 0)"
    by (subst list_extract.simps) (simp add: Cons)
  moreover have "list_extract ?h st (pre @ Str a # es) (length pre) (Suc (length es))
      = list_extract ?h st (pre @ Str a # es) (length pre) (Suc (Suc 0))"
    by (rule extract_short) (simp_all add: Cons)
  ultimately show ?thesis by simp
qed simp

text \<open>An element that is taken alone.\<close>

lemma extract_one:
  assumes "one_arg args shorts longs a st = (True, st')"
    and "\<And>b es'. es = Str b # es' \<Longrightarrow> two_args args shorts a b st = (False, st)"
  shows "list_extract (cli_handler args shorts longs) st (pre @ Str a # es) (length pre) (Suc (length es))
    = list_extract (cli_handler args shorts longs) st' (pre @ es) (length pre) (length es)"
  by (rule trans [OF try_two [OF assms(2)]]) (simp, subst list_extract.simps, simp add: assms(1))

text \<open>An element that is skipped stays in front.\<close>

lemma extract_skip:
  assumes "one_arg args shorts longs a st = (False, st)" and "\<And>b. two_args args shorts a b st = (False, st)"
  shows "list_extract (cli_handler args shorts longs) st (pre @ Str a # es) (length pre) (Suc (length es))
    = list_extract (cli_handler args shorts longs) st ((pre @ [Str a]) @ es) (length (pre @ [Str a])) (length es)"
proof -
  let ?h = "cli_handler args shorts longs"
  have "list_extract ?h st (pre @ Str a # es) (length pre) (Suc 0) = list_extract ?h st (pre @ Str a # es) (length pre) 0"
    by (subst list_extract.simps) (simp add: assms(1))
  also have "\<dots> = list_extract ?h st ((pre @ [Str a]) @ es) (length (pre @ [Str a])) (length es)"
    by (subst list_extract.simps) simp
  finally show ?thesis by (rule trans [OF try_two [OF assms(2)]])
qed

text \<open>Two elements that are taken together.\<close>

lemma extract_two:
  assumes "two_args args shorts a b st = (True, st')"
  shows "list_extract (cli_handler args shorts longs) st (pre @ Str a # Str b # es) (length pre) (Suc (Suc (length es)))
    = list_extract (cli_handler args shorts longs) st' (pre @ es) (length pre) (length es)"
proof -
  let ?h = "cli_handler args shorts longs"
  have "list_extract ?h st (pre @ Str a # Str b # es) (length pre) (Suc (Suc (length es)))
      = list_extract ?h st (pre @ Str a # Str b # es) (length pre) (Suc (Suc 0))"
    by (rule extract_short) simp_all
  also have "\<dots> = list_extract ?h st' (pre @ es) (length pre) (length es)"
    by (subst list_extract.simps) (simp add: assms)
  finally show ?thesis .
qed

section \<open>The items\<close>

lemma consume_ok:
  assumes "cfun arg = Some f" and "\<forall>u. fst (f v u)"
  shows "consume_value arg f v message st = (True, insert_opt_name arg (st\<lparr>cli_user := snd (the (cfun arg) v (cli_user st))\<rparr>))"
  using assms by (simp add: consume_value_def call_consumer_def split: prod.split bool.split) (metis fst_conv)

lemma until_eq:
  assumes "CHR ''='' \<notin> set l"
  shows "takeWhile (\<lambda>c. c \<noteq> CHR ''='') (l @ CHR ''='' # v) = l" "dropWhile (\<lambda>c. c \<noteq> CHR ''='') (l @ CHR ''='' # v) = CHR ''='' # v"
    "takeWhile (\<lambda>c. c \<noteq> CHR ''='') l = l" "dropWhile (\<lambda>c. c \<noteq> CHR ''='') l = []"
  using assms by (induction l) auto

text \<open>What the extraction does to an item in front of others.\<close>

definition item_taken :: "'c cli_arg list \<Rightarrow> opt_table \<Rightarrow> opt_table \<Rightarrow> cli_item \<Rightarrow> 'c cli_state \<Rightarrow> 'o cli_elem list \<Rightarrow> 'o cli_elem list \<Rightarrow> bool" where
  "item_taken args shorts longs it st pre es \<longleftrightarrow>
     list_extract (cli_handler args shorts longs) st (pre @ write_item it @ es) (length pre) (length (write_item it @ es))
     = list_extract (cli_handler args shorts longs) (item_effect args it st) ((pre @ positional it) @ es)
         (length (pre @ positional it)) (length es)"

lemma item_one:
  assumes "write_item it = [Str a :: 'o cli_elem]" "positional it = ([] :: 'o cli_elem list)"
    and "one_arg args shorts longs a st = (True, item_effect args it st)" "\<And>b. two_args args shorts a b st = (False, st)"
  shows "item_taken args shorts longs it st pre (es :: 'o cli_elem list)"
  by (simp add: item_taken_def assms(1,2) extract_one [OF assms(3,4)])

lemma two_args_long: "two_args args shorts (CHR ''-'' # CHR ''-'' # l) b st = (False, st)"
  by (simp add: two_args_def)

lemma item_step:
  assumes ok: "item_ok args shorts longs it" and none: "shorts ''--'' = None"
  shows "item_taken args shorts longs it st pre es"
proof (cases it)
  case (Long_value i l v)
  have "one_arg args shorts longs (CHR ''-'' # CHR ''-'' # l @ CHR ''='' # v) st = (True, item_effect args it st)"
    using ok none Long_value by (auto simp: one_arg_def consume_ok give_value_def until_eq numeral_2_eq_2 Let_def)
  then show ?thesis using Long_value two_args_long by (intro item_one) simp_all
next
  case (Long_flag i l)
  have "one_arg args shorts longs (CHR ''-'' # CHR ''-'' # l) st = (True, item_effect args it st)"
    using ok none Long_flag by (auto simp: one_arg_def until_eq numeral_2_eq_2 Let_def)
  then show ?thesis using Long_flag two_args_long by (intro item_one) simp_all
next
  case (Short_joined i c v)
  have "one_arg args shorts longs (CHR ''-'' # c # v) st = (True, item_effect args it st)"
    using ok Short_joined by (auto simp: one_arg_def consume_ok give_value_def numeral_2_eq_2)
  moreover have "two_args args shorts (CHR ''-'' # c # v) b st = (False, st)" for b
    using ok Short_joined by (auto simp: two_args_def numeral_2_eq_2)
  ultimately show ?thesis using Short_joined by (intro item_one) simp_all
next
  case (Short_value i c v)
  have "two_args args shorts [CHR ''-'', c] v st = (True, item_effect args it st)"
    using ok Short_value by (auto simp: two_args_def consume_ok give_value_def)
  from extract_two [OF this] show ?thesis using Short_value by (simp add: item_taken_def)
next
  case (Short_flag i c)
  have "one_arg args shorts longs [CHR ''-'', c] st = (True, item_effect args it st)"
    using ok Short_flag by (auto simp: one_arg_def)
  moreover have "two_args args shorts [CHR ''-'', c] b st = (False, st)" for b
    using ok Short_flag by (auto simp: two_args_def)
  ultimately show ?thesis using Short_flag by (intro item_one) simp_all
next
  case (Positional s)
  have "one_arg args shorts longs s st = (False, st)" "\<And>b. two_args args shorts s b st = (False, st)"
    using ok Positional by (cases s; simp add: one_arg_def two_args_def)+
  from extract_skip [OF this] show ?thesis using Positional by (simp add: item_taken_def)
qed

lemma items_extract:
  fixes pre :: "'o cli_elem list"
  assumes "shorts ''--'' = None"
  shows "list_all (item_ok args shorts longs) its \<Longrightarrow>
    list_extract (cli_handler args shorts longs) st (pre @ concat (map write_item its)) (length pre)
        (length (concat (map write_item its) :: 'o cli_elem list))
      = (pre @ concat (map positional its), fold (item_effect args) its st)"
proof (induction its arbitrary: st pre)
  case (Cons it its)
  have "item_taken args shorts longs it st pre (concat (map write_item its))"
    by (rule item_step) (use Cons.prems assms in simp_all)
  then show ?case using Cons.IH [of "item_effect args it st" "pre @ positional it"] Cons.prems by (simp add: item_taken_def)
qed (simp add: extract_at_end)

section \<open>Properties\<close>

text \<open>C27: a command line that is written from options and other arguments, in any order and in every form an option has, is
  taken apart: the values go to the consumers of their options in order, flags are set, the names of the options are
  in the result, what remains are the other arguments in order, and there is no error.\<close>

theorem cli_round_trip:
  assumes "register_args 0 (add_help no_help xs) Map.empty Map.empty = Inr (args, shorts, longs)"
    and "shorts ''--'' = None" and "list_all (item_ok args shorts longs) its"
    and "msg_ok m" and "msg_elems m = concat (map write_item its)"
  shows "msg_elems (remainder (extract_opts xs f no_help user m)) = concat (map positional its)
    \<and> res_state (extract_opts xs f no_help user m)
        = fold (item_effect args) its \<lparr>cli_error = [], cli_opts = {}, cli_flags = {}, cli_user = user\<rparr>
    \<and> cli_error (res_state (extract_opts xs f no_help user m)) = []"
proof -
  let ?st = "\<lparr>cli_error = [], cli_opts = {}, cli_flags = {}, cli_user = user\<rparr>" and ?h = "cli_handler args shorts longs"
  have e: "list_extract ?h ?st (msg_elems m) 0 (msg_size m) = (concat (map positional its), fold (item_effect args) its ?st)"
    unfolding length_msg_elems [symmetric] assms(5) using items_extract [where pre = "[]", OF assms(2,3), of ?st] by simp
  have x: "msg_elems (fst (msg_extract (on_elems ?h) ?st m)) = concat (map positional its)
      \<and> snd (msg_extract (on_elems ?h) ?st m) = fold (item_effect args) its ?st"
    using assms(4) extract_loop_list [of "the m" "on_elems ?h" ?h ?st 0 "data_size (the m)"] e
    by (cases m) (simp_all add: msg_extract_def msg_ok_def msg_elems_def list_extract.simps [of ?h _ "[]"])
  have keep: "cli_error (item_effect args it st) = cli_error st" for it st
    by (cases it) (simp_all add: give_value_def insert_opt_name_def set_flag_def split: option.split)
  have "cli_error (fold (item_effect args) its st) = cli_error st" for st
    by (induction its arbitrary: st) (simp_all add: keep)
  moreover obtain res st where "msg_extract (on_elems ?h) ?st m = (res, st)" by fastforce
  ultimately show ?thesis using x assms(1) by (simp add: extract_opts_def Let_def)
qed

definition example_args :: "(string \<times> string list) cli_arg list" where
  "example_args = [arg_string ''port,p'' ''set port'' (\<lambda>s (x, ys). (s, ys)), arg_string ''word,w'' ''add word'' (\<lambda>s (x, ys). (x, ys @ [s])),
     arg_flag ''verbose,v'' ''more'' 0]"

definition example_items :: "cli_item list" where
  "example_items = [Short_value 0 CHR ''p'' ''80'', Positional ''in'', Long_value 1 ''word'' ''a=b'', Short_flag 2 CHR ''v'',
     Short_joined 1 CHR ''w'' ''c'', Positional ''out'']"

lemma example_register:
  "register_args 0 (add_help False example_args) Map.empty Map.empty =
     Inr ([(example_args ! 0)\<lparr>chelp := ''-p [--port] arg''\<rparr>, (example_args ! 1)\<lparr>chelp := ''-w [--word] arg''\<rparr>,
           (example_args ! 2)\<lparr>chelp := ''-v [--verbose]''\<rparr>, (arg_plain ''help,h,?'' ''print this text'')\<lparr>chelp := ''-h [-?,--help]''\<rparr>],
          [''-p'' \<mapsto> 0, ''-w'' \<mapsto> 1, ''-v'' \<mapsto> 2, ''-h'' \<mapsto> 3, ''-?'' \<mapsto> 3],
          [''--port'' \<mapsto> 0, ''--word'' \<mapsto> 1, ''--verbose'' \<mapsto> 2, ''--help'' \<mapsto> 3])"
  by (simp add: example_args_def add_help_def is_help_def arg_string_def arg_consumer_def arg_flag_def arg_plain_def help_item_def
      numeral_eq_Suc Let_def)

definition example_line :: "unit cli_elem message" where
  "example_line = Some (Tuple (concat (map write_item example_items)))"

theorem cli_round_trip_witness:
  "msg_elems (remainder (extract_opts example_args None False ([], []) example_line)) = [Str ''in'', Str ''out'']
    \<and> cli_user (res_state (extract_opts example_args None False ([], []) example_line)) = (''80'', [''a=b'', ''c''])
    \<and> cli_opts (res_state (extract_opts example_args None False ([], []) example_line)) = {''port'', ''word'', ''verbose''}"
proof -
  note r = example_register
  let ?args = "[(example_args ! 0)\<lparr>chelp := ''-p [--port] arg''\<rparr>, (example_args ! 1)\<lparr>chelp := ''-w [--word] arg''\<rparr>,
           (example_args ! 2)\<lparr>chelp := ''-v [--verbose]''\<rparr>, (arg_plain ''help,h,?'' ''print this text'')\<lparr>chelp := ''-h [-?,--help]''\<rparr>]"
  note ds = example_items_def example_args_def arg_string_def arg_consumer_def arg_flag_def arg_plain_def numeral_eq_Suc
  have "list_all (item_ok ?args [''-p'' \<mapsto> 0, ''-w'' \<mapsto> 1, ''-v'' \<mapsto> 2, ''-h'' \<mapsto> 3, ''-?'' \<mapsto> 3]
      [''--port'' \<mapsto> 0, ''--word'' \<mapsto> 1, ''--verbose'' \<mapsto> 2, ''--help'' \<mapsto> 3]) example_items"
    by (simp add: ds)
  note w = cli_round_trip [OF r _ this, of example_line None "([], [])"]
  have "fold (item_effect ?args) example_items \<lparr>cli_error = [], cli_opts = {}, cli_flags = {}, cli_user = ([], [])\<rparr>
      = \<lparr>cli_error = [], cli_opts = {''port'', ''word'', ''verbose''}, cli_flags = {0}, cli_user = (''80'', [''a=b'', ''c''])\<rparr>"
    by (simp add: ds give_value_def insert_opt_name_def set_flag_def insert_commute)
  moreover have "concat (map positional example_items) = [Str ''in'', Str ''out'']" by (simp add: example_items_def)
  moreover have "msg_ok example_line" "msg_elems example_line = concat (map write_item example_items)"
    by (simp_all add: example_line_def msg_ok_def msg_elems_def)
  ultimately show ?thesis using w by simp
qed

text \<open>What is not noticed: a short option at the end that lacks its value is left without an error, and the rest of a
  short option that takes no value is dropped.\<close>

lemma missing_value_unnoticed:
  assumes "shorts [CHR ''-'', c] = Some i" and "cfun (args ! i) \<noteq> None"
  shows "one_arg args shorts longs [CHR ''-'', c] st = (False, st)"
  using assms by (auto simp: one_arg_def)

lemma flag_rest_dropped:
  assumes "shorts [CHR ''-'', c] = Some i" and "cfun (args ! i) = None"
  shows "one_arg args shorts longs (CHR ''-'' # c # v) st = (True, insert_opt_name (args ! i) (set_flag (args ! i) st))"
  using assms by (simp add: one_arg_def numeral_2_eq_2)

end
