(* ===== verification/Multiplexer.thy ===== *)
theory Multiplexer
  imports Prelude
begin

text \<open>
  The event queue of the multiplexer (libcaf_io/src/default_multiplexer.cpp and
  caf/io/network/default_multiplexer.hpp): handlers ask for read and write events, the requests are collected in a
  sorted queue and handed to the operating system after each round, to epoll or to poll. Calls of \<open>epoll_ctl\<close> are a
  log, their results a parameter. A handler is named by its socket. The masks have their values for epoll on Linux (with
  poll the input mask has a second bit).
\<close>

section \<open>Masks\<close>

datatype operation = Op_read | Op_write | Propagate_error

definition input_mask :: u32 where "input_mask = 0x001"
definition output_mask :: u32 where "output_mask = 0x004"
definition error_mask :: u32 where "error_mask = 0x2018"

fun add_flag :: "operation \<Rightarrow> u32 \<Rightarrow> u32" where
  "add_flag Op_read bf = bf OR input_mask"
| "add_flag Op_write bf = bf OR output_mask"
| "add_flag Propagate_error bf = 0"

fun del_flag :: "operation \<Rightarrow> u32 \<Rightarrow> u32" where
  "del_flag Op_read bf = bf AND NOT input_mask"
| "del_flag Op_write bf = bf AND NOT output_mask"
| "del_flag Propagate_error bf = 0"

section \<open>The queue of events\<close>

text \<open>An event without handler is one of the internal pipe.\<close>

record mux_event =
  efd :: int
  emask :: u32
  eptr :: bool

record mux =
  eventbf :: "int \<Rightarrow> u32"
  events :: "mux_event list"
  pipe_in :: int

definition old_mask :: "int \<Rightarrow> bool \<Rightarrow> 'a mux_scheme \<Rightarrow> u32" where
  "old_mask fd ptr s = (if ptr then eventbf s fd else input_mask)"

definition insert_event ::
    "(operation \<Rightarrow> u32 \<Rightarrow> u32) \<Rightarrow> operation \<Rightarrow> int \<Rightarrow> bool \<Rightarrow> mux_event list \<Rightarrow> mux_event list \<Rightarrow> 'a mux_scheme \<Rightarrow> 'a mux_scheme" where
  "insert_event f op fd ptr pre post s =
     (let old_bf = old_mask fd ptr s; bf = f op old_bf
      in if bf = old_bf then s else s\<lparr>events := pre @ \<lparr>efd = fd, emask = bf, eptr = ptr\<rparr> # post\<rparr>)"

definition new_event ::
    "(operation \<Rightarrow> u32 \<Rightarrow> u32) \<Rightarrow> operation \<Rightarrow> int \<Rightarrow> bool \<Rightarrow> 'a mux_scheme \<Rightarrow> 'a mux_scheme" where
  "new_event f op fd ptr s =
     (let old_bf = old_mask fd ptr s;
          pre = takeWhile (\<lambda>e. efd e < fd) (events s);
          post = dropWhile (\<lambda>e. efd e < fd) (events s)
      in case post of
           [] \<Rightarrow> insert_event f op fd ptr pre post s
         | i # rest \<Rightarrow>
             if efd i = fd
             then let bf = emask i; m = f op bf
                  in if m = bf then s
                     else if m = old_bf then s\<lparr>events := pre @ rest\<rparr>
                     else s\<lparr>events := pre @ i\<lparr>emask := m\<rparr> # rest\<rparr>
             else insert_event f op fd ptr pre post s)"

definition mux_add :: "operation \<Rightarrow> int \<Rightarrow> 'a mux_scheme \<Rightarrow> 'a mux_scheme" where
  "mux_add op fd s = new_event add_flag op fd True s"

definition mux_del :: "operation \<Rightarrow> int \<Rightarrow> 'a mux_scheme \<Rightarrow> 'a mux_scheme" where
  "mux_del op fd s = new_event del_flag op fd True s"

definition close_pipe :: "'a mux_scheme \<Rightarrow> 'a mux_scheme" where
  "close_pipe s = new_event del_flag Op_read (pipe_in s) False s"

definition set_eventbf :: "int \<Rightarrow> u32 \<Rightarrow> 'a mux_scheme \<Rightarrow> 'a mux_scheme" where
  "set_eventbf fd m s = s\<lparr>eventbf := (eventbf s)(fd := m)\<rparr>"

text \<open>The calls of \<open>removed_from_loop\<close> for an mux_event, from the mask before it.\<close>

definition removals :: "mux_event \<Rightarrow> u32 \<Rightarrow> (int \<times> operation) list" where
  "removals e old =
     (if old AND input_mask \<noteq> 0 \<and> emask e AND input_mask = 0 then [(efd e, Op_read)] else [])
     @ (if old AND output_mask \<noteq> 0 \<and> emask e AND output_mask = 0 then [(efd e, Op_write)] else [])"

section \<open>epoll\<close>

datatype ctl_op = Ctl_add | Ctl_mod | Ctl_del

datatype ctl_error = Eexist | Enoent | Other_error

type_synonym ctl_call = "ctl_op \<times> int \<times> u32"

record epoll_mux = mux +
  shadow :: int
  ctl_log :: "ctl_call list"

definition epoll_start :: "int \<Rightarrow> epoll_mux" where
  "epoll_start p = \<lparr>eventbf = \<lambda>_. 0, events = [], pipe_in = p, shadow = 1, ctl_log = [(Ctl_add, p, input_mask)]\<rparr>"

text \<open>The result of a call may depend on all calls before it. \<open>None\<close> is a crash of the program.\<close>

definition epoll_handle ::
    "(ctl_call list \<Rightarrow> ctl_call \<Rightarrow> ctl_error option) \<Rightarrow> mux_event \<Rightarrow> epoll_mux \<Rightarrow> ((int \<times> operation) list \<times> epoll_mux) option" where
  "epoll_handle ctl e s =
     (if eptr e \<and> eventbf s (efd e) = emask e then Some ([], s)
      else
        let old = old_mask (efd e) (eptr e) s;
            s = (if eptr e then set_eventbf (efd e) (emask e) s else s);
            (op, n) = (if emask e = 0 then (Ctl_del, -1) else if old = 0 then (Ctl_add, 1) else (Ctl_mod, 0));
            call = (op, efd e, emask e);
            r = ctl (ctl_log s) call;
            s = s\<lparr>shadow := shadow s + n, ctl_log := ctl_log s @ [call]\<rparr>;
            gone = (if eptr e then removals e old else [])
        in case r of
             None \<Rightarrow> Some (gone, s)
           | Some Eexist \<Rightarrow> Some (gone, s\<lparr>shadow := shadow s - 1\<rparr>)
           | Some Enoent \<Rightarrow> Some (gone, if emask e = 0 then s\<lparr>shadow := shadow s + 1\<rparr> else s)
           | Some Other_error \<Rightarrow> None)"

section \<open>poll\<close>

record poll_mux = mux +
  pollset :: "(int \<times> u32) list"
  shadows :: "int option list"

definition poll_start :: "int \<Rightarrow> poll_mux" where
  "poll_start p = \<lparr>eventbf = \<lambda>_. 0, events = [], pipe_in = p, pollset = [(p, input_mask)], shadows = [Some p]\<rparr>"

definition poll_handle :: "mux_event \<Rightarrow> poll_mux \<Rightarrow> (int \<times> operation) list \<times> poll_mux" where
  "poll_handle e s =
     (let i = length (takeWhile (\<lambda>p. fst p < efd e) (pollset s));
          old = (if eptr e then eventbf s (efd e) else 0);
          new_element = (efd e, emask e);
          ptr = (if eptr e then Some (efd e) else None);
          s = (if eptr e then set_eventbf (efd e) (emask e) s else s)
      in if i = length (pollset s)
         then ([], if emask e \<noteq> 0 then s\<lparr>pollset := pollset s @ [new_element], shadows := shadows s @ [ptr]\<rparr> else s)
         else if fst (pollset s ! i) = efd e
         then (if eptr e then removals e old else [],
               if emask e = 0
               then s\<lparr>pollset := take i (pollset s) @ drop (i + 1) (pollset s), shadows := take i (shadows s) @ drop (i + 1) (shadows s)\<rparr>
               else s\<lparr>pollset := (pollset s)[i := new_element]\<rparr>)
         else ([], s\<lparr>pollset := take i (pollset s) @ new_element # drop i (pollset s),
                     shadows := take i (shadows s) @ ptr # drop i (shadows s)\<rparr>))"

text \<open>After each round the events are handled in order by one of the two, then the queue is cleared.\<close>

primrec handle_all ::
    "(mux_event \<Rightarrow> 'a mux_scheme \<Rightarrow> ((int \<times> operation) list \<times> 'a mux_scheme) option) \<Rightarrow> mux_event list \<Rightarrow> 'a mux_scheme
     \<Rightarrow> ((int \<times> operation) list \<times> 'a mux_scheme) option" where
  "handle_all handle [] s = Some ([], s\<lparr>events := []\<rparr>)"
| "handle_all handle (e # es) s =
     Option.bind (handle e s) (\<lambda>(gone, s).
       Option.bind (handle_all handle es s) (\<lambda>(gone', s). Some (gone @ gone', s)))"

text \<open>What handlers and the destruction of the supervisor ask for in a round.\<close>

datatype mux_request = Add operation int | Del operation int | Close_pipe

fun mux_ask :: "mux_request \<Rightarrow> 'a mux_scheme \<Rightarrow> 'a mux_scheme" where
  "mux_ask (Add op fd) s = mux_add op fd s"
| "mux_ask (Del op fd) s = mux_del op fd s"
| "mux_ask Close_pipe s = close_pipe s"

primrec mux_rounds ::
    "(mux_event \<Rightarrow> 'a mux_scheme \<Rightarrow> ((int \<times> operation) list \<times> 'a mux_scheme) option) \<Rightarrow> mux_request list list \<Rightarrow> 'a mux_scheme
     \<Rightarrow> ((int \<times> operation) list list \<times> 'a mux_scheme) option" where
  "mux_rounds handle [] s = Some ([], s)"
| "mux_rounds handle (rs # rss) s =
     (let s = fold mux_ask rs s
      in Option.bind (handle_all handle (events s) s) (\<lambda>(gone, s).
           Option.bind (mux_rounds handle rss s) (\<lambda>(gones, s). Some (gone # gones, s))))"

end
