(* ===== verification/MuxProperties.thy ===== *)
theory MuxProperties
  imports Multiplexer
begin

text \<open>
  The queue of events computes, for each socket, the mask that all requests so far ask for; both backends register
  exactly these masks after each round. \<open>interest\<close> is the contract of a backend.
\<close>

section \<open>Masks\<close>

lemma io_mask_bits:
  fixes m :: u32
  shows "m AND input_mask \<noteq> 0 \<longleftrightarrow> bit m 0" "m AND output_mask \<noteq> 0 \<longleftrightarrow> bit m 2"
  by (auto simp: input_mask_def output_mask_def and_exp_eq_0_iff_not_bit [of m 0, simplified] and_exp_eq_0_iff_not_bit [of m 2, simplified])

lemma io_flag_bits:
  "bit (add_flag Op_read m) 0" "bit (add_flag Op_read m) 2 = bit m 2" "bit (add_flag Op_write m) 2"
  "bit (add_flag Op_write m) 0 = bit m 0" "\<not> bit (del_flag Op_read m) 0" "bit (del_flag Op_read m) 2 = bit m 2"
  "\<not> bit (del_flag Op_write m) 2" "bit (del_flag Op_write m) 0 = bit m 0"
  by (simp_all add: input_mask_def output_mask_def bit_simps)

section \<open>The queue\<close>

definition pending_mask :: "int \<Rightarrow> mux_event list \<Rightarrow> u32 option" where
  "pending_mask fd es = map_of (map (\<lambda>e. (efd e, emask e)) es) fd"

lemma pending_mask_simps [simp]:
  "pending_mask fd [] = None" "pending_mask fd (e # es) = (if efd e = fd then Some (emask e) else pending_mask fd es)"
  by (simp_all add: pending_mask_def)

lemma pending_mask_append:
  "pending_mask fd (xs @ ys) = (case pending_mask fd xs of None \<Rightarrow> pending_mask fd ys | Some m \<Rightarrow> Some m)"
  by (induction xs) auto

lemma pending_mask_None: "pending_mask fd es = None \<longleftrightarrow> (\<forall>e \<in> set es. efd e \<noteq> fd)"
  by (induction es) auto

text \<open>The events are sorted, each changes something, and only those of the pipe have no handler.\<close>

definition mux_event_ok :: "int \<Rightarrow> (int \<Rightarrow> u32) \<Rightarrow> mux_event \<Rightarrow> bool" where
  "mux_event_ok p bf e \<longleftrightarrow> (if efd e = p then \<not> eptr e \<and> emask e = 0 else eptr e \<and> emask e \<noteq> bf (efd e))"

definition queue_ok :: "'a mux_scheme \<Rightarrow> bool" where
  "queue_ok s \<longleftrightarrow> sorted_wrt (<) (map efd (events s)) \<and> (\<forall>e \<in> set (events s). mux_event_ok (pipe_in s) (eventbf s) e)"

text \<open>The parts of a sorted queue before and from a socket.\<close>

lemma queue_split:
  assumes "sorted_wrt (<) (map efd es)"
  shows "\<exists>pre post. es = pre @ post \<and> takeWhile (\<lambda>e. efd e < fd) es = pre \<and> dropWhile (\<lambda>e. efd e < fd) es = post
    \<and> (\<forall>e \<in> set pre. efd e < fd) \<and> (\<forall>e \<in> set post. fd \<le> efd e)"
proof -
  have "\<forall>e \<in> set (dropWhile (\<lambda>e. efd e < fd) es). fd \<le> efd e"
    using assms by (induction es) (auto split: if_splits)
  moreover have "\<forall>e \<in> set (takeWhile (\<lambda>e. efd e < fd) es). efd e < fd" by (auto dest: set_takeWhileD)
  ultimately show ?thesis by (metis takeWhile_dropWhile_id)
qed

lemma new_event_cases:
  assumes "sorted_wrt (<) (map efd (events s))"
  obtains (present) pre i post where "events s = pre @ i # post" "efd i = fd"
      "new_event f op fd ptr s =
        (if f op (emask i) = emask i then s
         else if f op (emask i) = old_mask fd ptr s then s\<lparr>events := pre @ post\<rparr>
         else s\<lparr>events := pre @ i\<lparr>emask := f op (emask i)\<rparr> # post\<rparr>)"
  | (absent) pre post where "events s = pre @ post" "\<forall>e \<in> set pre. efd e < fd" "\<forall>e \<in> set post. fd < efd e"
      "new_event f op fd ptr s =
        (if f op (old_mask fd ptr s) = old_mask fd ptr s then s
         else s\<lparr>events := pre @ \<lparr>efd = fd, emask = f op (old_mask fd ptr s), eptr = ptr\<rparr> # post\<rparr>)"
proof -
  obtain pre post where s: "events s = pre @ post" "takeWhile (\<lambda>e. efd e < fd) (events s) = pre"
      "dropWhile (\<lambda>e. efd e < fd) (events s) = post" "\<forall>e \<in> set pre. efd e < fd" "\<forall>e \<in> set post. fd \<le> efd e"
    using queue_split [OF assms] by metis
  show thesis
  proof (cases "\<exists>i rest. post = i # rest \<and> efd i = fd")
    case True
    then obtain i rest where "post = i # rest" "efd i = fd" by blast
    then show ?thesis using s(1-3) by (intro present [of pre i rest]) (simp_all add: new_event_def Let_def)
  next
    case False
    have "\<forall>e \<in> set post. fd < efd e"
    proof (cases post)
      case (Cons a rest)
      then have "fd < efd a" using False s(5) by fastforce
      then show ?thesis using Cons assms s(1) by (auto simp: sorted_wrt_append)
    qed simp
    then show ?thesis using s(1-4) False
      by (intro absent [of pre post]) (auto simp: new_event_def insert_event_def Let_def split: list.split)
  qed
qed

lemma new_event_keeps [simp]:
  "eventbf (new_event f op fd ptr s) = eventbf s" "pipe_in (new_event f op fd ptr s) = pipe_in s"
  by (auto simp: new_event_def insert_event_def Let_def split: list.split)

text \<open>What is pending afterwards; no pending event means that the mask in effect stays.\<close>

lemma new_event_pending:
  assumes "queue_ok s"
  shows "pending_mask x (events (new_event f op fd ptr s)) =
    (if x \<noteq> fd then pending_mask x (events s)
     else let old = old_mask fd ptr s; m = f op (case pending_mask fd (events s) of None \<Rightarrow> old | Some m \<Rightarrow> m)
       in if m = old then (if pending_mask fd (events s) = Some old then Some old else None) else Some m)"
proof -
  have sorted: "sorted_wrt (<) (map efd (events s))" using assms by (simp add: queue_ok_def)
  show ?thesis
  using sorted
  proof (cases rule: new_event_cases [where fd = fd and f = f and op = op and ptr = ptr])
    case (present pre i post)
    have "pending_mask fd pre = None" "pending_mask fd post = None"
      using sorted present(1,2) by (auto simp: pending_mask_None sorted_wrt_append)
    then show ?thesis using present by (simp add: pending_mask_append Let_def split: option.split)
  next
    case (absent pre post)
    have "pending_mask fd pre = None" "pending_mask fd post = None"
      using absent(2,3) by (auto simp: pending_mask_None)
    then show ?thesis using absent(1,4) by (simp add: pending_mask_append Let_def split: option.split)
  qed
qed

lemma new_event_queue:
  assumes "queue_ok s" and "if fd = pipe_in s then \<not> ptr \<and> f op input_mask = 0 \<and> f op 0 = 0 else ptr"
  shows "queue_ok (new_event f op fd ptr s)"
proof -
  have sorted: "sorted_wrt (<) (map efd (events s))" using assms(1) by (simp add: queue_ok_def)
  have ev: "e \<in> set (events s) \<Longrightarrow> mux_event_ok (pipe_in s) (eventbf s) e" for e using assms(1) by (simp add: queue_ok_def)
  show ?thesis
  using sorted
  proof (cases rule: new_event_cases [where fd = fd and f = f and op = op and ptr = ptr])
    case (present pre i post)
    have "mux_event_ok (pipe_in s) (eventbf s) i" using ev present(1) by simp
    then have "mux_event_ok (pipe_in s) (eventbf s) (i\<lparr>emask := f op (emask i)\<rparr>)" if "f op (emask i) \<noteq> old_mask fd ptr s"
      using that assms(2) present(2) by (auto simp: mux_event_ok_def old_mask_def split: if_splits)
    then show ?thesis using present ev sorted by (auto simp: queue_ok_def sorted_wrt_append)
  next
    case (absent pre post)
    have "mux_event_ok (pipe_in s) (eventbf s) \<lparr>efd = fd, emask = f op (old_mask fd ptr s), eptr = ptr\<rparr>"
      if "f op (old_mask fd ptr s) \<noteq> old_mask fd ptr s"
      using that assms(2) by (auto simp: mux_event_ok_def old_mask_def split: if_splits)
    then show ?thesis using absent ev sorted by (auto simp: queue_ok_def sorted_wrt_append)
  qed
qed

section \<open>Backends\<close>

text \<open>\<open>reg\<close> is what the operating system watches; the mask that is asked for is the pending or the registered one.\<close>

definition wanted :: "('a mux_scheme \<Rightarrow> int \<Rightarrow> u32) \<Rightarrow> 'a mux_scheme \<Rightarrow> int \<Rightarrow> u32" where
  "wanted reg s fd = (case pending_mask fd (events s) of None \<Rightarrow> reg s fd | Some m \<Rightarrow> m)"

text \<open>The masks that a list of requests asks for.\<close>

fun spec_ask :: "int \<Rightarrow> mux_request \<Rightarrow> (int \<Rightarrow> u32) \<Rightarrow> int \<Rightarrow> u32" where
  "spec_ask p (Add op fd) W = W(fd := add_flag op (W fd))"
| "spec_ask p (Del op fd) W = W(fd := del_flag op (W fd))"
| "spec_ask p Close_pipe W = W(p := 0)"

definition gone_from :: "int \<Rightarrow> (int \<Rightarrow> u32) \<Rightarrow> (int \<Rightarrow> u32) \<Rightarrow> (int \<times> operation) set" where
  "gone_from p W W' = {(fd, op). fd \<noteq> p \<and> (op = Op_read \<and> bit (W fd) 0 \<and> \<not> bit (W' fd) 0 \<or> op = Op_write \<and> bit (W fd) 2 \<and> \<not> bit (W' fd) 2)}"

text \<open>Handlers only ask for their own socket, and the pipe is closed once.\<close>

fun fair_asks :: "int \<Rightarrow> bool \<Rightarrow> mux_request list \<Rightarrow> bool" where
  "fair_asks p open [] = True"
| "fair_asks p open (Add op fd # rs) = (fd \<noteq> p \<and> fair_asks p open rs)"
| "fair_asks p open (Del op fd # rs) = (fd \<noteq> p \<and> fair_asks p open rs)"
| "fair_asks p open (Close_pipe # rs) = (open \<and> fair_asks p False rs)"

lemma fair_asks_append [simp]:
  "fair_asks p open (xs @ ys) \<longleftrightarrow> fair_asks p open xs \<and> fair_asks p (open \<and> Close_pipe \<notin> set xs) ys"
  by (induction p "open" xs rule: fair_asks.induct) auto

text \<open>Which handlers are told in each round that they were removed.\<close>

primrec spec_gone :: "int \<Rightarrow> mux_request list list \<Rightarrow> (int \<Rightarrow> u32) \<Rightarrow> (int \<times> operation) set list" where
  "spec_gone p [] W = []"
| "spec_gone p (rs # rss) W =
     (let W' = fold (spec_ask p) rs W in gone_from p W W' # spec_gone p rss W')"

text \<open>Between requests: nothing of the pipe is pending unless it was registered, and \<open>open\<close> says that it is not closed.\<close>

definition mux_inv ::
    "('a mux_scheme \<Rightarrow> int \<Rightarrow> u32) \<Rightarrow> ('a mux_scheme \<Rightarrow> bool) \<Rightarrow> bool \<Rightarrow> 'a mux_scheme \<Rightarrow> bool" where
  "mux_inv reg ok open s \<longleftrightarrow> queue_ok s \<and> ok s
     \<and> (open \<longrightarrow> pending_mask (pipe_in s) (events s) = None \<and> reg s (pipe_in s) = input_mask)
     \<and> (pending_mask (pipe_in s) (events s) \<noteq> None \<longrightarrow> reg s (pipe_in s) = input_mask)"

locale interest =
  fixes handle :: "mux_event \<Rightarrow> 'a mux_scheme \<Rightarrow> ((int \<times> operation) list \<times> 'a mux_scheme) option"
    and reg :: "'a mux_scheme \<Rightarrow> int \<Rightarrow> u32"
    and ok :: "'a mux_scheme \<Rightarrow> bool"
  assumes handle_event: "ok s \<Longrightarrow> mux_event_ok (pipe_in s) (eventbf s) e \<Longrightarrow> (efd e = pipe_in s \<Longrightarrow> reg s (efd e) \<noteq> 0) \<Longrightarrow>
      \<exists>s'. handle e s = Some (if eptr e then removals e (reg s (efd e)) else [], s') \<and> ok s'
        \<and> reg s' = (reg s)(efd e := emask e) \<and> events s' = events s \<and> pipe_in s' = pipe_in s"
    and queue_free: "ok (s\<lparr>events := es\<rparr>) = ok s" "reg (s\<lparr>events := es\<rparr>) = reg s"
    and registered: "ok s \<Longrightarrow> fd \<noteq> pipe_in s \<Longrightarrow> eventbf s fd = reg s fd"
    and pipe_mask: "ok s \<Longrightarrow> reg s (pipe_in s) \<in> {0, input_mask}"
begin

lemma ask_event: "ok (new_event f op fd ptr s) = ok s" "reg (new_event f op fd ptr s) = reg s"
  by (auto simp: new_event_def insert_event_def Let_def queue_free split: list.split)

lemma ask_inv: "ok (mux_ask r s) = ok s" "reg (mux_ask r s) = reg s" "pipe_in (mux_ask r s) = pipe_in s"
  by (cases r; simp add: mux_add_def mux_del_def close_pipe_def ask_event)+

lemma ask_wanted:
  assumes "mux_inv reg ok open s" and "fair_asks (pipe_in s) open [r]"
  shows "mux_inv reg ok (open \<and> r \<noteq> Close_pipe) (mux_ask r s)
    \<and> wanted reg (mux_ask r s) = spec_ask (pipe_in s) r (wanted reg s)"
proof -
  have q: "queue_ok s" and k: "ok s" using assms(1) by (simp_all add: mux_inv_def)
  have step: "mux_inv reg ok open (new_event f op fd True s)
      \<and> wanted reg (new_event f op fd True s) = (wanted reg s)(fd := f op (wanted reg s fd))"
    if fd: "fd \<noteq> pipe_in s" for f op fd
  proof
    have r: "eventbf s fd = reg s fd" using registered [OF k fd] .
    show "mux_inv reg ok open (new_event f op fd True s)"
      using assms(1) fd new_event_queue [OF q, of fd True f op]
      by (simp add: mux_inv_def ask_event new_event_pending [OF q])
    have n: "pending_mask fd (events s) \<noteq> Some (reg s fd)"
    proof
      assume "pending_mask fd (events s) = Some (reg s fd)"
      then obtain e where "e \<in> set (events s)" "efd e = fd" "emask e = reg s fd"
        unfolding pending_mask_def by (auto dest!: map_of_SomeD)
      then show False using q fd r by (auto simp: queue_ok_def mux_event_ok_def)
    qed
    show "wanted reg (new_event f op fd True s) = (wanted reg s)(fd := f op (wanted reg s fd))"
      using n r by (auto simp: fun_eq_iff wanted_def ask_event new_event_pending [OF q] old_mask_def Let_def split: option.split)
  qed
  show ?thesis
  proof (cases r)
    case Close_pipe
    have p: "pending_mask (pipe_in s) (events s) = None" "reg s (pipe_in s) = input_mask"
      using assms Close_pipe by (auto simp: mux_inv_def)
    have z: "del_flag Op_read input_mask = 0" "del_flag Op_read 0 = 0" "input_mask \<noteq> 0" by (simp_all add: input_mask_def)
    show ?thesis unfolding Close_pipe
      using assms(1) p z new_event_queue [OF q, of "pipe_in s" False del_flag Op_read]
      by (auto simp: mux_inv_def close_pipe_def ask_event new_event_pending [OF q] old_mask_def wanted_def fun_eq_iff Let_def split: option.split)
  qed (use step assms(2) in \<open>auto simp: mux_add_def mux_del_def\<close>)
qed

lemma asks_wanted:
  assumes "mux_inv reg ok open s" and "fair_asks (pipe_in s) open rs"
  shows "mux_inv reg ok (open \<and> Close_pipe \<notin> set rs) (fold mux_ask rs s)
    \<and> wanted reg (fold mux_ask rs s) = fold (spec_ask (pipe_in s)) rs (wanted reg s)
    \<and> pipe_in (fold mux_ask rs s) = pipe_in s \<and> reg (fold mux_ask rs s) = reg s"
  using assms
proof (induction rs arbitrary: s "open")
  case (Cons r rs)
  have 1: "fair_asks (pipe_in s) open [r]" "fair_asks (pipe_in s) (open \<and> r \<noteq> Close_pipe) rs"
    using Cons.prems(2) by (cases r; simp)+
  note a = ask_wanted [OF Cons.prems(1) 1(1)]
  have "mux_inv reg ok (open \<and> r \<noteq> Close_pipe) (mux_ask r s)" using a by blast
  from Cons.IH [OF this] 1(2) have b: "mux_inv reg ok ((open \<and> r \<noteq> Close_pipe) \<and> Close_pipe \<notin> set rs) (fold mux_ask rs (mux_ask r s))
    \<and> wanted reg (fold mux_ask rs (mux_ask r s)) = fold (spec_ask (pipe_in s)) rs (wanted reg (mux_ask r s))
    \<and> pipe_in (fold mux_ask rs (mux_ask r s)) = pipe_in s \<and> reg (fold mux_ask rs (mux_ask r s)) = reg s"
    by (simp add: ask_inv)
  have c: "(open \<and> Close_pipe \<notin> set (r # rs)) = ((open \<and> r \<noteq> Close_pipe) \<and> Close_pipe \<notin> set rs)" by auto
  show ?case using a b unfolding c by simp
qed (simp add: mux_inv_def)

text \<open>Handling the queue registers what was asked for.\<close>

lemma handle_all_reg:
  assumes "ok s" and "sorted_wrt (<) (map efd es)" and "\<forall>e \<in> set es. mux_event_ok (pipe_in s) (eventbf s) e"
    and "\<forall>e \<in> set es. efd e = pipe_in s \<longrightarrow> reg s (pipe_in s) \<noteq> 0"
  shows "\<exists>s'. handle_all handle es s = Some (concat (map (\<lambda>e. if eptr e then removals e (reg s (efd e)) else []) es), s')
    \<and> ok s' \<and> events s' = [] \<and> pipe_in s' = pipe_in s
    \<and> reg s' = (\<lambda>fd. case pending_mask fd es of None \<Rightarrow> reg s fd | Some m \<Rightarrow> m)"
  using assms
proof (induction es arbitrary: s)
  case Nil
  then show ?case using queue_free by (auto intro!: exI [of _ "s\<lparr>events := []\<rparr>"])
next
  case (Cons e es)
  have "mux_event_ok (pipe_in s) (eventbf s) e" using Cons.prems(3) by simp
  from handle_event [OF Cons.prems(1) this] Cons.prems(4) obtain t where
    t: "handle e s = Some (if eptr e then removals e (reg s (efd e)) else [], t)" "ok t"
      "reg t = (reg s)(efd e := emask e)" "events t = events s" "pipe_in t = pipe_in s" by auto
  have ne: "\<forall>e' \<in> set es. efd e' \<noteq> efd e" using Cons.prems(2) by auto
  have bf: "fd \<noteq> pipe_in s \<Longrightarrow> fd \<noteq> efd e \<Longrightarrow> eventbf t fd = eventbf s fd" for fd
    using registered [OF t(2)] registered [OF Cons.prems(1)] t(3,5) by simp
  have "\<forall>e' \<in> set es. mux_event_ok (pipe_in t) (eventbf t) e'" using Cons.prems(3) ne bf t(5) by (auto simp: mux_event_ok_def)
  moreover have "\<forall>e' \<in> set es. efd e' = pipe_in t \<longrightarrow> reg t (pipe_in t) \<noteq> 0" using Cons.prems(4) ne t(3,5) by auto
  moreover have "sorted_wrt (<) (map efd es)" using Cons.prems(2) by simp
  ultimately obtain s' where
    s': "handle_all handle es t = Some (concat (map (\<lambda>e. if eptr e then removals e (reg t (efd e)) else []) es), s')"
      "ok s'" "events s' = []" "pipe_in s' = pipe_in t" "reg s' = (\<lambda>fd. case pending_mask fd es of None \<Rightarrow> reg t fd | Some m \<Rightarrow> m)"
    using Cons.IH [OF t(2)] by blast
  have m: "map (\<lambda>e. if eptr e then removals e (reg t (efd e)) else []) es = map (\<lambda>e. if eptr e then removals e (reg s (efd e)) else []) es"
    using ne t(3) by auto
  have "pending_mask (efd e) es = None" using ne by (simp add: pending_mask_None)
  then have "reg s' = (\<lambda>fd. case pending_mask fd (e # es) of None \<Rightarrow> reg s fd | Some m \<Rightarrow> m)"
    unfolding s'(5) t(3) by (auto simp: fun_eq_iff split: option.split)
  then show ?case using t(1,5) s'(1-4) unfolding m by simp
qed

lemma round_gone:
  assumes "mux_inv reg ok open s"
  shows "set (concat (map (\<lambda>e. if eptr e then removals e (reg s (efd e)) else []) (events s)))
    = gone_from (pipe_in s) (reg s) (wanted reg s)"
proof -
  have q: "sorted_wrt (<) (map efd (events s))" and ev: "\<And>e. e \<in> set (events s) \<Longrightarrow> mux_event_ok (pipe_in s) (eventbf s) e"
    using assms by (simp_all add: mux_inv_def queue_ok_def)
  have "distinct (map efd (events s))" using q by (metis strict_sorted_iff)
  then have p: "e \<in> set (events s) \<Longrightarrow> pending_mask (efd e) (events s) = Some (emask e)" for e
    unfolding pending_mask_def by (intro map_of_is_SomeI) (simp_all add: comp_def)
  have w: "wanted reg s fd \<noteq> reg s fd \<Longrightarrow> \<exists>e \<in> set (events s). efd e = fd \<and> wanted reg s fd = emask e" for fd
    using p by (cases "pending_mask fd (events s)") (auto simp: wanted_def pending_mask_def dest!: map_of_SomeD)
  have pw: "e \<in> set (events s) \<Longrightarrow> wanted reg s (efd e) = emask e" for e using p by (simp add: wanted_def)
  have r: "x \<in> set (removals e m) \<longleftrightarrow> x = (efd e, Op_read) \<and> bit m 0 \<and> \<not> bit (emask e) 0
      \<or> x = (efd e, Op_write) \<and> bit m 2 \<and> \<not> bit (emask e) 2" for x e m
    using io_mask_bits [of m] io_mask_bits [of "emask e"] by (auto simp: removals_def)
  show ?thesis
  proof (intro set_eqI iffI)
    fix x assume "x \<in> gone_from (pipe_in s) (reg s) (wanted reg s)"
    then obtain fd op where x: "x = (fd, op)" "fd \<noteq> pipe_in s"
        "op = Op_read \<and> bit (reg s fd) 0 \<and> \<not> bit (wanted reg s fd) 0 \<or> op = Op_write \<and> bit (reg s fd) 2 \<and> \<not> bit (wanted reg s fd) 2"
      by (auto simp: gone_from_def)
    then obtain e where "e \<in> set (events s)" "efd e = fd" "wanted reg s fd = emask e" using w by metis
    then show "x \<in> set (concat (map (\<lambda>e. if eptr e then removals e (reg s (efd e)) else []) (events s)))"
      using x ev by (auto simp: r mux_event_ok_def intro!: bexI [of _ e])
  next
    fix x assume "x \<in> set (concat (map (\<lambda>e. if eptr e then removals e (reg s (efd e)) else []) (events s)))"
    then obtain e where "e \<in> set (events s)" "eptr e" "x \<in> set (removals e (reg s (efd e)))" by (auto split: if_splits)
    then show "x \<in> gone_from (pipe_in s) (reg s) (wanted reg s)"
      using ev pw by (auto simp: r gone_from_def mux_event_ok_def split: if_splits)
  qed
qed

lemma one_round:
  assumes "mux_inv reg ok open s"
  shows "\<exists>gone s'. handle_all handle (events s) s = Some (gone, s') \<and> mux_inv reg ok open s' \<and> events s' = []
    \<and> pipe_in s' = pipe_in s \<and> reg s' = wanted reg s \<and> set gone = gone_from (pipe_in s) (reg s) (wanted reg s)"
proof -
  have "ok s" "sorted_wrt (<) (map efd (events s))" "\<forall>e \<in> set (events s). mux_event_ok (pipe_in s) (eventbf s) e"
    using assms by (simp_all add: mux_inv_def queue_ok_def)
  moreover have "\<forall>e \<in> set (events s). efd e = pipe_in s \<longrightarrow> reg s (pipe_in s) \<noteq> 0"
  proof (intro ballI impI)
    fix e assume "e \<in> set (events s)" "efd e = pipe_in s"
    then have "pending_mask (pipe_in s) (events s) \<noteq> None" by (auto simp: pending_mask_None)
    then show "reg s (pipe_in s) \<noteq> 0" using assms by (simp add: mux_inv_def input_mask_def)
  qed
  ultimately obtain s' where
    s': "handle_all handle (events s) s = Some (concat (map (\<lambda>e. if eptr e then removals e (reg s (efd e)) else []) (events s)), s')"
      "ok s'" "events s' = []" "pipe_in s' = pipe_in s" "reg s' = wanted reg s"
    using handle_all_reg [of s "events s"] unfolding wanted_def by blast
  have "mux_inv reg ok open s'" using s'(2-5) assms by (auto simp: mux_inv_def queue_ok_def wanted_def)
  then show ?thesis using s' round_gone [OF assms] by blast
qed

lemma rounds_reg:
  assumes "mux_inv reg ok open s" and "events s = []" and "fair_asks (pipe_in s) open (concat rss)"
  shows "\<exists>gones s'. mux_rounds handle rss s = Some (gones, s') \<and> events s' = [] \<and> pipe_in s' = pipe_in s \<and> ok s'
    \<and> reg s' = fold (spec_ask (pipe_in s)) (concat rss) (reg s) \<and> map set gones = spec_gone (pipe_in s) rss (reg s)"
  using assms
proof (induction rss arbitrary: s "open")
  case (Cons rs rss)
  have f: "fair_asks (pipe_in s) open rs" "fair_asks (pipe_in s) (open \<and> Close_pipe \<notin> set rs) (concat rss)"
    using Cons.prems(3) by auto
  have w0: "wanted reg s = reg s" using Cons.prems(2) by (simp add: wanted_def fun_eq_iff)
  define t where "t = fold mux_ask rs s"
  have t: "mux_inv reg ok (open \<and> Close_pipe \<notin> set rs) t" "wanted reg t = fold (spec_ask (pipe_in s)) rs (reg s)"
      "pipe_in t = pipe_in s" "reg t = reg s"
    using asks_wanted [OF Cons.prems(1) f(1)] w0 by (simp_all add: t_def)
  obtain gone u where u: "handle_all handle (events t) t = Some (gone, u)" "mux_inv reg ok (open \<and> Close_pipe \<notin> set rs) u"
      "events u = []" "pipe_in u = pipe_in t" "reg u = wanted reg t" "set gone = gone_from (pipe_in t) (reg t) (wanted reg t)"
    using one_round [OF t(1)] by blast
  have "fair_asks (pipe_in u) (open \<and> Close_pipe \<notin> set rs) (concat rss)" using f(2) t(3) u(4) by simp
  from Cons.IH [OF u(2,3) this] show ?case
    using t(2-4) u(1,4-6) by (auto simp: t_def [symmetric] Let_def)
qed (simp add: mux_inv_def)

end

section \<open>epoll registers what is asked for\<close>

text \<open>The set of watched sockets after a log of calls, and the calls that \<open>epoll_ctl\<close> is documented to accept.\<close>

fun epoll_set :: "ctl_call \<Rightarrow> (int \<Rightarrow> u32) \<Rightarrow> int \<Rightarrow> u32" where
  "epoll_set (op, fd, m) W = W(fd := (if op = Ctl_del then 0 else m))"

fun valid_call :: "(int \<Rightarrow> u32) \<Rightarrow> ctl_call \<Rightarrow> bool" where
  "valid_call W (op, fd, m) = (W fd = 0 \<longleftrightarrow> op = Ctl_add)"

definition watched :: "epoll_mux \<Rightarrow> int \<Rightarrow> u32" where
  "watched s = fold epoll_set (ctl_log s) (\<lambda>_. 0)"

definition accepts_valid :: "(ctl_call list \<Rightarrow> ctl_call \<Rightarrow> ctl_error option) \<Rightarrow> bool" where
  "accepts_valid ctl \<longleftrightarrow> (\<forall>log c. valid_call (fold epoll_set log (\<lambda>_. 0)) c \<longrightarrow> ctl log c = None)"

definition linux_ctl :: "ctl_call list \<Rightarrow> ctl_call \<Rightarrow> ctl_error option" where
  "linux_ctl log c = (if valid_call (fold epoll_set log (\<lambda>_. 0)) c then None else Some (if fst c = Ctl_add then Eexist else Enoent))"

lemma linux_accepts: "accepts_valid linux_ctl"
  by (simp add: accepts_valid_def linux_ctl_def)

definition epoll_ok :: "epoll_mux \<Rightarrow> bool" where
  "epoll_ok s \<longleftrightarrow> finite {fd. watched s fd \<noteq> 0} \<and> shadow s = int (card {fd. watched s fd \<noteq> 0})
     \<and> (\<forall>fd. fd \<noteq> pipe_in s \<longrightarrow> eventbf s fd = watched s fd) \<and> watched s (pipe_in s) \<in> {0, input_mask}"

lemma card_update:
  fixes W :: "int \<Rightarrow> u32"
  assumes "finite {x. W x \<noteq> 0}" and "m \<noteq> W y"
  shows "finite {x. (W(y := m)) x \<noteq> 0}
    \<and> int (card {x. (W(y := m)) x \<noteq> 0}) = int (card {x. W x \<noteq> 0}) + (if m = 0 then -1 else if W y = 0 then 1 else 0)"
proof -
  have "{x. (W(y := m)) x \<noteq> 0} = (if m = 0 then {x. W x \<noteq> 0} - {y} else insert y {x. W x \<noteq> 0})" by auto
  moreover have "int (card ({x. W x \<noteq> 0} - {y})) = int (card {x. W x \<noteq> 0}) - 1" if "W y \<noteq> 0"
  proof -
    have "y \<in> {x. W x \<noteq> 0}" using that by simp
    then have "card {x. W x \<noteq> 0} = Suc (card ({x. W x \<noteq> 0} - {y}))" using assms(1) by (rule card.remove [rotated])
    then show ?thesis by simp
  qed
  ultimately show ?thesis using assms by (auto simp: card_insert_if)
qed

lemma epoll_handle_event:
  assumes ctl: "accepts_valid ctl" and ok: "epoll_ok s" and e: "mux_event_ok (pipe_in s) (eventbf s) e"
    and p: "efd e = pipe_in s \<Longrightarrow> watched s (efd e) \<noteq> 0"
  shows "\<exists>s'. epoll_handle ctl e s = Some (if eptr e then removals e (watched s (efd e)) else [], s') \<and> epoll_ok s'
    \<and> watched s' = (watched s)(efd e := emask e) \<and> events s' = events s \<and> pipe_in s' = pipe_in s"
proof -
  have old: "old_mask (efd e) (eptr e) s = watched s (efd e)"
    using e ok p by (cases "efd e = pipe_in s") (auto simp: mux_event_ok_def old_mask_def epoll_ok_def)
  have ne: "emask e \<noteq> watched s (efd e)" using e ok p by (cases "efd e = pipe_in s") (auto simp: mux_event_ok_def epoll_ok_def)
  have ptr: "eptr e \<longleftrightarrow> efd e \<noteq> pipe_in s" and bf: "\<not> (eptr e \<and> eventbf s (efd e) = emask e)"
    using e by (auto simp: mux_event_ok_def split: if_splits)
  define op where "op = (if emask e = 0 then Ctl_del else if watched s (efd e) = 0 then Ctl_add else Ctl_mod)"
  define t where "t = (if eptr e then set_eventbf (efd e) (emask e) s else s)\<lparr>
      shadow := shadow s + (if emask e = 0 then -1 else if watched s (efd e) = 0 then 1 else 0),
      ctl_log := ctl_log s @ [(op, efd e, emask e)]\<rparr>"
  have "valid_call (watched s) (op, efd e, emask e)" using ne by (auto simp: op_def)
  then have r: "ctl (ctl_log s) (op, efd e, emask e) = None" using ctl by (simp add: accepts_valid_def watched_def)
  have h: "epoll_handle ctl e s = Some (if eptr e then removals e (watched s (efd e)) else [], t)"
    using bf r old by (auto simp: epoll_handle_def Let_def op_def t_def set_eventbf_def)
  have w: "watched t = (watched s)(efd e := emask e)" by (auto simp: watched_def t_def op_def fun_eq_iff)
  have "epoll_ok t"
    using ok card_update [of "watched s" "emask e" "efd e"] ne w ptr e
    by (auto simp: epoll_ok_def t_def set_eventbf_def mux_event_ok_def split: if_splits)
  then show ?thesis using h w by (auto simp: t_def set_eventbf_def)
qed

lemma epoll_interest:
  assumes "accepts_valid ctl"
  shows "interest (epoll_handle ctl) watched epoll_ok"
proof
  show "\<exists>s'. epoll_handle ctl e s = Some (if eptr e then removals e (watched s (efd e)) else [], s') \<and> epoll_ok s'
      \<and> watched s' = (watched s)(efd e := emask e) \<and> events s' = events s \<and> pipe_in s' = pipe_in s"
    if "epoll_ok s" "mux_event_ok (pipe_in s) (eventbf s) e" "efd e = pipe_in s \<Longrightarrow> watched s (efd e) \<noteq> 0" for s e
    using epoll_handle_event [OF assms that] .
qed (auto simp: epoll_ok_def watched_def)

interpretation epoll: interest "epoll_handle linux_ctl" watched epoll_ok
  by (rule epoll_interest [OF linux_accepts])

section \<open>poll does the same\<close>

definition polled :: "poll_mux \<Rightarrow> int \<Rightarrow> u32" where
  "polled s fd = (case map_of (pollset s) fd of None \<Rightarrow> 0 | Some m \<Rightarrow> m)"

definition poll_ok :: "poll_mux \<Rightarrow> bool" where
  "poll_ok s \<longleftrightarrow> sorted_wrt (<) (map fst (pollset s)) \<and> (\<forall>p \<in> set (pollset s). snd p \<noteq> 0)
     \<and> shadows s = map (Some \<circ> fst) (pollset s)
     \<and> (\<forall>fd. fd \<noteq> pipe_in s \<longrightarrow> eventbf s fd = polled s fd) \<and> polled s (pipe_in s) \<in> {0, input_mask}"

text \<open>The position that \<open>lower_bound\<close> finds in the sorted set.\<close>

lemma poll_position:
  fixes ps :: "(int \<times> u32) list"
  assumes "sorted_wrt (<) (map fst ps)"
  obtains (none) pre post where "ps = pre @ post" "length (takeWhile (\<lambda>p. fst p < fd) ps) = length pre"
      "\<forall>p \<in> set pre. fst p < fd" "\<forall>p \<in> set post. fd < fst p"
  | (found) pre m post where "ps = pre @ (fd, m) # post" "length (takeWhile (\<lambda>p. fst p < fd) ps) = length pre"
      "\<forall>p \<in> set pre. fst p < fd" "\<forall>p \<in> set post. fd < fst p"
proof -
  let ?pre = "takeWhile (\<lambda>p. fst p < fd) ps" and ?post = "dropWhile (\<lambda>p. fst p < fd) ps"
  have ps: "ps = ?pre @ ?post" by simp
  have pre: "\<forall>p \<in> set ?pre. fst p < fd" by (auto dest: set_takeWhileD)
  have post: "\<forall>p \<in> set ?post. fd \<le> fst p" using assms
  proof (induction ps)
    case (Cons a ps)
    show ?case
    proof (cases "fst a < fd")
      case True
      then show ?thesis using Cons by simp
    next
      case False
      then show ?thesis using Cons.prems by fastforce
    qed
  qed simp
  have sp: "sorted_wrt (<) (map fst ?post)" 
  proof -
    have "sorted_wrt (<) (map fst (?pre @ ?post))" using assms by (simp only: takeWhile_dropWhile_id)
    then show ?thesis unfolding map_append sorted_wrt_append by blast
  qed
  show thesis
  proof (cases "\<exists>m rest. ?post = (fd, m) # rest")
    case True
    then obtain m rest where r: "?post = (fd, m) # rest" by blast
    have 1: "ps = ?pre @ (fd, m) # rest" by (rule trans [OF ps]) (simp only: r)
    have 2: "\<forall>p \<in> set rest. fd < fst p" using sp unfolding r by simp
    show ?thesis by (rule found [OF 1 refl pre 2])
  next
    case False
    have "fd < fst p" if "p \<in> set ?post" for p
    proof (cases ?post)
      case (Cons a rest)
      then have "fd < fst a" using False post by (cases a) fastforce
      moreover have "p = a \<or> fst a < fst p" using that sp unfolding Cons by auto
      ultimately show ?thesis by auto
    next
      case Nil
      show ?thesis using that unfolding Nil by simp
    qed
    then have 2: "\<forall>p \<in> set ?post. fd < fst p" by blast
    show ?thesis by (rule none [OF ps refl pre 2])
  qed
qed

lemma map_of_split:
  "\<forall>p \<in> set pre. fst p \<noteq> x \<Longrightarrow> map_of (pre @ post) x = map_of post x"
  by (induction pre) auto

lemma map_of_none: "\<forall>p \<in> set ps. fst p \<noteq> x \<Longrightarrow> map_of ps x = None"
  by (induction ps) auto

lemma poll_handle_event:
  assumes ok: "poll_ok s" and e: "mux_event_ok (pipe_in s) (eventbf s) e" and p: "efd e = pipe_in s \<Longrightarrow> polled s (efd e) \<noteq> 0"
  shows "\<exists>s'. poll_handle e s = (if eptr e then removals e (polled s (efd e)) else [], s') \<and> poll_ok s'
    \<and> polled s' = (polled s)(efd e := emask e) \<and> events s' = events s \<and> pipe_in s' = pipe_in s"
proof -
  let ?fd = "efd e" and ?m = "emask e"
  define b where "b = (if eptr e then set_eventbf ?fd ?m s else s)"
  have b: "pollset b = pollset s" "shadows b = shadows s" "events b = events s" "pipe_in b = pipe_in s"
      "eptr e \<Longrightarrow> eventbf b = (eventbf s)(?fd := ?m)" "\<not> eptr e \<Longrightarrow> eventbf b = eventbf s"
    by (simp_all add: b_def set_eventbf_def)
  have ptr: "eptr e \<longleftrightarrow> ?fd \<noteq> pipe_in s" using e by (auto simp: mux_event_ok_def split: if_splits)
  have old: "eptr e \<Longrightarrow> eventbf s ?fd = polled s ?fd" using ok ptr by (simp add: poll_ok_def)
  have m: "?fd = pipe_in s \<Longrightarrow> ?m = 0" "?m \<noteq> polled s ?fd"
    using e ok p by (auto simp: mux_event_ok_def poll_ok_def split: if_splits)
  have sh: "shadows s = map (Some \<circ> fst) (pollset s)" and sorted: "sorted_wrt (<) (map fst (pollset s))"
      and nz: "\<And>p. p \<in> set (pollset s) \<Longrightarrow> snd p \<noteq> 0"
    using ok by (simp_all add: poll_ok_def)
  have goal: ?thesis
    if h: "poll_handle e s = (if eptr e then removals e (polled s ?fd) else [], b\<lparr>pollset := ps, shadows := map (Some \<circ> fst) ps\<rparr>)"
      and ps: "sorted_wrt (<) (map fst ps)" "\<forall>p \<in> set ps. snd p \<noteq> 0"
        "\<And>x. (case map_of ps x of None \<Rightarrow> 0 | Some m \<Rightarrow> m) = (if x = ?fd then ?m else polled s x)" for ps
  proof -
    let ?t = "b\<lparr>pollset := ps, shadows := map (Some \<circ> fst) ps\<rparr>"
    have w: "polled ?t = (polled s)(?fd := ?m)" using ps(3) by (simp add: polled_def [of ?t] fun_eq_iff)
    have "poll_ok ?t" unfolding poll_ok_def w
      using ok ps(1,2) b(4-6) ptr m(1) by (cases "eptr e") (auto simp: poll_ok_def)
    then show ?thesis using h w b by auto
  qed
  show ?thesis using sorted
  proof (cases rule: poll_position [where fd = ?fd])
    case (none pre post)
    have pn: "map_of pre ?fd = None" "map_of post ?fd = None" by (rule map_of_none; use none in auto)+
    have "polled s ?fd = 0"
      using none map_of_none [of pre ?fd] map_of_none [of post ?fd] by (fastforce simp: polled_def map_add_def)
    then have z: "polled s ?fd = 0" "?m \<noteq> 0" "eptr e" using m(2) p ptr by auto
    show ?thesis
    proof (rule goal [of "pre @ (?fd, ?m) # post"])
      have "removals e 0 = []" by (simp add: removals_def)
      then show "poll_handle e s = (if eptr e then removals e (polled s ?fd) else [],
          b\<lparr>pollset := pre @ (?fd, ?m) # post, shadows := map (Some \<circ> fst) (pre @ (?fd, ?m) # post)\<rparr>)"
        using none z sh
        by (cases post) (auto simp: poll_handle_def Let_def b_def set_eventbf_def nth_append)
      show "(case map_of (pre @ (?fd, ?m) # post) x of None \<Rightarrow> 0 | Some m \<Rightarrow> m) = (if x = ?fd then ?m else polled s x)" for x
        using none pn by (auto simp: polled_def map_add_def split: option.split)
    qed (use sorted nz none z(2) in \<open>auto simp: sorted_wrt_append\<close>)
  next
    case (found pre m0 post)
    have pp: "map_of pre ?fd = None" "map_of post ?fd = None" by (rule map_of_none; use found in auto)+
    have m0: "polled s ?fd = m0"
      using found pp by (simp add: polled_def map_add_def)
    have pn: "\<And>x. x \<noteq> ?fd \<Longrightarrow> polled s x = (case map_of (pre @ post) x of None \<Rightarrow> 0 | Some m \<Rightarrow> m)"
      using found by (auto simp: polled_def map_add_def split: option.split)
    have pf: "map_of (pre @ post) ?fd = None"
      by (rule map_of_none) (use found in auto)
    show ?thesis
    proof (cases "?m = 0")
      case True
      show ?thesis
      proof (rule goal [of "pre @ post"])
        show "poll_handle e s = (if eptr e then removals e (polled s ?fd) else [],
            b\<lparr>pollset := pre @ post, shadows := map (Some \<circ> fst) (pre @ post)\<rparr>)"
          using found sh True old by (auto simp: poll_handle_def Let_def b_def set_eventbf_def nth_append)
        show "(case map_of (pre @ post) x of None \<Rightarrow> 0 | Some m \<Rightarrow> m) = (if x = ?fd then ?m else polled s x)" for x
          using pn [of x] True by (cases "x = ?fd") (simp_all only: pf, simp_all)
      qed (use sorted nz found in \<open>auto simp: sorted_wrt_append\<close>)
    next
      case False
      show ?thesis
      proof (rule goal [of "pre @ (?fd, ?m) # post"])
        show "poll_handle e s = (if eptr e then removals e (polled s ?fd) else [],
            b\<lparr>pollset := pre @ (?fd, ?m) # post, shadows := map (Some \<circ> fst) (pre @ (?fd, ?m) # post)\<rparr>)"
          using found sh False old by (auto simp: poll_handle_def Let_def b_def set_eventbf_def nth_append)
        show "(case map_of (pre @ (?fd, ?m) # post) x of None \<Rightarrow> 0 | Some m \<Rightarrow> m) = (if x = ?fd then ?m else polled s x)" for x
          using found pp by (auto simp: polled_def map_add_def split: option.split)
      qed (use sorted nz found False in \<open>auto simp: sorted_wrt_append\<close>)
    qed
  qed
qed

interpretation poll: interest "\<lambda>e s. Some (poll_handle e s)" polled poll_ok
proof
  show "\<exists>s'. Some (poll_handle e s) = Some (if eptr e then removals e (polled s (efd e)) else [], s') \<and> poll_ok s'
      \<and> polled s' = (polled s)(efd e := emask e) \<and> events s' = events s \<and> pipe_in s' = pipe_in s"
    if "poll_ok s" "mux_event_ok (pipe_in s) (eventbf s) e" "efd e = pipe_in s \<Longrightarrow> polled s (efd e) \<noteq> 0" for s e
    using poll_handle_event [OF that] by auto
qed (auto simp: poll_ok_def polled_def)

section \<open>Properties\<close>

text \<open>The masks that a run of rounds asks for, from the start in which only the pipe is watched.\<close>

definition spec_masks :: "int \<Rightarrow> mux_request list list \<Rightarrow> int \<Rightarrow> u32" where
  "spec_masks p rss = fold (spec_ask p) (concat rss) ((\<lambda>_. 0)(p := input_mask))"

lemma mux_start:
  "mux_inv watched epoll_ok True (epoll_start p)" "watched (epoll_start p) = (\<lambda>_. 0)(p := input_mask)"
  "mux_inv polled poll_ok True (poll_start p)" "polled (poll_start p) = (\<lambda>_. 0)(p := input_mask)"
proof -
  show w: "watched (epoll_start p) = (\<lambda>_. 0)(p := input_mask)" by (simp add: watched_def epoll_start_def)
  have "{fd. ((\<lambda>_. 0)(p := input_mask)) fd \<noteq> 0} = {p}" by (auto simp: input_mask_def)
  then show "mux_inv watched epoll_ok True (epoll_start p)"
    unfolding mux_inv_def epoll_ok_def w by (simp add: queue_ok_def epoll_start_def)
  show l: "polled (poll_start p) = (\<lambda>_. 0)(p := input_mask)" by (simp add: polled_def poll_start_def fun_eq_iff)
  show "mux_inv polled poll_ok True (poll_start p)"
    unfolding mux_inv_def poll_ok_def l by (simp add: queue_ok_def poll_start_def) (simp add: input_mask_def)
qed

lemma polled_nonempty:
  assumes "poll_ok t"
  shows "pollset t \<noteq> [] \<longleftrightarrow> (\<exists>fd. polled t fd \<noteq> 0)"
proof
  assume "pollset t \<noteq> []"
  then obtain fd m ps where ps: "pollset t = (fd, m) # ps" by (metis list.exhaust surj_pair)
  then have "polled t fd = m" by (simp add: polled_def)
  then show "\<exists>fd. polled t fd \<noteq> 0" using assms ps by (intro exI [of _ fd]) (simp add: poll_ok_def)
qed (auto simp: polled_def)

text \<open>C16: whatever the handlers ask for in each round, after the round the operating system watches each socket for exactly
  what the requests so far amount to, whether by epoll or by poll; the loop goes on exactly while a socket is watched; and in
  each round the handlers that are told of a removal are those whose last round watched them for it and this one does not.\<close>

theorem interest_follows:
  assumes "accepts_valid ctl" and "fair_asks p True (concat rss)"
  shows "\<exists>gones s hones t. mux_rounds (epoll_handle ctl) rss (epoll_start p) = Some (gones, s)
    \<and> mux_rounds (\<lambda>e s. Some (poll_handle e s)) rss (poll_start p) = Some (hones, t)
    \<and> watched s = spec_masks p rss \<and> polled t = spec_masks p rss
    \<and> (shadow s > 0 \<longleftrightarrow> (\<exists>fd. spec_masks p rss fd \<noteq> 0)) \<and> (pollset t \<noteq> [] \<longleftrightarrow> (\<exists>fd. spec_masks p rss fd \<noteq> 0))
    \<and> map set gones = spec_gone p rss ((\<lambda>_. 0)(p := input_mask)) \<and> map set hones = map set gones"
proof -
  have p: "pipe_in (epoll_start p) = p" "pipe_in (poll_start p) = p" "events (epoll_start p) = []" "events (poll_start p) = []"
    by (simp_all add: epoll_start_def poll_start_def)
  obtain gones s where s: "mux_rounds (epoll_handle ctl) rss (epoll_start p) = Some (gones, s)" "epoll_ok s"
      "watched s = spec_masks p rss" "map set gones = spec_gone p rss ((\<lambda>_. 0)(p := input_mask))"
    using interest.rounds_reg [OF epoll_interest [OF assms(1)] mux_start(1) p(3)] assms(2)
    unfolding p(1) mux_start(2) spec_masks_def by blast
  obtain hones t where t: "mux_rounds (\<lambda>e s. Some (poll_handle e s)) rss (poll_start p) = Some (hones, t)" "poll_ok t"
      "polled t = spec_masks p rss" "map set hones = spec_gone p rss ((\<lambda>_. 0)(p := input_mask))"
    using poll.rounds_reg [OF mux_start(3) p(4)] assms(2)
    unfolding p(2) mux_start(4) spec_masks_def by blast
  have "shadow s > 0 \<longleftrightarrow> (\<exists>fd. spec_masks p rss fd \<noteq> 0)"
    using s(2) unfolding epoll_ok_def s(3) by (auto simp: card_gt_0_iff)
  moreover have "pollset t \<noteq> [] \<longleftrightarrow> (\<exists>fd. spec_masks p rss fd \<noteq> 0)"
    using polled_nonempty [OF t(2)] unfolding t(3) .
  ultimately show ?thesis using s t by auto
qed

theorem interest_follows_witness:
  "\<exists>gones s. mux_rounds (epoll_handle linux_ctl) [[Add Op_read 7, Add Op_write 7], [Del Op_read 7, Close_pipe, Add Op_read 5, Del Op_read 5]]
       (epoll_start 3) = Some (gones, s)
     \<and> watched s 7 = output_mask \<and> watched s 3 = 0 \<and> watched s 5 = 0 \<and> shadow s > 0 \<and> (7, Op_read) \<in> set (gones ! 1)"
proof -
  let ?rss = "[[Add Op_read 7, Add Op_write 7], [Del Op_read 7, Close_pipe, Add Op_read 5, Del Op_read 5]]"
  have m: "spec_masks 3 ?rss 7 = output_mask" "spec_masks 3 ?rss 3 = 0" "spec_masks 3 ?rss 5 = 0"
    by (simp_all add: spec_masks_def input_mask_def output_mask_def)
  have g: "length (spec_gone 3 ?rss ((\<lambda>_. 0)(3 := input_mask))) = 2"
      "(7, Op_read) \<in> spec_gone 3 ?rss ((\<lambda>_. 0)(3 := input_mask)) ! 1"
    by (simp_all add: Let_def gone_from_def input_mask_def output_mask_def bit_simps)
  have "\<exists>fd. spec_masks 3 ?rss fd \<noteq> 0" using m(1) by (intro exI [of _ 7]) (simp add: output_mask_def)
  then obtain gones s where s: "mux_rounds (epoll_handle linux_ctl) ?rss (epoll_start 3) = Some (gones, s)"
      "watched s = spec_masks 3 ?rss" "shadow s > 0" "map set gones = spec_gone 3 ?rss ((\<lambda>_. 0)(3 := input_mask))"
    using interest_follows [OF linux_accepts, of 3 ?rss] by (auto simp del: spec_gone.simps)
  have "length gones = 2" "set (gones ! 1) = map set gones ! 1" using s(4) g(1) by (metis length_map, metis g(1) length_map nth_map one_less_numeral_iff semiring_norm(76))
  then show ?thesis using s m g by (auto simp del: spec_gone.simps)
qed

end
