(* ===== verification/StreamIo.thy ===== *)
theory StreamIo
  imports Multiplexer
begin

text \<open>
  Connections (libcaf_io/src/default_multiplexer.cpp, src/scribe.cpp, src/manager.cpp, caf/io/receive_policy.hpp and
  src/abstract_broker.cpp): a stream collects what its socket receives until the receive policy is met and hands it to
  its broker, and sends what the broker wrote. The code of the broker is a parameter: it answers a message with the
  calls it makes. The socket is a queue of received bytes and a list of sent ones; how much a call of \<open>recv\<close> or
  \<open>send\<close> transfers is a parameter. \<open>crashed\<close> stands for the access through a null pointer.
\<close>

section \<open>State\<close>

type_synonym octets = "u8 list"

datatype receive_policy_flag = At_least | At_most | Exactly

type_synonym read_config = "receive_policy_flag \<times> nat"

record stream_conn =
  parent :: bool
  launched :: bool
  msg_buf :: octets
  read_channel_closed :: bool
  reader :: bool
  read_threshold :: nat
  collected :: nat
  max_bytes :: nat
  rd_flag :: receive_policy_flag
  rd_buf :: octets
  writer :: bool
  ack_writes :: bool
  writing :: bool
  written :: nat
  wr_buf :: octets
  wr_offline_buf :: octets
  in_queue :: octets
  arrived :: octets
  new_data :: "octets list"
  put_bytes :: octets
  sent_bytes :: octets

text \<open>Messages to the broker, and the calls that it makes.\<close>

datatype broker_note = New_data octets | Connection_closed | Data_transferred nat nat

datatype broker_command =
    Configure_read int read_config
  | Ack_writes int bool
  | Write int octets
  | Flush int
  | Close int

type_synonym 'u handler = "'u \<Rightarrow> int \<Rightarrow> broker_note \<Rightarrow> 'u \<times> broker_command list"

record 'u io =
  mx :: epoll_mux
  conns :: "int \<Rightarrow> stream_conn"
  broker :: 'u
  threw :: bool
  crashed :: bool

definition set_conn :: "int \<Rightarrow> stream_conn \<Rightarrow> 'u io \<Rightarrow> 'u io" where
  "set_conn fd c s = s\<lparr>conns := (conns s)(fd := c)\<rparr>"

definition upd_conn :: "int \<Rightarrow> (stream_conn \<Rightarrow> stream_conn) \<Rightarrow> 'u io \<Rightarrow> 'u io" where
  "upd_conn fd f s = set_conn fd (f (conns s fd)) s"

definition upd_mx :: "(epoll_mux \<Rightarrow> epoll_mux) \<Rightarrow> 'u io \<Rightarrow> 'u io" where
  "upd_mx f s = s\<lparr>mx := f (mx s)\<rparr>"

section \<open>Streams\<close>

definition resize :: "nat \<Rightarrow> octets \<Rightarrow> octets" where
  "resize n xs = take n xs @ replicate (n - length xs) 0"

definition stream_configure_read :: "read_config \<Rightarrow> stream_conn \<Rightarrow> stream_conn" where
  "stream_configure_read cfg c = c\<lparr>rd_flag := fst cfg, max_bytes := snd cfg\<rparr>"

definition new_stream :: stream_conn where
  "new_stream = stream_configure_read (At_most, 1024)
     \<lparr>parent = True, launched = False, msg_buf = [], read_channel_closed = False, reader = False, read_threshold = 1,
      collected = 0, max_bytes = 0, rd_flag = At_least, rd_buf = [], writer = False, ack_writes = False, writing = False,
      written = 0, wr_buf = [], wr_offline_buf = [], in_queue = [], arrived = [], new_data = [], put_bytes = [], sent_bytes = []\<rparr>"

definition prepare_next_read :: "stream_conn \<Rightarrow> stream_conn" where
  "prepare_next_read c =
     (let c = c\<lparr>collected := 0\<rparr>
      in case rd_flag c of
           Exactly \<Rightarrow>
             (if length (rd_buf c) \<noteq> max_bytes c then c\<lparr>rd_buf := resize (max_bytes c) (rd_buf c)\<rparr> else c)
               \<lparr>read_threshold := max_bytes c\<rparr>
         | At_most \<Rightarrow>
             (if length (rd_buf c) \<noteq> max_bytes c then c\<lparr>rd_buf := resize (max_bytes c) (rd_buf c)\<rparr> else c)
               \<lparr>read_threshold := 1\<rparr>
         | At_least \<Rightarrow>
             let max_size = max_bytes c + max 100 (max_bytes c div 10)
             in (if length (rd_buf c) \<noteq> max_size then c\<lparr>rd_buf := resize max_size (rd_buf c)\<rparr> else c)
                  \<lparr>read_threshold := max_bytes c\<rparr>)"

definition prepare_next_write :: "int \<Rightarrow> 'u io \<Rightarrow> 'u io" where
  "prepare_next_write fd s =
     (let c = (conns s fd)\<lparr>written := 0, wr_buf := []\<rparr>
      in if wr_offline_buf c = []
         then upd_mx (mux_del Op_write fd) (set_conn fd (c\<lparr>writing := False\<rparr>) s)
         else set_conn fd (c\<lparr>wr_buf := wr_offline_buf c, wr_offline_buf := []\<rparr>) s)"

definition stream_start :: "int \<Rightarrow> 'u io \<Rightarrow> 'u io" where
  "stream_start fd s =
     upd_conn fd prepare_next_read (upd_mx (mux_add Op_read fd) (upd_conn fd (\<lambda>c. c\<lparr>reader := True\<rparr>) s))"

definition stream_write :: "int \<Rightarrow> octets \<Rightarrow> 'u io \<Rightarrow> 'u io" where
  "stream_write fd bs s =
     upd_conn fd (\<lambda>c. c\<lparr>wr_offline_buf := wr_offline_buf c @ bs, put_bytes := put_bytes c @ bs\<rparr>) s"

definition stream_flush :: "int \<Rightarrow> 'u io \<Rightarrow> 'u io" where
  "stream_flush fd s =
     (if wr_offline_buf (conns s fd) \<noteq> [] \<and> \<not> writing (conns s fd)
      then prepare_next_write fd
             (upd_conn fd (\<lambda>c. c\<lparr>writer := True, writing := True\<rparr>) (upd_mx (mux_add Op_write fd) s))
      else s)"

definition stream_stop_reading :: "int \<Rightarrow> 'u io \<Rightarrow> 'u io" where
  "stream_stop_reading fd s =
     upd_mx (mux_del Op_read fd) (upd_conn fd (\<lambda>c. c\<lparr>read_channel_closed := True\<rparr>) s)"

definition stream_removed_from_loop :: "operation \<Rightarrow> stream_conn \<Rightarrow> stream_conn" where
  "stream_removed_from_loop op c =
     (case op of Op_read \<Rightarrow> c\<lparr>reader := False\<rparr> | Op_write \<Rightarrow> c\<lparr>writer := False\<rparr> | Propagate_error \<Rightarrow> c)"

section \<open>Scribes and the calls of a broker\<close>

definition scribe_configure_read :: "int \<Rightarrow> read_config \<Rightarrow> 'u io \<Rightarrow> 'u io" where
  "scribe_configure_read fd cfg s =
     (let s = upd_conn fd (stream_configure_read cfg) s
      in if launched (conns s fd) then s else stream_start fd (upd_conn fd (\<lambda>c. c\<lparr>launched := True\<rparr>) s))"

text \<open>Without a message to the broker, \<open>detach\<close> only gives up the connection.\<close>

definition scribe_stop_reading :: "int \<Rightarrow> 'u io \<Rightarrow> 'u io" where
  "scribe_stop_reading fd s = upd_conn fd (\<lambda>c. c\<lparr>parent := False\<rparr>) (stream_stop_reading fd s)"

fun target :: "broker_command \<Rightarrow> int" where
  "target (Configure_read fd cfg) = fd"
| "target (Ack_writes fd b) = fd"
| "target (Write fd bs) = fd"
| "target (Flush fd) = fd"
| "target (Close fd) = fd"

fun exec_command :: "broker_command \<Rightarrow> 'u io \<Rightarrow> 'u io" where
  "exec_command (Configure_read fd cfg) s = scribe_configure_read fd cfg s"
| "exec_command (Ack_writes fd b) s = upd_conn fd (\<lambda>c. c\<lparr>ack_writes := b\<rparr>) s"
| "exec_command (Write fd bs) s = stream_write fd bs s"
| "exec_command (Flush fd) s = stream_flush fd s"
| "exec_command (Close fd) s = scribe_stop_reading fd s"

text \<open>\<open>by_id\<close> raises an error for a connection that the broker does not have, which ends the handler.\<close>

primrec run_commands :: "broker_command list \<Rightarrow> 'u io \<Rightarrow> 'u io" where
  "run_commands [] s = s"
| "run_commands (cmd # cmds) s =
     (if parent (conns s (target cmd)) then run_commands cmds (exec_command cmd s) else s\<lparr>threw := True\<rparr>)"

definition tell_broker :: "'u handler \<Rightarrow> int \<Rightarrow> broker_note \<Rightarrow> 'u io \<Rightarrow> 'u io" where
  "tell_broker user fd n s = (case user (broker s) fd n of (u, cmds) \<Rightarrow> run_commands cmds (s\<lparr>broker := u\<rparr>))"

definition scribe_detach :: "'u handler \<Rightarrow> int \<Rightarrow> 'u io \<Rightarrow> 'u io" where
  "scribe_detach user fd s =
     (if parent (conns s fd) then tell_broker user fd Connection_closed (upd_conn fd (\<lambda>c. c\<lparr>parent := False\<rparr>) s) else s)"

definition scribe_consume :: "'u handler \<Rightarrow> int \<Rightarrow> nat \<Rightarrow> 'u io \<Rightarrow> 'u io" where
  "scribe_consume user fd n s =
     (if \<not> parent (conns s fd) then s
      else
        let buf = resize n (rd_buf (conns s fd));
            s = upd_conn fd (\<lambda>c. c\<lparr>rd_buf := msg_buf c, msg_buf := buf, new_data := new_data c @ [buf]\<rparr>) s;
            s = tell_broker user fd (New_data buf) s;
            s = upd_conn fd (\<lambda>c. c\<lparr>rd_buf := msg_buf c, msg_buf := rd_buf c\<rparr>) s
        in stream_flush fd s)"

definition scribe_data_transferred :: "'u handler \<Rightarrow> int \<Rightarrow> nat \<Rightarrow> nat \<Rightarrow> 'u io \<Rightarrow> 'u io" where
  "scribe_data_transferred user fd n remaining s =
     (if parent (conns s fd) then tell_broker user fd (Data_transferred n remaining) s else s)"

definition scribe_io_failure :: "'u handler \<Rightarrow> int \<Rightarrow> 'u io \<Rightarrow> 'u io" where
  "scribe_io_failure user fd s = scribe_detach user fd s"

section \<open>Events on sockets\<close>

text \<open>What \<open>recv\<close> and \<open>send\<close> do: transfer up to a number of octets, at least one if there are any.\<close>

datatype recv_result = Received nat | Recv_would_block | Peer_closed | Recv_failed

datatype send_result = Sent_up_to nat | Send_would_block | Send_failed

text \<open>\<open>None\<close> is the result false; \<open>recv\<close> with a length of 0 returns 0, which is taken for a shutdown.\<close>

fun read_some :: "recv_result \<Rightarrow> nat \<Rightarrow> octets \<Rightarrow> octets option \<times> octets" where
  "read_some (Received k) len q =
     (if len = 0 then (None, q) else let n = min (Suc k) len in (Some (take n q), drop n q))"
| "read_some Recv_would_block len q = (Some [], q)"
| "read_some Peer_closed len q = (None, q)"
| "read_some Recv_failed len q = (None, q)"

fun write_some :: "send_result \<Rightarrow> octets \<Rightarrow> octets option" where
  "write_some (Sent_up_to k) bs = Some (take (Suc k) bs)"
| "write_some Send_would_block bs = Some []"
| "write_some Send_failed bs = None"

definition crash :: "'u io \<Rightarrow> 'u io" where "crash s = s\<lparr>crashed := True\<rparr>"

primrec read_loop :: "'u handler \<Rightarrow> int \<Rightarrow> (nat \<Rightarrow> recv_result) \<Rightarrow> nat \<Rightarrow> nat \<Rightarrow> 'u io \<Rightarrow> 'u io" where
  "read_loop user fd recv i 0 s = s"
| "read_loop user fd recv i (Suc n) s =
     (let c = conns s fd
      in case read_some (recv i) (length (rd_buf c) - collected c) (in_queue c) of
           (None, q) \<Rightarrow>
             if reader c then upd_mx (mux_del Op_read fd) (scribe_io_failure user fd s) else crash s
         | (Some got, q) \<Rightarrow>
             if got = [] then s
             else
               let c = c\<lparr>in_queue := q, rd_buf := take (collected c) (rd_buf c) @ got @ drop (collected c + length got) (rd_buf c),
                         collected := collected c + length got\<rparr>;
                   s = set_conn fd c s
               in if collected c \<ge> read_threshold c
                  then if reader c
                       then read_loop user fd recv (Suc i) n
                              (upd_conn fd prepare_next_read (scribe_consume user fd (collected c) s))
                       else crash s
                  else read_loop user fd recv (Suc i) n s)"

definition handle_write :: "'u handler \<Rightarrow> int \<Rightarrow> send_result \<Rightarrow> 'u io \<Rightarrow> 'u io" where
  "handle_write user fd send s =
     (let c = conns s fd
      in case write_some send (drop (written c) (wr_buf c)) of
           None \<Rightarrow> if writer c then upd_mx (mux_del Op_write fd) (scribe_io_failure user fd s) else crash s
         | Some bs \<Rightarrow>
             if bs = [] then s
             else
               let wb = length bs;
                   c = c\<lparr>written := written c + wb, sent_bytes := sent_bytes c @ bs\<rparr>;
                   remaining = length (wr_buf c) - written c;
                   s = set_conn fd c s;
                   s = (if ack_writes c
                        then if writer c
                             then scribe_data_transferred user fd wb (remaining + length (wr_offline_buf c)) s
                             else crash s
                        else s)
               in if remaining = 0 then prepare_next_write fd s else s)"

definition handle_error :: "'u handler \<Rightarrow> int \<Rightarrow> 'u io \<Rightarrow> 'u io" where
  "handle_error user fd s =
     (let s = (if reader (conns s fd) then scribe_io_failure user fd s else s)
      in if writer (conns s fd) then scribe_io_failure user fd s else s)"

definition handle_socket_event ::
    "nat \<Rightarrow> 'u handler \<Rightarrow> int \<Rightarrow> u32 \<Rightarrow> (nat \<Rightarrow> recv_result) \<Rightarrow> send_result \<Rightarrow> 'u io \<Rightarrow> 'u io" where
  "handle_socket_event mcr user fd m recv send s =
     (let checkerror = (m AND input_mask = 0 \<and> m AND output_mask = 0);
          s = (if m AND input_mask \<noteq> 0 \<and> \<not> read_channel_closed (conns s fd) then read_loop user fd recv 0 mcr s else s);
          s = (if m AND output_mask \<noteq> 0 then handle_write user fd send s else s)
      in if checkerror \<and> m AND error_mask \<noteq> 0
         then upd_mx (mux_del Op_write fd) (upd_mx (mux_del Op_read fd) (handle_error user fd s))
         else s)"

section \<open>The loop\<close>

text \<open>An event of the pipe resumes the broker, which makes some calls; bytes arrive at any time.\<close>

datatype ready_event = Socket int u32 "nat \<Rightarrow> recv_result" send_result | Resume "broker_command list"

fun handle_ready :: "nat \<Rightarrow> 'u handler \<Rightarrow> ready_event \<Rightarrow> 'u io \<Rightarrow> 'u io" where
  "handle_ready mcr user (Socket fd m recv send) s = handle_socket_event mcr user fd m recv send s"
| "handle_ready mcr user (Resume cmds) s = run_commands cmds s"

definition end_round ::
    "(mux_event \<Rightarrow> epoll_mux \<Rightarrow> ((int \<times> operation) list \<times> epoll_mux) option) \<Rightarrow> 'u io \<Rightarrow> 'u io" where
  "end_round handle s =
     (case handle_all handle (events (mx s)) (mx s) of
        None \<Rightarrow> crash s
      | Some (gone, m) \<Rightarrow> fold (\<lambda>(fd, op). upd_conn fd (stream_removed_from_loop op)) gone (s\<lparr>mx := m\<rparr>))"

datatype io_event = Arrive int octets | Round "ready_event list"

fun io_step ::
    "(mux_event \<Rightarrow> epoll_mux \<Rightarrow> ((int \<times> operation) list \<times> epoll_mux) option) \<Rightarrow> nat \<Rightarrow> 'u handler \<Rightarrow> io_event \<Rightarrow> 'u io \<Rightarrow> 'u io" where
  "io_step handle mcr user (Arrive fd bs) s = upd_conn fd (\<lambda>c. c\<lparr>in_queue := in_queue c @ bs, arrived := arrived c @ bs\<rparr>) s"
| "io_step handle mcr user (Round rs) s = end_round handle (fold (handle_ready mcr user) rs s)"

definition io_start :: "int \<Rightarrow> 'u \<Rightarrow> 'u io" where
  "io_start p u = \<lparr>mx = epoll_start p, conns = \<lambda>_. new_stream, broker = u, threw = False, crashed = False\<rparr>"

end
