(* ===== verification/StreamLemmas.thy ===== *)
theory StreamLemmas
  imports StreamIo MuxProperties
begin

text \<open>The effect of each operation of a connection on the state of its stream, and the invariant of all connections.\<close>

lemmas io_ops = set_conn_def upd_conn_def upd_mx_def

section \<open>Commands\<close>

text \<open>A command changes the connection it names and asks the multiplexer at most once.\<close>

definition start_write :: "stream_conn \<Rightarrow> stream_conn" where
  "start_write c = c\<lparr>writer := True, writing := True, written := 0, wr_buf := wr_offline_buf c, wr_offline_buf := []\<rparr>"

fun cmd_conn :: "broker_command \<Rightarrow> stream_conn \<Rightarrow> stream_conn" where
  "cmd_conn (Configure_read fd cfg) c =
     (if launched c then stream_configure_read cfg c
      else prepare_next_read ((stream_configure_read cfg c)\<lparr>launched := True, reader := True\<rparr>))"
| "cmd_conn (Ack_writes fd b) c = c\<lparr>ack_writes := b\<rparr>"
| "cmd_conn (Write fd bs) c = c\<lparr>wr_offline_buf := wr_offline_buf c @ bs, put_bytes := put_bytes c @ bs\<rparr>"
| "cmd_conn (Flush fd) c = (if wr_offline_buf c \<noteq> [] \<and> \<not> writing c then start_write c else c)"
| "cmd_conn (Close fd) c = c\<lparr>read_channel_closed := True, parent := False\<rparr>"

fun cmd_asks :: "broker_command \<Rightarrow> stream_conn \<Rightarrow> mux_request list" where
  "cmd_asks (Configure_read fd cfg) c = (if launched c then [] else [Add Op_read fd])"
| "cmd_asks (Flush fd) c = (if wr_offline_buf c \<noteq> [] \<and> \<not> writing c then [Add Op_write fd] else [])"
| "cmd_asks (Close fd) c = [Del Op_read fd]"
| "cmd_asks cmd c = []"

definition act_on :: "int \<Rightarrow> (stream_conn \<Rightarrow> stream_conn) \<Rightarrow> mux_request list \<Rightarrow> 'u io \<Rightarrow> 'u io" where
  "act_on fd f rs s = s\<lparr>conns := (conns s)(fd := f (conns s fd)), mx := fold mux_ask rs (mx s)\<rparr>"

lemma launched_configure [simp]: "launched (stream_configure_read cfg c) = launched c"
  by (simp add: stream_configure_read_def)

lemma stream_flush_act:
  "stream_flush fd s = act_on fd (cmd_conn (Flush fd)) (cmd_asks (Flush fd) (conns s fd)) s"
  by (simp add: stream_flush_def act_on_def io_ops prepare_next_write_def Let_def start_write_def)

lemma exec_command_act:
  "exec_command cmd s = act_on (target cmd) (cmd_conn cmd) (cmd_asks cmd (conns s (target cmd))) s"
proof (cases cmd)
  case (Flush fd)
  then show ?thesis using stream_flush_act [of fd s] by simp
qed (simp_all add: act_on_def io_ops scribe_configure_read_def stream_start_def stream_write_def scribe_stop_reading_def
      stream_stop_reading_def Let_def)

section \<open>The invariant\<close>

text \<open>
  What is registered or asked for has a manager, what was written is sent, in the buffer or waiting, and what arrived is
  delivered, collected or in the queue of the socket. A connection is \<open>Busy\<close> while a chunk is being delivered, and
  \<open>Full\<close> between the sending of a buffer and the next one.
\<close>

definition stream_ok :: "u32 \<Rightarrow> u32 \<Rightarrow> stream_conn \<Rightarrow> bool" where
  "stream_ok e w c \<longleftrightarrow> (bit e 0 \<or> bit w 0 \<longrightarrow> reader c \<and> launched c) \<and> (bit e 2 \<longrightarrow> writer c) \<and> (bit w 2 \<longrightarrow> writer c \<and> writing c)"

definition write_ok :: "stream_conn \<Rightarrow> bool" where
  "write_ok c \<longleftrightarrow> (if writing c then written c \<le> length (wr_buf c) else wr_buf c = [] \<and> written c = 0)
     \<and> put_bytes c = sent_bytes c @ drop (written c) (wr_buf c) @ wr_offline_buf c"

definition read_ok :: "stream_conn \<Rightarrow> bool" where
  "read_ok c \<longleftrightarrow> (if launched c then 0 < read_threshold c \<and> read_threshold c \<le> length (rd_buf c) \<and> collected c < read_threshold c
                  else collected c = 0 \<and> new_data c = [])
     \<and> (\<exists>rest. arrived c = concat (new_data c) @ rest)
     \<and> (parent c \<longrightarrow> arrived c = concat (new_data c) @ take (collected c) (rd_buf c) @ in_queue c)"

definition busy_ok :: "stream_conn \<Rightarrow> bool" where
  "busy_ok c \<longleftrightarrow> launched c \<and> arrived c = concat (new_data c) @ in_queue c"

definition unsent :: "stream_conn \<Rightarrow> bool" where
  "unsent c \<longleftrightarrow> (writing c \<longrightarrow> written c < length (wr_buf c))"

datatype mode = Idle | Busy | Full

fun mode_ok :: "mode \<Rightarrow> stream_conn \<Rightarrow> bool" where
  "mode_ok Idle c = (read_ok c \<and> unsent c)"
| "mode_ok Busy c = (busy_ok c \<and> unsent c)"
| "mode_ok Full c = read_ok c"

abbreviation idle :: "int \<Rightarrow> mode" where "idle \<equiv> \<lambda>_. Idle"

lemma idle_upd [simp]: "idle(fd := Idle) = idle" by auto

definition io_inv :: "int \<Rightarrow> (int \<Rightarrow> mode) \<Rightarrow> 'u io \<Rightarrow> bool" where
  "io_inv p A s \<longleftrightarrow> mux_inv watched epoll_ok True (mx s) \<and> pipe_in (mx s) = p \<and> \<not> crashed s
     \<and> (\<forall>fd. fd \<noteq> p \<longrightarrow> stream_ok (eventbf (mx s) fd) (wanted watched (mx s) fd) (conns s fd)
          \<and> write_ok (conns s fd) \<and> 0 < max_bytes (conns s fd)
          \<and> mode_ok (A fd) (conns s fd))"

text \<open>Positive sizes, and no command for the pipe.\<close>

fun cmd_ok :: "int \<Rightarrow> broker_command \<Rightarrow> bool" where
  "cmd_ok p (Configure_read fd cfg) = (fd \<noteq> p \<and> 0 < snd cfg)"
| "cmd_ok p cmd = (target cmd \<noteq> p)"

definition handler_ok :: "int \<Rightarrow> 'u handler \<Rightarrow> bool" where
  "handler_ok p user \<longleftrightarrow> (\<forall>u fd n. list_all (cmd_ok p) (snd (user u fd n)))"

lemma cmd_ok_target: "cmd_ok p cmd \<Longrightarrow> target cmd \<noteq> p"
  by (cases cmd) auto

lemma ask_keeps: "eventbf (mux_ask r m) = eventbf m"
  by (cases r) (simp_all add: mux_add_def mux_del_def close_pipe_def)

lemma fold_ask_keeps:
  "eventbf (fold mux_ask rs m) = eventbf m"
proof (induction rs arbitrary: m)
  case (Cons r rs)
  then show ?case by (cases r) (simp_all add: mux_add_def mux_del_def close_pipe_def)
qed simp

text \<open>Requests for one socket change what is wanted for it only.\<close>

fun own_ask :: "int \<Rightarrow> mux_request \<Rightarrow> bool" where
  "own_ask fd (Add op x) = (x = fd \<and> op \<noteq> Propagate_error)"
| "own_ask fd (Del op x) = (x = fd \<and> op \<noteq> Propagate_error)"
| "own_ask fd Close_pipe = False"

fun ask_mask :: "mux_request \<Rightarrow> u32 \<Rightarrow> u32" where
  "ask_mask (Add op x) w = add_flag op w"
| "ask_mask (Del op x) w = del_flag op w"
| "ask_mask Close_pipe w = 0"

lemma own_asks:
  assumes "mux_inv watched epoll_ok True m" and "pipe_in m = p" and "fd \<noteq> p" and "list_all (own_ask fd) rs"
  shows "mux_inv watched epoll_ok True (fold mux_ask rs m) \<and> pipe_in (fold mux_ask rs m) = p
    \<and> eventbf (fold mux_ask rs m) = eventbf m
    \<and> wanted watched (fold mux_ask rs m) = (wanted watched m)(fd := fold ask_mask rs (wanted watched m fd))"
proof -
  have f: "fair_asks p True rs" "Close_pipe \<notin> set rs"
    using assms(3,4) by (induction rs) (auto elim!: own_ask.elims)
  have "fold (spec_ask p) rs W = W(fd := fold ask_mask rs (W fd))" for W
    using assms(4) by (induction rs arbitrary: W) (auto elim!: own_ask.elims)
  then show ?thesis using epoll.asks_wanted [OF assms(1), of rs] f assms(2) fold_ask_keeps by simp
qed

lemma act_on_inv:
  assumes inv: "io_inv p A s" and fd: "fd \<noteq> p" and rs: "list_all (own_ask fd) rs"
    and ok: "stream_ok (eventbf (mx s) fd) (fold ask_mask rs (wanted watched (mx s) fd)) (f (conns s fd))"
      "write_ok (f (conns s fd))" "0 < max_bytes (f (conns s fd))" "mode_ok m (f (conns s fd))"
  shows "io_inv p (A(fd := m)) (act_on fd f rs s)"
proof -
  have m: "mux_inv watched epoll_ok True (mx s)" "pipe_in (mx s) = p" using inv by (simp_all add: io_inv_def)
  show ?thesis using own_asks [OF m fd rs] inv ok by (auto simp: io_inv_def act_on_def)
qed

section \<open>Commands keep the invariant\<close>

lemma prepare_next_read_fields [simp]:
  "parent (prepare_next_read c) = parent c" "launched (prepare_next_read c) = launched c" "reader (prepare_next_read c) = reader c"
  "writer (prepare_next_read c) = writer c" "writing (prepare_next_read c) = writing c" "written (prepare_next_read c) = written c"
  "wr_buf (prepare_next_read c) = wr_buf c" "wr_offline_buf (prepare_next_read c) = wr_offline_buf c" "in_queue (prepare_next_read c) = in_queue c"
  "arrived (prepare_next_read c) = arrived c" "new_data (prepare_next_read c) = new_data c" "put_bytes (prepare_next_read c) = put_bytes c"
  "sent_bytes (prepare_next_read c) = sent_bytes c" "max_bytes (prepare_next_read c) = max_bytes c" "rd_flag (prepare_next_read c) = rd_flag c"
  "collected (prepare_next_read c) = 0" "read_channel_closed (prepare_next_read c) = read_channel_closed c"
  "ack_writes (prepare_next_read c) = ack_writes c"
  by (simp_all add: prepare_next_read_def Let_def split: receive_policy_flag.split)

lemma length_resize [simp]: "length (resize n xs) = n"
  by (simp add: resize_def)

lemma prepare_next_read_sizes:
  "read_threshold (prepare_next_read c) = (if rd_flag c = At_most then 1 else max_bytes c)"
  "length (rd_buf (prepare_next_read c)) = (if rd_flag c = At_least then max_bytes c + max 100 (max_bytes c div 10) else max_bytes c)"
  by (simp_all add: prepare_next_read_def Let_def split: receive_policy_flag.split)

lemma configure_fields [simp]:
  "parent (stream_configure_read cfg c) = parent c" "reader (stream_configure_read cfg c) = reader c"
  "writer (stream_configure_read cfg c) = writer c" "writing (stream_configure_read cfg c) = writing c"
  "written (stream_configure_read cfg c) = written c" "wr_buf (stream_configure_read cfg c) = wr_buf c"
  "wr_offline_buf (stream_configure_read cfg c) = wr_offline_buf c" "in_queue (stream_configure_read cfg c) = in_queue c"
  "arrived (stream_configure_read cfg c) = arrived c" "new_data (stream_configure_read cfg c) = new_data c"
  "put_bytes (stream_configure_read cfg c) = put_bytes c" "sent_bytes (stream_configure_read cfg c) = sent_bytes c"
  "max_bytes (stream_configure_read cfg c) = snd cfg" "rd_flag (stream_configure_read cfg c) = fst cfg"
  "collected (stream_configure_read cfg c) = collected c" "rd_buf (stream_configure_read cfg c) = rd_buf c"
  "read_threshold (stream_configure_read cfg c) = read_threshold c" "msg_buf (stream_configure_read cfg c) = msg_buf c"
  by (simp_all add: stream_configure_read_def)

lemma own_cmd_asks: "list_all (own_ask (target cmd)) (cmd_asks cmd c)"
  by (cases cmd) auto

lemma cmd_conn_ok:
  "stream_ok e w c \<Longrightarrow> stream_ok e (fold ask_mask (cmd_asks cmd c) w) (cmd_conn cmd c)"
  by (cases cmd) (auto simp: stream_ok_def io_flag_bits start_write_def simp del: add_flag.simps del_flag.simps)

lemma cmd_write_ok: "write_ok c \<Longrightarrow> write_ok (cmd_conn cmd c)"
  by (cases cmd) (auto simp: write_ok_def start_write_def)

lemma cmd_max_bytes: "cmd_ok p cmd \<Longrightarrow> 0 < max_bytes c \<Longrightarrow> 0 < max_bytes (cmd_conn cmd c)"
  by (cases cmd) (auto simp: start_write_def)

lemma cmd_read_ok:
  assumes "cmd_ok p cmd" and "read_ok c"
  shows "read_ok (cmd_conn cmd c)"
proof (cases cmd)
  case (Configure_read fd cfg)
  then show ?thesis using assms by (auto simp: read_ok_def prepare_next_read_sizes)
qed (use assms in \<open>auto simp: read_ok_def start_write_def\<close>)

lemma cmd_busy_ok: "busy_ok c \<Longrightarrow> busy_ok (cmd_conn cmd c)"
  by (cases cmd) (auto simp: busy_ok_def start_write_def)

lemma cmd_mode_ok:
  assumes "cmd_ok p cmd" and "mode_ok m c"
  shows "mode_ok m (cmd_conn cmd c)"
proof -
  have "unsent c \<Longrightarrow> unsent (cmd_conn cmd c)" by (cases cmd) (auto simp: unsent_def start_write_def)
  then show ?thesis using assms cmd_read_ok [OF assms(1)] cmd_busy_ok by (cases m) auto
qed

lemma exec_command_inv:
  assumes "io_inv p A s" and "cmd_ok p cmd"
  shows "io_inv p A (exec_command cmd s)"
proof -
  let ?fd = "target cmd" and ?c = "conns s (target cmd)"
  have c: "stream_ok (eventbf (mx s) ?fd) (wanted watched (mx s) ?fd) ?c" "write_ok ?c" "0 < max_bytes ?c" "mode_ok (A ?fd) ?c"
    using assms(1) cmd_ok_target [OF assms(2)] by (auto simp: io_inv_def)
  have "io_inv p (A(?fd := A ?fd)) (exec_command cmd s)"
    unfolding exec_command_act
    by (rule act_on_inv [where f = "cmd_conn cmd" and m = "A ?fd", OF assms(1) cmd_ok_target [OF assms(2)] own_cmd_asks
          cmd_conn_ok [OF c(1)] cmd_write_ok [OF c(2)] cmd_max_bytes [OF assms(2) c(3)] cmd_mode_ok [OF assms(2) c(4)]])
  then show ?thesis by simp
qed

text \<open>What commands leave alone: what a launched stream has collected, and what is registered.\<close>

definition kept :: "'u io \<Rightarrow> 'u io \<Rightarrow> bool" where
  "kept s s' \<longleftrightarrow> eventbf (mx s') = eventbf (mx s) \<and> (threw s \<longrightarrow> threw s')
     \<and> (\<forall>fd. (parent (conns s' fd) \<longrightarrow> parent (conns s fd)) \<and> (reader (conns s fd) \<longrightarrow> reader (conns s' fd))
          \<and> (writer (conns s fd) \<longrightarrow> writer (conns s' fd)) \<and> sent_bytes (conns s' fd) = sent_bytes (conns s fd)
          \<and> new_data (conns s' fd) = new_data (conns s fd) \<and> arrived (conns s' fd) = arrived (conns s fd) \<and> in_queue (conns s' fd) = in_queue (conns s fd)
          \<and> (writing (conns s fd) \<longrightarrow> writing (conns s' fd) \<and> wr_buf (conns s' fd) = wr_buf (conns s fd) \<and> written (conns s' fd) = written (conns s fd))
          \<and> (launched (conns s fd) \<longrightarrow> launched (conns s' fd) \<and> rd_buf (conns s' fd) = rd_buf (conns s fd)
               \<and> msg_buf (conns s' fd) = msg_buf (conns s fd)
               \<and> collected (conns s' fd) = collected (conns s fd) \<and> read_threshold (conns s' fd) = read_threshold (conns s fd)))"

lemma kept_refl [simp]: "kept s s" by (simp add: kept_def)

lemma kept_trans: "kept s t \<Longrightarrow> kept t u \<Longrightarrow> kept s u"
  unfolding kept_def by fastforce

lemma exec_command_kept: "kept s (exec_command cmd s)"
  unfolding exec_command_act
  by (cases cmd) (auto simp: kept_def act_on_def fold_ask_keeps start_write_def mux_add_def mux_del_def)

lemma run_commands_inv:
  assumes "io_inv p A s" and "list_all (cmd_ok p) cmds"
  shows "io_inv p A (run_commands cmds s) \<and> kept s (run_commands cmds s)"
  using assms
proof (induction cmds arbitrary: s)
  case (Cons cmd cmds)
  have "io_inv p A (exec_command cmd s)" using Cons.prems by (intro exec_command_inv) simp_all
  then have "io_inv p A (run_commands cmds (exec_command cmd s)) \<and> kept (exec_command cmd s) (run_commands cmds (exec_command cmd s))"
    using Cons.IH Cons.prems(2) by simp
  moreover have "io_inv p A (s\<lparr>threw := True\<rparr>)" "kept s (s\<lparr>threw := True\<rparr>)"
    using Cons.prems(1) by (simp_all add: io_inv_def kept_def)
  moreover have "kept s (run_commands cmds (exec_command cmd s))" using calculation(1) kept_trans [OF exec_command_kept] by blast
  ultimately show ?case by simp
qed simp

lemma tell_broker_inv:
  assumes "io_inv p A s" and "handler_ok p user"
  shows "io_inv p A (tell_broker user fd n s) \<and> kept s (tell_broker user fd n s)"
proof -
  obtain u cmds where u: "user (broker s) fd n = (u, cmds)" by fastforce
  then have "list_all (cmd_ok p) cmds" using assms(2) unfolding handler_ok_def by (metis snd_conv)
  moreover have "io_inv p A (s\<lparr>broker := u\<rparr>)" using assms(1) by (simp add: io_inv_def)
  ultimately have "io_inv p A (run_commands cmds (s\<lparr>broker := u\<rparr>)) \<and> kept (s\<lparr>broker := u\<rparr>) (run_commands cmds (s\<lparr>broker := u\<rparr>))"
    by (rule run_commands_inv [rotated])
  then show ?thesis using u by (simp add: tell_broker_def kept_def)
qed

section \<open>Reading keeps the invariant\<close>

lemma io_invD:
  assumes "io_inv p A s" and "fd \<noteq> p"
  shows "stream_ok (eventbf (mx s) fd) (wanted watched (mx s) fd) (conns s fd)" "write_ok (conns s fd)" "0 < max_bytes (conns s fd)"
    "mode_ok (A fd) (conns s fd)"
  using assms by (auto simp: io_inv_def)

lemma act_on_keeps [simp]: "eventbf (mx (act_on fd f rs s)) = eventbf (mx s)" "broker (act_on fd f rs s) = broker s"
  by (simp_all add: act_on_def fold_ask_keeps)

text \<open>A change of the read part of one connection.\<close>

definition same_write :: "stream_conn \<Rightarrow> stream_conn \<Rightarrow> bool" where
  "same_write c d \<longleftrightarrow> reader d = reader c \<and> launched d = launched c \<and> writer d = writer c \<and> writing d = writing c
     \<and> written d = written c \<and> wr_buf d = wr_buf c \<and> wr_offline_buf d = wr_offline_buf c \<and> put_bytes d = put_bytes c
     \<and> sent_bytes d = sent_bytes c \<and> max_bytes d = max_bytes c"

lemma same_write_unsent: "same_write c d \<Longrightarrow> unsent d = unsent c"
  by (simp add: same_write_def unsent_def)

lemma conn_ok_less: "stream_ok e w c \<Longrightarrow> (bit w' 0 \<longrightarrow> bit w 0) \<Longrightarrow> (bit w' 2 \<longrightarrow> bit w 2) \<Longrightarrow> stream_ok e w' c"
  by (auto simp: stream_ok_def)

lemma ask_less:
  assumes "rs = [] \<or> rs = [Del Op_read fd] \<or> rs = [Del Op_write fd]"
  shows "(bit (fold ask_mask rs w) 0 \<longrightarrow> bit w 0) \<and> (bit (fold ask_mask rs w) 2 \<longrightarrow> bit w 2)" "list_all (own_ask fd) rs"
  using assms io_flag_bits [of w] by (auto simp del: del_flag.simps)

lemma act_on_read:
  assumes "io_inv p A s" and "fd \<noteq> p" and "rs = [] \<or> rs = [Del Op_read fd] \<or> rs = [Del Op_write fd]"
    and "same_write (conns s fd) (f (conns s fd))"
    and "mode_ok m (f (conns s fd))"
  shows "io_inv p (A(fd := m)) (act_on fd f rs s)"
proof (rule act_on_inv [where f = f and m = m, OF assms(1,2) _ _ _ _ assms(5)])
  note i = io_invD(1-3) [OF assms(1,2)]
  have "stream_ok (eventbf (mx s) fd) (wanted watched (mx s) fd) (f (conns s fd))"
    using i(1) assms(4) by (simp add: stream_ok_def same_write_def)
  then show "stream_ok (eventbf (mx s) fd) (fold ask_mask rs (wanted watched (mx s) fd)) (f (conns s fd))"
    using ask_less [OF assms(3)] conn_ok_less by blast
  show "write_ok (f (conns s fd))" using i(2) assms(4) by (simp add: write_ok_def same_write_def)
  show "list_all (own_ask fd) rs" by (rule ask_less(2) [OF assms(3)])
qed (use io_invD(3) [OF assms(1,2)] assms(4) in \<open>simp add: same_write_def\<close>)

lemma scribe_detach_inv:
  assumes "io_inv p A s" and "fd \<noteq> p" and "handler_ok p user"
  shows "io_inv p A (scribe_detach user fd s) \<and> kept s (scribe_detach user fd s)"
proof (cases "parent (conns s fd)")
  case True
  let ?t = "act_on fd (\<lambda>c. c\<lparr>parent := False\<rparr>) [] s"
  have "mode_ok m c \<Longrightarrow> mode_ok m (c\<lparr>parent := False\<rparr>)" for m c
    by (cases m) (auto simp: read_ok_def busy_ok_def unsent_def)
  then have "io_inv p (A(fd := A fd)) ?t"
    by (intro act_on_read [OF assms(1,2)]) (use io_invD(4) [OF assms(1,2)] in \<open>simp_all add: same_write_def\<close>)
  then have "io_inv p A ?t" by simp
  moreover have "kept s ?t" by (simp add: kept_def act_on_def)
  moreover have "upd_conn fd (\<lambda>c. c\<lparr>parent := False\<rparr>) s = ?t" by (simp add: act_on_def io_ops)
  ultimately show ?thesis using True tell_broker_inv [OF _ assms(3)] kept_trans by (metis scribe_detach_def)
qed (simp add: scribe_detach_def assms(1))

text \<open>The end of an event that failed.\<close>

lemma fail_inv:
  assumes "io_inv p A s" and "fd \<noteq> p" and "handler_ok p user" and "op \<noteq> Propagate_error"
  shows "io_inv p A (upd_mx (mux_del op fd) (scribe_io_failure user fd s))
    \<and> eventbf (mx (upd_mx (mux_del op fd) (scribe_io_failure user fd s))) = eventbf (mx s)"
proof -
  let ?t = "scribe_detach user fd s"
  have t: "io_inv p A ?t" "eventbf (mx ?t) = eventbf (mx s)" using scribe_detach_inv [OF assms(1-3)] by (auto simp: kept_def)
  have u: "upd_mx (mux_del op fd) ?t = act_on fd id [Del op fd] ?t" by (simp add: act_on_def io_ops)
  have "io_inv p (A(fd := A fd)) (act_on fd id [Del op fd] ?t)"
    by (rule act_on_read [OF t(1) assms(2)])
      (use assms(4) io_invD(4) [OF t(1) assms(2)] in \<open>auto simp: same_write_def intro: operation.exhaust [of op]\<close>)
  then show ?thesis using t(2) unfolding scribe_io_failure_def u by simp
qed

lemma read_some_got:
  assumes "read_some r len q = (Some got, q')" and "got \<noteq> []"
  shows "q = got @ q'" "length got \<le> len"
  using assms by (cases r; auto split: if_splits simp: Let_def)+

definition store_got :: "octets \<Rightarrow> octets \<Rightarrow> stream_conn \<Rightarrow> stream_conn" where
  "store_got got q c = c\<lparr>in_queue := q, rd_buf := take (collected c) (rd_buf c) @ got @ drop (collected c + length got) (rd_buf c),
     collected := collected c + length got\<rparr>"

lemma store_got_fields:
  assumes "read_ok c" and "launched c" and "in_queue c = got @ q" and "length got \<le> length (rd_buf c) - collected c"
  shows "length (rd_buf (store_got got q c)) = length (rd_buf c)"
    "take (collected c + length got) (rd_buf (store_got got q c)) = take (collected c) (rd_buf c) @ got"
    "collected c + length got \<le> length (rd_buf c)"
  using assms by (auto simp: read_ok_def store_got_def)

text \<open>Delivery of a chunk: the stream is busy until the next read is prepared.\<close>

definition busy_conn :: "stream_conn \<Rightarrow> stream_conn" where
  "busy_conn c = (let buf = resize (collected c) (rd_buf c) in c\<lparr>rd_buf := msg_buf c, msg_buf := buf, new_data := new_data c @ [buf]\<rparr>)"

definition next_conn :: "stream_conn \<Rightarrow> stream_conn" where
  "next_conn c = prepare_next_read (cmd_conn (Flush 0) (c\<lparr>rd_buf := msg_buf c, msg_buf := rd_buf c\<rparr>))"

lemma deliver_eq:
  assumes "parent (conns s fd)"
  shows "upd_conn fd prepare_next_read (scribe_consume user fd (collected (conns s fd)) s)
    = (let t = act_on fd busy_conn [] s; u = tell_broker user fd (New_data (resize (collected (conns s fd)) (rd_buf (conns s fd)))) t
       in act_on fd next_conn (cmd_asks (Flush fd) (conns u fd)) u)"
  using assms
  by (simp add: scribe_consume_def Let_def stream_flush_act act_on_def io_ops busy_conn_def next_conn_def)

lemma deliver_inv:
  assumes inv: "io_inv p idle s" and fd: "fd \<noteq> p" and user: "handler_ok p user"
    and c: "launched (conns s fd)" "in_queue (conns s fd) = got @ q" "length got \<le> length (rd_buf (conns s fd)) - collected (conns s fd)"
  defines "t \<equiv> set_conn fd (store_got got q (conns s fd)) s"
  shows "io_inv p idle (upd_conn fd prepare_next_read (scribe_consume user fd (collected (conns t fd)) t))
    \<and> eventbf (mx (upd_conn fd prepare_next_read (scribe_consume user fd (collected (conns t fd)) t))) = eventbf (mx s)"
proof -
  let ?c = "conns s fd" and ?d = "store_got got q (conns s fd)"
  note i = io_invD [OF inv fd]
  have r: "read_ok ?c" "unsent ?c" using i(4) by simp_all
  note g = store_got_fields [OF r(1) c]
  have td: "conns t fd = ?d" by (simp add: t_def io_ops)
  show ?thesis
  proof (cases "parent ?c")
    case True
    define u where "u = act_on fd (\<lambda>_. busy_conn ?d) [] s"
    have u1: "act_on fd busy_conn [] t = u" by (simp add: u_def t_def act_on_def io_ops)
    have sw: "same_write ?c (busy_conn ?d)" by (simp add: busy_conn_def store_got_def Let_def same_write_def)
    have "busy_ok (busy_conn ?d)"
      using r True c(1,2) g by (simp add: busy_ok_def busy_conn_def store_got_def read_ok_def Let_def resize_def)
    then have "io_inv p (idle(fd := Busy)) u"
      unfolding u_def by (intro act_on_read [OF inv fd]) (use sw r(2) same_write_unsent [OF sw] in simp_all)
    from tell_broker_inv [OF this user] obtain v where
      v: "tell_broker user fd (New_data (resize (collected ?d) (rd_buf ?d))) u = v" "io_inv p (idle(fd := Busy)) v" "kept u v" by blast
    have ev: "eventbf (mx v) = eventbf (mx s)" using v(3) by (simp add: kept_def u_def)
    have j: "stream_ok (eventbf (mx v) fd) (wanted watched (mx v) fd) (conns v fd)" "write_ok (conns v fd)" "0 < max_bytes (conns v fd)"
        "busy_ok (conns v fd)" "unsent (conns v fd)"
      using io_invD [OF v(2) fd] by simp_all
    have "io_inv p ((idle(fd := Busy))(fd := Idle)) (act_on fd next_conn (cmd_asks (Flush fd) (conns v fd)) v)"
    proof (rule act_on_inv [OF v(2) fd])
      show "list_all (own_ask fd) (cmd_asks (Flush fd) (conns v fd))" using own_cmd_asks [of "Flush fd"] by simp
      show "stream_ok (eventbf (mx v) fd) (fold ask_mask (cmd_asks (Flush fd) (conns v fd)) (wanted watched (mx v) fd)) (next_conn (conns v fd))"
        using cmd_conn_ok [OF j(1), of "Flush fd"] by (auto simp: stream_ok_def next_conn_def start_write_def)
      show "write_ok (next_conn (conns v fd))"
        using cmd_write_ok [OF j(2), of "Flush fd"] by (auto simp: write_ok_def next_conn_def start_write_def)
      show "0 < max_bytes (next_conn (conns v fd))" using j(3) by (simp add: next_conn_def start_write_def)
      show "mode_ok Idle (next_conn (conns v fd))"
        using j(3-5) by (auto simp: next_conn_def start_write_def read_ok_def busy_ok_def unsent_def prepare_next_read_sizes)
    qed
    moreover have "parent (conns t fd)" using True by (simp add: td store_got_def)
    ultimately show ?thesis using deliver_eq [of t fd user] ev unfolding td u1 Let_def v(1) by simp
  next
    case False
    have e: "upd_conn fd prepare_next_read (scribe_consume user fd (collected (conns t fd)) t)
        = act_on fd (\<lambda>_. prepare_next_read ?d) [] s"
      using False by (simp add: scribe_consume_def td store_got_def) (simp add: t_def act_on_def io_ops store_got_def)
    have "read_ok (prepare_next_read ?d)"
      using i(3) r c(1) False by (auto simp: read_ok_def prepare_next_read_sizes store_got_def)
    then have "io_inv p (idle(fd := Idle)) (act_on fd (\<lambda>_. prepare_next_read ?d) [] s)"
      by (intro act_on_read [OF inv fd]) (use r(2) in \<open>auto simp: store_got_def same_write_def unsent_def\<close>)
    then show ?thesis unfolding e by simp
  qed
qed

lemma read_loop_inv:
  assumes "io_inv p idle s" and "fd \<noteq> p" and "handler_ok p user" and "bit (eventbf (mx s) fd) 0"
  shows "io_inv p idle (read_loop user fd recv i n s) \<and> eventbf (mx (read_loop user fd recv i n s)) = eventbf (mx s)"
  using assms(1,4)
proof (induction n arbitrary: s i)
  case (Suc n)
  let ?c = "conns s fd"
  have c: "reader ?c" "launched ?c" "read_ok ?c" "unsent ?c"
    using io_invD [OF Suc.prems(1) assms(2)] Suc.prems(2) by (simp_all add: stream_ok_def)
  obtain r q where r: "read_some (recv i) (length (rd_buf ?c) - collected ?c) (in_queue ?c) = (r, q)" by fastforce
  show ?case
  proof (cases "r = None \<or> r = Some []")
    case True
    then show ?thesis using r c(1) Suc.prems(1) fail_inv [OF Suc.prems(1) assms(2,3), of Op_read] by (auto simp: Let_def)
  next
    case False
    then obtain got where got: "r = Some got" "got \<noteq> []" by (cases r) auto
    note g = read_some_got [OF r [unfolded got(1)] got(2)]
    define t where "t = set_conn fd (store_got got q ?c) s"
    have t: "conns t fd = store_got got q ?c" by (simp add: t_def io_ops)
    define u where "u = (if read_threshold ?c \<le> collected ?c + length got
        then upd_conn fd prepare_next_read (scribe_consume user fd (collected ?c + length got) t) else t)"
    have e: "read_loop user fd recv i (Suc n) s = read_loop user fd recv (Suc i) n u"
      using r got c(1) by (simp add: Let_def u_def t_def store_got_def)
    have "io_inv p idle u \<and> eventbf (mx u) = eventbf (mx s)"
    proof (cases "read_threshold ?c \<le> collected ?c + length got")
      case True
      then show ?thesis
        using deliver_inv [OF Suc.prems(1) assms(2,3) c(2) g] unfolding t_def [symmetric] t by (simp add: u_def store_got_def)
    next
      case False
      have "read_ok (store_got got q ?c)"
        using c False store_got_fields [OF c(3,2) g] g by (auto simp: read_ok_def store_got_def)
      then have "io_inv p (idle(fd := Idle)) (act_on fd (store_got got q) [] s)"
        by (intro act_on_read [OF Suc.prems(1) assms(2)]) (use c(4) in \<open>auto simp: same_write_def store_got_def unsent_def\<close>)
      moreover have "act_on fd (store_got got q) [] s = t" by (simp add: t_def act_on_def io_ops)
      ultimately show ?thesis using False by (auto simp: u_def t_def io_ops)
    qed
    then show ?thesis unfolding e using Suc.IH [of u "Suc i"] Suc.prems(2) by simp
  qed
qed simp

section \<open>Writing keeps the invariant\<close>

definition done_write :: "stream_conn \<Rightarrow> stream_conn" where
  "done_write c = (if wr_offline_buf c = [] then c\<lparr>written := 0, wr_buf := [], writing := False\<rparr>
     else c\<lparr>written := 0, wr_buf := wr_offline_buf c, wr_offline_buf := []\<rparr>)"

lemma prepare_next_write_act:
  "prepare_next_write fd s = act_on fd done_write (if wr_offline_buf (conns s fd) = [] then [Del Op_write fd] else []) s"
  by (simp add: prepare_next_write_def act_on_def io_ops done_write_def Let_def)

text \<open>The rest of a write event is done with the invariant for a buffer that may be sent up.\<close>

definition stored :: "octets \<Rightarrow> stream_conn \<Rightarrow> stream_conn" where
  "stored bs c = c\<lparr>written := written c + length bs, sent_bytes := sent_bytes c @ bs\<rparr>"

lemma io_inv_mode:
  "io_inv p (A(fd := m)) s \<Longrightarrow> mode_ok m' (conns s fd) \<Longrightarrow> io_inv p (A(fd := m')) s"
  by (auto simp: io_inv_def)

lemma handle_write_inv:
  assumes inv: "io_inv p idle s" and fd: "fd \<noteq> p" and user: "handler_ok p user" and ev: "bit (eventbf (mx s) fd) 2"
  shows "io_inv p idle (handle_write user fd send s) \<and> eventbf (mx (handle_write user fd send s)) = eventbf (mx s)"
proof -
  let ?c = "conns s fd"
  have c: "writer ?c" "write_ok ?c" "stream_ok (eventbf (mx s) fd) (wanted watched (mx s) fd) ?c" "read_ok ?c" "0 < max_bytes ?c" "unsent ?c"
    using io_invD [OF inv fd] ev by (simp_all add: stream_ok_def)
  show ?thesis
  proof (cases "write_some send (drop (written ?c) (wr_buf ?c))")
    case None
    then show ?thesis using c(1) fail_inv [OF inv fd user, of Op_write] by (simp add: handle_write_def Let_def)
  next
    case (Some bs)
    show ?thesis
    proof (cases "bs = []")
      case True
      then show ?thesis using Some inv by (simp add: handle_write_def Let_def)
    next
      case False
      obtain rest where bs: "drop (written ?c) (wr_buf ?c) = bs @ rest"
        using Some by (cases send) (auto, metis append_take_drop_id)
      let ?t = "act_on fd (stored bs) [] s"
      have t: "set_conn fd (stored bs ?c) s = ?t" by (simp add: act_on_def io_ops)
      have w: "writing ?c" using c(2) bs False by (auto simp: write_ok_def split: if_splits)
      have "io_inv p (idle(fd := Full)) ?t"
      proof (rule act_on_inv [OF inv fd])
        have "written ?c + length bs \<le> length (wr_buf ?c)"
          using arg_cong [OF bs, of length] c(2) w by (simp add: write_ok_def) linarith
        moreover have "rest = drop (written ?c + length bs) (wr_buf ?c)"
          by (metis add.commute append_eq_conv_conj bs drop_drop)
        ultimately show "write_ok (stored bs ?c)" using c(2) w bs by (simp add: write_ok_def stored_def)
      qed (use c in \<open>auto simp: stored_def stream_ok_def read_ok_def\<close>)
      moreover obtain u where u: "u = (if ack_writes ?c then scribe_data_transferred user fd (length bs)
          (length (wr_buf ?c) - (written ?c + length bs) + length (wr_offline_buf ?c)) ?t else ?t)" by blast
      ultimately have ui: "io_inv p (idle(fd := Full)) u" and uk: "kept ?t u"
        using tell_broker_inv [OF _ user] by (auto simp: scribe_data_transferred_def)
      have e: "handle_write user fd send s = (if length (wr_buf ?c) - (written ?c + length bs) = 0 then prepare_next_write fd u else u)"
        using Some False c(1) by (simp add: handle_write_def Let_def u t [symmetric] stored_def)
      let ?u = "conns u fd"
      have k: "writing ?u" "wr_buf ?u = wr_buf ?c" "written ?u = written ?c + length bs" "eventbf (mx u) = eventbf (mx s)"
        using uk w by (simp_all add: kept_def) (simp_all add: act_on_def stored_def)
      note j = io_invD [OF ui fd]
      have le: "written ?u \<le> length (wr_buf ?u)" using j(2) k(1) by (simp add: write_ok_def)
      show ?thesis
      proof (cases "written ?u = length (wr_buf ?u)")
        case True
        let ?rs = "if wr_offline_buf ?u = [] then [Del Op_write fd] else []"
        have "io_inv p ((idle(fd := Full))(fd := Idle)) (act_on fd done_write ?rs u)"
        proof (rule act_on_inv [OF ui fd])
          show "stream_ok (eventbf (mx u) fd) (fold ask_mask ?rs (wanted watched (mx u) fd)) (done_write ?u)"
            using j(1) k(1) io_flag_bits [of "wanted watched (mx u) fd"] by (auto simp: stream_ok_def done_write_def simp del: del_flag.simps)
          show "write_ok (done_write ?u)" using j(2) True by (auto simp: write_ok_def done_write_def k(1))
          show "mode_ok Idle (done_write ?u)" using j(4) by (auto simp: done_write_def read_ok_def unsent_def)
        qed (use j(3) in \<open>auto simp: done_write_def\<close>)
        moreover have "length (wr_buf ?c) - (written ?c + length bs) = 0" using True k(2,3) by simp
        ultimately show ?thesis using e k(4) by (simp add: prepare_next_write_act)
      next
        case False
        then have "mode_ok Idle ?u" using j(4) le by (simp add: unsent_def)
        then have "io_inv p idle u" using io_inv_mode [OF ui, of Idle] by simp
        moreover have "length (wr_buf ?c) - (written ?c + length bs) \<noteq> 0" using False le k(2,3) by simp
        ultimately show ?thesis using e k(4) by simp
      qed
    qed
  qed
qed

section \<open>Rounds keep the invariant\<close>

text \<open>What the operating system reports was registered, errors apart; brokers use their own connections.\<close>

fun sock_reported :: "int \<Rightarrow> (int \<Rightarrow> u32) \<Rightarrow> ready_event \<Rightarrow> bool" where
  "sock_reported p bf (Socket fd m recv send) = (fd \<noteq> p \<and> (bit m 0 \<longrightarrow> bit (bf fd) 0) \<and> (bit m 2 \<longrightarrow> bit (bf fd) 2))"
| "sock_reported p bf (Resume cmds) = list_all (cmd_ok p) cmds"

fun fair_event :: "int \<Rightarrow> 'u io \<Rightarrow> io_event \<Rightarrow> bool" where
  "fair_event p s (Arrive fd bs) = (fd \<noteq> p)"
| "fair_event p s (Round rs) = list_all (sock_reported p (eventbf (mx s))) rs"

primrec fair_run :: "(ctl_call list \<Rightarrow> ctl_call \<Rightarrow> ctl_error option) \<Rightarrow> nat \<Rightarrow> 'u handler \<Rightarrow> int \<Rightarrow> io_event list \<Rightarrow> 'u io \<Rightarrow> bool" where
  "fair_run ctl mcr user p [] s = True"
| "fair_run ctl mcr user p (ev # evs) s = (fair_event p s ev \<and> fair_run ctl mcr user p evs (io_step (epoll_handle ctl) mcr user ev s))"

lemma handle_error_inv:
  assumes "io_inv p A s" and "fd \<noteq> p" and "handler_ok p user"
  shows "io_inv p A (handle_error user fd s) \<and> kept s (handle_error user fd s)"
proof -
  define t where "t = (if reader (conns s fd) then scribe_detach user fd s else s)"
  have t: "io_inv p A t" "kept s t" using scribe_detach_inv [OF assms] assms(1) by (simp_all add: t_def)
  define u where "u = (if writer (conns t fd) then scribe_detach user fd t else t)"
  have "io_inv p A u" "kept t u" using scribe_detach_inv [OF t(1) assms(2,3)] t(1) by (simp_all add: u_def)
  moreover have "handle_error user fd s = u" by (simp add: handle_error_def u_def t_def scribe_io_failure_def Let_def)
  ultimately show ?thesis using kept_trans [OF t(2)] by blast
qed

lemma del_both:
  assumes "io_inv p idle s" and "fd \<noteq> p"
  shows "io_inv p idle (upd_mx (mux_del Op_write fd) (upd_mx (mux_del Op_read fd) s))
    \<and> eventbf (mx (upd_mx (mux_del Op_write fd) (upd_mx (mux_del Op_read fd) s))) = eventbf (mx s)"
proof -
  have "io_inv p idle (act_on fd id [Del op fd] t)" if "io_inv p idle t" "op \<noteq> Propagate_error" for op t
  proof -
    have "io_inv p (idle(fd := Idle)) (act_on fd id [Del op fd] t)"
      by (rule act_on_read [OF that(1) assms(2)])
        (use that(2) io_invD(4) [OF that(1) assms(2)] in \<open>auto simp: same_write_def intro: operation.exhaust [of op]\<close>)
    then show ?thesis by simp
  qed
  from this [OF this [OF assms(1), of Op_read], of Op_write]
  have "io_inv p idle (act_on fd id [Del Op_write fd] (act_on fd id [Del Op_read fd] s))" by simp
  moreover have "upd_mx (mux_del op fd) t = act_on fd id [Del op fd] t" for op and t :: "'a io" by (simp add: act_on_def io_ops)
  ultimately show ?thesis by simp
qed

lemma handle_ready_inv:
  assumes inv: "io_inv p idle s" and user: "handler_ok p user" and r: "sock_reported p (eventbf (mx s)) r"
  shows "io_inv p idle (handle_ready mcr user r s) \<and> eventbf (mx (handle_ready mcr user r s)) = eventbf (mx s)"
proof (cases r)
  case (Resume cmds)
  then show ?thesis using run_commands_inv [OF inv] r by (simp add: kept_def)
next
  case (Socket fd m recv send)
  have fd: "fd \<noteq> p" and b: "bit m 0 \<longrightarrow> bit (eventbf (mx s) fd) 0" "bit m 2 \<longrightarrow> bit (eventbf (mx s) fd) 2" using r Socket by simp_all
  define t where "t = (if m AND input_mask \<noteq> 0 \<and> \<not> read_channel_closed (conns s fd) then read_loop user fd recv 0 mcr s else s)"
  have t: "io_inv p idle t" "eventbf (mx t) = eventbf (mx s)"
    using read_loop_inv [OF inv fd user] b(1) inv by (simp_all add: t_def io_mask_bits)
  define u where "u = (if m AND output_mask \<noteq> 0 then handle_write user fd send t else t)"
  have u: "io_inv p idle u" "eventbf (mx u) = eventbf (mx s)"
    using handle_write_inv [OF t(1) fd user] b(2) t by (simp_all add: u_def io_mask_bits)
  define v where "v = (if m AND input_mask = 0 \<and> m AND output_mask = 0 \<and> m AND error_mask \<noteq> 0
    then upd_mx (mux_del Op_write fd) (upd_mx (mux_del Op_read fd) (handle_error user fd u)) else u)"
  have h: "io_inv p idle (handle_error user fd u)" "eventbf (mx (handle_error user fd u)) = eventbf (mx u)"
    using handle_error_inv [OF u(1) fd user] by (auto simp: kept_def)
  have "io_inv p idle v" "eventbf (mx v) = eventbf (mx s)" using del_both [OF h(1) fd] h(2) u by (simp_all add: v_def)
  moreover have "handle_ready mcr user r s = v"
    by (simp add: Socket handle_socket_event_def Let_def v_def u_def t_def)
  ultimately show ?thesis by simp
qed

lemma handle_all_ready_inv:
  assumes "io_inv p idle s" and "handler_ok p user" and "list_all (sock_reported p (eventbf (mx s))) rs"
  shows "io_inv p idle (fold (handle_ready mcr user) rs s)"
  using assms(1,3)
proof (induction rs arbitrary: s)
  case (Cons r rs)
  then show ?case using handle_ready_inv [OF Cons.prems(1) assms(2), of r mcr] Cons.IH by simp
qed simp

lemma fold_removed:
  "conns (fold (\<lambda>(fd, op). upd_conn fd (stream_removed_from_loop op)) gone s) x
     = (conns s x)\<lparr>reader := reader (conns s x) \<and> (x, Op_read) \<notin> set gone, writer := writer (conns s x) \<and> (x, Op_write) \<notin> set gone\<rparr>
   \<and> mx (fold (\<lambda>(fd, op). upd_conn fd (stream_removed_from_loop op)) gone s) = mx s
   \<and> broker (fold (\<lambda>(fd, op). upd_conn fd (stream_removed_from_loop op)) gone s) = broker s
   \<and> crashed (fold (\<lambda>(fd, op). upd_conn fd (stream_removed_from_loop op)) gone s) = crashed s
   \<and> threw (fold (\<lambda>(fd, op). upd_conn fd (stream_removed_from_loop op)) gone s) = threw s"
proof (induction gone arbitrary: s)
  case (Cons g gone)
  obtain fd op where g: "g = (fd, op)" by fastforce
  show ?case unfolding g using Cons.IH [of "upd_conn fd (stream_removed_from_loop op) s"]
    by (cases op) (auto simp: io_ops stream_removed_from_loop_def)
qed simp

text \<open>The end of a round registers what is wanted and tells the streams that were removed.\<close>

lemma end_round_eq:
  assumes "io_inv p idle s" and "accepts_valid ctl"
  obtains gone m where "end_round (epoll_handle ctl) s = fold (\<lambda>(fd, op). upd_conn fd (stream_removed_from_loop op)) gone (s\<lparr>mx := m\<rparr>)"
    "mux_inv watched epoll_ok True m" "pipe_in m = p" "events m = []" "\<And>fd. fd \<noteq> p \<Longrightarrow> eventbf m fd = wanted watched (mx s) fd"
    "wanted watched m = wanted watched (mx s)" "set gone = gone_from p (watched (mx s)) (wanted watched (mx s))"
proof -
  have m: "mux_inv watched epoll_ok True (mx s)" "pipe_in (mx s) = p" using assms(1) by (simp_all add: io_inv_def)
  from interest.one_round [OF epoll_interest [OF assms(2)] m(1)] m(2) obtain gone n where
    n: "handle_all (epoll_handle ctl) (events (mx s)) (mx s) = Some (gone, n)" "mux_inv watched epoll_ok True n" "events n = []"
      "pipe_in n = p" "watched n = wanted watched (mx s)" "set gone = gone_from p (watched (mx s)) (wanted watched (mx s))" by blast
  have "wanted watched n = wanted watched (mx s)" using n(3,5) by (simp add: wanted_def fun_eq_iff)
  moreover have "eventbf n fd = wanted watched (mx s) fd" if "fd \<noteq> p" for fd
    using n(2,4,5) that by (simp add: mux_inv_def epoll_ok_def)
  moreover have "end_round (epoll_handle ctl) s = fold (\<lambda>(fd, op). upd_conn fd (stream_removed_from_loop op)) gone (s\<lparr>mx := n\<rparr>)"
    by (simp add: end_round_def n(1))
  ultimately show thesis using that n by blast
qed

lemma end_round_inv:
  assumes "io_inv p idle s" and "accepts_valid ctl"
  shows "io_inv p idle (end_round (epoll_handle ctl) s)"
proof -
  obtain gone m where
    e: "end_round (epoll_handle ctl) s = fold (\<lambda>(fd, op). upd_conn fd (stream_removed_from_loop op)) gone (s\<lparr>mx := m\<rparr>)"
    and m: "mux_inv watched epoll_ok True m" "pipe_in m = p" "\<And>fd. fd \<noteq> p \<Longrightarrow> eventbf m fd = wanted watched (mx s) fd"
      "wanted watched m = wanted watched (mx s)" "set gone = gone_from p (watched (mx s)) (wanted watched (mx s))"
    using end_round_eq [OF assms] by metis
  note f = fold_removed [of gone "s\<lparr>mx := m\<rparr>"]
  have w: "stream_ok w w (c\<lparr>reader := reader c \<and> (fd, Op_read) \<notin> set gone, writer := writer c \<and> (fd, Op_write) \<notin> set gone\<rparr>)"
    if "stream_ok e w c" "w = wanted watched (mx s) fd" for e w c fd
    using that by (auto simp: stream_ok_def m(5) gone_from_def)
  show ?thesis unfolding e io_inv_def using f m(1-4) w assms(1)
    by (auto simp: io_inv_def write_ok_def read_ok_def unsent_def)
qed

lemma io_step_inv:
  assumes "io_inv p idle s" and "accepts_valid ctl" and "handler_ok p user" and "fair_event p s ev"
  shows "io_inv p idle (io_step (epoll_handle ctl) mcr user ev s)"
proof (cases ev)
  case (Arrive fd bs)
  have fd: "fd \<noteq> p" using assms(4) Arrive by simp
  have "io_inv p (idle(fd := Idle)) (act_on fd (\<lambda>c. c\<lparr>in_queue := in_queue c @ bs, arrived := arrived c @ bs\<rparr>) [] s)"
    by (rule act_on_read [OF assms(1) fd])
      (use io_invD(4) [OF assms(1) fd] in \<open>auto simp: same_write_def read_ok_def unsent_def\<close>)
  then show ?thesis by (simp add: Arrive act_on_def io_ops)
next
  case (Round rs)
  then have "io_inv p idle (fold (handle_ready mcr user) rs s)" using assms(4) handle_all_ready_inv [OF assms(1,3)] by simp
  from end_round_inv [OF this assms(2)] show ?thesis using Round by simp
qed

lemma io_start_inv: "io_inv p idle (io_start p u)"
proof -
  have "wanted watched (epoll_start p) = (\<lambda>_. 0)(p := input_mask)"
  proof -
    have "events (epoll_start p) = []" by (simp add: epoll_start_def)
    then show ?thesis unfolding wanted_def mux_start(2) by (simp add: fun_upd_def)
  qed
  moreover have "eventbf (epoll_start p) = (\<lambda>_. 0)" "pipe_in (epoll_start p) = p" by (simp_all add: epoll_start_def)
  ultimately show ?thesis using mux_start(1) [of p]
    by (simp add: io_inv_def io_start_def stream_ok_def write_ok_def read_ok_def unsent_def new_stream_def)
qed

lemma run_inv:
  assumes "accepts_valid ctl" and "handler_ok p user" and "io_inv p idle s" and "fair_run ctl mcr user p evs s"
  shows "io_inv p idle (fold (io_step (epoll_handle ctl) mcr user) evs s)"
  using assms(3,4)
proof (induction evs arbitrary: s)
  case (Cons ev evs)
  then show ?case using io_step_inv [OF Cons.prems(1) assms(1,2)] by simp
qed simp

end
