(* ===== verification/StreamProperties.thy ===== *)
theory StreamProperties
  imports StreamLemmas
begin

text \<open>
  What connections promise: bytes arrive in order and unaltered, in chunks that the receive policy determines; what was
  flushed is sent; a connection that is closed is released, unless it was closed in the round in which it was started.
\<close>

section \<open>Chunks under an exact policy\<close>

text \<open>
  A protocol on one connection: how many bytes are needed next and what the state is after a chunk. \<open>cut_chunks\<close> takes a
  stream of octets apart: the chunks, the state after them and the rest.
\<close>

function cut_chunks :: "('p \<Rightarrow> nat) \<Rightarrow> ('p \<Rightarrow> octets \<Rightarrow> 'p) \<Rightarrow> 'p \<Rightarrow> octets \<Rightarrow> octets list \<times> 'p \<times> octets" where
  "cut_chunks need nx p bs =
     (if need p = 0 \<or> length bs < need p then ([], p, bs)
      else case cut_chunks need nx (nx p (take (need p) bs)) (drop (need p) bs) of (cs, q, r) \<Rightarrow> (take (need p) bs # cs, q, r))"
  by auto
termination by (relation "measure (\<lambda>(need, nx, p, bs). length bs)") auto

declare cut_chunks.simps [simp del]

lemma chunks_less: "length bs < need p \<Longrightarrow> cut_chunks need nx p bs = ([], p, bs)"
  by (simp add: cut_chunks.simps [of need nx p bs])

lemma chunks_nil: "cut_chunks need nx p [] = ([], p, [])"
  by (subst cut_chunks.simps) auto

lemma chunks_append:
  "cut_chunks need nx p bs = (cs, q, r) \<Longrightarrow>
   cut_chunks need nx p (bs @ xs) = (case cut_chunks need nx q (r @ xs) of (cs', q', r') \<Rightarrow> (cs @ cs', q', r'))"
proof (induction need nx p bs arbitrary: cs q r rule: cut_chunks.induct)
  case (1 need nx p bs)
  show ?case
  proof (cases "need p = 0 \<or> length bs < need p")
    case True
    then show ?thesis using 1(2) by (auto simp: cut_chunks.simps [of need nx p bs])
  next
    case False
    obtain cs1 where c: "cut_chunks need nx (nx p (take (need p) bs)) (drop (need p) bs) = (cs1, q, r)" "cs = take (need p) bs # cs1"
      using 1(2) False by (auto simp: cut_chunks.simps [of need nx p bs] split: prod.splits)
    show ?thesis
      using 1(1) [OF False c(1)] False c(2) by (subst cut_chunks.simps) (auto split: prod.split)
  qed
qed

lemma chunks_one:
  assumes "cut_chunks need nx p bs = (cs, q, [])" and "length x = need q" and "0 < need q"
  shows "cut_chunks need nx p (bs @ x) = (cs @ [x], nx q x, [])"
  unfolding chunks_append [OF assms(1)] using assms(2,3) by (simp add: cut_chunks.simps [of need nx q x] chunks_nil)

text \<open>
  A handler that keeps to a protocol on a connection: its state follows the chunks, and it asks for exactly the bytes needed,
  until it closes the connection or hears that it was closed.
\<close>

fun configures :: "int \<Rightarrow> broker_command \<Rightarrow> read_config option" where
  "configures fd (Configure_read x cfg) = (if x = fd then Some cfg else None)"
| "configures fd cmd = None"

definition asks_exactly :: "int \<Rightarrow> nat \<Rightarrow> broker_command list \<Rightarrow> bool" where
  "asks_exactly fd n cmds \<longleftrightarrow> (\<forall>cmd \<in> set cmds. configures fd cmd \<noteq> None \<longrightarrow> configures fd cmd = Some (Exactly, n))"

definition follows :: "int \<Rightarrow> ('u \<Rightarrow> 'p) \<Rightarrow> ('p \<Rightarrow> nat) \<Rightarrow> ('p \<Rightarrow> octets \<Rightarrow> 'p) \<Rightarrow> 'u handler \<Rightarrow> bool" where
  "follows fd state need nx user \<longleftrightarrow> (\<forall>u x n. case user u x n of (u', cmds) \<Rightarrow>
     (case n of New_data bs \<Rightarrow> if x = fd then state u' = nx (state u) bs \<and> (need (state u') = need (state u) \<or> Close fd \<in> set cmds \<or> (\<exists>cmd \<in> set cmds. configures fd cmd \<noteq> None))
                             else state u' = state u
      | Connection_closed \<Rightarrow> x \<noteq> fd \<longrightarrow> state u' = state u
      | _ \<Rightarrow> state u' = state u) \<and> asks_exactly fd (need (state u')) cmds)"

lemma followsD:
  assumes "follows fd state need nx user" and "user u x n = (u', cmds)"
  shows "asks_exactly fd (need (state u')) cmds"
    "\<not> (\<exists>bs. n = New_data bs \<and> x = fd) \<Longrightarrow> \<not> (n = Connection_closed \<and> x = fd) \<Longrightarrow> state u' = state u"
    "n = New_data bs \<Longrightarrow> x = fd \<Longrightarrow> state u' = nx (state u) bs
       \<and> (need (state u') = need (state u) \<or> Close fd \<in> set cmds \<or> (\<exists>cmd \<in> set cmds. configures fd cmd \<noteq> None))"
proof -
  note f = assms(1) [unfolded follows_def, THEN spec [where x = u], THEN spec [where x = x], THEN spec [where x = n], unfolded assms(2) prod.case]
  show "asks_exactly fd (need (state u')) cmds" using f by (rule conjunct2)
  show "\<not> (\<exists>bs. n = New_data bs \<and> x = fd) \<Longrightarrow> \<not> (n = Connection_closed \<and> x = fd) \<Longrightarrow> state u' = state u" using conjunct1 [OF f] by (cases n) (auto split: if_splits)
  show "n = New_data bs \<Longrightarrow> x = fd \<Longrightarrow> state u' = nx (state u) bs
       \<and> (need (state u') = need (state u) \<or> Close fd \<in> set cmds \<or> (\<exists>cmd \<in> set cmds. configures fd cmd \<noteq> None))"
    using conjunct1 [OF f] by auto
qed

text \<open>On the connection: the chunks so far are those of the bytes delivered, and the policy is the one needed.\<close>

definition chunks_ok :: "('p \<Rightarrow> nat) \<Rightarrow> ('p \<Rightarrow> octets \<Rightarrow> 'p) \<Rightarrow> 'p \<Rightarrow> 'p \<Rightarrow> stream_conn \<Rightarrow> bool" where
  "chunks_ok need nx p0 p c \<longleftrightarrow> cut_chunks need nx p0 (concat (new_data c)) = (new_data c, p, [])"

definition exact_conn :: "nat \<Rightarrow> stream_conn \<Rightarrow> bool" where
  "exact_conn n c \<longleftrightarrow> (launched c \<and> parent c \<longrightarrow> rd_flag c = Exactly \<and> max_bytes c = n)"

definition ready_conn :: "nat \<Rightarrow> stream_conn \<Rightarrow> bool" where
  "ready_conn n c \<longleftrightarrow> (launched c \<and> parent c \<longrightarrow>
     rd_flag c = Exactly \<and> max_bytes c = n \<and> read_threshold c = n \<and> length (rd_buf c) = n)"

definition exact_inv ::
    "int \<Rightarrow> ('u \<Rightarrow> 'p) \<Rightarrow> ('p \<Rightarrow> nat) \<Rightarrow> ('p \<Rightarrow> octets \<Rightarrow> 'p) \<Rightarrow> 'p \<Rightarrow> 'u io \<Rightarrow> bool" where
  "exact_inv fd state need nx p0 s \<longleftrightarrow> threw s \<or> \<not> parent (conns s fd)
     \<or> chunks_ok need nx p0 (state (broker s)) (conns s fd) \<and> ready_conn (need (state (broker s))) (conns s fd)"

definition read_view :: "stream_conn \<Rightarrow> bool \<times> bool \<times> receive_policy_flag \<times> nat \<times> nat \<times> nat \<times> octets list" where
  "read_view c = (launched c, parent c, rd_flag c, max_bytes c, read_threshold c, length (rd_buf c), new_data c)"

lemma exact_act:
  assumes "exact_inv fd0 state need nx p0 s" and "fd = fd0 \<Longrightarrow> read_view (f (conns s fd)) = read_view (conns s fd)"
  shows "exact_inv fd0 state need nx p0 (act_on fd f rs s)"
  using assms by (cases "fd = fd0") (auto simp: exact_inv_def act_on_def chunks_ok_def ready_conn_def read_view_def)

lemma cmd_ready:
  assumes "ready_conn n c" and "configures fd cmd \<noteq> None \<longrightarrow> configures fd cmd = Some (Exactly, n)" and "target cmd = fd"
  shows "ready_conn n (cmd_conn cmd c)"
  using assms by (cases cmd) (auto simp: ready_conn_def start_write_def prepare_next_read_sizes)

lemma run_commands_ready:
  assumes "ready_conn n (conns s fd)" and "asks_exactly fd n cmds"
  shows "ready_conn n (conns (run_commands cmds s) fd)"
  using assms
proof (induction cmds arbitrary: s)
  case (Cons cmd cmds)
  have "ready_conn n (conns (exec_command cmd s) fd)"
    using Cons.prems cmd_ready [OF Cons.prems(1), of fd cmd] by (auto simp: exec_command_act act_on_def asks_exactly_def)
  then show ?case using Cons.IH [of "exec_command cmd s"] Cons.prems by (simp add: asks_exactly_def)
qed simp

lemma run_commands_exact:
  assumes "exact_conn n (conns s fd) \<or> (\<exists>cmd \<in> set cmds. configures fd cmd \<noteq> None)" and "asks_exactly fd n cmds"
    and "\<not> threw (run_commands cmds s)"
  shows "exact_conn n (conns (run_commands cmds s) fd)"
  using assms
proof (induction cmds arbitrary: s)
  case (Cons cmd cmds)
  have p: "parent (conns s (target cmd))" using Cons.prems(3) by (auto split: if_splits)
  have "exact_conn n (conns (exec_command cmd s) fd)" if "exact_conn n (conns s fd) \<or> configures fd cmd \<noteq> None"
    using that Cons.prems(2) by (cases cmd) (auto simp: exec_command_act act_on_def asks_exactly_def exact_conn_def start_write_def)
  then show ?case
    using Cons.IH [of "exec_command cmd s"] Cons.prems p by (auto simp: asks_exactly_def)
qed simp

lemma run_commands_broker [simp]: "broker (run_commands cmds s) = broker s"
  by (induction cmds arbitrary: s) (simp_all add: exec_command_act)

lemma run_commands_kept: "kept s (run_commands cmds s)"
proof (induction cmds arbitrary: s)
  case (Cons cmd cmds)
  have "kept s (run_commands cmds (exec_command cmd s))" by (rule kept_trans [OF exec_command_kept Cons])
  moreover have "kept s (s\<lparr>threw := True\<rparr>)" by (simp add: kept_def)
  ultimately show ?case by simp
qed simp

lemma run_commands_close:
  "Close fd \<in> set cmds \<Longrightarrow> threw (run_commands cmds s) \<or> \<not> parent (conns (run_commands cmds s) fd)"
proof (induction cmds arbitrary: s)
  case (Cons cmd cmds)
  show ?case
  proof (cases "cmd = Close fd")
    case True
    then have "\<not> parent (conns (exec_command cmd s) fd)" by (simp add: exec_command_act act_on_def)
    then show ?thesis using run_commands_kept [of "exec_command cmd s" cmds] by (simp add: kept_def) blast
  qed (use Cons in simp)
qed simp

lemma tell_broker_kept: "kept s (tell_broker user fd n s)"
proof -
  obtain u cmds where "user (broker s) fd n = (u, cmds)" by fastforce
  then show ?thesis using run_commands_kept [of "s\<lparr>broker := u\<rparr>" cmds] by (simp add: tell_broker_def kept_def)
qed

text \<open>A message to the broker that is not a chunk of the connection.\<close>

lemma tell_broker_other:
  assumes "exact_inv fd0 state need nx p0 s" and "follows fd0 state need nx user" and "\<not> (\<exists>bs. n = New_data bs \<and> fd = fd0)"
    and "n \<noteq> Connection_closed \<or> fd \<noteq> fd0 \<or> \<not> parent (conns s fd0)"
  shows "exact_inv fd0 state need nx p0 (tell_broker user fd n s)"
proof (cases "parent (conns s fd0)")
  case False
  then show ?thesis using tell_broker_kept [of s user fd n] by (auto simp: exact_inv_def kept_def)
next
  case True
  obtain u cmds where u: "user (broker s) fd n = (u, cmds)" by fastforce
  have f: "asks_exactly fd0 (need (state u)) cmds" using followsD(1) [OF assms(2) u] .
  have f': "state u = state (broker s)" using followsD(2) [OF assms(2) u assms(3)] assms(4) True by blast
  note f = f' f
  note k = run_commands_kept [of "s\<lparr>broker := u\<rparr>" cmds]
  have "new_data (conns (run_commands cmds (s\<lparr>broker := u\<rparr>)) fd0) = new_data (conns s fd0)" "threw s \<longrightarrow> threw (run_commands cmds (s\<lparr>broker := u\<rparr>))"
    using k by (simp_all add: kept_def)
  then show ?thesis
    using assms(1) f True run_commands_ready [of "need (state u)" "s\<lparr>broker := u\<rparr>" fd0 cmds]
    by (auto simp: tell_broker_def u exact_inv_def chunks_ok_def)
qed

lemma detach_exact:
  assumes "exact_inv fd0 state need nx p0 s" and "follows fd0 state need nx user"
  shows "exact_inv fd0 state need nx p0 (scribe_detach user fd s)"
proof -
  have "exact_inv fd0 state need nx p0 (upd_conn fd (\<lambda>c. c\<lparr>parent := False\<rparr>) s)"
    using assms(1) by (cases "fd = fd0") (auto simp: exact_inv_def io_ops chunks_ok_def ready_conn_def)
  then have "exact_inv fd0 state need nx p0 (tell_broker user fd Connection_closed (upd_conn fd (\<lambda>c. c\<lparr>parent := False\<rparr>) s))"
    by (rule tell_broker_other [OF _ assms(2)]) (auto simp: io_ops)
  then show ?thesis using assms(1) by (simp add: scribe_detach_def)
qed

text \<open>Delivery of a chunk: on the connection it is exactly what the protocol needs.\<close>

lemma detach_parent: "\<not> parent (conns s fd) \<Longrightarrow> scribe_consume user fd n s = s"
  by (simp add: scribe_consume_def)

lemma next_conn_view:
  "launched (next_conn c) = launched c" "parent (next_conn c) = parent c" "rd_flag (next_conn c) = rd_flag c"
  "max_bytes (next_conn c) = max_bytes c" "new_data (next_conn c) = new_data c"
  "read_threshold (next_conn c) = (if rd_flag c = At_most then 1 else max_bytes c)"
  "rd_flag c = Exactly \<Longrightarrow> length (rd_buf (next_conn c)) = max_bytes c"
  by (auto simp: next_conn_def start_write_def prepare_next_read_sizes)

lemma deliver_other:
  assumes "exact_inv fd0 state need nx p0 s" and "follows fd0 state need nx user" and "fd \<noteq> fd0"
  shows "exact_inv fd0 state need nx p0 (upd_conn fd prepare_next_read (scribe_consume user fd (collected (conns s fd)) s))"
proof (cases "parent (conns s fd)")
  case True
  have "exact_inv fd0 state need nx p0 (act_on fd busy_conn [] s)" by (rule exact_act [OF assms(1)]) (simp add: assms(3))
  then have "exact_inv fd0 state need nx p0
      (tell_broker user fd (New_data (resize (collected (conns s fd)) (rd_buf (conns s fd)))) (act_on fd busy_conn [] s))"
    by (rule tell_broker_other [OF _ assms(2)]) (simp_all add: assms(3))
  then show ?thesis unfolding deliver_eq [OF True] Let_def by (rule exact_act) (simp add: assms(3))
next
  case False
  then show ?thesis using assms(1,3) by (simp add: detach_parent exact_inv_def io_ops)
qed

lemma deliver_own:
  assumes inv: "exact_inv fd state need nx p0 s" and user: "follows fd state need nx user" and pos: "\<And>p. 0 < need p"
    and c: "launched (conns s fd)" "read_threshold (conns s fd) \<le> collected (conns s fd)" "collected (conns s fd) \<le> length (rd_buf (conns s fd))"
  shows "exact_inv fd state need nx p0 (upd_conn fd prepare_next_read (scribe_consume user fd (collected (conns s fd)) s))"
proof (cases "parent (conns s fd) \<and> \<not> threw s")
  case False
  show ?thesis
  proof (cases "parent (conns s fd)")
    case True
    then have "threw s" using False by simp
    then have "threw (tell_broker user fd n (act_on fd busy_conn [] s))" for n
      using tell_broker_kept [of "act_on fd busy_conn [] s" user fd n] by (simp add: kept_def act_on_def)
    then show ?thesis unfolding deliver_eq [OF True] Let_def by (simp add: exact_inv_def act_on_def)
  next
    case False
    then show ?thesis using inv by (simp add: detach_parent exact_inv_def io_ops chunks_ok_def ready_conn_def)
  qed
next
  case True
  let ?c = "conns s fd" and ?p = "state (broker s)"
  define buf where "buf = resize (collected ?c) (rd_buf ?c)"
  have r: "chunks_ok need nx p0 ?p ?c" "rd_flag ?c = Exactly" "max_bytes ?c = need ?p" "length (rd_buf ?c) = need ?p" "read_threshold ?c = need ?p"
    using inv True c(1) by (auto simp: exact_inv_def ready_conn_def)
  have len: "length buf = need ?p" using c(2,3) r(4,5) by (simp add: buf_def)
  define t where "t = act_on fd busy_conn [] s"
  have t: "conns t fd = ?c\<lparr>rd_buf := msg_buf ?c, msg_buf := buf, new_data := new_data ?c @ [buf]\<rparr>" "broker t = broker s" "threw t = threw s"
    by (simp_all add: t_def act_on_def busy_conn_def buf_def Let_def)
  obtain u cmds where u: "user (broker s) fd (New_data buf) = (u, cmds)" by fastforce
  note f = followsD [OF user u]
  have su: "state u = nx ?p buf" and cfg: "need (state u) = need ?p \<or> Close fd \<in> set cmds \<or> (\<exists>cmd \<in> set cmds. configures fd cmd \<noteq> None)"
    using f(3) [of buf] by blast+
  define v where "v = run_commands cmds (t\<lparr>broker := u\<rparr>)"
  have tv: "tell_broker user fd (New_data buf) t = v" by (simp add: tell_broker_def t(2) u v_def)
  have k: "kept (t\<lparr>broker := u\<rparr>) v" unfolding v_def by (rule run_commands_kept)
  have e: "upd_conn fd prepare_next_read (scribe_consume user fd (collected ?c) s)
      = act_on fd next_conn (cmd_asks (Flush fd) (conns v fd)) v"
    using deliver_eq [of s fd user] True unfolding Let_def t_def [symmetric] buf_def [symmetric] tv by blast
  have nd: "new_data (conns v fd) = new_data ?c @ [buf]" using k t(1) by (simp add: kept_def)
  have ch: "chunks_ok need nx p0 (state u) (next_conn (conns v fd))"
    using chunks_one [OF r(1) [unfolded chunks_ok_def] len pos] su by (simp add: chunks_ok_def next_conn_view nd)
  have ex: "exact_conn (need (state u)) (conns v fd)" if "\<not> threw v" "parent (conns v fd)"
    unfolding v_def
  proof (rule run_commands_exact)
    have "Close fd \<notin> set cmds" using that run_commands_close [of fd cmds "t\<lparr>broker := u\<rparr>"] by (auto simp: v_def)
    note cfg = this cfg
    show "exact_conn (need (state u)) (conns (t\<lparr>broker := u\<rparr>) fd) \<or> (\<exists>cmd \<in> set cmds. configures fd cmd \<noteq> None)"
      using cfg t(1) r(2,3) by (auto simp: exact_conn_def)
  qed (use f(1) that v_def in simp_all)
  have b: "broker v = u" by (simp add: v_def)
  show ?thesis
  proof (cases "threw v \<or> \<not> parent (conns v fd)")
    case False
    then have "ready_conn (need (state u)) (next_conn (conns v fd))"
      using ex by (auto simp: ready_conn_def exact_conn_def next_conn_view)
    then show ?thesis unfolding e using ch b by (simp add: exact_inv_def act_on_def)
  qed (auto simp: e exact_inv_def act_on_def next_conn_view)
qed

section \<open>Rounds\<close>

lemma read_loop_exact:
  assumes "io_inv p idle s" and "fd \<noteq> p" and "handler_ok p user" and "bit (eventbf (mx s) fd) 0"
    and "exact_inv fd0 state need nx p0 s" and "follows fd0 state need nx user" and "\<And>p. 0 < need p"
  shows "exact_inv fd0 state need nx p0 (read_loop user fd recv i n s)"
  using assms(1,4,5)
proof (induction n arbitrary: s i)
  case (Suc n)
  let ?c = "conns s fd"
  have c: "reader ?c" "launched ?c" "read_ok ?c"
    using io_invD [OF Suc.prems(1) assms(2)] Suc.prems(2) by (simp_all add: stream_ok_def)
  obtain r q where r: "read_some (recv i) (length (rd_buf ?c) - collected ?c) (in_queue ?c) = (r, q)" by fastforce
  show ?case
  proof (cases "r = None \<or> r = Some []")
    case True
    have "exact_inv fd0 state need nx p0 (upd_mx f (scribe_io_failure user fd s))" for f
      using detach_exact [OF Suc.prems(3) assms(6)] by (simp add: exact_inv_def scribe_io_failure_def upd_mx_def)
    then show ?thesis using True r c(1) Suc.prems(3) by (auto simp: Let_def)
  next
    case False
    then obtain got where got: "r = Some got" "got \<noteq> []" by (cases r) auto
    note g = read_some_got [OF r [unfolded got(1)] got(2)]
    note sg = store_got_fields [OF c(3,2) g]
    define t where "t = act_on fd (store_got got q) [] s"
    have t: "conns t fd = store_got got q ?c" "set_conn fd (store_got got q ?c) s = t" by (simp_all add: t_def act_on_def io_ops)
    have te: "exact_inv fd0 state need nx p0 t" unfolding t_def
      by (rule exact_act [OF Suc.prems(3)]) (use sg(1) in \<open>simp add: read_view_def\<close>, simp add: store_got_def)
    define u where "u = (if read_threshold ?c \<le> collected ?c + length got
        then upd_conn fd prepare_next_read (scribe_consume user fd (collected (conns t fd)) t) else t)"
    have e: "read_loop user fd recv i (Suc n) s = read_loop user fd recv (Suc i) n u"
      using r got c(1) t(1) unfolding u_def t(2) [symmetric] by (simp add: Let_def store_got_def)
    have ue: "exact_inv fd0 state need nx p0 u"
    proof (cases "read_threshold ?c \<le> collected ?c + length got")
      case True
      then have u: "u = upd_conn fd prepare_next_read (scribe_consume user fd (collected (conns t fd)) t)" by (simp add: u_def)
      have tf: "launched (conns t fd)" "read_threshold (conns t fd) \<le> collected (conns t fd)"
          "collected (conns t fd) \<le> length (rd_buf (conns t fd))"
        using True c(2) sg(1,3) unfolding t(1) by (simp_all add: store_got_def)
      show ?thesis
      proof (cases "fd = fd0")
        case True
        show ?thesis unfolding u True
          by (rule deliver_own [OF te assms(6)]) (use tf assms(7) in \<open>simp_all add: True\<close>)
      next
        case False
        show ?thesis unfolding u by (rule deliver_other [OF te assms(6) False])
      qed
    qed (simp add: u_def te)
    have "io_inv p idle u \<and> eventbf (mx u) = eventbf (mx s)"
    proof (cases "read_threshold ?c \<le> collected ?c + length got")
      case True
      then show ?thesis
        using deliver_inv [OF Suc.prems(1) assms(2,3) c(2) g] unfolding t(2) by (simp add: u_def)
    next
      case False
      have "read_loop user fd recv i 1 s = u" using r got False t unfolding u_def by (simp add: Let_def store_got_def)
      then show ?thesis using read_loop_inv [OF Suc.prems(1) assms(2,3) Suc.prems(2), of recv i 1] by simp
    qed
    then show ?thesis unfolding e using Suc.IH [of u "Suc i"] Suc.prems(2) ue by simp
  qed
qed simp

lemma handle_write_exact:
  assumes "exact_inv fd0 state need nx p0 s" and "follows fd0 state need nx user"
  shows "exact_inv fd0 state need nx p0 (handle_write user fd send s)"
proof (cases "write_some send (drop (written (conns s fd)) (wr_buf (conns s fd)))")
  case None
  then show ?thesis using detach_exact [OF assms] assms(1)
    by (simp add: handle_write_def Let_def exact_inv_def scribe_io_failure_def upd_mx_def crash_def)
next
  case (Some bs)
  let ?c = "conns s fd"
  define t where "t = act_on fd (stored bs) [] s"
  have t: "set_conn fd (?c\<lparr>written := written ?c + length bs, sent_bytes := sent_bytes ?c @ bs\<rparr>) s = t"
    by (simp add: t_def act_on_def io_ops stored_def)
  have te: "exact_inv fd0 state need nx p0 t" unfolding t_def
    by (rule exact_act [OF assms(1)]) (simp add: read_view_def stored_def)
  have n: "exact_inv fd0 state need nx p0 (prepare_next_write fd u)" if "exact_inv fd0 state need nx p0 u" for u
    unfolding prepare_next_write_act by (rule exact_act [OF that]) (simp add: read_view_def done_write_def)
  have "exact_inv fd0 state need nx p0 (scribe_data_transferred user fd k l t)" for k l
    using tell_broker_other [OF te assms(2)] te by (simp add: scribe_data_transferred_def)
  moreover have "exact_inv fd0 state need nx p0 (crash t)" using te by (simp add: exact_inv_def crash_def)
  ultimately show ?thesis using Some te n assms(1) by (simp add: handle_write_def Let_def t)
qed

lemma handle_ready_exact:
  assumes "io_inv p idle s" and "handler_ok p user" and "sock_reported p (eventbf (mx s)) r"
    and "exact_inv fd0 state need nx p0 s" and "follows fd0 state need nx user" and "\<And>p. 0 < need p"
    and "\<And>cmds. r = Resume cmds \<Longrightarrow> asks_exactly fd0 (need (state (broker s))) cmds"
  shows "exact_inv fd0 state need nx p0 (handle_ready mcr user r s)"
proof (cases r)
  case (Resume cmds)
  note k = run_commands_kept [of s cmds]
  show ?thesis
    using assms(4) k run_commands_ready [OF _ assms(7) [OF Resume], of s]
    by (auto simp: Resume exact_inv_def chunks_ok_def kept_def)
next
  case (Socket fd m recv send)
  define t where "t = (if m AND input_mask \<noteq> 0 \<and> \<not> read_channel_closed (conns s fd) then read_loop user fd recv 0 mcr s else s)"
  have t: "exact_inv fd0 state need nx p0 t"
    using read_loop_exact [OF assms(1) _ assms(2) _ assms(4-6)] assms(3,4) by (simp add: t_def Socket io_mask_bits)
  define u where "u = (if m AND output_mask \<noteq> 0 then handle_write user fd send t else t)"
  have u: "exact_inv fd0 state need nx p0 u" using handle_write_exact [OF t assms(5)] t by (simp add: u_def)
  have "exact_inv fd0 state need nx p0 (handle_error user fd u)"
    using detach_exact [OF _ assms(5)] u by (simp add: handle_error_def scribe_io_failure_def Let_def)
  then have "exact_inv fd0 state need nx p0 (upd_mx f (upd_mx g (handle_error user fd u)))" for f g
    by (simp add: exact_inv_def upd_mx_def)
  moreover have "handle_ready mcr user r s = (if m AND input_mask = 0 \<and> m AND output_mask = 0 \<and> m AND error_mask \<noteq> 0
      then upd_mx (mux_del Op_write fd) (upd_mx (mux_del Op_read fd) (handle_error user fd u)) else u)"
    by (simp add: Socket handle_socket_event_def Let_def u_def t_def)
  ultimately show ?thesis using u by simp
qed

text \<open>The commands that a broker makes outside of its handlers keep to the protocol too.\<close>

fun keeps_to :: "int \<Rightarrow> ('u \<Rightarrow> 'p) \<Rightarrow> ('p \<Rightarrow> nat) \<Rightarrow> 'u \<Rightarrow> ready_event \<Rightarrow> bool" where
  "keeps_to fd state need u (Resume cmds) = asks_exactly fd (need (state u)) cmds"
| "keeps_to fd state need u (Socket x m recv send) = True"

primrec exact_ready :: "int \<Rightarrow> ('u \<Rightarrow> 'p) \<Rightarrow> ('p \<Rightarrow> nat) \<Rightarrow> nat \<Rightarrow> 'u handler \<Rightarrow> ready_event list \<Rightarrow> 'u io \<Rightarrow> bool" where
  "exact_ready fd state need mcr user [] s = True"
| "exact_ready fd state need mcr user (r # rs) s =
     (keeps_to fd state need (broker s) r \<and> exact_ready fd state need mcr user rs (handle_ready mcr user r s))"

primrec exact_run ::
    "int \<Rightarrow> ('u \<Rightarrow> 'p) \<Rightarrow> ('p \<Rightarrow> nat) \<Rightarrow> (ctl_call list \<Rightarrow> ctl_call \<Rightarrow> ctl_error option) \<Rightarrow> nat \<Rightarrow> 'u handler \<Rightarrow> io_event list \<Rightarrow> 'u io \<Rightarrow> bool" where
  "exact_run fd state need ctl mcr user [] s = True"
| "exact_run fd state need ctl mcr user (ev # evs) s =
     ((case ev of Round rs \<Rightarrow> exact_ready fd state need mcr user rs s | _ \<Rightarrow> True)
      \<and> exact_run fd state need ctl mcr user evs (io_step (epoll_handle ctl) mcr user ev s))"

lemma handle_all_ready_exact:
  assumes "io_inv p idle s" and "handler_ok p user" and "list_all (sock_reported p (eventbf (mx s))) rs"
    and "exact_inv fd0 state need nx p0 s" and "follows fd0 state need nx user" and "\<And>p. 0 < need p"
    and "exact_ready fd0 state need mcr user rs s"
  shows "exact_inv fd0 state need nx p0 (fold (handle_ready mcr user) rs s)"
  using assms(1,3,4,7)
proof (induction rs arbitrary: s)
  case (Cons r rs)
  have r: "sock_reported p (eventbf (mx s)) r" "list_all (sock_reported p (eventbf (mx s))) rs" using Cons.prems(2) by simp_all
  have k: "keeps_to fd0 state need (broker s) r" "exact_ready fd0 state need mcr user rs (handle_ready mcr user r s)"
    using Cons.prems(4) by simp_all
  have "exact_inv fd0 state need nx p0 (handle_ready mcr user r s)"
    by (rule handle_ready_exact [OF Cons.prems(1) assms(2) r(1) Cons.prems(3) assms(5,6)]) (use k(1) in simp)
  then show ?case using Cons.IH handle_ready_inv [OF Cons.prems(1) assms(2) r(1), of mcr] r(2) k(2) by simp
qed simp

lemma io_step_exact:
  assumes "io_inv p idle s" and "accepts_valid ctl" and "handler_ok p user" and "fair_event p s ev"
    and "exact_inv fd0 state need nx p0 s" and "follows fd0 state need nx user" and "\<And>p. 0 < need p"
    and "case ev of Round rs \<Rightarrow> exact_ready fd0 state need mcr user rs s | _ \<Rightarrow> True"
  shows "exact_inv fd0 state need nx p0 (io_step (epoll_handle ctl) mcr user ev s)"
proof (cases ev)
  case (Arrive fd bs)
  have "exact_inv fd0 state need nx p0 (act_on fd (\<lambda>c. c\<lparr>in_queue := in_queue c @ bs, arrived := arrived c @ bs\<rparr>) [] s)"
    by (rule exact_act [OF assms(5)]) (simp add: read_view_def)
  then show ?thesis by (simp add: Arrive act_on_def io_ops)
next
  case (Round rs)
  let ?t = "fold (handle_ready mcr user) rs s"
  have r: "list_all (sock_reported p (eventbf (mx s))) rs" using assms(4) Round by simp
  have t: "io_inv p idle ?t" by (rule handle_all_ready_inv [OF assms(1,3) r])
  have te: "exact_inv fd0 state need nx p0 ?t"
    by (rule handle_all_ready_exact [OF assms(1,3) r assms(5-7)]) (use assms(8) Round in simp)
  obtain gone m where e: "end_round (epoll_handle ctl) ?t
      = fold (\<lambda>(fd, op). upd_conn fd (stream_removed_from_loop op)) gone (?t\<lparr>mx := m\<rparr>)"
    using end_round_eq [OF t assms(2)] by metis
  show ?thesis using te fold_removed [of gone "?t\<lparr>mx := m\<rparr>" fd0]
    by (simp add: Round e exact_inv_def chunks_ok_def ready_conn_def)
qed

lemma run_exact:
  assumes "accepts_valid ctl" and "handler_ok p user" and "follows fd0 state need nx user" and "\<And>p. 0 < need p"
    and "io_inv p idle s" and "exact_inv fd0 state need nx p0 s" and "fair_run ctl mcr user p evs s"
    and "exact_run fd0 state need ctl mcr user evs s"
  shows "exact_inv fd0 state need nx p0 (fold (io_step (epoll_handle ctl) mcr user) evs s)"
  using assms(5-8)
proof (induction evs arbitrary: s)
  case (Cons ev evs)
  have "fair_event p s ev" using Cons.prems(3) by simp
  from io_step_inv [OF Cons.prems(1) assms(1,2) this, of mcr] io_step_exact [OF Cons.prems(1) assms(1,2) this Cons.prems(2) assms(3,4), of mcr]
  show ?case using Cons.IH Cons.prems(3,4) by simp
qed simp

lemma exact_start: "exact_inv fd state need nx (state u) (io_start p u)"
  by (simp add: exact_inv_def io_start_def chunks_ok_def ready_conn_def new_stream_def chunks_nil)

section \<open>Properties\<close>

abbreviation run_io ::
    "(ctl_call list \<Rightarrow> ctl_call \<Rightarrow> ctl_error option) \<Rightarrow> nat \<Rightarrow> 'u handler \<Rightarrow> io_event list \<Rightarrow> 'u io \<Rightarrow> 'u io" where
  "run_io ctl mcr user evs s \<equiv> fold (io_step (epoll_handle ctl) mcr user) evs s"

text \<open>C13: in every run, with any receive policies, partial reads and writes, and failures, no null pointer is dereferenced; what
  a broker gets from a connection is, in order and complete, what arrived there, up to what is collected or not yet read; and
  what it wrote is, in order and complete, what was sent, up to what is in the buffers.\<close>

theorem bytes_in_order:
  assumes "accepts_valid ctl" and "handler_ok p user" and "fair_run ctl mcr user p evs (io_start p u)" and "fd \<noteq> p"
    and "s = run_io ctl mcr user evs (io_start p u)" and "c = conns s fd"
  shows "\<not> crashed s \<and> (\<exists>rest. arrived c = concat (new_data c) @ rest)
    \<and> (parent c \<longrightarrow> arrived c = concat (new_data c) @ take (collected c) (rd_buf c) @ in_queue c)
    \<and> put_bytes c = sent_bytes c @ drop (written c) (wr_buf c) @ wr_offline_buf c"
proof -
  have i: "io_inv p idle s" using run_inv [OF assms(1,2) io_start_inv assms(3)] assms(5) by simp
  have "read_ok c" "write_ok c" using io_invD(2,4) [OF i assms(4)] assms(6) by simp_all
  moreover have "\<not> crashed s" using i by (simp add: io_inv_def)
  ultimately show ?thesis by (auto simp: read_ok_def write_ok_def)
qed

text \<open>While a connection is open, the chunks that its broker got are those of the bytes delivered, and the policy is the one needed.\<close>

lemma run_chunks:
  assumes "accepts_valid ctl" and "handler_ok p user" and "fair_run ctl mcr user p evs (io_start p u)" and "fd \<noteq> p"
    and "follows fd state need nx user" and "\<And>q. 0 < need q" and "exact_run fd state need ctl mcr user evs (io_start p u)"
    and "s = run_io ctl mcr user evs (io_start p u)" and "c = conns s fd" and "\<not> threw s" and "parent c" and "launched c"
  shows "arrived c = concat (new_data c) @ take (collected c) (rd_buf c) @ in_queue c"
    and "cut_chunks need nx (state u) (concat (new_data c)) = (new_data c, state (broker s), [])"
    and "length (take (collected c) (rd_buf c)) < need (state (broker s))"
proof -
  have i: "io_inv p idle s" using run_inv [OF assms(1,2) io_start_inv assms(3)] assms(8) by simp
  have r: "read_ok c" using io_invD(4) [OF i assms(4)] assms(9) by simp
  have e: "exact_inv fd state need nx (state u) s"
    unfolding assms(8) by (rule run_exact [OF assms(1,2,5,6) io_start_inv exact_start assms(3,7)])
  show "arrived c = concat (new_data c) @ take (collected c) (rd_buf c) @ in_queue c" using r assms(11) by (simp add: read_ok_def)
  show "cut_chunks need nx (state u) (concat (new_data c)) = (new_data c, state (broker s), [])"
    using e assms(9-11) by (simp add: exact_inv_def chunks_ok_def)
  have "ready_conn (need (state (broker s))) c" using e assms(9-11) by (simp add: exact_inv_def)
  then show "length (take (collected c) (rd_buf c)) < need (state (broker s))"
    using r assms(11,12) by (auto simp: read_ok_def ready_conn_def)
qed

text \<open>A broker that sends what it gets back on its connection, four bytes at a time.\<close>

definition echo :: "nat handler" where
  "echo u fd n = (case n of New_data bs \<Rightarrow> (u + 1, [Write 7 bs]) | _ \<Rightarrow> (u, []))"

definition echo_run :: "io_event list" where
  "echo_run = [Round [Resume [Configure_read 7 (Exactly, 4)]], Arrive 7 [1, 2, 3, 4, 5], Round [Socket 7 input_mask (\<lambda>_. Received 1) Send_would_block],
     Round [Socket 7 output_mask (\<lambda>_. Received 1) (Sent_up_to 2)]]"

lemma echo_handler: "handler_ok 3 echo"
  by (auto simp: handler_ok_def echo_def split: broker_note.split)

lemma echo_fair: "fair_run linux_ctl 50 echo 3 echo_run (io_start 3 0)"
  by code_simp

definition echo_end :: "nat io" where
  "echo_end = run_io linux_ctl 50 echo echo_run (io_start 3 0)"

lemma echo_end:
  "parent (conns echo_end 7)" "launched (conns echo_end 7)" "\<not> threw echo_end" "in_queue (conns echo_end 7) = []"
  "arrived (conns echo_end 7) = [1, 2, 3, 4, 5]" "sent_bytes (conns echo_end 7) = [1, 2, 3]"
  "take (collected (conns echo_end 7)) (rd_buf (conns echo_end 7)) = [5]"
  by code_simp+

theorem bytes_in_order_witness:
  "concat (new_data (conns echo_end 7)) = [1, 2, 3, 4]
    \<and> put_bytes (conns echo_end 7) = [1, 2, 3] @ drop (written (conns echo_end 7)) (wr_buf (conns echo_end 7)) @ wr_offline_buf (conns echo_end 7)"
  using bytes_in_order [OF linux_accepts echo_handler echo_fair _ echo_end_def refl, of 7] echo_end by simp

text \<open>C14: if the broker asks on a connection for exactly the bytes that a protocol needs, then however the network splits what
  arrives and however the calls for other connections are interleaved, the broker gets exactly the chunks into which the
  protocol cuts the stream, and its state is the one after them, as long as the connection is open.\<close>

theorem exact_chunks:
  assumes "accepts_valid ctl" and "handler_ok p user" and "fair_run ctl mcr user p evs (io_start p u)" and "fd \<noteq> p"
    and "follows fd state need nx user" and "\<And>q. 0 < need q" and "exact_run fd state need ctl mcr user evs (io_start p u)"
    and "s = run_io ctl mcr user evs (io_start p u)" and "c = conns s fd" and "\<not> threw s" and "parent c" and "launched c"
  shows "cut_chunks need nx (state u) (arrived c) =
    (case cut_chunks need nx (state (broker s)) (take (collected c) (rd_buf c) @ in_queue c) of (cs, q, r) \<Rightarrow> (new_data c @ cs, q, r))
    \<and> (in_queue c = [] \<longrightarrow> cut_chunks need nx (state u) (arrived c) = (new_data c, state (broker s), take (collected c) (rd_buf c)))"
proof -
  note r = run_chunks [OF assms]
  have "cut_chunks need nx (state u) (arrived c) =
      (case cut_chunks need nx (state (broker s)) (take (collected c) (rd_buf c) @ in_queue c) of (cs, q, r) \<Rightarrow> (new_data c @ cs, q, r))"
    unfolding r(1) chunks_append [OF r(2)] by simp
  then show ?thesis by (simp add: chunks_less [of _ need, OF r(3)])
qed

lemma echo_follows: "follows 7 (\<lambda>_. ()) (\<lambda>_. 4) (\<lambda>_ _. ()) echo"
  by (auto simp: follows_def echo_def asks_exactly_def split: broker_note.split)

theorem exact_chunks_witness:
  "cut_chunks (\<lambda>_. 4) (\<lambda>_ _. ()) () [1, 2, 3, 4, 5] = (new_data (conns echo_end 7), (), [5])"
proof -
  have x: "exact_run 7 (\<lambda>_. ()) (\<lambda>_. 4) linux_ctl 50 echo echo_run (io_start 3 0)"
    by (simp add: echo_run_def asks_exactly_def)
  show ?thesis
    using conjunct2 [OF exact_chunks [OF linux_accepts echo_handler echo_fair _ echo_follows _ x echo_end_def refl]] echo_end by simp
qed

section \<open>Sending\<close>

text \<open>The operating system reports a socket as writable as long as it is registered; each time some bytes can be sent.\<close>

primrec write_rounds ::
    "(ctl_call list \<Rightarrow> ctl_call \<Rightarrow> ctl_error option) \<Rightarrow> nat \<Rightarrow> 'u handler \<Rightarrow> int \<Rightarrow> nat list \<Rightarrow> 'u io \<Rightarrow> 'u io" where
  "write_rounds ctl mcr user fd [] s = s"
| "write_rounds ctl mcr user fd (k # ks) s =
     (if bit (eventbf (mx s) fd) 2
      then write_rounds ctl mcr user fd ks
             (io_step (epoll_handle ctl) mcr user (Round [Socket fd output_mask (\<lambda>_. Recv_would_block) (Sent_up_to k)]) s)
      else s)"

definition not_sent :: "stream_conn \<Rightarrow> octets" where
  "not_sent c = drop (written c) (wr_buf c) @ wr_offline_buf c"

text \<open>Between rounds: nothing is pending, and a connection is registered for writing exactly while something is to be sent.\<close>

definition sending :: "int \<Rightarrow> int \<Rightarrow> 'u io \<Rightarrow> bool" where
  "sending p fd s \<longleftrightarrow> io_inv p idle s \<and> (bit (wanted watched (mx s) fd) 2 \<longleftrightarrow> not_sent (conns s fd) \<noteq> []) \<and> \<not> ack_writes (conns s fd)
     \<and> (writing (conns s fd) \<longleftrightarrow> not_sent (conns s fd) \<noteq> [])"

lemma end_round_sending:
  assumes "sending p fd s" and "accepts_valid ctl" and "fd \<noteq> p"
  defines "t \<equiv> end_round (epoll_handle ctl) s"
  shows "sending p fd t \<and> (bit (eventbf (mx t) fd) 2 \<longleftrightarrow> not_sent (conns s fd) \<noteq> []) \<and> not_sent (conns t fd) = not_sent (conns s fd)
    \<and> sent_bytes (conns t fd) = sent_bytes (conns s fd) \<and> put_bytes (conns t fd) = put_bytes (conns s fd) \<and> eventbf (mx t) fd = wanted watched (mx t) fd"
proof -
  have i: "io_inv p idle s" using assms(1) by (simp add: sending_def)
  have ti: "io_inv p idle t" unfolding t_def by (rule end_round_inv [OF i assms(2)])
  obtain gone m where e: "end_round (epoll_handle ctl) s = fold (\<lambda>(fd, op). upd_conn fd (stream_removed_from_loop op)) gone (s\<lparr>mx := m\<rparr>)"
    and m: "\<And>fd. fd \<noteq> p \<Longrightarrow> eventbf m fd = wanted watched (mx s) fd" "wanted watched m = wanted watched (mx s)"
    using end_round_eq [OF i assms(2)] by metis
  note f = fold_removed [of gone "s\<lparr>mx := m\<rparr>" fd]
  have c: "mx t = m" "not_sent (conns t fd) = not_sent (conns s fd)" "ack_writes (conns t fd) = ack_writes (conns s fd)"
      "writing (conns t fd) = writing (conns s fd)" "sent_bytes (conns t fd) = sent_bytes (conns s fd)" "put_bytes (conns t fd) = put_bytes (conns s fd)"
    using f by (simp_all add: t_def e not_sent_def)
  show ?thesis using assms(1) ti c m assms(3) by (simp add: sending_def)
qed

lemma take_drop_chunk: "xs = take n xs @ drop (length (take n xs)) xs"
  by (cases "n \<le> length xs") (simp_all add: min_def)

lemma output_only: "output_mask AND input_mask = 0" "output_mask AND output_mask \<noteq> 0" "output_mask \<noteq> 0"
  by (simp_all add: output_mask_def input_mask_def)

lemma write_event:
  fixes k :: nat
  assumes "sending p fd s" and "fd \<noteq> p" and "handler_ok p user" and "bit (eventbf (mx s) fd) 2" and "eventbf (mx s) fd = wanted watched (mx s) fd"
  defines "t \<equiv> handle_write user fd (Sent_up_to k) s"
  shows "sending p fd t \<and> put_bytes (conns t fd) = put_bytes (conns s fd)
    \<and> (\<exists>bs. bs \<noteq> [] \<and> not_sent (conns s fd) = bs @ not_sent (conns t fd))"
proof -
  let ?c = "conns s fd" and ?w = "wanted watched (mx s) fd"
  have i: "io_inv p idle s" and ack: "\<not> ack_writes ?c" using assms(1) by (simp_all add: sending_def)
  have c: "write_ok ?c" "writing ?c" "unsent ?c" using io_invD [OF i assms(2)] assms(4,5) by (simp_all add: stream_ok_def)
  have ti: "io_inv p idle t" unfolding t_def using handle_write_inv [OF i assms(2,3,4)] by blast
  define bs where "bs = take (Suc k) (drop (written ?c) (wr_buf ?c))"
  have lt: "written ?c < length (wr_buf ?c)" using c(2,3) by (simp add: unsent_def)
  then have bs: "bs \<noteq> []" "drop (written ?c) (wr_buf ?c) = bs @ drop (written ?c + length bs) (wr_buf ?c)"
    using take_drop_chunk [where n = "Suc k" and xs = "drop (written ?c) (wr_buf ?c)"] unfolding bs_def by (simp_all add: add.commute)
  define u where "u = act_on fd (stored bs) [] s"
  have u: "conns u fd = stored bs ?c" "mx u = mx s" "eventbf (mx u) = eventbf (mx s)" by (simp_all add: u_def act_on_def)
  have e: "t = (if length (wr_buf ?c) - (written ?c + length bs) = 0 then prepare_next_write fd u else u)"
    using bs(1) ack lt by (simp add: t_def handle_write_def Let_def bs_def [symmetric] u_def act_on_def io_ops stored_def)
  show ?thesis
  proof (cases "length (wr_buf ?c) \<le> written ?c + length bs")
    case True
    then have n: "drop (written ?c + length bs) (wr_buf ?c) = []" by simp
    have tt: "t = act_on fd done_write (if wr_offline_buf ?c = [] then [Del Op_write fd] else []) u"
      using e True by (simp add: prepare_next_write_act u(1) stored_def)
    have cc: "conns t fd = done_write (stored bs ?c)" by (simp add: tt act_on_def u(1))
    have m: "mux_inv watched epoll_ok True (mx u)" "pipe_in (mx u) = p" using i by (simp_all add: io_inv_def u(2))
    have ns: "not_sent (conns t fd) = wr_offline_buf ?c" "writing (conns t fd) \<longleftrightarrow> wr_offline_buf ?c \<noteq> []"
        "ack_writes (conns t fd) = ack_writes ?c" "put_bytes (conns t fd) = put_bytes ?c"
      using c(2) by (auto simp: cc not_sent_def done_write_def stored_def)
    have "bit (wanted watched (mx t) fd) 2 \<longleftrightarrow> wr_offline_buf ?c \<noteq> []"
      using own_asks [OF m assms(2), of "if wr_offline_buf ?c = [] then [Del Op_write fd] else []"] io_flag_bits [of ?w] assms(4,5)
      by (auto simp: tt act_on_def u(2) simp del: del_flag.simps)
    then show ?thesis using ti ns ack bs n by (auto simp: sending_def not_sent_def intro!: exI [of _ bs])
  next
    case False
    then have tt: "t = u" using e by simp
    have ns: "not_sent (conns t fd) = drop (written ?c + length bs) (wr_buf ?c) @ wr_offline_buf ?c" "not_sent (conns t fd) \<noteq> []"
      using False by (simp_all add: tt u(1) not_sent_def stored_def)
    show ?thesis using ti ns ack bs c(2) assms(4,5)
      by (auto simp: sending_def tt u not_sent_def stored_def intro!: exI [of _ bs])
  qed
qed

lemma write_rounds_send:
  fixes mcr :: nat
  assumes "accepts_valid ctl" and "handler_ok p user" and "fd \<noteq> p"
    and "sending p fd s" and "eventbf (mx s) fd = wanted watched (mx s) fd" and "length (not_sent (conns s fd)) \<le> length ks"
  defines "t \<equiv> write_rounds ctl mcr user fd ks s"
  shows "sent_bytes (conns t fd) = put_bytes (conns s fd) \<and> put_bytes (conns t fd) = put_bytes (conns s fd)
    \<and> \<not> bit (eventbf (mx t) fd) 2 \<and> io_inv p idle t"
  unfolding t_def using assms(4-6)
proof (induction ks arbitrary: s)
  case Nil
  have i: "io_inv p idle s" using Nil.prems(1) by (simp add: sending_def)
  show ?case using Nil.prems io_invD(2) [OF i assms(3)] i by (simp add: sending_def write_ok_def not_sent_def)
next
  case (Cons k ks)
  have i: "io_inv p idle s" using Cons.prems(1) by (simp add: sending_def)
  show ?case
  proof (cases "bit (eventbf (mx s) fd) 2")
    case True
    define u where "u = handle_write user fd (Sent_up_to k) s"
    define v where "v = end_round (epoll_handle ctl) u"
    note w = write_event [OF Cons.prems(1) assms(3,2) True Cons.prems(2), of k, folded u_def]
    have us: "sending p fd u" using w by blast
    note r = end_round_sending [OF us assms(1,3), folded v_def]
    obtain bs where "bs \<noteq> []" "not_sent (conns s fd) = bs @ not_sent (conns u fd)" using w by blast
    then have "length (not_sent (conns u fd)) \<le> length ks" using Cons.prems(3) by (cases bs) auto
    then have l: "length (not_sent (conns v fd)) \<le> length ks" using r by simp
    have "io_step (epoll_handle ctl) mcr user (Round [Socket fd output_mask (\<lambda>_. Recv_would_block) (Sent_up_to k)]) s = v"
      by (simp add: v_def u_def handle_socket_event_def output_only Let_def)
    then show ?thesis using Cons.IH [of v] r w l True by simp
  next
    case False
    then have "not_sent (conns s fd) = []" using Cons.prems(1,2) by (simp add: sending_def)
    then show ?thesis using False io_invD(2) [OF i assms(3)] i by (simp add: write_ok_def not_sent_def)
  qed
qed

lemma write_flush_sending:
  fixes bs :: octets
  assumes "io_inv p idle s" and "fd \<noteq> p" and "parent (conns s fd)" and "\<not> ack_writes (conns s fd)" and "\<not> writing (conns s fd)"
  defines "t \<equiv> run_commands [Write fd bs, Flush fd] s"
  shows "sending p fd t \<and> not_sent (conns t fd) = wr_offline_buf (conns s fd) @ bs \<and> put_bytes (conns t fd) = put_bytes (conns s fd) @ bs"
proof -
  let ?c = "conns s fd"
  have i: "io_inv p idle t" unfolding t_def using run_commands_inv [OF assms(1), of "[Write fd bs, Flush fd]"] assms(2) by simp
  define u where "u = act_on fd (cmd_conn (Write fd bs)) [] s"
  have u: "conns u fd = ?c\<lparr>wr_offline_buf := wr_offline_buf ?c @ bs, put_bytes := put_bytes ?c @ bs\<rparr>" "mx u = mx s"
    by (simp_all add: u_def act_on_def)
  have t: "t = act_on fd (cmd_conn (Flush fd)) (cmd_asks (Flush fd) (conns u fd)) u"
  proof -
    have "exec_command (Write fd bs) s = u" by (simp add: exec_command_act u_def)
    moreover have "parent (conns u fd)" using assms(3) by (simp add: u(1))
    ultimately show ?thesis using assms(3) exec_command_act [of "Flush fd" u] by (simp add: t_def del: exec_command.simps)
  qed
  have m: "mux_inv watched epoll_ok True (mx u)" "pipe_in (mx u) = p" using assms(1) by (simp_all add: io_inv_def u(2))
  have w: "\<not> bit (wanted watched (mx s) fd) 2" "wr_buf ?c = []"
    using io_invD(1,2) [OF assms(1,2)] assms(5) by (auto simp: stream_ok_def write_ok_def)
  have c: "conns t fd = cmd_conn (Flush fd) (conns u fd)" by (simp add: t act_on_def)
  have "not_sent (conns t fd) = wr_offline_buf ?c @ bs" "put_bytes (conns t fd) = put_bytes ?c @ bs" "\<not> ack_writes (conns t fd)"
      "writing (conns t fd) \<longleftrightarrow> wr_offline_buf ?c @ bs \<noteq> []"
    using w(2) assms(4,5) by (auto simp: c u(1) not_sent_def start_write_def)
  moreover have "bit (wanted watched (mx t) fd) 2 \<longleftrightarrow> wr_offline_buf ?c @ bs \<noteq> []"
    using own_asks [OF m assms(2) own_cmd_asks [of "Flush fd" "conns u fd", unfolded target.simps]] w(1) assms(5)
      io_flag_bits [of "wanted watched (mx s) fd"]
    by (auto simp: t act_on_def u simp del: add_flag.simps)
  ultimately show ?thesis using i by (simp add: sending_def)
qed

text \<open>C15: what a broker writes to a connection and flushes is sent: from any reachable state in which the connection has nothing
  under way, as many writable events as there are bytes are enough, however few bytes each of them takes; all that was ever
  written has then been sent in order, and the socket is not watched for writing any more.\<close>

theorem flushed_sent:
  assumes "accepts_valid ctl" and "handler_ok p user" and "fair_run ctl mcr user p evs (io_start p u)" and "fd \<noteq> p"
    and "s = run_io ctl mcr user evs (io_start p u)" and "parent (conns s fd)" and "\<not> ack_writes (conns s fd)" and "\<not> writing (conns s fd)"
    and "t = write_rounds ctl mcr user fd ks (io_step (epoll_handle ctl) mcr user (Round [Resume [Write fd bs, Flush fd]]) s)"
    and "length (wr_offline_buf (conns s fd) @ bs) \<le> length ks"
  shows "sent_bytes (conns t fd) = put_bytes (conns s fd) @ bs \<and> \<not> bit (eventbf (mx t) fd) 2"
proof -
  have i: "io_inv p idle s" using run_inv [OF assms(1,2) io_start_inv assms(3)] assms(5) by simp
  note f = write_flush_sending [OF i assms(4,6-8), of bs]
  then have "sending p fd (run_commands [Write fd bs, Flush fd] s)" by blast
  note r = end_round_sending [OF this assms(1,4)]
  have "io_step (epoll_handle ctl) mcr user (Round [Resume [Write fd bs, Flush fd]]) s
      = end_round (epoll_handle ctl) (run_commands [Write fd bs, Flush fd] s)" by simp
  then show ?thesis
    using write_rounds_send [OF assms(1,2,4), of _ ks mcr] r f assms(9,10) by metis
qed

theorem flushed_sent_witness:
  "\<exists>t :: nat io. sent_bytes (conns t 7) = [9, 8, 7] \<and> \<not> bit (eventbf (mx t) 7) 2"
proof -
  let ?s = "run_io linux_ctl 50 echo [] (io_start 3 0)"
  have s: "parent (conns ?s 7)" "\<not> ack_writes (conns ?s 7)" "\<not> writing (conns ?s 7)" "wr_offline_buf (conns ?s 7) = []" "put_bytes (conns ?s 7) = []"
    by (simp_all add: io_start_def new_stream_def) (simp_all add: stream_configure_read_def)
  show ?thesis
    using flushed_sent [OF linux_accepts echo_handler, of 50 "[]" 0 7 ?s _ "[0, 1, 2]" "[9, 8, 7]"] s by auto
qed

section \<open>Closing\<close>

definition released :: "stream_conn \<Rightarrow> bool" where
  "released c \<longleftrightarrow> \<not> parent c \<and> \<not> reader c \<and> \<not> writer c"

text \<open>A connection that is registered for reading and has nothing to send is released in the round in which it is closed.\<close>

lemma closed_is_released:
  fixes mcr :: nat and user :: "'u handler"
  assumes "io_inv p idle s" and "accepts_valid ctl" and "fd \<noteq> p" and "parent (conns s fd)" and "bit (watched (mx s) fd) 0"
    and "\<not> writer (conns s fd)"
  defines "t \<equiv> io_step (epoll_handle ctl) mcr user (Round [Resume [Close fd]]) s"
  shows "released (conns t fd) \<and> \<not> bit (eventbf (mx t) fd) 0"
proof -
  define u where "u = act_on fd (cmd_conn (Close fd)) [Del Op_read fd] s"
  have t: "t = end_round (epoll_handle ctl) u" using assms(4) by (simp add: t_def u_def exec_command_act del: exec_command.simps)
  have i: "io_inv p idle u"
    using exec_command_inv [OF assms(1), of "Close fd"] assms(3) by (simp add: exec_command_act u_def del: exec_command.simps)
  have m: "mux_inv watched epoll_ok True (mx s)" "pipe_in (mx s) = p" using assms(1) by (simp_all add: io_inv_def)
  have w: "\<not> bit (wanted watched (mx u) fd) 0"
    using own_asks [OF m assms(3), of "[Del Op_read fd]"] io_flag_bits by (simp add: u_def act_on_def del: del_flag.simps)
  have wt: "watched (mx u) = watched (mx s)"
    using epoll.asks_wanted [OF m(1), of "[Del Op_read fd]"] m(2) assms(3) by (simp add: u_def act_on_def)
  obtain gone n where e: "t = fold (\<lambda>(fd, op). upd_conn fd (stream_removed_from_loop op)) gone (u\<lparr>mx := n\<rparr>)"
    and n: "eventbf n fd = wanted watched (mx u) fd" "set gone = gone_from p (watched (mx u)) (wanted watched (mx u))"
    using end_round_eq [OF i assms(2)] assms(3) unfolding t by metis
  have "(fd, Op_read) \<in> set gone" using w wt assms(3,5) by (simp add: n(2) gone_from_def)
  then show ?thesis using fold_removed [of gone "u\<lparr>mx := n\<rparr>" fd] w n(1) assms(6) by (simp add: e released_def u_def act_on_def)
qed



end
