(* ===== verification/Spec2Isabelle.thy ===== *)
theory Spec2Isabelle
  imports Prelude CMemory Packet Buffer Session SessionTable HttpParse HttpGrammar HttpMessages Handle
    Reassembly HandleInvariant Receiver Exchange Capture HttpProperties HttpLimits
    TypeList Atom ParseIni IniProperties Deque DequeProperties Errors Monitorable LinkLocking MonitorProperties MessageId PartitionedList Mailbox MailboxConcurrent ScheduledActor MailboxProperties ActorLoop ActorLemmas ActorProperties
    Serializer NodeId BaspHeader RoutingTable BaspInstance BaspProperties ActorRegistry BaspBroker BrokerHelpers BrokerLemmas BrokerProperties BrokerPairs CoreProperties
    ActorPool PoolProperties GroupManager GroupProperties Messages MessageProperties CliOptions CliProperties
    Multiplexer MuxProperties StreamIo StreamLemmas StreamProperties
begin

text \<open>
  The repository holds an HTTP decoder that reads TCP packets from a capture file
  (\<open>src/http_parser/httpfunction/src\<close>) and the C++ Actor Framework 0.15.0a1 that one of its programs runs on
  (\<open>src/actor-framework-0.15.0a1\<close>). The development models the whole decoder and the parts of the framework
  on which the delivery of messages rests, inside a process and between processes, with the life cycle of the
  actors that exchange them.

  The theories are grouped as follows. \<open>Prelude\<close> has the integer types at their width, faults and results;
  \<open>CMemory\<close> has memory blocks, the allocator and the C string functions. A fault of the model stands for
  undefined behaviour of the code. Everything else is in one of the two groups.

  \<^bold>\<open>The HTTP decoder.\<close>
  \<^item> \<open>Packet\<close>: \<open>CFormatPacket\<close> and the match information (FormatPacket, BehaviorInfo). A packet is a block
    and offsets.
  \<^item> \<open>Buffer\<close>: \<open>CBuffer\<close>, with the contract of a stream buffer as a locale.
  \<^item> \<open>Session\<close>, \<open>SessionTable\<close>: \<open>CResult\<close>, \<open>CSession\<close> and \<open>CSessionHashTable\<close>. Sessions live in a heap, the
    table has their addresses; the locale \<open>keyed_store\<close> is its contract.
  \<^item> \<open>HttpParse\<close>: \<open>CHttpParse\<close>, walking over the blocks with 32 bit positions. \<open>HttpGrammar\<close> states on strings
    what it accepts and proves that the walking functions compute that; \<open>HttpMessages\<close> renders messages and
    proves the round trips.
  \<^item> \<open>Handle\<close>: \<open>CHandle\<close>, one call a function from the table to the table. \<open>Reassembly\<close> is the abstract
    connection it refines, \<open>HandleInvariant\<close> its invariant.
  \<^item> \<open>Receiver\<close>: \<open>Receiver\<close> and the loops of AppMain.cpp and http_parser.cpp; \<open>Exchange\<close> follows one HTTP
    exchange through them, \<open>Capture\<close> a whole file.
  \<^item> \<open>HttpProperties\<close>, \<open>HttpLimits\<close>: the properties, and the inputs at which the program leaves its contract.

  \<^bold>\<open>The actor framework.\<close>
  \<^item> \<open>TypeList\<close> (type_list.hpp, type_pair.hpp, int_list.hpp): templates as functions on types.
  \<^item> \<open>Atom\<close> (atom.hpp, atom_val.hpp, atom.cpp): names packed into 64 bits.
  \<^item> \<open>MessageId\<close> (message_id.hpp, duration.hpp, duration.cpp): identifiers with their flags in 64 bits.
  \<^item> \<open>PartitionedList\<close> (intrusive_partitioned_list.hpp): the links are a store from elements to pointers,
    shared with the mailbox; the relation \<open>plist\<close> says which two lists they form.
  \<^item> \<open>Mailbox\<close> (single_reader_queue.hpp and the mailbox part of local_actor.cpp): each operation as one thread
    runs it, loops as \<open>partial_function\<close>, so that every result proved includes that the loop ends. The locale
    \<open>fifo_queue\<close> is the contract of a queue.
  \<^item> \<open>MailboxConcurrent\<close>: the same operations cut at each access to shared memory and interleaved, as an
    inductive step relation; the locale \<open>invariant\<close> gives the induction.
  \<^item> \<open>Errors\<close> (error.cpp, sec.cpp, exit_reason.cpp): errors with their order and text.
  \<^item> \<open>Monitorable\<close> (monitorable_actor.cpp, default_attachable.cpp): monitors, links and attached functors over a
    world of actors, messages being a log; \<open>LinkLocking\<close>: linking cut at the mutexes and interleaved.
  \<^item> \<open>ScheduledActor\<close> (scheduled_actor.cpp, sync_request_bouncer.cpp): enqueueing, timeouts and skipped
    messages. What a behavior does is a parameter.
  \<^item> \<open>ActorLoop\<close> (scheduled_actor.cpp, behavior_stack.cpp, response_promise.cpp): launching, the resume loop, the
    categories of messages, response handlers, exceptions and the end of an actor; the code of the user is a
    parameter of the definitions. \<open>ActorLemmas\<close> has its invariants.
  \<^item> \<open>ParseIni\<close> (parse_ini.cpp): the parser of configuration files; \<open>strtod\<close> is a parameter.
  \<^item> \<open>Deque\<close> (double_ended_queue.hpp): the queue of a worker, each operation cut at its accesses to shared memory
    and its two locks, any number of threads interleaved.
  \<^item> \<open>Serializer\<close> (streambuf.hpp, network_order.hpp, stream_serializer.hpp, stream_deserializer.hpp,
    data_processor.hpp): saving is a function on the buffer, loading a function on the input that returns an
    error or a value and the rest. The locale \<open>codec\<close> is the law of a pair of both.
  \<^item> \<open>NodeId\<close>, \<open>BaspHeader\<close>, \<open>RoutingTable\<close>, \<open>BaspInstance\<close> (node_id.cpp, and header, message_type,
    routing_table and instance of libcaf_io): the binary actor system protocol. Its callee and the hooks are
    logs, the bodies of messages a \<open>codec\<close> that the instance is given.
  \<^item> \<open>ActorRegistry\<close> (actor_registry.cpp, proxy_registry.cpp): actors are objects in a store, the tables have
    their addresses. \<open>BaspBroker\<close> (basp_broker.cpp): the actor around an instance, which runs the calls that the
    instance logs, keeps a context for each connection, creates, announces and ends proxies, and handles the
    messages of the multiplexer, the middleman and the proxies; \<open>BrokerHelpers\<close>: the actors it spawns.
    \<open>BrokerLemmas\<close> has the run of a broker and its invariants, \<open>BrokerPairs\<close> two brokers that are connected.
  \<^item> \<open>ActorPool\<close> (actor_pool.cpp): a pool forwards what it is sent to its workers in the thread of the sender, so
    each call is one step; what it sends is a log, random numbers are a parameter.
  \<^item> \<open>GroupManager\<close> (group_manager.cpp): a local group, its proxies on other nodes and their brokers, a step
    being a call of a user, a message that is sent after the lock was released, or the work of a broker on one
    message; and the calls of \<open>get\<close> and \<open>load\<close> of a module, cut at their locks.
  \<^item> \<open>Messages\<close> (message.cpp, concatenated_tuple.cpp, decorated_tuple.cpp, type_nr.hpp, try_match.cpp,
    behavior_impl.cpp): the data of a message is a tree of tuples, selections and concatenations, a case has a
    pattern and a token. \<open>CliOptions\<close> (message.cpp): \<open>extract_opts\<close>, the handlers being run by the extraction.
  \<^item> \<open>Multiplexer\<close> (default_multiplexer.cpp): the queue of requests of the handlers, and what epoll or poll is
    told of them after a round; calls of \<open>epoll_ctl\<close> are a log, their results a parameter. \<open>MuxProperties\<close> has
    the locale \<open>interest\<close>, the contract of the two, and its interpretations \<open>epoll\<close> and \<open>poll\<close>.
  \<^item> \<open>StreamIo\<close> (default_multiplexer.cpp, scribe.cpp, manager.cpp, receive_policy.hpp, abstract_broker.cpp):
    connections. A step is the arrival of bytes or a round of the loop; how much a system call transfers is a
    parameter of the event, the code of the broker one of the run. \<open>StreamLemmas\<close> has the invariant of all
    connections and of the queue, \<open>StreamProperties\<close> the properties.
  \<^item> \<open>MailboxProperties\<close>, \<open>MonitorProperties\<close>, \<open>ActorProperties\<close>, \<open>BaspProperties\<close>, \<open>BrokerProperties\<close>,
    \<open>IniProperties\<close>, \<open>DequeProperties\<close>, \<open>CoreProperties\<close>, \<open>PoolProperties\<close>, \<open>GroupProperties\<close>,
    \<open>MessageProperties\<close>, \<open>CliProperties\<close>: the properties.

  How they interact: the multiplexer watches the sockets for what their streams ask for, and a stream hands the
  chunks it collects to its broker and sends what the broker writes; a node that dispatches a message looks up a route in its table, writes a header and the
  body to the buffer of the connection and flushes it; the node that receives the bytes reads the header, waits
  for the payload, and forwards the message or delivers it. Delivery enqueues it to the mailbox of an actor;
  the actor reads it, by priority when it is aware of priorities, and keeps what its behavior skips in the
  second part of the cache. What a handler returns, or the error that nobody handled, goes back as a response; an
  actor that ends closes its mailbox, runs its attachables and so tells the actors that monitor it or are linked
  to it. On another node it is represented by a proxy, which the broker ends when it hears of the end.

  What the lemmas show. Sequential operations of data structures are related to lists and maps
  (\<open>mailbox_rep\<close>, \<open>holds\<close>, \<open>plist\<close>, \<open>rt_wf\<close>), each operation by one lemma, and the properties are about runs of
  many operations. Errors are values: a property of kind error states an input at which the code does
  something else than its documentation or its callers expect.

  Bounds. No fuel is used: loops are structural, have a measure, or are \<open>partial_function (option)\<close> with the
  result proved to be \<open>Some\<close>. Integers have their width, so the bounds in the hypotheses (\<open>2 ^ 61\<close> requests,
  sizes below \<open>2 ^ 31\<close>, payloads below \<open>2 ^ 32\<close>) are those of the code.

  Assumptions. The machine is little endian with a 64 bit \<open>size_t\<close>. Atomic operations are sequentially
  consistent. A weak exchange may fail at any time. Hash sets are lists in their order of iteration.

  Not modelled: the condition variables of \<open>synchronized_await\<close> and of the count of running actors, floating
  point serialization, the loop of priority aware and blocking actors, the links of proxies, split and join
  pools, the subscriptions that an actor keeps, copy on write, merged messages, the worker threads of the
  scheduler, the opening of sockets, acceptors, the pipe other than resuming a broker, the fields of the
  configuration, logging, examples, tests and tools.
\<close>

end
